(* ===== verification/Prelude.thy ===== *)
theory Prelude
  imports Main "HOL-Library.Word" "HOL-Library.Monad_Syntax"
begin

unbundle bit_operations_syntax

text \<open>
  The vocabulary shared by every component: machine integers, checked array accesses and the
  option monad in which \<open>None\<close> stands for undefined behaviour of the C++ code (an access
  outside an array, a read of a missing object) or, for a loop, for not returning.
  A theorem that an operation returns \<open>Some\<close> is therefore a memory-safety and a termination
  statement at once.
\<close>

named_theorems access_simps \<open>rewriting of checked array accesses\<close>

section \<open>Machine integers\<close>

type_synonym u8 = "8 word"
type_synonym u16 = "16 word"
type_synonym u32 = "32 word"

text \<open>Storing a C \<open>int\<close> into a narrower unsigned object keeps the low bits.\<close>

abbreviation to_u8 :: "int \<Rightarrow> u8" where "to_u8 n \<equiv> word_of_int n"
abbreviation to_u16 :: "int \<Rightarrow> u16" where "to_u16 n \<equiv> word_of_int n"
abbreviation to_u32 :: "int \<Rightarrow> u32" where "to_u32 n \<equiv> word_of_int n"

text \<open>C's conversions of an \<open>int\<close> to \<open>signed char\<close> and to \<open>short\<close>, and C's truncating division.\<close>

definition to_s8 :: "int \<Rightarrow> int" where
  "to_s8 n = (n + 128) mod 256 - 128"

definition to_s16 :: "int \<Rightarrow> int" where
  "to_s16 n = (n + 2 ^ 15) mod 2 ^ 16 - 2 ^ 15"

definition c_div :: "int \<Rightarrow> int \<Rightarrow> int" where
  "c_div a b = sgn a * sgn b * (\<bar>a\<bar> div \<bar>b\<bar>)"

definition c_mod :: "int \<Rightarrow> int \<Rightarrow> int" where
  "c_mod a b = a - c_div a b * b"

lemma to_s8_range: "-128 \<le> to_s8 n" "to_s8 n < 128"
  by (simp_all add: to_s8_def)

lemma to_s16_small: "-32768 \<le> n \<Longrightarrow> n < 32768 \<Longrightarrow> to_s16 n = n"
  by (simp add: to_s16_def)

lemma c_div_nonneg: "0 \<le> a \<Longrightarrow> 0 < b \<Longrightarrow> c_div a b = a div b"
  by (cases "a = 0") (simp_all add: c_div_def sgn_if)

lemma c_mod_nonneg: "0 \<le> a \<Longrightarrow> 0 < b \<Longrightarrow> c_mod a b = a mod b"
  by (simp add: c_mod_def c_div_nonneg minus_div_mult_eq_mod)

lemma uint_u8_bounds [simp]: "0 \<le> uint (x :: u8)" "uint (x :: u8) < 256" "uint (x :: u8) \<le> 255"
  using uint_lt2p [of x] by simp_all

lemma unat_u8_bound [simp]: "unat (x :: u8) < 256" "unat (x :: u8) \<le> 255"
  using unsigned_less [of x, where 'a = nat] by simp_all

lemma unat_u16_bound [simp]: "unat (x :: u16) < 65536" "unat (x :: u16) \<le> 65535"
  using unsigned_less [of x, where 'a = nat] by simp_all

lemma unat_low_nibble: "unat ((b :: u8) AND 0x0F) = unat b mod 16"
proof -
  have "b AND 0x0F = take_bit 4 b" by (simp add: take_bit_eq_mask mask_eq_exp_minus_1)
  then have "unat (b AND 0x0F) = take_bit 4 (unat b)" by (simp only: unsigned_take_bit_eq)
  then show ?thesis by (simp add: take_bit_eq_mod)
qed

text \<open>Bits put together.\<close>

lemma or_push_bit_nat: "a < 2 ^ k \<Longrightarrow> a OR push_bit k b = a + 2 ^ k * (b :: nat)"
proof -
  assume "a < 2 ^ k"
  then have "take_bit k a = a" by (simp add: take_bit_nat_eq_self)
  then have "a AND push_bit k b = 0" by (metis (no_types, lifting) bit_and_iff bit_eqI bit_push_bit_iff bit_take_bit_iff linorder_not_less bit_0_eq bot_apply bot_bool_def)
  then have "a OR push_bit k b = a + push_bit k b" by (simp add: disjunctive_add_eq_or)
  then show ?thesis by (simp add: push_bit_eq_mult mult.commute)
qed

section \<open>Checked array accesses\<close>

definition rd :: "'a list \<Rightarrow> nat \<Rightarrow> 'a option" where
  "rd xs i = (if i < length xs then Some (xs ! i) else None)"

definition wr :: "'a list \<Rightarrow> nat \<Rightarrow> 'a \<Rightarrow> 'a list option" where
  "wr xs i v = (if i < length xs then Some (xs[i := v]) else None)"

text \<open>The same with a C \<open>int\<close> as the index.\<close>

definition rd_int :: "'a list \<Rightarrow> int \<Rightarrow> 'a option" where
  "rd_int xs i = (if 0 \<le> i then rd xs (nat i) else None)"

lemma rd_Some [access_simps]: "i < length xs \<Longrightarrow> rd xs i = Some (xs ! i)"
  by (simp add: rd_def)

lemma rd_None [access_simps]: "\<not> i < length xs \<Longrightarrow> rd xs i = None"
  by (simp add: rd_def)

lemma rd_eq_Some_iff: "rd xs i = Some v \<longleftrightarrow> i < length xs \<and> v = xs ! i"
  by (auto simp: rd_def)

lemma wr_Some [access_simps]: "i < length xs \<Longrightarrow> wr xs i v = Some (xs[i := v])"
  by (simp add: wr_def)

lemma wr_eq_Some_iff: "wr xs i v = Some ys \<longleftrightarrow> i < length xs \<and> ys = xs[i := v]"
  by (auto simp: wr_def)

lemma rd_int_nonneg [access_simps]: "0 \<le> i \<Longrightarrow> rd_int xs i = rd xs (nat i)"
  by (simp add: rd_int_def)

lemma rd_int_neg: "i < 0 \<Longrightarrow> rd_int xs i = None"
  by (simp add: rd_int_def)

text \<open>Two-dimensional arrays, as lists of rows.\<close>

definition rd2 :: "'a list list \<Rightarrow> nat \<Rightarrow> nat \<Rightarrow> 'a option" where
  "rd2 m i j = do { r \<leftarrow> rd m i; rd r j }"

definition wr2 :: "'a list list \<Rightarrow> nat \<Rightarrow> nat \<Rightarrow> 'a \<Rightarrow> 'a list list option" where
  "wr2 m i j v = do { r \<leftarrow> rd m i; r' \<leftarrow> wr r j v; wr m i r' }"

definition matrix :: "nat \<Rightarrow> nat \<Rightarrow> 'a list list \<Rightarrow> bool" where
  "matrix rows cols m \<longleftrightarrow> length m = rows \<and> (\<forall>r \<in> set m. length r = cols)"

lemma matrix_row [simp]: "matrix rows cols m \<Longrightarrow> i < rows \<Longrightarrow> length (m ! i) = cols"
  by (simp add: matrix_def)

lemma matrix_length: "matrix rows cols m \<Longrightarrow> length m = rows"
  by (simp add: matrix_def)

lemma rd2_Some [access_simps]:
  "matrix rows cols m \<Longrightarrow> i < rows \<Longrightarrow> j < cols \<Longrightarrow> rd2 m i j = Some (m ! i ! j)"
  by (simp add: rd2_def rd_def matrix_length)

lemma wr2_Some [access_simps]:
  "matrix rows cols m \<Longrightarrow> i < rows \<Longrightarrow> j < cols \<Longrightarrow> wr2 m i j v = Some (m[i := (m ! i)[j := v]])"
  by (simp add: wr2_def rd_def wr_def matrix_length)

lemma matrix_update [simp]:
  "matrix rows cols m \<Longrightarrow> i < rows \<Longrightarrow> length r = cols \<Longrightarrow> matrix rows cols (m[i := r])"
  by (auto simp: matrix_def dest!: set_update_subset_insert [THEN subsetD])

lemma matrix_replicate [simp]: "matrix rows cols (replicate rows (replicate cols v))"
  by (simp add: matrix_def)

text \<open>A guard of the code that must hold, an \<open>assert\<close> for instance.\<close>

definition require :: "bool \<Rightarrow> unit option" where
  "require b = (if b then Some () else None)"

lemma require_True [simp]: "require True = Some ()"
  by (simp add: require_def)

lemma require_eq_Some_iff [simp]: "require b = Some u \<longleftrightarrow> b"
  by (auto simp: require_def)

section \<open>Generic lemmas\<close>

lemma bind_eq_SomeE:
  assumes "Option.bind m f = Some y"
  obtains x where "m = Some x" and "f x = Some y"
  using assms by (cases m) auto

lemma length_fold_update [simp]:
  "length (fold (\<lambda>i d. d[i := g i]) xs d) = length d"
  by (induction xs arbitrary: d) simp_all

lemma nth_fold_update:
  "j < length d \<Longrightarrow> fold (\<lambda>i d. d[i := g i]) xs d ! j = (if j \<in> set xs then g j else d ! j)"
  by (induction xs arbitrary: d) (auto simp: nth_list_update)

section \<open>Loops over an index list that may fail\<close>

text \<open>A \<open>for\<close> loop whose body may fault: the fold of the option monad.\<close>

fun ofold :: "('i \<Rightarrow> 's \<Rightarrow> 's option) \<Rightarrow> 'i list \<Rightarrow> 's \<Rightarrow> 's option" where
  "ofold f [] s = Some s"
| "ofold f (i # is) s = do { s' \<leftarrow> f i s; ofold f is s' }"

lemma ofold_append: "ofold f (xs @ ys) s = do { s' \<leftarrow> ofold f xs s; ofold f ys s' }"
  by (induction xs arbitrary: s) (auto split: bind_splits)

text \<open>The invariant rule of such a loop: the body keeps \<open>P\<close>, so the loop returns and keeps it.\<close>

lemma ofold_invariant:
  assumes "P s" and "\<And>i s. i \<in> set is \<Longrightarrow> P s \<Longrightarrow> \<exists>s'. f i s = Some s' \<and> P s'"
  shows "\<exists>s'. ofold f is s = Some s' \<and> P s'"
  using assms
proof (induction "is" arbitrary: s)
  case Nil
  then show ?case by simp
next
  case (Cons i "is")
  from Cons.prems obtain s' where s': "f i s = Some s'" "P s'" by fastforce
  obtain s'' where "ofold f is s' = Some s''" "P s''"
    using Cons.IH [OF s'(2)] Cons.prems(2) by auto
  with s'(1) show ?case by simp
qed

text \<open>The rule of a loop that counts, whose invariant speaks of the counter.\<close>

lemma ofold_upt_invariant:
  assumes "P 0 s" and "\<And>i s. i < n \<Longrightarrow> P i s \<Longrightarrow> \<exists>s'. f i s = Some s' \<and> P (Suc i) s'"
  shows "\<exists>s'. ofold f [0..<n] s = Some s' \<and> P n s'"
  using assms(2)
proof (induction n)
  case 0
  then show ?case using assms(1) by simp
next
  case (Suc n)
  then obtain t where t: "ofold f [0..<n] s = Some t" "P n t" by auto
  then obtain u where "f n t = Some u" "P (Suc n) u" using Suc.prems by blast
  then show ?case using t(1) by (simp add: ofold_append)
qed

lemma ofold_total: "(\<And>i s. i \<in> set is \<Longrightarrow> f i s = Some (g i s)) \<Longrightarrow> ofold f is s = Some (fold g is s)"
  by (induction "is" arbitrary: s) simp_all

section \<open>Sliding windows\<close>

text \<open>
  What the decompressors of the library promise of a copy: octets of the output, from a distance, zeros from
  before its start.
\<close>

definition window_octet :: "nat \<Rightarrow> u8 list \<Rightarrow> u8" where
  "window_octet d out = (if d \<le> length out then out ! (length out - d) else 0)"

fun window_copy :: "nat \<Rightarrow> nat \<Rightarrow> u8 list \<Rightarrow> u8 list" where
  "window_copy d 0 out = out"
| "window_copy d (Suc n) out = window_copy d n (out @ [window_octet d out])"

lemma window_octet_snoc: "0 < d \<Longrightarrow> window_octet (Suc d) (out @ [b]) = window_octet d out"
  by (auto simp: window_octet_def nth_append)

lemma window_octet_last: "window_octet (Suc 0) (out @ [b]) = b"
  by (simp add: window_octet_def)

lemma length_window_copy [simp]: "length (window_copy d n out) = length out + n"
  by (induction n arbitrary: out) simp_all

end
