(* ===== verification/Binio.thy ===== *)
theory Binio
  imports Prelude
begin

text \<open>
  The file interface. libbinio is not part of this repository: its streams are the abstract type
  \<open>'s\<close>, and its operations a record of functions that every loader takes as an argument. What a
  loader relies on is stated as \<open>binio_laws\<close>, the documented behaviour of a little-endian stream.
  \<open>CFileProvider\<close> (\<open>src/fprovide.cpp\<close>) is modelled on top of it.
\<close>

type_synonym bytes = "u8 list"

record ('s, 'fl) binio =
  bio_readInt :: "nat \<Rightarrow> 's \<Rightarrow> int \<times> 's"
  bio_readFloat :: "'s \<Rightarrow> 'fl \<times> 's"
  bio_readString :: "nat \<Rightarrow> bytes \<Rightarrow> 's \<Rightarrow> nat \<times> bytes \<times> 's"
    \<comment> \<open>\<open>readString(char *, n)\<close>: maps the old buffer to the count and the new buffer\<close>
  bio_readStringZ :: "nat \<Rightarrow> u8 \<Rightarrow> bytes \<Rightarrow> 's \<Rightarrow> bytes \<times> 's"
    \<comment> \<open>\<open>readString(char *, maxlen, delim)\<close>\<close>
  bio_readDelim :: "u8 \<Rightarrow> 's \<Rightarrow> bytes \<times> 's"
    \<comment> \<open>\<open>std::string readString(delim)\<close>\<close>
  bio_seekSet :: "int \<Rightarrow> 's \<Rightarrow> 's"
  bio_seekAdd :: "int \<Rightarrow> 's \<Rightarrow> 's"
  bio_seekEnd :: "int \<Rightarrow> 's \<Rightarrow> 's"
  bio_pos :: "'s \<Rightarrow> nat"
  bio_ignore :: "nat \<Rightarrow> 's \<Rightarrow> 's"
  bio_eof :: "'s \<Rightarrow> bool"
  bio_ateof :: "'s \<Rightarrow> bool"
  bio_error :: "'s \<Rightarrow> bool"

record ('o, 'fl) binio_out =
  bo_writeInt :: "int \<Rightarrow> nat \<Rightarrow> 'o \<Rightarrow> 'o"
  bo_writeFloat :: "'fl \<Rightarrow> 'o \<Rightarrow> 'o"
  bo_writeString :: "bytes \<Rightarrow> 'o \<Rightarrow> 'o"

section \<open>Byte sequences\<close>

definition bytes_of :: "string \<Rightarrow> bytes" where
  "bytes_of = map of_char"

fun le_value :: "bytes \<Rightarrow> int" where
  "le_value [] = 0"
| "le_value (b # bs) = uint b + 256 * le_value bs"

fun le_bytes :: "nat \<Rightarrow> int \<Rightarrow> bytes" where
  "le_bytes 0 v = []"
| "le_bytes (Suc n) v = to_u8 v # le_bytes n (v div 256)"

lemma length_le_bytes [simp]: "length (le_bytes n v) = n"
  by (induction n arbitrary: v) simp_all

lemma le_value_le_bytes: "0 \<le> v \<Longrightarrow> v < 256 ^ n \<Longrightarrow> le_value (le_bytes n v) = v"
proof (induction n arbitrary: v)
  case 0
  then show ?case by simp
next
  case (Suc n)
  then have "v div 256 < 256 ^ n" by (simp add: div_less_iff_less_mult mult.commute)
  moreover have "0 \<le> v div 256" using Suc.prems by (simp add: pos_imp_zdiv_nonneg_iff)
  ultimately have "le_value (le_bytes n (v div 256)) = v div 256" by (rule Suc.IH [rotated])
  then show ?case by (simp add: uint_word_of_int)
qed

section \<open>The laws of a little-endian stream\<close>

text \<open>
  \<open>rest s\<close> are the bytes ahead of the stream position, \<open>written t\<close> those written so far;
  \<open>fbytes\<close> is the four-byte image of a \<open>float\<close>. libbinio reads and writes integers of up to 8 bytes.
\<close>

definition binio_laws ::
  "('s, 'fl) binio \<Rightarrow> ('s \<Rightarrow> bytes) \<Rightarrow> ('fl \<Rightarrow> bytes) \<Rightarrow> bool" where
  "binio_laws io rest fbytes \<longleftrightarrow>
     (\<forall>n s xs ys. n \<le> 8 \<longrightarrow> rest s = xs @ ys \<longrightarrow> length xs = n \<longrightarrow>
        (\<exists>s'. bio_readInt io n s = (le_value xs, s') \<and> rest s' = ys)) \<and>
     (\<forall>n b s xs ys. rest s = xs @ ys \<longrightarrow> length xs = n \<longrightarrow> length b = n \<longrightarrow>
        (\<exists>s'. bio_readString io n b s = (n, xs, s') \<and> rest s' = ys)) \<and>
     (\<forall>s xs ys. rest s = xs @ 0 # ys \<longrightarrow> 0 \<notin> set xs \<longrightarrow>
        (\<exists>s'. bio_readDelim io 0 s = (xs, s') \<and> rest s' = ys)) \<and>
     (\<forall>s x ys. rest s = fbytes x @ ys \<longrightarrow>
        (\<exists>s'. bio_readFloat io s = (x, s') \<and> rest s' = ys))"

definition binio_out_laws ::
  "('o, 'fl) binio_out \<Rightarrow> ('o \<Rightarrow> bytes) \<Rightarrow> ('fl \<Rightarrow> bytes) \<Rightarrow> bool" where
  "binio_out_laws oo written fbytes \<longleftrightarrow>
     (\<forall>v n t. n \<le> 8 \<longrightarrow> written (bo_writeInt oo v n t) = written t @ le_bytes n v) \<and>
     (\<forall>x t. written (bo_writeFloat oo x t) = written t @ fbytes x) \<and>
     (\<forall>xs t. written (bo_writeString oo xs t) = written t @ xs)"

lemma binio_lawsD:
  assumes "binio_laws io rest fbytes"
  shows "rest s = xs @ ys \<Longrightarrow> length xs \<le> 8 \<Longrightarrow> \<exists>s'. bio_readInt io (length xs) s = (le_value xs, s') \<and> rest s' = ys"
    and "rest s = xs @ ys \<Longrightarrow> length b = length xs \<Longrightarrow>
         \<exists>s'. bio_readString io (length xs) b s = (length xs, xs, s') \<and> rest s' = ys"
    and "rest s = xs @ 0 # ys \<Longrightarrow> 0 \<notin> set xs \<Longrightarrow>
         \<exists>s'. bio_readDelim io 0 s = (xs, s') \<and> rest s' = ys"
    and "rest s = fbytes x @ ys \<Longrightarrow> \<exists>s'. bio_readFloat io s = (x, s') \<and> rest s' = ys"
  using assms unfolding binio_laws_def by blast+

section \<open>A stream over a list of bytes\<close>

text \<open>An instance of the parameters: a position in a list, with \<open>float\<close>s as 32-bit patterns.\<close>

record memstream =
  ms_bytes :: bytes
  ms_pos :: nat
  ms_eof :: bool

definition ms_rest :: "memstream \<Rightarrow> bytes" where
  "ms_rest s = drop (ms_pos s) (ms_bytes s)"

definition ms_advance :: "nat \<Rightarrow> memstream \<Rightarrow> memstream" where
  "ms_advance n s =
     s\<lparr>ms_pos := min (ms_pos s + n) (length (ms_bytes s)),
       ms_eof := ms_eof s \<or> length (ms_bytes s) < ms_pos s + n\<rparr>"

definition ms_seek :: "int \<Rightarrow> memstream \<Rightarrow> memstream" where
  "ms_seek p s = s\<lparr>ms_pos := min (nat p) (length (ms_bytes s)), ms_eof := False\<rparr>"

definition memio :: "(memstream, u32) binio" where
  "memio =
     \<lparr>bio_readInt = (\<lambda>n s. (le_value (take n (ms_rest s)), ms_advance n s)),
      bio_readFloat = (\<lambda>s. (word_of_int (le_value (take 4 (ms_rest s))), ms_advance 4 s)),
      bio_readString = (\<lambda>n b s. let xs = take n (ms_rest s)
         in (length xs, xs @ drop (length xs) b, ms_advance n s)),
      bio_readStringZ = (\<lambda>n d b s. let xs = takeWhile (\<lambda>c. c \<noteq> d) (take n (ms_rest s))
         in (xs @ 0 # drop (Suc (length xs)) b, ms_advance (Suc (length xs)) s)),
      bio_readDelim = (\<lambda>d s. let xs = takeWhile (\<lambda>c. c \<noteq> d) (ms_rest s)
         in (xs, ms_advance (Suc (length xs)) s)),
      bio_seekSet = ms_seek,
      bio_seekAdd = (\<lambda>n s. ms_seek (int (ms_pos s) + n) s),
      bio_seekEnd = (\<lambda>n s. ms_seek (int (length (ms_bytes s)) + n) s),
      bio_pos = ms_pos,
      bio_ignore = ms_advance,
      bio_eof = ms_eof,
      bio_ateof = (\<lambda>s. ms_pos s = length (ms_bytes s)),
      bio_error = ms_eof\<rparr>"

definition memout :: "(bytes, u32) binio_out" where
  "memout =
     \<lparr>bo_writeInt = (\<lambda>v n t. t @ le_bytes n v),
      bo_writeFloat = (\<lambda>x t. t @ le_bytes 4 (uint x)),
      bo_writeString = (\<lambda>xs t. t @ xs)\<rparr>"

lemma ms_advance_rest: "ms_rest s = xs @ ys \<Longrightarrow> n = length xs \<Longrightarrow> ms_rest (ms_advance n s) = ys"
proof -
  assume rest: "ms_rest s = xs @ ys" and n: "n = length xs"
  have "length (ms_bytes s) - ms_pos s = length xs + length ys"
    using arg_cong [OF rest, of length] by (simp add: ms_rest_def)
  moreover have "drop n (ms_rest s) = ys" using rest n by simp
  ultimately show ?thesis
    using n by (cases "length xs = 0") (auto simp: ms_rest_def ms_advance_def min_def add.commute)
qed

lemma memio_laws: "binio_laws memio ms_rest (\<lambda>x. le_bytes 4 (uint x))"
proof -
  have 32: "uint (x :: u32) < 256 ^ 4" for x using uint_lt2p [of x] by simp
  have delim: "takeWhile (\<lambda>c. c \<noteq> 0) (xs @ 0 # ys) = xs" if "0 \<notin> set xs" for xs ys :: bytes
    using that by (induction xs) auto
  have sep: "ms_rest (ms_advance (Suc (length xs)) s) = ys"
    if "ms_rest s = xs @ 0 # ys" for s xs ys
    by (rule ms_advance_rest [where xs = "xs @ [0]"]) (simp_all add: that)
  show ?thesis
    unfolding binio_laws_def
    by (auto simp: memio_def le_value_le_bytes [OF _ 32] delim sep ms_advance_rest)
qed

lemma memout_laws: "binio_out_laws memout (\<lambda>t. t) (\<lambda>x. le_bytes 4 (uint x))"
  by (simp add: binio_out_laws_def memout_def)

section \<open>CFileProvider\<close>

text \<open>\<open>stricmp\<close> of the C library compares without regard to the case of ASCII letters.\<close>

definition to_lower :: "char \<Rightarrow> nat" where
  "to_lower c = (let n = of_char c in if 65 \<le> n \<and> n \<le> 90 then n + 32 else n)"

definition stricmp_eq :: "string \<Rightarrow> string \<Rightarrow> bool" where
  "stricmp_eq a b \<longleftrightarrow> map to_lower a = map to_lower b"

definition c_str :: "string \<Rightarrow> string" where
  "c_str s = takeWhile (\<lambda>c. c \<noteq> CHR 0x00) s"

definition fp_extension :: "string \<Rightarrow> string \<Rightarrow> bool" where
  "fp_extension filename ext =
     (let fname = c_str filename; e = c_str ext
      in if length fname < length e \<or> \<not> stricmp_eq (drop (length fname - length e) fname) e
         then False else True)"

definition fp_filesize :: "('s, 'fl) binio \<Rightarrow> 's \<Rightarrow> nat \<times> 's" where
  "fp_filesize io f =
     (let oldpos = bio_pos io f;
          f1 = bio_seekEnd io 0 f;
          size = bio_pos io f1;
          f2 = bio_seekSet io (int oldpos) f1
      in (size, f2))"

text \<open>\<open>CProvider_Filesystem::open\<close>, with the host's file system as the function \<open>fs\<close>.\<close>

definition fp_open :: "('s, 'fl) binio \<Rightarrow> (string \<Rightarrow> 's) \<Rightarrow> string \<Rightarrow> 's option" where
  "fp_open io fs filename =
     (let f = fs filename in if bio_error io f then None else Some f)"

text \<open>Memory the code reads before writing it: the contents of a fresh buffer.\<close>

definition fresh :: "(nat \<Rightarrow> u8) \<Rightarrow> nat \<Rightarrow> bytes" where
  "fresh mem n = map mem [0..<n]"

lemma length_fresh [simp]: "length (fresh mem n) = n"
  by (simp add: fresh_def)

end
