(* ===== verification/Database.thy ===== *)
theory Database
  imports Binio
begin

text \<open>
  \<open>src/database.cpp\<close>: the module information database, a hash table with chaining whose buckets
  are also kept in insertion order. A pointer to a bucket is its address in the list \<open>db_heap\<close>
  of all buckets ever made; both pointer arrays start as all-null and are partial maps.
\<close>

section \<open>Keys\<close>

type_synonym u64 = "64 word"

record ckey =
  crc16 :: u16
  crc32 :: u64

definition key_eq :: "ckey \<Rightarrow> ckey \<Rightarrow> bool" where
  "key_eq a b \<longleftrightarrow> crc16 a = crc16 b \<and> crc32 a = crc32 b"

definition magic16 :: u16 where "magic16 = 0xa001"
definition magic32 :: u64 where "magic32 = 0xedb88320"

text \<open>One of the eight bit steps of \<open>CKey::make\<close>.\<close>

definition crc_bit :: "u16 \<times> u64 \<times> u8 \<Rightarrow> u16 \<times> u64 \<times> u8" where
  "crc_bit = (\<lambda>(c16, c32, byte).
     (if (c16 XOR ucast byte) AND 1 \<noteq> 0 then drop_bit 1 c16 XOR magic16 else drop_bit 1 c16,
      if (c32 XOR ucast byte) AND 1 \<noteq> 0 then drop_bit 1 c32 XOR magic32 else drop_bit 1 c32,
      drop_bit 1 byte))"

definition crc_byte :: "u16 \<times> u64 \<Rightarrow> u8 \<Rightarrow> u16 \<times> u64" where
  "crc_byte = (\<lambda>(c16, c32) byte.
     (case (crc_bit ^^ 8) (c16, c32, byte) of (a, b, _) \<Rightarrow> (a, b)))"

text \<open>\<open>while(!buf.eof())\<close>: the loop ends when the stream says so.\<close>

partial_function (option) make_loop ::
  "('s, 'fl) binio \<Rightarrow> 's \<Rightarrow> u16 \<times> u64 \<Rightarrow> ((u16 \<times> u64) \<times> 's) option" where
  "make_loop io s crc =
     (if bio_eof io s then Some (crc, s)
      else do {
        let (v, s1) = bio_readInt io 1 s;
        make_loop io s1 (crc_byte crc (to_u8 v))
      })"

definition key_make :: "('s, 'fl) binio \<Rightarrow> 's \<Rightarrow> (ckey \<times> 's) option" where
  "key_make io s = do {
     ((c16, c32), s1) \<leftarrow> make_loop io s (0, 0xffffffff);
     Some (\<lparr>crc16 = c16 AND 0xffff, crc32 = NOT c32 AND 0xffffffff\<rparr>, s1)
   }"

section \<open>Records\<close>

datatype 'fl record_body =
    Plain
  | SongInfo (song_title: bytes) (song_author: bytes)
  | ClockSpeed (clock: 'fl)

record 'fl crecord =
  rec_key :: ckey
  rec_filetype :: bytes
  rec_comment :: bytes
  rec_body :: "'fl record_body"

fun record_type :: "'fl record_body \<Rightarrow> int" where
  "record_type Plain = 0"
| "record_type (SongInfo _ _) = 1"
| "record_type (ClockSpeed _) = 2"

fun get_size :: "'fl record_body \<Rightarrow> int" where
  "get_size Plain = 0"
| "get_size (SongInfo t a) = int (length t) + int (length a) + 2"
| "get_size (ClockSpeed _) = 4"

fun write_own :: "('o, 'fl) binio_out \<Rightarrow> 'fl record_body \<Rightarrow> 'o \<Rightarrow> 'o" where
  "write_own oo Plain out = out"
| "write_own oo (SongInfo t a) out =
     bo_writeInt oo 0 1 (bo_writeString oo a (bo_writeInt oo 0 1 (bo_writeString oo t out)))"
| "write_own oo (ClockSpeed c) out = bo_writeFloat oo c out"

definition record_write :: "('o, 'fl) binio_out \<Rightarrow> 'fl crecord \<Rightarrow> 'o \<Rightarrow> 'o" where
  "record_write oo r out =
     (let o1 = bo_writeInt oo (record_type (rec_body r)) 1 out;
          o2 = bo_writeInt oo (get_size (rec_body r) + int (length (rec_filetype r))
                 + int (length (rec_comment r)) + 8) 4 o1;
          o3 = bo_writeInt oo (uint (crc32 (rec_key r))) 4
                 (bo_writeInt oo (uint (crc16 (rec_key r))) 2 o2);
          o4 = bo_writeInt oo 0 1 (bo_writeString oo (rec_filetype r) o3);
          o5 = bo_writeInt oo 0 1 (bo_writeString oo (rec_comment r) o4)
      in write_own oo (rec_body r) o5)"

text \<open>\<open>read_own\<close>, by the type the factory has chosen.\<close>

definition read_own :: "('s, 'fl) binio \<Rightarrow> int \<Rightarrow> 's \<Rightarrow> 'fl record_body \<times> 's" where
  "read_own io ty s =
     (if ty = 1 then
        (let (t, s1) = bio_readDelim io 0 s; (a, s2) = bio_readDelim io 0 s1
         in (SongInfo t a, s2))
      else if ty = 2 then (let (c, s1) = bio_readFloat io s in (ClockSpeed c, s1))
      else (Plain, s))"

definition record_factory :: "('s, 'fl) binio \<Rightarrow> 's \<Rightarrow> 'fl crecord option \<times> 's" where
  "record_factory io s =
     (let (ty, s1) = bio_readInt io 1 s;
          (size, s2) = bio_readInt io 4 s1
      in if ty = 0 \<or> ty = 1 \<or> ty = 2 then
           (let (k16, s3) = bio_readInt io 2 s2;
                (k32, s4) = bio_readInt io 4 s3;
                (ft, s5) = bio_readDelim io 0 s4;
                (cm, s6) = bio_readDelim io 0 s5;
                (body, s7) = read_own io ty s6
            in (Some \<lparr>rec_key = \<lparr>crc16 = to_u16 k16, crc32 = word_of_int k32\<rparr>,
                      rec_filetype = ft, rec_comment = cm, rec_body = body\<rparr>, s7))
         else (None, bio_seekAdd io size s2))"

section \<open>The hash table\<close>

definition hash_radix :: nat where "hash_radix = 0xfff1"

record 'fl db_bucket =
  bk_index :: nat
  bk_deleted :: bool
  bk_chain :: "nat option"
  bk_record :: "'fl crecord"

record 'fl database =
  db_heap :: "'fl db_bucket list"
  db_linear :: "nat \<rightharpoonup> nat"
  db_hashed :: "nat \<rightharpoonup> nat"
  linear_index :: nat
  linear_logic_length :: nat
  linear_length :: nat

definition new_database :: "'fl database" where
  "new_database =
     \<lparr>db_heap = [], db_linear = Map.empty, db_hashed = Map.empty,
      linear_index = 0, linear_logic_length = 0, linear_length = 0\<rparr>"

definition make_hash :: "ckey \<Rightarrow> nat" where
  "make_hash k = unat (crc32 k + ucast (crc16 k)) mod hash_radix"

definition bucket_hit :: "ckey \<Rightarrow> 'fl db_bucket \<Rightarrow> bool" where
  "bucket_hit k b \<longleftrightarrow> \<not> bk_deleted b \<and> key_eq (rec_key (bk_record b)) k"

partial_function (option) chain_lookup ::
  "'fl database \<Rightarrow> ckey \<Rightarrow> nat option \<Rightarrow> (bool \<times> 'fl database) option" where
  "chain_lookup db k p =
     (case p of
        None \<Rightarrow> Some (False, db)
      | Some a \<Rightarrow> do {
          b \<leftarrow> rd (db_heap db) a;
          if bucket_hit k b then Some (True, db\<lparr>linear_index := bk_index b\<rparr>)
          else chain_lookup db k (bk_chain b)
        })"

definition db_lookup :: "ckey \<Rightarrow> 'fl database \<Rightarrow> (bool \<times> 'fl database) option" where
  "db_lookup k db =
     (let index = make_hash k in
      case db_hashed db index of
        None \<Rightarrow> Some (False, db)
      | Some a \<Rightarrow> do {
          bucket \<leftarrow> rd (db_heap db) a;
          if bucket_hit k bucket then Some (True, db\<lparr>linear_index := bk_index bucket\<rparr>)
          else chain_lookup db k (bk_chain bucket)
        })"

partial_function (option) chain_last :: "'fl db_bucket list \<Rightarrow> nat \<Rightarrow> nat option" where
  "chain_last heap a = do {
     b \<leftarrow> rd heap a;
     (case bk_chain b of None \<Rightarrow> Some a | Some a' \<Rightarrow> chain_last heap a')
   }"

definition db_insert :: "'fl crecord option \<Rightarrow> 'fl database \<Rightarrow> (bool \<times> 'fl database) option" where
  "db_insert record db =
     (case record of
        None \<Rightarrow> Some (False, db)
      | Some r \<Rightarrow>
          if linear_length db = hash_radix then Some (False, db)
          else do {
            (found, db0) \<leftarrow> db_lookup (rec_key r) db;
            if found then Some (False, db0)
            else do {
              let bucket = length (db_heap db0);
              let db1 = db0\<lparr>db_heap := db_heap db0 @
                    [\<lparr>bk_index = linear_length db0, bk_deleted = False, bk_chain = None, bk_record = r\<rparr>],
                  db_linear := (db_linear db0)(linear_length db0 \<mapsto> bucket),
                  linear_logic_length := linear_logic_length db0 + 1,
                  linear_length := linear_length db0 + 1\<rparr>;
              let index = make_hash (rec_key r);
              case db_hashed db1 index of
                None \<Rightarrow> Some (True, db1\<lparr>db_hashed := (db_hashed db1)(index \<mapsto> bucket)\<rparr>)
              | Some first \<Rightarrow> do {
                  a \<leftarrow> chain_last (db_heap db1) first;
                  b \<leftarrow> rd (db_heap db1) a;
                  h \<leftarrow> wr (db_heap db1) a (b\<lparr>bk_chain := Some bucket\<rparr>);
                  Some (True, db1\<lparr>db_heap := h\<rparr>)
                }
            }
          })"

definition current_bucket :: "'fl database \<Rightarrow> (nat \<times> 'fl db_bucket) option" where
  "current_bucket db = do {
     a \<leftarrow> db_linear db (linear_index db);
     b \<leftarrow> rd (db_heap db) a;
     Some (a, b)
   }"

definition wipe_current :: "'fl database \<Rightarrow> 'fl database option" where
  "wipe_current db =
     (if linear_length db = 0 then Some db
      else do {
        (a, b) \<leftarrow> current_bucket db;
        if \<not> bk_deleted b then do {
          h \<leftarrow> wr (db_heap db) a (b\<lparr>bk_deleted := True\<rparr>);
          Some (db\<lparr>db_heap := h, linear_logic_length := linear_logic_length db - 1\<rparr>)
        } else Some db
      })"

definition wipe :: "'fl crecord \<Rightarrow> 'fl database \<Rightarrow> 'fl database option" where
  "wipe r db = do {
     (found, db1) \<leftarrow> db_lookup (rec_key r) db;
     if \<not> found then Some db1 else wipe_current db1
   }"

text \<open>
  What \<open>get_record\<close> hands out: a null pointer, a record, or a pointer to a record that
  \<open>wipe\<close> has deleted (the pointer stays in the bucket).
\<close>

datatype 'fl record_ptr = NullRecord | Record "'fl crecord" | DanglingRecord

definition get_record :: "'fl database \<Rightarrow> 'fl record_ptr option" where
  "get_record db =
     (if linear_length db = 0 then Some NullRecord
      else do {
        (_, b) \<leftarrow> current_bucket db;
        Some (if bk_deleted b then DanglingRecord else Record (bk_record b))
      })"

definition search :: "ckey \<Rightarrow> 'fl database \<Rightarrow> ('fl record_ptr \<times> 'fl database) option" where
  "search k db = do {
     (found, db1) \<leftarrow> db_lookup k db;
     if found then do { r \<leftarrow> get_record db1; Some (r, db1) } else Some (NullRecord, db1)
   }"

definition go_forward :: "'fl database \<Rightarrow> bool \<times> 'fl database" where
  "go_forward db =
     (if linear_index db + 1 < linear_length db
      then (True, db\<lparr>linear_index := linear_index db + 1\<rparr>) else (False, db))"

definition go_backward :: "'fl database \<Rightarrow> bool \<times> 'fl database" where
  "go_backward db =
     (if linear_index db = 0 then (False, db)
      else (True, db\<lparr>linear_index := linear_index db - 1\<rparr>))"

definition goto_begin :: "'fl database \<Rightarrow> 'fl database" where
  "goto_begin db = (if linear_length db \<noteq> 0 then db\<lparr>linear_index := 0\<rparr> else db)"

definition goto_end :: "'fl database \<Rightarrow> 'fl database" where
  "goto_end db = (if linear_length db \<noteq> 0 then db\<lparr>linear_index := linear_length db - 1\<rparr> else db)"

section \<open>Loading and saving\<close>

definition DB_FILEID_V10 :: bytes where
  "DB_FILEID_V10 = bytes_of ''AdPlug Module Information Database 1.0'' @ [0x10]"

fun load_records :: "('s, 'fl) binio \<Rightarrow> nat \<Rightarrow> 's \<Rightarrow> 'fl database \<Rightarrow> ('s \<times> 'fl database) option" where
  "load_records io 0 f db = Some (f, db)"
| "load_records io (Suc n) f db = do {
     let (r, f1) = record_factory io f;
     (_, db1) \<leftarrow> db_insert r db;
     load_records io n f1 db1
   }"

definition db_load ::
  "('s, 'fl) binio \<Rightarrow> (nat \<Rightarrow> u8) \<Rightarrow> 's \<Rightarrow> 'fl database \<Rightarrow> (bool \<times> 'fl database) option" where
  "db_load io mem f db = do {
     let idlen = length DB_FILEID_V10;
     let (_, id, f1) = bio_readString io idlen (fresh mem idlen) f;
     if id \<noteq> DB_FILEID_V10 then Some (False, db)
     else do {
       let (len, f2) = bio_readInt io 4 f1;
       (_, db1) \<leftarrow> load_records io (nat (len mod 2 ^ 64)) f2 db;
       Some (True, db1)
     }
   }"

definition save_bucket :: "('o, 'fl) binio_out \<Rightarrow> 'fl database \<Rightarrow> nat \<Rightarrow> 'o \<Rightarrow> 'o option" where
  "save_bucket oo db i out = do {
     a \<leftarrow> db_linear db i;
     b \<leftarrow> rd (db_heap db) a;
     Some (if \<not> bk_deleted b then record_write oo (bk_record b) out else out)
   }"

definition db_save :: "('o, 'fl) binio_out \<Rightarrow> 'fl database \<Rightarrow> 'o \<Rightarrow> 'o option" where
  "db_save oo db out =
     ofold (save_bucket oo db) [0..<linear_length db]
       (bo_writeInt oo (int (linear_logic_length db)) 4 (bo_writeString oo DB_FILEID_V10 out))"

section \<open>The abstract database: a finite map from keys to records\<close>

lemma key_eq_iff [simp]: "key_eq a b \<longleftrightarrow> a = b"
  by (cases a; cases b) (simp add: key_eq_def)

definition live_records :: "'fl db_bucket list \<Rightarrow> 'fl crecord list" where
  "live_records heap = map bk_record (filter (\<lambda>b. \<not> bk_deleted b) heap)"

definition db_abs :: "'fl database \<Rightarrow> ckey \<rightharpoonup> 'fl crecord" where
  "db_abs db = map_of (map (\<lambda>r. (rec_key r, r)) (live_records (db_heap db)))"

text \<open>A chain of buckets in memory, and the addresses on it.\<close>

inductive chain_seg :: "'fl db_bucket list \<Rightarrow> nat option \<Rightarrow> nat list \<Rightarrow> bool"
  for heap :: "'fl db_bucket list" where
  seg_nil: "chain_seg heap None []"
| seg_cons: "a < length heap \<Longrightarrow> chain_seg heap (bk_chain (heap ! a)) as \<Longrightarrow>
    chain_seg heap (Some a) (a # as)"

inductive_cases chain_seg_NoneE: "chain_seg heap None as"
inductive_cases chain_seg_SomeE: "chain_seg heap (Some a) as"
inductive_simps chain_seg_None [simp]: "chain_seg heap None as"
inductive_simps chain_seg_Nil [simp]: "chain_seg heap p []"
inductive_simps chain_seg_Cons: "chain_seg heap p (a # as)"

definition hash_at :: "'fl db_bucket list \<Rightarrow> nat \<Rightarrow> nat" where
  "hash_at heap i = make_hash (rec_key (bk_record (heap ! i)))"

definition slot :: "'fl db_bucket list \<Rightarrow> nat \<Rightarrow> nat list" where
  "slot heap h = filter (\<lambda>i. hash_at heap i = h) [0..<length heap]"

definition db_ok :: "'fl database \<Rightarrow> bool" where
  "db_ok db \<longleftrightarrow>
     linear_length db = length (db_heap db) \<and> length (db_heap db) \<le> hash_radix \<and>
     (\<forall>i < length (db_heap db). db_linear db i = Some i \<and> bk_index (db_heap db ! i) = i) \<and>
     (\<forall>h. chain_seg (db_heap db) (db_hashed db h) (slot (db_heap db) h)) \<and>
     distinct (map rec_key (live_records (db_heap db))) \<and>
     linear_logic_length db = length (live_records (db_heap db)) \<and>
     (linear_index db < linear_length db \<or> linear_length db = 0 \<and> linear_index db = 0)"

lemma db_okD:
  assumes "db_ok db"
  shows "linear_length db = length (db_heap db)" "length (db_heap db) \<le> hash_radix"
    and "\<And>i. i < length (db_heap db) \<Longrightarrow> db_linear db i = Some i"
    and "\<And>i. i < length (db_heap db) \<Longrightarrow> bk_index (db_heap db ! i) = i"
    and "\<And>h. chain_seg (db_heap db) (db_hashed db h) (slot (db_heap db) h)"
    and "distinct (map rec_key (live_records (db_heap db)))"
    and "linear_logic_length db = length (live_records (db_heap db))"
    and "linear_index db < linear_length db \<or> linear_length db = 0 \<and> linear_index db = 0"
  using assms unfolding db_ok_def by (blast, blast, blast, blast, blast, blast, blast, elim conjE)

lemma new_database_ok: "db_ok new_database" and new_database_abs: "db_abs new_database = Map.empty"
  by (simp_all add: db_ok_def new_database_def live_records_def slot_def db_abs_def)

section \<open>Looking up\<close>

lemma chain_lookup_find:
  "chain_seg (db_heap db) p as \<Longrightarrow>
   chain_lookup db k p =
     Some (case find (\<lambda>a. bucket_hit k (db_heap db ! a)) as of
             None \<Rightarrow> (False, db)
           | Some a \<Rightarrow> (True, db\<lparr>linear_index := bk_index (db_heap db ! a)\<rparr>))"
proof (induction rule: chain_seg.induct)
  case seg_nil
  show ?case by (subst chain_lookup.simps) simp
next
  case (seg_cons a as)
  then show ?case by (subst chain_lookup.simps) (simp add: access_simps)
qed

lemma db_lookup_chain: "db_lookup k db = chain_lookup db k (db_hashed db (make_hash k))"
  by (subst chain_lookup.simps) (simp add: db_lookup_def Let_def)

lemma live_hit:
  assumes "distinct (map rec_key (live_records heap))" "i < length heap" "bucket_hit k (heap ! i)"
  shows "map_of (map (\<lambda>r. (rec_key r, r)) (live_records heap)) k = Some (bk_record (heap ! i))"
proof -
  have "bk_record (heap ! i) \<in> set (live_records heap)" "rec_key (bk_record (heap ! i)) = k"
    using assms(2,3) by (auto simp: live_records_def bucket_hit_def)
  then show ?thesis
    using assms(1) by (intro map_of_is_SomeI) (auto simp: comp_def intro!: image_eqI)
qed

lemma live_miss:
  assumes "\<And>i. i < length heap \<Longrightarrow> \<not> bucket_hit k (heap ! i)"
  shows "map_of (map (\<lambda>r. (rec_key r, r)) (live_records heap)) k = None"
proof -
  have "k \<notin> rec_key ` set (live_records heap)"
    using assms by (auto simp: live_records_def bucket_hit_def in_set_conv_nth)
  then show ?thesis by (auto simp: map_of_eq_None_iff)
qed

lemma hit_in_slot: "bucket_hit k (heap ! i) \<Longrightarrow> i < length heap \<Longrightarrow> i \<in> set (slot heap (make_hash k))"
  by (auto simp: bucket_hit_def slot_def hash_at_def)

lemma slot_bound: "i \<in> set (slot heap h) \<Longrightarrow> i < length heap"
  by (simp add: slot_def)

lemma db_lookup_correct:
  assumes "db_ok db"
  shows "(db_abs db k = None \<and> db_lookup k db = Some (False, db)) \<or>
     (\<exists>i < length (db_heap db). db_lookup k db = Some (True, db\<lparr>linear_index := i\<rparr>) \<and>
        bucket_hit k (db_heap db ! i) \<and> db_abs db k = Some (bk_record (db_heap db ! i)))"
proof -
  note ok = db_okD [OF assms]
  let ?heap = "db_heap db"
  let ?f = "find (\<lambda>a. bucket_hit k (?heap ! a)) (slot ?heap (make_hash k))"
  have look: "db_lookup k db = Some (case ?f of None \<Rightarrow> (False, db)
      | Some a \<Rightarrow> (True, db\<lparr>linear_index := bk_index (?heap ! a)\<rparr>))"
    using chain_lookup_find [OF ok(5)] by (simp add: db_lookup_chain)
  show ?thesis
  proof (cases ?f)
    case None
    then have "\<not> bucket_hit k (?heap ! i)" if "i < length ?heap" for i
      using that hit_in_slot by (auto simp: find_None_iff)
    then show ?thesis using look None live_miss [of ?heap k] by (simp add: db_abs_def)
  next
    case (Some i)
    then have "i < length ?heap" "bucket_hit k (?heap ! i)"
      using slot_bound by (auto simp: find_Some_iff intro: nth_mem)
    then show ?thesis
      using look Some ok(4) live_hit [OF ok(6)] by (auto simp: db_abs_def)
  qed
qed

lemma db_ok_index: "db_ok db \<Longrightarrow> i < length (db_heap db) \<Longrightarrow> db_ok (db\<lparr>linear_index := i\<rparr>)"
  by (simp add: db_ok_def)

lemma db_abs_index [simp]: "db_abs (db\<lparr>linear_index := i\<rparr>) = db_abs db"
  by (simp add: db_abs_def)

section \<open>Inserting\<close>

lemma chain_last_seg: "chain_seg heap p as \<Longrightarrow> p = Some a \<Longrightarrow> chain_last heap a = Some (last as)"
proof (induction arbitrary: a rule: chain_seg.induct)
  case seg_nil
  then show ?case by simp
next
  case (seg_cons b as)
  show ?case
  proof (cases "bk_chain (heap ! b)")
    case None
    then have "as = []" using seg_cons.hyps(2) by simp
    then show ?thesis using seg_cons None by (subst chain_last.simps) (simp add: access_simps)
  next
    case (Some c)
    then have "as \<noteq> []" using seg_cons.hyps(2) by auto
    then show ?thesis
      using seg_cons Some by (subst chain_last.simps) (simp add: access_simps)
  qed
qed

lemma chain_seg_append: "chain_seg heap p as \<Longrightarrow> chain_seg (heap @ bs) p as"
  by (induction rule: chain_seg.induct) (auto intro!: chain_seg.intros simp: nth_append)

lemma chain_seg_update_other:
  "chain_seg heap p as \<Longrightarrow> x \<notin> set as \<Longrightarrow> chain_seg (heap[x := b]) p as"
  by (induction rule: chain_seg.induct) (auto intro!: chain_seg.intros simp: nth_list_update)

lemma chain_seg_same_links:
  "chain_seg heap p as \<Longrightarrow> length heap' = length heap \<Longrightarrow>
   (\<And>i. i < length heap \<Longrightarrow> bk_chain (heap' ! i) = bk_chain (heap ! i)) \<Longrightarrow> chain_seg heap' p as"
  by (induction rule: chain_seg.induct) (auto intro!: chain_seg.intros)

lemma chain_seg_extend:
  "chain_seg heap p as \<Longrightarrow> as \<noteq> [] \<Longrightarrow> distinct as \<Longrightarrow> n < length heap \<Longrightarrow> n \<notin> set as \<Longrightarrow>
   bk_chain (heap ! n) = None \<Longrightarrow>
   chain_seg (heap[last as := (heap ! last as)\<lparr>bk_chain := Some n\<rparr>]) p (as @ [n])"
proof (induction rule: chain_seg.induct)
  case seg_nil
  then show ?case by simp
next
  case (seg_cons a as)
  let ?upd = "\<lambda>x. heap[x := (heap ! x)\<lparr>bk_chain := Some n\<rparr>]"
  show ?case
  proof (cases "as = []")
    case True
    then show ?thesis using seg_cons by (auto intro!: chain_seg.intros simp: nth_list_update)
  next
    case False
    then have "chain_seg (?upd (last as)) (bk_chain (heap ! a)) (as @ [n])"
      using seg_cons by simp
    moreover have "a \<noteq> last as" using False seg_cons.prems(2) by auto
    ultimately show ?thesis
      using False seg_cons.hyps(1) by (auto intro!: chain_seg.intros)
  qed
qed

lemma slot_append:
  "slot (heap @ [b]) h =
     slot heap h @ (if make_hash (rec_key (bk_record b)) = h then [length heap] else [])"
proof -
  have "filter (\<lambda>i. hash_at (heap @ [b]) i = h) [0..<length heap] = slot heap h"
    unfolding slot_def by (rule filter_cong) (auto simp: hash_at_def nth_append)
  moreover have "hash_at (heap @ [b]) (length heap) = make_hash (rec_key (bk_record b))"
    by (simp add: hash_at_def)
  ultimately show ?thesis by (simp add: slot_def)
qed

lemma slot_same_records:
  "length heap' = length heap \<Longrightarrow>
   (\<And>i. i < length heap \<Longrightarrow> bk_record (heap' ! i) = bk_record (heap ! i)) \<Longrightarrow>
   slot heap' h = slot heap h"
  unfolding slot_def by (auto simp: hash_at_def intro!: filter_cong)

lemma live_records_append:
  "live_records (heap @ [b]) = live_records heap @ (if bk_deleted b then [] else [bk_record b])"
  by (simp add: live_records_def)

lemma live_records_relink:
  "i < length heap \<Longrightarrow> live_records (heap[i := (heap ! i)\<lparr>bk_chain := c\<rparr>]) = live_records heap"
  by (induction heap arbitrary: i) (auto simp: live_records_def nth_Cons list_update_def split: nat.splits)

lemma map_of_snoc:
  "k \<notin> fst ` set xs \<Longrightarrow> map_of (xs @ [(k, v)]) = (map_of xs)(k \<mapsto> v)"
  by (rule ext) (auto simp: map_add_def map_of_eq_None_iff [symmetric] map_of_append split: option.splits)

text \<open>The database after the new bucket has been linked in.\<close>

lemma db_insert_fresh:
  assumes ok: "db_ok db" and room: "length (db_heap db) < hash_radix"
    and absent: "db_abs db (rec_key r) = None"
  shows "\<exists>db'. db_insert (Some r) db = Some (True, db') \<and> db_ok db' \<and>
           db_abs db' = (db_abs db)(rec_key r \<mapsto> r)"
proof -
  note okd = db_okD [OF ok]
  let ?heap = "db_heap db" and ?n = "length (db_heap db)" and ?h = "make_hash (rec_key r)"
  let ?b = "\<lparr>bk_index = ?n, bk_deleted = False, bk_chain = None, bk_record = r\<rparr>"
  let ?heap1 = "?heap @ [?b]"
  define db1 where "db1 = db\<lparr>db_heap := ?heap1, db_linear := (db_linear db)(?n \<mapsto> ?n),
    linear_logic_length := linear_logic_length db + 1, linear_length := ?n + 1\<rparr>"
  have look: "db_lookup (rec_key r) db = Some (False, db)"
    using db_lookup_correct [OF ok, of "rec_key r"] absent by auto
  have live1: "live_records ?heap1 = live_records ?heap @ [r]" by (simp add: live_records_append)
  have fresh_key: "rec_key r \<notin> rec_key ` set (live_records ?heap)"
    using absent by (force simp: db_abs_def map_of_eq_None_iff)
  have abs1: "map_of (map (\<lambda>r. (rec_key r, r)) (live_records ?heap1)) = (db_abs db)(rec_key r \<mapsto> r)"
    using fresh_key unfolding live1 db_abs_def map_append list.map
    by (intro map_of_snoc) (auto simp: image_image)
  have slot1: "slot ?heap1 h = slot ?heap h @ (if ?h = h then [?n] else [])" for h
    by (simp add: slot_append)
  have finish: "db_ok db' \<and> db_abs db' = (db_abs db)(rec_key r \<mapsto> r)"
    if d': "db' = db1\<lparr>db_heap := heap', db_hashed := hashed'\<rparr>"
      and len: "length heap' = ?n + 1"
      and same: "\<And>i. i < ?n + 1 \<Longrightarrow> bk_index (heap' ! i) = bk_index (?heap1 ! i)"
        "\<And>i. i < ?n + 1 \<Longrightarrow> bk_record (heap' ! i) = bk_record (?heap1 ! i)"
      and live: "live_records heap' = live_records ?heap1"
      and segs: "\<And>h. chain_seg heap' (hashed' h) (slot ?heap1 h)" for db' heap' hashed'
  proof
    have "slot heap' = slot ?heap1" using len same(2) by (intro ext slot_same_records) simp_all
    then show "db_ok db'"
      using okd room len same(1) live segs fresh_key
      by (auto simp: db_ok_def d' db1_def live1 nth_append less_Suc_eq)
    show "db_abs db' = (db_abs db)(rec_key r \<mapsto> r)"
      using abs1 live by (simp add: db_abs_def d' db1_def)
  qed
  show ?thesis
  proof (cases "db_hashed db ?h")
    case None
    let ?db' = "db1\<lparr>db_heap := ?heap1, db_hashed := (db_hashed db)(?h \<mapsto> ?n)\<rparr>"
    have empty: "slot ?heap ?h = []" using okd(5) [of ?h] None by simp
    have "chain_seg ?heap1 (((db_hashed db)(?h \<mapsto> ?n)) h) (slot ?heap1 h)" for h
      using chain_seg_append [OF okd(5), of "[?b]" h] empty
      by (auto simp: slot1 intro!: chain_seg.intros)
    then have "db_ok ?db' \<and> db_abs ?db' = (db_abs db)(rec_key r \<mapsto> r)"
      by (intro finish [OF refl]) simp_all
    moreover have "db_insert (Some r) db = Some (True, ?db')"
      using look room okd(1) None by (simp add: db_insert_def Let_def db1_def)
    ultimately show ?thesis by blast
  next
    case (Some first)
    let ?as = "slot ?heap ?h"
    have seg: "chain_seg ?heap1 (Some first) ?as"
      using chain_seg_append [OF okd(5) [of ?h], of "[?b]"] Some by simp
    then have ne: "?as \<noteq> []" by auto
    let ?l = "last ?as"
    have l: "?l < ?n" using slot_bound [OF last_in_set [OF ne]] .
    have dist: "distinct (slot ?heap h)" for h by (simp add: slot_def)
    have n_out: "?n \<notin> set (slot ?heap h)" for h using slot_bound by blast
    let ?heap2 = "?heap1[?l := (?heap1 ! ?l)\<lparr>bk_chain := Some ?n\<rparr>]"
    let ?db' = "db1\<lparr>db_heap := ?heap2, db_hashed := db_hashed db\<rparr>"
    have "chain_seg ?heap2 (db_hashed db h) (slot ?heap1 h)" for h
    proof (cases "h = ?h")
      case True
      then show ?thesis
        using chain_seg_extend [OF seg ne dist _ n_out] Some by (simp add: slot1)
    next
      case False
      then have "?l \<notin> set (slot ?heap h)" using last_in_set [OF ne] by (auto simp: slot_def)
      then show ?thesis
        using chain_seg_update_other [OF chain_seg_append [OF okd(5)]] False by (simp add: slot1)
    qed
    then have "db_ok ?db' \<and> db_abs ?db' = (db_abs db)(rec_key r \<mapsto> r)"
      using l by (intro finish [OF refl])
        (simp_all add: live_records_relink nth_list_update)
    moreover have "db_insert (Some r) db = Some (True, ?db')"
      using look room okd(1) Some l chain_last_seg [OF seg refl]
      by (simp add: db_insert_def Let_def db1_def access_simps)
    ultimately show ?thesis by blast
  qed
qed

section \<open>Wiping\<close>

lemma live_records_delete:
  assumes "i < length heap" "\<not> bk_deleted (heap ! i)" "distinct (map rec_key (live_records heap))"
  shows "map_of (map (\<lambda>r. (rec_key r, r)) (live_records (heap[i := (heap ! i)\<lparr>bk_deleted := True\<rparr>]))) =
      (map_of (map (\<lambda>r. (rec_key r, r)) (live_records heap)))(rec_key (bk_record (heap ! i)) := None)"
    and "length (live_records heap) = Suc (length (live_records (heap[i := (heap ! i)\<lparr>bk_deleted := True\<rparr>])))"
    and "distinct (map rec_key (live_records (heap[i := (heap ! i)\<lparr>bk_deleted := True\<rparr>])))"
proof -
  define xs b ys where "xs = take i heap" and "b = heap ! i" and "ys = drop (Suc i) heap"
  then have heap: "heap = xs @ b # ys" "length xs = i" "b = heap ! i"
    using assms(1) id_take_nth_drop [of i heap] by simp_all
  have upd: "heap[i := (heap ! i)\<lparr>bk_deleted := True\<rparr>] = xs @ b\<lparr>bk_deleted := True\<rparr> # ys"
    unfolding heap(3) [symmetric] unfolding heap(1) heap(2) [symmetric]
    by (rule list_update_length)
  have live: "live_records heap = live_records xs @ bk_record b # live_records ys"
    using assms(2) unfolding heap(3) [symmetric] unfolding heap(1) by (simp add: live_records_def)
  have live': "live_records (heap[i := (heap ! i)\<lparr>bk_deleted := True\<rparr>]) = live_records xs @ live_records ys"
    unfolding upd by (simp add: live_records_def)
  show "length (live_records heap) = Suc (length (live_records (heap[i := (heap ! i)\<lparr>bk_deleted := True\<rparr>])))"
    unfolding live live' by simp
  show "distinct (map rec_key (live_records (heap[i := (heap ! i)\<lparr>bk_deleted := True\<rparr>])))"
    using assms(3) unfolding live live' by simp
  let ?m = "\<lambda>zs. map_of (map (\<lambda>r. (rec_key r, r)) (live_records zs))" and ?k = "rec_key (bk_record b)"
  have out: "?k \<notin> rec_key ` set (live_records xs)" "?k \<notin> rec_key ` set (live_records ys)"
    using assms(3) unfolding live by auto
  then have none: "?m xs ?k = None" "?m ys ?k = None" by (auto simp: map_of_eq_None_iff)
  show "map_of (map (\<lambda>r. (rec_key r, r)) (live_records (heap[i := (heap ! i)\<lparr>bk_deleted := True\<rparr>]))) =
      (map_of (map (\<lambda>r. (rec_key r, r)) (live_records heap)))(rec_key (bk_record (heap ! i)) := None)"
  proof (rule ext)
    fix k
    show "map_of (map (\<lambda>r. (rec_key r, r)) (live_records (heap[i := (heap ! i)\<lparr>bk_deleted := True\<rparr>]))) k =
        ((map_of (map (\<lambda>r. (rec_key r, r)) (live_records heap)))(rec_key (bk_record (heap ! i)) := None)) k"
      using none unfolding live live' unfolding heap(3) [symmetric]
      by (cases "k = ?k") (auto simp: map_add_def split: option.splits)
  qed
qed

lemma wipe_current_correct:
  assumes ok: "db_ok db" and ne: "linear_length db \<noteq> 0"
  shows "\<exists>db'. wipe_current db = Some db' \<and> db_ok db' \<and> linear_index db' = linear_index db \<and>
           db_abs db' = (if bk_deleted (db_heap db ! linear_index db) then db_abs db
             else (db_abs db)(rec_key (bk_record (db_heap db ! linear_index db)) := None))"
proof -
  note okd = db_okD [OF ok]
  let ?i = "linear_index db" and ?heap = "db_heap db"
  have i: "?i < length ?heap" using okd(1,8) ne by simp
  have cur: "current_bucket db = Some (?i, ?heap ! ?i)"
    using okd(3) [OF i] i by (simp add: current_bucket_def access_simps)
  show ?thesis
  proof (cases "bk_deleted (?heap ! ?i)")
    case True
    then show ?thesis using cur ne ok by (simp add: wipe_current_def)
  next
    case False
    let ?heap' = "?heap[?i := (?heap ! ?i)\<lparr>bk_deleted := True\<rparr>]"
    let ?db' = "db\<lparr>db_heap := ?heap', linear_logic_length := linear_logic_length db - 1\<rparr>"
    note del = live_records_delete [OF i False okd(6)]
    have "slot ?heap' = slot ?heap" by (intro ext slot_same_records) (use i in \<open>auto simp: nth_list_update\<close>)
    moreover have "chain_seg ?heap' (db_hashed db h) (slot ?heap h)" for h
      by (rule chain_seg_same_links [OF okd(5)]) (use i in \<open>auto simp: nth_list_update\<close>)
    ultimately have "db_ok ?db'"
      using okd del by (auto simp: db_ok_def nth_list_update)
    moreover have "wipe_current db = Some ?db'"
      using cur ne False i by (simp add: wipe_current_def access_simps)
    ultimately show ?thesis using del(1) False by (simp add: db_abs_def)
  qed
qed

section \<open>The interface the rest of the library uses\<close>

text \<open>
  What a client of the database relies on: it behaves as a finite map with a capacity, whatever
  the hash table does inside.
\<close>

locale record_store =
  fixes srch :: "ckey \<Rightarrow> 'd \<Rightarrow> ('fl record_ptr \<times> 'd) option"
    and ins :: "'fl crecord option \<Rightarrow> 'd \<Rightarrow> (bool \<times> 'd) option"
    and wp :: "'fl crecord \<Rightarrow> 'd \<Rightarrow> 'd option"
    and inv :: "'d \<Rightarrow> bool"
    and abs :: "'d \<Rightarrow> ckey \<rightharpoonup> 'fl crecord"
    and room :: "'d \<Rightarrow> nat"
  assumes srch_law: "inv db \<Longrightarrow> \<exists>db'. srch k db =
        Some (case abs db k of None \<Rightarrow> NullRecord | Some r \<Rightarrow> Record r, db') \<and>
        inv db' \<and> abs db' = abs db \<and> room db' = room db"
    and ins_null: "inv db \<Longrightarrow> ins None db = Some (False, db)"
    and ins_law: "inv db \<Longrightarrow> \<exists>b db'. ins (Some r) db = Some (b, db') \<and> inv db' \<and>
        b = (0 < room db \<and> abs db (rec_key r) = None) \<and>
        abs db' = (if b then (abs db)(rec_key r \<mapsto> r) else abs db) \<and>
        room db' = (if b then room db - 1 else room db)"
    and wp_law: "inv db \<Longrightarrow> \<exists>db'. wp r db = Some db' \<and> inv db' \<and>
        abs db' = (abs db)(rec_key r := None) \<and> room db' = room db"
begin

lemma search_after_insert:
  assumes "inv db" "0 < room db" "abs db (rec_key r) = None"
  obtains db1 db2 where "ins (Some r) db = Some (True, db1)"
    "srch (rec_key r) db1 = Some (Record r, db2)" "inv db2"
proof -
  obtain db1 where "ins (Some r) db = Some (True, db1)" "inv db1"
    "abs db1 = (abs db)(rec_key r \<mapsto> r)"
    using ins_law [OF assms(1), of r] assms(2,3) by auto
  then show ?thesis using srch_law [of db1 "rec_key r"] that by auto
qed

lemma search_after_wipe:
  assumes "inv db"
  obtains db1 db2 where "wp r db = Some db1" "srch (rec_key r) db1 = Some (NullRecord, db2)" "inv db2"
proof -
  obtain db1 where "wp r db = Some db1" "inv db1" "abs db1 = (abs db)(rec_key r := None)"
    using wp_law [OF assms] by blast
  then show ?thesis using srch_law [of db1 "rec_key r"] that by auto
qed

text \<open>Inserting a list of records with new and different keys stores them all.\<close>

fun ins_all :: "'fl crecord list \<Rightarrow> 'd \<Rightarrow> 'd option" where
  "ins_all [] db = Some db"
| "ins_all (r # rs) db = do { (_, db1) \<leftarrow> ins (Some r) db; ins_all rs db1 }"

lemma ins_all_map:
  "inv db \<Longrightarrow> length rs \<le> room db \<Longrightarrow> distinct (map rec_key rs) \<Longrightarrow>
   (\<And>r. r \<in> set rs \<Longrightarrow> abs db (rec_key r) = None) \<Longrightarrow>
   \<exists>db'. ins_all rs db = Some db' \<and> inv db' \<and>
     abs db' = abs db ++ map_of (map (\<lambda>r. (rec_key r, r)) rs)"
proof (induction rs arbitrary: db)
  case Nil
  then show ?case by simp
next
  case (Cons r rs)
  obtain db1 where db1: "ins (Some r) db = Some (True, db1)" "inv db1"
    "abs db1 = (abs db)(rec_key r \<mapsto> r)" "room db1 = room db - 1"
    using ins_law [OF Cons.prems(1), of r] Cons.prems(2,4) by auto
  have new: "abs db1 (rec_key x) = None" if "x \<in> set rs" for x
    using that Cons.prems(3,4) db1(3) by (auto simp: image_iff)
  obtain db' where "ins_all rs db1 = Some db'" "inv db'"
    "abs db' = abs db1 ++ map_of (map (\<lambda>r. (rec_key r, r)) rs)"
    using Cons.IH [OF db1(2) _ _ new] Cons.prems(2,3) db1(4) by fastforce
  moreover have "map_of (map (\<lambda>r. (rec_key r, r)) rs) (rec_key r) = None"
    using Cons.prems(3) by (auto simp: map_of_eq_None_iff)
  ultimately show ?case
    using db1(1,3) by (auto simp: map_add_def fun_eq_iff split: option.splits)
qed

end

definition db_room :: "'fl database \<Rightarrow> nat" where
  "db_room db = hash_radix - length (db_heap db)"

lemma search_correct:
  assumes "db_ok db"
  shows "\<exists>db'. search k db =
        Some (case db_abs db k of None \<Rightarrow> NullRecord | Some r \<Rightarrow> Record r, db') \<and>
        db_ok db' \<and> db_abs db' = db_abs db \<and> db_room db' = db_room db"
  using db_lookup_correct [OF assms, of k]
proof (elim disjE exE conjE)
  assume "db_abs db k = None" "db_lookup k db = Some (False, db)"
  then show ?thesis using assms by (simp add: search_def)
next
  fix i assume i: "i < length (db_heap db)" and look: "db_lookup k db = Some (True, db\<lparr>linear_index := i\<rparr>)"
    and hit: "bucket_hit k (db_heap db ! i)" and abs: "db_abs db k = Some (bk_record (db_heap db ! i))"
  have "get_record (db\<lparr>linear_index := i\<rparr>) = Some (Record (bk_record (db_heap db ! i)))"
    using db_okD(1,3) [OF assms] i hit
    by (auto simp: get_record_def current_bucket_def access_simps bucket_hit_def)
  then show ?thesis
    using look abs db_ok_index [OF assms i] by (simp add: search_def db_room_def)
qed

lemma db_insert_correct:
  assumes ok: "db_ok db"
  shows "\<exists>b db'. db_insert (Some r) db = Some (b, db') \<and> db_ok db' \<and>
        b = (0 < db_room db \<and> db_abs db (rec_key r) = None) \<and>
        db_abs db' = (if b then (db_abs db)(rec_key r \<mapsto> r) else db_abs db) \<and>
        db_room db' = (if b then db_room db - 1 else db_room db)"
proof (cases "0 < db_room db")
  case False
  then have "linear_length db = hash_radix"
    using db_okD(1,2) [OF ok] by (simp add: db_room_def)
  then have "db_insert (Some r) db = Some (False, db)" by (simp add: db_insert_def)
  then show ?thesis using False ok by (intro exI [of _ False] exI [of _ db]) simp
next
  case True
  then have room: "length (db_heap db) < hash_radix" by (simp add: db_room_def)
  show ?thesis
  proof (cases "db_abs db (rec_key r)")
    case None
    obtain db' where "db_insert (Some r) db = Some (True, db')" "db_ok db'"
      "db_abs db' = (db_abs db)(rec_key r \<mapsto> r)"
      using db_insert_fresh [OF ok room None] by blast
    moreover have "length (db_heap db') = Suc (length (db_heap db))"
      using calculation(1) room db_okD(1) [OF ok] None db_lookup_correct [OF ok, of "rec_key r"]
      by (auto simp: db_insert_def Let_def wr_eq_Some_iff split: option.splits bind_splits)
    ultimately show ?thesis using True None by (auto simp: db_room_def)
  next
    case (Some q)
    then obtain i where "i < length (db_heap db)"
      "db_lookup (rec_key r) db = Some (True, db\<lparr>linear_index := i\<rparr>)"
      using db_lookup_correct [OF ok, of "rec_key r"] by auto
    moreover from this have "db_insert (Some r) db = Some (False, db\<lparr>linear_index := i\<rparr>)"
      using room db_okD(1) [OF ok] by (simp add: db_insert_def)
    ultimately show ?thesis
      using Some db_ok_index [OF ok]
      by (intro exI [of _ False] exI [of _ "db\<lparr>linear_index := i\<rparr>"]) (simp add: db_room_def)
  qed
qed

lemma wipe_correct:
  assumes ok: "db_ok db"
  shows "\<exists>db'. wipe r db = Some db' \<and> db_ok db' \<and>
        db_abs db' = (db_abs db)(rec_key r := None) \<and> db_room db' = db_room db"
  using db_lookup_correct [OF ok, of "rec_key r"]
proof (elim disjE exE conjE)
  assume "db_abs db (rec_key r) = None" "db_lookup (rec_key r) db = Some (False, db)"
  then show ?thesis using ok by (simp add: wipe_def fun_upd_idem)
next
  fix i assume i: "i < length (db_heap db)"
    and look: "db_lookup (rec_key r) db = Some (True, db\<lparr>linear_index := i\<rparr>)"
    and hit: "bucket_hit (rec_key r) (db_heap db ! i)"
  let ?db = "db\<lparr>linear_index := i\<rparr>"
  have ne: "linear_length ?db \<noteq> 0" using db_okD(1) [OF ok] i by auto
  obtain db' where "wipe_current ?db = Some db'" "db_ok db'"
    "db_abs db' = (db_abs db)(rec_key r := None)"
    using wipe_current_correct [OF db_ok_index [OF ok i] ne] hit
    by (auto simp: bucket_hit_def)
  moreover have "length (db_heap db') = length (db_heap db)"
    using calculation(1) by (auto simp: wipe_current_def wr_eq_Some_iff split: if_splits bind_splits)
  ultimately show ?thesis using look by (simp add: wipe_def db_room_def)
qed

interpretation module_db: record_store search db_insert wipe db_ok db_abs db_room
proof unfold_locales
  fix db :: "'a database" and k r
  assume ok: "db_ok db"
  show "\<exists>db'. search k db = Some (case db_abs db k of None \<Rightarrow> NullRecord | Some r \<Rightarrow> Record r, db') \<and>
      db_ok db' \<and> db_abs db' = db_abs db \<and> db_room db' = db_room db"
    by (rule search_correct [OF ok])
  show "db_insert None db = Some (False, db)" by (simp add: db_insert_def)
  show "\<exists>b db'. db_insert (Some r) db = Some (b, db') \<and> db_ok db' \<and>
      b = (0 < db_room db \<and> db_abs db (rec_key r) = None) \<and>
      db_abs db' = (if b then (db_abs db)(rec_key r \<mapsto> r) else db_abs db) \<and>
      db_room db' = (if b then db_room db - 1 else db_room db)"
    by (rule db_insert_correct [OF ok])
  show "\<exists>db'. wipe r db = Some db' \<and> db_ok db' \<and>
      db_abs db' = (db_abs db)(rec_key r := None) \<and> db_room db' = db_room db"
    by (rule wipe_correct [OF ok])
qed

section \<open>Saving and loading again\<close>

text \<open>The records the file format can hold: strings without NUL, a 32-bit second checksum.\<close>

definition storable :: "'fl crecord \<Rightarrow> bool" where
  "storable r \<longleftrightarrow>
     uint (crc32 (rec_key r)) < 2 ^ 32 \<and> 0 \<notin> set (rec_filetype r) \<and> 0 \<notin> set (rec_comment r) \<and>
     (case rec_body r of SongInfo t a \<Rightarrow> 0 \<notin> set t \<and> 0 \<notin> set a | _ \<Rightarrow> True)"

fun body_bytes :: "('fl \<Rightarrow> bytes) \<Rightarrow> 'fl record_body \<Rightarrow> bytes" where
  "body_bytes fb Plain = []"
| "body_bytes fb (SongInfo t a) = t @ 0 # a @ [0]"
| "body_bytes fb (ClockSpeed c) = fb c"

definition record_bytes :: "('fl \<Rightarrow> bytes) \<Rightarrow> 'fl crecord \<Rightarrow> bytes" where
  "record_bytes fb r =
     le_bytes 1 (record_type (rec_body r)) @
     le_bytes 4 (get_size (rec_body r) + int (length (rec_filetype r)) + int (length (rec_comment r)) + 8) @
     le_bytes 2 (uint (crc16 (rec_key r))) @ le_bytes 4 (uint (crc32 (rec_key r))) @
     rec_filetype r @ 0 # rec_comment r @ 0 # body_bytes fb (rec_body r)"

lemma record_write_bytes:
  assumes "binio_out_laws oo written fb"
  shows "written (record_write oo r out) = written out @ record_bytes fb r"
proof -
  have wi: "written (bo_writeInt oo v n t) = written t @ le_bytes n v" if "n \<le> 8" for v n t
    using assms that by (simp add: binio_out_laws_def)
  have w: "written (bo_writeFloat oo x t) = written t @ fb x"
    "written (bo_writeString oo xs t) = written t @ xs" for t x xs
    using assms by (simp_all add: binio_out_laws_def)
  have z: "le_bytes (Suc 0) 0 = [0]" by simp
  have own: "written (write_own oo b t) = written t @ body_bytes fb b" for b t
    by (cases b) (simp_all add: wi w z)
  show ?thesis
    by (simp add: record_write_def record_bytes_def own wi w z Let_def del: le_bytes.simps(2))
qed

lemma db_save_bytes:
  assumes ok: "db_ok db" and laws: "binio_out_laws oo written fb"
  shows "\<exists>out'. db_save oo db out = Some out' \<and>
     written out' = written out @ DB_FILEID_V10 @
       le_bytes 4 (int (length (live_records (db_heap db)))) @
       concat (map (record_bytes fb) (live_records (db_heap db)))"
proof -
  note okd = db_okD [OF ok]
  have save: "\<exists>t'. ofold (save_bucket oo db) [0..<n] t = Some t' \<and>
      written t' = written t @ concat (map (record_bytes fb) (live_records (take n (db_heap db))))"
    if "n \<le> length (db_heap db)" for n t
    using that
  proof (induction n)
    case 0
    then show ?case by (simp add: live_records_def)
  next
    case (Suc n)
    then obtain t' where t': "ofold (save_bucket oo db) [0..<n] t = Some t'"
      "written t' = written t @ concat (map (record_bytes fb) (live_records (take n (db_heap db))))"
      by auto
    have n: "n < length (db_heap db)" using Suc.prems by simp
    have "save_bucket oo db n t' = Some (if bk_deleted (db_heap db ! n) then t'
        else record_write oo (bk_record (db_heap db ! n)) t')"
      using okd(3) [OF n] n by (simp add: save_bucket_def access_simps)
    then show ?case
      using t' n record_write_bytes [OF laws]
      by (simp add: ofold_append take_Suc_conv_app_nth live_records_append)
  qed
  have "written (bo_writeInt oo v 4 (bo_writeString oo xs out)) = written out @ xs @ le_bytes 4 v" for v xs
    using laws by (simp add: binio_out_laws_def)
  moreover obtain t' where "ofold (save_bucket oo db) [0..<length (db_heap db)]
      (bo_writeInt oo (int (length (live_records (db_heap db)))) 4 (bo_writeString oo DB_FILEID_V10 out))
      = Some t'"
    "written t' = written (bo_writeInt oo (int (length (live_records (db_heap db)))) 4
        (bo_writeString oo DB_FILEID_V10 out)) @
      concat (map (record_bytes fb) (live_records (db_heap db)))"
    using save [OF order_refl] by fastforce
  ultimately show ?thesis using okd(1,7) by (simp add: db_save_def)
qed

lemma readInt_le:
  assumes "binio_laws io rest fb" "rest s = le_bytes n v @ ys" "0 \<le> v" "v < 256 ^ n" "n \<le> 8"
  shows "\<exists>s'. bio_readInt io n s = (v, s') \<and> rest s' = ys"
  using binio_lawsD(1) [OF assms(1,2)] le_value_le_bytes [OF assms(3,4)] assms(5) by simp

lemma readDelim_Cons:
  assumes "binio_laws io rest fb" "rest s = xs @ 0 # ys" "0 \<notin> set xs"
  shows "\<exists>s'. bio_readDelim io 0 s = (xs, s') \<and> rest s' = ys"
  using binio_lawsD(3) [OF assms] .

lemma read_own_bytes:
  assumes laws: "binio_laws io rest fb" and rest: "rest s = body_bytes fb b @ ys"
    and ok: "case b of SongInfo t a \<Rightarrow> 0 \<notin> set t \<and> 0 \<notin> set a | _ \<Rightarrow> True"
  shows "\<exists>s'. read_own io (record_type b) s = (b, s') \<and> rest s' = ys"
proof (cases b)
  case Plain
  then show ?thesis using rest by (simp add: read_own_def)
next
  case (SongInfo t a)
  then have "rest s = t @ 0 # a @ 0 # ys" "0 \<notin> set t" "0 \<notin> set a" using rest ok by simp_all
  then obtain s1 where s1: "bio_readDelim io 0 s = (t, s1)" "rest s1 = a @ 0 # ys"
    using readDelim_Cons [OF laws] by blast
  then obtain s2 where "bio_readDelim io 0 s1 = (a, s2)" "rest s2 = ys"
    using readDelim_Cons [OF laws] \<open>0 \<notin> set a\<close> by blast
  with s1 SongInfo show ?thesis by (simp add: read_own_def)
next
  case (ClockSpeed c)
  then obtain s1 where "bio_readFloat io s = (c, s1)" "rest s1 = ys"
    using rest binio_lawsD(4) [OF laws] by fastforce
  with ClockSpeed show ?thesis by (simp add: read_own_def)
qed

text \<open>Reading back one record (the size field is not needed for a known type).\<close>

lemma record_factory_bytes:
  assumes laws: "binio_laws io rest fb" and rest: "rest s = record_bytes fb r @ ys" and ok: "storable r"
  shows "\<exists>s'. record_factory io s = (Some r, s') \<and> rest s' = ys"
proof -
  let ?b = "rec_body r" and ?k = "rec_key r"
  let ?t7 = "body_bytes fb ?b @ ys"
  let ?t6 = "rec_comment r @ 0 # ?t7"
  let ?t5 = "rec_filetype r @ 0 # ?t6"
  have r0: "rest s = le_bytes 1 (record_type ?b) @ le_bytes 4 (get_size ?b + int (length (rec_filetype r))
      + int (length (rec_comment r)) + 8) @ le_bytes 2 (uint (crc16 ?k)) @ le_bytes 4 (uint (crc32 ?k)) @ ?t5"
    using rest by (simp add: record_bytes_def)
  have ty: "0 \<le> record_type ?b" "record_type ?b < 256 ^ 1"
    "record_type ?b = 0 \<or> record_type ?b = 1 \<or> record_type ?b = 2" by (cases ?b; simp)+
  have k16: "uint (crc16 ?k) < 256 ^ 2" using uint_lt2p [of "crc16 ?k"] by simp
  have k32: "uint (crc32 ?k) < 256 ^ 4" using ok by (simp add: storable_def)
  obtain s1 where s1: "bio_readInt io 1 s = (record_type ?b, s1)"
    "rest s1 = le_bytes 4 (get_size ?b + int (length (rec_filetype r))
      + int (length (rec_comment r)) + 8) @ le_bytes 2 (uint (crc16 ?k)) @ le_bytes 4 (uint (crc32 ?k)) @ ?t5"
    using readInt_le [OF laws r0 ty(1,2)] by auto
  obtain sz s2 where s2: "bio_readInt io 4 s1 = (sz, s2)"
    "rest s2 = le_bytes 2 (uint (crc16 ?k)) @ le_bytes 4 (uint (crc32 ?k)) @ ?t5"
    using binio_lawsD(1) [OF laws s1(2)] by auto
  obtain s3 where s3: "bio_readInt io 2 s2 = (uint (crc16 ?k), s3)"
    "rest s3 = le_bytes 4 (uint (crc32 ?k)) @ ?t5"
    using readInt_le [OF laws s2(2) _ k16] by auto
  obtain s4 where s4: "bio_readInt io 4 s3 = (uint (crc32 ?k), s4)" "rest s4 = ?t5"
    using readInt_le [OF laws s3(2) _ k32] by auto
  obtain s5 where s5: "bio_readDelim io 0 s4 = (rec_filetype r, s5)" "rest s5 = ?t6"
    using readDelim_Cons [OF laws s4(2)] ok by (auto simp: storable_def)
  obtain s6 where s6: "bio_readDelim io 0 s5 = (rec_comment r, s6)" "rest s6 = ?t7"
    using readDelim_Cons [OF laws s5(2)] ok by (auto simp: storable_def)
  obtain s7 where s7: "read_own io (record_type ?b) s6 = (?b, s7)" "rest s7 = ys"
    using read_own_bytes [OF laws s6(2)] ok by (auto simp: storable_def)
  show ?thesis
    using s1(1) s2(1) s3(1) s4(1) s5(1) s6(1) s7 ty(3) by (simp add: record_factory_def)
qed

lemma load_records_bytes:
  assumes laws: "binio_laws io rest fb"
  shows "rest s = concat (map (record_bytes fb) rs) @ ys \<Longrightarrow> list_all storable rs \<Longrightarrow>
    module_db.ins_all rs db = Some db' \<Longrightarrow>
    \<exists>s'. load_records io (length rs) s db = Some (s', db')"
proof (induction rs arbitrary: s db)
  case Nil
  then show ?case by simp
next
  case (Cons r rs)
  then obtain s1 where s1: "record_factory io s = (Some r, s1)"
    "rest s1 = concat (map (record_bytes fb) rs) @ ys"
    using record_factory_bytes [OF laws, of s r] by auto
  from Cons.prems(3) obtain b db1 where "db_insert (Some r) db = Some (b, db1)"
    "module_db.ins_all rs db1 = Some db'"
    by (auto elim!: bind_eq_SomeE)
  then show ?case using Cons.IH [OF s1(2)] Cons.prems(2) s1(1) by simp
qed

lemma save_load:
  assumes ok: "db_ok db" and st: "list_all storable (live_records (db_heap db))"
    and ol: "binio_out_laws oo written fb" and il: "binio_laws io rest fb"
    and start: "written out = []"
    and image: "\<And>t. db_save oo db out = Some t \<Longrightarrow> rest s = written t @ ys"
  shows "\<exists>t db'. db_save oo db out = Some t \<and> db_load io mem s new_database = Some (True, db') \<and>
           db_ok db' \<and> db_abs db' = db_abs db"
proof -
  let ?rs = "live_records (db_heap db)"
  obtain t where t: "db_save oo db out = Some t" "written t = DB_FILEID_V10 @
       le_bytes 4 (int (length ?rs)) @ concat (map (record_bytes fb) ?rs)"
    using db_save_bytes [OF ok ol, of out] start by auto
  have le: "length ?rs \<le> hash_radix"
    using order_trans [OF length_filter_le db_okD(2) [OF ok]] by (simp add: live_records_def)
  then have n: "int (length ?rs) < 256 ^ 4" by (simp add: hash_radix_def)
  have "rest s = DB_FILEID_V10 @ le_bytes 4 (int (length ?rs)) @ concat (map (record_bytes fb) ?rs) @ ys"
    using image [OF t(1)] t(2) by simp
  from binio_lawsD(2) [OF il this, of "fresh mem (length DB_FILEID_V10)"]
  obtain s1 where s1: "bio_readString io (length DB_FILEID_V10) (fresh mem (length DB_FILEID_V10)) s
      = (length DB_FILEID_V10, DB_FILEID_V10, s1)"
    "rest s1 = le_bytes 4 (int (length ?rs)) @ concat (map (record_bytes fb) ?rs) @ ys"
    by (simp only: length_fresh) blast
  obtain s2 where s2: "bio_readInt io 4 s1 = (int (length ?rs), s2)"
    "rest s2 = concat (map (record_bytes fb) ?rs) @ ys"
    using readInt_le [OF il s1(2) _ n] by auto
  have room: "db_room (new_database :: 'f database) = hash_radix"
    by (simp add: db_room_def new_database_def)
  obtain db' where db': "module_db.ins_all ?rs new_database = Some db'" "db_ok db'"
    "db_abs db' = map_of (map (\<lambda>r. (rec_key r, r)) ?rs)"
    using module_db.ins_all_map [OF new_database_ok _ db_okD(6) [OF ok]] le
    by (auto simp: new_database_abs room)
  obtain s3 where "load_records io (length ?rs) s2 new_database = Some (s3, db')"
    using load_records_bytes [OF il s2(2) st db'(1)] by blast
  then have "db_load io mem s new_database = Some (True, db')"
    using s1(1) s2(1) n by (simp add: db_load_def)
  then show ?thesis using t(1) db' by (auto simp: db_abs_def)
qed

section \<open>The database as a finite map\<close>

text \<open>
  A client's session: insertions, removals and searches, with the answers the code gives. The
  specification runs the same session on a finite map of bounded room.
\<close>

datatype 'fl db_request = Insert "'fl crecord" | Wipe "'fl crecord" | Search ckey

datatype 'fl db_answer = Inserted bool | Wiped | Found "'fl record_ptr"

fun db_answer_to :: "'fl db_request \<Rightarrow> 'fl database \<Rightarrow> ('fl db_answer \<times> 'fl database) option" where
  "db_answer_to (Insert r) db = do { (b, db1) \<leftarrow> db_insert (Some r) db; Some (Inserted b, db1) }"
| "db_answer_to (Wipe r) db = do { db1 \<leftarrow> wipe r db; Some (Wiped, db1) }"
| "db_answer_to (Search k) db = do { (p, db1) \<leftarrow> search k db; Some (Found p, db1) }"

fun db_session ::
  "'fl db_request list \<Rightarrow> 'fl database \<Rightarrow> ('fl db_answer list \<times> 'fl database) option" where
  "db_session [] db = Some ([], db)"
| "db_session (q # qs) db = do {
     (a, db1) \<leftarrow> db_answer_to q db;
     (as, db2) \<leftarrow> db_session qs db1;
     Some (a # as, db2)
   }"

fun map_request ::
  "'fl db_request \<Rightarrow> (ckey \<rightharpoonup> 'fl crecord) \<times> nat \<Rightarrow> 'fl db_answer \<times> (ckey \<rightharpoonup> 'fl crecord) \<times> nat" where
  "map_request (Insert r) (m, room) =
     (if 0 < room \<and> m (rec_key r) = None then (Inserted True, m(rec_key r \<mapsto> r), room - 1)
      else (Inserted False, m, room))"
| "map_request (Wipe r) (m, room) = (Wiped, m(rec_key r := None), room)"
| "map_request (Search k) (m, room) =
     (Found (case m k of None \<Rightarrow> NullRecord | Some r \<Rightarrow> Record r), m, room)"

fun map_session ::
  "'fl db_request list \<Rightarrow> (ckey \<rightharpoonup> 'fl crecord) \<times> nat \<Rightarrow>
   'fl db_answer list \<times> (ckey \<rightharpoonup> 'fl crecord) \<times> nat" where
  "map_session [] m = ([], m)"
| "map_session (q # qs) m =
     (case map_request q m of (a, m1) \<Rightarrow> case map_session qs m1 of (as, m2) \<Rightarrow> (a # as, m2))"

lemma db_answer_to_simulates:
  assumes "db_ok db"
  shows "\<exists>a db'. db_answer_to q db = Some (a, db') \<and> db_ok db' \<and>
    map_request q (db_abs db, db_room db) = (a, db_abs db', db_room db')"
proof (cases q)
  case (Insert r)
  then show ?thesis using db_insert_correct [OF assms, of r] by (auto split: if_splits)
next
  case (Wipe r)
  then show ?thesis using wipe_correct [OF assms, of r] by auto
next
  case (Search k)
  then show ?thesis using search_correct [OF assms, of k] by auto
qed

lemma db_session_simulates:
  "db_ok db \<Longrightarrow> \<exists>as db'. db_session qs db = Some (as, db') \<and> db_ok db' \<and>
     map_session qs (db_abs db, db_room db) = (as, db_abs db', db_room db')"
proof (induction qs arbitrary: db)
  case Nil
  then show ?case by simp
next
  case (Cons q qs)
  obtain a db1 where q: "db_answer_to q db = Some (a, db1)" "db_ok db1"
    "map_request q (db_abs db, db_room db) = (a, db_abs db1, db_room db1)"
    using db_answer_to_simulates [OF Cons.prems, of q] by blast
  with Cons.IH [OF q(2)] show ?case by auto
qed

lemma new_database_room: "db_room new_database = hash_radix"
  by (simp add: db_room_def new_database_def)

text \<open>C1: from a new database, any sequence of insertions, removals and searches returns and
answers exactly as a finite map from keys to records with room for 65521 buckets: an insertion
succeeds iff there is room left and the key is absent (removed records keep their bucket), a
search finds the record stored last under the key, and the final database represents the final
map. The chains of the hash table, the index array, the counters and the deletion marks refine
that map, whatever keys collide.\<close>

theorem db_refines_map:
  "\<exists>as db m room. db_session qs (new_database :: 'fl database) = Some (as, db) \<and>
     map_session qs (Map.empty, hash_radix) = (as, m, room) \<and>
     db_ok db \<and> db_abs db = m \<and> db_room db = room"
  using db_session_simulates [OF new_database_ok, of qs]
  by (auto simp: new_database_abs new_database_room)

text \<open>C3: saving a database and loading the file into a new one returns, with success, a database
that stands for the same map, for every database of storable records a session can reach and every
stream that keeps the laws of a little-endian byte stream.\<close>

theorem db_save_load:
  assumes "db_session qs new_database = Some (as, db)"
    and "list_all storable (live_records (db_heap db))"
    and "binio_out_laws oo written fb" and "binio_laws io rest fb" and "written out = []"
    and "\<And>t. db_save oo db out = Some t \<Longrightarrow> rest s = written t @ ys"
  shows "\<exists>t db'. db_save oo db out = Some t \<and> db_load io mem s new_database = Some (True, db') \<and>
           db_ok db' \<and> db_abs db' = db_abs db"
proof (rule save_load [OF _ assms(2-6)])
  show "db_ok db" using db_session_simulates [OF new_database_ok, of qs] assms(1) by auto
qed

definition sample_record :: "u32 crecord" where
  "sample_record =
     \<lparr>rec_key = \<lparr>crc16 = 0x1234, crc32 = 0x56789abc\<rparr>, rec_filetype = [0x49, 0x4d, 0x46],
      rec_comment = [0x41], rec_body = ClockSpeed 0x42f00000\<rparr>"

lemma db_save_load_witness:
  "\<exists>as db t db'. db_session [Insert sample_record] new_database = Some (as, db) \<and>
     db_save memout db [] = Some t \<and>
     db_load memio (\<lambda>_. 0) \<lparr>ms_bytes = t, ms_pos = 0, ms_eof = False\<rparr> new_database
       = Some (True, db') \<and> db_abs db' = [rec_key sample_record \<mapsto> sample_record]"
proof -
  obtain as db where s: "db_session [Insert sample_record] new_database = Some (as, db)"
    "db_ok db" "db_abs db = [rec_key sample_record \<mapsto> sample_record]"
    using db_session_simulates [OF new_database_ok, of "[Insert sample_record]"]
    by (auto simp: new_database_abs new_database_room hash_radix_def)
  obtain t where t: "db_save memout db [] = Some t"
    using db_save_bytes [OF s(2) memout_laws] by blast
  have "r = sample_record" if "r \<in> set (live_records (db_heap db))" for r
  proof -
    have "db_abs db (rec_key r) = Some r"
      using db_okD(6) [OF s(2)] that by (auto simp: db_abs_def comp_def intro!: map_of_is_SomeI)
    then show ?thesis using s(3) by (auto split: if_splits)
  qed
  moreover have "storable sample_record" by (simp add: storable_def sample_record_def)
  ultimately have "list_all storable (live_records (db_heap db))" by (metis list_all_iff)
  with db_save_load [OF s(1) _ memout_laws memio_laws, of "[]"
      "\<lparr>ms_bytes = t, ms_pos = 0, ms_eof = False\<rparr>" "[]" "\<lambda>_. 0"] s t
  show ?thesis by (auto simp: ms_rest_def)
qed

end
