(* ===== verification/Sixdepack.thy ===== *)
theory Sixdepack
  imports Prelude
begin

text \<open>
  \<open>src/sixdepack.cpp\<close>, \<open>src/sixdepack.h\<close>: the decompressor of Adlib Tracker 2 modules
  (an LZ77 scheme whose codes are written with an adaptive Huffman tree).
  Every \<open>unsigned short\<close> is a \<open>nat\<close>, with \<open>mod 65536\<close> written where a store can wrap.
  The arrays are lists accessed through \<^const>\<open>rd\<close> and \<^const>\<open>wr\<close>, and the loops that walk
  the tree are partial functions: that they return is a theorem, not an assumption.
\<close>

section \<open>The constants of sixdepack.h\<close>

definition COPYRANGES :: nat where "COPYRANGES = 6"
definition MINCOPY :: nat where "MINCOPY = 3"
definition MAXCOPY :: nat where "MAXCOPY = 255"
definition CODESPERRANGE :: nat where "CODESPERRANGE = MAXCOPY - MINCOPY + 1"
definition ROOT :: nat where "ROOT = 1"
definition TERMINATE :: nat where "TERMINATE = 256"
definition FIRSTCODE :: nat where "FIRSTCODE = 257"
definition MAXCHAR :: nat where "MAXCHAR = FIRSTCODE + COPYRANGES * CODESPERRANGE - 1"
definition SUCCMAX :: nat where "SUCCMAX = MAXCHAR + 1"
definition TWICEMAX :: nat where "TWICEMAX = 2 * MAXCHAR + 1"
definition MAXFREQ :: nat where "MAXFREQ = 2000"
definition MAXBUF :: nat where "MAXBUF = 42 * 1024"

lemmas sixdepack_consts =
  COPYRANGES_def MINCOPY_def MAXCOPY_def CODESPERRANGE_def ROOT_def TERMINATE_def
  FIRSTCODE_def MAXCHAR_def SUCCMAX_def TWICEMAX_def MAXFREQ_def MAXBUF_def

section \<open>The decoder object\<close>

record sixdepak =
  ibitcount :: nat
  ibitbuffer :: nat
  leftc :: "nat list"
  rghtc :: "nat list"
  dad :: "nat list"
  freq :: "nat list"
  ibufcount :: nat
  input_size :: nat
  output_size :: nat
  wdbuf :: "nat list"
  obuf :: "nat list"

definition copybits :: "nat \<Rightarrow> nat option" where
  "copybits r = do {
     require (r < COPYRANGES);
     Some (2 * r + 4)
   }"

definition bitvalue :: "nat \<Rightarrow> nat option" where
  "bitvalue b = do {
     m \<leftarrow> copybits (COPYRANGES - 1);
     require (b < m);
     Some (push_bit b 1 mod 65536)
   }"

definition copymin :: "nat \<Rightarrow> nat option" where
  "copymin r = do {
     require (r < COPYRANGES);
     rd [0, 16, 80, 336, 1360, 5456] r
   }"

definition inittree :: "sixdepak \<Rightarrow> sixdepak" where
  "inittree s =
     (let s1 = fold (\<lambda>i s. s\<lparr>dad := (dad s)[i := i div 2], freq := (freq s)[i := 1]\<rparr>)
                 [2..<Suc TWICEMAX] s
      in fold (\<lambda>i s. s\<lparr>leftc := (leftc s)[i := 2 * i], rghtc := (rghtc s)[i := 2 * i + 1]\<rparr>)
           [1..<Suc MAXCHAR] s1)"

text \<open>The \<open>for (;;)\<close> of \<open>updatefreq\<close>: climb from \<open>a\<close> to the root, summing pairs.\<close>

partial_function (option) updatefreq_loop :: "sixdepak \<Rightarrow> nat \<Rightarrow> nat \<Rightarrow> sixdepak option" where
  "updatefreq_loop s a b = do {
     fa \<leftarrow> rd (freq s) a;
     fb \<leftarrow> rd (freq s) b;
     p \<leftarrow> rd (dad s) a;
     f' \<leftarrow> wr (freq s) p ((fa + fb) mod 65536);
     let s' = s\<lparr>freq := f'\<rparr>;
     if p = ROOT then Some s'
     else do {
       q \<leftarrow> rd (dad s') p;
       l \<leftarrow> rd (leftc s') q;
       b' \<leftarrow> (if l = p then rd (rghtc s') q else rd (leftc s') q);
       updatefreq_loop s' p b'
     }
   }"

definition halve_freqs :: "sixdepak \<Rightarrow> sixdepak" where
  "halve_freqs s =
     s\<lparr>freq := fold (\<lambda>a f. f[a := drop_bit 1 (f ! a)]) [1..<Suc TWICEMAX] (freq s)\<rparr>"

definition updatefreq :: "sixdepak \<Rightarrow> nat \<Rightarrow> nat \<Rightarrow> sixdepak option" where
  "updatefreq s a b = do {
     s' \<leftarrow> updatefreq_loop s a b;
     fr \<leftarrow> rd (freq s') ROOT;
     Some (if fr = MAXFREQ then halve_freqs s' else s')
   }"

text \<open>
  The body of the \<open>do \<dots> while\<close> loop of \<open>updatemodel\<close> up to \<open>a = dad[a]\<close>: if the node
  outweighs its uncle \<open>b\<close>, exchange the two subtrees. Returns the state and the new \<open>a\<close>.
\<close>

definition exchange :: "sixdepak \<Rightarrow> nat \<Rightarrow> nat \<Rightarrow> (sixdepak \<times> nat) option" where
  "exchange s a code1 = do {
     code2 \<leftarrow> rd (dad s) code1;
     l2 \<leftarrow> rd (leftc s) code2;
     b \<leftarrow> (if l2 = code1 then rd (rghtc s) code2 else rd (leftc s) code2);
     fa \<leftarrow> rd (freq s) a;
     fb \<leftarrow> rd (freq s) b;
     if fb < fa then do {
       s1 \<leftarrow> (if l2 = code1
              then map_option (\<lambda>r. s\<lparr>rghtc := r\<rparr>) (wr (rghtc s) code2 a)
              else map_option (\<lambda>l. s\<lparr>leftc := l\<rparr>) (wr (leftc s) code2 a));
       l1 \<leftarrow> rd (leftc s1) code1;
       (s2, c) \<leftarrow> (if l1 = a
              then do { l \<leftarrow> wr (leftc s1) code1 b; c \<leftarrow> rd (rghtc s1) code1;
                        Some (s1\<lparr>leftc := l\<rparr>, c) }
              else do { r \<leftarrow> wr (rghtc s1) code1 b; c \<leftarrow> rd (leftc s1) code1;
                        Some (s1\<lparr>rghtc := r\<rparr>, c) });
       d1 \<leftarrow> wr (dad s2) b code1;
       d2 \<leftarrow> wr d1 a code2;
       s3 \<leftarrow> updatefreq (s2\<lparr>dad := d2\<rparr>) b c;
       Some (s3, b)
     }
     else Some (s, a)
   }"

partial_function (option) updatemodel_loop :: "sixdepak \<Rightarrow> nat \<Rightarrow> nat \<Rightarrow> sixdepak option" where
  "updatemodel_loop s a code1 = do {
     (s', a1) \<leftarrow> exchange s a code1;
     a' \<leftarrow> rd (dad s') a1;
     code1' \<leftarrow> rd (dad s') a';
     if code1' = ROOT then Some s' else updatemodel_loop s' a' code1'
   }"

definition updatemodel :: "sixdepak \<Rightarrow> nat \<Rightarrow> sixdepak option" where
  "updatemodel s code = do {
     let a = (code + SUCCMAX) mod 65536;
     fa \<leftarrow> rd (freq s) a;
     f' \<leftarrow> wr (freq s) a ((fa + 1) mod 65536);
     let s0 = s\<lparr>freq := f'\<rparr>;
     code1 \<leftarrow> rd (dad s0) a;
     if code1 \<noteq> ROOT then do {
       l \<leftarrow> rd (leftc s0) code1;
       b \<leftarrow> (if l = a then rd (rghtc s0) code1 else rd (leftc s0) code1);
       s1 \<leftarrow> updatefreq s0 a b;
       updatemodel_loop s1 a code1
     } else Some s0
   }"

section \<open>Reading the bit stream\<close>

text \<open>
  The first statement of both bit readers: fetch the next input word when the bit buffer is
  empty. \<open>Some None\<close> is the early return of the callers at the end of the input.
\<close>

definition refill :: "sixdepak \<Rightarrow> sixdepak option option" where
  "refill s =
     (if ibitcount s = 0 then
        (if ibufcount s = input_size s then Some None
         else do {
           w \<leftarrow> rd (wdbuf s) (ibufcount s);
           Some (Some (s\<lparr>ibitbuffer := w, ibufcount := ibufcount s + 1, ibitcount := 15\<rparr>))
         })
      else Some (Some (s\<lparr>ibitcount := ibitcount s - 1\<rparr>)))"

definition top_bit :: "sixdepak \<Rightarrow> bool" where
  "top_bit s \<longleftrightarrow> ibitbuffer s AND 0x8000 \<noteq> 0"

definition shift_buffer :: "sixdepak \<Rightarrow> sixdepak" where
  "shift_buffer s = s\<lparr>ibitbuffer := push_bit 1 (ibitbuffer s) mod 65536\<rparr>"

function inputcode_loop :: "sixdepak \<Rightarrow> nat \<Rightarrow> nat \<Rightarrow> nat \<Rightarrow> (sixdepak \<times> nat) option" where
  "inputcode_loop s bits i code =
     (if i \<le> bits then do {
        r \<leftarrow> refill s;
        case r of
          None \<Rightarrow> Some (s, 0)
        | Some s1 \<Rightarrow> do {
            code' \<leftarrow> (if top_bit s1 then map_option (\<lambda>v. code OR v) (bitvalue (i - 1))
                      else Some code);
            inputcode_loop (shift_buffer s1) bits (i + 1) code'
          }
      }
      else Some (s, code))"
  by pat_completeness auto
termination
  by (relation "measure (\<lambda>(s, bits, i, code). Suc bits - i)") auto

declare inputcode_loop.simps [simp del]

definition inputcode :: "sixdepak \<Rightarrow> nat \<Rightarrow> (sixdepak \<times> nat) option" where
  "inputcode s bits = inputcode_loop s bits 1 0"

text \<open>The \<open>do \<dots> while (a <= MAXCHAR)\<close> of \<open>uncompress\<close>; \<open>None\<close> inside is TERMINATE.\<close>

partial_function (option) uncompress_loop ::
  "sixdepak \<Rightarrow> nat \<Rightarrow> (sixdepak \<times> nat option) option" where
  "uncompress_loop s a = do {
     r \<leftarrow> refill s;
     case r of
       None \<Rightarrow> Some (s, None)
     | Some s1 \<Rightarrow> do {
         a' \<leftarrow> (if top_bit s1 then rd (rghtc s1) a else rd (leftc s1) a);
         let s2 = shift_buffer s1;
         if a' \<le> MAXCHAR then uncompress_loop s2 a' else Some (s2, Some a')
       }
   }"

definition uncompress :: "sixdepak \<Rightarrow> (sixdepak \<times> nat) option" where
  "uncompress s = do {
     (s1, r) \<leftarrow> uncompress_loop s 1;
     case r of
       None \<Rightarrow> Some (s1, TERMINATE)
     | Some a \<Rightarrow> do {
         s2 \<leftarrow> updatemodel s1 (a - SUCCMAX);
         Some (s2, a - SUCCMAX)
       }
   }"

section \<open>The decoder\<close>

text \<open>
  The copy loop. The flag tells whether it ran into the end of the output buffer, where
  \<open>do_decode\<close> returns at once.
\<close>

fun copy_loop :: "sixdepak \<Rightarrow> nat \<Rightarrow> nat \<Rightarrow> nat \<Rightarrow> (sixdepak \<times> nat \<times> bool) option" where
  "copy_loop s obufcount dist 0 = Some (s, obufcount, False)"
| "copy_loop s obufcount dist (Suc n) =
     (if obufcount = output_size s then Some (s, obufcount, True)
      else do {
        v \<leftarrow> (if obufcount < dist then Some 0 else rd (obuf s) (obufcount - dist));
        o' \<leftarrow> wr (obuf s) obufcount v;
        copy_loop (s\<lparr>obuf := o'\<rparr>) (obufcount + 1) dist n
      })"

partial_function (option) do_decode_loop :: "sixdepak \<Rightarrow> nat \<Rightarrow> (sixdepak \<times> nat) option" where
  "do_decode_loop s obufcount = do {
     (s1, c) \<leftarrow> uncompress s;
     if c = TERMINATE then Some (s1, obufcount)
     else if c < 256 then
       (if obufcount = output_size s1 then Some (s1, output_size s1)
        else do {
          o' \<leftarrow> wr (obuf s1) obufcount (c mod 256);
          do_decode_loop (s1\<lparr>obuf := o'\<rparr>) (obufcount + 1)
        })
     else do {
       let t = c - FIRSTCODE;
       let index = t div CODESPERRANGE;
       let len = t + MINCOPY - index * CODESPERRANGE;
       nb \<leftarrow> copybits index;
       (s2, code) \<leftarrow> inputcode s1 nb;
       m \<leftarrow> copymin index;
       let dist = (code + m + len) mod 65536;
       (s3, n, full) \<leftarrow> copy_loop s2 obufcount dist len;
       if full then Some (s3, output_size s3) else do_decode_loop s3 n
     }
   }"

definition do_decode :: "sixdepak \<Rightarrow> (sixdepak \<times> nat) option" where
  "do_decode s =
     do_decode_loop (inittree (s\<lparr>ibufcount := 0, ibitcount := 0, ibitbuffer := 0\<rparr>)) 0"

text \<open>
  The constructor leaves the arrays uninitialised; \<open>mem\<close> is whatever the heap held.
\<close>

definition new_sixdepak ::
  "(nat \<Rightarrow> nat) \<Rightarrow> nat list \<Rightarrow> nat \<Rightarrow> nat list \<Rightarrow> nat \<Rightarrow> sixdepak" where
  "new_sixdepak mem input isize out osize =
     \<lparr>ibitcount = mem 0, ibitbuffer = mem 1,
      leftc = map mem [0..<MAXCHAR + 1], rghtc = map mem [0..<MAXCHAR + 1],
      dad = map mem [0..<TWICEMAX + 1], freq = map mem [0..<TWICEMAX + 1],
      ibufcount = mem 2, input_size = isize, output_size = osize,
      wdbuf = input, obuf = out\<rparr>"

text \<open>\<open>Sixdepak::decode\<close>: the size of the output and the destination buffer.\<close>

definition decode ::
  "(nat \<Rightarrow> nat) \<Rightarrow> nat list \<Rightarrow> nat \<Rightarrow> nat list \<Rightarrow> nat \<Rightarrow> (nat \<times> nat list) option" where
  "decode mem source srcbytes dest dstbytes =
     (if srcbytes < 2 \<or> srcbytes > MAXBUF - 4096 \<or> dstbytes < 1 then Some (0, dest)
      else do {
        let dstbytes' = (if dstbytes > MAXBUF then MAXBUF else dstbytes);
        (s, n) \<leftarrow> do_decode (new_sixdepak mem source (srcbytes div 2) dest dstbytes');
        Some (n, obuf s)
      })"

section \<open>The code tree\<close>

text \<open>
  \<open>climb d j n\<close>: following the parent links from \<open>j\<close> reaches the root after \<open>n\<close> steps.
\<close>

inductive climb :: "nat list \<Rightarrow> nat \<Rightarrow> nat \<Rightarrow> bool" for d :: "nat list" where
  climb_root: "climb d ROOT 0"
| climb_up: "ROOT < j \<Longrightarrow> climb d (d ! j) n \<Longrightarrow> climb d j (Suc n)"

inductive_cases climb_rootE: "climb d ROOT n"
inductive_cases climb_upE: "climb d j (Suc n)"
inductive_cases climb_zeroE: "climb d j 0"
inductive_cases climbE: "climb d j n"

text \<open>
  The three arrays describe one binary tree: nodes \<open>1 .. MAXCHAR\<close> are internal,
  \<open>SUCCMAX .. TWICEMAX\<close> are leaves, child and parent links agree, and every node climbs to
  the root.
\<close>

definition huff_tree :: "nat list \<Rightarrow> nat list \<Rightarrow> nat list \<Rightarrow> bool" where
  "huff_tree L R D \<longleftrightarrow>
     length L = MAXCHAR + 1 \<and> length R = MAXCHAR + 1 \<and> length D = TWICEMAX + 1 \<and>
     (\<forall>i. ROOT \<le> i \<and> i \<le> MAXCHAR \<longrightarrow>
        ROOT < L ! i \<and> L ! i \<le> TWICEMAX \<and> ROOT < R ! i \<and> R ! i \<le> TWICEMAX \<and>
        L ! i \<noteq> R ! i \<and> D ! (L ! i) = i \<and> D ! (R ! i) = i) \<and>
     (\<forall>j. ROOT < j \<and> j \<le> TWICEMAX \<longrightarrow>
        ROOT \<le> D ! j \<and> D ! j \<le> MAXCHAR \<and> (L ! (D ! j) = j \<or> R ! (D ! j) = j)) \<and>
     (\<forall>j. ROOT \<le> j \<and> j \<le> TWICEMAX \<longrightarrow> (\<exists>n. climb D j n))"

definition tree_ok :: "sixdepak \<Rightarrow> bool" where
  "tree_ok s \<longleftrightarrow> huff_tree (leftc s) (rghtc s) (dad s) \<and> length (freq s) = TWICEMAX + 1"

lemma climb_det: "climb d j n \<Longrightarrow> climb d j m \<Longrightarrow> n = m"
proof (induction arbitrary: m rule: climb.induct)
  case climb_root
  then show ?case by (auto elim: climbE)
next
  case (climb_up j n)
  from climb_up.prems climb_up.hyps(1) obtain k where "m = Suc k" "climb d (d ! j) k"
    by (auto elim: climbE)
  with climb_up.IH show ?case by simp
qed

lemma climb_distinct: "climb d i n \<Longrightarrow> climb d j m \<Longrightarrow> n \<noteq> m \<Longrightarrow> i \<noteq> j"
  using climb_det by blast

lemma huff_tree_sym: "huff_tree L R D \<Longrightarrow> huff_tree R L D"
  unfolding huff_tree_def by metis

lemma huff_treeD:
  assumes "huff_tree L R D"
  shows "length L = MAXCHAR + 1" "length R = MAXCHAR + 1" "length D = TWICEMAX + 1"
    and "\<And>i. ROOT \<le> i \<Longrightarrow> i \<le> MAXCHAR \<Longrightarrow> ROOT < L ! i \<and> L ! i \<le> TWICEMAX"
    and "\<And>i. ROOT \<le> i \<Longrightarrow> i \<le> MAXCHAR \<Longrightarrow> ROOT < R ! i \<and> R ! i \<le> TWICEMAX"
    and "\<And>i. ROOT \<le> i \<Longrightarrow> i \<le> MAXCHAR \<Longrightarrow> L ! i \<noteq> R ! i"
    and "\<And>i. ROOT \<le> i \<Longrightarrow> i \<le> MAXCHAR \<Longrightarrow> D ! (L ! i) = i"
    and "\<And>i. ROOT \<le> i \<Longrightarrow> i \<le> MAXCHAR \<Longrightarrow> D ! (R ! i) = i"
    and "\<And>j. ROOT < j \<Longrightarrow> j \<le> TWICEMAX \<Longrightarrow> ROOT \<le> D ! j \<and> D ! j \<le> MAXCHAR"
    and "\<And>j. ROOT < j \<Longrightarrow> j \<le> TWICEMAX \<Longrightarrow> L ! (D ! j) = j \<or> R ! (D ! j) = j"
    and "\<And>j. ROOT \<le> j \<Longrightarrow> j \<le> TWICEMAX \<Longrightarrow> \<exists>n. climb D j n"
  using assms unfolding huff_tree_def by blast+

text \<open>Re-hanging \<open>a\<close> under its grandparent and \<open>b\<close> under \<open>a\<close>'s old parent keeps every climb.\<close>

lemma climb_exchange:
  assumes all: "\<And>j. ROOT \<le> j \<Longrightarrow> j \<le> TWICEMAX \<Longrightarrow> \<exists>n. climb D j n"
    and links: "\<And>j. ROOT < j \<Longrightarrow> j \<le> TWICEMAX \<Longrightarrow> ROOT \<le> D ! j \<and> D ! j \<le> TWICEMAX"
    and len: "length D = TWICEMAX + 1"
    and a: "ROOT < a" "a \<le> TWICEMAX" "D ! a = c1"
    and c1: "ROOT < c1" "c1 \<le> TWICEMAX" "D ! c1 = c2"
    and b: "ROOT < b" "b \<le> TWICEMAX" "D ! b = c2" "b \<noteq> c1"
    and c2: "climb D c2 n"
    and D': "D' = D[b := c1, a := c2]"
  shows "climb D' c2 n"
    and "climb D' c1 (Suc n)"
    and "\<And>j. ROOT \<le> j \<Longrightarrow> j \<le> TWICEMAX \<Longrightarrow> \<exists>m. climb D' j m"
proof -
  have cb: "climb D b (Suc n)" and cc1: "climb D c1 (Suc n)"
    using b c1 c2 by (auto intro: climb_up)
  have ca: "climb D a (Suc (Suc n))" using a cc1 by (auto intro: climb_up)
  have D'_nth: "D' ! j = (if j = a then c2 else if j = b then c1 else D ! j)" for j
    using a(2) b(2) len unfolding D' by (simp add: nth_list_update)
  have ab: "a \<noteq> b" by (rule climb_distinct [OF ca cb]) simp
  have low: "climb D j m \<Longrightarrow> m \<le> n \<Longrightarrow> climb D' j m" for j m
  proof (induction rule: climb.induct)
    case climb_root
    show ?case by (rule climb.climb_root)
  next
    case (climb_up j m)
    have "climb D j (Suc m)" using climb_up.hyps by (rule climb.climb_up)
    then have "j \<noteq> a" "j \<noteq> b"
      using climb_distinct [OF _ ca] climb_distinct [OF _ cb] climb_up.prems by simp_all
    then have "D' ! j = D ! j" by (simp add: D'_nth)
    with climb_up show ?case by (auto intro: climb.climb_up)
  qed
  show c2': "climb D' c2 n" using c2 by (rule low) simp
  have "c1 \<noteq> a" by (rule climb_distinct [OF cc1 ca]) simp
  then have "D' ! c1 = c2" using b(4) c1(3) by (simp add: D'_nth)
  then show c1': "climb D' c1 (Suc n)" using c1(1) c2' by (auto intro: climb_up)
  have ca': "climb D' a (Suc n)" using a(1) c2' by (auto intro: climb_up simp: D'_nth)
  have cb': "climb D' b (Suc (Suc n))"
    using b(1) c1' ab by (auto intro: climb_up simp: D'_nth)
  have every: "climb D j m \<Longrightarrow> j \<le> TWICEMAX \<Longrightarrow> \<exists>m. climb D' j m" for j m
  proof (induction rule: climb.induct)
    case climb_root
    show ?case by (blast intro: climb.climb_root)
  next
    case (climb_up j m)
    show ?case
    proof (cases "j = a \<or> j = b")
      case True
      with ca' cb' show ?thesis by blast
    next
      case False
      have "D ! j \<le> TWICEMAX" using links climb_up by blast
      then obtain k where "climb D' (D ! j) k" using climb_up.IH by blast
      then have "climb D' j (Suc k)"
        using False climb_up.hyps(1) by (auto intro: climb.climb_up simp: D'_nth)
      then show ?thesis by blast
    qed
  qed
  show "\<exists>m. climb D' j m" if "ROOT \<le> j" "j \<le> TWICEMAX" for j
    using all [OF that] every that(2) by blast
qed

text \<open>
  The uncle: the node that shares the parent of \<open>c\<close>. Exchanging \<open>a\<close> with its uncle, whichever
  sides they hang on, gives a tree again.
\<close>

lemma huff_tree_exchange_left:
  assumes t: "huff_tree L R D"
    and a: "ROOT < a" "a \<le> TWICEMAX" "D ! a = c1"
    and c1: "ROOT < c1" "D ! c1 = c2" "L ! c2 = c1"
    and b: "b = R ! c2"
    and LR: "(L', R') = (if L ! c1 = a then (L[c1 := b], R[c2 := a]) else (L, R[c2 := a, c1 := b]))"
  shows "huff_tree L' R' (D[b := c1, a := c2])"
proof -
  let ?D = "D[b := c1, a := c2]"
  note tree = huff_treeD [OF t]
  have c1M: "ROOT \<le> c1" "c1 \<le> MAXCHAR" using tree(9) [OF a(1,2)] a(3) by simp_all
  then have c1T: "c1 \<le> TWICEMAX" by (simp add: sixdepack_consts)
  have c2M: "ROOT \<le> c2" "c2 \<le> MAXCHAR" using tree(9) [OF c1(1) c1T] c1(2) by simp_all
  have bT: "ROOT < b" "b \<le> TWICEMAX" using tree(5) [OF c2M] b by simp_all
  have Db: "D ! b = c2" using tree(8) [OF c2M] b by simp
  have bc1: "b \<noteq> c1" using tree(6) [OF c2M] c1(3) b by simp
  obtain n where n: "climb D c2 n" using tree(11) [OF c2M(1)] c2M(2)
    by (auto simp: sixdepack_consts)
  have MT: "MAXCHAR \<le> TWICEMAX" by (simp add: sixdepack_consts)
  have links: "\<And>j. ROOT < j \<Longrightarrow> j \<le> TWICEMAX \<Longrightarrow> ROOT \<le> D ! j \<and> D ! j \<le> TWICEMAX"
    using tree(9) MT by (meson order_trans)
  note ex = climb_exchange [OF tree(11) links tree(3) a c1(1) c1T c1(2) bT Db bc1 n refl]
  have cc1: "climb D c1 (Suc n)" using c1 n by (auto intro: climb_up)
  have ca: "climb D a (Suc (Suc n))" using a cc1 by (auto intro: climb_up)
  have cb: "climb D b (Suc n)" using bT Db n by (auto intro: climb_up)
  have ab: "a \<noteq> b" by (rule climb_distinct [OF ca cb]) simp
  have ac1: "a \<noteq> c1" by (rule climb_distinct [OF ca cc1]) simp
  have c12: "c1 \<noteq> c2" by (rule climb_distinct [OF cc1 n]) simp
  have D_nth: "?D ! j = (if j = a then c2 else if j = b then c1 else D ! j)" for j
    using a(2) bT(2) tree(3) by (simp add: nth_list_update)
  have side: "L ! c1 = a \<or> R ! c1 = a" using tree(10) [OF a(1,2)] a(3) by simp
  have L_nth: "L' ! i = (if i = c1 \<and> L ! c1 = a then b else L ! i)" if "i \<le> MAXCHAR" for i
    using LR tree(1) c1M that by (auto simp: nth_list_update split: if_splits)
  have R_nth: "R' ! i = (if i = c2 then a else if i = c1 \<and> L ! c1 \<noteq> a then b else R ! i)"
    if "i \<le> MAXCHAR" for i
    using LR tree(2) c1M c2M that c12 by (auto simp: nth_list_update split: if_splits)
  have len: "length L' = MAXCHAR + 1" "length R' = MAXCHAR + 1"
    using LR tree(1,2) by (auto split: if_splits)
  have child: "ROOT < L' ! i \<and> L' ! i \<le> TWICEMAX \<and> ROOT < R' ! i \<and> R' ! i \<le> TWICEMAX \<and>
      L' ! i \<noteq> R' ! i \<and> ?D ! (L' ! i) = i \<and> ?D ! (R' ! i) = i"
    if i: "ROOT \<le> i" "i \<le> MAXCHAR" for i
  proof -
    note at = tree(4-8) [OF i]
    consider (one) "i = c1" "L ! c1 = a" | (two) "i = c1" "L ! c1 \<noteq> a" "R ! c1 = a"
      | (three) "i = c2" | (four) "i \<noteq> c1" "i \<noteq> c2"
      using side by blast
    then show ?thesis
    proof cases
      case one
      then have "R ! c1 \<noteq> a" "R ! c1 \<noteq> b"
        using at(3,5) Db c12 by force+
      with one show ?thesis
        using at(2,5) bT ab c12 L_nth [OF i(2)] R_nth [OF i(2)]
        by (simp add: D_nth)
    next
      case two
      then have "L ! c1 \<noteq> b" using at(4) Db c12 by force
      with two show ?thesis
        using at(1,4) bT ab c12 L_nth [OF i(2)] R_nth [OF i(2)]
        by (simp add: D_nth)
    next
      case three
      then show ?thesis
        using at(1) a(1,2) ab ac1 bc1 c12 c1(2,3) L_nth [OF i(2)] R_nth [OF i(2)]
        by (simp add: D_nth)
    next
      case four
      then have "L ! i \<noteq> a" "L ! i \<noteq> b" "R ! i \<noteq> a" "R ! i \<noteq> b"
        using at(4,5) a(3) Db by force+
      with four show ?thesis
        using at L_nth [OF i(2)] R_nth [OF i(2)] by (simp add: D_nth)
    qed
  qed
  have parent: "ROOT \<le> ?D ! j \<and> ?D ! j \<le> MAXCHAR \<and> (L' ! (?D ! j) = j \<or> R' ! (?D ! j) = j)"
    if j: "ROOT < j" "j \<le> TWICEMAX" for j
  proof -
    note at = tree(9-10) [OF j]
    consider "j = a" | "j = b" | "j \<noteq> a" "j \<noteq> b" by blast
    then show ?thesis
    proof cases
      case 1
      then show ?thesis using c2M R_nth [OF c2M(2)] by (simp add: D_nth)
    next
      case 2
      then show ?thesis
        using ab c1M side c12 L_nth [OF c1M(2)] R_nth [OF c1M(2)]
        by (cases "L ! c1 = a") (simp_all add: D_nth)
    next
      case 3
      have bound: "D ! j \<le> MAXCHAR" using at(1) by simp
      have "L ! c1 = a \<Longrightarrow> D ! j = c1 \<Longrightarrow> R ! c1 = j"
        and "L ! c1 \<noteq> a \<Longrightarrow> D ! j = c1 \<Longrightarrow> L ! c1 = j"
        and "D ! j = c2 \<Longrightarrow> L ! c2 = j"
        using at(2) 3 side b by metis+
      then have "L' ! (D ! j) = j \<or> R' ! (D ! j) = j"
        using at(2) L_nth [OF bound] R_nth [OF bound] c12 by metis
      then show ?thesis using 3 at(1) by (simp add: D_nth)
    qed
  qed
  show ?thesis
    unfolding huff_tree_def using len tree(3) child parent ex(3) by simp
qed

section \<open>The tree operations return and keep the tree\<close>

lemma ROOT_le_TWICEMAX: "ROOT \<le> TWICEMAX" "MAXCHAR < TWICEMAX" "ROOT \<le> MAXCHAR"
  by (simp_all add: sixdepack_consts)

lemma tree_okD:
  assumes "tree_ok s"
  shows "huff_tree (leftc s) (rghtc s) (dad s)" "length (freq s) = TWICEMAX + 1"
  using assms by (simp_all add: tree_ok_def)

lemma tree_ok_freq [simp]:
  "length f = TWICEMAX + 1 \<Longrightarrow> tree_ok s \<Longrightarrow> tree_ok (s\<lparr>freq := f\<rparr>)"
  by (simp add: tree_ok_def)

lemma updatefreq_loop_ok:
  "climb (dad s) a n \<Longrightarrow> tree_ok s \<Longrightarrow> ROOT < a \<Longrightarrow> a \<le> TWICEMAX \<Longrightarrow> b \<le> TWICEMAX \<Longrightarrow>
   \<exists>f. updatefreq_loop s a b = Some (s\<lparr>freq := f\<rparr>) \<and> length f = TWICEMAX + 1"
proof (induction n arbitrary: s a b)
  case 0
  then show ?case by (auto elim: climb_zeroE)
next
  case (Suc n)
  note t = tree_okD [OF Suc.prems(2)]
  note tree = huff_treeD [OF t(1)]
  let ?p = "dad s ! a"
  let ?f = "(freq s)[?p := (freq s ! a + freq s ! b) mod 65536]"
  let ?s = "s\<lparr>freq := ?f\<rparr>"
  have p: "ROOT \<le> ?p" "?p \<le> MAXCHAR" using tree(9) [OF Suc.prems(3,4)] by simp_all
  have pT: "?p \<le> TWICEMAX" using p(2) ROOT_le_TWICEMAX by linarith
  have cp: "climb (dad s) ?p n" using Suc.prems(1) by (auto elim: climb_upE)
  have acc: "rd (freq s) a = Some (freq s ! a)" "rd (freq s) b = Some (freq s ! b)"
    "rd (dad s) a = Some ?p" "\<And>v. wr (freq s) ?p v = Some ((freq s)[?p := v])"
    using Suc.prems(4,5) t(2) tree(3) pT by (simp_all add: access_simps)
  show ?case
  proof (cases "?p = ROOT")
    case True
    then show ?thesis
      using acc t(2) by (subst updatefreq_loop.simps) (auto intro!: exI [of _ ?f])
  next
    case False
    then have pR: "ROOT < ?p" using p(1) by simp
    let ?q = "dad s ! ?p"
    have q: "ROOT \<le> ?q" "?q \<le> MAXCHAR" using tree(9) [OF pR pT] by simp_all
    let ?b = "if leftc s ! ?q = ?p then rghtc s ! ?q else leftc s ! ?q"
    have b: "?b \<le> TWICEMAX" using tree(4,5) [OF q] by simp
    have ok: "tree_ok ?s" using Suc.prems(2) t(2) by simp
    obtain f where f: "updatefreq_loop ?s ?p ?b = Some (?s\<lparr>freq := f\<rparr>)" "length f = TWICEMAX + 1"
      using Suc.IH [of ?s ?p ?b] cp ok pR pT b by auto
    have "rd (dad s) ?p = Some ?q" "rd (leftc s) ?q = Some (leftc s ! ?q)"
      "rd (rghtc s) ?q = Some (rghtc s ! ?q)"
      using pT q tree(1-3) by (simp_all add: access_simps)
    then have "updatefreq_loop s a b = updatefreq_loop ?s ?p ?b"
      using acc False by (subst updatefreq_loop.simps) simp
    with f show ?thesis by auto
  qed
qed

lemma length_halve: "length (freq (halve_freqs s)) = length (freq s)"
proof -
  have "length (fold (\<lambda>a f. f[a := drop_bit 1 (f ! a)]) xs g) = length g" for xs and g :: "nat list"
    by (induction xs arbitrary: g) simp_all
  then show ?thesis by (simp add: halve_freqs_def)
qed

lemma updatefreq_ok:
  assumes "tree_ok s" "ROOT < a" "a \<le> TWICEMAX" "b \<le> TWICEMAX"
  shows "\<exists>f. updatefreq s a b = Some (s\<lparr>freq := f\<rparr>) \<and> length f = TWICEMAX + 1"
proof -
  obtain n where "climb (dad s) a n"
    using huff_treeD(11) [OF tree_okD(1) [OF assms(1)]] assms(2,3) by force
  from updatefreq_loop_ok [OF this assms] obtain f
    where f: "updatefreq_loop s a b = Some (s\<lparr>freq := f\<rparr>)" "length f = TWICEMAX + 1" by blast
  let ?h = "freq (halve_freqs (s\<lparr>freq := f\<rparr>))"
  have h: "halve_freqs (s\<lparr>freq := f\<rparr>) = s\<lparr>freq := ?h\<rparr>" "length ?h = TWICEMAX + 1"
    using f(2) by (simp_all add: length_halve) (simp add: halve_freqs_def)
  have "rd f ROOT = Some (f ! ROOT)" using f(2) ROOT_le_TWICEMAX by (simp add: access_simps)
  then have "updatefreq s a b = Some (s\<lparr>freq := if f ! ROOT = MAXFREQ then ?h else f\<rparr>)"
    using f(1) h(1) by (simp add: updatefreq_def)
  then show ?thesis using f(2) h(2) by (auto split: if_splits)
qed

text \<open>What the walk up the tree leaves alone.\<close>

definition same_io :: "sixdepak \<Rightarrow> sixdepak \<Rightarrow> bool" where
  "same_io s s' \<longleftrightarrow>
     ibitcount s' = ibitcount s \<and> ibitbuffer s' = ibitbuffer s \<and> ibufcount s' = ibufcount s \<and>
     input_size s' = input_size s \<and> output_size s' = output_size s \<and>
     wdbuf s' = wdbuf s \<and> obuf s' = obuf s"

lemma same_io_refl [simp]: "same_io s s"
  by (simp add: same_io_def)

lemma same_io_trans: "same_io s s' \<Longrightarrow> same_io s' s'' \<Longrightarrow> same_io s s''"
  by (simp add: same_io_def)

lemma sixdepak_update_swap: "s\<lparr>rghtc := r, leftc := l\<rparr> = s\<lparr>leftc := l, rghtc := r\<rparr>"
  by (cases s) simp

lemma exchange_ok:
  assumes ok: "tree_ok s"
    and a: "ROOT < a" "a \<le> TWICEMAX" "dad s ! a = c1"
    and c1: "ROOT < c1" "climb (dad s) (dad s ! c1) n"
  shows "\<exists>s' a'. exchange s a c1 = Some (s', a') \<and> tree_ok s' \<and> same_io s s' \<and>
           ROOT < a' \<and> a' \<le> TWICEMAX \<and> dad s' ! a' = c1 \<and>
           dad s' ! c1 = dad s ! c1 \<and> climb (dad s') (dad s ! c1) n"
proof -
  let ?c2 = "dad s ! c1"
  let ?L = "leftc s" and ?R = "rghtc s" and ?D = "dad s"
  note t = tree_okD [OF ok]
  note tree = huff_treeD [OF t(1)]
  have c1M: "ROOT \<le> c1" "c1 \<le> MAXCHAR" "c1 \<le> TWICEMAX"
    using tree(9) [OF a(1,2)] a(3) ROOT_le_TWICEMAX by auto
  have c2M: "ROOT \<le> ?c2" "?c2 \<le> MAXCHAR" using tree(9) [OF c1(1) c1M(3)] by simp_all
  define b where "b = (if ?L ! ?c2 = c1 then ?R ! ?c2 else ?L ! ?c2)"
  have b: "ROOT < b" "b \<le> TWICEMAX" "?D ! b = ?c2"
    using tree(4,5,7,8) [OF c2M] by (simp_all add: b_def)
  have bc1: "b \<noteq> c1"
    using tree(6) [OF c2M] by (auto simp: b_def)
  let ?D' = "?D[b := c1, a := ?c2]"
  have links: "\<And>j. ROOT < j \<Longrightarrow> j \<le> TWICEMAX \<Longrightarrow> ROOT \<le> ?D ! j \<and> ?D ! j \<le> TWICEMAX"
    using tree(9) ROOT_le_TWICEMAX(2) by (meson le_trans less_imp_le)
  have climb': "climb ?D' ?c2 n"
    by (rule climb_exchange(1) [OF tree(11) links tree(3) a c1(1) c1M(3) refl b bc1 c1(2) refl])
  have c1a: "c1 \<noteq> a" and ab: "a \<noteq> b" and c12: "c1 \<noteq> ?c2"
  proof -
    have cc1: "climb ?D c1 (Suc n)" using c1 by (rule climb_up)
    have ca: "climb ?D a (Suc (Suc n))" using a cc1 by (auto intro: climb_up)
    have cb: "climb ?D b (Suc n)" using b c1(2) by (auto intro: climb_up)
    show "c1 \<noteq> a" by (rule climb_distinct [OF cc1 ca]) simp
    show "a \<noteq> b" by (rule climb_distinct [OF ca cb]) simp
    show "c1 \<noteq> ?c2" by (rule climb_distinct [OF cc1 c1(2)]) simp
  qed
  define L' where "L' = (if ?L ! ?c2 = c1 then (if ?L ! c1 = a then ?L[c1 := b] else ?L)
      else (if ?L ! c1 = a then ?L[?c2 := a, c1 := b] else ?L[?c2 := a]))"
  define R' where "R' = (if ?L ! ?c2 = c1 then (if ?L ! c1 = a then ?R[?c2 := a] else ?R[?c2 := a, c1 := b])
      else (if ?L ! c1 = a then ?R else ?R[c1 := b]))"
  have tree': "huff_tree L' R' ?D'"
  proof (cases "?L ! ?c2 = c1")
    case True
    then show ?thesis
      using huff_tree_exchange_left [OF t(1) a c1(1) refl True, of b L' R']
      by (simp add: b_def L'_def R'_def)
  next
    case False
    then have R: "?R ! ?c2 = c1" using tree(10) [OF c1(1) c1M(3)] by simp
    have "?L ! c1 = a \<longleftrightarrow> ?R ! c1 \<noteq> a"
      using tree(10) [OF a(1,2)] tree(6) [OF c1M(1,2)] a(3) by auto
    then show ?thesis
      using huff_tree_exchange_left [OF huff_tree_sym [OF t(1)] a c1(1) refl R, of b R' L'] False
      by (intro huff_tree_sym [of R']) (auto simp: b_def L'_def R'_def)
  qed
  define c where "c = (if ?L ! c1 = a then R' ! c1 else L' ! c1)"
  let ?s = "s\<lparr>leftc := L', rghtc := R', dad := ?D'\<rparr>"
  have ok': "tree_ok ?s" using tree' t(2) by (simp add: tree_ok_def)
  have cT: "c \<le> TWICEMAX" using huff_treeD(4,5) [OF tree' c1M(1,2)] by (simp add: c_def)
  obtain f where f: "updatefreq ?s b c = Some (?s\<lparr>freq := f\<rparr>)" "length f = TWICEMAX + 1"
    using updatefreq_ok [OF ok' b(1,2) cT] by blast
  have D'_nth: "?D' ! b = c1" "?D' ! c1 = ?c2"
    using a(2) b(2) tree(3) ab bc1 c1a by (simp_all add: nth_list_update)
  have acc: "rd ?D c1 = Some ?c2" "rd ?L ?c2 = Some (?L ! ?c2)" "rd ?R ?c2 = Some (?R ! ?c2)"
    "rd (freq s) a = Some (freq s ! a)" "rd (freq s) b = Some (freq s ! b)"
    "\<And>v. wr ?D b v = Some (?D[b := v])" "\<And>v w. wr (?D[b := w]) a v = Some (?D[b := w, a := v])"
    using a b c1M c2M t(2) tree(1-3) by (simp_all add: access_simps)
  show ?thesis
  proof (cases "freq s ! b < freq s ! a")
    case True
    have b_l: "?L ! ?c2 = c1 \<Longrightarrow> ?R ! ?c2 = b" and b_r: "?L ! ?c2 \<noteq> c1 \<Longrightarrow> ?L ! ?c2 = b"
      by (simp_all add: b_def)
    have sizes: "c1 < length ?L" "c1 < length ?R" "?c2 < length ?L" "?c2 < length ?R"
      using c1M c2M tree(1,2) by simp_all
    have "exchange s a c1 = Some (?s\<lparr>freq := f\<rparr>, b)"
    proof (cases "?L ! ?c2 = c1")
      case l2: True
      show ?thesis
        using acc True c12 sizes f(1) l2 b_l [OF l2]
        by (cases "?L ! c1 = a")
           (simp_all add: exchange_def access_simps L'_def R'_def c_def sixdepak_update_swap)
    next
      case l2: False
      show ?thesis
        using acc True c12 sizes f(1) l2 bc1 b_r [OF l2]
        by (cases "?L ! c1 = a")
           (simp_all add: exchange_def access_simps L'_def R'_def c_def sixdepak_update_swap)
    qed
    then show ?thesis
      using ok' f(2) b D'_nth climb' by (simp add: same_io_def)
  next
    case False
    then have "exchange s a c1 = Some (s, a)"
      using acc by (simp add: exchange_def b_def split: if_splits)
    then show ?thesis using ok a c1(2) by simp
  qed
qed

lemma updatemodel_loop_ok:
  "tree_ok s \<Longrightarrow> ROOT < a \<Longrightarrow> a \<le> TWICEMAX \<Longrightarrow> dad s ! a = c1 \<Longrightarrow> ROOT < c1 \<Longrightarrow>
   climb (dad s) c1 (Suc n) \<Longrightarrow>
   \<exists>s'. updatemodel_loop s a c1 = Some s' \<and> tree_ok s' \<and> same_io s s'"
proof (induction n arbitrary: s a c1)
  case (0 s a c1)
  from 0(6) have c2: "climb (dad s) (dad s ! c1) 0" by (auto elim: climb_upE)
  then have root: "dad s ! c1 = ROOT" by (auto elim: climb_zeroE)
  obtain s' a' where ex: "exchange s a c1 = Some (s', a')" "tree_ok s'" "same_io s s'"
    "a' \<le> TWICEMAX" "dad s' ! a' = c1" "dad s' ! c1 = dad s ! c1"
    using exchange_ok [OF 0(1-5) c2] by blast
  have "length (dad s') = TWICEMAX + 1" "c1 \<le> TWICEMAX"
    using huff_treeD(3,9) [OF tree_okD(1) [OF ex(2)]] huff_treeD(9) [OF tree_okD(1) [OF 0(1)] 0(2,3)]
      0(4) ROOT_le_TWICEMAX by auto
  then have "updatemodel_loop s a c1 = Some s'"
    using ex root by (subst updatemodel_loop.simps) (simp add: access_simps)
  then show ?case using ex by blast
next
  case (Suc n s a c1)
  let ?c2 = "dad s ! c1"
  from Suc.prems(6) have c2: "climb (dad s) ?c2 (Suc n)" by (auto elim: climb_upE)
  then have R: "ROOT < ?c2" by (auto elim: climbE)
  obtain s' a' where ex: "exchange s a c1 = Some (s', a')" "tree_ok s'" "same_io s s'"
    "a' \<le> TWICEMAX" "dad s' ! a' = c1" "dad s' ! c1 = ?c2" "climb (dad s') ?c2 (Suc n)"
    using exchange_ok [OF Suc.prems(1-5) c2] by blast
  have sz: "length (dad s') = TWICEMAX + 1" "c1 \<le> TWICEMAX"
    using huff_treeD(3,9) [OF tree_okD(1) [OF ex(2)]]
      huff_treeD(9) [OF tree_okD(1) [OF Suc.prems(1)] Suc.prems(2,3)] Suc.prems(4)
      ROOT_le_TWICEMAX by auto
  obtain s2 where "updatemodel_loop s' c1 ?c2 = Some s2" "tree_ok s2" "same_io s' s2"
    using Suc.IH [OF ex(2) Suc.prems(5) sz(2) ex(6) R ex(7)] by blast
  moreover have "updatemodel_loop s a c1 = updatemodel_loop s' c1 ?c2"
    using ex R sz by (subst updatemodel_loop.simps) (simp add: access_simps)
  ultimately show ?case using same_io_trans [OF ex(3)] by auto
qed

lemma updatemodel_ok:
  assumes "tree_ok s" "code \<le> MAXCHAR"
  shows "\<exists>s'. updatemodel s code = Some s' \<and> tree_ok s' \<and> same_io s s'"
proof -
  let ?a = "code + SUCCMAX"
  have a: "ROOT < ?a" "?a \<le> TWICEMAX" "?a mod 65536 = ?a"
    using assms(2) by (simp_all add: sixdepack_consts)
  note t = tree_okD [OF assms(1)]
  note tree = huff_treeD [OF t(1)]
  let ?s = "s\<lparr>freq := (freq s)[?a := (freq s ! ?a + 1) mod 65536]\<rparr>"
  let ?c = "dad s ! ?a"
  have ok: "tree_ok ?s" using assms(1) t(2) by simp
  have c: "ROOT \<le> ?c" "?c \<le> MAXCHAR" using tree(9) [OF a(1,2)] by simp_all
  have acc: "rd (freq s) ?a = Some (freq s ! ?a)" "\<And>v. wr (freq s) ?a v = Some ((freq s)[?a := v])"
    "rd (dad s) ?a = Some ?c" "rd (leftc s) ?c = Some (leftc s ! ?c)"
    "rd (rghtc s) ?c = Some (rghtc s ! ?c)"
    using a c t(2) tree(1-3) by (simp_all add: access_simps)
  show ?thesis
  proof (cases "?c = ROOT")
    case True
    then have "updatemodel s code = Some ?s" using acc a(3) by (simp add: updatemodel_def Let_def)
    then show ?thesis using ok by (simp add: same_io_def)
  next
    case False
    with c have R: "ROOT < ?c" by simp
    let ?b = "if leftc s ! ?c = ?a then rghtc s ! ?c else leftc s ! ?c"
    have bT: "?b \<le> TWICEMAX" using tree(4,5) [OF c] by simp
    obtain f where f: "updatefreq ?s ?a ?b = Some (?s\<lparr>freq := f\<rparr>)" "length f = TWICEMAX + 1"
      using updatefreq_ok [OF ok a(1,2) bT] by blast
    have ok': "tree_ok (?s\<lparr>freq := f\<rparr>)" using tree_ok_freq [OF f(2) ok] by simp
    have "?c \<le> TWICEMAX" using c(2) ROOT_le_TWICEMAX(2) by linarith
    then obtain m where m: "climb (dad s) ?c m" using tree(11) [OF c(1)] by blast
    with R obtain n where "m = Suc n" by (cases m) (auto elim: climb_zeroE)
    with m have "climb (dad s) ?c (Suc n)" by simp
    then obtain s' where "updatemodel_loop (?s\<lparr>freq := f\<rparr>) ?a ?c = Some s'" "tree_ok s'"
      "same_io (?s\<lparr>freq := f\<rparr>) s'"
      using updatemodel_loop_ok [OF ok' a(1,2), of ?c n] R by auto
    moreover have "updatemodel s code = updatemodel_loop (?s\<lparr>freq := f\<rparr>) ?a ?c"
      using acc a(3) False f(1) by (cases "leftc s ! ?c = ?a") (simp_all add: updatemodel_def Let_def)
    ultimately show ?thesis by (simp add: same_io_def)
  qed
qed

section \<open>The initial tree\<close>

lemma inittree_fold_dad:
  "fold (\<lambda>i s. s\<lparr>dad := (dad s)[i := f i], freq := (freq s)[i := g i]\<rparr>) xs s =
   s\<lparr>dad := fold (\<lambda>i d. d[i := f i]) xs (dad s), freq := fold (\<lambda>i d. d[i := g i]) xs (freq s)\<rparr>"
  by (induction xs arbitrary: s) simp_all

lemma inittree_fold_children:
  "fold (\<lambda>i s. s\<lparr>leftc := (leftc s)[i := f i], rghtc := (rghtc s)[i := g i]\<rparr>) xs s =
   s\<lparr>leftc := fold (\<lambda>i d. d[i := f i]) xs (leftc s), rghtc := fold (\<lambda>i d. d[i := g i]) xs (rghtc s)\<rparr>"
  by (induction xs arbitrary: s) simp_all

lemma climb_halving:
  assumes "\<And>j. ROOT < j \<Longrightarrow> j \<le> N \<Longrightarrow> d ! j = j div 2"
  shows "ROOT \<le> j \<Longrightarrow> j \<le> N \<Longrightarrow> \<exists>n. climb d j n"
proof (induction j rule: less_induct)
  case (less j)
  show ?case
  proof (cases "j = ROOT")
    case True
    then show ?thesis by (auto intro: climb_root)
  next
    case False
    with less.prems have j: "ROOT < j" "ROOT \<le> j div 2" "j div 2 < j"
      by (auto simp: ROOT_def)
    then obtain n where "climb d (j div 2) n" using less by force
    then have "climb d j (Suc n)" using j(1) assms [OF j(1) less.prems(2)] by (auto intro: climb_up)
    then show ?thesis by blast
  qed
qed

lemma inittree_ok:
  assumes "length (leftc s) = MAXCHAR + 1" "length (rghtc s) = MAXCHAR + 1"
    and "length (dad s) = TWICEMAX + 1" "length (freq s) = TWICEMAX + 1"
  shows "tree_ok (inittree s)" and "same_io s (inittree s)"
proof -
  let ?D = "dad (inittree s)" and ?L = "leftc (inittree s)" and ?R = "rghtc (inittree s)"
  have len: "length ?L = MAXCHAR + 1" "length ?R = MAXCHAR + 1" "length ?D = TWICEMAX + 1"
    "length (freq (inittree s)) = TWICEMAX + 1"
    using assms by (simp_all add: inittree_def inittree_fold_dad inittree_fold_children)
  have D: "?D ! j = j div 2" if "ROOT < j" "j \<le> TWICEMAX" for j
    using assms that
    by (simp add: inittree_def inittree_fold_dad inittree_fold_children nth_fold_update ROOT_def del: upt_Suc)
  have LR: "?L ! i = 2 * i" "?R ! i = 2 * i + 1" if "ROOT \<le> i" "i \<le> MAXCHAR" for i
    using assms that
    by (simp_all add: inittree_def inittree_fold_dad inittree_fold_children nth_fold_update ROOT_def del: upt_Suc)
  have half: "ROOT \<le> j div 2" "j div 2 \<le> MAXCHAR" if "ROOT < j" "j \<le> TWICEMAX" for j
    using that by (auto simp: sixdepack_consts)
  have double: "ROOT < 2 * i" "2 * i + 1 \<le> TWICEMAX" "2 * i \<le> TWICEMAX" if "ROOT \<le> i" "i \<le> MAXCHAR" for i
    using that by (auto simp: sixdepack_consts)
  show "tree_ok (inittree s)"
    unfolding tree_ok_def huff_tree_def
  proof (intro conjI allI impI len)
    fix i assume i: "ROOT \<le> i \<and> i \<le> MAXCHAR"
    then show "ROOT < ?L ! i" "?L ! i \<le> TWICEMAX" "ROOT < ?R ! i" "?R ! i \<le> TWICEMAX"
      "?L ! i \<noteq> ?R ! i" "?D ! (?L ! i) = i" "?D ! (?R ! i) = i"
      using double [of i] LR [of i] by (simp_all add: D)
  next
    fix j assume j: "ROOT < j \<and> j \<le> TWICEMAX"
    then show "ROOT \<le> ?D ! j" "?D ! j \<le> MAXCHAR" "?L ! (?D ! j) = j \<or> ?R ! (?D ! j) = j"
      using half [of j] by (auto simp: D LR)
  next
    fix j assume "ROOT \<le> j \<and> j \<le> TWICEMAX"
    then show "\<exists>n. climb ?D j n" using climb_halving [of TWICEMAX ?D] D by blast
  qed
  show "same_io s (inittree s)"
    by (simp add: inittree_def inittree_fold_dad inittree_fold_children same_io_def)
qed

section \<open>The bit stream\<close>

definition io_ok :: "sixdepak \<Rightarrow> bool" where
  "io_ok s \<longleftrightarrow> ibufcount s \<le> input_size s \<and> input_size s \<le> length (wdbuf s) \<and> ibitcount s \<le> 15"

definition bits_left :: "sixdepak \<Rightarrow> nat" where
  "bits_left s = 16 * (input_size s - ibufcount s) + ibitcount s"

definition same_tree :: "sixdepak \<Rightarrow> sixdepak \<Rightarrow> bool" where
  "same_tree s s' \<longleftrightarrow>
     leftc s' = leftc s \<and> rghtc s' = rghtc s \<and> dad s' = dad s \<and> freq s' = freq s \<and>
     input_size s' = input_size s \<and> output_size s' = output_size s \<and>
     wdbuf s' = wdbuf s \<and> obuf s' = obuf s"

lemma same_tree_refl [simp]: "same_tree s s"
  by (simp add: same_tree_def)

lemma same_tree_trans: "same_tree s s' \<Longrightarrow> same_tree s' s'' \<Longrightarrow> same_tree s s''"
  by (simp add: same_tree_def)

lemma same_tree_ok: "same_tree s s' \<Longrightarrow> tree_ok s' = tree_ok s"
  by (simp add: same_tree_def tree_ok_def)

lemma refill_cases:
  assumes "io_ok s"
  obtains (exhausted) "refill s = Some None"
  | (bit) s1 where "refill s = Some (Some s1)" "io_ok s1" "same_tree s s1"
      "bits_left s = Suc (bits_left s1)"
proof (cases "ibitcount s = 0")
  case True
  show ?thesis
  proof (cases "ibufcount s = input_size s")
    case eq: True
    with True show ?thesis by (intro exhausted) (simp add: refill_def)
  next
    case False
    with assms have lt: "ibufcount s < length (wdbuf s)" "ibufcount s < input_size s"
      by (auto simp: io_ok_def)
    let ?s1 = "s\<lparr>ibitbuffer := wdbuf s ! ibufcount s, ibufcount := ibufcount s + 1, ibitcount := 15\<rparr>"
    have "refill s = Some (Some ?s1)"
      using True False lt by (simp add: refill_def access_simps)
    moreover have "io_ok ?s1" "same_tree s ?s1" "bits_left s = Suc (bits_left ?s1)"
      using assms True lt by (auto simp: io_ok_def same_tree_def bits_left_def)
    ultimately show ?thesis by (rule bit)
  qed
next
  case False
  let ?s1 = "s\<lparr>ibitcount := ibitcount s - 1\<rparr>"
  have "refill s = Some (Some ?s1)" using False by (simp add: refill_def)
  moreover have "io_ok ?s1" "same_tree s ?s1" "bits_left s = Suc (bits_left ?s1)"
    using assms False by (auto simp: io_ok_def same_tree_def bits_left_def)
  ultimately show ?thesis by (rule bit)
qed

lemma shift_buffer_frame [simp]:
  "io_ok (shift_buffer s) = io_ok s" "bits_left (shift_buffer s) = bits_left s"
  "same_tree s' (shift_buffer s) = same_tree s' s"
  by (simp_all add: shift_buffer_def io_ok_def bits_left_def same_tree_def)

lemma or_less_power2: "(x::nat) < 2 ^ n \<Longrightarrow> y < 2 ^ n \<Longrightarrow> x OR y < 2 ^ n"
  by (metis take_bit_nat_eq_self_iff take_bit_or)

lemma bitvalue_Some: "b < 14 \<Longrightarrow> bitvalue b = Some (2 ^ b)"
proof -
  assume b: "b < 14"
  then have "(2::nat) ^ b < 2 ^ 16" by (intro power_strict_increasing) simp_all
  then show ?thesis
    using b by (simp add: bitvalue_def copybits_def COPYRANGES_def push_bit_eq_mult)
qed

lemma inputcode_loop_ok:
  assumes "bits \<le> 14"
  shows "io_ok s \<Longrightarrow> 1 \<le> i \<Longrightarrow> i \<le> Suc bits \<Longrightarrow> code < 2 ^ (i - 1) \<Longrightarrow>
   \<exists>s' c. inputcode_loop s bits i code = Some (s', c) \<and> io_ok s' \<and> same_tree s s' \<and>
     bits_left s' \<le> bits_left s \<and> c < 2 ^ bits"
proof (induction "Suc bits - i" arbitrary: s i code)
  case 0
  then have "i = Suc bits" by simp
  with 0 show ?case by (subst inputcode_loop.simps) simp
next
  case (Suc k)
  then have i: "i \<le> bits" by simp
  from Suc.prems(1) show ?case
  proof (cases rule: refill_cases)
    case exhausted
    then show ?thesis using i Suc.prems by (subst inputcode_loop.simps) simp
  next
    case (bit s1)
    have bv: "bitvalue (i - 1) = Some (2 ^ (i - 1))"
      using i assms Suc.prems(2) by (intro bitvalue_Some) simp
    let ?code = "if top_bit s1 then code OR 2 ^ (i - 1) else code"
    have grow: "(2::nat) ^ (i - 1) < 2 ^ (i + 1 - 1)"
      using Suc.prems(2) by (intro power_strict_increasing) simp_all
    have code: "?code < 2 ^ (i + 1 - 1)"
      using or_less_power2 [of code "i + 1 - 1" "2 ^ (i - 1)"] less_trans [OF Suc.prems(4) grow] grow
      by simp
    have "\<exists>s' c. inputcode_loop (shift_buffer s1) bits (i + 1) ?code = Some (s', c) \<and>
        io_ok s' \<and> same_tree (shift_buffer s1) s' \<and>
        bits_left s' \<le> bits_left (shift_buffer s1) \<and> c < 2 ^ bits"
      by (rule Suc.hyps(1)) (use Suc.hyps(2) bit i code in simp_all)
    moreover have "inputcode_loop s bits i code = inputcode_loop (shift_buffer s1) bits (i + 1) ?code"
      using i bit(1) bv by (subst inputcode_loop.simps) simp
    moreover have "same_tree s (shift_buffer s1)" using bit by simp
    ultimately show ?thesis
      using bit(4) same_tree_trans by fastforce
  qed
qed

lemma inputcode_ok:
  assumes "bits \<le> 14" "io_ok s"
  obtains s' c where "inputcode s bits = Some (s', c)" "io_ok s'" "same_tree s s'"
    "bits_left s' \<le> bits_left s" "c < 2 ^ bits"
  using inputcode_loop_ok [OF assms(1,2), of 1 0] unfolding inputcode_def by auto

lemma uncompress_loop_ok:
  "io_ok s \<Longrightarrow> tree_ok s \<Longrightarrow> ROOT \<le> a \<Longrightarrow> a \<le> MAXCHAR \<Longrightarrow>
   \<exists>s' r. uncompress_loop s a = Some (s', r) \<and> io_ok s' \<and> same_tree s s' \<and>
     bits_left s' \<le> bits_left s \<and>
     (\<forall>a'. r = Some a' \<longrightarrow> MAXCHAR < a' \<and> a' \<le> TWICEMAX \<and> bits_left s' < bits_left s)"
proof (induction "bits_left s" arbitrary: s a rule: less_induct)
  case less
  from less.prems(1) show ?case
  proof (cases rule: refill_cases)
    case exhausted
    then show ?thesis using less.prems by (subst uncompress_loop.simps) simp
  next
    case (bit s1)
    have t1: "tree_ok s1" using less.prems(2) bit(3) same_tree_ok by blast
    note tree = huff_treeD [OF tree_okD(1) [OF t1]]
    let ?a = "if top_bit s1 then rghtc s1 ! a else leftc s1 ! a"
    have a': "ROOT < ?a" "?a \<le> TWICEMAX" using tree(4,5) [OF less.prems(3,4)] by simp_all
    have "rd (rghtc s1) a = Some (rghtc s1 ! a)" "rd (leftc s1) a = Some (leftc s1 ! a)"
      using less.prems(4) tree(1,2) by (simp_all add: access_simps)
    then have step: "uncompress_loop s a =
        (if ?a \<le> MAXCHAR then uncompress_loop (shift_buffer s1) ?a
         else Some (shift_buffer s1, Some ?a))"
      using bit(1) by (subst uncompress_loop.simps) (simp add: Let_def)
    show ?thesis
    proof (cases "?a \<le> MAXCHAR")
      case True
      have "tree_ok (shift_buffer s1)"
        using t1 same_tree_ok [of s1 "shift_buffer s1"] by simp
      then have "\<exists>s' r. uncompress_loop (shift_buffer s1) ?a = Some (s', r) \<and> io_ok s' \<and>
          same_tree (shift_buffer s1) s' \<and> bits_left s' \<le> bits_left (shift_buffer s1) \<and>
          (\<forall>a'. r = Some a' \<longrightarrow> MAXCHAR < a' \<and> a' \<le> TWICEMAX \<and>
             bits_left s' < bits_left (shift_buffer s1))"
        using less.hyps [of "shift_buffer s1" ?a] bit True a'(1) by simp
      then obtain s' r where IH: "uncompress_loop (shift_buffer s1) ?a = Some (s', r)" "io_ok s'"
        "same_tree (shift_buffer s1) s'" "bits_left s' \<le> bits_left s1"
        "\<forall>a'. r = Some a' \<longrightarrow> MAXCHAR < a' \<and> a' \<le> TWICEMAX \<and> bits_left s' < bits_left s1"
        by auto
      have "same_tree s s'"
        by (rule same_tree_trans [OF _ IH(3)]) (simp add: bit(3))
      then show ?thesis using IH step True bit(4) by auto
    next
      case False
      then show ?thesis using step bit a'(2) by simp
    qed
  qed
qed

lemma uncompress_ok:
  assumes "io_ok s" "tree_ok s"
  obtains s' c where "uncompress s = Some (s', c)" "io_ok s'" "tree_ok s'" "c \<le> MAXCHAR"
    "output_size s' = output_size s" "obuf s' = obuf s"
    "c = TERMINATE \<or> bits_left s' < bits_left s"
proof -
  have "ROOT \<le> 1" "1 \<le> MAXCHAR" by (simp_all add: sixdepack_consts)
  from uncompress_loop_ok [OF assms this] obtain s1 r where
    u: "uncompress_loop s 1 = Some (s1, r)" "io_ok s1" "same_tree s s1"
      "\<And>a'. r = Some a' \<Longrightarrow> MAXCHAR < a' \<and> a' \<le> TWICEMAX \<and> bits_left s1 < bits_left s"
    by auto
  have t1: "tree_ok s1" using assms(2) u(3) same_tree_ok by blast
  show ?thesis
  proof (cases r)
    case None
    then have "uncompress s = Some (s1, TERMINATE)" using u(1) by (simp add: uncompress_def)
    then show ?thesis
      using u(2,3) t1 by (intro that [of s1 TERMINATE]) (simp_all add: same_tree_def sixdepack_consts)
  next
    case (Some a)
    have c: "a - SUCCMAX \<le> MAXCHAR" using u(4) [OF Some] by (auto simp: sixdepack_consts)
    obtain s2 where s2: "updatemodel s1 (a - SUCCMAX) = Some s2" "tree_ok s2" "same_io s1 s2"
      using updatemodel_ok [OF t1 c] by blast
    then have "uncompress s = Some (s2, a - SUCCMAX)" using u(1) Some by (simp add: uncompress_def)
    moreover have "io_ok s2" "bits_left s2 = bits_left s1"
      using s2(3) u(2) by (simp_all add: same_io_def io_ok_def bits_left_def)
    ultimately show ?thesis
      using s2 c u(3) u(4) [OF Some]
      by (intro that [of s2 "a - SUCCMAX"]) (simp_all add: same_io_def same_tree_def)
  qed
qed

section \<open>The copy loop and the whole decoder\<close>

text \<open>
  The reference for the copy: every byte is the one \<open>dist\<close> before it in the output, or 0
  where that lies before the beginning, and the copy stops at the end of the output buffer.
\<close>

definition lz_copied :: "nat list \<Rightarrow> nat list \<Rightarrow> nat \<Rightarrow> nat \<Rightarrow> nat \<Rightarrow> bool" where
  "lz_copied out out' dist from to \<longleftrightarrow>
     length out' = length out \<and>
     (\<forall>k. k < from \<or> to \<le> k \<longrightarrow> out' ! k = out ! k) \<and>
     (\<forall>k. from \<le> k \<and> k < to \<longrightarrow> out' ! k = (if k < dist then 0 else out' ! (k - dist)))"

lemma copy_loop_ok:
  "pos \<le> output_size s \<Longrightarrow> output_size s \<le> length (obuf s) \<Longrightarrow> 0 < dist \<Longrightarrow>
   \<exists>out'. copy_loop s pos dist n =
       Some (s\<lparr>obuf := out'\<rparr>, min (pos + n) (output_size s), output_size s < pos + n) \<and>
     lz_copied (obuf s) out' dist pos (min (pos + n) (output_size s))"
proof (induction n arbitrary: s pos)
  case 0
  then show ?case by (intro exI [of _ "obuf s"]) (simp add: lz_copied_def)
next
  case (Suc n)
  show ?case
  proof (cases "pos = output_size s")
    case True
    then show ?thesis by (intro exI [of _ "obuf s"]) (simp add: lz_copied_def)
  next
    case False
    with Suc.prems have pos: "pos < output_size s" "pos < length (obuf s)" by simp_all
    let ?v = "if pos < dist then 0 else obuf s ! (pos - dist)"
    let ?s = "s\<lparr>obuf := (obuf s)[pos := ?v]\<rparr>"
    have step: "copy_loop s pos dist (Suc n) = copy_loop ?s (pos + 1) dist n"
      using pos by (simp add: access_simps)
    obtain out' where IH: "copy_loop ?s (pos + 1) dist n =
        Some (?s\<lparr>obuf := out'\<rparr>, min (pos + 1 + n) (output_size s), output_size s < pos + 1 + n)"
      "lz_copied (obuf ?s) out' dist (pos + 1) (min (pos + 1 + n) (output_size s))"
      using Suc.IH [of "pos + 1" ?s] Suc.prems pos by auto
    have "lz_copied (obuf s) out' dist pos (min (pos + Suc n) (output_size s))"
      unfolding lz_copied_def
    proof (intro conjI allI impI)
      show "length out' = length (obuf s)" using IH(2) by (simp add: lz_copied_def)
    next
      fix k assume "k < pos \<or> min (pos + Suc n) (output_size s) \<le> k"
      then show "out' ! k = obuf s ! k"
        using IH(2) pos by (auto simp: lz_copied_def)
    next
      fix k assume k: "pos \<le> k \<and> k < min (pos + Suc n) (output_size s)"
      show "out' ! k = (if k < dist then 0 else out' ! (k - dist))"
      proof (cases "k = pos")
        case True
        have "pos - dist < pos" if "\<not> pos < dist" using that Suc.prems(3) by simp
        then show ?thesis using True IH(2) pos by (auto simp: lz_copied_def)
      next
        case False
        then show ?thesis using k IH(2) by (simp add: lz_copied_def)
      qed
    qed
    then show ?thesis using step IH(1) by auto
  qed
qed

text \<open>What is left after a decoding run: the tail of the destination is untouched.\<close>

definition wrote_upto :: "nat list \<Rightarrow> nat list \<Rightarrow> nat \<Rightarrow> nat \<Rightarrow> bool" where
  "wrote_upto out out' from to \<longleftrightarrow>
     length out' = length out \<and> from \<le> to \<and>
     (\<forall>k. k < from \<or> to \<le> k \<longrightarrow> out' ! k = out ! k)"

lemma wrote_upto_refl [simp]: "wrote_upto out out n n"
  by (simp add: wrote_upto_def)

lemma wrote_upto_trans:
  "wrote_upto a b i j \<Longrightarrow> wrote_upto b c j k \<Longrightarrow> wrote_upto a c i k"
  by (simp add: wrote_upto_def)

lemma lz_copied_wrote: "lz_copied a b d i j \<Longrightarrow> i \<le> j \<Longrightarrow> wrote_upto a b i j"
  by (simp add: lz_copied_def wrote_upto_def)

text \<open>The arithmetic of a copy code: the range is valid and the distance does not wrap.\<close>

lemma copy_code_ranges:
  assumes "c \<le> MAXCHAR" "256 < c"
  defines "t \<equiv> c - FIRSTCODE"
  defines "index \<equiv> t div CODESPERRANGE"
  defines "len \<equiv> t + MINCOPY - index * CODESPERRANGE"
  shows "index < COPYRANGES" "copybits index = Some (2 * index + 4)" "2 * index + 4 \<le> 14"
    "\<exists>m. copymin index = Some m \<and> m \<le> 5456" "3 \<le> len" "len \<le> 255"
proof -
  have t: "t < 1518" using assms(1,2) by (auto simp: t_def sixdepack_consts)
  then show index: "index < COPYRANGES"
    by (auto simp: index_def sixdepack_consts)
  then show "copybits index = Some (2 * index + 4)" by (simp add: copybits_def)
  show "2 * index + 4 \<le> 14" using index by (simp add: sixdepack_consts)
  have "index \<in> {0, 1, 2, 3, 4, 5}" using index by (auto simp: sixdepack_consts)
  then show "\<exists>m. copymin index = Some m \<and> m \<le> 5456"
    by (auto simp: copymin_def sixdepack_consts rd_def)
  have "len = t mod 253 + 3"
    by (simp add: len_def index_def sixdepack_consts modulo_nat_def)
  then show "3 \<le> len" "len \<le> 255" by (simp, simp add: less_Suc_eq_le [symmetric])
qed

lemma do_decode_loop_ok:
  "io_ok s \<Longrightarrow> tree_ok s \<Longrightarrow> pos \<le> output_size s \<Longrightarrow> output_size s \<le> length (obuf s) \<Longrightarrow>
   \<exists>s' n. do_decode_loop s pos = Some (s', n) \<and> n \<le> output_size s \<and>
     wrote_upto (obuf s) (obuf s') pos n"
proof (induction "bits_left s" arbitrary: s pos rule: less_induct)
  case less
  from less.prems(1,2) obtain s1 c where u: "uncompress s = Some (s1, c)" "io_ok s1" "tree_ok s1"
    "c \<le> MAXCHAR" "output_size s1 = output_size s" "obuf s1 = obuf s"
    "c = TERMINATE \<or> bits_left s1 < bits_left s"
    by (rule uncompress_ok)
  note IH = less.hyps
  show ?case
  proof (cases "c = TERMINATE \<or> c < 256 \<and> pos = output_size s")
    case True
    then have "do_decode_loop s pos = Some (s1, pos)"
      using u(1,5) by (subst do_decode_loop.simps) (auto simp: TERMINATE_def)
    then show ?thesis using u(6) less.prems(3) by auto
  next
    case False
    then have bits: "bits_left s1 < bits_left s" using u(7) by simp
    show ?thesis
    proof (cases "c < 256")
      case True
      let ?s = "s1\<lparr>obuf := (obuf s)[pos := c mod 256]\<rparr>"
      have pos: "pos < output_size s" using True False less.prems(3) by simp
      then have step: "do_decode_loop s pos = do_decode_loop ?s (pos + 1)"
        using True False u(1,5,6) less.prems(4)
        by (subst do_decode_loop.simps) (simp add: access_simps TERMINATE_def)
      have "\<exists>s' n. do_decode_loop ?s (pos + 1) = Some (s', n) \<and> n \<le> output_size ?s \<and>
          wrote_upto (obuf ?s) (obuf s') (pos + 1) n"
        by (rule IH) (use bits u pos less.prems(4) in
          \<open>simp_all add: bits_left_def io_ok_def tree_ok_def\<close>)
      moreover have "wrote_upto (obuf s) (obuf ?s) pos (pos + 1)"
        by (auto simp: wrote_upto_def nth_list_update)
      ultimately show ?thesis using step u(5) wrote_upto_trans by fastforce
    next
      case copy: False
      define t where "t = c - FIRSTCODE"
      define index where "index = t div CODESPERRANGE"
      define len where "len = t + MINCOPY - index * CODESPERRANGE"
      have "256 < c" using copy False by (auto simp: TERMINATE_def)
      note rng = copy_code_ranges [OF u(4) this, folded t_def, folded index_def, folded len_def]
      obtain s2 code where inp: "inputcode s1 (2 * index + 4) = Some (s2, code)" "io_ok s2"
        "same_tree s1 s2" "bits_left s2 \<le> bits_left s1" "code < 2 ^ (2 * index + 4)"
        using inputcode_ok [OF rng(3) u(2)] by metis
      obtain m where m: "copymin index = Some m" "m \<le> 5456" using rng(4) by blast
      define dist where "dist = (code + m + len) mod 65536"
      have "code < 2 ^ 14" using inp(5) rng(3) power_increasing [of "2 * index + 4" 14 "2::nat"]
        by (meson le_trans less_le_trans one_le_numeral)
      then have "dist = code + m + len" using m(2) rng(6) by (simp add: dist_def)
      then have dist: "0 < dist" using rng(5) by simp
      have s2: "tree_ok s2" "output_size s2 = output_size s" "obuf s2 = obuf s"
        using inp(3) u(3,5,6) same_tree_ok [OF inp(3)] by (simp_all add: same_tree_def)
      obtain out' where cp: "copy_loop s2 pos dist len =
          Some (s2\<lparr>obuf := out'\<rparr>, min (pos + len) (output_size s), output_size s < pos + len)"
        "lz_copied (obuf s) out' dist pos (min (pos + len) (output_size s))"
        using copy_loop_ok [of pos s2 dist len] less.prems(3,4) s2 dist by auto
      let ?s = "s2\<lparr>obuf := out'\<rparr>" and ?n = "min (pos + len) (output_size s)"
      have wrote: "wrote_upto (obuf s) out' pos ?n"
        using lz_copied_wrote [OF cp(2)] less.prems(3) by simp
      have step: "do_decode_loop s pos =
          (if output_size s < pos + len then Some (?s, output_size s) else do_decode_loop ?s ?n)"
        using u(1) copy False inp(1) m(1) cp(1) rng(2) s2(2)
        by (subst do_decode_loop.simps)
           (simp add: Let_def t_def index_def len_def dist_def)
      show ?thesis
      proof (cases "output_size s < pos + len")
        case True
        then show ?thesis using step wrote by auto
      next
        case fits: False
        have "\<exists>s' n. do_decode_loop ?s ?n = Some (s', n) \<and> n \<le> output_size ?s \<and>
            wrote_upto (obuf ?s) (obuf s') ?n n"
          by (rule IH) (use bits inp s2 cp(2) less.prems(4) in
            \<open>simp_all add: bits_left_def io_ok_def tree_ok_def lz_copied_def\<close>)
        then show ?thesis using step fits wrote s2(2) wrote_upto_trans by fastforce
      qed
    qed
  qed
qed

lemma new_sixdepak_do_decode:
  assumes "isize \<le> length input" "osize \<le> length out"
  obtains s' n where "do_decode (new_sixdepak mem input isize out osize) = Some (s', n)"
    "n \<le> osize" "wrote_upto out (obuf s') 0 n"
proof -
  let ?s = "(new_sixdepak mem input isize out osize)\<lparr>ibufcount := 0, ibitcount := 0, ibitbuffer := 0\<rparr>"
  have t: "tree_ok (inittree ?s)" and io: "same_io ?s (inittree ?s)"
    by (rule inittree_ok; simp add: new_sixdepak_def)+
  have "io_ok (inittree ?s)" "output_size (inittree ?s) = osize" "obuf (inittree ?s) = out"
    using io assms by (simp_all add: same_io_def io_ok_def new_sixdepak_def)
  then show ?thesis
    using do_decode_loop_ok [of "inittree ?s" 0] t assms(2) that
    unfolding do_decode_def by auto
qed

section \<open>The properties\<close>

text \<open>C2: \<open>Sixdepak::decode\<close> returns for every content of the source buffer, of whatever the heap
held before the constructor and for all sizes: it writes at most \<open>dstbytes\<close> (and at most
\<open>MAXBUF\<close>) bytes, never touches the destination behind what it reports, and never reads outside
its arrays, although the adaptive tree is driven by the untrusted input.\<close>

theorem decode_safe:
  assumes "srcbytes div 2 \<le> length source" "dstbytes \<le> length dest"
  shows "\<exists>n dest'. decode mem source srcbytes dest dstbytes = Some (n, dest') \<and>
    n \<le> min dstbytes MAXBUF \<and> length dest' = length dest \<and> drop n dest' = drop n dest"
proof (cases "srcbytes < 2 \<or> srcbytes > MAXBUF - 4096 \<or> dstbytes < 1")
  case True
  then show ?thesis by (auto simp: decode_def)
next
  case False
  let ?d = "if dstbytes > MAXBUF then MAXBUF else dstbytes"
  obtain s n where s: "do_decode (new_sixdepak mem source (srcbytes div 2) dest ?d) = Some (s, n)"
    "n \<le> ?d" "wrote_upto dest (obuf s) 0 n"
  proof (rule new_sixdepak_do_decode [OF assms(1)])
    show "?d \<le> length dest" using assms(2) by simp
  qed
  then have "length (obuf s) = length dest" "drop n (obuf s) = drop n dest"
    by (auto simp: wrote_upto_def intro: nth_equalityI)
  then show ?thesis
    using False s(1,2) by (simp add: decode_def Let_def split: if_splits)
qed

lemma decode_safe_witness:
  "\<exists>n dest'. decode (\<lambda>_. 7) [0xffff, 0x1234, 3] 6 [9, 9] 2 = Some (n, dest') \<and>
    n \<le> min 2 MAXBUF \<and> length dest' = length [9::nat, 9] \<and> drop n dest' = drop n [9, 9]"
  by (rule decode_safe) simp_all

text \<open>C5: every code the model is updated with keeps the code tree a tree: child and parent links
agree, all nodes climb to the root, so the next code is decoded by a walk that ends. The update
itself returns, its loop climbs to the root, and it leaves the input and output untouched.\<close>

theorem updatemodel_keeps_tree:
  assumes "tree_ok s" "code \<le> MAXCHAR"
  shows "\<exists>s'. updatemodel s code = Some s' \<and> tree_ok s' \<and> same_io s s'"
  by (rule updatemodel_ok [OF assms])

lemma updatemodel_keeps_tree_witness:
  "\<exists>s. tree_ok (inittree s) \<and>
     (\<exists>s'. updatemodel (inittree s) TERMINATE = Some s' \<and> tree_ok s' \<and> same_io (inittree s) s')"
proof -
  let ?s = "new_sixdepak (\<lambda>_. 0) [] 0 [] 0"
  have "tree_ok (inittree ?s)" by (rule inittree_ok) (simp_all add: new_sixdepak_def)
  then show ?thesis
    using updatemodel_keeps_tree [of "inittree ?s" TERMINATE] by (auto simp: sixdepack_consts)
qed

text \<open>C40: the copy loop of the decoder is the reference copy of a sliding window: each byte
repeats the one \<open>dist\<close> before it, or 0 before the start of the output, also when source and
destination overlap; it stops at the end of the output buffer and says so.\<close>

theorem copy_loop_is_lz:
  assumes "pos \<le> output_size s" "output_size s \<le> length (obuf s)" "0 < dist"
  shows "\<exists>out'. copy_loop s pos dist n =
       Some (s\<lparr>obuf := out'\<rparr>, min (pos + n) (output_size s), output_size s < pos + n) \<and>
     lz_copied (obuf s) out' dist pos (min (pos + n) (output_size s))"
  by (rule copy_loop_ok [OF assms])

lemma copy_loop_is_lz_witness:
  "\<exists>out'. copy_loop (new_sixdepak (\<lambda>_. 0) [] 0 [5, 6, 0, 0, 0] 5) 2 2 4 =
       Some ((new_sixdepak (\<lambda>_. 0) [] 0 [5, 6, 0, 0, 0] 5)\<lparr>obuf := out'\<rparr>, 5, True) \<and>
     lz_copied [5, 6, 0, 0, 0] out' 2 2 5"
  using copy_loop_is_lz [of 2 "new_sixdepak (\<lambda>_. 0) [] 0 [5, 6, 0, 0, 0] 5" 2 4]
  by (simp add: new_sixdepak_def)

end
