(* ===== verification/Opl.thy ===== *)
theory Opl
  imports Prelude
begin

text \<open>
  \<open>src/opl.h\<close> and the classes that implement it without emulating a chip:
  \<open>realopl.cpp\<close> (port I/O), \<open>analopl.cpp\<close> (key-on analysis), \<open>diskopl.cpp\<close> (recording),
  \<open>silentopl.h\<close> (discarding). What a chip is told is a list of events; a player's pointer to its chip is the list of
  events it has sent.
\<close>

section \<open>The interface of opl.h\<close>

datatype chip_type = TYPE_OPL2 | TYPE_OPL3 | TYPE_DUAL_OPL2

datatype opl_event = OplInit | OplSetchip int | OplWrite int int

record copl =
  currChip :: nat
  currType :: chip_type

definition new_copl :: copl where
  "new_copl = \<lparr>currChip = 0, currType = TYPE_OPL2\<rparr>"

definition copl_setchip :: "int \<Rightarrow> 'a copl_scheme \<Rightarrow> 'a copl_scheme" where
  "copl_setchip n s = (if 0 \<le> n \<and> n < 2 then s\<lparr>currChip := nat n\<rparr> else s)"

definition op_table :: "int list" where
  "op_table = [0x00, 0x01, 0x02, 0x08, 0x09, 0x0a, 0x10, 0x11, 0x12]"

lemma length_op_table [simp]: "length op_table = 9"
  by (simp add: op_table_def)

lemma op_table_range: "i < 9 \<Longrightarrow> 0 \<le> op_table ! i \<and> op_table ! i \<le> 0x12"
proof -
  assume "i < 9"
  then have "op_table ! i \<in> set op_table" by (intro nth_mem) simp
  then show ?thesis by (auto simp: op_table_def)
qed

section \<open>CRealopl: a chip behind I/O ports\<close>

text \<open>
  The accesses to the two ports, in order. What \<open>INP\<close> returns is decided by the hardware: a
  function \<open>inp\<close> of the accesses so far and the port.
\<close>

datatype port_io = OUTP nat int | INP nat

record realopl = copl +
  adlport :: nat
  hardvol :: int
  oldvol :: int
  bequiet :: bool
  hardvols :: "(int \<times> int) list list"
  nowrite :: bool
  ports :: "port_io list"

definition SHORTDELAY :: nat where "SHORTDELAY = 6"
definition LONGDELAY :: nat where "LONGDELAY = 35"

definition new_realopl :: "nat \<Rightarrow> int \<Rightarrow> realopl" where
  "new_realopl initport old =
     \<lparr>currChip = 0, currType = TYPE_OPL3, adlport = initport, hardvol = 0, oldvol = old,
      bequiet = False, hardvols = replicate 2 (replicate 22 (0, 0)), nowrite = False, ports = []\<rparr>"

definition chip_port :: "'a realopl_scheme \<Rightarrow> nat" where
  "chip_port s = (if currChip s = 0 then adlport s else adlport s + 2) mod 65536"

definition hardwrite :: "int \<Rightarrow> int \<Rightarrow> 'a realopl_scheme \<Rightarrow> 'a realopl_scheme" where
  "hardwrite reg val s =
     (let adp = chip_port s in
      if nowrite s then s
      else s\<lparr>ports := ports s @ [OUTP adp reg] @ replicate SHORTDELAY (INP adp) @
               [OUTP (adp + 1) val] @ replicate LONGDELAY (INP adp)\<rparr>)"

definition do_inp :: "(port_io list \<Rightarrow> nat \<Rightarrow> int) \<Rightarrow> nat \<Rightarrow> 'a realopl_scheme \<Rightarrow> int \<times> 'a realopl_scheme" where
  "do_inp inp p s = (inp (ports s) p mod 256, s\<lparr>ports := ports s @ [INP p]\<rparr>)"

definition harddetect ::
  "(port_io list \<Rightarrow> nat \<Rightarrow> int) \<Rightarrow> 'a realopl_scheme \<Rightarrow> bool \<times> 'a realopl_scheme" where
  "harddetect inp s0 =
     (let adp = chip_port s0;
          s1 = hardwrite 4 0x80 (hardwrite 4 0x60 s0);
          (stat1, s2) = do_inp inp adp s1;
          s3 = hardwrite 4 0x21 (hardwrite 2 0xff s2);
          s4 = fold (\<lambda>_ s. snd (do_inp inp adp s)) [0..<80] s3;
          (stat2, s5) = do_inp inp adp s4;
          s6 = hardwrite 4 0x80 (hardwrite 4 0x60 s5)
      in (stat1 AND 0xe0 = 0 \<and> stat2 AND 0xe0 = 0xc0, s6))"

definition detect ::
  "(port_io list \<Rightarrow> nat \<Rightarrow> int) \<Rightarrow> 'a realopl_scheme \<Rightarrow> bool \<times> 'a realopl_scheme" where
  "detect inp s0 =
     (let (found, s1) = harddetect inp (copl_setchip 0 s0) in
      if found then
        let s2 = s1\<lparr>currType := TYPE_OPL2\<rparr>;
            (stat, s3) = do_inp inp (adlport s2) s2;
            s4 = (if stat AND 6 \<noteq> 0 then
                    (let (second, s5) = harddetect inp (copl_setchip 1 s3)
                     in if second then s5\<lparr>currType := TYPE_DUAL_OPL2\<rparr> else s5)
                  else s3\<lparr>currType := TYPE_OPL3\<rparr>)
        in (True, copl_setchip 0 s4)
      else (False, s1))"

text \<open>
  \<open>setvolume\<close>: the loops over chips and voices. Both writes test the sum against 63 on the
  masked volume but write the unmasked one.
\<close>

definition setvolume_voice :: "int \<Rightarrow> nat \<Rightarrow> nat \<Rightarrow> 'a realopl_scheme \<Rightarrow> 'a realopl_scheme option" where
  "setvolume_voice volume j i s = do {
     op \<leftarrow> rd op_table i;
     (car, _) \<leftarrow> rd2 (hardvols s) j (nat op + 3);
     let s1 = hardwrite (0x43 + op) (if (car AND 63) + volume > 63 then 63 else car + volume) s;
     (_, conn) \<leftarrow> rd2 (hardvols s1) j i;
     if conn AND 1 \<noteq> 0 then do {
       (md, _) \<leftarrow> rd2 (hardvols s1) j (nat op);
       Some (hardwrite (0x40 + op) (if (md AND 63) + volume > 63 then 63 else md + volume) s1)
     } else Some s1
   }"

definition setvolume :: "int \<Rightarrow> 'a realopl_scheme \<Rightarrow> 'a realopl_scheme option" where
  "setvolume volume s =
     ofold (\<lambda>j. ofold (\<lambda>i. setvolume_voice volume j i) [0..<9]) [0..<2] (s\<lparr>hardvol := volume\<rparr>)"

definition setquiet :: "bool \<Rightarrow> 'a realopl_scheme \<Rightarrow> 'a realopl_scheme option" where
  "setquiet quiet s =
     (let s1 = s\<lparr>bequiet := quiet\<rparr> in
      if quiet then setvolume 63 (s1\<lparr>oldvol := hardvol s1\<rparr>)
      else setvolume (oldvol s1) s1)"

text \<open>The attenuation loop of \<open>write\<close>, one voice at a time.\<close>

definition attenuate :: "'a realopl_scheme \<Rightarrow> int \<Rightarrow> nat \<Rightarrow> int \<Rightarrow> int option" where
  "attenuate s reg i val = do {
     op \<leftarrow> rd op_table i;
     if reg = 0x43 + op then
       Some (if (val AND 63) + hardvol s > 63 then 63 else val + hardvol s)
     else if reg = 0x40 + op then do {
       (_, conn) \<leftarrow> rd2 (hardvols s) (currChip s) i;
       Some (if conn AND 1 \<noteq> 0
             then (if (val AND 63) + hardvol s > 63 then 63 else val + hardvol s)
             else val)
     }
     else Some val
   }"

text \<open>The caches \<open>write\<close> keeps of the volumes and of the connection registers.\<close>

definition cache_volume :: "int \<Rightarrow> int \<Rightarrow> 'a realopl_scheme \<Rightarrow> 'a realopl_scheme option" where
  "cache_volume reg val s =
     (if 0x40 \<le> reg \<and> reg \<le> 0x55 then do {
        (_, conn) \<leftarrow> rd2 (hardvols s) (currChip s) (nat (reg - 0x40));
        m \<leftarrow> wr2 (hardvols s) (currChip s) (nat (reg - 0x40)) (to_s8 val, conn);
        Some (s\<lparr>hardvols := m\<rparr>)
      } else Some s)"

definition cache_connection :: "int \<Rightarrow> int \<Rightarrow> 'a realopl_scheme \<Rightarrow> 'a realopl_scheme option" where
  "cache_connection reg val s =
     (if 0xc0 \<le> reg \<and> reg \<le> 0xc8 then do {
        (vol, _) \<leftarrow> rd2 (hardvols s) (currChip s) (nat (reg - 0xc0));
        m \<leftarrow> wr2 (hardvols s) (currChip s) (nat (reg - 0xc0)) (vol, to_s8 val);
        Some (s\<lparr>hardvols := m\<rparr>)
      } else Some s)"

definition realopl_write :: "int \<Rightarrow> int \<Rightarrow> 'a realopl_scheme \<Rightarrow> 'a realopl_scheme option" where
  "realopl_write reg val0 s =
     (if nowrite s then Some s
      else if currType s = TYPE_OPL2 \<and> currChip s > 0 then Some s
      else do {
        let val = (if bequiet s \<and> 0xb0 \<le> reg \<and> reg \<le> 0xb8 then val0 AND NOT 32 else val0);
        s1 \<leftarrow> cache_volume reg val s;
        s2 \<leftarrow> cache_connection reg val s1;
        val' \<leftarrow> (if hardvol s2 \<noteq> 0 then ofold (attenuate s2 reg) [0..<9] val else Some val);
        Some (hardwrite reg val' s2)
      })"

text \<open>
  \<open>init\<close> calls the virtual \<open>write\<close>: the argument \<open>write\<close> is the one of the object's class.
\<close>

definition realopl_init_chip ::
  "(int \<Rightarrow> int \<Rightarrow> 'a realopl_scheme \<Rightarrow> 'a realopl_scheme option) \<Rightarrow> nat \<Rightarrow>
   'a realopl_scheme \<Rightarrow> 'a realopl_scheme option" where
  "realopl_init_chip write j s = do {
     s1 \<leftarrow> ofold (\<lambda>i. write (int i) 0) [0..<256] (copl_setchip (int j) s);
     s2 \<leftarrow> ofold (\<lambda>i s. do {
             op \<leftarrow> rd op_table i;
             Some (hardwrite (0x80 + op) 0xff (hardwrite (0xb0 + int i) 0 s))
           }) [0..<9] s1;
     Some (hardwrite 0xbd 0 s2)
   }"

definition realopl_init ::
  "(int \<Rightarrow> int \<Rightarrow> 'a realopl_scheme \<Rightarrow> 'a realopl_scheme option) \<Rightarrow>
   'a realopl_scheme \<Rightarrow> 'a realopl_scheme option" where
  "realopl_init write s = do {
     s' \<leftarrow> ofold (realopl_init_chip write) [0..<2] s;
     Some (copl_setchip 0 s')
   }"

section \<open>CAnalopl: watching the key-on bits\<close>

record analopl = realopl +
  keyregs :: "(int \<times> int) list list"

definition new_analopl :: "nat \<Rightarrow> int \<Rightarrow> analopl" where
  "new_analopl initport old =
     realopl.extend (new_realopl initport old) \<lparr>keyregs = replicate 2 (replicate 9 (0, 0))\<rparr>"

definition analopl_write :: "int \<Rightarrow> int \<Rightarrow> 'a analopl_scheme \<Rightarrow> 'a analopl_scheme option" where
  "analopl_write reg val s =
     (if nowrite s then Some s
      else do {
        s1 \<leftarrow> (if 0xb0 \<le> reg \<and> reg \<le> 0xb8 then do {
                 let v = nat (reg - 0xb0);
                 (k0, _) \<leftarrow> rd2 (keyregs s) (currChip s) v;
                 m \<leftarrow> wr2 (keyregs s) (currChip s) v
                       (val AND 32, if k0 = 0 \<and> val AND 32 \<noteq> 0 then 1 else 0);
                 Some (s\<lparr>keyregs := m\<rparr>)
               } else Some s);
        realopl_write reg val s1
      })"

definition getcarriervol :: "nat \<Rightarrow> nat \<Rightarrow> 'a analopl_scheme \<Rightarrow> int option" where
  "getcarriervol v c s = do {
     op \<leftarrow> rd op_table v;
     (vol, _) \<leftarrow> rd2 (hardvols s) c (nat op + 3);
     Some (vol AND 63)
   }"

definition getmodulatorvol :: "nat \<Rightarrow> nat \<Rightarrow> 'a analopl_scheme \<Rightarrow> int option" where
  "getmodulatorvol v c s = do {
     op \<leftarrow> rd op_table v;
     (vol, _) \<leftarrow> rd2 (hardvols s) c (nat op);
     Some (vol AND 63)
   }"

definition getkeyon :: "nat \<Rightarrow> nat \<Rightarrow> 'a analopl_scheme \<Rightarrow> (bool \<times> 'a analopl_scheme) option" where
  "getkeyon v c s = do {
     (k0, k1) \<leftarrow> rd2 (keyregs s) c v;
     if k1 \<noteq> 0 then do {
       m \<leftarrow> wr2 (keyregs s) c v (k0, 0);
       Some (True, s\<lparr>keyregs := m\<rparr>)
     } else Some (False, s)
   }"

section \<open>The caches are never indexed out of their bounds\<close>

definition realopl_ok :: "'a realopl_scheme \<Rightarrow> bool" where
  "realopl_ok s \<longleftrightarrow> currChip s < 2 \<and> matrix 2 22 (hardvols s)"

definition analopl_ok :: "'a analopl_scheme \<Rightarrow> bool" where
  "analopl_ok s \<longleftrightarrow> realopl_ok s \<and> matrix 2 9 (keyregs s)"

text \<open>What a call leaves alone: the fields that are neither caches nor port accesses.\<close>

definition same_setup :: "'a realopl_scheme \<Rightarrow> 'a realopl_scheme \<Rightarrow> bool" where
  "same_setup s s' \<longleftrightarrow>
     currChip s' = currChip s \<and> currType s' = currType s \<and> adlport s' = adlport s \<and>
     bequiet s' = bequiet s \<and> nowrite s' = nowrite s \<and> realopl.more s' = realopl.more s"

lemma same_setup_refl [simp]: "same_setup s s"
  by (simp add: same_setup_def)

lemma same_setup_trans: "same_setup s t \<Longrightarrow> same_setup t u \<Longrightarrow> same_setup s u"
  by (simp add: same_setup_def)

lemma same_setup_keyregs: "same_setup s s' \<Longrightarrow> keyregs s' = keyregs s"
  by (cases s; cases s') (simp add: same_setup_def)

lemma hardwrite_simps [simp]:
  "hardvols (hardwrite reg val s) = hardvols s" "hardvol (hardwrite reg val s) = hardvol s"
  "same_setup s (hardwrite reg val s)" "currChip (hardwrite reg val s) = currChip s"
  by (simp_all add: hardwrite_def same_setup_def Let_def)

lemma copl_setchip_ok: "realopl_ok s \<Longrightarrow> realopl_ok (copl_setchip n s)"
  by (auto simp: realopl_ok_def copl_setchip_def)

lemma setvolume_voice_ok:
  assumes "realopl_ok s" "j < 2" "i < 9"
  shows "\<exists>s'. setvolume_voice volume j i s = Some s' \<and> realopl_ok s' \<and> hardvols s' = hardvols s \<and>
    hardvol s' = hardvol s \<and> same_setup s s'"
proof -
  have m: "matrix 2 22 (hardvols s)" using assms(1) by (simp add: realopl_ok_def)
  have "nat (op_table ! i) + 3 < 22" "nat (op_table ! i) < 22" using op_table_range [OF assms(3)] by auto
  then show ?thesis
    using assms m
    by (auto simp: setvolume_voice_def rd_Some rd2_Some [OF m] realopl_ok_def Let_def split: prod.splits
        intro: same_setup_trans [OF hardwrite_simps(3) hardwrite_simps(3)])
qed

lemma setvolume_ok:
  assumes "realopl_ok s"
  shows "\<exists>s'. setvolume volume s = Some s' \<and> realopl_ok s' \<and> hardvol s' = volume \<and> same_setup s s'"
proof -
  let ?P = "\<lambda>t. realopl_ok t \<and> hardvol t = volume \<and> same_setup s t"
  have inner: "\<exists>t'. ofold (\<lambda>i. setvolume_voice volume j i) [0..<9] t = Some t' \<and> ?P t'"
    if "j < 2" "?P t" for j t
    by (rule ofold_invariant) (use that setvolume_voice_ok [OF _ that(1)] same_setup_trans in fastforce)+
  have "?P (s\<lparr>hardvol := volume\<rparr>)" using assms by (simp add: realopl_ok_def same_setup_def)
  then show ?thesis
    unfolding setvolume_def by (rule ofold_invariant) (use inner in auto)
qed

lemma attenuate_ok:
  assumes "realopl_ok s" "i < 9"
  shows "\<exists>v. attenuate s reg i val = Some v"
proof -
  have m: "matrix 2 22 (hardvols s)" using assms(1) by (simp add: realopl_ok_def)
  show ?thesis
    using assms by (auto simp: attenuate_def rd_Some rd2_Some [OF m] realopl_ok_def split: prod.splits)
qed

lemma attenuate_all_ok:
  assumes "realopl_ok s"
  shows "\<exists>v. ofold (attenuate s reg) [0..<9] val = Some v"
  using ofold_invariant [of "\<lambda>_. True" val "[0..<9]" "attenuate s reg"] attenuate_ok [OF assms] by auto

lemma cache_ok:
  assumes ok: "realopl_ok s"
  shows "\<exists>m. cache_volume reg val s = Some (s\<lparr>hardvols := m\<rparr>) \<and> matrix 2 22 m"
    and "\<exists>m. cache_connection reg val s = Some (s\<lparr>hardvols := m\<rparr>) \<and> matrix 2 22 m"
proof -
  have m: "matrix 2 22 (hardvols s)" and c: "currChip s < 2" using ok by (simp_all add: realopl_ok_def)
  show "\<exists>m. cache_volume reg val s = Some (s\<lparr>hardvols := m\<rparr>) \<and> matrix 2 22 m"
  proof (cases "0x40 \<le> reg \<and> reg \<le> 0x55")
    case True
    then have "nat (reg - 0x40) < 22" by auto
    then show ?thesis
      using True c m by (auto simp: cache_volume_def rd2_Some [OF m] wr2_Some [OF m] split: prod.splits)
  next
    case False
    then have "cache_volume reg val s = Some s" by (auto simp: cache_volume_def)
    then show ?thesis using m by (intro exI [of _ "hardvols s"]) simp
  qed
  show "\<exists>m. cache_connection reg val s = Some (s\<lparr>hardvols := m\<rparr>) \<and> matrix 2 22 m"
  proof (cases "0xc0 \<le> reg \<and> reg \<le> 0xc8")
    case True
    then have "nat (reg - 0xc0) < 22" by auto
    then show ?thesis
      using True c m by (auto simp: cache_connection_def rd2_Some [OF m] wr2_Some [OF m] split: prod.splits)
  next
    case False
    then have "cache_connection reg val s = Some s" by (auto simp: cache_connection_def)
    then show ?thesis using m by (intro exI [of _ "hardvols s"]) simp
  qed
qed

text \<open>A write: the filtered value goes into the caches, the attenuated one to the hardware.\<close>

lemma realopl_write_eq:
  assumes ok: "realopl_ok s" and on: "\<not> nowrite s" "\<not> (currType s = TYPE_OPL2 \<and> currChip s > 0)"
  obtains m v where "matrix 2 22 m" "realopl_write reg val s = Some (hardwrite reg v (s\<lparr>hardvols := m\<rparr>))"
    "if hardvol s = 0
     then v = (if bequiet s \<and> 0xb0 \<le> reg \<and> reg \<le> 0xb8 then val AND NOT 32 else val)
     else ofold (attenuate (s\<lparr>hardvols := m\<rparr>) reg) [0..<9]
       (if bequiet s \<and> 0xb0 \<le> reg \<and> reg \<le> 0xb8 then val AND NOT 32 else val) = Some v"
proof -
  let ?v = "if bequiet s \<and> 0xb0 \<le> reg \<and> reg \<le> 0xb8 then val AND NOT 32 else val"
  obtain m1 where m1: "cache_volume reg ?v s = Some (s\<lparr>hardvols := m1\<rparr>)" "matrix 2 22 m1"
    using cache_ok(1) [OF ok] by blast
  have "realopl_ok (s\<lparr>hardvols := m1\<rparr>)" using ok m1(2) by (simp add: realopl_ok_def)
  from cache_ok(2) [OF this] obtain m where m: "matrix 2 22 m"
    "cache_connection reg ?v (s\<lparr>hardvols := m1\<rparr>) = Some (s\<lparr>hardvols := m\<rparr>)" by auto
  have "realopl_ok (s\<lparr>hardvols := m\<rparr>)" using ok m(1) by (simp add: realopl_ok_def)
  from attenuate_all_ok [OF this] obtain w
    where w: "ofold (attenuate (s\<lparr>hardvols := m\<rparr>) reg) [0..<9] ?v = Some w" by blast
  show ?thesis
  proof (rule that [OF m(1)])
    show "realopl_write reg val s =
        Some (hardwrite reg (if hardvol s = 0 then ?v else w) (s\<lparr>hardvols := m\<rparr>))"
      unfolding realopl_write_def Let_def if_not_P [OF on(1)] if_not_P [OF on(2)]
      using m1(1) m(2) w by (simp del: upt.simps)
  qed (use w in simp)
qed

lemma realopl_write_ok:
  assumes ok: "realopl_ok s"
  shows "\<exists>s'. realopl_write reg val s = Some s' \<and> realopl_ok s' \<and> hardvol s' = hardvol s \<and> same_setup s s'"
proof (cases "nowrite s \<or> currType s = TYPE_OPL2 \<and> currChip s > 0")
  case True
  then show ?thesis using ok by (auto simp: realopl_write_def)
next
  case False
  then obtain m v where "matrix 2 22 m" "realopl_write reg val s = Some (hardwrite reg v (s\<lparr>hardvols := m\<rparr>))"
    using realopl_write_eq [OF ok] by blast
  then show ?thesis
    using ok by (auto simp: realopl_ok_def same_setup_def hardwrite_def Let_def)
qed

lemma realopl_init_ok:
  assumes wr: "\<And>reg val s. P s \<Longrightarrow> \<exists>s'. write reg val s = Some s' \<and> P s'"
    and hw: "\<And>reg val s. P s \<Longrightarrow> P (hardwrite reg val s)"
    and chip: "\<And>n s. P s \<Longrightarrow> P (copl_setchip n s)" and s: "P s"
  shows "\<exists>s'. realopl_init write s = Some s' \<and> P s'"
proof -
  have one: "\<exists>t'. realopl_init_chip write j t = Some t' \<and> P t'" if "P t" for j t
  proof -
    have t0: "P (copl_setchip (int j) t)" by (rule chip [OF that])
    obtain t1 where t1: "ofold (\<lambda>i. write (int i) 0) [0..<256] (copl_setchip (int j) t) = Some t1" "P t1"
      using ofold_invariant [of P "copl_setchip (int j) t" "[0..<256]" "\<lambda>i. write (int i) 0"]
        t0 wr by blast
    obtain t2 where "ofold (\<lambda>i s. do {
             op \<leftarrow> rd op_table i;
             Some (hardwrite (0x80 + op) 0xff (hardwrite (0xb0 + int i) 0 s))
           }) [0..<9] t1 = Some t2" "P t2"
      using ofold_invariant [of P t1 "[0..<9]" "\<lambda>i s. do {
             op \<leftarrow> rd op_table i;
             Some (hardwrite (0x80 + op) 0xff (hardwrite (0xb0 + int i) 0 s))
           }"] t1(2) hw by (auto simp: rd_Some simp del: upt.simps)
    then show ?thesis using t1 hw by (simp add: realopl_init_chip_def del: upt.simps)
  qed
  then obtain s' where "ofold (realopl_init_chip write) [0..<2] s = Some s'" "P s'"
    using ofold_invariant [of P s "[0..<2]" "realopl_init_chip write"] s by blast
  then show ?thesis using chip by (simp add: realopl_init_def)
qed

section \<open>Sessions with an analysing chip\<close>

text \<open>The calls a client makes on a \<open>CAnalopl\<close>.\<close>

datatype chip_call =
    WriteCall int int | InitCall | SetchipCall int | VolumeCall int | QuietCall bool
  | TypeCall chip_type | NowriteCall bool | PortCall nat
  | KeyonCall nat nat | CarrierCall nat nat | ModulatorCall nat nat

fun do_call :: "chip_call \<Rightarrow> analopl \<Rightarrow> analopl option" where
  "do_call (WriteCall reg val) s = analopl_write reg val s"
| "do_call InitCall s = realopl_init analopl_write s"
| "do_call (SetchipCall n) s = Some (copl_setchip n s)"
| "do_call (VolumeCall v) s = setvolume v s"
| "do_call (QuietCall q) s = setquiet q s"
| "do_call (TypeCall t) s = Some (s\<lparr>currType := t\<rparr>)"
| "do_call (NowriteCall b) s = Some (s\<lparr>nowrite := b\<rparr>)"
| "do_call (PortCall p) s = Some (s\<lparr>adlport := p\<rparr>)"
| "do_call (KeyonCall v c) s = map_option snd (getkeyon v c s)"
| "do_call (CarrierCall v c) s = map_option (\<lambda>_. s) (getcarriervol v c s)"
| "do_call (ModulatorCall v c) s = map_option (\<lambda>_. s) (getmodulatorvol v c s)"

text \<open>The queries name a voice and a chip that exist; nothing is asked of the other calls.\<close>

fun legal_call :: "chip_call \<Rightarrow> bool" where
  "legal_call (KeyonCall v c) \<longleftrightarrow> v < 9 \<and> c < 2"
| "legal_call (CarrierCall v c) \<longleftrightarrow> v < 9 \<and> c < 2"
| "legal_call (ModulatorCall v c) \<longleftrightarrow> v < 9 \<and> c < 2"
| "legal_call _ \<longleftrightarrow> True"

lemma new_analopl_ok: "analopl_ok (new_analopl initport old)"
  by (simp add: new_analopl_def analopl_ok_def realopl_ok_def new_realopl_def realopl.extend_def)

lemma analopl_frame: "analopl_ok s \<Longrightarrow> realopl_ok s' \<Longrightarrow> same_setup s s' \<Longrightarrow> analopl_ok s'"
  using same_setup_keyregs [of s s'] by (simp add: analopl_ok_def)

lemma analopl_write_ok:
  assumes "analopl_ok s"
  shows "\<exists>s'. analopl_write reg val s = Some s' \<and> analopl_ok s'"
proof (cases "nowrite s")
  case True
  then show ?thesis using assms by (simp add: analopl_write_def)
next
  case on: False
  have r: "realopl_ok s" and m: "matrix 2 9 (keyregs s)" and c: "currChip s < 2"
    using assms by (simp_all add: analopl_ok_def realopl_ok_def)
  show ?thesis
  proof (cases "0xb0 \<le> reg \<and> reg \<le> 0xb8")
    case True
    then have v: "nat (reg - 0xb0) < 9" by auto
    obtain k0 k1 where "keyregs s ! currChip s ! nat (reg - 0xb0) = (k0, k1)" by fastforce
    then obtain k where k: "analopl_write reg val s = realopl_write reg val (s\<lparr>keyregs := k\<rparr>)" "matrix 2 9 k"
      using True on v c m
      by (auto simp: analopl_write_def rd2_Some [OF m] wr2_Some [OF m] Let_def)
    have "realopl_ok (s\<lparr>keyregs := k\<rparr>)" "analopl_ok (s\<lparr>keyregs := k\<rparr>)"
      using r k(2) by (simp_all add: realopl_ok_def analopl_ok_def)
    then show ?thesis
      using realopl_write_ok analopl_frame k(1) by metis
  next
    case False
    then have "analopl_write reg val s = realopl_write reg val s"
      using on by (auto simp: analopl_write_def)
    then show ?thesis using realopl_write_ok [OF r] analopl_frame [OF assms] by metis
  qed
qed

lemma setquiet_ok:
  assumes "realopl_ok s"
  shows "\<exists>s'. setquiet q s = Some s' \<and> realopl_ok s' \<and> bequiet s' = q \<and>
    same_setup (s\<lparr>bequiet := q\<rparr>) s'"
proof -
  let ?t = "if q then s\<lparr>bequiet := q, oldvol := hardvol s\<rparr> else s\<lparr>bequiet := q\<rparr>"
  have "realopl_ok ?t" using assms by (simp add: realopl_ok_def)
  from setvolume_ok [OF this, of "if q then 63 else oldvol ?t"]
  obtain s' where "setvolume (if q then 63 else oldvol ?t) ?t = Some s'" "realopl_ok s'" "same_setup ?t s'"
    by blast
  then show ?thesis by (auto simp: setquiet_def Let_def same_setup_def split: if_splits)
qed

lemma do_call_ok:
  assumes ok: "analopl_ok s" and legal: "legal_call c"
  shows "\<exists>s'. do_call c s = Some s' \<and> analopl_ok s'"
proof -
  have r: "realopl_ok s" and m: "matrix 2 9 (keyregs s)" "matrix 2 22 (hardvols s)"
    using ok by (simp_all add: analopl_ok_def realopl_ok_def)
  have op: "nat (op_table ! v) + 3 < 22 \<and> nat (op_table ! v) < 22" if "v < 9" for v
    using op_table_range [OF that] by auto
  show ?thesis
  proof (cases c)
    case (WriteCall reg val)
    then show ?thesis using analopl_write_ok [OF ok] by simp
  next
    case InitCall
    have "\<exists>s'. realopl_init analopl_write s = Some s' \<and> analopl_ok s'"
    proof (rule realopl_init_ok [where P = analopl_ok, OF analopl_write_ok])
      show "analopl_ok s" by (rule ok)
    qed (auto simp: analopl_ok_def realopl_ok_def hardwrite_def Let_def copl_setchip_def)
    then show ?thesis using InitCall by simp
  next
    case (VolumeCall v)
    then show ?thesis using setvolume_ok [OF r, of v] analopl_frame [OF ok] by auto
  next
    case (QuietCall q)
    have "analopl_ok (s\<lparr>bequiet := q\<rparr>)" using ok by (simp add: analopl_ok_def realopl_ok_def)
    then show ?thesis using QuietCall setquiet_ok [OF r, of q] analopl_frame by fastforce
  next
    case (KeyonCall v c)
    then show ?thesis
      using ok legal
      by (auto simp: getkeyon_def rd2_Some [OF m(1)] wr2_Some [OF m(1)] analopl_ok_def realopl_ok_def
          split: prod.splits)
  next
    case (CarrierCall v c)
    then show ?thesis using ok legal op [of v] by (auto simp: getcarriervol_def rd_Some rd2_Some [OF m(2)] split: prod.splits)
  next
    case (ModulatorCall v c)
    then show ?thesis using ok legal op [of v] by (auto simp: getmodulatorvol_def rd_Some rd2_Some [OF m(2)] split: prod.splits)
  qed (use ok in \<open>auto simp: analopl_ok_def realopl_ok_def copl_setchip_def\<close>)
qed

text \<open>C31: from a new \<open>CAnalopl\<close>, any sequence of calls, with any registers, values, chip numbers,
volumes and chip types, returns and keeps the caches intact: the index arithmetic of the volume and
key-on caches never leaves their arrays.\<close>

theorem chip_session_safe:
  assumes "list_all legal_call cs"
  shows "\<exists>s'. ofold do_call cs (new_analopl initport old) = Some s' \<and> analopl_ok s'"
  by (rule ofold_invariant) (use assms in \<open>auto simp: new_analopl_ok list_all_iff intro: do_call_ok\<close>)

lemma chip_session_safe_witness:
  "\<exists>s'. ofold do_call [SetchipCall 1, InitCall, VolumeCall 20, WriteCall 0x55 0x3f, WriteCall 0xb8 0x20,
      QuietCall True, KeyonCall 8 1, CarrierCall 8 1] (new_analopl 0x388 0) = Some s' \<and> analopl_ok s'"
  by (rule chip_session_safe) simp

section \<open>Quiet mode, attenuation, key-on edges\<close>

text \<open>The register writes among the port accesses: the register and the value of each.\<close>

definition hw_events :: "nat \<Rightarrow> int \<Rightarrow> int \<Rightarrow> port_io list" where
  "hw_events adp reg val =
     [OUTP adp reg] @ replicate SHORTDELAY (INP adp) @ [OUTP (adp + 1) val] @ replicate LONGDELAY (INP adp)"

lemma hardwrite_ports:
  "\<not> nowrite s \<Longrightarrow> ports (hardwrite reg val s) = ports s @ hw_events (chip_port s) reg val"
  by (simp add: hardwrite_def hw_events_def Let_def)

lemma attenuate_other:
  assumes "\<And>i. i < 9 \<Longrightarrow> reg \<noteq> 0x43 + op_table ! i \<and> reg \<noteq> 0x40 + op_table ! i"
  shows "ofold (attenuate s reg) [0..<9] val = Some val"
proof -
  have "attenuate s reg i v = Some v" if "i \<in> set [0..<9]" for i v
    using assms [of i] that by (simp add: attenuate_def rd_Some)
  then have "ofold (attenuate s reg) [0..<9] val = Some (fold (\<lambda>i v. v) [0..<9] val)"
    by (intro ofold_total) auto
  moreover have "fold (\<lambda>i v. v) xs val = val" for xs :: "nat list" by (induction xs) auto
  ultimately show ?thesis by metis
qed

lemma attenuate_carrier:
  assumes "i < 9"
  shows "ofold (attenuate s (0x43 + op_table ! i)) [0..<9] val =
    Some (if (val AND 63) + hardvol s > 63 then 63 else val + hardvol s)"
proof -
  have idx: "[0..<9] = [0, 1, 2, 3, 4, 5, 6, 7, 8]" by (simp add: upt_rec)
  have "i \<in> {0, 1, 2, 3, 4, 5, 6, 7, 8}" using assms by auto
  then show ?thesis unfolding idx by (auto simp: attenuate_def rd_def op_table_def)
qed

text \<open>Once \<open>setquiet(true)\<close> is called, no write turns a note on: whatever value is written to
the key-on registers of the nine voices, what reaches the port has the key-on bit cleared and is
otherwise unchanged.\<close>

theorem quiet_filters_keyon:
  assumes "realopl_ok s" "\<not> nowrite s" "currType s \<noteq> TYPE_OPL2 \<or> currChip s = 0"
    and "0xb0 \<le> reg" "reg \<le> 0xb8"
  shows "\<exists>s1 s2. setquiet True s = Some s1 \<and> realopl_write reg val s1 = Some s2 \<and>
    ports s2 = ports s1 @ hw_events (chip_port s) reg (val AND NOT 32)"
proof -
  obtain s1 where s1: "setquiet True s = Some s1" "realopl_ok s1" "bequiet s1"
    "same_setup (s\<lparr>bequiet := True\<rparr>) s1"
    using setquiet_ok [OF assms(1), of True] by auto
  have on: "\<not> nowrite s1" "\<not> (currType s1 = TYPE_OPL2 \<and> currChip s1 > 0)"
    "chip_port s1 = chip_port s"
    using s1(4) assms(2,3) by (auto simp: same_setup_def chip_port_def)
  obtain m v where w: "realopl_write reg val s1 = Some (hardwrite reg v (s1\<lparr>hardvols := m\<rparr>))"
    "if hardvol s1 = 0 then v = val AND NOT 32
     else ofold (attenuate (s1\<lparr>hardvols := m\<rparr>) reg) [0..<9] (val AND NOT 32) = Some v"
    using realopl_write_eq [OF s1(2) on(1,2), of reg val] s1(3) assms(4,5) by (smt (verit, best))
  have "reg \<noteq> 0x43 + op_table ! i \<and> reg \<noteq> 0x40 + op_table ! i" if "i < 9" for i
    using op_table_range [OF that] assms(4) by auto
  from attenuate_other [OF this, of "s1\<lparr>hardvols := m\<rparr>" "val AND NOT 32"] w(2)
  have v: "v = val AND NOT 32" by (simp del: upt.simps split: if_splits)
  have "chip_port (s1\<lparr>hardvols := m\<rparr>) = chip_port s" unfolding on(3) [symmetric] by (simp add: chip_port_def)
  then have "ports (hardwrite reg v (s1\<lparr>hardvols := m\<rparr>)) = ports s1 @ hw_events (chip_port s) reg v"
    using on by (simp add: hardwrite_ports)
  then show ?thesis using s1(1) w(1) v by auto
qed

lemma quiet_filters_keyon_witness:
  "\<exists>s1 s2. setquiet True (new_realopl 0x388 0) = Some s1 \<and> realopl_write 0xb3 0x3f s1 = Some s2 \<and>
    ports s2 = ports s1 @ hw_events 0x388 0xb3 0x1f"
  using quiet_filters_keyon [of "new_realopl 0x388 0" "0xb3" "0x3f"]
  by (simp add: new_realopl_def realopl_ok_def chip_port_def)

text \<open>With a master volume of 1 to 63, a write to a carrier level register puts on the port the
level increased by the master volume when the sum fits in six bits, and the value 63, the softest,
when it does not; a 6-bit level is never wrapped around to a louder one.\<close>

theorem carrier_attenuated:
  assumes ok: "realopl_ok s" and on: "\<not> nowrite s" "currType s \<noteq> TYPE_OPL2 \<or> currChip s = 0"
    and i: "i < 9" and vol: "0 < hardvol s" "hardvol s \<le> 63" and val: "0 \<le> val" "val < 64"
  shows "\<exists>s'. realopl_write (0x43 + op_table ! i) val s = Some s' \<and>
    ports s' = ports s @ hw_events (chip_port s) (0x43 + op_table ! i) (min 63 (val + hardvol s))"
proof -
  let ?reg = "0x43 + op_table ! i"
  have r: "?reg < 0xb0" using op_table_range [OF i] by simp
  obtain m v where w: "realopl_write ?reg val s = Some (hardwrite ?reg v (s\<lparr>hardvols := m\<rparr>))"
    "ofold (attenuate (s\<lparr>hardvols := m\<rparr>) ?reg) [0..<9] val = Some v"
    using realopl_write_eq [OF ok on(1), of ?reg val] on(2) r vol(1) by (smt (verit, best) not_gr_zero)
  have "val AND 63 = val"
    using val take_bit_eq_mask [of 6 val] by (simp add: mask_eq_exp_minus_1 take_bit_int_eq_self)
  then have "v = min 63 (val + hardvol s)"
    using w(2) attenuate_carrier [OF i, of "s\<lparr>hardvols := m\<rparr>" val] by (simp del: upt.simps split: if_splits)
  moreover have "ports (hardwrite ?reg v (s\<lparr>hardvols := m\<rparr>)) = ports s @ hw_events (chip_port s) ?reg v"
    using on by (simp add: hardwrite_ports chip_port_def)
  ultimately show ?thesis using w(1) by auto
qed

lemma carrier_attenuated_witness:
  "\<exists>s'. realopl_write 0x4b 50 ((new_realopl 0x388 0)\<lparr>hardvol := 20\<rparr>) = Some s' \<and>
    ports s' = hw_events 0x388 0x4b 63"
  using carrier_attenuated [of "(new_realopl 0x388 0)\<lparr>hardvol := 20\<rparr>" 3 50]
  by (simp add: new_realopl_def realopl_ok_def chip_port_def op_table_def)

lemma keyregs_write:
  assumes ok: "analopl_ok s" and on: "\<not> nowrite s" and v: "v < 9"
  shows "\<exists>s'. analopl_write (0xb0 + int v) val s = Some s' \<and> analopl_ok s' \<and> \<not> nowrite s' \<and>
    currChip s' = currChip s \<and>
    keyregs s' ! currChip s ! v =
      (val AND 32, if fst (keyregs s ! currChip s ! v) = 0 \<and> val AND 32 \<noteq> 0 then 1 else 0)"
proof -
  have r: "realopl_ok s" and m: "matrix 2 9 (keyregs s)" and c: "currChip s < 2"
    using ok by (simp_all add: analopl_ok_def realopl_ok_def)
  obtain k0 k1 where k: "keyregs s ! currChip s ! v = (k0, k1)" by fastforce
  let ?n = "(val AND 32, if k0 = 0 \<and> val AND 32 \<noteq> 0 then 1 else 0)"
  let ?m = "(keyregs s)[currChip s := (keyregs s ! currChip s)[v := ?n]]"
  have w: "analopl_write (0xb0 + int v) val s = realopl_write (0xb0 + int v) val (s\<lparr>keyregs := ?m\<rparr>)"
    using on v c k by (auto simp: analopl_write_def rd2_Some [OF m] wr2_Some [OF m] Let_def)
  have "realopl_ok (s\<lparr>keyregs := ?m\<rparr>)" using r by (simp add: realopl_ok_def)
  from realopl_write_ok [OF this, of "0xb0 + int v" val]
  obtain s' where s': "analopl_write (0xb0 + int v) val s = Some s'" "realopl_ok s'"
    "same_setup (s\<lparr>keyregs := ?m\<rparr>) s'" by (auto simp: w)
  have m': "matrix 2 9 ?m" using m c v by simp
  have "keyregs s' = ?m" using same_setup_keyregs [OF s'(3)] by simp
  moreover have "?m ! currChip s ! v = ?n" using c v m by (simp add: matrix_length)
  ultimately show ?thesis
    using s' k m' on by (auto simp: analopl_ok_def same_setup_def)
qed

text \<open>C33: the key-on analysis reports edges: after two writes to the key-on register of a voice,
\<open>getkeyon\<close> says whether the second turned the key bit from off to on, and says so once; asking
again gives false. A key that stays on is not reported again.\<close>

theorem keyon_edge:
  assumes "analopl_ok s" "\<not> nowrite s" "v < 9"
  shows "\<exists>s1 s2 s3. analopl_write (0xb0 + int v) a s = Some s1 \<and>
    analopl_write (0xb0 + int v) b s1 = Some s2 \<and>
    getkeyon v (currChip s) s2 = Some (a AND 32 = 0 \<and> b AND 32 \<noteq> 0, s3) \<and>
    getkeyon v (currChip s) s3 = Some (False, s3)"
proof -
  obtain s1 where s1: "analopl_write (0xb0 + int v) a s = Some s1" "analopl_ok s1" "\<not> nowrite s1"
    "currChip s1 = currChip s" "fst (keyregs s1 ! currChip s ! v) = a AND 32"
    using keyregs_write [OF assms, of a] by auto
  obtain s2 where s2: "analopl_write (0xb0 + int v) b s1 = Some s2" "analopl_ok s2"
    "currChip s2 = currChip s"
    "keyregs s2 ! currChip s ! v = (b AND 32, if a AND 32 = 0 \<and> b AND 32 \<noteq> 0 then 1 else 0)"
    using keyregs_write [OF s1(2,3) assms(3), of b] s1(4,5) by auto
  have m: "matrix 2 9 (keyregs s2)" and c: "currChip s < 2"
    using s2(2,3) by (simp_all add: analopl_ok_def realopl_ok_def)
  let ?k = "(keyregs s2)[currChip s := (keyregs s2 ! currChip s)[v := (b AND 32, 0)]]"
  let ?edge = "a AND 32 = 0 \<and> b AND 32 \<noteq> 0"
  have m': "matrix 2 9 ?k" and at: "?k ! currChip s ! v = (b AND 32, 0)"
    using m c assms(3) by (simp_all add: matrix_length)
  have "getkeyon v (currChip s) s2 = Some (?edge, if ?edge then s2\<lparr>keyregs := ?k\<rparr> else s2)"
    using s2(4) c assms(3)
    by (cases "a AND 32 = 0"; cases "b AND 32 = 0") (simp_all add: getkeyon_def rd2_Some [OF m] wr2_Some [OF m])
  moreover have "getkeyon v (currChip s) (s2\<lparr>keyregs := ?k\<rparr>) = Some (False, s2\<lparr>keyregs := ?k\<rparr>)"
    using at c assms(3) by (simp add: getkeyon_def rd2_Some [OF m'])
  moreover from calculation(1) have "getkeyon v (currChip s) s2 = Some (False, s2)" if "\<not> ?edge"
    using that by simp
  ultimately show ?thesis
    using s1(1) s2(1) by (intro exI [of _ s1] exI [of _ s2] exI [of _ "if ?edge then s2\<lparr>keyregs := ?k\<rparr> else s2"])
      (auto split: if_splits)
qed

lemma keyon_edge_witness:
  "\<exists>s1 s2 s3. analopl_write 0xb2 0x11 (new_analopl 0x388 0) = Some s1 \<and>
    analopl_write 0xb2 0x31 s1 = Some s2 \<and> getkeyon 2 0 s2 = Some (True, s3) \<and>
    getkeyon 2 0 s3 = Some (False, s3)"
  using keyon_edge [OF new_analopl_ok, of "0x388" 0 2 "0x11" "0x31"]
  by (simp add: new_analopl_def new_realopl_def realopl.extend_def)

text \<open>What a loop of hardware writes does to the ports: only the port of the current chip is used.\<close>

definition only_port :: "nat \<Rightarrow> port_io list \<Rightarrow> bool" where
  "only_port adp io \<longleftrightarrow> (\<forall>e \<in> set io. case e of OUTP p _ \<Rightarrow> p = adp \<or> p = adp + 1 | INP p \<Rightarrow> p = adp)"

lemma hardwrite_only_port:
  "\<exists>io. ports (hardwrite reg val s) = ports s @ io \<and> only_port (chip_port s) io"
  by (auto simp: hardwrite_def Let_def only_port_def)

definition one_chip_step :: "'a realopl_scheme \<Rightarrow> 'a realopl_scheme \<Rightarrow> bool" where
  "one_chip_step s s' \<longleftrightarrow>
     chip_port s' = chip_port s \<and> (\<exists>io. ports s' = ports s @ io \<and> only_port (chip_port s) io)"

lemma one_chip_step_trans: "one_chip_step s t \<Longrightarrow> one_chip_step t u \<Longrightarrow> one_chip_step s u"
  by (auto simp: one_chip_step_def only_port_def)

lemma hardwrite_one_chip: "one_chip_step s (hardwrite reg val s)"
  using hardwrite_only_port [of reg val s]
  by (simp add: one_chip_step_def) (simp add: chip_port_def hardwrite_def Let_def)

lemma setvolume_voice_one_chip:
  assumes "setvolume_voice volume j i s = Some s'"
  shows "one_chip_step s s'"
  using assms
  by (auto simp: setvolume_voice_def Let_def split: prod.splits if_splits elim!: bind_eq_SomeE
      intro: hardwrite_one_chip one_chip_step_trans [OF hardwrite_one_chip hardwrite_one_chip])

text \<open>\<open>setvolume\<close> walks over the cached volumes of both chips but never selects a chip: all its
writes go to the ports of the chip selected when it is called. On a dual board the volumes cached
for the second chip are written over those of the first, and the second keeps its loudness.\<close>

theorem setvolume_one_chip:
  assumes "realopl_ok s"
  shows "\<exists>s' io. setvolume volume s = Some s' \<and> ports s' = ports s @ io \<and> only_port (chip_port s) io"
proof -
  let ?s = "s\<lparr>hardvol := volume\<rparr>"
  let ?P = "\<lambda>t. realopl_ok t \<and> one_chip_step ?s t"
  have step: "\<exists>t'. setvolume_voice volume j i t = Some t' \<and> ?P t'" if "j < 2" "i < 9" "?P t" for j i t
    using that setvolume_voice_ok [of t j i volume] setvolume_voice_one_chip [of volume j i t]
      one_chip_step_trans [of ?s t] by blast
  have inner: "\<exists>t'. ofold (\<lambda>i. setvolume_voice volume j i) [0..<9] t = Some t' \<and> ?P t'"
    if "j < 2" "?P t" for j t
    by (rule ofold_invariant) (use that step in auto)
  have "?P ?s" using assms by (auto simp: realopl_ok_def one_chip_step_def only_port_def)
  then have "\<exists>s'. setvolume volume s = Some s' \<and> ?P s'"
    unfolding setvolume_def by (rule ofold_invariant) (use inner in auto)
  then show ?thesis by (auto simp: one_chip_step_def chip_port_def)
qed

lemma setvolume_one_chip_witness:
  "\<exists>s' io. setvolume 5 (new_realopl 0x388 0) = Some s' \<and> ports s' = io \<and> only_port 0x388 io"
  using setvolume_one_chip [of "new_realopl 0x388 0" 5]
  by (simp add: new_realopl_def realopl_ok_def chip_port_def)

end
