(* ===== verification/Surround.thy ===== *)
theory Surround
  imports Opl
begin

text \<open>
  \<open>src/surroundopl.cpp\<close>, \<open>src/surroundopl.h\<close>: a chip made of two. The first plays what the surround chip is
  told; the second plays it with every note raised by a small part of its frequency, which takes other
  frequency numbers and sometimes another octave. What the two chips have been told are lists of events.
\<close>

section \<open>The state\<close>

text \<open>
  The arithmetic on \<open>double\<close>: \<open>calcFNum()\<close> of an offset, a frequency number, its block and a new block, the
  comparisons with \<open>1023 - NEWBLOCK_LIMIT\<close> and \<open>NEWBLOCK_LIMIT\<close>, the conversion to \<open>uint16_t\<close>, which is
  undefined out of range, and the test of \<open>set_offset\<close>.
\<close>

record ('o, 'd) harmonics =
  hm_default :: 'o
  hm_is_zero :: "'o \<Rightarrow> bool"
  hm_fnum :: "'o \<Rightarrow> nat \<Rightarrow> nat \<Rightarrow> nat \<Rightarrow> 'd"
  hm_high :: "'d \<Rightarrow> bool"
  hm_low :: "'d \<Rightarrow> bool"
  hm_u16 :: "'d \<Rightarrow> u16 option"

record 'o surround = copl +
  su_a :: "opl_event list"
  su_b :: "opl_event list"
  su_bufsize :: int
  su_fm :: "u8 list list"
  su_tweaked :: "u8 list list"
  su_block :: "u8 list list"
  su_fnum :: "u8 list list"
  su_offset :: 'o

section \<open>The operations\<close>

definition su_tell_b :: "nat \<Rightarrow> int \<Rightarrow> 'o surround \<Rightarrow> 'o surround" where
  "su_tell_b reg val s = s\<lparr>su_b := su_b s @ [OplWrite (int reg) val]\<rparr>"

text \<open>The new block and frequency number; the old ones where no others fit.\<close>

definition su_transpose :: "('o, 'd) harmonics \<Rightarrow> 'o \<Rightarrow> u16 \<Rightarrow> u8 \<Rightarrow> (u8 \<times> u16) option" where
  "su_transpose hm offset fnum block = do {
     let calc = (\<lambda>b :: u8. hm_fnum hm offset (unat fnum) (unat block) (unat b));
     (b, f) \<leftarrow>
       (if hm_high hm (calc block) then
          (if 6 < block then Some (block, fnum)
           else do { f \<leftarrow> hm_u16 hm (calc (block + 1)); Some (block + 1, f) })
        else if hm_low hm (calc block) then
          (if block = 0 then Some (block, fnum)
           else do { f \<leftarrow> hm_u16 hm (calc (block - 1)); Some (block - 1, f) })
        else do { f \<leftarrow> hm_u16 hm (calc block); Some (block, f) });
     Some (if 1023 < f then (block, fnum) else (b, f))
   }"

text \<open>A write to a register of a channel: what is left of it for the second chip.\<close>

definition su_channel :: "('o, 'd) harmonics \<Rightarrow> nat \<Rightarrow> int \<Rightarrow> 'o surround \<Rightarrow> (int \<times> 'o surround) option" where
  "su_channel hm reg val s = do {
     let c = currChip s;
     let ch = reg mod 16;
     hi \<leftarrow> rd2 (su_fm s) c (0xB0 + ch);
     lo \<leftarrow> rd2 (su_fm s) c (0xA0 + ch);
     let block = drop_bit 2 hi AND 0x07;
     let fnum = push_bit 8 (ucast (hi AND 0x03)) OR ucast lo;
     (b, f) \<leftarrow> su_transpose hm (su_offset s) fnum block;
     let top = push_bit 2 b OR ucast (drop_bit 8 f AND 0x03);
     let low = (ucast (f AND 0xFF) :: u8);
     if 0xB0 \<le> reg \<and> reg \<le> 0xB8 then do {
       blocks \<leftarrow> wr2 (su_block s) c ch b;
       fnums \<leftarrow> wr2 (su_fnum s) c ch (ucast f);
       let s = s\<lparr>su_block := blocks, su_fnum := fnums\<rparr>;
       t \<leftarrow> rd2 (su_tweaked s) c (0xA0 + ch);
       s \<leftarrow> (if t \<noteq> low then do {
              regs \<leftarrow> wr2 (su_tweaked s) c (0xA0 + ch) low;
              Some ((su_tell_b (0xA0 + ch) (uint low) s)\<lparr>su_tweaked := regs\<rparr>)
            } else Some s);
       Some ((val AND NOT 0x1F) OR uint top, s)
     }
     else if 0xA0 \<le> reg \<and> reg \<le> 0xA8 then do {
       let new = (hi AND NOT 0x1F) OR top;
       t \<leftarrow> rd2 (su_tweaked s) c (0xB0 + ch);
       s \<leftarrow> (if new AND 0x20 \<noteq> 0 \<and> t \<noteq> new then do {
              regs \<leftarrow> wr2 (su_tweaked s) c (0xB0 + ch) new;
              Some ((su_tell_b (0xB0 + ch) (uint new) s)\<lparr>su_tweaked := regs\<rparr>)
            } else Some s);
       Some (uint low, s)
     }
     else Some (val, s)
   }"

definition su_write :: "('o, 'd) harmonics \<Rightarrow> int \<Rightarrow> int \<Rightarrow> 'o surround \<Rightarrow> 'o surround option" where
  "su_write hm reg val s = do {
     _ \<leftarrow> require (0 \<le> reg);
     let s = s\<lparr>su_a := su_a s @ [OplWrite reg val]\<rparr>;
     fm \<leftarrow> wr2 (su_fm s) (currChip s) (nat reg) (to_u8 val);
     let s = s\<lparr>su_fm := fm\<rparr>;
     (val', s) \<leftarrow> (if reg div 16 = 0xA \<or> reg div 16 = 0xB then su_channel hm (nat reg) val s else Some (val, s));
     regs \<leftarrow> wr2 (su_tweaked s) (currChip s) (nat reg) (to_u8 val');
     Some ((su_tell_b (nat reg) val' s)\<lparr>su_tweaked := regs\<rparr>)
   }"

definition su_init :: "'o surround \<Rightarrow> 'o surround" where
  "su_init s = s\<lparr>su_a := su_a s @ [OplInit, OplSetchip 0], su_b := su_b s @ [OplInit, OplSetchip 0],
     su_fm := replicate 2 (replicate 256 0), su_tweaked := replicate 2 (replicate 256 0),
     su_block := replicate 2 (replicate 9 0), su_fnum := replicate 2 (replicate 9 0)\<rparr>"

definition su_setchip :: "int \<Rightarrow> 'o surround \<Rightarrow> 'o surround" where
  "su_setchip n s = copl_setchip n (s\<lparr>su_a := su_a s @ [OplSetchip n], su_b := su_b s @ [OplSetchip n]\<rparr>)"

definition su_set_offset :: "('o, 'd) harmonics \<Rightarrow> 'o \<Rightarrow> 'o surround \<Rightarrow> 'o surround" where
  "su_set_offset hm offset s = (if hm_is_zero hm offset then s else s\<lparr>su_offset := offset\<rparr>)"

text \<open>The constructor; \<open>typ\<close> is the type of the first chip and \<open>mem\<close> what its registers' memory holds.\<close>

definition new_surround ::
  "('o, 'd) harmonics \<Rightarrow> chip_type \<Rightarrow> (u8 list list \<times> u8 list list \<times> u8 list list \<times> u8 list list) \<Rightarrow> 'o surround"
where
  "new_surround hm typ = (\<lambda>(fm, tweaked, blocks, fnums).
     \<lparr>currChip = 0, currType = typ, su_a = [], su_b = [], su_bufsize = 4096, su_fm = fm, su_tweaked = tweaked,
      su_block = blocks, su_fnum = fnums, su_offset = hm_default hm\<rparr>)"

section \<open>Sound\<close>

text \<open>
  Mixing \<open>samples\<close> samples of the two chips into a stereo buffer. \<open>l\<close> and \<open>r\<close> are the chips' buffers, read at
  the width of their samples: values of 16 bits, or bytes. The buffers hold \<open>bufsize\<close> values of 16 bits, and
  \<open>bufsize\<close> has 16 bits itself: a size it cannot hold is an allocation of a negative size.
\<close>

record chip_format =
  cf_16bit :: bool
  cf_stereo :: bool

definition cv_8_16 :: "int \<Rightarrow> int" where "cv_8_16 a = (a * 256 OR a) - 32768"
definition cv_16_8 :: "int \<Rightarrow> int" where "cv_16_8 a = a div 256 + 128"

definition su_short :: "int \<Rightarrow> int" where "su_short n = (n + 32768) mod 65536 - 32768"

definition su_grow :: "int \<Rightarrow> 'o surround \<Rightarrow> 'o surround option" where
  "su_grow samples s =
     (if su_bufsize s < samples * 2 then do {
        let n = su_short (samples * 2);
        _ \<leftarrow> require (0 \<le> n);
        Some (s\<lparr>su_bufsize := n\<rparr>)
      } else Some s)"

definition su_sample :: "int \<Rightarrow> chip_format \<Rightarrow> int \<Rightarrow> (int \<Rightarrow> int) \<Rightarrow> int \<Rightarrow> int option" where
  "su_sample bufsize f right buf i = do {
     let k = (if cf_stereo f then i * 2 + right else i);
     _ \<leftarrow> require (0 \<le> k \<and> k < (if cf_16bit f then bufsize else bufsize * 2));
     Some (if cf_16bit f then buf k else cv_8_16 (buf k))
   }"

definition su_mix ::
  "int \<Rightarrow> chip_format \<Rightarrow> chip_format \<Rightarrow> bool \<Rightarrow> (int \<Rightarrow> int) \<Rightarrow> (int \<Rightarrow> int) \<Rightarrow> nat \<Rightarrow> int list \<Rightarrow> int list option"
where
  "su_mix bufsize fa fb out16 l r i out = do {
     x \<leftarrow> su_sample bufsize fa 0 l (int i);
     y \<leftarrow> su_sample bufsize fb 1 r (int i);
     Some (out @ (if out16 then [x, y] else [cv_16_8 x, cv_16_8 y]))
   }"

definition su_update ::
  "chip_format \<Rightarrow> chip_format \<Rightarrow> bool \<Rightarrow> (int \<Rightarrow> int) \<Rightarrow> (int \<Rightarrow> int) \<Rightarrow> int \<Rightarrow> 'o surround \<Rightarrow>
   (int list \<times> 'o surround) option"
where
  "su_update fa fb out16 l r samples s = do {
     s \<leftarrow> su_grow samples s;
     out \<leftarrow> ofold (su_mix (su_bufsize s) fa fb out16 l r) [0..<nat samples] [];
     Some (out, s)
   }"

section \<open>Sessions\<close>

text \<open>The surround chip is a chip itself: a session is a list of events.\<close>

fun su_call :: "('o, 'd) harmonics \<Rightarrow> opl_event \<Rightarrow> 'o surround \<Rightarrow> 'o surround option" where
  "su_call hm OplInit s = Some (su_init s)"
| "su_call hm (OplSetchip n) s = Some (su_setchip n s)"
| "su_call hm (OplWrite reg val) s = su_write hm reg val s"

text \<open>What the registers of a chip hold after a list of events, with the bank that is selected.\<close>

fun opl_step :: "nat \<times> (nat \<Rightarrow> nat \<Rightarrow> u8) \<Rightarrow> opl_event \<Rightarrow> nat \<times> (nat \<Rightarrow> nat \<Rightarrow> u8)" where
  "opl_step (c, m) OplInit = (c, \<lambda>_ _. 0)"
| "opl_step (c, m) (OplSetchip n) = (if 0 \<le> n \<and> n < 2 then nat n else c, m)"
| "opl_step (c, m) (OplWrite reg val) = (c, m(c := (m c)(nat reg := to_u8 val)))"

definition opl_regs :: "opl_event list \<Rightarrow> nat \<times> (nat \<Rightarrow> nat \<Rightarrow> u8)" where
  "opl_regs es = foldl opl_step (0, \<lambda>_ _. 0) es"

section \<open>Transposing\<close>

text \<open>The conversions the chip makes are defined.\<close>

definition hm_total :: "('o, 'd) harmonics \<Rightarrow> 'o \<Rightarrow> bool" where
  "hm_total hm offset \<longleftrightarrow>
     (\<forall>f < 1024. \<forall>b < 8. \<forall>nb < 8. b \<le> nb + 1 \<and> nb \<le> b + 1 \<longrightarrow> hm_u16 hm (hm_fnum hm offset f b nb) \<noteq> None)"

lemma small_word_cases: "unat (w :: 'a :: len word) \<le> 3 \<Longrightarrow> w = 0 \<or> w = 1 \<or> w = 2 \<or> w = 3"
proof -
  assume "unat w \<le> 3"
  then have "unat w = 0 \<or> unat w = 1 \<or> unat w = 2 \<or> unat w = 3" by linarith
  moreover have "unat w = k \<Longrightarrow> w = word_of_nat k" for k by auto
  ultimately show ?thesis by fastforce
qed

lemma su_transpose_ok:
  assumes "hm_total hm offset" "fnum \<le> 1023" "block \<le> 7"
  shows "\<exists>b f. su_transpose hm offset fnum block = Some (b, f) \<and> b \<le> 7 \<and> f \<le> 1023"
proof -
  let ?calc = "\<lambda>b :: u8. hm_fnum hm offset (unat fnum) (unat block) (unat b)"
  have range: "unat fnum < 1024" "unat block < 8" using assms(2,3) by (simp_all add: word_le_nat_alt)
  have conv: "\<exists>f. hm_u16 hm (?calc b) = Some f" if "unat b < 8" "unat block \<le> unat b + 1" "unat b \<le> unat block + 1" for b
    using assms(1) range that unfolding hm_total_def by blast
  have up: "unat (block + 1) = unat block + 1" using range by (simp add: unat_word_ariths)
  have down: "unat (block - 1) = unat block - 1" "0 < unat block" if "block \<noteq> 0"
    using that by (auto simp: unat_minus_one unat_gt_0)
  define r where "r =
       (if hm_high hm (?calc block) then
          (if 6 < block then Some (block, fnum)
           else do { f \<leftarrow> hm_u16 hm (?calc (block + 1)); Some (block + 1, f) })
        else if hm_low hm (?calc block) then
          (if block = 0 then Some (block, fnum)
           else do { f \<leftarrow> hm_u16 hm (?calc (block - 1)); Some (block - 1, f) })
        else do { f \<leftarrow> hm_u16 hm (?calc block); Some (block, f) })"
  have "\<exists>b f. r = Some (b, f) \<and> unat b \<le> 7"
  proof -
    consider "hm_high hm (?calc block)" "6 < block" | "hm_high hm (?calc block)" "\<not> 6 < block"
      | "\<not> hm_high hm (?calc block)" "hm_low hm (?calc block)" "block = 0"
      | "\<not> hm_high hm (?calc block)" "hm_low hm (?calc block)" "block \<noteq> 0"
      | "\<not> hm_high hm (?calc block)" "\<not> hm_low hm (?calc block)" by blast
    then show ?thesis
    proof cases
      case 2
      then have "unat block \<le> 6" by (simp add: word_le_nat_alt not_less)
      then show ?thesis using 2 conv [of "block + 1"] up by (auto simp: r_def)
    next
      case 4
      then have "unat (block - 1) < 8" "unat block \<le> unat (block - 1) + 1" "unat (block - 1) \<le> unat block + 1"
        "unat (block - 1) \<le> 7" using down [OF 4(3)] range by linarith+
      then show ?thesis using 4 conv [of "block - 1"] by (auto simp: r_def)
    next
      case 5
      then show ?thesis using conv [of block] range by (auto simp: r_def)
    qed (use range in \<open>auto simp: r_def\<close>)
  qed
  then obtain b f where "r = Some (b, f)" "unat b \<le> 7" by blast
  moreover from this have "su_transpose hm offset fnum block = Some (if 1023 < f then (block, fnum) else (b, f))"
    by (simp add: su_transpose_def r_def)
  ultimately show ?thesis using assms(2,3) by (auto simp: word_le_nat_alt not_less)
qed

section \<open>The registers of the two chips\<close>

definition su_ok :: "'o surround \<Rightarrow> bool" where
  "su_ok s \<longleftrightarrow> currChip s < 2 \<and> matrix 2 256 (su_fm s) \<and> matrix 2 256 (su_tweaked s) \<and>
     matrix 2 9 (su_block s) \<and> matrix 2 9 (su_fnum s)"

text \<open>The tables mirror the registers of the two chips.\<close>

definition su_shows :: "opl_event list \<Rightarrow> nat \<Rightarrow> u8 list list \<Rightarrow> bool" where
  "su_shows es chip regs \<longleftrightarrow> (\<exists>m. opl_regs es = (chip, m) \<and> (\<forall>c < 2. \<forall>r < 256. m c r = regs ! c ! r))"

definition su_mirror :: "'o surround \<Rightarrow> bool" where
  "su_mirror s \<longleftrightarrow> su_shows (su_a s) (currChip s) (su_fm s) \<and> su_shows (su_b s) (currChip s) (su_tweaked s)"

text \<open>
  The second chip differs in the frequencies of the nine channels only: the upper three bits of the registers
  from \<open>0xB0\<close>, among them the key-on bit, and all registers outside those of the channels are the first chip's.
\<close>

definition su_pitch_reg :: "nat \<Rightarrow> bool" where
  "su_pitch_reg r \<longleftrightarrow> 0xA0 \<le> r \<and> r \<le> 0xA8 \<or> 0xB0 \<le> r \<and> r \<le> 0xB8"

definition su_keys :: "u8 \<Rightarrow> u8" where
  "su_keys v = v AND 0xE0"

definition su_agree :: "'o surround \<Rightarrow> bool" where
  "su_agree s \<longleftrightarrow> (\<forall>c < 2. \<forall>r < 256.
     (\<not> su_pitch_reg r \<longrightarrow> su_tweaked s ! c ! r = su_fm s ! c ! r) \<and>
     (0xB0 \<le> r \<and> r \<le> 0xB8 \<longrightarrow> su_keys (su_tweaked s ! c ! r) = su_keys (su_fm s ! c ! r)))"

lemma su_keys_or: "su_keys (v OR w) = su_keys v OR su_keys w"
  by (simp add: su_keys_def bit.conj_disj_distrib2)

lemma su_keys_mask: "su_keys (v AND NOT 0x1F) = su_keys v"
  by (simp add: su_keys_def and.assoc)

lemma su_keys_top: "b \<le> 7 \<Longrightarrow> su_keys (push_bit 2 b OR ucast (f AND 0x03 :: u16)) = 0"
proof -
  assume b: "b \<le> 7"
  have "f AND 0x03 \<le> 0x03" by (rule word_and_le1)
  then have "unat (f AND 0x03) \<le> 3" by (simp add: word_le_nat_alt)
  from small_word_cases [OF this] have "su_keys (ucast (f AND 0x03)) = 0" by (elim disjE) (simp_all add: su_keys_def)
  moreover have "su_keys (push_bit 2 b) = 0"
  proof -
    have "unat b \<le> 7" using b by (simp add: word_le_nat_alt)
    then have "unat b = 0 \<or> unat b = 1 \<or> unat b = 2 \<or> unat b = 3 \<or> unat b = 4 \<or> unat b = 5 \<or> unat b = 6 \<or> unat b = 7"
      by linarith
    moreover have "unat b = k \<Longrightarrow> b = word_of_nat k" for k by auto
    ultimately have "b \<in> {0, 1, 2, 3, 4, 5, 6, 7}" by fastforce
    then show ?thesis by (auto simp: su_keys_def)
  qed
  ultimately show ?thesis by (simp add: su_keys_or)
qed

definition su_put :: "u8 list list \<Rightarrow> nat \<Rightarrow> nat \<Rightarrow> u8 \<Rightarrow> u8 list list" where
  "su_put regs c r v = regs[c := (regs ! c)[r := v]]"

lemma su_put_nth:
  "matrix 2 256 regs \<Longrightarrow> c < 2 \<Longrightarrow> r < 256 \<Longrightarrow> c' < 2 \<Longrightarrow> r' < 256 \<Longrightarrow>
   su_put regs c r v ! c' ! r' = (if c' = c \<and> r' = r then v else regs ! c' ! r')"
  by (auto simp: su_put_def nth_list_update matrix_def)

lemma su_put_matrix [simp]: "matrix 2 256 regs \<Longrightarrow> c < 2 \<Longrightarrow> matrix 2 256 (su_put regs c r v)"
  by (simp add: su_put_def)

lemma opl_regs_snoc: "opl_regs (es @ [e]) = opl_step (opl_regs es) e"
  by (simp add: opl_regs_def)

lemma su_shows_write:
  assumes "su_shows es c regs" "matrix 2 256 regs" "c < 2" "r < 256"
  shows "su_shows (es @ [OplWrite (int r) val]) c (su_put regs c r (to_u8 val))"
proof -
  obtain m where m: "opl_regs es = (c, m)" "\<forall>c < 2. \<forall>r < 256. m c r = regs ! c ! r"
    using assms(1) by (auto simp: su_shows_def)
  let ?m = "m(c := (m c)(r := to_u8 val))"
  have "opl_regs (es @ [OplWrite (int r) val]) = (c, ?m)" by (simp add: opl_regs_snoc m(1))
  moreover have "?m c' r' = su_put regs c r (to_u8 val) ! c' ! r'" if "c' < 2" "r' < 256" for c' r'
    using that m(2) assms by (simp add: su_put_nth)
  ultimately show ?thesis unfolding su_shows_def by blast
qed

text \<open>
  What the step for a channel's register does: at most one more write to the second chip, to the other
  register of the pair, and a value that differs from the given one in the pitch only.
\<close>

definition su_extra :: "nat \<Rightarrow> 'o surround \<Rightarrow> 'o surround \<Rightarrow> bool" where
  "su_extra reg s t \<longleftrightarrow>
     su_b t = su_b s \<and> su_tweaked t = su_tweaked s \<or>
     (\<exists>r v. r < 256 \<and> su_pitch_reg r \<and> r \<noteq> reg \<and> su_b t = su_b s @ [OplWrite (int r) (uint v)] \<and>
        su_tweaked t = su_put (su_tweaked s) (currChip s) r v \<and>
        (0xB0 \<le> r \<longrightarrow> su_keys v = su_keys (su_fm s ! currChip s ! r)))"

lemma su_shows_extra:
  assumes "su_shows (su_b s) (currChip s) (su_tweaked s)" "matrix 2 256 (su_tweaked s)" "currChip s < 2" "su_extra reg s t"
  shows "su_shows (su_b t) (currChip s) (su_tweaked t)"
  using assms(4) unfolding su_extra_def
proof (elim disjE exE conjE)
  fix r v assume r: "r < 256" "su_b t = su_b s @ [OplWrite (int r) (uint (v :: u8))]"
    "su_tweaked t = su_put (su_tweaked s) (currChip s) r v"
  show ?thesis using su_shows_write [OF assms(1-3) r(1), of "uint v"] r(2,3) by simp
qed (use assms(1) in simp)

definition su_static :: "'o surround \<Rightarrow> 'o surround \<Rightarrow> bool" where
  "su_static s t \<longleftrightarrow> su_ok t \<and> su_a t = su_a s \<and> su_fm t = su_fm s \<and> currChip t = currChip s \<and> su_offset t = su_offset s"

lemma byte_or_range: "(push_bit 8 (ucast (hi AND 0x03 :: u8)) OR ucast (lo :: u8) :: u16) \<le> 1023"
proof -
  have three: "(0x03 :: u8) = mask 2" by (simp add: mask_eq_exp_minus_1)
  have "(push_bit 8 (ucast (hi AND 0x03)) OR ucast lo :: u16) = (push_bit 8 (ucast (hi AND 0x03)) OR ucast lo) AND mask 10"
    unfolding three by (rule bit_word_eqI) (auto simp: bit_simps dest: bit_imp_le_length)
  also have "\<dots> \<le> mask 10" by (rule word_and_le1)
  finally show ?thesis by (simp add: mask_eq_exp_minus_1)
qed

lemma su_channel_ok:
  assumes s: "su_ok s" "hm_total hm (su_offset s)" and reg: "0xA0 \<le> reg" "reg < 0xC0"
  shows "\<exists>val' t. su_channel hm reg val s = Some (val', t) \<and> su_static s t \<and> su_extra reg s t \<and>
    (su_pitch_reg reg \<or> val' = val) \<and> (0xB0 \<le> reg \<longrightarrow> su_keys (to_u8 val') = su_keys (to_u8 val))"
proof -
  let ?c = "currChip s" and ?ch = "reg mod 16"
  have c: "?c < 2" and m: "matrix 2 256 (su_fm s)" "matrix 2 256 (su_tweaked s)" "matrix 2 9 (su_block s)" "matrix 2 9 (su_fnum s)"
    using s(1) by (simp_all add: su_ok_def)
  have ch: "?ch < 16" by simp
  define hi where "hi = su_fm s ! ?c ! (0xB0 + ?ch)"
  define lo where "lo = su_fm s ! ?c ! (0xA0 + ?ch)"
  have rd: "rd2 (su_fm s) ?c (0xB0 + ?ch) = Some hi" "rd2 (su_fm s) ?c (0xA0 + ?ch) = Some lo"
    using c by (simp_all add: rd2_Some [OF m(1)] hi_def lo_def)
  define fnum :: u16 where "fnum = push_bit 8 (ucast (hi AND 0x03)) OR ucast lo"
  define block where "block = drop_bit 2 hi AND 0x07"
  have "fnum \<le> 1023" unfolding fnum_def by (rule byte_or_range)
  moreover have "block \<le> 7" unfolding block_def by (rule word_and_le1)
  ultimately obtain b f where t: "su_transpose hm (su_offset s) fnum block = Some (b, f)" "b \<le> 7"
    using su_transpose_ok [OF s(2)] by blast
  define top where "top = (push_bit 2 b OR ucast (drop_bit 8 f AND 0x03 :: u16) :: u8)"
  have top: "su_keys top = 0" unfolding top_def by (rule su_keys_top [OF t(2)])
  define low :: u8 where "low = ucast (f AND 0xFF)"
  show ?thesis
  proof (cases "0xB0 \<le> reg \<and> reg \<le> 0xB8")
    case True
    then have ch9: "?ch < 9" "0xB0 + ?ch = reg" by presburger+
    let ?r = "0xA0 + ?ch"
    let ?s = "s\<lparr>su_block := (su_block s)[?c := (su_block s ! ?c)[?ch := b]],
      su_fnum := (su_fnum s)[?c := (su_fnum s ! ?c)[?ch := ucast f]]\<rparr>"
    let ?t = "if su_tweaked s ! ?c ! ?r \<noteq> low then (su_tell_b ?r (uint low) ?s)\<lparr>su_tweaked := su_put (su_tweaked s) ?c ?r low\<rparr> else ?s"
    have "su_channel hm reg val s = Some ((val AND NOT 0x1F) OR uint top, ?t)"
      using True ch9(1) c t(1)
      by (simp add: su_channel_def rd fnum_def [symmetric] block_def [symmetric] top_def [symmetric] low_def [symmetric]
        wr2_Some [OF m(3)] wr2_Some [OF m(4)] rd2_Some [OF m(2)] wr2_Some [OF m(2)] su_tell_b_def su_put_def Let_def)
    moreover have "su_static s ?t" using s(1) ch9(1) by (auto simp: su_static_def su_ok_def su_tell_b_def)
    moreover have "su_extra reg s ?t"
      using ch9 by (auto simp: su_extra_def su_tell_b_def su_pitch_reg_def intro!: exI [of _ ?r])
    moreover have "su_keys (to_u8 ((val AND NOT 0x1F) OR uint top)) = su_keys (to_u8 val)"
    proof -
      have "to_u8 ((val AND NOT 0x1F) OR uint top) = (to_u8 val AND NOT 0x1F) OR top"
        by (rule bit_word_eqI) (auto simp: bit_simps)
      then show ?thesis by (simp only: su_keys_or su_keys_mask top or.right_neutral)
    qed
    ultimately show ?thesis using True by (auto simp: su_pitch_reg_def)
  next
    case notB: False
    show ?thesis
    proof (cases "reg \<le> 0xA8")
      case True
      then have ch9: "?ch < 9" "0xA0 + ?ch = reg" using reg by presburger+
      let ?r = "0xB0 + ?ch"
      let ?new = "(hi AND NOT 0x1F) OR top"
      let ?t = "if ?new AND 0x20 \<noteq> 0 \<and> su_tweaked s ! ?c ! ?r \<noteq> ?new
        then (su_tell_b ?r (uint ?new) s)\<lparr>su_tweaked := su_put (su_tweaked s) ?c ?r ?new\<rparr> else s"
      have "su_channel hm reg val s = Some (uint low, ?t)"
        using True notB reg ch9(1) c t(1)
        by (simp add: su_channel_def rd fnum_def [symmetric] block_def [symmetric] top_def [symmetric] low_def [symmetric]
          rd2_Some [OF m(2)] wr2_Some [OF m(2)] su_tell_b_def su_put_def Let_def)
      moreover have "su_static s ?t" using s(1) by (auto simp: su_static_def su_ok_def su_tell_b_def)
      moreover have "su_keys ?new = su_keys (su_fm s ! ?c ! ?r)"
        by (simp only: su_keys_or su_keys_mask top or.right_neutral hi_def)
      then have "su_extra reg s ?t"
        using ch9 by (auto simp: su_extra_def su_tell_b_def su_pitch_reg_def intro!: exI [of _ ?r])
      ultimately show ?thesis using True reg notB by (auto simp: su_pitch_reg_def)
    next
      case False
      have nb: "(0xB0 \<le> reg \<and> reg \<le> 0xB8) = False" "(0xA0 \<le> reg \<and> reg \<le> 0xA8) = False" using False notB by auto
      have "su_channel hm reg val s = Some (val, s)" using t(1) unfolding su_channel_def nb if_False
        by (simp add: rd fnum_def [symmetric] block_def [symmetric] Let_def)
      then show ?thesis using notB False s(1) by (simp add: su_static_def su_extra_def)
    qed
  qed
qed

section \<open>Sessions keep the two chips together\<close>

definition su_inv :: "('o, 'd) harmonics \<Rightarrow> 'o surround \<Rightarrow> bool" where
  "su_inv hm s \<longleftrightarrow> su_ok s \<and> su_mirror s \<and> su_agree s \<and> hm_total hm (su_offset s)"

lemma su_write_ok:
  assumes s: "su_inv hm s" and reg: "0 \<le> reg" "reg < 256"
  shows "\<exists>t. su_write hm reg val s = Some t \<and> su_inv hm t \<and> currChip t = currChip s \<and>
    su_a t = su_a s @ [OplWrite reg val]"
proof -
  obtain r where r: "reg = int r" "r < 256" using reg by (metis nonneg_int_cases of_nat_less_numeral_iff)
  let ?c = "currChip s"
  have ok: "su_ok s" "hm_total hm (su_offset s)" and c: "?c < 2"
    and m: "matrix 2 256 (su_fm s)" "matrix 2 256 (su_tweaked s)"
    using s by (simp_all add: su_inv_def su_ok_def)
  let ?fm = "su_put (su_fm s) ?c r (to_u8 val)"
  let ?s = "s\<lparr>su_a := su_a s @ [OplWrite reg val], su_fm := ?fm\<rparr>"
  have fm: "wr2 (su_fm s) ?c r (to_u8 val) = Some ?fm" using c r(2) by (simp add: wr2_Some [OF m(1)] su_put_def)
  have ok': "su_ok ?s" using ok(1) by (simp add: su_ok_def)
  let ?step = "if reg div 16 = 0xA \<or> reg div 16 = 0xB then su_channel hm r val ?s else Some (val, ?s)"
  have "\<exists>val' t. ?step = Some (val', t) \<and> su_static ?s t \<and> su_extra r ?s t \<and>
    (su_pitch_reg r \<or> val' = val) \<and> (0xB0 \<le> r \<and> r \<le> 0xB8 \<longrightarrow> su_keys (to_u8 val') = su_keys (to_u8 val))"
  proof (cases "reg div 16 = 0xA \<or> reg div 16 = 0xB")
    case True
    moreover have "reg div 16 = int (r div 16)" by (simp add: r(1) zdiv_int)
    ultimately have "r div 16 = 0xA \<or> r div 16 = 0xB" by auto
    then have range: "0xA0 \<le> r" "r < 0xC0" by linarith+
    have "hm_total hm (su_offset ?s)" using ok(2) by simp
    from su_channel_ok [OF ok' this range, of val] obtain val' t where "su_channel hm r val ?s = Some (val', t)" "su_static ?s t" "su_extra r ?s t"
      "su_pitch_reg r \<or> val' = val" "0xB0 \<le> r \<longrightarrow> su_keys (to_u8 val') = su_keys (to_u8 val)"
      by (elim exE conjE) (rule that)
    then show ?thesis using True by (intro exI [of _ val'] exI [of _ t]) simp
  next
    case False
    moreover have "reg div 16 = int (r div 16)" by (simp add: r(1) zdiv_int)
    ultimately have "r div 16 \<noteq> 0xA" "r div 16 \<noteq> 0xB" by auto
    then have "\<not> (0xA0 \<le> r \<and> r < 0xC0)" by linarith
    then have "\<not> su_pitch_reg r" "\<not> (0xB0 \<le> r \<and> r \<le> 0xB8)" by (auto simp: su_pitch_reg_def)
    then show ?thesis using False ok' by (auto simp: su_static_def su_extra_def)
  qed
  then obtain val' t where t: "?step = Some (val', t)" "su_static ?s t" "su_extra r ?s t"
    "su_pitch_reg r \<or> val' = val" "0xB0 \<le> r \<and> r \<le> 0xB8 \<longrightarrow> su_keys (to_u8 val') = su_keys (to_u8 val)"
    by (elim exE conjE) (rule that)
  have "su_ok t" using t(2) by (simp add: su_static_def)
  then have "matrix 2 256 (su_tweaked t)" by (simp add: su_ok_def)
  then have tt: "currChip t = ?c" "su_fm t = ?fm" "matrix 2 256 (su_tweaked t)" "su_a t = su_a s @ [OplWrite reg val]"
    "su_ok t" "su_offset t = su_offset s"
    using t(2) by (simp_all add: su_static_def)
  let ?u = "(su_tell_b r val' t)\<lparr>su_tweaked := su_put (su_tweaked t) ?c r (to_u8 val')\<rparr>"
  let ?pre = "s\<lparr>su_a := su_a s @ [OplWrite reg val]\<rparr>"
  have nr: "nat reg = r" and req: "require (0 \<le> reg) = Some ()" using r(1) by simp_all
  have fm0: "wr2 (su_fm ?pre) (currChip ?pre) r (to_u8 val) = Some ?fm" using fm by simp
  have w: "wr2 (su_tweaked t) (currChip t) r (to_u8 val') = Some (su_put (su_tweaked t) ?c r (to_u8 val'))"
    using c r(2) by (simp add: tt(1) wr2_Some [OF tt(3)] su_put_def)
  have "su_write hm reg val s = Some ?u"
    by (simp only: su_write_def Let_def nr req fm0 t(1) w bind.bind_lunit prod.case)
  moreover have "su_inv hm ?u"
  proof -
    have told: "su_shows (su_a s) ?c (su_fm s)" "su_shows (su_b s) ?c (su_tweaked s)"
      using s by (simp_all add: su_inv_def su_mirror_def)
    have a: "su_shows (su_a ?u) ?c (su_fm ?u)"
      using su_shows_write [OF told(1) m(1) c r(2), of val] tt r(1) by (simp add: su_tell_b_def)
    have b: "su_shows (su_b t) ?c (su_tweaked t)"
      using su_shows_extra [OF _ _ _ t(3)] told(2) m(2) c by simp
    have b': "su_shows (su_b ?u) ?c (su_tweaked ?u)"
      using su_shows_write [OF b tt(3) c r(2), of val'] by (simp add: su_tell_b_def)
    have agree: "su_agree s" using s by (simp add: su_inv_def)
    have near: "(\<not> su_pitch_reg k \<longrightarrow> su_tweaked t ! d ! k = su_fm s ! d ! k) \<and>
      (0xB0 \<le> k \<and> k \<le> 0xB8 \<and> k \<noteq> r \<longrightarrow> su_keys (su_tweaked t ! d ! k) = su_keys (su_fm s ! d ! k))"
      if dk: "d < 2" "k < 256" for d k
    proof -
      have old: "(\<not> su_pitch_reg k \<longrightarrow> su_tweaked s ! d ! k = su_fm s ! d ! k) \<and>
        (0xB0 \<le> k \<and> k \<le> 0xB8 \<longrightarrow> su_keys (su_tweaked s ! d ! k) = su_keys (su_fm s ! d ! k))"
        using agree dk by (simp add: su_agree_def)
      from t(3) show ?thesis unfolding su_extra_def
      proof (elim disjE exE conjE)
        fix k' v assume k': "k' < 256" "su_pitch_reg k'" "k' \<noteq> r"
          "su_tweaked t = su_put (su_tweaked ?s) (currChip ?s) k' v"
          "0xB0 \<le> k' \<longrightarrow> su_keys v = su_keys (su_fm ?s ! currChip ?s ! k')"
        have "su_fm ?s ! ?c ! k' = su_fm s ! ?c ! k'" using k' c r(2) by (simp add: su_put_nth [OF m(1)])
        then show ?thesis using old k' dk c by (auto simp: su_put_nth [OF m(2)])
      qed (use old in simp)
    qed
    have "su_agree ?u"
      unfolding su_agree_def
    proof (intro allI impI)
      fix d k assume dk: "d < (2 :: nat)" "k < (256 :: nat)"
      have fm: "su_fm ?u ! d ! k = (if d = ?c \<and> k = r then to_u8 val else su_fm s ! d ! k)"
        using dk c r(2) tt(2) by (simp add: su_tell_b_def su_put_nth [OF m(1)])
      have tw: "su_tweaked ?u ! d ! k = (if d = ?c \<and> k = r then to_u8 val' else su_tweaked t ! d ! k)"
        using dk c r(2) by (simp add: su_put_nth [OF tt(3)])
      have far: "su_tweaked t ! d ! k = su_tweaked s ! d ! k" if "d \<noteq> ?c"
        using t(3) that dk c by (auto simp: su_extra_def su_put_nth [OF m(2)])
      show "(\<not> su_pitch_reg k \<longrightarrow> su_tweaked ?u ! d ! k = su_fm ?u ! d ! k) \<and>
        (0xB0 \<le> k \<and> k \<le> 0xB8 \<longrightarrow> su_keys (su_tweaked ?u ! d ! k) = su_keys (su_fm ?u ! d ! k))"
      proof (cases "d = ?c \<and> k = r")
        case True
        then show ?thesis unfolding fm tw using t(4,5) by auto
      next
        case False
        have "su_keys (su_tweaked t ! d ! k) = su_keys (su_fm s ! d ! k)" if "0xB0 \<le> k" "k \<le> 0xB8"
        proof (cases "k = r")
          case True
          then have "d \<noteq> ?c" using False by simp
          then show ?thesis using far agree dk that by (simp add: su_agree_def)
        next
          case False
          then show ?thesis using near [OF dk] that by blast
        qed
        then show ?thesis unfolding fm tw using False near [OF dk] by auto
      qed
    qed
    moreover have "su_ok ?u" using tt by (simp add: su_ok_def su_tell_b_def)
    moreover have "su_mirror ?u" using a b' tt(1) by (simp add: su_mirror_def su_tell_b_def)
    ultimately show ?thesis using ok(2) tt(6) by (simp add: su_inv_def su_tell_b_def)
  qed
  moreover have "currChip ?u = ?c" "su_a ?u = su_a s @ [OplWrite reg val]" using tt(1,4) by (simp_all add: su_tell_b_def)
  ultimately show ?thesis by blast
qed

lemma su_shows_setchip: "su_shows es c regs \<Longrightarrow>
    su_shows (es @ [OplSetchip n]) (if 0 \<le> n \<and> n < 2 then nat n else c) regs"
  by (auto simp: su_shows_def opl_regs_snoc)

lemma su_setchip_ok:
  assumes s: "su_inv hm s"
  shows "su_inv hm (su_setchip n s)" "currChip (su_setchip n s) = (if 0 \<le> n \<and> n < 2 then nat n else currChip s)"
proof -
  let ?t = "su_setchip n s"
  have told: "su_shows (su_a s) (currChip s) (su_fm s)" "su_shows (su_b s) (currChip s) (su_tweaked s)"
    and rest: "su_ok s" "su_agree s" "hm_total hm (su_offset s)"
    using s by (simp_all add: su_inv_def su_mirror_def)
  show chip: "currChip ?t = (if 0 \<le> n \<and> n < 2 then nat n else currChip s)"
    by (simp add: su_setchip_def copl_setchip_def)
  have eq: "su_a ?t = su_a s @ [OplSetchip n]" "su_b ?t = su_b s @ [OplSetchip n]" "su_fm ?t = su_fm s"
    "su_tweaked ?t = su_tweaked s" "su_block ?t = su_block s" "su_fnum ?t = su_fnum s" "su_offset ?t = su_offset s"
    by (simp_all add: su_setchip_def copl_setchip_def)
  have "su_mirror ?t" unfolding su_mirror_def eq chip using told by (intro conjI su_shows_setchip)
  moreover have "su_ok ?t" using rest(1) unfolding su_ok_def eq chip by auto
  moreover have "su_agree ?t" using rest(2) unfolding su_agree_def eq .
  ultimately show "su_inv hm ?t" using rest(3) by (simp add: su_inv_def eq)
qed

lemma su_init_ok:
  assumes "currChip s = 0" "hm_total hm (su_offset s)"
  shows "su_inv hm (su_init s)"
proof -
  let ?z = "replicate 2 (replicate 256 (0 :: u8))"
  have cleared: "su_shows (es @ [OplInit, OplSetchip 0]) 0 ?z" for es
  proof -
    obtain c m where "opl_regs es = (c, m)" by fastforce
    then have "opl_regs (es @ [OplInit, OplSetchip 0]) = (0, \<lambda>_ _. 0)" by (simp add: opl_regs_def)
    then show ?thesis by (simp add: su_shows_def)
  qed
  then show ?thesis
    using assms by (simp add: su_inv_def su_ok_def su_mirror_def su_agree_def su_init_def matrix_def)
qed

text \<open>
  The calls the chip is made for: registers of the OPL, and \<open>init\<close> while the first bank is selected, since
  \<open>init\<close> selects it in the two chips but not in the surround chip itself.
\<close>

fun su_legal :: "nat \<Rightarrow> opl_event list \<Rightarrow> bool" where
  "su_legal c [] = True"
| "su_legal c (OplInit # es) = (c = 0 \<and> su_legal c es)"
| "su_legal c (OplSetchip n # es) = su_legal (if 0 \<le> n \<and> n < 2 then nat n else c) es"
| "su_legal c (OplWrite reg val # es) = (0 \<le> reg \<and> reg < 256 \<and> su_legal c es)"

fun su_echo :: "opl_event \<Rightarrow> opl_event list" where
  "su_echo OplInit = [OplInit, OplSetchip 0]"
| "su_echo e = [e]"

lemma su_calls_ok:
  assumes "su_inv hm s" "su_legal (currChip s) es"
  shows "\<exists>t. ofold (su_call hm) es s = Some t \<and> su_inv hm t \<and> su_a t = su_a s @ concat (map su_echo es)"
  using assms
proof (induction es arbitrary: s)
  case (Cons e es)
  have "\<exists>t. su_call hm e s = Some t \<and> su_inv hm t \<and> su_legal (currChip t) es \<and> su_a t = su_a s @ su_echo e"
  proof (cases e)
    case OplInit
    then have "currChip s = 0" "su_legal 0 es" using Cons.prems(2) by auto
    moreover have "hm_total hm (su_offset s)" using Cons.prems(1) by (simp add: su_inv_def)
    ultimately show ?thesis using su_init_ok [of s hm] OplInit by (simp add: su_init_def)
  next
    case (OplSetchip n)
    then show ?thesis using su_setchip_ok [OF Cons.prems(1), of n] Cons.prems(2)
      by (simp add: su_setchip_def copl_setchip_def split: if_splits)
  next
    case (OplWrite reg val)
    then have r: "0 \<le> reg" "reg < 256" "su_legal (currChip s) es" using Cons.prems(2) by auto
    obtain t where "su_write hm reg val s = Some t" "su_inv hm t" "currChip t = currChip s" "su_a t = su_a s @ [OplWrite reg val]"
      using su_write_ok [OF Cons.prems(1) r(1,2)] by blast
    then show ?thesis using r(3) OplWrite by simp
  qed
  then obtain t where t: "su_call hm e s = Some t" "su_inv hm t" "su_legal (currChip t) es" "su_a t = su_a s @ su_echo e"
    by (elim exE conjE) (rule that)
  from Cons.IH [OF t(2,3)] show ?case using t(1,4) by simp
qed simp

section \<open>The arithmetic itself\<close>

text \<open>
  With the default offset of 128 all values are binary fractions of few bits, which \<open>double\<close> represents: the
  new frequency number is the quotient of \<open>129 * fnum * 2 ^ block\<close> and \<open>128 * 2 ^ newblock\<close>.
\<close>

definition hm_exact :: "(unit, nat \<times> nat) harmonics" where
  "hm_exact = \<lparr>hm_default = (), hm_is_zero = (\<lambda>_. False),
     hm_fnum = (\<lambda>_ f b nb. (129 * f * 2 ^ b, 128 * 2 ^ nb)),
     hm_high = (\<lambda>(n, d). 991 * d < n), hm_low = (\<lambda>(n, d). n < 32 * d),
     hm_u16 = (\<lambda>(n, d). if n div d < 65536 then Some (word_of_nat (n div d)) else None)\<rparr>"

definition hm_num :: "nat \<Rightarrow> nat \<Rightarrow> nat \<Rightarrow> nat" where
  "hm_num f b nb = (129 * f * 2 ^ b) div (128 * 2 ^ nb)"

lemma hm_num_same: "hm_num f b b = 129 * f div 128"
  unfolding hm_num_def by (metis div_mult_mult2 mult.commute power_not_zero zero_neq_numeral)

lemma hm_num_up: "hm_num f b (b + 1) = 129 * f div 256"
proof -
  have "hm_num f b (b + 1) = (2 ^ b * (129 * f)) div (2 ^ b * 256)" by (simp add: hm_num_def mult_ac)
  then show ?thesis by simp
qed

lemma hm_num_down: "0 < b \<Longrightarrow> hm_num f b (b - 1) = 129 * f div 64"
proof (cases b)
  case (Suc k)
  have "hm_num f b (b - 1) = (2 ^ k * 2 * (129 * f)) div (2 ^ k * 2 * 64)" by (simp add: hm_num_def Suc mult_ac)
  then show ?thesis by (simp only: div_mult_mult1_if) simp
qed simp

lemma hm_exact_total: "hm_total hm_exact offset"
proof -
  have "hm_num f b nb < 65536" if "f < 1024" "b < 8" "nb < 8" "b \<le> nb + 1" "nb \<le> b + 1" for f b nb
  proof -
    have "nb = b \<or> nb = b + 1 \<or> 0 < b \<and> nb = b - 1" using that(4,5) by linarith
    then show ?thesis using that(1) by (elim disjE conjE) (simp_all add: hm_num_same hm_num_up [simplified] hm_num_down [simplified])
  qed
  then show ?thesis by (simp add: hm_total_def hm_exact_def hm_num_def)
qed

text \<open>The transposition over the exact quotients, and what a quotient that fits gives.\<close>

lemma su_transpose_eq:
  "su_transpose hm_exact () fnum block = do {
     let pick = (\<lambda>b :: u8. let n = hm_num (unat fnum) (unat block) (unat b)
                           in if n < 65536 then Some (b, word_of_nat n :: u16) else None);
     (b, f) \<leftarrow>
       (if 991 * 128 < 129 * unat fnum then (if 6 < block then Some (block, fnum) else pick (block + 1))
        else if 129 * unat fnum < 32 * 128 then (if block = 0 then Some (block, fnum) else pick (block - 1))
        else pick block);
     Some (if 1023 < f then (block, fnum) else (b, f)) }"
proof -
  have high: "hm_high hm_exact (hm_fnum hm_exact () f b b) \<longleftrightarrow> 991 * 128 < 129 * f"
    and low: "hm_low hm_exact (hm_fnum hm_exact () f b b) \<longleftrightarrow> 129 * f < 32 * 128" for f b
    by (simp_all add: hm_exact_def)
  have conv: "do { f' \<leftarrow> hm_u16 hm_exact (hm_fnum hm_exact () f b (unat nb)); Some (nb, f') } =
      (if hm_num f b (unat nb) < 65536 then Some (nb, word_of_nat (hm_num f b (unat nb))) else None)" for f b nb
    by (simp add: hm_exact_def hm_num_def)
  show ?thesis by (simp only: su_transpose_def Let_def high low conv)
qed

lemma hm_pick:
  assumes "n \<le> 1023"
  shows "\<exists>f :: u16. (if n < 65536 then Some (b, word_of_nat n :: u16) else None) = Some (b, f) \<and> unat f = n \<and> f \<le> 1023"
proof (intro exI conjI)
  show "(if n < 65536 then Some (b, word_of_nat n :: u16) else None) = Some (b, word_of_nat n)" using assms by simp
  show n: "unat (word_of_nat n :: u16) = n" using assms by (simp add: unat_of_nat take_bit_eq_mod)
  show "(word_of_nat n :: u16) \<le> 1023" unfolding word_le_nat_alt n using assms by simp
qed

text \<open>C16: With the default offset the second chip is given the note the effect promises: a frequency number of ten
  bits and a block that denote, rounded down, 129/128 of the note's frequency, and the note itself only where it
  is too high for the last block or too low for the first one.
\<close>

theorem su_transpose_exact:
  assumes fnum: "fnum \<le> 1023" and block: "block \<le> 7"
  shows "\<exists>nb nf. su_transpose hm_exact () fnum block = Some (nb, nf) \<and> nb \<le> 7 \<and> nf \<le> 1023 \<and>
    (unat nf = (129 * unat fnum * 2 ^ unat block) div (128 * 2 ^ unat nb) \<or>
     nb = block \<and> nf = fnum \<and> (block = 7 \<and> 991 * 128 < 129 * unat fnum \<or> block = 0 \<and> 129 * unat fnum < 32 * 128))"
proof -
  let ?f = "unat fnum" and ?b = "unat block"
  let ?high = "991 * 128 < 129 * ?f" and ?low = "129 * ?f < 32 * 128"
  have range: "?f \<le> 1023" "?b \<le> 7" using fnum block by (simp_all add: word_le_nat_alt)
  have pick: ?thesis if nb: "nb \<le> 7" "hm_num ?f ?b (unat nb) \<le> 1023"
    "su_transpose hm_exact () fnum block = do {
      (b, f) \<leftarrow> (if hm_num ?f ?b (unat nb) < 65536 then Some (nb, word_of_nat (hm_num ?f ?b (unat nb)) :: u16) else None);
      Some (if 1023 < f then (block, fnum) else (b, f)) }" for nb
  proof -
    obtain f :: u16 where f: "(if hm_num ?f ?b (unat nb) < 65536 then Some (nb, word_of_nat (hm_num ?f ?b (unat nb)) :: u16) else None) = Some (nb, f)"
      "unat f = hm_num ?f ?b (unat nb)" "f \<le> 1023" using hm_pick [OF nb(2), of nb] by blast
    have "su_transpose hm_exact () fnum block = Some (nb, f)" using nb(3) f(3) unfolding f(1) by (simp add: leD)
    then show ?thesis using nb(1) f(2,3) unfolding hm_num_def by blast
  qed
  consider (top) "?high" "6 < block" | (up) "?high" "\<not> 6 < block" | (bottom) "\<not> ?high" "?low" "block = 0"
    | (down) "\<not> ?high" "?low" "block \<noteq> 0" | (in_range) "\<not> ?high" "\<not> ?low" by blast
  then show ?thesis
  proof cases
    case top
    then have "block = 7" using range by (simp add: word_le_nat_alt word_less_nat_alt word_unat_eq_iff)
    then show ?thesis using top block fnum by (simp add: su_transpose_eq leD)
  next
    case bottom
    then show ?thesis using fnum by (simp add: su_transpose_eq leD)
  next
    case up
    then have b: "unat (block + 1) = ?b + 1" "block + 1 \<le> 7" by (auto simp: word_le_nat_alt not_less unat_word_ariths)
    have "hm_num ?f ?b (unat (block + 1)) \<le> 1023" unfolding b(1) hm_num_up using range(1) by linarith
    then show ?thesis by (rule pick [OF b(2)]) (simp only: su_transpose_eq Let_def up if_True if_False simp_thms)
  next
    case down
    then have b: "0 < ?b" "unat (block - 1) = ?b - 1" by (simp_all add: unat_gt_0 unat_minus_one)
    then have "block - 1 \<le> 7" using range(2) by (simp add: word_le_nat_alt)
    moreover have "hm_num ?f ?b (unat (block - 1)) \<le> 1023" unfolding b(2) hm_num_down [OF b(1)] using down(2) by linarith
    ultimately show ?thesis by (rule pick) (simp only: su_transpose_eq Let_def down if_True if_False simp_thms)
  next
    case in_range
    have "hm_num ?f ?b ?b \<le> 1023" unfolding hm_num_same using in_range(1) by linarith
    then show ?thesis by (rule pick [OF block]) (simp only: su_transpose_eq Let_def in_range if_True if_False simp_thms)
  qed
qed

lemma su_transpose_exact_witness:
  "\<exists>nb nf. su_transpose hm_exact () 1000 4 = Some (nb, nf) \<and> nb \<le> 7 \<and> nf \<le> 1023 \<and>
    (unat nf = (129 * 1000 * 2 ^ 4) div (128 * 2 ^ unat nb) \<or>
     nb = 4 \<and> nf = 1000 \<and> ((4 :: u8) = 7 \<and> 991 * 128 < 129 * (1000 :: nat) \<or> (4 :: u8) = 0 \<and> 129 * 1000 < (32 * 128 :: nat)))"
  using su_transpose_exact [of 1000 4] by simp

section \<open>Whole sessions\<close>

text \<open>C11: Whatever legal calls are made of a new surround chip after \<open>init\<close>, all return; the first chip has been told
  exactly these calls, the tables are what the registers of the two chips hold, and the second chip has the
  first one's registers up to the pitch of the notes, so that every key is on in both chips or in none.
\<close>

theorem surround_session:
  assumes "hm_total hm (hm_default hm)" "su_legal 0 es"
  shows "\<exists>s. ofold (su_call hm) (OplInit # es) (new_surround hm typ mem) = Some s \<and>
    su_a s = concat (map su_echo (OplInit # es)) \<and> su_mirror s \<and> su_agree s"
proof -
  let ?s = "su_init (new_surround hm typ mem)"
  have s: "currChip (new_surround hm typ mem) = 0" "su_offset (new_surround hm typ mem) = hm_default hm"
    "su_a (new_surround hm typ mem) = []"
    by (simp_all add: new_surround_def split: prod.split)
  have inv: "su_inv hm ?s" using assms(1) s by (intro su_init_ok) simp_all
  moreover have "currChip ?s = 0" "su_a ?s = [OplInit, OplSetchip 0]" using s by (simp_all add: su_init_def)
  ultimately obtain t where "ofold (su_call hm) es ?s = Some t" "su_inv hm t"
      "su_a t = [OplInit, OplSetchip 0] @ concat (map su_echo es)"
    using su_calls_ok [of hm ?s es] assms(2) by auto
  then show ?thesis by (simp add: su_inv_def)
qed

lemma surround_session_witness:
  "\<exists>s. ofold (su_call hm_exact) [OplInit, OplWrite 0xA0 0x40, OplWrite 0xB0 0x31, OplSetchip 1, OplWrite 0xC0 1]
      (new_surround hm_exact TYPE_OPL2 ([], [], [], [])) = Some s \<and>
    su_a s = concat (map su_echo [OplInit, OplWrite 0xA0 0x40, OplWrite 0xB0 0x31, OplSetchip 1, OplWrite 0xC0 1]) \<and>
    su_mirror s \<and> su_agree s"
  by (rule surround_session [OF hm_exact_total]) simp

text \<open>
  \<open>init\<close> leaves the surround chip's own bank selected: after it the second bank is selected here and the first
  one in the two chips, and the next write is kept in the wrong table.
\<close>

lemma su_init_keeps_bank:
  "\<exists>s. ofold (su_call hm) [OplInit, OplSetchip 1, OplInit, OplWrite 0x20 1] (new_surround hm typ mem) = Some s \<and> \<not> su_mirror s"
proof -
  let ?s = "su_init (su_setchip 1 (su_init (new_surround hm typ mem)))"
  have s: "currChip ?s = 1" "matrix 2 256 (su_fm ?s)" "matrix 2 256 (su_tweaked ?s)"
    "su_a ?s = [OplInit, OplSetchip 0, OplSetchip 1, OplInit, OplSetchip 0]"
    by (simp_all add: su_init_def su_setchip_def copl_setchip_def new_surround_def matrix_def split: prod.split)
  have fm: "wr2 (su_fm ?s) 1 0x20 1 = Some (su_put (su_fm ?s) 1 0x20 1)"
    and tweaked: "wr2 (su_tweaked ?s) 1 0x20 1 = Some (su_put (su_tweaked ?s) 1 0x20 1)"
    by (simp_all only: wr2_Some [OF s(2)] wr2_Some [OF s(3)] su_put_def)
  obtain t where t: "su_write hm 0x20 1 ?s = Some t" "currChip t = 1" "su_a t = su_a ?s @ [OplWrite 0x20 1]"
    using s(1) fm tweaked by (simp add: su_write_def su_tell_b_def)
  have "fst (opl_regs (su_a t)) = 0" unfolding t(3) s(4) by (simp add: opl_regs_def)
  then have "\<not> su_mirror t" using t(2) by (auto simp: su_mirror_def su_shows_def)
  then show ?thesis using t(1) by simp
qed

end
