(* ===== verification/Player.thy ===== *)
theory Player
  imports Opl
begin

text \<open>
  \<open>src/player.cpp\<close>, \<open>src/player.h\<close>: the base class of every player. A player object extends
  the record \<open>cplayer\<close>, whose only field is what the player has told its chip; \<open>update\<close> and
  \<open>rewind\<close>, the virtual functions the base class calls, are parameters, and the contract the
  base class relies on is the locale \<open>player\<close>.
\<close>

record cplayer =
  opl_out :: "opl_event list"

definition opl_write :: "int \<Rightarrow> int \<Rightarrow> 'a cplayer_scheme \<Rightarrow> 'a cplayer_scheme" where
  "opl_write reg val s = s\<lparr>opl_out := opl_out s @ [OplWrite reg val]\<rparr>"

definition opl_setchip :: "int \<Rightarrow> 'a cplayer_scheme \<Rightarrow> 'a cplayer_scheme" where
  "opl_setchip n s = s\<lparr>opl_out := opl_out s @ [OplSetchip n]\<rparr>"

definition opl_init :: "'a cplayer_scheme \<Rightarrow> 'a cplayer_scheme" where
  "opl_init s = s\<lparr>opl_out := opl_out s @ [OplInit]\<rparr>"

lemmas opl_calls = opl_write_def opl_setchip_def opl_init_def

definition note_table :: "int list" where
  "note_table = [363, 385, 408, 432, 458, 485, 514, 544, 577, 611, 647, 686]"

lemma length_note_table [simp]: "length note_table = 12"
  by (simp add: note_table_def)

section \<open>songlength and seek\<close>

text \<open>
  The arithmetic on \<open>float\<close> the base class does: the type \<open>'f\<close> of the sums, the type
  \<open>'r\<close> of refresh rates, and the expressions \<open>slength < 600000\<close>,
  \<open>slength += 1000.0f / rate\<close> and the conversion to \<open>unsigned long\<close>.
\<close>

record ('f, 'r) float_ops =
  f_zero :: "'f"
  f_below :: "'f \<Rightarrow> nat \<Rightarrow> bool"
  f_tick :: "'f \<Rightarrow> 'r \<Rightarrow> 'f"
  f_ulong :: "'f \<Rightarrow> nat"

partial_function (option) songlength_loop ::
  "('s \<Rightarrow> (bool \<times> 's) option) \<Rightarrow> ('s \<Rightarrow> 'r) \<Rightarrow> ('f, 'r) float_ops \<Rightarrow> 's \<Rightarrow> 'f \<Rightarrow> ('f \<times> 's) option"
where
  "songlength_loop upd refresh fl s slength = do {
     (go, s1) \<leftarrow> upd s;
     if go \<and> f_below fl slength 600000
     then songlength_loop upd refresh fl s1 (f_tick fl slength (refresh s1))
     else Some (slength, s1)
   }"

definition songlength ::
  "('a cplayer_scheme \<Rightarrow> (bool \<times> 'a cplayer_scheme) option) \<Rightarrow>
   (int \<Rightarrow> 'a cplayer_scheme \<Rightarrow> 'a cplayer_scheme option) \<Rightarrow>
   ('a cplayer_scheme \<Rightarrow> 'r) \<Rightarrow> ('f, 'r) float_ops \<Rightarrow> int \<Rightarrow> 'a cplayer_scheme \<Rightarrow>
   (nat \<times> 'a cplayer_scheme) option"
where
  "songlength upd rew refresh fl subsong s = do {
     let saveopl = opl_out s;
     s1 \<leftarrow> rew subsong (s\<lparr>opl_out := []\<rparr>);
     (slength, s2) \<leftarrow> songlength_loop upd refresh fl s1 (f_zero fl);
     s3 \<leftarrow> rew subsong s2;
     Some (f_ulong fl slength, s3\<lparr>opl_out := saveopl\<rparr>)
   }"

partial_function (option) seek_loop ::
  "('s \<Rightarrow> (bool \<times> 's) option) \<Rightarrow> ('s \<Rightarrow> 'r) \<Rightarrow> ('f, 'r) float_ops \<Rightarrow> nat \<Rightarrow> 's \<Rightarrow> 'f \<Rightarrow> 's option"
where
  "seek_loop upd refresh fl ms s pos =
     (if f_below fl pos ms then do {
        (go, s1) \<leftarrow> upd s;
        if go then seek_loop upd refresh fl ms s1 (f_tick fl pos (refresh s1)) else Some s1
      }
      else Some s)"

definition seek ::
  "('s \<Rightarrow> (bool \<times> 's) option) \<Rightarrow> (int \<Rightarrow> 's \<Rightarrow> 's option) \<Rightarrow> ('s \<Rightarrow> 'r) \<Rightarrow>
   ('f, 'r) float_ops \<Rightarrow> nat \<Rightarrow> 's \<Rightarrow> 's option"
where
  "seek upd rew refresh fl ms s = do {
     s1 \<leftarrow> rew (-1) s;
     seek_loop upd refresh fl ms s1 (f_zero fl)
   }"

text \<open>Playing \<open>n\<close> ticks, as a host application does.\<close>

fun play :: "('s \<Rightarrow> (bool \<times> 's) option) \<Rightarrow> nat \<Rightarrow> 's \<Rightarrow> 's option" where
  "play upd 0 s = Some s"
| "play upd (Suc n) s = do { (_, s1) \<leftarrow> upd s; play upd n s1 }"

text \<open>Playing \<open>n\<close> ticks each of which reports more to come.\<close>

fun play_on :: "('s \<Rightarrow> (bool \<times> 's) option) \<Rightarrow> nat \<Rightarrow> 's \<Rightarrow> 's option" where
  "play_on upd 0 s = Some s"
| "play_on upd (Suc n) s = do { (go, s1) \<leftarrow> upd s; if go then play_on upd n s1 else None }"

text \<open>How the song of \<open>s\<close> comes to an end, if it does: it reports its end, or an update does not return.\<close>

definition comes_to_end :: "('s \<Rightarrow> (bool \<times> 's) option) \<Rightarrow> 's \<Rightarrow> bool" where
  "comes_to_end upd s \<longleftrightarrow> (\<exists>n s1 s2. play_on upd n s = Some s1 \<and> upd s1 = Some (False, s2))"

definition comes_to_fault :: "('s \<Rightarrow> (bool \<times> 's) option) \<Rightarrow> 's \<Rightarrow> bool" where
  "comes_to_fault upd s \<longleftrightarrow> (\<exists>n s1. play_on upd n s = Some s1 \<and> upd s1 = None)"

lemma play_on_plus: "play_on upd (m + n) s = Option.bind (play_on upd m s) (play_on upd n)"
  by (induction m arbitrary: s) (auto split: option.splits bind_splits)

lemma play_on_play: "play_on upd n s = Some s1 \<Longrightarrow> play upd n s = Some s1"
  by (induction n arbitrary: s) (auto split: bind_splits if_splits)

text \<open>Playing is deterministic: a song that reports its end does not come to a fault before.\<close>

lemma end_excludes_fault:
  assumes "comes_to_end upd s" "comes_to_fault upd s"
  shows False
proof -
  obtain m s1 s2 where m: "play_on upd m s = Some s1" "upd s1 = Some (False, s2)" using assms(1) by (auto simp: comes_to_end_def)
  obtain n t1 where n: "play_on upd n s = Some t1" "upd t1 = None" using assms(2) by (auto simp: comes_to_fault_def)
  consider "m = n" | k where "n = m + Suc k" | k where "m = n + Suc k"
    by (metis add_Suc_right less_iff_Suc_add linorder_neqE_nat)
  then show False
  proof cases
    case 1
    with m n show ?thesis by simp
  next
    case 2
    with m n show ?thesis by (simp add: play_on_plus del: add_Suc_right)
  next
    case 3
    with m n show ?thesis by (simp add: play_on_plus del: add_Suc_right)
  qed
qed

section \<open>The contract of a player\<close>

text \<open>
  What the base class and a host rely on: from a well-formed object, \<open>update\<close> and
  \<open>rewind\<close> return, keep the object well formed, and only ever append to what the chip was told.
\<close>

locale player =
  fixes upd :: "'a cplayer_scheme \<Rightarrow> (bool \<times> 'a cplayer_scheme) option"
    and rew :: "int \<Rightarrow> 'a cplayer_scheme \<Rightarrow> 'a cplayer_scheme option"
    and inv :: "'a cplayer_scheme \<Rightarrow> bool"
  assumes upd_ok: "inv s \<Longrightarrow> \<exists>go s'. upd s = Some (go, s') \<and> inv s'"
    and rew_ok: "inv s \<Longrightarrow> \<exists>s'. rew n s = Some s' \<and> inv s'"
    and inv_any_chip: "inv (s\<lparr>opl_out := es\<rparr>) = inv s"
    and upd_appends: "inv s \<Longrightarrow> upd s = Some (go, s') \<Longrightarrow> \<exists>es. opl_out s' = opl_out s @ es"
begin

lemma play_ok: "inv s \<Longrightarrow> \<exists>s' es. play upd n s = Some s' \<and> inv s' \<and> opl_out s' = opl_out s @ es"
proof (induction n arbitrary: s)
  case 0
  then show ?case by simp
next
  case (Suc n)
  obtain go s1 where s1: "upd s = Some (go, s1)" "inv s1"
    using upd_ok [OF Suc.prems] by blast
  obtain es1 where "opl_out s1 = opl_out s @ es1" using upd_appends [OF Suc.prems s1(1)] by blast
  then show ?case using Suc.IH [OF s1(2)] s1(1) by auto
qed

end

text \<open>
  A player whose song ends by itself: a measure drops with every tick that reports more to
  come.
\<close>

locale ending_player = player upd rew inv
  for upd :: "'a cplayer_scheme \<Rightarrow> (bool \<times> 'a cplayer_scheme) option" and rew and inv +
  fixes left :: "'a cplayer_scheme \<Rightarrow> nat"
  assumes upd_left: "inv s \<Longrightarrow> upd s = Some (True, s') \<Longrightarrow> left s' < left s"
begin

lemma songlength_loop_returns:
  "inv s \<Longrightarrow> \<exists>len s'. songlength_loop upd refresh fl s slength = Some (len, s') \<and> inv s'"
proof (induction "left s" arbitrary: s slength rule: less_induct)
  case less
  obtain go s1 where s1: "upd s = Some (go, s1)" "inv s1" using upd_ok [OF less.prems] by blast
  show ?case
  proof (cases "go \<and> f_below fl slength 600000")
    case True
    then have "left s1 < left s" using upd_left less.prems s1(1) by simp
    then obtain len s' where
      "songlength_loop upd refresh fl s1 (f_tick fl slength (refresh s1)) = Some (len, s')" "inv s'"
      using less.hyps s1(2) by blast
    with s1(1) True show ?thesis by (subst songlength_loop.simps) auto
  next
    case False
    with s1 show ?thesis by (subst songlength_loop.simps) auto
  qed
qed

lemma seek_loop_returns:
  "inv s \<Longrightarrow> \<exists>s'. seek_loop upd refresh fl ms s pos = Some s' \<and> inv s'"
proof (induction "left s" arbitrary: s pos rule: less_induct)
  case less
  obtain go s1 where s1: "upd s = Some (go, s1)" "inv s1" using upd_ok [OF less.prems] by blast
  show ?case
  proof (cases "f_below fl pos ms \<and> go")
    case True
    then have "left s1 < left s" using upd_left less.prems s1(1) by simp
    then obtain s' where
      "seek_loop upd refresh fl ms s1 (f_tick fl pos (refresh s1)) = Some s'" "inv s'"
      using less.hyps s1(2) by blast
    with s1(1) True show ?thesis by (subst seek_loop.simps) auto
  next
    case False
    with s1 less.prems show ?thesis by (subst seek_loop.simps) auto
  qed
qed

text \<open>\<open>songlength\<close> returns, leaves a well-formed object and never reaches the real chip.\<close>

lemma songlength_returns:
  assumes "inv s"
  shows "\<exists>len s'. songlength upd rew refresh fl subsong s = Some (len, s') \<and> inv s' \<and>
           opl_out s' = opl_out s"
proof -
  have "inv (s\<lparr>opl_out := []\<rparr>)" using assms by (simp add: inv_any_chip)
  then obtain s1 where s1: "rew subsong (s\<lparr>opl_out := []\<rparr>) = Some s1" "inv s1"
    using rew_ok by blast
  obtain len s2 where s2: "songlength_loop upd refresh fl s1 (f_zero fl) = Some (len, s2)" "inv s2"
    using songlength_loop_returns [OF s1(2), of refresh fl "f_zero fl"] by blast
  obtain s3 where "rew subsong s2 = Some s3" "inv s3" using rew_ok [OF s2(2)] by blast
  with s1(1) s2(1) show ?thesis by (simp add: songlength_def Let_def inv_any_chip)
qed

lemma seek_returns:
  assumes "inv s"
  shows "\<exists>s'. seek upd rew refresh fl ms s = Some s' \<and> inv s'"
proof -
  obtain s1 where s1: "rew (-1) s = Some s1" "inv s1" using rew_ok [OF assms] by blast
  with seek_loop_returns [OF s1(2), of refresh fl ms "f_zero fl"] show ?thesis
    by (simp add: seek_def)
qed

text \<open>The song ends: after finitely many ticks \<open>update\<close> reports the end.\<close>

lemma comes_to_end: "inv s \<Longrightarrow> comes_to_end upd s"
proof (induction "left s" arbitrary: s rule: less_induct)
  case less
  obtain go s1 where s1: "upd s = Some (go, s1)" "inv s1" using upd_ok [OF less.prems] by blast
  show ?case
  proof (cases go)
    case True
    then have "left s1 < left s" using upd_left [OF less.prems] s1(1) by simp
    then obtain n t1 t2 where "play_on upd n s1 = Some t1" "upd t1 = Some (False, t2)"
      using less.hyps [of s1] s1(2) unfolding comes_to_end_def by blast
    then have "play_on upd (Suc n) s = Some t1" using True s1(1) by simp
    with \<open>upd t1 = Some (False, t2)\<close> show ?thesis unfolding comes_to_end_def by blast
  next
    case False
    then have "play_on upd 0 s = Some s" "upd s = Some (False, s1)" using s1(1) by simp_all
    then show ?thesis unfolding comes_to_end_def by blast
  qed
qed

lemma reaches_end: "inv s \<Longrightarrow> \<exists>n s1 s2. play upd n s = Some s1 \<and> upd s1 = Some (False, s2)"
  using comes_to_end [of s] play_on_play [of upd] unfolding comes_to_end_def by blast

end

end
