(* ===== verification/Loader.thy ===== *)
theory Loader
  imports Player Binio
begin

text \<open>
  What the loaders and the register-stream players share: conversions to the unsigned types the
  loaders count with, the \<open>float\<close> arithmetic of refresh rates, the stream calls in the form the
  loaders use them, and the contract of the \<open>do \<dots> while\<close> loop by which several
  players send one tick of a recorded register stream.
\<close>

text \<open>The value an \<open>unsigned long\<close> (64 bits), an \<open>int\<close> or a \<open>uint32_t\<close> object takes.\<close>

definition ulong :: "int \<Rightarrow> nat" where "ulong n = nat (n mod 2 ^ 64)"
definition int32 :: "int \<Rightarrow> int" where "int32 n = (n + 2 ^ 31) mod 2 ^ 32 - 2 ^ 31"
definition uint32 :: "int \<Rightarrow> nat" where "uint32 n = nat (n mod 2 ^ 32)"

lemma ulong_id: "0 \<le> n \<Longrightarrow> n < 2 ^ 64 \<Longrightarrow> ulong n = nat n"
  by (simp add: ulong_def)

lemma ulong_less: "ulong n < 2 ^ 64"
  by (simp add: ulong_def nat_less_iff)

lemma uint32_less: "uint32 n < 2 ^ 32"
  by (simp add: uint32_def nat_less_iff)

text \<open>\<open>float\<close> constants and the quotient \<open>rate / (float)del\<close>.\<close>

record 'fl rate_ops =
  ro_int :: "int \<Rightarrow> 'fl"
  ro_div :: "'fl \<Rightarrow> int \<Rightarrow> 'fl"

text \<open>An opened file: \<open>CFileProvider::open\<close> is virtual, so it is a parameter.\<close>

type_synonym 's opener = "string \<Rightarrow> 's option"

definition read_u8 :: "('s, 'fl) binio \<Rightarrow> 's \<Rightarrow> u8 \<times> 's" where
  "read_u8 io f = (let (v, f1) = bio_readInt io 1 f in (to_u8 v, f1))"

definition read_u16 :: "('s, 'fl) binio \<Rightarrow> 's \<Rightarrow> u16 \<times> 's" where
  "read_u16 io f = (let (v, f1) = bio_readInt io 2 f in (to_u16 v, f1))"

fun read_u8s :: "('s, 'fl) binio \<Rightarrow> nat \<Rightarrow> 's \<Rightarrow> bytes \<times> 's" where
  "read_u8s io 0 f = ([], f)"
| "read_u8s io (Suc n) f =
     (let (v, f1) = read_u8 io f; (vs, f2) = read_u8s io n f1 in (v # vs, f2))"

lemma length_read_u8s: "read_u8s io n f = (vs, f') \<Longrightarrow> length vs = n"
  by (induction n arbitrary: f vs f') (auto split: prod.splits)

section \<open>What a loader relies on\<close>

text \<open>
  The documented behaviour of a stream over a file of less than 2 GB x 2 GB: positions and sizes
  fit, \<open>readString\<close> stays inside a buffer that is large enough, integers are not negative,
  and no operation leaves the set \<open>P\<close> of streams that behave so.
\<close>

definition stream_laws :: "('s, 'fl) binio \<Rightarrow> ('s \<Rightarrow> bool) \<Rightarrow> bool" where
  "stream_laws io P \<longleftrightarrow>
     (\<forall>s. P s \<longrightarrow>
        bio_pos io s < 2 ^ 63 \<and>
        (\<forall>n. 0 \<le> fst (bio_readInt io n s) \<and> fst (bio_readInt io n s) < 256 ^ n \<and>
             P (snd (bio_readInt io n s))) \<and>
        (\<forall>n b. n \<le> length b \<longrightarrow> length (fst (snd (bio_readString io n b s))) = length b) \<and>
        (\<forall>n b. P (snd (snd (bio_readString io n b s)))) \<and>
        (\<forall>n d b. P (snd (bio_readStringZ io n d b s))) \<and>
        (\<forall>d. P (snd (bio_readDelim io d s))) \<and>
        (\<forall>n. P (bio_seekSet io n s) \<and> P (bio_seekAdd io n s) \<and> P (bio_seekEnd io n s)) \<and>
        (\<forall>n. P (bio_ignore io n s)))"

lemma stream_lawsD:
  assumes "stream_laws io P" "P s"
  shows "bio_pos io s < 2 ^ 63"
    and "bio_readInt io n s = (v, s1) \<Longrightarrow> 0 \<le> v \<and> v < 256 ^ n \<and> P s1"
    and "bio_readString io n b s = (k, b', s1) \<Longrightarrow> P s1 \<and> (n \<le> length b \<longrightarrow> length b' = length b)"
    and "bio_readStringZ io n d b s = (b', s1) \<Longrightarrow> P s1"
    and "bio_readDelim io d s = (b', s1) \<Longrightarrow> P s1"
    and "P (bio_seekSet io i s)" and "P (bio_seekAdd io i s)" and "P (bio_seekEnd io i s)"
    and "P (bio_ignore io n s)"
proof -
  note L = assms(1) [unfolded stream_laws_def, THEN spec, THEN mp, OF assms(2)]
  have all: "bio_pos io s < 2 ^ 63"
    "\<forall>n. 0 \<le> fst (bio_readInt io n s) \<and> fst (bio_readInt io n s) < 256 ^ n \<and>
             P (snd (bio_readInt io n s))"
    "\<forall>n b. n \<le> length b \<longrightarrow> length (fst (snd (bio_readString io n b s))) = length b"
    "\<forall>n b. P (snd (snd (bio_readString io n b s)))"
    "\<forall>n d b. P (snd (bio_readStringZ io n d b s))" "\<forall>d. P (snd (bio_readDelim io d s))"
    "\<forall>n. P (bio_seekSet io n s) \<and> P (bio_seekAdd io n s) \<and> P (bio_seekEnd io n s)"
    "\<forall>n. P (bio_ignore io n s)"
    using L by - (elim conjE; assumption)+
  show "bio_pos io s < 2 ^ 63" by (rule all(1))
  show "P (bio_seekSet io i s)" "P (bio_seekAdd io i s)" "P (bio_seekEnd io i s)"
    "P (bio_ignore io n s)" using all(7,8) by simp_all
  show "bio_readInt io n s = (v, s1) \<Longrightarrow> 0 \<le> v \<and> v < 256 ^ n \<and> P s1"
    using all(2) [rule_format, of n] by simp
  show "bio_readString io n b s = (k, b', s1) \<Longrightarrow> P s1 \<and> (n \<le> length b \<longrightarrow> length b' = length b)"
    using all(3) [rule_format, of n b] all(4) [rule_format, of n b] by simp
  show "bio_readStringZ io n d b s = (b', s1) \<Longrightarrow> P s1" 
    using all(5) [rule_format, of n d b] by simp
  show "bio_readDelim io d s = (b', s1) \<Longrightarrow> P s1" 
    using all(6) [rule_format, of d] by simp
qed

lemma read_u8_stream: "stream_laws io P \<Longrightarrow> P s \<Longrightarrow> read_u8 io s = (v, s1) \<Longrightarrow> P s1"
  using stream_lawsD(2) [of io P s 1] by (auto simp: read_u8_def split: prod.splits)

lemma read_u16_stream: "stream_laws io P \<Longrightarrow> P s \<Longrightarrow> read_u16 io s = (v, s1) \<Longrightarrow> P s1"
  using stream_lawsD(2) [of io P s 2] by (auto simp: read_u16_def split: prod.splits)

lemma filesize_stream:
  "stream_laws io P \<Longrightarrow> P s \<Longrightarrow> fp_filesize io s = (n, s1) \<Longrightarrow> P s1 \<and> n < 2 ^ 63"
  using stream_lawsD(1) [of io P "bio_seekEnd io 0 s"] stream_lawsD(8) [of io P s 0]
    stream_lawsD(6) [of io P "bio_seekEnd io 0 s"]
  by (auto simp: fp_filesize_def Let_def)

lemma read_u8s_stream:
  "stream_laws io P \<Longrightarrow> P s \<Longrightarrow> read_u8s io n s = (vs, s1) \<Longrightarrow> P s1"
  by (induction n arbitrary: s vs) (auto split: prod.splits dest: read_u8_stream)

text \<open>The byte-list stream over a file with the contents \<open>bs\<close> obeys them.\<close>

definition mem_ok :: "bytes \<Rightarrow> memstream \<Rightarrow> bool" where
  "mem_ok bs s \<longleftrightarrow> ms_bytes s = bs \<and> length bs < 2 ^ 63 \<and> ms_pos s \<le> length bs"

definition mem_file :: "bytes \<Rightarrow> memstream" where
  "mem_file bs = \<lparr>ms_bytes = bs, ms_pos = 0, ms_eof = False\<rparr>"

definition word_rates :: "u32 rate_ops" where
  "word_rates = \<lparr>ro_int = word_of_int, ro_div = (\<lambda>r n. word_of_int (uint r div n))\<rparr>"

lemma mem_file_ok [simp]: "length bs < 2 ^ 63 \<Longrightarrow> mem_ok bs (mem_file bs)"
  by (simp add: mem_ok_def mem_file_def)

lemma le_value_range: "0 \<le> le_value xs \<and> le_value xs < 256 ^ length xs"
proof (induction xs)
  case Nil
  then show ?case by simp
next
  case (Cons x xs)
  have "uint x + 256 * le_value xs < 256 * 256 ^ length xs"
    using Cons uint_u8_bounds(2) [of x] by linarith
  then show ?case using Cons by simp
qed

lemma mem_stream_laws: "stream_laws memio (mem_ok bs)"
proof -
  have le: "le_value (take n xs) < 256 ^ n" for n :: nat and xs :: bytes
  proof -
    have "(256 :: int) ^ length (take n xs) \<le> 256 ^ n" by (rule power_increasing) simp_all
    then show ?thesis using le_value_range [of "take n xs"] by linarith
  qed
  show ?thesis
    using le le_value_range
    by (auto simp: stream_laws_def memio_def mem_ok_def ms_advance_def ms_seek_def Let_def)
qed

text \<open>What is read from the bytes that are left of it.\<close>

lemma read_u8_rest: "ms_rest g = x # r \<Longrightarrow> \<exists>h. read_u8 memio g = (x, h) \<and> ms_rest h = r"
  by (auto simp: read_u8_def memio_def ms_advance_rest [of g "[x]" r])

lemma read_u16_rest:
  "ms_rest g = x # y # r \<Longrightarrow> \<exists>h. read_u16 memio g = (to_u16 (uint x + 256 * uint y), h) \<and> ms_rest h = r"
  by (auto simp: read_u16_def memio_def ms_advance_rest [of g "[x, y]" r])

lemma read_u8s_rest: "ms_rest g = xs @ r \<Longrightarrow> \<exists>h. read_u8s memio (length xs) g = (xs, h) \<and> ms_rest h = r"
proof (induction xs arbitrary: g)
  case (Cons x xs)
  obtain h where h: "read_u8 memio g = (x, h)" "ms_rest h = xs @ r"
    using read_u8_rest [of g x "xs @ r"] Cons.prems by auto
  then show ?case using Cons.IH [OF h(2)] by auto
qed simp

lemma read_string_rest:
  "ms_rest g = xs @ r \<Longrightarrow> length xs = n \<Longrightarrow> length b = n \<Longrightarrow>
   \<exists>h. bio_readString memio n b g = (n, xs, h) \<and> ms_rest h = r"
  by (auto simp: memio_def ms_advance_rest [of g xs r])

text \<open>A number of two bytes.\<close>

definition le16 :: "nat \<Rightarrow> bytes" where "le16 n = [of_nat n, of_nat (n div 256)]"

lemma read_le16_rest:
  assumes "ms_rest g = le16 n @ r" "n < 65536"
  shows "\<exists>h. read_u16 memio g = (of_nat n, h) \<and> ms_rest h = r"
proof -
  have "unat (of_nat n :: u8) = n mod 256" "unat (of_nat (n div 256) :: u8) = n div 256"
    using assms(2) by (simp_all add: unat_of_nat less_mult_imp_div_less)
  then have "uint (of_nat n :: u8) + 256 * uint (of_nat (n div 256) :: u8) = int n"
    by (simp add: uint_nat) (metis mod_mult_div_eq of_nat_add of_nat_mult of_nat_numeral)
  then show ?thesis
    using read_u16_rest [of g "of_nat n" "of_nat (n div 256)" r] assms(1) by (simp add: le16_def)
qed

text \<open>A C string inside a buffer, from offset \<open>i\<close> up to its NUL.\<close>

fun c_string :: "bytes \<Rightarrow> bytes option" where
  "c_string [] = None"
| "c_string (c # cs) = (if c = 0 then Some [] else map_option (\<lambda>r. c # r) (c_string cs))"

lemma c_string_total: "0 \<in> set b \<Longrightarrow> \<exists>r. c_string b = Some r"
  by (induction b) auto

text \<open>
  The loop of one tick: \<open>entry\<close> sends the next entry of the stream and steps over it,
  \<open>again\<close> is the loop condition. \<open>todo\<close> are the chip events the rest of the stream stands
  for, \<open>keep\<close> the parts of the state no entry changes.
\<close>

locale tick_loop =
  fixes loop :: "'s \<Rightarrow> 's option"
    and entry :: "'s \<Rightarrow> 's option"
    and again :: "'s \<Rightarrow> bool"
    and ok :: "'s \<Rightarrow> bool"
    and todo :: "'s \<Rightarrow> opl_event list"
    and out :: "'s \<Rightarrow> opl_event list"
    and keep :: "'s \<Rightarrow> 'k"
  assumes loop_unfold: "loop s = do { s1 \<leftarrow> entry s; if again s1 then loop s1 else Some s1 }"
    and entry_ok: "ok s \<Longrightarrow> todo s \<noteq> [] \<Longrightarrow>
      \<exists>s1. entry s = Some s1 \<and> ok s1 \<and> out s1 = out s @ [hd (todo s)] \<and> todo s1 = tl (todo s) \<and>
        keep s1 = keep s"
    and again_todo: "ok s \<Longrightarrow> again s \<Longrightarrow> todo s \<noteq> []"
begin

lemma loop_ok:
  "ok s \<Longrightarrow> todo s \<noteq> [] \<Longrightarrow>
   \<exists>s1. loop s = Some s1 \<and> ok s1 \<and> \<not> again s1 \<and> out s1 @ todo s1 = out s @ todo s \<and>
     length (todo s1) < length (todo s) \<and> keep s1 = keep s"
proof (induction "length (todo s)" arbitrary: s rule: less_induct)
  case less
  obtain s1 where s1: "entry s = Some s1" "ok s1" "out s1 = out s @ [hd (todo s)]"
    "todo s1 = tl (todo s)" "keep s1 = keep s" using entry_ok less.prems by blast
  have split: "out s1 @ todo s1 = out s @ todo s" "length (todo s1) < length (todo s)"
    using less.prems(2) s1(3,4) by (cases "todo s"; simp)+
  show ?case
  proof (cases "again s1")
    case True
    then obtain s2 where "loop s1 = Some s2" "ok s2" "\<not> again s2"
      "out s2 @ todo s2 = out s1 @ todo s1" "length (todo s2) < length (todo s1)" "keep s2 = keep s1"
      using less.hyps [OF split(2) s1(2)] again_todo [OF s1(2)] by blast
    with True s1 split show ?thesis by (subst loop_unfold) auto
  next
    case False
    with s1 split show ?thesis by (subst loop_unfold) auto
  qed
qed

lemma loop_appends:
  assumes "ok s" "todo s \<noteq> []"
  shows "\<exists>s1 es. loop s = Some s1 \<and> ok s1 \<and> out s1 = out s @ es"
proof -
  obtain s1 where s1: "loop s = Some s1" "ok s1" "out s1 @ todo s1 = out s @ todo s"
    "length (todo s1) < length (todo s)" using loop_ok [OF assms] by blast
  then have "out s1 = take (length (out s1)) (out s @ todo s)" by (metis append_eq_conv_conj)
  moreover have "length (out s) \<le> length (out s1)"
    using arg_cong [OF s1(3), of length] s1(4) by simp
  ultimately have "out s1 = out s @ take (length (out s1) - length (out s)) (todo s)" by simp
  with s1 show ?thesis by blast
qed

end

end
