(* ===== verification/Raw.thy ===== *)
theory Raw
  imports Loader
begin

text \<open>
  \<open>src/raw.cpp\<close>: the player of raw AdLib captures, a list of (parameter, command) pairs.
\<close>

record raw_tdata =
  rt_param :: u8
  rt_command :: u8

record raw_player = cplayer +
  raw_data :: "raw_tdata list"
  raw_pos :: nat
  raw_length :: nat
  raw_clock :: u16
  raw_speed :: u16
  raw_del :: u8
  raw_songend :: bool
  raw_title :: bytes
  raw_author :: bytes
  raw_desc :: bytes

definition raw_rewind :: "int \<Rightarrow> 'a raw_player_scheme \<Rightarrow> 'a raw_player_scheme option" where
  "raw_rewind subsong s =
     Some (opl_write 1 32 (opl_init
       (s\<lparr>raw_pos := 0, raw_del := 0, raw_speed := raw_clock s, raw_songend := False\<rparr>)))"

section \<open>Loading\<close>

text \<open>The load loop: the pairs read, whether the tag marker was met, the description and the stream.\<close>

fun raw_read_data ::
  "('s, 'fl) binio \<Rightarrow> nat \<Rightarrow> bool \<Rightarrow> bytes \<Rightarrow> 's \<Rightarrow> raw_tdata list \<times> bool \<times> bytes \<times> 's"
where
  "raw_read_data io 0 tagdata desc f = ([], tagdata, desc, f)"
| "raw_read_data io (Suc n) tagdata desc f =
     (let (p, f1) = (if tagdata then (0xff, f) else read_u8 io f);
          (c, f2) = (if tagdata then (0xff, f1) else read_u8 io f1);
          (tagdata', desc', f3) =
            (if \<not> tagdata \<and> p = 0xff \<and> c = 0xff
             then (let (tagCode, f3) = read_u8 io f2
                   in if tagCode = 0x1a then (True, desc, f3)
                      else if tagCode = 0
                      then (let (d, f4) = bio_readStringZ io 1023 0 desc f3 in (tagdata, d, f4))
                      else (tagdata, desc, bio_seekAdd io (-1) f3))
             else (tagdata, desc, f2));
          (ds, r) = raw_read_data io n tagdata' desc' f3
      in (\<lparr>rt_param = p, rt_command = c\<rparr> # ds, r))"

text \<open>The tag section behind the data; \<open>goto desc_section\<close> is the call of the second function.\<close>

definition raw_desc_section ::
  "('s, 'fl) binio \<Rightarrow> 's \<Rightarrow> 'a raw_player_scheme \<Rightarrow> 'a raw_player_scheme" where
  "raw_desc_section io f s =
     (let (x, f1) = bio_readInt io 1 f
      in if x \<noteq> 0x1c then s
         else let (desc, _) = bio_readStringZ io 1023 0 (raw_desc s) f1 in s\<lparr>raw_desc := desc\<rparr>)"

definition raw_read_tags ::
  "('s, 'fl) binio \<Rightarrow> 's \<Rightarrow> 'a raw_player_scheme \<Rightarrow> 'a raw_player_scheme" where
  "raw_read_tags io f s =
     (let (title, f1) = bio_readStringZ io 40 0 (raw_title s) f;
          s1 = s\<lparr>raw_title := title\<rparr>;
          (x, f2) = bio_readInt io 1 f1
      in if x \<noteq> 0x1b
         then let f3 = bio_seekAdd io (-1) f2;
                  (y, f4) = bio_readInt io 1 f3
              in if y \<ge> 0x20
                 then let f5 = bio_seekAdd io (-1) f4;
                          (author, f6) = bio_readStringZ io 60 0 (raw_author s1) f5;
                          (desc, _) = bio_readStringZ io 1023 0 (raw_desc s1) f6
                      in s1\<lparr>raw_author := author, raw_desc := desc\<rparr>
                 else raw_desc_section io (bio_seekAdd io (-1) f4) s1
         else let (author, f3) = bio_readStringZ io 40 0 (raw_author s1) f2
              in raw_desc_section io f3 (s1\<lparr>raw_author := author\<rparr>))"

definition raw_load ::
  "('s, 'fl) binio \<Rightarrow> 's opener \<Rightarrow> (nat \<Rightarrow> u8) \<Rightarrow> string \<Rightarrow> 'a raw_player_scheme \<Rightarrow>
   (bool \<times> 'a raw_player_scheme) option"
where
  "raw_load io opn mem filename s =
     (case opn filename of None \<Rightarrow> Some (False, s) | Some f \<Rightarrow>
       (let (_, hdr, f1) = bio_readString io 8 (fresh mem 8) f
        in if hdr \<noteq> bytes_of ''RAWADATA'' then Some (False, s)
           else
             let (clk, f2) = read_u16 io f1;
                 (fsize, f3) = fp_filesize io f2;
                 s1 = s\<lparr>raw_clock := clk, raw_length := fsize\<rparr>
             in if fsize \<le> 10 then Some (False, s1)
                else do {
                  let n = (fsize - 10) div 2;
                  let s2 = s1\<lparr>raw_length := n, raw_title := (raw_title s1)[0 := 0],
                             raw_author := (raw_author s1)[0 := 0]\<rparr>;
                  let (ds, tagdata, desc, f4) =
                    raw_read_data io n False ((raw_desc s1)[0 := 0]) f3;
                  let s3 = s2\<lparr>raw_data := ds, raw_desc := desc\<rparr>;
                  s4 \<leftarrow> raw_rewind 0 (if tagdata then raw_read_tags io f4 s3 else s3);
                  Some (True, s4)
                }))"

section \<open>Playing\<close>

text \<open>The \<open>do \<dots> while\<close> of \<open>update\<close>; the recursive call is the jump back to its head.\<close>

partial_function (option) raw_loop ::
  "'a raw_player_scheme \<Rightarrow> (bool \<times> 'a raw_player_scheme) option" where
  "raw_loop s =
     (if raw_pos s \<ge> raw_length s then Some (False, s)
      else do {
        d \<leftarrow> rd (raw_data s) (raw_pos s);
        let command = uint (rt_command d);
        let param = uint (rt_param d);
        if command = 2 \<and> param = 0 then do {
          let s1 = s\<lparr>raw_pos := raw_pos s + 1\<rparr>;
          if raw_pos s1 \<ge> raw_length s1 then Some (False, s1)
          else do {
            d1 \<leftarrow> rd (raw_data s1) (raw_pos s1);
            let s2 = s1\<lparr>raw_speed := to_u16 (uint (rt_param d1) + push_bit 8 (uint (rt_command d1)))\<rparr>;
            raw_loop (s2\<lparr>raw_pos := raw_pos s2 + 1\<rparr>)
          }
        }
        else if command = 0xff \<and> param = 0xff then do {
          s1 \<leftarrow> raw_rewind 0 s;
          Some (False, s1\<lparr>raw_songend := True\<rparr>)
        }
        else do {
          let s1 = (if command = 0 then s\<lparr>raw_del := to_u8 (param - 1)\<rparr>
                    else if command = 2 then opl_setchip (param - 1) s
                    else if command = 0xff then s
                    else opl_write command param s);
          let s2 = s1\<lparr>raw_pos := raw_pos s1 + 1\<rparr>;
          if command \<noteq> 0 then raw_loop s2 else Some (\<not> raw_songend s2, s2)
        }
      })"

definition raw_update :: "'a raw_player_scheme \<Rightarrow> (bool \<times> 'a raw_player_scheme) option" where
  "raw_update s =
     (if raw_pos s \<ge> raw_length s then Some (False, s)
      else if raw_del s \<noteq> 0 then Some (\<not> raw_songend s, s\<lparr>raw_del := raw_del s - 1\<rparr>)
      else raw_loop s)"

text \<open>The divisor of \<open>getrefresh\<close>: the refresh rate is \<open>1193180.0\<close> over this value.\<close>

definition raw_divisor :: "'a raw_player_scheme \<Rightarrow> int" where
  "raw_divisor s = (if raw_speed s \<noteq> 0 then uint (raw_speed s) else 0xffff)"

definition raw_ok :: "'a raw_player_scheme \<Rightarrow> bool" where
  "raw_ok s \<longleftrightarrow> raw_length s = length (raw_data s)"

text \<open>The ticks left: each is a delay step or moves to a later pair.\<close>

definition raw_left :: "'a raw_player_scheme \<Rightarrow> nat" where
  "raw_left s = 256 * (raw_length s - raw_pos s) + unat (raw_del s)"

definition raw_step_ok :: "'a raw_player_scheme \<Rightarrow> bool \<Rightarrow> 'a raw_player_scheme \<Rightarrow> bool" where
  "raw_step_ok s go s' \<longleftrightarrow>
     raw_ok s' \<and> raw_data s' = raw_data s \<and> (\<exists>es. opl_out s' = opl_out s @ es) \<and>
     (go \<longrightarrow> raw_pos s < raw_pos s' \<and> raw_pos s < raw_length s)"

lemma raw_loop_ok:
  "raw_ok s \<Longrightarrow> \<exists>go s'. raw_loop s = Some (go, s') \<and> raw_step_ok s go s'"
proof (induction "raw_length s - raw_pos s" arbitrary: s rule: less_induct)
  case less
  note ok = less.prems [unfolded raw_ok_def]
  show ?case
  proof (cases "raw_length s \<le> raw_pos s")
    case True
    then show ?thesis
      using less.prems by (subst raw_loop.simps) (auto simp: raw_step_ok_def)
  next
    case False
    let ?d = "raw_data s ! raw_pos s"
    have d: "rd (raw_data s) (raw_pos s) = Some ?d" using False ok by (simp add: access_simps)
    have chain: "\<exists>go s'. raw_loop t = Some (go, s') \<and> raw_step_ok s go s'"
      if t: "raw_ok t" "raw_data t = raw_data s" "raw_pos s < raw_pos t"
        "\<exists>es. opl_out t = opl_out s @ es" for t
    proof -
      have "raw_length t = raw_length s" using t ok by (simp add: raw_ok_def)
      then have "raw_length t - raw_pos t < raw_length s - raw_pos s" using t(3) False by linarith
      then obtain go s' where s': "raw_loop t = Some (go, s')" "raw_step_ok t go s'"
        using less.hyps t(1) by blast
      have "raw_step_ok s go s'"
        using s'(2) t False by (auto simp: raw_step_ok_def)
      with s'(1) show ?thesis by blast
    qed
    consider (speed) "uint (rt_command ?d) = 2" "uint (rt_param ?d) = 0"
      | (finish) "uint (rt_command ?d) = 0xff" "uint (rt_param ?d) = 0xff"
      | (other) "\<not> (uint (rt_command ?d) = 2 \<and> uint (rt_param ?d) = 0)"
          "\<not> (uint (rt_command ?d) = 0xff \<and> uint (rt_param ?d) = 0xff)" by blast
    then show ?thesis
    proof cases
      case speed
      show ?thesis
      proof (cases "raw_length s \<le> raw_pos s + 1")
        case True
        then show ?thesis
          using speed d False less.prems
          by (subst raw_loop.simps) (auto simp: Let_def raw_step_ok_def raw_ok_def)
      next
        case inside: False
        then have d1: "rd (raw_data s) (Suc (raw_pos s)) = Some (raw_data s ! (Suc (raw_pos s)))"
          using ok by (simp add: access_simps)
        show ?thesis
          using speed d False inside d1 less.prems
          by (subst raw_loop.simps) (auto simp: Let_def raw_ok_def intro!: chain)
      qed
    next
      case finish
      then show ?thesis
        using d False less.prems
        by (subst raw_loop.simps)
           (auto simp: Let_def raw_rewind_def raw_step_ok_def raw_ok_def opl_calls)
    next
      case other
      let ?s1 = "if uint (rt_command ?d) = 0 then s\<lparr>raw_del := to_u8 (uint (rt_param ?d) - 1)\<rparr>
                 else if uint (rt_command ?d) = 2 then opl_setchip (uint (rt_param ?d) - 1) s
                 else if uint (rt_command ?d) = 0xff then s
                 else opl_write (uint (rt_command ?d)) (uint (rt_param ?d)) s"
      let ?s2 = "?s1\<lparr>raw_pos := raw_pos ?s1 + 1\<rparr>"
      have s2: "raw_ok ?s2" "raw_data ?s2 = raw_data s" "raw_pos s < raw_pos ?s2"
        "\<exists>es. opl_out ?s2 = opl_out s @ es"
        using less.prems by (auto simp: raw_ok_def opl_calls)
      have step: "raw_loop s =
          (if uint (rt_command ?d) \<noteq> 0 then raw_loop ?s2 else Some (\<not> raw_songend ?s2, ?s2))"
        using d False
        by (subst raw_loop.simps) (simp add: Let_def if_not_P [OF other(1)] if_not_P [OF other(2)])
      show ?thesis
      proof (cases "uint (rt_command ?d) = 0")
        case True
        then show ?thesis using step s2 False by (auto simp: raw_step_ok_def)
      next
        case go: False
        then show ?thesis using step chain [OF s2] by (simp split del: if_split)
      qed
    qed
  qed
qed

lemma raw_update_ok:
  assumes "raw_ok s"
  shows "\<exists>go s'. raw_update s = Some (go, s') \<and> raw_ok s' \<and> (\<exists>es. opl_out s' = opl_out s @ es) \<and>
           (go \<longrightarrow> raw_left s' < raw_left s)"
proof -
  consider "raw_length s \<le> raw_pos s" | "raw_pos s < raw_length s" "raw_del s \<noteq> 0"
    | "raw_pos s < raw_length s" "raw_del s = 0" by linarith
  then show ?thesis
  proof cases
    case 1
    then show ?thesis using assms by (auto simp: raw_update_def)
  next
    case 2
    have "unat (raw_del s - 1) < unat (raw_del s)"
      using 2(2) by (simp add: measure_unat)
    then show ?thesis using assms 2 by (simp add: raw_update_def raw_ok_def raw_left_def)
  next
    case 3
    obtain go s' where s': "raw_loop s = Some (go, s')" "raw_step_ok s go s'"
      using raw_loop_ok [OF assms] by blast
    have "raw_left s' < raw_left s" if go
    proof -
      have "raw_pos s < raw_pos s'" "raw_length s' = raw_length s"
        using s'(2) that assms by (auto simp: raw_step_ok_def raw_ok_def)
      moreover have "unat (raw_del s') < 256" by simp
      ultimately show ?thesis using 3(1) unfolding raw_left_def by linarith
    qed
    then show ?thesis using s' 3 by (auto simp: raw_update_def raw_step_ok_def)
  qed
qed

interpretation raw_contract: ending_player raw_update raw_rewind raw_ok raw_left
proof unfold_locales
  fix s :: "'a raw_player_scheme" and n es go s'
  show "raw_ok s \<Longrightarrow> \<exists>go s'. raw_update s = Some (go, s') \<and> raw_ok s'"
    using raw_update_ok by blast
  show "raw_ok s \<Longrightarrow> \<exists>s'. raw_rewind n s = Some s' \<and> raw_ok s'"
    by (simp add: raw_rewind_def raw_ok_def opl_calls)
  show "raw_ok (s\<lparr>opl_out := es\<rparr>) = raw_ok s" by (simp add: raw_ok_def)
  show "raw_ok s \<Longrightarrow> raw_update s = Some (go, s') \<Longrightarrow> \<exists>es. opl_out s' = opl_out s @ es"
    using raw_update_ok [of s] by auto
  show "raw_ok s \<Longrightarrow> raw_update s = Some (True, s') \<Longrightarrow> raw_left s' < raw_left s"
    using raw_update_ok [of s] by auto
qed

section \<open>Properties\<close>

lemma length_raw_read_data: "length (fst (raw_read_data io n tagdata desc f)) = n"
  by (induction n arbitrary: tagdata desc f) (simp_all add: Let_def case_prod_beta)

lemma raw_read_tags_same:
  "raw_data (raw_read_tags io f s) = raw_data s" "raw_length (raw_read_tags io f s) = raw_length s"
  by (simp_all add: raw_read_tags_def raw_desc_section_def Let_def case_prod_beta)

lemma raw_load_loaded:
  "\<exists>b s'. raw_load io opn mem filename s = Some (b, s') \<and> (b \<longrightarrow> raw_ok s' \<and> raw_pos s' = 0)"
proof (cases "opn filename")
  case None
  then show ?thesis by (auto simp: raw_load_def)
next
  case (Some f)
  obtain k hdr f1 where h: "bio_readString io 8 (fresh mem 8) f = (k, hdr, f1)" by (metis surj_pair)
  obtain c f2 where c: "read_u16 io f1 = (c, f2)" by (metis surj_pair)
  obtain z f3 where z: "fp_filesize io f2 = (z, f3)" by (metis surj_pair)
  obtain ds t d f4 where ds: "raw_read_data io ((z - 10) div 2) False ((raw_desc s)[0 := 0]) f3 =
      (ds, t, d, f4)" by (metis surj_pair)
  have "length ds = (z - 10) div 2" using length_raw_read_data [of io "(z - 10) div 2" False] ds
    by (metis fst_conv)
  then show ?thesis
    using Some h c z ds
    by (cases "hdr = bytes_of ''RAWADATA''"; cases "z \<le> 10")
       (simp_all add: raw_load_def raw_rewind_def Let_def opl_calls raw_ok_def raw_read_tags_same
          ex_bool_eq)
qed

text \<open>\<open>CrawPlayer::load\<close> returns on every stream, and a file it accepts plays safely to its
  end: \<open>update\<close> never reads outside the buffer, after finitely many ticks it reports the end, and
  \<open>songlength\<close> returns and leaves the real chip alone.\<close>

theorem raw_load_playable:
  "\<exists>b s'. raw_load io opn mem filename s = Some (b, s') \<and>
     (b \<longrightarrow> (\<exists>n s1 s2. play raw_update n s' = Some s1 \<and> raw_update s1 = Some (False, s2)) \<and>
            (\<exists>len t. songlength raw_update raw_rewind refresh fl subsong s' = Some (len, t) \<and>
               opl_out t = opl_out s'))"
  using raw_load_loaded [of io opn mem filename s] raw_contract.reaches_end
    raw_contract.songlength_returns [of _ refresh fl subsong] by metis

section \<open>Witnesses\<close>

definition raw_sample :: "raw_tdata list \<Rightarrow> raw_player" where
  "raw_sample ds =
     \<lparr>opl_out = [], raw_data = ds, raw_pos = 0, raw_length = length ds, raw_clock = 0xffff,
      raw_speed = 0xffff, raw_del = 0, raw_songend = False, raw_title = [0], raw_author = [0],
      raw_desc = [0]\<rparr>"

lemma raw_load_playable_witness:
  "\<exists>b s'. raw_load memio (\<lambda>_. Some (mem_file (bytes_of ''RAWADATA'' @ [0xff, 0xff, 1, 0x20, 0xff, 0xff])))
      (\<lambda>_. 0) ''a.raw'' (raw_sample []) = Some (b, s') \<and>
    (b \<longrightarrow> (\<exists>n s1 s2. play raw_update n s' = Some s1 \<and> raw_update s1 = Some (False, s2)) \<and>
           (\<exists>len t. songlength raw_update raw_rewind raw_divisor
               \<lparr>f_zero = 0, f_below = (<), f_tick = (\<lambda>n d. n + nat d), f_ulong = (\<lambda>n. n)\<rparr> 0 s' = Some (len, t) \<and>
             opl_out t = opl_out s'))"
  by (rule raw_load_playable)

end
