(* ===== verification/Diskopl.thy ===== *)
theory Diskopl
  imports Player
begin

text \<open>
  \<open>src/diskopl.cpp\<close>: the chip that records what it is told into a RAW file. The file is the list
  of bytes written so far; \<open>unsigned short\<close>s are written in the byte order of a little-endian
  host. The two \<open>float\<close> expressions of \<open>update\<close> are the parameters \<open>wait_of\<close>
  (\<open>18.2f / rate\<close>) and \<open>clock_of\<close> (\<open>1192737 / (rate * (wait + 1))\<close>).
\<close>

record 'f diskopl = copl +
  dk_file :: "u8 list"
  dk_old_freq :: "'f"
  dk_del :: u8
  dk_nowrite :: bool

definition fputc :: "int \<Rightarrow> 'f diskopl \<Rightarrow> 'f diskopl" where
  "fputc c s = s\<lparr>dk_file := dk_file s @ [to_u8 c]\<rparr>"

definition fwrite16 :: "u16 \<Rightarrow> 'f diskopl \<Rightarrow> 'f diskopl" where
  "fwrite16 w s = s\<lparr>dk_file := dk_file s @ [ucast w, ucast (drop_bit 8 w)]\<rparr>"

definition raw_signature :: "u8 list" where
  "raw_signature = [0x52, 0x41, 0x57, 0x41, 0x44, 0x41, 0x54, 0x41]"

definition new_diskopl :: "'f \<Rightarrow> 'f diskopl" where
  "new_diskopl zero =
     fwrite16 0xffff
       \<lparr>currChip = 0, currType = TYPE_OPL3, dk_file = raw_signature, dk_old_freq = zero,
        dk_del = 1, dk_nowrite = False\<rparr>"

definition dk_update ::
  "('f \<Rightarrow> nat) \<Rightarrow> ('f \<Rightarrow> nat \<Rightarrow> u16) \<Rightarrow> 'f \<Rightarrow> 'f diskopl \<Rightarrow> 'f diskopl" where
  "dk_update wait_of clock_of refresh s =
     (let s1 = (if refresh \<noteq> dk_old_freq s then
                  (let wait = wait_of refresh
                   in fwrite16 (clock_of refresh wait)
                        (fputc 2 (fputc 0
                          (s\<lparr>dk_old_freq := refresh, dk_del := of_nat wait\<rparr>))))
                else s)
      in if \<not> dk_nowrite s1 then fputc 0 (fputc (uint (dk_del s1) + 1) s1) else s1)"

definition dk_setchip :: "int \<Rightarrow> 'f diskopl \<Rightarrow> 'f diskopl" where
  "dk_setchip n s =
     (let s1 = copl_setchip n s
      in if \<not> dk_nowrite s1 then fputc 2 (fputc (int (currChip s1) + 1) s1) else s1)"

definition diskwrite :: "int \<Rightarrow> int \<Rightarrow> 'f diskopl \<Rightarrow> 'f diskopl" where
  "diskwrite reg val s = fputc reg (fputc val s)"

definition dk_write :: "int \<Rightarrow> int \<Rightarrow> 'f diskopl \<Rightarrow> 'f diskopl" where
  "dk_write reg val s = (if \<not> dk_nowrite s then diskwrite reg val s else s)"

definition dk_init :: "'f diskopl \<Rightarrow> 'f diskopl option" where
  "dk_init s = do {
     s1 \<leftarrow> ofold (\<lambda>i s. do {
             op \<leftarrow> rd op_table i;
             Some (diskwrite (0x80 + op) 0xff (diskwrite (0xb0 + int i) 0 s))
           }) [0..<9] s;
     Some (diskwrite 0xbd 0 s1)
   }"

end
