(* ===== verification/Capture.thy ===== *)
theory Capture
  imports Raw Diskopl
begin

text \<open>
  Recording and replaying: what \<open>CDiskopl\<close> writes for one tick of any player,
  \<open>CrawPlayer::update\<close> plays back event by event.
\<close>

section \<open>One tick of a player, as the chip sees it\<close>

fun dk_call :: "opl_event \<Rightarrow> 'f diskopl \<Rightarrow> 'f diskopl" where
  "dk_call (OplWrite reg val) s = dk_write reg val s"
| "dk_call (OplSetchip n) s = dk_setchip n s"
| "dk_call OplInit s = (case dk_init s of Some s' \<Rightarrow> s' | None \<Rightarrow> s)"

text \<open>
  The events the file format can express: registers 0, 2 and 255 are its own commands, and a
  pair holds bytes.
\<close>

fun recordable :: "opl_event \<Rightarrow> bool" where
  "recordable (OplWrite reg val) \<longleftrightarrow>
     0 < reg \<and> reg < 255 \<and> reg \<noteq> 2 \<and> 0 \<le> val \<and> val < 256"
| "recordable (OplSetchip n) \<longleftrightarrow> 0 \<le> n \<and> n < 2"
| "recordable OplInit \<longleftrightarrow> False"

text \<open>How \<open>CrawPlayer::load\<close> cuts the bytes after the header into pairs.\<close>

fun raw_pairs :: "u8 list \<Rightarrow> raw_tdata list" where
  "raw_pairs (p # c # bs) = \<lparr>rt_param = p, rt_command = c\<rparr> # raw_pairs bs"
| "raw_pairs _ = []"

fun event_bytes :: "opl_event \<Rightarrow> u8 list" where
  "event_bytes (OplWrite reg val) = [to_u8 val, to_u8 reg]"
| "event_bytes (OplSetchip n) = [to_u8 (n + 1), 2]"
| "event_bytes OplInit = []"

lemma dk_call_bytes:
  "recordable e \<Longrightarrow> \<not> dk_nowrite d \<Longrightarrow>
   dk_file (dk_call e d) = dk_file d @ event_bytes e \<and> \<not> dk_nowrite (dk_call e d) \<and>
   dk_old_freq (dk_call e d) = dk_old_freq d \<and> dk_del (dk_call e d) = dk_del d"
  by (cases e)
     (auto simp: dk_write_def diskwrite_def fputc_def dk_setchip_def copl_setchip_def Let_def add.commute)

lemma dk_calls_bytes:
  "list_all recordable es \<Longrightarrow> \<not> dk_nowrite d \<Longrightarrow>
   dk_file (fold dk_call es d) = dk_file d @ concat (map event_bytes es) \<and>
   \<not> dk_nowrite (fold dk_call es d) \<and> dk_old_freq (fold dk_call es d) = dk_old_freq d \<and>
   dk_del (fold dk_call es d) = dk_del d"
proof (induction es arbitrary: d)
  case Nil
  then show ?case by simp
next
  case (Cons e es)
  then have "recordable e" by simp
  note one = dk_call_bytes [OF this Cons.prems(2)]
  have "list_all recordable es" "\<not> dk_nowrite (dk_call e d)" using Cons.prems(1) one by simp_all
  from Cons.IH [OF this] one show ?case by simp
qed

section \<open>Replaying\<close>

lemma raw_pairs_event: "e \<noteq> OplInit \<Longrightarrow> raw_pairs (event_bytes e @ bs) = raw_pairs (event_bytes e) @ raw_pairs bs"
  by (cases e) simp_all

lemma length_event_pairs: "e \<noteq> OplInit \<Longrightarrow> length (raw_pairs (event_bytes e)) = 1"
  by (cases e) simp_all

text \<open>At a position where the data continue with the pair of an event, the loop plays it.\<close>

lemma raw_loop_event:
  assumes ok: "raw_ok s" and e: "recordable e"
    and data: "raw_data s = pre @ raw_pairs (event_bytes e) @ post" and pos: "raw_pos s = length pre"
  shows "raw_loop s = raw_loop (s\<lparr>opl_out := opl_out s @ [e], raw_pos := length pre + 1\<rparr>)"
proof -
  have ne: "e \<noteq> OplInit" using e by auto
  then have len: "raw_pos s < raw_length s"
    using ok data pos length_event_pairs [OF ne] by (simp add: raw_ok_def)
  have d: "rd (raw_data s) (raw_pos s) = Some (hd (raw_pairs (event_bytes e)))"
    using data pos ne by (cases e) (simp_all add: rd_def)
  show ?thesis
  proof (cases e)
    case (OplWrite reg val)
    have "uint (to_u8 reg) = reg" "uint (to_u8 val) = val"
      using e OplWrite by (simp_all add: uint_word_of_int)
    then show ?thesis
      using d len pos e OplWrite
      by (subst raw_loop.simps) (simp add: Let_def opl_calls)
  next
    case (OplSetchip n)
    have "uint (to_u8 (n + 1)) = n + 1"
      using e OplSetchip by (simp add: uint_word_of_int del: of_int_add)
    then have "uint (to_u8 n + 1) = n + 1" by simp
    then show ?thesis
      using d len pos e OplSetchip
      by (subst raw_loop.simps) (simp add: Let_def opl_calls)
  next
    case OplInit
    then show ?thesis using ne by simp
  qed
qed

lemma raw_loop_events:
  assumes "raw_ok s" "list_all recordable es"
    and "raw_data s = pre @ raw_pairs (concat (map event_bytes es)) @ post"
    and "raw_pos s = length pre"
  shows "raw_loop s = raw_loop (s\<lparr>opl_out := opl_out s @ es, raw_pos := length pre + length es\<rparr>)"
  using assms
proof (induction es arbitrary: s pre)
  case Nil
  then show ?case by (simp flip: Nil.prems(4))
next
  case (Cons e es)
  then have e: "recordable e" and ne: "e \<noteq> OplInit" by auto
  let ?p = "raw_pairs (event_bytes e)"
  let ?t = "s\<lparr>opl_out := opl_out s @ [e], raw_pos := length pre + 1\<rparr>"
  have data: "raw_data s = pre @ ?p @ raw_pairs (concat (map event_bytes es)) @ post"
    using Cons.prems(3) raw_pairs_event [OF ne] by simp
  have "raw_loop s = raw_loop ?t"
    by (rule raw_loop_event [OF Cons.prems(1) e data Cons.prems(4)])
  also have "\<dots> = raw_loop (?t\<lparr>opl_out := opl_out ?t @ es, raw_pos := length (pre @ ?p) + length es\<rparr>)"
    by (rule Cons.IH)
       (use Cons.prems data length_event_pairs [OF ne] raw_pairs_event [OF ne] in
         \<open>simp_all add: raw_ok_def\<close>)
  finally show ?case using length_event_pairs [OF ne] by simp
qed

lemma raw_pairs_events_append:
  "list_all recordable es \<Longrightarrow>
   raw_pairs (concat (map event_bytes es) @ bs) = raw_pairs (concat (map event_bytes es)) @ raw_pairs bs"
proof (induction es)
  case Nil
  then show ?case by simp
next
  case (Cons e es)
  then have "e \<noteq> OplInit" by auto
  then show ?case using Cons raw_pairs_event [of e] by simp
qed

lemma length_raw_pairs_events:
  "list_all recordable es \<Longrightarrow> length (raw_pairs (concat (map event_bytes es))) = length es"
proof (induction es)
  case Nil
  then show ?case by simp
next
  case (Cons e es)
  then have "e \<noteq> OplInit" by auto
  then show ?case using Cons raw_pairs_event [of e] length_event_pairs [of e] by simp
qed

text \<open>The pairs a tick appends after its events: a new clock if the rate changed, then the delay.\<close>

definition tick_bytes :: "bool \<Rightarrow> u16 \<Rightarrow> u8 \<Rightarrow> u8 list" where
  "tick_bytes changed clk del =
     (if changed then [0, 2, ucast clk, ucast (drop_bit 8 clk)] else []) @ [del + 1, 0]"

lemma dk_update_bytes:
  fixes d :: "'f diskopl" and refresh :: "'f" and wait_of clock_of
  assumes "\<not> dk_nowrite d"
  defines "changed \<equiv> refresh \<noteq> dk_old_freq d"
  defines "d' \<equiv> dk_update wait_of clock_of refresh d"
  shows "dk_file d' = dk_file d @ tick_bytes changed (clock_of refresh (wait_of refresh)) (dk_del d')"
    and "dk_del d' = (if changed then of_nat (wait_of refresh) else dk_del d)"
  using assms
  by (simp_all add: dk_update_def fputc_def fwrite16_def tick_bytes_def Let_def)

lemma bytes_of_u16:
  "uint (ucast (w :: u16) :: u8) + push_bit 8 (uint (ucast (drop_bit 8 w) :: u8)) = uint w"
proof -
  have lo: "uint (ucast w :: u8) = uint w mod 256"
    by (simp add: unsigned_ucast_eq unsigned_take_bit_eq take_bit_eq_mod)
  have "uint w < 65536" using uint_lt2p [of w] by simp
  then have "uint w div 256 < 256" by linarith
  moreover have "0 \<le> uint w div 256" by (simp add: pos_imp_zdiv_nonneg_iff)
  ultimately have "uint w div 256 mod 256 = uint w div 256" by (intro mod_pos_pos_trivial)
  moreover have "uint (drop_bit 8 w) = uint w div 256"
    by transfer (simp add: drop_bit_eq_div take_bit_eq_mod)
  ultimately have hi: "uint (ucast (drop_bit 8 w) :: u8) = uint w div 256"
    by (simp only: unsigned_ucast_eq take_bit_eq_mod) simp
  show ?thesis by (simp add: lo hi push_bit_eq_mult)
qed

text \<open>Playing what the tick appended after its events.\<close>

lemma raw_loop_tick:
  assumes ok: "raw_ok s"
    and data: "raw_data s = pre @ raw_pairs (tick_bytes changed clk del) @ post"
    and pos: "raw_pos s = length pre"
  shows "raw_loop s =
    Some (\<not> raw_songend s,
      s\<lparr>raw_del := del, raw_speed := (if changed then clk else raw_speed s),
        raw_pos := length pre + length (raw_pairs (tick_bytes changed clk del))\<rparr>)"
proof -
  have del: "to_u8 (uint (del + 1) - 1) = del" by simp
  show ?thesis
  proof (cases changed)
    case False
    have len: "raw_pos s < raw_length s"
      and d: "rd (raw_data s) (raw_pos s) = Some \<lparr>rt_param = del + 1, rt_command = 0\<rparr>"
      using ok data pos False by (simp_all add: raw_ok_def rd_def tick_bytes_def)
    show ?thesis
      using len d pos False del
      by (subst raw_loop.simps) (simp add: Let_def tick_bytes_def)
  next
    case True
    let ?t = "s\<lparr>raw_speed := clk, raw_pos := length pre + 2\<rparr>"
    have len: "raw_pos s < raw_length s" "raw_pos s + 1 < raw_length s"
      and d: "rd (raw_data s) (raw_pos s) = Some \<lparr>rt_param = 0, rt_command = 2\<rparr>"
        "rd (raw_data s) (Suc (raw_pos s)) =
           Some \<lparr>rt_param = ucast clk, rt_command = ucast (drop_bit 8 clk)\<rparr>"
      using ok data pos True by (simp_all add: raw_ok_def rd_def tick_bytes_def nth_append)
    have clk: "to_u16 (uint (ucast clk :: u8) + push_bit 8 (uint (ucast (drop_bit 8 clk) :: u8))) = clk"
      unfolding bytes_of_u16 by simp
    have "raw_loop s = raw_loop ?t"
      using len d pos clk
      by (subst raw_loop.simps) (simp add: Let_def del: of_int_add)
    moreover have "rd (raw_data ?t) (raw_pos ?t) = Some \<lparr>rt_param = del + 1, rt_command = 0\<rparr>"
      "raw_pos ?t < raw_length ?t"
      using ok data pos True by (simp_all add: raw_ok_def rd_def tick_bytes_def nth_append)
    ultimately show ?thesis
      using pos True del
      by (simp, subst raw_loop.simps) (simp add: Let_def tick_bytes_def)
  qed
qed


text \<open>Both together: what one tick appends to the recording, the replayer plays back.\<close>

lemma replay_tick:
  fixes d :: "'f diskopl" and refresh :: "'f" and wait_of clock_of
  assumes ok: "raw_ok s" and idle: "raw_del s = 0"
    and evs: "list_all recordable es" and on: "\<not> dk_nowrite d"
  defines "d' \<equiv> dk_update wait_of clock_of refresh (fold dk_call es d)"
  defines "recorded \<equiv> raw_pairs (drop (length (dk_file d)) (dk_file d'))"
  assumes data: "raw_data s = pre @ recorded @ post" and pos: "raw_pos s = length pre"
  shows "\<exists>s'. raw_update s = Some (\<not> raw_songend s, s') \<and>
           opl_out s' = opl_out s @ es \<and> raw_del s' = dk_del d' \<and>
           raw_pos s' = length (pre @ recorded) \<and> raw_data s' = raw_data s \<and>
           raw_songend s' = raw_songend s \<and> raw_ok s' \<and>
           raw_speed s' = (if refresh \<noteq> dk_old_freq d
                           then clock_of refresh (wait_of refresh) else raw_speed s)"
proof -
  let ?changed = "refresh \<noteq> dk_old_freq d" and ?clk = "clock_of refresh (wait_of refresh)"
  let ?tick = "tick_bytes ?changed ?clk (dk_del d')"
  let ?evp = "raw_pairs (concat (map event_bytes es))"
  note calls = dk_calls_bytes [OF evs on]
  have "dk_file d' = dk_file d @ concat (map event_bytes es) @ ?tick"
    using dk_update_bytes(1) [of "fold dk_call es d" wait_of clock_of refresh] calls
    by (simp add: d'_def)
  then have recorded: "recorded = ?evp @ raw_pairs ?tick"
    using raw_pairs_events_append [OF evs] by (simp add: recorded_def)
  let ?s1 = "s\<lparr>opl_out := opl_out s @ es, raw_pos := length pre + length es\<rparr>"
  have "raw_loop s = raw_loop ?s1"
    by (rule raw_loop_events [OF ok evs _ pos, of "raw_pairs ?tick @ post"])
       (simp add: data recorded)
  moreover have "raw_loop ?s1 = Some (\<not> raw_songend ?s1,
      ?s1\<lparr>raw_del := dk_del d', raw_speed := (if ?changed then ?clk else raw_speed ?s1),
        raw_pos := length (pre @ ?evp) + length (raw_pairs ?tick)\<rparr>)"
    by (rule raw_loop_tick)
       (use ok data recorded length_raw_pairs_events [OF evs] in \<open>simp_all add: raw_ok_def\<close>)
  moreover have "raw_pos s < raw_length s"
    using ok data pos recorded by (simp add: raw_ok_def tick_bytes_def split: if_splits)
  ultimately show ?thesis
    using idle recorded ok by (simp add: raw_update_def raw_ok_def)
qed

text \<open>C10: what the recording chip writes for one tick of a player, the replayer plays back in one
\<open>update\<close>: every register write and chip change in order, then the delay and, when the refresh rate
changed, the new clock speed. It holds for the events the file format can express.\<close>

theorem recording_replays:
  fixes d :: "'f diskopl" and refresh :: "'f" and wait_of clock_of
  assumes "raw_ok s" "raw_del s = 0" "list_all recordable es" "\<not> dk_nowrite d"
    and "d' = dk_update wait_of clock_of refresh (fold dk_call es d)"
    and "recorded = raw_pairs (drop (length (dk_file d)) (dk_file d'))"
    and "raw_data s = pre @ recorded @ post" "raw_pos s = length pre"
  shows "\<exists>s'. raw_update s = Some (\<not> raw_songend s, s') \<and>
           opl_out s' = opl_out s @ es \<and> raw_del s' = dk_del d' \<and>
           raw_pos s' = length (pre @ recorded) \<and> raw_data s' = raw_data s \<and>
           raw_songend s' = raw_songend s \<and> raw_ok s' \<and>
           raw_speed s' = (if refresh \<noteq> dk_old_freq d
                           then clock_of refresh (wait_of refresh) else raw_speed s)"
  unfolding assms(5,6)
  by (rule replay_tick [OF assms(1-4) _ assms(8)]) (use assms(5-7) in simp)

lemma recording_replays_witness:
  "\<exists>s'. raw_update (raw_sample [\<lparr>rt_param = 9, rt_command = 0x20\<rparr>, \<lparr>rt_param = 2, rt_command = 2\<rparr>,
           \<lparr>rt_param = 0, rt_command = 2\<rparr>, \<lparr>rt_param = 0x34, rt_command = 0x12\<rparr>,
           \<lparr>rt_param = 4, rt_command = 0\<rparr>]) = Some (True, s') \<and>
     opl_out s' = [OplWrite 0x20 9, OplSetchip 1] \<and> raw_del s' = 3 \<and> raw_speed s' = 0x1234"
proof -
  let ?es = "[OplWrite 0x20 9, OplSetchip 1]" and ?d = "new_diskopl (0 :: nat)"
  let ?d' = "dk_update (\<lambda>_. 3) (\<lambda>_ _. 0x1234) 70 (fold dk_call ?es ?d)"
  let ?ds = "[\<lparr>rt_param = 9, rt_command = 0x20\<rparr>, \<lparr>rt_param = 2, rt_command = 2\<rparr>,
           \<lparr>rt_param = 0, rt_command = 2\<rparr>, \<lparr>rt_param = 0x34, rt_command = 0x12\<rparr>,
           \<lparr>rt_param = 4, rt_command = 0\<rparr>]"
  have fbytes: "dk_file ?d' = dk_file ?d @ [9, 0x20, 2, 2, 0, 2, 0x34, 0x12, 4, 0]"
    and del: "dk_del ?d' = 3" and on: "\<not> dk_nowrite ?d" "dk_old_freq ?d = 0"
    by (simp_all add: dk_update_def dk_write_def diskwrite_def dk_setchip_def copl_setchip_def
        fputc_def fwrite16_def new_diskopl_def Let_def)
  then have rec: "?ds = raw_pairs (drop (length (dk_file ?d)) (dk_file ?d'))" by simp
  show ?thesis
    using recording_replays [OF _ _ _ on(1) refl rec, of "raw_sample ?ds" "[]" "[]"] del on(2)
    by (auto simp: raw_sample_def raw_ok_def)
qed

end
