(* ===== verification/Players.thy ===== *)
theory Players
  imports Binio
begin

text \<open>
  \<open>src/players.cpp\<close> and the player table and the factory of \<open>src/adplug.cpp\<close>. A
  \<open>CPlayerDesc\<close> keeps its file extensions in one block of characters, each followed by a NUL
  and the last by one more. Pointers into the block are offsets; reading outside it is \<open>None\<close>.
  The player classes themselves enter the factory as functions that create, load and delete
  a player and that may change the state \<open>'w\<close> of the chip and of the file system.
\<close>

abbreviation NUL :: char where "NUL \<equiv> CHR 0x00"

fun strlen :: "string \<Rightarrow> nat option" where
  "strlen [] = None"
| "strlen (c # cs) = (if c = NUL then Some 0 else map_option Suc (strlen cs))"

record 'f cplayerdesc =
  pd_factory :: "'f option"
  pd_filetype :: string
  pd_extensions :: "string option"
  pd_extlength :: nat

definition empty_desc :: "'f cplayerdesc" where
  "empty_desc = \<lparr>pd_factory = None, pd_filetype = [], pd_extensions = None, pd_extlength = 0\<rparr>"

text \<open>The copy constructor: a block of its own with the same contents.\<close>

definition copy_desc :: "'f cplayerdesc \<Rightarrow> 'f cplayerdesc option" where
  "copy_desc pd =
     (case pd_extensions pd of
        None \<Rightarrow> Some (pd\<lparr>pd_extensions := None\<rparr>)
      | Some b \<Rightarrow> if pd_extlength pd \<le> length b
                  then Some (pd\<lparr>pd_extensions := Some (take (pd_extlength pd) b)\<rparr>) else None)"

text \<open>The loop of the constructor: \<open>i\<close> walks from string to string up to the empty one.\<close>

function list_end :: "string \<Rightarrow> nat \<Rightarrow> nat option" where
  "list_end ext i =
     (if i < length ext then
        (if ext ! i = NUL then Some i
         else case strlen (drop i ext) of None \<Rightarrow> None | Some n \<Rightarrow> list_end ext (i + n + 1))
      else None)"
  by pat_completeness auto
termination by (relation "measure (\<lambda>(ext, i). length ext - i)") auto

declare list_end.simps [simp del]

definition new_desc :: "'f option \<Rightarrow> string \<Rightarrow> string \<Rightarrow> 'f cplayerdesc option" where
  "new_desc f type ext = do {
     i \<leftarrow> list_end ext 0;
     let extlength = i + 1;
     Some \<lparr>pd_factory = f, pd_filetype = type, pd_extensions = Some (take extlength ext),
           pd_extlength = extlength\<rparr>
   }"

text \<open>
  \<open>add_extension\<close>: the block grows, the new string and its NUL overwrite the final NUL, and a
  new one ends the block. On a descriptor without a block the offset \<open>extlength - 1\<close> is
  negative.
\<close>

definition add_extension :: "string \<Rightarrow> 'f cplayerdesc \<Rightarrow> 'f cplayerdesc option" where
  "add_extension ext pd = do {
     n \<leftarrow> strlen (ext @ [NUL]);
     let newlength = pd_extlength pd + n + 1;
     b \<leftarrow> pd_extensions pd;
     require (0 < pd_extlength pd \<and> pd_extlength pd \<le> length b);
     let b1 = take (pd_extlength pd - 1) b @ take n ext @ [NUL];
     Some (pd\<lparr>pd_extensions := Some (b1 @ [NUL]), pd_extlength := newlength\<rparr>)
   }"

text \<open>\<open>get_extension\<close>: the string at the returned pointer, \<open>Some None\<close> for the null pointer.\<close>

fun skip_strings :: "string \<Rightarrow> nat \<Rightarrow> nat \<Rightarrow> nat option" where
  "skip_strings b i 0 = Some i"
| "skip_strings b i (Suc n) = do {
     c \<leftarrow> rd b i;
     if c = NUL then Some i
     else do { k \<leftarrow> strlen (drop i b); skip_strings b (i + k + 1) n }
   }"

definition get_extension :: "nat \<Rightarrow> 'f cplayerdesc \<Rightarrow> string option option" where
  "get_extension n pd = do {
     b \<leftarrow> pd_extensions pd;
     i \<leftarrow> skip_strings b 0 n;
     c \<leftarrow> rd b i;
     if c = NUL then Some None
     else do { k \<leftarrow> strlen (drop i b); Some (Some (take k (drop i b))) }
   }"

section \<open>CPlayers: looking a descriptor up\<close>

fun lookup_filetype :: "string \<Rightarrow> 'f cplayerdesc list \<Rightarrow> 'f cplayerdesc option" where
  "lookup_filetype ftype [] = None"
| "lookup_filetype ftype (pd # pl) =
     (if pd_filetype pd = ftype then Some pd else lookup_filetype ftype pl)"

partial_function (option) has_extension :: "string \<Rightarrow> 'f cplayerdesc \<Rightarrow> nat \<Rightarrow> bool option" where
  "has_extension extension pd j = do {
     e \<leftarrow> get_extension j pd;
     (case e of None \<Rightarrow> Some False
      | Some x \<Rightarrow> if stricmp_eq (c_str extension) x then Some True
                  else has_extension extension pd (j + 1))
   }"

fun lookup_extension ::
  "string \<Rightarrow> 'f cplayerdesc list \<Rightarrow> 'f cplayerdesc option option" where
  "lookup_extension extension [] = Some None"
| "lookup_extension extension (pd # pl) = do {
     hit \<leftarrow> has_extension extension pd 0;
     if hit then Some (Some pd) else lookup_extension extension pl
   }"

section \<open>CAdPlug: the table of players\<close>

text \<open>The characters of a literal such as \<open>".imf\0.wlf\0"\<close>, its terminator included.\<close>

definition ext_image :: "string list \<Rightarrow> string" where
  "ext_image es = concat (map (\<lambda>e. e @ [NUL]) es) @ [NUL]"

definition player_table :: "(string \<times> string \<times> string list) list" where
  "player_table =
    [(''ChscPlayer'', ''HSC-Tracker'', [''.hsc'']),
     (''CsngPlayer'', ''SNGPlay'', [''.sng'']),
     (''CimfPlayer'', ''Apogee IMF'', [''.imf'', ''.wlf'', ''.adlib'']),
     (''Ca2mLoader'', ''Adlib Tracker 2'', [''.a2m'']),
     (''Ca2mv2Player'', ''Adlib Tracker 2'', [''.a2m'', ''.a2t'']),
     (''CadtrackLoader'', ''Adlib Tracker'', [''.sng'']),
     (''CamdLoader'', ''AMUSIC'', [''.amd'']),
     (''CamdLoader'', ''XMS-Tracker'', [''.xms'']),
     (''CbamPlayer'', ''Bob's Adlib Music'', [''.bam'']),
     (''CcmfPlayer'', ''Creative Music File'', [''.cmf'']),
     (''CcoktelPlayer'', ''Coktel Vision Adlib Music'', [''.adl'']),
     (''Cd00Player'', ''Packed EdLib'', [''.d00'']),
     (''CdfmLoader'', ''Digital-FM'', [''.dfm'']),
     (''ChspLoader'', ''HSC Packed'', [''.hsp'']),
     (''CksmPlayer'', ''Ken Silverman Music'', [''.ksm'']),
     (''CmadLoader'', ''Mlat Adlib Tracker'', [''.mad'']),
     (''CmusPlayer'', ''AdLib MIDI/IMS Format'', [''.mus'', ''.mdy'', ''.ims'']),
     (''CmdiPlayer'', ''AdLib MIDIPlay File'', [''.mdi'']),
     (''CmidPlayer'', ''MIDI'', [''.mid'', ''.sci'', ''.laa'']),
     (''CmkjPlayer'', ''MKJamz'', [''.mkj'']),
     (''CcffLoader'', ''Boomtracker'', [''.cff'']),
     (''CdmoLoader'', ''TwinTeam'', [''.dmo'']),
     (''Cs3mPlayer'', ''Scream Tracker 3'', [''.s3m'']),
     (''CdtmLoader'', ''DeFy Adlib Tracker'', [''.dtm'']),
     (''CfmcLoader'', ''Faust Music Creator'', [''.sng'']),
     (''CmtkLoader'', ''MPU-401 Trakker'', [''.mtk'']),
     (''CmtrLoader'', ''Master Tracker'', [''.mtr'']),
     (''Crad2Player'', ''Reality Adlib Tracker'', [''.rad'']),
     (''CrawPlayer'', ''Raw AdLib Capture'', [''.rac'', ''.raw'']),
     (''Csa2Loader'', ''Surprise! Adlib Tracker'', [''.sat'', ''.sa2'']),
     (''CxadbmfPlayer'', ''BMF Adlib Tracker'', [''.xad'', ''.bmf'']),
     (''CxadflashPlayer'', ''Flash'', [''.xad'']),
     (''CxadhybridPlayer'', ''Hybrid'', [''.xad'']),
     (''CxadhypPlayer'', ''Hypnosis'', [''.xad'']),
     (''CxadpsiPlayer'', ''PSI'', [''.xad'']),
     (''CxadratPlayer'', ''rat'', [''.xad'']),
     (''CldsPlayer'', ''LOUDNESS Sound System'', [''.lds'']),
     (''CplxPlayer'', ''PALLADIX Sound System'', [''.plx'']),
     (''Cu6mPlayer'', ''Ultima 6 Music'', [''.m'']),
     (''CrolPlayer'', ''Adlib Visual Composer'', [''.rol'']),
     (''CxmiPlayer'', ''Miles Design eXtended MIDI'', [''.xmi'']),
     (''CxsmPlayer'', ''eXtra Simple Music'', [''.xsm'']),
     (''CdroPlayer'', ''DOSBox Raw OPL v0/v1.0'', [''.dro'']),
     (''Cdro2Player'', ''DOSBox Raw OPL v2.0'', [''.dro'']),
     (''CpisPlayer'', ''Beni Tracker PIS Player'', [''.pis'']),
     (''CmscPlayer'', ''Adlib MSC Player'', [''.msc'']),
     (''CrixPlayer'', ''Softstar RIX OPL Music'', [''.rix'', ''.mkf'']),
     (''CadlPlayer'', ''Westwood ADL'', [''.adl'']),
     (''CjbmPlayer'', ''JBM Adlib Music'', [''.jbm'']),
     (''CgotPlayer'', ''God of Thunder Music'', [''.got'']),
     (''CcmfmacsoperaPlayer'', ''SoundFX Macs Opera CMF'', [''.cmf'']),
     (''CvgmPlayer'', ''Video Game Music'', [''.vgm'', ''.vgz'']),
     (''CsopPlayer'', ''Note Sequencer by sopepos'', [''.sop'']),
     (''CheradPlayer'', ''Herbulot AdLib System'', [''.hsq'', ''.sqx'', ''.sdb'', ''.agd'', ''.ha2'']),
     (''CwmPlayer'', ''MusicV WM'', [''.wm'', ''.m'']),
     (''CfmkPlayer'', ''FM-Kingtracker'', [''.fmk''])]"

text \<open>The array \<open>allplayers\<close>, closed by the descriptor without a factory.\<close>

fun build_table ::
  "(string \<times> string \<times> string list) list \<Rightarrow> string cplayerdesc list option" where
  "build_table [] = Some [empty_desc]"
| "build_table ((f, type, es) # rows) = do {
     pd \<leftarrow> new_desc (Some f) type (ext_image es);
     pds \<leftarrow> build_table rows;
     Some (pd # pds)
   }"

definition allplayers :: "string cplayerdesc list option" where
  "allplayers = build_table player_table"

text \<open>\<open>init_players\<close>: the list of the descriptors before the first one without a factory.\<close>

fun init_players :: "'f cplayerdesc list \<Rightarrow> 'f cplayerdesc list option" where
  "init_players [] = None"
| "init_players (pd # pds) =
     (case pd_factory pd of
        None \<Rightarrow> Some []
      | Some _ \<Rightarrow> map_option (\<lambda>pl. pd # pl) (init_players pds))"

section \<open>CAdPlug::factory\<close>

text \<open>What the factory calls: the factory functions, \<open>load\<close> and \<open>delete\<close> of the players.\<close>

record ('f, 'p, 'w) player_ops =
  po_make :: "'f \<Rightarrow> 'w \<Rightarrow> 'p option \<times> 'w"
  po_load :: "'p \<Rightarrow> string \<Rightarrow> 'w \<Rightarrow> (bool \<times> 'p \<times> 'w) option"
  po_delete :: "'p \<Rightarrow> 'w \<Rightarrow> 'w"

definition try_player ::
  "('f, 'p, 'w) player_ops \<Rightarrow> string \<Rightarrow> 'f cplayerdesc \<Rightarrow> 'w \<Rightarrow> ('p option \<times> 'w) option" where
  "try_player ops fn pd w = do {
     f \<leftarrow> pd_factory pd;
     (case po_make ops f w of
        (None, w1) \<Rightarrow> Some (None, w1)
      | (Some p, w1) \<Rightarrow> do {
          (ok, p', w2) \<leftarrow> po_load ops p fn w1;
          if ok then Some (Some p', w2) else Some (None, po_delete ops p' w2)
        })
   }"

text \<open>The loop over the extensions of one descriptor.\<close>

partial_function (option) direct_hits ::
  "('f, 'p, 'w) player_ops \<Rightarrow> string \<Rightarrow> 'f cplayerdesc \<Rightarrow> nat \<Rightarrow> 'w \<Rightarrow> ('p option \<times> 'w) option" where
  "direct_hits ops fn pd j w = do {
     e \<leftarrow> get_extension j pd;
     (case e of None \<Rightarrow> Some (None, w)
      | Some x \<Rightarrow>
          if fp_extension fn x then do {
            (r, w1) \<leftarrow> try_player ops fn pd w;
            (case r of Some p \<Rightarrow> Some (Some p, w1)
             | None \<Rightarrow> direct_hits ops fn pd (j + 1) w1)
          }
          else direct_hits ops fn pd (j + 1) w)
   }"

fun direct_pass ::
  "('f, 'p, 'w) player_ops \<Rightarrow> string \<Rightarrow> 'f cplayerdesc list \<Rightarrow> 'w \<Rightarrow> ('p option \<times> 'w) option" where
  "direct_pass ops fn [] w = Some (None, w)"
| "direct_pass ops fn (pd # pl) w = do {
     (r, w1) \<leftarrow> direct_hits ops fn pd 0 w;
     (case r of Some p \<Rightarrow> Some (Some p, w1) | None \<Rightarrow> direct_pass ops fn pl w1)
   }"

fun try_all ::
  "('f, 'p, 'w) player_ops \<Rightarrow> string \<Rightarrow> 'f cplayerdesc list \<Rightarrow> 'w \<Rightarrow> ('p option \<times> 'w) option" where
  "try_all ops fn [] w = Some (None, w)"
| "try_all ops fn (pd # pl) w = do {
     (r, w1) \<leftarrow> try_player ops fn pd w;
     (case r of Some p \<Rightarrow> Some (Some p, w1) | None \<Rightarrow> try_all ops fn pl w1)
   }"

definition adplug_factory ::
  "('f, 'p, 'w) player_ops \<Rightarrow> string \<Rightarrow> 'f cplayerdesc list \<Rightarrow> 'w \<Rightarrow> ('p option \<times> 'w) option" where
  "adplug_factory ops fn pl w = do {
     (r, w1) \<leftarrow> direct_pass ops fn pl w;
     (case r of Some p \<Rightarrow> Some (Some p, w1) | None \<Rightarrow> try_all ops fn pl w1)
   }"

section \<open>The extension block\<close>

definition ext_string :: "string \<Rightarrow> bool" where
  "ext_string e \<longleftrightarrow> e \<noteq> [] \<and> NUL \<notin> set e"

text \<open>The descriptor holds exactly the extensions \<open>es\<close>.\<close>

definition desc_exts :: "'f cplayerdesc \<Rightarrow> string list \<Rightarrow> bool" where
  "desc_exts pd es \<longleftrightarrow>
     list_all ext_string es \<and> pd_extensions pd = Some (ext_image es) \<and>
     pd_extlength pd = length (ext_image es)"

lemma strlen_string: "NUL \<notin> set e \<Longrightarrow> strlen (e @ NUL # r) = Some (length e)"
  by (induction e) auto

lemma ext_image_Nil [simp]: "ext_image [] = [NUL]"
  by (simp add: ext_image_def)

lemma ext_image_Cons [simp]: "ext_image (e # es) = e @ NUL # ext_image es"
  by (simp add: ext_image_def)

lemma hd_ext_string: "ext_string e \<Longrightarrow> (e @ r) ! 0 \<noteq> NUL" "ext_string e \<Longrightarrow> e ! 0 \<noteq> NUL"
  by (auto simp: ext_string_def neq_Nil_conv)

lemma list_end_image:
  "list_all ext_string es \<Longrightarrow>
   list_end (p @ ext_image es @ r) (length p) = Some (length p + length (ext_image es) - 1)"
proof (induction es arbitrary: p)
  case Nil
  then show ?case by (subst list_end.simps) (simp add: nth_append)
next
  case (Cons e es)
  then have e: "ext_string e" "NUL \<notin> set e" by (simp_all add: ext_string_def)
  have "(p @ ext_image (e # es) @ r) ! length p \<noteq> NUL"
    using hd_ext_string(1) [OF e(1)] by (simp add: nth_append)
  moreover have "strlen (drop (length p) (p @ ext_image (e # es) @ r)) = Some (length e)"
    using strlen_string [OF e(2)] by simp
  ultimately show ?case
    using Cons.IH [of "p @ e @ [NUL]"] Cons.prems by (subst list_end.simps) simp
qed

lemma skip_strings_image:
  "list_all ext_string es \<Longrightarrow>
   skip_strings (p @ ext_image es) (length p) n =
     Some (length p + length (ext_image (take n es)) - 1)"
proof (induction n arbitrary: p es)
  case 0
  then show ?case by simp
next
  case (Suc n)
  show ?case
  proof (cases es)
    case Nil
    then show ?thesis by (simp add: rd_def nth_append)
  next
    case (Cons e es')
    then have e: "ext_string e" "list_all ext_string es'" using Suc.prems by simp_all
    then have "NUL \<notin> set e" by (simp add: ext_string_def)
    note e = e(1) this e(2)
    have "rd (p @ ext_image es) (length p) = Some (e ! 0)"
      using e(1) Cons by (cases e) (auto simp: rd_def nth_append ext_string_def)
    moreover have "strlen (drop (length p) (p @ ext_image es)) = Some (length e)"
      using strlen_string [OF e(2)] Cons by simp
    ultimately show ?thesis
      using Suc.IH [OF e(3), of "p @ e @ [NUL]"] hd_ext_string(2) [OF e(1)] Cons by simp
  qed
qed

lemma ext_image_split:
  "ext_image es = butlast (ext_image (take n es)) @ ext_image (drop n es)"
  by (simp add: ext_image_def butlast_append flip: concat_append map_append)

lemma get_extension_nth:
  assumes "desc_exts pd es"
  shows "get_extension n pd = Some (if n < length es then Some (es ! n) else None)"
proof -
  let ?p = "butlast (ext_image (take n es))"
  let ?b = "?p @ ext_image (drop n es)"
  have b: "pd_extensions pd = Some ?b" and es: "list_all ext_string es"
    using assms ext_image_split [of es n] by (simp_all add: desc_exts_def)
  have skip: "skip_strings ?b 0 n = Some (length ?p)"
    using skip_strings_image [OF es, of "[]" n] ext_image_split [of es n] by simp
  show ?thesis
  proof (cases "n < length es")
    case True
    then have d: "drop n es = es ! n # drop (Suc n) es" by (simp add: Cons_nth_drop_Suc)
    then have e: "ext_string (es ! n)" "NUL \<notin> set (es ! n)"
      using es True by (simp_all add: list_all_length ext_string_def)
    have "rd ?b (length ?p) = Some (es ! n ! 0)"
      using e(1) d by (cases "es ! n") (auto simp: rd_def nth_append ext_string_def)
    moreover have "strlen (drop (length ?p) ?b) = Some (length (es ! n))"
      using strlen_string [OF e(2)] d by simp
    ultimately show ?thesis
      using b skip hd_ext_string(2) [OF e(1)] True d by (simp add: get_extension_def)
  next
    case False
    then show ?thesis using b skip by (simp add: get_extension_def rd_def nth_append)
  qed
qed

lemma new_desc_exts:
  assumes "list_all ext_string es"
  shows "\<exists>pd. new_desc f type (ext_image es @ r) = Some pd \<and> desc_exts pd es \<and>
           pd_factory pd = f \<and> pd_filetype pd = type"
proof -
  have "0 < length (ext_image es)" by (simp add: ext_image_def)
  with list_end_image [OF assms, of "[]" r] assms show ?thesis
    by (simp add: new_desc_def desc_exts_def)
qed

lemma add_extension_exts:
  assumes pd: "desc_exts pd es" and e: "ext_string e"
  shows "\<exists>pd'. add_extension e pd = Some pd' \<and> desc_exts pd' (es @ [e])"
proof -
  have n: "strlen (e @ [NUL]) = Some (length e)" using strlen_string e by (simp add: ext_string_def)
  have im: "ext_image (es @ [e]) = butlast (ext_image es) @ e @ [NUL, NUL]"
    by (simp add: ext_image_def butlast_append)
  have pos: "0 < length (ext_image es)" by (simp add: ext_image_def)
  show ?thesis
    using pd e n pos unfolding desc_exts_def im
    by (auto simp: add_extension_def Let_def butlast_conv_take)
qed

section \<open>The factory as a search over a list of attempts\<close>

lemma has_extension_from:
  assumes "desc_exts pd es"
  shows "has_extension x pd j = Some (\<exists>e \<in> set (drop j es). stricmp_eq (c_str x) e)"
proof (induction "length es - j" arbitrary: j)
  case 0
  then show ?case
    using get_extension_nth [OF assms, of j] by (subst has_extension.simps) simp
next
  case (Suc k)
  then have j: "j < length es" "drop j es = es ! j # drop (Suc j) es"
    by (simp_all add: Cons_nth_drop_Suc)
  then show ?case
    using get_extension_nth [OF assms, of j] Suc.hyps(1) [of "Suc j"] Suc.hyps(2)
    by (subst has_extension.simps) auto
qed

lemma try_all_append:
  "try_all ops fn (xs @ ys) w = do {
     (r, w1) \<leftarrow> try_all ops fn xs w;
     (case r of Some p \<Rightarrow> Some (Some p, w1) | None \<Rightarrow> try_all ops fn ys w1)
   }"
  by (induction xs arbitrary: w) (auto split: option.splits Option.bind_splits)

definition hits :: "string \<Rightarrow> string list \<Rightarrow> 'f cplayerdesc \<Rightarrow> 'f cplayerdesc list" where
  "hits fn es pd = map (\<lambda>_. pd) (filter (fp_extension fn) es)"

lemma direct_hits_from:
  assumes "desc_exts pd es"
  shows "direct_hits ops fn pd j w = try_all ops fn (hits fn (drop j es) pd) w"
proof (induction "length es - j" arbitrary: j w)
  case 0
  then show ?case
    using get_extension_nth [OF assms, of j] by (subst direct_hits.simps) (simp add: hits_def)
next
  case (Suc k)
  then have j: "j < length es" "drop j es = es ! j # drop (Suc j) es"
    by (simp_all add: Cons_nth_drop_Suc)
  then have "direct_hits ops fn pd (j + 1) w' = try_all ops fn (hits fn (drop (Suc j) es) pd) w'" for w'
    using Suc.hyps(1) [of "Suc j" w'] Suc.hyps(2) by simp
  then show ?case
    using get_extension_nth [OF assms, of j] j
    by (subst direct_hits.simps) (auto simp: hits_def split: option.splits Option.bind_splits)
qed

text \<open>The attempts of the factory: a player per matching extension, then every player.\<close>

definition attempts :: "string \<Rightarrow> ('f cplayerdesc \<times> string list) list \<Rightarrow> 'f cplayerdesc list" where
  "attempts fn pl = concat (map (\<lambda>(pd, es). hits fn es pd) pl) @ map fst pl"

lemma direct_pass_hits:
  "list_all (\<lambda>(pd, es). desc_exts pd es) pl \<Longrightarrow>
   direct_pass ops fn (map fst pl) w = try_all ops fn (concat (map (\<lambda>(pd, es). hits fn es pd) pl)) w"
proof (induction pl arbitrary: w)
  case Nil
  then show ?case by simp
next
  case (Cons x pl)
  then show ?case
    by (cases x) (auto simp: direct_hits_from [where j = 0, simplified] try_all_append cong: option.case_cong)
qed

lemma factory_attempts:
  "list_all (\<lambda>(pd, es). desc_exts pd es) pl \<Longrightarrow>
   adplug_factory ops fn (map fst pl) w = try_all ops fn (attempts fn pl) w"
  by (simp add: adplug_factory_def attempts_def direct_pass_hits try_all_append)

text \<open>A player the search returns is the first attempt that loads; none loads when it fails.\<close>

lemma try_all_Some:
  "try_all ops fn pl w = Some (Some p, w') \<Longrightarrow>
   \<exists>xs pd ys w1. pl = xs @ pd # ys \<and> try_all ops fn xs w = Some (None, w1) \<and>
     try_player ops fn pd w1 = Some (Some p, w')"
proof (induction pl arbitrary: w)
  case Nil
  then show ?case by simp
next
  case (Cons pd pl)
  from Cons.prems obtain r w1 where r: "try_player ops fn pd w = Some (r, w1)"
    by (cases "try_player ops fn pd w") auto
  show ?case
  proof (cases r)
    case None
    then obtain xs pd' ys w2 where "pl = xs @ pd' # ys" "try_all ops fn xs w1 = Some (None, w2)"
      "try_player ops fn pd' w2 = Some (Some p, w')"
      using Cons.IH [of w1] Cons.prems r by auto
    then show ?thesis
      using r None by (intro exI [of _ "pd # xs"] exI [of _ pd'] exI [of _ ys] exI [of _ w2]) simp
  next
    case (Some q)
    then show ?thesis
      using Cons.prems r by (intro exI [of _ "[]"] exI [of _ pd] exI [of _ pl] exI [of _ w]) simp
  qed
qed

lemma build_table_descs:
  "list_all (\<lambda>(f, type, es). list_all ext_string es) rows \<Longrightarrow>
   \<exists>pds. build_table rows = Some (pds @ [empty_desc]) \<and>
     list_all2 (\<lambda>pd (f, type, es). desc_exts pd es \<and> pd_factory pd = Some f \<and> pd_filetype pd = type)
       pds rows"
proof (induction rows)
  case Nil
  then show ?case by simp
next
  case (Cons row rows)
  obtain f type es where row: "row = (f, type, es)" by (cases row)
  then obtain pd where "new_desc (Some f) type (ext_image es) = Some pd" "desc_exts pd es"
    "pd_factory pd = Some f" "pd_filetype pd = type"
    using new_desc_exts [of es "Some f" type "[]"] Cons.prems by auto
  moreover obtain pds where "build_table rows = Some (pds @ [empty_desc])"
    "list_all2 (\<lambda>pd (f, type, es). desc_exts pd es \<and> pd_factory pd = Some f \<and> pd_filetype pd = type)
       pds rows" using Cons by auto
  ultimately show ?case using row by (intro exI [of _ "pd # pds"]) simp
qed

lemma player_table_exts: "list_all (\<lambda>(f, type, es). list_all ext_string es) player_table"
  by (simp add: player_table_def ext_string_def)

lemma init_players_prefix:
  "list_all (\<lambda>pd. pd_factory pd \<noteq> None) pds \<Longrightarrow> pd_factory e = None \<Longrightarrow>
   init_players (pds @ e # r) = Some pds"
  by (induction pds) auto

lemma allplayers_descs:
  "\<exists>pds. allplayers = Some (pds @ [empty_desc]) \<and> init_players (pds @ [empty_desc]) = Some pds \<and>
     list_all2 (\<lambda>pd (f, type, es). desc_exts pd es \<and> pd_factory pd = Some f \<and> pd_filetype pd = type)
       pds player_table"
proof -
  obtain pds where pds: "allplayers = Some (pds @ [empty_desc])"
    "list_all2 (\<lambda>pd (f, type, es). desc_exts pd es \<and> pd_factory pd = Some f \<and> pd_filetype pd = type)
       pds player_table"
    using build_table_descs [OF player_table_exts] by (auto simp: allplayers_def)
  have "list_all (\<lambda>pd. pd_factory pd \<noteq> None) pds"
    using pds(2) by (auto simp: list_all_length list_all2_conv_all_nth split: prod.splits) (metis option.distinct(1) prod_cases3)
  then show ?thesis
    using pds init_players_prefix [of pds empty_desc "[]"] by (auto simp: empty_desc_def)
qed

section \<open>The properties\<close>

text \<open>A descriptor made from a list of file name extensions and extended by another one hands
out exactly those extensions by their index, in order, and null behind the last, however its
length arithmetic over the block of concatenated strings goes; nothing is read outside the block.\<close>

theorem desc_extensions:
  assumes "list_all ext_string es" "ext_string e"
  shows "\<exists>pd pd'. new_desc f type (ext_image es @ r) = Some pd \<and> add_extension e pd = Some pd' \<and>
    (\<forall>n. get_extension n pd = Some (if n < length es then Some (es ! n) else None)) \<and>
    (\<forall>n. get_extension n pd' = Some (if n \<le> length es then Some ((es @ [e]) ! n) else None))"
proof -
  obtain pd where pd: "new_desc f type (ext_image es @ r) = Some pd" "desc_exts pd es"
    using new_desc_exts [OF assms(1)] by blast
  obtain pd' where pd': "add_extension e pd = Some pd'" "desc_exts pd' (es @ [e])"
    using add_extension_exts [OF pd(2) assms(2)] by blast
  show ?thesis
    using pd pd' get_extension_nth [OF pd(2)] get_extension_nth [OF pd'(2)]
    by (auto simp: less_Suc_eq_le)
qed

lemma desc_extensions_witness:
  "\<exists>pd pd'. new_desc (Some ()) ''IMF'' (ext_image [''.imf'', ''.wlf''] @ ''x'') = Some pd \<and>
     add_extension ''.adlib'' pd = Some pd' \<and>
     get_extension 1 pd = Some (Some ''.wlf'') \<and> get_extension 2 pd = Some None \<and>
     get_extension 2 pd' = Some (Some ''.adlib'') \<and> get_extension 3 pd' = Some None"
  using desc_extensions [of "[''.imf'', ''.wlf'']" "''.adlib''" "Some ()" "''IMF''" "''x''"]
  by (auto simp: ext_string_def)

text \<open>C6: \<open>CAdPlug::factory\<close> over the table of all players is an ordered search: it tries, in the
order of the table, each player once for every extension of its that the file name ends in, then
every player of the table regardless of the name. What it returns is what that sequence of
attempts gives, the first player that loads the file; a failed attempt is deleted before the next.\<close>

theorem factory_is_search:
  "\<exists>pds. allplayers = Some (pds @ [empty_desc]) \<and> init_players (pds @ [empty_desc]) = Some pds \<and>
     map pd_filetype pds = map (\<lambda>(f, type, es). type) player_table \<and>
     (\<forall>(ops :: (string, 'p, 'w) player_ops) fn w.
        adplug_factory ops fn pds w =
          try_all ops fn (attempts fn (zip pds (map (\<lambda>(f, type, es). es) player_table))) w)"
proof -
  obtain pds where pds: "allplayers = Some (pds @ [empty_desc])"
    "init_players (pds @ [empty_desc]) = Some pds"
    "list_all2 (\<lambda>pd (f, type, es). desc_exts pd es \<and> pd_factory pd = Some f \<and> pd_filetype pd = type)
       pds player_table"
    using allplayers_descs by blast
  let ?pl = "zip pds (map (\<lambda>(f, type, es). es) player_table)"
  have len: "length pds = length player_table" using pds(3) by (rule list_all2_lengthD)
  have "list_all (\<lambda>(pd, es). desc_exts pd es) ?pl"
    using pds(3) by (force simp: list_all2_conv_all_nth list_all_length split: prod.splits)
  moreover have "map fst ?pl = pds" using len by simp
  moreover have "map pd_filetype pds = map (\<lambda>(f, type, es). type) player_table"
    using pds(3) len by (intro nth_equalityI) (auto simp: list_all2_conv_all_nth split: prod.splits)
  ultimately show ?thesis using pds(1,2) factory_attempts [of ?pl] by auto
qed

end
