(* ===== verification/Imf.thy ===== *)
theory Imf
  imports Loader Database
begin

text \<open>
  \<open>src/imf.cpp\<close>, \<open>src/imf.h\<close>: the player of Apogee IMF files, a stream of (register, value,
  delay) entries. The refresh rate of a file comes from the song database when that knows it.
\<close>

record imf_sdata =
  is_reg :: u8
  is_val :: u8
  is_time :: u16

record 'fl imf_player = cplayer +
  imf_pos :: nat
  imf_size :: nat
  imf_del :: u16
  imf_songend :: bool
  imf_rate :: 'fl
  imf_timer :: 'fl
  imf_footer :: "bytes option"
  imf_track_name :: bytes
  imf_game_name :: bytes
  imf_author_name :: bytes
  imf_remarks :: bytes
  imf_data :: "imf_sdata list"

section \<open>Loading\<close>

fun imf_read_data :: "('s, 'fl) binio \<Rightarrow> nat \<Rightarrow> 's \<Rightarrow> imf_sdata list \<times> 's" where
  "imf_read_data io 0 f = ([], f)"
| "imf_read_data io (Suc n) f =
     (let (r, f1) = read_u8 io f;
          (v, f2) = read_u8 io f1;
          (t, f3) = read_u16 io f2;
          (ds, f4) = imf_read_data io n f3
      in (\<lparr>is_reg = r, is_val = v, is_time = t\<rparr> # ds, f4))"

lemma length_imf_read_data: "imf_read_data io n f = (ds, f') \<Longrightarrow> length ds = n"
  by (induction n arbitrary: f ds f') (auto split: prod.splits)

text \<open>
  The header: no IMF file (\<open>None\<close>), or its size (0 for a file without one), track and game name.
\<close>

definition imf_header ::
  "('s, 'fl) binio \<Rightarrow> (nat \<Rightarrow> u8) \<Rightarrow> string \<Rightarrow> 's \<Rightarrow> 'fl imf_player \<Rightarrow>
   (nat \<times> 'fl imf_player) option \<times> 's"
where
  "imf_header io mem filename f s =
     (let (_, header, f1) = bio_readString io 5 (fresh mem 5) f;
          (version, f2) = bio_readInt io 1 f1
      in if header \<noteq> bytes_of ''ADLIB'' \<or> version \<noteq> 1
         then if \<not> fp_extension filename ''.imf'' \<and> \<not> fp_extension filename ''.wlf''
              then (None, f2)
              else (Some (0, s), bio_seekSet io 0 f2)
         else (let (track, f3) = bio_readDelim io 0 f2;
                   (game, f4) = bio_readDelim io 0 f3;
                   f5 = bio_ignore io 1 f4
               in (Some (ulong (int (bio_pos io f5)),
                         s\<lparr>imf_track_name := track, imf_game_name := game\<rparr>), f5)))"

text \<open>The size of the song and of what precedes it, before the validity check.\<close>

definition imf_song_size ::
  "('s, 'fl) binio \<Rightarrow> nat \<Rightarrow> nat \<Rightarrow> 's \<Rightarrow> nat \<times> nat \<times> 's"
where
  "imf_song_size io hdr_size file_size f =
     (let len_size = (if hdr_size \<noteq> 0 then 4 else 2);
          (n, f1) = bio_readInt io len_size f;
          song_size = ulong n
      in if song_size = 0
         then (let f2 = bio_seekAdd io (- int len_size) f1;
                   song_size = ulong (int file_size - int hdr_size);
                   song_size = (if song_size AND 2 \<noteq> 0 then ulong (int song_size + 2) else song_size)
               in (hdr_size, song_size, f2))
         else (ulong (int hdr_size + int len_size), song_size, f1))"

definition imf_invalid :: "nat \<Rightarrow> nat \<Rightarrow> nat \<Rightarrow> bool" where
  "imf_invalid hdr_size song_size file_size \<longleftrightarrow>
     ulong (int hdr_size + 4) > file_size \<or> song_size AND 3 \<noteq> 0 \<or>
     (song_size > ulong (int file_size - int hdr_size) \<and>
      song_size \<noteq> ulong (int file_size + 2 - int hdr_size))"

definition imf_read_footer ::
  "('s, 'fl) binio \<Rightarrow> (nat \<Rightarrow> u8) \<Rightarrow> nat \<Rightarrow> 's \<Rightarrow> 'fl imf_player \<Rightarrow> ('fl imf_player \<times> 's) option"
where
  "imf_read_footer io mem footerlen f s =
     (let (sig, f1) = read_u8 io f
      in if sig = 0x1a \<and> footerlen \<le> 1 + 3 * 256 + 9
         then (let (track, f2) = bio_readDelim io 0 f1;
                   (author, f3) = bio_readDelim io 0 f2;
                   (remarks, f4) = bio_readDelim io 0 f3
               in Some (s\<lparr>imf_track_name := track, imf_author_name := author,
                          imf_remarks := remarks\<rparr>, f4))
         else do {
           let (_, rest, f2) = bio_readString io footerlen (fresh mem footerlen) f1;
           footer \<leftarrow> wr (sig # rest) footerlen 0;
           muse \<leftarrow> (if footerlen = 88 then do {
                      a \<leftarrow> rd footer 17; b \<leftarrow> rd footer 81;
                      Some (a = 0 \<and> b = 0 \<and> imf_track_name s = [])
                    } else Some False);
           if muse then do {
             track \<leftarrow> c_string (drop 2 footer);
             remarks \<leftarrow> c_string (drop 18 footer);
             Some (s\<lparr>imf_footer := None, imf_track_name := track, imf_remarks := remarks\<rparr>, f2)
           }
           else Some (s\<lparr>imf_footer := Some footer\<rparr>, f2)
         })"

text \<open>\<open>getrate\<close>: the database, when the host has set one, then the file's extension.\<close>

definition imf_getrate ::
  "('s, 'fl) binio \<Rightarrow> 'fl rate_ops \<Rightarrow> string \<Rightarrow> 'fl database option \<Rightarrow> 's \<Rightarrow>
   ('fl \<times> 'fl database option \<times> 's) option"
where
  "imf_getrate io ro filename db f = do {
     (known, db', f') \<leftarrow> (case db of
        None \<Rightarrow> Some (None, None, f)
      | Some d \<Rightarrow> do {
          (key, f1) \<leftarrow> key_make io (bio_seekSet io 0 f);
          (r, d') \<leftarrow> search key d;
          (case r of
             NullRecord \<Rightarrow> Some (None, Some d', f1)
           | DanglingRecord \<Rightarrow> None
           | Record rec \<Rightarrow>
               Some ((case rec_body rec of ClockSpeed c \<Rightarrow> Some c | _ \<Rightarrow> None), Some d', f1))
        });
     (case known of
        Some c \<Rightarrow> Some (c, db', f')
      | None \<Rightarrow>
          Some (if fp_extension filename ''.imf'' then ro_int ro 560
                else if fp_extension filename ''.wlf'' then ro_int ro 700
                else ro_int ro 700, db', f'))
   }"

definition imf_rewind :: "int \<Rightarrow> 'fl imf_player \<Rightarrow> 'fl imf_player option" where
  "imf_rewind subsong s =
     Some (opl_write 1 32 (opl_init
       (s\<lparr>imf_pos := 0, imf_del := 0, imf_timer := imf_rate s, imf_songend := False\<rparr>)))"

text \<open>\<open>load\<close> on an open file: whether it succeeded, the player and the database.\<close>

definition imf_load ::
  "('s, 'fl) binio \<Rightarrow> 's opener \<Rightarrow> (nat \<Rightarrow> u8) \<Rightarrow> 'fl rate_ops \<Rightarrow> string \<Rightarrow> 'fl database option \<Rightarrow>
   'fl imf_player \<Rightarrow> (bool \<times> 'fl imf_player \<times> 'fl database option) option"
where
  "imf_load io opn mem ro filename db s =
     (case opn filename of None \<Rightarrow> Some (False, s, db) | Some f \<Rightarrow>
      (case imf_header io mem filename f s of
        (None, _) \<Rightarrow> Some (False, s, db)
      | (Some (hdr0, s1), f1) \<Rightarrow>
         (let (file_size, f2) = fp_filesize io f1;
              (hdr_size, song_size, f3) = imf_song_size io hdr0 file_size f2
          in if imf_invalid hdr_size song_size file_size then Some (False, s1, db)
             else do {
               let size = song_size div 4;
               let (ds, f4) = imf_read_data io size f3;
               let s2 = s1\<lparr>imf_size := size, imf_data := ds\<rparr>;
               (s3, f5) \<leftarrow>
                 (if song_size < ulong (int file_size - int hdr_size)
                  then imf_read_footer io mem
                         (ulong (int file_size - int hdr_size - int song_size)) f4 s2
                  else Some (s2, f4));
               (rate, db', f6) \<leftarrow> imf_getrate io ro filename db f5;
               s4 \<leftarrow> imf_rewind 0 (s3\<lparr>imf_rate := rate\<rparr>);
               Some (True, s4, db')
             })))"

section \<open>Playing\<close>

definition imf_entry :: "'fl imf_player \<Rightarrow> 'fl imf_player option" where
  "imf_entry s = do {
     d \<leftarrow> rd (imf_data s) (imf_pos s);
     let s1 = opl_write (uint (is_reg d)) (uint (is_val d)) s;
     Some (s1\<lparr>imf_pos := imf_pos s + 1, imf_del := is_time d\<rparr>)
   }"

definition imf_again :: "'fl imf_player \<Rightarrow> bool" where
  "imf_again s \<longleftrightarrow> imf_del s = 0 \<and> imf_pos s < imf_size s"

partial_function (option) imf_loop :: "'fl imf_player \<Rightarrow> 'fl imf_player option" where
  "imf_loop s = do { s1 \<leftarrow> imf_entry s; if imf_again s1 then imf_loop s1 else Some s1 }"

definition imf_update :: "'fl rate_ops \<Rightarrow> 'fl imf_player \<Rightarrow> (bool \<times> 'fl imf_player) option" where
  "imf_update ro s = do {
     s1 \<leftarrow> imf_loop s;
     let s2 = (if imf_pos s1 \<ge> imf_size s1 then s1\<lparr>imf_pos := 0, imf_songend := True\<rparr>
               else s1\<lparr>imf_timer := ro_div ro (imf_rate s1) (uint (imf_del s1))\<rparr>);
     Some (\<not> imf_songend s2, s2)
   }"

definition imf_gettitle :: "'fl imf_player \<Rightarrow> bytes" where
  "imf_gettitle s =
     (if imf_game_name s = [] then imf_track_name s
      else if imf_track_name s = [] then imf_game_name s
      else imf_track_name s @ bytes_of '' - '' @ imf_game_name s)"

definition imf_getdesc :: "'fl imf_player \<Rightarrow> bytes option" where
  "imf_getdesc s =
     (case imf_footer s of Some b \<Rightarrow> c_string b | None \<Rightarrow> Some (imf_remarks s))"

section \<open>Loading a well-formed player\<close>

text \<open>The key of every file can be computed: its stream reports the end at last.\<close>

definition streams_end :: "('s, 'fl) binio \<Rightarrow> ('s \<Rightarrow> bool) \<Rightarrow> bool" where
  "streams_end io P \<longleftrightarrow> (\<forall>s. P s \<longrightarrow> (\<exists>k s'. key_make io s = Some (k, s') \<and> P s'))"

lemma mem_make_loop:
  "mem_ok bs s \<Longrightarrow> \<exists>c s'. make_loop memio s crc = Some (c, s') \<and> mem_ok bs s'"
proof (induction "if ms_eof s then 0 else Suc (length (ms_bytes s) - ms_pos s)"
    arbitrary: s crc rule: less_induct)
  case less
  have step: "snd (bio_readInt memio 1 s) = ms_advance 1 s" by (simp add: memio_def)
  have ok: "mem_ok bs (ms_advance 1 s)" using less.prems by (auto simp: mem_ok_def ms_advance_def)
  show ?case
  proof (cases "ms_eof s")
    case True
    then have "bio_eof memio s" by (simp add: memio_def)
    with less.prems show ?thesis by (subst make_loop.simps) simp
  next
    case False
    then have "(if ms_eof (ms_advance 1 s) then 0
        else Suc (length (ms_bytes (ms_advance 1 s)) - ms_pos (ms_advance 1 s)))
      < (if ms_eof s then 0 else Suc (length (ms_bytes s) - ms_pos s))"
      using less.prems by (auto simp: ms_advance_def mem_ok_def)
    from less.hyps [OF this ok] step False show ?thesis
      by (subst make_loop.simps) (auto simp: memio_def split: prod.splits)
  qed
qed

lemma mem_streams_end: "streams_end memio (mem_ok bs)"
proof -
  have "\<exists>k s'. key_make memio s = Some (k, s') \<and> mem_ok bs s'" if "mem_ok bs s" for s
    using mem_make_loop [OF that, of "(0, 0xffffffff)"] by (auto simp: key_make_def)
  then show ?thesis by (simp add: streams_end_def)
qed

lemma and3_nat: "(n :: nat) AND 3 = n mod 4"
  using take_bit_eq_mask [of 2 n] by (simp add: take_bit_eq_mod mask_eq_exp_minus_1)

lemma imf_song_size_ok:
  assumes size: "imf_song_size io hdr0 file_size f = (hdr, song, f')"
    and bounds: "hdr0 < 2 ^ 63" "file_size < 2 ^ 63" and valid: "\<not> imf_invalid hdr song file_size"
  shows "0 < song div 4 \<and> (stream_laws io P \<longrightarrow> P f \<longrightarrow> P f')"
proof -
  obtain n f1 where n: "bio_readInt io (if hdr0 \<noteq> 0 then 4 else 2) f = (n, f1)"
    by (cases "bio_readInt io (if hdr0 \<noteq> 0 then 4 else 2) f") auto
  have P: "stream_laws io P \<longrightarrow> P f \<longrightarrow> P f'"
  proof (intro impI)
    assume laws: "stream_laws io P" and "P f"
    then have "P f1" using n stream_lawsD(2) [of io P f] by blast
    then show "P f'" using size n stream_lawsD(7) [OF laws \<open>P f1\<close>]
      unfolding imf_song_size_def Let_def by (auto split: if_splits)
  qed
  have four: "song mod 4 = 0" using valid by (simp add: imf_invalid_def and3_nat)
  have "song \<noteq> 0"
  proof (cases "ulong n = 0")
    case True
    then have hdr: "hdr = hdr0" using size n by (auto simp: imf_song_size_def Let_def split: if_splits)
    have "ulong (int hdr0 + 4) = hdr0 + 4" using bounds by (simp add: ulong_id nat_add_distrib)
    then have "hdr0 + 4 \<le> file_size" using valid hdr by (simp add: imf_invalid_def)
    then have d: "ulong (int file_size - int hdr0) = file_size - hdr0" "4 \<le> file_size - hdr0"
      using bounds by (simp_all add: ulong_id nat_diff_distrib)
    have "ulong (int (file_size - hdr0) + 2) = file_size - hdr0 + 2"
      using bounds by (subst ulong_id) simp_all
    then show ?thesis
      using size n True d by (auto simp: imf_song_size_def Let_def split: if_splits)
  next
    case False
    then show ?thesis using size n by (auto simp: imf_song_size_def Let_def split: if_splits)
  qed
  then have "0 < song div 4" using four by presburger
  with P show ?thesis by blast
qed

lemma imf_read_data_stream:
  "stream_laws io P \<Longrightarrow> P f \<Longrightarrow> imf_read_data io n f = (ds, f') \<Longrightarrow> P f'"
proof (induction n arbitrary: f ds)
  case 0
  then show ?case by simp
next
  case (Suc n)
  obtain r f1 v f2 t f3 where 1: "read_u8 io f = (r, f1)" "read_u8 io f1 = (v, f2)"
    "read_u16 io f2 = (t, f3)" by (metis surj_pair)
  then have "P f3"
    using read_u8_stream [OF Suc.prems(1)] read_u16_stream [OF Suc.prems(1)] Suc.prems(2) by blast
  then show ?case using 1 Suc by (auto split: prod.splits)
qed

lemma imf_read_footer_ok:
  assumes laws: "stream_laws io P" and P: "P f"
  shows "\<exists>s' f'. imf_read_footer io mem n f s = Some (s', f') \<and> P f' \<and>
    imf_size s' = imf_size s \<and> imf_data s' = imf_data s"
proof -
  obtain sig f1 where f1: "read_u8 io f = (sig, f1)" "P f1"
    using read_u8_stream [OF laws P] by (cases "read_u8 io f") auto
  obtain t f2 where f2: "bio_readDelim io 0 f1 = (t, f2)" "P f2"
    using stream_lawsD(5) [OF laws f1(2)] by (cases "bio_readDelim io 0 f1") auto
  obtain a f3 where f3: "bio_readDelim io 0 f2 = (a, f3)" "P f3"
    using stream_lawsD(5) [OF laws f2(2)] by (cases "bio_readDelim io 0 f2") auto
  obtain r f4 where f4: "bio_readDelim io 0 f3 = (r, f4)" "P f4"
    using stream_lawsD(5) [OF laws f3(2)] by (cases "bio_readDelim io 0 f3") auto
  obtain k b g where b: "bio_readString io n (fresh mem n) f1 = (k, b, g)" "P g" "length b = n"
    using stream_lawsD(3) [OF laws f1(2), of n "fresh mem n"]
    by (cases "bio_readString io n (fresh mem n) f1") auto
  let ?footer = "(sig # b)[n := 0]"
  have nul: "0 \<in> set (drop j ?footer)" if "j \<le> n" for j
  proof -
    have "?footer ! n = 0" "n < length ?footer"
      using b(3) by (simp_all add: nth_list_update del: list_update.simps)
    then have "drop j ?footer ! (n - j) = 0" "n - j < length (drop j ?footer)"
      using that by (simp_all del: list_update.simps)
    then show ?thesis by (metis nth_mem)
  qed
  obtain t' where t': "n = 88 \<longrightarrow> c_string (drop 2 ?footer) = Some t'"
    using c_string_total [OF nul [of 2]] by (cases "n = 88") auto
  obtain r' where r': "n = 88 \<longrightarrow> c_string (drop 18 ?footer) = Some r'"
    using c_string_total [OF nul [of 18]] by (cases "n = 88") auto
  show ?thesis
    using f1 f2 f3 f4 b t' r' by (auto simp: imf_read_footer_def access_simps)
qed

lemma imf_getrate_ok:
  assumes laws: "stream_laws io P" "streams_end io P" and P: "P f"
    and db: "\<And>d. db = Some d \<Longrightarrow> db_ok d"
  shows "\<exists>rate db' f'. imf_getrate io ro filename db f = Some (rate, db', f')"
proof (cases db)
  case None
  then show ?thesis by (simp add: imf_getrate_def)
next
  case (Some d)
  obtain k f1 where k: "key_make io (bio_seekSet io 0 f) = Some (k, f1)"
    using laws(2) stream_lawsD(6) [OF laws(1) P] unfolding streams_end_def by blast
  obtain d' where "search k d = Some (case db_abs d k of None \<Rightarrow> NullRecord | Some r \<Rightarrow> Record r, d')"
    using search_correct [OF db [OF Some], of k] by blast
  then show ?thesis using Some k
    by (cases "db_abs d k") (auto simp: imf_getrate_def split: record_body.splits)
qed

lemma imf_header_stream:
  assumes laws: "stream_laws io P" "P f" and "imf_header io mem filename f s = (Some (h, s1), f1)"
  shows "P f1 \<and> h < 2 ^ 63"
proof -
  obtain k b f2 where b: "bio_readString io 5 (fresh mem 5) f = (k, b, f2)" "P f2"
    using stream_lawsD(3) [OF laws] by (cases "bio_readString io 5 (fresh mem 5) f") blast
  obtain v f3 where v: "bio_readInt io 1 f2 = (v, f3)" "P f3"
    using stream_lawsD(2) [OF laws(1) b(2)] by (cases "bio_readInt io 1 f2") blast
  obtain t f4 where t: "bio_readDelim io 0 f3 = (t, f4)" "P f4"
    using stream_lawsD(5) [OF laws(1) v(2)] by (cases "bio_readDelim io 0 f3") blast
  obtain g f5 where g: "bio_readDelim io 0 f4 = (g, f5)" "P f5"
    using stream_lawsD(5) [OF laws(1) t(2)] by (cases "bio_readDelim io 0 f4") blast
  have "P (bio_ignore io 1 f5)" using stream_lawsD(9) [OF laws(1) g(2)] .
  then have "ulong (int (bio_pos io (bio_ignore io 1 f5))) < 2 ^ 63"
    using stream_lawsD(1) [OF laws(1)] by (subst ulong_id) fastforce+
  then show ?thesis
    using assms(3) b v t g \<open>P (bio_ignore io 1 f5)\<close> stream_lawsD(6) [OF laws(1) v(2)]
    by (auto simp: imf_header_def Let_def split: if_splits)
qed

section \<open>Correctness\<close>

text \<open>A loaded object that can be played, and the events its song still has to send.\<close>

definition imf_stream :: "'fl imf_player \<Rightarrow> bool" where
  "imf_stream s \<longleftrightarrow> imf_size s = length (imf_data s)"

definition imf_ok :: "'fl imf_player \<Rightarrow> bool" where
  "imf_ok s \<longleftrightarrow> imf_stream s \<and> imf_pos s < imf_size s"

definition imf_events :: "imf_sdata list \<Rightarrow> opl_event list" where
  "imf_events = map (\<lambda>d. OplWrite (uint (is_reg d)) (uint (is_val d)))"

definition imf_keep :: "'fl imf_player \<Rightarrow> imf_sdata list \<times> nat \<times> 'fl \<times> 'fl \<times> bool" where
  "imf_keep s = (imf_data s, imf_size s, imf_rate s, imf_timer s, imf_songend s)"

definition imf_todo :: "'fl imf_player \<Rightarrow> opl_event list" where
  "imf_todo s = imf_events (drop (imf_pos s) (imf_data s))"

lemma imf_todo_Nil: "imf_stream s \<Longrightarrow> imf_todo s = [] \<longleftrightarrow> imf_size s \<le> imf_pos s"
  by (simp add: imf_stream_def imf_todo_def imf_events_def)

lemma imf_entry_ok:
  assumes "imf_stream s" "imf_todo s \<noteq> []"
  shows "\<exists>s1. imf_entry s = Some s1 \<and> imf_stream s1 \<and>
    opl_out s1 = opl_out s @ [hd (imf_todo s)] \<and> imf_todo s1 = tl (imf_todo s) \<and>
    imf_keep s1 = imf_keep s"
proof -
  have "imf_pos s < length (imf_data s)"
    using assms by (simp add: imf_todo_def imf_events_def)
  then have "drop (imf_pos s) (imf_data s) =
      imf_data s ! imf_pos s # drop (Suc (imf_pos s)) (imf_data s)"
    by (simp add: Cons_nth_drop_Suc)
  then show ?thesis
    using \<open>imf_pos s < length (imf_data s)\<close> assms(1)
    by (simp add: imf_entry_def access_simps imf_stream_def imf_todo_def imf_events_def imf_keep_def
        opl_calls)
qed

interpretation imf_tick: tick_loop imf_loop imf_entry imf_again imf_stream imf_todo opl_out imf_keep
  by unfold_locales
     (simp_all add: imf_loop.simps imf_entry_ok imf_todo_Nil imf_again_def not_le)

text \<open>What a song has sent when its position is \<open>p\<close>, on top of \<open>base\<close>.\<close>

definition imf_playing :: "opl_event list \<Rightarrow> 'fl imf_player \<Rightarrow> bool" where
  "imf_playing base s \<longleftrightarrow> imf_ok s \<and> opl_out s @ imf_todo s = base @ imf_events (imf_data s)"

lemma imf_update_step:
  assumes ok: "imf_ok s"
  shows "\<exists>s'. imf_update ro s = Some (\<not> imf_songend s', s') \<and> imf_ok s' \<and>
    imf_data s' = imf_data s \<and> imf_rate s' = imf_rate s \<and> (\<exists>es. opl_out s' = opl_out s @ es) \<and>
    (imf_songend s \<longrightarrow> imf_songend s') \<and>
    (imf_songend s' \<and> \<not> imf_songend s \<longrightarrow> opl_out s' = opl_out s @ imf_todo s) \<and>
    (\<not> imf_songend s' \<longrightarrow>
       imf_pos s < imf_pos s' \<and> opl_out s' @ imf_todo s' = opl_out s @ imf_todo s \<and>
       imf_del s' \<noteq> 0 \<and> imf_timer s' = ro_div ro (imf_rate s) (uint (imf_del s')))"
proof -
  have st: "imf_stream s" "imf_todo s \<noteq> []"
    using ok imf_todo_Nil [of s] by (auto simp: imf_ok_def)
  obtain s1 where s1: "imf_loop s = Some s1" "imf_stream s1" "\<not> imf_again s1"
    "opl_out s1 @ imf_todo s1 = opl_out s @ imf_todo s" "length (imf_todo s1) < length (imf_todo s)"
    and same: "imf_data s1 = imf_data s" "imf_size s1 = imf_size s" "imf_rate s1 = imf_rate s"
      "imf_timer s1 = imf_timer s" "imf_songend s1 = imf_songend s"
    using imf_tick.loop_ok [OF st] by (auto simp: imf_keep_def)
  obtain es where es: "opl_out s1 = opl_out s @ es" using imf_tick.loop_appends [OF st] s1(1) by auto
  show ?thesis
  proof (cases "imf_size s1 \<le> imf_pos s1")
    case True
    then have "imf_todo s1 = []" using imf_todo_Nil [OF s1(2)] by simp
    then show ?thesis
      using s1 same es True ok
      by (auto simp: imf_update_def Let_def imf_ok_def imf_stream_def)
  next
    case False
    have "imf_todo (s1\<lparr>imf_timer := t\<rparr>) = imf_todo s1" for t by (simp add: imf_todo_def)
    moreover have "imf_pos s < imf_pos s1"
      using s1(5) same False s1(2) by (simp add: imf_todo_def imf_events_def imf_stream_def)
    ultimately show ?thesis
      using s1 same es False ok
      by (simp add: imf_update_def Let_def imf_ok_def imf_stream_def imf_again_def)
  qed
qed

definition imf_left :: "'fl imf_player \<Rightarrow> nat" where
  "imf_left s = imf_size s - imf_pos s"

interpretation imf_contract: ending_player "imf_update ro" imf_rewind imf_ok imf_left
  for ro :: "'fl rate_ops"
proof unfold_locales
  fix s s' :: "'fl imf_player" and n es go
  assume ok: "imf_ok s"
  obtain s1 where u: "imf_update ro s = Some (\<not> imf_songend s1, s1)" "imf_ok s1"
    "imf_data s1 = imf_data s" "\<exists>es. opl_out s1 = opl_out s @ es"
    "\<not> imf_songend s1 \<longrightarrow> imf_pos s < imf_pos s1"
    using imf_update_step [OF ok, of ro] by blast
  show "\<exists>go s'. imf_update ro s = Some (go, s') \<and> imf_ok s'" using u by simp
  show "\<exists>s'. imf_rewind n s = Some s' \<and> imf_ok s'"
    using ok by (auto simp: imf_rewind_def imf_ok_def imf_stream_def opl_calls)
  show "imf_update ro s = Some (go, s') \<Longrightarrow> \<exists>es. opl_out s' = opl_out s @ es" using u by simp
  show "imf_update ro s = Some (True, s') \<Longrightarrow> imf_left s' < imf_left s"
    using u ok by (auto simp: imf_left_def imf_ok_def imf_stream_def)
qed (simp add: imf_ok_def imf_stream_def)

section \<open>Properties\<close>

lemma imf_rewind_ok:
  assumes "imf_stream s" "0 < imf_size s"
  shows "\<exists>s'. imf_rewind n s = Some s' \<and> imf_ok s' \<and> imf_pos s' = 0 \<and> \<not> imf_songend s' \<and>
    imf_data s' = imf_data s"
  using assms by (simp add: imf_rewind_def imf_ok_def imf_stream_def opl_calls)

text \<open>C22: \<open>CimfPlayer::load\<close> returns on every file, with and without a database, and never
  touches memory it does not own; when it succeeds the song has at least one entry, the size it
  recorded is the number of entries it read and the player stands at the first of them.\<close>

theorem imf_load_playable:
  fixes io :: "('s, 'fl) binio"
  assumes laws: "stream_laws io P" and ends: "streams_end io P"
    and opens: "\<And>f. opn filename = Some f \<Longrightarrow> P f" and db: "\<And>d. db = Some d \<Longrightarrow> db_ok d"
  shows "\<exists>b s' db'. imf_load io opn mem ro filename db s = Some (b, s', db') \<and>
    (b \<longrightarrow> imf_ok s' \<and> imf_pos s' = 0 \<and> \<not> imf_songend s')"
proof (cases "opn filename")
  case None
  then show ?thesis by (auto simp: imf_load_def)
next
  case (Some f)
  show ?thesis
  proof (cases "fst (imf_header io mem filename f s)")
    case None
    then show ?thesis using Some by (cases "imf_header io mem filename f s") (auto simp: imf_load_def)
  next
    case (Some hs)
    then obtain h s1 f1 where h: "imf_header io mem filename f s = (Some (h, s1), f1)"
      by (cases "imf_header io mem filename f s"; cases hs) auto
    have f1: "P f1" "h < 2 ^ 63"
      using imf_header_stream [OF laws opens [OF \<open>opn filename = Some f\<close>] h] by simp_all
    obtain n f2 where n: "fp_filesize io f1 = (n, f2)" "P f2" "n < 2 ^ 63"
      using filesize_stream [OF laws f1(1)] by (cases "fp_filesize io f1") blast
    obtain hdr song f3 where sz: "imf_song_size io h n f2 = (hdr, song, f3)"
      by (cases "imf_song_size io h n f2") auto
    note open_file = \<open>opn filename = Some f\<close> h n(1) sz
    show ?thesis
    proof (cases "imf_invalid hdr song n")
      case True
      then show ?thesis using open_file by (auto simp: imf_load_def)
    next
      case False
      have size: "0 < song div 4" "P f3"
        using imf_song_size_ok [OF sz f1(2) n(3) False, of P] laws n(2) by simp_all
      obtain ds f4 where ds: "imf_read_data io (song div 4) f3 = (ds, f4)"
        by (cases "imf_read_data io (song div 4) f3")
      note ds = ds imf_read_data_stream [OF laws size(2) ds] length_imf_read_data [OF ds]
      let ?s2 = "s1\<lparr>imf_size := song div 4, imf_data := ds\<rparr>"
      obtain s3 f5 where s3: "(if song < ulong (int n - int hdr)
          then imf_read_footer io mem (ulong (int n - int hdr - int song)) f4 ?s2
          else Some (?s2, f4)) = Some (s3, f5)"
        "P f5" "imf_size s3 = song div 4" "imf_data s3 = ds"
      proof (cases "song < ulong (int n - int hdr)")
        case True
        obtain s' f' where "imf_read_footer io mem (ulong (int n - int hdr - int song)) f4 ?s2 =
            Some (s', f')" "P f'" "imf_size s' = imf_size ?s2" "imf_data s' = imf_data ?s2"
          using imf_read_footer_ok [OF laws ds(2)] by blast
        with True show ?thesis by (intro that [of s' f']) simp_all
      next
        case False
        with ds(2) show ?thesis by (intro that [of ?s2 f4]) simp_all
      qed
      obtain rate db' f6 where rate: "imf_getrate io ro filename db f5 = Some (rate, db', f6)"
        using imf_getrate_ok [OF laws ends s3(2) db] by blast
      have "imf_stream (s3\<lparr>imf_rate := rate\<rparr>)" "0 < imf_size (s3\<lparr>imf_rate := rate\<rparr>)"
        using s3 size(1) ds(3) by (simp_all add: imf_stream_def)
      then obtain s4 where "imf_rewind 0 (s3\<lparr>imf_rate := rate\<rparr>) = Some s4" "imf_ok s4"
        "imf_pos s4 = 0" "\<not> imf_songend s4" using imf_rewind_ok by blast
      then show ?thesis
        using open_file False ds(1) s3(1) rate
        by (intro exI [of _ True]) (simp add: imf_load_def Let_def)
    qed
  qed
qed

lemma imf_plays_song:
  "imf_ok s \<Longrightarrow> \<not> imf_songend s \<Longrightarrow>
   \<exists>n s1 s2. play (imf_update ro) n s = Some s1 \<and> imf_update ro s1 = Some (False, s2) \<and>
     opl_out s2 = opl_out s @ imf_todo s"
proof (induction "imf_left s" arbitrary: s rule: less_induct)
  case less
  obtain s1 where s1: "imf_update ro s = Some (\<not> imf_songend s1, s1)" "imf_ok s1"
    "imf_data s1 = imf_data s"
    "imf_songend s1 \<longrightarrow> opl_out s1 = opl_out s @ imf_todo s"
    "\<not> imf_songend s1 \<longrightarrow> imf_pos s < imf_pos s1 \<and> opl_out s1 @ imf_todo s1 = opl_out s @ imf_todo s"
    using imf_update_step [OF less.prems(1), of ro] less.prems(2) by blast
  show ?case
  proof (cases "imf_songend s1")
    case True
    then show ?thesis using s1 by (intro exI [of _ 0] exI [of _ s] exI [of _ s1]) simp
  next
    case False
    then have "imf_left s1 < imf_left s"
      using s1 less.prems(1) by (auto simp: imf_left_def imf_ok_def imf_stream_def)
    then obtain n t1 t2 where "play (imf_update ro) n s1 = Some t1" "imf_update ro t1 = Some (False, t2)"
      "opl_out t2 = opl_out s1 @ imf_todo s1" using less.hyps s1(2) False by blast
    then show ?thesis using s1 False
      by (intro exI [of _ "Suc n"] exI [of _ t1] exI [of _ t2]) simp
  qed
qed

text \<open>C24: played from its start, an IMF song ends after finitely many ticks, and by then the chip
  has received the (register, value) pairs of all its entries, each once and in the order of the
  file.\<close>

theorem imf_song_complete:
  assumes "imf_ok s" "imf_pos s = 0" "\<not> imf_songend s"
  shows "\<exists>n s1 s2. play (imf_update ro) n s = Some s1 \<and> imf_update ro s1 = Some (False, s2) \<and>
    opl_out s2 = opl_out s @
      map (\<lambda>d. OplWrite (uint (is_reg d)) (uint (is_val d))) (imf_data s)"
  using imf_plays_song [OF assms(1,3), of ro] assms(2) by (simp add: imf_todo_def imf_events_def)

section \<open>Witnesses\<close>

definition imf_sample :: "imf_sdata list \<Rightarrow> u32 imf_player" where
  "imf_sample ds =
     \<lparr>opl_out = [], imf_pos = 0, imf_size = length ds, imf_del = 0, imf_songend = False,
      imf_rate = 700, imf_timer = 700, imf_footer = None, imf_track_name = [],
      imf_game_name = [], imf_author_name = [], imf_remarks = [], imf_data = ds\<rparr>"

lemma imf_load_playable_witness:
  "\<exists>b s' db'. imf_load memio (\<lambda>_. Some (mem_file [4, 0, 0x20, 1, 2, 0])) (\<lambda>_. 0) word_rates
      ''song.imf'' (Some new_database) (imf_sample []) = Some (b, s', db') \<and>
    (b \<longrightarrow> imf_ok s' \<and> imf_pos s' = 0 \<and> \<not> imf_songend s')"
  by (rule imf_load_playable [OF mem_stream_laws [of "[4, 0, 0x20, 1, 2, 0]"] mem_streams_end])
     (auto simp: new_database_ok)

lemma imf_song_complete_witness:
  "\<exists>n s1 s2. play (imf_update word_rates) n
      (imf_sample [\<lparr>is_reg = 0x20, is_val = 1, is_time = 0\<rparr>, \<lparr>is_reg = 0xb0, is_val = 32, is_time = 5\<rparr>]) =
      Some s1 \<and>
    imf_update word_rates s1 = Some (False, s2) \<and>
    opl_out s2 = [OplWrite 0x20 1, OplWrite 0xb0 32]"
  using imf_song_complete [of "imf_sample [\<lparr>is_reg = 0x20, is_val = 1, is_time = 0\<rparr>,
      \<lparr>is_reg = 0xb0, is_val = 32, is_time = 5\<rparr>]" word_rates]
  by (simp add: imf_sample_def imf_ok_def imf_stream_def)

end
