(* ===== verification/Got.thy ===== *)
theory Got
  imports Imf
begin

text \<open>
  \<open>src/got.cpp\<close>, \<open>src/got.h\<close>: the player of God of Thunder music, a stream of (delay,
  register, value) entries; the database key of one known file selects another refresh rate.
\<close>

record got_sdata =
  gs_time :: u8
  gs_reg :: u8
  gs_val :: u8

record 'fl got_player = cplayer +
  got_pos :: nat
  got_size :: nat
  got_del :: u16
  got_songend :: bool
  got_rate :: 'fl
  got_timer :: 'fl
  got_data :: "got_sdata list"

fun got_read_data :: "('s, 'fl) binio \<Rightarrow> nat \<Rightarrow> 's \<Rightarrow> got_sdata list \<times> 's" where
  "got_read_data io 0 f = ([], f)"
| "got_read_data io (Suc n) f =
     (let (t, f1) = read_u8 io f;
          (r, f2) = read_u8 io f1;
          (v, f3) = read_u8 io f2;
          (ds, f4) = got_read_data io n f3
      in (\<lparr>gs_time = t, gs_reg = r, gs_val = v\<rparr> # ds, f4))"

text \<open>The file validation section: whether the file is accepted, and the stream after it.\<close>

definition got_validate :: "('s, 'fl) binio \<Rightarrow> string \<Rightarrow> 's \<Rightarrow> bool \<times> 's" where
  "got_validate io filename f =
     (if \<not> fp_extension filename ''.got'' then (False, f)
      else
        let (size1, f1) = fp_filesize io f;
            (size2, f2) = (if size1 mod 3 \<noteq> 0 then (0, f1) else fp_filesize io f1)
        in if size1 mod 3 \<noteq> 0 \<or> size2 < 9 then (False, f2)
           else let (one, f3) = bio_readInt io 2 f2
                in if one \<noteq> 1 then (False, f3)
                   else let (size3, f4) = fp_filesize io f3;
                            f5 = bio_seekSet io (int size3 - 4) f4;
                            (zero, f6) = bio_readInt io 4 f5
                        in if zero \<noteq> 0 then (False, f6) else (True, f6))"

definition menu_music :: ckey where
  "menu_music = \<lparr>crc16 = 0xB627, crc32 = 0x72036C41\<rparr>"

definition got_rewind :: "int \<Rightarrow> 'fl got_player \<Rightarrow> 'fl got_player option" where
  "got_rewind subsong s =
     Some (opl_write 1 32 (opl_init
       (s\<lparr>got_pos := 0, got_del := 0, got_timer := got_rate s, got_songend := False\<rparr>)))"

definition got_load ::
  "('s, 'fl) binio \<Rightarrow> 's opener \<Rightarrow> 'fl rate_ops \<Rightarrow> string \<Rightarrow> 'fl got_player \<Rightarrow>
   (bool \<times> 'fl got_player) option"
where
  "got_load io opn ro filename s =
     (case opn filename of None \<Rightarrow> Some (False, s) | Some f \<Rightarrow>
       (let (valid, f1) = got_validate io filename f
        in if \<not> valid then Some (False, s)
           else do {
             (key, f2) \<leftarrow> key_make io (bio_seekSet io 0 f1);
             let f3 = bio_seekSet io 2 f2;
             let (file_size, f4) = fp_filesize io f3;
             let size = ulong (int (file_size div 3) - 1);
             let (ds, f5) = got_read_data io size f4;
             let s1 = s\<lparr>got_size := size, got_data := ds,
                        got_rate := (if key_eq key menu_music then ro_int ro 140 else ro_int ro 120)\<rparr>;
             s2 \<leftarrow> got_rewind 0 s1;
             Some (True, s2)
           }))"

definition got_entry :: "'fl got_player \<Rightarrow> 'fl got_player option" where
  "got_entry s = do {
     d \<leftarrow> rd (got_data s) (got_pos s);
     let s1 = s\<lparr>got_del := ucast (gs_time d)\<rparr>;
     let s2 = opl_write (uint (gs_reg d)) (uint (gs_val d)) s1;
     Some (s2\<lparr>got_pos := got_pos s2 + 1\<rparr>)
   }"

definition got_again :: "'fl got_player \<Rightarrow> bool" where
  "got_again s \<longleftrightarrow> got_del s = 0 \<and> got_pos s < got_size s"

partial_function (option) got_loop :: "'fl got_player \<Rightarrow> 'fl got_player option" where
  "got_loop s = do { s1 \<leftarrow> got_entry s; if got_again s1 then got_loop s1 else Some s1 }"

definition got_update :: "'fl rate_ops \<Rightarrow> 'fl got_player \<Rightarrow> (bool \<times> 'fl got_player) option" where
  "got_update ro s = do {
     s1 \<leftarrow> got_loop s;
     let s2 = (if got_pos s1 \<ge> got_size s1 then s1\<lparr>got_pos := 0, got_songend := True\<rparr>
               else s1\<lparr>got_timer := ro_div ro (got_rate s1) (uint (got_del s1))\<rparr>);
     Some (\<not> got_songend s2, s2)
   }"

section \<open>The contract\<close>

definition got_stream :: "'fl got_player \<Rightarrow> bool" where
  "got_stream s \<longleftrightarrow> got_size s = length (got_data s)"

definition got_ok :: "'fl got_player \<Rightarrow> bool" where
  "got_ok s \<longleftrightarrow> got_stream s \<and> got_pos s < got_size s"

definition got_todo :: "'fl got_player \<Rightarrow> opl_event list" where
  "got_todo s =
     map (\<lambda>d. OplWrite (uint (gs_reg d)) (uint (gs_val d))) (drop (got_pos s) (got_data s))"

definition got_keep :: "'fl got_player \<Rightarrow> got_sdata list \<times> nat \<times> 'fl \<times> 'fl \<times> bool" where
  "got_keep s = (got_data s, got_size s, got_rate s, got_timer s, got_songend s)"

lemma got_todo_Nil: "got_stream s \<Longrightarrow> got_todo s = [] \<longleftrightarrow> got_size s \<le> got_pos s"
  by (simp add: got_stream_def got_todo_def)

lemma got_entry_ok:
  assumes "got_stream s" "got_todo s \<noteq> []"
  shows "\<exists>s1. got_entry s = Some s1 \<and> got_stream s1 \<and>
    opl_out s1 = opl_out s @ [hd (got_todo s)] \<and> got_todo s1 = tl (got_todo s) \<and>
    got_keep s1 = got_keep s"
proof -
  have "got_pos s < length (got_data s)" using assms by (simp add: got_todo_def)
  moreover from this have "drop (got_pos s) (got_data s) =
      got_data s ! got_pos s # drop (Suc (got_pos s)) (got_data s)"
    by (simp add: Cons_nth_drop_Suc)
  ultimately show ?thesis
    using assms(1)
    by (simp add: got_entry_def access_simps got_stream_def got_todo_def got_keep_def opl_calls)
qed

interpretation got_tick: tick_loop got_loop got_entry got_again got_stream got_todo opl_out got_keep
  by unfold_locales
     (simp_all add: got_loop.simps got_entry_ok got_todo_Nil got_again_def not_le)

lemma got_update_step:
  assumes ok: "got_ok s"
  shows "\<exists>s'. got_update ro s = Some (\<not> got_songend s', s') \<and> got_ok s' \<and>
    got_data s' = got_data s \<and> got_rate s' = got_rate s \<and> (\<exists>es. opl_out s' = opl_out s @ es) \<and>
    (got_songend s \<longrightarrow> got_songend s') \<and>
    (got_songend s' \<and> \<not> got_songend s \<longrightarrow> opl_out s' = opl_out s @ got_todo s) \<and>
    (\<not> got_songend s' \<longrightarrow>
       got_pos s < got_pos s' \<and> opl_out s' @ got_todo s' = opl_out s @ got_todo s \<and>
       got_del s' \<noteq> 0 \<and> got_timer s' = ro_div ro (got_rate s) (uint (got_del s')))"
proof -
  have st: "got_stream s" "got_todo s \<noteq> []"
    using ok got_todo_Nil [of s] by (auto simp: got_ok_def)
  obtain s1 where s1: "got_loop s = Some s1" "got_stream s1" "\<not> got_again s1"
    "opl_out s1 @ got_todo s1 = opl_out s @ got_todo s" "length (got_todo s1) < length (got_todo s)"
    and same: "got_data s1 = got_data s" "got_size s1 = got_size s" "got_rate s1 = got_rate s"
      "got_timer s1 = got_timer s" "got_songend s1 = got_songend s"
    using got_tick.loop_ok [OF st] by (auto simp: got_keep_def)
  obtain es where es: "opl_out s1 = opl_out s @ es" using got_tick.loop_appends [OF st] s1(1) by auto
  show ?thesis
  proof (cases "got_size s1 \<le> got_pos s1")
    case True
    then have "got_todo s1 = []" using got_todo_Nil [OF s1(2)] by simp
    then show ?thesis
      using s1 same es True ok
      by (auto simp: got_update_def Let_def got_ok_def got_stream_def)
  next
    case False
    have "got_todo (s1\<lparr>got_timer := t\<rparr>) = got_todo s1" for t by (simp add: got_todo_def)
    moreover have "got_pos s < got_pos s1"
      using s1(5) same False s1(2) by (simp add: got_todo_def got_stream_def)
    ultimately show ?thesis
      using s1 same es False ok
      by (simp add: got_update_def Let_def got_ok_def got_stream_def got_again_def)
  qed
qed

definition got_left :: "'fl got_player \<Rightarrow> nat" where
  "got_left s = got_size s - got_pos s"

interpretation got_contract: ending_player "got_update ro" got_rewind got_ok got_left
  for ro :: "'fl rate_ops"
proof unfold_locales
  fix s s' :: "'fl got_player" and n es go
  assume ok: "got_ok s"
  obtain s1 where u: "got_update ro s = Some (\<not> got_songend s1, s1)" "got_ok s1"
    "got_data s1 = got_data s" "\<exists>es. opl_out s1 = opl_out s @ es"
    "\<not> got_songend s1 \<longrightarrow> got_pos s < got_pos s1"
    using got_update_step [OF ok, of ro] by blast
  show "\<exists>go s'. got_update ro s = Some (go, s') \<and> got_ok s'" using u by simp
  show "\<exists>s'. got_rewind n s = Some s' \<and> got_ok s'"
    using ok by (auto simp: got_rewind_def got_ok_def got_stream_def opl_calls)
  show "got_update ro s = Some (go, s') \<Longrightarrow> \<exists>es. opl_out s' = opl_out s @ es" using u by simp
  show "got_update ro s = Some (True, s') \<Longrightarrow> got_left s' < got_left s"
    using u ok by (auto simp: got_left_def got_ok_def got_stream_def)
qed (simp add: got_ok_def got_stream_def)

section \<open>Properties\<close>

lemma length_got_read_data: "got_read_data io n f = (ds, f') \<Longrightarrow> length ds = n"
  by (induction n arbitrary: f ds f') (auto split: prod.splits)

text \<open>The size of the file does not change while it is read.\<close>

definition fixed_size :: "('s, 'fl) binio \<Rightarrow> ('s \<Rightarrow> bool) \<Rightarrow> nat \<Rightarrow> bool" where
  "fixed_size io P n \<longleftrightarrow> (\<forall>s. P s \<longrightarrow> bio_pos io (bio_seekEnd io 0 s) = n)"

lemma filesize_fixed:
  "stream_laws io P \<Longrightarrow> fixed_size io P n \<Longrightarrow> P s \<Longrightarrow> \<exists>s1. fp_filesize io s = (n, s1) \<and> P s1"
  using filesize_stream [of io P s] by (auto simp: fp_filesize_def Let_def fixed_size_def)

text \<open>\<open>CgotPlayer::load\<close> returns on every file; when it accepts one, the player holds the
  entries the file has room for, at least two of them, and stands at the first one.\<close>

theorem got_load_playable:
  fixes io :: "('s, 'fl) binio"
  assumes laws: "stream_laws io P" and ends: "streams_end io P" and size: "fixed_size io P n"
    and opens: "\<And>f. opn filename = Some f \<Longrightarrow> P f"
  shows "\<exists>b s'. got_load io opn ro filename s = Some (b, s') \<and>
    (b \<longrightarrow> got_ok s' \<and> got_pos s' = 0 \<and> \<not> got_songend s' \<and>
           3 * got_size s' + 3 = n \<and> 2 \<le> got_size s')"
proof (cases "opn filename")
  case None
  then show ?thesis by (auto simp: got_load_def)
next
  case (Some f)
  have P: "P f" using opens Some .
  note fs = filesize_fixed [OF laws size]
  obtain f1 where f1: "fp_filesize io f = (n, f1)" "P f1" using fs [OF P] by blast
  obtain f2 where f2: "fp_filesize io f1 = (n, f2)" "P f2" using fs [OF f1(2)] by blast
  obtain v f3 where f3: "bio_readInt io 2 f2 = (v, f3)" "P f3"
    using stream_lawsD(2) [OF laws f2(2)] by (cases "bio_readInt io 2 f2") blast
  obtain f4 where f4: "fp_filesize io f3 = (n, f4)" "P f4" using fs [OF f3(2)] by blast
  obtain z f6 where f6: "bio_readInt io 4 (bio_seekSet io (int n - 4) f4) = (z, f6)" "P f6"
    using stream_lawsD(2) [OF laws stream_lawsD(6) [OF laws f4(2)]]
    by (cases "bio_readInt io 4 (bio_seekSet io (int n - 4) f4)") blast
  have n: "n < 2 ^ 63" using filesize_stream [OF laws P f1(1)] by simp
  show ?thesis
  proof (cases "fst (got_validate io filename f)")
    case False
    then show ?thesis using Some by (cases "got_validate io filename f") (auto simp: got_load_def)
  next
    case True
    have cond: "fp_extension filename ''.got''" "n mod 3 = 0" "9 \<le> n" "v = 1" "z = 0"
      using True f1(1) f2(1) f3(1) f4(1) f6(1) unfolding got_validate_def
      by (simp_all only: Let_def prod.case if_True if_False fst_conv split: if_split_asm) simp_all
    then have val: "got_validate io filename f = (True, f6)"
      using f1(1) f2(1) f3(1) f4(1) f6(1) by (simp add: got_validate_def)
    obtain k f7 where k: "key_make io (bio_seekSet io 0 f6) = Some (k, f7)" "P f7"
      using ends stream_lawsD(6) [OF laws f6(2)] unfolding streams_end_def by blast
    obtain f9 where f9: "fp_filesize io (bio_seekSet io 2 f7) = (n, f9)"
      using fs [OF stream_lawsD(6) [OF laws k(2)]] by blast
    have "ulong (int (n div 3) - 1) = n div 3 - 1" using n cond(3) by (subst ulong_id) auto
    moreover obtain ds g where ds: "got_read_data io (n div 3 - 1) f9 = (ds, g)"
      by (cases "got_read_data io (n div 3 - 1) f9")
    moreover note length_got_read_data [OF ds]
    moreover have "3 * (n div 3 - 1) + 3 = n" "2 \<le> n div 3 - 1" "1 < n div 3"
      using cond(2,3) by presburger+
    ultimately show ?thesis
      using Some val k(1) f9
      by (intro exI [of _ True])
         (simp add: got_load_def Let_def got_rewind_def got_ok_def got_stream_def opl_calls)
  qed
qed

text \<open>In every tick of a song that has not ended, the chip receives the next entries in file
  order up to and including the first one with a delay, and the refresh rate becomes the rate of the
  file divided by that delay, which is not zero.\<close>

theorem got_tick_timer:
  assumes "got_ok s" "got_update ro s = Some (True, s')"
  shows "got_ok s' \<and> got_pos s < got_pos s' \<and> got_del s' \<noteq> 0 \<and>
    got_timer s' = ro_div ro (got_rate s) (uint (got_del s')) \<and>
    opl_out s' = opl_out s @ map (\<lambda>d. OplWrite (uint (gs_reg d)) (uint (gs_val d)))
      (take (got_pos s' - got_pos s) (drop (got_pos s) (got_data s)))"
proof -
  have s': "got_ok s'" "got_data s' = got_data s" "got_pos s < got_pos s'"
    "opl_out s' @ got_todo s' = opl_out s @ got_todo s" "got_del s' \<noteq> 0"
    "got_timer s' = ro_div ro (got_rate s) (uint (got_del s'))"
    using got_update_step [OF assms(1), of ro] assms(2) by auto
  have "drop (got_pos s) (got_data s) =
      take (got_pos s' - got_pos s) (drop (got_pos s) (got_data s)) @ drop (got_pos s') (got_data s)"
    using s'(3) append_take_drop_id [of "got_pos s' - got_pos s" "drop (got_pos s) (got_data s)"]
    by (simp add: add.commute)
  then have "got_todo s = map (\<lambda>d. OplWrite (uint (gs_reg d)) (uint (gs_val d)))
      (take (got_pos s' - got_pos s) (drop (got_pos s) (got_data s))) @ got_todo s'"
    using s'(2) unfolding got_todo_def by (metis map_append)
  then show ?thesis using s' by simp
qed

section \<open>Witnesses\<close>

definition got_sample :: "got_sdata list \<Rightarrow> u32 got_player" where
  "got_sample ds =
     \<lparr>opl_out = [], got_pos = 0, got_size = length ds, got_del = 0, got_songend = False,
      got_rate = 120, got_timer = 120, got_data = ds\<rparr>"

definition got_file :: bytes where
  "got_file = [1, 0, 0, 0x20, 1, 2, 0xb0, 0, 0, 0, 0, 0]"

lemma mem_fixed_size: "fixed_size memio (mem_ok bs) (length bs)"
  by (simp add: fixed_size_def memio_def mem_ok_def ms_seek_def)

lemma got_load_playable_witness:
  "\<exists>b s'. got_load memio (\<lambda>_. Some (mem_file got_file)) word_rates ''song.got'' (got_sample []) =
      Some (b, s') \<and>
    (b \<longrightarrow> got_ok s' \<and> got_pos s' = 0 \<and> \<not> got_songend s' \<and>
           3 * got_size s' + 3 = length got_file \<and> 2 \<le> got_size s')"
  by (rule got_load_playable [OF mem_stream_laws [of got_file] mem_streams_end mem_fixed_size])
     (simp add: got_file_def mem_ok_def mem_file_def)

lemma got_tick_timer_witness:
  "\<exists>s'. got_update word_rates (got_sample [\<lparr>gs_time = 3, gs_reg = 0x20, gs_val = 1\<rparr>,
        \<lparr>gs_time = 0, gs_reg = 0xb0, gs_val = 0\<rparr>]) = Some (True, s') \<and> got_del s' \<noteq> 0"
proof -
  let ?s = "got_sample [\<lparr>gs_time = 3, gs_reg = 0x20, gs_val = 1\<rparr>,
    \<lparr>gs_time = 0, gs_reg = 0xb0, gs_val = 0\<rparr>]"
  have ok: "got_ok ?s" by (simp add: got_sample_def got_ok_def got_stream_def)
  obtain s' where "got_update word_rates ?s = Some (True, s')"
    by (simp add: got_update_def got_loop.simps got_entry_def got_again_def got_sample_def
        access_simps opl_calls Let_def)
  with got_tick_timer [OF ok this] show ?thesis by blast
qed

end
