(* ===== verification/Dro.thy ===== *)
theory Dro
  imports Loader
begin

text \<open>
  \<open>src/dro.cpp\<close>, \<open>src/dro.h\<close>: the player of DOSBox Raw OPL captures, versions 0 and 1.0: the
  length checks and the tag block of the loader, and the interpreter of the command stream.
\<close>

datatype dro_type = DRO_V0 | DRO_V1

record dro_player = cplayer +
  dro_data :: bytes
  dro_iLength :: nat
  dro_iPos :: nat
  dro_iDelay :: nat
  dro_iDataOffset :: nat
  dro_title :: bytes
  dro_author :: bytes
  dro_desc :: bytes
  dro_type :: dro_type
  dro_majorVersion :: u16
  dro_minorVersion :: u16

definition iCmdDelayS :: nat where "iCmdDelayS = 0x00"
definition iCmdDelayL :: nat where "iCmdDelayL = 0x01"

section \<open>Loading\<close>

text \<open>\<open>x[0] = 0\<close>, the empty C string in a buffer.\<close>

abbreviation cleared :: "bytes \<Rightarrow> bytes" where "cleared b \<equiv> b[0 := 0]"

definition dro_parseTag ::
  "('s, 'fl) binio \<Rightarrow> nat \<Rightarrow> nat \<Rightarrow> 's \<Rightarrow> dro_player \<Rightarrow> bool \<times> 's \<times> dro_player"
where
  "dro_parseTag io offset fsize f s =
     (let f0 = bio_seekSet io (int offset) f;
          tagsize = int32 (int fsize - int (bio_pos io f0))
      in if tagsize < 3 then (False, f0, s)
         else
           let (a, f1) = read_u8 io f0;
               (b, f2) = (if a \<noteq> 0xff then (0, f1) else read_u8 io f1);
               (c, f3) = (if a \<noteq> 0xff \<or> b \<noteq> 0xff then (0, f2) else read_u8 io f2)
           in if a \<noteq> 0xff \<or> b \<noteq> 0xff \<or> c \<noteq> 0x1a then (False, f3, s)
              else
                let (title, f4) = bio_readStringZ io 40 0 (dro_title s) f3;
                    s1 = s\<lparr>dro_title := title, dro_author := cleared (dro_author s),
                           dro_desc := cleared (dro_desc s)\<rparr>;
                    (x, f5) = bio_readInt io 1 f4;
                    (s2, f6) =
                      (if x \<noteq> 0x1b then (s1, bio_seekAdd io (-1) f5)
                       else let (author, f6) = bio_readStringZ io 40 0 (dro_author s1) f5
                            in (s1\<lparr>dro_author := author\<rparr>, f6));
                    (y, f7) = bio_readInt io 1 f6
                in if y \<noteq> 0x1c then (True, f7, s2)
                   else let (desc, f8) = bio_readStringZ io 1023 0 (dro_desc s2) f7
                        in (True, f8, s2\<lparr>dro_desc := desc\<rparr>))"

text \<open>\<open>len + 0x18\<close> is computed in 32 bits, \<open>size - 0x15\<close> in 64.\<close>

function dro_verifyLength ::
  "('s, 'fl) binio \<Rightarrow> bool \<Rightarrow> nat \<Rightarrow> nat \<Rightarrow> 's \<Rightarrow> dro_player \<Rightarrow> bool \<times> 's \<times> dro_player"
where
  "dro_verifyLength io old len fsize f s =
     (if len < 3 then (False, f, s)
      else if ulong (int fsize - (if old then 0x11 else 0x15)) = len
      then (True, f, s\<lparr>dro_iDataOffset := (if old then 0x11 else 0x15), dro_iLength := len\<rparr>)
      else if \<not> old \<and> ulong (int fsize - 0x18) = len
      then (True, f, s\<lparr>dro_iDataOffset := 0x18, dro_iLength := len\<rparr>)
      else if fsize > len
      then
        (let off18 = uint32 (int len + 0x18);
             off15 = uint32 (int len + 0x15);
             off11 = uint32 (int len + 0x11);
             (tag18, f1, s1) = (if \<not> old \<and> off18 < fsize then dro_parseTag io off18 fsize f s
                                else (False, f, s))
         in if tag18 \<and> off18 < fsize then dro_verifyLength io old len off18 f1 s1
            else
              let (tag15, f2, s2) = (if \<not> old \<and> off15 < fsize then dro_parseTag io off15 fsize f1 s1
                                     else (False, f1, s1))
              in if tag15 \<and> off15 < fsize then dro_verifyLength io old len off15 f2 s2
                 else
                   let (tag11, f3, s3) = (if old \<and> off11 < fsize then dro_parseTag io off11 fsize f2 s2
                                          else (False, f2, s2))
                   in if tag11 \<and> off11 < fsize then dro_verifyLength io old len off11 f3 s3
                      else (False, f3, s3))
      else (False, f, s))"
  by pat_completeness auto
termination by (relation "measure (\<lambda>(io, old, len, fsize, f, s). fsize)") auto

declare dro_verifyLength.simps [simp del]

definition dro_rewind :: "int \<Rightarrow> dro_player \<Rightarrow> dro_player option" where
  "dro_rewind subsong s =
     (let s0 = opl_init (s\<lparr>dro_iDelay := 0, dro_iPos := 0\<rparr>);
          s1 = fold (\<lambda>i. opl_write i 0) [0..255] (opl_setchip 0 s0);
          s2 = fold (\<lambda>i. opl_write i 0) [0..255] (opl_setchip 1 s1)
      in Some (opl_setchip 0 s2))"

text \<open>The version: 1.0, 0, or a file that is not for this player.\<close>

definition dro_identify ::
  "('s, 'fl) binio \<Rightarrow> int \<Rightarrow> int \<Rightarrow> int \<Rightarrow> 's \<Rightarrow> dro_player \<Rightarrow> bool \<times> 's \<times> dro_player"
where
  "dro_identify io field_08 field_0C field_10 f s =
     (let (fsize, f1) = fp_filesize io f;
          (v1, f2, s1) = dro_verifyLength io False (uint32 field_10) fsize f1 s
      in if v1
         then (True, f2, s1\<lparr>dro_type := DRO_V1,
                            dro_minorVersion := to_u16 (int (uint32 field_08) AND 0xFFFF),
                            dro_majorVersion := to_u16 (drop_bit 16 (int (uint32 field_08)))\<rparr>)
         else
           let (fsize', f3) = fp_filesize io f2;
               (v0, f4, s2) = dro_verifyLength io True (uint32 field_0C) fsize' f3 s1
           in if v0 then (True, f4, s2\<lparr>dro_type := DRO_V0\<rparr>) else (False, f4, s2))"

definition dro_read_song ::
  "('s, 'fl) binio \<Rightarrow> 's \<Rightarrow> dro_player \<Rightarrow> (bool \<times> dro_player) option"
where
  "dro_read_song io f s = do {
     let f1 = bio_seekSet io (int (dro_iDataOffset s)) f;
     let (ds, _) = read_u8s io (dro_iLength s) f1;
     s1 \<leftarrow> dro_rewind 0 (s\<lparr>dro_data := ds\<rparr>);
     Some (True, s1)
   }"

definition dro_load ::
  "('s, 'fl) binio \<Rightarrow> 's opener \<Rightarrow> (nat \<Rightarrow> u8) \<Rightarrow> string \<Rightarrow> dro_player \<Rightarrow> (bool \<times> dro_player) option"
where
  "dro_load io opn mem filename s =
     (case opn filename of None \<Rightarrow> Some (False, s) | Some f \<Rightarrow>
       (let (_, hdr, f1) = bio_readString io 8 (fresh mem 8) f
        in if hdr \<noteq> bytes_of ''DBRAWOPL'' then Some (False, s)
           else
             let s1 = s\<lparr>dro_title := cleared (dro_title s), dro_author := cleared (dro_author s),
                        dro_desc := cleared (dro_desc s)\<rparr>;
                 (field_08, f2) = bio_readInt io 4 f1;
                 (field_0C, f3) = bio_readInt io 4 f2;
                 (field_10, f4) = bio_readInt io 4 f3;
                 (ok, f5, s2) = dro_identify io field_08 field_0C field_10 f4 s1
             in if \<not> ok then Some (False, s2) else dro_read_song io f5 s2))"

section \<open>Playing\<close>

partial_function (option) dro_update :: "dro_player \<Rightarrow> (bool \<times> dro_player) option" where
  "dro_update s =
     (if dro_iPos s < dro_iLength s then do {
        iIndex \<leftarrow> rd (dro_data s) (dro_iPos s);
        let s1 = s\<lparr>dro_iPos := dro_iPos s + 1\<rparr>;
        if unat iIndex = iCmdDelayS then
          (if dro_iPos s1 \<ge> dro_iLength s1 then Some (False, s1)
           else do {
             iValue \<leftarrow> rd (dro_data s1) (dro_iPos s1);
             Some (True, s1\<lparr>dro_iPos := dro_iPos s1 + 1, dro_iDelay := unat iValue + 1\<rparr>)
           })
        else if unat iIndex = iCmdDelayL then
          (if dro_iPos s1 + 1 \<ge> dro_iLength s1 then Some (False, s1)
           else do {
             lo \<leftarrow> rd (dro_data s1) (dro_iPos s1);
             hi \<leftarrow> rd (dro_data s1) (dro_iPos s1 + 1);
             let iValue = unat lo OR push_bit 8 (unat hi);
             Some (True, s1\<lparr>dro_iPos := dro_iPos s1 + 2, dro_iDelay := iValue + 1\<rparr>)
           })
        else if iIndex = 2 \<or> iIndex = 3 then dro_update (opl_setchip (uint iIndex - 2) s1)
        else if iIndex = 4 then
          (if dro_iPos s1 + 1 \<ge> dro_iLength s1 then Some (False, s1)
           else do {
             iIndex' \<leftarrow> rd (dro_data s1) (dro_iPos s1);
             iValue \<leftarrow> rd (dro_data s1) (dro_iPos s1 + 1);
             dro_update (opl_write (uint iIndex') (uint iValue) (s1\<lparr>dro_iPos := dro_iPos s1 + 2\<rparr>))
           })
        else if dro_iPos s1 \<ge> dro_iLength s1 then Some (False, s1)
        else do {
          iValue \<leftarrow> rd (dro_data s1) (dro_iPos s1);
          dro_update (opl_write (uint iIndex) (uint iValue) (s1\<lparr>dro_iPos := dro_iPos s1 + 1\<rparr>))
        }
      }
      else Some (dro_iPos s < dro_iLength s, s))"

text \<open>\<open>getrefresh\<close> is \<open>1000.0\<close> divided by this number.\<close>

definition dro_divisor :: "dro_player \<Rightarrow> nat" where
  "dro_divisor s = (if dro_iDelay s > 0 then dro_iDelay s else 1)"

section \<open>The commands of a capture\<close>

text \<open>
  The format as a datatype: what a recorder can say, and the bytes for it. Registers up to 4
  need the escape 4.
\<close>

datatype dro_cmd = Delay nat | Bank nat | WriteReg u8 u8

fun dro_cmd_ok :: "dro_cmd \<Rightarrow> bool" where
  "dro_cmd_ok (Delay d) \<longleftrightarrow> 0 < d \<and> d \<le> 65536"
| "dro_cmd_ok (Bank b) \<longleftrightarrow> b < 2"
| "dro_cmd_ok (WriteReg r v) \<longleftrightarrow> True"

fun dro_encode :: "dro_cmd \<Rightarrow> bytes" where
  "dro_encode (Delay d) =
     (if d \<le> 256 then [0, of_nat (d - 1)] else [1, of_nat (d - 1), of_nat ((d - 1) div 256)])"
| "dro_encode (Bank b) = [of_nat (2 + b)]"
| "dro_encode (WriteReg r v) = (if r \<le> 4 then [4, r, v] else [r, v])"

fun dro_events :: "dro_cmd \<Rightarrow> opl_event list" where
  "dro_events (Delay d) = []"
| "dro_events (Bank b) = [OplSetchip (int b)]"
| "dro_events (WriteReg r v) = [OplWrite (uint r) (uint v)]"

text \<open>The bytes from the position on are \<open>bs\<close>.\<close>

definition dro_ok :: "dro_player \<Rightarrow> bool" where
  "dro_ok s \<longleftrightarrow> dro_iLength s = length (dro_data s)"

definition dro_left :: "dro_player \<Rightarrow> nat" where
  "dro_left s = dro_iLength s - dro_iPos s"

definition dro_at :: "bytes \<Rightarrow> dro_player \<Rightarrow> bool" where
  "dro_at bs s \<longleftrightarrow> dro_ok s \<and> dro_iPos s \<le> dro_iLength s \<and> drop (dro_iPos s) (dro_data s) = bs"

definition dro_step_ok :: "dro_player \<Rightarrow> bool \<Rightarrow> dro_player \<Rightarrow> bool" where
  "dro_step_ok s go s' \<longleftrightarrow> dro_ok s' \<and> dro_data s' = dro_data s \<and>
     (\<exists>es. opl_out s' = opl_out s @ es) \<and>
     (go \<longrightarrow> dro_iPos s < dro_iPos s' \<and> dro_iPos s < dro_iLength s \<and> dro_iDelay s' \<noteq> 0)"

lemma dro_update_ok: "dro_ok s \<Longrightarrow> \<exists>go s'. dro_update s = Some (go, s') \<and> dro_step_ok s go s'"
proof (induction "dro_left s" arbitrary: s rule: less_induct)
  case less
  show ?case
  proof (cases "dro_iPos s < dro_iLength s")
    case False
    then show ?thesis using less.prems by (subst dro_update.simps) (auto simp: dro_step_ok_def)
  next
    case True
    have len: "dro_iLength s = length (dro_data s)" using less.prems by (simp add: dro_ok_def)
    have chain: "\<exists>go s'. dro_update t = Some (go, s') \<and> dro_step_ok s go s'"
      if t: "dro_iLength t = dro_iLength s" "dro_data t = dro_data s" "dro_iPos s < dro_iPos t"
        "\<exists>es. opl_out t = opl_out s @ es" for t
    proof -
      have "dro_ok t" using t len by (simp add: dro_ok_def)
      moreover have "dro_left t < dro_left s" using t True by (simp add: dro_left_def)
      ultimately obtain go s' where "dro_update t = Some (go, s')" "dro_step_ok t go s'"
        using less.hyps by blast
      with t True show ?thesis by (auto simp: dro_step_ok_def)
    qed
    let ?i = "dro_data s ! dro_iPos s" and ?p = "dro_iPos s"
    note [simp] = Let_def access_simps opl_calls dro_step_ok_def dro_ok_def iCmdDelayS_def iCmdDelayL_def
    consider (S) "?i = 0" | (L) "?i = 1" | (bank) "?i = 2 \<or> ?i = 3" | (esc) "?i = 4"
      | (wr) "?i \<noteq> 0" "?i \<noteq> 1" "?i \<noteq> 2" "?i \<noteq> 3" "?i \<noteq> 4" by blast
    then show ?thesis
    proof cases
      case S
      then show ?thesis using True len by (subst dro_update.simps) auto
    next
      case L
      then show ?thesis using True len by (subst dro_update.simps) auto
    next
      case bank
      let ?t = "opl_setchip (uint ?i - 2) (s\<lparr>dro_iPos := ?p + 1\<rparr>)"
      have "dro_update s = dro_update ?t"
        using True len bank by (subst dro_update.simps) (elim disjE; simp)
      with chain [of ?t] show ?thesis by simp
    next
      case esc
      show ?thesis
      proof (cases "?p + 2 < dro_iLength s")
        case True
        let ?t = "opl_write (uint (dro_data s ! (?p + 1))) (uint (dro_data s ! (?p + 2)))
          (s\<lparr>dro_iPos := ?p + 3\<rparr>)"
        have "dro_update s = dro_update ?t"
          using True len esc by (subst dro_update.simps) (simp add: numeral_3_eq_3)
        with chain [of ?t] show ?thesis by simp
      next
        case False
        then show ?thesis using esc len True by (subst dro_update.simps) auto
      qed
    next
      case wr
      then have i: "unat ?i \<noteq> 0" "unat ?i \<noteq> 1" by (simp_all add: word_unat_eq_iff)
      show ?thesis
      proof (cases "?p + 1 < dro_iLength s")
        case True
        let ?t = "opl_write (uint ?i) (uint (dro_data s ! (?p + 1))) (s\<lparr>dro_iPos := ?p + 2\<rparr>)"
        have "dro_update s = dro_update ?t"
          using True len wr i by (subst dro_update.simps) simp
        with chain [of ?t] show ?thesis by simp
      next
        case False
        then show ?thesis using wr i len True by (subst dro_update.simps) auto
      qed
    qed
  qed
qed


interpretation dro_contract: ending_player dro_update dro_rewind dro_ok dro_left
proof unfold_locales
  fix s s' :: dro_player and n es go
  have out: "opl_out (fold (\<lambda>i. opl_write i 0) is t) = opl_out t @ map (\<lambda>i. OplWrite i 0) is \<and>
      dro_ok (fold (\<lambda>i. opl_write i 0) is t) = dro_ok t" for "is" and t :: dro_player
    by (induction "is" arbitrary: t) (simp_all add: opl_calls dro_ok_def)
  show "dro_ok s \<Longrightarrow> \<exists>go s'. dro_update s = Some (go, s') \<and> dro_ok s'"
    using dro_update_ok [of s] by (auto simp: dro_step_ok_def)
  show "dro_ok s \<Longrightarrow> \<exists>s'. dro_rewind n s = Some s' \<and> dro_ok s'"
    using out by (simp add: dro_rewind_def Let_def opl_setchip_def opl_init_def dro_ok_def)
  show "dro_ok (s\<lparr>opl_out := es\<rparr>) = dro_ok s" by (simp add: dro_ok_def)
  show "dro_ok s \<Longrightarrow> dro_update s = Some (go, s') \<Longrightarrow> \<exists>es. opl_out s' = opl_out s @ es"
    using dro_update_ok [of s] by (auto simp: dro_step_ok_def)
  show "dro_ok s \<Longrightarrow> dro_update s = Some (True, s') \<Longrightarrow> dro_left s' < dro_left s"
    using dro_update_ok [of s] by (auto simp: dro_step_ok_def dro_ok_def dro_left_def)
qed

section \<open>Playing what was recorded\<close>

definition dro_advance :: "nat \<Rightarrow> dro_player \<Rightarrow> dro_player" where
  "dro_advance n s = s\<lparr>dro_iPos := dro_iPos s + n\<rparr>"

lemma dro_at_nth:
  assumes "dro_at bs s" "i < length bs"
  shows "rd (dro_data s) (dro_iPos s + i) = Some (bs ! i)" "dro_iPos s + i < dro_iLength s"
proof -
  have bs: "drop (dro_iPos s) (dro_data s) = bs" "dro_iLength s = length (dro_data s)"
    using assms(1) by (simp_all add: dro_at_def dro_ok_def)
  then have i: "dro_iPos s + i < length (dro_data s)" using assms(2) by auto
  then have "dro_data s ! (dro_iPos s + i) = bs ! i"
    using bs(1) by (metis add_leE less_imp_le_nat nth_drop)
  with i bs show "rd (dro_data s) (dro_iPos s + i) = Some (bs ! i)" "dro_iPos s + i < dro_iLength s"
    by (simp_all add: rd_def)
qed

lemma dro_at_advance:
  assumes "dro_at bs s" "n \<le> length bs" "dro_data t = dro_data s" "dro_iLength t = dro_iLength s"
    "dro_iPos t = dro_iPos s + n"
  shows "dro_at (drop n bs) t"
proof -
  have "length (drop (dro_iPos s) (dro_data s)) = length bs" using assms(1) by (simp add: dro_at_def)
  then show ?thesis using assms by (auto simp: dro_at_def dro_ok_def add.commute)
qed

lemma or_push_bit_8: "(a :: nat) < 256 \<Longrightarrow> a OR push_bit 8 b = a + 256 * b"
  using or_push_bit_nat [of a 8 b] by simp

lemma unat_of_nat_u8: "unat (of_nat n :: u8) = n mod 256"
  by (simp add: unat_of_nat)

lemma dro_update_delay:
  assumes at: "dro_at (dro_encode (Delay d) @ r) s" and d: "0 < d" "d \<le> 65536"
  shows "\<exists>s'. dro_update s = Some (True, s') \<and> dro_at r s' \<and> dro_iDelay s' = d \<and>
    opl_out s' = opl_out s"
proof (cases "d \<le> 256")
  case True
  let ?bs = "dro_encode (Delay d) @ r" and ?t = "s\<lparr>dro_iPos := dro_iPos s + 2, dro_iDelay := d\<rparr>"
  have b: "rd (dro_data s) (dro_iPos s) = Some 0" "dro_iPos s < dro_iLength s"
    "rd (dro_data s) (dro_iPos s + 1) = Some (of_nat (d - 1))" "dro_iPos s + 1 < dro_iLength s"
    using dro_at_nth [OF at, of 0] dro_at_nth [OF at, of 1] True by (simp_all del: of_nat_diff)
  have "unat (of_nat (d - 1) :: u8) + 1 = d"
    using True d unat_of_nat_u8 [of "d - 1"] by (simp del: of_nat_diff)
  then have "dro_update s = Some (True, ?t)"
    using b by (subst dro_update.simps) (simp add: Let_def iCmdDelayS_def del: of_nat_diff)
  moreover have "dro_at r ?t"
    using dro_at_advance [OF at, of 2 ?t] True by simp
  ultimately show ?thesis by simp
next
  case False
  let ?bs = "dro_encode (Delay d) @ r" and ?t = "s\<lparr>dro_iPos := dro_iPos s + 3, dro_iDelay := d\<rparr>"
  let ?lo = "of_nat (d - 1) :: u8" and ?hi = "of_nat ((d - 1) div 256) :: u8"
  have b: "rd (dro_data s) (dro_iPos s) = Some 1" "dro_iPos s < dro_iLength s"
    "rd (dro_data s) (dro_iPos s + 1) = Some ?lo" "rd (dro_data s) (dro_iPos s + 2) = Some ?hi"
    "dro_iPos s + 2 < dro_iLength s"
    using dro_at_nth [OF at, of 0] dro_at_nth [OF at, of 1] dro_at_nth [OF at, of 2] False
    by (simp_all del: of_nat_diff)
  have "unat ?lo + 256 * unat ?hi + 1 = d"
    using d False unfolding unat_of_nat_u8 by (simp add: less_mult_imp_div_less)
  then have v: "(unat ?lo OR push_bit 8 (unat ?hi)) + 1 = d"
    by (subst or_push_bit_8) (simp_all del: of_nat_diff)
  have "dro_update s = Some (True, ?t)"
    using b v by (subst dro_update.simps)
      (simp add: Let_def iCmdDelayS_def iCmdDelayL_def numeral_3_eq_3 add.commute del: of_nat_diff)
  moreover have "dro_at r ?t"
    using dro_at_advance [OF at, of 3 ?t] False by simp
  ultimately show ?thesis by simp
qed

lemma dro_update_write:
  assumes at: "dro_at (dro_encode c @ r) s" and c: "dro_cmd_ok c" "\<And>d. c \<noteq> Delay d"
  shows "\<exists>t. dro_update s = dro_update t \<and> dro_at r t \<and> opl_out t = opl_out s @ dro_events c"
proof (cases c)
  case (Delay d)
  then show ?thesis using c(2) by simp
next
  case (Bank b)
  let ?t = "opl_setchip (int b) (s\<lparr>dro_iPos := dro_iPos s + 1\<rparr>)"
  have rd: "rd (dro_data s) (dro_iPos s) = Some (of_nat (2 + b))" "dro_iPos s < dro_iLength s"
    using dro_at_nth [OF at, of 0] Bank by simp_all
  have b: "b = 0 \<or> b = 1" using c(1) Bank by auto
  then have "dro_update s = dro_update ?t"
    using rd by (subst dro_update.simps) (elim disjE; simp add: Let_def iCmdDelayS_def iCmdDelayL_def)
  moreover have "dro_at r ?t" using dro_at_advance [OF at, of 1 ?t] Bank by (simp add: opl_calls)
  ultimately show ?thesis using Bank by (intro exI [of _ ?t]) (simp add: opl_calls)
next
  case (WriteReg x v)
  show ?thesis
  proof (cases "x \<le> 4")
    case True
    let ?t = "opl_write (uint x) (uint v) (s\<lparr>dro_iPos := dro_iPos s + 3\<rparr>)"
    have rd: "rd (dro_data s) (dro_iPos s) = Some 4" "dro_iPos s < dro_iLength s"
      "rd (dro_data s) (dro_iPos s + 1) = Some x" "rd (dro_data s) (dro_iPos s + 2) = Some v"
      "dro_iPos s + 2 < dro_iLength s"
      using dro_at_nth [OF at, of 0] dro_at_nth [OF at, of 1] dro_at_nth [OF at, of 2] WriteReg True
      by simp_all
    then have "dro_update s = dro_update ?t"
      by (subst dro_update.simps) (simp add: Let_def iCmdDelayS_def iCmdDelayL_def numeral_3_eq_3)
    moreover have "dro_at r ?t"
      using dro_at_advance [OF at, of 3 ?t] WriteReg True by (simp add: opl_calls)
    ultimately show ?thesis using WriteReg by (intro exI [of _ ?t]) (simp add: opl_calls)
  next
    case False
    let ?t = "opl_write (uint x) (uint v) (s\<lparr>dro_iPos := dro_iPos s + 2\<rparr>)"
    have rd: "rd (dro_data s) (dro_iPos s) = Some x" "dro_iPos s < dro_iLength s"
      "rd (dro_data s) (dro_iPos s + 1) = Some v" "dro_iPos s + 1 < dro_iLength s"
      using dro_at_nth [OF at, of 0] dro_at_nth [OF at, of 1] WriteReg False by simp_all
    have "unat x > 4" using False by (simp add: word_le_nat_alt)
    then have "unat x \<noteq> 0" "unat x \<noteq> 1" "x \<noteq> 2" "x \<noteq> 3" "x \<noteq> 4" by auto
    then have "dro_update s = dro_update ?t"
      using rd by (subst dro_update.simps) (simp add: Let_def iCmdDelayS_def iCmdDelayL_def)
    moreover have "dro_at r ?t"
      using dro_at_advance [OF at, of 2 ?t] WriteReg False by (simp add: opl_calls)
    ultimately show ?thesis using WriteReg by (intro exI [of _ ?t]) (simp add: opl_calls)
  qed
qed

definition not_delay :: "dro_cmd \<Rightarrow> bool" where
  "not_delay c \<longleftrightarrow> dro_cmd_ok c \<and> (\<forall>d. c \<noteq> Delay d)"

lemma dro_update_tick:
  "dro_at (concat (map dro_encode cs) @ dro_encode (Delay d) @ r) s \<Longrightarrow>
   list_all not_delay cs \<Longrightarrow> dro_cmd_ok (Delay d) \<Longrightarrow>
   \<exists>s'. dro_update s = Some (True, s') \<and> dro_at r s' \<and> dro_iDelay s' = d \<and>
     opl_out s' = opl_out s @ concat (map dro_events cs)"
proof (induction cs arbitrary: s)
  case Nil
  then show ?case using dro_update_delay [of d r s] by simp
next
  case (Cons c cs)
  have "dro_at (dro_encode c @ concat (map dro_encode cs) @ dro_encode (Delay d) @ r) s"
    using Cons.prems(1) by simp
  from dro_update_write [OF this] Cons.prems(2)
  obtain t where t: "dro_update s = dro_update t" "opl_out t = opl_out s @ dro_events c"
    "dro_at (concat (map dro_encode cs) @ dro_encode (Delay d) @ r) t"
    by (auto simp: not_delay_def)
  then show ?case using Cons.IH [OF t(3)] Cons.prems(2,3) by auto
qed

section \<open>Properties\<close>

text \<open>A capture: per tick, the chip commands before the delay that ends it.\<close>

definition dro_song :: "(dro_cmd list \<times> nat) list \<Rightarrow> bytes" where
  "dro_song ticks = concat (map (\<lambda>(cs, d). concat (map dro_encode cs) @ dro_encode (Delay d)) ticks)"

lemma dro_song_Cons [simp]:
  "dro_song ((cs, d) # ticks) = concat (map dro_encode cs) @ dro_encode (Delay d) @ dro_song ticks"
  by (simp add: dro_song_def)

text \<open>C4: playing a version 0 or 1 capture reproduces what was captured: \<open>update\<close> called once per
  tick sends exactly the captured register writes and bank switches, escaped registers included, in
  order, leaves the captured delay in \<open>iDelay\<close>, and consumes the whole song.\<close>

theorem dro_replay:
  assumes "dro_at (dro_song ticks @ r) s"
    and "list_all (\<lambda>(cs, d). list_all not_delay cs \<and> 0 < d \<and> d \<le> 65536) ticks"
  shows "\<exists>s'. play dro_update (length ticks) s = Some s' \<and> dro_at r s' \<and>
    opl_out s' = opl_out s @ concat (map (\<lambda>(cs, d). concat (map dro_events cs)) ticks) \<and>
    (ticks \<noteq> [] \<longrightarrow> dro_iDelay s' = snd (last ticks))"
  using assms
proof (induction ticks arbitrary: s)
  case Nil
  then show ?case by (simp add: dro_song_def)
next
  case (Cons x ticks)
  obtain cs d where x: "x = (cs, d)" by (cases x)
  have "dro_at (concat (map dro_encode cs) @ dro_encode (Delay d) @ dro_song ticks @ r) s"
    using Cons.prems(1) x by (simp del: dro_encode.simps)
  from dro_update_tick [OF this] obtain s1 where s1: "dro_update s = Some (True, s1)"
    "dro_at (dro_song ticks @ r) s1" "dro_iDelay s1 = d"
    "opl_out s1 = opl_out s @ concat (map dro_events cs)"
    using Cons.prems(2) x by auto
  obtain s2 where "play dro_update (length ticks) s1 = Some s2" "dro_at r s2"
    "opl_out s2 = opl_out s1 @ concat (map (\<lambda>(cs, d). concat (map dro_events cs)) ticks)"
    "ticks \<noteq> [] \<longrightarrow> dro_iDelay s2 = snd (last ticks)"
    using Cons.IH [OF s1(2)] Cons.prems(2) by auto
  with s1 x show ?case by (cases ticks) auto
qed

lemma ulong_sub: "len < 2 ^ 32 \<Longrightarrow> k < 2 ^ 32 \<Longrightarrow> sz < 2 ^ 63 \<Longrightarrow>
    ulong (int sz - int k) = len \<Longrightarrow> sz = len + k"
proof (rule ccontr)
  assume b: "len < 2 ^ 32" "k < 2 ^ 32" "sz < 2 ^ 63" and u: "ulong (int sz - int k) = len"
  have m: "(int sz - int k) mod 2 ^ 64 = int len"
    using u unfolding ulong_def by (metis nat_eq_iff2 pos_mod_sign zero_less_numeral zero_less_power int_nat_eq)
  assume ne: "sz \<noteq> len + k"
  show False
  proof (cases "k \<le> sz")
    case True
    then have "(int sz - int k) mod 2 ^ 64 = int sz - int k" using b by simp
    then show False using m ne True by linarith
  next
    case False
    have "(int sz - int k + 2 ^ 64) mod 2 ^ 64 = int sz - int k + 2 ^ 64"
      using False b by (intro mod_pos_pos_trivial) simp_all
    then show False using m b False by simp
  qed
qed

text \<open>\<open>verifyLength\<close> ends for every file size, whatever tag blocks it meets, and when it
  accepts a length then the data it will read, \<open>iLength\<close> bytes from \<open>iDataOffset\<close> on, lies inside
  the file.\<close>

theorem dro_verifyLength_bounds:
  assumes "dro_verifyLength io old len fsize f s = (True, f', s')" "len < 2 ^ 32" "fsize < 2 ^ 63"
  shows "3 \<le> len \<and> dro_iLength s' = len \<and> dro_iDataOffset s' \<in> {0x11, 0x15, 0x18} \<and>
    dro_iDataOffset s' + dro_iLength s' \<le> fsize"
  using assms
proof (induction fsize arbitrary: f s f' s' rule: less_induct)
  case (less fsize)
  define off where "off k = uint32 (int len + k)" for k
  have rec: ?case if "dro_verifyLength io old len (off k) g t = (True, f', s')" "off k < fsize" for k g t
    using less.IH [OF that(2) that(1)] less.prems(2,3) that(2) by auto
  have eq: "fsize = len + k" if "ulong (int fsize - int k) = len" "k < 32" for k
    using ulong_sub [OF less.prems(2) _ less.prems(3) that(1)] that(2) by simp
  note run = less.prems(1) [unfolded dro_verifyLength.simps [of io old len fsize f s], folded off_def]
  have len: "3 \<le> len" using run by (auto split: if_split_asm)
  consider (plain) "ulong (int fsize - (if old then 0x11 else 0x15)) = len"
    | (three) "ulong (int fsize - (if old then 0x11 else 0x15)) \<noteq> len"
        "\<not> old \<and> ulong (int fsize - 0x18) = len"
    | (tag) "ulong (int fsize - (if old then 0x11 else 0x15)) \<noteq> len"
        "\<not> (\<not> old \<and> ulong (int fsize - 0x18) = len)" by blast
  then show ?case
  proof cases
    case plain
    then have "fsize = len + (if old then 0x11 else 0x15)"
      using eq [of "0x11"] eq [of "0x15"] by (auto split: if_split_asm)
    then show ?thesis using run plain len by auto
  next
    case three
    then show ?thesis using run eq [of "0x18"] len by auto
  next
    case tag
    obtain t18 f1 s1 where 18: "(if \<not> old \<and> off 0x18 < fsize
      then dro_parseTag io (off 0x18) fsize f s else (False, f, s)) = (t18, f1, s1)" by (metis surj_pair)
    obtain t15 f2 s2 where 15: "(if \<not> old \<and> off 0x15 < fsize
      then dro_parseTag io (off 0x15) fsize f1 s1 else (False, f1, s1)) = (t15, f2, s2)" by (metis surj_pair)
    obtain t11 f3 s3 where 11: "(if old \<and> off 0x11 < fsize
      then dro_parseTag io (off 0x11) fsize f2 s2 else (False, f2, s2)) = (t11, f3, s3)" by (metis surj_pair)
    have "len < fsize" using run len tag by (auto split: if_split_asm)
    then have run': "(if t18 \<and> off 0x18 < fsize then dro_verifyLength io old len (off 0x18) f1 s1
       else if t15 \<and> off 0x15 < fsize then dro_verifyLength io old len (off 0x15) f2 s2
       else if t11 \<and> off 0x11 < fsize then dro_verifyLength io old len (off 0x11) f3 s3
       else (False, f3, s3)) = (True, f', s')"
      using run len tag by (simp only: Let_def 18 15 11 prod.case not_less [symmetric] if_False if_True simp_thms)
    then show ?thesis
      using rec [of "0x18" f1 s1] rec [of "0x15" f2 s2] rec [of "0x11" f3 s3]
      by (cases "t18 \<and> off 0x18 < fsize"; cases "t15 \<and> off 0x15 < fsize";
          cases "t11 \<and> off 0x11 < fsize") simp_all
  qed
qed

lemma dro_rewind_loaded:
  "\<exists>s'. dro_rewind n s = Some s' \<and> dro_iPos s' = 0 \<and> dro_data s' = dro_data s \<and>
     dro_iLength s' = dro_iLength s"
proof -
  have "dro_iPos (fold (\<lambda>i. opl_write i 0) is t) = dro_iPos t \<and>
      dro_data (fold (\<lambda>i. opl_write i 0) is t) = dro_data t \<and>
      dro_iLength (fold (\<lambda>i. opl_write i 0) is t) = dro_iLength t" for "is" and t :: dro_player
    by (induction "is" arbitrary: t) (simp_all add: opl_calls)
  then show ?thesis by (simp add: dro_rewind_def Let_def opl_setchip_def opl_init_def)
qed

lemma dro_read_song_ok:
  "\<exists>s'. dro_read_song io f s = Some (True, s') \<and> dro_ok s' \<and> dro_iPos s' = 0"
proof -
  obtain ds g where ds: "read_u8s io (dro_iLength s) (bio_seekSet io (int (dro_iDataOffset s)) f) = (ds, g)"
    by (metis surj_pair)
  obtain s' where "dro_rewind 0 (s\<lparr>dro_data := ds\<rparr>) = Some s'" "dro_iPos s' = 0"
    "dro_data s' = ds" "dro_iLength s' = dro_iLength s"
    using dro_rewind_loaded [of 0 "s\<lparr>dro_data := ds\<rparr>"] by auto
  then show ?thesis
    using ds length_read_u8s [OF ds] by (simp add: dro_read_song_def Let_def dro_ok_def)
qed

text \<open>\<open>CdroPlayer::load\<close> returns on every stream, and an accepted file leaves a player at the
  start of a buffer of exactly \<open>iLength\<close> bytes, which is all that \<open>update\<close> needs.\<close>

theorem dro_load_ok:
  "\<exists>b s'. dro_load io opn mem filename s = Some (b, s') \<and> (b \<longrightarrow> dro_ok s' \<and> dro_iPos s' = 0)"
proof (cases "opn filename")
  case None
  then show ?thesis by (auto simp: dro_load_def)
next
  case (Some f)
  obtain k hdr f1 where h: "bio_readString io 8 (fresh mem 8) f = (k, hdr, f1)" by (metis surj_pair)
  obtain x f2 where x: "bio_readInt io 4 f1 = (x, f2)" by (metis surj_pair)
  obtain y f3 where y: "bio_readInt io 4 f2 = (y, f3)" by (metis surj_pair)
  obtain z f4 where z: "bio_readInt io 4 f3 = (z, f4)" by (metis surj_pair)
  let ?s = "s\<lparr>dro_title := cleared (dro_title s), dro_author := cleared (dro_author s),
              dro_desc := cleared (dro_desc s)\<rparr>"
  obtain b f5 s2 where i: "dro_identify io x y z f4 ?s = (b, f5, s2)" by (metis surj_pair)
  obtain s' where "dro_read_song io f5 s2 = Some (True, s')" "dro_ok s'" "dro_iPos s' = 0"
    using dro_read_song_ok [of io f5 s2] by auto
  then show ?thesis
    using Some h x y z i by (cases "hdr = bytes_of ''DBRAWOPL''"; cases b)
      (simp_all add: dro_load_def ex_bool_eq)
qed

section \<open>Witnesses\<close>

definition dro_sample :: "bytes \<Rightarrow> dro_player" where
  "dro_sample bs =
     \<lparr>opl_out = [], dro_data = bs, dro_iLength = length bs, dro_iPos = 0, dro_iDelay = 0,
      dro_iDataOffset = 0x18, dro_title = [0], dro_author = [0], dro_desc = [0], dro_type = DRO_V1,
      dro_majorVersion = 1, dro_minorVersion = 0\<rparr>"

definition dro_sample_ticks :: "(dro_cmd list \<times> nat) list" where
  "dro_sample_ticks =
     [([WriteReg 0x20 1, Bank 1, WriteReg 4 0x60], 300), ([WriteReg 0xb0 32], 7)]"

lemma dro_replay_witness:
  "\<exists>s'. play dro_update 2 (dro_sample (dro_song dro_sample_ticks @ [0xbd])) = Some s' \<and>
    opl_out s' = [OplWrite 0x20 1, OplSetchip 1, OplWrite 4 0x60, OplWrite 0xb0 32] \<and>
    dro_iDelay s' = 7"
proof -
  let ?s = "dro_sample (dro_song dro_sample_ticks @ [0xbd])"
  have "dro_at (dro_song dro_sample_ticks @ [0xbd]) ?s"
    by (simp add: dro_sample_def dro_at_def dro_ok_def)
  moreover have "list_all (\<lambda>(cs, d). list_all not_delay cs \<and> 0 < d \<and> d \<le> 65536) dro_sample_ticks"
    by (simp add: dro_sample_ticks_def not_delay_def)
  ultimately obtain s' where "play dro_update (length dro_sample_ticks) ?s = Some s'"
    "opl_out s' = opl_out ?s @ concat (map (\<lambda>(cs, d). concat (map dro_events cs)) dro_sample_ticks)"
    "dro_sample_ticks \<noteq> [] \<longrightarrow> dro_iDelay s' = snd (last dro_sample_ticks)"
    using dro_replay [of dro_sample_ticks "[0xbd]" ?s] by blast
  moreover have len: "length dro_sample_ticks = 2" and "opl_out ?s = []"
    by (simp_all add: dro_sample_ticks_def dro_sample_def)
  ultimately have "play dro_update 2 ?s = Some s'"
    "opl_out s' = concat (map (\<lambda>(cs, d). concat (map dro_events cs)) dro_sample_ticks)"
    "dro_sample_ticks \<noteq> [] \<longrightarrow> dro_iDelay s' = snd (last dro_sample_ticks)"
    unfolding len by simp_all
  then show ?thesis
    by (intro exI [of _ s'] conjI) (simp_all only: dro_sample_ticks_def, simp_all)
qed

lemma dro_verifyLength_bounds_witness:
  "\<exists>f' s'. dro_verifyLength memio False 4 0x1c (mem_file []) (dro_sample []) = (True, f', s') \<and>
    dro_iDataOffset s' + dro_iLength s' \<le> 0x1c"
proof -
  obtain f' s' where "dro_verifyLength memio False 4 0x1c (mem_file []) (dro_sample []) = (True, f', s')"
    by (simp add: dro_verifyLength.simps ulong_def)
  with dro_verifyLength_bounds [OF this] show ?thesis by auto
qed

lemma dro_load_ok_witness:
  "\<exists>b s'. dro_load memio (\<lambda>_. Some (mem_file (bytes_of ''DBRAWOPL''))) (\<lambda>_. 0) ''a.dro'' (dro_sample []) =
      Some (b, s') \<and> (b \<longrightarrow> dro_ok s' \<and> dro_iPos s' = 0)"
  by (rule dro_load_ok)

end
