(* ===== verification/Dro2.thy ===== *)
theory Dro2
  imports Loader
begin

text \<open>
  \<open>src/dro2.cpp\<close>, \<open>src/dro2.h\<close>: the player of DOSBox Raw OPL captures, version 2.0: pairs of an
  index into a register table and a value.
\<close>

record dro2_player = cplayer +
  d2_iCmdDelayS :: u8
  d2_iCmdDelayL :: u8
  d2_iConvTableLen :: u8
  d2_piConvTable :: bytes
  d2_data :: bytes
  d2_iLength :: nat
  d2_iPos :: nat
  d2_iDelay :: nat
  d2_title :: bytes
  d2_author :: bytes
  d2_desc :: bytes

section \<open>Loading\<close>

text \<open>The tag block at the end of the file.\<close>

definition d2_read_tags :: "('s, 'fl) binio \<Rightarrow> 's \<Rightarrow> dro2_player \<Rightarrow> dro2_player" where
  "d2_read_tags io f s =
     (let (fsize, f0) = fp_filesize io f;
          tagsize = int32 (int fsize - int (bio_pos io f0))
      in if tagsize < 3 then s
         else
           let (a, f1) = read_u8 io f0;
               (b, f2) = (if a \<noteq> 0xff then (0, f1) else read_u8 io f1);
               (c, f3) = (if a \<noteq> 0xff \<or> b \<noteq> 0xff then (0, f2) else read_u8 io f2)
           in if a \<noteq> 0xff \<or> b \<noteq> 0xff \<or> c \<noteq> 0x1a then s
              else
                let (title, f4) = bio_readStringZ io 40 0 (d2_title s) f3;
                    s1 = s\<lparr>d2_title := title\<rparr>;
                    (x, f5) = bio_readInt io 1 f4;
                    (s2, f6) =
                      (if x \<noteq> 0x1b then (s1, bio_seekAdd io (-1) f5)
                       else let (author, f6) = bio_readStringZ io 40 0 (d2_author s1) f5
                            in (s1\<lparr>d2_author := author\<rparr>, f6));
                    (y, f7) = bio_readInt io 1 f6
                in if y \<noteq> 0x1c then s2
                   else let (desc, f8) = bio_readStringZ io 1023 0 (d2_desc s2) f7
                        in s2\<lparr>d2_desc := desc\<rparr>)"

definition d2_rewind :: "int \<Rightarrow> dro2_player \<Rightarrow> dro2_player option" where
  "d2_rewind subsong s = Some (opl_init (s\<lparr>d2_iDelay := 0, d2_iPos := 0\<rparr>))"

definition d2_load ::
  "('s, 'fl) binio \<Rightarrow> 's opener \<Rightarrow> (nat \<Rightarrow> u8) \<Rightarrow> string \<Rightarrow> dro2_player \<Rightarrow> (bool \<times> dro2_player) option"
where
  "d2_load io opn mem filename s =
     (case opn filename of None \<Rightarrow> Some (False, s) | Some f \<Rightarrow>
       (let (_, hdr, f1) = bio_readString io 8 (fresh mem 8) f
        in if hdr \<noteq> bytes_of ''DBRAWOPL'' then Some (False, s)
           else
             let (version, f2) = bio_readInt io 4 f1
             in if version \<noteq> 2 then Some (False, s)
                else
                  let (n, f3) = bio_readInt io 4 f2;
                      len = uint32 n;
                      s1 = s\<lparr>d2_iLength := len\<rparr>;
                      (fsize, f4) = (if len \<ge> 2 ^ 30 then (0, f3) else fp_filesize io f3)
                  in if len \<ge> 2 ^ 30 \<or> len > ulong (int fsize - int (bio_pos io f4)) then Some (False, s1)
                     else
                       let s2 = s1\<lparr>d2_iLength := uint32 (int len * 2)\<rparr>;
                           f5 = bio_ignore io 1 (bio_ignore io 4 f4);
                           (iFormat, f6) = bio_readInt io 1 f5
                       in if iFormat \<noteq> 0 then Some (False, s2)
                          else
                            let (iCompression, f7) = bio_readInt io 1 f6
                            in if iCompression \<noteq> 0 then Some (False, s2)
                               else do {
                                 let (ds, f8) = read_u8 io f7;
                                 let (dl, f9) = read_u8 io f8;
                                 let (tl, f10) = read_u8 io f9;
                                 let (_, table, f11) =
                                   bio_readString io (unat tl) (fresh mem (unat tl)) f10;
                                 let (_, song, f12) =
                                   bio_readString io (d2_iLength s2) (fresh mem (d2_iLength s2)) f11;
                                 let s3 = s2\<lparr>d2_iCmdDelayS := ds, d2_iCmdDelayL := dl,
                                             d2_iConvTableLen := tl, d2_piConvTable := table,
                                             d2_data := song,
                                             d2_title := (d2_title s2)[0 := 0],
                                             d2_author := (d2_author s2)[0 := 0],
                                             d2_desc := (d2_desc s2)[0 := 0]\<rparr>;
                                 s4 \<leftarrow> d2_rewind 0 (d2_read_tags io f12 s3);
                                 Some (True, s4)
                               }))"

section \<open>Playing\<close>

partial_function (option) d2_update :: "dro2_player \<Rightarrow> (bool \<times> dro2_player) option" where
  "d2_update s =
     (if d2_iPos s < d2_iLength s then do {
        idx \<leftarrow> rd (d2_data s) (d2_iPos s);
        iValue \<leftarrow> rd (d2_data s) (d2_iPos s + 1);
        let s1 = s\<lparr>d2_iPos := d2_iPos s + 2\<rparr>;
        if idx = d2_iCmdDelayS s1 then Some (True, s1\<lparr>d2_iDelay := unat iValue + 1\<rparr>)
        else if idx = d2_iCmdDelayL s1 then Some (True, s1\<lparr>d2_iDelay := push_bit 8 (unat iValue + 1)\<rparr>)
        else do {
          let chip = (if unat idx AND 0x80 \<noteq> 0 then 1 else 0);
          let iIndex = (if unat idx AND 0x80 \<noteq> 0 then unat idx AND 0x7F else unat idx);
          let s2 = opl_setchip chip s1;
          if iIndex \<ge> unat (d2_iConvTableLen s2) then Some (False, s2)
          else do {
            iReg \<leftarrow> rd (d2_piConvTable s2) iIndex;
            d2_update (opl_write (uint iReg) (uint iValue) s2)
          }
        }
      }
      else Some (d2_iPos s < d2_iLength s, s))"

definition d2_divisor :: "dro2_player \<Rightarrow> nat" where
  "d2_divisor s = (if d2_iDelay s > 0 then d2_iDelay s else 1)"

section \<open>The contract\<close>

text \<open>Positions stay even, so that a pair is never cut in two at the end of the buffer.\<close>

definition d2_ok :: "dro2_player \<Rightarrow> bool" where
  "d2_ok s \<longleftrightarrow> d2_iLength s = length (d2_data s) \<and> even (d2_iLength s) \<and> even (d2_iPos s) \<and>
     length (d2_piConvTable s) = unat (d2_iConvTableLen s)"

definition d2_left :: "dro2_player \<Rightarrow> nat" where
  "d2_left s = d2_iLength s - d2_iPos s"

definition d2_step_ok :: "dro2_player \<Rightarrow> bool \<Rightarrow> dro2_player \<Rightarrow> bool" where
  "d2_step_ok s go s' \<longleftrightarrow> d2_ok s' \<and> d2_data s' = d2_data s \<and>
     (\<exists>es. opl_out s' = opl_out s @ es) \<and>
     (go \<longrightarrow> d2_iPos s < d2_iPos s' \<and> d2_iPos s < d2_iLength s \<and> d2_iDelay s' \<noteq> 0)"

lemma d2_pair:
  assumes "d2_ok s" "d2_iPos s < d2_iLength s"
  shows "d2_iPos s < length (d2_data s)" "d2_iPos s + 1 < length (d2_data s)"
proof -
  show "d2_iPos s < length (d2_data s)" using assms by (simp add: d2_ok_def)
  have "even (d2_iPos s)" "even (length (d2_data s))" using assms by (auto simp: d2_ok_def)
  then have "d2_iPos s + 1 \<noteq> length (d2_data s)" by (metis even_plus_one_iff)
  with \<open>d2_iPos s < length (d2_data s)\<close> show "d2_iPos s + 1 < length (d2_data s)" by linarith
qed

lemma d2_ok_delay [simp]: "d2_ok (s\<lparr>d2_iDelay := x\<rparr>) = d2_ok s"
  by (simp add: d2_ok_def)

lemma d2_update_ok: "d2_ok s \<Longrightarrow> \<exists>go s'. d2_update s = Some (go, s') \<and> d2_step_ok s go s'"
proof (induction "d2_left s" arbitrary: s rule: less_induct)
  case less
  show ?case
  proof (cases "d2_iPos s < d2_iLength s")
    case False
    then show ?thesis using less.prems by (subst d2_update.simps) (auto simp: d2_step_ok_def)
  next
    case True
    let ?p = "d2_iPos s" and ?i = "d2_data s ! d2_iPos s" and ?v = "d2_data s ! (d2_iPos s + 1)"
    have rd: "rd (d2_data s) ?p = Some ?i" "rd (d2_data s) (?p + 1) = Some ?v"
      using d2_pair [OF less.prems True] by (simp_all add: access_simps)
    let ?s1 = "s\<lparr>d2_iPos := ?p + 2\<rparr>"
    have ok1: "d2_ok ?s1" using less.prems unfolding d2_ok_def by auto
    consider (S) "?i = d2_iCmdDelayS s" | (L) "?i \<noteq> d2_iCmdDelayS s" "?i = d2_iCmdDelayL s"
      | (wr) "?i \<noteq> d2_iCmdDelayS s" "?i \<noteq> d2_iCmdDelayL s" by blast
    then show ?thesis
    proof cases
      case S
      then show ?thesis using True rd ok1
        by (intro exI [of _ True], subst d2_update.simps)
           (simp add: d2_step_ok_def Let_def push_bit_eq_mult)
    next
      case L
      then show ?thesis using True rd ok1
        by (intro exI [of _ True], subst d2_update.simps)
           (simp add: d2_step_ok_def Let_def push_bit_eq_mult)
    next
      case wr
      define c x :: nat where
        "c = (if unat ?i AND 0x80 \<noteq> 0 then 1 else 0)" and
        "x = (if unat ?i AND 0x80 \<noteq> 0 then unat ?i AND 0x7F else unat ?i)"
      let ?s2 = "opl_setchip (int c) ?s1"
      have ok_out [simp]: "d2_ok (t\<lparr>opl_out := es\<rparr>) = d2_ok t" for t es by (simp add: d2_ok_def)
      have ok2: "d2_ok ?s2" using ok1 by (simp add: opl_calls)
      have step: "d2_update s =
          (if x \<ge> unat (d2_iConvTableLen s) then Some (False, ?s2)
           else do { r \<leftarrow> rd (d2_piConvTable s) x; d2_update (opl_write (uint r) (uint ?v) ?s2) })"
        using True rd wr by (subst d2_update.simps) (simp add: Let_def c_def x_def opl_calls)
      show ?thesis
      proof (cases "x \<ge> unat (d2_iConvTableLen s)")
        case True
        then show ?thesis using step ok2 by (simp add: d2_step_ok_def opl_calls ex_bool_eq)
      next
        case False
        let ?t = "opl_write (uint (d2_piConvTable s ! x)) (uint ?v) ?s2"
        have "rd (d2_piConvTable s) x = Some (d2_piConvTable s ! x)"
          using False less.prems by (simp add: d2_ok_def access_simps)
        then have "d2_update s = d2_update ?t" using step False by simp
        moreover have "d2_ok ?t" using ok2 by (simp add: opl_calls)
        moreover from this have "d2_left ?t < d2_left s" using True by (simp add: d2_left_def opl_calls)
        ultimately obtain go s' where "d2_update s = Some (go, s')" "d2_step_ok ?t go s'"
          using less.hyps by metis
        then have "d2_step_ok s go s'" using True by (auto simp: d2_step_ok_def opl_calls)
        with \<open>d2_update s = Some (go, s')\<close> show ?thesis by blast
      qed
    qed
  qed
qed

interpretation d2_contract: ending_player d2_update d2_rewind d2_ok d2_left
proof unfold_locales
  fix s s' :: dro2_player and n es go
  show "d2_ok s \<Longrightarrow> \<exists>go s'. d2_update s = Some (go, s') \<and> d2_ok s'"
    using d2_update_ok [of s] by (auto simp: d2_step_ok_def)
  show "d2_ok s \<Longrightarrow> \<exists>s'. d2_rewind n s = Some s' \<and> d2_ok s'"
    unfolding d2_rewind_def opl_calls d2_ok_def by auto
  show "d2_ok (s\<lparr>opl_out := es\<rparr>) = d2_ok s" by (simp add: d2_ok_def)
  show "d2_ok s \<Longrightarrow> d2_update s = Some (go, s') \<Longrightarrow> \<exists>es. opl_out s' = opl_out s @ es"
    using d2_update_ok [of s] by (auto simp: d2_step_ok_def)
  show "d2_ok s \<Longrightarrow> d2_update s = Some (True, s') \<Longrightarrow> d2_left s' < d2_left s"
    using d2_update_ok [of s] by (auto simp: d2_step_ok_def d2_ok_def d2_left_def)
qed

section \<open>Properties\<close>

lemma d2_read_tags_same:
  "d2_data (d2_read_tags io f s) = d2_data s" "d2_iLength (d2_read_tags io f s) = d2_iLength s"
  "d2_piConvTable (d2_read_tags io f s) = d2_piConvTable s"
  "d2_iConvTableLen (d2_read_tags io f s) = d2_iConvTableLen s"
  by (simp_all add: d2_read_tags_def Let_def case_prod_beta)

text \<open>A version 2.0 capture that \<open>load\<close> accepts can be measured, sought and played to its end
  without leaving its buffers: the song holds whole pairs and the register table has the size
  \<open>update\<close> checks against. (The file's count of pairs is compared with the bytes left in the file, so
  \<open>load\<close> also accepts a song that is cut short; the rest of its buffer is then whatever memory held.)\<close>

theorem d2_load_playable:
  assumes laws: "stream_laws io P" and opens: "\<And>f. opn filename = Some f \<Longrightarrow> P f"
  shows "\<exists>b s'. d2_load io opn mem filename s = Some (b, s') \<and>
    (b \<longrightarrow> d2_iPos s' = 0 \<and>
      (\<exists>len t. songlength d2_update d2_rewind refresh fl subsong s' = Some (len, t) \<and> opl_out t = opl_out s') \<and>
      (\<exists>t. seek d2_update d2_rewind refresh fl ms s' = Some t))"
proof -
  have fin: "\<exists>b s'. d2_load io opn mem filename s = Some (b, s') \<and> (b \<longrightarrow> d2_ok s' \<and> d2_iPos s' = 0)"
  proof (cases "opn filename")
    case None
    then show ?thesis by (auto simp: d2_load_def)
  next
    case (Some f)
    obtain k h f1 where f1: "bio_readString io 8 (fresh mem 8) f = (k, h, f1)" "P f1"
      using stream_lawsD(3) [OF laws opens [OF Some]] by (metis surj_pair)
    obtain v f2 where f2: "bio_readInt io 4 f1 = (v, f2)" "P f2"
      using stream_lawsD(2) [OF laws f1(2)] by (metis surj_pair)
    obtain n f3 where f3: "bio_readInt io 4 f2 = (n, f3)" "P f3"
      using stream_lawsD(2) [OF laws f2(2)] by (metis surj_pair)
    obtain z f4 where f4: "fp_filesize io f3 = (z, f4)" "P f4"
      using filesize_stream [OF laws f3(2)] by (metis surj_pair)
    define f5 where "f5 = bio_ignore io 1 (bio_ignore io 4 f4)"
    have "P f5" unfolding f5_def by (intro stream_lawsD(9) [OF laws] f4(2))
    then obtain a f6 where f6: "bio_readInt io 1 f5 = (a, f6)" "P f6"
      using stream_lawsD(2) [OF laws] by (metis surj_pair)
    obtain c f7 where f7: "bio_readInt io 1 f6 = (c, f7)" "P f7"
      using stream_lawsD(2) [OF laws f6(2)] by (metis surj_pair)
    obtain ds f8 where f8: "read_u8 io f7 = (ds, f8)" "P f8"
      using read_u8_stream [OF laws f7(2)] by (metis surj_pair)
    obtain dl f9 where f9: "read_u8 io f8 = (dl, f9)" "P f9"
      using read_u8_stream [OF laws f8(2)] by (metis surj_pair)
    obtain tl f10 where f10: "read_u8 io f9 = (tl, f10)" "P f10"
      using read_u8_stream [OF laws f9(2)] by (metis surj_pair)
    obtain k1 tab f11 where f11: "bio_readString io (unat tl) (fresh mem (unat tl)) f10 = (k1, tab, f11)"
      "P f11" "length tab = unat tl"
      using stream_lawsD(3) [OF laws f10(2)] length_fresh by (metis surj_pair le_refl)
    define len where "len = uint32 (int (uint32 n) * 2)"
    obtain k2 song f12 where f12: "bio_readString io len (fresh mem len) f11 = (k2, song, f12)"
      "length song = len"
      using stream_lawsD(3) [OF laws f11(2)] length_fresh by (metis surj_pair le_refl)
    have "even ((int (uint32 n) * 2) mod 2 ^ 32)" by (subst dvd_mod_iff) simp_all
    then have "even len" unfolding len_def uint32_def [of "int (uint32 n) * 2"]
      by (subst even_nat_iff) simp_all
    then show ?thesis
      using Some f1(1) f2(1) f3(1) f4(1) f6(1) f7(1) f8(1) f9(1) f10(1) f11(1,3) f12
      unfolding f5_def len_def
      by (auto simp: d2_load_def Let_def d2_rewind_def opl_calls d2_read_tags_same d2_ok_def)
  qed
  then show ?thesis
    using d2_contract.songlength_returns d2_contract.seek_returns by metis
qed

section \<open>Witnesses\<close>

definition d2_sample :: dro2_player where
  "d2_sample =
     \<lparr>opl_out = [], d2_iCmdDelayS = 0, d2_iCmdDelayL = 0, d2_iConvTableLen = 0, d2_piConvTable = [],
      d2_data = [], d2_iLength = 0, d2_iPos = 0, d2_iDelay = 0, d2_title = [0], d2_author = [0],
      d2_desc = [0]\<rparr>"

definition d2_file :: bytes where
  "d2_file = bytes_of ''DBRAWOPL'' @ [2, 0, 0, 0, 1, 0, 0, 0, 0, 0, 0, 0, 0, 0, 0, 0x7e, 0x7f, 1, 0x20, 0, 1]"

definition nat_floats :: "(nat, nat) float_ops" where
  "nat_floats = \<lparr>f_zero = 0, f_below = (<), f_tick = (+), f_ulong = (\<lambda>n. n)\<rparr>"

lemma d2_load_playable_witness:
  "\<exists>b s'. d2_load memio (\<lambda>_. Some (mem_file d2_file)) (\<lambda>_. 0) ''a.dro'' d2_sample = Some (b, s') \<and>
    (b \<longrightarrow> d2_iPos s' = 0 \<and>
      (\<exists>len t. songlength d2_update d2_rewind d2_divisor nat_floats 0 s' = Some (len, t) \<and> opl_out t = opl_out s') \<and>
      (\<exists>t. seek d2_update d2_rewind d2_divisor nat_floats 100 s' = Some t))"
  by (rule d2_load_playable [OF mem_stream_laws [of d2_file]])
     (simp add: d2_file_def mem_ok_def mem_file_def bytes_of_def)

end
