(* ===== verification/Xsm.thy ===== *)
theory Xsm
  imports Loader
begin

text \<open>
  \<open>src/xsm.cpp\<close>, \<open>src/xsm.h\<close>: the player of eXtra Simple Music: nine channels, one note byte per
  channel and row. The bytes are \<open>char\<close>, which is signed here: a byte of 128 or more is a
  negative note, and C's remainder and quotient keep its sign.
\<close>

record xsm_player = cplayer +
  xsm_songlen :: u16
  xsm_music :: "int list"
  xsm_last :: nat
  xsm_notenum :: nat
  xsm_songend :: bool
  xsm_inst :: "bytes list"

section \<open>Loading\<close>

fun xsm_read_inst :: "('s, 'fl) binio \<Rightarrow> nat \<Rightarrow> 's \<Rightarrow> bytes list \<times> 's" where
  "xsm_read_inst io 0 f = ([], f)"
| "xsm_read_inst io (Suc n) f =
     (let (value, f1) = read_u8s io 11 f;
          f2 = bio_ignore io 5 f1;
          (r, f3) = xsm_read_inst io n f2
      in (value # r, f3))"

text \<open>The inner loop fills the cells \<open>j * 9 + i\<close> of one channel \<open>i\<close>.\<close>

fun xsm_read_channel ::
  "('s, 'fl) binio \<Rightarrow> nat \<Rightarrow> nat list \<Rightarrow> int list \<Rightarrow> 's \<Rightarrow> (int list \<times> 's) option"
where
  "xsm_read_channel io i [] music f = Some (music, f)"
| "xsm_read_channel io i (j # js) music f = do {
     let (v, f1) = bio_readInt io 1 f;
     music1 \<leftarrow> wr music (j * 9 + i) (to_s8 v);
     xsm_read_channel io i js music1 f1
   }"

fun xsm_read_music ::
  "('s, 'fl) binio \<Rightarrow> nat list \<Rightarrow> nat \<Rightarrow> int list \<Rightarrow> 's \<Rightarrow> (int list \<times> 's) option"
where
  "xsm_read_music io [] songlen music f = Some (music, f)"
| "xsm_read_music io (i # is) songlen music f = do {
     (music1, f1) \<leftarrow> xsm_read_channel io i [0..<songlen] music f;
     xsm_read_music io is songlen music1 f1
   }"

definition xsm_set_inst :: "nat \<Rightarrow> xsm_player \<Rightarrow> xsm_player option" where
  "xsm_set_inst i s = do {
     op \<leftarrow> rd op_table i;
     inst \<leftarrow> rd (xsm_inst s) i;
     let w = (\<lambda>base j t. do { v \<leftarrow> rd inst j; Some (opl_write (base + op) (uint v) t) });
     s \<leftarrow> w 0x20 0 s; s \<leftarrow> w 0x23 1 s; s \<leftarrow> w 0x40 2 s; s \<leftarrow> w 0x43 3 s;
     s \<leftarrow> w 0x60 4 s; s \<leftarrow> w 0x63 5 s; s \<leftarrow> w 0x80 6 s; s \<leftarrow> w 0x83 7 s;
     s \<leftarrow> w 0xe0 8 s; s \<leftarrow> w 0xe3 9 s; w 0xc0 10 s
   }"

definition xsm_rewind :: "int \<Rightarrow> xsm_player \<Rightarrow> xsm_player option" where
  "xsm_rewind subsong s =
     ofold xsm_set_inst [0..<9]
       (opl_write 1 32 (opl_init (s\<lparr>xsm_notenum := 0, xsm_last := 0, xsm_songend := False\<rparr>)))"

definition xsm_load ::
  "('s, 'fl) binio \<Rightarrow> 's opener \<Rightarrow> (nat \<Rightarrow> u8) \<Rightarrow> string \<Rightarrow> xsm_player \<Rightarrow> (bool \<times> xsm_player) option"
where
  "xsm_load io opn mem filename s =
     (case opn filename of None \<Rightarrow> Some (False, s) | Some f \<Rightarrow>
       (let (_, hdr, f1) = bio_readString io 6 (fresh mem 6) f;
            (n, f2) = read_u16 io f1;
            s1 = s\<lparr>xsm_songlen := n\<rparr>
        in if hdr \<noteq> bytes_of ''ofTAZ!'' \<or> n > 3200 then Some (False, s1)
           else do {
             let (inst, f3) = xsm_read_inst io 9 f2;
             (music, f4) \<leftarrow> xsm_read_music io [0..<9] (unat n)
               (map (\<lambda>b. to_s8 (uint b)) (fresh mem (unat n * 9))) f3;
             s2 \<leftarrow> xsm_rewind 0 (s1\<lparr>xsm_inst := inst, xsm_music := music\<rparr>);
             Some (True, s2)
           }))"

section \<open>Playing\<close>

definition xsm_play_note :: "nat \<Rightarrow> int \<Rightarrow> int \<Rightarrow> xsm_player \<Rightarrow> xsm_player option" where
  "xsm_play_note c note octv s = do {
     freq0 \<leftarrow> rd_int note_table note;
     let freq = (if note = 0 \<and> octv = 0 then 0 else freq0);
     let s1 = opl_write (0xa0 + int c) (freq AND 0xff) s;
     Some (opl_write (0xb0 + int c) (c_div freq 0xff OR 32 OR (octv * 4)) s1)
   }"

definition xsm_key_off :: "nat \<Rightarrow> xsm_player \<Rightarrow> xsm_player option" where
  "xsm_key_off c s = do {
     a \<leftarrow> rd (xsm_music s) (xsm_notenum s * 9 + c);
     b \<leftarrow> rd (xsm_music s) (xsm_last s * 9 + c);
     Some (if a \<noteq> b then opl_write (0xb0 + int c) 0 s else s)
   }"

definition xsm_note :: "nat \<Rightarrow> xsm_player \<Rightarrow> xsm_player option" where
  "xsm_note c s = do {
     a \<leftarrow> rd (xsm_music s) (xsm_notenum s * 9 + c);
     if a \<noteq> 0 then xsm_play_note c (c_mod a 12) (c_div a 12) s else xsm_play_note c 0 0 s
   }"

definition xsm_update :: "xsm_player \<Rightarrow> (bool \<times> xsm_player) option" where
  "xsm_update s = do {
     let s1 = (if xsm_notenum s \<ge> unat (xsm_songlen s)
               then s\<lparr>xsm_songend := True, xsm_notenum := 0, xsm_last := 0\<rparr> else s);
     s2 \<leftarrow> ofold xsm_key_off [0..<9] s1;
     s3 \<leftarrow> ofold xsm_note [0..<9] s2;
     let s4 = s3\<lparr>xsm_last := xsm_notenum s3, xsm_notenum := xsm_notenum s3 + 1\<rparr>;
     Some (\<not> xsm_songend s4, s4)
   }"

section \<open>Properties\<close>

text \<open>
  Songs the player handles: at least one row, and no byte that is a negative \<open>char\<close>.
\<close>

definition xsm_ok :: "xsm_player \<Rightarrow> bool" where
  "xsm_ok s \<longleftrightarrow>
     length (xsm_music s) = 9 * unat (xsm_songlen s) \<and> 0 < unat (xsm_songlen s) \<and>
     list_all (\<lambda>v. 0 \<le> v \<and> v < 128) (xsm_music s) \<and> matrix 9 11 (xsm_inst s) \<and>
     xsm_notenum s \<le> unat (xsm_songlen s) \<and> xsm_last s < unat (xsm_songlen s)"

text \<open>What the operations on one channel leave alone.\<close>

definition xsm_same :: "xsm_player \<Rightarrow> xsm_player \<Rightarrow> bool" where
  "xsm_same s t \<longleftrightarrow> (\<exists>es. t = s\<lparr>opl_out := opl_out s @ es\<rparr>)"

lemma xsm_same_refl [simp]: "xsm_same s s"
  unfolding xsm_same_def by (intro exI [of _ "[]"]) simp

lemma xsm_same_write: "xsm_same s t \<Longrightarrow> xsm_same s (opl_write r v t)"
  by (auto simp: xsm_same_def opl_calls)

lemma xsm_sameD: "xsm_same s t \<Longrightarrow> xsm_music t = xsm_music s \<and> xsm_notenum t = xsm_notenum s \<and>
    xsm_last t = xsm_last s \<and> xsm_songlen t = xsm_songlen s \<and> xsm_inst t = xsm_inst s \<and>
    xsm_songend t = xsm_songend s \<and> (\<exists>es. opl_out t = opl_out s @ es)"
  by (auto simp: xsm_same_def)

lemma xsm_play_note_ok:
  assumes "0 \<le> note" "note < 12" "xsm_same s t"
  shows "\<exists>t'. xsm_play_note c note octv t = Some t' \<and> xsm_same s t'"
  using assms by (simp add: xsm_play_note_def access_simps Let_def xsm_same_write)

lemma xsm_channels_ok:
  assumes step: "\<And>c t. c < 9 \<Longrightarrow> xsm_same s t \<Longrightarrow> \<exists>t'. f c t = Some t' \<and> xsm_same s t'"
    and s: "xsm_same s t"
  shows "\<exists>t'. ofold f [0..<9] t = Some t' \<and> xsm_same s t'"
  using ofold_invariant [of "xsm_same s" t "[0..<9]" f] step s by auto

lemma xsm_update_ok:
  assumes ok: "xsm_ok s"
  shows "\<exists>go s'. xsm_update s = Some (go, s') \<and> xsm_ok s' \<and> (\<exists>es. opl_out s' = opl_out s @ es)"
proof -
  define s1 where "s1 = (if xsm_notenum s \<ge> unat (xsm_songlen s)
               then s\<lparr>xsm_songend := True, xsm_notenum := 0, xsm_last := 0\<rparr> else s)"
  have s1: "xsm_ok s1" "xsm_notenum s1 < unat (xsm_songlen s1)" "opl_out s1 = opl_out s"
    using ok by (auto simp: s1_def xsm_ok_def)
  have cell: "rd (xsm_music s1) (r * 9 + c) = Some (xsm_music s1 ! (r * 9 + c)) \<and>
      0 \<le> xsm_music s1 ! (r * 9 + c) \<and> xsm_music s1 ! (r * 9 + c) < 128"
    if "r < unat (xsm_songlen s1)" "c < 9" for r c
  proof -
    have "r * 9 + c < length (xsm_music s1)" using that s1(1) by (simp add: xsm_ok_def)
    then show ?thesis using s1(1) by (simp add: xsm_ok_def list_all_length access_simps)
  qed
  have last: "xsm_last s1 < unat (xsm_songlen s1)" using s1(1) by (simp add: xsm_ok_def)
  obtain s2 where s2: "ofold xsm_key_off [0..<9] s1 = Some s2" "xsm_same s1 s2"
  proof -
    have "\<exists>t'. xsm_key_off c t = Some t' \<and> xsm_same s1 t'" if "c < 9" "xsm_same s1 t" for c t
      using that xsm_sameD [OF that(2)] cell [OF s1(2) that(1)] cell [OF last that(1)]
      by (simp add: xsm_key_off_def xsm_same_write)
    then show ?thesis using xsm_channels_ok that xsm_same_refl by blast
  qed
  obtain s3 where s3: "ofold xsm_note [0..<9] s2 = Some s3" "xsm_same s1 s3"
  proof -
    have "\<exists>t'. xsm_note c t = Some t' \<and> xsm_same s1 t'" if "c < 9" "xsm_same s1 t" for c t
    proof -
      let ?a = "xsm_music s1 ! (xsm_notenum s1 * 9 + c)"
      have a: "rd (xsm_music t) (xsm_notenum t * 9 + c) = Some ?a" "0 \<le> ?a"
        using xsm_sameD [OF that(2)] cell [OF s1(2) that(1)] by simp_all
      then have "0 \<le> c_mod ?a 12" "c_mod ?a 12 < 12" by (simp_all add: c_mod_nonneg)
      with a that(2) show ?thesis
        using xsm_play_note_ok [of "c_mod ?a 12" s1 t c "c_div ?a 12"] xsm_play_note_ok [of 0 s1 t c 0]
        by (simp add: xsm_note_def)
    qed
    then show ?thesis using xsm_channels_ok that s2(2) by blast
  qed
  have "xsm_update s = Some (\<not> xsm_songend s3,
      s3\<lparr>xsm_last := xsm_notenum s3, xsm_notenum := xsm_notenum s3 + 1\<rparr>)"
    using s2(1) s3(1) by (simp add: xsm_update_def Let_def s1_def [symmetric])
  then show ?thesis using xsm_sameD [OF s3(2)] s1 by (auto simp: xsm_ok_def)
qed

lemma xsm_rewind_ok:
  assumes ok: "xsm_ok s"
  shows "\<exists>s'. xsm_rewind n s = Some s' \<and> xsm_ok s'"
proof -
  let ?s = "opl_write 1 32 (opl_init (s\<lparr>xsm_notenum := 0, xsm_last := 0, xsm_songend := False\<rparr>))"
  have m: "matrix 9 11 (xsm_inst ?s)" using ok by (simp add: xsm_ok_def opl_calls)
  have "\<exists>t'. xsm_set_inst c t = Some t' \<and> xsm_same ?s t'" if c: "c < 9" and t: "xsm_same ?s t" for c t
  proof -
    have "xsm_inst t = xsm_inst ?s" using xsm_sameD [OF t] by simp
    then have "rd (xsm_inst t) c = Some (xsm_inst ?s ! c)" "length (xsm_inst ?s ! c) = 11"
      using m c by (simp_all add: access_simps matrix_length)
    moreover have "rd op_table c = Some (op_table ! c)" using c by (simp add: access_simps)
    ultimately show ?thesis
      using t by (simp add: xsm_set_inst_def Let_def access_simps xsm_same_write)
  qed
  then obtain s' where "xsm_rewind n s = Some s'" "xsm_same ?s s'"
    unfolding xsm_rewind_def using xsm_channels_ok [of ?s xsm_set_inst ?s] by auto
  moreover have "xsm_ok s'"
    using xsm_sameD [OF \<open>xsm_same ?s s'\<close>] ok by (simp add: xsm_ok_def opl_calls)
  ultimately show ?thesis by blast
qed

interpretation xsm_contract: player xsm_update xsm_rewind xsm_ok
proof unfold_locales
  fix s s' :: xsm_player and n es go
  show "xsm_ok s \<Longrightarrow> \<exists>go s'. xsm_update s = Some (go, s') \<and> xsm_ok s'" using xsm_update_ok by blast
  show "xsm_ok s \<Longrightarrow> \<exists>s'. xsm_rewind n s = Some s' \<and> xsm_ok s'" by (rule xsm_rewind_ok)
  show "xsm_ok (s\<lparr>opl_out := es\<rparr>) = xsm_ok s" by (simp add: xsm_ok_def)
  show "xsm_ok s \<Longrightarrow> xsm_update s = Some (go, s') \<Longrightarrow> \<exists>es. opl_out s' = opl_out s @ es"
    using xsm_update_ok [of s] by auto
qed

text \<open>The quotient by 255 the code uses is the quotient by 256 the chip wants, for every note.\<close>

lemma note_table_quotient:
  "f \<in> set note_table \<Longrightarrow> c_div f 255 = f div 256"
  by (auto simp: note_table_def c_div_def)

text \<open>From a player whose song has at least one row and only notes below 128, any number of
  ticks can be played, before and after any \<open>rewind\<close>, without an access outside the music, the
  note table or the instruments, and the chip's log only grows.\<close>

theorem xsm_plays:
  assumes "xsm_ok s"
  shows "\<exists>s1 s2 es. play xsm_update n s = Some s1 \<and> xsm_rewind sub s1 = Some s2 \<and> xsm_ok s2 \<and>
    opl_out s1 = opl_out s @ es"
  using xsm_contract.play_ok [OF assms, of n] xsm_rewind_ok [of _ sub] by blast

text \<open>A song the file calls empty is accepted by \<open>load\<close>, and its first \<open>update\<close> reads outside
  the music array: the length check has no lower bound.\<close>

theorem xsm_empty_song_reads_outside:
  "xsm_songlen s = 0 \<Longrightarrow> xsm_music s = [] \<Longrightarrow> xsm_update s = None"
  by (simp add: xsm_update_def Let_def upt_rec [of 0] xsm_key_off_def access_simps)

text \<open>A note byte of 128 or more on the first channel indexes the note table with a negative
  number, unless it is a multiple of twelve.\<close>

theorem xsm_negative_note:
  assumes "xsm_notenum s < unat (xsm_songlen s)" "xsm_last s = xsm_notenum s"
    and "length (xsm_music s) = 9 * unat (xsm_songlen s)"
    and "xsm_music s ! (xsm_notenum s * 9) < 0" "\<not> 12 dvd xsm_music s ! (xsm_notenum s * 9)"
  shows "xsm_update s = None"
proof -
  let ?a = "xsm_music s ! (xsm_notenum s * 9)"
  have rd: "rd (xsm_music s) (xsm_notenum s * 9 + c) = Some (xsm_music s ! (xsm_notenum s * 9 + c))"
    if "c < 9" for c using assms(1,3) that by (simp add: access_simps)
  have "xsm_key_off c s = Some s" if "c < 9" for c
    using rd [OF that] assms(2) by (simp add: xsm_key_off_def)
  then have off: "ofold xsm_key_off [0..<9] s = Some s"
    using ofold_invariant [of "\<lambda>t. t = s" s "[0..<9]" xsm_key_off] by auto
  have "c_mod ?a 12 = - ((- ?a) mod 12)"
    using assms(4) by (simp add: c_mod_def c_div_def minus_div_mult_eq_mod [symmetric])
  moreover have "(- ?a) mod 12 \<noteq> 0" using assms(5) by (metis dvd_minus_iff mod_0_imp_dvd)
  moreover have "0 \<le> (- ?a) mod 12" by simp
  ultimately have "c_mod ?a 12 < 0" by linarith
  then have "xsm_note 0 s = None"
    using rd [of 0] assms(4) by (simp add: xsm_note_def xsm_play_note_def rd_int_neg)
  then have "ofold xsm_note [0..<9] s = None" by (simp add: upt_rec [of 0])
  with off assms(1) show ?thesis by (simp add: xsm_update_def Let_def del: ofold.simps)
qed

section \<open>Witnesses\<close>

definition xsm_sample :: "int list \<Rightarrow> xsm_player" where
  "xsm_sample row =
     \<lparr>opl_out = [], xsm_songlen = (if row = [] then 0 else 1), xsm_music = row, xsm_last = 0,
      xsm_notenum = 0, xsm_songend = False, xsm_inst = replicate 9 (replicate 11 0)\<rparr>"

lemma xsm_plays_witness:
  "\<exists>s1 s2 es. play xsm_update 5 (xsm_sample [0, 12, 25, 127, 0, 1, 2, 3, 4]) = Some s1 \<and>
    xsm_rewind 0 s1 = Some s2 \<and> xsm_ok s2 \<and>
    opl_out s1 = opl_out (xsm_sample [0, 12, 25, 127, 0, 1, 2, 3, 4]) @ es"
  by (rule xsm_plays) (simp add: xsm_sample_def xsm_ok_def)

lemma xsm_empty_song_witness: "xsm_update (xsm_sample []) = None"
  by (rule xsm_empty_song_reads_outside) (simp_all add: xsm_sample_def)

lemma xsm_negative_note_witness: "xsm_update (xsm_sample [-1, 0, 0, 0, 0, 0, 0, 0, 0]) = None"
  by (rule xsm_negative_note) (simp_all add: xsm_sample_def)

end
