(* ===== verification/Hsc.thy ===== *)
theory Hsc
  imports Loader
begin

text \<open>
  \<open>src/hsc.cpp\<close>, \<open>src/hsc.h\<close>: the player of HSC modules (nine channels, 50 patterns of 64 rows),
  which the HSP and MTK loaders extend. Objects of type \<open>unsigned char\<close> are bytes or naturals
  below 256, \<open>unsigned int\<close> counters are naturals reduced to 32 bits.
\<close>

record hscnote =
  hn_note :: u8
  hn_effect :: u8

record hscchan =
  hc_inst :: u8
  hc_slide :: int
  hc_freq :: u16

record hsc_player = cplayer +
  hsc_channel :: "hscchan list"
  hsc_instr :: "bytes list"
  hsc_song :: bytes
  hsc_patterns :: "hscnote list list"
  hsc_pattpos :: nat
  hsc_songpos :: nat
  hsc_pattbreak :: u8
  hsc_songend :: bool
  hsc_mode6 :: bool
  hsc_bd :: u8
  hsc_fadein :: nat
  hsc_speed :: nat
  hsc_del :: nat
  hsc_adl_freq :: bytes
  hsc_mtkmode :: bool

section \<open>Instruments and frequencies\<close>

definition hsc_setfreq :: "nat \<Rightarrow> u16 \<Rightarrow> 'a hsc_player_scheme \<Rightarrow> 'a hsc_player_scheme option" where
  "hsc_setfreq chan freq s = do {
     a \<leftarrow> rd (hsc_adl_freq s) chan;
     let a' = to_u8 ((uint a AND NOT 3) OR drop_bit 8 (uint freq));
     m \<leftarrow> wr (hsc_adl_freq s) chan a';
     let s1 = s\<lparr>hsc_adl_freq := m\<rparr>;
     let s2 = opl_write (0xa0 + int chan) (uint freq AND 0xff) s1;
     Some (opl_write (0xb0 + int chan) (uint a') s2)
   }"

text \<open>The instrument byte \<open>instr[n][j]\<close>.\<close>

definition hsc_ins :: "'a hsc_player_scheme \<Rightarrow> u8 \<Rightarrow> nat \<Rightarrow> int option" where
  "hsc_ins s n j = map_option uint (rd2 (hsc_instr s) (unat n) j)"

definition hsc_setvolume ::
  "nat \<Rightarrow> int \<Rightarrow> int \<Rightarrow> 'a hsc_player_scheme \<Rightarrow> 'a hsc_player_scheme option" where
  "hsc_setvolume chan volc volm s = do {
     c \<leftarrow> rd (hsc_channel s) chan;
     op \<leftarrow> rd op_table chan;
     ins2 \<leftarrow> hsc_ins s (hc_inst c) 2;
     ins3 \<leftarrow> hsc_ins s (hc_inst c) 3;
     ins8 \<leftarrow> hsc_ins s (hc_inst c) 8;
     let s1 = opl_write (0x43 + op) (volc OR (ins2 AND NOT 63)) s;
     Some (if ins8 AND 1 \<noteq> 0 then opl_write (0x40 + op) (volm OR (ins3 AND NOT 63)) s1
           else opl_write (0x40 + op) ins3 s1)
   }"

definition hsc_setinstr :: "nat \<Rightarrow> u8 \<Rightarrow> 'a hsc_player_scheme \<Rightarrow> 'a hsc_player_scheme option" where
  "hsc_setinstr chan insnr s = do {
     op \<leftarrow> rd op_table chan;
     c \<leftarrow> rd (hsc_channel s) chan;
     m \<leftarrow> wr (hsc_channel s) chan (c\<lparr>hc_inst := insnr\<rparr>);
     let s = opl_write (0xb0 + int chan) 0 (s\<lparr>hsc_channel := m\<rparr>);
     let w = (\<lambda>reg j t. do { v \<leftarrow> hsc_ins t insnr j; Some (opl_write reg v t) });
     s \<leftarrow> w (0xc0 + int chan) 8 s;
     s \<leftarrow> w (0x23 + op) 0 s; s \<leftarrow> w (0x20 + op) 1 s;
     s \<leftarrow> w (0x63 + op) 4 s; s \<leftarrow> w (0x60 + op) 5 s;
     s \<leftarrow> w (0x83 + op) 6 s; s \<leftarrow> w (0x80 + op) 7 s;
     s \<leftarrow> w (0xe3 + op) 9 s; s \<leftarrow> w (0xe0 + op) 10 s;
     ins2 \<leftarrow> hsc_ins s insnr 2;
     ins3 \<leftarrow> hsc_ins s insnr 3;
     hsc_setvolume chan (ins2 AND 63) (ins3 AND 63) s
   }"

definition hsc_rewind :: "int \<Rightarrow> 'a hsc_player_scheme \<Rightarrow> 'a hsc_player_scheme option" where
  "hsc_rewind subsong s =
     (let s1 = s\<lparr>hsc_pattpos := 0, hsc_songpos := 0, hsc_pattbreak := 0, hsc_speed := 2,
                hsc_del := 1, hsc_songend := False, hsc_mode6 := False, hsc_bd := 0,
                hsc_fadein := 0\<rparr>;
          s2 = opl_write 0xbd 0 (opl_write 8 128 (opl_write 1 32 (opl_init s1)))
      in ofold (\<lambda>i. hsc_setinstr i (of_nat i)) [0..<9] s2)"

section \<open>Loading\<close>

text \<open>The conversion of the instruments, after the loop that reads them.\<close>

definition correct_instr :: "bytes \<Rightarrow> bytes option" where
  "correct_instr ins = do {
     a \<leftarrow> rd ins 2;
     ins \<leftarrow> wr ins 2 (a XOR push_bit 1 (a AND 0x40));
     b \<leftarrow> rd ins 3;
     ins \<leftarrow> wr ins 3 (b XOR push_bit 1 (b AND 0x40));
     c \<leftarrow> rd ins 11;
     wr ins 11 (drop_bit 4 c)
   }"

fun correct_all :: "bytes list \<Rightarrow> bytes list option" where
  "correct_all [] = Some []"
| "correct_all (i # is) = do { i' \<leftarrow> correct_instr i; is' \<leftarrow> correct_all is; Some (i' # is') }"

text \<open>Arrays of arrays are contiguous: the rows of width \<open>w\<close> of a block of bytes.\<close>

fun rows_of :: "nat \<Rightarrow> nat \<Rightarrow> 'a list \<Rightarrow> 'a list list" where
  "rows_of 0 w xs = []"
| "rows_of (Suc n) w xs = take w xs # rows_of n w (drop w xs)"

fun hsc_notes :: "bytes \<Rightarrow> hscnote list" where
  "hsc_notes (a # b # r) = \<lparr>hn_note = a, hn_effect = b\<rparr> # hsc_notes r"
| "hsc_notes _ = []"

definition hsc_set_patterns :: "bytes \<Rightarrow> hscnote list list" where
  "hsc_set_patterns bs = rows_of 50 576 (hsc_notes bs)"

definition hsc_pattern_bytes :: "hscnote list list \<Rightarrow> bytes" where
  "hsc_pattern_bytes ps = concat (map (\<lambda>n. [hn_note n, hn_effect n]) (concat ps))"

definition hsc_fix_song :: "nat \<Rightarrow> u8 \<Rightarrow> u8" where
  "hsc_fix_song npat b =
     (if unat (b AND 0x7F) > 0x31 \<or> unat (b AND 0x7F) \<ge> npat then 0xFF else b)"

definition hsc_load ::
  "('s, 'fl) binio \<Rightarrow> 's opener \<Rightarrow> string \<Rightarrow> 'a hsc_player_scheme \<Rightarrow> (bool \<times> 'a hsc_player_scheme) option"
where
  "hsc_load io opn filename s =
     (case opn filename of None \<Rightarrow> Some (False, s) | Some f \<Rightarrow>
       (if \<not> fp_extension filename ''.hsc'' then Some (False, s)
        else
          let (size1, f1) = fp_filesize io f;
              (size2, f2) = (if size1 > 59187 + 1 then (0, f1) else fp_filesize io f1)
          in if size1 > 59187 + 1 \<or> size2 < 1587 + 1152 then Some (False, s)
             else do {
               let (size3, f3) = fp_filesize io f2;
               let npat = (size3 - 1587) div 1152;
               let (ib, f4) = read_u8s io (128 * 12) f3;
               instr \<leftarrow> correct_all (rows_of 128 12 ib);
               let (sb, f5) = read_u8s io 51 f4;
               let (pb, f6) = read_u8s io (50 * 64 * 9) f5;
               let s1 = s\<lparr>hsc_instr := instr,
                          hsc_song := map (hsc_fix_song npat) sb @ drop 51 (hsc_song s),
                          hsc_patterns := hsc_set_patterns
                            (pb @ drop (50 * 64 * 9) (hsc_pattern_bytes (hsc_patterns s)))\<rparr>;
               s2 \<leftarrow> hsc_rewind 0 s1;
               Some (True, s2)
             }))"

section \<open>Playing\<close>

text \<open>Arrangement handling: the pattern to play, after an end mark or a jump.\<close>

definition hsc_arrange :: "'a hsc_player_scheme \<Rightarrow> (nat \<times> 'a hsc_player_scheme) option" where
  "hsc_arrange s = do {
     p \<leftarrow> rd (hsc_song s) (hsc_songpos s);
     if unat p \<ge> 0xb2 then do {
       let s1 = s\<lparr>hsc_songend := True, hsc_songpos := 0\<rparr>;
       p' \<leftarrow> rd (hsc_song s1) (hsc_songpos s1);
       Some (unat p', s1)
     }
     else if unat p AND 128 \<noteq> 0 \<and> unat p \<le> 0xb1 then do {
       let s1 = s\<lparr>hsc_songpos := unat p AND 127, hsc_pattpos := 0\<rparr>;
       p' \<leftarrow> rd (hsc_song s1) (hsc_songpos s1);
       Some (unat p', s1\<lparr>hsc_songend := True\<rparr>)
     }
     else Some (unat p, s)
   }"

definition hsc_global_effect :: "int \<Rightarrow> 'a hsc_player_scheme \<Rightarrow> 'a hsc_player_scheme" where
  "hsc_global_effect eff_op s =
     (if eff_op = 1 then s\<lparr>hsc_pattbreak := hsc_pattbreak s + 1\<rparr>
      else if eff_op = 3 then s\<lparr>hsc_fadein := 31\<rparr>
      else if eff_op = 5 then s\<lparr>hsc_mode6 := True\<rparr>
      else if eff_op = 6 then s\<lparr>hsc_mode6 := False\<rparr>
      else s)"

definition hsc_slide_effect ::
  "nat \<Rightarrow> bool \<Rightarrow> int \<Rightarrow> bool \<Rightarrow> 'a hsc_player_scheme \<Rightarrow> 'a hsc_player_scheme option" where
  "hsc_slide_effect chan up eff_op note s = do {
     c \<leftarrow> rd (hsc_channel s) chan;
     let d = (if up then eff_op else - eff_op);
     let c' = c\<lparr>hc_freq := to_u16 (uint (hc_freq c) + d), hc_slide := to_s8 (hc_slide c + d)\<rparr>;
     m \<leftarrow> wr (hsc_channel s) chan c';
     let s1 = s\<lparr>hsc_channel := m\<rparr>;
     if \<not> note then hsc_setfreq chan (hc_freq c') s1 else Some s1
   }"

text \<open>The effect of a channel; \<open>inst\<close> is the instrument of the channel.\<close>

definition hsc_effect ::
  "nat \<Rightarrow> u8 \<Rightarrow> int \<Rightarrow> u8 \<Rightarrow> 'a hsc_player_scheme \<Rightarrow> 'a hsc_player_scheme option" where
  "hsc_effect chan note effect inst s = do {
     let eff_op = effect AND 0x0f;
     let kind = effect AND 0xf0;
     op \<leftarrow> rd op_table chan;
     let vol = to_u8 (push_bit 2 eff_op);
     if kind = 0 then Some (hsc_global_effect eff_op s)
     else if kind = 0x20 \<or> kind = 0x10 then
       hsc_slide_effect chan (effect AND 0x10 \<noteq> 0) eff_op (note \<noteq> 0) s
     else if kind = 0x60 then do {
       ins8 \<leftarrow> hsc_ins s inst 8;
       Some (opl_write (0xc0 + int chan) ((ins8 AND 1) + push_bit 1 eff_op) s)
     }
     else if kind = 0xa0 then do {
       ins2 \<leftarrow> hsc_ins s inst 2;
       Some (opl_write (0x43 + op) (uint vol OR (ins2 AND NOT 63)) s)
     }
     else if kind = 0xb0 then do {
       ins3 \<leftarrow> hsc_ins s inst 3;
       Some (opl_write (0x40 + op) (uint vol OR (ins3 AND NOT 63)) s)
     }
     else if kind = 0xc0 then do {
       ins2 \<leftarrow> hsc_ins s inst 2;
       ins3 \<leftarrow> hsc_ins s inst 3;
       ins8 \<leftarrow> hsc_ins s inst 8;
       let s1 = opl_write (0x43 + op) (uint vol OR (ins2 AND NOT 63)) s;
       Some (if ins8 AND 1 \<noteq> 0 then opl_write (0x40 + op) (uint vol OR (ins3 AND NOT 63)) s1 else s1)
     }
     else if kind = 0xd0 then
       Some (s\<lparr>hsc_pattbreak := hsc_pattbreak s + 1, hsc_songpos := nat eff_op, hsc_songend := True\<rparr>)
     else if kind = 0xf0 then
       Some (s\<lparr>hsc_speed := nat eff_op + 1, hsc_del := nat eff_op + 1\<rparr>)
     else Some s
   }"

text \<open>The rhythm registers of the drum channels 6 to 8.\<close>

definition hsc_drums :: "nat \<Rightarrow> 'a hsc_player_scheme \<Rightarrow> 'a hsc_player_scheme" where
  "hsc_drums chan s =
     (if hsc_mode6 s then
        let hit = (\<lambda>m b. (opl_write 0xbd (uint (hsc_bd s) AND NOT m) s)\<lparr>hsc_bd := hsc_bd s OR b\<rparr>);
            s1 = (if chan = 6 then hit 16 48
                  else if chan = 7 then hit 1 33
                  else if chan = 8 then hit 2 34
                  else s)
        in opl_write 0xbd (uint (hsc_bd s1)) s1
      else s)"

text \<open>Note handling; \<open>note0\<close> is the byte of the pattern, not zero.\<close>

definition hsc_play_note ::
  "nat \<Rightarrow> u8 \<Rightarrow> u8 \<Rightarrow> 'a hsc_player_scheme \<Rightarrow> 'a hsc_player_scheme option" where
  "hsc_play_note chan note0 inst s = do {
     let note = note0 - 1;
     if note = 0x7f - 1 \<or> (uint note div 12) AND NOT 7 \<noteq> 0 then do {
       a \<leftarrow> rd (hsc_adl_freq s) chan;
       let a' = to_u8 (uint a AND NOT 32);
       m \<leftarrow> wr (hsc_adl_freq s) chan a';
       Some (opl_write (0xb0 + int chan) (uint a') (s\<lparr>hsc_adl_freq := m\<rparr>))
     }
     else do {
       let note = (if hsc_mtkmode s then note - 1 else note);
       let Okt = to_u8 (push_bit 2 ((uint note div 12) AND 7));
       c \<leftarrow> rd (hsc_channel s) chan;
       freq \<leftarrow> rd_int note_table (uint note mod 12);
       ins11 \<leftarrow> hsc_ins s inst 11;
       let Fnr = to_u16 (freq + ins11 + hc_slide c);
       m \<leftarrow> wr (hsc_channel s) chan (c\<lparr>hc_freq := Fnr\<rparr>);
       let a' = (if \<not> hsc_mode6 s \<or> chan < 6 then Okt OR 32 else Okt);
       m' \<leftarrow> wr (hsc_adl_freq s) chan a';
       s1 \<leftarrow> hsc_setfreq chan Fnr
              (opl_write (0xb0 + int chan) 0 (s\<lparr>hsc_channel := m, hsc_adl_freq := m'\<rparr>));
       Some (hsc_drums chan s1)
     }
   }"

text \<open>One pass of the loop over the channels.\<close>

definition hsc_do_channel ::
  "nat \<Rightarrow> nat \<Rightarrow> nat \<Rightarrow> 'a hsc_player_scheme \<Rightarrow> 'a hsc_player_scheme option" where
  "hsc_do_channel pattnr pattoff0 chan s = do {
     cell \<leftarrow> rd2 (hsc_patterns s) pattnr (pattoff0 + chan);
     let note = hn_note cell;
     let effect = hn_effect cell;
     if note AND 128 \<noteq> 0 then hsc_setinstr chan effect s
     else do {
       c \<leftarrow> rd (hsc_channel s) chan;
       let inst = hc_inst c;
       m \<leftarrow> wr (hsc_channel s) chan (if note \<noteq> 0 then c\<lparr>hc_slide := 0\<rparr> else c);
       s1 \<leftarrow> hsc_effect chan note (uint effect) inst (s\<lparr>hsc_channel := m\<rparr>);
       s2 \<leftarrow> (if hsc_fadein s1 \<noteq> 0
              then hsc_setvolume chan (int (hsc_fadein s1) * 2) (int (hsc_fadein s1) * 2) s1
              else Some s1);
       if note = 0 then Some s2 else hsc_play_note chan note inst s2
     }
   }"

text \<open>From the label \<open>skip_pattern_data\<close> on: the next row.\<close>

definition hsc_advance :: "'a hsc_player_scheme \<Rightarrow> 'a hsc_player_scheme" where
  "hsc_advance s =
     (let s0 = s\<lparr>hsc_del := hsc_speed s\<rparr>;
          next_pos = (\<lambda>t. let p = (hsc_songpos t + 1) mod 256 mod 50;
                             t' = t\<lparr>hsc_songpos := p\<rparr>
                         in if p = 0 then t'\<lparr>hsc_songend := True\<rparr> else t')
      in if hsc_pattbreak s \<noteq> 0 then next_pos (s0\<lparr>hsc_pattpos := 0, hsc_pattbreak := 0\<rparr>)
         else
           let p = (hsc_pattpos s + 1) AND 63;
               s1 = s0\<lparr>hsc_pattpos := p\<rparr>
           in if p = 0 then next_pos s1 else s1)"

definition hsc_update :: "'a hsc_player_scheme \<Rightarrow> (bool \<times> 'a hsc_player_scheme) option" where
  "hsc_update s =
     (let s0 = s\<lparr>hsc_del := uint32 (int (hsc_del s) - 1)\<rparr>
      in if hsc_del s0 \<noteq> 0 then Some (\<not> hsc_songend s0, s0)
         else do {
           let s1 = (if hsc_fadein s0 \<noteq> 0 then s0\<lparr>hsc_fadein := hsc_fadein s0 - 1\<rparr> else s0);
           (pattnr, s2) \<leftarrow> hsc_arrange s1;
           s3 \<leftarrow> (if pattnr \<ge> 50 then Some s2
                  else ofold (hsc_do_channel pattnr (hsc_pattpos s2 * 9)) [0..<9] s2);
           let s4 = hsc_advance s3;
           Some (\<not> hsc_songend s4, s4)
         })"

section \<open>Information about the module\<close>

fun hsc_count_patterns :: "bytes \<Rightarrow> nat \<Rightarrow> nat" where
  "hsc_count_patterns [] cnt = cnt"
| "hsc_count_patterns (b # bs) cnt =
     (if b = 0xff then cnt else hsc_count_patterns bs (if unat b > cnt then unat b else cnt))"

definition hsc_getpatterns :: "'a hsc_player_scheme \<Rightarrow> nat" where
  "hsc_getpatterns s = hsc_count_patterns (take 51 (hsc_song s)) 0 + 1"

fun hsc_count_orders :: "bytes \<Rightarrow> nat" where
  "hsc_count_orders [] = 0"
| "hsc_count_orders (b # bs) = (if b = 0xff then 0 else Suc (hsc_count_orders bs))"

definition hsc_getorders :: "'a hsc_player_scheme \<Rightarrow> nat" where
  "hsc_getorders s = hsc_count_orders (take 51 (hsc_song s))"

definition hsc_getinstruments :: "'a hsc_player_scheme \<Rightarrow> u8" where
  "hsc_getinstruments s = of_nat (length (filter (\<lambda>ins. \<exists>b \<in> set ins. b \<noteq> 0) (hsc_instr s)))"

section \<open>Safety and progress\<close>

text \<open>
  Well-formed objects: arrays of their sizes, positions inside them, instruments in range. The
  patterns must not select an instrument above 127, which the code does not check.
\<close>

definition hscnote_ok :: "hscnote \<Rightarrow> bool" where
  "hscnote_ok n \<longleftrightarrow> (hn_note n AND 128 \<noteq> 0 \<longrightarrow> unat (hn_effect n) < 128)"

definition hsc_static :: "'a hsc_player_scheme \<Rightarrow> bool" where
  "hsc_static s \<longleftrightarrow> matrix 128 12 (hsc_instr s) \<and> length (hsc_song s) = 128 \<and>
     matrix 50 576 (hsc_patterns s) \<and> list_all (list_all hscnote_ok) (hsc_patterns s)"

definition hsc_channels :: "'a hsc_player_scheme \<Rightarrow> bool" where
  "hsc_channels s \<longleftrightarrow> length (hsc_channel s) = 9 \<and> length (hsc_adl_freq s) = 9 \<and>
     list_all (\<lambda>c. unat (hc_inst c) < 128) (hsc_channel s)"

definition hsc_timing :: "'a hsc_player_scheme \<Rightarrow> bool" where
  "hsc_timing s \<longleftrightarrow> hsc_songpos s < 50 \<and> hsc_pattpos s < 64 \<and>
     0 < hsc_speed s \<and> hsc_speed s \<le> 16"

definition hsc_ok :: "'a hsc_player_scheme \<Rightarrow> bool" where
  "hsc_ok s \<longleftrightarrow> hsc_static s \<and> hsc_channels s \<and> hsc_timing s \<and>
     0 < hsc_del s \<and> hsc_del s \<le> 16"

text \<open>What playing one row keeps, relative to the object \<open>s0\<close> it started from.\<close>

definition hsc_rel :: "'a hsc_player_scheme \<Rightarrow> 'a hsc_player_scheme \<Rightarrow> bool" where
  "hsc_rel s0 t \<longleftrightarrow> matrix 128 12 (hsc_instr t) \<and> hsc_patterns t = hsc_patterns s0 \<and>
     hsc_song t = hsc_song s0 \<and> hsc_channels t \<and> hsc_timing t \<and>
     hsc_pattpos t = hsc_pattpos s0 \<and> (\<exists>es. opl_out t = opl_out s0 @ es) \<and>
     (\<not> hsc_songend t \<longrightarrow> \<not> hsc_songend s0 \<and> hsc_songpos t = hsc_songpos s0)"

lemma hsc_rel_static: "hsc_rel s0 t \<Longrightarrow> hsc_static s0 \<Longrightarrow> hsc_static t"
  by (simp add: hsc_rel_def hsc_static_def)

lemma hsc_rel_write [intro]: "hsc_rel s0 t \<Longrightarrow> hsc_rel s0 (opl_write r v t)"
  unfolding hsc_rel_def hsc_static_def hsc_channels_def hsc_timing_def opl_write_def by auto

lemma hsc_rel_channel:
  "hsc_rel s0 t \<Longrightarrow> length m = 9 \<Longrightarrow> list_all (\<lambda>c. unat (hc_inst c) < 128) m \<Longrightarrow>
   hsc_rel s0 (t\<lparr>hsc_channel := m\<rparr>)"
  unfolding hsc_rel_def hsc_static_def hsc_channels_def hsc_timing_def by auto

lemma hsc_rel_adl: "hsc_rel s0 t \<Longrightarrow> length m = 9 \<Longrightarrow> hsc_rel s0 (t\<lparr>hsc_adl_freq := m\<rparr>)"
  unfolding hsc_rel_def hsc_static_def hsc_channels_def hsc_timing_def by auto

lemma hsc_rel_flags:
  assumes "hsc_rel s0 t"
  shows "hsc_rel s0 (t\<lparr>hsc_pattbreak := p\<rparr>)" "hsc_rel s0 (t\<lparr>hsc_fadein := f\<rparr>)"
    "hsc_rel s0 (t\<lparr>hsc_mode6 := b\<rparr>)" "hsc_rel s0 (t\<lparr>hsc_bd := w\<rparr>)"
    "n < 50 \<Longrightarrow> hsc_rel s0 (t\<lparr>hsc_pattbreak := p, hsc_songpos := n, hsc_songend := True\<rparr>)"
    "0 < v \<Longrightarrow> v \<le> 16 \<Longrightarrow> hsc_rel s0 (t\<lparr>hsc_speed := v, hsc_del := d\<rparr>)"
  using assms unfolding hsc_rel_def hsc_static_def hsc_channels_def hsc_timing_def by auto

lemma hsc_relD:
  assumes "hsc_rel s0 t"
  shows "length (hsc_channel t) = 9" "length (hsc_adl_freq t) = 9"
    "c < 9 \<Longrightarrow> unat (hc_inst (hsc_channel t ! c)) < 128"
    "n < 128 \<Longrightarrow> j < 12 \<Longrightarrow> rd2 (hsc_instr t) n j = Some (hsc_instr t ! n ! j)"
  using assms unfolding hsc_rel_def hsc_channels_def hsc_static_def
  by (auto simp: list_all_length access_simps)

lemma hsc_ins_Some:
  "hsc_rel s0 t \<Longrightarrow> unat n < 128 \<Longrightarrow> j < 12 \<Longrightarrow> hsc_ins t n j = Some (uint (hsc_instr t ! unat n ! j))"
  by (simp add: hsc_ins_def hsc_relD(4))

lemma hsc_rel_set_channel:
  assumes "hsc_rel s0 t" "c < 9" "unat (hc_inst x) < 128"
  shows "wr (hsc_channel t) c x = Some ((hsc_channel t)[c := x])"
    "hsc_rel s0 (t\<lparr>hsc_channel := (hsc_channel t)[c := x]\<rparr>)"
proof -
  show "wr (hsc_channel t) c x = Some ((hsc_channel t)[c := x])"
    using assms hsc_relD(1) [OF assms(1)] by (simp add: access_simps)
  have "list_all (\<lambda>c. unat (hc_inst c) < 128) ((hsc_channel t)[c := x])"
    using hsc_relD(1,3) [OF assms(1)] assms(2,3) by (auto simp: list_all_length nth_list_update)
  then show "hsc_rel s0 (t\<lparr>hsc_channel := (hsc_channel t)[c := x]\<rparr>)"
    using hsc_rel_channel [OF assms(1)] hsc_relD(1) [OF assms(1)] by simp
qed

lemma hsc_setfreq_rel:
  assumes "hsc_rel s0 t" "c < 9"
  shows "\<exists>t'. hsc_setfreq c f t = Some t' \<and> hsc_rel s0 t'"
  using hsc_relD(2) [OF assms(1)] assms
  by (auto simp: hsc_setfreq_def access_simps Let_def intro!: hsc_rel_write hsc_rel_adl)

lemma hsc_setvolume_rel:
  assumes "hsc_rel s0 t" "c < 9"
  shows "\<exists>t'. hsc_setvolume c a b t = Some t' \<and> hsc_rel s0 t'"
  using hsc_relD(1) [OF assms(1)] hsc_ins_Some [OF assms(1) hsc_relD(3) [OF assms]] assms
  by (auto simp: hsc_setvolume_def access_simps Let_def)

lemma hsc_setinstr_rel:
  assumes t: "hsc_rel s0 t" and c: "c < 9" and n: "unat n < 128"
  shows "\<exists>t'. hsc_setinstr c n t = Some t' \<and> hsc_rel s0 t'"
proof -
  let ?c = "(hsc_channel t ! c)\<lparr>hc_inst := n\<rparr>"
  have c9: "rd (hsc_channel t) c = Some (hsc_channel t ! c)" "rd op_table c = Some (op_table ! c)"
    using hsc_relD(1) [OF t] c by (simp_all add: access_simps)
  note m = hsc_rel_set_channel [OF t c, of ?c, simplified, OF n]
  have w: "\<exists>u'. (do { v \<leftarrow> hsc_ins u n j; Some (opl_write r v u) }) = Some u' \<and> hsc_rel s0 u'"
    if "hsc_rel s0 u" "j < 12" for u j r
    using hsc_ins_Some [OF that(1) n that(2)] that(1) by auto
  have v: "\<exists>u'. (do { i2 \<leftarrow> hsc_ins u n 2; i3 \<leftarrow> hsc_ins u n 3; hsc_setvolume c (i2 AND 63) (i3 AND 63) u })
      = Some u' \<and> hsc_rel s0 u'" if "hsc_rel s0 u" for u
    using hsc_ins_Some [OF that n] hsc_setvolume_rel [OF that c] by auto
  have bind: "\<exists>r. Option.bind f g = Some r \<and> hsc_rel s0 r"
    if "\<exists>u. f = Some u \<and> hsc_rel s0 u" "\<And>u. hsc_rel s0 u \<Longrightarrow> \<exists>r. g u = Some r \<and> hsc_rel s0 r"
    for f and g :: "'a hsc_player_scheme \<Rightarrow> 'a hsc_player_scheme option" using that by auto
  show ?thesis
    unfolding hsc_setinstr_def c9 m(1) Option.bind.bind_lunit Let_def
    by (rule bind [OF w [OF hsc_rel_write [OF m(2)]]], simp, (rule bind [OF w], assumption, simp)+,
        rule v)
qed

lemma nat_and_15: "nat (e AND 15) < 16" "nat ((e :: int) AND 15) \<le> 15"
proof -
  have "e AND 15 = e mod 16" using take_bit_eq_mask [of 4 e]
    by (simp add: take_bit_eq_mod mask_eq_exp_minus_1)
  then show "nat (e AND 15) < 16" "nat (e AND 15) \<le> 15" by simp_all
qed

lemma hsc_slide_rel:
  assumes t: "hsc_rel s0 t" and c: "c < 9"
  shows "\<exists>t'. hsc_slide_effect c up e note t = Some t' \<and> hsc_rel s0 t'"
proof -
  define d where "d = (if up then e else - e)"
  let ?c = "hsc_channel t ! c"
  let ?c' = "?c\<lparr>hc_freq := to_u16 (uint (hc_freq ?c) + d), hc_slide := to_s8 (hc_slide ?c + d)\<rparr>"
  have rd: "rd (hsc_channel t) c = Some ?c" using hsc_relD(1) [OF t] c by (simp add: access_simps)
  have "unat (hc_inst ?c') < 128" using hsc_relD(3) [OF t c] by simp
  note m = hsc_rel_set_channel [OF t c this]
  show ?thesis
    unfolding hsc_slide_effect_def rd Option.bind.bind_lunit Let_def d_def [symmetric] m(1)
    using m(2) hsc_setfreq_rel [OF m(2) c] by auto
qed

lemma hsc_effect_rel:
  assumes t: "hsc_rel s0 t" and c: "c < 9" and inst: "unat inst < 128"
  shows "\<exists>t'. hsc_effect c note e inst t = Some t' \<and> hsc_rel s0 t'"
proof -
  have op: "rd op_table c = Some (op_table ! c)" using c by (simp add: access_simps)
  have ins: "\<And>j. j < 12 \<Longrightarrow> hsc_ins t inst j = Some (uint (hsc_instr t ! unat inst ! j))"
    using hsc_ins_Some [OF t inst] .
  have glob: "hsc_rel s0 (hsc_global_effect x t)" for x
    using hsc_rel_flags [OF t] t by (simp add: hsc_global_effect_def)
  have jump: "hsc_rel s0 (t\<lparr>hsc_pattbreak := hsc_pattbreak t + 1,
      hsc_songpos := nat (e AND 15), hsc_songend := True\<rparr>)"
    using nat_and_15 [of e] by (intro hsc_rel_flags(5) [OF t]) linarith
  have speed: "hsc_rel s0 (t\<lparr>hsc_speed := nat (e AND 15) + 1, hsc_del := nat (e AND 15) + 1\<rparr>)"
    using nat_and_15 [of e] by (intro hsc_rel_flags(6) [OF t]) linarith+
  show ?thesis
    unfolding hsc_effect_def op Option.bind.bind_lunit Let_def
    using glob jump speed hsc_slide_rel [OF t c] ins [of 2] ins [of 3] ins [of 8] t
    by (auto split: if_split)
qed

lemma hsc_drums_rel: "hsc_rel s0 t \<Longrightarrow> hsc_rel s0 (hsc_drums c t)"
  by (auto simp: hsc_drums_def Let_def intro!: hsc_rel_write hsc_rel_flags(4))

lemma hsc_play_note_rel:
  assumes t: "hsc_rel s0 t" and c: "c < 9" and inst: "unat inst < 128"
  shows "\<exists>t'. hsc_play_note c note inst t = Some t' \<and> hsc_rel s0 t'"
proof -
  let ?c = "hsc_channel t ! c" and ?a = "hsc_adl_freq t ! c"
  have rd: "rd (hsc_channel t) c = Some ?c" "rd (hsc_adl_freq t) c = Some ?a"
    "\<And>x. wr (hsc_adl_freq t) c x = Some ((hsc_adl_freq t)[c := x])"
    using hsc_relD(1,2) [OF t] c by (simp_all add: access_simps)
  have adl: "hsc_rel s0 (u\<lparr>hsc_adl_freq := (hsc_adl_freq t)[c := x]\<rparr>)" if "hsc_rel s0 u" for u x
    using hsc_relD(2) [OF t] by (intro hsc_rel_adl [OF that]) simp
  have freq: "rd_int note_table (uint n mod 12) = Some (note_table ! nat (uint n mod 12))" for n :: u8
    by (simp add: access_simps nat_less_iff)
  have "unat (hc_inst (?c\<lparr>hc_freq := f\<rparr>)) < 128" for f using hsc_relD(3) [OF t c] by simp
  note m = hsc_rel_set_channel [OF t c this]
  have fin: "\<exists>t'. Option.bind (hsc_setfreq c f (opl_write r 0 (t\<lparr>hsc_channel := (hsc_channel t)[c := ?c\<lparr>hc_freq := g\<rparr>],
      hsc_adl_freq := (hsc_adl_freq t)[c := x]\<rparr>))) (\<lambda>s1. Some (hsc_drums c s1)) = Some t' \<and> hsc_rel s0 t'"
    for f r g x
  proof -
    let ?u = "opl_write r 0 (t\<lparr>hsc_channel := (hsc_channel t)[c := ?c\<lparr>hc_freq := g\<rparr>],
      hsc_adl_freq := (hsc_adl_freq t)[c := x]\<rparr>)"
    obtain u where u: "hsc_setfreq c f ?u = Some u" "hsc_rel s0 u"
      using hsc_setfreq_rel [OF hsc_rel_write [OF adl [OF m(2)]] c] by blast
    show ?thesis unfolding u(1) Option.bind.bind_lunit using hsc_drums_rel [OF u(2)] by blast
  qed
  show ?thesis
  proof (cases "note - 1 = 0x7f - 1 \<or> (uint (note - 1) div 12) AND NOT 7 \<noteq> 0")
    case True
    have "hsc_play_note c note inst t = Some (opl_write (0xb0 + int c) (uint (to_u8 (uint ?a AND NOT 32)))
        (t\<lparr>hsc_adl_freq := (hsc_adl_freq t)[c := to_u8 (uint ?a AND NOT 32)]\<rparr>))"
      unfolding hsc_play_note_def Let_def if_P [OF True] rd Option.bind.bind_lunit ..
    then show ?thesis using adl [OF t] by auto
  next
    case False
    show ?thesis
      unfolding hsc_play_note_def Let_def if_not_P [OF False] rd Option.bind.bind_lunit freq
        hsc_ins_Some [OF t inst, of 11, simplified] m(1)
      by (rule fin)
  qed
qed

lemma hsc_do_channel_rel:
  assumes s0: "hsc_static s0" and t: "hsc_rel s0 t" and c: "c < 9" and p: "pattnr < 50" "row < 64"
  shows "\<exists>t'. hsc_do_channel pattnr (row * 9) c t = Some t' \<and> hsc_rel s0 t'"
proof -
  have st: "matrix 50 576 (hsc_patterns t)" "list_all (list_all hscnote_ok) (hsc_patterns t)"
    using hsc_rel_static [OF t s0] by (simp_all add: hsc_static_def)
  let ?n = "hsc_patterns t ! pattnr ! (row * 9 + c)"
  have cell: "rd2 (hsc_patterns t) pattnr (row * 9 + c) = Some ?n"
    using p c by (intro rd2_Some [OF st(1)]) linarith+
  have "row * 9 + c < length (hsc_patterns t ! pattnr)" "pattnr < length (hsc_patterns t)"
    using p c matrix_row [OF st(1) p(1)] matrix_length [OF st(1)] by linarith+
  then have ok: "hscnote_ok ?n" using st(2) by (simp add: list_all_length)
  let ?c = "hsc_channel t ! c"
  let ?c' = "if hn_note ?n \<noteq> 0 then ?c\<lparr>hc_slide := 0\<rparr> else ?c"
  have rd: "rd (hsc_channel t) c = Some ?c" using hsc_relD(1) [OF t] c by (simp add: access_simps)
  have i: "unat (hc_inst ?c) < 128" by (rule hsc_relD(3) [OF t c])
  then have "unat (hc_inst ?c') < 128" by simp
  note m = hsc_rel_set_channel [OF t c this]
  obtain t1 where t1: "hsc_effect c (hn_note ?n) (uint (hn_effect ?n)) (hc_inst ?c)
      (t\<lparr>hsc_channel := (hsc_channel t)[c := ?c']\<rparr>) = Some t1" "hsc_rel s0 t1"
    using hsc_effect_rel [OF m(2) c i] by blast
  obtain t2 where t2: "(if hsc_fadein t1 \<noteq> 0
      then hsc_setvolume c (int (hsc_fadein t1) * 2) (int (hsc_fadein t1) * 2) t1 else Some t1) = Some t2"
    "hsc_rel s0 t2"
    using hsc_setvolume_rel [OF t1(2) c] t1(2) by (cases "hsc_fadein t1 \<noteq> 0") auto
  show ?thesis
  proof (cases "hn_note ?n AND 128 \<noteq> 0")
    case True
    then show ?thesis
      using ok cell hsc_setinstr_rel [OF t c] by (simp add: hsc_do_channel_def hscnote_ok_def)
  next
    case False
    have "hsc_do_channel pattnr (row * 9) c t =
        (if hn_note ?n = 0 then Some t2 else hsc_play_note c (hn_note ?n) (hc_inst ?c) t2)"
      unfolding hsc_do_channel_def cell Option.bind.bind_lunit Let_def if_not_P [OF False] rd m(1)
        t1(1) t2(1) by (rule refl)
    then show ?thesis using t2(2) hsc_play_note_rel [OF t2(2) c i] by simp
  qed
qed

text \<open>Rows left until the song wraps around, and the ticks they can take.\<close>

definition hsc_rows_left :: "'a hsc_player_scheme \<Rightarrow> nat" where
  "hsc_rows_left s = (50 - hsc_songpos s) * 64 - hsc_pattpos s"

definition hsc_left :: "'a hsc_player_scheme \<Rightarrow> nat" where
  "hsc_left s = hsc_rows_left s * 17 + hsc_del s"

lemma and_63_nat: "(n :: nat) AND 63 = n mod 64"
  using take_bit_eq_mask [of 6 n] by (simp add: take_bit_eq_mod mask_eq_exp_minus_1)

lemma hsc_advance_ok:
  assumes t: "hsc_static t" "hsc_channels t" "hsc_timing t"
  shows "hsc_ok (hsc_advance t)" "opl_out (hsc_advance t) = opl_out t"
    "\<not> hsc_songend (hsc_advance t) \<Longrightarrow>
       \<not> hsc_songend t \<and> hsc_rows_left (hsc_advance t) < hsc_rows_left t"
proof -
  have b: "hsc_songpos t < 50" "hsc_pattpos t < 64" "0 < hsc_speed t" "hsc_speed t \<le> 16"
    using t(3) by (simp_all add: hsc_timing_def)
  have wrap: "(hsc_songpos t + 1) mod 256 mod 50 = (if hsc_songpos t = 49 then 0 else hsc_songpos t + 1)"
    using b(1) by (auto simp: mod_less less_Suc_eq_le)
  have wrap': "Suc (hsc_songpos t) mod 50 = (if hsc_songpos t = 49 then 0 else Suc (hsc_songpos t))"
    using b(1) by auto
  have row: "(hsc_pattpos t + 1) mod 64 = (if hsc_pattpos t = 63 then 0 else hsc_pattpos t + 1)"
    using b(2) by auto
  show "hsc_ok (hsc_advance t)"
    using t b unfolding hsc_ok_def hsc_static_def hsc_channels_def hsc_timing_def hsc_advance_def
    by (simp add: Let_def and_63_nat wrap)
  show "opl_out (hsc_advance t) = opl_out t" by (simp add: hsc_advance_def Let_def)
  assume "\<not> hsc_songend (hsc_advance t)"
  then show "\<not> hsc_songend t \<and> hsc_rows_left (hsc_advance t) < hsc_rows_left t"
    using b unfolding hsc_advance_def Let_def and_63_nat hsc_rows_left_def wrap row
    by (auto simp: wrap' split: if_split_asm)
qed

lemma hsc_arrange_rel:
  assumes s: "hsc_static s" "hsc_channels s" "hsc_timing s"
  shows "\<exists>p t. hsc_arrange s = Some (p, t) \<and> hsc_static t \<and> hsc_channels t \<and> hsc_timing t \<and>
    opl_out t = opl_out s \<and>
    (\<not> hsc_songend t \<longrightarrow> t = s)"
proof -
  have len: "length (hsc_song s) = 128" "hsc_songpos s < 50"
    using s by (simp_all add: hsc_static_def hsc_timing_def)
  let ?p = "hsc_song s ! hsc_songpos s"
  have rd: "rd (hsc_song s) (hsc_songpos s) = Some ?p" "rd (hsc_song s) 0 = Some (hsc_song s ! 0)"
    using len by (simp_all add: access_simps)
  show ?thesis
  proof (cases "unat ?p \<ge> 0xb2")
    case True
    then show ?thesis using rd s
      by (simp add: hsc_arrange_def hsc_static_def hsc_channels_def hsc_timing_def)
  next
    case no_end: False
    show ?thesis
    proof (cases "unat ?p AND 128 \<noteq> 0 \<and> unat ?p \<le> 0xb1")
      case True
      have "unat ?p AND 127 = unat ?p mod 128"
        using take_bit_eq_mask [of 7 "unat ?p"] by (simp add: take_bit_eq_mod mask_eq_exp_minus_1)
      moreover have "128 \<le> unat ?p"
      proof (rule ccontr)
        assume "\<not> 128 \<le> unat ?p"
        then have "\<not> bit (unat ?p) 7" by (simp add: bit_iff_odd)
        then show False using True and_exp_eq_0_iff_not_bit [of "unat ?p" 7] by simp
      qed
      moreover from this True have "unat ?p mod 128 = unat ?p - 128"
        by (subst mod_if) (simp add: less_diff_conv2)
      ultimately have j: "unat ?p AND 127 < 50" using True by linarith
      then have "rd (hsc_song s) (unat ?p AND 127) = Some (hsc_song s ! (unat ?p AND 127))"
        using len by (simp add: access_simps)
      then show ?thesis using rd s j no_end True
        by (simp add: hsc_arrange_def hsc_static_def hsc_channels_def hsc_timing_def)
    next
      case False
      have "hsc_arrange s = Some (unat ?p, s)"
        unfolding hsc_arrange_def rd Option.bind.bind_lunit if_not_P [OF no_end] if_not_P [OF False] ..
      then show ?thesis using s by simp
    qed
  qed
qed

lemma hsc_update_ok:
  assumes ok: "hsc_ok s"
  shows "\<exists>s'. hsc_update s = Some (\<not> hsc_songend s', s') \<and> hsc_ok s' \<and>
    (\<exists>es. opl_out s' = opl_out s @ es) \<and> (\<not> hsc_songend s' \<longrightarrow> hsc_left s' < hsc_left s)"
proof -
  define d where "d = hsc_del s - 1"
  have del: "0 < hsc_del s" "hsc_del s \<le> 16" using ok by (simp_all add: hsc_ok_def)
  then have d: "uint32 (int (hsc_del s) - 1) = d" unfolding uint32_def d_def
    by (subst mod_pos_pos_trivial) auto
  let ?s0 = "s\<lparr>hsc_del := d\<rparr>"
  show ?thesis
  proof (cases "d = 0")
    case False
    then have "hsc_update s = Some (\<not> hsc_songend ?s0, ?s0)" by (simp add: hsc_update_def d Let_def)
    moreover have "hsc_ok ?s0" using ok False del d_def
      by (simp add: hsc_ok_def hsc_static_def hsc_channels_def hsc_timing_def)
    moreover have "hsc_left ?s0 < hsc_left s" using del d_def by (simp add: hsc_left_def hsc_rows_left_def)
    ultimately show ?thesis by (intro exI [of _ ?s0]) simp
  next
    case True
    define s1 where "s1 = (if hsc_fadein ?s0 \<noteq> 0 then ?s0\<lparr>hsc_fadein := hsc_fadein ?s0 - 1\<rparr> else ?s0)"
    have s1: "hsc_static s1" "hsc_channels s1" "hsc_timing s1" "opl_out s1 = opl_out s"
      "hsc_songend s1 = hsc_songend s" "hsc_rows_left s1 = hsc_rows_left s"
      using ok by (simp_all add: s1_def hsc_ok_def hsc_static_def hsc_channels_def hsc_timing_def
          hsc_rows_left_def)
    obtain p s2 where s2: "hsc_arrange s1 = Some (p, s2)" "hsc_static s2" "hsc_channels s2"
      "hsc_timing s2" "opl_out s2 = opl_out s1" "\<not> hsc_songend s2 \<longrightarrow> s2 = s1"
      using hsc_arrange_rel [OF s1(1-3)] by blast
    have refl: "hsc_rel s2 s2" using s2 by (auto simp: hsc_rel_def hsc_static_def)
    have row: "hsc_pattpos s2 < 64" using s2(4) by (simp add: hsc_timing_def)
    obtain s3 where s3: "(if p \<ge> 50 then Some s2
        else ofold (hsc_do_channel p (hsc_pattpos s2 * 9)) [0..<9] s2) = Some s3" "hsc_rel s2 s3"
    proof (cases "p \<ge> 50")
      case True
      then show ?thesis using that refl by simp
    next
      case False
      have "\<exists>s'. ofold (hsc_do_channel p (hsc_pattpos s2 * 9)) [0..<9] s2 = Some s' \<and> hsc_rel s2 s'"
        using False row
        by (intro ofold_invariant [where P = "hsc_rel s2"] refl hsc_do_channel_rel s2(2)) auto
      then show ?thesis using that False by auto
    qed
    let ?s4 = "hsc_advance s3"
    have st: "hsc_static s3" "hsc_channels s3" "hsc_timing s3"
      using hsc_rel_static [OF s3(2) s2(2)] s3(2) by (simp_all add: hsc_rel_def)
    have "hsc_update s =
        (if d \<noteq> 0 then Some (\<not> hsc_songend ?s0, ?s0)
         else do {
           (p, t) \<leftarrow> hsc_arrange s1;
           u \<leftarrow> (if p \<ge> 50 then Some t else ofold (hsc_do_channel p (hsc_pattpos t * 9)) [0..<9] t);
           Some (\<not> hsc_songend (hsc_advance u), hsc_advance u)
         })"
      by (simp add: hsc_update_def d Let_def s1_def del: ofold.simps)
    then have upd: "hsc_update s = Some (\<not> hsc_songend ?s4, ?s4)"
      using True s2(1) s3(1) by simp
    have "hsc_left ?s4 < hsc_left s" if "\<not> hsc_songend ?s4"
    proof -
      have a: "\<not> hsc_songend s3" "hsc_rows_left ?s4 < hsc_rows_left s3"
        using hsc_advance_ok(3) [OF st that] by simp_all
      then have "\<not> hsc_songend s2" "hsc_songpos s3 = hsc_songpos s2" "hsc_pattpos s3 = hsc_pattpos s2"
        using s3(2) by (simp_all add: hsc_rel_def)
      then have "hsc_rows_left s3 = hsc_rows_left s" using s2(6) s1(6) by (simp add: hsc_rows_left_def)
      moreover have "hsc_del ?s4 \<le> 16" using hsc_advance_ok(1) [OF st] by (simp add: hsc_ok_def)
      ultimately show ?thesis using a(2) unfolding hsc_left_def by linarith
    qed
    then show ?thesis
      using upd hsc_advance_ok(1,2) [OF st] s3(2) s2(5) s1(4) by (auto simp: hsc_rel_def)
  qed
qed

lemma hsc_rewind_total:
  assumes st: "matrix 128 12 (hsc_instr s)" "hsc_channels s"
  shows "\<exists>s'. hsc_rewind n s = Some s' \<and> hsc_patterns s' = hsc_patterns s \<and> hsc_song s' = hsc_song s \<and>
    hsc_channels s' \<and> hsc_timing s' \<and> matrix 128 12 (hsc_instr s') \<and> hsc_del s' = 1"
proof -
  let ?s1 = "s\<lparr>hsc_pattpos := 0, hsc_songpos := 0, hsc_pattbreak := 0, hsc_speed := 2,
                hsc_del := 1, hsc_songend := False, hsc_mode6 := False, hsc_bd := 0,
                hsc_fadein := 0\<rparr>"
  let ?s2 = "opl_write 0xbd 0 (opl_write 8 128 (opl_write 1 32 (opl_init ?s1)))"
  define P where "P t \<longleftrightarrow> hsc_rel ?s2 t \<and> hsc_del t = 1" for t :: "'a hsc_player_scheme"
  have base: "P ?s2"
    using st by (simp add: P_def hsc_rel_def hsc_channels_def hsc_timing_def opl_calls)
  have del: "hsc_del t' = hsc_del t" if "hsc_setinstr i v t = Some t'" for i v and t t' :: "'a hsc_player_scheme"
    using that by (auto elim!: bind_eq_SomeE simp: hsc_setinstr_def hsc_setvolume_def Let_def opl_calls)
  have "\<exists>t'. hsc_setinstr i (of_nat i) t = Some t' \<and> P t'" if "i \<in> set [0..<9]" "P t" for i t
  proof -
    have r: "hsc_rel ?s2 t" "i < 9" using that by (simp_all add: P_def)
    then have "unat (of_nat i :: u8) < 128" by (simp add: unat_of_nat)
    from hsc_setinstr_rel [OF r this]
    obtain t' where "hsc_setinstr i (of_nat i) t = Some t'" "hsc_rel ?s2 t'" by blast
    then show ?thesis using del that(2) by (auto simp: P_def)
  qed
  then obtain s' where s': "ofold (\<lambda>i. hsc_setinstr i (of_nat i)) [0..<9] ?s2 = Some s'" "P s'"
    using ofold_invariant [of P ?s2 "[0..<9]" "\<lambda>i. hsc_setinstr i (of_nat i)"] base by blast
  then show ?thesis by (auto simp: hsc_rewind_def P_def hsc_rel_def opl_calls)
qed

lemma hsc_rewind_ok:
  assumes "hsc_static s" "hsc_channels s"
  shows "\<exists>s'. hsc_rewind n s = Some s' \<and> hsc_ok s'"
  using hsc_rewind_total [of s n] assms by (auto simp: hsc_static_def hsc_ok_def)

interpretation hsc_contract: ending_player hsc_update hsc_rewind hsc_ok hsc_left
proof unfold_locales
  fix s s' :: "'a hsc_player_scheme" and n es go
  assume ok: "hsc_ok s"
  obtain s1 where u: "hsc_update s = Some (\<not> hsc_songend s1, s1)" "hsc_ok s1"
    "\<exists>es. opl_out s1 = opl_out s @ es" "\<not> hsc_songend s1 \<longrightarrow> hsc_left s1 < hsc_left s"
    using hsc_update_ok [OF ok] by blast
  show "\<exists>go s'. hsc_update s = Some (go, s') \<and> hsc_ok s'" using u by simp
  show "\<exists>s'. hsc_rewind n s = Some s' \<and> hsc_ok s'"
    using hsc_rewind_ok [of s n] ok by (simp add: hsc_ok_def)
  show "hsc_update s = Some (go, s') \<Longrightarrow> \<exists>es. opl_out s' = opl_out s @ es" using u by simp
  show "hsc_update s = Some (True, s') \<Longrightarrow> hsc_left s' < hsc_left s" using u by auto
qed (simp add: hsc_ok_def hsc_static_def hsc_channels_def hsc_timing_def)

section \<open>Properties\<close>

text \<open>C17: from any well-formed object whose patterns select only instruments below 128, an HSC
  module plays without leaving its arrays and comes to its end: after finitely many ticks \<open>update\<close>
  reports the end, whatever pattern breaks, position jumps, speed changes and arrangement jumps the
  module makes, and \<open>songlength\<close> returns.\<close>

theorem hsc_song_ends:
  assumes "hsc_ok s"
  shows "(\<exists>n s1 s2. play hsc_update n s = Some s1 \<and> hsc_update s1 = Some (False, s2) \<and> hsc_ok s2) \<and>
    (\<exists>len t. songlength hsc_update hsc_rewind refresh fl subsong s = Some (len, t) \<and>
       opl_out t = opl_out s)"
proof -
  obtain n s1 s2 where n: "play hsc_update n s = Some s1" "hsc_update s1 = Some (False, s2)"
    using hsc_contract.reaches_end [OF assms] by blast
  have "hsc_ok s1" using hsc_contract.play_ok [OF assms, of n] n(1) by auto
  then have "hsc_ok s2" using hsc_contract.upd_ok [of s1] n(2) by auto
  with n hsc_contract.songlength_returns [OF assms, of refresh fl subsong] show ?thesis by blast
qed

text \<open>The number of ticks a song lasts is bounded by its rows: in every tick that reports more
  to come, the rows left until the arrangement wraps around, times 17, plus the delay counter drop.\<close>

theorem hsc_tick_progress:
  assumes "hsc_ok s" "hsc_update s = Some (True, s')"
  shows "17 * ((50 - hsc_songpos s') * 64 - hsc_pattpos s') + hsc_del s' <
    17 * ((50 - hsc_songpos s) * 64 - hsc_pattpos s) + hsc_del s \<and> hsc_left s \<le> 17 * 3200 + 16"
proof -
  have "hsc_left s' < hsc_left s" using hsc_update_ok [OF assms(1)] assms(2) by auto
  moreover have "hsc_rows_left s \<le> 3200" unfolding hsc_rows_left_def by linarith
  moreover have "hsc_del s \<le> 16" using assms(1) by (simp add: hsc_ok_def)
  ultimately show ?thesis unfolding hsc_left_def hsc_rows_left_def by linarith
qed

text \<open>A note byte with the top bit set selects the instrument in its effect byte, and a value of
  128 or more reads behind the 128 instruments: \<open>setinstr\<close> does not check its argument.\<close>

theorem hsc_instrument_out_of_range:
  assumes "matrix 128 12 (hsc_instr s)" "length (hsc_channel s) = 9" "chan < 9"
    and "rd2 (hsc_patterns s) pattnr (off + chan) = Some n"
    and "hn_note n AND 128 \<noteq> 0" "128 \<le> unat (hn_effect n)"
  shows "hsc_do_channel pattnr off chan s = None"
proof -
  have "rd2 (hsc_instr s) (unat (hn_effect n)) 8 = None"
    using assms(1,6) by (simp add: rd2_def rd_def matrix_length)
  then show ?thesis
    using assms by (simp add: hsc_do_channel_def hsc_setinstr_def hsc_ins_def access_simps opl_calls Let_def)
qed

lemma length_rows_of [simp]: "length (rows_of n w xs) = n"
  by (induction n arbitrary: xs) simp_all

lemma rows_of_width: "n * w \<le> length xs \<Longrightarrow> r \<in> set (rows_of n w xs) \<Longrightarrow> length r = w"
proof (induction n arbitrary: xs)
  case 0
  then show ?case by simp
next
  case (Suc n)
  have "n * w \<le> length (drop w xs)" using Suc.prems(1) by simp
  moreover have "w \<le> length xs" using Suc.prems(1) by (simp add: trans_le_add1)
  ultimately show ?case using Suc.IH [of "drop w xs"] Suc.prems(2) by auto
qed

lemma rows_of_matrix: "n * w \<le> length xs \<Longrightarrow> matrix n w (rows_of n w xs)"
  using rows_of_width by (auto simp: matrix_def)

lemma length_hsc_notes: "length (hsc_notes bs) = length bs div 2"
  by (induction bs rule: hsc_notes.induct) simp_all

lemma hsc_notes_append:
  "even (length xs) \<Longrightarrow> hsc_notes (xs @ ys) = hsc_notes xs @ hsc_notes ys"
  by (induction xs rule: hsc_notes.induct) simp_all

lemma hsc_notes_bytes: "hsc_notes (concat (map (\<lambda>n. [hn_note n, hn_effect n]) ns)) = ns"
  by (induction ns) simp_all

lemma rows_of_concat: "matrix n w m \<Longrightarrow> rows_of n w (concat m) = m"
proof (induction n arbitrary: m)
  case 0
  then show ?case by (simp add: matrix_def)
next
  case (Suc n)
  then obtain r m' where "m = r # m'" by (cases m) (auto simp: matrix_def)
  with Suc show ?case by (simp add: matrix_def)
qed

lemma rows_of_nth: "i < n \<Longrightarrow> rows_of n w xs ! i = take w (drop (i * w) xs)"
proof (induction n arbitrary: i xs)
  case 0
  then show ?case by simp
next
  case (Suc n)
  then show ?case by (cases i) (simp_all add: add.commute)
qed

lemma length_pattern_bytes: "length (hsc_pattern_bytes ps) = 2 * length (concat ps)"
proof -
  have "length (concat (map (\<lambda>n. [hn_note n, hn_effect n]) ns)) = 2 * length ns" for ns
    by (induction ns) simp_all
  then show ?thesis by (simp add: hsc_pattern_bytes_def)
qed

lemma length_concat_matrix: "matrix n w m \<Longrightarrow> length (concat m) = n * w"
proof (induction n arbitrary: m)
  case 0
  then show ?case by (simp add: matrix_def)
next
  case (Suc n)
  then obtain r m' where "m = r # m'" by (cases m) (auto simp: matrix_def)
  with Suc show ?case by (simp add: matrix_def)
qed

lemma drop_pairs:
  "drop (2 * k) (concat (map (\<lambda>n. [hn_note n, hn_effect n]) ns)) =
   concat (map (\<lambda>n. [hn_note n, hn_effect n]) (drop k ns))"
proof (induction k arbitrary: ns)
  case 0
  then show ?case by simp
next
  case (Suc k)
  then show ?case by (cases ns) simp_all
qed

lemma upper_patterns_kept:
  assumes "matrix 50 576 (hsc_patterns s)" "length pb = 50 * 64 * 9" "25 \<le> i" "i < 50"
  shows "hsc_set_patterns (pb @ drop (50 * 64 * 9) (hsc_pattern_bytes (hsc_patterns s))) ! i =
    hsc_patterns s ! i"
proof -
  let ?ns = "concat (hsc_patterns s)"
  let ?B = "\<lambda>ns. concat (map (\<lambda>n. [hn_note n, hn_effect n]) ns)"
  have "length ?ns = 28800" using length_concat_matrix [OF assms(1)] by simp
  have "drop 28800 (?B ?ns) = ?B (drop 14400 ?ns)"
    using drop_pairs [of 14400 ?ns] by simp
  then have "hsc_notes (pb @ drop (50 * 64 * 9) (hsc_pattern_bytes (hsc_patterns s))) =
      hsc_notes pb @ drop 14400 ?ns"
    using assms(2) by (simp add: hsc_notes_append hsc_notes_bytes hsc_pattern_bytes_def)
  moreover have "length (hsc_notes pb) = 14400" using assms(2) by (simp add: length_hsc_notes)
  moreover have "14400 \<le> i * 576" using assms(3) by simp
  ultimately have "drop (i * 576) (hsc_notes (pb @ drop (50 * 64 * 9) (hsc_pattern_bytes (hsc_patterns s)))) =
      drop (i * 576) ?ns" by simp
  then have "hsc_set_patterns (pb @ drop (50 * 64 * 9) (hsc_pattern_bytes (hsc_patterns s))) ! i =
      rows_of 50 576 ?ns ! i"
    using assms(4) by (simp add: hsc_set_patterns_def rows_of_nth)
  then show ?thesis using rows_of_concat [OF assms(1)] by simp
qed

lemma correct_all_rows:
  "\<forall>i \<in> set is. length i = 12 \<Longrightarrow>
   \<exists>is'. correct_all is = Some is' \<and> length is' = length is \<and> (\<forall>i \<in> set is'. length i = 12)"
  by (induction "is") (auto simp: correct_instr_def access_simps)

lemma correct_all_matrix:
  "matrix n 12 m \<Longrightarrow> \<exists>m'. correct_all m = Some m' \<and> matrix n 12 m'"
  using correct_all_rows [of m] by (auto simp: matrix_def)

text \<open>\<open>ChscPlayer::load\<close> returns on every stream. The loop that loads the patterns reads
  \<open>50 * 64 * 9\<close> bytes, half of the array: patterns 25 to 49 of an accepted file, which its
  arrangement may play, keep what the object's memory held before.\<close>

theorem hsc_load_upper_patterns:
  assumes ch: "hsc_channels s" and pat: "matrix 50 576 (hsc_patterns s)"
  shows "\<exists>b s'. hsc_load io opn filename s = Some (b, s') \<and>
    (\<forall>i \<in> {25..<50}. hsc_patterns s' ! i = hsc_patterns s ! i)"
proof (cases "opn filename")
  case None
  then show ?thesis by (auto simp: hsc_load_def)
next
  case (Some f)
  obtain z1 f1 where z1: "fp_filesize io f = (z1, f1)" by (metis surj_pair)
  obtain z2 f2 where z2: "fp_filesize io f1 = (z2, f2)" by (metis surj_pair)
  obtain z3 f3 where z3: "fp_filesize io f2 = (z3, f3)" by (metis surj_pair)
  obtain ib f4 where ib: "read_u8s io 1536 f3 = (ib, f4)" by (metis surj_pair)
  obtain sb f5 where sb: "read_u8s io 51 f4 = (sb, f5)" by (metis surj_pair)
  obtain pb f6 where pb: "read_u8s io 28800 f5 = (pb, f6)" by (metis surj_pair)
  have "matrix 128 12 (rows_of 128 12 ib)" using length_read_u8s [OF ib] by (intro rows_of_matrix) simp
  then obtain im where im: "correct_all (rows_of 128 12 ib) = Some im" "matrix 128 12 im"
    using correct_all_matrix by blast
  let ?t = "s\<lparr>hsc_instr := im,
    hsc_song := map (hsc_fix_song ((z3 - 1587) div 1152)) sb @ drop 51 (hsc_song s),
    hsc_patterns := hsc_set_patterns (pb @ drop 28800 (hsc_pattern_bytes (hsc_patterns s)))\<rparr>"
  have "matrix 128 12 (hsc_instr ?t)" "hsc_channels ?t" using im(2) ch by (simp_all add: hsc_channels_def)
  then obtain s' where s': "hsc_rewind 0 ?t = Some s'" "hsc_patterns s' = hsc_patterns ?t"
    using hsc_rewind_total [of ?t 0] by blast
  have up: "hsc_patterns s' ! i = hsc_patterns s ! i" if "i \<in> {25..<50}" for i
    using upper_patterns_kept [OF pat, of pb i] length_read_u8s [OF pb] s'(2) that by simp
  show ?thesis
  proof (cases "fp_extension filename ''.hsc'' \<and> z1 \<le> 59188 \<and> 2739 \<le> z2")
    case False
    then have "hsc_load io opn filename s = Some (False, s)"
      using Some z1 z2 by (auto simp: hsc_load_def Let_def)
    then show ?thesis by auto
  next
    case True
    then have "hsc_load io opn filename s = Some (True, s')"
      using Some z1 z2 z3 ib sb pb im(1) s'(1) by (simp add: hsc_load_def)
    then show ?thesis using up by auto
  qed
qed

section \<open>Witnesses\<close>

definition hsc_sample :: "hscnote \<Rightarrow> hsc_player" where
  "hsc_sample n =
     \<lparr>opl_out = [], hsc_channel = replicate 9 \<lparr>hc_inst = 0, hc_slide = 0, hc_freq = 0\<rparr>,
      hsc_instr = replicate 128 (replicate 12 0), hsc_song = 0 # replicate 127 0xff,
      hsc_patterns = replicate 50 (replicate 576 n), hsc_pattpos = 0, hsc_songpos = 0,
      hsc_pattbreak = 0, hsc_songend = False, hsc_mode6 = False, hsc_bd = 0, hsc_fadein = 0,
      hsc_speed = 2, hsc_del = 1, hsc_adl_freq = replicate 9 0, hsc_mtkmode = False\<rparr>"

lemma hsc_sample_ok: "hscnote_ok n \<Longrightarrow> hsc_ok (hsc_sample n)"
  by (simp add: hsc_sample_def hsc_ok_def hsc_static_def hsc_channels_def hsc_timing_def list_all_iff)

lemma hsc_song_ends_witness:
  "\<exists>n s1 s2. play hsc_update n (hsc_sample \<lparr>hn_note = 13, hn_effect = 1\<rparr>) = Some s1 \<and>
    hsc_update s1 = Some (False, s2)"
  using hsc_song_ends [OF hsc_sample_ok [of "\<lparr>hn_note = 13, hn_effect = 1\<rparr>"]]
  by (simp add: hscnote_ok_def) blast

lemma hsc_tick_progress_witness:
  "\<exists>s'. hsc_update ((hsc_sample \<lparr>hn_note = 13, hn_effect = 1\<rparr>)\<lparr>hsc_del := 2\<rparr>) = Some (True, s') \<and>
    hsc_left ((hsc_sample \<lparr>hn_note = 13, hn_effect = 1\<rparr>)\<lparr>hsc_del := 2\<rparr>) \<le> 17 * 3200 + 16"
proof -
  let ?s = "(hsc_sample \<lparr>hn_note = 13, hn_effect = 1\<rparr>)\<lparr>hsc_del := 2\<rparr>"
  have ok: "hsc_ok ?s" using hsc_sample_ok [of "\<lparr>hn_note = 13, hn_effect = 1\<rparr>"]
    by (simp add: hscnote_ok_def hsc_ok_def hsc_static_def hsc_channels_def hsc_timing_def)
  have "\<exists>s'. hsc_update ?s = Some (True, s')"
    by (simp add: hsc_update_def uint32_def hsc_sample_def)
  then show ?thesis using hsc_tick_progress [OF ok] by blast
qed

lemma hsc_instrument_out_of_range_witness:
  "hsc_do_channel 0 0 3 (hsc_sample \<lparr>hn_note = 128, hn_effect = 200\<rparr>) = None"
  by (rule hsc_instrument_out_of_range [where n = "\<lparr>hn_note = 128, hn_effect = 200\<rparr>"])
     (simp_all add: hsc_sample_def rd2_Some [of 50 576])

lemma hsc_load_upper_patterns_witness:
  "\<exists>b s'. hsc_load memio (\<lambda>_. Some (mem_file (replicate 1536 0 @ [0, 27] @ replicate 49 0xff @
      replicate (28 * 1152) 1))) ''a.hsc'' (hsc_sample \<lparr>hn_note = 5, hn_effect = 6\<rparr>) = Some (b, s') \<and>
    hsc_patterns s' ! 27 = replicate 576 \<lparr>hn_note = 5, hn_effect = 6\<rparr>"
  using hsc_load_upper_patterns [of "hsc_sample \<lparr>hn_note = 5, hn_effect = 6\<rparr>" memio
      "\<lambda>_. Some (mem_file (replicate 1536 0 @ [0, 27] @ replicate 49 0xff @ replicate (28 * 1152) 1))"
      "''a.hsc''"]
  by (fastforce simp: hsc_channels_def hsc_sample_def list_all_iff)

end
