(* ===== verification/Hsp.thy ===== *)
theory Hsp
  imports Hsc
begin

text \<open>
  \<open>src/hsp.cpp\<close>: HSC modules packed with run-length encoding. The buffers \<open>cmp\<close> and \<open>org\<close> are
  lists with checked accesses; \<open>org\<close> starts with whatever \<open>new\<close> returned.
\<close>

text \<open>\<open>memset(org + j, v, len)\<close>.\<close>

definition memset_at :: "bytes \<Rightarrow> nat \<Rightarrow> u8 \<Rightarrow> nat \<Rightarrow> bytes option" where
  "memset_at b j v n =
     (if j + n \<le> length b then Some (take j b @ replicate n v @ drop (j + n) b) else None)"

function hsp_rle ::
  "bytes \<Rightarrow> nat \<Rightarrow> nat \<Rightarrow> nat \<Rightarrow> nat \<Rightarrow> bytes \<Rightarrow> (bytes \<times> nat) option" where
  "hsp_rle cmp filesize orgsize i j org =
     (if i < filesize then
        (if j \<ge> orgsize then Some (org, j)
         else do {
           v \<leftarrow> rd cmp (i + 1);
           n \<leftarrow> rd cmp i;
           org' \<leftarrow> memset_at org j v (if j + unat n < orgsize then unat n else orgsize - j - 1);
           hsp_rle cmp filesize orgsize (i + 2) (j + unat n) org'
         })
      else Some (org, j))"
  by pat_completeness auto
termination by (relation "measure (\<lambda>(cmp, filesize, orgsize, i, j, org). filesize - i)") auto

declare hsp_rle.simps [simp del]

definition hsp_load ::
  "('s, 'fl) binio \<Rightarrow> 's opener \<Rightarrow> (nat \<Rightarrow> u8) \<Rightarrow> string \<Rightarrow> 'a hsc_player_scheme \<Rightarrow>
   (bool \<times> 'a hsc_player_scheme) option"
where
  "hsp_load io opn mem filename s =
     (case opn filename of None \<Rightarrow> Some (False, s) | Some f \<Rightarrow>
       (if \<not> fp_extension filename ''.hsp'' then Some (False, s)
        else
          let (filesize, f1) = fp_filesize io f;
              (n, f2) = bio_readInt io 2 f1;
              orgsize = ulong n
          in if orgsize > 59187 then Some (False, s)
             else do {
               let (cmp, f3) = read_u8s io filesize f2;
               (org, j) \<leftarrow> hsp_rle cmp filesize orgsize 0 0 (fresh mem orgsize);
               let orgsize = (if j < orgsize then j else orgsize);
               if orgsize < 128 * 12 + 51 then Some (False, s)
               else do {
                 instr \<leftarrow> correct_all (rows_of 128 12 (take (128 * 12) org));
                 let pb = take (orgsize - 128 * 12 - 51) (drop (128 * 12 + 51) org);
                 let s1 = s\<lparr>hsc_instr := instr,
                            hsc_song := take 51 (drop (128 * 12) org) @ drop 51 (hsc_song s),
                            hsc_patterns := hsc_set_patterns
                              (pb @ drop (length pb) (hsc_pattern_bytes (hsc_patterns s)))\<rparr>;
                 s2 \<leftarrow> hsc_rewind 0 s1;
                 Some (True, s2)
               }
             }))"

section \<open>The decoder\<close>

lemma length_memset_at: "memset_at b j v n = Some b' \<Longrightarrow> length b' = length b"
  by (auto simp: memset_at_def split: if_split_asm)

lemma hsp_rle_total:
  "length cmp = filesize \<Longrightarrow> even filesize \<Longrightarrow> even i \<Longrightarrow> length org = orgsize \<Longrightarrow>
   \<exists>org' j'. hsp_rle cmp filesize orgsize i j org = Some (org', j') \<and> length org' = orgsize \<and> j \<le> j'"
proof (induction cmp filesize orgsize i j org rule: hsp_rle.induct)
  case (1 cmp filesize orgsize i j org)
  show ?case
  proof (cases "i < filesize \<and> j < orgsize")
    case False
    then show ?thesis using 1 by (subst hsp_rle.simps) auto
  next
    case True
    have "i + 1 \<noteq> filesize" using 1(3,4) by (metis even_plus_one_iff)
    then have i: "i + 1 < filesize" using True by linarith
    have rd: "rd cmp (i + 1) = Some (cmp ! (i + 1))" "rd cmp i = Some (cmp ! i)"
      using i 1(2) by (simp_all add: access_simps)
    let ?n = "unat (cmp ! i)"
    obtain org1 where org1: "memset_at org j (cmp ! (i + 1))
        (if j + ?n < orgsize then ?n else orgsize - j - 1) = Some org1"
      using True 1(5) by (cases "j + ?n < orgsize") (simp_all add: memset_at_def)
    have ih: "\<exists>org' j'. hsp_rle cmp filesize orgsize (i + 2) (j + ?n) org1 = Some (org', j') \<and>
        length org' = orgsize \<and> j + ?n \<le> j'"
      using True 1(2-4) length_memset_at [OF org1] 1(5)
      by (intro 1(1) [OF _ _ rd org1]) simp_all
    have "hsp_rle cmp filesize orgsize i j org = hsp_rle cmp filesize orgsize (i + 2) (j + ?n) org1"
      using True rd org1 by (subst hsp_rle.simps) simp
    with ih show ?thesis by (auto intro: order_trans [OF le_add1])
  qed
qed

text \<open>The packed form of a list of runs, and what it stands for.\<close>

definition rle_encode :: "(u8 \<times> u8) list \<Rightarrow> bytes" where
  "rle_encode runs = concat (map (\<lambda>(n, v). [n, v]) runs)"

definition rle_expand :: "(u8 \<times> u8) list \<Rightarrow> bytes" where
  "rle_expand runs = concat (map (\<lambda>(n, v). replicate (unat n) v) runs)"

lemma rle_simps [simp]:
  "rle_encode [] = []" "rle_encode ((n, v) # runs) = n # v # rle_encode runs"
  "rle_expand [] = []" "rle_expand ((n, v) # runs) = replicate (unat n) v @ rle_expand runs"
  by (simp_all add: rle_encode_def rle_expand_def)

lemma hsp_rle_runs:
  "cmp = p @ rle_encode runs @ r \<Longrightarrow> i = length p \<Longrightarrow> length cmp = filesize \<Longrightarrow>
   length org = orgsize \<Longrightarrow> j + length (rle_expand runs) < orgsize \<Longrightarrow>
   hsp_rle cmp filesize orgsize i j org =
     hsp_rle cmp filesize orgsize (i + length (rle_encode runs)) (j + length (rle_expand runs))
       (take j org @ rle_expand runs @ drop (j + length (rle_expand runs)) org)"
proof (induction runs arbitrary: p i j org)
  case Nil
  then show ?case by simp
next
  case (Cons x runs)
  obtain n v where x: "x = (n, v)" by (cases x)
  let ?org = "take j org @ replicate (unat n) v @ drop (j + unat n) org"
  have j: "j + unat n + length (rle_expand runs) < orgsize" using Cons.prems(5) x by simp
  have "rd cmp i = Some n" "rd cmp (i + 1) = Some v" "i < filesize"
    using Cons.prems(1-3) x by (auto simp: rd_def nth_append)
  then have "hsp_rle cmp filesize orgsize i j org =
      hsp_rle cmp filesize orgsize (i + 2) (j + unat n) ?org"
    using j Cons.prems(4) by (subst hsp_rle.simps) (simp add: memset_at_def)
  also have "\<dots> = hsp_rle cmp filesize orgsize (i + 2 + length (rle_encode runs))
      (j + unat n + length (rle_expand runs))
      (take (j + unat n) ?org @ rle_expand runs @ drop (j + unat n + length (rle_expand runs)) ?org)"
    using Cons.prems x j by (intro Cons.IH [of "p @ [n, v]"]) auto
  also have "take (j + unat n) ?org = take j org @ replicate (unat n) v"
    using j Cons.prems(4) by simp
  also have "drop (j + unat n + length (rle_expand runs)) ?org =
      drop (j + unat n + length (rle_expand runs)) org"
    using j Cons.prems(4) by (simp add: add.commute)
  finally show ?case using x by (simp add: add.assoc add.commute add.left_commute)
qed

section \<open>Properties\<close>

text \<open>On a file of even size the run-length decoder returns and stays inside both of its
  buffers, for every contents of the file and every original size the header claims.\<close>

theorem hsp_rle_safe:
  assumes "length cmp = filesize" "even filesize"
  shows "\<exists>org j. hsp_rle cmp filesize orgsize 0 0 (fresh mem orgsize) = Some (org, j) \<and>
    length org = orgsize"
  using hsp_rle_total [of cmp filesize 0 "fresh mem orgsize" orgsize 0] assms by auto

text \<open>Runs whose expansion is shorter than the original size decode to exactly that expansion,
  at the start of the buffer.\<close>

theorem hsp_rle_decodes:
  assumes "length (rle_expand runs) < orgsize"
  shows "\<exists>org. hsp_rle (rle_encode runs) (length (rle_encode runs)) orgsize 0 0 (fresh mem orgsize) =
      Some (org, length (rle_expand runs)) \<and>
    take (length (rle_expand runs)) org = rle_expand runs"
  using hsp_rle_runs [of "rle_encode runs" "[]" runs "[]" 0 "length (rle_encode runs)"
      "fresh mem orgsize" orgsize 0] assms
  by (simp add: hsp_rle.simps)

text \<open>A run that ends exactly at the original size is written one byte short: the last byte of the
  decoded module is whatever the fresh buffer held.\<close>

theorem hsp_rle_last_byte:
  assumes "0 < unat n" "even filesize" "length cmp = filesize" "2 \<le> filesize"
    and "cmp ! 0 = n"
  shows "\<exists>org. hsp_rle cmp filesize (unat n) 0 0 (fresh mem (unat n)) = Some (org, unat n) \<and>
    org ! (unat n - 1) = mem (unat n - 1)"
proof -
  let ?org = "replicate (unat n - 1) (cmp ! 1) @ drop (unat n - 1) (fresh mem (unat n))"
  have rd: "rd cmp 0 = Some n" "rd cmp 1 = Some (cmp ! 1)" using assms by (simp_all add: access_simps)
  have "hsp_rle cmp filesize (unat n) 0 0 (fresh mem (unat n)) = hsp_rle cmp filesize (unat n) 2 (unat n) ?org"
    using assms rd by (subst hsp_rle.simps) (simp add: memset_at_def numeral_2_eq_2)
  also have "\<dots> = Some (?org, unat n)" by (subst hsp_rle.simps) simp
  finally show ?thesis using assms(1) by (simp add: nth_append fresh_def)
qed

text \<open>On a file of odd size the decoder can read the byte behind \<open>cmp\<close>: the loop checks its
  position, not the position of the value it reads.\<close>

theorem hsp_rle_odd_file:
  assumes "length cmp = 1" "0 < orgsize"
  shows "hsp_rle cmp 1 orgsize 0 0 org = None"
  using assms by (subst hsp_rle.simps) (simp add: access_simps)

section \<open>Witnesses\<close>

lemma hsp_rle_safe_witness:
  "\<exists>org j. hsp_rle [3, 7, 2, 8] 4 4 0 0 (fresh (\<lambda>_. 0) 4) = Some (org, j) \<and> length org = 4"
  by (rule hsp_rle_safe) simp_all

lemma hsp_rle_decodes_witness:
  "\<exists>org. hsp_rle [3, 7, 2, 8] 4 6 0 0 (fresh (\<lambda>_. 0) 6) = Some (org, 5) \<and> take 5 org = [7, 7, 7, 8, 8]"
proof -
  have "rle_expand [(3, 7), (2, 8)] = [7, 7, 7, 8, 8]" "rle_encode [(3, 7), (2, 8)] = [3, 7, 2, 8]"
    by (simp_all, simp add: numeral_eq_Suc)
  then show ?thesis using hsp_rle_decodes [of "[(3, 7), (2, 8)]" 6 "\<lambda>_. 0"] by (simp add: eval_nat_numeral)
qed

lemma hsp_rle_last_byte_witness:
  "\<exists>org. hsp_rle [3, 7] 2 3 0 0 (fresh (\<lambda>_. 9) 3) = Some (org, 3) \<and> org ! 2 = 9"
  using hsp_rle_last_byte [of 3 2 "[3, 7]" "\<lambda>_. 9"] by simp

lemma hsp_rle_odd_file_witness: "hsp_rle [5] 1 4 0 0 [0, 0, 0, 0] = None"
  by (rule hsp_rle_odd_file) simp_all

end
