(* ===== verification/Mtk.thy ===== *)
theory Mtk
  imports Hsp
begin

text \<open>
  \<open>src/mtk.cpp\<close>: MPU-401 Trakker modules, HSC data behind a compressed image: literal bytes, runs
  and copies of earlier output, selected by control words of 16 bits.
\<close>

record 'a mtk_state =
  mk_org :: bytes
  mk_ctrlbits :: u16
  mk_ctrlmask :: u16
  mk_stream :: 'a

record mtk_player = hsc_player +
  mtk_title :: bytes
  mtk_composer :: bytes
  mtk_instname :: "bytes list"

text \<open>\<open>repeat_byte\<close> and \<open>copy_range\<close>: \<open>Some None\<close> is the jump to \<open>err\<close>.\<close>

definition mtk_repeat_byte ::
  "('s, 'fl) binio \<Rightarrow> nat \<Rightarrow> nat \<Rightarrow> nat \<Rightarrow> 's mtk_state \<Rightarrow> (nat \<times> 's mtk_state) option option"
where
  "mtk_repeat_byte io sz orgptr cnt m =
     (if orgptr + cnt > sz then Some None
      else do {
        let (v, f) = read_u8 io (mk_stream m);
        org \<leftarrow> memset_at (mk_org m) orgptr v cnt;
        Some (Some (cnt, m\<lparr>mk_org := org, mk_stream := f\<rparr>))
      })"

fun mtk_copy_loop :: "nat \<Rightarrow> nat \<Rightarrow> nat list \<Rightarrow> bytes \<Rightarrow> bytes option" where
  "mtk_copy_loop orgptr offs [] org = Some org"
| "mtk_copy_loop orgptr offs (i # is) org = do {
     v \<leftarrow> rd_int org (int orgptr - int offs + int i);
     org' \<leftarrow> wr org (orgptr + i) v;
     mtk_copy_loop orgptr offs is org'
   }"

definition mtk_copy_range ::
  "nat \<Rightarrow> nat \<Rightarrow> nat \<Rightarrow> nat \<Rightarrow> 's mtk_state \<Rightarrow> (nat \<times> 's mtk_state) option option"
where
  "mtk_copy_range sz orgptr cnt offs m =
     (if orgptr + cnt > sz \<or> offs > orgptr then Some None
      else do {
        org \<leftarrow> mtk_copy_loop orgptr offs [0..<cnt] (mk_org m);
        Some (Some (cnt, m\<lparr>mk_org := org\<rparr>))
      })"

text \<open>The next control bit, with a new control word when the mask has run out.\<close>

definition mtk_next_bit :: "('s, 'fl) binio \<Rightarrow> 's mtk_state \<Rightarrow> 's mtk_state" where
  "mtk_next_bit io m =
     (let mask = drop_bit 1 (mk_ctrlmask m)
      in if mask = 0
         then (let (b, f) = read_u16 io (mk_stream m)
               in m\<lparr>mk_ctrlbits := b, mk_ctrlmask := 0x8000, mk_stream := f\<rparr>)
         else m\<lparr>mk_ctrlmask := mask\<rparr>)"

text \<open>The body of the loop: \<open>cnt\<close>, by which \<open>orgptr\<close> advances, and the new state.\<close>

definition mtk_step ::
  "('s, 'fl) binio \<Rightarrow> nat \<Rightarrow> nat \<Rightarrow> 's mtk_state \<Rightarrow> (nat \<times> 's mtk_state) option option"
where
  "mtk_step io sz orgptr m =
     (if bio_error io (mk_stream m) then Some None
      else
        let m1 = mtk_next_bit io m
        in if mk_ctrlbits m1 AND mk_ctrlmask m1 = 0
           then do {
             let (v, f) = read_u8 io (mk_stream m1);
             org \<leftarrow> wr (mk_org m1) orgptr v;
             Some (Some (1, m1\<lparr>mk_org := org, mk_stream := f\<rparr>))
           }
           else
             let (cmd, f1) = read_u8 io (mk_stream m1);
                 cnt = unat (cmd AND 0x0f) + 3;
                 kind = unat (drop_bit 4 cmd);
                 m2 = m1\<lparr>mk_stream := f1\<rparr>
             in if kind = 0 then mtk_repeat_byte io sz orgptr cnt m2
                else if kind = 1
                then (let (v, f2) = read_u8 io f1
                      in mtk_repeat_byte io sz orgptr (cnt + push_bit 4 (unat v) + 16)
                           (m2\<lparr>mk_stream := f2\<rparr>))
                else if kind = 2
                then (let (v, f2) = read_u8 io f1; (w, f3) = read_u8 io f2
                      in mtk_copy_range sz orgptr (unat w + 16) (cnt + push_bit 4 (unat v))
                           (m2\<lparr>mk_stream := f3\<rparr>))
                else (let (v, f2) = read_u8 io f1
                      in mtk_copy_range sz orgptr kind (cnt + push_bit 4 (unat v))
                           (m2\<lparr>mk_stream := f2\<rparr>)))"

partial_function (option) mtk_loop ::
  "('s, 'fl) binio \<Rightarrow> nat \<Rightarrow> nat \<Rightarrow> 's mtk_state \<Rightarrow> 's mtk_state option option"
where
  "mtk_loop io sz orgptr m =
     (if orgptr < sz then do {
        r \<leftarrow> mtk_step io sz orgptr m;
        (case r of None \<Rightarrow> Some None | Some (cnt, m1) \<Rightarrow> mtk_loop io sz (orgptr + cnt) m1)
      }
      else Some (Some m))"

definition mtk_decompress ::
  "('s, 'fl) binio \<Rightarrow> (nat \<Rightarrow> u8) \<Rightarrow> nat \<Rightarrow> 's \<Rightarrow> (bytes \<times> 's) option option"
where
  "mtk_decompress io mem sz f = do {
     r \<leftarrow> mtk_loop io sz 0
           \<lparr>mk_org = fresh mem sz, mk_ctrlbits = 0, mk_ctrlmask = 0, mk_stream = f\<rparr>;
     (case r of None \<Rightarrow> Some None
      | Some m \<Rightarrow>
          if bio_error io (mk_stream m) \<or> \<not> bio_ateof io (mk_stream m) then Some None
          else Some (Some (mk_org m, mk_stream m)))
   }"

text \<open>\<open>strncpy(dst, src, n)\<close> into a buffer of \<open>n + 1\<close> bytes whose last byte is then cleared.\<close>

definition strncpy0 :: "bytes \<Rightarrow> nat \<Rightarrow> bytes" where
  "strncpy0 src n =
     (let t = takeWhile (\<lambda>c. c \<noteq> 0) (take n src) in t @ replicate (n - length t) 0 @ [0])"

text \<open>The size of \<open>mtkdata\<close>, and the offsets of its parts.\<close>

definition mtkdata_size :: nat where "mtkdata_size = 34 + 34 + 128 * 34 + 128 * 12 + 128 + 1"

definition mtk_id :: bytes where
  "mtk_id = bytes_of ''mpu401tr'' @ [0x92] @ bytes_of ''kk'' @ [0xee] @ bytes_of ''r@data''"

definition mtk_convert :: "bytes \<Rightarrow> mtk_player \<Rightarrow> (bool \<times> mtk_player) option" where
  "mtk_convert org s = do {
     let names = map (\<lambda>r. strncpy0 (drop 1 r) 33) (rows_of 128 34 (drop 68 org));
     instr \<leftarrow> correct_all (rows_of 128 12 (take 1536 (drop 4420 org)));
     let cnt = min (length org - mtkdata_size) 57600;
     let pb = take cnt (drop mtkdata_size org);
     s1 \<leftarrow> hsc_rewind 0
       (s\<lparr>mtk_title := strncpy0 (take 33 (drop 1 org)) 33,
          mtk_composer := strncpy0 (take 33 (drop 35 org)) 33,
          mtk_instname := names,
          hsc_instr := instr,
          hsc_song := take 128 (drop 5956 org),
          hsc_patterns := hsc_set_patterns
            (pb @ drop (length pb) (hsc_pattern_bytes (hsc_patterns s)))\<rparr>);
     Some (True, s1)
   }"

definition mtk_load ::
  "('s, 'fl) binio \<Rightarrow> 's opener \<Rightarrow> (nat \<Rightarrow> u8) \<Rightarrow> string \<Rightarrow> mtk_player \<Rightarrow> (bool \<times> mtk_player) option"
where
  "mtk_load io opn mem filename s =
     (case opn filename of None \<Rightarrow> Some (False, s) | Some f \<Rightarrow>
       (let (_, hdr, f1) = bio_readString io 18 (fresh mem 18) f;
            (crc, f2) = read_u16 io f1;
            (sz, f3) = read_u16 io f2
        in if hdr \<noteq> mtk_id \<or> unat sz < mtkdata_size then Some (False, s)
           else do {
             r \<leftarrow> mtk_decompress io mem (unat sz) f3;
             (case r of None \<Rightarrow> Some (False, s) | Some (org, _) \<Rightarrow> mtk_convert org s)
           }))"

section \<open>The decompressor\<close>

text \<open>
  A step that is not an error moves \<open>orgptr\<close> forward, stays inside the image, leaves what is
  already there alone, and what it writes depends only on the bytes before \<open>orgptr\<close>.
\<close>

lemma mtk_copy_loop_prefix:
  assumes "offs \<le> orgptr" "0 < offs" "orgptr + n + k \<le> length org"
  shows "\<exists>org'. mtk_copy_loop orgptr offs [n..<n + k] org = Some org' \<and> length org' = length org \<and>
    (\<forall>org2. length org2 = length org \<longrightarrow> take (orgptr + n) org2 = take (orgptr + n) org \<longrightarrow>
      (\<exists>org2'. mtk_copy_loop orgptr offs [n..<n + k] org2 = Some org2' \<and> length org2' = length org \<and>
         take (orgptr + n + k) org2' = take (orgptr + n + k) org')) \<and>
    take (orgptr + n) org' = take (orgptr + n) org"
  using assms(3)
proof (induction k arbitrary: n org)
  case 0
  then show ?case by simp
next
  case (Suc k)
  let ?j = "orgptr + n - offs"
  have j: "int orgptr - int offs + int n = int ?j" "?j < orgptr + n" "orgptr + n < length org"
    using assms(1,2) Suc.prems by auto
  have upt: "[n..<n + Suc k] = n # [Suc n..<Suc n + k]" by (simp add: upt_rec)
  let ?org = "org[orgptr + n := org ! ?j]"
  have step: "mtk_copy_loop orgptr offs [n..<n + Suc k] b =
      mtk_copy_loop orgptr offs [Suc n..<Suc n + k] (b[orgptr + n := b ! ?j])"
    if "length b = length org" for b
  proof -
    have "rd_int b (int orgptr - int offs + int n) = Some (b ! ?j)"
      unfolding j(1) using j(2,3) that by (simp add: access_simps)
    moreover have "wr b (orgptr + n) (b ! ?j) = Some (b[orgptr + n := b ! ?j])"
      using j(3) that by (simp add: access_simps)
    ultimately show ?thesis unfolding upt by (simp only: mtk_copy_loop.simps Option.bind.bind_lunit)
  qed
  obtain org' where org': "mtk_copy_loop orgptr offs [Suc n..<Suc n + k] ?org = Some org'"
    "length org' = length org" "take (orgptr + Suc n) org' = take (orgptr + Suc n) ?org"
    "\<forall>org2. length org2 = length ?org \<longrightarrow> take (orgptr + Suc n) org2 = take (orgptr + Suc n) ?org \<longrightarrow>
      (\<exists>org2'. mtk_copy_loop orgptr offs [Suc n..<Suc n + k] org2 = Some org2' \<and>
         length org2' = length ?org \<and>
         take (orgptr + Suc n + k) org2' = take (orgptr + Suc n + k) org')"
    using Suc.IH [of "Suc n" ?org] Suc.prems by auto
  have pre: "take (orgptr + n) org' = take (orgptr + n) org"
    using org'(3) by (metis (no_types, lifting) add_Suc_right min.absorb1 le_SucI order_refl take_take
        take_update_cancel)
  have other: "\<exists>org2'. mtk_copy_loop orgptr offs [n..<n + Suc k] org2 = Some org2' \<and>
      length org2' = length org \<and> take (orgptr + n + Suc k) org2' = take (orgptr + n + Suc k) org'"
    if o2: "length org2 = length org" "take (orgptr + n) org2 = take (orgptr + n) org" for org2
  proof -
    let ?org2 = "org2[orgptr + n := org2 ! ?j]"
    have "org2 ! ?j = org ! ?j" using o2(2) j(2) by (metis nth_take)
    moreover have "orgptr + n < length org2" using o2 j by simp
    ultimately have "take (orgptr + Suc n) ?org2 = take (orgptr + Suc n) ?org"
      using o2 j by (simp add: take_Suc_conv_app_nth)
    then show ?thesis using org'(4) o2(1) step [OF o2(1)] by simp
  qed
  show ?case using step [of org] org'(1,2) pre other by auto
qed


text \<open>Two states that agree on everything but the bytes from \<open>p\<close> on.\<close>

definition mtk_agree :: "nat \<Rightarrow> 's mtk_state \<Rightarrow> 's mtk_state \<Rightarrow> bool" where
  "mtk_agree p m m2 \<longleftrightarrow> length (mk_org m2) = length (mk_org m) \<and>
     take p (mk_org m2) = take p (mk_org m) \<and> mk_ctrlbits m2 = mk_ctrlbits m \<and>
     mk_ctrlmask m2 = mk_ctrlmask m \<and> mk_stream m2 = mk_stream m"

text \<open>The result of a step: an error in both, or the same advance and agreement up to it.\<close>

definition mtk_same_step ::
  "nat \<Rightarrow> nat \<Rightarrow> (nat \<times> 's mtk_state) option option \<Rightarrow> (nat \<times> 's mtk_state) option option \<Rightarrow> bool"
where
  "mtk_same_step sz p r r2 \<longleftrightarrow>
     (r = Some None \<and> r2 = Some None) \<or>
     (\<exists>cnt m m2. r = Some (Some (cnt, m)) \<and> r2 = Some (Some (cnt, m2)) \<and> 0 < cnt \<and> p + cnt \<le> sz \<and>
        length (mk_org m) = sz \<and> mtk_agree (p + cnt) m m2)"

lemma mtk_repeat_same:
  assumes "mtk_agree p m m2" "length (mk_org m) = sz" "0 < cnt"
  shows "mtk_same_step sz p (mtk_repeat_byte io sz p cnt m) (mtk_repeat_byte io sz p cnt m2)"
proof (cases "p + cnt > sz")
  case True
  then show ?thesis by (simp add: mtk_repeat_byte_def mtk_same_step_def)
next
  case False
  obtain v f where v: "read_u8 io (mk_stream m) = (v, f)" by (metis surj_pair)
  have st: "mk_stream m2 = mk_stream m" "length (mk_org m2) = sz" using assms by (simp_all add: mtk_agree_def)
  let ?o = "\<lambda>m. take p (mk_org m) @ replicate cnt v @ drop (p + cnt) (mk_org m)"
  have "mtk_repeat_byte io sz p cnt m = Some (Some (cnt, m\<lparr>mk_org := ?o m, mk_stream := f\<rparr>))"
    "mtk_repeat_byte io sz p cnt m2 = Some (Some (cnt, m2\<lparr>mk_org := ?o m2, mk_stream := f\<rparr>))"
    using False assms(2) v st by (simp_all add: mtk_repeat_byte_def memset_at_def)
  moreover have "mtk_agree (p + cnt) (m\<lparr>mk_org := ?o m, mk_stream := f\<rparr>) (m2\<lparr>mk_org := ?o m2, mk_stream := f\<rparr>)"
    using assms False by (simp add: mtk_agree_def)
  ultimately show ?thesis using assms False by (simp add: mtk_same_step_def)
qed

lemma mtk_copy_same:
  assumes "mtk_agree p m m2" "length (mk_org m) = sz" "0 < cnt" "0 < offs"
  shows "mtk_same_step sz p (mtk_copy_range sz p cnt offs m) (mtk_copy_range sz p cnt offs m2)"
proof (cases "p + cnt > sz \<or> offs > p")
  case True
  then show ?thesis by (auto simp: mtk_copy_range_def mtk_same_step_def)
next
  case False
  have st: "length (mk_org m2) = length (mk_org m)" "take (p + 0) (mk_org m2) = take (p + 0) (mk_org m)"
    using assms(1) by (simp_all add: mtk_agree_def)
  obtain o1 where o1: "mtk_copy_loop p offs [0..<0 + cnt] (mk_org m) = Some o1"
    "length o1 = length (mk_org m)"
    "\<exists>o2. mtk_copy_loop p offs [0..<0 + cnt] (mk_org m2) = Some o2 \<and> length o2 = length (mk_org m) \<and>
       take (p + 0 + cnt) o2 = take (p + 0 + cnt) o1"
    using mtk_copy_loop_prefix [of offs p 0 cnt "mk_org m"] assms False st by auto
  then obtain o2 where "mtk_copy_loop p offs [0..<cnt] (mk_org m2) = Some o2"
    "length o2 = length (mk_org m)" "take (p + cnt) o2 = take (p + cnt) o1" by auto
  then show ?thesis
    using o1 False assms by (simp add: mtk_copy_range_def mtk_same_step_def mtk_agree_def)
qed

lemma mtk_step_same:
  assumes a: "mtk_agree p m m2" and sz: "length (mk_org m) = sz" and p: "p < sz"
  shows "mtk_same_step sz p (mtk_step io sz p m) (mtk_step io sz p m2)"
proof -
  let ?n = "mtk_next_bit io m" and ?n2 = "mtk_next_bit io m2"
  have n: "mtk_agree p ?n ?n2" "length (mk_org ?n) = sz"
    using a sz by (auto simp: mtk_next_bit_def Let_def mtk_agree_def split: prod.split)
  then have st: "mk_stream ?n2 = mk_stream ?n" "mk_ctrlbits ?n2 = mk_ctrlbits ?n"
    "mk_ctrlmask ?n2 = mk_ctrlmask ?n" "length (mk_org ?n2) = sz"
    by (simp_all add: mtk_agree_def)
  have upd: "mtk_agree p (?n\<lparr>mk_stream := g\<rparr>) (?n2\<lparr>mk_stream := g\<rparr>)"
    "length (mk_org (?n\<lparr>mk_stream := g\<rparr>)) = sz" for g
    using n by (simp_all add: mtk_agree_def)
  have err: "bio_error io (mk_stream m2) = bio_error io (mk_stream m)" using a by (simp add: mtk_agree_def)
  obtain cmd f1 where c: "read_u8 io (mk_stream ?n) = (cmd, f1)" by (metis surj_pair)
  obtain v f2 where v: "read_u8 io f1 = (v, f2)" by (metis surj_pair)
  obtain w f3 where w: "read_u8 io f2 = (w, f3)" by (metis surj_pair)
  let ?cnt = "unat (cmd AND 0x0f) + 3" and ?kind = "unat (drop_bit 4 cmd)"
  have lit: "mtk_same_step sz p
      (do { org \<leftarrow> wr (mk_org ?n) p cmd; Some (Some (1, ?n\<lparr>mk_org := org, mk_stream := f1\<rparr>)) })
      (do { org \<leftarrow> wr (mk_org ?n2) p cmd; Some (Some (1, ?n2\<lparr>mk_org := org, mk_stream := f1\<rparr>)) })"
    using n p st by (simp add: access_simps mtk_same_step_def mtk_agree_def take_Suc_conv_app_nth)
  show ?thesis
  proof (cases "bio_error io (mk_stream m)")
    case True
    then show ?thesis using err by (simp add: mtk_step_def mtk_same_step_def)
  next
    case False
    have unfold_step: "mtk_step io sz p x =
      (if mk_ctrlbits (mtk_next_bit io x) AND mk_ctrlmask (mtk_next_bit io x) = 0
       then do { org \<leftarrow> wr (mk_org (mtk_next_bit io x)) p cmd;
                 Some (Some (1, (mtk_next_bit io x)\<lparr>mk_org := org, mk_stream := f1\<rparr>)) }
       else if ?kind = 0 then mtk_repeat_byte io sz p ?cnt ((mtk_next_bit io x)\<lparr>mk_stream := f1\<rparr>)
       else if ?kind = 1 then mtk_repeat_byte io sz p (?cnt + push_bit 4 (unat v) + 16)
              ((mtk_next_bit io x)\<lparr>mk_stream := f2\<rparr>)
       else if ?kind = 2 then mtk_copy_range sz p (unat w + 16) (?cnt + push_bit 4 (unat v))
              ((mtk_next_bit io x)\<lparr>mk_stream := f3\<rparr>)
       else mtk_copy_range sz p ?kind (?cnt + push_bit 4 (unat v)) ((mtk_next_bit io x)\<lparr>mk_stream := f2\<rparr>))"
      if "mk_stream (mtk_next_bit io x) = mk_stream ?n" "\<not> bio_error io (mk_stream x)" for x
      unfolding mtk_step_def if_not_P [OF that(2)] Let_def that(1) c
        prod.case v w by simp
    have e: "\<not> bio_error io (mk_stream m2)" using False err by simp
    show ?thesis
      unfolding unfold_step [OF refl False] unfold_step [OF st(1) e] st(2,3)
      using lit by (auto intro!: mtk_repeat_same [OF upd] mtk_copy_same [OF upd] split: if_split)
  qed
qed

lemma mtk_loop_same:
  "mtk_agree p m m2 \<Longrightarrow> length (mk_org m) = sz \<Longrightarrow> p \<le> sz \<Longrightarrow>
   (mtk_loop io sz p m = Some None \<and> mtk_loop io sz p m2 = Some None) \<or>
   (\<exists>m' m2'. mtk_loop io sz p m = Some (Some m') \<and> mtk_loop io sz p m2 = Some (Some m2') \<and>
      length (mk_org m') = sz \<and> mk_org m2' = mk_org m' \<and> mk_stream m2' = mk_stream m')"
proof (induction "sz - p" arbitrary: p m m2 rule: less_induct)
  case less
  show ?case
  proof (cases "p < sz")
    case False
    then have "p = sz" using less.prems(3) by simp
    then show ?thesis
      using less.prems by (subst (1 2 3 4) mtk_loop.simps) (auto simp: mtk_agree_def)
  next
    case True
    from mtk_step_same [OF less.prems(1,2) True, of io]
    consider (err) "mtk_step io sz p m = Some None" "mtk_step io sz p m2 = Some None"
      | (go) cnt n n2 where "mtk_step io sz p m = Some (Some (cnt, n))"
          "mtk_step io sz p m2 = Some (Some (cnt, n2))" "0 < cnt" "p + cnt \<le> sz"
          "length (mk_org n) = sz" "mtk_agree (p + cnt) n n2"
      unfolding mtk_same_step_def by blast
    then show ?thesis
    proof cases
      case err
      then show ?thesis using True by (subst (1 2 3 4) mtk_loop.simps) simp
    next
      case go
      have "sz - (p + cnt) < sz - p" using go(3) True by simp
      from less.hyps [OF this go(6,5,4)] go(1,2) True show ?thesis
        by (subst (1 2 3 4) mtk_loop.simps) simp
    qed
  qed
qed

section \<open>Properties\<close>

text \<open>C19: the decompressor returns on every stream and for every image size, with an error or an
  image of the announced size: runs and copies never leave the image, and every command moves on.\<close>

theorem mtk_decompress_safe:
  "mtk_decompress io mem sz f = Some None \<or>
   (\<exists>org f'. mtk_decompress io mem sz f = Some (Some (org, f')) \<and> length org = sz)"
proof -
  let ?m = "\<lparr>mk_org = fresh mem sz, mk_ctrlbits = 0, mk_ctrlmask = 0, mk_stream = f\<rparr>"
  have "mtk_agree 0 ?m ?m" by (simp add: mtk_agree_def)
  from mtk_loop_same [OF this, of sz io] show ?thesis by (auto simp: mtk_decompress_def)
qed

text \<open>Nothing of the decompressed image is left over from the memory \<open>new\<close> returned: two
  decompressions of the same stream into different buffers give the same result.\<close>

theorem mtk_decompress_initialised:
  "mtk_decompress io mem sz f = mtk_decompress io mem' sz f"
proof -
  let ?m = "\<lambda>mem. \<lparr>mk_org = fresh mem sz, mk_ctrlbits = 0, mk_ctrlmask = 0, mk_stream = f\<rparr>"
  have "mtk_agree 0 (?m mem) (?m mem')" by (simp add: mtk_agree_def)
  from mtk_loop_same [OF this, of sz io] show ?thesis by (auto simp: mtk_decompress_def)
qed

end
