(* ===== verification/Unlzss.thy ===== *)
theory Unlzss
  imports Binio
begin

text \<open>
  \<open>src/unlzss.c\<close>: the LZSS decompressor of Adlib Tracker 2 modules: octets and copies out of a window of 4096,
  eight of them behind a byte of flags.
\<close>

section \<open>The code\<close>

text \<open>
  The static variables and the locals of \<open>LZSS_decode\<close>. The buffers of input and output are given by the caller;
  \<open>lz_output\<close> is what was written, \<open>lz_work\<close> the allocated 65536 bytes.
\<close>

record lzss =
  lz_input :: bytes
  lz_idx :: nat
  lz_output :: bytes
  lz_max :: int
  lz_work :: bytes
  lz_dx :: u16
  lz_ebx :: u32
  lz_edi :: u32

definition lzss_put :: "u8 \<Rightarrow> lzss \<Rightarrow> lzss option" where
  "lzss_put b s = do {
     w \<leftarrow> wr (lz_work s) (unat (lz_edi s)) b;
     Some (s\<lparr>lz_work := w\<rparr>)
   }"

definition lzss_full :: "lzss \<Rightarrow> bool" where
  "lzss_full s \<longleftrightarrow> lz_max s \<le> int (length (lz_output s))"

definition lzss_forward :: "u32 \<Rightarrow> u32" where
  "lzss_forward x = (x + 1) AND (4096 - 1)"

text \<open>A literal; \<open>False\<close> is the end for want of room.\<close>

definition lzss_literal :: "lzss \<Rightarrow> (bool \<times> lzss) option" where
  "lzss_literal s = do {
     code \<leftarrow> rd (lz_input s) (lz_idx s);
     s \<leftarrow> lzss_put code (s\<lparr>lz_idx := lz_idx s + 1\<rparr>);
     let s = s\<lparr>lz_edi := lzss_forward (lz_edi s)\<rparr>;
     Some (if lzss_full s then (False, s) else (True, s\<lparr>lz_output := lz_output s @ [code]\<rparr>))
   }"

text \<open>The loop of a copy, whose length is at least 3.\<close>

fun lzss_copy :: "nat \<Rightarrow> lzss \<Rightarrow> (bool \<times> lzss) option" where
  "lzss_copy 0 s = Some (True, s)"
| "lzss_copy (Suc n) s =
     (if lzss_full s then Some (False, s)
      else do {
        b \<leftarrow> rd (lz_work s) (unat (lz_ebx s));
        s \<leftarrow> lzss_put b s;
        lzss_copy n (s\<lparr>lz_output := lz_output s @ [b], lz_ebx := lzss_forward (lz_ebx s), lz_edi := lzss_forward (lz_edi s)\<rparr>)
      })"

definition lzss_match :: "lzss \<Rightarrow> (bool \<times> lzss) option" where
  "lzss_match s =
     (if length (lz_input s) \<le> lz_idx s then Some (False, s)
      else do {
        prevcode \<leftarrow> rd (lz_input s) (lz_idx s);
        let s = s\<lparr>lz_idx := lz_idx s + 1\<rparr>;
        if length (lz_input s) \<le> lz_idx s then Some (False, s)
        else do {
          code \<leftarrow> rd (lz_input s) (lz_idx s);
          let s = s\<lparr>lz_idx := lz_idx s + 1, lz_ebx := (push_bit 4 (ucast code) AND 0xff00) OR ucast prevcode\<rparr>;
          lzss_copy (unat (code AND 0x0f) + 2 + 1) s
        }
      })"

text \<open>The next byte of flags, after eight.\<close>

definition lzss_flags :: "lzss \<Rightarrow> (bool \<times> lzss) option" where
  "lzss_flags s =
     (if drop_bit 8 (lz_dx s) = 0 then
        (if length (lz_input s) \<le> lz_idx s then Some (False, s)
         else do { code \<leftarrow> rd (lz_input s) (lz_idx s); Some (True, s\<lparr>lz_idx := lz_idx s + 1, lz_dx := 0xff00 OR ucast code\<rparr>) })
      else Some (True, s))"

text \<open>One round of the loop; \<open>False\<close> is the way out of it.\<close>

definition lzss_round :: "lzss \<Rightarrow> (bool \<times> lzss) option" where
  "lzss_round s = do {
     (go, s) \<leftarrow> lzss_flags (s\<lparr>lz_dx := drop_bit 1 (lz_dx s)\<rparr>);
     if \<not> go then Some (False, s)
     else if lz_dx s AND 1 \<noteq> 0 then
       (if length (lz_input s) \<le> lz_idx s then Some (False, s) else lzss_literal s)
     else lzss_match s
   }"

partial_function (option) lzss_decode :: "lzss \<Rightarrow> lzss option" where
  "lzss_decode s = do {
     (go, s) \<leftarrow> lzss_round s;
     if go then lzss_decode s else Some s
   }"

definition lzss_decompress :: "bytes \<Rightarrow> int \<Rightarrow> bytes option" where
  "lzss_decompress source dest_size = do {
     s \<leftarrow> lzss_decode \<lparr>lz_input = source, lz_idx = 0, lz_output = [], lz_max = dest_size, lz_work = replicate 65536 0, lz_dx = 0,
       lz_ebx = 0, lz_edi = 4096 - (16 + 2)\<rparr>;
     Some (lz_output s)
   }"

section \<open>Safety\<close>

definition lzss_ok :: "lzss \<Rightarrow> bool" where
  "lzss_ok s \<longleftrightarrow> length (lz_work s) = 65536 \<and> unat (lz_edi s) < 4096 \<and> unat (lz_ebx s) < 4096 \<and>
     int (length (lz_output s)) \<le> max 0 (lz_max s) \<and> lz_idx s \<le> length (lz_input s)"

lemma lzss_forward: "unat (lzss_forward x) = (unat x + 1) mod 4096"
proof -
  have "(x + 1) AND 0xFFF = take_bit 12 (x + 1)" by (simp add: take_bit_eq_mask mask_eq_exp_minus_1)
  then have "unat ((x + 1) AND 0xFFF) = take_bit 12 (unat (x + 1))" by (simp only: unsigned_take_bit_eq)
  also have "\<dots> = (unat x + 1) mod 4096" by (simp add: take_bit_eq_mod unat_word_ariths mod_mod_cancel)
  finally show ?thesis by (simp add: lzss_forward_def)
qed

lemma unat_take_bit: "take_bit n (x :: u32) = x \<Longrightarrow> unat x < 2 ^ n"
  using unsigned_take_bit_eq [of n x, where 'a = nat] take_bit_nat_less_exp [of n "unat x"] by simp

lemma lzss_start: "unat ((push_bit 4 (ucast (code :: u8)) AND 0xff00) OR ucast (prev :: u8) :: u32) < 4096"
proof -
  have high: "\<not> bit (push_bit 4 (ucast code) :: u32) k" "\<not> bit (ucast prev :: u32) k" if "12 \<le> k" for k
    using that by (auto simp: bit_simps dest: bit_imp_le_length)
  have "take_bit 12 ((push_bit 4 (ucast code) AND m) OR ucast prev :: u32) = (push_bit 4 (ucast code) AND m) OR ucast prev" for m
  proof (rule bit_word_eqI)
    fix k
    show "bit (take_bit 12 ((push_bit 4 (ucast code) AND m) OR ucast prev :: u32)) k = bit ((push_bit 4 (ucast code) AND m) OR ucast prev :: u32) k"
      using high [of k] by (cases "12 \<le> k") (simp_all add: bit_take_bit_iff bit_and_iff bit_or_iff)
  qed
  from unat_take_bit [OF this] show ?thesis by simp
qed

lemma lzss_put_eq: "lzss_ok s \<Longrightarrow> lzss_put b s = Some (s\<lparr>lz_work := (lz_work s)[unat (lz_edi s) := b]\<rparr>)"
  by (simp add: lzss_put_def lzss_ok_def access_simps)

lemma lzss_copy_ok:
  "lzss_ok s \<Longrightarrow> \<exists>go t. lzss_copy n s = Some (go, t) \<and> lzss_ok t \<and> lz_idx t = lz_idx s \<and> lz_input t = lz_input s \<and> lz_max t = lz_max s"
proof (induction n arbitrary: s)
  case (Suc n)
  show ?case
  proof (cases "lzss_full s")
    case True
    then show ?thesis using Suc.prems by auto
  next
    case False
    let ?b = "lz_work s ! unat (lz_ebx s)"
    let ?t = "s\<lparr>lz_work := (lz_work s)[unat (lz_edi s) := ?b], lz_output := lz_output s @ [?b], lz_ebx := lzss_forward (lz_ebx s),
      lz_edi := lzss_forward (lz_edi s)\<rparr>"
    have "lzss_copy (Suc n) s = lzss_copy n ?t"
      using False Suc.prems lzss_put_eq [OF Suc.prems] by (simp add: lzss_ok_def access_simps)
    moreover have "lzss_ok ?t" using Suc.prems False by (auto simp: lzss_ok_def lzss_full_def lzss_forward)
    ultimately show ?thesis using Suc.IH [of ?t] by simp
  qed
qed auto

lemma lzss_round_ok:
  assumes "lzss_ok s"
  shows "\<exists>go t. lzss_round s = Some (go, t) \<and> lzss_ok t \<and> lz_input t = lz_input s \<and> lz_max t = lz_max s \<and>
    (go \<longrightarrow> lz_idx s < lz_idx t)"
proof -
  let ?s = "s\<lparr>lz_dx := drop_bit 1 (lz_dx s)\<rparr>"
  obtain go t where r: "lzss_flags ?s = Some (go, t)"
    and t: "lzss_ok t" "lz_input t = lz_input s" "lz_max t = lz_max s" "lz_idx s \<le> lz_idx t"
  proof (cases "drop_bit 8 (lz_dx ?s) = 0 \<and> lz_idx s < length (lz_input s)")
    case True
    then show ?thesis using assms
      by (intro that [of True "?s\<lparr>lz_idx := lz_idx ?s + 1, lz_dx := 0xff00 OR ucast (lz_input s ! lz_idx s)\<rparr>"])
        (simp_all add: lzss_flags_def lzss_ok_def access_simps)
  next
    case False
    then show ?thesis using assms
      by (intro that [of "drop_bit 8 (lz_dx ?s) \<noteq> 0" ?s]) (auto simp: lzss_flags_def lzss_ok_def)
  qed
  have round: "lzss_round s = (if \<not> go then Some (False, t)
     else if lz_dx t AND 1 \<noteq> 0 then (if length (lz_input t) \<le> lz_idx t then Some (False, t) else lzss_literal t)
     else lzss_match t)"
    using r by (simp add: lzss_round_def)
  have lit: "\<exists>g u. lzss_literal t = Some (g, u) \<and> lzss_ok u \<and> lz_input u = lz_input s \<and> lz_max u = lz_max s \<and> lz_idx s < lz_idx u"
    if "lz_idx t < length (lz_input t)"
  proof -
    have "lzss_ok (t\<lparr>lz_idx := lz_idx t + 1\<rparr>)" using t that by (simp add: lzss_ok_def)
    from lzss_put_eq [OF this] show ?thesis
      using t that by (auto simp: lzss_literal_def access_simps Let_def lzss_ok_def lzss_forward lzss_full_def)
  qed
  have match: "\<exists>g u. lzss_match t = Some (g, u) \<and> lzss_ok u \<and> lz_input u = lz_input s \<and> lz_max u = lz_max s \<and> (g \<longrightarrow> lz_idx s < lz_idx u)"
  proof (cases "lz_idx t + 1 < length (lz_input t)")
    case True
    let ?c = "lz_input t ! (lz_idx t + 1)"
    let ?u = "t\<lparr>lz_idx := lz_idx t + 2, lz_ebx := (push_bit 4 (ucast ?c) AND 0xff00) OR ucast (lz_input t ! lz_idx t)\<rparr>"
    have "lzss_ok ?u" using t(1) True lzss_start [of ?c "lz_input t ! lz_idx t"] by (simp add: lzss_ok_def)
    from lzss_copy_ok [OF this, of "unat (?c AND 0x0f) + 2 + 1"] show ?thesis
      using t True by (auto simp: lzss_match_def Let_def access_simps simp del: lzss_copy.simps)
  next
    case False
    then show ?thesis using t by (cases "lz_idx t < length (lz_input t)") (auto simp: lzss_match_def Let_def access_simps lzss_ok_def)
  qed
  show ?thesis using lit match t by (auto simp: round not_le)
qed

lemma lzss_decode_ok: "lzss_ok s \<Longrightarrow> \<exists>t. lzss_decode s = Some t \<and> lzss_ok t \<and> lz_max t = lz_max s"
proof (induction "length (lz_input s) - lz_idx s" arbitrary: s rule: less_induct)
  case less
  obtain go t where t: "lzss_round s = Some (go, t)" "lzss_ok t" "lz_input t = lz_input s" "lz_max t = lz_max s" "go \<longrightarrow> lz_idx s < lz_idx t"
    using lzss_round_ok [OF less.prems] by blast
  show ?case
  proof (cases go)
    case True
    have "lz_idx t \<le> length (lz_input t)" using t(2) by (simp add: lzss_ok_def)
    then have "length (lz_input t) - lz_idx t < length (lz_input s) - lz_idx s" using t(3,5) True by simp
    from less.hyps [OF this t(2)] show ?thesis using t True by (subst lzss_decode.simps) simp
  next
    case False
    then show ?thesis using t by (subst lzss_decode.simps) simp
  qed
qed

text \<open>C21: \<open>LZSS_decompress\<close> returns for every input and every size of the output buffer. It stays in its window and
  its input, and never writes behind the output buffer.\<close>

theorem lzss_decompress_safe: "\<exists>out. lzss_decompress src room = Some out \<and> int (length out) \<le> max 0 room"
proof -
  let ?s = "\<lparr>lz_input = src, lz_idx = 0, lz_output = [], lz_max = room, lz_work = replicate 65536 0, lz_dx = 0,
       lz_ebx = 0, lz_edi = 4096 - (16 + 2)\<rparr> :: lzss"
  have "lzss_ok ?s" by (simp add: lzss_ok_def)
  from lzss_decode_ok [OF this] obtain t where "lzss_decode ?s = Some t" "lzss_ok t" "lz_max t = room" by auto
  then show ?thesis by (auto simp: lzss_decompress_def lzss_ok_def)
qed

section \<open>What an input stands for\<close>

datatype lz_token = Octet u8 | Copy nat nat

fun lz_expand :: "lz_token list \<Rightarrow> bytes \<Rightarrow> bytes" where
  "lz_expand [] out = out"
| "lz_expand (Octet b # ts) out = lz_expand ts (out @ [b])"
| "lz_expand (Copy d n # ts) out = lz_expand ts (window_copy d n out)"

fun lz_valid :: "lz_token \<Rightarrow> bool" where
  "lz_valid (Octet b) = True"
| "lz_valid (Copy d n) = (1 \<le> d \<and> d \<le> 4096 \<and> 3 \<le> n \<and> n \<le> 18)"

fun lz_size :: "lz_token \<Rightarrow> nat" where
  "lz_size (Octet b) = 1"
| "lz_size (Copy d n) = n"

fun lz_is_octet :: "lz_token \<Rightarrow> bool" where
  "lz_is_octet (Octet b) = True"
| "lz_is_octet (Copy d n) = False"

text \<open>The place in the window of the output \<open>d\<close> back from the length \<open>m\<close>.\<close>

definition lz_place :: "nat \<Rightarrow> nat \<Rightarrow> nat" where
  "lz_place m d = (4078 + m + 4096 - d) mod 4096"

text \<open>The encoding of a token behind \<open>m\<close> octets of output, and of a whole input, in groups of eight.\<close>

fun lz_body :: "nat \<Rightarrow> lz_token \<Rightarrow> bytes" where
  "lz_body m (Octet b) = [b]"
| "lz_body m (Copy d n) = [of_nat (lz_place m d), of_nat (16 * (lz_place m d div 256) + (n - 3))]"

fun lz_bodies :: "nat \<Rightarrow> lz_token list \<Rightarrow> bytes" where
  "lz_bodies m [] = []"
| "lz_bodies m (t # ts) = lz_body m t @ lz_bodies (m + lz_size t) ts"

definition lz_flags :: "lz_token list \<Rightarrow> u8" where
  "lz_flags ts = horner_sum of_bool 2 (map lz_is_octet ts)"

fun lz_pack :: "nat \<Rightarrow> lz_token list \<Rightarrow> bytes" where
  "lz_pack m [] = []"
| "lz_pack m (t # ts) =
     (let g = take 8 (t # ts) in lz_flags g # lz_bodies m g @ lz_pack (m + sum_list (map lz_size g)) (drop 7 ts))"

section \<open>Decoding it\<close>

text \<open>The window holds the last 4096 octets of the output, zeros from before its start.\<close>

definition lz_window :: "bytes \<Rightarrow> lzss \<Rightarrow> bool" where
  "lz_window out s \<longleftrightarrow> length (lz_work s) = 65536 \<and> unat (lz_edi s) = (4078 + length out) mod 4096 \<and>
     (\<forall>d. 1 \<le> d \<and> d \<le> 4096 \<longrightarrow> lz_work s ! lz_place (length out) d = window_octet d out)"

definition lz_at :: "lzss \<Rightarrow> bytes \<Rightarrow> bytes \<Rightarrow> bool" where
  "lz_at s out r \<longleftrightarrow> lz_window out s \<and> lz_output s = out \<and> drop (lz_idx s) (lz_input s) = r"

lemma lz_place_Suc: "lz_place (Suc m) (Suc d) = lz_place m d"
  by (simp add: lz_place_def)

lemma lz_place_other:
  assumes "1 \<le> d" "d \<le> 4095"
  shows "lz_place m d \<noteq> (4078 + m) mod 4096"
proof
  assume "lz_place m d = (4078 + m) mod 4096"
  then have "((4078 + m) + (4096 - d)) mod 4096 = (4078 + m) mod 4096" using assms by (simp add: lz_place_def)
  then have "4096 dvd (4096 - d)" using mod_eq_dvd_iff_nat [of "4078 + m" "(4078 + m) + (4096 - d)" 4096] by simp
  then show False using assms by (auto dest!: dvd_imp_le)
qed

lemma lz_place_first: "lz_place (Suc m) (Suc 0) = (4078 + m) mod 4096"
proof -
  have "4078 + Suc m + 4096 - Suc 0 = (4078 + m) + 4096" by simp
  then show ?thesis unfolding lz_place_def by (simp only: mod_add_self2)
qed

lemma lz_window_put:
  assumes "lz_window out s"
  shows "lz_window (out @ [b]) (s\<lparr>lz_work := (lz_work s)[unat (lz_edi s) := b], lz_edi := lzss_forward (lz_edi s)\<rparr>)"
proof -
  have e: "unat (lz_edi s) = (4078 + length out) mod 4096" "length (lz_work s) = 65536" using assms by (simp_all add: lz_window_def)
  then have "unat (lz_edi s) < 4096" by simp
  then have "unat (lz_edi s) < 65536" by linarith
  then have "((lz_work s)[unat (lz_edi s) := b]) ! lz_place (Suc (length out)) d = window_octet d (out @ [b])" if d: "1 \<le> d" "d \<le> 4096" for d
  proof (cases "d = 1")
    case True
    then show ?thesis using e \<open>unat (lz_edi s) < 65536\<close> by (simp add: lz_place_first window_octet_last)
  next
    case False
    then obtain c where c: "d = Suc c" "1 \<le> c" "c \<le> 4095" using d by (cases d) auto
    then show ?thesis
      using assms e lz_place_other [OF c(2,3), of "length out"] by (simp add: lz_place_Suc window_octet_snoc lz_window_def)
  qed
  moreover have "(Suc ((4078 + length out) mod 4096)) mod 4096 = (4079 + length out) mod 4096" by (simp add: mod_Suc_eq)
  ultimately show ?thesis using e by (simp add: lz_window_def lzss_forward)
qed

lemma lz_window_edi: "lz_window out s \<Longrightarrow> unat (lz_edi s) < 65536"
proof -
  assume "lz_window out s"
  then have "unat (lz_edi s) < 4096" by (simp add: lz_window_def)
  then show ?thesis by linarith
qed

lemma lzss_put_window: "lz_window out s \<Longrightarrow> lzss_put b s = Some (s\<lparr>lz_work := (lz_work s)[unat (lz_edi s) := b]\<rparr>)"
  using lz_window_edi [of out s] by (simp add: lzss_put_def lz_window_def access_simps)

text \<open>What the parts of a round leave alone.\<close>

definition lz_same :: "lzss \<Rightarrow> lzss \<Rightarrow> bool" where
  "lz_same s t \<longleftrightarrow> lz_input t = lz_input s \<and> lz_max t = lz_max s \<and> lz_dx t = lz_dx s"

lemma lz_literal_ok:
  assumes "lz_at s out (b # r)" "int (length out) < lz_max s"
  shows "\<exists>t. lzss_literal s = Some (True, t) \<and> lz_at t (out @ [b]) r \<and> lz_same s t"
proof -
  have i: "lz_idx s < length (lz_input s)" "lz_input s ! lz_idx s = b" "drop (Suc (lz_idx s)) (lz_input s) = r"
    using assms(1) by (auto simp: lz_at_def) (metis drop_all linorder_not_less list.distinct(1), metis nth_via_drop, metis drop_Suc tl_drop list.sel(3))
  let ?u = "s\<lparr>lz_idx := lz_idx s + 1\<rparr>"
  have w: "lz_window out ?u" using assms(1) by (simp add: lz_at_def lz_window_def)
  let ?t = "?u\<lparr>lz_work := (lz_work s)[unat (lz_edi s) := b], lz_edi := lzss_forward (lz_edi s), lz_output := lz_output s @ [b]\<rparr>"
  have "lzss_literal s = Some (True, ?t)"
    using i(1,2) lzss_put_window [OF w] assms by (simp add: lzss_literal_def access_simps Let_def lzss_full_def lz_at_def)
  moreover have "lz_at ?t (out @ [b]) r"
    using lz_window_put [OF w, of b] i(3) assms(1) by (simp add: lz_at_def lz_window_def)
  ultimately show ?thesis by (intro exI [of _ ?t]) (simp add: lz_same_def)
qed

lemma lz_copy_ok:
  "lz_at s out r \<Longrightarrow> unat (lz_ebx s) = lz_place (length out) d \<Longrightarrow> 1 \<le> d \<Longrightarrow> d \<le> 4096 \<Longrightarrow> int (length out + n) \<le> lz_max s \<Longrightarrow>
   \<exists>t. lzss_copy n s = Some (True, t) \<and> lz_at t (window_copy d n out) r \<and> lz_same s t"
proof (induction n arbitrary: s out)
  case 0
  then show ?case by (simp add: lz_same_def)
next
  case (Suc n)
  let ?b = "window_octet d out"
  have w: "lz_window out s" using Suc.prems(1) by (simp add: lz_at_def)
  have e: "unat (lz_ebx s) < 65536" using Suc.prems(2) mod_less_divisor [of 4096 "4078 + length out + 4096 - d"] by (simp add: lz_place_def)
  have b: "rd (lz_work s) (unat (lz_ebx s)) = Some ?b"
    using w Suc.prems(2-4) e by (simp add: lz_window_def rd_def)
  let ?t = "s\<lparr>lz_work := (lz_work s)[unat (lz_edi s) := ?b], lz_output := lz_output s @ [?b], lz_ebx := lzss_forward (lz_ebx s),
      lz_edi := lzss_forward (lz_edi s)\<rparr>"
  have "lzss_copy (Suc n) s = lzss_copy n ?t"
    using b lzss_put_window [OF w] Suc.prems(1,5) by (simp add: lzss_full_def lz_at_def)
  moreover have "lz_at ?t (out @ [?b]) r" using lz_window_put [OF w, of ?b] Suc.prems(1) by (simp add: lz_at_def lz_window_def)
  moreover have "unat (lz_ebx ?t) = lz_place (length (out @ [?b])) d"
  proof -
    have "Suc (4078 + length out + 4096 - d) = 4078 + Suc (length out) + 4096 - d" using Suc.prems(4) by simp
    then show ?thesis using Suc.prems(2) unfolding lz_place_def by (simp add: lzss_forward mod_Suc_eq)
  qed
  ultimately show ?case using Suc.IH [of ?t "out @ [?b]"] Suc.prems(3-5) by (simp add: lz_same_def)
qed

lemma lz_start_place:
  assumes "p < 4096" "l < 16"
  shows "unat ((push_bit 4 (ucast (of_nat (16 * (p div 256) + l) :: u8)) AND 0xff00) OR ucast (of_nat p :: u8) :: u32) = p"
    "unat ((of_nat (16 * (p div 256) + l) :: u8) AND 0x0f) = l"
proof -
  let ?c = "of_nat (16 * (p div 256) + l) :: u8"
  have h: "p div 256 < 16" using assms(1) by (simp add: less_mult_imp_div_less)
  then have n: "16 * (p div 256) + l < 256" using assms(2) by linarith
  then have c: "unat ?c = 16 * (p div 256) + l" by (simp only: unat_of_nat) simp
  then show "unat (?c AND 0x0f) = l" using assms(2) by (simp add: unat_low_nibble del: of_nat_add of_nat_mult)
  have f0: "(0xff00 :: u32) = push_bit 8 (mask 8)" by (simp add: mask_eq_exp_minus_1 push_bit_eq_mult)
  have "(push_bit 4 (ucast ?c) AND 0xff00 :: u32) = push_bit 8 (drop_bit 4 (ucast ?c))"
    unfolding f0 by (rule bit_word_eqI) (auto simp: bit_simps dest: bit_imp_le_length simp del: of_nat_add of_nat_mult)
  moreover have "unat (push_bit 8 (drop_bit 4 (ucast ?c :: u32)) :: u32) = push_bit 8 (p div 256)"
  proof -
    have "unat (ucast ?c :: u32) = 16 * (p div 256) + l" using c n by (simp add: unsigned_ucast_eq take_bit_eq_mod del: of_nat_add of_nat_mult)
    then have "unat (drop_bit 4 (ucast ?c :: u32)) = drop_bit 4 (16 * (p div 256) + l)" by (simp only: unat_drop_bit_eq)
    then have "unat (drop_bit 4 (ucast ?c :: u32)) = p div 256" using assms(2) by (simp only: drop_bit_eq_div) simp
    moreover have "unat (push_bit 8 w :: u32) = push_bit 8 (unat w)" if "unat w < 16" for w
      by (simp only: unsigned_push_bit_eq) (use that in \<open>simp add: push_bit_eq_mult take_bit_eq_mod\<close>)
    ultimately show ?thesis using h by (simp only:)
  qed
  moreover have "unat (ucast (of_nat p :: u8) :: u32) = p mod 256" by (simp add: unsigned_ucast_eq unat_of_nat take_bit_eq_mod)
  ultimately have "unat ((push_bit 4 (ucast ?c) AND 0xff00) OR ucast (of_nat p :: u8) :: u32) = p mod 256 OR push_bit 8 (p div 256)"
    by (simp only: unsigned_or_eq) (simp only: or.commute)
  also have "\<dots> = p mod 256 + 2 ^ 8 * (p div 256)" by (rule or_push_bit_nat) simp
  finally show "unat ((push_bit 4 (ucast ?c) AND 0xff00) OR ucast (of_nat p :: u8) :: u32) = p" by simp
qed

lemma lz_match_ok:
  assumes "lz_at s out (lz_body (length out) (Copy d n) @ r)" "lz_valid (Copy d n)" "int (length out + n) \<le> lz_max s"
  shows "\<exists>t. lzss_match s = Some (True, t) \<and> lz_at t (window_copy d n out) r \<and> lz_same s t"
proof -
  let ?p = "lz_place (length out) d"
  let ?a = "of_nat ?p :: u8" and ?c = "of_nat (16 * (?p div 256) + (n - 3)) :: u8"
  have rest: "drop (lz_idx s) (lz_input s) = ?a # ?c # r" using assms(1) by (simp add: lz_at_def)
  then have rest2: "drop (Suc (lz_idx s)) (lz_input s) = ?c # r" by (metis drop_Suc tl_drop list.sel(3))
  then have rest3: "drop (Suc (Suc (lz_idx s))) (lz_input s) = r" by (metis drop_Suc tl_drop list.sel(3))
  have len: "Suc (lz_idx s) < length (lz_input s)" using rest2 by (metis drop_all linorder_not_less list.distinct(1))
  have i: "lz_input s ! lz_idx s = ?a" "lz_input s ! Suc (lz_idx s) = ?c" using rest rest2 by (metis nth_via_drop)+
  have p: "?p < 4096" by (simp add: lz_place_def)
  have l: "n - 3 < 16" using assms(2) by auto
  let ?u = "s\<lparr>lz_idx := lz_idx s + 2, lz_ebx := (push_bit 4 (ucast ?c) AND 0xff00) OR ucast ?a\<rparr>"
  have "lzss_match s = lzss_copy (unat (?c AND 0x0f) + 2 + 1) ?u"
    using len i by (simp add: lzss_match_def Let_def access_simps del: lzss_copy.simps of_nat_add of_nat_mult)
  moreover have "unat (?c AND 0x0f) + 2 + 1 = n" unfolding lz_start_place(2) [OF p l] using assms(2) by (simp, arith)
  ultimately have run: "lzss_match s = lzss_copy n ?u" by (simp only:)
  have "lz_at ?u out r" using assms(1) rest3 by (simp add: lz_at_def lz_window_def)
  moreover have "unat (lz_ebx ?u) = ?p" using lz_start_place(1) [OF p l] by simp
  ultimately obtain t where "lzss_copy n ?u = Some (True, t)" "lz_at t (window_copy d n out) r" "lz_same ?u t"
    using lz_copy_ok [of ?u out r d n] assms(2,3) by auto
  then show ?thesis using run by (simp add: lz_same_def)
qed

lemma lz_token_ok:
  assumes "lz_at s out (lz_body (length out) t @ r)" "lz_valid t" "int (length out + lz_size t) \<le> lz_max s"
    "lz_dx s AND 1 \<noteq> 0 \<longleftrightarrow> lz_is_octet t"
  shows "\<exists>u. (if lz_dx s AND 1 \<noteq> 0 then (if length (lz_input s) \<le> lz_idx s then Some (False, s) else lzss_literal s) else lzss_match s) = Some (True, u) \<and>
    lz_at u (lz_expand [t] out) r \<and> lz_same s u"
proof (cases t)
  case (Octet b)
  then have a: "lz_at s out (b # r)" using assms(1) by simp
  then have "lz_idx s < length (lz_input s)" by (metis drop_all linorder_not_less list.distinct(1) lz_at_def)
  moreover obtain u where "lzss_literal s = Some (True, u)" "lz_at u (out @ [b]) r" "lz_same s u"
    using lz_literal_ok [OF a] assms(3) Octet by auto
  ultimately show ?thesis using assms(4) Octet by simp
next
  case (Copy d n)
  obtain u where "lzss_match s = Some (True, u)" "lz_at u (window_copy d n out) r" "lz_same s u"
    using lz_match_ok [of s out d n r] assms(1-3) Copy by auto
  then show ?thesis using assms(4) Copy by simp
qed

text \<open>The flags, as the code shifts them.\<close>

definition lz_word :: "u8 \<Rightarrow> u16" where "lz_word c = 0xff00 OR ucast c"

lemma lz_marker: "list_all (\<lambda>k. bit (0xff00 :: u16) k = (8 \<le> k)) [0..<16]"
  by code_simp

lemma lz_word_bit: "bit (lz_word c) k = (if k < 8 then bit c k else k < 16)"
proof (cases "k < 16")
  case True
  then have "k \<in> set [0..<16]" by (simp del: upt_conv_Cons_Cons upt.simps)
  then have "bit (0xff00 :: u16) k = (8 \<le> k)" using lz_marker unfolding list_all_iff by blast
  moreover have "bit (ucast c :: u16) k = bit c k" using True by (simp add: bit_ucast_iff)
  moreover have "8 \<le> k \<Longrightarrow> \<not> bit c k" by (auto dest: bit_imp_le_length)
  ultimately show ?thesis using True by (simp only: lz_word_def bit_or_iff) auto
next
  case False
  then have "\<not> bit w k" for w :: u16 by (auto dest: bit_imp_le_length)
  then show ?thesis using False by simp
qed

lemma lz_flag: "k < 8 \<Longrightarrow> drop_bit k (lz_word c) AND 1 \<noteq> 0 \<longleftrightarrow> bit c k"
proof -
  assume "k < 8"
  have "w AND 1 \<noteq> 0 \<longleftrightarrow> bit w 0" for w :: u16 by (metis and_one_eq bit_0 even_iff_mod_2_eq_zero)
  then show ?thesis using \<open>k < 8\<close> by (simp only: bit_drop_bit_eq comp_apply add_0_right lz_word_bit) simp
qed

lemma lz_more_flags: "k < 8 \<Longrightarrow> drop_bit (8 + k) (lz_word c) \<noteq> 0"
proof
  assume k: "k < 8" and "drop_bit (8 + k) (lz_word c) = 0"
  then have "bit (drop_bit (8 + k) (lz_word c)) (7 - k) = bit (0 :: u16) (7 - k)" by (simp only:)
  then have "\<not> bit (lz_word c) (8 + k + (7 - k))" by (simp only: bit_drop_bit_eq comp_apply bit_0_eq bot_apply bot_bool_def not_False_eq_True)
  then show False using k unfolding lz_word_bit by simp
qed

lemma lz_no_flags: "drop_bit 16 (lz_word c) = 0"
  by (rule bit_word_eqI) (simp only: bit_drop_bit_eq comp_apply lz_word_bit, simp)

section \<open>Groups and whole inputs\<close>

definition lz_inner :: "lzss \<Rightarrow> (bool \<times> lzss) option" where
  "lz_inner s = (if lz_dx s AND 1 \<noteq> 0 then (if length (lz_input s) \<le> lz_idx s then Some (False, s) else lzss_literal s) else lzss_match s)"

lemma lz_round_next:
  "drop_bit 8 (drop_bit 1 (lz_dx s)) \<noteq> 0 \<Longrightarrow> lzss_round s = lz_inner (s\<lparr>lz_dx := drop_bit 1 (lz_dx s)\<rparr>)"
  by (simp add: lzss_round_def lzss_flags_def lz_inner_def)

lemma lz_expand_Cons: "lz_expand (t # ts) out = lz_expand ts (lz_expand [t] out)"
  by (cases t) simp_all

lemma length_lz_expand: "length (lz_expand ts out) = length out + sum_list (map lz_size ts)"
proof (induction ts arbitrary: out)
  case (Cons t ts)
  then show ?case by (cases t) simp_all
qed simp

text \<open>The tokens of a group from the \<open>k\<close>-th on, behind the one before.\<close>

lemma lz_group:
  "lz_at s out (lz_bodies (length out) ts @ r) \<Longrightarrow> \<forall>t \<in> set ts. lz_valid t \<Longrightarrow>
   int (length out + sum_list (map lz_size ts)) \<le> lz_max s \<Longrightarrow> k + length ts < 8 \<Longrightarrow>
   (\<And>i. i < length ts \<Longrightarrow> bit c (Suc k + i) = lz_is_octet (ts ! i)) \<Longrightarrow> lz_dx s = drop_bit k (lz_word c) \<Longrightarrow>
   \<exists>u. lzss_decode s = lzss_decode u \<and> lz_at u (lz_expand ts out) r \<and> lz_max u = lz_max s \<and> lz_dx u = drop_bit (k + length ts) (lz_word c)"
proof (induction ts arbitrary: s out k)
  case Nil
  then show ?case by auto
next
  case (Cons t ts)
  let ?s = "s\<lparr>lz_dx := drop_bit 1 (lz_dx s)\<rparr>"
  have dx: "lz_dx ?s = drop_bit (Suc k) (lz_word c)" using Cons.prems(6) by (simp add: add.commute)
  have k: "Suc k < 8" using Cons.prems(4) by simp
  have "drop_bit 8 (drop_bit 1 (lz_dx s)) = drop_bit (8 + Suc k) (lz_word c)" using dx by (simp add: add.commute)
  then have "drop_bit 8 (drop_bit 1 (lz_dx s)) \<noteq> 0" using lz_more_flags [OF k] by (simp only: not_False_eq_True)
  then have round: "lzss_round s = lz_inner ?s" by (rule lz_round_next)
  have at: "lz_at ?s out (lz_body (length out) t @ lz_bodies (length out + lz_size t) ts @ r)"
    using Cons.prems(1) by (simp add: lz_at_def lz_window_def)
  have flag: "lz_dx ?s AND 1 \<noteq> 0 \<longleftrightarrow> lz_is_octet t"
    using lz_flag [OF k, of c] Cons.prems(5) [of 0] unfolding dx by simp
  obtain u where u: "lz_inner ?s = Some (True, u)" "lz_at u (lz_expand [t] out) (lz_bodies (length out + lz_size t) ts @ r)" "lz_same ?s u"
    using lz_token_ok [OF at _ _ flag] Cons.prems(2,3) unfolding lz_inner_def by auto
  have len: "length (lz_expand [t] out) = length out + lz_size t" by (simp add: length_lz_expand del: lz_expand.simps)
  obtain v where v: "lzss_decode u = lzss_decode v" "lz_at v (lz_expand ts (lz_expand [t] out)) r" "lz_max v = lz_max u"
    "lz_dx v = drop_bit (Suc k + length ts) (lz_word c)"
  proof (rule exE [OF Cons.IH [of u "lz_expand [t] out" "Suc k"]])
    show "lz_at u (lz_expand [t] out) (lz_bodies (length (lz_expand [t] out)) ts @ r)" using u(2) unfolding len .
    show "\<forall>t \<in> set ts. lz_valid t" using Cons.prems(2) by simp
    show "int (length (lz_expand [t] out) + sum_list (map lz_size ts)) \<le> lz_max u"
      using Cons.prems(3) u(3) unfolding len by (simp add: lz_same_def)
    show "Suc k + length ts < 8" using Cons.prems(4) by simp
    show "bit c (Suc (Suc k) + i) = lz_is_octet (ts ! i)" if "i < length ts" for i using Cons.prems(5) [of "Suc i"] that by simp
    show "lz_dx u = drop_bit (Suc k) (lz_word c)" using u(3) dx by (simp add: lz_same_def)
  qed (use that in blast)
  have "lzss_decode s = lzss_decode u" using round u(1) by (subst lzss_decode.simps) simp
  then show ?case using v u(3) unfolding lz_expand_Cons [of t ts] by (intro exI [of _ v]) (simp add: lz_same_def)
qed

lemma lz_flags_bit: "i < 8 \<Longrightarrow> bit (lz_flags g) i \<longleftrightarrow> i < length g \<and> lz_is_octet (g ! i)"
  by (auto simp: lz_flags_def bit_horner_sum_bit_word_iff)

lemma lz_at_end: "lz_at s out [] \<Longrightarrow> length (lz_input s) \<le> lz_idx s"
  by (simp add: lz_at_def)

lemma lz_stops:
  assumes "lz_at s out []" "drop_bit 8 (drop_bit 1 (lz_dx s)) = 0 \<or>
    drop_bit 8 (drop_bit 1 (lz_dx s)) \<noteq> 0 \<and> drop_bit 1 (lz_dx s) AND 1 = 0"
  shows "\<exists>u. lzss_decode s = Some u \<and> lz_output u = out"
proof -
  have "lzss_round s = Some (False, s\<lparr>lz_dx := drop_bit 1 (lz_dx s)\<rparr>)"
    using assms(2)
  proof
    assume "drop_bit 8 (drop_bit 1 (lz_dx s)) = 0"
    then show ?thesis using lz_at_end [OF assms(1)] by (simp add: lzss_round_def lzss_flags_def)
  next
    assume d: "drop_bit 8 (drop_bit 1 (lz_dx s)) \<noteq> 0 \<and> drop_bit 1 (lz_dx s) AND 1 = 0"
    then have "lzss_round s = lz_inner (s\<lparr>lz_dx := drop_bit 1 (lz_dx s)\<rparr>)" using lz_round_next by blast
    then show ?thesis using d lz_at_end [OF assms(1)] by (simp add: lz_inner_def lzss_match_def)
  qed
  then show ?thesis using assms(1) by (subst lzss_decode.simps) (simp add: lz_at_def)
qed

lemma lz_first:
  assumes at: "lz_at s out (c # lz_body (length out) t @ r)" and dx: "drop_bit 8 (drop_bit 1 (lz_dx s)) = 0"
    and t: "lz_valid t" "int (length out + lz_size t) \<le> lz_max s" and flag: "bit c 0 = lz_is_octet t"
  shows "\<exists>u. lzss_decode s = lzss_decode u \<and> lz_at u (lz_expand [t] out) r \<and> lz_max u = lz_max s \<and> lz_dx u = lz_word c"
proof -
  have rest: "drop (lz_idx s) (lz_input s) = c # lz_body (length out) t @ r" using at by (simp add: lz_at_def)
  then have i: "lz_idx s < length (lz_input s)" "lz_input s ! lz_idx s = c"
    by (metis drop_all linorder_not_less list.distinct(1), metis nth_via_drop)
  have rest': "drop (Suc (lz_idx s)) (lz_input s) = lz_body (length out) t @ r" using rest by (metis drop_Suc tl_drop list.sel(3))
  let ?s = "s\<lparr>lz_idx := lz_idx s + 1, lz_dx := lz_word c\<rparr>"
  have round: "lzss_round s = lz_inner ?s"
    using dx i by (simp add: lzss_round_def lzss_flags_def access_simps lz_inner_def lz_word_def)
  have at': "lz_at ?s out (lz_body (length out) t @ r)" using at rest' by (simp add: lz_at_def lz_window_def)
  have "lz_dx ?s AND 1 \<noteq> 0 \<longleftrightarrow> lz_is_octet t" using lz_flag [of 0 c] flag by simp
  then obtain u where u: "lz_inner ?s = Some (True, u)" "lz_at u (lz_expand [t] out) r" "lz_same ?s u"
    using lz_token_ok [OF at' t(1)] t(2) unfolding lz_inner_def by auto
  have "lzss_decode s = lzss_decode u" using round u(1) by (subst lzss_decode.simps) simp
  then show ?thesis using u(2,3) by (intro exI [of _ u]) (simp add: lz_same_def)
qed

lemma lz_unpack:
  "lz_at s out (lz_pack (length out) ts) \<Longrightarrow> drop_bit 8 (drop_bit 1 (lz_dx s)) = 0 \<Longrightarrow> \<forall>t \<in> set ts. lz_valid t \<Longrightarrow>
   int (length out + sum_list (map lz_size ts)) \<le> lz_max s \<Longrightarrow> \<exists>u. lzss_decode s = Some u \<and> lz_output u = lz_expand ts out"
proof (induction "length ts" arbitrary: s out ts rule: less_induct)
  case less
  show ?case
  proof (cases ts)
    case Nil
    then show ?thesis using lz_stops [of s out] less.prems(1,2) by simp
  next
    case (Cons t rs)
    let ?g = "take 7 rs" and ?hs = "drop 7 rs"
    let ?c = "lz_flags (t # ?g)"
    let ?m = "length out + lz_size t + sum_list (map lz_size ?g)"
    have sizes: "sum_list (map lz_size ts) = lz_size t + sum_list (map lz_size ?g) + sum_list (map lz_size ?hs)"
      unfolding Cons by (metis append_take_drop_id list.simps(9) map_append sum_list.Cons sum_list_append add.assoc)
    have at: "lz_at s out (?c # lz_body (length out) t @ lz_bodies (length out + lz_size t) ?g @ lz_pack ?m ?hs)"
      using less.prems(1) unfolding Cons by (simp add: Let_def add.assoc)
    have "bit ?c 0 = lz_is_octet t" using lz_flags_bit [of 0 "t # ?g"] by simp
    then obtain u where u: "lzss_decode s = lzss_decode u" "lz_at u (lz_expand [t] out) (lz_bodies (length out + lz_size t) ?g @ lz_pack ?m ?hs)"
      "lz_max u = lz_max s" "lz_dx u = lz_word ?c"
      using lz_first [OF at less.prems(2)] less.prems(3,4) sizes Cons by auto
    have len: "length (lz_expand [t] out) = length out + lz_size t" by (simp add: length_lz_expand del: lz_expand.simps)
    have "\<exists>v. lzss_decode u = lzss_decode v \<and> lz_at v (lz_expand ?g (lz_expand [t] out)) (lz_pack ?m ?hs) \<and> lz_max v = lz_max u \<and>
        lz_dx v = drop_bit (0 + length ?g) (lz_word ?c)"
    proof (rule lz_group)
      show "lz_at u (lz_expand [t] out) (lz_bodies (length (lz_expand [t] out)) ?g @ lz_pack ?m ?hs)" using u(2) unfolding len .
      show "\<forall>t \<in> set ?g. lz_valid t" using less.prems(3) Cons by (auto dest: in_set_takeD)
      show "int (length (lz_expand [t] out) + sum_list (map lz_size ?g)) \<le> lz_max u" using less.prems(4) sizes u(3) len by simp
      show "0 + length ?g < 8" by simp
      show "bit ?c (Suc 0 + i) = lz_is_octet (?g ! i)" if "i < length ?g" for i using lz_flags_bit [of "Suc i" "t # ?g"] that by simp
      show "lz_dx u = drop_bit 0 (lz_word ?c)" using u(4) by simp
    qed
    then obtain v where v: "lzss_decode u = lzss_decode v" "lz_at v (lz_expand ?g (lz_expand [t] out)) (lz_pack ?m ?hs)" "lz_max v = lz_max u"
      "lz_dx v = drop_bit (length ?g) (lz_word ?c)" by auto
    have out: "length (lz_expand ?g (lz_expand [t] out)) = ?m" by (simp add: length_lz_expand del: lz_expand.simps)
    have ex: "lz_expand ts out = lz_expand ?hs (lz_expand ?g (lz_expand [t] out))"
    proof -
      have "lz_expand (xs @ ys) o' = lz_expand ys (lz_expand xs o')" for xs ys o'
        by (induction xs arbitrary: o') (simp, metis append_Cons lz_expand_Cons)
      then show ?thesis unfolding Cons by (metis append_take_drop_id lz_expand_Cons)
    qed
    have "\<exists>w. lzss_decode v = Some w \<and> lz_output w = lz_expand ?hs (lz_expand ?g (lz_expand [t] out))"
    proof (cases "length rs < 7")
      case True
      have "drop_bit 1 (lz_dx v) = drop_bit (Suc (length rs)) (lz_word ?c)" "drop_bit 8 (drop_bit 1 (lz_dx v)) = drop_bit (8 + Suc (length rs)) (lz_word ?c)"
        using v(4) True by (simp_all add: add.commute)
      moreover have "\<not> bit ?c (Suc (length rs))" using lz_flags_bit [of "Suc (length rs)" "t # ?g"] True by simp
      ultimately have "drop_bit 8 (drop_bit 1 (lz_dx v)) \<noteq> 0 \<and> drop_bit 1 (lz_dx v) AND 1 = 0"
        using lz_more_flags [of "Suc (length rs)" ?c] lz_flag [of "Suc (length rs)" ?c] True by simp
      then show ?thesis using lz_stops [of v] v(2) True by simp
    next
      case False
      then have "drop_bit 8 (drop_bit 1 (lz_dx v)) = 0" using v(4) lz_no_flags [of ?c] by simp
      moreover have "length ?hs < length ts" unfolding Cons by simp
      moreover have "\<forall>t \<in> set ?hs. lz_valid t" using less.prems(3) Cons by (auto dest: in_set_dropD)
      ultimately show ?thesis
        using less.hyps [of ?hs v "lz_expand ?g (lz_expand [t] out)"] v(2,3) u(3) less.prems(4) sizes unfolding out by simp
    qed
    then show ?thesis using u(1) v(1) ex by simp
  qed
qed

text \<open>C15: Every input packed from octets and copies is unpacked to the octets they stand for, copies reaching back up
  to 4096 octets, also before the start of the output.\<close>

theorem lzss_pack_unpack:
  assumes "\<forall>t \<in> set ts. lz_valid t" "int (length (lz_expand ts [])) \<le> room"
  shows "lzss_decompress (lz_pack 0 ts) room = Some (lz_expand ts [])"
proof -
  let ?s = "\<lparr>lz_input = lz_pack 0 ts, lz_idx = 0, lz_output = [], lz_max = room, lz_work = replicate 65536 0, lz_dx = 0,
       lz_ebx = 0, lz_edi = 4096 - (16 + 2)\<rparr> :: lzss"
  have "lz_place 0 d < 65536" for d using mod_less_divisor [of 4096 "4078 + 0 + 4096 - d"] by (simp add: lz_place_def)
  then have "lz_at ?s [] (lz_pack (length ([] :: bytes)) ts)" by (simp add: lz_at_def lz_window_def window_octet_def)
  from lz_unpack [OF this _ assms(1)] assms(2) obtain u where "lzss_decode ?s = Some u" "lz_output u = lz_expand ts []"
    by (auto simp: length_lz_expand)
  then show ?thesis by (simp add: lzss_decompress_def)
qed

lemma lzss_pack_unpack_witness:
  "lzss_decompress (lz_pack 0 [Octet 1, Octet 2, Copy 2 5, Copy 9 3]) 10 = Some [1, 2, 1, 2, 1, 2, 1, 0, 0, 1]"
proof -
  have "lz_expand [Octet 1, Octet 2, Copy 2 5, Copy 9 3] [] = [1, 2, 1, 2, 1, 2, 1, 0, 0, 1]"
    by (simp add: eval_nat_numeral window_octet_def)
  then show ?thesis using lzss_pack_unpack [of "[Octet 1, Octet 2, Copy 2 5, Copy 9 3]" 10] by simp
qed

end
