(* ===== verification/U6lzw.thy ===== *)
theory U6lzw
  imports Loader
begin

text \<open>
  The LZW decompressor of \<open>src/u6m.cpp\<close> (\<open>lzw_decompress\<close> and the class \<open>MyDict\<close>). Codewords of 9 to
  12 bits index a dictionary whose entries link to shorter strings; 0x100 resets it, 0x101 ends the
  stream. The dictionary is allocated uninitialised: \<open>mem\<close> is what its entries held. \<open>None\<close>
  is an access outside an array, or a walk along the links that never ends.
\<close>

section \<open>MyDict\<close>

record dict_entry =
  de_root :: u8
  de_codeword :: int

record my_dict =
  dict_contains :: nat
  dict_size :: nat
  dict_entries :: "dict_entry list"

definition default_dict_size :: nat where "default_dict_size = 4096"
definition max_codeword_length :: nat where "max_codeword_length = 12"

definition new_dict :: "(nat \<Rightarrow> dict_entry) \<Rightarrow> my_dict" where
  "new_dict mem =
     \<lparr>dict_contains = 0x102, dict_size = default_dict_size,
      dict_entries = map mem [0..<default_dict_size - 0x100]\<rparr>"

definition dict_reset :: "my_dict \<Rightarrow> my_dict" where
  "dict_reset d = d\<lparr>dict_contains := 0x102\<rparr>"


definition dict_add :: "u8 \<Rightarrow> int \<Rightarrow> my_dict \<Rightarrow> my_dict option" where
  "dict_add root codeword d =
     (if dict_contains d < dict_size d then do {
        es \<leftarrow> wr (dict_entries d) (dict_contains d - 0x100)
                 \<lparr>de_root = root, de_codeword = to_s16 codeword\<rparr>;
        Some (d\<lparr>dict_entries := es, dict_contains := dict_contains d + 1\<rparr>)
      } else Some d)"

definition dict_get :: "int \<Rightarrow> my_dict \<Rightarrow> dict_entry option" where
  "dict_get codeword d = rd_int (dict_entries d) (codeword - 0x100)"

section \<open>Reading and writing\<close>

record data_block =
  blk_size :: nat
  blk_data :: bytes

text \<open>The next codeword, or -1, and the new count of bits read.\<close>

definition get_next_codeword :: "nat \<Rightarrow> data_block \<Rightarrow> nat \<Rightarrow> (int \<times> nat) option" where
  "get_next_codeword bits_read src codeword_size =
     (let pos = bits_read div 8; off = bits_read mod 8; wide = off + codeword_size > 16
      in if ulong (int (blk_size src) - int pos) < 2 + (if wide then 1 else 0) then Some (-1, bits_read)
         else do {
           b0 \<leftarrow> rd (blk_data src) pos;
           b1 \<leftarrow> rd (blk_data src) (pos + 1);
           b2 \<leftarrow> (if wide then rd (blk_data src) (pos + 2) else Some 0);
           let codeword = (unat b2 * 2 ^ 16 + unat b1 * 2 ^ 8 + unat b0) div 2 ^ off;
           Some (if codeword_size \<in> {9, 10, 11, 12} then int (codeword mod 2 ^ codeword_size) else -1,
                 bits_read + codeword_size)
         })"

definition output_root :: "u8 \<Rightarrow> nat \<Rightarrow> bytes \<times> nat \<Rightarrow> (bool \<times> bytes \<times> nat) option" where
  "output_root root dest_size dst = (case dst of (dest, position) \<Rightarrow>
     if position \<ge> dest_size then Some (False, dest, position)
     else do { dest' \<leftarrow> wr dest position root; Some (True, dest', position + 1) })"

text \<open>\<open>get_string\<close> pushes the string of a codeword; the head of the list is the top of the stack.\<close>

partial_function (option) get_string_loop :: "my_dict \<Rightarrow> int \<Rightarrow> bytes \<Rightarrow> (int \<times> bytes) option" where
  "get_string_loop d cur stack =
     (if cur > 0xff then do {
        e \<leftarrow> dict_get cur d;
        get_string_loop d (de_codeword e) (de_root e # stack)
      } else Some (cur, stack))"

definition get_string :: "int \<Rightarrow> my_dict \<Rightarrow> bytes option" where
  "get_string codeword d = do {
     (cur, stack) \<leftarrow> get_string_loop d codeword [];
     Some (to_u8 cur # stack)
   }"

text \<open>The loop that outputs and pops the stack; false when the destination is full.\<close>

fun output_stack :: "bytes \<Rightarrow> nat \<Rightarrow> bytes \<times> nat \<Rightarrow> (bool \<times> bytes \<times> nat) option" where
  "output_stack [] dest_size dst = Some (True, dst)"
| "output_stack (c # cs) dest_size dst = do {
     (ok, dst1) \<leftarrow> output_root c dest_size dst;
     if ok then output_stack cs dest_size dst1 else Some (False, dst1)
   }"

section \<open>The decompressor\<close>

record lzw =
  lz_codeword_size :: nat
  lz_bits_read :: nat
  lz_next_free :: nat
  lz_dictionary_size :: nat
  lz_dict :: my_dict
  lz_dst :: "bytes \<times> nat"
  lz_pW :: int

datatype lzw_status = Running | Finished | Failed

text \<open>The codeword width grows when the next free codeword no longer fits.\<close>

definition lzw_grow :: "lzw \<Rightarrow> lzw" where
  "lzw_grow st =
     (let st1 = st\<lparr>lz_next_free := lz_next_free st + 1\<rparr>
      in if lz_next_free st1 \<ge> lz_dictionary_size st1 \<and> lz_codeword_size st1 < max_codeword_length
         then st1\<lparr>lz_codeword_size := lz_codeword_size st1 + 1,
                  lz_dictionary_size := lz_dictionary_size st1 * 2\<rparr>
         else st1)"

definition lzw_reset :: "data_block \<Rightarrow> nat \<Rightarrow> lzw \<Rightarrow> (lzw \<times> lzw_status) option" where
  "lzw_reset src dest_size st = do {
     let st1 = st\<lparr>lz_codeword_size := 9, lz_next_free := 0x102, lz_dictionary_size := 0x200,
                  lz_dict := dict_reset (lz_dict st)\<rparr>;
     (cW, bits) \<leftarrow> get_next_codeword (lz_bits_read st1) src (lz_codeword_size st1);
     (ok, dst) \<leftarrow> output_root (to_u8 cW) dest_size (lz_dst st1);
     let st2 = st1\<lparr>lz_bits_read := bits, lz_dst := dst\<rparr>;
     Some (if ok then (st2\<lparr>lz_pW := cW\<rparr>, Running) else (st2, Failed))
   }"

definition lzw_known :: "int \<Rightarrow> nat \<Rightarrow> lzw \<Rightarrow> (lzw \<times> lzw_status) option" where
  "lzw_known cW dest_size st = do {
     stack \<leftarrow> get_string cW (lz_dict st);
     (ok, dst) \<leftarrow> output_stack stack dest_size (lz_dst st);
     let st1 = st\<lparr>lz_dst := dst\<rparr>;
     if \<not> ok then Some (st1, Failed)
     else do {
       d \<leftarrow> dict_add (hd stack) (lz_pW st1) (lz_dict st1);
       Some ((lzw_grow (st1\<lparr>lz_dict := d\<rparr>))\<lparr>lz_pW := cW\<rparr>, Running)
     }
   }"

definition lzw_unknown :: "int \<Rightarrow> nat \<Rightarrow> lzw \<Rightarrow> (lzw \<times> lzw_status) option" where
  "lzw_unknown cW dest_size st = do {
     stack \<leftarrow> get_string (lz_pW st) (lz_dict st);
     (ok, dst) \<leftarrow> output_stack (stack @ [hd stack]) dest_size (lz_dst st);
     let st1 = st\<lparr>lz_dst := dst\<rparr>;
     if \<not> ok \<or> cW \<noteq> int (lz_next_free st1) then Some (st1, Failed)
     else do {
       d \<leftarrow> dict_add (hd stack) (lz_pW st1) (lz_dict st1);
       Some ((lzw_grow (st1\<lparr>lz_dict := d\<rparr>))\<lparr>lz_pW := cW\<rparr>, Running)
     }
   }"

definition lzw_step :: "data_block \<Rightarrow> nat \<Rightarrow> lzw \<Rightarrow> (lzw \<times> lzw_status) option" where
  "lzw_step src dest_size st = do {
     (cW, bits) \<leftarrow> get_next_codeword (lz_bits_read st) src (lz_codeword_size st);
     let st1 = st\<lparr>lz_bits_read := bits\<rparr>;
     if cW = 0x100 then lzw_reset src dest_size st1
     else if cW = 0x101 then Some (st1, Finished)
     else if cW = -1 then Some (st1, Failed)
     else if cW < int (lz_next_free st1) then lzw_known cW dest_size st1
     else lzw_unknown cW dest_size st1
   }"

partial_function (option) lzw_loop :: "data_block \<Rightarrow> nat \<Rightarrow> lzw \<Rightarrow> (bool \<times> lzw) option" where
  "lzw_loop src dest_size st = do {
     (st1, status) \<leftarrow> lzw_step src dest_size st;
     (case status of
        Running \<Rightarrow> lzw_loop src dest_size st1
      | Finished \<Rightarrow> Some (True, st1)
      | Failed \<Rightarrow> Some (False, st1))
   }"

definition lzw_start :: "(nat \<Rightarrow> dict_entry) \<Rightarrow> bytes \<Rightarrow> lzw" where
  "lzw_start mem dest =
     \<lparr>lz_codeword_size = 9, lz_bits_read = 0, lz_next_free = 0x102, lz_dictionary_size = 0x200,
      lz_dict = new_dict mem, lz_dst = (dest, 0), lz_pW = 0\<rparr>"

definition lzw_decompress ::
  "(nat \<Rightarrow> dict_entry) \<Rightarrow> data_block \<Rightarrow> data_block \<Rightarrow> (bool \<times> bytes) option" where
  "lzw_decompress mem src dest = do {
     (ok, st) \<leftarrow> lzw_loop src (blk_size dest) (lzw_start mem (blk_data dest));
     Some (ok, fst (lz_dst st))
   }"

section \<open>The dictionary stays well-founded\<close>

text \<open>A codeword a string can be read from: a root, or an entry below the bound \<open>n\<close>.\<close>

definition cw_ok :: "nat \<Rightarrow> int \<Rightarrow> bool" where
  "cw_ok n c \<longleftrightarrow> 0 \<le> c \<and> c < int n \<and> c \<noteq> 0x100 \<and> c \<noteq> 0x101"

text \<open>Every entry links to a root or to an earlier entry, so every walk ends.\<close>

definition dict_ok :: "my_dict \<Rightarrow> bool" where
  "dict_ok d \<longleftrightarrow>
     dict_size d = 4096 \<and> length (dict_entries d) = 3840 \<and>
     0x102 \<le> dict_contains d \<and> dict_contains d \<le> 4096 \<and>
     (\<forall>i. 0x102 \<le> i \<and> i < dict_contains d \<longrightarrow> cw_ok i (de_codeword (dict_entries d ! (i - 0x100))))"

lemma dict_get_ok:
  assumes "dict_ok d" "cw_ok (dict_contains d) c" "c > 0xff"
  shows "\<exists>e. dict_get c d = Some e \<and> cw_ok (nat c) (de_codeword e)"
proof -
  let ?i = "nat c"
  have i: "0x102 \<le> ?i" "?i < dict_contains d" "?i - 0x100 < length (dict_entries d)"
    using assms by (auto simp: cw_ok_def dict_ok_def)
  then have "dict_get c d = Some (dict_entries d ! (?i - 0x100))"
    using assms(3) by (simp add: dict_get_def rd_int_def rd_def nat_diff_distrib)
  then show ?thesis using assms(1) i(1,2) by (simp add: dict_ok_def)
qed

lemma get_string_loop_ok:
  "dict_ok d \<Longrightarrow> cw_ok (dict_contains d) c \<Longrightarrow> \<exists>r stk'. get_string_loop d c stk = Some (r, stk')"
proof (induction "nat c" arbitrary: c stk rule: less_induct)
  case less
  show ?case
  proof (cases "c > 0xff")
    case False
    then show ?thesis by (subst get_string_loop.simps) simp
  next
    case True
    then obtain e where e: "dict_get c d = Some e" "cw_ok (nat c) (de_codeword e)"
      using dict_get_ok less.prems by blast
    have "nat (de_codeword e) < nat c" "cw_ok (dict_contains d) (de_codeword e)"
      using e(2) less.prems(2) by (auto simp: cw_ok_def)
    from less.hyps [OF this(1) less.prems(1) this(2)] e(1) True show ?thesis
      by (subst get_string_loop.simps) simp
  qed
qed

lemma get_string_ok:
  "dict_ok d \<Longrightarrow> cw_ok (dict_contains d) c \<Longrightarrow> \<exists>r rs. get_string c d = Some (r # rs)"
  using get_string_loop_ok [of d c "[]"] by (auto simp: get_string_def)

lemma dict_add_ok:
  assumes d: "dict_ok d" and c: "cw_ok (dict_contains d) c"
  shows "\<exists>d'. dict_add root c d = Some d' \<and> dict_ok d' \<and>
    dict_contains d' = min (dict_contains d + 1) 4096"
proof (cases "dict_contains d < 4096")
  case False
  then have "dict_contains d = 4096" "dict_size d = 4096" using d by (simp_all add: dict_ok_def)
  then show ?thesis using d by (simp add: dict_add_def)
next
  case True
  let ?k = "dict_contains d - 0x100"
  let ?d = "d\<lparr>dict_entries := (dict_entries d)[?k := \<lparr>de_root = root, de_codeword = to_s16 c\<rparr>],
              dict_contains := dict_contains d + 1\<rparr>"
  have k: "?k < length (dict_entries d)" using d True by (auto simp: dict_ok_def)
  have add: "dict_add root c d = Some ?d"
    using d True k by (simp add: dict_add_def wr_Some dict_ok_def)
  have s16: "to_s16 c = c" using c True by (simp add: cw_ok_def to_s16_def)
  have "cw_ok i (de_codeword (dict_entries ?d ! (i - 0x100)))"
    if "0x102 \<le> i" "i < dict_contains ?d" for i
  proof (cases "i = dict_contains d")
    case True
    then show ?thesis using k c s16 by simp
  next
    case False
    then have "i < dict_contains d" "i - 0x100 \<noteq> ?k" using that d by (auto simp: dict_ok_def)
    then show ?thesis using d that(1) by (simp add: dict_ok_def)
  qed
  then have "dict_ok ?d" using d True by (simp add: dict_ok_def)
  then show ?thesis using add True by simp
qed

lemma dict_reset_ok: "dict_ok d \<Longrightarrow> dict_ok (dict_reset d)"
  by (auto simp: dict_ok_def dict_reset_def)

lemma new_dict_ok: "dict_ok (new_dict mem)"
  by (auto simp: dict_ok_def new_dict_def default_dict_size_def)

section \<open>The streams stay in bounds\<close>

definition dst_ok :: "nat \<Rightarrow> bytes \<times> nat \<Rightarrow> bool" where
  "dst_ok n dst \<longleftrightarrow> length (fst dst) = n \<and> snd dst \<le> n"

lemma output_root_ok:
  "dst_ok n dst \<Longrightarrow> \<exists>dst'. output_root c n dst = Some (snd dst < n, dst') \<and> dst_ok n dst'"
  by (cases dst; cases "snd dst < n") (auto simp: output_root_def dst_ok_def wr_Some)

lemma output_stack_ok:
  "dst_ok n dst \<Longrightarrow> \<exists>ok dst'. output_stack cs n dst = Some (ok, dst') \<and> dst_ok n dst'"
proof (induction cs arbitrary: dst)
  case Nil
  then show ?case by auto
next
  case (Cons c cs)
  from output_root_ok [OF Cons.prems, of c] obtain ok dst' where
    "output_root c n dst = Some (ok, dst')" "dst_ok n dst'" by blast
  then show ?case using Cons.IH [of dst'] by (cases ok) auto
qed

definition src_ok :: "data_block \<Rightarrow> bool" where
  "src_ok src \<longleftrightarrow> blk_size src \<le> length (blk_data src) \<and> blk_size src < 2 ^ 60"

lemma get_next_codeword_ok:
  assumes src: "src_ok src" and b: "bits \<le> 8 * blk_size src" and cs: "cs \<in> {9, 10, 11, 12}"
  shows "\<exists>c b'. get_next_codeword bits src cs = Some (c, b') \<and>
    (c = -1 \<and> b' = bits \<or> 0 \<le> c \<and> c < 2 ^ cs \<and> b' = bits + cs \<and> b' \<le> 8 * blk_size src)"
proof -
  let ?pos = "bits div 8" and ?off = "bits mod 8"
  let ?wide = "?off + cs > 16"
  have pos: "?pos \<le> blk_size src" using b by linarith
  have left: "ulong (int (blk_size src) - int ?pos) = blk_size src - ?pos"
    using pos src by (subst ulong_id) (auto simp: src_ok_def nat_diff_distrib)
  have bits: "bits = 8 * ?pos + ?off" "?off < 8" by simp_all
  show ?thesis
  proof (cases "blk_size src - ?pos < 2 + (if ?wide then 1 else 0)")
    case True
    then show ?thesis using left by (simp add: get_next_codeword_def Let_def)
  next
    case False
    then have in_bounds: "?pos + 1 < length (blk_data src)" "?wide \<Longrightarrow> ?pos + 2 < length (blk_data src)"
      using src by (auto simp: src_ok_def split: if_splits)
    have room: "bits + cs \<le> 8 * blk_size src"
    proof (cases ?wide)
      case True
      then have "?pos + 3 \<le> blk_size src" using False by simp
      moreover have "cs \<le> 12" using cs by auto
      ultimately show ?thesis using bits by linarith
    next
      case narrow: False
      then have "?pos + 2 \<le> blk_size src" using False by simp
      then show ?thesis using bits narrow by linarith
    qed
    have r: "rd (blk_data src) ?pos = Some (blk_data src ! ?pos)"
      "rd (blk_data src) (?pos + 1) = Some (blk_data src ! (?pos + 1))"
      "?wide \<Longrightarrow> rd (blk_data src) (?pos + 2) = Some (blk_data src ! (?pos + 2))"
      using in_bounds by (simp_all add: rd_def)
    let ?b2 = "if ?wide then blk_data src ! (?pos + 2) else 0"
    have "(if ?wide then rd (blk_data src) (?pos + 2) else Some 0) = Some ?b2" using r(3) by simp
    then obtain w where w: "get_next_codeword bits src cs = Some (int (w mod 2 ^ cs), bits + cs)"
      unfolding get_next_codeword_def Let_def left if_not_P [OF False] r(1,2) Option.bind.bind_lunit
      using cs by simp
    have "int (w mod 2 ^ cs) < 2 ^ cs" by simp
    then show ?thesis using w room by (metis of_nat_0_le_iff)
  qed
qed

section \<open>Safety\<close>

text \<open>The invariant between two steps.\<close>

definition lzw_ok :: "data_block \<Rightarrow> nat \<Rightarrow> lzw \<Rightarrow> bool" where
  "lzw_ok src n st \<longleftrightarrow>
     lz_codeword_size st \<in> {9, 10, 11, 12} \<and> lz_bits_read st \<le> 8 * blk_size src \<and>
     0x102 \<le> lz_next_free st \<and> dict_ok (lz_dict st) \<and>
     dict_contains (lz_dict st) = min (lz_next_free st) 4096 \<and> dst_ok n (lz_dst st) \<and>
     (cw_ok (dict_contains (lz_dict st)) (lz_pW st) \<or>
      get_next_codeword (lz_bits_read st) src (lz_codeword_size st) = Some (-1, lz_bits_read st))"

text \<open>A reset code whose following codeword is not a root.\<close>

definition lzw_bad_reset :: "data_block \<Rightarrow> lzw \<Rightarrow> bool" where
  "lzw_bad_reset src st \<longleftrightarrow>
     (case get_next_codeword (lz_bits_read st) src (lz_codeword_size st) of
        Some (c, bits) \<Rightarrow> c = 0x100 \<and>
          (case get_next_codeword bits src 9 of Some (c', _) \<Rightarrow> c' > 0xff | None \<Rightarrow> False)
      | None \<Rightarrow> False)"

lemma lzw_grow_ok:
  "lz_codeword_size st \<in> {9, 10, 11, 12} \<Longrightarrow> lz_codeword_size (lzw_grow st) \<in> {9, 10, 11, 12}"
  "lz_next_free (lzw_grow st) = lz_next_free st + 1" "lz_bits_read (lzw_grow st) = lz_bits_read st"
  "lz_dict (lzw_grow st) = lz_dict st" "lz_dst (lzw_grow st) = lz_dst st"
  by (auto simp: lzw_grow_def Let_def max_codeword_length_def)

lemma lzw_add_ok:
  assumes "lz_codeword_size st \<in> {9, 10, 11, 12}" "lz_bits_read st \<le> 8 * blk_size src"
    "0x102 \<le> lz_next_free st" "dict_ok (lz_dict st)" "dst_ok n (lz_dst st)"
    "dict_contains (lz_dict st) = min (lz_next_free st) 4096"
    "cw_ok (dict_contains (lz_dict st)) pW"
    "cw_ok (min (lz_next_free st + 1) 4096) cW"
  shows "\<exists>d. dict_add c pW (lz_dict st) = Some d \<and>
    lzw_ok src n ((lzw_grow (st\<lparr>lz_dict := d\<rparr>))\<lparr>lz_pW := cW\<rparr>)"
proof -
  obtain d where d: "dict_add c pW (lz_dict st) = Some d" "dict_ok d"
    "dict_contains d = min (lz_next_free st + 1) 4096"
    using dict_add_ok [OF assms(4,7), of c] assms(6) by auto
  then show ?thesis
    using assms(1-3,5,8) lzw_grow_ok(1) [of "st\<lparr>lz_dict := d\<rparr>"]
    by (simp add: lzw_ok_def lzw_grow_ok(2-5))
qed

lemma lzw_step_ok:
  assumes src: "src_ok src" and ok: "lzw_ok src n st" and good: "\<not> lzw_bad_reset src st"
  shows "\<exists>st' status. lzw_step src n st = Some (st', status) \<and> dst_ok n (lz_dst st') \<and>
    (status = Running \<longrightarrow> lzw_ok src n st' \<and> lz_bits_read st < lz_bits_read st')"
proof -
  let ?cs = "lz_codeword_size st" and ?bits = "lz_bits_read st"
  have cs: "?cs \<in> {9, 10, 11, 12}" and bits: "?bits \<le> 8 * blk_size src" and nf: "0x102 \<le> lz_next_free st"
    and d: "dict_ok (lz_dict st)" "dict_contains (lz_dict st) = min (lz_next_free st) 4096"
    and dst: "dst_ok n (lz_dst st)" using ok by (simp_all add: lzw_ok_def)
  obtain c b where cb: "get_next_codeword ?bits src ?cs = Some (c, b)"
    "c = -1 \<and> b = ?bits \<or> 0 \<le> c \<and> c < 2 ^ ?cs \<and> b = ?bits + ?cs \<and> b \<le> 8 * blk_size src"
    using get_next_codeword_ok [OF src bits cs] by blast
  let ?st = "st\<lparr>lz_bits_read := b\<rparr>"
  show ?thesis
  proof (cases "c = -1 \<or> c = 0x101")
    case True
    then show ?thesis using cb(1) dst by (auto simp: lzw_step_def Let_def)
  next
    case False
    then have c: "0 \<le> c" "c < 2 ^ ?cs" "b = ?bits + ?cs" "b \<le> 8 * blk_size src" "?bits < b"
      using cb(2) cs by auto
    have pW: "cw_ok (dict_contains (lz_dict st)) (lz_pW st)"
      using ok cb(1) c(1) by (auto simp: lzw_ok_def)
    show ?thesis
    proof (cases "c = 0x100")
      case True
      obtain c' b' where cb': "get_next_codeword b src 9 = Some (c', b')"
        "c' = -1 \<and> b' = b \<or> 0 \<le> c' \<and> c' < 2 ^ 9 \<and> b' = b + 9 \<and> b' \<le> 8 * blk_size src"
        using get_next_codeword_ok [OF src c(4), of 9] by auto
      have root: "c' \<le> 0xff" using good cb(1) True cb'(1) by (simp add: lzw_bad_reset_def)
      obtain okb dst' where o: "output_root (to_u8 c') n (lz_dst st) = Some (okb, dst')" "dst_ok n dst'"
        using output_root_ok [OF dst] by blast
      have "lzw_step src n st = Some (let st2 = st\<lparr>lz_codeword_size := 9, lz_next_free := 0x102,
          lz_dictionary_size := 0x200, lz_dict := dict_reset (lz_dict st), lz_bits_read := b', lz_dst := dst'\<rparr>
          in if okb then (st2\<lparr>lz_pW := c'\<rparr>, Running) else (st2, Failed))"
        using cb(1) True cb'(1) o(1) by (simp add: lzw_step_def lzw_reset_def Let_def)
      then show ?thesis
        using o(2) cb'(1,2) root c(4,5) dict_reset_ok [OF d(1)]
        by (cases okb) (auto simp: lzw_ok_def cw_ok_def dict_reset_def Let_def)
    next
      case nreset: False
      show ?thesis
      proof (cases "c < int (lz_next_free st)")
        case True
        have "(2::int) ^ ?cs \<le> 2 ^ 12" using cs by auto
        then have "c < 4096" using c(2) by simp
        then have cw: "cw_ok (dict_contains (lz_dict st)) c"
          and cw': "cw_ok (min (lz_next_free st + 1) 4096) c"
          using True False nreset c(1) d(2) by (auto simp: cw_ok_def)
        obtain r rs where s: "get_string c (lz_dict st) = Some (r # rs)"
          using get_string_ok [OF d(1) cw] by blast
        obtain okb dst' where o: "output_stack (r # rs) n (lz_dst st) = Some (okb, dst')" "dst_ok n dst'"
          using output_stack_ok [OF dst] by blast
        let ?st1 = "?st\<lparr>lz_dst := dst'\<rparr>"
        obtain e where e: "dict_add r (lz_pW st) (lz_dict ?st1) = Some e"
          "lzw_ok src n ((lzw_grow (?st1\<lparr>lz_dict := e\<rparr>))\<lparr>lz_pW := c\<rparr>)"
          using lzw_add_ok [of ?st1 src n "lz_pW st" c r] cs c(4) nf d o(2) pW cw' by auto
        have "lzw_step src n st = (if okb then
            Some ((lzw_grow (?st1\<lparr>lz_dict := e\<rparr>))\<lparr>lz_pW := c\<rparr>, Running) else Some (?st1, Failed))"
          using cb(1) False nreset True s o(1) e(1)
          by (simp add: lzw_step_def lzw_known_def Let_def del: output_stack.simps)
        then show ?thesis
          using e(2) o(2) c(5) by (cases okb) (auto simp: lzw_grow_ok(3,5))
      next
        case unknown: False
        obtain r rs where s: "get_string (lz_pW st) (lz_dict st) = Some (r # rs)"
          using get_string_ok [OF d(1) pW] by blast
        obtain okb dst' where o: "output_stack ((r # rs) @ [r]) n (lz_dst st) = Some (okb, dst')" "dst_ok n dst'"
          using output_stack_ok [OF dst] by blast
        let ?st1 = "?st\<lparr>lz_dst := dst'\<rparr>"
        show ?thesis
        proof (cases "okb \<and> c = int (lz_next_free st)")
          case fails: False
          then have "lzw_step src n st = Some (?st1, Failed)"
            using cb(1) False nreset unknown s o(1)
            by (auto simp: lzw_step_def lzw_unknown_def Let_def simp del: output_stack.simps)
          then show ?thesis using o(2) by simp
        next
          case True
          have "(2::int) ^ ?cs \<le> 2 ^ 12" using cs by auto
          then have "c < 4096" using c(2) by simp
          then have cw': "cw_ok (min (lz_next_free st + 1) 4096) c"
            using True False nreset c(1) by (auto simp: cw_ok_def)
          obtain e where e: "dict_add r (lz_pW st) (lz_dict ?st1) = Some e"
            "lzw_ok src n ((lzw_grow (?st1\<lparr>lz_dict := e\<rparr>))\<lparr>lz_pW := c\<rparr>)"
            using lzw_add_ok [of ?st1 src n "lz_pW st" c r] cs c(4) nf d o(2) pW cw' by auto
          have "lzw_step src n st = Some ((lzw_grow (?st1\<lparr>lz_dict := e\<rparr>))\<lparr>lz_pW := c\<rparr>, Running)"
            using cb(1) False nreset unknown s o(1) e(1) True
            by (simp add: lzw_step_def lzw_unknown_def Let_def del: output_stack.simps)
          then show ?thesis
            using e(2) o(2) c(5) by (auto simp: lzw_grow_ok(3,5))
        qed
      qed
    qed
  qed
qed

lemma lzw_start_ok:
  "length dest = n \<Longrightarrow> lzw_ok src n (lzw_start mem dest)"
  by (simp add: lzw_ok_def lzw_start_def new_dict_ok dst_ok_def cw_ok_def)
     (simp add: new_dict_def)

text \<open>The states between two codewords of one decompression.\<close>

inductive lzw_reach :: "data_block \<Rightarrow> nat \<Rightarrow> lzw \<Rightarrow> lzw \<Rightarrow> bool" for src n st0 where
  reach_start: "lzw_reach src n st0 st0"
| reach_step: "lzw_reach src n st0 st \<Longrightarrow> lzw_step src n st = Some (st', Running) \<Longrightarrow>
    lzw_reach src n st0 st'"

lemma lzw_loop_ok:
  assumes src: "src_ok src" and good: "\<And>st. lzw_reach src n st0 st \<Longrightarrow> \<not> lzw_bad_reset src st"
  shows "lzw_reach src n st0 st \<Longrightarrow> lzw_ok src n st \<Longrightarrow>
    \<exists>ok st'. lzw_loop src n st = Some (ok, st') \<and> dst_ok n (lz_dst st')"
proof (induction "8 * blk_size src - lz_bits_read st" arbitrary: st rule: less_induct)
  case less
  obtain st' status where step: "lzw_step src n st = Some (st', status)" "dst_ok n (lz_dst st')"
    "status = Running \<longrightarrow> lzw_ok src n st' \<and> lz_bits_read st < lz_bits_read st'"
    using lzw_step_ok [OF src less.prems(2) good [OF less.prems(1)]] by blast
  show ?case
  proof (cases status)
    case Running
    then have "lzw_ok src n st'" "lz_bits_read st < lz_bits_read st'" using step(3) by simp_all
    moreover have "lz_bits_read st' \<le> 8 * blk_size src" using calculation(1) by (simp add: lzw_ok_def)
    moreover have "lzw_reach src n st0 st'"
      using reach_step [OF less.prems(1)] step(1) Running by simp
    ultimately have "\<exists>ok st''. lzw_loop src n st' = Some (ok, st'') \<and> dst_ok n (lz_dst st'')"
      by (intro less.hyps) simp_all
    then show ?thesis using step(1) Running by (subst lzw_loop.simps) simp
  qed (use step(1,2) in \<open>subst lzw_loop.simps, auto\<close>)+
qed

lemma lzw_decompress_returns:
  assumes "blk_size src \<le> length (blk_data src)" "blk_size src < 2 ^ 60"
    and "blk_size dest = length (blk_data dest)"
  shows "(\<exists>ok out. lzw_decompress mem src dest = Some (ok, out) \<and> length out = blk_size dest) \<or>
    (\<exists>st. lzw_reach src (blk_size dest) (lzw_start mem (blk_data dest)) st \<and> lzw_bad_reset src st)"
proof (cases "\<exists>st. lzw_reach src (blk_size dest) (lzw_start mem (blk_data dest)) st \<and> lzw_bad_reset src st")
  case False
  let ?st = "lzw_start mem (blk_data dest)"
  have "src_ok src" using assms(1,2) by (simp add: src_ok_def)
  then obtain ok st' where "lzw_loop src (blk_size dest) ?st = Some (ok, st')" "dst_ok (blk_size dest) (lz_dst st')"
    using lzw_loop_ok [of src "blk_size dest" ?st ?st] False reach_start
      lzw_start_ok [OF assms(3) [symmetric]] by blast
  then show ?thesis by (auto simp: lzw_decompress_def dst_ok_def)
qed simp

text \<open>C32: the decompressor of Ultima 6 songs returns, and touches neither its input nor the
destination or the dictionary outside their bounds, on every stream and whatever the fresh
dictionary held, except when the stream has a reset code that is followed by something other than a
root: the code takes that codeword as a string already known, and its links are stale memory.\<close>

theorem lzw_decompress_safe:
  assumes "blk_size src \<le> length (blk_data src)" "blk_size src < 2 ^ 60"
    and "blk_size dest = length (blk_data dest)"
  shows "(\<exists>ok out. lzw_decompress mem src dest = Some (ok, out) \<and> length out = blk_size dest) \<or>
    (\<exists>st. lzw_reach src (blk_size dest) (lzw_start mem (blk_data dest)) st \<and> lzw_bad_reset src st)"
  by (rule lzw_decompress_returns [OF assms])

lemma lzw_decompress_safe_witness:
  "(\<exists>ok out. lzw_decompress (\<lambda>_. \<lparr>de_root = 0, de_codeword = 0\<rparr>) \<lparr>blk_size = 4, blk_data = [0, 0x83, 4, 4]\<rparr>
      \<lparr>blk_size = 2, blk_data = [0, 0]\<rparr> = Some (ok, out) \<and> length out = 2) \<or>
    (\<exists>st. lzw_reach \<lparr>blk_size = 4, blk_data = [0, 0x83, 4, 4]\<rparr> 2
      (lzw_start (\<lambda>_. \<lparr>de_root = 0, de_codeword = 0\<rparr>) [0, 0]) st \<and>
      lzw_bad_reset \<lparr>blk_size = 4, blk_data = [0, 0x83, 4, 4]\<rparr> st)"
  using lzw_decompress_safe [of "\<lparr>blk_size = 4, blk_data = [0, 0x83, 4, 4]\<rparr>"
      "\<lparr>blk_size = 2, blk_data = [0, 0]\<rparr>" "\<lambda>_. \<lparr>de_root = 0, de_codeword = 0\<rparr>"] by simp

section \<open>Decoding what an encoder writes\<close>

text \<open>
  A stream of 9-bit codewords, packed from the low bits up, and the simplest encoder: every byte is
  its own root, and a reset before the width would grow.
\<close>

definition pack_value :: "int list \<Rightarrow> int" where
  "pack_value cs = foldr (\<lambda>c v. c + 512 * v) cs 0"

definition pack9 :: "int list \<Rightarrow> bytes" where
  "pack9 cs = le_bytes ((9 * length cs + 7) div 8) (pack_value cs)"

definition lzw_codes :: "bytes list \<Rightarrow> int list" where
  "lzw_codes chunks = concat (map (\<lambda>c. 0x100 # map uint c) chunks) @ [0x101]"

lemma pack_value_nth:
  "\<forall>c \<in> set cs. 0 \<le> c \<and> c < 512 \<Longrightarrow> i < length cs \<Longrightarrow> pack_value cs div 512 ^ i mod 512 = cs ! i"
proof (induction cs arbitrary: i)
  case Nil
  then show ?case by simp
next
  case (Cons c cs)
  have p: "pack_value (c # cs) = c + 512 * pack_value cs" by (simp add: pack_value_def)
  show ?case
  proof (cases i)
    case 0
    then show ?thesis using Cons.prems(1) p by simp
  next
    case (Suc j)
    have "pack_value (c # cs) div 512 = pack_value cs" using Cons.prems(1) p by simp
    then have "pack_value (c # cs) div 512 ^ i = pack_value cs div 512 ^ j"
      using Suc by (simp add: zdiv_zmult2_eq)
    then show ?thesis using Cons Suc by simp
  qed
qed

lemma pack_value_nonneg: "\<forall>c \<in> set cs. 0 \<le> c \<Longrightarrow> 0 \<le> pack_value cs"
  by (induction cs) (simp_all add: pack_value_def)

lemma nth_le_bytes: "j < n \<Longrightarrow> le_bytes n v ! j = to_u8 (v div 256 ^ j)"
proof (induction n arbitrary: v j)
  case 0
  then show ?case by simp
next
  case (Suc n)
  then show ?case by (cases j) (simp_all add: zdiv_zmult2_eq)
qed

lemma window_9:
  fixes V :: int
  assumes "off < 8"
  shows "(V div 256 mod 256 * 256 + V mod 256) div 2 ^ off mod 512 = V div 2 ^ off mod 512"
proof -
  have "V div 256 mod 256 * 256 + V mod 256 = V mod (256 * 256)"
    using zmod_zmult2_eq [of 256 V 256] by simp
  then have "V div 256 mod 256 * 256 + V mod 256 = take_bit 16 V" by (simp add: take_bit_eq_mod)
  moreover have "take_bit 9 (drop_bit off (take_bit 16 V)) = take_bit 9 (drop_bit off V)"
    by (rule bit_eqI) (use assms in \<open>auto simp: bit_take_bit_iff bit_drop_bit_eq\<close>)
  ultimately show ?thesis by (simp add: take_bit_eq_mod drop_bit_eq_div)
qed

lemma pack9_codeword:
  assumes cs: "\<forall>c \<in> set cs. 0 \<le> c \<and> c < 512" and i: "i < length cs" and len: "length cs < 2 ^ 50"
  shows "get_next_codeword (9 * i) \<lparr>blk_size = length (pack9 cs), blk_data = pack9 cs\<rparr> 9 =
    Some (cs ! i, 9 * (i + 1))"
proof -
  let ?pos = "9 * i div 8" and ?off = "9 * i mod 8" and ?v = "pack_value cs"
  let ?n = "(9 * length cs + 7) div 8"
  let ?V = "?v div 256 ^ ?pos"
  have off: "?off < 8" by simp
  have n: "length (pack9 cs) = ?n" by (simp add: pack9_def)
  have pos: "?pos + 1 < ?n" using i by linarith
  have left: "ulong (int (length (pack9 cs)) - int ?pos) = ?n - ?pos"
    using pos len unfolding n by (subst ulong_id) (auto simp: nat_diff_distrib)
  have rds: "rd (pack9 cs) ?pos = Some (to_u8 ?V)" "rd (pack9 cs) (?pos + 1) = Some (to_u8 (?v div 256 ^ (?pos + 1)))"
    using pos unfolding rd_def n by (simp_all add: pack9_def nth_le_bytes del: power_Suc)
  have "(256 :: int) ^ (?pos + 1) = 256 ^ ?pos * 256" by simp
  then have V1: "?v div 256 ^ (?pos + 1) = ?V div 256" by (simp only: zdiv_zmult2_eq)
  have "int ((unat (to_u8 (?V div 256)) * 2 ^ 8 + unat (to_u8 ?V)) div 2 ^ ?off mod 2 ^ 9) =
      (?V div 256 mod 256 * 256 + ?V mod 256) div 2 ^ ?off mod 512"
    by (simp add: zdiv_int zmod_int uint_word_of_int)
  also have "\<dots> = ?V div 2 ^ ?off mod 512" by (rule window_9 [OF off])
  also have "?V div 2 ^ ?off = ?v div 512 ^ i"
  proof -
    have "(256::int) ^ ?pos = 2 ^ (8 * ?pos)" unfolding power_mult by simp
    then have "(256::int) ^ ?pos * 2 ^ ?off = 2 ^ (8 * ?pos + ?off)" by (simp only: power_add)
    also have "8 * ?pos + ?off = 9 * i" by simp
    also have "(2::int) ^ (9 * i) = 512 ^ i" unfolding power_mult by simp
    finally show ?thesis by (simp add: zdiv_zmult2_eq [symmetric])
  qed
  also have "?v div 512 ^ i mod 512 = cs ! i" by (rule pack_value_nth [OF cs i])
  finally have cw: "int ((unat (to_u8 (?V div 256)) * 2 ^ 8 + unat (to_u8 ?V)) div 2 ^ ?off mod 2 ^ 9) = cs ! i" .
  have "\<not> ?off + 9 > 16" using off by simp
  moreover have "\<not> ?n - ?pos < 2" using pos by linarith
  ultimately show ?thesis
    using left rds cw unfolding V1
    by (simp add: get_next_codeword_def Let_def)
qed

text \<open>The state while literals are decoded: the width stays at 9 bits.\<close>

definition lit_state :: "nat \<Rightarrow> nat \<Rightarrow> bytes \<times> nat \<Rightarrow> lzw \<Rightarrow> bool" where
  "lit_state i nf dst st \<longleftrightarrow>
     lz_codeword_size st = 9 \<and> lz_bits_read st = 9 * i \<and> lz_next_free st = nf \<and>
     lz_dictionary_size st = 0x200 \<and> lz_dst st = dst \<and> dict_size (lz_dict st) = 4096 \<and>
     length (dict_entries (lz_dict st)) = 3840 \<and> 0x102 \<le> dict_contains (lz_dict st)"

lemma dict_add_shape:
  assumes "dict_size d = 4096" "length (dict_entries d) = 3840" "0x102 \<le> dict_contains d"
  shows "\<exists>d'. dict_add c w d = Some d' \<and> dict_size d' = 4096 \<and> length (dict_entries d') = 3840 \<and>
    0x102 \<le> dict_contains d'"
proof (cases "dict_contains d < 4096")
  case True
  then have "dict_contains d - 0x100 < 3840" using assms(3) by simp
  then show ?thesis using assms True by (simp add: dict_add_def wr_Some)
qed (use assms in \<open>simp add: dict_add_def\<close>)

lemma lit_step:
  assumes st: "lit_state i nf (dest, p) st" and nf: "0x102 \<le> nf" "nf < 0x1ff"
    and src: "get_next_codeword (9 * i) src 9 = Some (uint (b :: u8), 9 * (i + 1))" and p: "p < length dest"
  shows "\<exists>st'. lzw_step src (length dest) st = Some (st', Running) \<and>
    lit_state (i + 1) (nf + 1) (dest[p := b], p + 1) st'"
proof -
  have b: "uint b < 256" "0 \<le> uint b" using uint_lt2p [of b] by simp_all
  have s: "get_string (uint b) (lz_dict st) = Some [b]"
  proof -
    have "\<not> 0xff < uint b" using uint_u8_bounds(2) [of b] by linarith
    then show ?thesis by (subst get_string_def, subst get_string_loop.simps) simp
  qed
  obtain d where d: "dict_add b (lz_pW st) (lz_dict st) = Some d" "dict_size d = 4096"
    "length (dict_entries d) = 3840" "0x102 \<le> dict_contains d"
    using dict_add_shape [of "lz_dict st" b "lz_pW st"] st by (auto simp: lit_state_def)
  have known: "uint b < int nf" using uint_u8_bounds(2) [of b] nf(1) by linarith
  have codes: "uint b \<noteq> 0x100" "uint b \<noteq> 0x101" "uint b \<noteq> -1"
    using uint_u8_bounds [of b] by linarith+
  show ?thesis
    using st src nf p d s known codes
    by (simp add: lit_state_def lzw_step_def lzw_known_def lzw_grow_def output_root_def wr_Some Let_def)
qed

lemma lit_reset_step:
  assumes st: "lit_state i nf (dest, p) st"
    and src: "get_next_codeword (9 * i) src 9 = Some (0x100, 9 * (i + 1))"
      "get_next_codeword (9 * (i + 1)) src 9 = Some (uint (b :: u8), 9 * (i + 2))"
    and p: "p < length dest"
  shows "\<exists>st'. lzw_step src (length dest) st = Some (st', Running) \<and>
    lit_state (i + 2) 0x102 (dest[p := b], p + 1) st'"
  using st src p
  by (simp add: lit_state_def lzw_step_def lzw_reset_def dict_reset_def output_root_def wr_Some Let_def)

lemma update_append: "length xs = p \<Longrightarrow> p < length dest \<Longrightarrow>
    (xs @ drop p dest)[p := b] = (xs @ [b]) @ drop (p + 1) dest"
  by (simp add: list_update_append Cons_nth_drop_Suc [symmetric])

lemma lit_run:
  assumes src: "src = \<lparr>blk_size = length (pack9 cs), blk_data = pack9 cs\<rparr>"
    and cs: "\<forall>c \<in> set cs. 0 \<le> c \<and> c < 512" "length cs < 2 ^ 50"
  shows "lit_state i nf (out @ drop (length out) dest, length out) st \<Longrightarrow> 0x102 \<le> nf \<Longrightarrow>
    nf + length bs \<le> 0x1ff \<Longrightarrow> drop i cs = map uint bs @ rest \<Longrightarrow>
    length out + length bs \<le> length dest \<Longrightarrow>
    \<exists>st'. lzw_loop src (length dest) st = lzw_loop src (length dest) st' \<and>
      lit_state (i + length bs) (nf + length bs)
        ((out @ bs) @ drop (length (out @ bs)) dest, length (out @ bs)) st'"
proof (induction bs arbitrary: i nf out st)
  case Nil
  then show ?case by auto
next
  case (Cons b bs)
  let ?d = "out @ drop (length out) dest"
  have i: "i < length cs" using Cons.prems(4) by (metis drop_eq_Nil list.simps(3,9) append_Cons not_less)
  have ci: "cs ! i = uint b" using Cons.prems(4) i by (simp add: Cons_nth_drop_Suc [symmetric])
  have "length ?d = length dest" using Cons.prems(5) by simp
  moreover have "get_next_codeword (9 * i) src 9 = Some (uint b, 9 * (i + 1))"
    using pack9_codeword [OF cs(1) i cs(2)] src ci by simp
  ultimately obtain st1 where st1: "lzw_step src (length dest) st = Some (st1, Running)"
    "lit_state (i + 1) (nf + 1) (?d[length out := b], length out + 1) st1"
    using lit_step [OF Cons.prems(1,2)] Cons.prems(3,5) by auto
  have "?d[length out := b] = (out @ [b]) @ drop (length (out @ [b])) dest"
    using update_append [OF refl, of out dest b] Cons.prems(5) by simp
  then have "lit_state (i + 1) (nf + 1) ((out @ [b]) @ drop (length (out @ [b])) dest, length (out @ [b])) st1"
    using st1(2) by simp
  then obtain st' where st': "lzw_loop src (length dest) st1 = lzw_loop src (length dest) st'"
    "lit_state (i + 1 + length bs) (nf + 1 + length bs)
      (((out @ [b]) @ bs) @ drop (length ((out @ [b]) @ bs)) dest, length ((out @ [b]) @ bs)) st'"
    using Cons.IH [of "i + 1" "nf + 1" "out @ [b]" st1] Cons.prems(2-5) i
    by (auto simp: Cons_nth_drop_Suc [symmetric])
  have "lzw_loop src (length dest) st = lzw_loop src (length dest) st1"
    using st1(1) by (subst lzw_loop.simps) simp
  then show ?case using st' by (intro exI [of _ st']) simp
qed

lemma lzw_chunks:
  assumes src: "src = \<lparr>blk_size = length (pack9 cs), blk_data = pack9 cs\<rparr>"
    and cs: "\<forall>c \<in> set cs. 0 \<le> c \<and> c < 512" "length cs < 2 ^ 50"
  shows "lit_state i nf (out @ drop (length out) dest, length out) st \<Longrightarrow>
    drop i cs = lzw_codes chunks \<Longrightarrow> list_all (\<lambda>c. c \<noteq> [] \<and> length c \<le> 254) chunks \<Longrightarrow>
    length dest = length out + length (concat chunks) \<Longrightarrow>
    \<exists>st'. lzw_loop src (length dest) st = Some (True, st') \<and> fst (lz_dst st') = out @ concat chunks"
proof (induction chunks arbitrary: i nf out st)
  case Nil
  have i: "i < length cs" and ci: "cs ! i = 0x101"
    using Nil.prems(2) nth_via_drop [of i cs "0x101" "[]"]
    by (simp_all add: lzw_codes_def) (metis drop_all linorder_not_less list.distinct(1))
  have "get_next_codeword (9 * i) src 9 = Some (0x101, 9 * (i + 1))"
    using pack9_codeword [OF cs(1) i cs(2)] src ci by simp
  then have "lzw_step src (length dest) st = Some (st\<lparr>lz_bits_read := 9 * (i + 1)\<rparr>, Finished)"
    using Nil.prems(1) by (simp add: lzw_step_def lit_state_def Let_def)
  then show ?case
    using Nil.prems(1,4) by (subst lzw_loop.simps) (simp add: lit_state_def)
next
  case (Cons c chunks)
  obtain b bs where c: "c = b # bs" "length bs \<le> 253" using Cons.prems(3) by (cases c) auto
  let ?d = "out @ drop (length out) dest"
  have dr: "drop i cs = 0x100 # uint b # map uint bs @ lzw_codes chunks"
    using Cons.prems(2) c(1) by (simp add: lzw_codes_def)
  have i: "i + 1 < length cs"
  proof (rule ccontr)
    assume "\<not> i + 1 < length cs"
    then have "length (drop i cs) \<le> 1" by simp
    then show False unfolding dr by simp
  qed
  have drs: "drop i cs = cs ! i # cs ! (i + 1) # drop (i + 2) cs"
    using i by (simp add: Cons_nth_drop_Suc)
  then have ci: "cs ! i = 0x100" "cs ! (i + 1) = uint b" "drop (i + 2) cs = map uint bs @ lzw_codes chunks"
    using dr by simp_all
  have gets: "get_next_codeword (9 * i) src 9 = Some (0x100, 9 * (i + 1))"
    "get_next_codeword (9 * (i + 1)) src 9 = Some (uint b, 9 * (i + 2))"
    using pack9_codeword [OF cs(1) _ cs(2), of i] pack9_codeword [OF cs(1) i cs(2)] i src ci(1,2) by simp_all
  have len: "length ?d = length dest" "length out < length ?d" using Cons.prems(4) c(1) by simp_all
  obtain st1 where st1: "lzw_step src (length dest) st = Some (st1, Running)"
    "lit_state (i + 2) 0x102 (?d[length out := b], length out + 1) st1"
    using lit_reset_step [OF Cons.prems(1) gets len(2)] len(1) by auto
  have "?d[length out := b] = (out @ [b]) @ drop (length (out @ [b])) dest"
    using update_append [OF refl, of out dest b] len by simp
  then have "lit_state (i + 2) 0x102 ((out @ [b]) @ drop (length (out @ [b])) dest, length (out @ [b])) st1"
    using st1(2) by simp
  from lit_run [OF src cs this _ _ ci(3)] c Cons.prems(4)
  obtain st2 where st2: "lzw_loop src (length dest) st1 = lzw_loop src (length dest) st2"
    "lit_state (i + 2 + length bs) (0x102 + length bs)
      ((out @ c) @ drop (length (out @ c)) dest, length (out @ c)) st2" by auto
  have "drop (i + 2 + length bs) cs = drop (length bs) (drop (i + 2) cs)" by (simp add: add.commute)
  also have "\<dots> = lzw_codes chunks" unfolding ci(3) by simp
  finally have rest: "drop (i + 2 + length bs) cs = lzw_codes chunks" .
  obtain st' where "lzw_loop src (length dest) st2 = Some (True, st')" "fst (lz_dst st') = (out @ c) @ concat chunks"
    using Cons.IH [OF st2(2) rest] Cons.prems(3,4) by auto
  moreover have "lzw_loop src (length dest) st = lzw_loop src (length dest) st1"
    using st1(1) by (subst lzw_loop.simps) simp
  ultimately show ?case using st2(1) by auto
qed

text \<open>A stream of literals, reset before the codewords would grow and ended by the end code,
decompresses to exactly the bytes that were encoded, whatever the fresh memory of the destination
and of the dictionary held: codeword extraction across byte boundaries, resets and output agree with
the packing of the bits.\<close>

theorem lzw_literals_roundtrip:
  assumes "list_all (\<lambda>c. c \<noteq> [] \<and> length c \<le> 254) chunks"
    and "length (lzw_codes chunks) < 2 ^ 50"
    and "blk_data src = pack9 (lzw_codes chunks)" "blk_size src = length (blk_data src)"
    and "blk_size dest = length (concat chunks)" "length (blk_data dest) = blk_size dest"
  shows "lzw_decompress mem src dest = Some (True, concat chunks)"
proof -
  have src: "src = \<lparr>blk_size = length (pack9 (lzw_codes chunks)), blk_data = pack9 (lzw_codes chunks)\<rparr>"
    using assms(3,4) by (cases src) simp
  have range: "\<forall>c \<in> set (lzw_codes chunks). 0 \<le> c \<and> c < 512"
  proof -
    have "uint (b :: u8) < 512" for b using uint_u8_bounds(2) [of b] by linarith
    then show ?thesis by (auto simp: lzw_codes_def)
  qed
  have "lit_state 0 0x102 ([] @ drop (length ([] :: bytes)) (blk_data dest), length ([] :: bytes))
      (lzw_start mem (blk_data dest))"
    by (simp add: lit_state_def lzw_start_def new_dict_def default_dict_size_def)
  from lzw_chunks [OF src range assms(2) this, of chunks] assms(1,5,6)
  show ?thesis by (auto simp: lzw_decompress_def)
qed

lemma lzw_literals_roundtrip_witness:
  "lzw_decompress (\<lambda>_. \<lparr>de_root = 7, de_codeword = 300\<rparr>)
      \<lparr>blk_size = 7, blk_data = pack9 [0x100, 65, 66, 0x100, 67, 0x101]\<rparr> \<lparr>blk_size = 3, blk_data = [9, 9, 9]\<rparr> =
    Some (True, [65, 66, 67])"
  using lzw_literals_roundtrip [of "[[65, 66], [67]]"
      "\<lparr>blk_size = 7, blk_data = pack9 [0x100, 65, 66, 0x100, 67, 0x101]\<rparr>"
      "\<lparr>blk_size = 3, blk_data = [9, 9, 9]\<rparr>"]
  by (simp add: lzw_codes_def pack9_def)

section \<open>A cycle in the dictionary\<close>

text \<open>No walk from an entry that links to itself ends.\<close>

lemma get_string_loop_cycle:
  assumes "dict_get c d = Some e" "de_codeword e = c" "c > 0xff"
  shows "get_string_loop d c stk = None"
proof -
  have never: "\<not> (d' = d \<and> cur = c)" if "get_string_loop d' cur stk' = Some r" for d' cur stk' r
    using that
  proof (rule get_string_loop.raw_induct [rotated])
    fix g d' cur stk' r
    assume IH: "\<And>d' cur stk' r. g d' cur stk' = Some r \<Longrightarrow> \<not> (d' = d \<and> cur = c)"
      and step: "(if cur > 0xff then do { e \<leftarrow> dict_get cur d'; g d' (de_codeword e) (de_root e # stk') }
        else Some (cur, stk')) = Some r"
    show "\<not> (d' = d \<and> cur = c)"
      using IH [of d c "de_root e # stk'" r] step assms by auto
  qed
  then show ?thesis by (metis not_Some_eq)
qed

text \<open>A reset followed by the codeword 0x102, a root and 0x102 again makes \<open>get_string\<close> walk in
a circle: the entry 0x102, added when the root is read, links to itself, and decompression never
returns (in the program: until the stack has used up the memory).\<close>

theorem lzw_cycle_never_returns:
  "lzw_decompress mem \<lparr>blk_size = 6, blk_data = pack9 [0x100, 0x102, 65, 0x102, 0x101]\<rparr>
     \<lparr>blk_size = 3, blk_data = [0, 0, 0]\<rparr> = None"
proof -
  let ?cs = "[0x100, 0x102, 65, 0x102, 0x101] :: int list"
  let ?src = "\<lparr>blk_size = 6, blk_data = pack9 ?cs\<rparr>"
  have src: "?src = \<lparr>blk_size = length (pack9 ?cs), blk_data = pack9 ?cs\<rparr>" by (simp add: pack9_def)
  have code: "get_next_codeword (9 * i) ?src 9 = Some (?cs ! i, 9 * (i + 1))" if "i < 5" for i
    unfolding src by (rule pack9_codeword) (use that in auto)
  have codes: "get_next_codeword 0 ?src 9 = Some (0x100, 9)" "get_next_codeword 9 ?src 9 = Some (0x102, 18)"
    "get_next_codeword 18 ?src 9 = Some (65, 27)" "get_next_codeword 27 ?src 9 = Some (0x102, 36)"
    using code [of 0] code [of 1] code [of 2] code [of 3] by simp_all
  define d where "d = new_dict mem"
  have d: "dict_size d = 4096" "length (dict_entries d) = 3840" "dict_contains d = 0x102"
    by (simp_all add: d_def new_dict_def default_dict_size_def)
  let ?st0 = "\<lparr>lz_codeword_size = 9, lz_bits_read = 0, lz_next_free = 0x102, lz_dictionary_size = 0x200,
      lz_dict = d, lz_dst = ([0, 0, 0], 0), lz_pW = 0\<rparr>"
  let ?st1 = "?st0\<lparr>lz_bits_read := 18, lz_dict := dict_reset d, lz_dst := ([2, 0, 0], 1), lz_pW := 0x102\<rparr>"
  let ?d2 = "(dict_reset d)\<lparr>dict_entries := (dict_entries d)[2 := \<lparr>de_root = 65, de_codeword = 0x102\<rparr>],
      dict_contains := 0x103\<rparr>"
  let ?st2 = "?st1\<lparr>lz_bits_read := 27, lz_next_free := 0x103, lz_dict := ?d2, lz_dst := ([2, 65, 0], 2), lz_pW := 65\<rparr>"
  have "lzw_step ?src 3 ?st0 = Some (?st1, Running)"
    using codes(1,2) by (simp add: lzw_step_def lzw_reset_def output_root_def wr_def Let_def)
  moreover have "lzw_step ?src 3 ?st1 = Some (?st2, Running)"
  proof -
    have "get_string 65 (dict_reset d) = Some [65]"
      by (subst get_string_def, subst get_string_loop.simps) simp
    moreover have "dict_add 65 0x102 (dict_reset d) = Some ?d2"
      using d by (simp add: dict_add_def dict_reset_def wr_def to_s16_def)
    ultimately show ?thesis
      using codes(3) by (simp add: lzw_step_def lzw_known_def lzw_grow_def output_root_def wr_def Let_def)
  qed
  moreover have "lzw_step ?src 3 ?st2 = None"
  proof -
    have "dict_get 0x102 ?d2 = Some \<lparr>de_root = 65, de_codeword = 0x102\<rparr>"
      using d by (simp add: dict_get_def rd_int_def rd_def)
    then have "get_string 0x102 ?d2 = None"
      using get_string_loop_cycle [of "0x102" ?d2 _ "[]"] by (simp add: get_string_def)
    then show ?thesis using codes(4) by (simp add: lzw_step_def lzw_known_def Let_def)
  qed
  ultimately have "lzw_loop ?src 3 ?st0 = None"
    by (subst lzw_loop.simps, simp, subst lzw_loop.simps, simp, subst lzw_loop.simps, simp)
  then show ?thesis by (simp add: lzw_decompress_def lzw_start_def d_def)
qed

end
