(* ===== verification/U6m.thy ===== *)
theory U6m
  imports U6lzw
begin

text \<open>
  The player of \<open>src/u6m.cpp\<close>: a byte-coded command interpreter with a subsong stack, and per
  channel a frequency slide, a vibrato and a volume slide. Array accesses are checked; \<open>None\<close> is an
  access outside an array or a command loop that never ends.
\<close>

section \<open>The state\<close>

record byte_pair =
  bp_lo :: u8
  bp_hi :: u8

record subsong_info =
  ss_continue_pos :: nat
  ss_start :: nat
  ss_repetitions :: int

record u6m_player = cplayer +
  u6_song_data :: bytes
  u6_song_size :: nat
  u6_driver_active :: bool
  u6_songend :: bool
  u6_song_pos :: nat
  u6_loop_position :: nat
  u6_read_delay :: int
  u6_subsong_stack :: "subsong_info list"
  u6_instrument_offsets :: "nat list"
  u6_vb_current_value :: "u8 list"
  u6_vb_double_amplitude :: "u8 list"
  u6_vb_multiplier :: "u8 list"
  u6_vb_direction_flag :: "u8 list"
  u6_carrier_mf :: "u8 list"
  u6_carrier_mf_signed_delta :: "int list"
  u6_carrier_mf_mod_delay_backup :: "u8 list"
  u6_carrier_mf_mod_delay :: "u8 list"
  u6_channel_freq :: "byte_pair list"
  u6_channel_freq_signed_delta :: "int list"

section \<open>Additional functions\<close>

definition u6_dec_clip :: "int \<Rightarrow> int" where
  "u6_dec_clip param = (if param - 1 < 0 then 0 else param - 1)"

definition u6_read_byte :: "u6m_player \<Rightarrow> (int \<times> u6m_player) option" where
  "u6_read_byte s =
     (if u6_song_pos s < u6_song_size s then do {
        b \<leftarrow> rd (u6_song_data s) (u6_song_pos s);
        Some (uint b, s\<lparr>u6_song_pos := u6_song_pos s + 1\<rparr>)
      } else Some (-1, s))"

definition u6_read_signed_byte :: "u6m_player \<Rightarrow> (int \<times> u6m_player) option" where
  "u6_read_signed_byte s = do {
     (b, s1) \<leftarrow> u6_read_byte s;
     Some (to_s8 (if b \<ge> 0x80 then b - 0x100 else b), s1)
   }"

definition u6_freq_table :: "(u8 \<times> u8) list" where
  "u6_freq_table =
     [(0x00,0x00), (0x58,0x01), (0x82,0x01), (0xB0,0x01),
      (0xCC,0x01), (0x03,0x02), (0x41,0x02), (0x86,0x02),
      (0x00,0x00), (0x6A,0x01), (0x96,0x01), (0xC7,0x01),
      (0xE4,0x01), (0x1E,0x02), (0x5F,0x02), (0xA8,0x02),
      (0x00,0x00), (0x47,0x01), (0x6E,0x01), (0x9A,0x01),
      (0xB5,0x01), (0xE9,0x01), (0x24,0x02), (0x66,0x02)]"

definition u6_expand_freq_byte :: "u8 \<Rightarrow> byte_pair option" where
  "u6_expand_freq_byte b = do {
     let packed = unat b mod 32;
     let octave = unat b div 32;
     let packed = (if packed \<ge> 24 then 0 else packed);
     (lo, hi) \<leftarrow> rd u6_freq_table packed;
     Some \<lparr>bp_lo = lo, bp_hi = hi + of_nat (octave * 4)\<rparr>
   }"

definition u6_out_adlib :: "u8 \<Rightarrow> u8 \<Rightarrow> u6m_player \<Rightarrow> u6m_player" where
  "u6_out_adlib reg val s = opl_write (uint reg) (uint val) s"

definition u6_carrier_offset :: "u8 list" where
  "u6_carrier_offset = [0x03, 0x04, 0x05, 0x0B, 0x0C, 0x0D, 0x13, 0x14, 0x15]"

definition u6_modulator_offset :: "u8 list" where
  "u6_modulator_offset = [0x00, 0x01, 0x02, 0x08, 0x09, 0x0A, 0x10, 0x11, 0x12]"

definition u6_out_opcell :: "nat \<Rightarrow> bool \<Rightarrow> u8 \<Rightarrow> u8 \<Rightarrow> u6m_player \<Rightarrow> u6m_player option" where
  "u6_out_opcell channel carrier reg out s = do {
     off \<leftarrow> rd (if carrier then u6_carrier_offset else u6_modulator_offset) channel;
     Some (u6_out_adlib (reg + off) out s)
   }"

definition u6_set_freq_no_update :: "nat \<Rightarrow> byte_pair \<Rightarrow> u6m_player \<Rightarrow> u6m_player" where
  "u6_set_freq_no_update channel fw s =
     u6_out_adlib (0xB0 + of_nat channel) (bp_hi fw) (u6_out_adlib (0xA0 + of_nat channel) (bp_lo fw) s)"

definition u6_set_freq :: "nat \<Rightarrow> byte_pair \<Rightarrow> u6m_player \<Rightarrow> u6m_player option" where
  "u6_set_freq channel fw s = do {
     fs \<leftarrow> wr (u6_channel_freq s) channel fw;
     Some ((u6_set_freq_no_update channel fw s)\<lparr>u6_channel_freq := fs\<rparr>)
   }"

definition u6_set_carrier_mf :: "nat \<Rightarrow> u8 \<Rightarrow> u6m_player \<Rightarrow> u6m_player option" where
  "u6_set_carrier_mf channel mf s = do {
     s1 \<leftarrow> u6_out_opcell channel True 0x40 mf s;
     ms \<leftarrow> wr (u6_carrier_mf s1) channel mf;
     Some (s1\<lparr>u6_carrier_mf := ms\<rparr>)
   }"

definition u6_set_modulator_mf :: "nat \<Rightarrow> u8 \<Rightarrow> u6m_player \<Rightarrow> u6m_player option" where
  "u6_set_modulator_mf channel mf s = u6_out_opcell channel False 0x40 mf s"

text \<open>The frequency word a slide or the vibrato computes, wrapped once into 16 bits.\<close>

definition u6_wrap_freq :: "int \<Rightarrow> byte_pair" where
  "u6_wrap_freq w0 =
     (let w1 = (if w0 < 0 then w0 + 0x10000 else w0);
          w = (if w1 > 0xFFFF then w1 - 0x10000 else w1)
      in \<lparr>bp_lo = to_u8 w, bp_hi = to_u8 (w div 256)\<rparr>)"

definition u6_freq_slide :: "nat \<Rightarrow> u6m_player \<Rightarrow> u6m_player option" where
  "u6_freq_slide channel s = do {
     fw \<leftarrow> rd (u6_channel_freq s) channel;
     delta \<leftarrow> rd (u6_channel_freq_signed_delta s) channel;
     u6_set_freq channel (u6_wrap_freq (uint (bp_lo fw) + uint (bp_hi fw) * 256 + delta)) s
   }"

definition u6_vibrato :: "nat \<Rightarrow> u6m_player \<Rightarrow> u6m_player option" where
  "u6_vibrato channel s = do {
     cur \<leftarrow> rd (u6_vb_current_value s) channel;
     amp \<leftarrow> rd (u6_vb_double_amplitude s) channel;
     dir0 \<leftarrow> rd (u6_vb_direction_flag s) channel;
     let dir = (if cur \<ge> amp then 1 else if cur \<le> 0 then 0 else dir0);
     dirs \<leftarrow> wr (u6_vb_direction_flag s) channel dir;
     let cur' = (if dir = 0 then cur + 1 else cur - 1);
     curs \<leftarrow> wr (u6_vb_current_value s) channel cur';
     fw \<leftarrow> rd (u6_channel_freq s) channel;
     mult \<leftarrow> rd (u6_vb_multiplier s) channel;
     let w = uint (bp_lo fw) + uint (bp_hi fw) * 256 + (uint cur' - uint (drop_bit 1 amp)) * uint mult;
     Some (u6_set_freq_no_update channel (u6_wrap_freq w)
       (s\<lparr>u6_vb_direction_flag := dirs, u6_vb_current_value := curs\<rparr>))
   }"

definition u6_mf_slide :: "nat \<Rightarrow> u6m_player \<Rightarrow> u6m_player option" where
  "u6_mf_slide channel s = do {
     delay \<leftarrow> rd (u6_carrier_mf_mod_delay s) channel;
     if delay - 1 = 0 then do {
       backup \<leftarrow> rd (u6_carrier_mf_mod_delay_backup s) channel;
       ds \<leftarrow> wr (u6_carrier_mf_mod_delay s) channel backup;
       mf \<leftarrow> rd (u6_carrier_mf s) channel;
       delta \<leftarrow> rd (u6_carrier_mf_signed_delta s) channel;
       let current = uint mf + delta;
       deltas \<leftarrow> wr (u6_carrier_mf_signed_delta s) channel (if current > 0x3F \<or> current < 0 then 0 else delta);
       let current = (if current > 0x3F then 0x3F else if current < 0 then 0 else current);
       u6_set_carrier_mf channel (to_u8 current)
         (s\<lparr>u6_carrier_mf_mod_delay := ds, u6_carrier_mf_signed_delta := deltas\<rparr>)
     } else do {
       ds \<leftarrow> wr (u6_carrier_mf_mod_delay s) channel (delay - 1);
       Some (s\<lparr>u6_carrier_mf_mod_delay := ds\<rparr>)
     }
   }"

section \<open>The commands\<close>

definition u6_command_0 :: "nat \<Rightarrow> u6m_player \<Rightarrow> u6m_player option" where
  "u6_command_0 channel s = do {
     (b, s1) \<leftarrow> u6_read_byte s;
     fw \<leftarrow> u6_expand_freq_byte (to_u8 b);
     if channel < 9 then u6_set_freq channel fw s1 else Some s1
   }"

definition u6_command_1 :: "nat \<Rightarrow> u6m_player \<Rightarrow> u6m_player option" where
  "u6_command_1 channel s = do {
     (b, s1) \<leftarrow> u6_read_byte s;
     fw \<leftarrow> u6_expand_freq_byte (to_u8 b);
     if channel < 9 then do {
       dirs \<leftarrow> wr (u6_vb_direction_flag s1) channel 0;
       curs \<leftarrow> wr (u6_vb_current_value s1) channel 0;
       s2 \<leftarrow> u6_set_freq channel fw (s1\<lparr>u6_vb_direction_flag := dirs, u6_vb_current_value := curs\<rparr>);
       u6_set_freq channel (fw\<lparr>bp_hi := bp_hi fw OR 0x20\<rparr>) s2
     } else Some s1
   }"

definition u6_command_2 :: "nat \<Rightarrow> u6m_player \<Rightarrow> u6m_player option" where
  "u6_command_2 channel s = do {
     (b, s1) \<leftarrow> u6_read_byte s;
     fw \<leftarrow> u6_expand_freq_byte (to_u8 b);
     if channel < 9 then u6_set_freq channel (fw\<lparr>bp_hi := bp_hi fw OR 0x20\<rparr>) s1 else Some s1
   }"

definition u6_command_3 :: "nat \<Rightarrow> u6m_player \<Rightarrow> u6m_player option" where
  "u6_command_3 channel s = do {
     (b, s1) \<leftarrow> u6_read_byte s;
     if channel < 9 then do {
       deltas \<leftarrow> wr (u6_carrier_mf_signed_delta s1) channel 0;
       u6_set_carrier_mf channel (to_u8 b) (s1\<lparr>u6_carrier_mf_signed_delta := deltas\<rparr>)
     } else Some s1
   }"

definition u6_command_4 :: "nat \<Rightarrow> u6m_player \<Rightarrow> u6m_player option" where
  "u6_command_4 channel s = do {
     (b, s1) \<leftarrow> u6_read_byte s;
     if channel < 9 then u6_set_modulator_mf channel (to_u8 b) s1 else Some s1
   }"

definition u6_command_5 :: "nat \<Rightarrow> u6m_player \<Rightarrow> u6m_player option" where
  "u6_command_5 channel s = do {
     (delta, s1) \<leftarrow> u6_read_signed_byte s;
     if channel < 9 then do {
       deltas \<leftarrow> wr (u6_channel_freq_signed_delta s1) channel delta;
       Some (s1\<lparr>u6_channel_freq_signed_delta := deltas\<rparr>)
     } else Some s1
   }"

definition u6_command_6 :: "nat \<Rightarrow> u6m_player \<Rightarrow> u6m_player option" where
  "u6_command_6 channel s = do {
     (b, s1) \<leftarrow> u6_read_byte s;
     let params = to_u8 b;
     if channel < 9 then do {
       amps \<leftarrow> wr (u6_vb_double_amplitude s1) channel (drop_bit 4 params);
       mults \<leftarrow> wr (u6_vb_multiplier s1) channel (params AND 0xF);
       Some (s1\<lparr>u6_vb_double_amplitude := amps, u6_vb_multiplier := mults\<rparr>)
     } else Some s1
   }"

text \<open>The ten operator registers of an instrument, in the order they are written.\<close>

definition u6_opcells :: "(bool \<times> u8) list" where
  "u6_opcells = [(False, 0x20), (False, 0x40), (False, 0x60), (False, 0x80), (False, 0xE0),
                 (True, 0x20), (True, 0x40), (True, 0x60), (True, 0x80), (True, 0xE0)]"

definition u6_command_7 :: "nat \<Rightarrow> u6m_player \<Rightarrow> u6m_player option" where
  "u6_command_7 channel s = do {
     (b, s1) \<leftarrow> u6_read_byte s;
     let number = unat (to_u8 b);
     if channel < 9 \<and> number < 9 then do {
       offset \<leftarrow> rd (u6_instrument_offsets s1) number;
       s2 \<leftarrow> ofold (\<lambda>i s. do {
               (carrier, reg) \<leftarrow> rd u6_opcells i;
               v \<leftarrow> rd (u6_song_data s) (offset + i);
               u6_out_opcell channel carrier reg v s
             }) [0..<10] s1;
       v \<leftarrow> rd (u6_song_data s2) (offset + 10);
       Some (u6_out_adlib (0xC0 + of_nat channel) v s2)
     } else Some s1
   }"

definition u6_command_81 :: "u6m_player \<Rightarrow> u6m_player option" where
  "u6_command_81 s = do {
     (reps, s1) \<leftarrow> u6_read_byte s;
     (lo, s2) \<leftarrow> u6_read_byte s1;
     (hi, s3) \<leftarrow> u6_read_byte s2;
     let start = ulong (int (ulong lo) + hi * 256);
     Some (s3\<lparr>u6_subsong_stack :=
               \<lparr>ss_continue_pos = u6_song_pos s3, ss_start = start, ss_repetitions = reps\<rparr> # u6_subsong_stack s3,
              u6_song_pos := start\<rparr>)
   }"

definition u6_command_82 :: "u6m_player \<Rightarrow> u6m_player option" where
  "u6_command_82 s = do {
     (b, s1) \<leftarrow> u6_read_byte s;
     Some (s1\<lparr>u6_read_delay := b\<rparr>)
   }"

definition u6_command_83 :: "u6m_player \<Rightarrow> u6m_player option" where
  "u6_command_83 s = do {
     (b, s1) \<leftarrow> u6_read_byte s;
     let number = unat (to_u8 b);
     if number < 9 \<and> u6_song_size s1 > 11 \<and> u6_song_pos s1 < u6_song_size s1 - 11 then do {
       offs \<leftarrow> wr (u6_instrument_offsets s1) number (u6_song_pos s1);
       Some (s1\<lparr>u6_instrument_offsets := offs, u6_song_pos := u6_song_pos s1 + 11\<rparr>)
     } else Some s1
   }"

text \<open>Commands 85 and 86 differ in the direction of the slide.\<close>

definition u6_command_slide :: "int \<Rightarrow> u6m_player \<Rightarrow> u6m_player option" where
  "u6_command_slide delta s = do {
     (b, s1) \<leftarrow> u6_read_byte s;
     let data_byte = to_u8 b;
     let channel = unat (drop_bit 4 data_byte);
     let slide_delay = data_byte AND 0xF;
     if channel < 9 then do {
       deltas \<leftarrow> wr (u6_carrier_mf_signed_delta s1) channel delta;
       ds \<leftarrow> wr (u6_carrier_mf_mod_delay s1) channel (slide_delay + 1);
       bs \<leftarrow> wr (u6_carrier_mf_mod_delay_backup s1) channel (slide_delay + 1);
       Some (s1\<lparr>u6_carrier_mf_signed_delta := deltas, u6_carrier_mf_mod_delay := ds,
                u6_carrier_mf_mod_delay_backup := bs\<rparr>)
     } else Some s1
   }"

definition u6_command_E :: "u6m_player \<Rightarrow> u6m_player option" where
  "u6_command_E s = Some (s\<lparr>u6_loop_position := u6_song_pos s\<rparr>)"

definition u6_command_F :: "u6m_player \<Rightarrow> u6m_player option" where
  "u6_command_F s =
     (case u6_subsong_stack s of
        t # ts \<Rightarrow>
          let reps = int32 (ss_repetitions t - 1)
          in if reps = 0 then Some (s\<lparr>u6_subsong_stack := ts, u6_song_pos := ss_continue_pos t\<rparr>)
             else Some (s\<lparr>u6_subsong_stack := t\<lparr>ss_repetitions := reps\<rparr> # ts, u6_song_pos := ss_start t\<rparr>)
      | [] \<Rightarrow> Some (s\<lparr>u6_song_pos := u6_loop_position s, u6_songend := True\<rparr>))"

section \<open>The interpreter\<close>

definition u6_dispatch :: "int \<Rightarrow> nat \<Rightarrow> u6m_player \<Rightarrow> (bool \<times> u6m_player) option" where
  "u6_dispatch hi lo s =
     (let go = map_option (\<lambda>s'. (True, s'))
      in if hi = 0x0 then go (u6_command_0 lo s)
         else if hi = 0x1 then go (u6_command_1 lo s)
         else if hi = 0x2 then go (u6_command_2 lo s)
         else if hi = 0x3 then go (u6_command_3 lo s)
         else if hi = 0x4 then go (u6_command_4 lo s)
         else if hi = 0x5 then go (u6_command_5 lo s)
         else if hi = 0x6 then go (u6_command_6 lo s)
         else if hi = 0x7 then go (u6_command_7 lo s)
         else if hi = 0x8 then
           (if lo = 1 then go (u6_command_81 s)
            else if lo = 2 then map_option (\<lambda>s'. (False, s')) (u6_command_82 s)
            else if lo = 3 then go (u6_command_83 s)
            else if lo = 5 then go (u6_command_slide 1 s)
            else if lo = 6 then go (u6_command_slide (-1) s)
            else Some (True, s))
         else if hi = 0xE then go (u6_command_E s)
         else if hi = 0xF then go (u6_command_F s)
         else Some (True, s))"

text \<open>One round of \<open>command_loop\<close>: whether to go on, and the state.\<close>

definition u6_command :: "u6m_player \<Rightarrow> (bool \<times> u6m_player) option" where
  "u6_command s = do {
     (b, s1) \<leftarrow> u6_read_byte s;
     if b < 0 then Some (False, s1\<lparr>u6_songend := True\<rparr>)
     else u6_dispatch (b div 16) (nat (b mod 16)) s1
   }"

partial_function (option) u6_command_loop :: "u6m_player \<Rightarrow> u6m_player option" where
  "u6_command_loop s = do {
     (go, s1) \<leftarrow> u6_command s;
     if go then u6_command_loop s1 else Some s1
   }"

definition u6_channel_tick :: "nat \<Rightarrow> u6m_player \<Rightarrow> u6m_player option" where
  "u6_channel_tick i s = do {
     freq_delta \<leftarrow> rd (u6_channel_freq_signed_delta s) i;
     if freq_delta \<noteq> 0 then do {
       s1 \<leftarrow> u6_freq_slide i s;
       mf_delta \<leftarrow> rd (u6_carrier_mf_signed_delta s1) i;
       if mf_delta \<noteq> 0 then u6_mf_slide i s1 else Some s1
     } else do {
       mult \<leftarrow> rd (u6_vb_multiplier s) i;
       fw \<leftarrow> rd (u6_channel_freq s) i;
       s1 \<leftarrow> (if mult \<noteq> 0 \<and> bp_hi fw AND 0x20 = 0x20 then u6_vibrato i s else Some s);
       mf_delta \<leftarrow> rd (u6_carrier_mf_signed_delta s1) i;
       if mf_delta \<noteq> 0 then u6_mf_slide i s1 else Some s1
     }
   }"

definition u6_update :: "u6m_player \<Rightarrow> (bool \<times> u6m_player) option" where
  "u6_update s =
     (if \<not> u6_driver_active s then do {
        let s1 = s\<lparr>u6_driver_active := True, u6_read_delay := u6_dec_clip (u6_read_delay s)\<rparr>;
        s2 \<leftarrow> (if u6_read_delay s1 = 0 then u6_command_loop s1 else Some s1);
        s3 \<leftarrow> ofold u6_channel_tick [0..<9] s2;
        let s4 = s3\<lparr>u6_driver_active := False\<rparr>;
        Some (\<not> u6_songend s4, s4)
      } else Some (\<not> u6_songend s, s))"

definition u6_rewind :: "int \<Rightarrow> u6m_player \<Rightarrow> u6m_player option" where
  "u6_rewind subsong s =
     Some (u6_out_adlib 1 32 (opl_init
       (s\<lparr>u6_songend := False, u6_driver_active := False, u6_song_pos := 0, u6_loop_position := 0,
          u6_read_delay := 0, u6_subsong_stack := [],
          u6_vb_current_value := replicate 9 0, u6_vb_double_amplitude := replicate 9 0,
          u6_vb_multiplier := replicate 9 0, u6_vb_direction_flag := replicate 9 0,
          u6_carrier_mf := replicate 9 0, u6_carrier_mf_signed_delta := replicate 9 0,
          u6_carrier_mf_mod_delay_backup := replicate 9 0, u6_carrier_mf_mod_delay := replicate 9 0,
          u6_channel_freq := replicate 9 \<lparr>bp_lo = 0, bp_hi = 0\<rparr>,
          u6_channel_freq_signed_delta := replicate 9 0\<rparr>)))"

section \<open>Loading\<close>

text \<open>The check of the pseudo-header: the size of the decompressed song, if it may be one.\<close>

definition u6_header :: "bytes \<Rightarrow> nat \<Rightarrow> nat option option" where
  "u6_header h filesize = do {
     h0 \<leftarrow> rd h 0; h1 \<leftarrow> rd h 1; h2 \<leftarrow> rd h 2; h3 \<leftarrow> rd h 3; h4 \<leftarrow> rd h 4; h5 \<leftarrow> rd h 5;
     let decompressed_filesize = unat h0 + unat h1 * 256;
     Some (if h2 = 0 \<and> h3 = 0 \<and> unat h4 + unat (h5 AND 1) * 256 = 0x100 \<and>
              decompressed_filesize > filesize - 4
           then Some decompressed_filesize else None)
   }"

text \<open>
  Reading an open file: nothing if it is rejected, else the size of the song and the compressed data.
\<close>

definition u6_read_file ::
  "('s, 'fl) binio \<Rightarrow> (nat \<Rightarrow> u8) \<Rightarrow> 's \<Rightarrow> (nat \<times> data_block) option option" where
  "u6_read_file io mem f =
     (let (filesize, f1) = fp_filesize io f
      in if filesize \<ge> 6 then do {
           let (_, h, f2) = bio_readString io 6 (fresh mem 6) f1;
           hdr \<leftarrow> u6_header h filesize;
           Some (case hdr of
              None \<Rightarrow> None
            | Some dsize \<Rightarrow>
                (let (_, compressed, f4) =
                   bio_readString io (filesize - 4) (fresh mem (filesize - 3)) (bio_seekSet io 4 f2)
                 in Some (dsize, \<lparr>blk_size = filesize - 4, blk_data = compressed\<rparr>)))
         } else Some None)"

definition u6_load ::
  "('s, 'fl) binio \<Rightarrow> 's opener \<Rightarrow> (nat \<Rightarrow> u8) \<Rightarrow> (nat \<Rightarrow> dict_entry) \<Rightarrow> string \<Rightarrow> u6m_player \<Rightarrow>
   (bool \<times> u6m_player) option"
where
  "u6_load io opn mem dmem filename s =
     (case opn filename of None \<Rightarrow> Some (False, s) | Some f \<Rightarrow> do {
        r \<leftarrow> u6_read_file io mem f;
        (case r of
           None \<Rightarrow> Some (False, s)
         | Some (dsize, src) \<Rightarrow> do {
             (ok, song) \<leftarrow> lzw_decompress dmem src \<lparr>blk_size = dsize, blk_data = fresh mem dsize\<rparr>;
             let s1 = s\<lparr>u6_song_data := song, u6_song_size := 0\<rparr>;
             if \<not> ok then Some (False, s1)
             else do {
               s2 \<leftarrow> u6_rewind 0 (s1\<lparr>u6_song_size := dsize\<rparr>);
               Some (True, s2)
             }
           })
      })"

section \<open>Well-formed players\<close>

definition u6_arrays :: "u6m_player \<Rightarrow> bool" where
  "u6_arrays s \<longleftrightarrow>
     length (u6_vb_current_value s) = 9 \<and> length (u6_vb_double_amplitude s) = 9 \<and>
     length (u6_vb_multiplier s) = 9 \<and> length (u6_vb_direction_flag s) = 9 \<and>
     length (u6_carrier_mf s) = 9 \<and> length (u6_carrier_mf_signed_delta s) = 9 \<and>
     length (u6_carrier_mf_mod_delay_backup s) = 9 \<and> length (u6_carrier_mf_mod_delay s) = 9 \<and>
     length (u6_channel_freq s) = 9 \<and> length (u6_channel_freq_signed_delta s) = 9"

definition u6_song_ok :: "u6m_player \<Rightarrow> bool" where
  "u6_song_ok s \<longleftrightarrow>
     u6_song_size s = length (u6_song_data s) \<and> length (u6_instrument_offsets s) = 9 \<and>
     (\<forall>off \<in> set (u6_instrument_offsets s). off + 11 \<le> u6_song_size s)"

definition u6_ok :: "u6m_player \<Rightarrow> bool" where
  "u6_ok s \<longleftrightarrow> u6_arrays s \<and> u6_song_ok s"

text \<open>What all commands but branches keep: the song, and a position that only moves forward.\<close>

definition u6_keep :: "u6m_player \<Rightarrow> u6m_player \<Rightarrow> bool" where
  "u6_keep s s' \<longleftrightarrow>
     u6_ok s' \<and> u6_song_data s' = u6_song_data s \<and> u6_song_size s' = u6_song_size s \<and>
     u6_song_pos s \<le> u6_song_pos s'"

lemma u6_keep_refl: "u6_ok s \<Longrightarrow> u6_keep s s"
  by (simp add: u6_keep_def)

lemma u6_keep_trans: "u6_keep s t \<Longrightarrow> u6_keep t u \<Longrightarrow> u6_keep s u"
  by (auto simp: u6_keep_def)

text \<open>Updates of one channel's entry keep the arrays.\<close>

lemmas u6_defs = u6_keep_def u6_ok_def u6_arrays_def u6_song_ok_def

lemma u6_read_byte_ok:
  assumes "u6_ok s"
  obtains b s1 where "u6_read_byte s = Some (b, s1)" "u6_keep s s1" "-1 \<le> b" "b < 256"
    "b = -1 \<longleftrightarrow> u6_song_size s \<le> u6_song_pos s" "b \<ge> 0 \<Longrightarrow> u6_song_pos s < u6_song_pos s1"
    "b \<ge> 0 \<Longrightarrow> u6_song_pos s < u6_song_size s"
proof (cases "u6_song_pos s < u6_song_size s")
  case True
  then have r: "rd (u6_song_data s) (u6_song_pos s) = Some (u6_song_data s ! u6_song_pos s)"
    using assms by (simp add: u6_ok_def u6_song_ok_def rd_def)
  let ?b = "uint (u6_song_data s ! u6_song_pos s)"
  have "-1 \<le> ?b" "?b \<noteq> -1" "?b < 256" using uint_u8_bounds [of "u6_song_data s ! u6_song_pos s"] by linarith+
  then show ?thesis
    using True assms r
    by (intro that [of "uint (u6_song_data s ! u6_song_pos s)" "s\<lparr>u6_song_pos := u6_song_pos s + 1\<rparr>"])
       (auto simp: u6_read_byte_def u6_defs)
next
  case False
  then show ?thesis
    using assms by (intro that [of "-1" s]) (auto simp: u6_read_byte_def u6_keep_refl)
qed

lemma u6_out_adlib_ok: "u6_ok s \<Longrightarrow> u6_keep s (u6_out_adlib reg val s)"
  by (auto simp: u6_defs u6_out_adlib_def opl_write_def)

lemma u6_out_opcell_ok:
  assumes "u6_ok s" "channel < 9"
  shows "\<exists>s'. u6_out_opcell channel carrier reg out s = Some s' \<and> u6_keep s s'"
proof -
  have "channel < length (if carrier then u6_carrier_offset else u6_modulator_offset)"
    using assms(2) by (simp add: u6_carrier_offset_def u6_modulator_offset_def)
  then show ?thesis using u6_out_adlib_ok [OF assms(1)] by (simp add: u6_out_opcell_def rd_Some)
qed

lemma u6_set_freq_ok:
  assumes "u6_ok s" "channel < 9"
  shows "u6_keep s (u6_set_freq_no_update channel fw s)"
    and "\<exists>s'. u6_set_freq channel fw s = Some s' \<and> u6_keep s s'"
  using assms
  by (auto simp: u6_defs u6_set_freq_def u6_set_freq_no_update_def u6_out_adlib_def opl_write_def wr_Some)

lemma u6_expand_ok: "\<exists>fw. u6_expand_freq_byte b = Some fw"
proof -
  have "length u6_freq_table = 24" by (simp add: u6_freq_table_def)
  then show ?thesis by (auto simp: u6_expand_freq_byte_def Let_def rd_def split: prod.splits)
qed

lemma u6_set_carrier_mf_ok:
  assumes "u6_ok s" "channel < 9"
  shows "\<exists>s'. u6_set_carrier_mf channel mf s = Some s' \<and> u6_keep s s'"
proof -
  obtain s1 where s1: "u6_out_opcell channel True 0x40 mf s = Some s1" "u6_keep s s1"
    using u6_out_opcell_ok [OF assms] by blast
  then show ?thesis using assms(2) by (auto simp: u6_set_carrier_mf_def wr_Some u6_defs)
qed

section \<open>No command leaves the arrays\<close>

definition u6_cmd_ok :: "(u6m_player \<Rightarrow> u6m_player option) \<Rightarrow> bool" where
  "u6_cmd_ok cmd \<longleftrightarrow> (\<forall>s. u6_ok s \<longrightarrow> (\<exists>s'. cmd s = Some s' \<and> u6_keep s s'))"

lemma u6_cmd_okI: "(\<And>s. u6_ok s \<Longrightarrow> \<exists>s'. cmd s = Some s' \<and> u6_keep s s') \<Longrightarrow> u6_cmd_ok cmd"
  by (simp add: u6_cmd_ok_def)

text \<open>A command that reads its operand and goes on with a step that keeps the player.\<close>

lemma u6_operand:
  assumes "u6_ok s" and "\<And>b s1. u6_read_byte s = Some (b, s1) \<Longrightarrow> u6_ok s1 \<Longrightarrow> \<exists>s'. k b s1 = Some s' \<and> u6_keep s1 s'"
  shows "\<exists>s'. do { (b, s1) \<leftarrow> u6_read_byte s; k b s1 } = Some s' \<and> u6_keep s s'"
proof -
  obtain b s1 where b: "u6_read_byte s = Some (b, s1)" "u6_keep s s1"
    using u6_read_byte_ok [OF assms(1)] .
  then have "u6_ok s1" by (simp add: u6_keep_def)
  from assms(2) [OF b(1) this] b show ?thesis using u6_keep_trans by auto
qed

lemma u6_command_0_ok: "u6_cmd_ok (u6_command_0 channel)"
proof (rule u6_cmd_okI)
  fix s assume "u6_ok s"
  then show "\<exists>s'. u6_command_0 channel s = Some s' \<and> u6_keep s s'"
    unfolding u6_command_0_def
  proof (rule u6_operand)
    fix b s1 assume "u6_ok s1"
    obtain fw where "u6_expand_freq_byte (to_u8 b) = Some fw" using u6_expand_ok by blast
    then show "\<exists>s'. do { fw \<leftarrow> u6_expand_freq_byte (to_u8 b);
        if channel < 9 then u6_set_freq channel fw s1 else Some s1 } = Some s' \<and> u6_keep s1 s'"
      using \<open>u6_ok s1\<close> u6_set_freq_ok(2) [of s1 channel fw] u6_keep_refl by auto
  qed
qed

lemma u6_command_2_ok: "u6_cmd_ok (u6_command_2 channel)"
proof (rule u6_cmd_okI)
  fix s assume "u6_ok s"
  then show "\<exists>s'. u6_command_2 channel s = Some s' \<and> u6_keep s s'"
    unfolding u6_command_2_def
  proof (rule u6_operand)
    fix b s1 assume "u6_ok s1"
    obtain fw where "u6_expand_freq_byte (to_u8 b) = Some fw" using u6_expand_ok by blast
    then show "\<exists>s'. do { fw \<leftarrow> u6_expand_freq_byte (to_u8 b);
        if channel < 9 then u6_set_freq channel (fw\<lparr>bp_hi := bp_hi fw OR 0x20\<rparr>) s1 else Some s1 } = Some s' \<and>
        u6_keep s1 s'"
      using \<open>u6_ok s1\<close> u6_set_freq_ok(2) [of s1 channel "fw\<lparr>bp_hi := bp_hi fw OR 0x20\<rparr>"] u6_keep_refl by auto
  qed
qed

lemma u6_command_1_ok: "u6_cmd_ok (u6_command_1 channel)"
proof (rule u6_cmd_okI)
  fix s assume "u6_ok s"
  then show "\<exists>s'. u6_command_1 channel s = Some s' \<and> u6_keep s s'"
    unfolding u6_command_1_def
  proof (rule u6_operand)
    fix b s1 assume s1: "u6_ok s1"
    obtain fw where fw: "u6_expand_freq_byte (to_u8 b) = Some fw" using u6_expand_ok by blast
    show "\<exists>s'. do { fw \<leftarrow> u6_expand_freq_byte (to_u8 b);
        if channel < 9 then do {
          dirs \<leftarrow> wr (u6_vb_direction_flag s1) channel 0;
          curs \<leftarrow> wr (u6_vb_current_value s1) channel 0;
          s2 \<leftarrow> u6_set_freq channel fw (s1\<lparr>u6_vb_direction_flag := dirs, u6_vb_current_value := curs\<rparr>);
          u6_set_freq channel (fw\<lparr>bp_hi := bp_hi fw OR 0x20\<rparr>) s2
        } else Some s1 } = Some s' \<and> u6_keep s1 s'"
    proof (cases "channel < 9")
      case True
      let ?t = "s1\<lparr>u6_vb_direction_flag := (u6_vb_direction_flag s1)[channel := 0],
                  u6_vb_current_value := (u6_vb_current_value s1)[channel := 0]\<rparr>"
      have t: "u6_ok ?t" "u6_keep s1 ?t" using s1 by (auto simp: u6_defs)
      obtain s2 where s2: "u6_set_freq channel fw ?t = Some s2" "u6_keep ?t s2"
        using u6_set_freq_ok(2) [OF t(1) True] by blast
      then have "u6_ok s2" by (simp add: u6_keep_def)
      from u6_set_freq_ok(2) [OF this True] obtain s3 where
        s3: "u6_set_freq channel (fw\<lparr>bp_hi := bp_hi fw OR 0x20\<rparr>) s2 = Some s3" "u6_keep s2 s3" by blast
      have "u6_keep s1 s3" by (rule u6_keep_trans [OF u6_keep_trans [OF t(2) s2(2)] s3(2)])
      moreover have "wr (u6_vb_direction_flag s1) channel 0 = Some ((u6_vb_direction_flag s1)[channel := 0])"
        "wr (u6_vb_current_value s1) channel 0 = Some ((u6_vb_current_value s1)[channel := 0])"
        using s1 True by (simp_all add: u6_defs wr_Some)
      ultimately show ?thesis
        using fw True s2(1) s3(1) by simp
    qed (use fw s1 u6_keep_refl in simp)
  qed
qed

lemma u6_command_3_ok: "u6_cmd_ok (u6_command_3 channel)"
proof (rule u6_cmd_okI)
  fix s assume "u6_ok s"
  then show "\<exists>s'. u6_command_3 channel s = Some s' \<and> u6_keep s s'"
    unfolding u6_command_3_def
  proof (rule u6_operand)
    fix b s1 assume s1: "u6_ok s1"
    let ?t = "s1\<lparr>u6_carrier_mf_signed_delta := (u6_carrier_mf_signed_delta s1)[channel := 0]\<rparr>"
    have t: "u6_ok ?t" "u6_keep s1 ?t" using s1 by (auto simp: u6_defs)
    have "wr (u6_carrier_mf_signed_delta s1) channel 0 = Some ((u6_carrier_mf_signed_delta s1)[channel := 0])"
      if "channel < 9" using s1 that by (simp add: u6_defs wr_Some)
    then show "\<exists>s'. (if channel < 9 then do {
        deltas \<leftarrow> wr (u6_carrier_mf_signed_delta s1) channel 0;
        u6_set_carrier_mf channel (to_u8 b) (s1\<lparr>u6_carrier_mf_signed_delta := deltas\<rparr>)
      } else Some s1) = Some s' \<and> u6_keep s1 s'"
      using u6_set_carrier_mf_ok [OF t(1), of channel "to_u8 b"] u6_keep_trans [OF t(2)] u6_keep_refl [OF s1]
      by (cases "channel < 9") (simp, blast, simp)
  qed
qed

lemma u6_command_4_ok: "u6_cmd_ok (u6_command_4 channel)"
proof (rule u6_cmd_okI)
  fix s assume "u6_ok s"
  then show "\<exists>s'. u6_command_4 channel s = Some s' \<and> u6_keep s s'"
    unfolding u6_command_4_def
  proof (rule u6_operand)
    fix b s1 assume "u6_ok s1"
    then show "\<exists>s'. (if channel < 9 then u6_set_modulator_mf channel (to_u8 b) s1 else Some s1) = Some s' \<and>
        u6_keep s1 s'"
      using u6_out_opcell_ok [of s1 channel] u6_keep_refl by (simp add: u6_set_modulator_mf_def)
  qed
qed

lemma u6_command_5_ok: "u6_cmd_ok (u6_command_5 channel)"
proof (rule u6_cmd_okI)
  fix s assume "u6_ok s"
  then obtain b s1 where "u6_read_byte s = Some (b, s1)" "u6_keep s s1" using u6_read_byte_ok by blast
  then show "\<exists>s'. u6_command_5 channel s = Some s' \<and> u6_keep s s'"
    by (auto simp: u6_command_5_def u6_read_signed_byte_def u6_defs wr_Some)
qed

lemma u6_command_6_ok: "u6_cmd_ok (u6_command_6 channel)"
proof (rule u6_cmd_okI)
  fix s assume "u6_ok s"
  then obtain b s1 where "u6_read_byte s = Some (b, s1)" "u6_keep s s1" using u6_read_byte_ok by blast
  then show "\<exists>s'. u6_command_6 channel s = Some s' \<and> u6_keep s s'"
    by (auto simp: u6_command_6_def u6_defs wr_Some Let_def)
qed

lemma u6_command_82_ok: "u6_cmd_ok u6_command_82"
proof (rule u6_cmd_okI)
  fix s assume "u6_ok s"
  then obtain b s1 where "u6_read_byte s = Some (b, s1)" "u6_keep s s1" using u6_read_byte_ok by blast
  then show "\<exists>s'. u6_command_82 s = Some s' \<and> u6_keep s s'"
    by (auto simp: u6_command_82_def u6_defs)
qed

lemma u6_command_slide_ok: "u6_cmd_ok (u6_command_slide delta)"
proof (rule u6_cmd_okI)
  fix s assume "u6_ok s"
  then obtain b s1 where "u6_read_byte s = Some (b, s1)" "u6_keep s s1" using u6_read_byte_ok by blast
  then show "\<exists>s'. u6_command_slide delta s = Some s' \<and> u6_keep s s'"
    by (auto simp: u6_command_slide_def u6_defs wr_Some Let_def)
qed

lemma u6_command_83_ok: "u6_cmd_ok u6_command_83"
proof (rule u6_cmd_okI)
  fix s assume "u6_ok s"
  then show "\<exists>s'. u6_command_83 s = Some s' \<and> u6_keep s s'"
    unfolding u6_command_83_def
  proof (rule u6_operand)
    fix b s1 assume s1: "u6_ok s1"
    let ?n = "unat (to_u8 b)"
    show "\<exists>s'. (let number = ?n in
        if number < 9 \<and> u6_song_size s1 > 11 \<and> u6_song_pos s1 < u6_song_size s1 - 11 then do {
          offs \<leftarrow> wr (u6_instrument_offsets s1) number (u6_song_pos s1);
          Some (s1\<lparr>u6_instrument_offsets := offs, u6_song_pos := u6_song_pos s1 + 11\<rparr>)
        } else Some s1) = Some s' \<and> u6_keep s1 s'"
    proof (cases "?n < 9 \<and> u6_song_size s1 > 11 \<and> u6_song_pos s1 < u6_song_size s1 - 11")
      case True
      then show ?thesis
        using s1 by (auto simp: u6_defs wr_Some Let_def dest!: set_update_subset_insert [THEN subsetD])
    qed (use u6_keep_refl [OF s1] in \<open>auto simp: Let_def\<close>)
  qed
qed

lemma u6_command_7_ok: "u6_cmd_ok (u6_command_7 channel)"
proof (rule u6_cmd_okI)
  fix s assume "u6_ok s"
  then show "\<exists>s'. u6_command_7 channel s = Some s' \<and> u6_keep s s'"
    unfolding u6_command_7_def Let_def
  proof (rule u6_operand)
    fix b s1 assume s1: "u6_ok s1"
    let ?n = "unat (to_u8 b)"
    let ?f = "\<lambda>off i t. do { (carrier, reg) \<leftarrow> rd u6_opcells i; v \<leftarrow> rd (u6_song_data t) (off + i);
        u6_out_opcell channel carrier reg v t }"
    show "\<exists>s'. (if channel < 9 \<and> ?n < 9 then do {
        offset \<leftarrow> rd (u6_instrument_offsets s1) ?n;
        s2 \<leftarrow> ofold (?f offset) [0..<10] s1;
        v \<leftarrow> rd (u6_song_data s2) (offset + 10);
        Some (u6_out_adlib (0xC0 + of_nat channel) v s2) } else Some s1) = Some s' \<and> u6_keep s1 s'"
    proof (cases "channel < 9 \<and> ?n < 9")
      case True
      let ?off = "u6_instrument_offsets s1 ! ?n"
      have off: "rd (u6_instrument_offsets s1) ?n = Some ?off" "?off + 11 \<le> length (u6_song_data s1)"
        using True s1 nth_mem [of ?n "u6_instrument_offsets s1"]
        by (auto simp: u6_ok_def u6_song_ok_def rd_def)
      have one: "\<exists>t'. ?f ?off i t = Some t' \<and> u6_keep s1 t'" if i: "i \<in> set [0..<10]" and t: "u6_keep s1 t" for i t
      proof -
        have ok: "u6_ok t" and data: "u6_song_data t = u6_song_data s1" using t by (simp_all add: u6_keep_def)
        have "i < length u6_opcells" using i by (simp add: u6_opcells_def)
        moreover have "?off + i < length (u6_song_data t)" using off(2) i data by simp
        ultimately show ?thesis
          using u6_out_opcell_ok [OF ok] True u6_keep_trans [OF t]
          by (auto simp: rd_Some split: prod.splits) blast
      qed
      obtain s2 where s2: "ofold (?f ?off) [0..<10] s1 = Some s2" "u6_keep s1 s2"
        using ofold_invariant [of "u6_keep s1" s1 "[0..<10]" "?f ?off"] one u6_keep_refl [OF s1] by blast
      have "rd (u6_song_data s2) (?off + 10) = Some (u6_song_data s2 ! (?off + 10))"
        using off(2) s2(2) by (simp add: rd_def u6_keep_def)
      moreover have "u6_ok s2" using s2(2) by (simp add: u6_keep_def)
      ultimately show ?thesis
        using True off(1) s2 u6_out_adlib_ok u6_keep_trans by (auto simp del: upt.simps)
    qed (use u6_keep_refl [OF s1] in auto)
  qed
qed

section \<open>The slides and the vibrato\<close>

lemma u6_freq_slide_ok: "i < 9 \<Longrightarrow> u6_cmd_ok (u6_freq_slide i)"
  using u6_set_freq_ok(2)
  by (intro u6_cmd_okI) (simp add: u6_freq_slide_def rd_Some u6_ok_def u6_arrays_def)

lemma u6_vibrato_ok:
  assumes i: "i < 9"
  shows "u6_cmd_ok (u6_vibrato i)"
proof (rule u6_cmd_okI)
  fix s assume s: "u6_ok s"
  have "u6_keep s (s\<lparr>u6_vb_direction_flag := (u6_vb_direction_flag s)[i := d],
      u6_vb_current_value := (u6_vb_current_value s)[i := c]\<rparr>)" for c d
    using s by (auto simp: u6_defs)
  moreover from this have "u6_ok (s\<lparr>u6_vb_direction_flag := (u6_vb_direction_flag s)[i := d],
      u6_vb_current_value := (u6_vb_current_value s)[i := c]\<rparr>)" for c d
    by (simp add: u6_keep_def)
  ultimately have keep: "u6_keep s (u6_set_freq_no_update i fw (s\<lparr>u6_vb_direction_flag := (u6_vb_direction_flag s)[i := d],
      u6_vb_current_value := (u6_vb_current_value s)[i := c]\<rparr>))" for c d fw
    using u6_set_freq_ok(1) [OF _ i] u6_keep_trans by blast
  have len: "length (u6_vb_current_value s) = 9" "length (u6_vb_double_amplitude s) = 9"
    "length (u6_vb_multiplier s) = 9" "length (u6_vb_direction_flag s) = 9" "length (u6_channel_freq s) = 9"
    using s by (simp_all add: u6_ok_def u6_arrays_def)
  show "\<exists>s'. u6_vibrato i s = Some s' \<and> u6_keep s s'"
    using keep i len by (simp add: u6_vibrato_def Let_def rd_Some wr_Some)
qed

lemma u6_mf_slide_ok:
  assumes i: "i < 9"
  shows "u6_cmd_ok (u6_mf_slide i)"
proof (rule u6_cmd_okI)
  fix s assume s: "u6_ok s"
  have len: "length (u6_carrier_mf s) = 9" "length (u6_carrier_mf_signed_delta s) = 9"
    "length (u6_carrier_mf_mod_delay_backup s) = 9" "length (u6_carrier_mf_mod_delay s) = 9"
    using s by (simp_all add: u6_ok_def u6_arrays_def)
  let ?t = "\<lambda>d e. s\<lparr>u6_carrier_mf_mod_delay := (u6_carrier_mf_mod_delay s)[i := d],
      u6_carrier_mf_signed_delta := (u6_carrier_mf_signed_delta s)[i := e]\<rparr>"
  have t: "u6_keep s (?t d e)" "u6_ok (?t d e)" for d e using s by (auto simp: u6_defs)
  have set: "\<exists>s'. u6_set_carrier_mf i mf (?t d e) = Some s' \<and> u6_keep s s'" for d e mf
    using u6_set_carrier_mf_ok [OF t(2) i] t(1) u6_keep_trans by blast
  have "u6_keep s (s\<lparr>u6_carrier_mf_mod_delay := (u6_carrier_mf_mod_delay s)[i := d]\<rparr>)" for d
    using s by (auto simp: u6_defs)
  then show "\<exists>s'. u6_mf_slide i s = Some s' \<and> u6_keep s s'"
    using set i len by (simp add: u6_mf_slide_def Let_def rd_Some wr_Some)
qed

lemma u6_cmd_then: "u6_cmd_ok f \<Longrightarrow> u6_ok s \<Longrightarrow> \<exists>s'. f s = Some s' \<and> u6_keep s s' \<and> u6_ok s'"
  by (auto simp: u6_cmd_ok_def u6_keep_def)

lemma u6_channel_tick_ok:
  assumes i: "i < 9"
  shows "u6_cmd_ok (u6_channel_tick i)"
proof (rule u6_cmd_okI)
  fix s assume s: "u6_ok s"
  have delta: "\<exists>d. rd (u6_carrier_mf_signed_delta t) i = Some d" if "u6_ok t" for t
    using that i by (simp add: u6_ok_def u6_arrays_def rd_def)
  have tail: "\<exists>s'. do { d \<leftarrow> rd (u6_carrier_mf_signed_delta t) i; if d \<noteq> 0 then u6_mf_slide i t else Some t } =
      Some s' \<and> u6_keep s s'" if t: "u6_keep s t" for t
  proof -
    have ok: "u6_ok t" using t by (simp add: u6_keep_def)
    obtain t' where "u6_mf_slide i t = Some t'" "u6_keep t t'" using u6_cmd_then [OF u6_mf_slide_ok [OF i] ok] by blast
    then show ?thesis using delta [OF ok] t u6_keep_trans [OF t] by auto
  qed
  obtain s1 where s1: "u6_freq_slide i s = Some s1" "u6_keep s s1"
    using u6_cmd_then [OF u6_freq_slide_ok [OF i] s] by blast
  obtain s2 where s2: "u6_vibrato i s = Some s2" "u6_keep s s2"
    using u6_cmd_then [OF u6_vibrato_ok [OF i] s] by blast
  have rds: "rd (u6_channel_freq_signed_delta s) i = Some (u6_channel_freq_signed_delta s ! i)"
    "rd (u6_vb_multiplier s) i = Some (u6_vb_multiplier s ! i)"
    "rd (u6_channel_freq s) i = Some (u6_channel_freq s ! i)"
    using s i by (simp_all add: u6_ok_def u6_arrays_def rd_def)
  show "\<exists>s'. u6_channel_tick i s = Some s' \<and> u6_keep s s'"
    using tail [OF s1(2)] tail [OF s2(2)] tail [OF u6_keep_refl [OF s]] s1(1) s2(1)
    by (simp add: u6_channel_tick_def rds)
qed

section \<open>The command loop\<close>

text \<open>The next command is a branch to a subsong, a return or a loop.\<close>

definition u6_at_branch :: "u6m_player \<Rightarrow> bool" where
  "u6_at_branch s \<longleftrightarrow> u6_song_pos s < u6_song_size s \<and>
     (u6_song_data s ! u6_song_pos s = 0x81 \<or> u6_song_data s ! u6_song_pos s \<ge> 0xF0)"

inductive u6_reach :: "u6m_player \<Rightarrow> u6m_player \<Rightarrow> bool" for s0 where
  u6_reach_start: "u6_reach s0 s0"
| u6_reach_step: "u6_reach s0 s \<Longrightarrow> u6_command s = Some (True, s') \<Longrightarrow> u6_reach s0 s'"

lemma u6_command_E_ok: "u6_cmd_ok u6_command_E"
  by (rule u6_cmd_okI) (auto simp: u6_command_E_def u6_defs)

lemma u6_skip_ok: "u6_cmd_ok Some"
  by (rule u6_cmd_okI) (simp add: u6_keep_refl)

lemma u6_dispatch_cases:
  assumes nb: "hi \<noteq> 0xF" "\<not> (hi = 8 \<and> lo = 1)"
  shows "\<exists>f b. u6_cmd_ok f \<and> u6_dispatch hi lo s = map_option (\<lambda>s'. (b, s')) (f s)"
proof -
  consider "hi = 0" | "hi = 1" | "hi = 2" | "hi = 3" | "hi = 4" | "hi = 5" | "hi = 6" | "hi = 7"
    | "hi = 8 \<and> lo = 2" | "hi = 8 \<and> lo = 3" | "hi = 8 \<and> lo = 5" | "hi = 8 \<and> lo = 6"
    | "hi = 8 \<and> lo \<notin> {1, 2, 3, 5, 6}" | "hi = 0xE" | "hi \<notin> {0, 1, 2, 3, 4, 5, 6, 7, 8, 0xE, 0xF}"
    using nb by auto
  then show ?thesis
  proof cases
    case 1 then show ?thesis by (intro exI [of _ "u6_command_0 lo"] exI [of _ True]) (simp add: u6_dispatch_def u6_command_0_ok)
  next
    case 2 then show ?thesis by (intro exI [of _ "u6_command_1 lo"] exI [of _ True]) (simp add: u6_dispatch_def u6_command_1_ok)
  next
    case 3 then show ?thesis by (intro exI [of _ "u6_command_2 lo"] exI [of _ True]) (simp add: u6_dispatch_def u6_command_2_ok)
  next
    case 4 then show ?thesis by (intro exI [of _ "u6_command_3 lo"] exI [of _ True]) (simp add: u6_dispatch_def u6_command_3_ok)
  next
    case 5 then show ?thesis by (intro exI [of _ "u6_command_4 lo"] exI [of _ True]) (simp add: u6_dispatch_def u6_command_4_ok)
  next
    case 6 then show ?thesis by (intro exI [of _ "u6_command_5 lo"] exI [of _ True]) (simp add: u6_dispatch_def u6_command_5_ok)
  next
    case 7 then show ?thesis by (intro exI [of _ "u6_command_6 lo"] exI [of _ True]) (simp add: u6_dispatch_def u6_command_6_ok)
  next
    case 8 then show ?thesis by (intro exI [of _ "u6_command_7 lo"] exI [of _ True]) (simp add: u6_dispatch_def u6_command_7_ok)
  next
    case 9 then show ?thesis by (intro exI [of _ "u6_command_82"] exI [of _ False]) (simp add: u6_dispatch_def u6_command_82_ok)
  next
    case 10 then show ?thesis by (intro exI [of _ "u6_command_83"] exI [of _ True]) (simp add: u6_dispatch_def u6_command_83_ok)
  next
    case 11 then show ?thesis by (intro exI [of _ "u6_command_slide 1"] exI [of _ True]) (simp add: u6_dispatch_def u6_command_slide_ok)
  next
    case 12 then show ?thesis by (intro exI [of _ "u6_command_slide (-1)"] exI [of _ True]) (simp add: u6_dispatch_def u6_command_slide_ok)
  next
    case 13 then show ?thesis by (intro exI [of _ "Some"] exI [of _ True]) (simp add: u6_dispatch_def u6_skip_ok)
  next
    case 14 then show ?thesis by (intro exI [of _ "u6_command_E"] exI [of _ True]) (simp add: u6_dispatch_def u6_command_E_ok)
  next
    case 15 then show ?thesis by (intro exI [of _ "Some"] exI [of _ True]) (simp add: u6_dispatch_def u6_skip_ok)  qed
qed

lemma u6_dispatch_ok:
  assumes s: "u6_ok s" and nb: "hi \<noteq> 0xF" "\<not> (hi = 8 \<and> lo = 1)"
  shows "\<exists>go s'. u6_dispatch hi lo s = Some (go, s') \<and> u6_keep s s'"
  using u6_dispatch_cases [OF nb, of s] s by (auto simp: u6_cmd_ok_def)

lemma u6_command_ok:
  assumes s: "u6_ok s" and nb: "\<not> u6_at_branch s"
  shows "\<exists>go s'. u6_command s = Some (go, s') \<and> u6_keep s s' \<and>
    (go \<longrightarrow> u6_song_pos s < u6_song_pos s' \<and> u6_song_pos s < u6_song_size s)"
proof -
  obtain b s1 where b: "u6_read_byte s = Some (b, s1)" "u6_keep s s1" "-1 \<le> b" "b < 256"
    "b \<ge> 0 \<Longrightarrow> u6_song_pos s < u6_song_pos s1" "b \<ge> 0 \<Longrightarrow> u6_song_pos s < u6_song_size s"
    using u6_read_byte_ok [OF s] by metis
  show ?thesis
  proof (cases "b < 0")
    case True
    then show ?thesis using b(1,2) by (auto simp: u6_command_def u6_defs)
  next
    case False
    have at: "b = uint (u6_song_data s ! u6_song_pos s)"
      using b(1,6) False s by (auto simp: u6_read_byte_def u6_ok_def u6_song_ok_def rd_def)
    have nb': "b \<noteq> 0x81" "b < 0xF0"
      using nb False b(6) unfolding at u6_at_branch_def by (auto simp: word_le_def word_uint_eq_iff)
    have "b div 16 \<noteq> 0xF" using nb'(2) by linarith
    moreover have "\<not> (b div 16 = 8 \<and> nat (b mod 16) = 1)"
    proof
      assume "b div 16 = 8 \<and> nat (b mod 16) = 1"
      then have "b div 16 = 8" "b mod 16 = 1" by auto
      then show False using nb'(1) div_mult_mod_eq [of b 16] by simp
    qed
    moreover have "u6_ok s1" using b(2) by (simp add: u6_keep_def)
    ultimately obtain go s' where "u6_dispatch (b div 16) (nat (b mod 16)) s1 = Some (go, s')" "u6_keep s1 s'"
      using u6_dispatch_ok by blast
    then show ?thesis
      using b False u6_keep_trans [OF b(2)] by (auto simp: u6_command_def u6_keep_def intro: less_le_trans)
  qed
qed

lemma u6_command_loop_ok:
  assumes nb: "\<And>t. u6_reach s0 t \<Longrightarrow> \<not> u6_at_branch t"
  shows "u6_ok s \<Longrightarrow> u6_reach s0 s \<Longrightarrow> \<exists>s'. u6_command_loop s = Some s' \<and> u6_keep s s'"
proof (induction "u6_song_size s - u6_song_pos s" arbitrary: s rule: less_induct)
  case less
  obtain go s1 where s1: "u6_command s = Some (go, s1)" "u6_keep s s1"
    "go \<longrightarrow> u6_song_pos s < u6_song_pos s1 \<and> u6_song_pos s < u6_song_size s"
    using u6_command_ok [OF less.prems(1) nb [OF less.prems(2)]] by blast
  show ?case
  proof (cases go)
    case False
    then show ?thesis using s1(1,2) by (subst u6_command_loop.simps) simp
  next
    case True
    have "u6_song_size s1 - u6_song_pos s1 < u6_song_size s - u6_song_pos s" "u6_ok s1"
      using s1(2,3) True by (auto simp: u6_keep_def)
    moreover have "u6_reach s0 s1" using u6_reach_step [OF less.prems(2)] s1(1) True by simp
    ultimately obtain s' where "u6_command_loop s1 = Some s'" "u6_keep s1 s'" using less.hyps by blast
    then show ?thesis
      using s1(1) True u6_keep_trans [OF s1(2)] by (subst u6_command_loop.simps) auto
  qed
qed

section \<open>The properties\<close>

lemma u6_read_file_ok:
  assumes laws: "stream_laws io P" "P f"
  shows "\<exists>r. u6_read_file io mem f = Some r \<and>
    (case r of None \<Rightarrow> True | Some (dsize, src) \<Rightarrow> blk_size src \<le> length (blk_data src) \<and> blk_size src < 2 ^ 60)"
proof -
  obtain filesize f1 where f1: "fp_filesize io f = (filesize, f1)" by fastforce
  then have P1: "P f1" using filesize_stream [OF laws] by blast
  show ?thesis
  proof (cases "filesize \<ge> 6")
    case False
    then show ?thesis using f1 by (simp add: u6_read_file_def)
  next
    case True
    obtain k h f2 where f2: "bio_readString io 6 (fresh mem 6) f1 = (k, h, f2)" by (metis surj_pair)
    have h: "length h = 6" "P f2" using stream_lawsD(3) [OF laws(1) P1 f2] by simp_all
    obtain hdr where hdr: "u6_header h filesize = Some hdr"
      "hdr = None \<or> (\<exists>d. hdr = Some d \<and> d < 2 ^ 16 \<and> filesize - 4 < d)"
    proof -
      let ?d = "unat (h ! 0) + unat (h ! 1) * 256"
      have "?d < 65536" using unat_u8_bound(2) [of "h ! 0"] unat_u8_bound(2) [of "h ! 1"] by linarith
      then show ?thesis
        using h(1) that by (auto simp: u6_header_def rd_Some Let_def)
    qed
    obtain k' c f4 where f4: "bio_readString io (filesize - 4) (fresh mem (filesize - 3)) (bio_seekSet io 4 f2) = (k', c, f4)"
      by (metis surj_pair)
    have "length c = filesize - 3"
      using stream_lawsD(3) [OF laws(1) stream_lawsD(6) [OF laws(1) h(2)] f4] by simp
    then show ?thesis
      using True f1 f2 f4 hdr by (auto simp: u6_read_file_def Let_def)
  qed
qed

text \<open>\<open>Cu6mPlayer::load\<close> returns on every file, rejecting it or leaving a player whose song has
the size the header gives, rewound to its start; the only exception is a compressed stream with a
reset code that is not followed by a root.\<close>

theorem u6_load_returns:
  assumes "stream_laws io P" "\<And>f. opn filename = Some f \<Longrightarrow> P f"
  shows "(\<exists>b s'. u6_load io opn mem dmem filename s = Some (b, s') \<and>
      (if b then u6_arrays s' \<and> u6_song_size s' = length (u6_song_data s') \<and> u6_song_pos s' = 0 \<and>
        u6_subsong_stack s' = [] \<and> \<not> u6_songend s' \<and>
        u6_instrument_offsets s' = u6_instrument_offsets s \<and>
        opl_out s' = opl_out s @ [OplInit, OplWrite 1 32]
       else opl_out s' = opl_out s)) \<or>
    (\<exists>f dsize src st. opn filename = Some f \<and> u6_read_file io mem f = Some (Some (dsize, src)) \<and>
      lzw_reach src dsize (lzw_start dmem (fresh mem dsize)) st \<and> lzw_bad_reset src st)"
proof (cases "opn filename")
  case None
  then show ?thesis by (auto simp: u6_load_def)
next
  case (Some f)
  obtain r where r: "u6_read_file io mem f = Some r"
    "case r of None \<Rightarrow> True | Some (dsize, src) \<Rightarrow> blk_size src \<le> length (blk_data src) \<and> blk_size src < 2 ^ 60"
    using u6_read_file_ok [OF assms(1) assms(2) [OF Some]] by blast
  show ?thesis
  proof (cases r)
    case None
    then show ?thesis using Some r(1) by (auto simp: u6_load_def)
  next
    case (Some p)
    obtain dsize src where p: "r = Some (dsize, src)" using Some by (cases p) auto
    let ?dest = "\<lparr>blk_size = dsize, blk_data = fresh mem dsize\<rparr>"
    have "blk_size src \<le> length (blk_data src)" "blk_size src < 2 ^ 60" "blk_size ?dest = length (blk_data ?dest)"
      using r(2) p by simp_all
    then consider st where "lzw_reach src dsize (lzw_start dmem (fresh mem dsize)) st" "lzw_bad_reset src st"
      | ok out where "lzw_decompress dmem src ?dest = Some (ok, out)" "length out = dsize"
      using lzw_decompress_returns [of src ?dest dmem] by auto
    then show ?thesis
    proof cases
      case 1
      then show ?thesis using \<open>opn filename = Some f\<close> r(1) p by blast
    next
      case 2
      then show ?thesis
        using \<open>opn filename = Some f\<close> r(1) p
        by (cases ok) (auto simp: u6_load_def u6_rewind_def u6_out_adlib_def opl_calls u6_arrays_def)
    qed
  qed
qed

definition u6_sample :: "bytes \<Rightarrow> u6m_player" where
  "u6_sample song =
     \<lparr>opl_out = [], u6_song_data = song, u6_song_size = length song, u6_driver_active = False,
      u6_songend = False, u6_song_pos = 0, u6_loop_position = 0, u6_read_delay = 0, u6_subsong_stack = [],
      u6_instrument_offsets = replicate 9 0,
      u6_vb_current_value = replicate 9 0, u6_vb_double_amplitude = replicate 9 0,
      u6_vb_multiplier = replicate 9 0, u6_vb_direction_flag = replicate 9 0,
      u6_carrier_mf = replicate 9 0, u6_carrier_mf_signed_delta = replicate 9 0,
      u6_carrier_mf_mod_delay_backup = replicate 9 0, u6_carrier_mf_mod_delay = replicate 9 0,
      u6_channel_freq = replicate 9 \<lparr>bp_lo = 0, bp_hi = 0\<rparr>, u6_channel_freq_signed_delta = replicate 9 0\<rparr>"

lemma u6_load_returns_witness:
  "\<exists>b s'. u6_load memio (\<lambda>_. Some (mem_file [1, 2, 3])) (\<lambda>_. 0) (\<lambda>_. \<lparr>de_root = 0, de_codeword = 0\<rparr>)
      ''a.m'' (u6_sample []) = Some (b, s')"
  using u6_load_returns [of memio "mem_ok [1, 2, 3]" "\<lambda>_. Some (mem_file [1, 2, 3])" "''a.m''" "\<lambda>_. 0"
      "\<lambda>_. \<lparr>de_root = 0, de_codeword = 0\<rparr>" "u6_sample []"] mem_stream_laws
  by (auto simp: u6_read_file_def fp_filesize_def memio_def ms_seek_def mem_file_def mem_ok_def)

text \<open>From a well-formed player, one \<open>update\<close> returns in a well-formed player: every command,
slide and vibrato step stays inside the song and the channel arrays, and the command loop ends by
a delay command or by the end of the song, unless it comes to a branch, return or loop command.\<close>

theorem u6_update_returns:
  assumes "u6_ok s"
  shows "(\<exists>go s'. u6_update s = Some (go, s') \<and> u6_ok s' \<and> u6_song_data s' = u6_song_data s) \<or>
    (\<exists>t. u6_reach (s\<lparr>u6_driver_active := True, u6_read_delay := u6_dec_clip (u6_read_delay s)\<rparr>) t \<and>
      u6_at_branch t)"
proof (cases "\<exists>t. u6_reach (s\<lparr>u6_driver_active := True, u6_read_delay := u6_dec_clip (u6_read_delay s)\<rparr>) t \<and>
      u6_at_branch t")
  case False
  let ?s = "s\<lparr>u6_driver_active := True, u6_read_delay := u6_dec_clip (u6_read_delay s)\<rparr>"
  have s: "u6_ok ?s" using assms by (auto simp: u6_defs)
  obtain s2 where s2: "(if u6_read_delay ?s = 0 then u6_command_loop ?s else Some ?s) = Some s2" "u6_keep ?s s2"
  proof (cases "u6_read_delay ?s = 0")
    case True
    obtain s2 where "u6_command_loop ?s = Some s2" "u6_keep ?s s2"
      using u6_command_loop_ok [of ?s ?s] False s u6_reach_start by blast
    then show ?thesis using True that by simp
  next
    case False
    then show ?thesis using that [of ?s] u6_keep_refl [OF s] by simp
  qed
  have "\<exists>s3. ofold u6_channel_tick [0..<9] s2 = Some s3 \<and> u6_keep s2 s3"
  proof (rule ofold_invariant)
    show "u6_keep s2 s2" using s2(2) by (simp add: u6_keep_def)
    fix i t assume "i \<in> set [0..<9]" "u6_keep s2 t"
    then show "\<exists>t'. u6_channel_tick i t = Some t' \<and> u6_keep s2 t'"
      using u6_cmd_then [OF u6_channel_tick_ok, of i t] u6_keep_trans [of s2 t] by (auto simp: u6_keep_def)
  qed
  then obtain s3 where s3: "ofold u6_channel_tick [0..<9] s2 = Some s3" "u6_keep s2 s3" by blast
  have keep: "u6_keep ?s s3" by (rule u6_keep_trans [OF s2(2) s3(2)])
  have "u6_ok (s3\<lparr>u6_driver_active := False\<rparr>)" "u6_song_data s3 = u6_song_data s"
    using keep by (auto simp: u6_defs)
  then have "\<exists>go s'. u6_update s = Some (go, s') \<and> u6_ok s' \<and> u6_song_data s' = u6_song_data s"
    using s2(1) s3(1) assms by (cases "u6_driver_active s") (simp_all add: u6_update_def Let_def del: upt.simps)
  then show ?thesis ..
qed simp

lemma u6_update_returns_witness:
  "(\<exists>go s'. u6_update (u6_sample (replicate 20 0)) = Some (go, s') \<and> u6_ok s' \<and>
      u6_song_data s' = replicate 20 0) \<or>
    (\<exists>t. u6_reach ((u6_sample (replicate 20 0))\<lparr>u6_driver_active := True, u6_read_delay := 0\<rparr>) t \<and>
      u6_at_branch t)"
  using u6_update_returns [of "u6_sample (replicate 20 0)"]
  by (simp add: u6_sample_def u6_ok_def u6_arrays_def u6_song_ok_def u6_dec_clip_def)

text \<open>A song that starts with the loop command and has not set a loop point makes \<open>update\<close> run for
ever: the command jumps back to itself, the end flag it sets is only looked at after the loop.\<close>

theorem u6_loop_never_returns:
  "u6_update (u6_sample (0xF0 # rest)) = None"
proof -
  let ?P = "\<lambda>s :: u6m_player. u6_song_data s = 0xF0 # rest \<and> u6_song_size s = Suc (length rest) \<and> u6_song_pos s = 0 \<and>
    u6_loop_position s = 0 \<and> u6_subsong_stack s = []"
  have cmd: "\<exists>s1. u6_command s = Some (True, s1) \<and> ?P s1" if "?P s" for s
    using that by (simp add: u6_command_def u6_read_byte_def rd_def u6_dispatch_def u6_command_F_def)
  have never: "\<not> ?P s" if "u6_command_loop s = Some r" for s r
    using that
  proof (rule u6_command_loop.raw_induct [rotated])
    fix g s r
    assume IH: "\<And>s r. g s = Some r \<Longrightarrow> \<not> ?P s"
      and step: "do { (go, s1) \<leftarrow> u6_command s; if go then g s1 else Some s1 } = Some r"
    show "\<not> ?P s"
    proof
      assume "?P s"
      then obtain s1 where "u6_command s = Some (True, s1)" "?P s1" using cmd by blast
      then show False using IH [of s1 r] step by simp
    qed
  qed
  let ?s = "(u6_sample (0xF0 # rest))\<lparr>u6_driver_active := True, u6_read_delay := 0\<rparr>"
  have "?P ?s" by (simp add: u6_sample_def)
  then have "u6_command_loop ?s = None" using never [of ?s] by (metis not_Some_eq)
  then show ?thesis by (simp add: u6_update_def u6_sample_def u6_dec_clip_def)
qed

text \<open>A volume slide stays in its range: from a mute factor of at most 0x3F, a slide step by one
gives one of at most 0x3F that differs by at most one, and a slide that reaches the end of the range
stops.\<close>

theorem u6_mf_slide_range:
  assumes "u6_ok s" "i < 9" "u6_carrier_mf s ! i \<le> 0x3F" "u6_carrier_mf_signed_delta s ! i \<in> {-1, 0, 1}"
  shows "\<exists>s'. u6_mf_slide i s = Some s' \<and> u6_carrier_mf s' ! i \<le> 0x3F \<and>
    \<bar>uint (u6_carrier_mf s' ! i) - uint (u6_carrier_mf s ! i)\<bar> \<le> 1 \<and>
    u6_carrier_mf_signed_delta s' ! i \<in> {u6_carrier_mf_signed_delta s ! i, 0} \<and>
    (\<forall>j. j \<noteq> i \<longrightarrow> u6_carrier_mf s' ! j = u6_carrier_mf s ! j)"
proof -
  let ?mf = "u6_carrier_mf s ! i" and ?d = "u6_carrier_mf_signed_delta s ! i"
  let ?cur = "uint ?mf + ?d"
  let ?new = "if ?cur > 0x3F then 0x3F else if ?cur < 0 then 0 else ?cur"
  have len: "length (u6_carrier_mf s) = 9" "length (u6_carrier_mf_signed_delta s) = 9"
    "length (u6_carrier_mf_mod_delay_backup s) = 9" "length (u6_carrier_mf_mod_delay s) = 9"
    using assms(1) by (simp_all add: u6_ok_def u6_arrays_def)
  have mf: "0 \<le> uint ?mf" "uint ?mf \<le> 0x3F" using assms(3) by (simp_all add: word_le_def)
  have new: "0 \<le> ?new" "?new \<le> 0x3F" "\<bar>?new - uint ?mf\<bar> \<le> 1" using mf assms(4) by auto
  then have u: "uint (to_u8 ?new) = ?new" by (simp add: uint_word_of_int)
  have op: "\<exists>t. u6_out_opcell i True 0x40 v r = Some t \<and> u6_carrier_mf t = u6_carrier_mf r \<and>
      u6_carrier_mf_signed_delta t = u6_carrier_mf_signed_delta r" for v r
    using assms(2) by (simp add: u6_out_opcell_def u6_carrier_offset_def u6_out_adlib_def opl_write_def rd_Some)
  show ?thesis
  proof (cases "u6_carrier_mf_mod_delay s ! i - 1 = 0")
    case False
    then show ?thesis
      using assms(2,3) len by (auto simp: u6_mf_slide_def rd_Some wr_Some Let_def)
  next
    case True
    let ?r = "s\<lparr>u6_carrier_mf_mod_delay := (u6_carrier_mf_mod_delay s)[i := u6_carrier_mf_mod_delay_backup s ! i],
      u6_carrier_mf_signed_delta := (u6_carrier_mf_signed_delta s)[i := if ?cur > 0x3F \<or> ?cur < 0 then 0 else ?d]\<rparr>"
    have step: "u6_mf_slide i s = u6_set_carrier_mf i (to_u8 ?new) ?r"
      using True assms(2) len by (simp add: u6_mf_slide_def rd_Some wr_Some Let_def)
    obtain t where t: "u6_out_opcell i True 0x40 (to_u8 ?new) ?r = Some t" "u6_carrier_mf t = u6_carrier_mf s"
      "u6_carrier_mf_signed_delta t = u6_carrier_mf_signed_delta ?r" using op [of "to_u8 ?new" ?r] by auto
    let ?s' = "t\<lparr>u6_carrier_mf := (u6_carrier_mf s)[i := to_u8 ?new]\<rparr>"
    have "u6_mf_slide i s = Some ?s'"
      using t assms(2) len unfolding step u6_set_carrier_mf_def by (simp add: wr_Some)
    moreover have "to_u8 ?new \<le> 0x3F" using new(2) u by (simp add: word_le_def)
    ultimately show ?thesis
      using t(3) assms(2) len new(3) u by (intro exI [of _ ?s']) simp
  qed
qed

lemma u6_mf_slide_range_witness:
  "\<exists>s'. u6_mf_slide 2 ((u6_sample (replicate 20 0))\<lparr>u6_carrier_mf := replicate 9 0x3F,
      u6_carrier_mf_signed_delta := replicate 9 1, u6_carrier_mf_mod_delay := replicate 9 1\<rparr>) = Some s' \<and>
    u6_carrier_mf s' ! 2 \<le> 0x3F"
  using u6_mf_slide_range [of "(u6_sample (replicate 20 0))\<lparr>u6_carrier_mf := replicate 9 0x3F,
      u6_carrier_mf_signed_delta := replicate 9 1, u6_carrier_mf_mod_delay := replicate 9 1\<rparr>" 2]
  by (auto simp: u6_sample_def u6_ok_def u6_arrays_def u6_song_ok_def)

end
