(* ===== verification/Steps.thy ===== *)
theory Steps
  imports Prelude
begin

text \<open>
  A calculus for operations that may fault: \<open>op_ok pre keep f\<close> says that from every state with
  \<open>pre\<close> the operation returns and the relation \<open>keep\<close> holds between the two states. Where
  \<open>keep\<close> is reflexive, transitive and carries \<open>pre\<close> along, operations compose, so that the
  safety of a handler follows the way its body is written.
\<close>

definition op_ok :: "('s \<Rightarrow> bool) \<Rightarrow> ('s \<Rightarrow> 's \<Rightarrow> bool) \<Rightarrow> ('s \<Rightarrow> 's option) \<Rightarrow> bool" where
  "op_ok pre keep f \<longleftrightarrow> (\<forall>s. pre s \<longrightarrow> (\<exists>t. f s = Some t \<and> keep s t))"

lemma op_okI: "(\<And>s. pre s \<Longrightarrow> \<exists>t. f s = Some t \<and> keep s t) \<Longrightarrow> op_ok pre keep f"
  by (simp add: op_ok_def)

lemma op_okD: "op_ok pre keep f \<Longrightarrow> pre s \<Longrightarrow> \<exists>t. f s = Some t \<and> keep s t"
  by (simp add: op_ok_def)

locale step_calculus =
  fixes pre :: "'s \<Rightarrow> bool"
    and keep :: "'s \<Rightarrow> 's \<Rightarrow> bool"
  assumes keep_refl: "pre s \<Longrightarrow> keep s s"
    and keep_trans: "keep s t \<Longrightarrow> keep t u \<Longrightarrow> keep s u"
    and keep_pre: "pre s \<Longrightarrow> keep s t \<Longrightarrow> pre t"
begin

lemma ok_skip: "op_ok pre keep Some"
  by (simp add: op_ok_def keep_refl)

lemma ok_return: "(\<And>s. pre s \<Longrightarrow> keep s (g s)) \<Longrightarrow> op_ok pre keep (\<lambda>s. Some (g s))"
  by (simp add: op_ok_def)

lemma ok_bind:
  assumes "op_ok pre keep f" "op_ok pre keep g"
  shows "op_ok pre keep (\<lambda>s. Option.bind (f s) g)"
proof (rule op_okI)
  fix s assume "pre s"
  obtain t where t: "f s = Some t" "keep s t" using op_okD [OF assms(1) \<open>pre s\<close>] by blast
  obtain u where "g t = Some u" "keep t u" using op_okD [OF assms(2) keep_pre [OF \<open>pre s\<close> t(2)]] by blast
  then show "\<exists>u. Option.bind (f s) g = Some u \<and> keep s u" using t keep_trans [of s t u] by simp
qed

lemma ok_if:
  "op_ok pre keep f \<Longrightarrow> op_ok pre keep g \<Longrightarrow> op_ok pre keep (\<lambda>s. if b s then f s else g s)"
  by (simp add: op_ok_def)

text \<open>Reading a value of which \<open>Q\<close> is known, and changing the state in a way that keeps it.\<close>

lemma ok_read:
  assumes "\<And>s. pre s \<Longrightarrow> \<exists>v. r s = Some v \<and> Q v" "\<And>v. Q v \<Longrightarrow> op_ok pre keep (k v)"
  shows "op_ok pre keep (\<lambda>s. Option.bind (r s) (\<lambda>v. k v s))"
proof (rule op_okI)
  fix s assume "pre s"
  obtain v where "r s = Some v" "Q v" using assms(1) [OF \<open>pre s\<close>] by blast
  then show "\<exists>t. Option.bind (r s) (\<lambda>v. k v s) = Some t \<and> keep s t"
    using op_okD [OF assms(2) \<open>pre s\<close>] by simp
qed

lemma ok_after:
  assumes "\<And>s. pre s \<Longrightarrow> keep s (h s)" "op_ok pre keep g"
  shows "op_ok pre keep (\<lambda>s. g (h s))"
  using ok_bind [OF ok_return [of h, OF assms(1)] assms(2)] by simp

lemma ok_ofold: "(\<And>i. i \<in> set is \<Longrightarrow> op_ok pre keep (f i)) \<Longrightarrow> op_ok pre keep (ofold f is)"
proof (induction "is")
  case Nil
  then show ?case by (simp add: op_ok_def keep_refl)
next
  case (Cons i "is")
  have "ofold f (i # is) = (\<lambda>s. Option.bind (f i s) (ofold f is))" by (rule ext) simp
  then show ?case using ok_bind [of "f i" "ofold f is"] Cons by simp
qed

end

end
