(* ===== verification/Protrack.thy ===== *)
theory Protrack
  imports Loader
begin

text \<open>
  \<open>src/protrack.cpp\<close>, \<open>src/protrack.h\<close>: the generic Protracker engine \<open>CmodPlayer\<close>. A loader fills
  its instruments, tracks, track order and order list; \<open>update\<close> plays one tick. The effects on one
  channel's pitch and volume are functions on \<open>mod_chan\<close>; everything that reads an array or writes
  to the chip returns an option.
\<close>

section \<open>The state\<close>

record mod_instrument =
  mi_data :: bytes
  mi_arpstart :: u8
  mi_arpspeed :: u8
  mi_arppos :: u8
  mi_arpspdcnt :: u8
  mi_misc :: u8
  mi_slide :: int

record mod_event =
  ev_note :: u8
  ev_command :: u8
  ev_inst :: u8
  ev_param2 :: u8
  ev_param1 :: u8

record mod_chan =
  ch_freq :: u16
  ch_nextfreq :: u16
  ch_oct :: u8
  ch_vol1 :: u8
  ch_vol2 :: u8
  ch_inst :: u8
  ch_fx :: u8
  ch_info1 :: u8
  ch_info2 :: u8
  ch_key :: u8
  ch_nextoct :: u8
  ch_note :: u8
  ch_portainfo :: u8
  ch_vibinfo1 :: u8
  ch_vibinfo2 :: u8
  ch_arppos :: u8
  ch_arpspdcnt :: u8
  ch_trigger :: int

record mod_player = cplayer +
  mod_inst :: "mod_instrument list"
  mod_tracks :: "mod_event list list"
  mod_order :: bytes
  mod_arplist :: "bytes option"
  mod_arpcmd :: "bytes option"
  mod_initspeed :: u8
  mod_tempo :: u16
  mod_trackord :: "u16 list list"
  mod_bpm :: u16
  mod_nop :: u16
  mod_length :: nat
  mod_restartpos :: nat
  mod_activechan :: nat
  mod_flags :: nat
  mod_curchip :: int
  mod_channel :: "mod_chan list"
  mod_speed :: u8
  mod_del :: u8
  mod_songend :: bool
  mod_regbd :: u8
  mod_notetable :: "u16 list"
  mod_rw :: nat
  mod_ord :: nat
  mod_nrows :: nat
  mod_npats :: nat
  mod_nchans :: nat

text \<open>The flags of a module, as the bits of \<open>flags\<close>.\<close>

datatype mod_flag = Decimal | Faust | NoKeyOn | Opl3 | Tremolo | Vibrato | Percussion

fun mod_flag_bit :: "mod_flag \<Rightarrow> nat" where
  "mod_flag_bit Decimal = 1"
| "mod_flag_bit Faust = 2"
| "mod_flag_bit NoKeyOn = 4"
| "mod_flag_bit Opl3 = 8"
| "mod_flag_bit Tremolo = 16"
| "mod_flag_bit Vibrato = 32"
| "mod_flag_bit Percussion = 64"

definition mod_has :: "mod_flag \<Rightarrow> 'a mod_player_scheme \<Rightarrow> bool" where
  "mod_has fl s \<longleftrightarrow> odd (mod_flags s div mod_flag_bit fl)"

definition sa2_notetable :: "u16 list" where
  "sa2_notetable = [340, 363, 385, 408, 432, 458, 485, 514, 544, 577, 611, 647]"

definition vibratotab :: "int list" where
  "vibratotab = [1, 2, 3, 4, 5, 6, 7, 8, 9, 10, 11, 12, 13, 14, 15, 16,
                 16, 15, 14, 13, 12, 11, 10, 9, 8, 7, 6, 5, 4, 3, 2, 1]"

definition zero_chan :: mod_chan where
  "zero_chan =
     \<lparr>ch_freq = 0, ch_nextfreq = 0, ch_oct = 0, ch_vol1 = 0, ch_vol2 = 0, ch_inst = 0, ch_fx = 0,
      ch_info1 = 0, ch_info2 = 0, ch_key = 0, ch_nextoct = 0, ch_note = 0, ch_portainfo = 0,
      ch_vibinfo1 = 0, ch_vibinfo2 = 0, ch_arppos = 0, ch_arpspdcnt = 0, ch_trigger = 0\<rparr>"

definition zero_event :: mod_event where
  "zero_event = \<lparr>ev_note = 0, ev_command = 0, ev_inst = 0, ev_param2 = 0, ev_param1 = 0\<rparr>"

definition zero_instrument :: mod_instrument where
  "zero_instrument =
     \<lparr>mi_data = replicate 11 0, mi_arpstart = 0, mi_arpspeed = 0, mi_arppos = 0, mi_arpspdcnt = 0,
      mi_misc = 0, mi_slide = 0\<rparr>"

section \<open>Pitch and volume of one channel\<close>

definition ch_slide_down :: "int \<Rightarrow> mod_chan \<Rightarrow> mod_chan" where
  "ch_slide_down amount c =
     (let f = ch_freq c - to_u16 amount
      in if f \<le> 342 then
           (if ch_oct c \<noteq> 0 then c\<lparr>ch_oct := ch_oct c - 1, ch_freq := f * 2\<rparr> else c\<lparr>ch_freq := 342\<rparr>)
         else c\<lparr>ch_freq := f\<rparr>)"

definition ch_slide_up :: "int \<Rightarrow> mod_chan \<Rightarrow> mod_chan" where
  "ch_slide_up amount c =
     (let f = ch_freq c + to_u16 amount
      in if f \<ge> 686 then
           (if ch_oct c < 7 then c\<lparr>ch_oct := ch_oct c + 1, ch_freq := f div 2\<rparr> else c\<lparr>ch_freq := 686\<rparr>)
         else c\<lparr>ch_freq := f\<rparr>)"

text \<open>Frequency and octave as the one number the portamento compares.\<close>

definition pitch :: "u16 \<Rightarrow> u8 \<Rightarrow> int" where
  "pitch freq oct = uint freq + uint oct * 1024"

definition ch_tone_portamento :: "u8 \<Rightarrow> mod_chan \<Rightarrow> mod_chan" where
  "ch_tone_portamento info c =
     (let target = pitch (ch_nextfreq c) (ch_nextoct c);
          reach = (\<lambda>c. c\<lparr>ch_freq := ch_nextfreq c, ch_oct := ch_nextoct c\<rparr>);
          c = (if pitch (ch_freq c) (ch_oct c) < target then
                 (let c1 = ch_slide_up (uint info) c
                  in if pitch (ch_freq c1) (ch_oct c1) > target then reach c1 else c1)
               else c)
      in if pitch (ch_freq c) (ch_oct c) > target then
           (let c1 = ch_slide_down (uint info) c
            in if pitch (ch_freq c1) (ch_oct c1) < target then reach c1 else c1)
         else c)"

text \<open>One round of the vibrato loop; \<open>trigger\<close> is a \<open>signed char\<close>.\<close>

definition ch_vibrato_step :: "u8 \<Rightarrow> mod_chan \<Rightarrow> mod_chan option" where
  "ch_vibrato_step depth c = do {
     let t0 = to_s8 (ch_trigger c + 1);
     let t = (if t0 \<ge> 64 then t0 mod 64 else t0);
     let c = c\<lparr>ch_trigger := t\<rparr>;
     c \<leftarrow> (if t \<ge> 16 \<and> t < 48 then do {
             v \<leftarrow> rd_int vibratotab (t - 16);
             Some (ch_slide_down (v div (16 - uint depth)) c)
           } else Some c);
     c \<leftarrow> (if t < 16 then do {
             v \<leftarrow> rd_int vibratotab (t + 16);
             Some (ch_slide_up (v div (16 - uint depth)) c)
           } else Some c);
     if t \<ge> 48 then do {
       v \<leftarrow> rd_int vibratotab (t - 48);
       Some (ch_slide_up (v div (16 - uint depth)) c)
     } else Some c
   }"

definition ch_vibrato :: "u8 \<Rightarrow> u8 \<Rightarrow> mod_chan \<Rightarrow> mod_chan option" where
  "ch_vibrato speed depth c = ofold (\<lambda>i. ch_vibrato_step (if depth > 14 then 14 else depth)) [0..<unat speed] c"

definition vol_add :: "int \<Rightarrow> u8 \<Rightarrow> u8" where
  "vol_add amount v = (if uint v + amount < 63 then v + to_u8 amount else 63)"

definition vol_sub :: "int \<Rightarrow> u8 \<Rightarrow> u8" where
  "vol_sub amount v = (if uint v - amount > 0 then v - to_u8 amount else 0)"

definition ch_vol_up :: "int \<Rightarrow> mod_chan \<Rightarrow> mod_chan" where
  "ch_vol_up amount c = c\<lparr>ch_vol1 := vol_add amount (ch_vol1 c), ch_vol2 := vol_add amount (ch_vol2 c)\<rparr>"

definition ch_vol_down :: "int \<Rightarrow> mod_chan \<Rightarrow> mod_chan" where
  "ch_vol_down amount c = c\<lparr>ch_vol1 := vol_sub amount (ch_vol1 c), ch_vol2 := vol_sub amount (ch_vol2 c)\<rparr>"

text \<open>The alternate forms leave the modulator alone unless the instrument is additive.\<close>

definition ch_vol_up_alt :: "int \<Rightarrow> bool \<Rightarrow> mod_chan \<Rightarrow> mod_chan" where
  "ch_vol_up_alt amount additive c =
     c\<lparr>ch_vol1 := vol_add amount (ch_vol1 c),
       ch_vol2 := (if additive then vol_add amount (ch_vol2 c) else ch_vol2 c)\<rparr>"

definition ch_vol_down_alt :: "int \<Rightarrow> bool \<Rightarrow> mod_chan \<Rightarrow> mod_chan" where
  "ch_vol_down_alt amount additive c =
     c\<lparr>ch_vol1 := vol_sub amount (ch_vol1 c),
       ch_vol2 := (if additive then vol_sub amount (ch_vol2 c) else ch_vol2 c)\<rparr>"

section \<open>Writing to the chip\<close>

definition mod_set_opl_chip :: "nat \<Rightarrow> 'a mod_player_scheme \<Rightarrow> nat \<times> 'a mod_player_scheme" where
  "mod_set_opl_chip chan s =
     (let newchip = (if chan < 9 then 0 else 1);
          s1 = (if newchip \<noteq> mod_curchip s then (opl_setchip newchip s)\<lparr>mod_curchip := newchip\<rparr> else s)
      in (chan mod 9, s1))"

text \<open>Changing one channel, and the instrument a channel plays.\<close>

definition mod_upd :: "nat \<Rightarrow> (mod_chan \<Rightarrow> mod_chan) \<Rightarrow> 'a mod_player_scheme \<Rightarrow> 'a mod_player_scheme option" where
  "mod_upd chan f s = do {
     c \<leftarrow> rd (mod_channel s) chan;
     Some (s\<lparr>mod_channel := (mod_channel s)[chan := f c]\<rparr>)
   }"

definition mod_ins :: "mod_chan \<Rightarrow> 'a mod_player_scheme \<Rightarrow> mod_instrument option" where
  "mod_ins c s = rd (mod_inst s) (unat (ch_inst c))"

definition mod_setvolume_alt :: "nat \<Rightarrow> 'a mod_player_scheme \<Rightarrow> 'a mod_player_scheme option" where
  "mod_setvolume_alt chan s = do {
     let (oplchan, s) = mod_set_opl_chip chan s;
     c \<leftarrow> rd (mod_channel s) chan;
     i \<leftarrow> mod_ins c s;
     d9 \<leftarrow> rd (mi_data i) 9;
     d10 \<leftarrow> rd (mi_data i) 10;
     op \<leftarrow> rd op_table oplchan;
     let s = opl_write (0x40 + op)
               ((63 - uint (ch_vol2 c AND 63) + uint (d9 AND 63)) div 2 + uint (d9 AND 192)) s;
     Some (opl_write (0x43 + op)
             ((63 - uint (ch_vol1 c AND 63) + uint (d10 AND 63)) div 2 + uint (d10 AND 192)) s)
   }"

definition mod_setvolume :: "nat \<Rightarrow> 'a mod_player_scheme \<Rightarrow> 'a mod_player_scheme option" where
  "mod_setvolume chan s = do {
     let (oplchan, s) = mod_set_opl_chip chan s;
     if mod_has Faust s then mod_setvolume_alt chan s
     else do {
       c \<leftarrow> rd (mod_channel s) chan;
       i \<leftarrow> mod_ins c s;
       d9 \<leftarrow> rd (mi_data i) 9;
       d10 \<leftarrow> rd (mi_data i) 10;
       op \<leftarrow> rd op_table oplchan;
       let s = opl_write (0x40 + op) (63 - uint (ch_vol2 c) + uint (d9 AND 192)) s;
       Some (opl_write (0x43 + op) (63 - uint (ch_vol1 c) + uint (d10 AND 192)) s)
     }
   }"

definition mod_setfreq :: "nat \<Rightarrow> 'a mod_player_scheme \<Rightarrow> 'a mod_player_scheme option" where
  "mod_setfreq chan s = do {
     let (oplchan, s) = mod_set_opl_chip chan s;
     c \<leftarrow> rd (mod_channel s) chan;
     let s = opl_write (0xa0 + int oplchan) (uint (ch_freq c AND 255)) s;
     let block = uint (ch_freq c AND 768) div 256 + uint (ch_oct c) * 4;
     Some (opl_write (0xb0 + int oplchan) (if ch_key c \<noteq> 0 then block OR 32 else block) s)
   }"

text \<open>The registers of an instrument and their entries in its data, in the order they are written.\<close>

definition mod_ins_regs :: "(int \<times> nat) list" where
  "mod_ins_regs = [(0x20, 1), (0x23, 2), (0x60, 3), (0x63, 4), (0x80, 5), (0x83, 6), (0xe0, 7), (0xe3, 8)]"

definition mod_playnote :: "nat \<Rightarrow> 'a mod_player_scheme \<Rightarrow> 'a mod_player_scheme option" where
  "mod_playnote chan s = do {
     let (oplchan, s) = mod_set_opl_chip chan s;
     op \<leftarrow> rd op_table oplchan;
     c \<leftarrow> rd (mod_channel s) chan;
     i \<leftarrow> mod_ins c s;
     let s = (if \<not> mod_has NoKeyOn s then opl_write (0xb0 + int oplchan) 0 s else s);
     s \<leftarrow> ofold (\<lambda>(reg, j) s. do {
            d \<leftarrow> rd (mi_data i) j;
            Some (opl_write (reg + op) (uint d) s)
          }) mod_ins_regs s;
     d0 \<leftarrow> rd (mi_data i) 0;
     let s = opl_write (0xc0 + int oplchan) (uint d0) s;
     let s = opl_write 0xbd (uint (mi_misc i)) s;
     s \<leftarrow> mod_upd chan (ch_key_update (\<lambda>_. 1)) s;
     s \<leftarrow> mod_setfreq chan s;
     s \<leftarrow> (if mod_has Faust s then mod_upd chan (\<lambda>c. c\<lparr>ch_vol2 := 63, ch_vol1 := 63\<rparr>) s else Some s);
     mod_setvolume chan s
   }"

definition mod_setnote :: "nat \<Rightarrow> int \<Rightarrow> 'a mod_player_scheme \<Rightarrow> 'a mod_player_scheme option" where
  "mod_setnote chan note s =
     (if note = 127 then do {
        s \<leftarrow> mod_upd chan (ch_key_update (\<lambda>_. 0)) s;
        mod_setfreq chan s
      }
      else do {
        let note = (if note > 96 then 96 else if note < 1 then 1 else note);
        f \<leftarrow> rd_int (mod_notetable s) ((note - 1) mod 12);
        c \<leftarrow> rd (mod_channel s) chan;
        i \<leftarrow> mod_ins c s;
        mod_upd chan (\<lambda>c. c\<lparr>ch_freq := f + to_u16 (mi_slide i), ch_oct := to_u8 ((note - 1) div 12)\<rparr>) s
      })"

text \<open>A change of one channel followed by a write of its frequency or its volume.\<close>

definition mod_freq_effect :: "nat \<Rightarrow> (mod_chan \<Rightarrow> mod_chan) \<Rightarrow> 'a mod_player_scheme \<Rightarrow> 'a mod_player_scheme option"
where
  "mod_freq_effect chan f s = do { s \<leftarrow> mod_upd chan f s; mod_setfreq chan s }"

definition mod_vol_effect :: "nat \<Rightarrow> (mod_chan \<Rightarrow> mod_chan) \<Rightarrow> 'a mod_player_scheme \<Rightarrow> 'a mod_player_scheme option"
where
  "mod_vol_effect chan f s = do { s \<leftarrow> mod_upd chan f s; mod_setvolume chan s }"

definition mod_additive :: "nat \<Rightarrow> 'a mod_player_scheme \<Rightarrow> bool option" where
  "mod_additive chan s = do {
     c \<leftarrow> rd (mod_channel s) chan;
     i \<leftarrow> mod_ins c s;
     d0 \<leftarrow> rd (mi_data i) 0;
     Some (odd (unat d0))
   }"

definition mod_vibrato :: "nat \<Rightarrow> u8 \<Rightarrow> u8 \<Rightarrow> 'a mod_player_scheme \<Rightarrow> 'a mod_player_scheme option" where
  "mod_vibrato chan speed depth s =
     (if speed = 0 \<or> depth = 0 then Some s
      else do {
        c \<leftarrow> rd (mod_channel s) chan;
        c' \<leftarrow> ch_vibrato speed depth c;
        mod_freq_effect chan (\<lambda>_. c') s
      })"

section \<open>The effects of every tick\<close>

text \<open>One command of the special arpeggio list.\<close>

definition mod_arp_command ::
  "nat \<Rightarrow> nat \<Rightarrow> bytes \<Rightarrow> bytes \<Rightarrow> 'a mod_player_scheme \<Rightarrow> 'a mod_player_scheme option"
where
  "mod_arp_command chan oplchan al ac s = do {
     c \<leftarrow> rd (mod_channel s) chan;
     cmd \<leftarrow> rd ac (unat (ch_arppos c));
     v \<leftarrow> rd al (unat (ch_arppos c));
     op \<leftarrow> rd op_table oplchan;
     if cmd = 252 then
       mod_vol_effect chan (let vol = (if v > 63 then 63 else v) in (\<lambda>c. c\<lparr>ch_vol1 := vol, ch_vol2 := vol\<rparr>)) s
     else if cmd = 253 then mod_freq_effect chan (ch_key_update (\<lambda>_. 0)) s
     else if cmd = 254 then mod_upd chan (ch_arppos_update (\<lambda>_. v)) s
     else if cmd \<noteq> 0 then do {
       let s = (if cmd div 10 \<noteq> 0 then opl_write (0xe3 + op) (uint cmd div 10 - 1) s else s);
       let s = (if cmd mod 10 \<noteq> 0 then opl_write (0xe0 + op) (uint cmd mod 10 - 1) s else s);
       Some (if cmd < 10 then opl_write (0xe0 + op) (uint cmd - 1) s else s)
     }
     else Some s
   }"

text \<open>The note the arpeggio list gives at the position the command has left.\<close>

definition mod_arp_note :: "nat \<Rightarrow> bytes \<Rightarrow> bytes \<Rightarrow> 'a mod_player_scheme \<Rightarrow> 'a mod_player_scheme option" where
  "mod_arp_note chan al ac s = do {
     c \<leftarrow> rd (mod_channel s) chan;
     cmd \<leftarrow> rd ac (unat (ch_arppos c));
     if cmd \<noteq> 252 then do {
       v \<leftarrow> rd al (unat (ch_arppos c));
       s \<leftarrow> (if v \<le> 96 then mod_setnote chan (uint (ch_note c) + uint v) s else Some s);
       if v \<ge> 100 then mod_setnote chan (uint v - 100) s else Some s
     }
     else mod_setnote chan (uint (ch_note c)) s
   }"

definition mod_special_arp :: "nat \<Rightarrow> nat \<Rightarrow> 'a mod_player_scheme \<Rightarrow> 'a mod_player_scheme option" where
  "mod_special_arp chan oplchan s =
     (case (mod_arplist s, mod_arpcmd s) of
        (Some al, Some ac) \<Rightarrow> do {
          c \<leftarrow> rd (mod_channel s) chan;
          i \<leftarrow> mod_ins c s;
          if mi_arpstart i = 0 then Some s
          else if ch_arpspdcnt c \<noteq> 0 then mod_upd chan (ch_arpspdcnt_update (\<lambda>n. n - 1)) s
          else do {
            cmd \<leftarrow> rd ac (unat (ch_arppos c));
            if cmd = 255 then Some s
            else do {
              s \<leftarrow> mod_arp_command chan oplchan al ac s;
              s \<leftarrow> mod_arp_note chan al ac s;
              s \<leftarrow> mod_setfreq chan s;
              c \<leftarrow> rd (mod_channel s) chan;
              cmd \<leftarrow> rd ac (unat (ch_arppos c));
              mod_upd chan (\<lambda>c. c\<lparr>ch_arppos := (if cmd \<noteq> 255 then ch_arppos c + 1 else ch_arppos c),
                                  ch_arpspdcnt := mi_arpspeed i - 1\<rparr>) s
            }
          }
        }
      | _ \<Rightarrow> Some s)"

text \<open>The two parameter digits of an effect as one byte.\<close>

definition mod_info :: "bool \<Rightarrow> u8 \<Rightarrow> u8 \<Rightarrow> u8" where
  "mod_info decimal info1 info2 = (if decimal then info1 * 10 + info2 else push_bit 4 info1 + info2)"

definition mod_arpeggio :: "nat \<Rightarrow> 'a mod_player_scheme \<Rightarrow> 'a mod_player_scheme option" where
  "mod_arpeggio chan s = do {
     c \<leftarrow> rd (mod_channel s) chan;
     let t = (if ch_trigger c < 2 then to_s8 (ch_trigger c + 1) else 0);
     s \<leftarrow> mod_upd chan (ch_trigger_update (\<lambda>_. t)) s;
     s \<leftarrow> (if t = 0 then mod_setnote chan (uint (ch_note c)) s
           else if t = 1 then mod_setnote chan (uint (ch_note c) + uint (ch_info1 c)) s
           else if t = 2 then mod_setnote chan (uint (ch_note c) + uint (ch_info2 c)) s
           else Some s);
     mod_setfreq chan s
   }"

text \<open>The volume slides of several trackers; \<open>up\<close> and \<open>down\<close> are the amounts.\<close>

definition mod_volume_slide :: "nat \<Rightarrow> u8 \<Rightarrow> u8 \<Rightarrow> 'a mod_player_scheme \<Rightarrow> 'a mod_player_scheme option" where
  "mod_volume_slide chan up down s =
     mod_vol_effect chan (if up \<noteq> 0 then ch_vol_up (uint up) else ch_vol_down (uint down)) s"

definition mod_volume_slide_alt :: "nat \<Rightarrow> bool \<Rightarrow> int \<Rightarrow> 'a mod_player_scheme \<Rightarrow> 'a mod_player_scheme option" where
  "mod_volume_slide_alt chan up amount s = do {
     additive \<leftarrow> mod_additive chan s;
     mod_vol_effect chan (if up then ch_vol_up_alt amount additive else ch_vol_down_alt amount additive) s
   }"

definition mod_slide_both :: "nat \<Rightarrow> 'a mod_player_scheme \<Rightarrow> 'a mod_player_scheme option" where
  "mod_slide_both chan s = do {
     c \<leftarrow> rd (mod_channel s) chan;
     s \<leftarrow> (if ch_info1 c \<noteq> 0
           then mod_upd chan (\<lambda>c. (ch_slide_up 1 c)\<lparr>ch_info1 := ch_info1 c - 1\<rparr>) s else Some s);
     s \<leftarrow> (if ch_info2 c \<noteq> 0
           then mod_upd chan (\<lambda>c. (ch_slide_down 1 c)\<lparr>ch_info2 := ch_info2 c - 1\<rparr>) s else Some s);
     mod_setfreq chan s
   }"

text \<open>The effect \<open>fx\<close> of channel state \<open>c\<close>, with the parameter byte and the tick counter.\<close>

definition mod_tick_fx ::
  "nat \<Rightarrow> mod_chan \<Rightarrow> u8 \<Rightarrow> u8 \<Rightarrow> 'a mod_player_scheme \<Rightarrow> 'a mod_player_scheme option"
where
  "mod_tick_fx chan c info del s =
     (let fx = ch_fx c; info1 = ch_info1 c; info2 = ch_info2 c in
     if fx = 0 then (if info \<noteq> 0 then mod_arpeggio chan s else Some s)
     else if fx = 1 then mod_freq_effect chan (ch_slide_up (uint info)) s
     else if fx = 2 then mod_freq_effect chan (ch_slide_down (uint info)) s
     else if fx = 3 then mod_freq_effect chan (ch_tone_portamento (ch_portainfo c)) s
     else if fx = 4 then mod_vibrato chan (ch_vibinfo1 c) (ch_vibinfo2 c) s
     else if fx = 5 \<or> fx = 6 \<or> fx = 10 then do {
       s \<leftarrow> (if fx = 5 then mod_freq_effect chan (ch_tone_portamento (ch_portainfo c)) s
             else if fx = 6 then mod_vibrato chan (ch_vibinfo1 c) (ch_vibinfo2 c) s
             else Some s);
       if del mod 4 \<noteq> 0 then Some s else mod_volume_slide chan info1 info2 s
     }
     else if fx = 14 then
       (if info1 = 3 \<and> uint del mod (uint info2 + 1) = 0 then mod_playnote chan s else Some s)
     else if fx = 16 then
       (if del mod 4 \<noteq> 0 then Some s
        else mod_volume_slide_alt chan (info1 \<noteq> 0) (if info1 \<noteq> 0 then uint info1 else uint info2) s)
     else if fx = 20 then
       (if info < 50 then mod_volume_slide_alt chan False (uint info) s
        else mod_volume_slide_alt chan True (uint info - 50) s)
     else if fx = 26 then mod_volume_slide chan info1 info2 s
     else if fx = 28 then mod_slide_both chan s
     else Some s)"

definition mod_tick_effect :: "nat \<Rightarrow> 'a mod_player_scheme \<Rightarrow> 'a mod_player_scheme option" where
  "mod_tick_effect chan s = do {
     c \<leftarrow> rd (mod_channel s) chan;
     mod_tick_fx chan c (mod_info (mod_has Decimal s) (ch_info1 c) (ch_info2 c)) (mod_del s) s
   }"

definition mod_tick_channel :: "nat \<Rightarrow> 'a mod_player_scheme \<Rightarrow> 'a mod_player_scheme option" where
  "mod_tick_channel chan s = do {
     let (oplchan, s) = mod_set_opl_chip chan s;
     s \<leftarrow> mod_special_arp chan oplchan s;
     mod_tick_effect chan s
   }"

section \<open>The order list\<close>

definition JUMPMARKER :: nat where "JUMPMARKER = 0x80"

partial_function (option) mod_follow_jumps :: "'a mod_player_scheme \<Rightarrow> (bool \<times> 'a mod_player_scheme) option" where
  "mod_follow_jumps s = do {
     entry \<leftarrow> rd (mod_order s) (mod_ord s);
     if unat entry \<ge> JUMPMARKER then do {
       let neword = unat entry - JUMPMARKER;
       let s1 = (if neword \<le> mod_ord s then s\<lparr>mod_songend := True\<rparr> else s);
       if neword = mod_ord s then Some (False, s1)
       else mod_follow_jumps (s1\<lparr>mod_ord := neword\<rparr>)
     }
     else Some (True, s)
   }"

definition mod_resolve_order :: "'a mod_player_scheme \<Rightarrow> (bool \<times> 'a mod_player_scheme) option" where
  "mod_resolve_order s =
     (if mod_ord s < mod_length s then mod_follow_jumps s
      else Some (True, s\<lparr>mod_songend := True, mod_ord := mod_restartpos s\<rparr>))"

section \<open>Playing a row\<close>

text \<open>The instrument column, then the note column; the result says whether to start the note.\<close>

definition mod_row_inst :: "nat \<Rightarrow> mod_event \<Rightarrow> 'a mod_player_scheme \<Rightarrow> 'a mod_player_scheme option" where
  "mod_row_inst chan t s =
     (if ev_inst t = 0 then Some s
      else do {
        s \<leftarrow> mod_upd chan (ch_inst_update (\<lambda>_. ev_inst t - 1)) s;
        if mod_has Faust s then Some s
        else do {
          c \<leftarrow> rd (mod_channel s) chan;
          i \<leftarrow> mod_ins c s;
          d10 \<leftarrow> rd (mi_data i) 10;
          d9 \<leftarrow> rd (mi_data i) 9;
          mod_vol_effect chan (\<lambda>c. c\<lparr>ch_vol1 := 63 - (d10 AND 63), ch_vol2 := 63 - (d9 AND 63)\<rparr>) s
        }
      })"

definition mod_row_note :: "nat \<Rightarrow> mod_event \<Rightarrow> 'a mod_player_scheme \<Rightarrow> 'a mod_player_scheme option" where
  "mod_row_note chan t s =
     (if ev_note t \<noteq> 0 \<and> ev_command t \<noteq> 3 then do {
        s \<leftarrow> mod_upd chan (ch_note_update (\<lambda>_. ev_note t)) s;
        s \<leftarrow> mod_setnote chan (uint (ev_note t)) s;
        c \<leftarrow> rd (mod_channel s) chan;
        i \<leftarrow> mod_ins c s;
        mod_upd chan (\<lambda>c. c\<lparr>ch_nextfreq := ch_freq c, ch_nextoct := ch_oct c,
                           ch_arppos := mi_arpstart i, ch_arpspdcnt := 0\<rparr>) s
      } else Some s)"

definition mod_starts_note :: "mod_event \<Rightarrow> bool" where
  "mod_starts_note t \<longleftrightarrow> ev_note t \<noteq> 0 \<and> ev_command t \<noteq> 3 \<and> ev_note t \<noteq> 127"

text \<open>Tone portamento: the target the row sets.\<close>

definition mod_porta_target :: "nat \<Rightarrow> mod_event \<Rightarrow> 'a mod_player_scheme \<Rightarrow> 'a mod_player_scheme option" where
  "mod_porta_target chan t s =
     (let note = ev_note t
      in if note = 0 then Some s
         else do {
           f \<leftarrow> (if note < 13 then rd_int (mod_notetable s) (uint note - 1)
                else if uint note mod 12 > 0 then rd_int (mod_notetable s) (uint note mod 12 - 1)
                else rd (mod_notetable s) 11);
           s \<leftarrow> mod_upd chan (\<lambda>c. c\<lparr>ch_nextfreq := f, ch_nextoct := to_u8 ((uint note - 1) div 12)\<rparr>) s;
           if note = 127 then mod_upd chan (\<lambda>c. c\<lparr>ch_nextfreq := ch_freq c, ch_nextoct := ch_oct c\<rparr>) s
           else Some s
         })"

text \<open>The tremolo and vibrato bits of register 0xbd.\<close>

definition mod_regbd_bit :: "u8 \<Rightarrow> bool \<Rightarrow> 'a mod_player_scheme \<Rightarrow> 'a mod_player_scheme" where
  "mod_regbd_bit b on s =
     s\<lparr>mod_regbd := (if on then mod_regbd s OR b else mod_regbd s AND NOT b)\<rparr>"

definition mod_write_bd :: "'a mod_player_scheme \<Rightarrow> 'a mod_player_scheme" where
  "mod_write_bd s = opl_write 0xbd (uint (mod_regbd s)) s"

definition cap63 :: "u8 \<Rightarrow> u8" where "cap63 v = (if v > 63 then 63 else v)"

text \<open>The extended command 14, but for the pattern delay.\<close>

definition mod_extended :: "nat \<Rightarrow> u8 \<Rightarrow> u8 \<Rightarrow> 'a mod_player_scheme \<Rightarrow> 'a mod_player_scheme option" where
  "mod_extended chan info1 info2 s =
     (if info1 = 0 then Some (mod_write_bd (mod_regbd_bit 128 (info2 \<noteq> 0) s))
      else if info1 = 1 then Some (mod_write_bd (mod_regbd_bit 64 (info2 \<noteq> 0) s))
      else if info1 = 4 then mod_volume_slide_alt chan True (uint info2) s
      else if info1 = 5 then mod_volume_slide_alt chan False (uint info2) s
      else if info1 = 6 then mod_freq_effect chan (ch_slide_up (uint info2)) s
      else if info1 = 7 then mod_freq_effect chan (ch_slide_down (uint info2)) s
      else Some s)"

text \<open>The effects of a row that leave the position in the song alone.\<close>

definition mod_row_fx ::
  "nat \<Rightarrow> nat \<Rightarrow> mod_event \<Rightarrow> mod_chan \<Rightarrow> u8 \<Rightarrow> 'a mod_player_scheme \<Rightarrow> 'a mod_player_scheme option"
where
  "mod_row_fx chan oplchan t c info s =
     (let fx = ch_fx c; info1 = ch_info1 c; info2 = ch_info2 c in
     if fx = 3 then do {
       s \<leftarrow> mod_porta_target chan t s;
       if info \<noteq> 0 then mod_upd chan (ch_portainfo_update (\<lambda>_. info)) s else Some s
     }
     else if fx = 4 then
       (if info \<noteq> 0 then mod_upd chan (\<lambda>c. c\<lparr>ch_vibinfo1 := info1, ch_vibinfo2 := info2\<rparr>) s else Some s)
     else if fx = 7 then Some (s\<lparr>mod_tempo := ucast info\<rparr>)
     else if fx = 8 then mod_freq_effect chan (ch_key_update (\<lambda>_. 0)) s
     else if fx = 9 then
       mod_vol_effect chan (if info1 \<noteq> 0 then ch_vol1_update (\<lambda>_. info1 * 7) else ch_vol2_update (\<lambda>_. info2 * 7)) s
     else if fx = 12 then mod_vol_effect chan (\<lambda>c. c\<lparr>ch_vol1 := cap63 info, ch_vol2 := cap63 info\<rparr>) s
     else if fx = 14 then mod_extended chan info1 info2 s
     else if fx = 15 then do {
       let s = (if info \<le> 0x1f then s\<lparr>mod_speed := info\<rparr> else s);
       let s = (if info \<ge> 0x32 then s\<lparr>mod_tempo := ucast info\<rparr> else s);
       Some (if info = 0 then s\<lparr>mod_songend := True\<rparr> else s)
     }
     else if fx = 17 then do {
       additive \<leftarrow> mod_additive chan s;
       mod_vol_effect chan (\<lambda>c. c\<lparr>ch_vol1 := cap63 info,
                                  ch_vol2 := (if additive then cap63 info else ch_vol2 c)\<rparr>) s
     }
     else if fx = 18 then do {
       let s = (if info \<le> 31 \<and> info > 0 then s\<lparr>mod_speed := info\<rparr> else s);
       Some (if info > 31 \<or> info = 0 then s\<lparr>mod_tempo := ucast info\<rparr> else s)
     }
     else if fx = 19 then Some (s\<lparr>mod_speed := (if info \<noteq> 0 then info else info + 1)\<rparr>)
     else if fx = 21 then mod_vol_effect chan (ch_vol2_update (\<lambda>_. cap63 info)) s
     else if fx = 22 then mod_vol_effect chan (ch_vol1_update (\<lambda>_. cap63 info)) s
     else if fx = 23 then mod_freq_effect chan (ch_slide_up (uint info)) s
     else if fx = 24 then mod_freq_effect chan (ch_slide_down (uint info)) s
     else if fx = 25 then do {
       op \<leftarrow> rd op_table oplchan;
       let s = (if info1 \<noteq> 0x0f then opl_write (0xe3 + op) (uint info1) s else s);
       Some (if info2 \<noteq> 0x0f then opl_write (0xe0 + op) (uint info2) s else s)
     }
     else if fx = 27 then
       Some (mod_write_bd (mod_regbd_bit 64 (info2 \<noteq> 0) (mod_regbd_bit 128 (info1 \<noteq> 0) s)))
     else Some s)"

text \<open>
  The effects of a row that jump or delay, with \<open>pattbreak\<close> and \<open>pattern_delay\<close>, and the rest.
\<close>

definition mod_row_command ::
  "nat \<Rightarrow> nat \<Rightarrow> mod_event \<Rightarrow> 'a mod_player_scheme \<times> bool \<times> u8 \<Rightarrow> ('a mod_player_scheme \<times> bool \<times> u8) option"
where
  "mod_row_command chan oplchan t = (\<lambda>(s, pattbreak, delay). do {
     c \<leftarrow> rd (mod_channel s) chan;
     let fx = ch_fx c;
     let info = mod_info (mod_has Decimal s) (ch_info1 c) (ch_info2 c);
     if fx = 11 then
       (let s = s\<lparr>mod_rw := 0\<rparr>;
            s = (if unat info \<le> mod_ord s then s\<lparr>mod_songend := True\<rparr> else s)
        in Some (s\<lparr>mod_ord := unat info\<rparr>, True, delay))
     else if fx = 13 then
       (if \<not> pattbreak
        then Some (s\<lparr>mod_rw := (if unat info < mod_nrows s then unat info else 0), mod_ord := mod_ord s + 1\<rparr>,
                   True, delay)
        else Some (s, pattbreak, delay))
     else if fx = 14 \<and> ch_info1 c = 8 then Some (s, pattbreak, ch_info2 c * mod_speed s)
     else if fx = 29 then Some (s, pattbreak, info)
     else do { s \<leftarrow> mod_row_fx chan oplchan t c info s; Some (s, pattbreak, delay) }
   })"

definition mod_play_event :: "nat \<Rightarrow> mod_event \<Rightarrow> 'a mod_player_scheme \<Rightarrow> 'a mod_player_scheme option" where
  "mod_play_event chan t s = do {
     s \<leftarrow> mod_row_inst chan t s;
     s \<leftarrow> mod_row_note chan t s;
     s \<leftarrow> mod_upd chan (\<lambda>c. c\<lparr>ch_fx := ev_command t, ch_info1 := ev_param1 t, ch_info2 := ev_param2 t\<rparr>) s;
     if mod_starts_note t then mod_playnote chan s else Some s
   }"

definition mod_play_channel ::
  "nat \<Rightarrow> nat \<Rightarrow> nat \<Rightarrow> 'a mod_player_scheme \<times> bool \<times> u8 \<Rightarrow> ('a mod_player_scheme \<times> bool \<times> u8) option"
where
  "mod_play_channel pattnr row chan = (\<lambda>(s, pattbreak, delay). do {
     let (oplchan, s) = mod_set_opl_chip chan s;
     u \<leftarrow> require (chan \<le> 31);
     if even (mod_activechan s div 2 ^ (31 - chan)) then Some (s, pattbreak, delay)
     else do {
       track \<leftarrow> rd2 (mod_trackord s) pattnr chan;
       if track = 0 then Some (s, pattbreak, delay)
       else do {
         t \<leftarrow> rd2 (mod_tracks s) (unat track - 1) row;
         s \<leftarrow> mod_play_event chan t s;
         mod_row_command chan oplchan t (s, pattbreak, delay)
       }
     }
   })"

section \<open>update, rewind and the allocation of a module\<close>

definition mod_next_row :: "'a mod_player_scheme \<Rightarrow> 'a mod_player_scheme" where
  "mod_next_row s =
     (if mod_rw s + 1 \<ge> mod_nrows s then s\<lparr>mod_rw := 0, mod_ord := mod_ord s + 1\<rparr>
      else s\<lparr>mod_rw := mod_rw s + 1\<rparr>)"

text \<open>The row at the current position, once the order list is resolved.\<close>

definition mod_play_row :: "'a mod_player_scheme \<Rightarrow> (bool \<times> 'a mod_player_scheme) option" where
  "mod_play_row s = do {
     pattnr \<leftarrow> rd (mod_order s) (mod_ord s);
     (s, pattbreak, delay) \<leftarrow> ofold (mod_play_channel (unat pattnr) (mod_rw s)) [0..<mod_nchans s] (s, False, 0);
     let s = s\<lparr>mod_del := mod_speed s - 1 + delay\<rparr>;
     let s = (if \<not> pattbreak then mod_next_row s else s);
     (ok, s) \<leftarrow> mod_resolve_order s;
     Some (\<not> mod_songend s, s)
   }"

text \<open>The channel counter is an \<open>unsigned char\<close>: with more than 255 channels its loop never ends.\<close>

definition mod_update :: "'a mod_player_scheme \<Rightarrow> (bool \<times> 'a mod_player_scheme) option" where
  "mod_update s =
     (if mod_speed s = 0 then Some (False, s)
      else do {
        u \<leftarrow> require (mod_nchans s < 256);
        s \<leftarrow> ofold mod_tick_channel [0..<mod_nchans s] s;
        if mod_del s \<noteq> 0 then Some (\<not> mod_songend s, s\<lparr>mod_del := mod_del s - 1\<rparr>)
        else do {
          (ok, s) \<leftarrow> mod_resolve_order s;
          if \<not> ok then Some (\<not> mod_songend s, s) else mod_play_row s
        }
      })"

definition mod_count_patterns :: "'a mod_player_scheme \<Rightarrow> u16 option" where
  "mod_count_patterns s =
     (if mod_nop s = 0
      then ofold (\<lambda>i nop. do {
             entry \<leftarrow> rd (mod_order s) i;
             Some (if ucast entry > nop then ucast entry else nop)
           }) [0..<mod_length s] (mod_nop s)
      else Some (mod_nop s))"

definition mod_rewind :: "int \<Rightarrow> 'a mod_player_scheme \<Rightarrow> 'a mod_player_scheme option" where
  "mod_rewind subsong s = do {
     let s = s\<lparr>mod_songend := False, mod_del := 0, mod_ord := 0, mod_rw := 0, mod_regbd := 0,
               mod_tempo := mod_bpm s, mod_speed := mod_initspeed s,
               mod_channel := replicate (mod_nchans s) zero_chan\<rparr>;
     nop \<leftarrow> mod_count_patterns s;
     let s = opl_write 1 32 (opl_init (s\<lparr>mod_nop := nop\<rparr>));
     let s = (if mod_has Opl3 s
              then opl_setchip 0 (opl_write 5 1 (opl_write 1 32 (opl_setchip 1 s))) else s);
     let s = (if mod_has Tremolo s then s\<lparr>mod_regbd := mod_regbd s OR 128\<rparr> else s);
     let s = (if mod_has Vibrato s then s\<lparr>mod_regbd := mod_regbd s OR 64\<rparr> else s);
     Some (if mod_regbd s \<noteq> 0 then mod_write_bd s else s)
   }"

definition mod_init_trackord :: "'a mod_player_scheme \<Rightarrow> 'a mod_player_scheme option" where
  "mod_init_trackord s = do {
     tord \<leftarrow> ofold (\<lambda>i m. wr2 m (i div mod_nchans s) (i mod mod_nchans s) (of_nat (i + 1)))
              [0..<mod_npats s * mod_nchans s] (mod_trackord s);
     Some (s\<lparr>mod_trackord := tord\<rparr>)
   }"

definition SPECIALARPLEN :: nat where "SPECIALARPLEN = 256"

definition mod_init_specialarp :: "(nat \<Rightarrow> u8) \<Rightarrow> 'a mod_player_scheme \<Rightarrow> 'a mod_player_scheme" where
  "mod_init_specialarp mem s =
     s\<lparr>mod_arplist := Some (fresh mem SPECIALARPLEN), mod_arpcmd := Some (fresh mem SPECIALARPLEN)\<rparr>"

definition mod_init_notetable :: "u16 list \<Rightarrow> 'a mod_player_scheme \<Rightarrow> 'a mod_player_scheme option" where
  "mod_init_notetable table s = do {
     u \<leftarrow> require (12 \<le> length table);
     Some (s\<lparr>mod_notetable := take 12 table\<rparr>)
   }"

definition mod_realloc_order :: "(nat \<Rightarrow> u8) \<Rightarrow> nat \<Rightarrow> 'a mod_player_scheme \<Rightarrow> 'a mod_player_scheme" where
  "mod_realloc_order mem len s = s\<lparr>mod_order := fresh mem len\<rparr>"

definition mod_realloc_patterns ::
  "(nat \<Rightarrow> mod_chan) \<Rightarrow> nat \<Rightarrow> nat \<Rightarrow> nat \<Rightarrow> 'a mod_player_scheme \<Rightarrow> 'a mod_player_scheme"
where
  "mod_realloc_patterns cmem pats rows chans s =
     s\<lparr>mod_npats := pats, mod_nrows := rows, mod_nchans := chans,
       mod_tracks := replicate (pats * chans) (replicate rows zero_event),
       mod_trackord := replicate pats (replicate chans 0),
       mod_channel := map cmem [0..<chans]\<rparr>"

definition mod_realloc_instruments :: "nat \<Rightarrow> 'a mod_player_scheme \<Rightarrow> 'a mod_player_scheme" where
  "mod_realloc_instruments len s = s\<lparr>mod_inst := replicate len zero_instrument\<rparr>"

text \<open>The constructor; what it does not set keeps what the memory of the object held.\<close>

definition mod_construct ::
  "(nat \<Rightarrow> u8) \<Rightarrow> (nat \<Rightarrow> mod_chan) \<Rightarrow> int \<Rightarrow> 'a mod_player_scheme \<Rightarrow> 'a mod_player_scheme option"
where
  "mod_construct mem cmem chip s =
     mod_init_notetable sa2_notetable
       (mod_realloc_instruments 250 (mod_realloc_patterns cmem 64 64 9 (mod_realloc_order mem 128
         (s\<lparr>mod_arplist := None, mod_arpcmd := None, mod_initspeed := 6, mod_nop := 0,
            mod_activechan := 0xffffffff, mod_flags := 0, mod_curchip := chip\<rparr>))))"

end
