(* ===== verification/Modsafe.thy ===== *)
theory Modsafe
  imports Protrack Steps
begin

text \<open>
  The engine \<open>CmodPlayer\<close> never leaves its arrays: what a well-formed module is, that every
  operation and effect keeps it, and that \<open>update\<close> returns for it.
\<close>

section \<open>Well-formed modules\<close>

text \<open>A channel that plays an existing instrument and whose trigger the vibrato table covers.\<close>

definition ch_valid :: "nat \<Rightarrow> mod_chan \<Rightarrow> bool" where
  "ch_valid m c \<longleftrightarrow> unat (ch_inst c) < m \<and> 0 \<le> ch_trigger c \<and> ch_trigger c < 64"

text \<open>The arrays every operation reads, with \<open>m\<close> instruments and \<open>n\<close> channels.\<close>

definition mod_valid :: "'a mod_player_scheme \<Rightarrow> bool" where
  "mod_valid s \<longleftrightarrow>
     length (mod_channel s) = mod_nchans s \<and>
     (\<forall>c \<in> set (mod_channel s). ch_valid (length (mod_inst s)) c) \<and>
     (\<forall>i \<in> set (mod_inst s). length (mi_data i) = 11) \<and>
     length (mod_notetable s) = 12 \<and>
     (\<forall>al. mod_arplist s = Some al \<longrightarrow> length al = SPECIALARPLEN) \<and>
     (\<forall>ac. mod_arpcmd s = Some ac \<longrightarrow> length ac = SPECIALARPLEN)"

definition mod_pre :: "nat \<Rightarrow> nat \<Rightarrow> 'a mod_player_scheme \<Rightarrow> bool" where
  "mod_pre m n s \<longleftrightarrow> mod_valid s \<and> length (mod_inst s) = m \<and> length (mod_channel s) = n"

text \<open>What playing never changes.\<close>

definition mod_frame where
  "mod_frame s =
     (mod_inst s, mod_tracks s, mod_order s, mod_arplist s, mod_arpcmd s, mod_initspeed s, mod_trackord s,
      mod_bpm s, mod_nop s, mod_length s, mod_restartpos s, mod_activechan s, mod_flags s,
      mod_notetable s, mod_nrows s, mod_npats s, mod_nchans s, mod_player.more s)"

text \<open>What the operations on one channel keep: all but the chip, the channel and the tempo.\<close>

definition mod_keep :: "'a mod_player_scheme \<Rightarrow> 'a mod_player_scheme \<Rightarrow> bool" where
  "mod_keep s t \<longleftrightarrow>
     mod_valid t \<and> mod_frame t = mod_frame s \<and> length (mod_channel t) = length (mod_channel s) \<and>
     (mod_rw t, mod_ord t, mod_del t) = (mod_rw s, mod_ord s, mod_del s) \<and>
     (mod_songend s \<longrightarrow> mod_songend t) \<and> (\<exists>es. opl_out t = opl_out s @ es)"

lemma mod_keepD:
  assumes "mod_keep s t"
  shows "mod_valid t" "mod_frame t = mod_frame s" "length (mod_channel t) = length (mod_channel s)"
    "mod_rw t = mod_rw s" "mod_ord t = mod_ord s" "mod_del t = mod_del s"
    "mod_songend s \<longrightarrow> mod_songend t" "\<exists>es. opl_out t = opl_out s @ es"
  using assms by (simp_all add: mod_keep_def)

lemma mod_frame_inst: "mod_frame t = mod_frame s \<Longrightarrow> mod_inst t = mod_inst s"
  by (simp add: mod_frame_def)

lemma mod_keep_trans: "mod_keep s t \<Longrightarrow> mod_keep t u \<Longrightarrow> mod_keep s u"
proof -
  assume st: "mod_keep s t" and tu: "mod_keep t u"
  obtain es fs where "opl_out t = opl_out s @ es" "opl_out u = opl_out t @ fs"
    using mod_keepD(8) [OF st] mod_keepD(8) [OF tu] by blast
  then have "opl_out u = opl_out s @ (es @ fs)" by simp
  then show "mod_keep s u"
    using mod_keepD(2-7) [OF st] mod_keepD(1-7) [OF tu] by (simp add: mod_keep_def)
qed

interpretation mo: step_calculus "mod_pre m n" "mod_keep :: 'a mod_player_scheme \<Rightarrow> _" for m n
proof
  fix s t u :: "'a mod_player_scheme"
  show "mod_pre m n s \<Longrightarrow> mod_keep s s" by (simp add: mod_pre_def mod_keep_def)
  show "mod_keep s t \<Longrightarrow> mod_keep t u \<Longrightarrow> mod_keep s u" by (rule mod_keep_trans)
  show "mod_pre m n s \<Longrightarrow> mod_keep s t \<Longrightarrow> mod_pre m n t"
    using mod_keepD(1,3) [of s t] mod_frame_inst [of t s] mod_keepD(2) [of s t] by (simp add: mod_pre_def)
qed

abbreviation mod_op :: "nat \<Rightarrow> nat \<Rightarrow> ('a mod_player_scheme \<Rightarrow> 'a mod_player_scheme option) \<Rightarrow> bool" where
  "mod_op m n \<equiv> op_ok (mod_pre m n) mod_keep"

section \<open>The operations\<close>

lemma mod_keep_write: "mod_pre m n s \<Longrightarrow> mod_keep s (opl_write r v s)"
  by (auto simp: mod_keep_def mod_pre_def mod_valid_def mod_frame_def opl_write_def)

lemma mod_keep_chip: "mod_pre m n s \<Longrightarrow> mod_keep s (snd (mod_set_opl_chip chan s))"
  by (auto simp: mod_keep_def mod_pre_def mod_valid_def mod_frame_def mod_set_opl_chip_def opl_setchip_def Let_def)

lemma mod_keep_regbd: "mod_pre m n s \<Longrightarrow> mod_keep s (mod_regbd_bit b on s)"
  by (auto simp: mod_keep_def mod_pre_def mod_valid_def mod_frame_def mod_regbd_bit_def)

lemma mod_keep_tempo:
  "mod_pre m n s \<Longrightarrow> mod_keep s (s\<lparr>mod_tempo := x\<rparr>)"
  "mod_pre m n s \<Longrightarrow> mod_keep s (s\<lparr>mod_speed := y\<rparr>)"
  "mod_pre m n s \<Longrightarrow> mod_keep s (s\<lparr>mod_songend := True\<rparr>)"
  by (auto simp: mod_keep_def mod_pre_def mod_valid_def mod_frame_def)

text \<open>Reading a channel, its instrument, and the entries of its data.\<close>

lemma mod_read_chan: "chan < n \<Longrightarrow> mod_pre m n s \<Longrightarrow> \<exists>c. rd (mod_channel s) chan = Some c \<and> ch_valid m c"
  by (auto simp: mod_pre_def mod_valid_def rd_Some)

lemma mod_read_ins:
  "ch_valid m c \<Longrightarrow> mod_pre m n s \<Longrightarrow> \<exists>i. mod_ins c s = Some i \<and> length (mi_data i) = 11"
  by (auto simp: mod_pre_def mod_valid_def rd_Some ch_valid_def mod_ins_def)

lemma mod_read_list: "j < length xs \<Longrightarrow> \<exists>d. rd xs j = Some d \<and> True"
  by (simp add: rd_Some)

lemma mod_read_op: "j < 9 \<Longrightarrow> \<exists>d. rd op_table j = Some d \<and> True"
  by (simp add: rd_Some)

lemma mod_read_note:
  "0 \<le> j \<Longrightarrow> j < 12 \<Longrightarrow> mod_pre m n s \<Longrightarrow> \<exists>f. rd_int (mod_notetable s) j = Some f \<and> True"
  by (auto simp: mod_pre_def mod_valid_def rd_int_nonneg rd_Some nat_less_iff)

text \<open>Operations that start by choosing the chip of their channel.\<close>

lemma mod_op_chip:
  assumes "\<And>oplchan. oplchan < 9 \<Longrightarrow> mod_op m n (g oplchan)"
  shows "mod_op m n (\<lambda>s. case mod_set_opl_chip chan s of (oplchan, s) \<Rightarrow> g oplchan s)"
proof -
  have eq: "(\<lambda>s. case mod_set_opl_chip chan s of (oplchan, s) \<Rightarrow> g oplchan s) =
      (\<lambda>s. g (chan mod 9) (snd (mod_set_opl_chip chan s)))"
    by (rule ext) (simp add: mod_set_opl_chip_def Let_def)
  show ?thesis
    unfolding eq by (rule mo.ok_after [OF mod_keep_chip assms]) simp_all
qed

lemma mod_op_upd:
  assumes "chan < n" "\<And>c. ch_valid m c \<Longrightarrow> ch_valid m (f c)"
  shows "mod_op m n (mod_upd chan f)"
proof (rule op_okI)
  fix s :: "'a mod_player_scheme" assume s: "mod_pre m n s"
  let ?cs = "mod_channel s"
  have "chan < length ?cs" "ch_valid m (f (?cs ! chan))"
    using s assms mod_read_chan [OF assms(1) s] by (auto simp: mod_pre_def rd_Some)
  then show "\<exists>t. mod_upd chan f s = Some t \<and> mod_keep s t"
    using s by (auto simp: mod_upd_def rd_Some mod_keep_def mod_pre_def mod_valid_def mod_frame_def
        dest!: set_update_subset_insert [THEN subsetD])
qed

lemma mod_op_write: "mod_op m n (\<lambda>s. Some (opl_write r v s))"
  by (rule mo.ok_return) (rule mod_keep_write)

text \<open>The rules by which the body of an operation is taken apart, reads first.\<close>

lemmas mod_reads =
  mo.ok_read [OF mod_read_chan] mo.ok_read [OF mod_read_ins] mo.ok_read [OF mod_read_op]
  mo.ok_read [OF mod_read_note] mo.ok_read [OF mod_read_list]

lemmas mod_parts = mod_op_chip mod_reads mo.ok_after [OF mod_keep_write] mod_op_write mo.ok_skip mo.ok_if

lemma mod_op_setfreq: "chan < n \<Longrightarrow> mod_op m n (mod_setfreq chan)"
  unfolding mod_setfreq_def [abs_def] Let_def
  by (intro mod_parts | assumption | simp)+

lemma mod_op_setvolume_alt: "chan < n \<Longrightarrow> mod_op m n (mod_setvolume_alt chan)"
  unfolding mod_setvolume_alt_def [abs_def] Let_def
  by (intro mod_parts | assumption | simp)+

lemma mod_op_setvolume: "chan < n \<Longrightarrow> mod_op m n (mod_setvolume chan)"
  unfolding mod_setvolume_def [abs_def] Let_def
  by (intro mod_parts mod_op_setvolume_alt | assumption | simp)+

text \<open>Changes of a channel that leave its instrument and its trigger alone.\<close>

definition ch_same :: "(mod_chan \<Rightarrow> mod_chan) \<Rightarrow> bool" where
  "ch_same f \<longleftrightarrow> (\<forall>c. ch_inst (f c) = ch_inst c \<and> ch_trigger (f c) = ch_trigger c)"

lemma mod_op_upd_same: "chan < n \<Longrightarrow> ch_same f \<Longrightarrow> mod_op m n (mod_upd chan f)"
  by (rule mod_op_upd) (simp_all add: ch_valid_def ch_same_def)

lemma mod_op_freq_effect: "chan < n \<Longrightarrow> ch_same f \<Longrightarrow> mod_op m n (mod_freq_effect chan f)"
  unfolding mod_freq_effect_def [abs_def]
  by (rule mo.ok_bind [OF mod_op_upd_same mod_op_setfreq])

lemma mod_op_vol_effect: "chan < n \<Longrightarrow> ch_same f \<Longrightarrow> mod_op m n (mod_vol_effect chan f)"
  unfolding mod_vol_effect_def [abs_def]
  by (rule mo.ok_bind [OF mod_op_upd_same mod_op_setvolume])

lemma ch_same_slides [simp]:
  "ch_same (ch_slide_up a)" "ch_same (ch_slide_down a)" "ch_same (ch_tone_portamento i)"
  "ch_same (ch_vol_up a)" "ch_same (ch_vol_down a)" "ch_same (ch_vol_up_alt a b)" "ch_same (ch_vol_down_alt a b)"
  by (simp_all add: ch_same_def ch_slide_up_def ch_slide_down_def ch_tone_portamento_def ch_vol_up_def
      ch_vol_down_def ch_vol_up_alt_def ch_vol_down_alt_def Let_def)

lemma mod_op_ins_regs:
  "length (mi_data i) = 11 \<Longrightarrow> mod_op m n (ofold (\<lambda>(reg, j) s. do {
     d \<leftarrow> rd (mi_data i) j; Some (opl_write (reg + op) (uint d) s) }) mod_ins_regs)"
  by (rule mo.ok_ofold)
     (auto simp: mod_ins_regs_def intro!: mo.ok_read [OF mod_read_list] mod_op_write)

lemma mod_keep_write_if: "mod_pre m n s \<Longrightarrow> mod_keep s (if b s then opl_write r v s else s)"
  by (auto intro: mod_keep_write mo.keep_refl)

lemma mod_op_playnote: "chan < n \<Longrightarrow> mod_op m n (mod_playnote chan)"
  unfolding mod_playnote_def [abs_def] Let_def
  by (intro mod_parts mod_op_setvolume mod_op_setfreq mod_op_upd_same mo.ok_bind mod_op_ins_regs
        mo.ok_after [OF mod_keep_write_if] | assumption | simp | simp add: ch_same_def)+

lemma mod_op_setnote: "chan < n \<Longrightarrow> mod_op m n (mod_setnote chan note)"
  unfolding mod_setnote_def [abs_def] Let_def
  by (intro mod_parts mod_op_setfreq mod_op_upd_same mo.ok_bind | assumption | simp | simp add: ch_same_def)+

section \<open>The effects\<close>

lemma mod_read_any: "\<exists>v. f s = Some v \<and> True" if "mod_op m n f" "mod_pre m n s"
  using op_okD [OF that] by blast

lemma rd_vibratotab: "0 \<le> t \<Longrightarrow> t < 32 \<Longrightarrow> rd_int vibratotab t = Some (vibratotab ! nat t)"
  by (simp add: rd_int_def rd_def vibratotab_def nat_less_iff)

text \<open>The vibrato table is never left: the trigger counts from 0 to 63.\<close>

lemma ch_vibrato_step_ok:
  assumes "0 \<le> ch_trigger c" "ch_trigger c < 64"
  shows "\<exists>c'. ch_vibrato_step depth c = Some c' \<and> ch_inst c' = ch_inst c \<and>
    0 \<le> ch_trigger c' \<and> ch_trigger c' < 64"
proof -
  let ?t0 = "to_s8 (ch_trigger c + 1)"
  have t0: "?t0 = ch_trigger c + 1" using assms by (simp add: to_s8_def)
  let ?t = "if ?t0 \<ge> 64 then ?t0 mod 64 else ?t0"
  have t: "0 \<le> ?t" "?t < 64" using assms t0 by auto
  have same: "ch_inst (ch_slide_up a d) = ch_inst d" "ch_trigger (ch_slide_up a d) = ch_trigger d"
    "ch_inst (ch_slide_down a d) = ch_inst d" "ch_trigger (ch_slide_down a d) = ch_trigger d" for a d
    using ch_same_slides(1,2) by (simp_all add: ch_same_def)
  consider "16 \<le> ?t" "?t < 48" | "?t < 16" | "48 \<le> ?t" by linarith
  then show ?thesis
    using t by cases (simp_all add: ch_vibrato_step_def Let_def rd_vibratotab same)
qed

lemma ch_vibrato_ok:
  assumes "ch_valid m c"
  shows "\<exists>c'. ch_vibrato speed depth c = Some c' \<and> ch_valid m c'"
  unfolding ch_vibrato_def
proof (rule ofold_invariant)
  show "ch_valid m c" by (rule assms)
  fix i s assume "ch_valid m s"
  then show "\<exists>s'. ch_vibrato_step (if depth > 14 then 14 else depth) s = Some s' \<and> ch_valid m s'"
    using ch_vibrato_step_ok [of s "if depth > 14 then 14 else depth"] by (auto simp: ch_valid_def)
qed

lemma mod_op_vibrato: "chan < n \<Longrightarrow> mod_op m n (mod_vibrato chan speed depth)"
  unfolding mod_vibrato_def [abs_def] mod_freq_effect_def [abs_def]
  by (intro mo.ok_if mo.ok_skip mo.ok_read [OF mod_read_chan] mo.ok_read [OF ch_vibrato_ok] mo.ok_bind
        mod_op_upd mod_op_setfreq | assumption)+

lemma mod_read_additive: "chan < n \<Longrightarrow> mod_pre m n s \<Longrightarrow> \<exists>b. mod_additive chan s = Some b \<and> True"
proof -
  assume s: "mod_pre m n s" and "chan < n"
  obtain c where c: "rd (mod_channel s) chan = Some c" "ch_valid m c"
    using mod_read_chan [OF \<open>chan < n\<close> s] by blast
  obtain i where "mod_ins c s = Some i" "length (mi_data i) = 11" using mod_read_ins [OF c(2) s] by blast
  then show ?thesis using c(1) by (simp add: mod_additive_def rd_Some)
qed

lemma mod_op_arpeggio: "chan < n \<Longrightarrow> mod_op m n (mod_arpeggio chan)"
  unfolding mod_arpeggio_def [abs_def] Let_def
  by (intro mod_parts mod_op_setfreq mod_op_setnote mod_op_upd mo.ok_bind | assumption
      | simp add: ch_valid_def to_s8_def)+

lemma mod_op_volume_slide: "chan < n \<Longrightarrow> mod_op m n (mod_volume_slide chan up down)"
  unfolding mod_volume_slide_def [abs_def] by (rule mod_op_vol_effect) simp_all

lemma mod_op_volume_slide_alt: "chan < n \<Longrightarrow> mod_op m n (mod_volume_slide_alt chan up amount)"
  unfolding mod_volume_slide_alt_def [abs_def]
  by (intro mo.ok_read [OF mod_read_additive] mod_op_vol_effect | assumption | simp)+

lemma mod_op_slide_both: "chan < n \<Longrightarrow> mod_op m n (mod_slide_both chan)"
  unfolding mod_slide_both_def [abs_def]
  by (intro mod_parts mod_op_setfreq mod_op_upd_same mo.ok_bind | assumption
      | simp add: ch_same_def ch_slide_up_def ch_slide_down_def Let_def)+

lemma mod_op_tick_fx: "chan < n \<Longrightarrow> mod_op m n (mod_tick_fx chan c info del)"
  unfolding mod_tick_fx_def [abs_def] Let_def
  by (intro mo.ok_if mo.ok_skip mo.ok_bind mod_op_arpeggio mod_op_freq_effect mod_op_vibrato mod_op_volume_slide
        mod_op_volume_slide_alt mod_op_playnote mod_op_slide_both | assumption | rule ch_same_slides)+

lemma mod_op_tick_effect: "chan < n \<Longrightarrow> mod_op m n (mod_tick_effect chan)"
proof (rule op_okI)
  fix s :: "'a mod_player_scheme" assume s: "mod_pre m n s" and "chan < n"
  obtain c where c: "rd (mod_channel s) chan = Some c" using mod_read_chan [OF \<open>chan < n\<close> s] by blast
  show "\<exists>t. mod_tick_effect chan s = Some t \<and> mod_keep s t"
    using op_okD [OF mod_op_tick_fx [OF \<open>chan < n\<close>] s] c by (simp add: mod_tick_effect_def)
qed

text \<open>The special arpeggio: its two lists have an entry for every position.\<close>

lemma mod_read_arp: "length al = SPECIALARPLEN \<Longrightarrow> \<exists>v. rd al (unat (p :: u8)) = Some v \<and> True"
  by (simp add: rd_Some SPECIALARPLEN_def)

lemma mod_op_arp_command:
  "chan < n \<Longrightarrow> oplchan < 9 \<Longrightarrow> length al = SPECIALARPLEN \<Longrightarrow> length ac = SPECIALARPLEN \<Longrightarrow>
   mod_op m n (mod_arp_command chan oplchan al ac)"
  unfolding mod_arp_command_def [abs_def] Let_def
  by (intro mo.ok_read [OF mod_read_arp] mod_parts mod_op_vol_effect mod_op_freq_effect mod_op_upd_same
        mo.ok_after [OF mod_keep_write_if] mo.ok_return mod_keep_write_if
      | assumption | simp | simp add: ch_same_def)+

lemma mod_op_arp_note:
  "chan < n \<Longrightarrow> length al = SPECIALARPLEN \<Longrightarrow> length ac = SPECIALARPLEN \<Longrightarrow>
   mod_op m n (mod_arp_note chan al ac)"
  unfolding mod_arp_note_def [abs_def]
  by (intro mo.ok_read [OF mod_read_arp] mo.ok_read [OF mod_read_chan] mo.ok_if mo.ok_skip mo.ok_bind
        mod_op_setnote | assumption)+

lemma mod_op_special_arp:
  assumes "chan < n" "oplchan < 9"
  shows "mod_op m n (mod_special_arp chan oplchan)"
proof (rule op_okI)
  fix s :: "'a mod_player_scheme" assume s: "mod_pre m n s"
  show "\<exists>t. mod_special_arp chan oplchan s = Some t \<and> mod_keep s t"
  proof (cases "mod_arplist s = None \<or> mod_arpcmd s = None")
    case True
    then show ?thesis using mo.keep_refl [OF s] by (auto simp: mod_special_arp_def split: option.split)
  next
    case False
    then obtain al ac where l: "mod_arplist s = Some al" "mod_arpcmd s = Some ac" by auto
    then have len: "length al = SPECIALARPLEN" "length ac = SPECIALARPLEN"
      using s by (auto simp: mod_pre_def mod_valid_def)
    let ?body = "\<lambda>s. do {
      c \<leftarrow> rd (mod_channel s) chan;
      i \<leftarrow> mod_ins c s;
      if mi_arpstart i = 0 then Some s
      else if ch_arpspdcnt c \<noteq> 0 then mod_upd chan (ch_arpspdcnt_update (\<lambda>n. n - 1)) s
      else do {
        cmd \<leftarrow> rd ac (unat (ch_arppos c));
        if cmd = 255 then Some s
        else do {
          s \<leftarrow> mod_arp_command chan oplchan al ac s;
          s \<leftarrow> mod_arp_note chan al ac s;
          s \<leftarrow> mod_setfreq chan s;
          c \<leftarrow> rd (mod_channel s) chan;
          cmd \<leftarrow> rd ac (unat (ch_arppos c));
          mod_upd chan (\<lambda>c. c\<lparr>ch_arppos := (if cmd \<noteq> 255 then ch_arppos c + 1 else ch_arppos c),
                              ch_arpspdcnt := mi_arpspeed i - 1\<rparr>) s
        }
      }
    } :: 'a mod_player_scheme option"
    have "mod_op m n ?body"
      using assms len
      by (intro mo.ok_read [OF mod_read_arp] mo.ok_read [OF mod_read_chan] mo.ok_read [OF mod_read_ins]
            mo.ok_if mo.ok_skip mo.ok_bind mod_op_arp_command mod_op_arp_note mod_op_setfreq mod_op_upd_same
          | assumption | simp add: ch_same_def)+
    from op_okD [OF this s] show ?thesis using l by (simp add: mod_special_arp_def)
  qed
qed

lemma mod_op_tick_channel: "chan < n \<Longrightarrow> mod_op m n (mod_tick_channel chan)"
  unfolding mod_tick_channel_def [abs_def] Let_def
  by (intro mod_op_chip mo.ok_bind mod_op_special_arp mod_op_tick_effect | assumption)+

section \<open>The rows\<close>

lemma mod_op_row_inst:
  assumes "chan < n" "unat (ev_inst t) \<le> m"
  shows "mod_op m n (mod_row_inst chan t)"
proof -
  have valid: "ch_valid m (c\<lparr>ch_inst := ev_inst t - 1\<rparr>)" if "ev_inst t \<noteq> 0" "ch_valid m c" for c
    using that assms(2) unat_minus_one [OF that(1)] unat_gt_0 [of "ev_inst t"] by (simp add: ch_valid_def)
  show ?thesis
  proof (cases "ev_inst t = 0")
    case True
    then show ?thesis unfolding mod_row_inst_def [abs_def] by (simp add: mo.ok_skip)
  next
    case False
    then show ?thesis
      unfolding mod_row_inst_def [abs_def] if_not_P [OF False]
      by (intro mod_reads mo.ok_if mo.ok_skip mo.ok_bind mod_op_upd mod_op_vol_effect assms(1))
         (simp_all add: ch_same_def valid assms(1))
  qed
qed

lemma mod_op_row_note: "chan < n \<Longrightarrow> mod_op m n (mod_row_note chan t)"
  unfolding mod_row_note_def [abs_def]
  by (intro mod_reads mo.ok_if mo.ok_skip mo.ok_bind mod_op_upd_same mod_op_setnote
      | assumption | simp add: ch_same_def)+

lemma mod_op_play_event:
  "chan < n \<Longrightarrow> unat (ev_inst t) \<le> m \<Longrightarrow> mod_op m n (mod_play_event chan t)"
  unfolding mod_play_event_def [abs_def]
  by (intro mo.ok_if mo.ok_skip mo.ok_bind mod_op_upd_same mod_op_row_inst mod_op_row_note mod_op_playnote
      | assumption | simp add: ch_same_def)+

lemma mod_op_porta_target: "chan < n \<Longrightarrow> mod_op m n (mod_porta_target chan t)"
proof (rule op_okI)
  fix s :: "'a mod_player_scheme" assume "chan < n" and s: "mod_pre m n s"
  let ?note = "uint (ev_note t)"
  have len: "length (mod_notetable s) = 12" using s by (simp add: mod_pre_def mod_valid_def)
  have small: "?note - 1 < 12" if "ev_note t < 13" using that by (simp add: word_less_def)
  have pos: "1 \<le> ?note" if "ev_note t \<noteq> 0"
    using that uint_u8_bounds(1) [of "ev_note t"] by (metis add_0 int_one_le_iff_zero_less order_le_less uint_0_iff)
  obtain f where f: "ev_note t \<noteq> 0 \<Longrightarrow> (if ev_note t < 13 then rd_int (mod_notetable s) (?note - 1)
      else if ?note mod 12 > 0 then rd_int (mod_notetable s) (?note mod 12 - 1)
      else rd (mod_notetable s) 11) = Some f"
  proof (cases "ev_note t < 13")
    case True
    show ?thesis
    proof (rule that)
      assume "ev_note t \<noteq> 0"
      from pos [OF this] small [OF True] show "(if ev_note t < 13 then rd_int (mod_notetable s) (?note - 1)
          else if ?note mod 12 > 0 then rd_int (mod_notetable s) (?note mod 12 - 1)
          else rd (mod_notetable s) 11) = Some (mod_notetable s ! nat (?note - 1))"
        using True len by (simp add: rd_int_def rd_def nat_less_iff)
    qed
  next
    case False
    have "?note mod 12 < 12" by simp
    then show ?thesis
      using False that [of "mod_notetable s ! nat (?note mod 12 - 1)"] that [of "mod_notetable s ! 11"] len
      by (cases "?note mod 12 > 0") (simp_all add: rd_int_def rd_def nat_less_iff)
  qed
  let ?set = "\<lambda>s. do {
      s \<leftarrow> mod_upd chan (\<lambda>c. c\<lparr>ch_nextfreq := f, ch_nextoct := to_u8 ((?note - 1) div 12)\<rparr>) s;
      if ev_note t = 127 then mod_upd chan (\<lambda>c. c\<lparr>ch_nextfreq := ch_freq c, ch_nextoct := ch_oct c\<rparr>) s
      else Some s } :: 'a mod_player_scheme option"
  have "mod_op m n ?set"
    using \<open>chan < n\<close>
    by (intro mo.ok_bind mo.ok_if mo.ok_skip mod_op_upd_same | assumption | simp add: ch_same_def)+
  from op_okD [OF this s] show "\<exists>s'. mod_porta_target chan t s = Some s' \<and> mod_keep s s'"
    using f mo.keep_refl [OF s] by (cases "ev_note t = 0") (simp_all add: mod_porta_target_def Let_def)
qed

lemma mod_keep_bd: "mod_pre m n s \<Longrightarrow> mod_keep s (mod_write_bd (mod_regbd_bit b on s))"
  by (auto simp: mod_keep_def mod_pre_def mod_valid_def mod_frame_def mod_regbd_bit_def mod_write_bd_def opl_write_def)

lemma mod_keep_bd2:
  "mod_pre m n s \<Longrightarrow> mod_keep s (mod_write_bd (mod_regbd_bit b on (mod_regbd_bit b' on' s)))"
  by (auto simp: mod_keep_def mod_pre_def mod_valid_def mod_frame_def mod_regbd_bit_def mod_write_bd_def opl_write_def)

lemma mod_op_extended: "chan < n \<Longrightarrow> mod_op m n (mod_extended chan info1 info2)"
  unfolding mod_extended_def [abs_def]
  by (intro mo.ok_if mo.ok_return mod_keep_bd mo.ok_skip mod_op_volume_slide_alt mod_op_freq_effect
      | assumption | rule ch_same_slides)+

lemma mod_keep_speed:
  "mod_pre m n s \<Longrightarrow> mod_keep s (if b then s\<lparr>mod_speed := x\<rparr> else s)"
  "mod_pre m n s \<Longrightarrow> mod_keep s (if b then s\<lparr>mod_tempo := y\<rparr> else s)"
  "mod_pre m n s \<Longrightarrow> mod_keep s (if b then s\<lparr>mod_songend := True\<rparr> else s)"
  by (auto intro: mod_keep_tempo mo.keep_refl)

lemma mod_op_row_fx:
  "chan < n \<Longrightarrow> oplchan < 9 \<Longrightarrow> mod_op m n (mod_row_fx chan oplchan t c info)"
  unfolding mod_row_fx_def [abs_def] Let_def
  by (intro mo.ok_if mo.ok_read [OF mod_read_op] mo.ok_read [OF mod_read_additive] mo.ok_bind mod_op_upd_same
        mod_op_porta_target mod_op_extended mod_op_freq_effect mod_op_vol_effect
        mo.ok_after [OF mod_keep_speed(1)] mo.ok_after [OF mod_keep_speed(2)] mo.ok_after [OF mod_keep_write_if]
        mo.ok_return mod_keep_speed mod_keep_tempo mod_keep_bd2 mod_keep_write_if mo.keep_refl
      | assumption | rule ch_same_slides | simp add: ch_same_def)+

text \<open>What a song must have for its rows to be played.\<close>

definition mod_tracks_ok :: "'a mod_player_scheme \<Rightarrow> bool" where
  "mod_tracks_ok s \<longleftrightarrow>
     matrix (mod_npats s * mod_nchans s) (mod_nrows s) (mod_tracks s) \<and>
     matrix (mod_npats s) (mod_nchans s) (mod_trackord s) \<and>
     (\<forall>r \<in> set (mod_trackord s). \<forall>x \<in> set r. unat x \<le> mod_npats s * mod_nchans s) \<and>
     (\<forall>r \<in> set (mod_tracks s). \<forall>e \<in> set r. unat (ev_inst e) \<le> length (mod_inst s)) \<and>
     0 < mod_nrows s \<and> mod_nchans s \<le> 32"

text \<open>What playing a row keeps: the position may move, but to a row of the pattern.\<close>

definition mod_moved :: "'a mod_player_scheme \<Rightarrow> 'a mod_player_scheme \<Rightarrow> bool" where
  "mod_moved s t \<longleftrightarrow>
     mod_valid t \<and> mod_frame t = mod_frame s \<and> length (mod_channel t) = length (mod_channel s) \<and>
     (mod_rw t = mod_rw s \<or> mod_rw t < mod_nrows s) \<and>
     (mod_songend s \<longrightarrow> mod_songend t) \<and> (\<exists>es. opl_out t = opl_out s @ es)"

lemma mod_keep_moved: "mod_keep s t \<Longrightarrow> mod_moved s t"
  by (simp add: mod_keep_def mod_moved_def)

lemma mod_frame_eqs:
  assumes "mod_frame t = mod_frame s"
  shows "mod_inst t = mod_inst s" "mod_tracks t = mod_tracks s" "mod_trackord t = mod_trackord s"
    "mod_order t = mod_order s" "mod_length t = mod_length s" "mod_restartpos t = mod_restartpos s"
    "mod_nrows t = mod_nrows s" "mod_npats t = mod_npats s" "mod_nchans t = mod_nchans s"
    "mod_arplist t = mod_arplist s" "mod_arpcmd t = mod_arpcmd s" "mod_initspeed t = mod_initspeed s"
    "mod_bpm t = mod_bpm s" "mod_flags t = mod_flags s" "mod_notetable t = mod_notetable s"
    "mod_activechan t = mod_activechan s" "mod_player.more t = mod_player.more s"
  using assms by (simp_all add: mod_frame_def)

lemma mod_moved_trans: "mod_moved s t \<Longrightarrow> mod_moved t u \<Longrightarrow> mod_moved s u"
proof -
  assume st: "mod_moved s t" and tu: "mod_moved t u"
  obtain es fs where "opl_out t = opl_out s @ es" "opl_out u = opl_out t @ fs"
    using st tu by (auto simp: mod_moved_def)
  then have "opl_out u = opl_out s @ (es @ fs)" by simp
  moreover have "mod_nrows t = mod_nrows s" using st mod_frame_eqs(7) [of t s] by (simp add: mod_moved_def)
  ultimately show "mod_moved s u" using st tu by (auto simp: mod_moved_def)
qed

text \<open>
  How far a row has brought the song since \<open>s0\<close>: its end is reported, or the position is
  unchanged as long as nothing jumped, or a jump led forward.
\<close>

definition mod_progress :: "'a mod_player_scheme \<Rightarrow> 'a mod_player_scheme \<Rightarrow> bool \<Rightarrow> bool" where
  "mod_progress s0 s pattbreak \<longleftrightarrow>
     mod_songend s \<or> (\<not> pattbreak \<and> mod_ord s = mod_ord s0 \<and> mod_rw s = mod_rw s0) \<or>
     (pattbreak \<and> mod_ord s0 < mod_ord s)"

lemma mod_keep_progress: "mod_keep s t \<Longrightarrow> mod_progress s0 s pb \<Longrightarrow> mod_progress s0 t pb"
  by (auto simp: mod_keep_def mod_progress_def)

lemma mod_row_command_ok:
  assumes "mod_pre m n s" "chan < n" "oplchan < 9" "0 < mod_nrows s"
  shows "\<exists>s' pb d'. mod_row_command chan oplchan t (s, pattbreak, delay) = Some (s', pb, d') \<and> mod_moved s s' \<and>
    (\<forall>s0. mod_progress s0 s pattbreak \<longrightarrow> mod_progress s0 s' pb)"
proof -
  obtain c where c: "rd (mod_channel s) chan = Some c" using mod_read_chan [OF assms(2,1)] by blast
  let ?info = "mod_info (mod_has Decimal s) (ch_info1 c) (ch_info2 c)"
  have s: "mod_moved s s" using mod_keep_moved [OF mo.keep_refl [OF assms(1)]] .
  obtain s1 where s1: "mod_row_fx chan oplchan t c ?info s = Some s1" "mod_keep s s1"
    using op_okD [OF mod_op_row_fx [OF assms(2,3)] assms(1)] by blast
  have jump: "mod_moved s (if b then s\<lparr>mod_rw := r, mod_songend := True, mod_ord := k\<rparr>
      else s\<lparr>mod_rw := r, mod_ord := k\<rparr>)" if "r < mod_nrows s" for b r k
    using s that by (auto simp: mod_moved_def mod_valid_def mod_frame_def)
  consider "ch_fx c = 11" | "ch_fx c = 13" | "ch_fx c = 14" "ch_info1 c = 8" | "ch_fx c = 29"
    | "ch_fx c \<noteq> 11" "ch_fx c \<noteq> 13" "\<not> (ch_fx c = 14 \<and> ch_info1 c = 8)" "ch_fx c \<noteq> 29" by blast
  then show ?thesis
  proof cases
    case 1
    then show ?thesis
      using c jump [OF assms(4), of "unat ?info \<le> mod_ord s" "unat ?info"]
      by (auto simp: mod_row_command_def mod_progress_def Let_def split: if_splits)
  next
    case 2
    have "mod_moved s (s\<lparr>mod_rw := (if unat ?info < mod_nrows s then unat ?info else 0), mod_ord := mod_ord s + 1\<rparr>)"
      using jump [of "if unat ?info < mod_nrows s then unat ?info else 0" False "mod_ord s + 1"] assms(4) by simp
    with 2 show ?thesis using c s by (cases pattbreak) (auto simp: mod_row_command_def mod_progress_def Let_def)
  next
    case 3
    then show ?thesis using c s by (simp add: mod_row_command_def Let_def)
  next
    case 4
    then show ?thesis using c s by (simp add: mod_row_command_def Let_def)
  next
    case 5
    then show ?thesis
      using c s s1(1) mod_keep_moved [OF s1(2)] mod_keep_progress [OF s1(2)]
      by (simp add: mod_row_command_def Let_def)
  qed
qed

lemma mod_play_channel_ok:
  assumes "mod_valid s" "mod_tracks_ok s" "chan < mod_nchans s" "pattnr < mod_npats s" "row < mod_nrows s"
  shows "\<exists>s' pb d'. mod_play_channel pattnr row chan (s, pattbreak, delay) = Some (s', pb, d') \<and> mod_moved s s' \<and>
    (\<forall>s0. mod_progress s0 s pattbreak \<longrightarrow> mod_progress s0 s' pb)"
proof -
  let ?m = "length (mod_inst s)" and ?n = "mod_nchans s"
  define s1 where "s1 = snd (mod_set_opl_chip chan s)"
  have chip: "mod_set_opl_chip chan s = (chan mod 9, s1)"
    by (simp add: s1_def mod_set_opl_chip_def Let_def)
  have pre: "mod_pre ?m ?n s" using assms(1) by (simp add: mod_pre_def mod_valid_def)
  have keep: "mod_keep s s1" unfolding s1_def by (rule mod_keep_chip [OF pre])
  have pre1: "mod_pre ?m ?n s1" by (rule mo.keep_pre [OF pre keep])
  note eq = mod_frame_eqs [OF mod_keepD(2) [OF keep]]
  have mats: "matrix (mod_npats s * ?n) (mod_nrows s) (mod_tracks s1)" "matrix (mod_npats s) ?n (mod_trackord s1)"
    using assms(2) eq by (simp_all add: mod_tracks_ok_def)
  have chan: "chan \<le> 31" using assms(2,3) by (simp add: mod_tracks_ok_def)
  let ?track = "mod_trackord s1 ! pattnr ! chan"
  have track: "rd2 (mod_trackord s1) pattnr chan = Some ?track" by (rule rd2_Some [OF mats(2) assms(4,3)])
  have start: "mod_play_channel pattnr row chan (s, pattbreak, delay) =
      (if even (mod_activechan s1 div 2 ^ (31 - chan)) \<or> ?track = 0 then Some (s1, pattbreak, delay)
       else do {
         t \<leftarrow> rd2 (mod_tracks s1) (unat ?track - 1) row;
         s \<leftarrow> mod_play_event chan t s1;
         mod_row_command chan (chan mod 9) t (s, pattbreak, delay) })"
    using chan track by (simp add: mod_play_channel_def Let_def chip)
  show ?thesis
  proof (cases "even (mod_activechan s1 div 2 ^ (31 - chan)) \<or> ?track = 0")
    case True
    then show ?thesis using start mod_keep_moved [OF keep] mod_keep_progress [OF keep] by simp
  next
    case False
    have "length (mod_trackord s1) = mod_npats s" "length (mod_trackord s1 ! pattnr) = ?n"
      by (rule matrix_length [OF mats(2)], rule matrix_row [OF mats(2) assms(4)])
    then have "?track \<in> set (mod_trackord s1 ! pattnr)" "mod_trackord s1 ! pattnr \<in> set (mod_trackord s1)"
      using assms(3,4) by (metis nth_mem)+
    then have "unat ?track \<le> mod_npats s * ?n" using assms(2) eq(3) by (auto simp: mod_tracks_ok_def)
    moreover have "unat ?track \<noteq> 0" using False by (simp add: unat_eq_0)
    ultimately have lt: "unat ?track - 1 < mod_npats s * ?n" by linarith
    let ?t = "mod_tracks s1 ! (unat ?track - 1) ! row"
    have t: "rd2 (mod_tracks s1) (unat ?track - 1) row = Some ?t" by (rule rd2_Some [OF mats(1) lt assms(5)])
    have "length (mod_tracks s1) = mod_npats s * ?n" "length (mod_tracks s1 ! (unat ?track - 1)) = mod_nrows s"
      by (rule matrix_length [OF mats(1)], rule matrix_row [OF mats(1) lt])
    then have "?t \<in> set (mod_tracks s1 ! (unat ?track - 1))" "mod_tracks s1 ! (unat ?track - 1) \<in> set (mod_tracks s1)"
      using lt assms(5) by (metis nth_mem)+
    then have "unat (ev_inst ?t) \<le> ?m" using assms(2) eq(2) by (auto simp: mod_tracks_ok_def)
    then obtain s2 where s2: "mod_play_event chan ?t s1 = Some s2" "mod_keep s1 s2"
      using op_okD [OF mod_op_play_event [OF assms(3)] pre1] by blast
    have "mod_nrows s2 = mod_nrows s" using mod_frame_eqs(7) [OF mod_keepD(2) [OF s2(2)]] eq(7) by simp
    then have "0 < mod_nrows s2" using assms(5) by simp
    then obtain s3 pb d' where s3: "mod_row_command chan (chan mod 9) ?t (s2, pattbreak, delay) = Some (s3, pb, d')"
      "mod_moved s2 s3" "\<forall>s0. mod_progress s0 s2 pattbreak \<longrightarrow> mod_progress s0 s3 pb"
      using mod_row_command_ok [OF mo.keep_pre [OF pre1 s2(2)] assms(3)] by (meson mod_less_divisor zero_less_numeral)
    have "mod_moved s s3"
      by (rule mod_moved_trans [OF mod_keep_moved [OF mo.keep_trans [OF keep s2(2)]] s3(2)])
    then show ?thesis
      using start False t s2(1) s3(1,3) mod_keep_progress [OF mo.keep_trans [OF keep s2(2)]] by simp
  qed
qed

text \<open>The channel loop of a row.\<close>

lemma mod_tracks_ok_moved: "mod_moved s t \<Longrightarrow> mod_tracks_ok s \<Longrightarrow> mod_tracks_ok t"
  using mod_frame_eqs [of t s] by (simp add: mod_moved_def mod_tracks_ok_def)

lemma mod_channels_ok:
  assumes "mod_valid s" "mod_tracks_ok s" "pattnr < mod_npats s" "row < mod_nrows s"
  shows "\<exists>s' pb d. ofold (mod_play_channel pattnr row) [0..<mod_nchans s] (s, False, 0) = Some (s', pb, d) \<and>
    mod_moved s s' \<and> mod_progress s s' pb"
proof -
  let ?I = "\<lambda>x :: 'a mod_player_scheme \<times> bool \<times> u8. case x of (t, pb, d) \<Rightarrow> mod_moved s t \<and> mod_progress s t pb"
  have refl: "mod_moved s s" using assms(1) by (simp add: mod_moved_def)
  have "\<exists>x. ofold (mod_play_channel pattnr row) [0..<mod_nchans s] (s, False, 0) = Some x \<and> ?I x"
  proof (rule ofold_invariant)
    show "?I (s, False, 0)" using refl by (simp add: mod_progress_def)
    fix i x
    assume i: "i \<in> set [0..<mod_nchans s]" and I: "?I x"
    obtain t pb d where x: "x = (t, pb, d)" by (metis surj_pair)
    have moved: "mod_moved s t" and progress: "mod_progress s t pb" using I x by simp_all
    have fr: "mod_frame t = mod_frame s" and valid: "mod_valid t" using moved by (simp_all add: mod_moved_def)
    have "i < mod_nchans t" "pattnr < mod_npats t" "row < mod_nrows t"
      using i assms(3,4) mod_frame_eqs [OF fr] by simp_all
    from mod_play_channel_ok [OF valid mod_tracks_ok_moved [OF moved assms(2)] this]
    obtain s' pb' d' where s': "mod_play_channel pattnr row i (t, pb, d) = Some (s', pb', d')" "mod_moved t s'"
      "\<forall>s0. mod_progress s0 t pb \<longrightarrow> mod_progress s0 s' pb'" by blast
    then have "?I (s', pb', d')" using mod_moved_trans [OF moved s'(2)] progress by simp
    then show "\<exists>x'. mod_play_channel pattnr row i x = Some x' \<and> ?I x'" using x s'(1) by blast
  qed
  then show ?thesis by auto
qed

end
