(* ===== verification/Modplay.thy ===== *)
theory Modplay
  imports Modsafe
begin

text \<open>
  The order list, \<open>update\<close> and \<open>rewind\<close> of \<open>CmodPlayer\<close>: from a well-formed module every tick
  returns, and the song comes to its end.
\<close>

section \<open>The order list\<close>

text \<open>Following the jumps of an order list from entry \<open>i\<close>, for at most \<open>k\<close> of them.\<close>

fun mod_jumps_end :: "bytes \<Rightarrow> nat \<Rightarrow> nat \<Rightarrow> bool" where
  "mod_jumps_end os 0 i = False"
| "mod_jumps_end os (Suc k) i =
     (let e = unat (os ! i)
      in e < JUMPMARKER \<or> e - JUMPMARKER = i \<or> mod_jumps_end os k (e - JUMPMARKER))"

definition mod_orders_ok :: "'a mod_player_scheme \<Rightarrow> bool" where
  "mod_orders_ok s \<longleftrightarrow>
     0 < mod_length s \<and> mod_length s \<le> length (mod_order s) \<and> mod_restartpos s < mod_length s \<and>
     (\<forall>i < mod_length s.
        (unat (mod_order s ! i) < JUMPMARKER \<longrightarrow> unat (mod_order s ! i) < mod_npats s) \<and>
        (JUMPMARKER \<le> unat (mod_order s ! i) \<longrightarrow> unat (mod_order s ! i) - JUMPMARKER < mod_length s) \<and>
        mod_jumps_end (mod_order s) (mod_length s) i)"

text \<open>Moves along the order list only: forward, or with the end of the song reported.\<close>

definition mod_advanced :: "'a mod_player_scheme \<Rightarrow> 'a mod_player_scheme \<Rightarrow> bool" where
  "mod_advanced s t \<longleftrightarrow>
     (\<exists>p e. t = s\<lparr>mod_ord := p, mod_songend := e\<rparr> \<and> (mod_songend s \<longrightarrow> e) \<and> (e \<or> mod_ord s \<le> p)) \<and>
     mod_ord t < mod_length s"

lemma mod_follow_jumps_ok:
  "mod_jumps_end (mod_order s) k (mod_ord s) \<Longrightarrow> mod_orders_ok s \<Longrightarrow> mod_ord s < mod_length s \<Longrightarrow>
   \<exists>ok t. mod_follow_jumps s = Some (ok, t) \<and> mod_advanced s t \<and>
     (ok \<longrightarrow> unat (mod_order s ! mod_ord t) < mod_npats s) \<and> (\<not> ok \<longrightarrow> mod_songend t)"
proof (induction k arbitrary: s)
  case 0
  then show ?case by simp
next
  case (Suc k)
  let ?e = "unat (mod_order s ! mod_ord s)"
  let ?s1 = "if ?e - JUMPMARKER \<le> mod_ord s then s\<lparr>mod_songend := True\<rparr> else s"
  have e: "rd (mod_order s) (mod_ord s) = Some (mod_order s ! mod_ord s)"
    "if ?e < JUMPMARKER then ?e < mod_npats s else ?e - JUMPMARKER < mod_length s"
    using Suc.prems(2,3) by (simp_all add: mod_orders_ok_def rd_Some)
  consider "?e < JUMPMARKER" | "?e \<ge> JUMPMARKER" "?e - JUMPMARKER = mod_ord s"
    | "?e \<ge> JUMPMARKER" "?e - JUMPMARKER \<noteq> mod_ord s" by linarith
  then show ?case
  proof cases
    case 1
    have "mod_advanced s s"
      using Suc.prems(3) by (auto simp: mod_advanced_def intro!: exI [of _ "mod_ord s"] exI [of _ "mod_songend s"])
    with 1 e show ?thesis by (subst mod_follow_jumps.simps) auto
  next
    case 2
    have "mod_advanced s (s\<lparr>mod_songend := True\<rparr>)"
      using Suc.prems(3) by (auto simp: mod_advanced_def intro!: exI [of _ "mod_ord s"])
    with 2 e show ?thesis by (subst mod_follow_jumps.simps) (auto simp: Let_def)
  next
    case 3
    let ?t = "?s1\<lparr>mod_ord := ?e - JUMPMARKER\<rparr>"
    have lt: "?e - JUMPMARKER < mod_length s" using e(2) 3(1) by simp
    have "mod_jumps_end (mod_order ?t) k (mod_ord ?t)" using Suc.prems(1) 3 by (simp add: Let_def)
    moreover have "mod_orders_ok ?t" using Suc.prems(2) by (simp add: mod_orders_ok_def)
    moreover have "mod_ord ?t < mod_length ?t" using lt by simp
    ultimately obtain ok u where u: "mod_follow_jumps ?t = Some (ok, u)" "mod_advanced ?t u"
      "ok \<longrightarrow> unat (mod_order ?t ! mod_ord u) < mod_npats ?t" "\<not> ok \<longrightarrow> mod_songend u"
      using Suc.IH [of ?t] by blast
    obtain p e where pe: "u = ?t\<lparr>mod_ord := p, mod_songend := e\<rparr>" "mod_songend ?t \<longrightarrow> e"
      "e \<or> mod_ord ?t \<le> p" "mod_ord u < mod_length ?t"
      using u(2) unfolding mod_advanced_def by (elim conjE exE) (rule that)
    have "u = s\<lparr>mod_ord := p, mod_songend := e\<rparr>" using pe(1) by simp
    then have "mod_advanced s u"
      unfolding mod_advanced_def using pe(2-4) by (intro conjI exI [of _ p] exI [of _ e]) (auto split: if_splits)
    moreover have "mod_follow_jumps s = Some (ok, u)"
      using 3 e(1) u(1) by (subst mod_follow_jumps.simps) (simp add: Let_def)
    ultimately show ?thesis using u(3,4) by (intro exI [of _ ok] exI [of _ u]) (simp split: if_splits)
  qed
qed

section \<open>A well-formed module\<close>

text \<open>The song a loader leaves, and the player on it.\<close>

definition mod_song_ok :: "'a mod_player_scheme \<Rightarrow> bool" where
  "mod_song_ok s \<longleftrightarrow>
     mod_inst s \<noteq> [] \<and> (\<forall>i \<in> set (mod_inst s). length (mi_data i) = 11) \<and>
     length (mod_notetable s) = 12 \<and>
     (\<forall>al. mod_arplist s = Some al \<longrightarrow> length al = SPECIALARPLEN) \<and>
     (\<forall>ac. mod_arpcmd s = Some ac \<longrightarrow> length ac = SPECIALARPLEN) \<and>
     mod_tracks_ok s \<and> mod_orders_ok s"

definition mod_ok :: "'a mod_player_scheme \<Rightarrow> bool" where
  "mod_ok s \<longleftrightarrow>
     mod_song_ok s \<and> mod_valid s \<and> mod_rw s < mod_nrows s \<and> mod_ord s < mod_length s"

lemma mod_okD:
  assumes "mod_ok s"
  shows "mod_song_ok s" "mod_valid s" "mod_tracks_ok s" "mod_orders_ok s" "mod_rw s < mod_nrows s"
    "mod_ord s < mod_length s" "mod_nchans s \<le> 32"
    "mod_pre (length (mod_inst s)) (mod_nchans s) s"
  using assms by (simp_all add: mod_ok_def mod_song_ok_def mod_tracks_ok_def mod_pre_def mod_valid_def)

lemma mod_song_ok_frame:
  assumes "mod_frame t = mod_frame s"
  shows "mod_song_ok t = mod_song_ok s"
  by (simp add: mod_song_ok_def mod_tracks_ok_def mod_orders_ok_def mod_frame_eqs [OF assms])

lemma mod_advancedD:
  assumes "mod_advanced s t"
  shows "mod_frame t = mod_frame s" "mod_ord t < mod_length s" "mod_rw t = mod_rw s" "mod_del t = mod_del s"
    "mod_songend s \<longrightarrow> mod_songend t" "mod_songend t \<or> mod_ord s \<le> mod_ord t" "opl_out t = opl_out s"
    "mod_valid s \<Longrightarrow> mod_valid t" "mod_moved s t \<or> \<not> mod_valid s"
  using assms by (auto simp: mod_advanced_def mod_frame_def mod_valid_def mod_moved_def)

text \<open>Resolving the order, also from behind the end of the list.\<close>

lemma mod_resolve_order_ok:
  assumes "mod_orders_ok s"
  shows "\<exists>ok t. mod_resolve_order s = Some (ok, t) \<and> mod_advanced s t \<and> (\<not> ok \<longrightarrow> mod_songend t) \<and>
    (mod_ord s < mod_length s \<longrightarrow> ok \<longrightarrow> unat (mod_order s ! mod_ord t) < mod_npats s)"
proof (cases "mod_ord s < mod_length s")
  case True
  then have "mod_jumps_end (mod_order s) (mod_length s) (mod_ord s)"
    using assms by (simp add: mod_orders_ok_def Let_def)
  from mod_follow_jumps_ok [OF this assms True] True show ?thesis by (auto simp: mod_resolve_order_def)
next
  case False
  have "mod_advanced s (s\<lparr>mod_songend := True, mod_ord := mod_restartpos s\<rparr>)"
    using assms by (auto simp: mod_advanced_def mod_orders_ok_def intro!: exI [of _ "mod_restartpos s"] exI [of _ True])
  with False show ?thesis by (auto simp: mod_resolve_order_def)
qed

text \<open>
  The song position as a number that falls as long as the end is not reported, and the ticks left
  of the current row.
\<close>

definition mod_left :: "'a mod_player_scheme \<Rightarrow> nat" where
  "mod_left s =
     (if mod_songend s then 0
      else ((mod_length s - mod_ord s) * mod_nrows s + (mod_nrows s - mod_rw s)) * 256 + unat (mod_del s) + 1)"

lemma mod_position_falls:
  fixes len rows :: nat
  assumes "ord' < len" "rw < rows" "rw' < rows" "ord < ord' \<or> (ord' = ord \<and> rw < rw')"
  shows "(len - ord') * rows + (rows - rw') < (len - ord) * rows + (rows - rw)"
proof (cases "ord < ord'")
  case True
  then have "(len - ord') + 1 \<le> len - ord" using assms(1) by linarith
  then have "((len - ord') + 1) * rows \<le> (len - ord) * rows" by (rule mult_le_mono1)
  then have "(len - ord') * rows + rows \<le> (len - ord) * rows" by simp
  then show ?thesis using assms(2) by linarith
next
  case False
  then show ?thesis using assms by auto
qed

lemma mod_left_falls:
  assumes "mod_frame t = mod_frame s" "mod_ord t < mod_length s" "mod_rw s < mod_nrows s" "mod_rw t < mod_nrows s"
    "\<not> mod_songend t" "\<not> mod_songend s"
    "mod_ord s < mod_ord t \<or> (mod_ord t = mod_ord s \<and> mod_rw s < mod_rw t)"
  shows "mod_left t < mod_left s"
proof -
  let ?A = "(mod_length s - mod_ord t) * mod_nrows s + (mod_nrows s - mod_rw t)"
  let ?B = "(mod_length s - mod_ord s) * mod_nrows s + (mod_nrows s - mod_rw s)"
  have "mod_left t = ?A * 256 + unat (mod_del t) + 1" "mod_left s = ?B * 256 + unat (mod_del s) + 1"
    using assms(5,6) mod_frame_eqs(5,7) [OF assms(1)] by (simp_all add: mod_left_def)
  moreover have "a * 256 + d + 1 < b * 256 + e + 1" if "a < b" "d < 256" for a b d e :: nat
    using that by linarith
  ultimately show ?thesis
    using mod_position_falls [OF assms(2-4,7)] unat_u8_bound(1) [of "mod_del t"] by metis
qed

section \<open>update\<close>

lemma mod_ticks_ok:
  assumes "mod_ok s"
  shows "\<exists>t. ofold mod_tick_channel [0..<mod_nchans s] s = Some t \<and> mod_keep s t"
proof -
  have "mod_op (length (mod_inst s)) (mod_nchans s)
      (ofold mod_tick_channel [0..<mod_nchans s] :: 'a mod_player_scheme \<Rightarrow> _)"
    by (rule mo.ok_ofold) (simp add: mod_op_tick_channel)
  from op_okD [OF this mod_okD(8) [OF assms]] show ?thesis .
qed

lemma mod_keep_ok: "mod_keep s t \<Longrightarrow> mod_ok s \<Longrightarrow> mod_ok t"
  using mod_song_ok_frame [of t s] mod_frame_eqs [of t s] by (simp add: mod_ok_def mod_keep_def)

lemma mod_next_row_ok:
  assumes "mod_valid s" "mod_rw s < mod_nrows s"
  shows "mod_moved s (mod_next_row s)" "mod_rw (mod_next_row s) < mod_nrows s" "mod_songend (mod_next_row s) = mod_songend s"
    "mod_ord s < mod_ord (mod_next_row s) \<or>
     (mod_ord (mod_next_row s) = mod_ord s \<and> mod_rw s < mod_rw (mod_next_row s))"
  using assms by (auto simp: mod_next_row_def mod_moved_def mod_valid_def mod_frame_def)

text \<open>Playing the row at a resolved position.\<close>

lemma mod_play_row_ok:
  assumes "mod_ok s" "unat (mod_order s ! mod_ord s) < mod_npats s"
  shows "\<exists>t. mod_play_row s = Some (\<not> mod_songend t, t) \<and> mod_ok t \<and> mod_moved s t \<and>
    (mod_songend t \<or> mod_ord s < mod_ord t \<or> (mod_ord t = mod_ord s \<and> mod_rw s < mod_rw t))"
proof -
  note ok = mod_okD [OF assms(1)]
  let ?pattnr = "mod_order s ! mod_ord s"
  have pattnr: "rd (mod_order s) (mod_ord s) = Some ?pattnr"
    using ok(4,6) by (simp add: mod_orders_ok_def rd_Some)
  obtain s1 pb d where s1: "ofold (mod_play_channel (unat ?pattnr) (mod_rw s)) [0..<mod_nchans s] (s, False, 0) =
      Some (s1, pb, d)" "mod_moved s s1" "mod_progress s s1 pb"
    using mod_channels_ok [OF ok(2,3) assms(2) ok(5)] by blast
  define s2 where "s2 = s1\<lparr>mod_del := mod_speed s1 - 1 + d\<rparr>"
  define s3 where "s3 = (if \<not> pb then mod_next_row s2 else s2)"
  have eq2: "mod_ord s2 = mod_ord s1" "mod_rw s2 = mod_rw s1" "mod_songend s2 = mod_songend s1" "mod_valid s2"
    "mod_moved s s2"
    using s1(2) by (auto simp: s2_def mod_moved_def mod_valid_def mod_frame_def)
  have fr2: "mod_frame s2 = mod_frame s" using eq2(5) by (simp add: mod_moved_def)
  have rw2: "mod_rw s2 < mod_nrows s2"
    using eq2(5) ok(5) mod_frame_eqs(7) [OF fr2] by (auto simp: mod_moved_def)
  have s3: "mod_moved s2 s3" "mod_rw s3 < mod_nrows s2" "mod_songend s3 = mod_songend s1"
    using mod_next_row_ok(1-3) [OF eq2(4) rw2] eq2(3-5) rw2 by (auto simp: s3_def mod_moved_def)
  have moved3: "mod_moved s s3" by (rule mod_moved_trans [OF eq2(5) s3(1)])
  then have fr3: "mod_frame s3 = mod_frame s" and valid3: "mod_valid s3" by (simp_all add: mod_moved_def)
  have progress3: "mod_songend s3 \<or> mod_ord s < mod_ord s3 \<or> (mod_ord s3 = mod_ord s \<and> mod_rw s < mod_rw s3)"
  proof (cases pb)
    case True
    then show ?thesis using s1(3) eq2 by (auto simp: s3_def mod_progress_def)
  next
    case False
    then show ?thesis
      using s1(3) mod_next_row_ok(4) [OF eq2(4) rw2] eq2(1-3) s3(3) by (auto simp: s3_def mod_progress_def)
  qed
  have "mod_orders_ok s3" using mod_song_ok_frame [OF fr3] ok(1) by (simp add: mod_song_ok_def)
  then obtain okf t where t: "mod_resolve_order s3 = Some (okf, t)" "mod_advanced s3 t"
    using mod_resolve_order_ok by blast
  note adv = mod_advancedD [OF t(2)]
  have frt: "mod_frame t = mod_frame s" using adv(1) fr3 by simp
  have moved: "mod_moved s t" using mod_moved_trans [OF moved3] adv(9) valid3 by blast
  have "mod_ok t"
    using mod_song_ok_frame [OF frt] ok(1) adv(2,3,8) valid3 s3(2) mod_frame_eqs(5,7) [OF frt]
      mod_frame_eqs(5) [OF fr3] mod_frame_eqs(7) [OF fr2] by (simp add: mod_ok_def)
  moreover have "mod_songend t \<or> mod_ord s < mod_ord t \<or> (mod_ord t = mod_ord s \<and> mod_rw s < mod_rw t)"
    using progress3 adv(3,5,6) by auto
  moreover have "mod_play_row s = Some (\<not> mod_songend t, t)"
    using pattnr s1(1) t(1)
    by (cases pb) (simp_all add: mod_play_row_def Let_def s2_def [symmetric] s3_def)
  ultimately show ?thesis using moved by blast
qed

text \<open>One tick: it returns, keeps the module well formed, and brings the end of the song nearer.\<close>

lemma mod_update_step:
  assumes "mod_ok s"
  shows "\<exists>go t. mod_update s = Some (go, t) \<and> mod_ok t \<and> mod_moved s t \<and> (go \<longrightarrow> mod_left t < mod_left s)"
proof (cases "mod_speed s = 0")
  case True
  then show ?thesis
    using assms mod_okD(2) [OF assms] by (auto simp: mod_update_def mod_moved_def)
next
  case False
  note ok = mod_okD [OF assms]
  obtain s1 where s1: "ofold mod_tick_channel [0..<mod_nchans s] s = Some s1" "mod_keep s s1"
    using mod_ticks_ok [OF assms] by blast
  have ok1: "mod_ok s1" by (rule mod_keep_ok [OF s1(2) assms])
  have moved1: "mod_moved s s1" by (rule mod_keep_moved [OF s1(2)])
  note k = mod_keepD [OF s1(2)] and eq1 = mod_frame_eqs [OF mod_keepD(2) [OF s1(2)]]
  show ?thesis
  proof (cases "mod_del s1 = 0")
    case False
    let ?t = "s1\<lparr>mod_del := mod_del s1 - 1\<rparr>"
    have t: "mod_frame ?t = mod_frame s1" "mod_valid ?t"
      using mod_okD(2) [OF ok1] by (simp_all add: mod_frame_def mod_valid_def)
    have "mod_ok ?t" using ok1 t mod_song_ok_frame [OF t(1)] by (simp add: mod_ok_def)
    moreover have "mod_moved s ?t"
      using moved1 by (auto simp: mod_moved_def mod_valid_def mod_frame_def)
    moreover have "unat (mod_del s1 - 1) < unat (mod_del s1)"
      using False unat_minus_one [OF False] unat_gt_0 [of "mod_del s1"] by linarith
    then have "mod_left ?t < mod_left s" if "\<not> mod_songend ?t"
      using that k(4-7) eq1(5,7) by (auto simp: mod_left_def)
    ultimately show ?thesis
      using \<open>mod_speed s \<noteq> 0\<close> ok(7) s1(1) False by (auto simp: mod_update_def)
  next
    case True
    obtain okf s2 where s2: "mod_resolve_order s1 = Some (okf, s2)" "mod_advanced s1 s2" "\<not> okf \<longrightarrow> mod_songend s2"
      "okf \<longrightarrow> unat (mod_order s1 ! mod_ord s2) < mod_npats s1"
      using mod_resolve_order_ok [OF mod_okD(4) [OF ok1]] mod_okD(6) [OF ok1] by blast
    note adv = mod_advancedD [OF s2(2)]
    have ok2: "mod_ok s2"
      using ok1 adv(2,3,8) mod_song_ok_frame [OF adv(1)] mod_frame_eqs(5,7) [OF adv(1)] by (simp add: mod_ok_def)
    have moved2: "mod_moved s s2" using mod_moved_trans [OF moved1] adv(9) mod_okD(2) [OF ok1] by blast
    have step: "mod_update s = (if \<not> okf then Some (\<not> mod_songend s2, s2) else mod_play_row s2)"
      using \<open>mod_speed s \<noteq> 0\<close> ok(7) s1(1) s2(1) True by (simp add: mod_update_def)
    show ?thesis
    proof (cases okf)
      case False
      then show ?thesis using step s2(3) ok2 moved2 by auto
    next
      case True
      have "unat (mod_order s2 ! mod_ord s2) < mod_npats s2" using True s2(4) mod_frame_eqs(4,8) [OF adv(1)] by simp
      then obtain t where t: "mod_play_row s2 = Some (\<not> mod_songend t, t)" "mod_ok t" "mod_moved s2 t"
        "mod_songend t \<or> mod_ord s2 < mod_ord t \<or> (mod_ord t = mod_ord s2 \<and> mod_rw s2 < mod_rw t)"
        using mod_play_row_ok [OF ok2] by blast
      have moved: "mod_moved s t" by (rule mod_moved_trans [OF moved2 t(3)])
      then have fr: "mod_frame t = mod_frame s" and mono: "mod_songend s \<longrightarrow> mod_songend t"
        by (simp_all add: mod_moved_def)
      have "mod_left t < mod_left s" if "\<not> mod_songend t"
      proof (rule mod_left_falls [OF fr])
        show "mod_ord t < mod_length s" "mod_rw s < mod_nrows s" "mod_rw t < mod_nrows s"
          using mod_okD(5,6) [OF t(2)] ok(5) mod_frame_eqs(5,7) [OF fr] by simp_all
        show "\<not> mod_songend t" "\<not> mod_songend s" using that mono by simp_all
        have "\<not> mod_songend s2" using that t(3) by (auto simp: mod_moved_def)
        then show "mod_ord s < mod_ord t \<or> mod_ord t = mod_ord s \<and> mod_rw s < mod_rw t"
          using t(4) that adv(3,6) k(4,5) by auto
      qed
      then show ?thesis using step True t(1,2) moved by auto
    qed
  qed
qed

section \<open>rewind\<close>

lemma mod_count_patterns_ok:
  assumes "mod_length s \<le> length (mod_order s)"
  shows "\<exists>nop. mod_count_patterns s = Some nop"
proof (cases "mod_nop s = 0")
  case True
  have "\<exists>x. ofold (\<lambda>i nop. do { entry \<leftarrow> rd (mod_order s) i;
      Some (if ucast entry > nop then ucast entry else nop) }) [0..<mod_length s] (mod_nop s) = Some x \<and> True"
    by (rule ofold_invariant) (use assms in \<open>simp_all add: rd_Some\<close>)
  then show ?thesis using True by (simp add: mod_count_patterns_def)
qed (simp add: mod_count_patterns_def)

lemma mod_rewind_total:
  assumes "mod_length s \<le> length (mod_order s)"
  shows "\<exists>t nop bd out. mod_rewind n s = Some t \<and>
    t = s\<lparr>mod_songend := False, mod_del := 0, mod_ord := 0, mod_rw := 0, mod_regbd := 0, mod_tempo := mod_bpm s,
      mod_speed := mod_initspeed s, mod_channel := replicate (mod_nchans s) zero_chan, mod_nop := nop,
      mod_regbd := bd, opl_out := opl_out s @ OplInit # OplWrite 1 32 # out\<rparr>"
proof -
  let ?s = "s\<lparr>mod_songend := False, mod_del := 0, mod_ord := 0, mod_rw := 0, mod_regbd := 0,
    mod_tempo := mod_bpm s, mod_speed := mod_initspeed s, mod_channel := replicate (mod_nchans s) zero_chan\<rparr>"
  obtain nop where nop: "mod_count_patterns ?s = Some nop" using mod_count_patterns_ok [of ?s] assms by auto
  define P where "P x \<longleftrightarrow> (\<exists>out bd. x = ?s\<lparr>mod_nop := nop, mod_regbd := bd,
    opl_out := opl_out s @ OplInit # OplWrite 1 32 # out\<rparr>)" for x
  have P0: "P (opl_write 1 32 (opl_init (?s\<lparr>mod_nop := nop\<rparr>)))"
    unfolding P_def opl_calls by (intro exI [of _ "[]"] exI [of _ 0]) simp
  have PI: "P x" if "x = ?s\<lparr>mod_nop := nop, mod_regbd := bd, opl_out := opl_out s @ OplInit # OplWrite 1 32 # out\<rparr>"
    for x out bd using that unfolding P_def by blast
  have P1: "P (opl_write r v x)" "P (opl_setchip c x)" "P (x\<lparr>mod_regbd := d\<rparr>)" if Px: "P x" for x r v c d
  proof -
    obtain out bd where x: "x = ?s\<lparr>mod_nop := nop, mod_regbd := bd,
        opl_out := opl_out s @ OplInit # OplWrite 1 32 # out\<rparr>" using Px unfolding P_def by blast
    show "P (opl_write r v x)" by (rule PI [of _ "out @ [OplWrite r v]" bd]) (simp add: x opl_calls)
    show "P (opl_setchip c x)" by (rule PI [of _ "out @ [OplSetchip c]" bd]) (simp add: x opl_calls)
    show "P (x\<lparr>mod_regbd := d\<rparr>)" by (rule PI [of _ out d]) (simp add: x)
  qed
  have "\<exists>t. mod_rewind n s = Some t \<and> P t"
    using nop P0 by (simp add: mod_rewind_def Let_def mod_write_bd_def P1)
  then show ?thesis unfolding P_def by blast
qed

lemma mod_rewind_ok:
  assumes "mod_song_ok s"
  shows "\<exists>t es. mod_rewind n s = Some t \<and> mod_ok t \<and> mod_ord t = 0 \<and> mod_rw t = 0 \<and> \<not> mod_songend t \<and>
    mod_speed t = mod_initspeed s \<and> mod_tempo t = mod_bpm s \<and> mod_channel t = replicate (mod_nchans s) zero_chan \<and>
    mod_frame (t\<lparr>mod_nop := mod_nop s\<rparr>) = mod_frame s \<and> opl_out t = opl_out s @ OplInit # OplWrite 1 32 # es"
proof -
  have len: "mod_length s \<le> length (mod_order s)" "0 < mod_length s" "0 < mod_nrows s"
    using assms by (simp_all add: mod_song_ok_def mod_orders_ok_def mod_tracks_ok_def)
  obtain t nop bd out where t: "mod_rewind n s = Some t" and
    tt: "t = s\<lparr>mod_songend := False, mod_del := 0, mod_ord := 0, mod_rw := 0, mod_regbd := 0, mod_tempo := mod_bpm s,
      mod_speed := mod_initspeed s, mod_channel := replicate (mod_nchans s) zero_chan, mod_nop := nop,
      mod_regbd := bd, opl_out := opl_out s @ OplInit # OplWrite 1 32 # out\<rparr>"
    using mod_rewind_total [OF len(1)] by blast
  have "mod_song_ok t"
    using assms by (simp add: tt mod_song_ok_def mod_tracks_ok_def mod_orders_ok_def)
  moreover have "mod_valid t"
    using assms by (auto simp: tt mod_song_ok_def mod_valid_def ch_valid_def zero_chan_def)
  ultimately have "mod_ok t" using len by (simp add: tt mod_ok_def)
  then show ?thesis using t by (simp add: tt mod_frame_def)
qed

lemma mod_ok_any_chip: "mod_ok (s\<lparr>opl_out := es\<rparr>) = mod_ok s"
  by (simp add: mod_ok_def mod_song_ok_def mod_tracks_ok_def mod_orders_ok_def mod_valid_def)

text \<open>The engine meets the contract of a player whose songs end.\<close>

interpretation mod_contract: ending_player mod_update mod_rewind mod_ok mod_left
proof
  fix s s' :: "'a mod_player_scheme" and n es go
  assume "mod_ok s"
  then obtain g t where t: "mod_update s = Some (g, t)" "mod_ok t" "mod_moved s t" "g \<longrightarrow> mod_left t < mod_left s"
    using mod_update_step by blast
  show "\<exists>go s'. mod_update s = Some (go, s') \<and> mod_ok s'" using t by blast
  show "\<exists>s'. mod_rewind n s = Some s' \<and> mod_ok s'"
    using mod_rewind_ok [OF mod_okD(1) [OF \<open>mod_ok s\<close>]] by blast
  show "mod_update s = Some (go, s') \<Longrightarrow> \<exists>es. opl_out s' = opl_out s @ es" using t by (auto simp: mod_moved_def)
  show "mod_update s = Some (True, s') \<Longrightarrow> mod_left s' < mod_left s" using t by auto
qed (rule mod_ok_any_chip)

section \<open>Properties\<close>

text \<open>C8: from a well-formed module, one tick of \<open>CmodPlayer::update\<close> returns for whatever effects the
rows hold: no array access leaves its bounds, the song data is unchanged, the module stays well
formed, the chip is only ever sent more, and the end of the song stays reported or comes nearer.\<close>

theorem mod_update_safe:
  assumes "mod_ok s"
  shows "\<exists>go t es. mod_update s = Some (go, t) \<and> mod_ok t \<and> mod_frame t = mod_frame s \<and>
    opl_out t = opl_out s @ es \<and> (mod_songend s \<longrightarrow> mod_songend t) \<and> (go \<longrightarrow> mod_left t < mod_left s)"
  using mod_update_step [OF assms] by (fastforce simp: mod_moved_def)

text \<open>C7: every song ends: for a well-formed module \<open>update\<close> reports the end of the song after finitely
many ticks, whatever jumps, pattern breaks, delays and speed changes its rows and its order list
hold.\<close>

theorem mod_song_ends:
  assumes "mod_ok s"
  shows "\<exists>n s1 s2. play mod_update n s = Some s1 \<and> mod_update s1 = Some (False, s2)"
  by (rule mod_contract.reaches_end [OF assms])

text \<open>An order list in which two jumps lead to each other makes \<open>update\<close> run for ever:
\<open>resolve_order\<close> only notices an entry that jumps to itself.\<close>

theorem mod_jump_cycle_never_returns:
  assumes "mod_order s = 0x81 # 0x80 # rest" "2 \<le> mod_length s" "mod_ord s = 0"
  shows "mod_resolve_order s = None"
proof -
  let ?P = "\<lambda>s :: 'a mod_player_scheme. mod_order s = 0x81 # 0x80 # rest \<and> mod_ord s < 2"
  have never: "\<not> ?P s" if "mod_follow_jumps s = Some r" for s :: "'a mod_player_scheme" and r
    using that
  proof (rule mod_follow_jumps.raw_induct [rotated])
    fix g :: "'a mod_player_scheme \<Rightarrow> (bool \<times> 'a mod_player_scheme) option" and s r
    assume IH: "\<And>s r. g s = Some r \<Longrightarrow> \<not> ?P s"
      and step: "do {
        entry \<leftarrow> rd (mod_order s) (mod_ord s);
        if unat entry \<ge> JUMPMARKER then do {
          let neword = unat entry - JUMPMARKER;
          let s1 = (if neword \<le> mod_ord s then s\<lparr>mod_songend := True\<rparr> else s);
          if neword = mod_ord s then Some (False, s1) else g (s1\<lparr>mod_ord := neword\<rparr>)
        } else Some (True, s) } = Some r"
    show "\<not> ?P s"
    proof
      assume P: "?P s"
      then have "mod_ord s = 0 \<or> mod_ord s = 1" by auto
      then obtain s' where "g s' = Some r" "?P s'"
        using step P by (auto simp: rd_def JUMPMARKER_def Let_def split: if_splits)
      then show False using IH by blast
    qed
  qed
  have "?P s" using assms by simp
  then have "mod_follow_jumps s = None" using never [of s] by (metis not_Some_eq)
  then show ?thesis using assms(2,3) by (simp add: mod_resolve_order_def)
qed

text \<open>Tone portamento never overshoots: below its target a channel stays at or below it, above it at
or above, and on it nothing changes.\<close>

theorem tone_portamento_stops:
  "let target = pitch (ch_nextfreq c) (ch_nextoct c);
       old = pitch (ch_freq c) (ch_oct c);
       c' = ch_tone_portamento info c;
       new = pitch (ch_freq c') (ch_oct c')
   in (if old = target then c' = c else if old < target then new \<le> target else target \<le> new) \<and>
      ch_nextfreq c' = ch_nextfreq c \<and> ch_nextoct c' = ch_nextoct c"
proof -
  have keep: "ch_nextfreq (ch_slide_up a d) = ch_nextfreq d" "ch_nextoct (ch_slide_up a d) = ch_nextoct d"
    "ch_nextfreq (ch_slide_down a d) = ch_nextfreq d" "ch_nextoct (ch_slide_down a d) = ch_nextoct d" for a d
    by (simp_all add: ch_slide_up_def ch_slide_down_def Let_def)
  show ?thesis by (auto simp: ch_tone_portamento_def Let_def keep)
qed

text \<open>The frequency of a channel in units of its lowest octave.\<close>

definition linear_freq :: "mod_chan \<Rightarrow> int" where
  "linear_freq c = uint (ch_freq c) * 2 ^ unat (ch_oct c)"

lemma uint_to_u16_small: "0 \<le> a \<Longrightarrow> a < 65536 \<Longrightarrow> uint (to_u16 a) = a"
  by (simp add: uint_word_of_int)

lemma oct_Suc: "ch_oct c < 7 \<Longrightarrow> unat (ch_oct c + 1) = Suc (unat (ch_oct c))"
  by (simp add: unat_plus_if' word_less_nat_alt)

text \<open>An upward slide keeps the frequency number at or below 686 and never lowers the pitch: where it
moves to the next octave it halves the number.\<close>

theorem slide_up_rises:
  assumes "ch_freq c \<le> 686" "ch_oct c \<le> 7" "0 \<le> a" "a \<le> 255"
  shows "ch_freq (ch_slide_up a c) \<le> 686 \<and> ch_oct (ch_slide_up a c) \<le> 7 \<and>
    linear_freq c \<le> linear_freq (ch_slide_up a c)"
proof -
  let ?f = "ch_freq c + to_u16 a"
  have small: "uint (ch_freq c) \<le> 686" using assms(1) by (simp add: word_le_def)
  have f: "uint ?f = uint (ch_freq c) + a"
  proof -
    have "uint (ch_freq c) + uint (to_u16 a) < 2 ^ LENGTH(16)"
      using small assms(3,4) uint_to_u16_small [of a] by simp
    then show ?thesis using uint_to_u16_small [of a] assms(3,4) by (simp add: uint_plus_if')
  qed
  consider "?f < 686" | "686 \<le> ?f" "ch_oct c < 7" | "686 \<le> ?f" "\<not> ch_oct c < 7" by force
  then show ?thesis
  proof cases
    case 1
    then have "\<not> 686 \<le> ?f" "?f \<le> 686" by auto
    then show ?thesis
      using f assms by (simp add: ch_slide_up_def linear_freq_def Let_def)
  next
    case 2
    have "uint (?f div 2) = (uint (ch_freq c) + a) div 2" by (simp add: uint_div f)
    moreover have "686 \<le> uint (ch_freq c) + a" using 2(1) f by (simp add: word_le_def)
    then have "uint (ch_freq c) \<le> (uint (ch_freq c) + a) div 2 * 2" using assms(3) small by presburger
    ultimately have "uint (ch_freq c) * 2 ^ unat (ch_oct c) \<le> uint (?f div 2) * 2 * 2 ^ unat (ch_oct c)"
      by (intro mult_right_mono) simp_all
    moreover have "?f div 2 \<le> 686"
      using small assms(4) by (simp add: word_le_def uint_div f)
    moreover have "ch_oct c + 1 \<le> 7"
      using 2(2) oct_Suc [OF 2(2)] by (simp add: word_le_nat_alt word_less_nat_alt)
    ultimately show ?thesis
      using 2 oct_Suc [OF 2(2)] by (simp add: ch_slide_up_def linear_freq_def Let_def mult_ac)
  next
    case 3
    then show ?thesis
      using small assms(2) by (simp add: ch_slide_up_def linear_freq_def Let_def)
  qed
qed

section \<open>The volume registers\<close>

text \<open>While the volumes of a channel are at most 63, \<open>setvolume\<close> writes the two level registers of
the channel's operators with values that fit in a byte: the attenuation of the channel in the low six
bits, under the key scaling bits of the instrument.\<close>

theorem setvolume_in_range:
  assumes "mod_ok s" "chan < mod_nchans s" "ch_vol1 (mod_channel s ! chan) \<le> 63" "ch_vol2 (mod_channel s ! chan) \<le> 63"
    "\<not> mod_has Faust s"
  shows "\<exists>t r2 v2 r1 v1. mod_setvolume chan s = Some t \<and> 0 \<le> v2 \<and> v2 \<le> 255 \<and> 0 \<le> v1 \<and> v1 \<le> 255 \<and>
    r2 = 0x40 + op_table ! (chan mod 9) \<and> r1 = 0x43 + op_table ! (chan mod 9) \<and>
    v2 mod 64 = 63 - uint (ch_vol2 (mod_channel s ! chan)) \<and> v1 mod 64 = 63 - uint (ch_vol1 (mod_channel s ! chan)) \<and>
    opl_out t = opl_out (snd (mod_set_opl_chip chan s)) @ [OplWrite r2 v2, OplWrite r1 v1]"
proof -
  have ksl: "uint (d AND 192) \<le> 192" "uint (d AND 192) mod 64 = 0" for d :: u8
  proof -
    have "d AND 192 \<le> 192" by (rule word_and_le1)
    then show "uint (d AND 192) \<le> 192" by (simp add: word_le_def)
    have "take_bit 6 (uint d AND 192) = 0" by (simp add: take_bit_and)
    then show "uint (d AND 192) mod 64 = 0" by (simp add: uint_and take_bit_eq_mod)
  qed
  note ok = mod_okD [OF assms(1)]
  define s1 where "s1 = snd (mod_set_opl_chip chan s)"
  have chip: "mod_set_opl_chip chan s = (chan mod 9, s1)"
    by (simp add: s1_def mod_set_opl_chip_def Let_def)
  have keep: "mod_keep s s1" unfolding s1_def by (rule mod_keep_chip [OF ok(8)])
  have pre: "mod_pre (length (mod_inst s)) (mod_nchans s) s1" by (rule mo.keep_pre [OF ok(8) keep])
  let ?c = "mod_channel s ! chan"
  have same: "mod_channel s1 = mod_channel s" "mod_flags s1 = mod_flags s"
    by (simp_all add: s1_def mod_set_opl_chip_def Let_def opl_setchip_def)
  obtain c where c: "rd (mod_channel s1) chan = Some c" "ch_valid (length (mod_inst s)) c"
    using mod_read_chan [OF assms(2) pre] by blast
  then have c_eq: "c = ?c" using same(1) by (simp add: rd_eq_Some_iff)
  obtain i where i: "mod_ins c s1 = Some i" "length (mi_data i) = 11" using mod_read_ins [OF c(2) pre] by blast
  let ?v2 = "63 - uint (ch_vol2 ?c) + uint (mi_data i ! 9 AND 192)"
  let ?v1 = "63 - uint (ch_vol1 ?c) + uint (mi_data i ! 10 AND 192)"
  have vol: "uint (ch_vol2 ?c) \<le> 63" "uint (ch_vol1 ?c) \<le> 63" using assms(3,4) by (simp_all add: word_le_def)
  have low: "(63 - v + k) mod 64 = 63 - v" if "0 \<le> v" "v \<le> 63" "k mod 64 = 0" for v k :: int
    using that by (simp add: mod_add_eq [symmetric, of "63 - v"] del: mod_add_eq)
  have "mod_setvolume chan s = Some (opl_write (0x43 + op_table ! (chan mod 9)) ?v1
      (opl_write (0x40 + op_table ! (chan mod 9)) ?v2 s1))"
    using c(1) i assms(5) same(2)
    by (simp add: mod_setvolume_def chip mod_has_def rd_Some c_eq Let_def)
  moreover have "0 \<le> ?v2" "?v2 \<le> 255" "0 \<le> ?v1" "?v1 \<le> 255"
    using vol ksl(1) [of "mi_data i ! 9"] ksl(1) [of "mi_data i ! 10"] uint_u8_bounds(1) [of "ch_vol2 ?c"]
      uint_u8_bounds(1) [of "ch_vol1 ?c"] uint_u8_bounds(1) [of "mi_data i ! 9 AND 192"]
      uint_u8_bounds(1) [of "mi_data i ! 10 AND 192"] by linarith+
  moreover have "?v2 mod 64 = 63 - uint (ch_vol2 ?c)" "?v1 mod 64 = 63 - uint (ch_vol1 ?c)"
    using vol ksl(2) low by simp_all
  ultimately show ?thesis by (auto simp: s1_def opl_write_def)
qed

section \<open>Witnesses\<close>

text \<open>A module of one instrument, one channel and one row, with the given order list.\<close>

definition mod_sample :: "mod_event \<Rightarrow> bytes \<Rightarrow> mod_player" where
  "mod_sample e orders =
     \<lparr>opl_out = [], mod_inst = [zero_instrument], mod_tracks = [[e]], mod_order = orders, mod_arplist = None,
      mod_arpcmd = None, mod_initspeed = 6, mod_tempo = 0, mod_trackord = [[1]], mod_bpm = 0, mod_nop = 1,
      mod_length = length orders, mod_restartpos = 0, mod_activechan = 0xffffffff, mod_flags = 0,
      mod_curchip = 0, mod_channel = [zero_chan], mod_speed = 6, mod_del = 0, mod_songend = False,
      mod_regbd = 0, mod_notetable = sa2_notetable, mod_rw = 0, mod_ord = 0, mod_nrows = 1, mod_npats = 1,
      mod_nchans = 1\<rparr>"

lemma mod_sample_ok: "unat (ev_inst e) \<le> 1 \<Longrightarrow> mod_ok (mod_sample e [0])"
  by (simp add: mod_sample_def mod_ok_def mod_song_ok_def mod_tracks_ok_def mod_orders_ok_def mod_valid_def
      matrix_def zero_instrument_def sa2_notetable_def ch_valid_def zero_chan_def JUMPMARKER_def Let_def)

definition demo_event :: mod_event where
  "demo_event = \<lparr>ev_note = 25, ev_command = 4, ev_inst = 1, ev_param2 = 3, ev_param1 = 2\<rparr>"

lemma mod_update_safe_witness:
  "\<exists>go t. mod_update (mod_sample demo_event [0]) = Some (go, t) \<and> mod_ok t"
  using mod_update_safe [OF mod_sample_ok [of demo_event]] by (auto simp: demo_event_def)

lemma mod_song_ends_witness:
  "\<exists>n s1 s2. play mod_update n (mod_sample demo_event [0]) = Some s1 \<and> mod_update s1 = Some (False, s2)"
  by (rule mod_song_ends [OF mod_sample_ok]) (simp add: demo_event_def)

lemma mod_jump_cycle_never_returns_witness:
  "mod_resolve_order (mod_sample demo_event [0x81, 0x80]) = None"
  by (rule mod_jump_cycle_never_returns [where rest = "[]"]) (simp_all add: mod_sample_def)

lemma slide_up_rises_witness:
  "linear_freq (zero_chan\<lparr>ch_freq := 680, ch_oct := 3\<rparr>) \<le>
   linear_freq (ch_slide_up 10 (zero_chan\<lparr>ch_freq := 680, ch_oct := 3\<rparr>))"
  using slide_up_rises [of "zero_chan\<lparr>ch_freq := 680, ch_oct := 3\<rparr>" 10] by simp

lemma setvolume_in_range_witness:
  "\<exists>t r2 v2 r1 v1. mod_setvolume 0 (mod_sample demo_event [0]) = Some t \<and> v2 \<le> 255 \<and> v1 \<le> 255 \<and>
    opl_out t = [OplWrite r2 v2, OplWrite r1 v1]"
proof -
  have ok: "mod_ok (mod_sample demo_event [0])" by (rule mod_sample_ok) (simp add: demo_event_def)
  obtain t r2 v2 r1 v1 where "mod_setvolume 0 (mod_sample demo_event [0]) = Some t" "v2 \<le> 255" "v1 \<le> 255"
    "opl_out t = opl_out (snd (mod_set_opl_chip 0 (mod_sample demo_event [0]))) @ [OplWrite r2 v2, OplWrite r1 v1]"
    using setvolume_in_range [OF ok, of 0]
    by (auto simp: mod_sample_def zero_chan_def mod_has_def)
  then show ?thesis by (auto simp: mod_set_opl_chip_def mod_sample_def)
qed

end
