(* ===== verification/Modload.thy ===== *)
theory Modload
  imports Modplay
begin

text \<open>
  What the loaders for \<open>CmodPlayer\<close> share: writing instruments, tracks and orders into a module
  while reading a file, and the safety of such loops.
\<close>

lemma uint_to_u8_small: "0 \<le> d \<Longrightarrow> d < 256 \<Longrightarrow> uint (to_u8 d) = d"
  by (simp add: uint_word_of_int)

lemma unat_ucast_u16: "unat (ucast (x :: u8) :: u16) = unat x"
proof -
  have "unat x < 2 ^ 16" by (rule less_trans [OF unat_u8_bound(1)]) simp
  then show ?thesis by (simp add: unsigned_ucast_eq take_bit_nat_eq_self)
qed

text \<open>Two formats keep the instrument in five bits, split over two bytes.\<close>

lemma five_bit_inst: "unat (push_bit 4 ((a :: u8) AND 1) + drop_bit 4 (b :: u8)) \<le> 31"
proof -
  have "push_bit 4 a AND 16 \<le> 16" by (rule word_and_le1)
  then have a: "unat (push_bit 4 (a AND 1)) \<le> 16" by (simp add: word_le_nat_alt)
  have b: "unat (drop_bit 4 b) \<le> 15"
  proof -
    have "unat (drop_bit 4 b) = unat b div 16" by (simp only: unat_drop_bit_eq) (simp add: drop_bit_eq_div)
    then show ?thesis using unat_u8_bound(1) [of b] by linarith
  qed
  have "unat (push_bit 4 (a AND 1) + drop_bit 4 b) \<le> unat (push_bit 4 (a AND 1)) + unat (drop_bit 4 b)"
    by (simp add: unat_word_ariths mod_less_eq_dividend)
  then show ?thesis using a b by linarith
qed

section \<open>Filling a module\<close>

definition mod_put_data :: "nat \<Rightarrow> nat \<Rightarrow> u8 \<Rightarrow> 'a mod_player_scheme \<Rightarrow> 'a mod_player_scheme option" where
  "mod_put_data n j v s = do {
     i \<leftarrow> rd (mod_inst s) n;
     d \<leftarrow> wr (mi_data i) j v;
     Some (s\<lparr>mod_inst := (mod_inst s)[n := i\<lparr>mi_data := d\<rparr>]\<rparr>)
   }"

definition mod_put_inst ::
  "nat \<Rightarrow> (mod_instrument \<Rightarrow> mod_instrument) \<Rightarrow> 'a mod_player_scheme \<Rightarrow> 'a mod_player_scheme option"
where
  "mod_put_inst n g s = do {
     i \<leftarrow> rd (mod_inst s) n;
     Some (s\<lparr>mod_inst := (mod_inst s)[n := g i]\<rparr>)
   }"

definition mod_put_event ::
  "nat \<Rightarrow> nat \<Rightarrow> (mod_event \<Rightarrow> mod_event) \<Rightarrow> 'a mod_player_scheme \<Rightarrow> 'a mod_player_scheme option"
where
  "mod_put_event t k g s = do {
     e \<leftarrow> rd2 (mod_tracks s) t k;
     ts \<leftarrow> wr2 (mod_tracks s) t k (g e);
     Some (s\<lparr>mod_tracks := ts\<rparr>)
   }"

definition mod_put_order :: "nat \<Rightarrow> u8 \<Rightarrow> 'a mod_player_scheme \<Rightarrow> 'a mod_player_scheme option" where
  "mod_put_order i v s = do {
     os \<leftarrow> wr (mod_order s) i v;
     Some (s\<lparr>mod_order := os\<rparr>)
   }"

definition mod_put_trackord :: "nat \<Rightarrow> nat \<Rightarrow> u16 \<Rightarrow> 'a mod_player_scheme \<Rightarrow> 'a mod_player_scheme option" where
  "mod_put_trackord i j v s = do {
     ts \<leftarrow> wr2 (mod_trackord s) i j v;
     Some (s\<lparr>mod_trackord := ts\<rparr>)
   }"

text \<open>Reading data bytes of instrument \<open>n\<close> into the given entries, and orders.\<close>

definition mod_read_data ::
  "('f, 'fl) binio \<Rightarrow> nat \<Rightarrow> nat list \<Rightarrow> 'f \<times> 'a mod_player_scheme \<Rightarrow> ('f \<times> 'a mod_player_scheme) option"
where
  "mod_read_data io n js = ofold (\<lambda>j (f, s). do {
     let (v, f) = read_u8 io f;
     s \<leftarrow> mod_put_data n j v s;
     Some (f, s)
   }) js"

definition mod_read_orders ::
  "('f, 'fl) binio \<Rightarrow> nat \<Rightarrow> 'f \<times> 'a mod_player_scheme \<Rightarrow> ('f \<times> 'a mod_player_scheme) option"
where
  "mod_read_orders io n = ofold (\<lambda>i (f, s). do {
     let (v, f) = read_u8 io f;
     s \<leftarrow> mod_put_order i v s;
     Some (f, s)
   }) [0..<n]"

section \<open>The shape of a module being loaded\<close>

text \<open>
  \<open>k\<close> bounds the instrument column, \<open>m\<close> is the number of instruments, \<open>Q\<close> what is known of the
  order list; patterns, rows and channels are those of the module.
\<close>

definition mod_shape :: "nat \<Rightarrow> nat \<Rightarrow> (bytes \<Rightarrow> bool) \<Rightarrow> 'a mod_player_scheme \<Rightarrow> bool" where
  "mod_shape k m Q s \<longleftrightarrow>
     length (mod_inst s) = m \<and> (\<forall>i \<in> set (mod_inst s). length (mi_data i) = 11) \<and>
     length (mod_notetable s) = 12 \<and>
     (\<forall>al. mod_arplist s = Some al \<longrightarrow> length al = SPECIALARPLEN) \<and>
     (\<forall>ac. mod_arpcmd s = Some ac \<longrightarrow> length ac = SPECIALARPLEN) \<and>
     matrix (mod_npats s * mod_nchans s) (mod_nrows s) (mod_tracks s) \<and>
     matrix (mod_npats s) (mod_nchans s) (mod_trackord s) \<and>
     (\<forall>r \<in> set (mod_trackord s). \<forall>x \<in> set r. unat x \<le> mod_npats s * mod_nchans s) \<and>
     (\<forall>r \<in> set (mod_tracks s). \<forall>e \<in> set r. unat (ev_inst e) \<le> k) \<and>
     Q (mod_order s)"

text \<open>What filling the arrays leaves alone.\<close>

definition mod_scalars where
  "mod_scalars s =
     (mod_npats s, mod_nrows s, mod_nchans s, mod_length s, mod_restartpos s, mod_initspeed s, mod_bpm s,
      mod_nop s, mod_activechan s, mod_flags s, opl_out s, mod_curchip s, mod_player.more s)"

text \<open>A stream that behaves and a module of the shape, with the scalars of \<open>s0\<close>.\<close>

definition load_pre ::
  "('f \<Rightarrow> bool) \<Rightarrow> nat \<Rightarrow> nat \<Rightarrow> (bytes \<Rightarrow> bool) \<Rightarrow> 'a mod_player_scheme \<Rightarrow> 'f \<times> 'a mod_player_scheme \<Rightarrow> bool"
where
  "load_pre P k m Q s0 x \<longleftrightarrow> P (fst x) \<and> mod_shape k m Q (snd x) \<and> mod_scalars (snd x) = mod_scalars s0"

interpretation lo: step_calculus "load_pre P k m Q s0" "\<lambda>x. load_pre P k m Q s0" for P k m Q s0
  by unfold_locales

abbreviation load_op where "load_op P k m Q s0 \<equiv> op_ok (load_pre P k m Q s0) (\<lambda>x. load_pre P k m Q s0)"

lemma mod_scalars_eqs:
  assumes "mod_scalars t = mod_scalars s"
  shows "mod_npats t = mod_npats s" "mod_nrows t = mod_nrows s" "mod_nchans t = mod_nchans s"
    "mod_length t = mod_length s" "mod_restartpos t = mod_restartpos s" "mod_initspeed t = mod_initspeed s"
    "mod_bpm t = mod_bpm s" "mod_nop t = mod_nop s" "mod_activechan t = mod_activechan s"
    "mod_flags t = mod_flags s" "opl_out t = opl_out s" "mod_curchip t = mod_curchip s"
    "mod_player.more t = mod_player.more s"
  using assms by (simp_all add: mod_scalars_def)

text \<open>Steps that read a byte or a word and go on, and a step on the module alone.\<close>

lemma load_op_read:
  assumes "stream_laws io P" "\<And>v. load_op P k m Q s0 (\<lambda>(f, s). g v f s)"
  shows "load_op P k m Q s0 (\<lambda>(f, s). case read_u8 io f of (v, f) \<Rightarrow> g v f s)"
proof (rule op_okI)
  fix x :: "'a \<times> 'c mod_player_scheme" assume x: "load_pre P k m Q s0 x"
  obtain f s v f1 where eq: "x = (f, s)" "read_u8 io f = (v, f1)" by (metis surj_pair)
  then have "load_pre P k m Q s0 (f1, s)"
    using x read_u8_stream [OF assms(1), of f v f1] by (simp add: load_pre_def)
  from op_okD [OF assms(2) this, of v]
  show "\<exists>t. (case x of (f, s) \<Rightarrow> case read_u8 io f of (v, f) \<Rightarrow> g v f s) = Some t \<and> load_pre P k m Q s0 t"
    using eq by auto
qed

lemma load_op_read16:
  assumes "stream_laws io P" "\<And>v. load_op P k m Q s0 (\<lambda>(f, s). g v f s)"
  shows "load_op P k m Q s0 (\<lambda>(f, s). case read_u16 io f of (v, f) \<Rightarrow> g v f s)"
proof (rule op_okI)
  fix x :: "'a \<times> 'c mod_player_scheme" assume x: "load_pre P k m Q s0 x"
  obtain f s v f1 where eq: "x = (f, s)" "read_u16 io f = (v, f1)" by (metis surj_pair)
  then have "load_pre P k m Q s0 (f1, s)"
    using x read_u16_stream [OF assms(1), of f v f1] by (simp add: load_pre_def)
  from op_okD [OF assms(2) this, of v]
  show "\<exists>t. (case x of (f, s) \<Rightarrow> case read_u16 io f of (v, f) \<Rightarrow> g v f s) = Some t \<and> load_pre P k m Q s0 t"
    using eq by auto
qed

lemma load_op_state:
  assumes "\<And>s. mod_shape k m Q s \<Longrightarrow> mod_scalars s = mod_scalars s0 \<Longrightarrow>
    \<exists>t. g s = Some t \<and> mod_shape k m Q t \<and> mod_scalars t = mod_scalars s"
  shows "load_op P k m Q s0 (\<lambda>(f, s). Option.bind (g s) (\<lambda>s. Some (f, s)))"
  by (rule op_okI) (use assms in \<open>fastforce simp: load_pre_def\<close>)

lemma load_op_rd:
  assumes "n < length xs" "\<And>v. load_op P k m Q s0 (\<lambda>(f, s). g v f s)"
  shows "load_op P k m Q s0 (\<lambda>(f, s). Option.bind (rd xs n) (\<lambda>v. g v f s))"
  using assms by (simp add: rd_Some)

lemma load_op_if_stream:
  assumes "load_op P k m Q s0 (\<lambda>(f, s). g f s)" "load_op P k m Q s0 (\<lambda>(f, s). h f s)"
  shows "load_op P k m Q s0 (\<lambda>(f, s). if c f then g f s else h f s)"
  by (rule op_okI) (use op_okD [OF assms(1)] op_okD [OF assms(2)] in auto)

lemma load_op_seq:
  assumes "load_op P k m Q s0 g" "load_op P k m Q s0 (\<lambda>(f, s). h f s)"
  shows "load_op P k m Q s0 (\<lambda>(f, s). Option.bind (g (f, s)) (\<lambda>(f, s). h f s))"
proof -
  have "(\<lambda>(f, s). Option.bind (g (f, s)) (\<lambda>(f, s). h f s)) = (\<lambda>x. Option.bind (g x) (\<lambda>(f, s). h f s))"
    by auto
  then show ?thesis using lo.ok_bind [OF assms] by simp
qed

lemma load_op_skip: "load_op P k m Q s0 (\<lambda>(f, s). Some (f, s))"
  by (rule op_okI) (auto simp: load_pre_def)

lemma mod_put_data_ok:
  assumes "mod_shape k m Q s" "n < m" "j < 11"
  shows "\<exists>t. mod_put_data n j v s = Some t \<and> mod_shape k m Q t \<and> mod_scalars t = mod_scalars s"
proof -
  have "length (mod_inst s) = m" "length (mi_data (mod_inst s ! n)) = 11"
    using assms by (auto simp: mod_shape_def)
  then show ?thesis
    using assms by (auto simp: mod_put_data_def rd_Some wr_Some mod_shape_def mod_scalars_def
        dest!: set_update_subset_insert [THEN subsetD])
qed

lemma mod_put_inst_ok:
  assumes "mod_shape k m Q s" "n < m" "\<And>i. length (mi_data i) = 11 \<Longrightarrow> length (mi_data (g i)) = 11"
  shows "\<exists>t. mod_put_inst n g s = Some t \<and> mod_shape k m Q t \<and> mod_scalars t = mod_scalars s"
proof -
  have "length (mod_inst s) = m" "length (mi_data (mod_inst s ! n)) = 11"
    using assms(1,2) by (auto simp: mod_shape_def)
  then show ?thesis
    using assms by (auto simp: mod_put_inst_def rd_Some mod_shape_def mod_scalars_def
        dest!: set_update_subset_insert [THEN subsetD])
qed

lemma mod_put_order_ok:
  "mod_shape k m Q s \<Longrightarrow> (\<And>os. Q os \<Longrightarrow> i < length os \<and> Q (os[i := v])) \<Longrightarrow>
   \<exists>t. mod_put_order i v s = Some t \<and> mod_shape k m Q t \<and> mod_scalars t = mod_scalars s"
  by (auto simp: mod_put_order_def wr_Some mod_shape_def mod_scalars_def)

lemma mod_put_event_ok:
  assumes "mod_shape k m Q s" "t < mod_npats s * mod_nchans s" "j < mod_nrows s"
    "\<And>e. unat (ev_inst e) \<le> k \<Longrightarrow> unat (ev_inst (g e)) \<le> k"
  shows "\<exists>u. mod_put_event t j g s = Some u \<and> mod_shape k m Q u \<and> mod_scalars u = mod_scalars s"
proof -
  let ?T = "mod_tracks s"
  have mat: "matrix (mod_npats s * mod_nchans s) (mod_nrows s) ?T" using assms(1) by (simp add: mod_shape_def)
  have len: "length ?T = mod_npats s * mod_nchans s" "length (?T ! t) = mod_nrows s"
    by (rule matrix_length [OF mat], rule matrix_row [OF mat assms(2)])
  have row: "?T ! t \<in> set ?T" "?T ! t ! j \<in> set (?T ! t)" using len assms(2,3) by simp_all
  then have "unat (ev_inst (g (?T ! t ! j))) \<le> k" using assms(1,4) by (simp add: mod_shape_def)
  then have rows: "\<forall>e \<in> set ((?T ! t)[j := g (?T ! t ! j)]). unat (ev_inst e) \<le> k"
    using assms(1) row(1) by (auto simp: mod_shape_def dest!: set_update_subset_insert [THEN subsetD])
  define R where "R = (?T ! t)[j := g (?T ! t ! j)]"
  have R: "length R = mod_nrows s" "\<forall>e \<in> set R. unat (ev_inst e) \<le> k" using len rows by (simp_all add: R_def)
  have "\<forall>r \<in> set (?T[t := R]). \<forall>e \<in> set r. unat (ev_inst e) \<le> k"
    using assms(1) R(2) by (auto simp: mod_shape_def dest!: set_update_subset_insert [THEN subsetD])
  then have "mod_shape k m Q (s\<lparr>mod_tracks := ?T[t := R]\<rparr>)"
    using assms(1) matrix_update [OF mat assms(2) R(1)] by (simp add: mod_shape_def)
  moreover have "mod_put_event t j g s = Some (s\<lparr>mod_tracks := ?T[t := R]\<rparr>)"
    by (simp add: mod_put_event_def rd2_Some [OF mat assms(2,3)] wr2_Some [OF mat assms(2,3)] R_def)
  ultimately show ?thesis by (simp add: mod_scalars_def)
qed

lemma mod_put_trackord_ok:
  assumes "mod_shape k m Q s" "i < mod_npats s" "j < mod_nchans s" "unat v \<le> mod_npats s * mod_nchans s"
  shows "\<exists>u. mod_put_trackord i j v s = Some u \<and> mod_shape k m Q u \<and> mod_scalars u = mod_scalars s"
proof -
  let ?T = "mod_trackord s"
  have mat: "matrix (mod_npats s) (mod_nchans s) ?T" using assms(1) by (simp add: mod_shape_def)
  define R where "R = (?T ! i)[j := v]"
  have row: "?T ! i \<in> set ?T" using matrix_length [OF mat] assms(2) by simp
  have "\<forall>x \<in> set (?T ! i). unat x \<le> mod_npats s * mod_nchans s" using assms(1) row by (simp add: mod_shape_def)
  then have R: "length R = mod_nchans s" "\<forall>x \<in> set R. unat x \<le> mod_npats s * mod_nchans s"
    using matrix_row [OF mat assms(2)] assms(4)
    by (auto simp: R_def dest!: set_update_subset_insert [THEN subsetD])
  have "\<forall>r \<in> set (?T[i := R]). \<forall>x \<in> set r. unat x \<le> mod_npats s * mod_nchans s"
    using assms(1) R(2) by (auto simp: mod_shape_def dest!: set_update_subset_insert [THEN subsetD])
  then have "mod_shape k m Q (s\<lparr>mod_trackord := ?T[i := R]\<rparr>)"
    using assms(1) matrix_update [OF mat assms(2) R(1)] by (simp add: mod_shape_def)
  moreover have "mod_put_trackord i j v s = Some (s\<lparr>mod_trackord := ?T[i := R]\<rparr>)"
    by (simp add: mod_put_trackord_def wr2_Some [OF mat assms(2,3)] R_def)
  ultimately show ?thesis by (simp add: mod_scalars_def)
qed

lemma mod_read_data_ok:
  assumes "stream_laws io P" "n < m" "\<forall>j \<in> set js. j < 11"
  shows "load_op P k m Q s0 (mod_read_data io n js)"
  unfolding mod_read_data_def
proof (rule lo.ok_ofold)
  fix j assume "j \<in> set js"
  then show "load_op P k m Q s0 (\<lambda>(f, s). do { let (v, f) = read_u8 io f; s \<leftarrow> mod_put_data n j v s; Some (f, s) })"
    unfolding Let_def
    using assms(3) by (intro load_op_read [OF assms(1)] load_op_state mod_put_data_ok assms(2)) simp_all
qed

lemma mod_read_orders_ok:
  assumes "stream_laws io P" "\<And>os i v. Q os \<Longrightarrow> i < n \<Longrightarrow> i < length os \<and> Q (os[i := v])"
  shows "load_op P k m Q s0 (mod_read_orders io n)"
  unfolding mod_read_orders_def
proof (rule lo.ok_ofold)
  fix i assume "i \<in> set [0..<n]"
  then show "load_op P k m Q s0 (\<lambda>(f, s). do { let (v, f) = read_u8 io f; s \<leftarrow> mod_put_order i v s; Some (f, s) })"
    unfolding Let_def
    using assms(2) by (intro load_op_read [OF assms(1)] load_op_state mod_put_order_ok) simp_all
qed

section \<open>Allocating and completing a module\<close>

lemma mod_realloc_instruments_shape:
  "mod_shape k m Q s \<Longrightarrow> mod_shape k m' Q (mod_realloc_instruments m' s)"
  by (auto simp: mod_shape_def mod_realloc_instruments_def zero_instrument_def)

lemma mod_realloc_order_shape: "mod_shape k m Q s \<Longrightarrow> Q' (fresh mem l) \<Longrightarrow> mod_shape k m Q' (mod_realloc_order mem l s)"
  by (auto simp: mod_shape_def mod_realloc_order_def)

lemma mod_realloc_patterns_shape:
  "mod_shape k m Q s \<Longrightarrow> mod_shape k m Q (mod_realloc_patterns cmem pats rows chans s)"
  by (auto simp: mod_shape_def mod_realloc_patterns_def zero_event_def)

lemma mod_shape_mono: "mod_shape k m Q s \<Longrightarrow> k \<le> k' \<Longrightarrow> mod_shape k' m Q s"
  by (fastforce simp: mod_shape_def)

lemma mod_init_trackord_ok:
  assumes "mod_shape k m Q s"
  shows "\<exists>t. mod_init_trackord s = Some t \<and> mod_shape k m Q t \<and> mod_scalars t = mod_scalars s"
proof -
  let ?np = "mod_npats s" and ?nc = "mod_nchans s"
  let ?I = "\<lambda>m. matrix ?np ?nc m \<and> (\<forall>r \<in> set m. \<forall>x \<in> set r. unat x \<le> ?np * ?nc)"
  have "\<exists>m. ofold (\<lambda>i m. wr2 m (i div ?nc) (i mod ?nc) (of_nat (i + 1) :: u16)) [0..<?np * ?nc] (mod_trackord s) =
      Some m \<and> ?I m"
  proof (rule ofold_invariant)
    show "?I (mod_trackord s)" using assms by (simp add: mod_shape_def)
    fix i and m :: "u16 list list"
    assume i: "i \<in> set [0..<?np * ?nc]" and I: "?I m"
    then have pos: "0 < ?nc" by (cases "?nc = 0") simp_all
    have lt: "i div ?nc < ?np" "i mod ?nc < ?nc" using i pos by (simp_all add: less_mult_imp_div_less)
    let ?v = "of_nat (i + 1) :: u16"
    have v: "unat ?v \<le> ?np * ?nc"
    proof -
      have "unat ?v \<le> i + 1" by (simp only: unat_of_nat mod_less_eq_dividend)
      then show ?thesis using i by simp
    qed
    define R where "R = (m ! (i div ?nc))[i mod ?nc := ?v]"
    have row: "m ! (i div ?nc) \<in> set m" using lt(1) matrix_length [of ?np ?nc m] I by (metis nth_mem)
    then have R: "length R = ?nc" "\<forall>x \<in> set R. unat x \<le> ?np * ?nc"
      using I v matrix_row [of ?np ?nc m "i div ?nc"] lt(1)
      by (auto simp: R_def dest!: set_update_subset_insert [THEN subsetD])
    have "?I (m[i div ?nc := R])"
      using I R matrix_update [of ?np ?nc m "i div ?nc" R] lt(1)
      by (auto dest!: set_update_subset_insert [THEN subsetD])
    moreover have "wr2 m (i div ?nc) (i mod ?nc) ?v = Some (m[i div ?nc := R])"
      using wr2_Some [of ?np ?nc m "i div ?nc" "i mod ?nc" ?v] I lt by (simp add: R_def)
    ultimately show "\<exists>m'. wr2 m (i div ?nc) (i mod ?nc) ?v = Some m' \<and> ?I m'" by blast
  qed
  then obtain m' where "mod_init_trackord s = Some (s\<lparr>mod_trackord := m'\<rparr>)" "?I m'"
    by (auto simp: mod_init_trackord_def)
  then show ?thesis using assms by (auto simp: mod_shape_def mod_scalars_def)
qed

text \<open>A module of the right shape with a proper order list can be played.\<close>

lemma mod_shape_song:
  assumes "mod_shape k m Q s" "k \<le> m" "0 < m" "0 < mod_nrows s" "mod_nchans s \<le> 32" "mod_orders_ok s"
  shows "mod_song_ok s"
proof -
  have "\<forall>r \<in> set (mod_tracks s). \<forall>e \<in> set r. unat (ev_inst e) \<le> length (mod_inst s)"
    using assms(1,2) by (fastforce simp: mod_shape_def)
  then show ?thesis using assms by (auto simp: mod_shape_def mod_song_ok_def mod_tracks_ok_def)
qed

text \<open>An order list without jumps.\<close>

lemma mod_orders_plain:
  assumes "0 < mod_length s" "mod_length s \<le> length (mod_order s)" "mod_restartpos s < mod_length s"
    "\<And>i. i < mod_length s \<Longrightarrow> unat (mod_order s ! i) < mod_npats s \<and> unat (mod_order s ! i) < JUMPMARKER"
  shows "mod_orders_ok s"
proof -
  have "mod_jumps_end (mod_order s) (mod_length s) i" if "i < mod_length s" for i
    using assms(1,4) that by (cases "mod_length s") (simp_all add: Let_def)
  moreover have "\<not> JUMPMARKER \<le> unat (mod_order s ! i)" if "i < mod_length s" for i
    using assms(4) [OF that] by simp
  ultimately show ?thesis using assms by (simp add: mod_orders_ok_def)
qed

text \<open>What the constructor leaves.\<close>

lemma mod_construct_ok:
  assumes "mod_construct mem cmem chip s0 = Some s"
  shows "mod_shape 0 250 (\<lambda>os. length os = 128) s" "mod_npats s = 64" "mod_nrows s = 64" "mod_nchans s = 9"
    "mod_activechan s = 0xffffffff" "mod_initspeed s = 6" "mod_nop s = 0" "opl_out s = opl_out s0"
proof -
  have s: "s = (mod_realloc_instruments 250 (mod_realloc_patterns cmem 64 64 9 (mod_realloc_order mem 128
         (s0\<lparr>mod_arplist := None, mod_arpcmd := None, mod_initspeed := 6, mod_nop := 0,
            mod_activechan := 0xffffffff, mod_flags := 0, mod_curchip := chip\<rparr>))))\<lparr>mod_notetable := sa2_notetable\<rparr>"
    using assms by (simp add: mod_construct_def mod_init_notetable_def sa2_notetable_def)
  note defs = mod_realloc_instruments_def mod_realloc_patterns_def mod_realloc_order_def
  show "mod_shape 0 250 (\<lambda>os. length os = 128) s"
    by (auto simp: s defs mod_shape_def zero_instrument_def zero_event_def sa2_notetable_def)
  show "mod_npats s = 64" "mod_nrows s = 64" "mod_nchans s = 9" "mod_activechan s = 0xffffffff"
    "mod_initspeed s = 6" "mod_nop s = 0" "opl_out s = opl_out s0" by (simp_all add: s defs)
qed

section \<open>Rewinding a loaded module\<close>

text \<open>
  The last step of every loader returns whatever the order list holds; the module is well formed
  when the order list is.
\<close>

lemma mod_rewind_loaded:
  assumes "mod_shape k m Q s" "k \<le> m" "0 < m" "0 < mod_nrows s" "mod_nchans s \<le> 32"
    "mod_length s \<le> length (mod_order s)"
  shows "\<exists>t. mod_rewind n s = Some t \<and> (mod_orders_ok s \<longrightarrow> mod_ok t) \<and> mod_pre m (mod_nchans s) t \<and>
    mod_ord t = 0 \<and> mod_rw t = 0 \<and> mod_del t = 0 \<and> mod_speed t = mod_initspeed s \<and>
    mod_frame (t\<lparr>mod_nop := mod_nop s\<rparr>) = mod_frame s"
proof -
  obtain t nop bd out where t: "mod_rewind n s = Some t" and
    tt: "t = s\<lparr>mod_songend := False, mod_del := 0, mod_ord := 0, mod_rw := 0, mod_regbd := 0, mod_tempo := mod_bpm s,
      mod_speed := mod_initspeed s, mod_channel := replicate (mod_nchans s) zero_chan, mod_nop := nop,
      mod_regbd := bd, opl_out := opl_out s @ OplInit # OplWrite 1 32 # out\<rparr>"
    using mod_rewind_total [OF assms(6)] by blast
  have "mod_pre m (mod_nchans s) t"
    using assms(1,3) by (auto simp: tt mod_pre_def mod_valid_def mod_shape_def ch_valid_def zero_chan_def)
  moreover have "mod_ok t" if "mod_orders_ok s"
    using mod_rewind_ok [OF mod_shape_song [OF assms(1-5) that], of n] t by auto
  ultimately show ?thesis using t by (simp add: tt mod_frame_def)
qed

text \<open>
  A row of a pattern that does not exist is read from outside the table of tracks: from an order list
  without entries, whose restart position is used unread, or one with a number that is too large.
\<close>

lemma mod_play_row_faults:
  assumes "\<And>e. rd (mod_order s) (mod_ord s) = Some e \<Longrightarrow>
    length (mod_trackord s) \<le> unat e \<and> 0 < mod_nchans s \<and> odd (mod_activechan s div 2 ^ 31)"
  shows "mod_play_row s = None"
proof (cases "rd (mod_order s) (mod_ord s)")
  case None
  then show ?thesis by (simp add: mod_play_row_def)
next
  case (Some e)
  then have e: "length (mod_trackord s) \<le> unat e" "0 < mod_nchans s" "odd (mod_activechan s div 2 ^ 31)"
    using assms by blast+
  have "[0..<mod_nchans s] = 0 # [1..<mod_nchans s]" using e(2) by (simp add: upt_conv_Cons)
  moreover have "mod_play_channel (unat e) (mod_rw s) 0 (s, False, 0) = None"
  proof -
    obtain oplchan u where u: "mod_set_opl_chip 0 s = (oplchan, u)" by fastforce
    then have "mod_trackord u = mod_trackord s" "mod_activechan u = mod_activechan s"
      by (auto simp: mod_set_opl_chip_def opl_setchip_def Let_def split: if_splits)
    then show ?thesis using u e(1,3) by (simp add: mod_play_channel_def rd2_def rd_def)
  qed
  ultimately show ?thesis using Some by (simp add: mod_play_row_def del: upt.simps)
qed

lemma mod_first_row_faults:
  assumes "mod_pre m n s" "n = mod_nchans s" "n < 256" "mod_del s = 0" "mod_speed s \<noteq> 0"
    and row: "\<And>t. mod_frame t = mod_frame s \<Longrightarrow> mod_ord t = mod_ord s \<Longrightarrow>
      \<exists>u. mod_resolve_order t = Some (True, u) \<and> mod_play_row u = None"
  shows "mod_update s = None"
proof -
  have "mod_op m n (ofold mod_tick_channel [0..<n])"
    by (rule mo.ok_ofold) (simp add: mod_op_tick_channel)
  from op_okD [OF this assms(1)] obtain s1 where s1: "ofold mod_tick_channel [0..<n] s = Some s1" "mod_keep s s1"
    by blast
  obtain u where "mod_resolve_order s1 = Some (True, u)" "mod_play_row u = None"
    using row [OF mod_keepD(2) [OF s1(2)] mod_keepD(5) [OF s1(2)]] by blast
  then show ?thesis using s1(1) mod_keepD(6) [OF s1(2)] assms(2-5) by (simp add: mod_update_def)
qed

lemma mod_empty_list_faults:
  assumes "mod_pre m n s" "n = mod_nchans s" "n < 256" "mod_length s = 0" "mod_del s = 0" "mod_speed s \<noteq> 0"
    "\<And>e. rd (mod_order s) (mod_restartpos s) = Some e \<Longrightarrow>
       length (mod_trackord s) \<le> unat e \<and> 0 < n \<and> odd (mod_activechan s div 2 ^ 31)"
  shows "mod_update s = None"
proof (rule mod_first_row_faults [OF assms(1-3,5,6)])
  fix t assume f: "mod_frame t = mod_frame s" "mod_ord t = mod_ord s"
  note eq = mod_frame_eqs [OF f(1)]
  let ?u = "t\<lparr>mod_songend := True, mod_ord := mod_restartpos t\<rparr>"
  have "mod_play_row ?u = None"
    by (rule mod_play_row_faults) (use assms(2,7) eq in simp)
  then show "\<exists>u. mod_resolve_order t = Some (True, u) \<and> mod_play_row u = None"
    using eq assms(4) by (simp add: mod_resolve_order_def)
qed

lemma mod_bad_pattern_faults:
  assumes "mod_pre m n s" "n = mod_nchans s" "n < 256" "mod_ord s < mod_length s" "mod_length s \<le> length (mod_order s)"
    "mod_del s = 0" "mod_speed s \<noteq> 0" "length (mod_trackord s) \<le> unat (mod_order s ! mod_ord s)"
    "unat (mod_order s ! mod_ord s) < JUMPMARKER" "0 < n" "odd (mod_activechan s div 2 ^ 31)"
  shows "mod_update s = None"
proof (rule mod_first_row_faults [OF assms(1-3,6,7)])
  fix t assume f: "mod_frame t = mod_frame s" "mod_ord t = mod_ord s"
  note eq = mod_frame_eqs [OF f(1)]
  have "mod_play_row t = None"
    by (rule mod_play_row_faults) (use assms(2,4,5,8,10,11) eq f(2) in \<open>simp add: rd_Some\<close>)
  moreover have "mod_resolve_order t = Some (True, t)"
    using eq assms(4,5,9) f(2) by (simp add: mod_resolve_order_def mod_follow_jumps.simps rd_Some)
  ultimately show "\<exists>u. mod_resolve_order t = Some (True, u) \<and> mod_play_row u = None" by blast
qed

end
