(* ===== verification/Adtrack.thy ===== *)
theory Adtrack
  imports Modload
begin

text \<open>
  \<open>src/adtrack.cpp\<close>: the loader for Adlib Tracker 1.0 songs, a fixed grid of 1000 rows of nine
  notes and a second file with the nine instruments.
\<close>

section \<open>Loading\<close>

record adt_op =
  ao_appampmod :: u16
  ao_appvib :: u16
  ao_maintsuslvl :: u16
  ao_keybscale :: u16
  ao_octave :: u16
  ao_freqrisevollvldn :: u16
  ao_softness :: u16
  ao_attack :: u16
  ao_decay :: u16
  ao_release :: u16
  ao_sustain :: u16
  ao_feedback :: u16
  ao_waveform :: u16

definition adt_read_op :: "('f, 'fl) binio \<Rightarrow> 'f \<Rightarrow> adt_op \<times> 'f" where
  "adt_read_op io f =
     (let (v1, f) = read_u16 io f; (v2, f) = read_u16 io f; (v3, f) = read_u16 io f;
          (v4, f) = read_u16 io f; (v5, f) = read_u16 io f; (v6, f) = read_u16 io f;
          (v7, f) = read_u16 io f; (v8, f) = read_u16 io f; (v9, f) = read_u16 io f;
          (v10, f) = read_u16 io f; (v11, f) = read_u16 io f; (v12, f) = read_u16 io f;
          (v13, f) = read_u16 io f
      in (\<lparr>ao_appampmod = v1, ao_appvib = v2, ao_maintsuslvl = v3, ao_keybscale = v4, ao_octave = v5,
           ao_freqrisevollvldn = v6, ao_softness = v7, ao_attack = v8, ao_decay = v9, ao_release = v10,
           ao_sustain = v11, ao_feedback = v12, ao_waveform = v13\<rparr>, f))"

text \<open>The register values of one operator.\<close>

definition adt_mult :: "adt_op \<Rightarrow> u8" where
  "adt_mult i =
     (if ao_appampmod i \<noteq> 0 then 128 else 0) + (if ao_appvib i \<noteq> 0 then 64 else 0) +
     (if ao_maintsuslvl i \<noteq> 0 then 32 else 0) + (if ao_keybscale i \<noteq> 0 then 16 else 0) +
     ucast (ao_octave i + 1)"

definition adt_level :: "adt_op \<Rightarrow> u8" where
  "adt_level i = push_bit 6 (ucast (ao_freqrisevollvldn i AND 3)) + ucast (ao_softness i AND 63)"

definition adt_attack :: "adt_op \<Rightarrow> u8" where
  "adt_attack i = push_bit 4 (ucast (ao_attack i AND 0x0f)) + ucast (ao_decay i AND 0x0f)"

definition adt_release :: "adt_op \<Rightarrow> u8" where
  "adt_release i = push_bit 4 (ucast (ao_release i AND 0x0f)) + ucast (ao_sustain i AND 0x0f)"

definition adt_bytes :: "adt_op \<Rightarrow> adt_op \<Rightarrow> (nat \<times> u8) list" where
  "adt_bytes modulator carrier =
     [(2, adt_mult carrier), (1, adt_mult modulator), (10, adt_level carrier), (9, adt_level modulator),
      (4, adt_attack carrier), (3, adt_attack modulator), (6, adt_release carrier), (5, adt_release modulator),
      (0, push_bit 1 (ucast (ao_feedback carrier AND 7))), (8, ucast (ao_waveform carrier AND 3)),
      (7, ucast (ao_waveform modulator AND 3))]"

definition adt_convert_instrument :: "nat \<Rightarrow> adt_op \<Rightarrow> adt_op \<Rightarrow> mod_player \<Rightarrow> mod_player option" where
  "adt_convert_instrument n modulator carrier =
     ofold (\<lambda>(j, v). mod_put_data n j v) (adt_bytes modulator carrier)"

definition adt_instruments :: "('f, 'fl) binio \<Rightarrow> 'f \<times> mod_player \<Rightarrow> ('f \<times> mod_player) option" where
  "adt_instruments io = ofold (\<lambda>i (f, s). do {
     let (modulator, f) = adt_read_op io f;
     let (carrier, f) = adt_read_op io f;
     s \<leftarrow> adt_convert_instrument i modulator carrier s;
     Some (f, s)
   }) [0..<9]"

text \<open>The number of a note name, \<open>None\<close> for one the loader rejects.\<close>

definition adt_note :: "u8 \<Rightarrow> u8 \<Rightarrow> u8 option" where
  "adt_note c0 c1 =
     (let sharp = (c1 = 35)
      in if c0 = 67 then Some (if sharp then 2 else 1)
         else if c0 = 68 then Some (if sharp then 4 else 3)
         else if c0 = 69 then Some 5
         else if c0 = 70 then Some (if sharp then 7 else 6)
         else if c0 = 71 then Some (if sharp then 9 else 8)
         else if c0 = 65 then Some (if sharp then 11 else 10)
         else if c0 = 66 then Some 12
         else None)"

text \<open>The cells of the grid; the two-byte buffer \<open>note\<close> lives across the loop.\<close>

fun adt_cells ::
  "('f, 'fl) binio \<Rightarrow> (nat \<times> nat) list \<Rightarrow> bytes \<Rightarrow> 'f \<times> mod_player \<Rightarrow> (bool \<times> mod_player) option"
where
  "adt_cells io [] nb (f, s) = Some (True, s)"
| "adt_cells io ((rwp, chp) # cells) nb (f, s) = do {
     let (_, nb, f) = bio_readString io 2 nb f;
     let (octave, f) = read_u8 io f;
     let f = bio_ignore io 1 f;
     c0 \<leftarrow> rd nb 0;
     c1 \<leftarrow> rd nb 1;
     if c0 = 0 then
       (if c1 = 0 then do {
          s \<leftarrow> mod_put_event chp rwp (ev_note_update (\<lambda>_. 127)) s;
          adt_cells io cells nb (f, s)
        } else Some (False, s))
     else (case adt_note c0 c1 of
         None \<Rightarrow> Some (False, s)
       | Some pnote \<Rightarrow> do {
           s \<leftarrow> mod_put_event chp rwp
                 (\<lambda>e. e\<lparr>ev_note := pnote + octave * 12, ev_inst := of_nat (chp + 1)\<rparr>) s;
           adt_cells io cells nb (f, s)
         })
   }"

definition adt_insname :: "string \<Rightarrow> string" where
  "adt_insname filename =
     (if CHR ''.'' \<in> set filename
      then rev (tl (dropWhile (\<lambda>c. c \<noteq> CHR ''.'') (rev filename))) else filename) @ ''.ins''"

text \<open>What the engine is told about the song.\<close>

definition adt_setup :: "(nat \<Rightarrow> u8) \<Rightarrow> (nat \<Rightarrow> mod_chan) \<Rightarrow> mod_player \<Rightarrow> mod_player option" where
  "adt_setup mem cmem s = do {
     s \<leftarrow> mod_init_trackord
           (mod_realloc_order mem 1 (mod_realloc_instruments 9 (mod_realloc_patterns cmem 1 1000 9 s)));
     mod_put_order 0 0 (s\<lparr>mod_flags := mod_flag_bit NoKeyOn, mod_length := 1, mod_restartpos := 0,
                          mod_bpm := 120, mod_initspeed := 3\<rparr>)
   }"

definition adt_load ::
  "('f, 'fl) binio \<Rightarrow> 'f opener \<Rightarrow> (nat \<Rightarrow> u8) \<Rightarrow> (nat \<Rightarrow> mod_chan) \<Rightarrow> string \<Rightarrow> mod_player \<Rightarrow>
   (bool \<times> mod_player) option"
where
  "adt_load io opn mem cmem filename s =
     (case opn filename of None \<Rightarrow> Some (False, s) | Some f \<Rightarrow>
        (let (size, f) = fp_filesize io f
         in if \<not> fp_extension filename ''.sng'' \<or> size \<noteq> 36000 then Some (False, s)
            else (case opn (adt_insname filename) of None \<Rightarrow> Some (False, s) | Some instf \<Rightarrow>
              (let (isize, instf) = fp_filesize io instf
               in if isize \<noteq> 468 then Some (False, s)
                  else do {
                    s \<leftarrow> adt_setup mem cmem s;
                    (instf, s) \<leftarrow> adt_instruments io (instf, s);
                    (ok, s) \<leftarrow> adt_cells io (List.product [0..<1000] [0..<9]) (fresh mem 2) (f, s);
                    if ok then do { s \<leftarrow> mod_rewind 0 s; Some (True, s) } else Some (False, s)
                  }))))"

section \<open>Every accepted song can be played\<close>

lemma adt_read_op_stream:
  "stream_laws io P \<Longrightarrow> P f \<Longrightarrow> adt_read_op io f = (v, f') \<Longrightarrow> P f'"
  by (auto simp: adt_read_op_def split: prod.splits dest: read_u16_stream)

lemma adt_instruments_ok:
  assumes "stream_laws io P"
  shows "load_op P k 9 Q s0 (adt_instruments io)"
  unfolding adt_instruments_def
proof (rule lo.ok_ofold, rule op_okI)
  fix i x assume i: "i \<in> set [0..<9]" and x: "load_pre P k 9 Q s0 x"
  obtain f s m f1 c f2 where eq: "x = (f, s)" "adt_read_op io f = (m, f1)" "adt_read_op io f1 = (c, f2)"
    by (metis surj_pair)
  have P2: "P f2"
    using x eq adt_read_op_stream [OF assms, of f m f1] adt_read_op_stream [OF assms, of f1 c f2]
    by (simp add: load_pre_def)
  have "\<exists>t. adt_convert_instrument i m c s = Some t \<and> mod_shape k 9 Q t \<and> mod_scalars t = mod_scalars s"
    unfolding adt_convert_instrument_def
  proof (rule ofold_invariant)
    show "mod_shape k 9 Q s \<and> mod_scalars s = mod_scalars s" using x eq by (simp add: load_pre_def)
    fix p t assume p: "p \<in> set (adt_bytes m c)" and t: "mod_shape k 9 Q t \<and> mod_scalars t = mod_scalars s"
    have "fst p < 11" "i < 9" using p i by (auto simp: adt_bytes_def)
    then show "\<exists>t'. (case p of (j, v) \<Rightarrow> mod_put_data i j v) t = Some t' \<and>
        mod_shape k 9 Q t' \<and> mod_scalars t' = mod_scalars s"
      using mod_put_data_ok [of k 9 Q t i "fst p" "snd p"] t by (auto simp: split_beta)
  qed
  then show "\<exists>t. (case x of (f, s) \<Rightarrow> do {
      let (modulator, f) = adt_read_op io f;
      let (carrier, f) = adt_read_op io f;
      s \<leftarrow> adt_convert_instrument i modulator carrier s;
      Some (f, s) }) = Some t \<and> load_pre P k 9 Q s0 t"
    using eq P2 x by (auto simp: load_pre_def)
qed

lemma adt_cells_ok:
  assumes "stream_laws io P"
  shows "load_pre P 9 9 Q s0 (f, s) \<Longrightarrow> length nb = 2 \<Longrightarrow> mod_npats s0 = 1 \<Longrightarrow> mod_nchans s0 = 9 \<Longrightarrow>
    mod_nrows s0 = 1000 \<Longrightarrow> \<forall>(r, c) \<in> set cells. r < 1000 \<and> c < 9 \<Longrightarrow>
    \<exists>ok t. adt_cells io cells nb (f, s) = Some (ok, t) \<and> mod_shape 9 9 Q t \<and> mod_scalars t = mod_scalars s0"
proof (induction cells arbitrary: nb f s)
  case Nil
  then show ?case by (auto simp: load_pre_def)
next
  case (Cons cell cells)
  obtain rwp chp where cell: "cell = (rwp, chp)" by fastforce
  then have rc: "rwp < 1000" "chp < 9" using Cons.prems by auto
  have s: "P f" "mod_shape 9 9 Q s" "mod_scalars s = mod_scalars s0" using Cons.prems by (simp_all add: load_pre_def)
  have dims: "chp < mod_npats s * mod_nchans s" "rwp < mod_nrows s"
    using rc mod_scalars_eqs(1-3) [OF s(3)] Cons.prems(3-5) by simp_all
  obtain k note1 f1 octave f2 where
    eq: "bio_readString io 2 nb f = (k, note1, f1)" "read_u8 io f1 = (octave, f2)" by (metis surj_pair)
  have note1: "length note1 = 2" "P f1" using stream_lawsD(3) [OF assms s(1) eq(1)] Cons.prems(2) by simp_all
  have P3: "P (bio_ignore io 1 f2)" by (rule stream_lawsD(9) [OF assms read_u8_stream [OF assms note1(2) eq(2)]])
  have IH: "\<exists>ok u. adt_cells io cells note1 (bio_ignore io 1 f2, t) = Some (ok, u) \<and> mod_shape 9 9 Q u \<and>
      mod_scalars u = mod_scalars s0" if "mod_shape 9 9 Q t" "mod_scalars t = mod_scalars s" for t
    using Cons.IH [of "bio_ignore io 1 f2" t note1] that P3 note1(1) s(3) Cons.prems(3-6)
    by (simp add: load_pre_def)
  have put: "\<exists>t. mod_put_event chp rwp g s = Some t \<and> mod_shape 9 9 Q t \<and> mod_scalars t = mod_scalars s"
    if "\<And>e. unat (ev_inst e) \<le> 9 \<Longrightarrow> unat (ev_inst (g e)) \<le> 9" for g
    by (rule mod_put_event_ok [OF s(2) dims that])
  obtain t1 where t1: "mod_put_event chp rwp (ev_note_update (\<lambda>_. 127)) s = Some t1" "mod_shape 9 9 Q t1"
    "mod_scalars t1 = mod_scalars s" using put [of "ev_note_update (\<lambda>_. 127)"] by auto
  have chp: "unat (of_nat (chp + 1) :: u8) \<le> 9"
  proof -
    have "unat (of_nat (chp + 1) :: u8) \<le> chp + 1" by (simp only: unat_of_nat mod_less_eq_dividend)
    then show ?thesis using rc(2) by linarith
  qed
  have "\<exists>t. mod_put_event chp rwp (\<lambda>e. e\<lparr>ev_note := pnote + octave * 12, ev_inst := of_nat (chp + 1)\<rparr>) s =
      Some t \<and> mod_shape 9 9 Q t \<and> mod_scalars t = mod_scalars s" for pnote
    by (rule put) (use chp in simp)
  then obtain t2 where t2: "mod_put_event chp rwp (\<lambda>e. e\<lparr>ev_note := pnote + octave * 12, ev_inst := of_nat (chp + 1)\<rparr>) s =
      Some (t2 pnote)" "mod_shape 9 9 Q (t2 pnote)" "mod_scalars (t2 pnote) = mod_scalars s" for pnote by metis
  have rds: "rd note1 0 = Some (note1 ! 0)" "rd note1 1 = Some (note1 ! 1)" using note1(1) by (simp_all add: rd_Some)
  have step: "adt_cells io (cell # cells) nb (f, s) =
      (if note1 ! 0 = 0 then
         (if note1 ! 1 = 0 then adt_cells io cells note1 (bio_ignore io 1 f2, t1) else Some (False, s))
       else case adt_note (note1 ! 0) (note1 ! 1) of
           None \<Rightarrow> Some (False, s)
         | Some pnote \<Rightarrow> adt_cells io cells note1 (bio_ignore io 1 f2, t2 pnote))"
    using eq rds t1(1) t2(1) by (simp add: cell split: option.split)
  show ?case
    unfolding step using IH [OF t1(2,3)] IH [OF t2(2,3)] s(2,3) by (auto split: option.split)
qed

lemma adt_setup_ok:
  assumes "mod_shape 0 m Q s"
  shows "\<exists>t. adt_setup mem cmem s = Some t \<and> mod_shape 9 9 (\<lambda>os. os = [0]) t \<and> mod_npats t = 1 \<and> mod_nrows t = 1000 \<and>
    mod_nchans t = 9 \<and> mod_length t = 1 \<and> mod_restartpos t = 0"
proof -
  let ?s = "mod_realloc_order mem 1 (mod_realloc_instruments 9 (mod_realloc_patterns cmem 1 1000 9 s))"
  have "mod_shape 0 9 (\<lambda>os. length os = 1) ?s"
    by (rule mod_realloc_order_shape [OF mod_realloc_instruments_shape [OF mod_realloc_patterns_shape [OF assms]]])
       simp
  then have "mod_shape 9 9 (\<lambda>os. length os = 1) ?s" by (rule mod_shape_mono) simp
  then obtain t where t: "mod_init_trackord ?s = Some t" "mod_shape 9 9 (\<lambda>os. length os = 1) t"
    "mod_scalars t = mod_scalars ?s"
    using mod_init_trackord_ok by blast
  let ?t = "t\<lparr>mod_flags := mod_flag_bit NoKeyOn, mod_length := 1, mod_restartpos := 0, mod_bpm := 120,
    mod_initspeed := 3, mod_order := [0]\<rparr>"
  have len: "length (mod_order t) = 1" using t(2) by (simp add: mod_shape_def)
  then have "(mod_order t)[0 := 0] = [0]" by (cases "mod_order t") simp_all
  then have "adt_setup mem cmem s = Some ?t"
    using t(1) len by (simp add: adt_setup_def mod_put_order_def wr_Some)
  moreover have "mod_shape 9 9 (\<lambda>os. os = [0]) ?t" using t(2) by (simp add: mod_shape_def)
  moreover have "mod_npats ?t = 1" "mod_nrows ?t = 1000" "mod_nchans ?t = 9"
    using mod_scalars_eqs(1-3) [OF t(3)]
    by (simp_all add: mod_realloc_order_def mod_realloc_instruments_def mod_realloc_patterns_def)
  ultimately show ?thesis by simp
qed

text \<open>\<open>CadtrackLoader::load\<close> returns for every pair of files, and a song it accepts is a well-formed
module at its start, so that playing it is safe and comes to an end.\<close>

theorem adt_load_playable:
  assumes "stream_laws io P" "\<And>fn f. opn fn = Some f \<Longrightarrow> P f" "mod_construct mem0 cmem0 chip s0 = Some s"
  shows "\<exists>b t. adt_load io opn mem cmem filename s = Some (b, t) \<and>
    (b \<longrightarrow> mod_ok t \<and> mod_ord t = 0 \<and> mod_rw t = 0 \<and>
      (\<exists>n s1 s2. play mod_update n t = Some s1 \<and> mod_update s1 = Some (False, s2)))"
proof (cases "opn filename")
  case None
  then show ?thesis by (auto simp: adt_load_def)
next
  case (Some f)
  obtain size f1 where f1: "fp_filesize io f = (size, f1)" by fastforce
  have Pf: "P f1" using filesize_stream [OF assms(1) assms(2) [OF Some] f1] by simp
  show ?thesis
  proof (cases "fp_extension filename ''.sng'' \<and> size = 36000")
    case False
    then show ?thesis using Some f1 by (auto simp: adt_load_def)
  next
    case accepted: True
    show ?thesis
    proof (cases "opn (adt_insname filename)")
      case None
      then show ?thesis using \<open>opn filename = Some f\<close> f1 by (auto simp: adt_load_def)
    next
      case (Some g)
      obtain isize g1 where g1: "fp_filesize io g = (isize, g1)" by fastforce
      have Pg: "P g1" using filesize_stream [OF assms(1) assms(2) [OF Some] g1] by simp
      obtain s1 where s1: "adt_setup mem cmem s = Some s1" "mod_shape 9 9 (\<lambda>os. os = [0]) s1" "mod_npats s1 = 1"
        "mod_nrows s1 = 1000" "mod_nchans s1 = 9" "mod_length s1 = 1" "mod_restartpos s1 = 0"
        using adt_setup_ok [OF mod_construct_ok(1) [OF assms(3)], of mem cmem] by blast
      let ?pre = "load_pre P 9 9 (\<lambda>os. os = [0]) s1"
      have "?pre (g1, s1)" using Pg s1(2) by (simp add: load_pre_def)
      then obtain g2 s2 where s2: "adt_instruments io (g1, s1) = Some (g2, s2)" "?pre (g2, s2)"
        using op_okD [OF adt_instruments_ok [OF assms(1)]] by (metis surj_pair)
      have "?pre (f1, s2)" using s2(2) Pf by (simp add: load_pre_def)
      then obtain ok s3 where s3: "adt_cells io (List.product [0..<1000] [0..<9]) (fresh mem 2) (f1, s2) = Some (ok, s3)"
        "mod_shape 9 9 (\<lambda>os. os = [0]) s3" "mod_scalars s3 = mod_scalars s1"
        using adt_cells_ok [OF assms(1) _ _ s1(3,5,4), of "\<lambda>os. os = [0]" f1 s2 "fresh mem 2"
            "List.product [0..<1000] [0..<9]"] by auto
      note eq = mod_scalars_eqs [OF s3(3)]
      have "mod_order s3 = [0]" using s3(2) by (simp add: mod_shape_def)
      then have "mod_orders_ok s3"
        using eq(1,4,5) s1(3,6,7) by (intro mod_orders_plain) (simp_all add: JUMPMARKER_def)
      then have "mod_song_ok s3"
        using mod_shape_song [OF s3(2)] eq(2,3) s1(4,5) by simp
      then obtain t where t: "mod_rewind 0 s3 = Some t" "mod_ok t" "mod_ord t = 0" "mod_rw t = 0"
        using mod_rewind_ok [of s3 0] by blast
      note reach = mod_contract.reaches_end [OF t(2)]
      have "adt_load io opn mem cmem filename s =
          (if isize \<noteq> 468 then Some (False, s) else if ok then Some (True, t) else Some (False, s3))"
        using \<open>opn filename = Some f\<close> f1 accepted Some g1 s1(1) s2(1) s3(1) t(1)
        by (simp add: adt_load_def del: upt.simps)
      then show ?thesis using t(2-4) reach by auto
    qed
  qed
qed

text \<open>A constructed engine, and files that are too short.\<close>

definition mod_raw :: mod_player where
  "mod_raw =
     \<lparr>opl_out = [], mod_inst = [], mod_tracks = [], mod_order = [], mod_arplist = None, mod_arpcmd = None,
      mod_initspeed = 0, mod_tempo = 0, mod_trackord = [], mod_bpm = 0, mod_nop = 0, mod_length = 0,
      mod_restartpos = 0, mod_activechan = 0, mod_flags = 0, mod_curchip = 0, mod_channel = [],
      mod_speed = 0, mod_del = 0, mod_songend = False, mod_regbd = 0, mod_notetable = [], mod_rw = 0,
      mod_ord = 0, mod_nrows = 0, mod_npats = 0, mod_nchans = 0\<rparr>"

definition mod_new :: mod_player where
  "mod_new = the (mod_construct (\<lambda>_. 0) (\<lambda>_. zero_chan) 0 mod_raw)"

lemma mod_construct_new: "mod_construct (\<lambda>_. 0) (\<lambda>_. zero_chan) 0 mod_raw = Some mod_new"
  by (simp add: mod_new_def mod_construct_def mod_init_notetable_def sa2_notetable_def)

lemma adt_load_playable_witness:
  "\<exists>b t. adt_load memio (\<lambda>_. Some (mem_file [67, 35, 4, 0])) (\<lambda>_. 0) (\<lambda>_. zero_chan) ''a.sng'' mod_new =
     Some (b, t) \<and> (b \<longrightarrow> mod_ok t)"
  using adt_load_playable [OF mem_stream_laws [of "[67, 35, 4, 0]"] _ mod_construct_new,
      of "\<lambda>_. Some (mem_file [67, 35, 4, 0])" "\<lambda>_. 0" "\<lambda>_. zero_chan" "''a.sng''"]
  by auto

end
