(* ===== verification/Dtm.thy ===== *)
theory Dtm
  imports Modload
begin

text \<open>
  \<open>src/dtm.cpp\<close>: the loader for DeFy Adlib Tracker modules: a header, a description of sixteen
  lines, instruments, an order list and run-length packed patterns.
\<close>

section \<open>The state\<close>

record dtm_instrument =
  di_name :: bytes
  di_data :: bytes

record dtm_player = mod_player +
  dtm_id :: bytes
  dtm_version :: u8
  dtm_title :: bytes
  dtm_author :: bytes
  dtm_numpat :: u8
  dtm_numinst :: u8
  dtm_desc :: bytes
  dtm_instruments :: "dtm_instrument list"

definition N_CHAN :: nat where "N_CHAN = 9"
definition N_ROW :: nat where "N_ROW = 64"
definition N_ORD :: nat where "N_ORD = 100"
definition MAX_INST :: nat where "MAX_INST = 128"
definition DESC_COLS :: nat where "DESC_COLS = 80"
definition DESC_ROWS :: nat where "DESC_ROWS = 16"
definition DESC_SIZE :: nat where "DESC_SIZE = 1280"

definition dtm_conv_inst :: "nat list" where
  "dtm_conv_inst = [2, 1, 10, 9, 4, 3, 6, 5, 0, 8, 7]"

definition dtm_conv_note :: "u16 list" where
  "dtm_conv_note =
     [0x16B, 0x181, 0x198, 0x1B0, 0x1CA, 0x1E5, 0x202, 0x220, 0x241, 0x263, 0x287, 0x2AE]"

section \<open>Loading\<close>

text \<open>The header, and whether it is accepted.\<close>

definition dtm_read_header ::
  "('f, 'fl) binio \<Rightarrow> 'f \<times> dtm_player \<Rightarrow> (bool \<times> 'f \<times> dtm_player) option"
where
  "dtm_read_header io = (\<lambda>(f, s). do {
     let (_, ident, f) = bio_readString io 12 (dtm_id s) f;
     let (version, f) = read_u8 io f;
     let (_, title, f) = bio_readString io 20 (dtm_title s) f;
     let (_, author, f) = bio_readString io 20 (dtm_author s) f;
     author \<leftarrow> wr author 19 0;
     title \<leftarrow> wr title 19 0;
     let (numpat, f) = read_u8 io f;
     let (v, f) = read_u8 io f;
     let numinst = v + 1;
     let s = s\<lparr>dtm_id := ident, dtm_version := version, dtm_title := title, dtm_author := author,
               dtm_numpat := numpat, dtm_numinst := numinst\<rparr>;
     Some (\<not> (take 9 ident \<noteq> bytes_of ''DeFy DTM '' \<or> version \<noteq> 0x10 \<or> unat numinst > MAX_INST \<or>
              unat numinst < N_CHAN \<or> numpat = 0 \<or> bio_error io f), f, s)
   })"

text \<open>One line of the description, from offset \<open>pos\<close>, and whether it is accepted.\<close>

definition dtm_desc_line ::
  "('f, 'fl) binio \<Rightarrow> 'f \<Rightarrow> bytes \<Rightarrow> nat \<Rightarrow> (bool \<times> 'f \<times> bytes \<times> nat) option"
where
  "dtm_desc_line io f desc pos = do {
     let (len, f) = read_u8 io f;
     if unat len > DESC_COLS then Some (False, f, desc, pos)
     else do {
       let max_length = int (length desc) - 1 - int pos;
       let discard = (if uint len > max_length then uint len - max_length else 0);
       let n = unat (len - to_u8 discard);
       u \<leftarrow> require (pos + n \<le> length desc);
       let (desc, pos', f) =
         (if n \<noteq> 0 then
            (let (_, line, f) = bio_readString io n (drop pos desc) f;
                 line = map (\<lambda>c. if c = 0 then 0x20 else c) (take n line) @ drop n line;
                 f = (if discard \<noteq> 0 then bio_ignore io (nat discard) f else f)
             in (take pos desc @ line, pos + n, f))
          else (desc, pos, f));
       if int n < max_length then do {
         desc \<leftarrow> wr desc pos' 10;
         Some (True, f, desc, pos' + 1)
       } else Some (True, f, desc, pos')
     }
   }"

fun dtm_desc_loop ::
  "('f, 'fl) binio \<Rightarrow> nat \<Rightarrow> 'f \<Rightarrow> bytes \<Rightarrow> nat \<Rightarrow> (bool \<times> 'f \<times> bytes) option"
where
  "dtm_desc_loop io 0 f desc pos = do { desc \<leftarrow> wr desc pos 0; Some (True, f, desc) }"
| "dtm_desc_loop io (Suc n) f desc pos = do {
     (ok, f, desc, pos) \<leftarrow> dtm_desc_line io f desc pos;
     if \<not> ok then Some (False, f, desc) else dtm_desc_loop io n f desc pos
   }"

text \<open>The instruments; the result says whether all were accepted.\<close>

fun dtm_read_instruments ::
  "('f, 'fl) binio \<Rightarrow> nat list \<Rightarrow> 'f \<times> dtm_player \<Rightarrow> (bool \<times> 'f \<times> dtm_player) option"
where
  "dtm_read_instruments io [] (f, s) = Some (True, f, s)"
| "dtm_read_instruments io (i # is) (f, s) = do {
     let (name_length, f) = read_u8 io f;
     if unat name_length \<ge> 13 then Some (False, f, s)
     else do {
       di \<leftarrow> rd (dtm_instruments s) i;
       let (name, f) = (if name_length \<noteq> 0
                        then (let (_, b, f) = bio_readString io (unat name_length) (di_name di) f in (b, f))
                        else (di_name di, f));
       name \<leftarrow> wr name (unat name_length) 0;
       let (_, data, f) = bio_readString io 12 (di_data di) f;
       let s = s\<lparr>dtm_instruments := (dtm_instruments s)[i := \<lparr>di_name = name, di_data = data\<rparr>]\<rparr>;
       s \<leftarrow> ofold (\<lambda>j s. do { c \<leftarrow> rd dtm_conv_inst j; d \<leftarrow> rd data j; mod_put_data i c d s })
             [0..<length dtm_conv_inst] s;
       dtm_read_instruments io is (f, s)
     }
   }"

text \<open>Unpacking a pattern into a buffer, from offset \<open>pos\<close> with \<open>olen\<close> bytes left.\<close>

definition dtm_memset :: "bytes \<Rightarrow> nat \<Rightarrow> nat \<Rightarrow> u8 \<Rightarrow> bytes option" where
  "dtm_memset buf pos cnt v = do {
     u \<leftarrow> require (pos + cnt \<le> length buf);
     Some (take pos buf @ replicate cnt v @ drop (pos + cnt) buf)
   }"

fun dtm_unpack_loop ::
  "('f, 'fl) binio \<Rightarrow> nat \<Rightarrow> 'f \<Rightarrow> bytes \<Rightarrow> nat \<Rightarrow> nat \<Rightarrow> (bool \<times> 'f \<times> bytes) option"
where
  "dtm_unpack_loop io 0 f buf pos olen = Some (olen = 0 \<and> \<not> bio_error io f, f, buf)"
| "dtm_unpack_loop io (Suc n) f buf pos olen = do {
     let (b, f) = read_u8 io f;
     if b AND 0xF0 = 0xD0 then
       (case n of 0 \<Rightarrow> Some (False, f, buf)
        | Suc n' \<Rightarrow> do {
            let (v, f) = read_u8 io f;
            let cnt = min (unat (b AND 0x0F)) olen;
            buf \<leftarrow> dtm_memset buf pos cnt v;
            dtm_unpack_loop io n' f buf (pos + cnt) (olen - cnt)
          })
     else do {
       let cnt = min 1 olen;
       buf \<leftarrow> dtm_memset buf pos cnt b;
       dtm_unpack_loop io n f buf (pos + cnt) (olen - cnt)
     }
   }"

definition dtm_unpack_pattern ::
  "('f, 'fl) binio \<Rightarrow> nat \<Rightarrow> bytes \<Rightarrow> nat \<Rightarrow> 'f \<Rightarrow> (bool \<times> 'f \<times> bytes) option"
where
  "dtm_unpack_pattern io ilen obuf olen f = dtm_unpack_loop io ilen f obuf 0 olen"

text \<open>One event of a pattern, converted into the event of a track.\<close>

definition dtm_event :: "u8 \<Rightarrow> u8 \<Rightarrow> u8 \<Rightarrow> mod_event \<Rightarrow> mod_event" where
  "dtm_event numinst byte0 byte1 e =
     (if byte0 = 0x80 then (if byte1 < numinst then e\<lparr>ev_inst := byte1 + 1\<rparr> else e)
      else
        (let e = e\<lparr>ev_note := (if byte0 \<noteq> 0 \<and> byte0 \<noteq> 127 then byte0 + 1 else byte0)\<rparr>;
             param = byte1 AND 0x0F;
             fx = drop_bit 4 byte1
         in if fx = 0x0 then (if param = 1 then e\<lparr>ev_command := 13\<rparr> else e)
            else if fx = 0x1 then e\<lparr>ev_command := 28, ev_param1 := param\<rparr>
            else if fx = 0x2 then e\<lparr>ev_command := 28, ev_param2 := param\<rparr>
            else if fx = 0xA \<or> fx = 0xC then
              e\<lparr>ev_command := 22, ev_param1 := drop_bit 4 (0x3F - param), ev_param2 := (0x3F - param) AND 0xF\<rparr>
            else if fx = 0xB then
              e\<lparr>ev_command := 21, ev_param1 := drop_bit 4 (0x3F - param), ev_param2 := (0x3F - param) AND 0xF\<rparr>
            else if fx = 0xF then e\<lparr>ev_command := 13, ev_param2 := param\<rparr>
            else e))"

definition dtm_convert_pattern :: "nat \<Rightarrow> bytes \<Rightarrow> dtm_player \<Rightarrow> dtm_player option" where
  "dtm_convert_pattern i buf =
     ofold (\<lambda>(j, k) s. do {
       byte0 \<leftarrow> rd buf ((k * N_CHAN + j) * 2);
       byte1 \<leftarrow> rd buf ((k * N_CHAN + j) * 2 + 1);
       mod_put_event (i * N_CHAN + j) k (dtm_event (dtm_numinst s) byte0 byte1) s
     }) (List.product [0..<N_CHAN] [0..<N_ROW])"

fun dtm_read_patterns ::
  "('f, 'fl) binio \<Rightarrow> nat list \<Rightarrow> bytes \<Rightarrow> 'f \<times> dtm_player \<Rightarrow> (bool \<times> 'f \<times> dtm_player) option"
where
  "dtm_read_patterns io [] buf (f, s) = Some (True, f, s)"
| "dtm_read_patterns io (i # is) buf (f, s) = do {
     let (packed_length, f) = read_u16 io f;
     (ok, f, buf) \<leftarrow> dtm_unpack_pattern io (unat packed_length) buf (N_ROW * N_CHAN * 2) f;
     if \<not> ok then Some (False, f, s)
     else do {
       s \<leftarrow> dtm_convert_pattern i buf s;
       dtm_read_patterns io is buf (f, s)
     }
   }"

text \<open>The end of the order list: a marker, with the restart position, or an invalid entry.\<close>

fun dtm_order_end :: "nat list \<Rightarrow> dtm_player \<Rightarrow> (bool \<times> dtm_player) option" where
  "dtm_order_end [] s = Some (True, s)"
| "dtm_order_end (i # is) s = do {
     e \<leftarrow> rd (mod_order s) i;
     if e AND 0x80 \<noteq> 0 then do {
       let restart = (if e = 0xFF then 0 else unat e - 0x80);
       let s = s\<lparr>mod_length := i, mod_restartpos := restart\<rparr>;
       Some (\<not> restart \<ge> i, s)
     }
     else if ucast e \<ge> mod_nop s then Some (False, s)
     else dtm_order_end is s
   }"

text \<open>\<open>CdtmLoader::rewind\<close>: a default instrument for each channel.\<close>

definition mod_default_instrument :: "nat \<Rightarrow> 'a mod_player_scheme \<Rightarrow> 'a mod_player_scheme option" where
  "mod_default_instrument i s = do {
     ins \<leftarrow> rd (mod_inst s) i;
     d10 \<leftarrow> rd (mi_data ins) 10;
     d9 \<leftarrow> rd (mi_data ins) 9;
     mod_upd i (\<lambda>c. c\<lparr>ch_inst := of_nat i, ch_vol1 := 63 - (d10 AND 63), ch_vol2 := 63 - (d9 AND 63)\<rparr>) s
   }"

definition dtm_rewind :: "int \<Rightarrow> dtm_player \<Rightarrow> dtm_player option" where
  "dtm_rewind subsong s = do {
     s \<leftarrow> mod_rewind subsong s;
     ofold mod_default_instrument [0..<N_CHAN] s
   }"

text \<open>What the engine is told before the instruments are read.\<close>

definition dtm_setup :: "(nat \<Rightarrow> u8) \<Rightarrow> (nat \<Rightarrow> mod_chan) \<Rightarrow> dtm_player \<Rightarrow> dtm_player option" where
  "dtm_setup mem cmem s = do {
     s \<leftarrow> mod_init_notetable dtm_conv_note
           (mod_realloc_patterns cmem (unat (dtm_numpat s)) N_ROW N_CHAN
             (mod_realloc_order mem N_ORD (mod_realloc_instruments (unat (dtm_numinst s)) s)));
     mod_init_trackord s
   }"

text \<open>The order list and the patterns, once the instruments are there.\<close>

definition dtm_load_song ::
  "('f, 'fl) binio \<Rightarrow> (nat \<Rightarrow> u8) \<Rightarrow> 'f \<times> dtm_player \<Rightarrow> (bool \<times> dtm_player) option"
where
  "dtm_load_song io mem = (\<lambda>(f, s). do {
     let (_, os, f) = bio_readString io N_ORD (mod_order s) f;
     let s = s\<lparr>mod_order := os, mod_nop := ucast (dtm_numpat s)\<rparr>;
     (ok, f, s) \<leftarrow> dtm_read_patterns io [0..<unat (mod_nop s)] (fresh mem (N_ROW * N_CHAN * 2)) (f, s);
     if \<not> ok \<or> bio_error io f then Some (False, s)
     else do {
       (ok, s) \<leftarrow> dtm_order_end [0..<N_ORD] (s\<lparr>mod_length := N_ORD\<rparr>);
       if \<not> ok then Some (False, s)
       else do {
         s \<leftarrow> dtm_rewind 0 (s\<lparr>mod_initspeed := 2\<rparr>);
         Some (True, s)
       }
     }
   })"

definition dtm_load ::
  "('f, 'fl) binio \<Rightarrow> 'f opener \<Rightarrow> (nat \<Rightarrow> u8) \<Rightarrow> (nat \<Rightarrow> mod_chan) \<Rightarrow> string \<Rightarrow> dtm_player \<Rightarrow>
   (bool \<times> dtm_player) option"
where
  "dtm_load io opn mem cmem filename s =
     (case opn filename of None \<Rightarrow> Some (False, s) | Some f \<Rightarrow> do {
        (ok, f, s) \<leftarrow> dtm_read_header io (f, s);
        if \<not> ok then Some (False, s)
        else do {
          (ok, f, desc) \<leftarrow> dtm_desc_loop io DESC_ROWS f (replicate (length (dtm_desc s)) 0) 0;
          let s = s\<lparr>dtm_desc := desc\<rparr>;
          if \<not> ok then Some (False, s)
          else do {
            s \<leftarrow> dtm_setup mem cmem s;
            (ok, f, s) \<leftarrow> dtm_read_instruments io [0..<unat (dtm_numinst s)] (f, s);
            if \<not> ok then Some (False, s) else dtm_load_song io mem (f, s)
          }
        }
      })"

section \<open>The description stays in its array\<close>

lemma dtm_desc_line_ok:
  assumes "stream_laws io P" "P f" "pos < length desc" "length desc = DESC_SIZE"
  shows "\<exists>ok f' desc' pos'. dtm_desc_line io f desc pos = Some (ok, f', desc', pos') \<and> P f' \<and>
    length desc' = length desc \<and> pos' < length desc"
proof -
  obtain len f1 where f1: "read_u8 io f = (len, f1)" by fastforce
  have P1: "P f1" by (rule read_u8_stream [OF assms(1,2) f1])
  show ?thesis
  proof (cases "unat len > DESC_COLS")
    case True
    then show ?thesis using f1 P1 assms(3) by (auto simp: dtm_desc_line_def)
  next
    case False
    let ?max = "int (length desc) - 1 - int pos"
    let ?discard = "if uint len > ?max then uint len - ?max else 0"
    let ?n = "unat (len - to_u8 ?discard)"
    have max: "0 \<le> ?max" using assms(3) by linarith
    have disc: "0 \<le> ?discard" "?discard \<le> uint len" using max by auto
    have "uint (to_u8 ?discard) = ?discard"
      by (rule uint_to_u8_small) (use disc uint_u8_bounds(2) [of len] in linarith)+
    then have "uint (len - to_u8 ?discard) = uint len - ?discard"
      using disc(2) by (simp add: uint_sub_if')
    then have n: "int ?n = uint len - ?discard" by (simp add: uint_nat [symmetric])
    then have n_le: "int ?n \<le> ?max" by auto
    then have fits: "pos + ?n < length desc" using max by linarith
    obtain k line f2 where line: "bio_readString io ?n (drop pos desc) f1 = (k, line, f2)" by (metis surj_pair)
    have l: "length line = length desc - pos" "P f2"
      using stream_lawsD(3) [OF assms(1) P1 line] fits by simp_all
    let ?line = "map (\<lambda>c. if c = 0 then 0x20 else c) (take ?n line) @ drop ?n line"
    let ?f3 = "if ?discard \<noteq> 0 then bio_ignore io (nat ?discard) f2 else f2"
    define x where "x = (if ?n \<noteq> 0 then (take pos desc @ ?line, pos + ?n, ?f3) else (desc, pos, f1))"
    obtain d p g where x: "x = (d, p, g)" by (metis surj_pair)
    have "length ?line = length desc - pos" using l(1) by simp
    then have len_d: "length d = length desc" "p < length desc" "P g" "p = pos + ?n"
      using x fits assms(3) P1 l(2) stream_lawsD(9) [OF assms(1) l(2)]
      by (auto simp: x_def split: if_splits)
    have start: "dtm_desc_line io f desc pos = (if int ?n < ?max then do {
        desc \<leftarrow> wr d p 10; Some (True, g, desc, p + 1) } else Some (True, g, d, p))"
      using f1 False fits line x unfolding x_def
      by (auto simp: dtm_desc_line_def Let_def split: if_splits)
    show ?thesis
    proof (cases "int ?n < ?max")
      case True
      then have "p + 1 < length desc" using len_d(4) by linarith
      with True show ?thesis unfolding start using len_d(1-3) by (auto simp: wr_Some)
    next
      case False
      then show ?thesis unfolding start using len_d(1-3) by auto
    qed
  qed
qed

lemma dtm_desc_loop_ok:
  assumes "stream_laws io P"
  shows "P f \<Longrightarrow> pos < length desc \<Longrightarrow> length desc = DESC_SIZE \<Longrightarrow>
    \<exists>ok f' desc'. dtm_desc_loop io n f desc pos = Some (ok, f', desc') \<and> P f' \<and> length desc' = DESC_SIZE"
proof (induction n arbitrary: f desc pos)
  case 0
  then show ?case by (auto simp: wr_Some)
next
  case (Suc n)
  obtain ok f' desc' pos' where l: "dtm_desc_line io f desc pos = Some (ok, f', desc', pos')" "P f'"
    "length desc' = length desc" "pos' < length desc"
    using dtm_desc_line_ok [OF assms Suc.prems] by blast
  then show ?case using Suc.IH [of f' pos' desc'] Suc.prems(3) by (cases ok) auto
qed

section \<open>Unpacking stays in the pattern\<close>

lemma dtm_unpack_loop_ok:
  assumes "stream_laws io P"
  shows "P f \<Longrightarrow> pos + olen = length buf \<Longrightarrow>
    \<exists>ok f' buf'. dtm_unpack_loop io n f buf pos olen = Some (ok, f', buf') \<and> P f' \<and> length buf' = length buf"
proof (induction n arbitrary: f buf pos olen rule: less_induct)
  case (less n)
  have put: "\<exists>b. dtm_memset buf pos (min c olen) v = Some b \<and> length b = length buf \<and>
      (pos + min c olen) + (olen - min c olen) = length b" for c v
  proof -
    have "pos + min c olen \<le> length buf" using less.prems(2) by linarith
    then show ?thesis using less.prems(2) by (simp add: dtm_memset_def require_def)
  qed
  show ?case
  proof (cases n)
    case 0
    then show ?thesis using less.prems by auto
  next
    case (Suc k)
    obtain b f1 where f1: "read_u8 io f = (b, f1)" by fastforce
    have P1: "P f1" by (rule read_u8_stream [OF assms less.prems(1) f1])
    show ?thesis
    proof (cases "b AND 0xF0 = 0xD0")
      case packed: True
      show ?thesis
      proof (cases k)
        case 0
        then show ?thesis using Suc packed f1 P1 by auto
      next
        case (Suc k')
        obtain v f2 where f2: "read_u8 io f1 = (v, f2)" by fastforce
        have P2: "P f2" by (rule read_u8_stream [OF assms P1 f2])
        obtain buf' where buf': "dtm_memset buf pos (min (unat (b AND 0x0F)) olen) v = Some buf'"
          "length buf' = length buf"
          "(pos + min (unat (b AND 0x0F)) olen) + (olen - min (unat (b AND 0x0F)) olen) = length buf'"
          using put by blast
        from less.IH [OF _ P2 buf'(3), of k']
        show ?thesis using \<open>n = Suc k\<close> Suc packed f1 f2 buf'(1,2) by auto
      qed
    next
      case False
      obtain buf' where buf': "dtm_memset buf pos (min 1 olen) b = Some buf'" "length buf' = length buf"
        "(pos + min 1 olen) + (olen - min 1 olen) = length buf'"
        using put by blast
      from less.IH [OF _ P1 buf'(3), of k] show ?thesis using Suc False f1 buf'(1,2) by auto
    qed
  qed
qed

section \<open>The tables of the player\<close>

definition dtm_arrays :: "dtm_player \<Rightarrow> bool" where
  "dtm_arrays s \<longleftrightarrow>
     length (dtm_id s) = 12 \<and> length (dtm_title s) = 20 \<and> length (dtm_author s) = 20 \<and>
     length (dtm_desc s) = DESC_SIZE \<and> length (dtm_instruments s) = MAX_INST \<and>
     (\<forall>di \<in> set (dtm_instruments s). length (di_name di) = 13 \<and> length (di_data di) = 12)"

text \<open>A module being loaded, with its dimensions those of the header.\<close>

definition dtm_ready :: "nat \<Rightarrow> nat \<Rightarrow> (bytes \<Rightarrow> bool) \<Rightarrow> dtm_player \<Rightarrow> bool" where
  "dtm_ready m np Q s \<longleftrightarrow>
     mod_shape m m Q s \<and> mod_npats s = np \<and> mod_nrows s = N_ROW \<and> mod_nchans s = N_CHAN \<and> dtm_arrays s \<and>
     unat (dtm_numinst s) = m \<and> unat (dtm_numpat s) = np"

lemma dtm_ready_put:
  assumes "dtm_ready m np Q s" "mod_shape m m Q t" "mod_scalars t = mod_scalars s"
  shows "dtm_ready m np Q t"
proof -
  note eq = mod_scalars_eqs [OF assms(3)]
  have "dtm_player.more t = dtm_player.more s" "dtm_id t = dtm_id s" "dtm_title t = dtm_title s"
    "dtm_author t = dtm_author s" "dtm_desc t = dtm_desc s" "dtm_instruments t = dtm_instruments s"
    "dtm_numinst t = dtm_numinst s" "dtm_numpat t = dtm_numpat s"
    using eq(13) by (cases s, cases t, simp)+
  then show ?thesis using assms(1,2) eq(1-3) by (simp add: dtm_ready_def dtm_arrays_def)
qed

lemma dtm_convert_pattern_ok:
  assumes "dtm_ready m np Q s" "i < np" "length buf = N_ROW * N_CHAN * 2"
  shows "\<exists>t. dtm_convert_pattern i buf s = Some t \<and> dtm_ready m np Q t \<and>
    mod_nop t = mod_nop s \<and> mod_restartpos t = mod_restartpos s"
  unfolding dtm_convert_pattern_def
proof (rule ofold_invariant)
  let ?I = "\<lambda>t. dtm_ready m np Q t \<and> mod_nop t = mod_nop s \<and> mod_restartpos t = mod_restartpos s"
  show "?I s" using assms(1) by simp
  fix p t assume p: "p \<in> set (List.product [0..<N_CHAN] [0..<N_ROW])" and I: "?I t"
  then have t: "dtm_ready m np Q t" by simp
  obtain j k where jk: "p = (j, k)" "j < N_CHAN" "k < N_ROW" using p by auto
  have "k * N_CHAN + j < N_ROW * N_CHAN"
  proof -
    have "(k + 1) * N_CHAN \<le> N_ROW * N_CHAN" using jk(3) by (intro mult_le_mono1) simp
    then show ?thesis using jk(2) by simp
  qed
  moreover have "a * 2 < b * 2 \<and> a * 2 + 1 < b * 2" if "a < b" for a b :: nat using that by linarith
  ultimately have b: "(k * N_CHAN + j) * 2 < length buf" "(k * N_CHAN + j) * 2 + 1 < length buf"
    using assms(3) by simp_all
  have dims: "mod_npats t * mod_nchans t = np * N_CHAN" "mod_nrows t = N_ROW" using t by (simp_all add: dtm_ready_def)
  have "(i + 1) * N_CHAN \<le> np * N_CHAN" using assms(2) by (intro mult_le_mono1) simp
  then have idx: "i * N_CHAN + j < mod_npats t * mod_nchans t" using jk(2) dims by simp
  let ?g = "dtm_event (dtm_numinst t) (buf ! ((k * N_CHAN + j) * 2)) (buf ! ((k * N_CHAN + j) * 2 + 1))"
  have ins: "unat (ev_inst (?g e)) \<le> m" if "unat (ev_inst e) \<le> m" for e
  proof -
    have "unat (x + 1) \<le> m" if "x < dtm_numinst t" for x :: u8
    proof -
      have "unat x < m" using that t by (simp add: word_less_nat_alt dtm_ready_def)
      moreover have "unat (x + 1) \<le> unat x + 1" by (simp add: unat_word_ariths mod_less_eq_dividend)
      ultimately show ?thesis by linarith
    qed
    then show ?thesis using that by (auto simp: dtm_event_def Let_def)
  qed
  obtain u where u: "mod_put_event (i * N_CHAN + j) k ?g t = Some u" "mod_shape m m Q u" "mod_scalars u = mod_scalars t"
    using mod_put_event_ok [of m m Q t "i * N_CHAN + j" k ?g] t idx jk(3) dims(2) ins by (auto simp: dtm_ready_def)
  then show "\<exists>t'. (case p of (j, k) \<Rightarrow> \<lambda>s. do {
      byte0 \<leftarrow> rd buf ((k * N_CHAN + j) * 2);
      byte1 \<leftarrow> rd buf ((k * N_CHAN + j) * 2 + 1);
      mod_put_event (i * N_CHAN + j) k (dtm_event (dtm_numinst s) byte0 byte1) s }) t = Some t' \<and> ?I t'"
    using b jk(1) dtm_ready_put [OF t u(2,3)] mod_scalars_eqs(5,8) [OF u(3)] I by (simp add: rd_Some)
qed

lemma dtm_read_patterns_ok:
  assumes "stream_laws io P"
  shows "P f \<Longrightarrow> dtm_ready m np Q s \<Longrightarrow> \<forall>i \<in> set is. i < np \<Longrightarrow> length buf = N_ROW * N_CHAN * 2 \<Longrightarrow>
    \<exists>ok f' t. dtm_read_patterns io is buf (f, s) = Some (ok, f', t) \<and> P f' \<and> dtm_ready m np Q t \<and>
      mod_nop t = mod_nop s \<and> mod_restartpos t = mod_restartpos s"
proof (induction "is" arbitrary: f s buf)
  case Nil
  then show ?case by auto
next
  case (Cons i "is")
  obtain len f1 where f1: "read_u16 io f = (len, f1)" by fastforce
  have P1: "P f1" by (rule read_u16_stream [OF assms Cons.prems(1) f1])
  have "0 + N_ROW * N_CHAN * 2 = length buf" using Cons.prems(4) by simp
  from dtm_unpack_loop_ok [OF assms P1 this, of "unat len"]
  obtain ok f2 buf' where u: "dtm_unpack_pattern io (unat len) buf (N_ROW * N_CHAN * 2) f1 = Some (ok, f2, buf')"
    "P f2" "length buf' = N_ROW * N_CHAN * 2" using Cons.prems(4) by (auto simp: dtm_unpack_pattern_def)
  show ?case
  proof (cases ok)
    case False
    then show ?thesis using f1 u Cons.prems by auto
  next
    case True
    obtain t where t: "dtm_convert_pattern i buf' s = Some t" "dtm_ready m np Q t"
      "mod_nop t = mod_nop s" "mod_restartpos t = mod_restartpos s"
      using dtm_convert_pattern_ok [OF Cons.prems(2) _ u(3), of i] Cons.prems(3) by auto
    then show ?thesis using Cons.IH [OF u(2) t(2) _ u(3)] Cons.prems(3) True f1 u(1) by auto
  qed
qed

lemma dtm_read_instruments_ok:
  assumes "stream_laws io P"
  shows "P f \<Longrightarrow> dtm_ready m np Q s \<Longrightarrow> \<forall>i \<in> set is. i < m \<Longrightarrow> m \<le> MAX_INST \<Longrightarrow>
    \<exists>ok f' t. dtm_read_instruments io is (f, s) = Some (ok, f', t) \<and> P f' \<and> dtm_ready m np Q t \<and>
      mod_restartpos t = mod_restartpos s"
proof (induction "is" arbitrary: f s)
  case Nil
  then show ?case by auto
next
  case (Cons i "is")
  obtain len f1 where f1: "read_u8 io f = (len, f1)" by fastforce
  have P1: "P f1" by (rule read_u8_stream [OF assms Cons.prems(1) f1])
  show ?case
  proof (cases "unat len \<ge> 13")
    case True
    then show ?thesis using f1 P1 Cons.prems(2) by auto
  next
    case False
    let ?di = "dtm_instruments s ! i"
    have i: "i < m" "i < length (dtm_instruments s)" "length (di_name ?di) = 13" "length (di_data ?di) = 12"
      using Cons.prems(2-4) by (auto simp: dtm_ready_def dtm_arrays_def)
    obtain k b f2 where f2: "bio_readString io (unat len) (di_name ?di) f1 = (k, b, f2)" by (metis surj_pair)
    have b: "P f2" "length b = 13" using stream_lawsD(3) [OF assms P1 f2] i(3) False by simp_all
    define x where "x = (if len \<noteq> 0 then (b, f2) else (di_name ?di, f1))"
    obtain name f3 where x: "x = (name, f3)" by fastforce
    have name: "length name = 13" "P f3" using x b P1 i(3) by (auto simp: x_def split: if_splits)
    obtain k' data f4 where f4: "bio_readString io 12 (di_data ?di) f3 = (k', data, f4)" by (metis surj_pair)
    have data: "P f4" "length data = 12" using stream_lawsD(3) [OF assms name(2) f4] i(4) by simp_all
    let ?s = "s\<lparr>dtm_instruments := (dtm_instruments s)[i := \<lparr>di_name = name[unat len := 0], di_data = data\<rparr>]\<rparr>"
    have ready: "dtm_ready m np Q ?s"
      using Cons.prems(2) name(1) data(2)
      by (auto simp: dtm_ready_def dtm_arrays_def mod_shape_def dest!: set_update_subset_insert [THEN subsetD])
    have "\<exists>t. ofold (\<lambda>j s. do { c \<leftarrow> rd dtm_conv_inst j; d \<leftarrow> rd data j; mod_put_data i c d s })
        [0..<length dtm_conv_inst] ?s = Some t \<and> (dtm_ready m np Q t \<and> mod_restartpos t = mod_restartpos s)"
    proof (rule ofold_invariant)
      show "dtm_ready m np Q ?s \<and> mod_restartpos ?s = mod_restartpos s" using ready by simp
      fix j t assume j: "j \<in> set [0..<length dtm_conv_inst]" and t: "dtm_ready m np Q t \<and> mod_restartpos t = mod_restartpos s"
      have "length dtm_conv_inst = 11" "\<forall>x \<in> set dtm_conv_inst. x < 11" by (simp_all add: dtm_conv_inst_def)
      then have j11: "j < 11" and "dtm_conv_inst ! j < 11" using j by (simp_all del: upt.simps)
      then obtain u where "mod_put_data i (dtm_conv_inst ! j) (data ! j) t = Some u" "mod_shape m m Q u"
        "mod_scalars u = mod_scalars t"
        using mod_put_data_ok [of m m Q t i "dtm_conv_inst ! j" "data ! j"] t i(1) by (auto simp: dtm_ready_def)
      then show "\<exists>t'. do { c \<leftarrow> rd dtm_conv_inst j; d \<leftarrow> rd data j; mod_put_data i c d t } = Some t' \<and>
          (dtm_ready m np Q t' \<and> mod_restartpos t' = mod_restartpos s)"
        using j j11 data(2) dtm_ready_put [of m np Q t u] t mod_scalars_eqs(5) [of u t] by (simp add: rd_Some)
    qed
    then obtain t where t: "ofold (\<lambda>j s. do { c \<leftarrow> rd dtm_conv_inst j; d \<leftarrow> rd data j; mod_put_data i c d s })
        [0..<length dtm_conv_inst] ?s = Some t" "dtm_ready m np Q t" "mod_restartpos t = mod_restartpos s" by blast
    have "(if len \<noteq> 0 then (let (_, b, f) = bio_readString io (unat len) (di_name ?di) f1 in (b, f))
        else (di_name ?di, f1)) = (name, f3)" using x f2 by (auto simp: x_def split: if_splits)
    then have "dtm_read_instruments io (i # is) (f, s) = dtm_read_instruments io is (f4, t)"
      using f1 False i(2) name(1) f4 t(1)
      by (simp add: rd_Some wr_Some del: upt.simps ofold.simps)
    then show ?thesis using Cons.IH [OF data(1) t(2)] Cons.prems(3,4) t(3) by simp
  qed
qed

section \<open>The order list\<close>

definition dtm_entry_ok :: "dtm_player \<Rightarrow> nat \<Rightarrow> bool" where
  "dtm_entry_ok s i \<longleftrightarrow> mod_order s ! i AND 0x80 = 0 \<and> ucast (mod_order s ! i) < mod_nop s"

text \<open>The end of the order list leaves the entries before it valid.\<close>

definition dtm_ended :: "dtm_player \<Rightarrow> nat \<Rightarrow> bool \<Rightarrow> nat \<Rightarrow> nat \<Rightarrow> bool" where
  "dtm_ended s b ok len restart \<longleftrightarrow>
     len \<le> b \<and> (ok \<longrightarrow> (\<forall>i < len. dtm_entry_ok s i) \<and> (len < b \<longrightarrow> restart < len) \<and>
                      (len = b \<longrightarrow> restart = mod_restartpos s))"

lemma dtm_order_end_ok:
  "b \<le> length (mod_order s) \<Longrightarrow> a \<le> b \<Longrightarrow> mod_length s = b \<Longrightarrow> \<forall>i < a. dtm_entry_ok s i \<Longrightarrow>
   \<exists>ok len restart. dtm_order_end [a..<b] s = Some (ok, s\<lparr>mod_length := len, mod_restartpos := restart\<rparr>) \<and>
     dtm_ended s b ok len restart"
proof (induction "b - a" arbitrary: a)
  case 0
  then have ab: "[a..<b] = []" "a = b" by simp_all
  have "dtm_ended s b True b (mod_restartpos s)" using 0 ab by (simp add: dtm_ended_def)
  moreover have "s = s\<lparr>mod_length := b, mod_restartpos := mod_restartpos s\<rparr>" using 0 by simp
  ultimately show ?case using ab(1) by (metis dtm_order_end.simps(1))
next
  case (Suc k)
  then have ab: "a < b" "[a..<b] = a # [Suc a..<b]" by (simp_all add: upt_conv_Cons)
  let ?e = "mod_order s ! a"
  have e: "rd (mod_order s) a = Some ?e" using Suc.prems(1) ab(1) by (simp add: rd_Some)
  consider "?e AND 0x80 \<noteq> 0" | "?e AND 0x80 = 0" "mod_nop s \<le> ucast ?e" | "dtm_entry_ok s a"
    unfolding dtm_entry_ok_def not_less [symmetric] by blast
  then show ?case
  proof cases
    case 1
    let ?r = "if ?e = 0xFF then 0 else unat ?e - 0x80"
    have "dtm_order_end [a..<b] s = Some (\<not> ?r \<ge> a, s\<lparr>mod_length := a, mod_restartpos := ?r\<rparr>)"
      using 1 e ab by (simp add: Let_def)
    moreover have "dtm_ended s b (\<not> ?r \<ge> a) a ?r"
      using Suc.prems(4) ab(1) by (simp add: dtm_ended_def)
    ultimately show ?thesis by blast
  next
    case 2
    have "s = s\<lparr>mod_length := b, mod_restartpos := mod_restartpos s\<rparr>" using Suc.prems(3) by simp
    then have "dtm_order_end [a..<b] s = Some (False, s\<lparr>mod_length := b, mod_restartpos := mod_restartpos s\<rparr>)"
      using 2 e ab by simp
    moreover have "dtm_ended s b False b (mod_restartpos s)" by (simp add: dtm_ended_def)
    ultimately show ?thesis by blast
  next
    case 3
    have "\<not> mod_nop s \<le> ucast ?e" "\<not> ?e AND 0x80 \<noteq> 0"
      using 3 unfolding dtm_entry_ok_def not_le by blast+
    then have step: "dtm_order_end [a..<b] s = dtm_order_end [Suc a..<b] s" using e ab by simp
    have "\<forall>i < Suc a. dtm_entry_ok s i" using Suc.prems(4) 3 by (auto simp: less_Suc_eq)
    then show ?thesis unfolding step using Suc.hyps(1) [of "Suc a"] Suc.hyps(2) Suc.prems(1,3) ab(1) by simp
  qed
qed

lemma entry_below_marker: "(e :: u8) AND 0x80 = 0 \<Longrightarrow> unat e < JUMPMARKER"
proof -
  assume "e AND 0x80 = 0"
  moreover have "(0x80 OR 0x7F :: u8) = -1" by simp
  then have "e AND (0x80 OR 0x7F) = e" by (simp only: and.right_neutral)
  ultimately have "e AND 0x7F = e" by (simp only: word_ao_dist2 or.left_neutral)
  then have "e \<le> 0x7F" using word_and_le1 [of e "0x7F"] by simp
  then show ?thesis by (simp add: JUMPMARKER_def word_le_nat_alt)
qed

section \<open>rewind\<close>

lemma mod_op_default_instrument:
  assumes "i < n" "i < m" "m \<le> 256"
  shows "mod_op m n (mod_default_instrument i)"
proof -
  have ins: "\<exists>v. rd (mod_inst s) i = Some v \<and> length (mi_data v) = 11" if "mod_pre m n s" for s :: "'a mod_player_scheme"
    using that assms(2) by (auto simp: mod_pre_def mod_valid_def rd_Some)
  have small: "unat (of_nat i :: u8) < m"
    using assms(2,3) by (simp add: unat_of_nat)
  show ?thesis
    unfolding mod_default_instrument_def [abs_def]
    by (intro mo.ok_read [OF ins] mo.ok_read [OF mod_read_list] mod_op_upd assms(1))
       (simp_all add: ch_valid_def small)
qed

lemma mod_default_instruments_ok:
  assumes "mod_pre m n s" "j \<le> n" "j \<le> m" "m \<le> 256"
  shows "\<exists>t. ofold mod_default_instrument [0..<j] s = Some t \<and> mod_keep s t"
proof -
  have "mod_op m n (ofold mod_default_instrument [0..<j])"
    by (rule mo.ok_ofold) (rule mod_op_default_instrument; use assms(2-4) in simp)
  from op_okD [OF this assms(1)] show ?thesis .
qed

lemma mod_default_instruments_speed:
  "ofold mod_default_instrument js s = Some t \<Longrightarrow> mod_speed t = mod_speed s"
  by (induction js arbitrary: s)
    (fastforce simp: mod_default_instrument_def mod_upd_def elim!: bind_eq_SomeE)+

text \<open>What several loaders end with: rewinding, then the default instruments of the first channels.\<close>

lemma mod_rewind_defaults:
  assumes "mod_shape k m Q s" "k \<le> m" "0 < m" "m \<le> 256" "0 < mod_nrows s" "mod_nchans s \<le> 32"
    "mod_length s \<le> length (mod_order s)" "j \<le> mod_nchans s" "j \<le> m"
  shows "\<exists>t. do { s \<leftarrow> mod_rewind n s; ofold mod_default_instrument [0..<j] s } = Some t \<and>
    (mod_orders_ok s \<longrightarrow> mod_ok t) \<and> mod_pre m (mod_nchans s) t \<and> mod_ord t = 0 \<and> mod_rw t = 0 \<and> mod_del t = 0 \<and>
    mod_speed t = mod_initspeed s \<and> mod_frame (t\<lparr>mod_nop := mod_nop s\<rparr>) = mod_frame s"
proof -
  obtain t where t: "mod_rewind n s = Some t" "mod_orders_ok s \<longrightarrow> mod_ok t" "mod_pre m (mod_nchans s) t"
    "mod_ord t = 0" "mod_rw t = 0" "mod_del t = 0" "mod_speed t = mod_initspeed s"
    "mod_frame (t\<lparr>mod_nop := mod_nop s\<rparr>) = mod_frame s"
    using mod_rewind_loaded [OF assms(1-3,5-7), of n] by blast
  obtain u where u: "ofold mod_default_instrument [0..<j] t = Some u" "mod_keep t u"
    using mod_default_instruments_ok [OF t(3), of j] assms(4,8,9) by auto
  have "mod_frame (u\<lparr>mod_nop := mod_nop s\<rparr>) = mod_frame (t\<lparr>mod_nop := mod_nop s\<rparr>)"
    using mod_keepD(2) [OF u(2)] by (simp add: mod_frame_def)
  moreover have "mod_pre m (mod_nchans s) u" by (rule mo.keep_pre [OF t(3) u(2)])
  moreover have "mod_ok t \<Longrightarrow> mod_ok u" by (rule mod_keep_ok [OF u(2)])
  ultimately show ?thesis
    using t u(1) mod_default_instruments_speed [OF u(1)] mod_keepD(4-6) [OF u(2)] by simp
qed

lemma dtm_rewind_ok:
  assumes "mod_shape m m Q s" "mod_nchans s = N_CHAN" "mod_nrows s = N_ROW" "N_CHAN \<le> m" "m \<le> 256" "mod_length s \<le> length (mod_order s)"
  shows "\<exists>t. dtm_rewind n s = Some t \<and> (mod_orders_ok s \<longrightarrow> mod_ok t) \<and> mod_ord t = 0 \<and> mod_rw t = 0 \<and>
    mod_length t = mod_length s \<and> mod_restartpos t = mod_restartpos s"
proof -
  have "0 < m" "0 < mod_nrows s" "mod_nchans s \<le> 32" "N_CHAN \<le> mod_nchans s" using assms(2-4) by (simp_all add: N_CHAN_def N_ROW_def)
  from mod_rewind_defaults [OF assms(1) le_refl this(1) assms(5) this(2,3) assms(6) this(4) assms(4), of n] obtain t where
    t: "do { s \<leftarrow> mod_rewind n s; ofold mod_default_instrument [0..<N_CHAN] s } = Some t" "mod_orders_ok s \<longrightarrow> mod_ok t"
    "mod_ord t = 0" "mod_rw t = 0" "mod_frame (t\<lparr>mod_nop := mod_nop s\<rparr>) = mod_frame s" by blast
  then show ?thesis using mod_frame_eqs(5,6) [OF t(5)] by (simp add: dtm_rewind_def)
qed

text \<open>What an accepted module is: without an end marker the restart position is the one the object had.\<close>

definition dtm_playable :: "nat \<Rightarrow> dtm_player \<Rightarrow> bool" where
  "dtm_playable restart t \<longleftrightarrow> mod_ord t = 0 \<and> mod_rw t = 0 \<and> mod_length t \<le> N_ORD \<and>
     (mod_length t = N_ORD \<longrightarrow> mod_restartpos t = restart) \<and> (mod_length t < N_ORD \<or> restart < N_ORD \<longrightarrow> mod_ok t)"

section \<open>The whole loader\<close>

lemma dtm_load_song_ok:
  assumes "stream_laws io P" "P f" "dtm_ready m np (\<lambda>os. length os = N_ORD) s" "N_CHAN \<le> m" "m \<le> MAX_INST"
  shows "\<exists>b t. dtm_load_song io mem (f, s) = Some (b, t) \<and> (b \<longrightarrow> dtm_playable (mod_restartpos s) t)"
proof -
  obtain k os f1 where f1: "bio_readString io N_ORD (mod_order s) f = (k, os, f1)" by (metis surj_pair)
  have os: "P f1" "length os = N_ORD"
    using stream_lawsD(3) [OF assms(1,2) f1] assms(3) by (simp_all add: dtm_ready_def mod_shape_def)
  let ?s = "s\<lparr>mod_order := os, mod_nop := ucast (dtm_numpat s)\<rparr>"
  have nop: "unat (mod_nop ?s) = np"
    using assms(3) by (simp add: dtm_ready_def unat_ucast_u16)
  have ready: "dtm_ready m np (\<lambda>x. x = os) ?s"
    using assms(3) by (auto simp: dtm_ready_def dtm_arrays_def mod_shape_def)
  obtain ok f2 s2 where s2: "dtm_read_patterns io [0..<np] (fresh mem (N_ROW * N_CHAN * 2)) (f1, ?s) = Some (ok, f2, s2)"
    "dtm_ready m np (\<lambda>x. x = os) s2" "mod_nop s2 = mod_nop ?s" "mod_restartpos s2 = mod_restartpos s"
    using dtm_read_patterns_ok [OF assms(1) os(1) ready, of "[0..<np]" "fresh mem (N_ROW * N_CHAN * 2)"] by auto
  have start: "dtm_load_song io mem (f, s) = (if \<not> ok \<or> bio_error io f2 then Some (False, s2) else do {
      (ok, s) \<leftarrow> dtm_order_end [0..<N_ORD] (s2\<lparr>mod_length := N_ORD\<rparr>);
      if \<not> ok then Some (False, s) else do { s \<leftarrow> dtm_rewind 0 (s\<lparr>mod_initspeed := 2\<rparr>); Some (True, s) } })"
    using f1 s2(1) nop by (simp add: dtm_load_song_def del: upt.simps)
  let ?s2 = "s2\<lparr>mod_length := N_ORD\<rparr>"
  have order2: "mod_order ?s2 = os" using s2(2) by (simp add: dtm_ready_def mod_shape_def)
  obtain okf len restart where e: "dtm_order_end [0..<N_ORD] ?s2 = Some (okf, ?s2\<lparr>mod_length := len, mod_restartpos := restart\<rparr>)"
    "dtm_ended ?s2 N_ORD okf len restart"
    using dtm_order_end_ok [of N_ORD ?s2 0] order2 os(2) by auto
  let ?s3 = "?s2\<lparr>mod_length := len, mod_restartpos := restart, mod_initspeed := 2\<rparr>"
  have step: "dtm_load_song io mem (f, s) = (if \<not> ok \<or> bio_error io f2 then Some (False, s2)
      else if \<not> okf then Some (False, ?s2\<lparr>mod_length := len, mod_restartpos := restart\<rparr>)
      else do { s \<leftarrow> dtm_rewind 0 ?s3; Some (True, s) })"
    unfolding start using e(1) by (simp del: upt.simps)
  show ?thesis
  proof (cases "(\<not> ok \<or> bio_error io f2) \<or> \<not> okf")
    case True
    then show ?thesis unfolding step by auto
  next
    case False
    have len: "len \<le> N_ORD" "len < N_ORD \<longrightarrow> restart < len" "len = N_ORD \<longrightarrow> restart = mod_restartpos s" "\<forall>i < len. dtm_entry_ok ?s2 i"
      using e(2) False s2(4) by (auto simp: dtm_ended_def)
    have dims: "mod_npats s2 = np" "mod_nrows s2 = N_ROW" "mod_nchans s2 = N_CHAN" "length (mod_inst s2) = m"
      using s2(2) by (simp_all add: dtm_ready_def mod_shape_def)
    have order: "mod_order ?s3 = os" using order2 by simp
    have entry: "unat (os ! i) < np \<and> unat (os ! i) < JUMPMARKER" if "i < len" for i
    proof -
      have "os ! i AND 0x80 = 0" and lt: "ucast (os ! i) < mod_nop s2"
        using len(4) that order2 by (auto simp: dtm_entry_ok_def)
      moreover have "unat (ucast (os ! i) :: u16) = unat (os ! i)" by (rule unat_ucast_u16)
      ultimately show ?thesis
        using entry_below_marker [of "os ! i"] nop s2(3) by (simp add: word_less_nat_alt)
    qed
    have orders: "mod_orders_ok ?s3" if "restart < len"
      by (rule mod_orders_plain) (use len that order os(2) entry dims in simp_all)
    have shape: "mod_shape m m (\<lambda>x. x = os) ?s3" using s2(2) by (auto simp: dtm_ready_def mod_shape_def)
    have "mod_length ?s3 \<le> length (mod_order ?s3)" "m \<le> 256" using len(1) order os(2) assms(5) by (simp_all add: MAX_INST_def)
    then obtain t where "dtm_rewind 0 ?s3 = Some t" "mod_orders_ok ?s3 \<longrightarrow> mod_ok t" "mod_ord t = 0" "mod_rw t = 0"
        "mod_length t = len" "mod_restartpos t = restart"
      using dtm_rewind_ok [OF shape _ _ assms(4), of 0] dims by auto
    moreover have "restart < len" if "len < N_ORD \<or> mod_restartpos s < N_ORD" using len(1-3) that by auto
    ultimately show ?thesis unfolding step using False orders len(1,3) by (auto simp: dtm_playable_def)
  qed
qed

lemma dtm_read_header_ok:
  assumes "stream_laws io P" "P f" "dtm_arrays s" "mod_shape k m Q s"
  shows "\<exists>ok f' t. dtm_read_header io (f, s) = Some (ok, f', t) \<and> P f' \<and> dtm_arrays t \<and> mod_shape k m Q t \<and>
    mod_restartpos t = mod_restartpos s \<and> (ok \<longrightarrow> N_CHAN \<le> unat (dtm_numinst t) \<and> unat (dtm_numinst t) \<le> MAX_INST \<and>
      dtm_numpat t \<noteq> 0)"
proof -
  have len: "length (dtm_id s) = 12" "length (dtm_title s) = 20" "length (dtm_author s) = 20"
    using assms(3) by (simp_all add: dtm_arrays_def)
  obtain k1 ident f1 where f1: "bio_readString io 12 (dtm_id s) f = (k1, ident, f1)" by (metis surj_pair)
  have P1: "P f1" "length ident = 12" using stream_lawsD(3) [OF assms(1,2) f1] len(1) by simp_all
  obtain ver f2 where f2: "read_u8 io f1 = (ver, f2)" by fastforce
  have P2: "P f2" by (rule read_u8_stream [OF assms(1) P1(1) f2])
  obtain k3 title f3 where f3: "bio_readString io 20 (dtm_title s) f2 = (k3, title, f3)" by (metis surj_pair)
  have P3: "P f3" "length title = 20" using stream_lawsD(3) [OF assms(1) P2 f3] len(2) by simp_all
  obtain k4 author f4 where f4: "bio_readString io 20 (dtm_author s) f3 = (k4, author, f4)" by (metis surj_pair)
  have P4: "P f4" "length author = 20" using stream_lawsD(3) [OF assms(1) P3(1) f4] len(3) by simp_all
  obtain numpat f5 where f5: "read_u8 io f4 = (numpat, f5)" by fastforce
  have P5: "P f5" by (rule read_u8_stream [OF assms(1) P4(1) f5])
  obtain v f6 where f6: "read_u8 io f5 = (v, f6)" by fastforce
  have P6: "P f6" by (rule read_u8_stream [OF assms(1) P5 f6])
  let ?t = "s\<lparr>dtm_id := ident, dtm_version := ver, dtm_title := title[19 := 0], dtm_author := author[19 := 0],
    dtm_numpat := numpat, dtm_numinst := v + 1\<rparr>"
  have "dtm_read_header io (f, s) = Some (\<not> (take 9 ident \<noteq> bytes_of ''DeFy DTM '' \<or> ver \<noteq> 0x10 \<or>
      unat (v + 1) > MAX_INST \<or> unat (v + 1) < N_CHAN \<or> numpat = 0 \<or> bio_error io f6), f6, ?t)"
    using P3(2) P4(2) by (simp add: dtm_read_header_def f1 f2 f3 f4 f5 f6 wr_Some Let_def)
  moreover have "dtm_arrays ?t" using assms(3) P1(2) P3(2) P4(2) by (simp add: dtm_arrays_def)
  moreover have "mod_shape k m Q ?t" using assms(4) by (simp add: mod_shape_def)
  ultimately show ?thesis using P6 by auto
qed

lemma dtm_setup_ok:
  assumes "dtm_arrays s" "mod_shape 0 k Q s"
  shows "\<exists>t. dtm_setup mem cmem s = Some t \<and>
    dtm_ready (unat (dtm_numinst s)) (unat (dtm_numpat s)) (\<lambda>os. length os = N_ORD) t \<and>
    mod_restartpos t = mod_restartpos s"
proof -
  let ?m = "unat (dtm_numinst s)" and ?np = "unat (dtm_numpat s)"
  let ?Q = "\<lambda>os :: bytes. length os = N_ORD"
  let ?s1 = "mod_realloc_patterns cmem ?np N_ROW N_CHAN (mod_realloc_order mem N_ORD (mod_realloc_instruments ?m s))"
  have shape: "mod_shape 0 ?m ?Q ?s1"
    by (rule mod_realloc_patterns_shape [OF mod_realloc_order_shape [OF mod_realloc_instruments_shape [OF assms(2)]]])
       simp
  let ?s2 = "?s1\<lparr>mod_notetable := dtm_conv_note\<rparr>"
  have s2: "mod_init_notetable dtm_conv_note ?s1 = Some ?s2"
    by (simp add: mod_init_notetable_def dtm_conv_note_def)
  have "mod_shape 0 ?m ?Q ?s2" using shape by (simp add: mod_shape_def dtm_conv_note_def)
  then have "mod_shape ?m ?m ?Q ?s2" by (rule mod_shape_mono) simp
  then obtain t where t: "mod_init_trackord ?s2 = Some t" "mod_shape ?m ?m ?Q t" "mod_scalars t = mod_scalars ?s2"
    using mod_init_trackord_ok by blast
  have "dtm_ready ?m ?np ?Q ?s2"
    using \<open>mod_shape ?m ?m ?Q ?s2\<close> assms(1)
    by (simp add: dtm_ready_def dtm_arrays_def mod_realloc_patterns_def mod_realloc_order_def mod_realloc_instruments_def)
  then have "dtm_ready ?m ?np ?Q t" by (rule dtm_ready_put [OF _ t(2,3)])
  moreover have "mod_restartpos t = mod_restartpos s"
    using mod_scalars_eqs(5) [OF t(3)]
    by (simp add: mod_realloc_patterns_def mod_realloc_order_def mod_realloc_instruments_def)
  moreover have "dtm_setup mem cmem s = Some t" using s2 t(1) by (simp add: dtm_setup_def)
  ultimately show ?thesis by blast
qed

text \<open>C34: \<open>CdtmLoader::load\<close> returns for every file, and never leaves its buffers. An accepted module stands at its
  start. If its order list has an end marker, so that it is shorter than 100, it is well formed and plays to its end;
  without one its restart position is whatever the object had before, which nothing initialises, and the same holds if
  that lies in the list.\<close>

theorem dtm_load_playable:
  assumes "stream_laws io P" "\<And>f. opn filename = Some f \<Longrightarrow> P f" "mod_construct mem0 cmem0 chip s0 = Some s"
    "dtm_arrays s"
  shows "\<exists>b t. dtm_load io opn mem cmem filename s = Some (b, t) \<and>
    (b \<longrightarrow> mod_ord t = 0 \<and> mod_rw t = 0 \<and> mod_length t \<le> N_ORD \<and>
      (mod_length t = N_ORD \<longrightarrow> mod_restartpos t = mod_restartpos s) \<and>
      (mod_length t < N_ORD \<or> mod_restartpos s < N_ORD \<longrightarrow>
        mod_ok t \<and> (\<exists>n s1 s2. play mod_update n t = Some s1 \<and> mod_update s1 = Some (False, s2))))"
proof (cases "opn filename")
  case None
  then show ?thesis by (auto simp: dtm_load_def)
next
  case (Some f)
  obtain ok f1 s1 where h: "dtm_read_header io (f, s) = Some (ok, f1, s1)" "P f1" "dtm_arrays s1"
    "mod_shape 0 250 (\<lambda>os. length os = 128) s1" "mod_restartpos s1 = mod_restartpos s"
    "ok \<longrightarrow> N_CHAN \<le> unat (dtm_numinst s1) \<and> unat (dtm_numinst s1) \<le> MAX_INST \<and> dtm_numpat s1 \<noteq> 0"
    using dtm_read_header_ok [OF assms(1) assms(2) [OF Some] assms(4) mod_construct_ok(1) [OF assms(3)]] by blast
  have len: "length (dtm_desc s1) = DESC_SIZE" using h(3) by (simp add: dtm_arrays_def)
  have "0 < length (replicate (length (dtm_desc s1)) (0 :: u8))" "length (replicate (length (dtm_desc s1)) (0 :: u8)) = DESC_SIZE"
    using len by (simp_all add: DESC_SIZE_def)
  then obtain okd f2 desc where d: "dtm_desc_loop io DESC_ROWS f1 (replicate (length (dtm_desc s1)) 0) 0 = Some (okd, f2, desc)"
    "P f2" "length desc = DESC_SIZE"
    using dtm_desc_loop_ok [OF assms(1) h(2)] by blast
  let ?s2 = "s1\<lparr>dtm_desc := desc\<rparr>"
  have s2: "dtm_arrays ?s2" "mod_shape 0 250 (\<lambda>os. length os = 128) ?s2"
    using h(3,4) d(3) by (simp_all add: dtm_arrays_def mod_shape_def)
  obtain s3 where s3: "dtm_setup mem cmem ?s2 = Some s3"
    "dtm_ready (unat (dtm_numinst s1)) (unat (dtm_numpat s1)) (\<lambda>os. length os = N_ORD) s3"
    "mod_restartpos s3 = mod_restartpos s"
    using dtm_setup_ok [OF s2, of mem cmem] h(5) by auto
  have num: "unat (dtm_numinst s3) = unat (dtm_numinst s1)" using s3(2) by (simp add: dtm_ready_def)
  show ?thesis
  proof (cases "ok \<and> okd")
    case False
    then show ?thesis using Some h(1) d(1) by (auto simp: dtm_load_def)
  next
    case True
    obtain oki f4 s4 where s4: "dtm_read_instruments io [0..<unat (dtm_numinst s3)] (f2, s3) = Some (oki, f4, s4)" "P f4"
      "dtm_ready (unat (dtm_numinst s1)) (unat (dtm_numpat s1)) (\<lambda>os. length os = N_ORD) s4"
      "mod_restartpos s4 = mod_restartpos s"
      using dtm_read_instruments_ok [OF assms(1) d(2) s3(2), of "[0..<unat (dtm_numinst s3)]"] num h(6) True s3(3) by auto
    obtain b t where t: "dtm_load_song io mem (f4, s4) = Some (b, t)" "b \<longrightarrow> dtm_playable (mod_restartpos s) t"
      using dtm_load_song_ok [OF assms(1) s4(2,3), of mem] h(6) True s4(4) by auto
    have "dtm_load io opn mem cmem filename s = (if \<not> oki then Some (False, s4) else Some (b, t))"
      using Some h(1) d(1) True s3(1) s4(1) t(1) by (simp add: dtm_load_def Let_def del: upt.simps dtm_desc_loop.simps)
    moreover have "mod_ok t \<Longrightarrow> \<exists>n s1 s2. play mod_update n t = Some s1 \<and> mod_update s1 = Some (False, s2)"
      by (rule mod_contract.reaches_end)
    ultimately show ?thesis using t(2) by (auto simp: dtm_playable_def)
  qed
qed

definition dtm_raw :: dtm_player where
  "dtm_raw =
     \<lparr>opl_out = [], mod_inst = [], mod_tracks = [], mod_order = [], mod_arplist = None, mod_arpcmd = None,
      mod_initspeed = 0, mod_tempo = 0, mod_trackord = [], mod_bpm = 0, mod_nop = 0, mod_length = 0,
      mod_restartpos = 0, mod_activechan = 0, mod_flags = 0, mod_curchip = 0, mod_channel = [],
      mod_speed = 0, mod_del = 0, mod_songend = False, mod_regbd = 0, mod_notetable = [], mod_rw = 0,
      mod_ord = 0, mod_nrows = 0, mod_npats = 0, mod_nchans = 0, dtm_id = replicate 12 0, dtm_version = 0,
      dtm_title = replicate 20 0, dtm_author = replicate 20 0, dtm_numpat = 0, dtm_numinst = 0,
      dtm_desc = replicate DESC_SIZE 0,
      dtm_instruments = replicate MAX_INST \<lparr>di_name = replicate 13 0, di_data = replicate 12 0\<rparr>\<rparr>"

lemma dtm_load_playable_witness:
  "\<exists>s. mod_construct (\<lambda>_. 0) (\<lambda>_. zero_chan) 0 dtm_raw = Some s \<and>
    (\<exists>b t. dtm_load memio (\<lambda>_. Some (mem_file (bytes_of ''DeFy DTM ''))) (\<lambda>_. 0) (\<lambda>_. zero_chan) ''a.dtm'' s =
       Some (b, t) \<and> (b \<longrightarrow> mod_ord t = 0 \<and> mod_rw t = 0))"
proof -
  obtain s where s: "mod_construct (\<lambda>_. 0) (\<lambda>_. zero_chan) 0 dtm_raw = Some s"
    by (simp add: mod_construct_def mod_init_notetable_def sa2_notetable_def)
  then have "dtm_arrays s"
    by (auto simp: mod_construct_def mod_init_notetable_def sa2_notetable_def mod_realloc_instruments_def
        mod_realloc_patterns_def mod_realloc_order_def dtm_raw_def dtm_arrays_def MAX_INST_def)
  moreover have "length (bytes_of ''DeFy DTM '') < 2 ^ 63" by (simp add: bytes_of_def)
  ultimately show ?thesis
    using dtm_load_playable [OF mem_stream_laws [of "bytes_of ''DeFy DTM ''"] _ s,
        of "\<lambda>_. Some (mem_file (bytes_of ''DeFy DTM ''))" "''a.dtm''" "\<lambda>_. 0" "\<lambda>_. zero_chan"] s
    by auto
qed

end
