(* ===== verification/Sa2.thy ===== *)
theory Sa2
  imports Adtrack
begin

text \<open>
  \<open>src/sa2.cpp\<close>: the loader for Surprise! Adlib Tracker 2 modules, whose nine format versions
  differ in what the file holds.
\<close>

section \<open>Loading\<close>

record sa2_player = mod_player +
  sa2_sadt :: bytes
  sa2_version :: u8
  sa2_instname :: "bytes list"

datatype sa2_has =
  HAS_ARPEGGIOLIST | HAS_V7PATTERNS | HAS_ACTIVECHANNELS | HAS_TRACKORDER | HAS_ARPEGGIO | HAS_OLDBPM
  | HAS_OLDPATTERNS | HAS_UNKNOWN127

text \<open>The note displacement and the contents of a format version.\<close>

definition sa2_type :: "u8 \<Rightarrow> (u8 \<times> sa2_has list) option" where
  "sa2_type version =
     (if version = 1 then Some (0x18, [HAS_UNKNOWN127, HAS_OLDPATTERNS, HAS_OLDBPM])
      else if version = 2 then Some (0x18, [HAS_OLDPATTERNS, HAS_OLDBPM])
      else if version = 3 then Some (0x0c, [HAS_OLDPATTERNS, HAS_OLDBPM])
      else if version = 4 then Some (0x0c, [HAS_ARPEGGIO, HAS_OLDPATTERNS, HAS_OLDBPM])
      else if version = 5 then Some (0x0c, [HAS_ARPEGGIO, HAS_ARPEGGIOLIST, HAS_OLDPATTERNS, HAS_OLDBPM])
      else if version = 6 then Some (0, [HAS_ARPEGGIO, HAS_ARPEGGIOLIST, HAS_OLDPATTERNS, HAS_OLDBPM])
      else if version = 7 then Some (0, [HAS_ARPEGGIO, HAS_ARPEGGIOLIST, HAS_V7PATTERNS])
      else if version = 8 then Some (0, [HAS_ARPEGGIO, HAS_ARPEGGIOLIST, HAS_TRACKORDER])
      else if version = 9 then Some (0, [HAS_ARPEGGIO, HAS_ARPEGGIOLIST, HAS_TRACKORDER, HAS_ACTIVECHANNELS])
      else None)"

definition sa2_convfx :: "u8 list" where
  "sa2_convfx = [0, 1, 2, 3, 4, 5, 6, 255, 8, 255, 10, 11, 12, 13, 255, 15]"

definition sa2_instruments ::
  "('f, 'fl) binio \<Rightarrow> sa2_has list \<Rightarrow> 'f \<times> 'a mod_player_scheme \<Rightarrow> ('f \<times> 'a mod_player_scheme) option"
where
  "sa2_instruments io has = ofold (\<lambda>i (f, s). do {
     (f, s) \<leftarrow> mod_read_data io i [0..<11] (f, s);
     if HAS_ARPEGGIO \<in> set has then do {
       let (start, f) = read_u8 io f;
       let (speed, f) = read_u8 io f;
       let (pos, f) = read_u8 io f;
       let (cnt, f) = read_u8 io f;
       s \<leftarrow> mod_put_inst i (\<lambda>ins. ins\<lparr>mi_arpstart := start, mi_arpspeed := speed, mi_arppos := pos,
                                      mi_arpspdcnt := cnt, mi_misc := 0, mi_slide := 0\<rparr>) s;
       Some (f, s)
     } else do {
       s \<leftarrow> mod_put_inst i (\<lambda>ins. ins\<lparr>mi_arpstart := 0, mi_arpspeed := 0, mi_arppos := 0,
                                      mi_arpspdcnt := 0, mi_misc := 0, mi_slide := 0\<rparr>) s;
       Some (f, s)
     }
   }) [0..<31]"

text \<open>The instrument names, read into the object.\<close>

definition sa2_names :: "('f, 'fl) binio \<Rightarrow> 'f \<times> sa2_player \<Rightarrow> ('f \<times> sa2_player) option" where
  "sa2_names io = ofold (\<lambda>i (f, s). do {
     nm \<leftarrow> rd (sa2_instname s) i;
     let (_, nm, f) = bio_readString io 17 nm f;
     Some (f, s\<lparr>sa2_instname := (sa2_instname s)[i := nm]\<rparr>)
   }) [0..<29]"

text \<open>One event of the three pattern formats, into row \<open>j\<close> of track \<open>t\<close>.\<close>

definition sa2_old_event ::
  "('f, 'fl) binio \<Rightarrow> u8 \<Rightarrow> nat \<Rightarrow> nat \<Rightarrow> 'f \<times> 'a mod_player_scheme \<Rightarrow> ('f \<times> 'a mod_player_scheme) option"
where
  "sa2_old_event io notedis t j = (\<lambda>(f, s). do {
     let (buf, f) = read_u8 io f;
     let (ins, f) = read_u8 io f;
     let (cmd, f) = read_u8 io f;
     let (param1, f) = read_u8 io f;
     let (param2, f) = read_u8 io f;
     fx \<leftarrow> rd sa2_convfx (unat (cmd AND 0xf));
     s \<leftarrow> mod_put_event t j (\<lambda>_. \<lparr>ev_note = (if buf \<noteq> 0 then buf + notedis else 0), ev_command = fx,
             ev_inst = ins, ev_param2 = param2, ev_param1 = param1\<rparr>) s;
     Some (f, s)
   })"

definition sa2_new_event ::
  "('f, 'fl) binio \<Rightarrow> nat \<Rightarrow> nat \<Rightarrow> 'f \<times> 'a mod_player_scheme \<Rightarrow> ('f \<times> 'a mod_player_scheme) option"
where
  "sa2_new_event io t j = (\<lambda>(f, s). do {
     let (b0, f) = read_u8 io f;
     let (b1, f) = read_u8 io f;
     let (b2, f) = read_u8 io f;
     fx \<leftarrow> rd sa2_convfx (unat (b1 AND 0x0f));
     s \<leftarrow> mod_put_event t j (\<lambda>_. \<lparr>ev_note = drop_bit 1 b0, ev_command = fx,
             ev_inst = push_bit 4 (b0 AND 1) + drop_bit 4 b1, ev_param2 = b2 AND 0x0f,
             ev_param1 = drop_bit 4 b2\<rparr>) s;
     Some (f, s)
   })"

text \<open>The tracks: pattern by pattern in the older formats, track by track from version 8 on.\<close>

definition sa2_tracks ::
  "('f, 'fl) binio \<Rightarrow> u8 \<Rightarrow> sa2_has list \<Rightarrow> 'f \<times> 'a mod_player_scheme \<Rightarrow> ('f \<times> 'a mod_player_scheme) option"
where
  "sa2_tracks io notedis has =
     (if HAS_OLDPATTERNS \<in> set has then
        ofold (\<lambda>p (f, s). if bio_ateof io f then Some (f, s)
          else ofold (\<lambda>(j, k). sa2_old_event io notedis (p * 9 + k) j) (List.product [0..<64] [0..<9]) (f, s)) [0..<64]
      else if HAS_V7PATTERNS \<in> set has then
        ofold (\<lambda>p (f, s). if bio_ateof io f then Some (f, s)
          else ofold (\<lambda>(j, k). sa2_new_event io (p * 9 + k) j) (List.product [0..<64] [0..<9]) (f, s)) [0..<64]
      else
        ofold (\<lambda>t (f, s). if bio_ateof io f then Some (f, s)
          else ofold (\<lambda>j. sa2_new_event io t j) [0..<64] (f, s)) [0..<576])"

definition sa2_trackord ::
  "('f, 'fl) binio \<Rightarrow> sa2_has list \<Rightarrow> 'f \<times> 'a mod_player_scheme \<Rightarrow> ('f \<times> 'a mod_player_scheme) option"
where
  "sa2_trackord io has = ofold (\<lambda>(i, j) (f, s).
     if HAS_TRACKORDER \<in> set has then do {
       let (v, f) = read_u8 io f;
       s \<leftarrow> mod_put_trackord i j (ucast v) s;
       Some (f, s)
     } else do {
       s \<leftarrow> mod_put_trackord i j (of_nat (i * 9 + j)) s;
       Some (f, s)
     }) (List.product [0..<64] [0..<9])"

definition sa2_arplists ::
  "('f, 'fl) binio \<Rightarrow> (nat \<Rightarrow> u8) \<Rightarrow> sa2_has list \<Rightarrow> 'f \<times> 'a mod_player_scheme \<Rightarrow> 'f \<times> 'a mod_player_scheme"
where
  "sa2_arplists io mem has = (\<lambda>(f, s).
     if HAS_ARPEGGIOLIST \<in> set has then
       (let s = mod_init_specialarp mem s;
            (al, f) = read_u8s io 256 f;
            (ac, f) = read_u8s io 256 f
        in (f, s\<lparr>mod_arplist := Some al, mod_arpcmd := Some ac\<rparr>))
     else (f, s))"

text \<open>The checks on the song information.\<close>

definition sa2_song_bad :: "'a mod_player_scheme \<Rightarrow> bool" where
  "sa2_song_bad s \<longleftrightarrow>
     mod_nop s < 1 \<or> mod_nop s > 64 \<or> mod_length s < 1 \<or> mod_length s > 128 \<or> mod_restartpos s \<ge> mod_length s"

definition sa2_orders_bad :: "'a mod_player_scheme \<Rightarrow> bool option" where
  "sa2_orders_bad s =
     ofold (\<lambda>i b. do { e \<leftarrow> rd (mod_order s) i; Some (b \<or> mod_nop s \<le> ucast e) }) [0..<mod_length s] False"

definition sa2_load_rest ::
  "('f, 'fl) binio \<Rightarrow> (nat \<Rightarrow> u8) \<Rightarrow> u8 \<Rightarrow> sa2_has list \<Rightarrow> 'f \<times> sa2_player \<Rightarrow> (bool \<times> sa2_player) option"
where
  "sa2_load_rest io mem notedis has = (\<lambda>(f, s). do {
     let (bpm, f) = read_u16 io f;
     let s = s\<lparr>mod_bpm := (if HAS_OLDBPM \<in> set has then to_u16 (uint bpm * 125 div 50) else bpm)\<rparr>;
     let (f, s) = sa2_arplists io mem has (f, s);
     (f, s) \<leftarrow> sa2_trackord io has (f, s);
     let (f, s) = (if HAS_ACTIVECHANNELS \<in> set has
                   then (let (v, f) = read_u16 io f in (f, s\<lparr>mod_activechan := unat v * 2 ^ 16\<rparr>)) else (f, s));
     (f, s) \<leftarrow> sa2_tracks io notedis has (f, s);
     let s = s\<lparr>sa2_instname := map (map (\<lambda>c. if c = 0 then 32 else c)) (sa2_instname s)\<rparr>;
     s \<leftarrow> mod_rewind 0 s;
     Some (True, s)
   })"

definition sa2_load ::
  "('f, 'fl) binio \<Rightarrow> 'f opener \<Rightarrow> (nat \<Rightarrow> u8) \<Rightarrow> string \<Rightarrow> sa2_player \<Rightarrow> (bool \<times> sa2_player) option"
where
  "sa2_load io opn mem filename s =
     (case opn filename of None \<Rightarrow> Some (False, s) | Some f \<Rightarrow> do {
        let (_, sadt, f) = bio_readString io 4 (sa2_sadt s) f;
        let (version, f) = read_u8 io f;
        let s = s\<lparr>sa2_sadt := sadt, sa2_version := version\<rparr>;
        if sadt \<noteq> bytes_of ''SAdT'' then Some (False, s)
        else (case sa2_type version of None \<Rightarrow> Some (False, s) | Some (notedis, has) \<Rightarrow> do {
          (f, s) \<leftarrow> sa2_instruments io has (f, s);
          (f, s) \<leftarrow> sa2_names io (f, s);
          let f = bio_ignore io 3 f;
          (f, s) \<leftarrow> mod_read_orders io 128 (f, s);
          let f = (if HAS_UNKNOWN127 \<in> set has then bio_ignore io 127 f else f);
          let (nop, f) = read_u16 io f;
          let (len, f) = read_u8 io f;
          let (restart, f) = read_u8 io f;
          let s = s\<lparr>mod_nop := nop, mod_length := unat len, mod_restartpos := unat restart\<rparr>;
          if sa2_song_bad s then Some (False, s)
          else do {
            bad \<leftarrow> sa2_orders_bad s;
            if bad then Some (False, s) else sa2_load_rest io mem notedis has (f, s)
          }
        })
      })"

section \<open>The steps stay in the module\<close>

lemma sa2_convfx_index: "unat ((c :: u8) AND 0xf) < length sa2_convfx"
proof -
  have "c AND 0xf \<le> 0xf" by (rule word_and_le1)
  then show ?thesis by (simp add: sa2_convfx_def word_le_nat_alt)
qed

lemma sa2_instruments_ok:
  assumes "stream_laws io P" "31 \<le> m"
  shows "load_op P k m Q s0 (sa2_instruments io has)"
  unfolding sa2_instruments_def
proof (rule lo.ok_ofold)
  fix i assume "i \<in> set [0..<31]"
  then have i: "i < m" using assms(2) by simp
  have "load_op P k m Q s0 (mod_read_data io i [0..<11])"
    by (rule mod_read_data_ok [OF assms(1) i]) simp
  then show "load_op P k m Q s0 (\<lambda>(f, s). do {
      (f, s) \<leftarrow> mod_read_data io i [0..<11] (f, s);
      if HAS_ARPEGGIO \<in> set has then do {
        let (start, f) = read_u8 io f;
        let (speed, f) = read_u8 io f;
        let (pos, f) = read_u8 io f;
        let (cnt, f) = read_u8 io f;
        s \<leftarrow> mod_put_inst i (\<lambda>ins. ins\<lparr>mi_arpstart := start, mi_arpspeed := speed, mi_arppos := pos,
                                       mi_arpspdcnt := cnt, mi_misc := 0, mi_slide := 0\<rparr>) s;
        Some (f, s)
      } else do {
        s \<leftarrow> mod_put_inst i (\<lambda>ins. ins\<lparr>mi_arpstart := 0, mi_arpspeed := 0, mi_arppos := 0,
                                       mi_arpspdcnt := 0, mi_misc := 0, mi_slide := 0\<rparr>) s;
        Some (f, s)
      } })"
    unfolding Let_def
    by (intro load_op_seq load_op_if_stream load_op_read [OF assms(1)] load_op_state mod_put_inst_ok) (simp_all add: i)
qed

lemma sa2_put_ok:
  assumes "t < mod_npats s0 * mod_nchans s0" "j < mod_nrows s0" "\<And>e. unat (ev_inst (g e)) \<le> k"
  shows "load_op P k m Q s0 (\<lambda>(f, s). Option.bind (mod_put_event t j g s) (\<lambda>s. Some (f, s)))"
proof (rule load_op_state)
  fix s assume s: "mod_shape k m Q s" "mod_scalars s = mod_scalars s0"
  note eq = mod_scalars_eqs(1-3) [OF s(2)]
  show "\<exists>u. mod_put_event t j g s = Some u \<and> mod_shape k m Q u \<and> mod_scalars u = mod_scalars s"
    by (rule mod_put_event_ok [OF s(1)]) (use assms eq in simp_all)
qed

lemma sa2_old_event_ok:
  assumes "stream_laws io P" "t < mod_npats s0 * mod_nchans s0" "j < mod_nrows s0"
  shows "load_op P 255 m Q s0 (sa2_old_event io notedis t j)"
  unfolding sa2_old_event_def Let_def
  by (intro load_op_read [OF assms(1)] load_op_rd sa2_put_ok assms(2,3) sa2_convfx_index) simp

lemma sa2_new_event_ok:
  assumes "stream_laws io P" "t < mod_npats s0 * mod_nchans s0" "j < mod_nrows s0" "31 \<le> k"
  shows "load_op P k m Q s0 (sa2_new_event io t j)"
  unfolding sa2_new_event_def Let_def
  by (intro load_op_read [OF assms(1)] load_op_rd sa2_put_ok assms(2,3) sa2_convfx_index)
     (simp only: mod_event.select_convs, rule le_trans [OF five_bit_inst assms(4)])

lemma sa2_tracks_ok:
  assumes "stream_laws io P" "mod_npats s0 = 64" "mod_nchans s0 = 9" "mod_nrows s0 = 64"
    "if HAS_OLDPATTERNS \<in> set has then k = 255 else k = 31"
  shows "load_op P k m Q s0 (sa2_tracks io notedis has)"
proof -
  have old: "load_op P 255 m Q s0 (ofold (\<lambda>(j, c). sa2_old_event io notedis (p * 9 + c) j) (List.product [0..<64] [0..<9]))"
    if "p < 64" for p
    by (rule lo.ok_ofold) (use that assms in \<open>auto intro!: sa2_old_event_ok\<close>)
  have new: "load_op P 31 m Q s0 (ofold (\<lambda>(j, c). sa2_new_event io (p * 9 + c) j) (List.product [0..<64] [0..<9]))"
    if "p < 64" for p
    by (rule lo.ok_ofold) (use that assms in \<open>auto intro!: sa2_new_event_ok\<close>)
  have one: "load_op P 31 m Q s0 (ofold (\<lambda>j. sa2_new_event io t j) [0..<64])" if "t < 576" for t
    by (rule lo.ok_ofold) (use that assms in \<open>auto intro!: sa2_new_event_ok\<close>)
  have guard: "load_op P b m Q s0 (\<lambda>(f, s). if bio_ateof io f then Some (f, s) else g (f, s))"
    if "load_op P b m Q s0 g" for b g
  proof (rule load_op_if_stream [OF load_op_skip])
    show "load_op P b m Q s0 (\<lambda>(f, s). g (f, s))" using that by simp
  qed
  show ?thesis
  proof (cases "HAS_OLDPATTERNS \<in> set has")
    case True
    then have k: "k = 255" using assms(5) by simp
    show ?thesis unfolding sa2_tracks_def if_P [OF True] unfolding k
      by (rule lo.ok_ofold, rule guard, rule old, simp)
  next
    case old: False
    then have k: "k = 31" using assms(5) by simp
    show ?thesis
    proof (cases "HAS_V7PATTERNS \<in> set has")
      case True
      show ?thesis unfolding sa2_tracks_def if_not_P [OF old] if_P [OF True] unfolding k
        by (rule lo.ok_ofold, rule guard, rule new, simp)
    next
      case False
      show ?thesis unfolding sa2_tracks_def if_not_P [OF old] if_not_P [OF False] unfolding k
        by (rule lo.ok_ofold, rule guard, rule one, simp)
    qed
  qed
qed

section \<open>Names, orders and the rest\<close>

definition sa2_arrays :: "sa2_player \<Rightarrow> bool" where
  "sa2_arrays s \<longleftrightarrow> length (sa2_sadt s) = 4 \<and> matrix 29 17 (sa2_instname s)"

lemma sa2_names_ok:
  assumes "stream_laws io P" "P f" "sa2_arrays s"
  shows "\<exists>f' nm. sa2_names io (f, s) = Some (f', s\<lparr>sa2_instname := nm\<rparr>) \<and> P f' \<and> matrix 29 17 nm"
proof -
  let ?I = "\<lambda>(f', s'). P f' \<and> (\<exists>nm. s' = s\<lparr>sa2_instname := nm\<rparr> \<and> matrix 29 17 nm)"
  have "\<exists>x. sa2_names io (f, s) = Some x \<and> ?I x"
    unfolding sa2_names_def
  proof (rule ofold_invariant)
    have "\<exists>nm. s = s\<lparr>sa2_instname := nm\<rparr> \<and> matrix 29 17 nm"
      by (rule exI [of _ "sa2_instname s"]) (use assms(3) in \<open>simp add: sa2_arrays_def\<close>)
    then show "?I (f, s)" using assms(2) by simp
    fix i x assume i: "i \<in> set [0..<29]" and I: "?I x"
    obtain f1 nm where x: "x = (f1, s\<lparr>sa2_instname := nm\<rparr>)" "P f1" and mat: "matrix 29 17 nm" using I by auto
    obtain k b f2 where r: "bio_readString io 17 (nm ! i) f1 = (k, b, f2)" by (metis surj_pair)
    have i': "i < 29" using i by simp
    have len: "length (nm ! i) = 17" "i < length nm" using matrix_row [OF mat i'] matrix_length [OF mat] i' by simp_all
    have "P f2" "length b = 17" using stream_lawsD(3) [OF assms(1) x(2) r] len(1) by simp_all
    then have "?I (f2, s\<lparr>sa2_instname := nm[i := b]\<rparr>)" using matrix_update [OF mat i', of b] by auto
    moreover have "(\<lambda>(f, s). do {
        nm \<leftarrow> rd (sa2_instname s) i;
        let (_, nm, f) = bio_readString io 17 nm f;
        Some (f, s\<lparr>sa2_instname := (sa2_instname s)[i := nm]\<rparr>) }) x = Some (f2, s\<lparr>sa2_instname := nm[i := b]\<rparr>)"
      by (simp add: x(1) rd_Some [OF len(2)] r)
    ultimately show "\<exists>y. (\<lambda>(f, s). do {
        nm \<leftarrow> rd (sa2_instname s) i;
        let (_, nm, f) = bio_readString io 17 nm f;
        Some (f, s\<lparr>sa2_instname := (sa2_instname s)[i := nm]\<rparr>) }) x = Some y \<and> ?I y" by blast
  qed
  then show ?thesis by auto
qed

lemma sa2_orders_bad_ok:
  assumes "mod_length s \<le> length (mod_order s)"
  shows "\<exists>b. sa2_orders_bad s = Some b \<and> (\<not> b \<longrightarrow> (\<forall>i < mod_length s. ucast (mod_order s ! i) < mod_nop s))"
proof -
  have "n \<le> mod_length s \<Longrightarrow>
      \<exists>b. ofold (\<lambda>i b. do { e \<leftarrow> rd (mod_order s) i; Some (b \<or> mod_nop s \<le> ucast e) }) [0..<n] False = Some b \<and>
        (\<not> b \<longrightarrow> (\<forall>i < n. ucast (mod_order s ! i) < mod_nop s))" for n
    using assms by (induction n) (auto simp: ofold_append rd_Some less_Suc_eq not_le)
  then show ?thesis unfolding sa2_orders_bad_def by blast
qed

lemma sa2_trackord_ok:
  assumes "stream_laws io P" "mod_npats s0 = 64" "mod_nchans s0 = 9"
  shows "load_op P k m Q s0 (sa2_trackord io has)"
  unfolding sa2_trackord_def
proof (rule lo.ok_ofold)
  fix p :: "nat \<times> nat" assume "p \<in> set (List.product [0..<64] [0..<9])"
  then obtain i j where p: "p = (i, j)" "i < 64" "j < 9" by auto
  have put: "load_op P k m Q s0 (\<lambda>(f, s). Option.bind (mod_put_trackord i j v s) (\<lambda>s. Some (f, s)))"
    if "unat v \<le> 576" for v
  proof (rule load_op_state)
    fix s assume s: "mod_shape k m Q s" "mod_scalars s = mod_scalars s0"
    show "\<exists>t. mod_put_trackord i j v s = Some t \<and> mod_shape k m Q t \<and> mod_scalars t = mod_scalars s"
      by (rule mod_put_trackord_ok [OF s(1)]) (use p that assms mod_scalars_eqs(1,3) [OF s(2)] in simp_all)
  qed
  have byte: "unat (ucast v :: u16) \<le> 576" for v :: u8
    using unat_u8_bound(1) [of v] by (simp only: unat_ucast_u16)
  have pos: "unat (of_nat (i * 9 + j) :: u16) \<le> 576"
  proof -
    have "unat (of_nat (i * 9 + j) :: u16) \<le> i * 9 + j" by (simp only: unat_of_nat mod_less_eq_dividend)
    then show ?thesis using p(2,3) by linarith
  qed
  have rd: "load_op P k m Q s0 (\<lambda>(f, s). do {
      let (v, f) = read_u8 io f; s \<leftarrow> mod_put_trackord i j (ucast v) s; Some (f, s) })"
    unfolding Let_def by (rule load_op_read [OF assms(1)], rule put, rule byte)
  show "load_op P k m Q s0 ((\<lambda>(i, j) (f, s). if HAS_TRACKORDER \<in> set has then do {
       let (v, f) = read_u8 io f;
       s \<leftarrow> mod_put_trackord i j (ucast v) s;
       Some (f, s)
     } else do {
       s \<leftarrow> mod_put_trackord i j (of_nat (i * 9 + j)) s;
       Some (f, s)
     }) p)"
    unfolding p(1) prod.case by (rule load_op_if_stream, rule rd, rule put, rule pos)
qed

text \<open>The instrument column of the older formats is a whole byte, of the newer ones five bits.\<close>

definition sa2_inst_bound :: "sa2_has list \<Rightarrow> nat" where
  "sa2_inst_bound has = (if HAS_OLDPATTERNS \<in> set has then 255 else 31)"

definition sa2_insts_ok :: "'a mod_player_scheme \<Rightarrow> bool" where
  "sa2_insts_ok s \<longleftrightarrow> (\<forall>r \<in> set (mod_tracks s). \<forall>e \<in> set r. unat (ev_inst e) \<le> length (mod_inst s))"

lemma mod_shape_bound: "mod_shape k m Q s \<Longrightarrow> \<forall>r \<in> set (mod_tracks s). \<forall>e \<in> set r. unat (ev_inst e) \<le> k' \<Longrightarrow> mod_shape k' m Q s"
  by (simp add: mod_shape_def)

lemma sa2_rewind_ok:
  assumes "mod_shape k 250 (\<lambda>x. x = os) s" "mod_npats s = 64" "mod_nrows s = 64" "mod_nchans s = 9"
    "0 < mod_length s" "mod_length s \<le> length os" "mod_restartpos s < mod_length s"
    "\<forall>i < mod_length s. unat (os ! i) < 64"
  shows "\<exists>t. mod_rewind 0 s = Some t \<and> mod_inst t = mod_inst s \<and> mod_tracks t = mod_tracks s \<and>
    mod_player.more t = mod_player.more s \<and>
    (sa2_insts_ok s \<longrightarrow> mod_ok t \<and> mod_ord t = 0 \<and> mod_rw t = 0)"
proof -
  have os: "mod_order s = os" "length (mod_inst s) = 250" using assms(1) by (simp_all add: mod_shape_def)
  obtain t where t: "mod_rewind 0 s = Some t" "mod_inst t = mod_inst s" "mod_tracks t = mod_tracks s"
    "mod_player.more t = mod_player.more s"
    using mod_rewind_total [of s 0] assms(6) os(1) by auto
  have "mod_ok t \<and> mod_ord t = 0 \<and> mod_rw t = 0" if "sa2_insts_ok s"
  proof -
    have shape: "mod_shape 250 250 (\<lambda>x. x = os) s"
      by (rule mod_shape_bound [OF assms(1)]) (use that os(2) in \<open>simp add: sa2_insts_ok_def\<close>)
    have "mod_orders_ok s"
      using assms(2,5-8) os(1) by (intro mod_orders_plain) (auto simp: JUMPMARKER_def intro: less_trans)
    then have "mod_song_ok s" using mod_shape_song [OF shape] assms(3,4) by simp
    then show ?thesis using mod_rewind_ok [of s 0] t(1) by auto
  qed
  then show ?thesis using t by blast
qed

lemma sa2_load_rest_ok:
  assumes "stream_laws io P" "P f" "mod_shape (sa2_inst_bound has) 250 (\<lambda>x. x = os) s"
    "mod_npats s = 64" "mod_nrows s = 64" "mod_nchans s = 9"
    "0 < mod_length s" "mod_length s \<le> length os" "mod_restartpos s < mod_length s"
    "\<forall>i < mod_length s. unat (os ! i) < 64"
  shows "\<exists>t. sa2_load_rest io mem notedis has (f, s) = Some (True, t) \<and> sa2_version t = sa2_version s \<and>
    (HAS_OLDPATTERNS \<notin> set has \<longrightarrow> sa2_insts_ok t) \<and>
    (sa2_insts_ok t \<longrightarrow> mod_ok t \<and> mod_ord t = 0 \<and> mod_rw t = 0)"
proof -
  let ?k = "sa2_inst_bound has" and ?Q = "\<lambda>x. x = os"
  obtain bpm f1 where f1: "read_u16 io f = (bpm, f1)" by fastforce
  have P1: "P f1" by (rule read_u16_stream [OF assms(1,2) f1])
  let ?s1 = "s\<lparr>mod_bpm := (if HAS_OLDBPM \<in> set has then to_u16 (uint bpm * 125 div 50) else bpm)\<rparr>"
  obtain al f2 where al: "read_u8s io 256 f1 = (al, f2)" by fastforce
  obtain ac f3 where ac: "read_u8s io 256 f2 = (ac, f3)" by fastforce
  have P3: "P f2" "P f3" using read_u8s_stream [OF assms(1)] P1 al ac by metis+
  obtain f4 s4 where s4: "sa2_arplists io mem has (f1, ?s1) = (f4, s4)" by fastforce
  have arp: "s4 = ?s1\<lparr>mod_arplist := Some al, mod_arpcmd := Some ac\<rparr> \<and> f4 = f3 \<or> s4 = ?s1 \<and> f4 = f1"
    using s4 al ac by (auto simp: sa2_arplists_def mod_init_specialarp_def Let_def split: if_splits)
  have len: "length al = SPECIALARPLEN" "length ac = SPECIALARPLEN"
    using length_read_u8s [OF al] length_read_u8s [OF ac] by (simp_all add: SPECIALARPLEN_def)
  have pre4: "load_pre P ?k 250 ?Q s4 (f4, s4)"
    using arp len assms(3) P1 P3 by (auto simp: load_pre_def mod_shape_def)
  have eq4: "mod_npats s4 = 64" "mod_nchans s4 = 9" "mod_nrows s4 = 64" "mod_length s4 = mod_length s"
    "mod_restartpos s4 = mod_restartpos s" "mod_player.more s4 = mod_player.more s" "mod_nop s4 = mod_nop s"
    using arp assms(4-6) by auto
  obtain f5 s5 where s5: "sa2_trackord io has (f4, s4) = Some (f5, s5)" "load_pre P ?k 250 ?Q s4 (f5, s5)"
    using op_okD [OF sa2_trackord_ok [OF assms(1) eq4(1,2), where has = has] pre4] by (metis surj_pair)
  note eq5 = mod_scalars_eqs [of s5 s4]
  define x6 where "x6 = (if HAS_ACTIVECHANNELS \<in> set has
      then (let (v, f) = read_u16 io f5 in (f, s5\<lparr>mod_activechan := unat v * 2 ^ 16\<rparr>)) else (f5, s5))"
  obtain v f5' where v: "read_u16 io f5 = (v, f5')" by fastforce
  have P5: "P f5" "mod_shape ?k 250 ?Q s5" "mod_scalars s5 = mod_scalars s4" using s5(2) by (simp_all add: load_pre_def)
  have P5': "P f5'" by (rule read_u16_stream [OF assms(1) P5(1) v])
  obtain f6 s6 where s6: "x6 = (f6, s6)" by fastforce
  have six: "P f6" "s6 = s5 \<or> s6 = s5\<lparr>mod_activechan := unat v * 2 ^ 16\<rparr>"
    using s6 P5(1) P5' v by (auto simp: x6_def Let_def split: if_splits)
  have pre6: "load_pre P ?k 250 ?Q s6 (f6, s6)" using six P5(2) by (auto simp: load_pre_def mod_shape_def)
  have eq6: "mod_npats s6 = 64" "mod_nchans s6 = 9" "mod_nrows s6 = 64" "mod_length s6 = mod_length s"
    "mod_restartpos s6 = mod_restartpos s" "mod_player.more s6 = mod_player.more s" "mod_nop s6 = mod_nop s"
    using six(2) eq5(1-5,8,13) [OF P5(3)] eq4 by auto
  have bound: "if HAS_OLDPATTERNS \<in> set has then ?k = 255 else ?k = 31" by (simp add: sa2_inst_bound_def)
  obtain f7 s7 where s7: "sa2_tracks io notedis has (f6, s6) = Some (f7, s7)" "load_pre P ?k 250 ?Q s6 (f7, s7)"
    using op_okD [OF sa2_tracks_ok [OF assms(1) eq6(1-3) bound, where notedis = notedis] pre6] by (metis surj_pair)
  have sh7: "mod_shape ?k 250 ?Q s7" "mod_scalars s7 = mod_scalars s6" using s7(2) by (simp_all add: load_pre_def)
  note eq7 = mod_scalars_eqs [OF sh7(2)]
  let ?s8 = "s7\<lparr>sa2_instname := map (map (\<lambda>c. if c = 0 then 32 else c)) (sa2_instname s7)\<rparr>"
  have sh8: "mod_shape ?k 250 ?Q ?s8" using sh7(1) by (simp add: mod_shape_def)
  have "\<exists>t. mod_rewind 0 ?s8 = Some t \<and> mod_inst t = mod_inst ?s8 \<and> mod_tracks t = mod_tracks ?s8 \<and>
      mod_player.more t = mod_player.more ?s8 \<and>
      (sa2_insts_ok ?s8 \<longrightarrow> mod_ok t \<and> mod_ord t = 0 \<and> mod_rw t = 0)"
    by (rule sa2_rewind_ok [OF sh8]) (use assms(7-10) eq7(1-5) eq6(1-5) in simp_all)
  then obtain t where t: "mod_rewind 0 ?s8 = Some t" "mod_inst t = mod_inst s7" "mod_tracks t = mod_tracks s7"
    "mod_player.more t = mod_player.more ?s8"
    "sa2_insts_ok s7 \<longrightarrow> mod_ok t \<and> mod_ord t = 0 \<and> mod_rw t = 0"
    by (auto simp: sa2_insts_ok_def)
  have "sa2_load_rest io mem notedis has (f, s) = Some (True, t)"
    using f1 s4 s5(1) s6 s7(1) t(1) by (simp add: sa2_load_rest_def Let_def x6_def)
  moreover have "sa2_version t = sa2_version s"
  proof -
    have "mod_player.more t = mod_player.more ?s8" by (rule t(4))
    then have "sa2_version t = sa2_version ?s8" by (cases t, cases s7) simp
    also have "\<dots> = sa2_version s7" by simp
    also have "\<dots> = sa2_version s" using eq7(13) eq6(6) by (cases s7, cases s) simp
    finally show ?thesis .
  qed
  moreover have "sa2_insts_ok t \<longrightarrow> sa2_insts_ok s7" using t(2,3) by (simp add: sa2_insts_ok_def)
  moreover have "\<not> HAS_OLDPATTERNS \<in> set has \<longrightarrow> sa2_insts_ok t"
    using sh7(1) t(2,3) by (fastforce simp: mod_shape_def sa2_insts_ok_def sa2_inst_bound_def)
  ultimately show ?thesis using t(5) by auto
qed

lemma sa2_type_inst: "sa2_type v = Some (notedis, has) \<Longrightarrow> HAS_OLDPATTERNS \<in> set has \<Longrightarrow> v < 7"
  by (auto simp: sa2_type_def split: if_splits)

lemma sa2_read_song_ok:
  assumes "stream_laws io P" "P f" "sa2_arrays s" "mod_shape 0 250 (\<lambda>os. length os = 128) s"
    "mod_npats s = 64" "mod_nrows s = 64" "mod_nchans s = 9"
  shows "\<exists>f1 s1 f2 s2 f3 s3. sa2_instruments io has (f, s) = Some (f1, s1) \<and> sa2_names io (f1, s1) = Some (f2, s2) \<and>
    mod_read_orders io 128 (bio_ignore io 3 f2, s2) = Some (f3, s3) \<and> P f3 \<and>
    mod_shape (sa2_inst_bound has) 250 (\<lambda>os. length os = 128) s3 \<and>
    mod_npats s3 = 64 \<and> mod_nrows s3 = 64 \<and> mod_nchans s3 = 9 \<and> sa2_version s3 = sa2_version s"
proof -
  let ?k = "sa2_inst_bound has" and ?Q = "\<lambda>os :: bytes. length os = 128"
  have "mod_shape ?k 250 ?Q s" by (rule mod_shape_mono [OF assms(4)]) simp
  then have pre: "load_pre P ?k 250 ?Q s (f, s)" using assms(2) by (simp add: load_pre_def)
  have ins: "load_op P ?k 250 ?Q s (sa2_instruments io has)" by (rule sa2_instruments_ok [OF assms(1)]) simp
  then obtain f1 s1 where s1: "sa2_instruments io has (f, s) = Some (f1, s1)" "P f1" "mod_shape ?k 250 ?Q s1"
    "mod_scalars s1 = mod_scalars s"
    using op_okD [OF ins pre] by (auto simp: load_pre_def)
  note eq1 = mod_scalars_eqs [OF s1(4)]
  have ext1: "sa2_version s1 = sa2_version s" "sa2_sadt s1 = sa2_sadt s" "sa2_instname s1 = sa2_instname s"
    using eq1(13) by (cases s1, cases s, simp)+
  have "sa2_arrays s1" using assms(3) ext1 by (simp add: sa2_arrays_def)
  then obtain f2 nm where s2: "sa2_names io (f1, s1) = Some (f2, s1\<lparr>sa2_instname := nm\<rparr>)" "P f2"
    using sa2_names_ok [OF assms(1) s1(2)] by blast
  let ?s2 = "s1\<lparr>sa2_instname := nm\<rparr>"
  have "P (bio_ignore io 3 f2)" by (rule stream_lawsD(9) [OF assms(1) s2(2)])
  then have pre2: "load_pre P ?k 250 ?Q ?s2 (bio_ignore io 3 f2, ?s2)"
    using s1(3) by (simp add: load_pre_def mod_shape_def)
  have ords: "load_op P ?k 250 ?Q ?s2 (mod_read_orders io 128)" by (rule mod_read_orders_ok [OF assms(1)]) simp
  then obtain f3 s3 where s3: "mod_read_orders io 128 (bio_ignore io 3 f2, ?s2) = Some (f3, s3)" "P f3"
    "mod_shape ?k 250 ?Q s3" "mod_scalars s3 = mod_scalars ?s2"
    using op_okD [OF ords pre2] by (auto simp: load_pre_def)
  note eq3 = mod_scalars_eqs [OF s3(4)]
  have "sa2_version s3 = sa2_version s" using eq3(13) ext1(1) by (cases s3, cases s1) simp
  then show ?thesis using s1(1) s2(1) s3(1-3) eq3(1-3) eq1(1-3) assms(5-7) by auto
qed

text \<open>C35: \<open>Csa2Loader::load\<close> returns for every file, whatever its version. A module it accepts is
well formed and at its start, so that it plays safely to its end; in the versions before 7, which store
the instrument in a whole byte, this needs that no event names an instrument beyond the 250 there are.\<close>

theorem sa2_load_playable:
  assumes "stream_laws io P" "\<And>f. opn filename = Some f \<Longrightarrow> P f" "mod_construct mem0 cmem0 chip s0 = Some s"
    "sa2_arrays s"
  shows "\<exists>b t. sa2_load io opn mem filename s = Some (b, t) \<and>
    (b \<longrightarrow> 1 \<le> sa2_version t \<and> sa2_version t \<le> 9 \<and>
      (7 \<le> sa2_version t \<or> sa2_insts_ok t \<longrightarrow> mod_ok t \<and> mod_ord t = 0 \<and> mod_rw t = 0 \<and>
        (\<exists>n s1 s2. play mod_update n t = Some s1 \<and> mod_update s1 = Some (False, s2))))"
proof (cases "opn filename")
  case None
  then show ?thesis by (auto simp: sa2_load_def)
next
  case (Some f)
  obtain k sadt f1 where f1: "bio_readString io 4 (sa2_sadt s) f = (k, sadt, f1)" by (metis surj_pair)
  have h1: "P f1" "length sadt = 4"
    using stream_lawsD(3) [OF assms(1) assms(2) [OF Some] f1] assms(4) by (simp_all add: sa2_arrays_def)
  obtain version f2 where f2: "read_u8 io f1 = (version, f2)" by fastforce
  have P2: "P f2" by (rule read_u8_stream [OF assms(1) h1(1) f2])
  let ?s = "s\<lparr>sa2_sadt := sadt, sa2_version := version\<rparr>"
  show ?thesis
  proof (cases "sadt = bytes_of ''SAdT'' \<and> sa2_type version \<noteq> None")
    case False
    then have "sadt \<noteq> bytes_of ''SAdT'' \<or> sa2_type version = None" by blast
    then show ?thesis using Some f1 f2 by (auto simp: sa2_load_def Let_def)
  next
    case True
    then obtain notedis has where ty: "sa2_type version = Some (notedis, has)" by auto
    note new = mod_construct_ok [OF assms(3)]
    have arr: "sa2_arrays ?s" using assms(4) h1(2) by (simp add: sa2_arrays_def)
    have sh: "mod_shape 0 250 (\<lambda>os. length os = 128) ?s" using new(1) by (simp add: mod_shape_def)
    obtain f3 s3 f4 s4 f5 s5 where r: "sa2_instruments io has (f2, ?s) = Some (f3, s3)"
      "sa2_names io (f3, s3) = Some (f4, s4)" "mod_read_orders io 128 (bio_ignore io 3 f4, s4) = Some (f5, s5)" "P f5"
      "mod_shape (sa2_inst_bound has) 250 (\<lambda>os. length os = 128) s5"
      "mod_npats s5 = 64" "mod_nrows s5 = 64" "mod_nchans s5 = 9" "sa2_version s5 = version"
      using sa2_read_song_ok [OF assms(1) P2 arr sh, of has] new(2-4) by auto
    define f6 where "f6 = (if HAS_UNKNOWN127 \<in> set has then bio_ignore io 127 f5 else f5)"
    have P6: "P f6" using r(4) stream_lawsD(9) [OF assms(1) r(4)] by (simp add: f6_def)
    obtain nop f7 where f7: "read_u16 io f6 = (nop, f7)" by fastforce
    obtain len f8 where f8: "read_u8 io f7 = (len, f8)" by fastforce
    obtain restart f9 where f9: "read_u8 io f8 = (restart, f9)" by fastforce
    have P9: "P f9"
      using read_u8_stream [OF assms(1) read_u8_stream [OF assms(1) read_u16_stream [OF assms(1) P6 f7] f8] f9] .
    let ?s6 = "s5\<lparr>mod_nop := nop, mod_length := unat len, mod_restartpos := unat restart\<rparr>"
    have step: "sa2_load io opn mem filename s = (if sa2_song_bad ?s6 then Some (False, ?s6)
        else do { bad \<leftarrow> sa2_orders_bad ?s6;
          if bad then Some (False, ?s6) else sa2_load_rest io mem notedis has (f9, ?s6) })"
      using Some f1 f2 True ty r(1-3) f7 f8 f9 by (simp add: sa2_load_def f6_def Let_def)
    show ?thesis
    proof (cases "sa2_song_bad ?s6")
      case True
      then show ?thesis unfolding step by auto
    next
      case ok: False
      then have song: "nop \<le> 64" "0 < unat len" "unat len \<le> 128" "unat restart < unat len"
        by (auto simp: sa2_song_bad_def not_less not_le)
      have order: "length (mod_order s5) = 128" using r(5) by (simp add: mod_shape_def)
      obtain bad where bad: "sa2_orders_bad ?s6 = Some bad"
        "\<not> bad \<longrightarrow> (\<forall>i < unat len. ucast (mod_order s5 ! i) < nop)"
        using sa2_orders_bad_ok [of ?s6] song(3) order by auto
      show ?thesis
      proof (cases bad)
        case True
        then show ?thesis unfolding step using ok bad(1) by auto
      next
        case False
        have entries: "\<forall>i < unat len. unat (mod_order s5 ! i) < 64"
        proof (intro allI impI)
          fix i assume "i < unat len"
          then have "(ucast (mod_order s5 ! i) :: u16) < 64"
            using bad(2) False song(1) by (meson less_le_trans)
          then show "unat (mod_order s5 ! i) < 64" by (simp add: word_less_nat_alt unat_ucast_u16)
        qed
        have sh6: "mod_shape (sa2_inst_bound has) 250 (\<lambda>x. x = mod_order s5) ?s6"
          using r(5) by (simp add: mod_shape_def)
        have "\<exists>t. sa2_load_rest io mem notedis has (f9, ?s6) = Some (True, t) \<and> sa2_version t = sa2_version ?s6 \<and>
            (HAS_OLDPATTERNS \<notin> set has \<longrightarrow> sa2_insts_ok t) \<and>
            (sa2_insts_ok t \<longrightarrow> mod_ok t \<and> mod_ord t = 0 \<and> mod_rw t = 0)"
          by (rule sa2_load_rest_ok [OF assms(1) P9 sh6]) (use r(6-8) song order entries in simp_all)
        then obtain t where t: "sa2_load_rest io mem notedis has (f9, ?s6) = Some (True, t)" "sa2_version t = version"
          "HAS_OLDPATTERNS \<notin> set has \<longrightarrow> sa2_insts_ok t"
          "sa2_insts_ok t \<longrightarrow> mod_ok t \<and> mod_ord t = 0 \<and> mod_rw t = 0" using r(9) by auto
        have "1 \<le> version \<and> version \<le> 9" using ty by (auto simp: sa2_type_def split: if_splits)
        moreover have "7 \<le> version \<longrightarrow> sa2_insts_ok t"
          using t(3) sa2_type_inst [OF ty] by auto
        moreover have "mod_ok t \<Longrightarrow> \<exists>n s1 s2. play mod_update n t = Some s1 \<and> mod_update s1 = Some (False, s2)"
          by (rule mod_contract.reaches_end)
        ultimately show ?thesis using ok bad(1) False t
          by (intro exI [of _ True] exI [of _ t]) (auto simp: step)
      qed
    qed
  qed
qed

text \<open>A constructed player, and a file that stops after its version byte.\<close>

definition sa2_raw :: sa2_player where
  "sa2_raw = mod_player.extend mod_raw \<lparr>sa2_sadt = replicate 4 0, sa2_version = 0,
     sa2_instname = replicate 29 (replicate 17 0)\<rparr>"

lemma sa2_load_playable_witness:
  "\<exists>s. mod_construct (\<lambda>_. 0) (\<lambda>_. zero_chan) 0 sa2_raw = Some s \<and>
    (\<exists>b t. sa2_load memio (\<lambda>_. Some (mem_file (bytes_of ''SAdT'' @ [9]))) (\<lambda>_. 0) ''a.sa2'' s = Some (b, t) \<and>
       (b \<longrightarrow> 1 \<le> sa2_version t \<and> sa2_version t \<le> 9))"
proof -
  obtain s where s: "mod_construct (\<lambda>_. 0) (\<lambda>_. zero_chan) 0 sa2_raw = Some s"
    by (simp add: mod_construct_def mod_init_notetable_def sa2_notetable_def)
  then have "sa2_arrays s"
    by (auto simp: mod_construct_def mod_init_notetable_def sa2_notetable_def mod_realloc_instruments_def
        mod_realloc_patterns_def mod_realloc_order_def sa2_raw_def mod_raw_def mod_player.defs sa2_arrays_def matrix_def)
  moreover have "length (bytes_of ''SAdT'' @ [9]) < 2 ^ 63" by (simp add: bytes_of_def)
  ultimately show ?thesis
    using sa2_load_playable [OF mem_stream_laws [of "bytes_of ''SAdT'' @ [9]"] _ s,
        of "\<lambda>_. Some (mem_file (bytes_of ''SAdT'' @ [9]))" "''a.sa2''" "\<lambda>_. 0"] s
    by auto
qed

end
