(* ===== verification/Amd.thy ===== *)
theory Amd
  imports Modload Adtrack
begin

text \<open>
  \<open>src/amd.cpp\<close>: the loader for AMUSIC modules, unpacked or with runs of empty rows packed into
  one byte.
\<close>

section \<open>Loading\<close>

record amd_player = mod_player +
  amd_songname :: bytes
  amd_author :: bytes
  amd_instname :: "bytes list"

definition amd_valid_id :: "bytes \<Rightarrow> bool" where
  "amd_valid_id ident \<longleftrightarrow>
     ident = [0x3c, 0x6f, 0xef, 0x51, 0x55, 0xee, 0x52, 0x6f, 0x52] \<or> ident = bytes_of ''MaDoKaN96''"

definition amd_instruments ::
  "('f, 'fl) binio \<Rightarrow> 'f \<times> amd_player \<Rightarrow> ('f \<times> amd_player) option"
where
  "amd_instruments io = ofold (\<lambda>i (f, s). do {
     nm \<leftarrow> rd (amd_instname s) i;
     let (_, nm, f) = bio_readString io 23 nm f;
     mod_read_data io i [1, 9, 3, 5, 7, 2, 10, 4, 6, 8, 0]
       (f, s\<lparr>amd_instname := (amd_instname s)[i := map (\<lambda>c. if c = 0xff then 0x20 else c) nm]\<rparr>)
   }) [0..<26]"

text \<open>The three bytes of an event.\<close>

definition amd_event :: "u8 \<Rightarrow> u8 \<Rightarrow> u8 \<Rightarrow> mod_event" where
  "amd_event b0 b1 b2 =
     \<lparr>ev_note = (if drop_bit 4 b2 \<noteq> 0 then drop_bit 1 (b2 AND 0x0e) * 12 + drop_bit 4 b2 else 0),
      ev_command = b1 AND 0x0f, ev_inst = push_bit 4 (b2 AND 1) + drop_bit 4 b1,
      ev_param2 = b0 mod 10, ev_param1 = b0 div 10\<rparr>"

definition amd_read_event ::
  "('f, 'fl) binio \<Rightarrow> nat \<Rightarrow> nat \<Rightarrow> u8 \<Rightarrow> 'f \<times> 'a mod_player_scheme \<Rightarrow> ('f \<times> 'a mod_player_scheme) option"
where
  "amd_read_event io t j b0 = (\<lambda>(f, s). do {
     let (b1, f) = read_u8 io f;
     let (b2, f) = read_u8 io f;
     s \<leftarrow> mod_put_event t j (\<lambda>_. amd_event b0 b1 b2) s;
     Some (f, s)
   })"

text \<open>An unpacked module: pattern by pattern, while the file lasts.\<close>

definition amd_unpacked ::
  "('f, 'fl) binio \<Rightarrow> nat \<Rightarrow> 'f \<times> 'a mod_player_scheme \<Rightarrow> ('f \<times> 'a mod_player_scheme) option"
where
  "amd_unpacked io nop = ofold (\<lambda>p (f, s). if bio_ateof io f then Some (f, s)
     else ofold (\<lambda>(j, c) (f, s). do {
       let (b0, f) = read_u8 io f;
       amd_read_event io (p * 9 + c) j (b0 AND 0x7f) (f, s)
     }) (List.product [0..<64] [0..<9]) (f, s)) [0..<nop]"

text \<open>A packed one: the track order, then tracks of any number; a byte with its top bit set stands
for up to 127 empty rows, and for none at all when it is 0x80.\<close>

definition amd_trackord ::
  "('f, 'fl) binio \<Rightarrow> nat \<Rightarrow> 'f \<times> 'a mod_player_scheme \<Rightarrow> ('f \<times> 'a mod_player_scheme) option"
where
  "amd_trackord io nop = ofold (\<lambda>(i, j) (f, s). do {
     let (w, f) = read_u16 io f;
     s \<leftarrow> mod_put_trackord i j (if w + 1 > 64 * 9 then 0 else w + 1) s;
     Some (f, s)
   }) (List.product [0..<nop] [0..<9])"

partial_function (option) amd_rows ::
  "('f, 'fl) binio \<Rightarrow> nat \<Rightarrow> nat \<Rightarrow> 'f \<Rightarrow> 'a mod_player_scheme \<Rightarrow> ('f \<times> 'a mod_player_scheme) option"
where
  "amd_rows io i j f s =
     (if j \<ge> 64 then Some (f, s)
      else do {
        let (b0, f) = read_u8 io f;
        if b0 AND 0x80 \<noteq> 0 then do {
          let len = min (unat (b0 AND 0x7f)) (64 - j);
          s \<leftarrow> ofold (\<lambda>r. mod_put_event i r (\<lambda>_. zero_event)) [j..<j + len] s;
          amd_rows io i (j + len) f s
        }
        else do {
          (f, s) \<leftarrow> amd_read_event io i j b0 (f, s);
          amd_rows io i (j + 1) f s
        }
      })"

definition amd_packed ::
  "('f, 'fl) binio \<Rightarrow> nat \<Rightarrow> 'f \<times> 'a mod_player_scheme \<Rightarrow> (nat \<times> 'f \<times> 'a mod_player_scheme) option"
where
  "amd_packed io numtrax = (\<lambda>(f, s). ofold (\<lambda>_ (maxi, f, s). do {
     let (w, f) = read_u16 io f;
     let i = min (unat w) (64 * 9 - 1);
     (f, s) \<leftarrow> amd_rows io i 0 f s;
     Some (max (i + 1) maxi, f, s)
   }) [0..<numtrax] (0, f, s))"

text \<open>Conversion of the commands to the engine's.\<close>

definition amd_convfx :: "u8 list" where
  "amd_convfx = [0, 1, 2, 9, 17, 11, 13, 18, 3, 14]"

definition amd_convvol :: "u8 list" where
  "amd_convvol =
     [0x00, 0x00, 0x00, 0x01, 0x01, 0x02, 0x02, 0x03, 0x03, 0x04, 0x04, 0x05, 0x05, 0x06, 0x06, 0x07,
      0x07, 0x08, 0x09, 0x09, 0x0a, 0x0a, 0x0b, 0x0c, 0x0c, 0x0d, 0x0e, 0x0e, 0x0f, 0x10, 0x10, 0x11,
      0x12, 0x13, 0x14, 0x14, 0x15, 0x16, 0x17, 0x18, 0x19, 0x1a, 0x1b, 0x1c, 0x1d, 0x1e, 0x1f, 0x21,
      0x22, 0x23, 0x25, 0x26, 0x28, 0x29, 0x2b, 0x2d, 0x2e, 0x30, 0x32, 0x35, 0x37, 0x3a, 0x3c, 0x3f]"

definition amd_convert_event :: "mod_event \<Rightarrow> mod_event" where
  "amd_convert_event e =
     (let e = e\<lparr>ev_command := (if unat (ev_command e) < length amd_convfx
                               then amd_convfx ! unat (ev_command e) else 0)\<rparr>;
          e = (if ev_command e = 14 then
                 (let e = (if ev_param1 e = 2
                           then e\<lparr>ev_command := 10, ev_param1 := ev_param2 e, ev_param2 := 0\<rparr> else e)
                  in if ev_param1 e = 3 then e\<lparr>ev_command := 10, ev_param1 := 0\<rparr> else e)
               else e)
      in if ev_command e = 17 then
           (let vol = unat (ev_param1 e) * 10 + unat (ev_param2 e);
                vol = (if vol < length amd_convvol then unat (amd_convvol ! vol) else 63)
            in e\<lparr>ev_param1 := of_nat (vol div 10), ev_param2 := of_nat (vol mod 10)\<rparr>)
         else e)"

definition amd_convert :: "nat \<Rightarrow> 'a mod_player_scheme \<Rightarrow> 'a mod_player_scheme option" where
  "amd_convert maxi =
     ofold (\<lambda>(i, j). mod_put_event i j amd_convert_event) (List.product [0..<maxi] [0..<64])"

text \<open>The check of the order list; jumps (0x80 and above) are not told from patterns.\<close>

definition amd_orders_bad :: "bytes \<Rightarrow> nat \<Rightarrow> bool option" where
  "amd_orders_bad os len =
     ofold (\<lambda>i b. do { e \<leftarrow> rd os i; Some (b \<or> e AND 0x7f \<ge> 64) }) [0..<len] False"

definition amd_tracks ::
  "('f, 'fl) binio \<Rightarrow> u8 \<Rightarrow> 'f \<times> amd_player \<Rightarrow> (nat \<times> 'f \<times> amd_player) option"
where
  "amd_tracks io version = (\<lambda>(f, s).
     (let nop = unat (mod_nop s)
      in if version = 0x10 then do {
           s \<leftarrow> mod_init_trackord s;
           (f, s) \<leftarrow> amd_unpacked io nop (f, s);
           Some (nop * 9, f, s)
         }
         else do {
           (f, s) \<leftarrow> amd_trackord io nop (f, s);
           let (numtrax, f) = read_u16 io f;
           amd_packed io (unat numtrax) (f, s)
         }))"

definition amd_load_song ::
  "('f, 'fl) binio \<Rightarrow> u8 \<Rightarrow> 'f \<times> amd_player \<Rightarrow> (bool \<times> amd_player) option"
where
  "amd_load_song io version = (\<lambda>(f, s). do {
     let (len, f) = read_u8 io f;
     let (n, f) = read_u8 io f;
     let s = s\<lparr>mod_length := unat len, mod_nop := ucast n + 1\<rparr>;
     if mod_length s = 0 \<or> mod_length s > 128 \<or> mod_nop s > 64 then Some (False, s)
     else do {
       let (_, os, f) = bio_readString io 128 (mod_order s) f;
       let s = s\<lparr>mod_order := os\<rparr>;
       bad \<leftarrow> amd_orders_bad os (mod_length s);
       if bad then Some (False, s)
       else do {
         (maxi, f, s) \<leftarrow> amd_tracks io version (bio_ignore io 10 f, s);
         s \<leftarrow> amd_convert maxi (s\<lparr>mod_bpm := 50, mod_restartpos := 0, mod_flags := mod_flag_bit Decimal\<rparr>);
         s \<leftarrow> mod_rewind 0 s;
         Some (True, s)
       }
     }
   })"

definition amd_load ::
  "('f, 'fl) binio \<Rightarrow> 'f opener \<Rightarrow> (nat \<Rightarrow> u8) \<Rightarrow> string \<Rightarrow> amd_player \<Rightarrow> (bool \<times> amd_player) option"
where
  "amd_load io opn mem filename s =
     (case opn filename of None \<Rightarrow> Some (False, s) | Some f \<Rightarrow> do {
        let (size, f) = fp_filesize io f;
        if size < 1062 + 10 then Some (False, s)
        else do {
          let (_, ident, f) = bio_readString io 9 (fresh mem 9) (bio_seekSet io 1062 f);
          if \<not> amd_valid_id ident then Some (False, s)
          else do {
            let (version, f) = read_u8 io f;
            let (_, nm, f) = bio_readString io 24 (amd_songname s) (bio_seekSet io 0 f);
            let (_, au, f) = bio_readString io 24 (amd_author s) f;
            (f, s) \<leftarrow> amd_instruments io (f, s\<lparr>amd_songname := nm, amd_author := au\<rparr>);
            amd_load_song io version (f, s)
          }
        }
      })"

section \<open>The loader stays in its arrays\<close>

text \<open>
  A byte 0x80 is a run of no rows: the loop over the rows gets past it because a file holds finitely
  many of them, which the measure \<open>left\<close> states.
\<close>

definition amd_finite :: "('f, 'fl) binio \<Rightarrow> ('f \<Rightarrow> bool) \<Rightarrow> ('f \<Rightarrow> nat) \<Rightarrow> bool" where
  "amd_finite io P left \<longleftrightarrow> (\<forall>f f'. P f \<longrightarrow> read_u8 io f = (0x80, f') \<longrightarrow> left f' < left f)"

lemma top_bit_only:
  assumes "(b :: u8) AND 0x7f = 0" "b AND 0x80 \<noteq> 0"
  shows "b = 0x80"
proof -
  have top: "(0x80 :: u8) = 2 ^ 7" by simp
  then have "bit b 7" using assms(2) and_exp_eq_0_iff_not_bit [of b 7] by simp
  then have "b AND 0x80 = 0x80" unfolding top by - (rule bit_word_eqI, auto simp only: bit_and_iff bit_exp_iff)
  moreover have "(0x80 OR 0x7F :: u8) = -1" by simp
  then have "b AND (0x80 OR 0x7F) = b" by (simp only: and.right_neutral)
  then have "b = b AND 0x80" using assms(1) by (simp only: word_ao_dist2 or.right_neutral)
  ultimately show ?thesis by simp
qed

lemma below_marker_mask: "unat (b :: u8) < JUMPMARKER \<Longrightarrow> b AND 0x7f = b"
proof -
  assume "unat b < JUMPMARKER"
  then have "int (unat b) < int 128" by (simp only: JUMPMARKER_def of_nat_less_iff)
  then have "uint b < 2 ^ 7" by simp
  then have "b AND mask 7 = b" by (simp only: mask_eq_iff)
  then show ?thesis by (simp add: mask_eq_exp_minus_1)
qed

lemma amd_event_inst: "unat (ev_inst (amd_event b0 b1 b2)) \<le> 31"
  by (simp only: amd_event_def mod_event.select_convs five_bit_inst)

lemma amd_put_ok:
  assumes "i < mod_npats s0 * mod_nchans s0" "j < mod_nrows s0"
    "\<And>e. unat (ev_inst e) \<le> 31 \<Longrightarrow> unat (ev_inst (g e)) \<le> 31"
    "mod_shape 31 m Q s" "mod_scalars s = mod_scalars s0"
  shows "\<exists>u. mod_put_event i j g s = Some u \<and> mod_shape 31 m Q u \<and> mod_scalars u = mod_scalars s"
  by (rule mod_put_event_ok [OF assms(4) _ _ assms(3)]) (use assms mod_scalars_eqs(1-3) [OF assms(5)] in simp_all)

lemma amd_read_event_ok:
  assumes "stream_laws io P" "i < mod_npats s0 * mod_nchans s0" "j < mod_nrows s0"
  shows "load_op P 31 m Q s0 (amd_read_event io i j b0)"
  unfolding amd_read_event_def Let_def
  by (intro load_op_read [OF assms(1)] load_op_state amd_put_ok [OF assms(2,3)]) (simp_all add: amd_event_inst)

lemma amd_unpacked_ok:
  assumes "stream_laws io P" "n \<le> mod_npats s0" "mod_nchans s0 = 9" "mod_nrows s0 = 64"
  shows "load_op P 31 m Q s0 (amd_unpacked io n)"
  unfolding amd_unpacked_def
proof (rule lo.ok_ofold)
  fix p assume p: "p \<in> set [0..<n]"
  have "load_op P 31 m Q s0 (ofold (\<lambda>(j, c) (f, s). do {
       let (b0, f) = read_u8 io f;
       amd_read_event io (p * 9 + c) j (b0 AND 0x7f) (f, s)
     }) (List.product [0..<64] [0..<9]))"
  proof (rule lo.ok_ofold)
    fix q assume "q \<in> set (List.product [0..<64] [0..<9])"
    then obtain j c where q: "q = (j, c)" "j < 64" "c < 9" by auto
    have "(p + 1) * 9 \<le> mod_npats s0 * 9" by (rule mult_le_mono1) (use p assms(2) in simp)
    then have i: "p * 9 + c < mod_npats s0 * mod_nchans s0" using q(3) assms(3) by simp
    have "load_op P 31 m Q s0 (\<lambda>(f, s). amd_read_event io (p * 9 + c) j (b0 AND 0x7f) (f, s))" for b0
      using amd_read_event_ok [OF assms(1) i, of j] q(2) assms(4) by simp
    then show "load_op P 31 m Q s0 ((\<lambda>(j, c) (f, s). do {
       let (b0, f) = read_u8 io f;
       amd_read_event io (p * 9 + c) j (b0 AND 0x7f) (f, s) }) q)"
      unfolding q(1) prod.case Let_def by (rule load_op_read [OF assms(1)])
  qed
  then show "load_op P 31 m Q s0 (\<lambda>(f, s). if bio_ateof io f then Some (f, s)
     else ofold (\<lambda>(j, c) (f, s). do {
       let (b0, f) = read_u8 io f;
       amd_read_event io (p * 9 + c) j (b0 AND 0x7f) (f, s)
     }) (List.product [0..<64] [0..<9]) (f, s))"
    by (intro load_op_if_stream load_op_skip) simp
qed

lemma amd_trackord_ok:
  assumes "stream_laws io P" "n \<le> mod_npats s0" "mod_npats s0 = 64" "mod_nchans s0 = 9"
  shows "load_op P k m Q s0 (amd_trackord io n)"
  unfolding amd_trackord_def
proof (rule lo.ok_ofold)
  fix p assume "p \<in> set (List.product [0..<n] [0..<9])"
  then obtain i j where p: "p = (i, j)" "i < n" "j < 9" by auto
  have v: "unat (if w + 1 > 64 * 9 then 0 else w + 1) \<le> 576" for w :: u16
    by (simp add: not_less word_le_nat_alt)
  have "load_op P k m Q s0 (\<lambda>(f, s). Option.bind
      (mod_put_trackord i j (if w + 1 > 64 * 9 then 0 else w + 1) s) (\<lambda>s. Some (f, s)))" for w
  proof (rule load_op_state)
    fix s assume s: "mod_shape k m Q s" "mod_scalars s = mod_scalars s0"
    show "\<exists>u. mod_put_trackord i j (if w + 1 > 64 * 9 then 0 else w + 1) s = Some u \<and> mod_shape k m Q u \<and>
        mod_scalars u = mod_scalars s"
      by (rule mod_put_trackord_ok [OF s(1)]) (use p assms mod_scalars_eqs(1,3) [OF s(2)] v [of w] in simp_all)
  qed
  then show "load_op P k m Q s0 ((\<lambda>(i, j) (f, s). do {
      let (w, f) = read_u16 io f;
      s \<leftarrow> mod_put_trackord i j (if w + 1 > 64 * 9 then 0 else w + 1) s;
      Some (f, s) }) p)"
    unfolding p(1) prod.case Let_def by (rule load_op_read16 [OF assms(1)])
qed

lemma amd_rows_ok:
  assumes "stream_laws io P" "amd_finite io P left" "i < mod_npats s0 * mod_nchans s0" "mod_nrows s0 = 64"
  shows "load_pre P 31 m Q s0 (f, s) \<Longrightarrow>
    \<exists>f' t. amd_rows io i j f s = Some (f', t) \<and> load_pre P 31 m Q s0 (f', t)"
proof (induction "(64 - j, left f)" arbitrary: j f s rule: wf_induct_rule [OF wf_lex_prod [OF wf_less_than wf_less_than]])
  case (1 j f s)
  have pre: "P f" "mod_shape 31 m Q s" "mod_scalars s = mod_scalars s0" using "1.prems" by (simp_all add: load_pre_def)
  obtain b0 f1 where f1: "read_u8 io f = (b0, f1)" by fastforce
  have pre1: "load_pre P 31 m Q s0 (f1, s)"
    using "1.prems" read_u8_stream [OF assms(1) _ f1] by (simp add: load_pre_def)
  show ?case
  proof (cases "j \<ge> 64")
    case True
    then show ?thesis using "1.prems" by (subst amd_rows.simps) simp
  next
    case j: False
    show ?thesis
    proof (cases "b0 AND 0x80 \<noteq> 0")
      case True
      let ?len = "min (unat (b0 AND 0x7f)) (64 - j)"
      have "\<exists>t. ofold (\<lambda>r. mod_put_event i r (\<lambda>_. zero_event)) [j..<j + ?len] s = Some t \<and>
          (mod_shape 31 m Q t \<and> mod_scalars t = mod_scalars s0)"
      proof (rule ofold_invariant)
        show "mod_shape 31 m Q s \<and> mod_scalars s = mod_scalars s0" using pre by simp
        fix r t assume r: "r \<in> set [j..<j + ?len]" and t: "mod_shape 31 m Q t \<and> mod_scalars t = mod_scalars s0"
        have "r < mod_nrows s0" using r j assms(4) by auto
        then show "\<exists>u. mod_put_event i r (\<lambda>_. zero_event) t = Some u \<and> mod_shape 31 m Q u \<and> mod_scalars u = mod_scalars s0"
          using amd_put_ok [OF assms(3), of r "\<lambda>_. zero_event" m Q t] t by (simp add: zero_event_def)
      qed
      then obtain t where t: "ofold (\<lambda>r. mod_put_event i r (\<lambda>_. zero_event)) [j..<j + ?len] s = Some t"
        "mod_shape 31 m Q t" "mod_scalars t = mod_scalars s0" by blast
      have pret: "load_pre P 31 m Q s0 (f1, t)" using pre1 t(2,3) by (simp add: load_pre_def)
      have "((64 - (j + ?len), left f1), (64 - j, left f)) \<in> less_than <*lex*> less_than"
      proof (cases "?len = 0")
        case zero: True
        then have "b0 AND 0x7f = 0" using j by (simp add: min_def unat_eq_0 split: if_splits)
        then have "b0 = 0x80" using top_bit_only True by blast
        then show ?thesis using assms(2) pre(1) f1 zero by (simp add: amd_finite_def)
      next
        case False
        then show ?thesis using j by auto
      qed
      then obtain f' u where "amd_rows io i (j + ?len) f1 t = Some (f', u)" "load_pre P 31 m Q s0 (f', u)"
        using "1.hyps" pret by blast
      then show ?thesis using f1 True j t(1) by (subst amd_rows.simps) (simp add: Let_def del: upt.simps)
    next
      case False
      have "j < mod_nrows s0" using j assms(4) by simp
      from op_okD [OF amd_read_event_ok [OF assms(1,3) this, of m Q b0] pre1]
      obtain f2 t where t: "amd_read_event io i j b0 (f1, s) = Some (f2, t)" "load_pre P 31 m Q s0 (f2, t)"
        by (metis surj_pair)
      have "((64 - (j + 1), left f2), (64 - j, left f)) \<in> less_than <*lex*> less_than" using j by auto
      then obtain f' u where "amd_rows io i (j + 1) f2 t = Some (f', u)" "load_pre P 31 m Q s0 (f', u)"
        using "1.hyps" t(2) by blast
      then show ?thesis using f1 False j t(1) by (subst amd_rows.simps) simp
    qed
  qed
qed

lemma amd_packed_ok:
  assumes "stream_laws io P" "amd_finite io P left" "mod_npats s0 * mod_nchans s0 = 576" "mod_nrows s0 = 64"
    "load_pre P 31 m Q s0 (f, s)"
  shows "\<exists>maxi f' t. amd_packed io n (f, s) = Some (maxi, f', t) \<and> maxi \<le> 576 \<and> load_pre P 31 m Q s0 (f', t)"
proof -
  let ?I = "\<lambda>(maxi :: nat, f, s). maxi \<le> 576 \<and> load_pre P 31 m Q s0 (f, s)"
  have "\<exists>x. ofold (\<lambda>_ (maxi, f, s). do {
      let (w, f) = read_u16 io f;
      let i = min (unat w) (64 * 9 - 1);
      (f, s) \<leftarrow> amd_rows io i 0 f s;
      Some (max (i + 1) maxi, f, s) }) [0..<n] (0, f, s) = Some x \<and> ?I x"
  proof (rule ofold_invariant)
    show "?I (0, f, s)" using assms(5) by simp
    fix j x assume I: "?I x"
    obtain maxi f s where x: "x = (maxi, f, s)" by (metis surj_pair)
    obtain w f1 where w: "read_u16 io f = (w, f1)" by fastforce
    let ?i = "min (unat w) (64 * 9 - 1)"
    have pre1: "load_pre P 31 m Q s0 (f1, s)"
      using I x read_u16_stream [OF assms(1) _ w] by (simp add: load_pre_def)
    have i: "?i < mod_npats s0 * mod_nchans s0" using assms(3) by simp
    obtain f2 t where t: "amd_rows io ?i 0 f1 s = Some (f2, t)" "load_pre P 31 m Q s0 (f2, t)"
      using amd_rows_ok [OF assms(1,2) i assms(4) pre1] by blast
    have "?I (max (?i + 1) maxi, f2, t)" using I x t(2) by simp
    then show "\<exists>y. (\<lambda>(maxi, f, s). do {
      let (w, f) = read_u16 io f;
      let i = min (unat w) (64 * 9 - 1);
      (f, s) \<leftarrow> amd_rows io i 0 f s;
      Some (max (i + 1) maxi, f, s) }) x = Some y \<and> ?I y"
      using w t(1) by (auto simp: x Let_def)
  qed
  then show ?thesis by (fastforce simp: amd_packed_def)
qed

lemma amd_tracks_ok:
  assumes "stream_laws io P" "amd_finite io P left" "mod_npats s = 64" "mod_nchans s = 9" "mod_nrows s = 64"
    "load_pre P 31 m Q s (f, s)" "mod_nop s \<le> 64"
  shows "\<exists>maxi f' t. amd_tracks io version (f, s) = Some (maxi, f', t) \<and> maxi \<le> 576 \<and> load_pre P 31 m Q s (f', t)"
proof -
  have nop: "unat (mod_nop s) \<le> mod_npats s" using assms(3,7) by (simp add: word_le_nat_alt)
  have dims: "mod_npats s * mod_nchans s = 576" using assms(3,4) by simp
  show ?thesis
  proof (cases "version = 0x10")
    case True
    obtain s1 where s1: "mod_init_trackord s = Some s1" "load_pre P 31 m Q s (f, s1)"
      using mod_init_trackord_ok [of 31 m Q s] assms(6) by (auto simp: load_pre_def)
    obtain f2 s2 where "amd_unpacked io (unat (mod_nop s)) (f, s1) = Some (f2, s2)" "load_pre P 31 m Q s (f2, s2)"
      using op_okD [OF amd_unpacked_ok [OF assms(1) nop assms(4,5)] s1(2)] by (metis surj_pair)
    then show ?thesis using True s1(1) nop assms(3) by (simp add: amd_tracks_def Let_def)
  next
    case False
    obtain f1 s1 where s1: "amd_trackord io (unat (mod_nop s)) (f, s) = Some (f1, s1)" "load_pre P 31 m Q s (f1, s1)"
      using op_okD [OF amd_trackord_ok [OF assms(1) nop assms(3,4)] assms(6)] by (metis surj_pair)
    obtain n f2 where n: "read_u16 io f1 = (n, f2)" by fastforce
    have "load_pre P 31 m Q s (f2, s1)" using s1(2) read_u16_stream [OF assms(1) _ n] by (simp add: load_pre_def)
    from amd_packed_ok [OF assms(1,2) dims assms(5) this, of "unat n"]
    show ?thesis using False s1(1) n by (auto simp: amd_tracks_def Let_def)
  qed
qed

lemma amd_convert_inst: "ev_inst (amd_convert_event e) = ev_inst e"
  by (simp add: amd_convert_event_def Let_def)

lemma amd_convert_ok:
  assumes "mod_shape 31 m Q s" "maxi \<le> mod_npats s * mod_nchans s" "mod_nrows s = 64"
  shows "\<exists>t. amd_convert maxi s = Some t \<and> mod_shape 31 m Q t \<and> mod_scalars t = mod_scalars s"
proof -
  let ?I = "\<lambda>t. mod_shape 31 m Q t \<and> mod_scalars t = mod_scalars s"
  have "\<exists>t. amd_convert maxi s = Some t \<and> ?I t"
    unfolding amd_convert_def
  proof (rule ofold_invariant)
    show "?I s" using assms(1) by simp
    fix p t assume "p \<in> set (List.product [0..<maxi] [0..<64])" and I: "?I t"
    then obtain i j where p: "p = (i, j)" "i < maxi" "j < 64" by auto
    have "i < mod_npats s * mod_nchans s" "j < mod_nrows s" using p(2,3) assms(2,3) by simp_all
    then show "\<exists>u. (case p of (i, j) \<Rightarrow> mod_put_event i j amd_convert_event) t = Some u \<and> ?I u"
      using amd_put_ok [of i s j amd_convert_event m Q t] I amd_convert_inst by (simp add: p(1))
  qed
  then show ?thesis by simp
qed

lemma amd_orders_bad_ok:
  assumes "n \<le> length os"
  shows "\<exists>b. amd_orders_bad os n = Some b \<and> (\<not> b \<longrightarrow> (\<forall>i < n. os ! i AND 0x7f < 64))"
  using assms unfolding amd_orders_bad_def
  by (induction n) (auto simp: ofold_append rd_Some less_Suc_eq not_le)

definition amd_arrays :: "amd_player \<Rightarrow> bool" where
  "amd_arrays s \<longleftrightarrow> length (amd_songname s) = 24 \<and> length (amd_author s) = 24 \<and> matrix 26 23 (amd_instname s)"

lemma amd_instruments_ok:
  assumes "stream_laws io P" "P f" "mod_shape k m Q s" "matrix 26 23 (amd_instname s)" "26 \<le> m"
  shows "\<exists>f' t. amd_instruments io (f, s) = Some (f', t) \<and> P f' \<and> mod_shape k m Q t \<and>
    (mod_npats t, mod_nrows t, mod_nchans t) = (mod_npats s, mod_nrows s, mod_nchans s)"
proof -
  let ?I = "\<lambda>(f, t). P f \<and> mod_shape k m Q t \<and> matrix 26 23 (amd_instname t) \<and>
    (mod_npats t, mod_nrows t, mod_nchans t) = (mod_npats s, mod_nrows s, mod_nchans s)"
  have "\<exists>x. amd_instruments io (f, s) = Some x \<and> ?I x"
    unfolding amd_instruments_def
  proof (rule ofold_invariant)
    show "?I (f, s)" using assms by simp
    fix i x assume "i \<in> set [0..<26]" and I: "?I x"
    then have i: "i < 26" by simp
    obtain f1 t where x: "x = (f1, t)" by fastforce
    have t: "P f1" "mod_shape k m Q t" "matrix 26 23 (amd_instname t)" using I x by simp_all
    have row: "i < length (amd_instname t)" "length (amd_instname t ! i) = 23"
      using matrix_row [OF t(3) i] matrix_length [OF t(3)] i by simp_all
    obtain j b f2 where r: "bio_readString io 23 (amd_instname t ! i) f1 = (j, b, f2)" by (metis surj_pair)
    have b: "P f2" "length b = 23" using stream_lawsD(3) [OF assms(1) t(1) r] row(2) by simp_all
    let ?t = "t\<lparr>amd_instname := (amd_instname t)[i := map (\<lambda>c. if c = 0xff then 0x20 else c) b]\<rparr>"
    have pre: "load_pre P k m Q ?t (f2, ?t)" using b(1) t(2) by (simp add: load_pre_def mod_shape_def)
    have read: "load_op P k m Q ?t (mod_read_data io i [1, 9, 3, 5, 7, 2, 10, 4, 6, 8, 0])"
      by (rule mod_read_data_ok [OF assms(1)]) (use i assms(5) in simp_all)
    obtain f3 u where u: "mod_read_data io i [1, 9, 3, 5, 7, 2, 10, 4, 6, 8, 0] (f2, ?t) = Some (f3, u)"
      "P f3" "mod_shape k m Q u" "mod_scalars u = mod_scalars ?t"
      using op_okD [OF read pre] by (auto simp: load_pre_def)
    have "amd_instname u = amd_instname ?t" using mod_scalars_eqs(13) [OF u(4)] by (cases u, cases t) simp
    then have "matrix 26 23 (amd_instname u)"
      using matrix_update [OF t(3) i, of "map (\<lambda>c. if c = 0xff then 0x20 else c) b"] b(2) by simp
    then have "?I (f3, u)" using u(2,3) mod_scalars_eqs(1-3) [OF u(4)] I x by simp
    then show "\<exists>y. (\<lambda>(f, s). do {
       nm \<leftarrow> rd (amd_instname s) i;
       let (_, nm, f) = bio_readString io 23 nm f;
       mod_read_data io i [1, 9, 3, 5, 7, 2, 10, 4, 6, 8, 0]
         (f, s\<lparr>amd_instname := (amd_instname s)[i := map (\<lambda>c. if c = 0xff then 0x20 else c) nm]\<rparr>) }) x =
       Some y \<and> ?I y"
      using r row(1) u(1) by (simp add: x rd_Some)
  qed
  then show ?thesis by auto
qed

lemma amd_load_song_ok:
  assumes "stream_laws io P" "amd_finite io P left" "P f" "mod_shape 0 250 (\<lambda>os. length os = 128) s"
    "mod_npats s = 64" "mod_nrows s = 64" "mod_nchans s = 9"
  shows "\<exists>b t. amd_load_song io version (f, s) = Some (b, t) \<and>
    (b \<longrightarrow> mod_ord t = 0 \<and> mod_rw t = 0 \<and> 0 < mod_length t \<and> mod_length t \<le> length (mod_order t) \<and>
      mod_restartpos t = 0 \<and> mod_npats t = 64 \<and>
      (\<forall>i < mod_length t. mod_order t ! i AND 0x7f < 64) \<and> (mod_orders_ok t \<longrightarrow> mod_ok t))"
proof -
  obtain len f1 where f1: "read_u8 io f = (len, f1)" by fastforce
  obtain n f2 where f2: "read_u8 io f1 = (n, f2)" by fastforce
  have P2: "P f2" by (rule read_u8_stream [OF assms(1) read_u8_stream [OF assms(1,3) f1] f2])
  let ?s1 = "s\<lparr>mod_length := unat len, mod_nop := ucast n + 1\<rparr>"
  obtain k os f3 where f3: "bio_readString io 128 (mod_order s) f2 = (k, os, f3)" by (metis surj_pair)
  have os: "P f3" "length os = 128"
    using stream_lawsD(3) [OF assms(1) P2 f3] assms(4) by (simp_all add: mod_shape_def)
  show ?thesis
  proof (cases "unat len = 0 \<or> unat len > 128 \<or> mod_nop ?s1 > 64")
    case True
    then have "amd_load_song io version (f, s) = Some (False, ?s1)"
      using f1 f2 by (simp add: amd_load_song_def Let_def)
    then show ?thesis by auto
  next
    case ok: False
    obtain bad where bad: "amd_orders_bad os (unat len) = Some bad"
      "\<not> bad \<longrightarrow> (\<forall>i < unat len. os ! i AND 0x7f < 64)"
      using amd_orders_bad_ok [of "unat len" os] os(2) ok by auto
    let ?s2 = "?s1\<lparr>mod_order := os\<rparr>"
    have P4: "P (bio_ignore io 10 f3)" by (rule stream_lawsD(9) [OF assms(1) os(1)])
    have "mod_shape 0 250 (\<lambda>x. x = os) ?s2" using assms(4) by (simp add: mod_shape_def)
    then have "mod_shape 31 250 (\<lambda>x. x = os) ?s2" by (rule mod_shape_mono) simp
    then have pre2: "load_pre P 31 250 (\<lambda>x. x = os) ?s2 (bio_ignore io 10 f3, ?s2)" using P4 by (simp add: load_pre_def)
    obtain maxi f5 s5 where s5: "amd_tracks io version (bio_ignore io 10 f3, ?s2) = Some (maxi, f5, s5)" "maxi \<le> 576"
      "load_pre P 31 250 (\<lambda>x. x = os) ?s2 (f5, s5)"
      using amd_tracks_ok [OF assms(1,2) _ _ _ pre2, of version] assms(5-7) ok by (auto simp: not_less)
    have h5: "mod_shape 31 250 (\<lambda>x. x = os) s5" "mod_scalars s5 = mod_scalars ?s2" using s5(3) by (simp_all add: load_pre_def)
    note eq5 = mod_scalars_eqs [OF h5(2)]
    let ?s6 = "s5\<lparr>mod_bpm := 50, mod_restartpos := 0, mod_flags := mod_flag_bit Decimal\<rparr>"
    have h6: "mod_shape 31 250 (\<lambda>x. x = os) ?s6" "maxi \<le> mod_npats ?s6 * mod_nchans ?s6" "mod_nrows ?s6 = 64"
      using h5(1) s5(2) eq5(1-3) assms(5-7) by (simp_all add: mod_shape_def)
    obtain s7 where s7: "amd_convert maxi ?s6 = Some s7" "mod_shape 31 250 (\<lambda>x. x = os) s7" "mod_scalars s7 = mod_scalars ?s6"
      using amd_convert_ok [OF h6] by blast
    note eq7 = mod_scalars_eqs [OF s7(3)]
    have same: "mod_npats s7 = 64" "mod_nrows s7 = 64" "mod_nchans s7 = 9" "mod_length s7 = unat len"
      "mod_restartpos s7 = 0" "mod_order s7 = os"
      using eq7(1-5) eq5(1-4) assms(5-7) s7(2) by (simp_all add: mod_shape_def)
    obtain t where t: "mod_rewind 0 s7 = Some t" "mod_orders_ok s7 \<longrightarrow> mod_ok t" "mod_ord t = 0" "mod_rw t = 0"
      "mod_frame (t\<lparr>mod_nop := mod_nop s7\<rparr>) = mod_frame s7"
      using mod_rewind_loaded [OF s7(2), of 0] same ok os(2) by auto
    have feq: "mod_order t = os" "mod_length t = unat len" "mod_restartpos t = 0" "mod_npats t = 64"
      using mod_frame_eqs [OF t(5)] same by simp_all
    have orders: "mod_orders_ok t = mod_orders_ok s7" using feq same by (simp add: mod_orders_ok_def)
    have step: "amd_load_song io version (f, s) = (if bad then Some (False, ?s2) else Some (True, t))"
      using f1 f2 f3 ok bad(1) s5(1) s7(1) t(1) by (simp add: amd_load_song_def Let_def)
    show ?thesis
    proof (cases bad)
      case True
      then show ?thesis unfolding step by auto
    next
      case False
      then show ?thesis
        unfolding step using t(2-4) feq orders ok bad(2) os(2) by auto
    qed
  qed
qed

text \<open>C36: \<open>CamdLoader::load\<close> returns for every finite file, packed or not, within its arrays. An accepted
module has an order list whose entries name one of the 64 patterns or jump to one of the first 64 entries;
without jumps, or with jumps that stay in the list and end, it is well formed and plays safely to its end.\<close>

theorem amd_load_playable:
  assumes "stream_laws io P" "amd_finite io P left" "\<And>f. opn filename = Some f \<Longrightarrow> P f"
    "mod_construct mem0 cmem0 chip s0 = Some s" "amd_arrays s"
  shows "\<exists>b t. amd_load io opn mem filename s = Some (b, t) \<and>
    (b \<longrightarrow> 0 < mod_length t \<and> (\<forall>i < mod_length t. mod_order t ! i AND 0x7f < 64) \<and>
      ((\<forall>i < mod_length t. unat (mod_order t ! i) < JUMPMARKER) \<or> mod_orders_ok t \<longrightarrow>
        mod_ok t \<and> mod_ord t = 0 \<and> mod_rw t = 0 \<and>
        (\<exists>n s1 s2. play mod_update n t = Some s1 \<and> mod_update s1 = Some (False, s2))))"
proof (cases "opn filename")
  case None
  then show ?thesis by (auto simp: amd_load_def)
next
  case (Some f)
  obtain size f1 where f1: "fp_filesize io f = (size, f1)" by fastforce
  have P1: "P f1" using filesize_stream [OF assms(1) assms(3) [OF Some] f1] by simp
  obtain k ident f2 where f2: "bio_readString io 9 (fresh mem 9) (bio_seekSet io 1062 f1) = (k, ident, f2)"
    by (metis surj_pair)
  have P2: "P f2" using stream_lawsD(3) [OF assms(1) stream_lawsD(6) [OF assms(1) P1] f2] by simp
  obtain version f3 where f3: "read_u8 io f2 = (version, f3)" by fastforce
  have P3: "P f3" by (rule read_u8_stream [OF assms(1) P2 f3])
  obtain k' nm f4 where f4: "bio_readString io 24 (amd_songname s) (bio_seekSet io 0 f3) = (k', nm, f4)" by (metis surj_pair)
  have P4: "P f4" using stream_lawsD(3) [OF assms(1) stream_lawsD(6) [OF assms(1) P3] f4] by simp
  obtain k'' au f5 where f5: "bio_readString io 24 (amd_author s) f4 = (k'', au, f5)" by (metis surj_pair)
  have P5: "P f5" using stream_lawsD(3) [OF assms(1) P4 f5] by simp
  let ?s1 = "s\<lparr>amd_songname := nm, amd_author := au\<rparr>"
  note new = mod_construct_ok [OF assms(4)]
  have sh: "mod_shape 0 250 (\<lambda>os. length os = 128) ?s1" using new(1) by (simp add: mod_shape_def)
  have "matrix 26 23 (amd_instname ?s1)" using assms(5) by (simp add: amd_arrays_def)
  then obtain f6 s6 where s6: "amd_instruments io (f5, ?s1) = Some (f6, s6)" "P f6"
    "mod_shape 0 250 (\<lambda>os. length os = 128) s6" "mod_npats s6 = 64" "mod_nrows s6 = 64" "mod_nchans s6 = 9"
    using amd_instruments_ok [OF assms(1) P5 sh] new(2-4) by auto
  obtain b t where t: "amd_load_song io version (f6, s6) = Some (b, t)"
    "b \<longrightarrow> mod_ord t = 0 \<and> mod_rw t = 0 \<and> 0 < mod_length t \<and> mod_length t \<le> length (mod_order t) \<and>
      mod_restartpos t = 0 \<and> mod_npats t = 64 \<and>
      (\<forall>i < mod_length t. mod_order t ! i AND 0x7f < 64) \<and> (mod_orders_ok t \<longrightarrow> mod_ok t)"
    using amd_load_song_ok [OF assms(1,2) s6(2-6), of version] by blast
  have load: "amd_load io opn mem filename s = (if size < 1062 + 10 then Some (False, s)
      else if \<not> amd_valid_id ident then Some (False, s) else Some (b, t))"
    using Some f1 f2 f3 f4 f5 s6(1) t(1) by (simp add: amd_load_def)
  have plain: "mod_orders_ok t" if b and small: "\<forall>i < mod_length t. unat (mod_order t ! i) < JUMPMARKER"
  proof (rule mod_orders_plain)
    fix i assume i: "i < mod_length t"
    have "mod_order t ! i AND 0x7f < 64" using t(2) that(1) i by blast
    moreover have "mod_order t ! i AND 0x7f = mod_order t ! i" using small i by (simp add: below_marker_mask)
    ultimately show "unat (mod_order t ! i) < mod_npats t \<and> unat (mod_order t ! i) < JUMPMARKER"
      using t(2) that(1) small i by (simp add: word_less_nat_alt)
  qed (use t(2) that(1) in simp_all)
  have reach: "mod_ok t \<Longrightarrow> \<exists>n s1 s2. play mod_update n t = Some s1 \<and> mod_update s1 = Some (False, s2)"
    by (rule mod_contract.reaches_end)
  show ?thesis
  proof (cases "size < 1062 + 10 \<or> \<not> amd_valid_id ident \<or> \<not> b")
    case True
    then show ?thesis unfolding load by auto
  next
    case False
    then have "b" and eq: "amd_load io opn mem filename s = Some (True, t)" using load by auto
    then have "mod_ok t" if "(\<forall>i < mod_length t. unat (mod_order t ! i) < JUMPMARKER) \<or> mod_orders_ok t"
      using that plain t(2) by blast
    then show ?thesis using eq t(2) \<open>b\<close> reach by blast
  qed
qed

text \<open>A constructed player and an empty file.\<close>

definition amd_raw :: amd_player where
  "amd_raw = mod_player.extend mod_raw \<lparr>amd_songname = replicate 24 0, amd_author = replicate 24 0,
     amd_instname = replicate 26 (replicate 23 0)\<rparr>"

lemma memio_finite: "amd_finite memio (mem_ok bs) (\<lambda>s. length (ms_rest s))"
proof -
  have "length (ms_rest (ms_advance 1 s)) < length (ms_rest s)" if "take 1 (ms_rest s) \<noteq> []" for s
    using that by (auto simp: ms_rest_def ms_advance_def)
  then have "length (ms_rest (ms_advance 1 s)) < length (ms_rest s)"
    if "to_u8 (le_value (take 1 (ms_rest s))) = 0x80" for s
    using that by (cases "ms_rest s = []") simp_all
  then show ?thesis by (auto simp: amd_finite_def read_u8_def memio_def)
qed

lemma amd_load_playable_witness:
  "\<exists>s. mod_construct (\<lambda>_. 0) (\<lambda>_. zero_chan) 0 amd_raw = Some s \<and>
    (\<exists>b t. amd_load memio (\<lambda>_. Some (mem_file [1, 2, 3])) (\<lambda>_. 0) ''a.amd'' s = Some (b, t) \<and>
       (b \<longrightarrow> 0 < mod_length t))"
proof -
  obtain s where s: "mod_construct (\<lambda>_. 0) (\<lambda>_. zero_chan) 0 amd_raw = Some s"
    by (simp add: mod_construct_def mod_init_notetable_def sa2_notetable_def)
  then have "amd_arrays s"
    by (auto simp: mod_construct_def mod_init_notetable_def sa2_notetable_def mod_realloc_instruments_def
        mod_realloc_patterns_def mod_realloc_order_def amd_raw_def mod_raw_def mod_player.defs amd_arrays_def matrix_def)
  then show ?thesis
    using amd_load_playable [OF mem_stream_laws [of "[1, 2, 3]"] memio_finite _ s,
        of "\<lambda>_. Some (mem_file [1, 2, 3])" "''a.amd''" "\<lambda>_. 0"] s
    by auto
qed

end
