(* ===== verification/Dfm.thy ===== *)
theory Dfm
  imports Modload Adtrack
begin

text \<open>
  \<open>src/dfm.cpp\<close>: the loader for Digital-FM modules. Its patterns come in any order, its events
  in one or two bytes; the order list ends at the entry 128 and is not checked.
\<close>

section \<open>Loading\<close>

record dfm_player = mod_player +
  dfm_id :: bytes
  dfm_hiver :: u8
  dfm_lover :: u8
  dfm_songinfo :: bytes
  dfm_instname :: "bytes list"

definition dfm_convfx :: "u8 list" where
  "dfm_convfx = [255, 255, 17, 19, 23, 24, 255, 13]"

text \<open>The instrument names, Pascal strings whose length byte is a \<open>char\<close>; the result says whether all fit.\<close>

fun dfm_names :: "('f, 'fl) binio \<Rightarrow> nat list \<Rightarrow> 'f \<times> dfm_player \<Rightarrow> (bool \<times> 'f \<times> dfm_player) option" where
  "dfm_names io [] (f, s) = Some (True, f, s)"
| "dfm_names io (i # is) (f, s) = do {
     nm \<leftarrow> rd (dfm_instname s) i;
     let (_, nm, f) = bio_readString io 12 nm f;
     let s = s\<lparr>dfm_instname := (dfm_instname s)[i := nm]\<rparr>;
     c \<leftarrow> rd nm 0;
     if unat c > 11 then Some (False, f, s) else dfm_names io is (f, s)
   }"

definition dfm_instruments ::
  "('f, 'fl) binio \<Rightarrow> 'f \<times> 'a mod_player_scheme \<Rightarrow> ('f \<times> 'a mod_player_scheme) option"
where
  "dfm_instruments io = ofold (\<lambda>i. mod_read_data io i [1, 2, 9, 10, 3, 4, 5, 6, 7, 8, 0]) [0..<32]"

text \<open>One event: the note byte, and an effect byte where its top bit says so.\<close>

definition dfm_note :: "u8 \<Rightarrow> u8" where
  "dfm_note note =
     (if note AND 15 = 15 then 127 else drop_bit 4 (note AND 127) * 12 + (note AND 15))"

definition dfm_effect :: "u8 \<Rightarrow> u8 \<Rightarrow> mod_event \<Rightarrow> mod_event" where
  "dfm_effect fx cmd e =
     (if cmd = 17 then
        (let param = 63 - (fx AND 31) * 2
         in e\<lparr>ev_command := cmd, ev_param1 := drop_bit 4 param, ev_param2 := param AND 15\<rparr>)
      else e\<lparr>ev_command := cmd, ev_param1 := drop_bit 4 (fx AND 31), ev_param2 := fx AND 15\<rparr>)"

definition dfm_event ::
  "('f, 'fl) binio \<Rightarrow> nat \<Rightarrow> nat \<Rightarrow> 'f \<times> 'a mod_player_scheme \<Rightarrow> ('f \<times> 'a mod_player_scheme) option"
where
  "dfm_event io t r = (\<lambda>(f, s). do {
     let (note, f) = read_u8 io f;
     if note AND 128 \<noteq> 0 then do {
       let (fx, f) = read_u8 io f;
       if drop_bit 5 fx = 1 then do {
         s \<leftarrow> mod_put_event t r (\<lambda>e. e\<lparr>ev_note := dfm_note note, ev_inst := (fx AND 31) + 1\<rparr>) s;
         Some (f, s)
       }
       else do {
         cmd \<leftarrow> rd dfm_convfx (unat (drop_bit 5 fx));
         s \<leftarrow> mod_put_event t r (\<lambda>e. dfm_effect fx cmd (e\<lparr>ev_note := dfm_note note\<rparr>)) s;
         Some (f, s)
       }
     }
     else do {
       s \<leftarrow> mod_put_event t r (\<lambda>e. e\<lparr>ev_note := dfm_note note\<rparr>) s;
       Some (f, s)
     }
   })"

definition dfm_pattern ::
  "('f, 'fl) binio \<Rightarrow> nat \<Rightarrow> 'f \<times> 'a mod_player_scheme \<Rightarrow> ('f \<times> 'a mod_player_scheme) option"
where
  "dfm_pattern io n = ofold (\<lambda>(r, c). dfm_event io (n * 9 + c) r) (List.product [0..<64] [0..<9])"

text \<open>\<open>k\<close> more patterns, each with its number in front.\<close>

fun dfm_patterns ::
  "('f, 'fl) binio \<Rightarrow> u8 \<Rightarrow> nat \<Rightarrow> 'f \<times> 'a mod_player_scheme \<Rightarrow> (bool \<times> 'f \<times> 'a mod_player_scheme) option"
where
  "dfm_patterns io npats 0 (f, s) = Some (True, f, s)"
| "dfm_patterns io npats (Suc k) (f, s) = do {
     let (n, f) = read_u8 io f;
     if n \<ge> npats then Some (False, f, s)
     else do {
       (f, s) \<leftarrow> dfm_pattern io (unat n) (f, s);
       dfm_patterns io npats k (f, s)
     }
   }"

text \<open>The length of the order list: up to the first entry 128.\<close>

fun dfm_length :: "bytes \<Rightarrow> nat list \<Rightarrow> nat \<Rightarrow> nat option" where
  "dfm_length os [] n = Some n"
| "dfm_length os (i # is) n = do {
     e \<leftarrow> rd os i;
     if e = 128 then Some i else dfm_length os is n
   }"

definition dfm_load_song ::
  "('f, 'fl) binio \<Rightarrow> 'f \<times> dfm_player \<Rightarrow> (bool \<times> dfm_player) option"
where
  "dfm_load_song io = (\<lambda>(f, s). do {
     (f, s) \<leftarrow> dfm_instruments io (f, s);
     (f, s) \<leftarrow> mod_read_orders io 128 (f, s);
     len \<leftarrow> dfm_length (mod_order s) [0..<128] 128;
     let s = s\<lparr>mod_length := len\<rparr>;
     let (npats, f) = read_u8 io f;
     if npats > 64 then Some (False, s)
     else do {
       (ok, f, s) \<leftarrow> dfm_patterns io npats (unat npats) (f, s);
       if \<not> ok then Some (False, s)
       else do {
         s \<leftarrow> mod_rewind 0 s;
         Some (True, s)
       }
     }
   })"

definition dfm_load ::
  "('f, 'fl) binio \<Rightarrow> 'f opener \<Rightarrow> string \<Rightarrow> dfm_player \<Rightarrow> (bool \<times> dfm_player) option"
where
  "dfm_load io opn filename s =
     (case opn filename of None \<Rightarrow> Some (False, s) | Some f \<Rightarrow> do {
        let (_, ident, f) = bio_readString io 4 (dfm_id s) f;
        let (hiver, f) = read_u8 io f;
        let (lover, f) = read_u8 io f;
        let s = s\<lparr>dfm_id := ident, dfm_hiver := hiver, dfm_lover := lover\<rparr>;
        if ident \<noteq> bytes_of ''DFM'' @ [0x1a] \<or> hiver > 1 then Some (False, s)
        else do {
          s \<leftarrow> mod_init_trackord (s\<lparr>mod_restartpos := 0, mod_flags := 0, mod_bpm := 0\<rparr>);
          let (_, info, f) = bio_readString io 33 (dfm_songinfo s) f;
          let s = s\<lparr>dfm_songinfo := info\<rparr>;
          c \<leftarrow> rd info 0;
          if unat c > 32 then Some (False, s)
          else do {
            let (speed, f) = read_u8 io f;
            (ok, f, s) \<leftarrow> dfm_names io [0..<32] (f, s\<lparr>mod_initspeed := speed\<rparr>);
            if \<not> ok then Some (False, s) else dfm_load_song io (f, s)
          }
        }
      })"

section \<open>The loader stays in its arrays\<close>

definition dfm_arrays :: "dfm_player \<Rightarrow> bool" where
  "dfm_arrays s \<longleftrightarrow> length (dfm_id s) = 4 \<and> length (dfm_songinfo s) = 33 \<and> matrix 32 12 (dfm_instname s)"

lemma dfm_names_ok:
  assumes "stream_laws io P"
  shows "P f \<Longrightarrow> matrix 32 12 (dfm_instname s) \<Longrightarrow> \<forall>i \<in> set is. i < 32 \<Longrightarrow>
    \<exists>ok f' nm. dfm_names io is (f, s) = Some (ok, f', s\<lparr>dfm_instname := nm\<rparr>) \<and> P f'"
proof (induction "is" arbitrary: f s)
  case Nil
  have "s = s\<lparr>dfm_instname := dfm_instname s\<rparr>" by simp
  then show ?case using Nil.prems(1) by (metis dfm_names.simps(1))
next
  case (Cons i "is")
  have i: "i < 32" using Cons.prems(3) by simp
  have row: "i < length (dfm_instname s)" "length (dfm_instname s ! i) = 12"
    using matrix_row [OF Cons.prems(2) i] matrix_length [OF Cons.prems(2)] i by simp_all
  obtain k b f1 where r: "bio_readString io 12 (dfm_instname s ! i) f = (k, b, f1)" by (metis surj_pair)
  have b: "P f1" "length b = 12" using stream_lawsD(3) [OF assms Cons.prems(1) r] row(2) by simp_all
  let ?s = "s\<lparr>dfm_instname := (dfm_instname s)[i := b]\<rparr>"
  have mat: "matrix 32 12 (dfm_instname ?s)" using matrix_update [OF Cons.prems(2) i b(2)] by simp
  have step: "dfm_names io (i # is) (f, s) = (if unat (b ! 0) > 11 then Some (False, f1, ?s) else dfm_names io is (f1, ?s))"
    using r row(1) b(2) by (simp add: rd_Some Let_def)
  obtain ok f' nm where IH: "dfm_names io is (f1, ?s) = Some (ok, f', ?s\<lparr>dfm_instname := nm\<rparr>)" "P f'"
    using Cons.IH [OF b(1) mat] Cons.prems(3) by auto
  show ?case
  proof (cases "unat (b ! 0) > 11")
    case True
    then show ?thesis unfolding step using b(1) by auto
  next
    case False
    then have "dfm_names io (i # is) (f, s) = Some (ok, f', s\<lparr>dfm_instname := nm\<rparr>)" unfolding step using IH(1) by simp
    then show ?thesis using IH(2) by blast
  qed
qed

lemma dfm_instruments_ok:
  assumes "stream_laws io P" "32 \<le> m"
  shows "load_op P k m Q s0 (dfm_instruments io)"
  unfolding dfm_instruments_def
  by (rule lo.ok_ofold, rule mod_read_data_ok [OF assms(1)]) (use assms(2) in auto)

lemma dfm_inst_bound: "unat ((fx AND 31) + 1 :: u8) \<le> 32"
proof -
  have "fx AND 31 \<le> 31" by (rule word_and_le1)
  then have "unat (fx AND 31) \<le> 31" by (simp add: word_le_nat_alt)
  moreover have "unat ((fx AND 31) + 1) \<le> unat (fx AND 31) + 1" by (simp add: unat_word_ariths mod_less_eq_dividend)
  ultimately show ?thesis by linarith
qed

lemma dfm_convfx_index: "unat (drop_bit 5 (fx :: u8)) < length dfm_convfx"
proof -
  have "unat (drop_bit 5 fx) = unat fx div 32" by (simp only: unat_drop_bit_eq) (simp add: drop_bit_eq_div)
  moreover have "length dfm_convfx = 8" by (simp add: dfm_convfx_def)
  ultimately show ?thesis using unat_u8_bound(1) [of fx] by linarith
qed

lemma dfm_event_ok:
  assumes "stream_laws io P" "t < mod_npats s0 * mod_nchans s0" "r < mod_nrows s0"
  shows "load_op P 32 m Q s0 (dfm_event io t r)"
proof -
  have put: "load_op P 32 m Q s0 (\<lambda>(f, s). Option.bind (mod_put_event t r g s) (\<lambda>s. Some (f, s)))"
    if "\<And>e. unat (ev_inst e) \<le> 32 \<Longrightarrow> unat (ev_inst (g e)) \<le> 32" for g
  proof (rule load_op_state)
    fix s assume s: "mod_shape 32 m Q s" "mod_scalars s = mod_scalars s0"
    show "\<exists>u. mod_put_event t r g s = Some u \<and> mod_shape 32 m Q u \<and> mod_scalars u = mod_scalars s"
      by (rule mod_put_event_ok [OF s(1) _ _ that]) (use assms mod_scalars_eqs(1-3) [OF s(2)] in simp_all)
  qed
  show ?thesis
    unfolding dfm_event_def Let_def
    by (intro load_op_read [OF assms(1)] load_op_if_stream load_op_rd dfm_convfx_index put)
       (simp_all add: dfm_inst_bound dfm_effect_def Let_def)
qed

lemma dfm_pattern_ok:
  assumes "stream_laws io P" "n < mod_npats s0" "mod_nchans s0 = 9" "mod_nrows s0 = 64"
  shows "load_op P 32 m Q s0 (dfm_pattern io n)"
  unfolding dfm_pattern_def
proof (rule lo.ok_ofold)
  fix p assume "p \<in> set (List.product [0..<64] [0..<9])"
  then obtain r c where p: "p = (r, c)" "r < 64" "c < 9" by auto
  have "(n + 1) * 9 \<le> mod_npats s0 * 9" by (rule mult_le_mono1) (use assms(2) in simp)
  then have "n * 9 + c < mod_npats s0 * mod_nchans s0" using p(3) assms(3) by simp
  then show "load_op P 32 m Q s0 ((\<lambda>(r, c). dfm_event io (n * 9 + c) r) p)"
    using p assms by (simp add: dfm_event_ok)
qed

lemma dfm_patterns_ok:
  assumes "stream_laws io P" "unat npats \<le> mod_npats s0" "mod_nchans s0 = 9" "mod_nrows s0 = 64"
  shows "load_pre P 32 m Q s0 (f, s) \<Longrightarrow>
    \<exists>ok f' t. dfm_patterns io npats k (f, s) = Some (ok, f', t) \<and> load_pre P 32 m Q s0 (f', t)"
proof (induction k arbitrary: f s)
  case 0
  then show ?case by auto
next
  case (Suc k)
  obtain n f1 where f1: "read_u8 io f = (n, f1)" by fastforce
  have pre1: "load_pre P 32 m Q s0 (f1, s)"
    using Suc.prems read_u8_stream [OF assms(1) _ f1] by (simp add: load_pre_def)
  show ?case
  proof (cases "n \<ge> npats")
    case True
    then show ?thesis using f1 pre1 by auto
  next
    case False
    then have "unat n < mod_npats s0" using assms(2) by (simp add: not_le word_less_nat_alt)
    from op_okD [OF dfm_pattern_ok [OF assms(1) this assms(3,4)] pre1]
    obtain f2 t where "dfm_pattern io (unat n) (f1, s) = Some (f2, t)" "load_pre P 32 m Q s0 (f2, t)" by (metis surj_pair)
    then show ?thesis using Suc.IH [of f2 t] f1 False by simp
  qed
qed

lemma dfm_length_ok:
  "\<forall>i \<in> set is. i < length os \<Longrightarrow>
   \<exists>len. dfm_length os is n = Some len \<and> (len = n \<or> len \<in> set is \<and> os ! len = 128)"
  by (induction "is") (auto simp: rd_Some)

lemma dfm_load_song_ok:
  assumes "stream_laws io P" "P f" "mod_shape 0 250 (\<lambda>os. length os = 128) s" "mod_npats s = 64" "mod_nrows s = 64"
    "mod_nchans s = 9" "mod_restartpos s = 0" "mod_activechan s = 0xffffffff"
  shows "\<exists>b t. dfm_load_song io (f, s) = Some (b, t) \<and>
    (b \<longrightarrow> mod_length t \<le> 128 \<and> mod_ord t = 0 \<and> mod_rw t = 0 \<and> (mod_orders_ok t \<longrightarrow> mod_ok t) \<and>
      (mod_length t = 0 \<and> mod_speed t \<noteq> 0 \<longrightarrow> mod_update t = None))"
proof -
  let ?Q = "\<lambda>os :: bytes. length os = 128"
  have "mod_shape 32 250 ?Q s" by (rule mod_shape_mono [OF assms(3)]) simp
  then have pre: "load_pre P 32 250 ?Q s (f, s)" using assms(2) by (simp add: load_pre_def)
  have insts: "load_op P 32 250 ?Q s (dfm_instruments io)" by (rule dfm_instruments_ok [OF assms(1)]) simp
  have ords: "load_op P 32 250 ?Q s (mod_read_orders io 128)" by (rule mod_read_orders_ok [OF assms(1)]) simp
  obtain f1 s1 where s1: "dfm_instruments io (f, s) = Some (f1, s1)" "load_pre P 32 250 ?Q s (f1, s1)"
    using op_okD [OF insts pre] by (metis surj_pair)
  obtain f2 s2 where s2: "mod_read_orders io 128 (f1, s1) = Some (f2, s2)" "load_pre P 32 250 ?Q s (f2, s2)"
    using op_okD [OF ords s1(2)] by (metis surj_pair)
  have h2: "P f2" "mod_shape 32 250 ?Q s2" "mod_scalars s2 = mod_scalars s" using s2(2) by (simp_all add: load_pre_def)
  note eq2 = mod_scalars_eqs [OF h2(3)]
  have os: "length (mod_order s2) = 128" using h2(2) by (simp add: mod_shape_def)
  obtain len where len: "dfm_length (mod_order s2) [0..<128] 128 = Some len"
    "len = 128 \<or> len \<in> set [0..<128] \<and> mod_order s2 ! len = 128"
    using dfm_length_ok [of "[0..<128]" "mod_order s2" 128] os by auto
  obtain npats f3 where f3: "read_u8 io f2 = (npats, f3)" by fastforce
  have P3: "P f3" by (rule read_u8_stream [OF assms(1) h2(1) f3])
  let ?s3 = "s2\<lparr>mod_length := len\<rparr>"
  have step: "dfm_load_song io (f, s) = (if npats > 64 then Some (False, ?s3)
      else do { (ok, f, s) \<leftarrow> dfm_patterns io npats (unat npats) (f3, ?s3);
        if \<not> ok then Some (False, s) else do { s \<leftarrow> mod_rewind 0 s; Some (True, s) } })"
    using s1(1) s2(1) len(1) f3 by (simp add: dfm_load_song_def Let_def del: upt.simps)
  show ?thesis
  proof (cases "npats > 64")
    case True
    then show ?thesis unfolding step by auto
  next
    case False
    have shape3: "mod_shape 32 250 (\<lambda>x. x = mod_order s2) ?s3" using h2(2) by (simp add: mod_shape_def)
    then have pre3: "load_pre P 32 250 (\<lambda>x. x = mod_order s2) ?s3 (f3, ?s3)" using P3 by (simp add: load_pre_def)
    have np: "unat npats \<le> mod_npats ?s3" using False assms(4) eq2(1) by (simp add: not_less word_le_nat_alt)
    obtain ok f4 s4 where s4: "dfm_patterns io npats (unat npats) (f3, ?s3) = Some (ok, f4, s4)"
      "mod_shape 32 250 (\<lambda>x. x = mod_order s2) s4" "mod_scalars s4 = mod_scalars ?s3"
      using dfm_patterns_ok [OF assms(1) np _ _ pre3, of "unat npats"] eq2(2,3) assms(5,6) by (auto simp: load_pre_def)
    note eq4 = mod_scalars_eqs [OF s4(3)]
    have same: "mod_npats s4 = 64" "mod_nrows s4 = 64" "mod_nchans s4 = 9" "mod_length s4 = len" "mod_restartpos s4 = 0"
      "mod_activechan s4 = 0xffffffff" "mod_order s4 = mod_order s2" "length (mod_trackord s4) = 64"
      using eq4(1-5,9) eq2(1-3,5,9) assms(4-8) s4(2) matrix_length [of 64 9 "mod_trackord s4"]
      by (simp_all add: mod_shape_def)
    have len128: "len \<le> 128" using len(2) by auto
    obtain t where t: "mod_rewind 0 s4 = Some t" "mod_orders_ok s4 \<longrightarrow> mod_ok t" "mod_pre 250 9 t" "mod_ord t = 0"
      "mod_rw t = 0" "mod_del t = 0" "mod_frame (t\<lparr>mod_nop := mod_nop s4\<rparr>) = mod_frame s4"
      using mod_rewind_loaded [OF s4(2), of 0] same len128 os by auto
    have feq: "mod_order t = mod_order s2" "mod_length t = len" "mod_restartpos t = 0" "mod_npats t = 64"
      "mod_nchans t = 9" "mod_activechan t = 0xffffffff" "mod_trackord t = mod_trackord s4"
      using mod_frame_eqs [OF t(7)] same by simp_all
    have orders: "mod_orders_ok t = mod_orders_ok s4" using feq same by (simp add: mod_orders_ok_def)
    have "mod_update t = None" if "mod_length t = 0" "mod_speed t \<noteq> 0"
    proof (rule mod_empty_list_faults [OF t(3) _ _ that(1) t(6) that(2)])
      fix e assume "rd (mod_order t) (mod_restartpos t) = Some e"
      then have "e = 128" using feq len(2) os that(1) by (auto simp: rd_Some)
      then show "length (mod_trackord t) \<le> unat e \<and> 0 < (9 :: nat) \<and> odd (mod_activechan t div 2 ^ 31)"
        using feq(6,7) same(8) by simp
    qed (simp_all add: feq)
    then show ?thesis
      unfolding step using False s4(1) t(1,2,4,5) orders feq(2) len128 by auto
  qed
qed

text \<open>\<open>CdfmLoader::load\<close> returns for every file, within its arrays. An accepted module whose order
list names existing patterns is well formed and plays safely to its end; one whose order list is empty,
which is accepted as well, makes the first update read a track that does not exist.\<close>

theorem dfm_load_playable:
  assumes "stream_laws io P" "\<And>f. opn filename = Some f \<Longrightarrow> P f" "mod_construct mem0 cmem0 chip s0 = Some s"
    "dfm_arrays s"
  shows "\<exists>b t. dfm_load io opn filename s = Some (b, t) \<and>
    (b \<longrightarrow> (mod_length t = 0 \<and> mod_speed t \<noteq> 0 \<longrightarrow> mod_update t = None) \<and>
      (mod_orders_ok t \<longrightarrow> mod_ok t \<and> mod_ord t = 0 \<and> mod_rw t = 0 \<and>
        (\<exists>n s1 s2. play mod_update n t = Some s1 \<and> mod_update s1 = Some (False, s2))))"
proof (cases "opn filename")
  case None
  then show ?thesis by (auto simp: dfm_load_def)
next
  case (Some f)
  obtain k ident f1 where f1: "bio_readString io 4 (dfm_id s) f = (k, ident, f1)" by (metis surj_pair)
  have P1: "P f1" using stream_lawsD(3) [OF assms(1) assms(2) [OF Some] f1] by simp
  obtain hiver f2 where f2: "read_u8 io f1 = (hiver, f2)" by fastforce
  obtain lover f3 where f3: "read_u8 io f2 = (lover, f3)" by fastforce
  have P3: "P f3" by (rule read_u8_stream [OF assms(1) read_u8_stream [OF assms(1) P1 f2] f3])
  let ?s1 = "s\<lparr>dfm_id := ident, dfm_hiver := hiver, dfm_lover := lover, mod_restartpos := 0, mod_flags := 0, mod_bpm := 0\<rparr>"
  note new = mod_construct_ok [OF assms(3)]
  have "mod_shape 0 250 (\<lambda>os. length os = 128) ?s1" using new(1) by (simp add: mod_shape_def)
  then obtain s2 where s2: "mod_init_trackord ?s1 = Some s2" "mod_shape 0 250 (\<lambda>os. length os = 128) s2"
    "mod_scalars s2 = mod_scalars ?s1" using mod_init_trackord_ok by blast
  note eq2 = mod_scalars_eqs [OF s2(3)]
  have ext: "dfm_songinfo s2 = dfm_songinfo s" "dfm_instname s2 = dfm_instname s"
    using eq2(13) by (cases s2, cases s, simp)+
  obtain k' info f4 where f4: "bio_readString io 33 (dfm_songinfo s) f3 = (k', info, f4)" by (metis surj_pair)
  have info: "P f4" "length info = 33"
    using stream_lawsD(3) [OF assms(1) P3 f4] assms(4) by (simp_all add: dfm_arrays_def)
  obtain speed f5 where f5: "read_u8 io f4 = (speed, f5)" by fastforce
  have P5: "P f5" by (rule read_u8_stream [OF assms(1) info(1) f5])
  let ?s3 = "s2\<lparr>dfm_songinfo := info, mod_initspeed := speed\<rparr>"
  have "matrix 32 12 (dfm_instname ?s3)" using assms(4) ext by (simp add: dfm_arrays_def)
  then obtain ok f6 nm where nm: "dfm_names io [0..<32] (f5, ?s3) = Some (ok, f6, ?s3\<lparr>dfm_instname := nm\<rparr>)" "P f6"
    using dfm_names_ok [OF assms(1) P5, of ?s3 "[0..<32]"] by auto
  let ?s4 = "?s3\<lparr>dfm_instname := nm\<rparr>"
  have shape4: "mod_shape 0 250 (\<lambda>os. length os = 128) ?s4" using s2(2) by (simp add: mod_shape_def)
  have "\<exists>b t. dfm_load_song io (f6, ?s4) = Some (b, t) \<and>
    (b \<longrightarrow> mod_length t \<le> 128 \<and> mod_ord t = 0 \<and> mod_rw t = 0 \<and> (mod_orders_ok t \<longrightarrow> mod_ok t) \<and>
      (mod_length t = 0 \<and> mod_speed t \<noteq> 0 \<longrightarrow> mod_update t = None))"
    by (rule dfm_load_song_ok [OF assms(1) nm(2) shape4]) (use eq2(1-3,5,9) new(2-5) in simp_all)
  then obtain b t where t: "dfm_load_song io (f6, ?s4) = Some (b, t)"
    "b \<longrightarrow> mod_ord t = 0 \<and> mod_rw t = 0 \<and> (mod_orders_ok t \<longrightarrow> mod_ok t) \<and>
      (mod_length t = 0 \<and> mod_speed t \<noteq> 0 \<longrightarrow> mod_update t = None)" by blast
  have reach: "mod_ok t \<Longrightarrow> \<exists>n s1 s2. play mod_update n t = Some s1 \<and> mod_update s1 = Some (False, s2)"
    by (rule mod_contract.reaches_end)
  show ?thesis
  proof (cases "ident \<noteq> bytes_of ''DFM'' @ [0x1a] \<or> hiver > 1")
    case True
    then show ?thesis using Some f1 f2 f3 by (auto simp: dfm_load_def Let_def)
  next
    case False
    then have "dfm_load io opn filename s = (if unat (info ! 0) > 32 then Some (False, s2\<lparr>dfm_songinfo := info\<rparr>)
        else if \<not> ok then Some (False, ?s4) else Some (b, t))"
      using Some f1 f2 f3 s2(1) f4 ext(1) info(2) f5 nm(1) t(1)
      by (simp add: dfm_load_def Let_def rd_Some del: upt.simps)
    then show ?thesis using t(2) reach by auto
  qed
qed

text \<open>A constructed player, and a file with nothing but its signature.\<close>

definition dfm_raw :: dfm_player where
  "dfm_raw = mod_player.extend mod_raw \<lparr>dfm_id = replicate 4 0, dfm_hiver = 0, dfm_lover = 0,
     dfm_songinfo = replicate 33 0, dfm_instname = replicate 32 (replicate 12 0)\<rparr>"

lemma dfm_load_playable_witness:
  "\<exists>s. mod_construct (\<lambda>_. 0) (\<lambda>_. zero_chan) 0 dfm_raw = Some s \<and>
    (\<exists>b t. dfm_load memio (\<lambda>_. Some (mem_file (bytes_of ''DFM'' @ [0x1a]))) ''a.dfm'' s = Some (b, t) \<and>
       (b \<longrightarrow> mod_orders_ok t \<longrightarrow> mod_ok t))"
proof -
  obtain s where s: "mod_construct (\<lambda>_. 0) (\<lambda>_. zero_chan) 0 dfm_raw = Some s"
    by (simp add: mod_construct_def mod_init_notetable_def sa2_notetable_def)
  then have "dfm_arrays s"
    by (auto simp: mod_construct_def mod_init_notetable_def sa2_notetable_def mod_realloc_instruments_def
        mod_realloc_patterns_def mod_realloc_order_def dfm_raw_def mod_raw_def mod_player.defs dfm_arrays_def matrix_def)
  moreover have "length (bytes_of ''DFM'' @ [0x1a]) < 2 ^ 63" by (simp add: bytes_of_def)
  ultimately show ?thesis
    using dfm_load_playable [OF mem_stream_laws [of "bytes_of ''DFM'' @ [0x1a]"] _ s,
        of "\<lambda>_. Some (mem_file (bytes_of ''DFM'' @ [0x1a]))" "''a.dfm''"] s
    by auto
qed

end
