(* ===== verification/Mad.thy ===== *)
theory Mad
  imports Dtm Adtrack
begin

text \<open>
  \<open>src/mad.cpp\<close>: the loader for Mlat Adlib Tracker modules: nine instruments, patterns of 32 rows
  with one byte per note, and an order list of any length that is not checked.
\<close>

section \<open>Loading\<close>

record mad_instrument =
  mad_name :: bytes
  mad_data :: bytes

record mad_player = mod_player +
  mad_instruments :: "mad_instrument list"
  mad_timer :: u8

definition mad_conv_inst :: "nat list" where
  "mad_conv_inst = [2, 1, 10, 9, 4, 3, 6, 5, 8, 7]"

definition mad_read_instruments ::
  "('f, 'fl) binio \<Rightarrow> 'f \<times> mad_player \<Rightarrow> ('f \<times> mad_player) option"
where
  "mad_read_instruments io = ofold (\<lambda>i (f, s). do {
     mi \<leftarrow> rd (mad_instruments s) i;
     let (_, nm, f) = bio_readString io 8 (mad_name mi) f;
     let (data, f) = read_u8s io 12 f;
     Some (f, s\<lparr>mad_instruments := (mad_instruments s)[i := \<lparr>mad_name = nm, mad_data = data\<rparr>]\<rparr>)
   }) [0..<9]"

definition mad_event :: "u8 \<Rightarrow> mod_event \<Rightarrow> mod_event" where
  "mad_event event e =
     (let e = (if event < 0x61 then e\<lparr>ev_note := event\<rparr> else e);
          e = (if event = 0xFF then e\<lparr>ev_command := 8\<rparr> else e)
      in if event = 0xFE then e\<lparr>ev_command := 13\<rparr> else e)"

definition mad_tracks ::
  "('f, 'fl) binio \<Rightarrow> nat \<Rightarrow> 'f \<times> 'a mod_player_scheme \<Rightarrow> ('f \<times> 'a mod_player_scheme) option"
where
  "mad_tracks io nop = ofold (\<lambda>i. ofold (\<lambda>(k, j) (f, s). do {
     let (event, f) = read_u8 io f;
     s \<leftarrow> mod_put_event (i * 9 + j) k (mad_event event) s;
     Some (f, s)
   }) (List.product [0..<32] [0..<9])) [0..<nop]"

definition mad_orders ::
  "('f, 'fl) binio \<Rightarrow> nat \<Rightarrow> 'f \<times> 'a mod_player_scheme \<Rightarrow> ('f \<times> 'a mod_player_scheme) option"
where
  "mad_orders io n = ofold (\<lambda>i (f, s). do {
     let (v, f) = read_u8 io f;
     s \<leftarrow> mod_put_order i (v - 1) s;
     Some (f, s)
   }) [0..<n]"

definition mad_convert :: "mad_player \<Rightarrow> mad_player option" where
  "mad_convert = ofold (\<lambda>(i, j) s. do {
     mi \<leftarrow> rd (mad_instruments s) i;
     c \<leftarrow> rd mad_conv_inst j;
     d \<leftarrow> rd (mad_data mi) j;
     mod_put_data i c d s
   }) (List.product [0..<9] [0..<10])"

definition mad_rewind :: "int \<Rightarrow> mad_player \<Rightarrow> mad_player option" where
  "mad_rewind subsong s = do {
     s \<leftarrow> mod_rewind subsong s;
     ofold mod_default_instrument [0..<9] s
   }"

definition mad_setup :: "(nat \<Rightarrow> u8) \<Rightarrow> (nat \<Rightarrow> mod_chan) \<Rightarrow> u8 \<Rightarrow> u8 \<Rightarrow> u8 \<Rightarrow> mad_player \<Rightarrow> mad_player option" where
  "mad_setup mem cmem len nop timer s =
     mod_init_trackord (mod_realloc_patterns cmem (unat nop) 32 9
       (mod_realloc_order mem (unat len) (mod_realloc_instruments 9
         (s\<lparr>mod_length := unat len, mod_nop := ucast nop, mad_timer := timer\<rparr>))))"

definition mad_load ::
  "('f, 'fl) binio \<Rightarrow> 'f opener \<Rightarrow> (nat \<Rightarrow> u8) \<Rightarrow> (nat \<Rightarrow> mod_chan) \<Rightarrow> string \<Rightarrow> mad_player \<Rightarrow>
   (bool \<times> mad_player) option"
where
  "mad_load io opn mem cmem filename s =
     (case opn filename of None \<Rightarrow> Some (False, s) | Some f \<Rightarrow> do {
        let (_, ident, f) = bio_readString io 4 (fresh mem 4) f;
        if ident \<noteq> bytes_of ''MAD+'' then Some (False, s)
        else do {
          (f, s) \<leftarrow> mad_read_instruments io (f, s);
          let f = bio_ignore io 1 f;
          let (len, f) = read_u8 io f;
          let (nop, f) = read_u8 io f;
          let (timer, f) = read_u8 io f;
          s \<leftarrow> mad_setup mem cmem len nop timer s;
          (f, s) \<leftarrow> mad_tracks io (unat (mod_nop s)) (f, s);
          (f, s) \<leftarrow> mad_orders io (mod_length s) (f, s);
          s \<leftarrow> mad_convert s;
          s \<leftarrow> mad_rewind 0 (s\<lparr>mod_restartpos := 0, mod_initspeed := 1\<rparr>);
          Some (True, s)
        }
      })"

section \<open>The loader stays in its arrays\<close>

definition mad_arrays :: "mad_player \<Rightarrow> bool" where
  "mad_arrays s \<longleftrightarrow>
     length (mad_instruments s) = 9 \<and>
     (\<forall>i \<in> set (mad_instruments s). length (mad_name i) = 8 \<and> length (mad_data i) = 12)"

lemma mad_read_instruments_ok:
  assumes "stream_laws io P" "P f" "mad_arrays s"
  shows "\<exists>f' ins. mad_read_instruments io (f, s) = Some (f', s\<lparr>mad_instruments := ins\<rparr>) \<and> P f' \<and>
    mad_arrays (s\<lparr>mad_instruments := ins\<rparr>)"
proof -
  let ?I = "\<lambda>(f', s'). P f' \<and> (\<exists>ins. s' = s\<lparr>mad_instruments := ins\<rparr> \<and> mad_arrays (s\<lparr>mad_instruments := ins\<rparr>))"
  have "\<exists>x. mad_read_instruments io (f, s) = Some x \<and> ?I x"
    unfolding mad_read_instruments_def
  proof (rule ofold_invariant)
    have "\<exists>ins. s = s\<lparr>mad_instruments := ins\<rparr> \<and> mad_arrays (s\<lparr>mad_instruments := ins\<rparr>)"
      by (rule exI [of _ "mad_instruments s"]) (use assms(3) in simp)
    then show "?I (f, s)" using assms(2) by simp
    fix i x assume "i \<in> set [0..<9]" and I: "?I x"
    then have i: "i < 9" by simp
    obtain f1 ins where x: "x = (f1, s\<lparr>mad_instruments := ins\<rparr>)" "P f1" and arr: "mad_arrays (s\<lparr>mad_instruments := ins\<rparr>)"
      using I by auto
    have ins: "i < length ins" "length (mad_name (ins ! i)) = 8" using arr i by (auto simp: mad_arrays_def)
    obtain k b f2 where r: "bio_readString io 8 (mad_name (ins ! i)) f1 = (k, b, f2)" by (metis surj_pair)
    have b: "P f2" "length b = 8" using stream_lawsD(3) [OF assms(1) x(2) r] ins(2) by simp_all
    obtain d f3 where d: "read_u8s io 12 f2 = (d, f3)" by fastforce
    have "P f3" "length d = 12" using read_u8s_stream [OF assms(1) b(1) d] length_read_u8s [OF d] by simp_all
    then have "?I (f3, s\<lparr>mad_instruments := ins[i := \<lparr>mad_name = b, mad_data = d\<rparr>]\<rparr>)"
      using arr b(2) by (auto simp: mad_arrays_def dest!: set_update_subset_insert [THEN subsetD])
    moreover have "(\<lambda>(f, s). do {
        mi \<leftarrow> rd (mad_instruments s) i;
        let (_, nm, f) = bio_readString io 8 (mad_name mi) f;
        let (data, f) = read_u8s io 12 f;
        Some (f, s\<lparr>mad_instruments := (mad_instruments s)[i := \<lparr>mad_name = nm, mad_data = data\<rparr>]\<rparr>) }) x =
        Some (f3, s\<lparr>mad_instruments := ins[i := \<lparr>mad_name = b, mad_data = d\<rparr>]\<rparr>)"
      by (simp add: x(1) rd_Some [OF ins(1)] r d del: read_u8s.simps)
    ultimately show "\<exists>y. (\<lambda>(f, s). do {
        mi \<leftarrow> rd (mad_instruments s) i;
        let (_, nm, f) = bio_readString io 8 (mad_name mi) f;
        let (data, f) = read_u8s io 12 f;
        Some (f, s\<lparr>mad_instruments := (mad_instruments s)[i := \<lparr>mad_name = nm, mad_data = data\<rparr>]\<rparr>) }) x =
        Some y \<and> ?I y" by blast
  qed
  then obtain x where x: "mad_read_instruments io (f, s) = Some x" "?I x" by blast
  obtain f' s' where "x = (f', s')" by fastforce
  with x show ?thesis by auto
qed

lemma mad_event_inst: "ev_inst (mad_event v e) = ev_inst e"
  by (simp add: mad_event_def Let_def)

lemma mad_tracks_ok:
  assumes "stream_laws io P" "mod_npats s0 = n" "mod_nchans s0 = 9" "mod_nrows s0 = 32"
  shows "load_op P k m Q s0 (mad_tracks io n)"
  unfolding mad_tracks_def
proof (rule lo.ok_ofold, rule lo.ok_ofold)
  fix i p assume i: "i \<in> set [0..<n]" and "p \<in> set (List.product [0..<32] [0..<9])"
  then obtain a j where p: "p = (a, j)" "a < 32" "j < 9" by auto
  have "i + 1 \<le> n" using i by simp
  then have "(i + 1) * 9 \<le> n * 9" by (rule mult_le_mono1)
  then have t: "i * 9 + j < n * 9" using p(3) by simp
  have "load_op P k m Q s0 (\<lambda>(f, s). Option.bind (mod_put_event (i * 9 + j) a (mad_event v) s) (\<lambda>s. Some (f, s)))" for v
  proof (rule load_op_state)
    fix s assume s: "mod_shape k m Q s" "mod_scalars s = mod_scalars s0"
    show "\<exists>u. mod_put_event (i * 9 + j) a (mad_event v) s = Some u \<and> mod_shape k m Q u \<and> mod_scalars u = mod_scalars s"
      by (rule mod_put_event_ok [OF s(1)]) (use t p(2) assms mod_scalars_eqs(1-3) [OF s(2)] mad_event_inst in simp_all)
  qed
  then show "load_op P k m Q s0 ((\<lambda>(k, j) (f, s). do {
      let (event, f) = read_u8 io f;
      s \<leftarrow> mod_put_event (i * 9 + j) k (mad_event event) s;
      Some (f, s) }) p)"
    unfolding p(1) prod.case Let_def by (intro load_op_read [OF assms(1)])
qed

lemma mad_orders_ok:
  assumes "stream_laws io P" "\<And>os i v. Q os \<Longrightarrow> i < n \<Longrightarrow> i < length os \<and> Q (os[i := v])"
  shows "load_op P k m Q s0 (mad_orders io n)"
  unfolding mad_orders_def
proof (rule lo.ok_ofold)
  fix i assume "i \<in> set [0..<n]"
  then show "load_op P k m Q s0 (\<lambda>(f, s). do {
      let (v, f) = read_u8 io f; s \<leftarrow> mod_put_order i (v - 1) s; Some (f, s) })"
    unfolding Let_def
    using assms(2) by (intro load_op_read [OF assms(1)] load_op_state mod_put_order_ok) simp_all
qed

lemma mad_convert_ok:
  assumes "mad_arrays s" "mod_shape k 9 Q s"
  shows "\<exists>t. mad_convert s = Some t \<and> mod_shape k 9 Q t \<and> mod_scalars t = mod_scalars s"
proof -
  let ?I = "\<lambda>t. mod_shape k 9 Q t \<and> mod_scalars t = mod_scalars s"
  have "\<exists>t. mad_convert s = Some t \<and> ?I t"
    unfolding mad_convert_def
  proof (rule ofold_invariant)
    show "?I s" using assms(2) by simp
    fix p t assume "p \<in> set (List.product [0..<9] [0..<10])" and I: "?I t"
    then obtain i j where p: "p = (i, j)" "i < 9" "j < 10" by auto
    have "mad_instruments t = mad_instruments s"
      using mod_scalars_eqs(13) [of t s] I by (cases t, cases s) simp
    then have d: "i < length (mad_instruments t)" "length (mad_data (mad_instruments t ! i)) = 12"
      using assms(1) p(2) by (auto simp: mad_arrays_def)
    have "length mad_conv_inst = 10" "\<forall>x \<in> set mad_conv_inst. x < 11" by (simp_all add: mad_conv_inst_def)
    then have c: "j < length mad_conv_inst" "mad_conv_inst ! j < 11" using p(3) by simp_all
    show "\<exists>u. (\<lambda>(i, j) s. do {
        mi \<leftarrow> rd (mad_instruments s) i;
        c \<leftarrow> rd mad_conv_inst j;
        d \<leftarrow> rd (mad_data mi) j;
        mod_put_data i c d s }) p t = Some u \<and> ?I u"
      using mod_put_data_ok [of k 9 Q t i "mad_conv_inst ! j" "mad_data (mad_instruments t ! i) ! j"] I p c d
      by (simp add: rd_Some)
  qed
  then show ?thesis by simp
qed

lemma mad_setup_ok:
  assumes "mod_shape 0 m Q s"
  shows "\<exists>t. mad_setup mem cmem len nop timer s = Some t \<and>
    mod_shape 0 9 (\<lambda>os. length os = unat len) t \<and> mod_npats t = unat nop \<and> mod_nrows t = 32 \<and>
    mod_nchans t = 9 \<and> mod_length t = unat len \<and> mod_nop t = ucast nop \<and>
    mod_activechan t = mod_activechan s \<and> mad_instruments t = mad_instruments s"
proof -
  let ?s = "mod_realloc_patterns cmem (unat nop) 32 9 (mod_realloc_order mem (unat len) (mod_realloc_instruments 9
         (s\<lparr>mod_length := unat len, mod_nop := ucast nop, mad_timer := timer\<rparr>)))"
  have "mod_shape 0 m Q (s\<lparr>mod_length := unat len, mod_nop := ucast nop, mad_timer := timer\<rparr>)"
    using assms by (simp add: mod_shape_def)
  then have "mod_shape 0 9 (\<lambda>os. length os = unat len) ?s"
    by (intro mod_realloc_patterns_shape mod_realloc_order_shape [where Q = Q] mod_realloc_instruments_shape [where m = m]) simp_all
  then obtain t where t: "mod_init_trackord ?s = Some t" "mod_shape 0 9 (\<lambda>os. length os = unat len) t"
    "mod_scalars t = mod_scalars ?s" using mod_init_trackord_ok by blast
  note eq = mod_scalars_eqs [OF t(3)]
  have "mad_instruments t = mad_instruments ?s" using eq(13) by (cases t, cases ?s) simp
  then show ?thesis
    using t(1,2) eq(1-4,8,9)
    by (simp add: mad_setup_def mod_realloc_order_def mod_realloc_instruments_def mod_realloc_patterns_def)
qed

lemma mad_rewind_ok:
  assumes "mod_shape 0 9 Q s" "mod_nrows s = 32" "mod_nchans s = 9" "mod_length s = length (mod_order s)"
  shows "\<exists>t. mad_rewind n s = Some t \<and> (mod_orders_ok s \<longrightarrow> mod_ok t) \<and> mod_pre 9 9 t \<and> mod_ord t = 0 \<and>
    mod_rw t = 0 \<and> mod_del t = 0 \<and> mod_order t = mod_order s \<and> mod_length t = mod_length s \<and> mod_npats t = mod_npats s \<and>
    mod_restartpos t = mod_restartpos s \<and> mod_nchans t = 9 \<and> mod_speed t = mod_initspeed s"
proof -
  obtain t where t: "mad_rewind n s = Some t" "mod_orders_ok s \<longrightarrow> mod_ok t" "mod_pre 9 9 t" "mod_ord t = 0" "mod_rw t = 0"
    "mod_del t = 0" "mod_speed t = mod_initspeed s" "mod_frame (t\<lparr>mod_nop := mod_nop s\<rparr>) = mod_frame s"
    using mod_rewind_defaults [OF assms(1), of 9 n] assms(2-4) by (auto simp: mad_rewind_def)
  then show ?thesis using mod_frame_eqs [OF t(8)] assms(3) by simp
qed

text \<open>What an accepted module is, by the order list that was read.\<close>

definition mad_loaded :: "mad_player \<Rightarrow> bool" where
  "mad_loaded t \<longleftrightarrow> mod_length t = length (mod_order t) \<and> mod_restartpos t = 0 \<and> mod_ord t = 0 \<and> mod_rw t = 0 \<and>
     (mod_length t = 0 \<longrightarrow> mod_update t = None) \<and> (mod_orders_ok t \<longrightarrow> mod_ok t)"

lemma mad_load_signed:
  assumes "stream_laws io P" "P f" "mod_construct mem0 cmem0 chip s0 = Some s" "mad_arrays s" "opn filename = Some f"
    "bio_readString io 4 (fresh mem 4) f = (k, bytes_of ''MAD+'', f1)"
    "mad_read_instruments io (f1, s) = Some (f2, r)" "read_u8 io (bio_ignore io 1 f2) = (len, f3)"
  shows "\<exists>t. mad_load io opn mem cmem filename s = Some (True, t) \<and> mod_length t = unat len \<and> mad_loaded t"
proof -
  have P1: "P f1" using stream_lawsD(3) [OF assms(1,2,6)] by simp
  obtain ins where i: "mad_read_instruments io (f1, s) = Some (f2, s\<lparr>mad_instruments := ins\<rparr>)" "P f2"
    "mad_arrays (s\<lparr>mad_instruments := ins\<rparr>)"
    using mad_read_instruments_ok [OF assms(1) P1 assms(4)] assms(7) by auto
  let ?s1 = "s\<lparr>mad_instruments := ins\<rparr>"
  have P3: "P (bio_ignore io 1 f2)" by (rule stream_lawsD(9) [OF assms(1) i(2)])
  note f3 = assms(8)
  obtain nop f4 where f4: "read_u8 io f3 = (nop, f4)" by fastforce
  obtain timer f5 where f5: "read_u8 io f4 = (timer, f5)" by fastforce
  have P5: "P f5" by (rule read_u8_stream [OF assms(1) read_u8_stream [OF assms(1) read_u8_stream [OF assms(1) P3 f3] f4] f5])
  have "mod_shape 0 250 (\<lambda>os. length os = 128) ?s1"
    using mod_construct_ok(1) [OF assms(3)] by (simp add: mod_shape_def)
  then obtain s2 where s2: "mad_setup mem cmem len nop timer ?s1 = Some s2"
    "mod_shape 0 9 (\<lambda>os. length os = unat len) s2" "mod_npats s2 = unat nop" "mod_nrows s2 = 32"
    "mod_nchans s2 = 9" "mod_length s2 = unat len" "mod_nop s2 = ucast nop" "mad_instruments s2 = ins"
    using mad_setup_ok by fastforce
  let ?Q = "\<lambda>os :: bytes. length os = unat len"
  have nop: "unat (mod_nop s2) = unat nop" by (simp only: s2(7) unat_ucast_u16)
  have pre2: "load_pre P 0 9 ?Q s2 (f5, s2)" using P5 s2(2) by (simp add: load_pre_def)
  obtain f6 s3 where s3: "mad_tracks io (unat nop) (f5, s2) = Some (f6, s3)" "load_pre P 0 9 ?Q s2 (f6, s3)"
    using op_okD [OF mad_tracks_ok [OF assms(1) s2(3,5,4)] pre2] by (metis surj_pair)
  have "load_op P 0 9 ?Q s2 (mad_orders io (unat len))" by (rule mad_orders_ok [OF assms(1)]) simp
  from op_okD [OF this s3(2)]
  obtain f7 s4 where s4: "mad_orders io (unat len) (f6, s3) = Some (f7, s4)" "mod_shape 0 9 ?Q s4"
    "mod_scalars s4 = mod_scalars s2" by (auto simp: load_pre_def)
  have len3: "mod_length s3 = unat len"
    using mod_scalars_eqs(4) [of s3 s2] s3(2) s2(6) by (simp add: load_pre_def)
  have "mad_instruments s4 = ins" using mod_scalars_eqs(13) [OF s4(3)] s2(8) by (cases s4, cases s2) simp
  then have "mad_arrays s4" using i(3) by (simp add: mad_arrays_def)
  then obtain s5 where s5: "mad_convert s4 = Some s5" "mod_shape 0 9 ?Q s5" "mod_scalars s5 = mod_scalars s2"
    using mad_convert_ok [OF _ s4(2)] s4(3) by auto
  note eq5 = mod_scalars_eqs [OF s5(3)]
  let ?s6 = "s5\<lparr>mod_restartpos := 0, mod_initspeed := 1\<rparr>"
  have sh6: "mod_shape 0 9 ?Q ?s6" using s5(2) by (simp add: mod_shape_def)
  have len6: "mod_length ?s6 = length (mod_order ?s6)" using s5(2) eq5(4) s2(6) by (simp add: mod_shape_def)
  obtain t where t: "mad_rewind 0 ?s6 = Some t" "mod_orders_ok ?s6 \<longrightarrow> mod_ok t" "mod_pre 9 9 t" "mod_ord t = 0"
    "mod_rw t = 0" "mod_del t = 0" "mod_order t = mod_order s5" "mod_length t = mod_length s5"
    "mod_npats t = mod_npats s5" "mod_restartpos t = 0" "mod_nchans t = 9"
    "mod_speed t = 1" using mad_rewind_ok [OF sh6 _ _ len6, of 0] eq5(2,3) s2(4,5) by auto
  have "mad_load io opn mem cmem filename s = Some (True, t)"
    using assms(5,6) i(1) f3 f4 f5 s2(1) s3(1) s4(1) s5(1) t(1) nop len3 by (simp add: mad_load_def)
  moreover have "mod_length t = 0 \<longrightarrow> mod_update t = None"
    using mod_empty_list_faults [OF t(3)] t(6-8,10-12) len6 by (auto simp: rd_def)
  moreover have "mod_orders_ok t = mod_orders_ok ?s6"
    using t(7-10) by (simp add: mod_orders_ok_def)
  moreover have "mod_ok t \<Longrightarrow> \<exists>n s1 s2. play mod_update n t = Some s1 \<and> mod_update s1 = Some (False, s2)"
    by (rule mod_contract.reaches_end)
  moreover have "mod_length t = unat len" using t(8) eq5(4) s2(6) by simp
  ultimately show ?thesis using t len6 by (auto simp: mad_loaded_def)
qed

text \<open>C37: \<open>CmadLoader::load\<close> returns for every file, within its arrays, and accepts exactly the files that can be
  opened and start with its signature. The accepted module stands at its start; if the entries of its order list name
  existing patterns or are jumps that end within the list, it is well formed and plays to its end; if the list is
  empty, its first update reads outside it.\<close>

theorem mad_load_playable:
  assumes "stream_laws io P" "\<And>f. opn filename = Some f \<Longrightarrow> P f" "mod_construct mem0 cmem0 chip s0 = Some s"
    "mad_arrays s"
  shows "\<exists>b t. mad_load io opn mem cmem filename s = Some (b, t) \<and>
    b = (\<exists>f. opn filename = Some f \<and> fst (snd (bio_readString io 4 (fresh mem 4) f)) = bytes_of ''MAD+'') \<and>
    (b \<longrightarrow> mod_length t = length (mod_order t) \<and> mod_restartpos t = 0 \<and> mod_ord t = 0 \<and> mod_rw t = 0 \<and>
      (mod_length t = 0 \<longrightarrow> mod_update t = None) \<and>
      (mod_orders_ok t \<longrightarrow> mod_ok t \<and> (\<exists>n s1 s2. play mod_update n t = Some s1 \<and> mod_update s1 = Some (False, s2))))"
proof (cases "opn filename")
  case None
  then show ?thesis by (auto simp: mad_load_def)
next
  case (Some f)
  obtain k ident f1 where f1: "bio_readString io 4 (fresh mem 4) f = (k, ident, f1)" by (metis surj_pair)
  have P1: "P f1" using stream_lawsD(3) [OF assms(1) assms(2) [OF Some] f1] by simp
  show ?thesis
  proof (cases "ident = bytes_of ''MAD+''")
    case False
    then show ?thesis using Some f1 by (auto simp: mad_load_def)
  next
    case True
    obtain f2 r where i: "mad_read_instruments io (f1, s) = Some (f2, r)"
      using mad_read_instruments_ok [OF assms(1) P1 assms(4)] by blast
    obtain len f3 where f3: "read_u8 io (bio_ignore io 1 f2) = (len, f3)" by fastforce
    obtain t where t: "mad_load io opn mem cmem filename s = Some (True, t)" "mad_loaded t"
      using mad_load_signed [where opn = opn and filename = filename and mem = mem and f = f, OF assms(1) assms(2) [OF Some] assms(3,4) Some f1 [unfolded True] i f3] by blast
    moreover have "mod_ok t \<Longrightarrow> \<exists>n s1 s2. play mod_update n t = Some s1 \<and> mod_update s1 = Some (False, s2)"
      by (rule mod_contract.reaches_end)
    ultimately show ?thesis using Some f1 True by (intro exI [of _ True] exI [of _ t]) (simp add: mad_loaded_def)
  qed
qed

text \<open>The instruments of a file: nine of 20 bytes.\<close>

lemma mad_read_instruments_rest:
  assumes "ms_rest g = ins @ r" "length ins = 180" "mad_arrays s"
  shows "\<exists>h t. mad_read_instruments memio (g, s) = Some (h, t) \<and> ms_rest h = r"
proof -
  let ?I = "\<lambda>i (h, t). ms_rest h = drop (i * 20) ins @ r \<and> mad_arrays t"
  have "\<exists>x. mad_read_instruments memio (g, s) = Some x \<and> ?I 9 x"
    unfolding mad_read_instruments_def
  proof (rule ofold_upt_invariant [where P = ?I])
    show "?I 0 (g, s)" using assms by simp
    fix i and x :: "memstream \<times> mad_player"
    assume i: "i < 9" and I: "?I i x"
    obtain h t where x: "x = (h, t)" by fastforce
    let ?a = "take 8 (drop (i * 20) ins)" and ?b = "take 12 (drop (i * 20 + 8) ins)" and ?c = "drop (Suc i * 20) ins"
    have len: "length ?a = 8" "length ?b = 12" using assms(2) i by simp_all
    have "drop (i * 20) ins = ?a @ drop 8 (drop (i * 20) ins)" by (rule append_take_drop_id [symmetric])
    also have "drop 8 (drop (i * 20) ins) = drop (i * 20 + 8) ins" by (simp add: add.commute)
    also have "\<dots> = ?b @ drop 12 (drop (i * 20 + 8) ins)" by (rule append_take_drop_id [symmetric])
    also have "drop 12 (drop (i * 20 + 8) ins) = ?c" by (simp add: add.commute add.left_commute)
    finally have rest: "ms_rest h = ?a @ ?b @ ?c @ r" using I x by simp
    have nm: "i < length (mad_instruments t)" "length (mad_name (mad_instruments t ! i)) = 8"
      using I x i by (auto simp: mad_arrays_def)
    obtain h1 where h1: "bio_readString memio 8 (mad_name (mad_instruments t ! i)) h = (8, ?a, h1)" "ms_rest h1 = ?b @ ?c @ r"
      using read_string_rest [OF rest len(1) nm(2)] by blast
    obtain h2 where h2: "read_u8s memio 12 h1 = (?b, h2)" "ms_rest h2 = ?c @ r"
      using read_u8s_rest [OF h1(2)] len(2) by auto
    have "mad_arrays (t\<lparr>mad_instruments := (mad_instruments t)[i := \<lparr>mad_name = ?a, mad_data = ?b\<rparr>]\<rparr>)"
      using I x len by (auto simp: mad_arrays_def dest!: set_update_subset_insert [THEN subsetD])
    then show "\<exists>y. (\<lambda>(f, s). do {
        mi \<leftarrow> rd (mad_instruments s) i;
        let (_, nm, f) = bio_readString memio 8 (mad_name mi) f;
        let (data, f) = read_u8s memio 12 f;
        Some (f, s\<lparr>mad_instruments := (mad_instruments s)[i := \<lparr>mad_name = nm, mad_data = data\<rparr>]\<rparr>) }) x = Some y \<and> ?I (Suc i) y"
      using h1(1) h2 x nm(1) by (simp add: rd_Some del: read_u8s.simps)
  qed
  then show ?thesis using assms(2) by auto
qed

text \<open>C38: Every file with the signature whose order list is empty, whatever its instruments, patterns and the rest, is
  accepted, and its first update reads outside the order list.\<close>

theorem mad_empty_list_faults:
  assumes "mod_construct mem0 cmem0 chip s0 = Some s" "mad_arrays s" "length ins = 180"
    "length (bytes_of ''MAD+'' @ ins @ [pad, 0, nop, timer] @ rest) < 2 ^ 63"
  shows "\<exists>t. mad_load memio (\<lambda>_. Some (mem_file (bytes_of ''MAD+'' @ ins @ [pad, 0, nop, timer] @ rest))) mem cmem filename s =
      Some (True, t) \<and> mod_length t = 0 \<and> mod_order t = [] \<and> mod_ord t = 0 \<and> mod_update t = None"
proof -
  let ?bs = "bytes_of ''MAD+'' @ ins @ [pad, 0, nop, timer] @ rest"
  have start: "ms_rest (mem_file ?bs) = bytes_of ''MAD+'' @ ins @ [pad, 0, nop, timer] @ rest"
    by (simp add: ms_rest_def mem_file_def)
  obtain g1 where g1: "bio_readString memio 4 (fresh mem 4) (mem_file ?bs) = (4, bytes_of ''MAD+'', g1)"
    "ms_rest g1 = ins @ [pad, 0, nop, timer] @ rest"
    using read_string_rest [OF start, of 4 "fresh mem 4"] by (auto simp: bytes_of_def)
  obtain g2 r where g2: "mad_read_instruments memio (g1, s) = Some (g2, r)" "ms_rest g2 = pad # 0 # nop # timer # rest"
    using mad_read_instruments_rest [OF g1(2) assms(3,2)] by auto
  have "ms_rest (bio_ignore memio 1 g2) = 0 # nop # timer # rest"
    using ms_advance_rest [of g2 "[pad]"] g2(2) by (simp add: memio_def)
  then obtain g3 where g3: "read_u8 memio (bio_ignore memio 1 g2) = (0, g3)" using read_u8_rest by blast
  have "mem_ok ?bs (mem_file ?bs)" by (rule mem_file_ok [OF assms(4)])
  from mad_load_signed [where opn = "\<lambda>_. Some (mem_file ?bs)" and filename = filename and mem = mem and cmem = cmem
      and f = "mem_file ?bs", OF mem_stream_laws this assms(1,2) refl g1(1) g2(1) g3]
  obtain t where "mad_load memio (\<lambda>_. Some (mem_file ?bs)) mem cmem filename s = Some (True, t)" "mod_length t = 0" "mad_loaded t"
    by auto
  then show ?thesis by (auto simp: mad_loaded_def)
qed

text \<open>A constructed player, a file that holds nothing but its signature, and one with an empty order list.\<close>

definition mad_raw :: mad_player where
  "mad_raw = mod_player.extend mod_raw \<lparr>mad_instruments = replicate 9 \<lparr>mad_name = replicate 8 0, mad_data = replicate 12 0\<rparr>,
     mad_timer = 0\<rparr>"

lemma mad_raw_constructed: "\<exists>s. mod_construct (\<lambda>_. 0) (\<lambda>_. zero_chan) 0 mad_raw = Some s \<and> mad_arrays s"
  by (auto simp: mod_construct_def mod_init_notetable_def sa2_notetable_def mod_realloc_instruments_def
      mod_realloc_patterns_def mod_realloc_order_def mad_raw_def mod_raw_def mod_player.defs mad_arrays_def)

lemma mad_load_playable_witness:
  "\<exists>s t. mod_construct (\<lambda>_. 0) (\<lambda>_. zero_chan) 0 mad_raw = Some s \<and>
    mad_load memio (\<lambda>_. Some (mem_file (bytes_of ''MAD+''))) (\<lambda>_. 0) (\<lambda>_. zero_chan) ''a.mad'' s = Some (True, t) \<and>
    mod_length t = length (mod_order t) \<and> (mod_length t = 0 \<longrightarrow> mod_update t = None)"
proof -
  obtain s where s: "mod_construct (\<lambda>_. 0) (\<lambda>_. zero_chan) 0 mad_raw = Some s" "mad_arrays s" using mad_raw_constructed by blast
  have len: "length (bytes_of ''MAD+'') < 2 ^ 63" by (simp add: bytes_of_def)
  have sig: "fst (snd (bio_readString memio 4 (fresh (\<lambda>_. 0) 4) (mem_file (bytes_of ''MAD+'')))) = bytes_of ''MAD+''"
    by (simp add: memio_def mem_file_def ms_rest_def bytes_of_def)
  then show ?thesis
    using mad_load_playable [OF mem_stream_laws [of "bytes_of ''MAD+''"] _ s,
        of "\<lambda>_. Some (mem_file (bytes_of ''MAD+''))" "''a.mad''" "\<lambda>_. 0" "\<lambda>_. zero_chan"] s(1) len
    by auto
qed

lemma mad_empty_list_faults_witness:
  "\<exists>s t. mod_construct (\<lambda>_. 0) (\<lambda>_. zero_chan) 0 mad_raw = Some s \<and>
    mad_load memio (\<lambda>_. Some (mem_file (bytes_of ''MAD+'' @ replicate 180 1 @ [0, 0, 1, 50] @ replicate 288 0))) (\<lambda>_. 0) (\<lambda>_. zero_chan)
      ''a.mad'' s = Some (True, t) \<and> mod_update t = None"
proof -
  obtain s where s: "mod_construct (\<lambda>_. 0) (\<lambda>_. zero_chan) 0 mad_raw = Some s" "mad_arrays s" using mad_raw_constructed by blast
  have "length (bytes_of ''MAD+'' @ replicate 180 1 @ [0, 0, 1, 50] @ replicate 288 0) < 2 ^ 63" by (simp add: bytes_of_def)
  then show ?thesis using mad_empty_list_faults [OF s length_replicate] s(1) by blast
qed

end
