(* ===== verification/Fmc.thy ===== *)
theory Fmc
  imports Modload Adtrack
begin

text \<open>
  \<open>src/fmc.cpp\<close>: the loader for Faust Music Creator modules, with 1 to 32 channels; the order list is
  checked up to its end marker, but may be empty.
\<close>

section \<open>Loading\<close>

record fmc_operator =
  fo_attack :: u8
  fo_decay :: u8
  fo_sustain :: u8
  fo_release :: u8
  fo_volume :: u8
  fo_ksl :: u8
  fo_freq_multi :: u8
  fo_waveform :: u8
  fo_sustain_sound :: u8
  fo_ksr :: u8
  fo_vibrato :: u8
  fo_tremolo :: u8

record fmc_instrument =
  fi_synthesis :: u8
  fi_feedback :: u8
  fi_mod :: fmc_operator
  fi_car :: fmc_operator
  fi_pitch_shift :: int
  fi_name :: bytes

record fmc_player = mod_player +
  fmc_id :: bytes
  fmc_title :: bytes
  fmc_numchan :: u8
  fmc_instruments :: "fmc_instrument list"

definition fmc_conv_fx :: "u8 list" where
  "fmc_conv_fx = [0, 1, 2, 3, 4, 8, 255, 255, 255, 255, 26, 11, 12, 13, 14, 15]"

definition fmc_read_operator :: "('f, 'fl) binio \<Rightarrow> 'f \<Rightarrow> fmc_operator \<times> 'f" where
  "fmc_read_operator io f =
     (let (a, f) = read_u8 io f; (d, f) = read_u8 io f; (s, f) = read_u8 io f; (r, f) = read_u8 io f;
          (v, f) = read_u8 io f; (k, f) = read_u8 io f; (m, f) = read_u8 io f; (w, f) = read_u8 io f;
          (ss, f) = read_u8 io f; (ks, f) = read_u8 io f; (vib, f) = read_u8 io f; (tr, f) = read_u8 io f
      in (\<lparr>fo_attack = a, fo_decay = d, fo_sustain = s, fo_release = r, fo_volume = v, fo_ksl = k,
           fo_freq_multi = m, fo_waveform = w, fo_sustain_sound = ss, fo_ksr = ks, fo_vibrato = vib,
           fo_tremolo = tr\<rparr>, f))"

definition fmc_read_instruments ::
  "('f, 'fl) binio \<Rightarrow> 'f \<times> fmc_player \<Rightarrow> ('f \<times> fmc_player) option"
where
  "fmc_read_instruments io = ofold (\<lambda>i (f, s). do {
     fi \<leftarrow> rd (fmc_instruments s) i;
     let (syn, f) = read_u8 io f;
     let (fb, f) = read_u8 io f;
     let (md, f) = fmc_read_operator io f;
     let (car, f) = fmc_read_operator io f;
     let (ps, f) = read_u8 io f;
     let (_, nm, f) = bio_readString io 21 (fi_name fi) f;
     nm \<leftarrow> wr nm 20 0;
     Some (f, s\<lparr>fmc_instruments := (fmc_instruments s)[i := \<lparr>fi_synthesis = syn, fi_feedback = fb, fi_mod = md,
                  fi_car = car, fi_pitch_shift = to_s8 (uint ps), fi_name = nm\<rparr>]\<rparr>)
   }) [0..<32]"

text \<open>One event and the effects the engine wants in another form.\<close>

definition fmc_fix_effect :: "mod_event \<Rightarrow> mod_event" where
  "fmc_fix_effect e =
     (let e = (if ev_command e = 0x0E then e\<lparr>ev_param1 := 3\<rparr> else e)
      in if ev_command e = 0x1A then
           (if ev_param1 e > ev_param2 e then e\<lparr>ev_param1 := ev_param1 e - ev_param2 e, ev_param2 := 0\<rparr>
            else e\<lparr>ev_param2 := ev_param2 e - ev_param1 e, ev_param1 := 0\<rparr>)
         else e)"

definition fmc_event ::
  "('f, 'fl) binio \<Rightarrow> nat \<Rightarrow> nat \<Rightarrow> 'f \<times> 'a mod_player_scheme \<Rightarrow> ('f \<times> 'a mod_player_scheme) option"
where
  "fmc_event io t k = (\<lambda>(f, s). do {
     let (b0, f) = read_u8 io f;
     let (b1, f) = read_u8 io f;
     let (b2, f) = read_u8 io f;
     fx \<leftarrow> rd fmc_conv_fx (unat (b1 AND 0x0F));
     s \<leftarrow> mod_put_event t k (\<lambda>_. fmc_fix_effect
            \<lparr>ev_note = b0 AND 0x7F, ev_command = fx, ev_inst = drop_bit 3 (b0 AND 0x80) + drop_bit 4 b1 + 1,
             ev_param2 = b2 AND 0x0F, ev_param1 = drop_bit 4 b2\<rparr>) s;
     Some (f, s)
   })"

text \<open>The tracks, pattern by pattern while the file lasts; the result counts them.\<close>

fun fmc_tracks ::
  "('f, 'fl) binio \<Rightarrow> nat \<Rightarrow> nat \<Rightarrow> nat \<Rightarrow> 'f \<times> 'a mod_player_scheme \<Rightarrow> (nat \<times> 'f \<times> 'a mod_player_scheme) option"
where
  "fmc_tracks io numchan 0 t (f, s) = Some (t, f, s)"
| "fmc_tracks io numchan (Suc n) t (f, s) =
     (if bio_ateof io f then Some (t, f, s)
      else do {
        (f, s) \<leftarrow> ofold (\<lambda>(j, k). fmc_event io (t + j) k) (List.product [0..<numchan] [0..<64]) (f, s);
        fmc_tracks io numchan n (t + numchan) (f, s)
      })"

text \<open>\<open>buildinst\<close>: the eleven register bytes.\<close>

definition fmc_bytes :: "fmc_instrument \<Rightarrow> (nat \<times> u8) list" where
  "fmc_bytes fi =
     (let md = fi_mod fi; car = fi_car fi;
          char = (\<lambda>p. (fo_freq_multi p AND 15) OR push_bit 5 (fo_sustain_sound p AND 1) OR push_bit 4 (fo_ksr p AND 1) OR
                     push_bit 6 (fo_vibrato p AND 1) OR push_bit 7 (fo_tremolo p AND 1));
          level = (\<lambda>p. (63 - (fo_volume p AND 63)) OR push_bit 6 (fo_ksl p AND 3));
          ad = (\<lambda>p. push_bit 4 (fo_attack p AND 15) OR (fo_decay p AND 15));
          sr = (\<lambda>p. push_bit 4 (15 - (fo_sustain p AND 15)) OR (fo_release p AND 15))
      in [(0, ((fi_synthesis fi AND 1) XOR 1) OR push_bit 1 (fi_feedback fi AND 7)),
          (3, ad md), (5, sr md), (9, level md), (1, char md), (7, fo_waveform md AND 3),
          (4, ad car), (6, sr car), (10, level car), (2, char car), (8, fo_waveform car AND 3)])"

definition fmc_buildinst :: "nat \<Rightarrow> fmc_player \<Rightarrow> fmc_player option" where
  "fmc_buildinst i s = do {
     fi \<leftarrow> rd (fmc_instruments s) i;
     s \<leftarrow> ofold (\<lambda>(j, v). mod_put_data i j v) (fmc_bytes fi) s;
     mod_put_inst i (mi_slide_update (\<lambda>_. fi_pitch_shift fi)) s
   }"

text \<open>The length of the order list, and whether all its entries name a pattern.\<close>

fun fmc_length :: "bytes \<Rightarrow> u16 \<Rightarrow> nat list \<Rightarrow> (bool \<times> nat) option" where
  "fmc_length os nop [] = Some (True, 256)"
| "fmc_length os nop (i # is) = do {
     e \<leftarrow> rd os i;
     if e \<ge> 0xFE then Some (True, i)
     else if ucast e \<ge> nop then Some (False, i)
     else fmc_length os nop is
   }"

definition fmc_setup :: "(nat \<Rightarrow> u8) \<Rightarrow> (nat \<Rightarrow> mod_chan) \<Rightarrow> fmc_player \<Rightarrow> fmc_player option" where
  "fmc_setup mem cmem s =
     mod_init_trackord (mod_realloc_patterns cmem 64 64 (unat (fmc_numchan s))
       (mod_realloc_order mem 256 (mod_realloc_instruments 32 s)))"

definition fmc_finish :: "nat \<Rightarrow> fmc_player \<Rightarrow> (bool \<times> fmc_player) option" where
  "fmc_finish t s = do {
     s \<leftarrow> ofold fmc_buildinst [0..<31] s;
     let n = unat (fmc_numchan s);
     let s = s\<lparr>mod_activechan := 0xffffffff div 2 ^ (32 - n) * 2 ^ (32 - n), mod_nop := of_nat (t div n)\<rparr>;
     if mod_nop s = 0 then Some (False, s)
     else do {
       (ok, len) \<leftarrow> fmc_length (mod_order s) (mod_nop s) [0..<256];
       let s = s\<lparr>mod_restartpos := 0, mod_length := len\<rparr>;
       if \<not> ok then Some (False, s)
       else do {
         s \<leftarrow> mod_rewind 0 (s\<lparr>mod_flags := mod_flag_bit Faust\<rparr>);
         Some (True, s)
       }
     }
   }"

definition fmc_load ::
  "('f, 'fl) binio \<Rightarrow> 'f opener \<Rightarrow> (nat \<Rightarrow> u8) \<Rightarrow> (nat \<Rightarrow> mod_chan) \<Rightarrow> string \<Rightarrow> fmc_player \<Rightarrow>
   (bool \<times> fmc_player) option"
where
  "fmc_load io opn mem cmem filename s =
     (case opn filename of None \<Rightarrow> Some (False, s) | Some f \<Rightarrow> do {
        let (_, ident, f) = bio_readString io 4 (fmc_id s) f;
        let (_, title, f) = bio_readString io 21 (fmc_title s) f;
        title \<leftarrow> wr title 20 0;
        let (numchan, f) = read_u8 io f;
        let s = s\<lparr>fmc_id := ident, fmc_title := title, fmc_numchan := numchan\<rparr>;
        if ident \<noteq> bytes_of ''FMC!'' \<or> numchan < 1 \<or> numchan > 32 then Some (False, s)
        else do {
          s \<leftarrow> fmc_setup mem cmem s;
          (f, s) \<leftarrow> mod_read_orders io 256 (f, s);
          (f, s) \<leftarrow> fmc_read_instruments io (bio_ignore io 2 f, s);
          (t, f, s) \<leftarrow> fmc_tracks io (unat numchan) 64 0 (f, s);
          fmc_finish t s
        }
      })"

section \<open>The loader stays in its arrays\<close>

definition fmc_arrays :: "fmc_player \<Rightarrow> bool" where
  "fmc_arrays s \<longleftrightarrow>
     length (fmc_id s) = 4 \<and> length (fmc_title s) = 21 \<and> length (fmc_instruments s) = 32 \<and>
     (\<forall>i \<in> set (fmc_instruments s). length (fi_name i) = 21)"

lemma fmc_read_operator_stream:
  assumes "stream_laws io P" "P f" "fmc_read_operator io f = (p, g)"
  shows "P g"
  using assms(2,3) unfolding fmc_read_operator_def Let_def
  by (auto split: prod.splits dest!: read_u8_stream [OF assms(1), rotated])

lemma fmc_read_instruments_ok:
  assumes "stream_laws io P" "P f" "fmc_arrays s"
  shows "\<exists>f' ins. fmc_read_instruments io (f, s) = Some (f', s\<lparr>fmc_instruments := ins\<rparr>) \<and> P f' \<and>
    fmc_arrays (s\<lparr>fmc_instruments := ins\<rparr>)"
proof -
  let ?I = "\<lambda>(f', s'). P f' \<and> (\<exists>ins. s' = s\<lparr>fmc_instruments := ins\<rparr> \<and> fmc_arrays (s\<lparr>fmc_instruments := ins\<rparr>))"
  have "\<exists>x. fmc_read_instruments io (f, s) = Some x \<and> ?I x"
    unfolding fmc_read_instruments_def
  proof (rule ofold_invariant)
    have "\<exists>ins. s = s\<lparr>fmc_instruments := ins\<rparr> \<and> fmc_arrays (s\<lparr>fmc_instruments := ins\<rparr>)"
      by (rule exI [of _ "fmc_instruments s"]) (use assms(3) in simp)
    then show "?I (f, s)" using assms(2) by simp
    fix i x assume "i \<in> set [0..<32]" and I: "?I x"
    then have i: "i < 32" by simp
    obtain f1 ins where x: "x = (f1, s\<lparr>fmc_instruments := ins\<rparr>)" "P f1" and arr: "fmc_arrays (s\<lparr>fmc_instruments := ins\<rparr>)"
      using I by auto
    have ins: "i < length ins" "length (fi_name (ins ! i)) = 21" using arr i by (auto simp: fmc_arrays_def)
    obtain syn f2 where f2: "read_u8 io f1 = (syn, f2)" by fastforce
    obtain fb f3 where f3: "read_u8 io f2 = (fb, f3)" by fastforce
    obtain md f4 where f4: "fmc_read_operator io f3 = (md, f4)" by fastforce
    obtain car f5 where f5: "fmc_read_operator io f4 = (car, f5)" by fastforce
    obtain ps f6 where f6: "read_u8 io f5 = (ps, f6)" by fastforce
    obtain k b f7 where f7: "bio_readString io 21 (fi_name (ins ! i)) f6 = (k, b, f7)" by (metis surj_pair)
    have "P f3" using read_u8_stream [OF assms(1) read_u8_stream [OF assms(1) x(2) f2] f3] .
    then have "P f5" using fmc_read_operator_stream [OF assms(1) fmc_read_operator_stream [OF assms(1) _ f4] f5] by blast
    then have "P f6" by (rule read_u8_stream [OF assms(1) _ f6])
    then have b: "P f7" "length b = 21" using stream_lawsD(3) [OF assms(1) _ f7] ins(2) by simp_all
    let ?fi = "\<lparr>fi_synthesis = syn, fi_feedback = fb, fi_mod = md, fi_car = car,
      fi_pitch_shift = to_s8 (uint ps), fi_name = b[20 := 0]\<rparr>"
    have "?I (f7, s\<lparr>fmc_instruments := ins[i := ?fi]\<rparr>)"
      using arr b by (auto simp: fmc_arrays_def dest!: set_update_subset_insert [THEN subsetD])
    then show "\<exists>y. (\<lambda>(f, s). do {
       fi \<leftarrow> rd (fmc_instruments s) i;
       let (syn, f) = read_u8 io f;
       let (fb, f) = read_u8 io f;
       let (md, f) = fmc_read_operator io f;
       let (car, f) = fmc_read_operator io f;
       let (ps, f) = read_u8 io f;
       let (_, nm, f) = bio_readString io 21 (fi_name fi) f;
       nm \<leftarrow> wr nm 20 0;
       Some (f, s\<lparr>fmc_instruments := (fmc_instruments s)[i := \<lparr>fi_synthesis = syn, fi_feedback = fb, fi_mod = md,
                    fi_car = car, fi_pitch_shift = to_s8 (uint ps), fi_name = nm\<rparr>]\<rparr>) }) x = Some y \<and> ?I y"
      using f2 f3 f4 f5 f6 f7 ins(1) b(2) by (intro exI [of _ "(f7, s\<lparr>fmc_instruments := ins[i := ?fi]\<rparr>)"])
        (simp add: x(1) rd_Some wr_Some)
  qed
  then obtain x where x: "fmc_read_instruments io (f, s) = Some x" "?I x" by blast
  obtain f' s' where "x = (f', s')" by fastforce
  with x show ?thesis by auto
qed

lemma fmc_inst_bound: "unat (drop_bit 3 ((b0 :: u8) AND 0x80) + drop_bit 4 (b1 :: u8) + 1) \<le> 32"
proof -
  have "unat (drop_bit 3 (b0 AND 0x80)) = unat (b0 AND 0x80) div 8"
    by (simp only: unat_drop_bit_eq) (simp add: drop_bit_eq_div)
  moreover have "b0 AND 0x80 \<le> 0x80" by (rule word_and_le1)
  then have "unat (b0 AND 0x80) \<le> 128" by (simp add: word_le_nat_alt)
  ultimately have a: "unat (drop_bit 3 (b0 AND 0x80)) \<le> 16" by linarith
  have "unat (drop_bit 4 b1) = unat b1 div 16" by (simp only: unat_drop_bit_eq) (simp add: drop_bit_eq_div)
  then have b: "unat (drop_bit 4 b1) \<le> 15" using unat_u8_bound(1) [of b1] by linarith
  have add: "unat (x + y) \<le> unat x + unat y" for x y :: u8 by (simp add: unat_word_ariths mod_less_eq_dividend)
  show ?thesis
    using a b add [of "drop_bit 3 (b0 AND 0x80) + drop_bit 4 b1" 1] add [of "drop_bit 3 (b0 AND 0x80)" "drop_bit 4 b1"]
    by (simp only: unsigned_1)
qed

lemma fmc_fix_inst: "ev_inst (fmc_fix_effect e) = ev_inst e"
  by (simp add: fmc_fix_effect_def Let_def)

lemma fmc_fx_index: "unat ((c :: u8) AND 0x0F) < length fmc_conv_fx"
proof -
  have "c AND 0x0F \<le> 0x0F" by (rule word_and_le1)
  then show ?thesis by (simp add: fmc_conv_fx_def word_le_nat_alt)
qed

lemma fmc_event_ok:
  assumes "stream_laws io P" "t < mod_npats s0 * mod_nchans s0" "k < mod_nrows s0"
  shows "load_op P 32 m Q s0 (fmc_event io t k)"
proof -
  have put: "load_op P 32 m Q s0 (\<lambda>(f, s). Option.bind (mod_put_event t k g s) (\<lambda>s. Some (f, s)))"
    if "\<And>e. unat (ev_inst (g e)) \<le> 32" for g
  proof (rule load_op_state)
    fix s assume s: "mod_shape 32 m Q s" "mod_scalars s = mod_scalars s0"
    show "\<exists>u. mod_put_event t k g s = Some u \<and> mod_shape 32 m Q u \<and> mod_scalars u = mod_scalars s"
      by (rule mod_put_event_ok [OF s(1)]) (use assms that mod_scalars_eqs(1-3) [OF s(2)] in simp_all)
  qed
  show ?thesis
    unfolding fmc_event_def Let_def
    by (intro load_op_read [OF assms(1)] load_op_rd fmc_fx_index put)
       (simp only: fmc_fix_inst mod_event.select_convs fmc_inst_bound)
qed

lemma fmc_tracks_ok:
  assumes "stream_laws io P" "mod_nchans s0 = numchan" "mod_nrows s0 = 64"
  shows "load_pre P 32 m Q s0 (f, s) \<Longrightarrow> t + n * numchan \<le> mod_npats s0 * numchan \<Longrightarrow>
    \<exists>t' f' u. fmc_tracks io numchan n t (f, s) = Some (t', f', u) \<and> t' \<le> mod_npats s0 * numchan \<and>
      load_pre P 32 m Q s0 (f', u)"
proof (induction n arbitrary: t f s)
  case 0
  then show ?case by simp
next
  case (Suc n)
  show ?case
  proof (cases "bio_ateof io f")
    case True
    then show ?thesis using Suc.prems by simp
  next
    case False
    have "load_op P 32 m Q s0 (ofold (\<lambda>(j, k). fmc_event io (t + j) k) (List.product [0..<numchan] [0..<64]))"
    proof (rule lo.ok_ofold)
      fix p assume "p \<in> set (List.product [0..<numchan] [0..<64])"
      then obtain j k where p: "p = (j, k)" "j < numchan" "k < 64" by auto
      have "t + j < mod_npats s0 * mod_nchans s0" using Suc.prems(2) p(2) assms(2) by simp
      then show "load_op P 32 m Q s0 ((\<lambda>(j, k). fmc_event io (t + j) k) p)"
        using p assms by (simp add: fmc_event_ok)
    qed
    from op_okD [OF this Suc.prems(1)] obtain f1 u where
      u: "ofold (\<lambda>(j, k). fmc_event io (t + j) k) (List.product [0..<numchan] [0..<64]) (f, s) = Some (f1, u)"
      "load_pre P 32 m Q s0 (f1, u)" by (metis surj_pair)
    have "t + numchan + n * numchan \<le> mod_npats s0 * numchan" using Suc.prems(2) by simp
    then show ?thesis using Suc.IH [OF u(2)] u(1) False by (simp del: upt.simps)
  qed
qed

lemma fmc_buildinst_ok:
  assumes "mod_shape k m Q s" "i < m" "i < length (fmc_instruments s)"
  shows "\<exists>t. fmc_buildinst i s = Some t \<and> mod_shape k m Q t \<and> mod_scalars t = mod_scalars s"
proof -
  let ?I = "\<lambda>t. mod_shape k m Q t \<and> mod_scalars t = mod_scalars s"
  let ?bytes = "fmc_bytes (fmc_instruments s ! i)"
  have idx: "\<forall>(j, v) \<in> set ?bytes. j < 11" by (simp add: fmc_bytes_def Let_def)
  have "\<exists>t. ofold (\<lambda>(j, v). mod_put_data i j v) ?bytes s = Some t \<and> ?I t"
  proof (rule ofold_invariant)
    show "?I s" using assms(1) by simp
    fix p t assume "p \<in> set ?bytes" and I: "?I t"
    then obtain j v where p: "p = (j, v)" "j < 11" using idx by fastforce
    then show "\<exists>u. (case p of (j, v) \<Rightarrow> mod_put_data i j v) t = Some u \<and> ?I u"
      using mod_put_data_ok [of k m Q t i j v] I assms(2) by auto
  qed
  then obtain t where t: "ofold (\<lambda>(j, v). mod_put_data i j v) ?bytes s = Some t" "?I t" by blast
  obtain u where "mod_put_inst i (mi_slide_update (\<lambda>_. fi_pitch_shift (fmc_instruments s ! i))) t = Some u" "?I u"
    using mod_put_inst_ok [of k m Q t i "mi_slide_update (\<lambda>_. fi_pitch_shift (fmc_instruments s ! i))"] t(2) assms(2)
    by auto
  then show ?thesis using t(1) assms(3) by (simp add: fmc_buildinst_def rd_Some)
qed

lemma fmc_buildinsts_ok:
  assumes "mod_shape k 32 Q s" "length (fmc_instruments s) = 32"
  shows "\<exists>t. ofold fmc_buildinst [0..<31] s = Some t \<and> mod_shape k 32 Q t \<and> mod_scalars t = mod_scalars s"
proof -
  let ?I = "\<lambda>t. mod_shape k 32 Q t \<and> mod_scalars t = mod_scalars s"
  have "\<exists>t. ofold fmc_buildinst [0..<31] s = Some t \<and> ?I t"
  proof (rule ofold_invariant)
    show "?I s" using assms(1) by simp
    fix i t assume i: "i \<in> set [0..<31]" and I: "?I t"
    have "fmc_instruments t = fmc_instruments s" using mod_scalars_eqs(13) [of t s] I by (cases t, cases s) simp
    then show "\<exists>u. fmc_buildinst i t = Some u \<and> ?I u"
      using fmc_buildinst_ok [of k 32 Q t i] I i assms(2) by auto
  qed
  then show ?thesis by simp
qed

lemma fmc_length_ok:
  "\<forall>i \<in> set [a..<b]. i < length os \<Longrightarrow> a \<le> b \<Longrightarrow> b = 256 \<Longrightarrow> \<forall>i < a. ucast (os ! i) < nop \<Longrightarrow>
   \<exists>ok len. fmc_length os nop [a..<b] = Some (ok, len) \<and> len \<le> 256 \<and>
     (ok \<longrightarrow> (\<forall>i < len. ucast (os ! i) < nop) \<and> (len = 256 \<or> 0xFE \<le> os ! len))"
proof (induction "b - a" arbitrary: a)
  case 0
  then show ?case by auto
next
  case (Suc k)
  then have ab: "a < b" "[a..<b] = a # [Suc a..<b]" by (simp_all add: upt_conv_Cons)
  have e: "rd os a = Some (os ! a)" using Suc.prems(1) ab by (simp add: rd_Some)
  consider "0xFE \<le> os ! a" | "\<not> 0xFE \<le> os ! a" "nop \<le> ucast (os ! a)" | "\<not> 0xFE \<le> os ! a" "\<not> nop \<le> ucast (os ! a)"
    by blast
  then show ?case
  proof cases
    case 1
    then have "fmc_length os nop [a..<b] = Some (True, a)" using e ab(2) by simp
    then show ?thesis using 1 ab(1) Suc.prems(3,4) by auto
  next
    case 2
    have "fmc_length os nop [a..<b] = Some (False, a)" using 2 e ab(2) by simp
    then show ?thesis using ab(1) Suc.prems(3) by auto
  next
    case 3
    have "fmc_length os nop [a..<b] = fmc_length os nop [Suc a..<b]" using 3 e ab(2) by simp
    moreover have "\<forall>i < Suc a. ucast (os ! i) < nop" using Suc.prems(4) 3(2) by (auto simp: less_Suc_eq not_le)
    ultimately show ?thesis using Suc.hyps(1) [of "Suc a"] Suc.hyps(2) Suc.prems ab by simp
  qed
qed

text \<open>The first channel is active, however many there are.\<close>

lemma fmc_active:
  assumes "1 \<le> n" "n \<le> 32"
  shows "odd (0xffffffff div 2 ^ (32 - n) * 2 ^ (32 - n) div 2 ^ 31 :: nat)"
proof -
  let ?k = "32 - n"
  have pow: "(2 :: nat) ^ n * 2 ^ ?k = 2 ^ 32" using assms(2) by (simp add: power_add [symmetric])
  have "(2 :: nat) ^ ?k \<le> 2 ^ 32" by (rule power_increasing) simp_all
  moreover have "(1 :: nat) \<le> 2 ^ ?k" by simp
  moreover have "(2 ^ n - 1) * 2 ^ ?k = 2 ^ 32 - (2 :: nat) ^ ?k" using pow by (simp add: diff_mult_distrib)
  ultimately have "(0xffffffff :: nat) = (2 ^ n - 1) * 2 ^ ?k + (2 ^ ?k - 1)" by simp
  moreover have "(2 :: nat) ^ ?k - 1 < 2 ^ ?k" by simp
  ultimately have "(0xffffffff :: nat) div 2 ^ ?k = 2 ^ n - 1"
    by (metis add.commute add.right_neutral div_less div_mult_self3 power_not_zero zero_neq_numeral)
  then have "(0xffffffff :: nat) div 2 ^ ?k * 2 ^ ?k = 2 ^ 32 - 2 ^ ?k"
    using pow by (simp add: diff_mult_distrib)
  moreover have "(2 :: nat) ^ ?k \<le> 2 ^ 31" by (rule power_increasing) (use assms(1) in simp_all)
  then have "((2 :: nat) ^ 32 - 2 ^ ?k) div 2 ^ 31 = 1" by (intro div_nat_eqI) simp_all
  ultimately show ?thesis by simp
qed

lemma fmc_setup_ok:
  assumes "mod_shape 0 m Q s"
  shows "\<exists>t. fmc_setup mem cmem s = Some t \<and> mod_shape 0 32 (\<lambda>os. length os = 256) t \<and> mod_npats t = 64 \<and>
    mod_nrows t = 64 \<and> mod_nchans t = unat (fmc_numchan s) \<and> mod_player.more t = mod_player.more s"
proof -
  let ?s = "mod_realloc_patterns cmem 64 64 (unat (fmc_numchan s)) (mod_realloc_order mem 256 (mod_realloc_instruments 32 s))"
  have "mod_shape 0 32 (\<lambda>os. length os = 256) ?s"
    by (intro mod_realloc_patterns_shape mod_realloc_order_shape [where Q = Q] mod_realloc_instruments_shape [OF assms]) simp
  then obtain t where t: "mod_init_trackord ?s = Some t" "mod_shape 0 32 (\<lambda>os. length os = 256) t"
    "mod_scalars t = mod_scalars ?s" using mod_init_trackord_ok by blast
  then show ?thesis using mod_scalars_eqs(1-3,13) [OF t(3)]
    by (simp add: fmc_setup_def mod_realloc_order_def mod_realloc_instruments_def mod_realloc_patterns_def)
qed

lemma fmc_orders_ok:
  assumes "mod_order s = os" "mod_length s = len" "0 < len" "len \<le> 256" "length os = 256" "mod_restartpos s = 0"
    "\<forall>i < len. ucast (os ! i) < nop" "nop \<le> (64 :: u16)" "mod_npats s = 64"
  shows "mod_orders_ok s"
proof (rule mod_orders_plain)
  fix i assume "i < mod_length s"
  then have "ucast (os ! i) < (64 :: u16)" using assms(2,7,8) by (meson less_le_trans)
  then have "unat (os ! i) < 64" by (simp add: word_less_nat_alt unat_ucast_u16)
  then show "unat (mod_order s ! i) < mod_npats s \<and> unat (mod_order s ! i) < JUMPMARKER"
    using assms(1,9) by (simp add: JUMPMARKER_def)
qed (use assms in simp_all)

lemma fmc_finish_ok:
  assumes "mod_shape 32 32 (\<lambda>x. x = os) s" "length os = 256" "length (fmc_instruments s) = 32" "mod_npats s = 64"
    "mod_nrows s = 64" "mod_nchans s = unat (fmc_numchan s)" "1 \<le> unat (fmc_numchan s)" "unat (fmc_numchan s) \<le> 32"
    "t \<le> 64 * unat (fmc_numchan s)"
  shows "\<exists>b u. fmc_finish t s = Some (b, u) \<and>
    (b \<longrightarrow> mod_ord u = 0 \<and> mod_rw u = 0 \<and> (0 < mod_length u \<longrightarrow> mod_ok u) \<and>
      (mod_length u = 0 \<and> mod_speed u \<noteq> 0 \<longrightarrow> mod_update u = None))"
proof -
  obtain s1 where s1: "ofold fmc_buildinst [0..<31] s = Some s1" "mod_shape 32 32 (\<lambda>x. x = os) s1"
    "mod_scalars s1 = mod_scalars s" using fmc_buildinsts_ok [OF assms(1,3)] by blast
  note eq1 = mod_scalars_eqs [OF s1(3)]
  have n1: "fmc_numchan s1 = fmc_numchan s" using eq1(13) by (cases s1, cases s) simp
  let ?n = "unat (fmc_numchan s)"
  let ?nop = "of_nat (t div ?n) :: u16"
  let ?s2 = "s1\<lparr>mod_activechan := 0xffffffff div 2 ^ (32 - ?n) * 2 ^ (32 - ?n), mod_nop := ?nop\<rparr>"
  have ord1: "mod_order s1 = os" using s1(2) by (simp add: mod_shape_def)
  have "t div ?n \<le> 64 * ?n div ?n" by (rule div_le_mono [OF assms(9)])
  then have "t div ?n \<le> 64" using assms(7) by simp
  then have nop: "?nop \<le> 64" by (simp add: word_le_nat_alt unat_of_nat)
  obtain ok len where len: "fmc_length os ?nop [0..<256] = Some (ok, len)" "len \<le> 256"
    "ok \<longrightarrow> (\<forall>i < len. ucast (os ! i) < ?nop) \<and> (len = 256 \<or> 0xFE \<le> os ! len)"
    using fmc_length_ok [of 0 256 os ?nop] assms(2) by auto
  let ?s3 = "?s2\<lparr>mod_restartpos := 0, mod_length := len\<rparr>"
  let ?s4 = "?s3\<lparr>mod_flags := mod_flag_bit Faust\<rparr>"
  have sh4: "mod_shape 32 32 (\<lambda>x. x = os) ?s4" using s1(2) by (simp add: mod_shape_def)
  obtain u where u: "mod_rewind 0 ?s4 = Some u" "mod_orders_ok ?s4 \<longrightarrow> mod_ok u" "mod_pre 32 (mod_nchans ?s4) u"
    "mod_ord u = 0" "mod_rw u = 0" "mod_del u = 0" "mod_frame (u\<lparr>mod_nop := mod_nop ?s4\<rparr>) = mod_frame ?s4"
    using mod_rewind_loaded [OF sh4, of 0] assms(2,5,6,8) eq1(2,3) ord1 len(2) by auto
  have feq: "mod_length u = len" "mod_order u = os" "mod_restartpos u = 0" "mod_nchans u = ?n"
    "mod_trackord u = mod_trackord s1" "mod_activechan u = 0xffffffff div 2 ^ (32 - ?n) * 2 ^ (32 - ?n)"
    using mod_frame_eqs [OF u(7)] ord1 eq1(3) assms(6) by simp_all
  have tracks: "length (mod_trackord s1) = 64"
    using s1(2) eq1(1) assms(4) matrix_length [of 64 _ "mod_trackord s1"] by (auto simp: mod_shape_def)
  have good: "0 < mod_length u \<longrightarrow> mod_ok u" if ok
    using u(2) fmc_orders_ok [of ?s4 os len ?nop] that len(2,3) assms(2,4) nop ord1 eq1(1) feq(1) by simp
  have fault: "mod_update u = None" if ok "mod_length u = 0" "mod_speed u \<noteq> 0"
  proof (rule mod_empty_list_faults [OF u(3) _ _ that(2) u(6) that(3)])
    fix e assume "rd (mod_order u) (mod_restartpos u) = Some e"
    then have "0xFE \<le> e" using feq(1-3) len(3) that(1,2) assms(2) by (auto simp: rd_Some)
    then have "64 \<le> unat e" by (simp add: word_le_nat_alt)
    then show "length (mod_trackord u) \<le> unat e \<and> 0 < mod_nchans ?s4 \<and> odd (mod_activechan u div 2 ^ 31)"
      using feq(5,6) tracks fmc_active [OF assms(7,8)] assms(6,7) eq1(3) by simp
  qed (use feq(4) eq1(3) assms(6,8) in simp_all)
  have step: "fmc_finish t s = (if ?nop = 0 then Some (False, ?s2) else if ok then Some (True, u) else Some (False, ?s3))"
    using s1(1) n1 ord1 len(1) u(1) by (simp add: fmc_finish_def Let_def del: upt.simps)
  show ?thesis
  proof (cases "?nop = 0 \<or> \<not> ok")
    case True
    then show ?thesis unfolding step by auto
  next
    case False
    then show ?thesis unfolding step using good fault u(4,5) by auto
  qed
qed

text \<open>\<open>CfmcLoader::load\<close> returns for every file, within its arrays. An accepted module with an order
list is well formed, whatever its number of channels, and plays safely to its end; one whose order list
starts with the end marker is accepted too, and its first update reads a track that does not exist.\<close>

theorem fmc_load_playable:
  assumes "stream_laws io P" "\<And>f. opn filename = Some f \<Longrightarrow> P f" "mod_construct mem0 cmem0 chip s0 = Some s"
    "fmc_arrays s"
  shows "\<exists>b t. fmc_load io opn mem cmem filename s = Some (b, t) \<and>
    (b \<longrightarrow> (mod_length t = 0 \<and> mod_speed t \<noteq> 0 \<longrightarrow> mod_update t = None) \<and>
      (0 < mod_length t \<longrightarrow> mod_ok t \<and> mod_ord t = 0 \<and> mod_rw t = 0 \<and>
        (\<exists>n s1 s2. play mod_update n t = Some s1 \<and> mod_update s1 = Some (False, s2))))"
proof (cases "opn filename")
  case None
  then show ?thesis by (auto simp: fmc_load_def)
next
  case (Some f)
  obtain k ident f1 where f1: "bio_readString io 4 (fmc_id s) f = (k, ident, f1)" by (metis surj_pair)
  have P1: "P f1" using stream_lawsD(3) [OF assms(1) assms(2) [OF Some] f1] by simp
  obtain k' title f2 where f2: "bio_readString io 21 (fmc_title s) f1 = (k', title, f2)" by (metis surj_pair)
  have title: "P f2" "length title = 21" using stream_lawsD(3) [OF assms(1) P1 f2] assms(4) by (simp_all add: fmc_arrays_def)
  obtain numchan f3 where f3: "read_u8 io f2 = (numchan, f3)" by fastforce
  have P3: "P f3" by (rule read_u8_stream [OF assms(1) title(1) f3])
  let ?s1 = "s\<lparr>fmc_id := ident, fmc_title := title[20 := 0], fmc_numchan := numchan\<rparr>"
  show ?thesis
  proof (cases "ident \<noteq> bytes_of ''FMC!'' \<or> numchan < 1 \<or> numchan > 32")
    case True
    then have "fmc_load io opn mem cmem filename s = Some (False, ?s1)"
      using Some f1 f2 f3 title(2) by (simp add: fmc_load_def wr_Some)
    then show ?thesis by auto
  next
    case False
    then have "1 \<le> numchan" "numchan \<le> 32" by (simp_all only: not_less de_Morgan_disj)
    then have chans: "1 \<le> unat numchan" "unat numchan \<le> 32" by (simp_all add: word_le_nat_alt)
    have "mod_shape 0 250 (\<lambda>os. length os = 128) ?s1"
      using mod_construct_ok(1) [OF assms(3)] by (simp add: mod_shape_def)
    then obtain s2 where s2: "fmc_setup mem cmem ?s1 = Some s2" "mod_shape 0 32 (\<lambda>os. length os = 256) s2"
      "mod_npats s2 = 64" "mod_nrows s2 = 64" "mod_nchans s2 = unat numchan" "mod_player.more s2 = mod_player.more ?s1"
      using fmc_setup_ok by fastforce
    let ?Q = "\<lambda>os :: bytes. length os = 256"
    have "mod_shape 32 32 ?Q s2" by (rule mod_shape_mono [OF s2(2)]) simp
    then have pre2: "load_pre P 32 32 ?Q s2 (f3, s2)" using P3 by (simp add: load_pre_def)
    have ords: "load_op P 32 32 ?Q s2 (mod_read_orders io 256)" by (rule mod_read_orders_ok [OF assms(1)]) simp
    obtain f4 s4 where s4: "mod_read_orders io 256 (f3, s2) = Some (f4, s4)" "P f4" "mod_shape 32 32 ?Q s4"
      "mod_scalars s4 = mod_scalars s2" using op_okD [OF ords pre2] by (auto simp: load_pre_def)
    note eq4 = mod_scalars_eqs [OF s4(4)]
    have more4: "fmc_numchan s4 = numchan" "fmc_instruments s4 = fmc_instruments s" "fmc_id s4 = ident"
      "fmc_title s4 = title[20 := 0]"
      using eq4(13) s2(6) by (cases s4, cases s2, cases s, simp)+
    have "length ident = 4" using False by (simp add: bytes_of_def)
    then have arr4: "fmc_arrays s4" using assms(4) title(2) more4 by (simp add: fmc_arrays_def)
    have "P (bio_ignore io 2 f4)" by (rule stream_lawsD(9) [OF assms(1) s4(2)])
    then obtain f5 ins where s5: "fmc_read_instruments io (bio_ignore io 2 f4, s4) = Some (f5, s4\<lparr>fmc_instruments := ins\<rparr>)"
      "P f5" "fmc_arrays (s4\<lparr>fmc_instruments := ins\<rparr>)"
      using fmc_read_instruments_ok [OF assms(1) _ arr4] by blast
    let ?s5 = "s4\<lparr>fmc_instruments := ins\<rparr>"
    have pre5: "load_pre P 32 32 (\<lambda>x. x = mod_order s4) ?s5 (f5, ?s5)"
      using s4(3) s5(2) by (simp add: load_pre_def mod_shape_def)
    have dims5: "mod_nchans ?s5 = unat numchan" "mod_nrows ?s5 = 64" "mod_npats ?s5 = 64"
      using eq4(1-3) s2(3-5) by simp_all
    obtain t f6 s6 where s6: "fmc_tracks io (unat numchan) 64 0 (f5, ?s5) = Some (t, f6, s6)" "t \<le> 64 * unat numchan"
      "mod_shape 32 32 (\<lambda>x. x = mod_order s4) s6" "mod_scalars s6 = mod_scalars ?s5"
      using fmc_tracks_ok [OF assms(1) dims5(1,2) pre5, of 0 64] dims5(3) by (auto simp: load_pre_def)
    note eq6 = mod_scalars_eqs [OF s6(4)]
    have more6: "fmc_numchan s6 = numchan" "fmc_instruments s6 = ins"
      using eq6(13) more4(1) by (cases s6, cases s4, simp)+
    have len6: "length (mod_order s4) = 256" "length (fmc_instruments s6) = 32"
      using s4(3) s5(3) more6(2) by (simp_all add: mod_shape_def fmc_arrays_def)
    have "\<exists>b u. fmc_finish t s6 = Some (b, u) \<and>
      (b \<longrightarrow> mod_ord u = 0 \<and> mod_rw u = 0 \<and> (0 < mod_length u \<longrightarrow> mod_ok u) \<and>
        (mod_length u = 0 \<and> mod_speed u \<noteq> 0 \<longrightarrow> mod_update u = None))"
      by (rule fmc_finish_ok [OF s6(3) len6]) (use eq6(1-3) dims5 more6 chans s6(2) in simp_all)
    then obtain b u where u: "fmc_finish t s6 = Some (b, u)"
      "b \<longrightarrow> mod_ord u = 0 \<and> mod_rw u = 0 \<and> (0 < mod_length u \<longrightarrow> mod_ok u) \<and>
        (mod_length u = 0 \<and> mod_speed u \<noteq> 0 \<longrightarrow> mod_update u = None)" by (elim exE conjE) (rule that)
    have "fmc_load io opn mem cmem filename s = Some (b, u)"
      using Some f1 f2 f3 title(2) False s2(1) s4(1) s5(1) s6(1) u(1)
      by (simp add: fmc_load_def wr_Some del: upt.simps)
    moreover have "mod_ok u \<Longrightarrow> \<exists>n s1 s2. play mod_update n u = Some s1 \<and> mod_update s1 = Some (False, s2)"
      by (rule mod_contract.reaches_end)
    ultimately show ?thesis using u(2) by auto
  qed
qed

text \<open>A constructed player, and a file that stops after its number of channels.\<close>

definition fmc_raw :: fmc_player where
  "fmc_raw =
     (let p = \<lparr>fo_attack = 0, fo_decay = 0, fo_sustain = 0, fo_release = 0, fo_volume = 0, fo_ksl = 0,
               fo_freq_multi = 0, fo_waveform = 0, fo_sustain_sound = 0, fo_ksr = 0, fo_vibrato = 0, fo_tremolo = 0\<rparr>
      in mod_player.extend mod_raw \<lparr>fmc_id = replicate 4 0, fmc_title = replicate 21 0, fmc_numchan = 0,
           fmc_instruments = replicate 32 \<lparr>fi_synthesis = 0, fi_feedback = 0, fi_mod = p, fi_car = p,
                                           fi_pitch_shift = 0, fi_name = replicate 21 0\<rparr>\<rparr>)"

lemma fmc_load_playable_witness:
  "\<exists>s. mod_construct (\<lambda>_. 0) (\<lambda>_. zero_chan) 0 fmc_raw = Some s \<and>
    (\<exists>b t. fmc_load memio (\<lambda>_. Some (mem_file (bytes_of ''FMC!''))) (\<lambda>_. 0) (\<lambda>_. zero_chan) ''a.sng'' s = Some (b, t) \<and>
       (b \<longrightarrow> 0 < mod_length t \<longrightarrow> mod_ok t))"
proof -
  obtain s where s: "mod_construct (\<lambda>_. 0) (\<lambda>_. zero_chan) 0 fmc_raw = Some s"
    by (simp add: mod_construct_def mod_init_notetable_def sa2_notetable_def)
  then have "fmc_arrays s"
    by (auto simp: mod_construct_def mod_init_notetable_def sa2_notetable_def mod_realloc_instruments_def
        mod_realloc_patterns_def mod_realloc_order_def fmc_raw_def mod_raw_def mod_player.defs fmc_arrays_def Let_def)
  moreover have "length (bytes_of ''FMC!'') < 2 ^ 63" by (simp add: bytes_of_def)
  ultimately show ?thesis
    using fmc_load_playable [OF mem_stream_laws [of "bytes_of ''FMC!''"] _ s,
        of "\<lambda>_. Some (mem_file (bytes_of ''FMC!''))" "''a.sng''" "\<lambda>_. 0" "\<lambda>_. zero_chan"] s
    by auto
qed

end
