(* ===== verification/Cffpack.thy ===== *)
theory Cffpack
  imports Loader
begin

text \<open>
  \<open>src/cff.cpp\<close>, class \<open>cff_unpacker\<close>: the decompressor of packed BoomTracker modules, codewords of 9 to 16
  bits over a dictionary of strings with a command for repetitions. Nothing in it compares the input pointer
  with the end of the input: \<open>load\<close> relies on eight zero bytes behind the file.
\<close>

section \<open>The code\<close>

text \<open>The output and the heap as far as they are written; dictionary entries are offsets into the heap.\<close>

record unpacker =
  up_input :: bytes
  up_pos :: nat
  up_output :: bytes
  up_code_length :: nat
  up_bits_left :: nat
  up_bits_buffer :: nat
  up_heap :: bytes
  up_dictionary :: "nat list"
  up_string :: bytes

datatype up_next = Up_go | Up_done | Up_fail

function up_fill :: "nat \<Rightarrow> unpacker \<Rightarrow> unpacker option" where
  "up_fill n u =
     (if up_bits_left u < n then do {
        b \<leftarrow> rd (up_input u) (up_pos u);
        up_fill n (u\<lparr>up_bits_buffer := up_bits_buffer u OR push_bit (up_bits_left u) (unat b),
                     up_bits_left := up_bits_left u + 8, up_pos := up_pos u + 1\<rparr>)
      } else Some u)"
  by pat_completeness auto
termination by (relation "measure (\<lambda>(n, u). n - up_bits_left u)") auto

declare up_fill.simps [simp del]

definition up_get_code :: "nat \<Rightarrow> unpacker \<Rightarrow> (nat \<times> unpacker) option" where
  "up_get_code n u = do {
     u \<leftarrow> up_fill n u;
     Some (up_bits_buffer u mod 2 ^ n,
           u\<lparr>up_bits_buffer := up_bits_buffer u div 2 ^ n, up_bits_left := up_bits_left u - n\<rparr>)
   }"

definition up_translate :: "nat \<Rightarrow> bytes \<Rightarrow> unpacker \<Rightarrow> bytes option" where
  "up_translate code str u =
     (if 0x104 + length (up_dictionary u) \<le> code then do { str \<leftarrow> wr str 0 0; wr str 1 0 }
      else if 0x104 \<le> code then do {
        start \<leftarrow> rd (up_dictionary u) (code - 0x104);
        n \<leftarrow> rd (up_heap u) start;
        _ \<leftarrow> require (start + unat n + 1 \<le> length (up_heap u) \<and> unat n + 1 \<le> length str);
        Some (take (unat n + 1) (drop start (up_heap u)) @ drop (unat n + 1) str)
      }
      else do { str \<leftarrow> wr str 0 1; wr str 1 (of_nat ((code + 252) mod 256)) })"

definition up_put :: "bytes \<Rightarrow> unpacker \<Rightarrow> bool \<times> unpacker" where
  "up_put bs u =
     (if 0x10000 < length (up_output u) + length bs then (False, u)
      else (True, u\<lparr>up_output := up_output u @ bs\<rparr>))"

definition up_put_string :: "unpacker \<Rightarrow> (bool \<times> unpacker) option" where
  "up_put_string u = do {
     n \<leftarrow> rd (up_string u) 0;
     _ \<leftarrow> require (unat n + 1 \<le> length (up_string u));
     Some (up_put (take (unat n) (drop 1 (up_string u))) u)
   }"

definition up_start_string :: "unpacker \<Rightarrow> (bool \<times> unpacker) option" where
  "up_start_string u = do {
     (code, u) \<leftarrow> up_get_code (up_code_length u) u;
     str \<leftarrow> up_translate code (up_string u) u;
     up_put_string (u\<lparr>up_string := str\<rparr>)
   }"

definition up_start_block :: "unpacker \<Rightarrow> (bool \<times> unpacker) option" where
  "up_start_block u = up_start_string
     (u\<lparr>up_code_length := 9, up_bits_buffer := 0, up_bits_left := 0, up_heap := [], up_dictionary := []\<rparr>)"

definition up_expand :: "unpacker \<Rightarrow> unpacker option" where
  "up_expand u = do {
     n \<leftarrow> rd (up_string u) 0;
     if 0xF0 \<le> n \<or> 0x10000 < length (up_heap u) + unat n + 1 then Some u
     else do {
       _ \<leftarrow> require (unat n + 1 \<le> length (up_string u) \<and> length (up_dictionary u) < 0x8000);
       Some (u\<lparr>up_heap := up_heap u @ take (unat n + 1) (up_string u),
               up_dictionary := up_dictionary u @ [length (up_heap u)]\<rparr>)
     }
   }"

text \<open>The repetition: the last bytes of the output again, until it has the length \<open>stop\<close>.\<close>

partial_function (option) up_copies :: "nat \<Rightarrow> nat \<Rightarrow> unpacker \<Rightarrow> unpacker option" where
  "up_copies rep stop u =
     (if length (up_output u) < stop then do {
        _ \<leftarrow> require (rep \<le> length (up_output u));
        let (_, u) = up_put (take rep (drop (length (up_output u) - rep) (up_output u))) u;
        up_copies rep stop u
      } else Some u)"

definition up_repeat :: "unpacker \<Rightarrow> (up_next \<times> unpacker) option" where
  "up_repeat u = do {
     (r, u) \<leftarrow> up_get_code 2 u;
     let rep = r + 1;
     (l, u) \<leftarrow> up_get_code 2 u;
     (count, u) \<leftarrow> up_get_code (push_bit l 4) u;
     let stop = length (up_output u) + count * rep;
     if length (up_output u) < rep \<or> 0x10000 < count \<or> 0x10000 < stop then Some (Up_fail, u)
     else do {
       u \<leftarrow> up_copies rep stop u;
       (ok, u) \<leftarrow> up_start_string u;
       Some (if ok then Up_go else Up_fail, u)
     }
   }"

text \<open>A string of the dictionary; \<open>mem\<close> is what \<open>temp_string\<close> holds before.\<close>

definition up_lookup :: "bytes \<Rightarrow> nat \<Rightarrow> unpacker \<Rightarrow> (up_next \<times> unpacker) option" where
  "up_lookup mem code u = do {
     temp \<leftarrow> (if 0x104 + length (up_dictionary u) \<le> code then Some (up_string u) else up_translate code mem u);
     c \<leftarrow> rd temp 1;
     n \<leftarrow> rd (up_string u) 0;
     str \<leftarrow> wr (up_string u) 0 (n + 1);
     str \<leftarrow> wr str (unat (n + 1)) c;
     u \<leftarrow> up_expand (u\<lparr>up_string := str\<rparr>);
     str \<leftarrow> up_translate code (up_string u) u;
     (ok, u) \<leftarrow> up_put_string (u\<lparr>up_string := str\<rparr>);
     Some (if ok then Up_go else Up_fail, u)
   }"

definition up_step :: "bytes \<Rightarrow> unpacker \<Rightarrow> (up_next \<times> unpacker) option" where
  "up_step mem u = do {
     (code, u) \<leftarrow> up_get_code (up_code_length u) u;
     if code = 0 then Some (Up_done, u)
     else if code = 1 then do { (ok, u) \<leftarrow> up_start_block u; Some (if ok then Up_go else Up_fail, u) }
     else if code = 2 then
       Some (if 16 < up_code_length u + 1 then Up_fail else Up_go, u\<lparr>up_code_length := up_code_length u + 1\<rparr>)
     else if code = 3 then up_repeat u
     else up_lookup mem code u
   }"

partial_function (option) up_run :: "bytes \<Rightarrow> unpacker \<Rightarrow> (up_next \<times> unpacker) option" where
  "up_run mem u = do {
     (next, u) \<leftarrow> up_step mem u;
     if next = Up_go then up_run mem u else Some (next, u)
   }"

definition up_ident :: bytes where
  "up_ident = bytes_of ''YsComp'' @ [7] @ bytes_of ''CUD1997'' @ [0x1A, 0x04]"

text \<open>\<open>unpack\<close>: the length of the module, 0 for a failure, and the bytes written.\<close>

definition up_unpack :: "bytes \<Rightarrow> bytes \<Rightarrow> bytes \<Rightarrow> (nat \<times> bytes) option" where
  "up_unpack mem str ibuf = do {
     _ \<leftarrow> require (16 \<le> length ibuf);
     if take 16 ibuf \<noteq> up_ident then Some (0, [])
     else do {
       (ok, u) \<leftarrow> up_start_block
         \<lparr>up_input = ibuf, up_pos = 16, up_output = [], up_code_length = 0, up_bits_left = 0, up_bits_buffer = 0,
          up_heap = [], up_dictionary = [], up_string = str\<rparr>;
       if \<not> ok then Some (0, up_output u)
       else do {
         (next, u) \<leftarrow> up_run mem u;
         Some (if next = Up_done then length (up_output u) else 0, up_output u)
       }
     }
   }"

section \<open>The input as a number\<close>

text \<open>
  What is left of the input is a number, least significant bit first, with a number of bits; a codeword is
  its remainder.
\<close>

fun le_nat :: "bytes \<Rightarrow> nat" where
  "le_nat [] = 0"
| "le_nat (b # bs) = unat b + 256 * le_nat bs"

definition up_value :: "unpacker \<Rightarrow> nat" where
  "up_value u = up_bits_buffer u + 2 ^ up_bits_left u * le_nat (drop (up_pos u) (up_input u))"

definition up_rest :: "unpacker \<Rightarrow> nat" where
  "up_rest u = 8 * (length (up_input u) - up_pos u) + up_bits_left u"

definition up_bits :: "unpacker \<Rightarrow> bool" where
  "up_bits u \<longleftrightarrow> up_bits_buffer u < 2 ^ up_bits_left u \<and> up_pos u \<le> length (up_input u)"

lemma up_fill_ok:
  assumes "up_bits u" "n \<le> up_rest u"
  shows "\<exists>b l p. let v = u\<lparr>up_bits_buffer := b, up_bits_left := l, up_pos := p\<rparr> in
    up_fill n u = Some v \<and> up_bits v \<and> up_value v = up_value u \<and> up_rest v = up_rest u \<and>
    n \<le> l \<and> (up_bits_left u \<le> n + 7 \<longrightarrow> l \<le> n + 7)"
  using assms
proof (induction n u rule: up_fill.induct)
  case (1 n u)
  show ?case
  proof (cases "up_bits_left u < n")
    case False
    then show ?thesis using "1.prems"
      by (intro exI [of _ "up_bits_buffer u"] exI [of _ "up_bits_left u"] exI [of _ "up_pos u"])
         (simp add: up_fill.simps [of n u])
  next
    case True
    let ?b = "up_input u ! up_pos u"
    have p: "up_pos u < length (up_input u)" using "1.prems" True by (auto simp: up_rest_def)
    then have b: "rd (up_input u) (up_pos u) = Some ?b"
      and cons: "drop (up_pos u) (up_input u) = ?b # drop (Suc (up_pos u)) (up_input u)"
      by (simp_all add: rd_Some Cons_nth_drop_Suc)
    let ?u = "u\<lparr>up_bits_buffer := up_bits_buffer u OR push_bit (up_bits_left u) (unat ?b),
      up_bits_left := up_bits_left u + 8, up_pos := up_pos u + 1\<rparr>"
    have buf: "up_bits_buffer ?u = up_bits_buffer u + 2 ^ up_bits_left u * unat ?b"
      using "1.prems"(1) by (simp add: up_bits_def or_push_bit_nat)
    have "2 ^ up_bits_left u * Suc (unat ?b) \<le> 2 ^ up_bits_left u * 256"
      by (rule mult_le_mono2) (use unat_u8_bound(1) [of ?b] in linarith)
    then have "2 ^ up_bits_left u + 2 ^ up_bits_left u * unat ?b \<le> 2 ^ up_bits_left u * 256"
      by (simp only: mult_Suc_right)
    moreover have "up_bits_buffer u < 2 ^ up_bits_left u" using "1.prems"(1) by (simp add: up_bits_def)
    ultimately have "up_bits_buffer ?u < 2 ^ up_bits_left u * 256" unfolding buf by linarith
    then have bits: "up_bits ?u" using p by (simp add: up_bits_def power_add)
    have value': "up_value ?u = up_value u"
      unfolding up_value_def buf using cons by (simp add: power_add algebra_simps)
    have rest: "up_rest ?u = up_rest u" using p by (simp add: up_rest_def)
    have fill: "up_fill n u = up_fill n ?u" using True b by (simp add: up_fill.simps [of n u])
    from "1.IH" [OF True b bits] "1.prems"(2) rest
    obtain b' l' p' where v: "let v = ?u\<lparr>up_bits_buffer := b', up_bits_left := l', up_pos := p'\<rparr> in
      up_fill n ?u = Some v \<and> up_bits v \<and> up_value v = up_value ?u \<and> up_rest v = up_rest ?u \<and>
      n \<le> l' \<and> (up_bits_left ?u \<le> n + 7 \<longrightarrow> l' \<le> n + 7)" by auto
    then show ?thesis unfolding fill using value' rest True
      by (intro exI [of _ b'] exI [of _ l'] exI [of _ p']) (simp add: Let_def)
  qed
qed

text \<open>A codeword of \<open>n\<close> bits, where that many are left.\<close>

definition up_frame :: "unpacker \<Rightarrow> unpacker \<Rightarrow> bool" where
  "up_frame u v \<longleftrightarrow> up_input v = up_input u \<and> up_output v = up_output u \<and> up_code_length v = up_code_length u \<and>
     up_heap v = up_heap u \<and> up_dictionary v = up_dictionary u \<and> up_string v = up_string u"

lemma up_get_code_ok:
  assumes "up_bits u" "n \<le> up_rest u" "up_bits_left u \<le> 7"
  shows "\<exists>v. up_get_code n u = Some (up_value u mod 2 ^ n, v) \<and> up_bits v \<and> up_bits_left v \<le> 7 \<and>
    up_value v = up_value u div 2 ^ n \<and> up_rest v = up_rest u - n \<and> up_frame u v"
proof -
  obtain b l p where "let v = u\<lparr>up_bits_buffer := b, up_bits_left := l, up_pos := p\<rparr> in
    up_fill n u = Some v \<and> up_bits v \<and> up_value v = up_value u \<and> up_rest v = up_rest u \<and>
    n \<le> l \<and> (up_bits_left u \<le> n + 7 \<longrightarrow> l \<le> n + 7)"
    using up_fill_ok [OF assms(1,2)] by blast
  moreover define v where "v = u\<lparr>up_bits_buffer := b, up_bits_left := l, up_pos := p\<rparr>"
  ultimately have v: "up_fill n u = Some v" "up_bits v" "up_value v = up_value u" "up_rest v = up_rest u" "n \<le> l" "l \<le> n + 7"
    using assms(3) by (auto simp: Let_def)
  obtain k where k: "l = n + k" "k \<le> 7" using v(5,6) by (metis le_Suc_ex nat_add_left_cancel_le)
  let ?X = "le_nat (drop p (up_input u))"
  have value': "up_value u = b + 2 ^ n * (2 ^ k * ?X)" using v(3) by (simp add: v_def up_value_def k power_add)
  have b: "b < 2 ^ (n + k)" "p \<le> length (up_input u)" using v(2) by (simp_all add: v_def up_bits_def k(1))
  let ?w = "v\<lparr>up_bits_buffer := up_bits_buffer v div 2 ^ n, up_bits_left := up_bits_left v - n\<rparr>"
  have w: "up_get_code n u = Some (b mod 2 ^ n, ?w)" by (simp add: up_get_code_def v(1)) (simp add: v_def)
  moreover have "b mod 2 ^ n = up_value u mod 2 ^ n" unfolding value' by simp
  moreover have "up_value ?w = up_value u div 2 ^ n" unfolding value' by (simp add: up_value_def v_def k(1))
  moreover have "b div 2 ^ n < 2 ^ k" using b(1) by (simp add: less_mult_imp_div_less power_add mult.commute)
  then have "up_bits ?w" using b(2) by (simp add: up_bits_def v_def k(1))
  moreover have "up_rest ?w = up_rest u - n" using v(4) by (simp add: up_rest_def v_def k(1))
  ultimately show ?thesis using k(2) by (intro exI [of _ ?w]) (simp add: v_def k(1) up_frame_def)
qed

text \<open>
  The zero bytes: the part above the last 64 bits is all there is to the number, or nothing is left of it
  and \<open>k\<close> zero bits are.
\<close>

definition up_pad :: "nat \<Rightarrow> unpacker \<Rightarrow> bool" where
  "up_pad k u \<longleftrightarrow> up_bits u \<and> up_bits_left u \<le> 7 \<and>
     (64 \<le> up_rest u \<and> up_value u < 2 ^ (up_rest u - 64) \<or> up_value u = 0 \<and> k \<le> up_rest u)"

lemma up_pad_mono: "up_pad k u \<Longrightarrow> j \<le> k \<Longrightarrow> up_pad j u"
  by (auto simp: up_pad_def)

text \<open>
  Reading \<open>n\<close> bits uses up as many of the zero bits at most; a codeword that is not small shows that there
  were bits before them.
\<close>

lemma up_pad_get:
  assumes "up_pad k u" "n \<le> k" "k \<le> 64"
  shows "\<exists>c v. up_get_code n u = Some (c, v) \<and> c < 2 ^ n \<and> up_pad (k - n) v \<and> up_rest v + n = up_rest u \<and>
    up_frame u v \<and> (\<forall>j. 2 ^ j \<le> c \<longrightarrow> up_pad (65 + j - n) v)"
proof -
  have u: "up_bits u" "up_bits_left u \<le> 7" using assms(1) by (simp_all add: up_pad_def)
  have rest: "n \<le> up_rest u" using assms by (auto simp: up_pad_def)
  obtain v where v: "up_get_code n u = Some (up_value u mod 2 ^ n, v)" "up_bits v" "up_bits_left v \<le> 7"
    "up_value v = up_value u div 2 ^ n" "up_rest v = up_rest u - n" "up_frame u v"
    using up_get_code_ok [OF u(1) rest u(2)] by blast
  have pad: "up_pad i v" if "64 \<le> up_rest u" "up_value u < 2 ^ (up_rest u - 64)" "i \<le> 64 \<longrightarrow> i + n \<le> up_rest u" "i \<le> 64" for i
  proof (cases "64 + n \<le> up_rest u")
    case True
    then have "up_rest u - 64 = (up_rest u - n - 64) + n" by simp
    then have "up_value u < 2 ^ (up_rest u - n - 64) * 2 ^ n" using that(2) by (metis power_add)
    then have "up_value v < 2 ^ (up_rest v - 64)" unfolding v(4,5) by (simp add: less_mult_imp_div_less)
    moreover have "64 \<le> up_rest v" using v(5) True by simp
    ultimately show ?thesis using v(2,3) by (simp add: up_pad_def)
  next
    case False
    then have "(2 :: nat) ^ (up_rest u - 64) \<le> 2 ^ n" by (intro power_increasing) simp_all
    then have "up_value u < 2 ^ n" using that(2) by linarith
    then have "up_value v = 0" by (simp add: v(4))
    moreover have "i \<le> up_rest v" using that(3,4) v(5) by simp
    ultimately show ?thesis using v(2,3) by (simp add: up_pad_def)
  qed
  have "up_pad (k - n) v"
  proof (cases "64 \<le> up_rest u \<and> up_value u < 2 ^ (up_rest u - 64)")
    case True
    then show ?thesis using pad [of "k - n"] assms(2,3) by simp
  next
    case False
    then have "up_value u = 0" "k \<le> up_rest u" using assms(1) by (auto simp: up_pad_def)
    moreover have "k - n \<le> up_rest v" using calculation(2) v(5) by simp
    ultimately show ?thesis using v by (simp add: up_pad_def)
  qed
  moreover have "up_pad (65 + j - n) v" if j: "2 ^ j \<le> up_value u mod 2 ^ n" for j
  proof -
    have big: "2 ^ j \<le> up_value u" using j mod_less_eq_dividend [of "up_value u" "2 ^ n"] by linarith
    then have "up_value u \<noteq> 0" by (metis le_zero_eq power_eq_0_iff zero_neq_numeral)
    then have a: "64 \<le> up_rest u" "up_value u < 2 ^ (up_rest u - 64)" using assms(1) by (auto simp: up_pad_def)
    then have "(2 :: nat) ^ j < 2 ^ (up_rest u - 64)" using big by linarith
    then have "j < up_rest u - 64" by simp
    moreover have "(2 :: nat) ^ j < 2 ^ n" using j by (rule le_less_trans) simp
    then have "j < n" by simp
    ultimately have "65 + j - n + n \<le> up_rest u" "65 + j - n \<le> 64" using assms(2,3) by simp_all
    then show ?thesis using pad [OF a] by simp
  qed
  moreover have "up_value u mod 2 ^ n < 2 ^ n" by simp
  ultimately show ?thesis using v rest by (intro exI [of _ "up_value u mod 2 ^ n"] exI [of _ v]) simp
qed

section \<open>The dictionary\<close>

text \<open>
  Every entry of the dictionary is a string in the heap of 1 to 239 bytes behind its length, so the entries
  take two bytes at least and the dictionary's array has room for all a heap can hold.
\<close>

definition up_entry :: "bytes \<Rightarrow> nat \<Rightarrow> bool" where
  "up_entry heap start \<longleftrightarrow> start < length heap \<and> 1 \<le> unat (heap ! start) \<and> unat (heap ! start) < 0xF0 \<and>
     start + unat (heap ! start) + 1 \<le> length heap"

definition up_text :: "bytes \<Rightarrow> bool" where
  "up_text str \<longleftrightarrow> length str = 256 \<and> unat (str ! 0) < 0xF0"

definition up_ok :: "unpacker \<Rightarrow> bool" where
  "up_ok u \<longleftrightarrow> length (up_string u) = 256 \<and> up_code_length u \<le> 16 \<and> 9 \<le> up_code_length u \<and> length (up_output u) \<le> 0x10000 \<and>
     length (up_heap u) \<le> 0x10000 \<and> 2 * length (up_dictionary u) \<le> length (up_heap u) \<and>
     (\<forall>start \<in> set (up_dictionary u). up_entry (up_heap u) start)"

lemma up_entry_append: "up_entry heap start \<Longrightarrow> up_entry (heap @ xs) start"
  by (auto simp: up_entry_def nth_append)

lemma up_ok_frame: "up_ok u \<Longrightarrow> up_frame u v \<Longrightarrow> up_ok v"
  by (simp add: up_ok_def up_frame_def)

lemma up_translate_ok:
  assumes "\<forall>start \<in> set (up_dictionary u). up_entry (up_heap u) start" "length str = 256"
  shows "\<exists>str'. up_translate code str u = Some str' \<and> up_text str'"
proof -
  consider "0x104 + length (up_dictionary u) \<le> code" | "code < 0x104 + length (up_dictionary u)" "0x104 \<le> code" | "code < 0x104"
    by linarith
  then show ?thesis
  proof cases
    case 2
    define start where "start = up_dictionary u ! (code - 0x104)"
    have i: "code - 0x104 < length (up_dictionary u)" using 2 by simp
    then have e: "up_entry (up_heap u) start" using assms(1) by (simp add: start_def)
    let ?n = "up_heap u ! start"
    let ?s = "take (unat ?n + 1) (drop start (up_heap u)) @ drop (unat ?n + 1) str"
    have n: "start + unat ?n + 1 \<le> length (up_heap u)" "start < length (up_heap u)" "unat ?n < 0xF0"
      using e by (simp_all add: up_entry_def)
    have "rd (up_dictionary u) (code - 0x104) = Some start" using i by (simp add: rd_Some start_def)
    then have "up_translate code str u = Some ?s" using 2 n assms(2) by (simp add: up_translate_def rd_Some)
    moreover have "length ?s = 256" using n assms(2) by simp
    moreover have "?s ! 0 = ?n" using n by (simp add: nth_append)
    ultimately show ?thesis using n(3) by (simp add: up_text_def)
  qed (use assms(2) in \<open>simp_all add: up_translate_def wr_Some up_text_def\<close>)
qed

lemma up_put_ok:
  assumes "length (up_output u) \<le> 0x10000"
  shows "\<exists>ok out. up_put bs u = (ok, u\<lparr>up_output := out\<rparr>) \<and> length out \<le> 0x10000"
proof (cases "0x10000 < length (up_output u) + length bs")
  case True
  then show ?thesis using assms by (intro exI [of _ False] exI [of _ "up_output u"]) (simp add: up_put_def)
next
  case False
  then show ?thesis by (intro exI [of _ True] exI [of _ "up_output u @ bs"]) (simp add: up_put_def)
qed

lemma up_put_string_ok:
  assumes "length (up_output u) \<le> 0x10000" "up_text (up_string u)"
  shows "\<exists>ok out. up_put_string u = Some (ok, u\<lparr>up_output := out\<rparr>) \<and> length out \<le> 0x10000"
  using assms up_put_ok [OF assms(1), of "take (unat (up_string u ! 0)) (drop 1 (up_string u))"]
  by (simp add: up_put_string_def up_text_def rd_Some del: drop_Suc)

lemma up_pad_update [simp]:
  "up_pad k (u\<lparr>up_string := str\<rparr>) = up_pad k u" "up_pad k (u\<lparr>up_output := out\<rparr>) = up_pad k u"
  "up_rest (u\<lparr>up_string := str\<rparr>) = up_rest u" "up_rest (u\<lparr>up_output := out\<rparr>) = up_rest u"
  by (simp_all add: up_pad_def up_rest_def up_value_def up_bits_def)

section \<open>Every step stays inside\<close>

lemma up_start_string_ok:
  assumes u: "up_ok u" "up_pad k u" and k: "up_code_length u \<le> k" "k \<le> 64"
  shows "\<exists>ok v. up_start_string u = Some (ok, v) \<and> up_ok v \<and> up_text (up_string v) \<and> up_pad (k - up_code_length u) v \<and>
    up_rest v + up_code_length u = up_rest u"
proof -
  obtain c v where v: "up_get_code (up_code_length u) u = Some (c, v)" "up_pad (k - up_code_length u) v"
    "up_rest v + up_code_length u = up_rest u" "up_frame u v"
    using up_pad_get [OF u(2) k] by blast
  have ok: "up_ok v" using up_ok_frame [OF u(1) v(4)] .
  then obtain str where str: "up_translate c (up_string v) v = Some str" "up_text str"
    using up_translate_ok [of v "up_string v" c] by (auto simp: up_ok_def)
  obtain b out where "up_put_string (v\<lparr>up_string := str\<rparr>) = Some (b, v\<lparr>up_string := str, up_output := out\<rparr>)" "length out \<le> 0x10000"
    using up_put_string_ok [of "v\<lparr>up_string := str\<rparr>"] ok str(2) by (auto simp: up_ok_def)
  moreover from this have "up_ok (v\<lparr>up_string := str, up_output := out\<rparr>)" using ok str(2) by (simp add: up_ok_def up_text_def)
  ultimately show ?thesis using v str by (simp add: up_start_string_def)
qed

text \<open>A new block drops the bits that are left of the last byte.\<close>

lemma up_start_block_ok:
  assumes u: "up_ok u" "up_pad k u" and k: "16 \<le> k" "k \<le> 64"
  shows "\<exists>ok v. up_start_block u = Some (ok, v) \<and> up_ok v \<and> up_text (up_string v) \<and> up_pad (k - 16) v \<and> up_rest v < up_rest u"
proof -
  have bl: "up_bits_left u \<le> 7" "up_bits_buffer u < 2 ^ up_bits_left u" using u(2) by (simp_all add: up_pad_def up_bits_def)
  then obtain c v where v: "up_get_code (up_bits_left u) u = Some (c, v)" "up_pad (k - up_bits_left u) v"
    "up_rest v + up_bits_left u = up_rest u"
    using up_pad_get [OF u(2), of "up_bits_left u"] k by fastforce
  have "up_fill (up_bits_left u) u = Some u" by (simp add: up_fill.simps)
  then have eq: "v = u\<lparr>up_bits_buffer := 0, up_bits_left := 0\<rparr>" using v(1) bl(2) by (auto simp: up_get_code_def)
  let ?u = "u\<lparr>up_code_length := 9, up_bits_buffer := 0, up_bits_left := 0, up_heap := [], up_dictionary := []\<rparr>"
  have same: "up_pad j ?u = up_pad j v" "up_rest ?u = up_rest v" for j
    by (simp_all add: eq up_pad_def up_rest_def up_value_def up_bits_def)
  have ok: "up_ok ?u" using u(1) by (simp add: up_ok_def)
  have "up_pad (k - 7) ?u" unfolding same using v(2) by (rule up_pad_mono) (use bl(1) in simp)
  moreover have "9 \<le> k - 7" "k - 7 \<le> 64" using k by simp_all
  ultimately obtain b w where
    "up_start_string ?u = Some (b, w)" "up_ok w" "up_text (up_string w)" "up_pad (k - 7 - 9) w" "up_rest w + 9 = up_rest v"
    using up_start_string_ok [OF ok, of "k - 7"] unfolding same by auto
  then show ?thesis using v(3) by (simp add: up_start_block_def)
qed

lemma up_expand_ok:
  assumes "up_ok u" "1 \<le> unat (up_string u ! 0)"
  shows "\<exists>heap dict. up_expand u = Some (u\<lparr>up_heap := heap, up_dictionary := dict\<rparr>) \<and>
    up_ok (u\<lparr>up_heap := heap, up_dictionary := dict\<rparr>)"
proof -
  let ?n = "up_string u ! 0"
  have len: "length (up_string u) = 256" using assms(1) by (simp add: up_ok_def)
  show ?thesis
  proof (cases "0xF0 \<le> ?n \<or> 0x10000 < length (up_heap u) + unat ?n + 1")
    case True
    then show ?thesis using assms(1) len
      by (intro exI [of _ "up_heap u"] exI [of _ "up_dictionary u"]) (simp add: up_expand_def rd_Some)
  next
    case False
    let ?h = "up_heap u @ take (unat ?n + 1) (up_string u)"
    have n: "unat ?n < 0xF0" using False by (simp add: word_le_nat_alt not_le)
    have room: "length (up_dictionary u) < 0x8000" using False assms by (auto simp: up_ok_def)
    have "?h ! length (up_heap u) = ?n" using len by (simp add: nth_append)
    then have "up_entry ?h (length (up_heap u))" using n assms(2) len by (simp add: up_entry_def)
    then have "up_ok (u\<lparr>up_heap := ?h, up_dictionary := up_dictionary u @ [length (up_heap u)]\<rparr>)"
      using assms False len n by (auto simp: up_ok_def intro: up_entry_append)
    moreover have "up_expand u = Some (u\<lparr>up_heap := ?h, up_dictionary := up_dictionary u @ [length (up_heap u)]\<rparr>)"
      using False n room len by (simp add: up_expand_def rd_Some)
    ultimately show ?thesis by blast
  qed
qed

lemma up_copies_ok:
  "length (up_output u) + m * rep = stop \<Longrightarrow> rep \<le> length (up_output u) \<Longrightarrow> 0 < rep \<Longrightarrow> stop \<le> 0x10000 \<Longrightarrow>
   \<exists>out. up_copies rep stop u = Some (u\<lparr>up_output := out\<rparr>) \<and> length out = stop"
proof (induction m arbitrary: u)
  case 0
  then show ?case by (intro exI [of _ "up_output u"]) (simp add: up_copies.simps)
next
  case (Suc m)
  let ?bs = "take rep (drop (length (up_output u) - rep) (up_output u))"
  have bs: "length ?bs = rep" using Suc.prems(2) by simp
  let ?u = "u\<lparr>up_output := up_output u @ ?bs\<rparr>"
  have put: "up_put ?bs u = (True, ?u)" using Suc.prems bs by (simp add: up_put_def)
  have "length (up_output ?u) + m * rep = stop" "rep \<le> length (up_output ?u)" using Suc.prems bs by simp_all
  from Suc.IH [OF this Suc.prems(3,4)] obtain out where
    "up_copies rep stop ?u = Some (u\<lparr>up_output := out\<rparr>)" "length out = stop" by auto
  moreover have "length (up_output u) < stop" using Suc.prems by simp
  then have "up_copies rep stop u = up_copies rep stop ?u"
    using put Suc.prems(2) by (subst up_copies.simps) simp
  ultimately show ?case by auto
qed

definition up_step_ok :: "nat \<Rightarrow> (up_next \<times> unpacker) option \<Rightarrow> bool" where
  "up_step_ok n r \<longleftrightarrow> (\<exists>next v. r = Some (next, v) \<and> length (up_output v) \<le> 0x10000 \<and> up_rest v < n \<and>
     (next = Up_go \<longrightarrow> up_ok v \<and> up_pad 16 v \<and> up_text (up_string v)))"

lemma up_ok_output: "up_ok u \<Longrightarrow> length (up_output u) \<le> 0x10000"
  by (simp add: up_ok_def)

lemma up_repeat_ok:
  assumes u: "up_ok u" "up_pad 50 u"
  shows "up_step_ok (up_rest u) (up_repeat u)"
proof -
  obtain r u1 where u1: "up_get_code 2 u = Some (r, u1)" "up_pad 48 u1" "up_rest u1 + 2 = up_rest u" "up_frame u u1" "r < 4"
    using up_pad_get [OF u(2), of 2] by auto
  obtain l u2 where u2: "up_get_code 2 u1 = Some (l, u2)" "up_pad 46 u2" "up_rest u2 + 2 = up_rest u1" "up_frame u1 u2" "l < 4"
    "\<forall>j. 2 ^ j \<le> l \<longrightarrow> up_pad (65 + j - 2) u2"
    using up_pad_get [OF u1(2), of 2] by auto
  have len: "\<exists>k. up_pad k u2 \<and> push_bit l 4 + 32 \<le> k \<and> k \<le> (64 :: nat)"
  proof -
    consider "l = 0" | "l = 1" | "2 \<le> l" by linarith
    then show ?thesis
    proof cases
      case 1
      then show ?thesis using u2(2) by (intro exI [of _ 46]) simp
    next
      case 2
      then show ?thesis using u2(6) [rule_format, of 0] by (intro exI [of _ 63]) simp
    next
      case 3
      then have "push_bit l 4 \<le> (32 :: nat)" using u2(5) by (auto simp: less_Suc_eq numeral_eq_Suc)
      then show ?thesis using u2(6) [rule_format, of 1] 3 by (intro exI [of _ 64]) simp
    qed
  qed
  then obtain k where k: "up_pad k u2" "push_bit l 4 + 32 \<le> k" "k \<le> (64 :: nat)" by blast
  have "push_bit l 4 \<le> k" using k(2) by simp
  then obtain count u3 where u3: "up_get_code (push_bit l 4) u2 = Some (count, u3)" "up_pad (k - push_bit l 4) u3"
    "up_rest u3 + push_bit l 4 = up_rest u2" "up_frame u2 u3"
    using up_pad_get [OF k(1) _ k(3)] by blast
  have "up_pad 32 u3" using u3(2) by (rule up_pad_mono) (use k(2) in simp)
  moreover have ok: "up_ok u3" using u(1) u1(4) u2(4) u3(4) up_ok_frame by blast
  let ?stop = "length (up_output u3) + count * (r + 1)"
  show ?thesis
  proof (cases "length (up_output u3) < r + 1 \<or> 0x10000 < count \<or> 0x10000 < ?stop")
    case True
    then have "up_repeat u = Some (Up_fail, u3)" using u1(1) u2(1) u3(1) by (simp add: up_repeat_def)
    then show ?thesis using ok u1(3) u2(3) u3(3) by (simp add: up_step_ok_def up_ok_output)
  next
    case False
    then obtain out where out: "up_copies (r + 1) ?stop u3 = Some (u3\<lparr>up_output := out\<rparr>)" "length out = ?stop"
      using up_copies_ok [of u3 count "r + 1" ?stop] by auto
    let ?u = "u3\<lparr>up_output := out\<rparr>"
    have "up_ok ?u" using ok out(2) False by (simp add: up_ok_def)
    moreover have "up_pad 32 ?u" using \<open>up_pad 32 u3\<close> by simp
    ultimately obtain b v where v: "up_start_string ?u = Some (b, v)" "up_ok v" "up_text (up_string v)" "up_pad (32 - up_code_length ?u) v"
      "up_rest v + up_code_length ?u = up_rest ?u"
      using up_start_string_ok [of ?u 32] by (auto simp: up_ok_def)
    have cl: "up_code_length ?u \<le> 16" using ok by (simp add: up_ok_def)
    have "up_repeat u = Some (if b then Up_go else Up_fail, v)"
      using u1(1) u2(1) u3(1) False out(1) v(1) by (simp add: up_repeat_def)
    moreover have "up_pad 16 v" using v(4) by (rule up_pad_mono) (use cl in simp)
    moreover have "up_rest v < up_rest u" using v(5) u1(3) u2(3) u3(3) by simp
    ultimately show ?thesis using v(2,3) by (simp add: up_step_ok_def up_ok_output)
  qed
qed

lemma up_lookup_ok:
  assumes u: "up_ok u" "up_pad 16 u" "unat (up_string u ! 0) < 0xF0" and mem: "length mem = 256" and n: "up_rest u < n"
  shows "up_step_ok n (up_lookup mem code u)"
proof -
  have dict: "\<forall>start \<in> set (up_dictionary u). up_entry (up_heap u) start" and len: "length (up_string u) = 256"
    using u(1) by (simp_all add: up_ok_def)
  obtain t where t: "(if 0x104 + length (up_dictionary u) \<le> code then Some (up_string u) else up_translate code mem u) = Some t"
    "length t = 256"
  proof (cases "0x104 + length (up_dictionary u) \<le> code")
    case False
    then show ?thesis using up_translate_ok [OF dict mem, of code] that by (auto simp: up_text_def)
  qed (use len that in simp)
  let ?n = "up_string u ! 0"
  have n1: "unat (?n + 1) = unat ?n + 1" using u(3) by (simp add: unat_word_ariths)
  let ?str = "(up_string u)[0 := ?n + 1, unat (?n + 1) := t ! 1]"
  have "?str ! 0 = ?n + 1" using n1 len by simp
  then have "1 \<le> unat (?str ! 0)" using n1 by simp
  moreover have "up_ok (u\<lparr>up_string := ?str\<rparr>)" using u(1) by (simp add: up_ok_def)
  ultimately obtain heap dict' where e: "up_expand (u\<lparr>up_string := ?str\<rparr>) =
      Some (u\<lparr>up_string := ?str, up_heap := heap, up_dictionary := dict'\<rparr>)"
    "up_ok (u\<lparr>up_string := ?str, up_heap := heap, up_dictionary := dict'\<rparr>)"
    using up_expand_ok [of "u\<lparr>up_string := ?str\<rparr>"] by auto
  let ?v = "u\<lparr>up_string := ?str, up_heap := heap, up_dictionary := dict'\<rparr>"
  obtain str where str: "up_translate code (up_string ?v) ?v = Some str" "up_text str"
    using up_translate_ok [of ?v "up_string ?v" code] e(2) by (auto simp: up_ok_def)
  obtain b out where p: "up_put_string (?v\<lparr>up_string := str\<rparr>) = Some (b, ?v\<lparr>up_string := str, up_output := out\<rparr>)"
    "length out \<le> 0x10000"
    using up_put_string_ok [of "?v\<lparr>up_string := str\<rparr>"] e(2) str(2) by (auto simp: up_ok_def)
  let ?w = "?v\<lparr>up_string := str, up_output := out\<rparr>"
  have "up_lookup mem code u = Some (if b then Up_go else Up_fail, ?w)"
    using t e(1) str(1) p(1) len n1 u(3) by (simp add: up_lookup_def rd_Some wr_Some)
  moreover have "up_ok ?w" using e(2) p(2) str(2) by (simp add: up_ok_def up_text_def)
  moreover have "up_text (up_string ?w)" using str(2) by simp
  moreover have "up_pad 16 ?w" "up_rest ?w < n" using u(2) n by (simp_all add: up_pad_def up_rest_def up_value_def up_bits_def)
  ultimately show ?thesis unfolding up_step_ok_def using up_ok_output by blast
qed

lemma up_step_returns:
  assumes u: "up_ok u" "up_pad 16 u" "up_text (up_string u)" and mem: "length mem = 256"
  shows "up_step_ok (up_rest u) (up_step mem u)"
proof -
  have cl: "9 \<le> up_code_length u" "up_code_length u \<le> 16" using u(1) by (simp_all add: up_ok_def)
  obtain code v where v: "up_get_code (up_code_length u) u = Some (code, v)"
    "up_rest v + up_code_length u = up_rest u" "up_frame u v" "\<forall>j. 2 ^ j \<le> code \<longrightarrow> up_pad (65 + j - up_code_length u) v"
    using up_pad_get [OF u(2) cl(2)] by auto
  have ok: "up_ok v" "up_code_length v = up_code_length u" "up_string v = up_string u"
    using up_ok_frame [OF u(1) v(3)] v(3) by (simp_all add: up_frame_def)
  have less: "up_rest v < up_rest u" using v(2) cl by simp
  have pad: "up_pad 49 v" if "1 \<le> code"
    using v(4) [rule_format, of 0] that cl by (auto intro: up_pad_mono)
  consider "code = 0" | "code = 1" | "code = 2" | "code = 3" | "4 \<le> code" by linarith
  then show ?thesis
  proof cases
    case 1
    then show ?thesis using v(1) ok(1) less by (simp add: up_step_def up_step_ok_def up_ok_output)
  next
    case 2
    then obtain b w where w: "up_start_block v = Some (b, w)" "up_ok w" "up_text (up_string w)" "up_pad 33 w" "up_rest w < up_rest v"
      using up_start_block_ok [OF ok(1) pad] by auto
    have "up_pad 16 w" using w(4) by (rule up_pad_mono) simp
    then show ?thesis using w 2 v(1) less by (simp add: up_step_def up_step_ok_def up_ok_output)
  next
    case 3
    let ?w = "v\<lparr>up_code_length := up_code_length v + 1\<rparr>"
    have "up_pad 16 v" using pad 3 up_pad_mono by fastforce
    then have w: "up_pad 16 ?w" "up_rest ?w < up_rest u" "up_text (up_string ?w)"
      using less u(3) ok(3) by (simp_all add: up_pad_def up_rest_def up_value_def up_bits_def)
    have "up_step mem u = Some (if 16 < up_code_length u + 1 then Up_fail else Up_go, ?w)"
      using 3 v(1) ok(2) by (simp add: up_step_def)
    moreover have "up_ok ?w" if "\<not> 16 < up_code_length u + 1" using ok(1,2) that by (simp add: up_ok_def)
    moreover have "length (up_output ?w) \<le> 0x10000" using ok(1) by (simp add: up_ok_output)
    ultimately show ?thesis using w unfolding up_step_ok_def by (cases "16 < up_code_length u + 1") simp_all
  next
    case 4
    have "up_pad 50 v" using v(4) [rule_format, of 1] 4 cl by (auto intro: up_pad_mono)
    from up_repeat_ok [OF ok(1) this] show ?thesis using 4 v(1) less by (auto simp: up_step_def up_step_ok_def up_ok_output)
  next
    case 5
    then have "up_pad 16 v" using pad up_pad_mono by fastforce
    moreover have "unat (up_string v ! 0) < 0xF0" using u(3) ok(3) by (simp add: up_text_def)
    ultimately show ?thesis using up_lookup_ok [OF ok(1) _ _ mem less, of code] 5 v(1) by (simp add: up_step_def)
  qed
qed

lemma up_run_returns:
  assumes mem: "length mem = 256"
  shows "up_ok u \<Longrightarrow> up_pad 16 u \<Longrightarrow> up_text (up_string u) \<Longrightarrow>
    \<exists>next v. up_run mem u = Some (next, v) \<and> length (up_output v) \<le> 0x10000"
proof (induction "up_rest u" arbitrary: u rule: less_induct)
  case less
  obtain next1 v where v: "up_step mem u = Some (next1, v)" "length (up_output v) \<le> 0x10000" "up_rest v < up_rest u"
    "next1 = Up_go \<longrightarrow> up_ok v \<and> up_pad 16 v \<and> up_text (up_string v)"
    using up_step_returns [OF less.prems mem] unfolding up_step_ok_def by blast
  show ?case
  proof (cases "next1 = Up_go")
    case True
    then have "up_run mem u = up_run mem v" using v(1) by (subst up_run.simps) simp
    then show ?thesis using less.hyps [OF v(3)] v(4) True by simp
  next
    case False
    then show ?thesis using v(1,2) by (subst up_run.simps) simp
  qed
qed

lemma le_nat_less: "le_nat bs < 256 ^ length bs"
proof (induction bs)
  case (Cons b bs)
  have "256 * Suc (le_nat bs) \<le> 256 * 256 ^ length bs" using Cons by (intro mult_le_mono2) simp
  then have "256 + 256 * le_nat bs \<le> 256 * 256 ^ length bs" by simp
  then have "unat b + 256 * le_nat bs < 256 * 256 ^ length bs" using unat_u8_bound(1) [of b] by linarith
  then show ?case by simp
qed simp

lemma le_nat_zeros: "le_nat (bs @ replicate n 0) = le_nat bs"
proof -
  have "le_nat (replicate n 0) = 0" by (induction n) simp_all
  then show ?thesis by (induction bs) simp_all
qed

text \<open>C20: The unpacker of packed BoomTracker modules, given any file of at least 16 bytes followed by the eight
  zero bytes \<open>load\<close> provides, comes to an end, reads nothing behind those bytes and writes at most the
  65536 bytes of its output buffer; it never leaves its dictionary, its heap or its string buffers.\<close>

theorem up_unpack_safe:
  assumes "16 \<le> length bs" "length mem = 256" "length str = 256"
  shows "\<exists>n out. up_unpack mem str (bs @ replicate 8 0) = Some (n, out) \<and> length out \<le> 0x10000 \<and>
    (n = length out \<or> n = 0)"
proof -
  let ?in = "bs @ replicate 8 (0 :: u8)"
  let ?u = "\<lparr>up_input = ?in, up_pos = 16, up_output = [], up_code_length = 9, up_bits_left = 0, up_bits_buffer = 0,
          up_heap = [], up_dictionary = [], up_string = str\<rparr>"
  have "up_ok ?u" using assms(3) by (simp add: up_ok_def)
  moreover have "up_pad 64 ?u"
  proof -
    have "drop 16 ?in = drop 16 bs @ replicate 8 0" using assms(1) by simp
    then have "up_value ?u = le_nat (drop 16 bs)" by (simp only: up_value_def unpacker.select_convs le_nat_zeros) simp
    moreover have "le_nat (drop 16 bs) < 256 ^ (length bs - 16)" using le_nat_less [of "drop 16 bs"] by simp
    then have "le_nat (drop 16 bs) < 2 ^ (8 * (length bs - 16))" by (simp add: power_mult)
    moreover have "up_rest ?u = 8 * (length bs - 16) + 64" using assms(1) by (simp add: up_rest_def)
    ultimately show ?thesis using assms(1) by (simp add: up_pad_def up_bits_def)
  qed
  ultimately obtain ok v where v: "up_start_block ?u = Some (ok, v)" "up_ok v" "up_text (up_string v)" "up_pad 48 v"
    using up_start_block_ok [of ?u 64] by auto
  have "up_pad 16 v" using v(4) by (rule up_pad_mono) simp
  then obtain next1 w where w: "up_run mem v = Some (next1, w)" "length (up_output w) \<le> 0x10000"
    using up_run_returns [OF assms(2) v(2) _ v(3)] by blast
  have start: "up_start_block (?u\<lparr>up_code_length := 0\<rparr>) = Some (ok, v)" using v(1) by (simp add: up_start_block_def)
  show ?thesis
  proof (cases "take 16 ?in = up_ident \<and> ok")
    case True
    then show ?thesis using assms(1) start w by (simp add: up_unpack_def)
  next
    case False
    then show ?thesis using assms(1) start up_ok_output [OF v(2)] by (auto simp: up_unpack_def)
  qed
qed

lemma up_unpack_safe_witness:
  "\<exists>n out. up_unpack (replicate 256 0) (replicate 256 0) ((up_ident @ [0x45, 0x8A]) @ replicate 8 0) = Some (n, out) \<and>
    length out \<le> 0x10000 \<and> (n = length out \<or> n = 0)"
  by (rule up_unpack_safe) (simp_all add: up_ident_def bytes_of_def)

section \<open>Literals\<close>

text \<open>A module packed without any compression: a codeword of nine bits for every byte.\<close>

fun up_codes :: "bytes \<Rightarrow> nat" where
  "up_codes [] = 0"
| "up_codes (b # bs) = (unat b + 4) + 512 * up_codes bs"

fun up_bytes :: "nat \<Rightarrow> nat \<Rightarrow> bytes" where
  "up_bytes 0 n = []"
| "up_bytes (Suc k) n = of_nat (n mod 256) # up_bytes k (n div 256)"

definition up_pack :: "bytes \<Rightarrow> bytes" where
  "up_pack bs = up_ident @ up_bytes (2 * length bs) (up_codes bs)"

lemma length_up_bytes [simp]: "length (up_bytes k n) = k"
  by (induction k arbitrary: n) simp_all

lemma le_nat_bytes: "n < 256 ^ k \<Longrightarrow> le_nat (up_bytes k n) = n"
proof (induction k arbitrary: n)
  case (Suc k)
  have "n div 256 < 256 ^ k" using Suc.prems by (simp add: less_mult_imp_div_less mult.commute)
  moreover have "unat (of_nat (n mod 256) :: u8) = n mod 256" by (simp add: unat_of_nat)
  ultimately show ?case using Suc.IH by simp
qed simp

lemma up_codes_less: "up_codes bs < 512 ^ length bs"
proof (induction bs)
  case (Cons b bs)
  then have "512 + 512 * up_codes bs \<le> 512 * 512 ^ length bs" by simp
  then have "unat b + 4 + 512 * up_codes bs < 512 * 512 ^ length bs" using unat_u8_bound(1) [of b] by linarith
  then show ?case by simp
qed simp

lemma up_literal_text:
  assumes "length str = 256"
  shows "up_translate (unat b + 4) str u = Some (str[0 := 1, 1 := b])"
proof -
  have "(unat b + 4 + 252) mod 256 = unat b" using unat_u8_bound(1) [of b] by simp
  moreover have "\<not> 0x104 + length (up_dictionary u) \<le> unat b + 4" "\<not> 0x104 \<le> unat b + 4"
    using unat_u8_bound(1) [of b] by linarith+
  ultimately have "up_translate (unat b + 4) str u = do { str \<leftarrow> wr str 0 1; wr str 1 (of_nat (unat b)) }"
    by (simp only: up_translate_def if_False)
  then show ?thesis using assms by (simp add: wr_Some)
qed

lemma up_lookup_literal:
  assumes u: "up_ok u" "unat (up_string u ! 0) < 0xF0" and mem: "length mem = 256" and room: "length (up_output u) < 0x10000"
  shows "\<exists>heap dict str. up_lookup mem (unat b + 4) u = Some (Up_go, u\<lparr>up_heap := heap, up_dictionary := dict, up_string := str,
      up_output := up_output u @ [b]\<rparr>) \<and>
    up_ok (u\<lparr>up_heap := heap, up_dictionary := dict, up_string := str, up_output := up_output u @ [b]\<rparr>) \<and> up_text str"
proof -
  have len: "length (up_string u) = 256" using u(1) by (simp add: up_ok_def)
  have small: "\<not> 0x104 + length (up_dictionary u) \<le> unat b + 4" using unat_u8_bound(1) [of b] by linarith
  let ?n = "up_string u ! 0"
  have n1: "unat (?n + 1) = unat ?n + 1" using u(2) by (simp add: unat_word_ariths)
  let ?str = "(up_string u)[0 := ?n + 1, unat (?n + 1) := b]"
  have "?str ! 0 = ?n + 1" using n1 len by simp
  then have "1 \<le> unat (?str ! 0)" using n1 by simp
  moreover have "up_ok (u\<lparr>up_string := ?str\<rparr>)" using u(1) by (simp add: up_ok_def)
  ultimately obtain heap dict where e: "up_expand (u\<lparr>up_string := ?str\<rparr>) =
      Some (u\<lparr>up_string := ?str, up_heap := heap, up_dictionary := dict\<rparr>)"
    "up_ok (u\<lparr>up_string := ?str, up_heap := heap, up_dictionary := dict\<rparr>)"
    using up_expand_ok [of "u\<lparr>up_string := ?str\<rparr>"] by auto
  let ?t = "?str[0 := 1, 1 := b]"
  let ?w = "u\<lparr>up_heap := heap, up_dictionary := dict, up_string := ?t, up_output := up_output u @ [b]\<rparr>"
  have t: "length ?t = 256" "?t ! 0 = 1" "take 1 (drop 1 ?t) = [b]"
    using len n1 by (simp_all add: take_Suc_conv_app_nth)
  have put: "up_put_string (u\<lparr>up_heap := heap, up_dictionary := dict, up_string := ?t\<rparr>) = Some (True, ?w)"
    using t room by (simp add: up_put_string_def up_put_def rd_Some)
  have "up_lookup mem (unat b + 4) u = Some (Up_go, ?w)"
    using small e(1) put len mem n1 u(2)
    by (simp add: up_lookup_def up_literal_text rd_Some wr_Some)
  moreover have "up_ok ?w" "up_text ?t" using e(2) t room by (simp_all add: up_ok_def up_text_def)
  ultimately show ?thesis by blast
qed

lemma up_get_literal:
  assumes "up_bits u" "up_bits_left u \<le> 7" "up_value u = up_codes (b # bs)" "9 \<le> up_rest u"
  shows "\<exists>v. up_get_code 9 u = Some (unat b + 4, v) \<and> up_bits v \<and> up_bits_left v \<le> 7 \<and>
    up_value v = up_codes bs \<and> up_rest v = up_rest u - 9 \<and> up_frame u v"
proof -
  have "unat b + 4 < 512" using unat_u8_bound(1) [of b] by linarith
  then have "up_value u mod 2 ^ 9 = unat b + 4" "up_value u div 2 ^ 9 = up_codes bs"
    using assms(3) \<open>unat b + 4 < 512\<close> by simp_all
  then show ?thesis using up_get_code_ok [OF assms(1,4,2)] by simp
qed

lemma up_bits_update [simp]:
  "up_bits (u\<lparr>up_heap := h\<rparr>) = up_bits u" "up_bits (u\<lparr>up_dictionary := d\<rparr>) = up_bits u"
  "up_bits (u\<lparr>up_string := str\<rparr>) = up_bits u" "up_bits (u\<lparr>up_output := out\<rparr>) = up_bits u"
  "up_value (u\<lparr>up_heap := h\<rparr>) = up_value u" "up_value (u\<lparr>up_dictionary := d\<rparr>) = up_value u"
  "up_value (u\<lparr>up_string := str\<rparr>) = up_value u" "up_value (u\<lparr>up_output := out\<rparr>) = up_value u"
  "up_rest (u\<lparr>up_heap := h\<rparr>) = up_rest u" "up_rest (u\<lparr>up_dictionary := d\<rparr>) = up_rest u"
  by (simp_all add: up_bits_def up_value_def up_rest_def)

lemma up_literals:
  assumes mem: "length mem = 256"
  shows "up_ok u \<Longrightarrow> up_text (up_string u) \<Longrightarrow> up_code_length u = 9 \<Longrightarrow> up_bits u \<Longrightarrow> up_bits_left u \<le> 7 \<Longrightarrow>
    up_value u = up_codes bs \<Longrightarrow> 9 * length bs + 9 \<le> up_rest u \<Longrightarrow> length (up_output u) + length bs \<le> 0x10000 \<Longrightarrow>
    \<exists>v. up_run mem u = Some (Up_done, v) \<and> up_output v = up_output u @ bs"
proof (induction bs arbitrary: u)
  case Nil
  then obtain v where v: "up_get_code 9 u = Some (0, v)" "up_frame u v"
    using up_get_code_ok [of u 9] by auto
  then have "up_step mem u = Some (Up_done, v)" using Nil.prems(3) by (simp add: up_step_def)
  then show ?case using v(2) by (subst up_run.simps) (simp add: up_frame_def)
next
  case (Cons b bs)
  obtain v where v: "up_get_code 9 u = Some (unat b + 4, v)" "up_bits v" "up_bits_left v \<le> 7"
    "up_value v = up_codes bs" "up_rest v = up_rest u - 9" "up_frame u v"
    using up_get_literal [OF Cons.prems(4,5,6)] Cons.prems(7) by auto
  have f: "up_ok v" "up_output v = up_output u" "up_string v = up_string u" "up_code_length v = 9"
    using up_ok_frame [OF Cons.prems(1) v(6)] v(6) Cons.prems(3) by (simp_all add: up_frame_def)
  have "unat (up_string v ! 0) < 0xF0" "length (up_output v) < 0x10000" using Cons.prems(2,8) f by (simp_all add: up_text_def)
  then obtain heap dict str where w: "up_lookup mem (unat b + 4) v = Some (Up_go, v\<lparr>up_heap := heap, up_dictionary := dict,
      up_string := str, up_output := up_output v @ [b]\<rparr>)"
    "up_ok (v\<lparr>up_heap := heap, up_dictionary := dict, up_string := str, up_output := up_output v @ [b]\<rparr>)" "up_text str"
    using up_lookup_literal [OF f(1) _ mem] by blast
  let ?w = "v\<lparr>up_heap := heap, up_dictionary := dict, up_string := str, up_output := up_output v @ [b]\<rparr>"
  have "up_step mem u = Some (Up_go, ?w)" using v(1) w(1) Cons.prems(3) by (simp add: up_step_def)
  then have "up_run mem u = up_run mem ?w" by (subst up_run.simps) simp
  moreover have "\<exists>x. up_run mem ?w = Some (Up_done, x) \<and> up_output x = up_output ?w @ bs"
    by (rule Cons.IH) (use w v f Cons.prems(7,8) in simp_all)
  ultimately show ?case using f(2) by simp
qed

text \<open>C14: Every module of 1 to 65536 bytes, packed as literals of nine bits, is unpacked to the same bytes.\<close>

theorem up_pack_unpack:
  assumes "bs \<noteq> []" "length bs \<le> 0x10000" "length mem = 256" "length str = 256"
  shows "up_unpack mem str (up_pack bs @ replicate 8 0) = Some (length bs, bs)"
proof -
  obtain b cs where bs: "bs = b # cs" using assms(1) by (cases bs) simp_all
  let ?data = "up_bytes (2 * length bs) (up_codes bs)"
  let ?in = "up_pack bs @ replicate 8 0"
  have ident: "length up_ident = 16" by (simp add: up_ident_def bytes_of_def)
  have "take 16 ?in = up_ident" "drop 16 ?in = ?data @ replicate 8 0" using ident by (simp_all add: up_pack_def)
  moreover define u where "u = \<lparr>up_input = ?in, up_pos = 16, up_output = [], up_code_length = 9, up_bits_left = 0,
    up_bits_buffer = 0, up_heap = [], up_dictionary = [], up_string = str\<rparr>"
  moreover have "up_codes bs < 256 ^ (2 * length bs)"
    using up_codes_less [of bs] power_mono [of 512 "65536 :: nat" "length bs"] by (simp add: power_mult)
  ultimately have value': "up_value u = up_codes bs" and take16: "take 16 ?in = up_ident"
    by (simp_all add: up_value_def le_nat_zeros le_nat_bytes)
  have rest: "up_rest u = 16 * length bs + 64" using ident by (simp add: u_def up_rest_def up_pack_def)
  have u: "up_ok u" "up_bits u" "up_bits_left u \<le> 7" "up_code_length u = 9" "up_string u = str" "up_output u = []"
    using assms(4) ident by (simp_all add: u_def up_ok_def up_bits_def up_pack_def)
  obtain v where v: "up_get_code 9 u = Some (unat b + 4, v)" "up_bits v" "up_bits_left v \<le> 7" "up_value v = up_codes cs"
    "up_rest v = up_rest u - 9" "up_frame u v"
    using up_get_literal [OF u(2,3), of b cs] value' rest bs by auto
  let ?w = "v\<lparr>up_string := str[0 := 1, 1 := b], up_output := [b]\<rparr>"
  have f: "up_string v = str" "up_output v = []" "up_code_length v = 9" "up_ok v"
    using v(6) u up_ok_frame [OF u(1) v(6)] by (simp_all add: up_frame_def)
  have start: "up_start_string u = Some (True, ?w)"
    using v(1) u(4) f assms(4)
    by (simp add: up_start_string_def up_literal_text up_put_string_def up_put_def rd_Some take_Suc_conv_app_nth)
  have block: "up_start_block (u\<lparr>up_code_length := 0\<rparr>) = up_start_string u" by (simp add: up_start_block_def u_def)
  have "\<exists>x. up_run mem ?w = Some (Up_done, x) \<and> up_output x = up_output ?w @ cs"
  proof (rule up_literals [OF assms(3)])
    show "up_ok ?w" using f(4) assms(4) by (simp add: up_ok_def)
  qed (use v f assms bs rest in \<open>simp_all add: up_text_def up_bits_def up_value_def up_rest_def\<close>)
  then show ?thesis
    using start block take16 ident bs by (auto simp: up_unpack_def u_def up_pack_def)
qed

lemma up_pack_unpack_witness:
  "up_unpack (replicate 256 0) (replicate 256 0) (up_pack [1, 2, 0xFF] @ replicate 8 0) = Some (3, [1, 2, 0xFF])"
  using up_pack_unpack [of "[1, 2, 0xFF]" "replicate 256 0" "replicate 256 0"] by simp

end
