(* ===== verification/Cff.thy ===== *)
theory Cff
  imports Dtm Adtrack Cffpack
begin

text \<open>
  \<open>src/cff.cpp\<close>: the loader for BoomTracker modules, plain or packed (theory \<open>Cffpack\<close>). The module is read
  from one buffer, which the loader checks to be long enough for the number of patterns it names.
\<close>

section \<open>Loading\<close>

record cff_instrument =
  ci_data :: bytes
  ci_name :: bytes

record cff_player = mod_player +
  cff_id :: bytes
  cff_version :: u8
  cff_size :: u16
  cff_packed :: u8
  cff_instruments :: "cff_instrument list"
  cff_title :: bytes
  cff_author :: bytes

definition cff_conv_inst :: "nat list" where
  "cff_conv_inst = [2, 1, 10, 9, 4, 3, 6, 5, 0, 8, 7]"

definition cff_conv_note :: "u16 list" where
  "cff_conv_note = [0x16B, 0x181, 0x198, 0x1B0, 0x1CA, 0x1E5, 0x202, 0x220, 0x241, 0x263, 0x287, 0x2AE]"

text \<open>\<open>n\<close> bytes of the module from offset \<open>i\<close>.\<close>

definition cff_slice :: "bytes \<Rightarrow> nat \<Rightarrow> nat \<Rightarrow> bytes option" where
  "cff_slice m i n = do { _ \<leftarrow> require (i + n \<le> length m); Some (take n (drop i m)) }"

definition cff_load_inst :: "bytes \<Rightarrow> nat \<Rightarrow> cff_player \<Rightarrow> cff_player option" where
  "cff_load_inst m i s = do {
     bs \<leftarrow> cff_slice m (i * 32) 32;
     let ci = \<lparr>ci_data = take 12 bs, ci_name = drop 12 bs @ [0]\<rparr>;
     cis \<leftarrow> wr (cff_instruments s) i ci;
     ofold (\<lambda>j s. do {
       c \<leftarrow> rd cff_conv_inst j;
       d \<leftarrow> rd (ci_data ci) j;
       mod_put_data i c d s
     }) [0..<11] (s\<lparr>cff_instruments := cis\<rparr>)
   }"

text \<open>
  One event: note, effect and parameter; \<open>old\<close> is the last parameter of the channel that was not zero. The
  effects are letters.
\<close>

definition cff_params :: "u8 \<Rightarrow> u8 \<Rightarrow> mod_event \<Rightarrow> mod_event" where
  "cff_params command byte e =
     e\<lparr>ev_command := command, ev_param1 := drop_bit 4 byte, ev_param2 := byte AND 15\<rparr>"

definition cff_volume :: "u8 \<Rightarrow> u8 \<Rightarrow> mod_event \<Rightarrow> mod_event" where
  "cff_volume command byte e =
     (let v = 0x3F - uint byte
      in e\<lparr>ev_command := command, ev_param1 := to_u8 (v div 16), ev_param2 := to_u8 (v mod 16)\<rparr>)"

definition cff_event :: "u8 \<Rightarrow> u8 \<Rightarrow> u8 \<Rightarrow> u8 \<Rightarrow> mod_event \<Rightarrow> mod_event" where
  "cff_event old b0 b1 b2 e =
     (let e = e\<lparr>ev_note := if b0 = 0x6D then 127 else b0\<rparr>;
          letter = (\<lambda>c. b1 = of_char c)
      in if letter (CHR ''I'') then
           (if b2 < 47 then e\<lparr>ev_inst := b2 + 1\<rparr> else e)\<lparr>ev_param1 := 0, ev_param2 := 0\<rparr>
         else if letter (CHR ''H'') then
           (if b2 < 16 then e\<lparr>ev_command := 7, ev_param1 := 7, ev_param2 := 0x0D\<rparr> else e\<lparr>ev_command := 7\<rparr>)
         else if letter (CHR ''A'') then cff_params 19 b2 e
         else if letter (CHR ''L'') then cff_params 13 b2 e
         else if letter (CHR ''K'') then cff_params 11 b2 e
         else if letter (CHR ''M'') then cff_params 27 b2 e
         else if letter (CHR ''C'') then cff_volume 21 b2 e
         else if letter (CHR ''G'') then cff_volume 22 b2 e
         else if letter (CHR ''B'') then e\<lparr>ev_command := 25, ev_param1 := b2, ev_param2 := 0x0F\<rparr>
         else if letter (CHR ''E'') then cff_params 24 old e
         else if letter (CHR ''F'') then cff_params 23 old e
         else if letter (CHR ''D'') then
           (if old AND 15 \<noteq> 0 then e\<lparr>ev_command := 14, ev_param1 := 5, ev_param2 := old AND 15\<rparr>
            else e\<lparr>ev_command := 14, ev_param1 := 4, ev_param2 := drop_bit 4 old\<rparr>)
         else if letter (CHR ''J'') then e\<lparr>ev_param1 := drop_bit 4 old, ev_param2 := old AND 15\<rparr>
         else e)"

text \<open>A track: channel \<open>j\<close> of pattern \<open>i\<close>.\<close>

definition cff_row ::
  "bytes \<Rightarrow> nat \<Rightarrow> nat \<Rightarrow> nat \<Rightarrow> u8 \<times> 'a mod_player_scheme \<Rightarrow> (u8 \<times> 'a mod_player_scheme) option"
where
  "cff_row m i j k = (\<lambda>(old, s). do {
     let n = 0x669 + ((i * 64 + k) * 9 + j) * 3;
     b0 \<leftarrow> rd m n;
     b1 \<leftarrow> rd m (n + 1);
     b2 \<leftarrow> rd m (n + 2);
     let old = (if b2 \<noteq> 0 then b2 else old);
     s \<leftarrow> mod_put_event (i * 9 + j) k (cff_event old b0 b1 b2) s;
     Some (old, s)
   })"

definition cff_tracks :: "bytes \<Rightarrow> nat \<Rightarrow> 'a mod_player_scheme \<Rightarrow> 'a mod_player_scheme option" where
  "cff_tracks m nop = ofold (\<lambda>(i, j) s. do {
     (_, s) \<leftarrow> ofold (cff_row m i j) [0..<64] (0, s);
     Some s
   }) (List.product [0..<nop] [0..<9])"

text \<open>The length of the order list and whether its entries name patterns; the first one is not in the loop.\<close>

fun cff_length :: "bytes \<Rightarrow> nat list \<Rightarrow> (bool \<times> nat) option" where
  "cff_length os [] = Some (True, 64)"
| "cff_length os (i # is) = do {
     e \<leftarrow> rd os i;
     if e AND 0x80 \<noteq> 0 then Some (True, i)
     else if 36 \<le> e then Some (False, i)
     else cff_length os is
   }"

definition cff_rewind :: "int \<Rightarrow> cff_player \<Rightarrow> cff_player option" where
  "cff_rewind subsong s = do {
     s \<leftarrow> mod_rewind subsong s;
     ofold mod_default_instrument [0..<9] s
   }"

definition cff_finish :: "cff_player \<Rightarrow> (bool \<times> cff_player) option" where
  "cff_finish s = do {
     let s = s\<lparr>mod_restartpos := 0\<rparr>;
     e \<leftarrow> rd (mod_order s) 0;
     if 0x36 \<le> e then Some (False, s)
     else do {
       (ok, len) \<leftarrow> cff_length (mod_order s) [1..<64];
       let s = s\<lparr>mod_length := len\<rparr>;
       if \<not> ok then Some (False, s)
       else do {
         s \<leftarrow> cff_rewind 0 (s\<lparr>mod_bpm := 0x7D\<rparr>);
         Some (True, s)
       }
     }
   }"

definition cff_setup :: "(nat \<Rightarrow> u8) \<Rightarrow> (nat \<Rightarrow> mod_chan) \<Rightarrow> cff_player \<Rightarrow> cff_player option" where
  "cff_setup mem cmem s = do {
     s \<leftarrow> mod_init_notetable cff_conv_note
           (mod_realloc_patterns cmem 36 64 9 (mod_realloc_order mem 64 (mod_realloc_instruments 47 s)));
     mod_init_trackord s
   }"

text \<open>The module from its buffer \<open>m\<close>, of whose bytes \<open>long\<close> are the module's.\<close>

definition cff_load_module ::
  "(nat \<Rightarrow> u8) \<Rightarrow> (nat \<Rightarrow> mod_chan) \<Rightarrow> nat \<Rightarrow> bytes \<Rightarrow> cff_player \<Rightarrow> (bool \<times> cff_player) option"
where
  "cff_load_module mem cmem long m s = do {
     postcard \<leftarrow> (if long < 0x669 + 64 * 9 * 3 then Some [] else cff_slice m 0x5E1 31);
     if long < 0x669 + 64 * 9 * 3 \<or> postcard \<noteq> bytes_of ''CUD-FM-File - SEND A POSTCARD -'' then Some (False, s)
     else do {
       s \<leftarrow> cff_setup mem cmem s;
       s \<leftarrow> ofold (cff_load_inst m) [0..<47] s;
       nop \<leftarrow> rd m 0x5E0;
       let s = s\<lparr>mod_nop := ucast nop\<rparr>;
       if nop < 1 \<or> nop > 36 \<or> 0x669 + unat nop * 64 * 9 * 3 > long then Some (False, s)
       else do {
         title \<leftarrow> cff_slice m 0x614 20;
         author \<leftarrow> cff_slice m 0x600 20;
         orders \<leftarrow> cff_slice m 0x628 64;
         _ \<leftarrow> require (64 \<le> length (mod_order s));
         s \<leftarrow> cff_tracks m (unat nop)
               (s\<lparr>cff_title := title, cff_author := author, mod_order := orders @ drop 64 (mod_order s)\<rparr>);
         cff_finish s
       }
     }
   }"

definition cff_load ::
  "('f, 'fl) binio \<Rightarrow> 'f opener \<Rightarrow> (nat \<Rightarrow> u8) \<Rightarrow> (nat \<Rightarrow> mod_chan) \<Rightarrow> string \<Rightarrow> cff_player \<Rightarrow>
   (bool \<times> cff_player) option"
where
  "cff_load io opn mem cmem filename s =
     (case opn filename of None \<Rightarrow> Some (False, s) | Some f \<Rightarrow> do {
        let (_, ident, f) = bio_readString io 16 (cff_id s) f;
        let (version, f) = read_u8 io f;
        let (sz, f) = read_u16 io f;
        let (packed, f) = read_u8 io f;
        let f = bio_ignore io 12 f;
        let s = s\<lparr>cff_id := ident, cff_version := version, cff_size := sz, cff_packed := packed\<rparr>;
        if ident \<noteq> bytes_of ''<CUD-FM-File>'' @ [0x1A, 0xDE, 0xE0] \<or> sz < 16 then Some (False, s)
        else do {
          let n = unat sz;
          let (_, m, f) = bio_readString io n (fresh mem (n + 8)) f;
          if packed \<noteq> 0 then do {
            (len, out) \<leftarrow> up_unpack (fresh mem 256) (fresh mem 256) (take n m @ replicate 8 0);
            cff_load_module mem cmem len (out @ drop (length out) (fresh mem 0x10000)) s
          }
          else cff_load_module mem cmem n m s
        }
      })"

section \<open>The loader stays in its arrays\<close>

definition cff_arrays :: "cff_player \<Rightarrow> bool" where
  "cff_arrays s \<longleftrightarrow> length (cff_id s) = 16 \<and> length (cff_instruments s) = 47"

lemma cff_slice_Some: "i + n \<le> length m \<Longrightarrow> cff_slice m i n = Some (take n (drop i m))"
  by (simp add: cff_slice_def)

lemma cff_load_inst_ok:
  assumes "mod_shape k 47 Q s" "i < 47" "length (cff_instruments s) = 47" "47 * 32 \<le> length m"
  shows "\<exists>t. cff_load_inst m i s = Some t \<and> mod_shape k 47 Q t \<and> length (cff_instruments t) = 47 \<and>
    mod_npats t = mod_npats s \<and> mod_nrows t = mod_nrows s \<and> mod_nchans t = mod_nchans s \<and>
    mod_activechan t = mod_activechan s \<and> mod_initspeed t = mod_initspeed s"
proof -
  let ?bs = "take 32 (drop (i * 32) m)"
  let ?ci = "\<lparr>ci_data = take 12 ?bs, ci_name = drop 12 ?bs @ [0]\<rparr>"
  let ?s = "s\<lparr>cff_instruments := (cff_instruments s)[i := ?ci]\<rparr>"
  let ?I = "\<lambda>t. mod_shape k 47 Q t \<and> mod_scalars t = mod_scalars ?s"
  have room: "i * 32 + 32 \<le> length m" using assms(2,4) by simp
  have c: "length cff_conv_inst = 11" "\<forall>x \<in> set cff_conv_inst. x < 11" by (simp_all add: cff_conv_inst_def)
  have "\<exists>t. ofold (\<lambda>j s. do {
       c \<leftarrow> rd cff_conv_inst j;
       d \<leftarrow> rd (ci_data ?ci) j;
       mod_put_data i c d s
     }) [0..<11] ?s = Some t \<and> ?I t"
  proof (rule ofold_invariant)
    show "?I ?s" using assms(1) by (simp add: mod_shape_def)
    fix j t assume "j \<in> set [0..<11]" and I: "?I t"
    then have j: "j < 11" by simp
    then have "cff_conv_inst ! j < 11" using c by simp
    then show "\<exists>u. do { c \<leftarrow> rd cff_conv_inst j; d \<leftarrow> rd (ci_data ?ci) j; mod_put_data i c d t } = Some u \<and> ?I u"
      using mod_put_data_ok [of k 47 Q t i "cff_conv_inst ! j" "ci_data ?ci ! j"] I assms(2) j c(1) room by (simp add: rd_Some)
  qed
  then obtain t where t: "ofold (\<lambda>j s. do {
       c \<leftarrow> rd cff_conv_inst j;
       d \<leftarrow> rd (ci_data ?ci) j;
       mod_put_data i c d s
     }) [0..<11] ?s = Some t" "mod_shape k 47 Q t" "mod_scalars t = mod_scalars ?s" by blast
  have "cff_instruments t = cff_instruments ?s" using mod_scalars_eqs(13) [OF t(3)] by (cases t, cases s) simp
  moreover have "cff_load_inst m i s = Some t"
    using t(1) assms(2,3) room by (simp add: cff_load_inst_def cff_slice_Some wr_Some del: upt.simps ofold.simps)
  ultimately show ?thesis using t(2) mod_scalars_eqs(1-3,6,9) [OF t(3)] assms(3) by simp
qed

lemma cff_event_inst: "unat (ev_inst e) \<le> 47 \<Longrightarrow> unat (ev_inst (cff_event old b0 b1 b2 e)) \<le> 47"
proof -
  assume e: "unat (ev_inst e) \<le> 47"
  have "unat (b2 + 1) \<le> 47" if "b2 < 47"
  proof -
    have "unat b2 < 47" using that by (simp add: word_less_nat_alt)
    then show ?thesis by (simp add: unat_word_ariths)
  qed
  then show ?thesis using e by (simp add: cff_event_def Let_def cff_params_def cff_volume_def)
qed

lemma cff_row_ok:
  assumes s: "mod_shape 47 47 Q s" "mod_npats s = 36" "mod_nrows s = 64" "mod_nchans s = 9"
    and at: "i < nop" "j < 9" "k < 64" and nop: "nop \<le> 36" "0x669 + nop * 64 * 9 * 3 \<le> length m"
  shows "\<exists>old' t. cff_row m i j k (old, s) = Some (old', t) \<and> mod_shape 47 47 Q t \<and> mod_scalars t = mod_scalars s"
proof -
  have "i + 1 \<le> nop" using at by simp
  then have "(i + 1) * 64 \<le> nop * 64" by (rule mult_le_mono1)
  then have "i * 64 + k + 1 \<le> nop * 64" using at(3) by simp
  then have "(i * 64 + k + 1) * 9 \<le> nop * 64 * 9" by (rule mult_le_mono1)
  then have "(i * 64 + k) * 9 + j + 1 \<le> nop * 64 * 9" using at(2) by simp
  then have "((i * 64 + k) * 9 + j + 1) * 3 \<le> nop * 64 * 9 * 3" by (rule mult_le_mono1)
  then have b: "0x669 + ((i * 64 + k) * 9 + j) * 3 + 2 < length m" using nop(2) by simp
  have t: "i * 9 + j < mod_npats s * mod_nchans s" using at nop(1) s(2,4) by simp
  show ?thesis
    using mod_put_event_ok [OF s(1) t, of k "cff_event (if m ! (0x669 + ((i * 64 + k) * 9 + j) * 3 + 2) \<noteq> 0
      then m ! (0x669 + ((i * 64 + k) * 9 + j) * 3 + 2) else old) (m ! (0x669 + ((i * 64 + k) * 9 + j) * 3))
      (m ! (0x669 + ((i * 64 + k) * 9 + j) * 3 + 1)) (m ! (0x669 + ((i * 64 + k) * 9 + j) * 3 + 2))"]
      cff_event_inst at(3) s(3) b by (auto simp: cff_row_def rd_Some Let_def)
qed

lemma cff_tracks_ok:
  assumes s: "mod_shape 47 47 Q s" "mod_npats s = 36" "mod_nrows s = 64" "mod_nchans s = 9"
    and nop: "nop \<le> 36" "0x669 + nop * 64 * 9 * 3 \<le> length m"
  shows "\<exists>t. cff_tracks m nop s = Some t \<and> mod_shape 47 47 Q t \<and> mod_scalars t = mod_scalars s"
proof -
  let ?I = "\<lambda>t. mod_shape 47 47 Q t \<and> mod_scalars t = mod_scalars s"
  have "\<exists>t. cff_tracks m nop s = Some t \<and> ?I t"
    unfolding cff_tracks_def
  proof (rule ofold_invariant)
    show "?I s" using s(1) by simp
    fix p t assume "p \<in> set (List.product [0..<nop] [0..<9])" and I: "?I t"
    then obtain i j where p: "p = (i, j)" "i < nop" "j < 9" by auto
    have "\<exists>x. ofold (cff_row m i j) [0..<64] (0, t) = Some x \<and> ?I (snd x)"
    proof (rule ofold_invariant)
      show "?I (snd (0, t))" using I by simp
      fix k and x :: "u8 \<times> 'a mod_player_scheme" assume k: "k \<in> set [0..<64]" and J: "?I (snd x)"
      then have u: "mod_shape 47 47 Q (snd x)" "mod_npats (snd x) = 36" "mod_nrows (snd x) = 64" "mod_nchans (snd x) = 9"
        using mod_scalars_eqs(1-3) [of "snd x" s] s(2-4) by simp_all
      show "\<exists>y. cff_row m i j k x = Some y \<and> ?I (snd y)"
        using cff_row_ok [OF u p(2,3) _ nop, of k "fst x"] k J by auto
    qed
    then show "\<exists>u. (\<lambda>(i, j) s. do { (_, s) \<leftarrow> ofold (cff_row m i j) [0..<64] (0, s); Some s }) p t = Some u \<and> ?I u"
      unfolding p(1) prod.case by (auto simp del: upt.simps ofold.simps)
  qed
  then show ?thesis by simp
qed

lemma cff_length_ok:
  "length os = 64 \<Longrightarrow> a \<le> 64 \<Longrightarrow> \<exists>ok len. cff_length os [a..<64] = Some (ok, len) \<and> a \<le> len \<and> len \<le> 64 \<and>
     (ok \<longrightarrow> (\<forall>i. a \<le> i \<and> i < len \<longrightarrow> unat (os ! i) < 36))"
proof (induction "64 - a" arbitrary: a)
  case 0
  then show ?case by (intro exI [of _ True] exI [of _ 64]) simp
next
  case (Suc n)
  then have a: "[a..<64] = a # [Suc a..<64]" "rd os a = Some (os ! a)" by (simp_all add: upt_conv_Cons rd_Some)
  show ?case
  proof (cases "os ! a AND 0x80 \<noteq> 0 \<or> 36 \<le> os ! a")
    case True
    then show ?thesis using a Suc.prems Suc.hyps(2) by (auto simp del: upt.simps)
  next
    case False
    then have e: "unat (os ! a) < 36" by (simp add: word_le_nat_alt not_le)
    have n: "n = 64 - Suc a" and a64: "Suc a \<le> 64" using Suc.hyps(2) by simp_all
    obtain ok len where r: "cff_length os [Suc a..<64] = Some (ok, len)" "Suc a \<le> len" "len \<le> 64"
      "ok \<longrightarrow> (\<forall>i. Suc a \<le> i \<and> i < len \<longrightarrow> unat (os ! i) < 36)"
      using Suc.hyps(1) [OF n Suc.prems(1) a64] by blast
    have "unat (os ! i) < 36" if "ok" "a \<le> i" "i < len" for i
      using that r(4) e by (cases "i = a") simp_all
    moreover have "cff_length os [a..<64] = Some (ok, len)" using a False r(1) by (simp del: upt.simps)
    ultimately show ?thesis using r(2,3) by auto
  qed
qed

lemma cff_setup_ok:
  assumes "mod_shape 0 m Q s"
  shows "\<exists>t. cff_setup mem cmem s = Some t \<and> mod_shape 47 47 (\<lambda>os. length os = 64) t \<and>
    mod_npats t = 36 \<and> mod_nrows t = 64 \<and> mod_nchans t = 9 \<and> mod_activechan t = mod_activechan s \<and>
    mod_initspeed t = mod_initspeed s \<and> cff_instruments t = cff_instruments s"
proof -
  let ?s = "mod_realloc_patterns cmem 36 64 9 (mod_realloc_order mem 64 (mod_realloc_instruments 47 s))"
  let ?u = "?s\<lparr>mod_notetable := cff_conv_note\<rparr>"
  have "mod_shape 0 47 (\<lambda>os. length os = 64) ?s"
    using assms by (intro mod_realloc_patterns_shape mod_realloc_order_shape [where Q = Q] mod_realloc_instruments_shape [where m = m]) simp_all
  then have "mod_shape 47 47 (\<lambda>os. length os = 64) ?s" by (rule mod_shape_mono) simp
  then have "mod_shape 47 47 (\<lambda>os. length os = 64) ?u" by (simp add: mod_shape_def cff_conv_note_def)
  then obtain t where t: "mod_init_trackord ?u = Some t" "mod_shape 47 47 (\<lambda>os. length os = 64) t" "mod_scalars t = mod_scalars ?u"
    using mod_init_trackord_ok by blast
  note eq = mod_scalars_eqs [OF t(3)]
  have "cff_instruments t = cff_instruments ?u" using eq(13) by (cases t, cases ?u) simp
  moreover have "mod_init_notetable cff_conv_note ?s = Some ?u" by (simp add: mod_init_notetable_def cff_conv_note_def)
  ultimately show ?thesis using t(1,2) eq(1-3,6,9)
    by (simp add: cff_setup_def mod_realloc_order_def mod_realloc_instruments_def mod_realloc_patterns_def)
qed

text \<open>What an accepted module is: all its orders but the first name patterns; the first may be up to 53.\<close>

definition cff_accepted :: "cff_player \<Rightarrow> bool" where
  "cff_accepted t \<longleftrightarrow>
     unat (mod_order t ! 0) < 54 \<and> (\<forall>i. 0 < i \<and> i < mod_length t \<longrightarrow> unat (mod_order t ! i) < 36) \<and>
     (unat (mod_order t ! 0) < 36 \<longrightarrow> mod_ok t \<and> mod_ord t = 0 \<and> mod_rw t = 0) \<and>
     (36 \<le> unat (mod_order t ! 0) \<longrightarrow> mod_update t = None)"

lemma cff_finish_ok:
  assumes s: "mod_shape 47 47 (\<lambda>os. length os = 64) s" "mod_npats s = 36" "mod_nrows s = 64" "mod_nchans s = 9"
    "mod_activechan s = 0xffffffff" "mod_initspeed s = 6"
  shows "\<exists>b t. cff_finish s = Some (b, t) \<and> (b \<longrightarrow> cff_accepted t)"
proof -
  have os: "length (mod_order s) = 64" using s(1) by (simp add: mod_shape_def)
  obtain ok len where len: "cff_length (mod_order s) [1..<64] = Some (ok, len)" "1 \<le> len" "len \<le> 64"
    "ok \<longrightarrow> (\<forall>i. 1 \<le> i \<and> i < len \<longrightarrow> unat (mod_order s ! i) < 36)"
    using cff_length_ok [OF os, of 1] by auto
  let ?s = "s\<lparr>mod_restartpos := 0, mod_length := len, mod_bpm := 0x7D\<rparr>"
  have sh: "mod_shape 47 47 (\<lambda>os. length os = 64) ?s" using s(1) by (simp add: mod_shape_def)
  obtain t where t: "cff_rewind 0 ?s = Some t" "mod_orders_ok ?s \<longrightarrow> mod_ok t" "mod_pre 47 9 t" "mod_ord t = 0" "mod_rw t = 0"
    "mod_del t = 0" "mod_speed t = 6" "mod_frame (t\<lparr>mod_nop := mod_nop ?s\<rparr>) = mod_frame ?s"
    using mod_rewind_defaults [OF sh, of 9 0] s len(3) os by (auto simp: cff_rewind_def)
  note eq = mod_frame_eqs [OF t(8)]
  let ?e = "mod_order s ! 0"
  show ?thesis
  proof (cases "0x36 \<le> ?e \<or> \<not> ok")
    case True
    then have "\<exists>t. cff_finish s = Some (False, t)"
      using os len(1) by (cases "0x36 \<le> ?e") (simp_all add: cff_finish_def rd_Some Let_def del: upt.simps)
    then show ?thesis by blast
  next
    case False
    then have e: "unat ?e < 54" by (simp add: word_le_nat_alt not_le)
    have run: "cff_finish s = Some (True, t)" using False os len(1) t(1) by (simp add: cff_finish_def rd_Some del: upt.simps)
    have good: "mod_ok t" if small: "unat ?e < 36"
    proof -
      have "mod_orders_ok ?s"
      proof (rule mod_orders_plain)
        fix i assume "i < mod_length ?s"
        then have "unat (mod_order s ! i) < 36" using len(4) False small by (cases "i = 0") auto
        then show "unat (mod_order ?s ! i) < mod_npats ?s \<and> unat (mod_order ?s ! i) < JUMPMARKER"
          using s(2) by (simp add: JUMPMARKER_def)
      qed (use len os in simp_all)
      then show ?thesis using t(2) by blast
    qed
    have bad: "mod_update t = None" if large: "36 \<le> unat ?e"
    proof (rule mod_bad_pattern_faults [OF t(3)])
      have "length (mod_trackord s) = 36" using s(1,2) matrix_length by (fastforce simp: mod_shape_def)
      then show "length (mod_trackord t) \<le> unat (mod_order t ! mod_ord t)" using eq t(4) large by simp
    qed (use eq t len os s e in \<open>simp_all add: JUMPMARKER_def\<close>)
    have "cff_accepted t" using e len(4) False good bad eq t(4,5) by (auto simp: cff_accepted_def)
    then show ?thesis using run by blast
  qed
qed

definition cff_ready :: "cff_player \<Rightarrow> bool" where
  "cff_ready s \<longleftrightarrow>
     mod_shape 47 47 (\<lambda>os. length os = 64) s \<and> mod_npats s = 36 \<and> mod_nrows s = 64 \<and> mod_nchans s = 9 \<and>
     mod_activechan s = 0xffffffff \<and> mod_initspeed s = 6"

lemma cff_ready_nop [simp]: "cff_ready (s\<lparr>mod_nop := nop\<rparr>) = cff_ready s"
  by (simp add: cff_ready_def mod_shape_def)

lemma cff_ready_texts:
  "cff_ready s \<Longrightarrow> length os = 64 \<Longrightarrow> cff_ready (s\<lparr>cff_title := title, cff_author := author, mod_order := os\<rparr>)"
  by (auto simp: cff_ready_def mod_shape_def)

lemma cff_load_insts_ok:
  assumes "cff_ready s" "length (cff_instruments s) = 47" "47 * 32 \<le> length m"
  shows "\<exists>t. ofold (cff_load_inst m) [0..<47] s = Some t \<and> cff_ready t"
proof -
  have "\<exists>t. ofold (cff_load_inst m) [0..<47] s = Some t \<and> cff_ready t \<and> length (cff_instruments t) = 47"
  proof (rule ofold_invariant)
    fix i t assume "i \<in> set [0..<47]" and I: "cff_ready t \<and> length (cff_instruments t) = 47"
    then have i: "i < 47" and sh: "mod_shape 47 47 (\<lambda>os. length os = 64) t" by (simp_all add: cff_ready_def)
    show "\<exists>u. cff_load_inst m i t = Some u \<and> cff_ready u \<and> length (cff_instruments u) = 47"
      using cff_load_inst_ok [OF sh i _ assms(3)] I by (auto simp: cff_ready_def)
  qed (use assms in simp)
  then show ?thesis by blast
qed

lemma cff_load_patterns_ok:
  assumes "cff_ready s" "nop \<le> 36" "0x669 + nop * 64 * 9 * 3 \<le> length m" "length orders = 64"
  shows "\<exists>t. cff_tracks m nop (s\<lparr>cff_title := title, cff_author := author, mod_order := orders\<rparr>) = Some t \<and> cff_ready t"
proof -
  let ?s = "s\<lparr>cff_title := title, cff_author := author, mod_order := orders\<rparr>"
  have s: "mod_shape 47 47 (\<lambda>os. length os = 64) ?s" "mod_npats ?s = 36" "mod_nrows ?s = 64" "mod_nchans ?s = 9"
    using cff_ready_texts [OF assms(1,4)] unfolding cff_ready_def by blast+
  obtain t where t: "cff_tracks m nop ?s = Some t" "mod_shape 47 47 (\<lambda>os. length os = 64) t" "mod_scalars t = mod_scalars ?s"
    using cff_tracks_ok [OF s assms(2,3)] by blast
  then show ?thesis using mod_scalars_eqs(1-3,6,9) [OF t(3)] assms(1) by (simp add: cff_ready_def)
qed

lemma cff_load_module_ok:
  assumes s: "mod_shape 0 250 Q s" "length (cff_instruments s) = 47" "mod_activechan s = 0xffffffff" "mod_initspeed s = 6"
    and m: "long \<le> length m"
  shows "\<exists>b t. cff_load_module mem cmem long m s = Some (b, t) \<and> (b \<longrightarrow> cff_accepted t)"
proof (cases "0x669 + 64 * 9 * 3 \<le> long \<and> take 31 (drop 0x5E1 m) = bytes_of ''CUD-FM-File - SEND A POSTCARD -''")
  case False
  then show ?thesis using m by (auto simp: cff_load_module_def cff_slice_def)
next
  case True
  then have long: "0x669 + 64 * 9 * 3 \<le> length m" using m by linarith
  obtain s1 where s1: "cff_setup mem cmem s = Some s1" "cff_ready s1" "length (cff_instruments s1) = 47"
    using cff_setup_ok [OF s(1), of mem cmem] s(2-4) by (auto simp: cff_ready_def)
  have "47 * 32 \<le> length m" using long by simp
  from cff_load_insts_ok [OF s1(2,3) this] obtain s2 where s2: "ofold (cff_load_inst m) [0..<47] s1 = Some s2" "cff_ready s2" by blast
  define nop where "nop = m ! 0x5E0"
  have nop: "rd m 0x5E0 = Some nop" using long by (simp add: rd_Some nop_def)
  let ?s2 = "s2\<lparr>mod_nop := ucast nop\<rparr>"
  have ready: "cff_ready ?s2" using s2(2) by simp
  let ?orders = "take 64 (drop 0x628 m)"
  have slices: "cff_slice m 0x5E1 31 = Some (take 31 (drop 0x5E1 m))" "cff_slice m 0x614 20 = Some (take 20 (drop 0x614 m))"
    "cff_slice m 0x600 20 = Some (take 20 (drop 0x600 m))" "cff_slice m 0x628 64 = Some ?orders"
    using long by (simp_all add: cff_slice_Some)
  have os: "length (mod_order ?s2) = 64" using ready by (simp add: cff_ready_def mod_shape_def)
  show ?thesis
  proof (cases "nop < 1 \<or> nop > 36 \<or> 0x669 + unat nop * 64 * 9 * 3 > long")
    case True': True
    have "cff_load_module mem cmem long m s = Some (False, ?s2)"
      using True True' slices(1) s1(1) s2(1) nop
      by (simp only: cff_load_module_def Let_def bind.bind_lunit if_True if_False not_less [symmetric] simp_thms)
    then show ?thesis by blast
  next
    case False
    then have n: "unat nop \<le> 36" "0x669 + unat nop * 64 * 9 * 3 \<le> length m"
      using m by (simp_all add: not_less word_le_nat_alt)
    have ol: "length ?orders = 64" using long by simp
    obtain t where t: "cff_tracks m (unat nop) (?s2\<lparr>cff_title := take 20 (drop 0x614 m), cff_author := take 20 (drop 0x600 m),
      mod_order := ?orders\<rparr>) = Some t" "cff_ready t"
      using cff_load_patterns_ok [OF ready n ol] by blast
    obtain b u where u: "cff_finish t = Some (b, u)" "b \<longrightarrow> cff_accepted u"
      using cff_finish_ok [of t] t(2) by (auto simp: cff_ready_def)
    have "?orders @ drop 64 (mod_order ?s2) = ?orders" "require (64 \<le> length (mod_order ?s2)) = Some ()" using os by simp_all
    then have "cff_load_module mem cmem long m s = Some (b, u)"
      using True False slices s1(1) s2(1) nop t(1) u(1)
      by (simp only: cff_load_module_def Let_def bind.bind_lunit if_True if_False not_less [symmetric] simp_thms)
    then show ?thesis using u(2) by blast
  qed
qed

text \<open>C39: \<open>CcffLoader::load\<close> returns for every file, plain or packed, within its buffers. The patterns of an accepted
  module exist but for the first order, which is compared with 0x36 in place of 36: if that one exists too,
  the module is well formed and plays to its end, otherwise the first update reads outside the tracks.\<close>

theorem cff_load_playable:
  assumes "stream_laws io P" "\<And>f. opn filename = Some f \<Longrightarrow> P f" "mod_construct mem0 cmem0 chip s0 = Some s"
    "cff_arrays s"
  shows "\<exists>b t. cff_load io opn mem cmem filename s = Some (b, t) \<and>
    (b \<longrightarrow> (\<forall>i. 0 < i \<and> i < mod_length t \<longrightarrow> unat (mod_order t ! i) < 36) \<and>
      (unat (mod_order t ! 0) < 36 \<longrightarrow> mod_ok t \<and> mod_ord t = 0 \<and> mod_rw t = 0 \<and>
        (\<exists>n s1 s2. play mod_update n t = Some s1 \<and> mod_update s1 = Some (False, s2))) \<and>
      (36 \<le> unat (mod_order t ! 0) \<longrightarrow> unat (mod_order t ! 0) < 54 \<and> mod_update t = None))"
proof (cases "opn filename")
  case None
  then show ?thesis by (auto simp: cff_load_def)
next
  case (Some f)
  have song: "mod_ok t \<Longrightarrow> \<exists>n s1 s2. play mod_update n t = Some s1 \<and> mod_update s1 = Some (False, s2)" for t :: cff_player
    by (rule mod_contract.reaches_end)
  obtain k ident f1 where f1: "bio_readString io 16 (cff_id s) f = (k, ident, f1)" by (metis surj_pair)
  obtain version f2 where f2: "read_u8 io f1 = (version, f2)" by fastforce
  obtain sz f3 where f3: "read_u16 io f2 = (sz, f3)" by fastforce
  obtain packed f4 where f4: "read_u8 io f3 = (packed, f4)" by fastforce
  have "P f1" using stream_lawsD(3) [OF assms(1) assms(2) [OF Some] f1] by simp
  then have "P f4" by (rule read_u8_stream [OF assms(1) read_u16_stream [OF assms(1) read_u8_stream [OF assms(1) _ f2] f3] f4])
  then have P5: "P (bio_ignore io 12 f4)" by (rule stream_lawsD(9) [OF assms(1)])
  let ?s = "s\<lparr>cff_id := ident, cff_version := version, cff_size := sz, cff_packed := packed\<rparr>"
  have s: "mod_shape 0 250 (\<lambda>os. length os = 128) ?s" "length (cff_instruments ?s) = 47" "mod_activechan ?s = 0xffffffff"
    "mod_initspeed ?s = 6"
    using mod_construct_ok(1,5,6) [OF assms(3)] assms(4) by (simp_all add: mod_shape_def cff_arrays_def)
  let ?n = "unat sz"
  obtain j m f6 where m: "bio_readString io ?n (fresh mem (?n + 8)) (bio_ignore io 12 f4) = (j, m, f6)" by (metis surj_pair)
  have lm: "length m = ?n + 8" using stream_lawsD(3) [OF assms(1) P5 m] by simp
  show ?thesis
  proof (cases "ident \<noteq> bytes_of ''<CUD-FM-File>'' @ [0x1A, 0xDE, 0xE0] \<or> sz < 16")
    case True
    then show ?thesis using Some f1 f2 f3 f4 by (auto simp: cff_load_def)
  next
    case False
    have n16: "16 \<le> length (take ?n m)" using False lm by (simp add: word_le_nat_alt not_less)
    obtain len out where u: "up_unpack (fresh mem 256) (fresh mem 256) (take ?n m @ replicate 8 0) = Some (len, out)"
      "length out \<le> 0x10000" "len = length out \<or> len = 0"
      using up_unpack_safe [OF n16, of "fresh mem 256" "fresh mem 256"] by auto
    have "\<exists>b t. cff_load io opn mem cmem filename s = Some (b, t) \<and> (b \<longrightarrow> cff_accepted t)"
    proof (cases "packed = 0")
      case True
      have "?n \<le> length m" using lm by simp
      from cff_load_module_ok [OF s this, of mem cmem] show ?thesis
        using Some f1 f2 f3 f4 m False True by (simp add: cff_load_def)
    next
      case packed: False
      have "len \<le> length (out @ drop (length out) (fresh mem 0x10000))" using u(3) by auto
      from cff_load_module_ok [OF s this, of mem cmem] show ?thesis
        using Some f1 f2 f3 f4 m False packed u(1) by (simp add: cff_load_def)
    qed
    then show ?thesis using song unfolding cff_accepted_def by (meson not_le)
  qed
qed

text \<open>A constructed player, and a file that ends behind the header.\<close>

definition cff_raw :: cff_player where
  "cff_raw = mod_player.extend mod_raw \<lparr>cff_id = replicate 16 0, cff_version = 0, cff_size = 0, cff_packed = 0,
     cff_instruments = replicate 47 \<lparr>ci_data = replicate 12 0, ci_name = replicate 21 0\<rparr>, cff_title = replicate 20 0,
     cff_author = replicate 20 0\<rparr>"

definition cff_file :: bytes where
  "cff_file = bytes_of ''<CUD-FM-File>'' @ [0x1A, 0xDE, 0xE0] @ [0, 24, 0, 1] @ replicate 12 0 @ up_pack [1, 2, 3, 4]"

lemma cff_load_playable_witness:
  "\<exists>s. mod_construct (\<lambda>_. 0) (\<lambda>_. zero_chan) 0 cff_raw = Some s \<and>
    (\<exists>b t. cff_load memio (\<lambda>_. Some (mem_file cff_file)) (\<lambda>_. 0) (\<lambda>_. zero_chan) ''a.cff'' s = Some (b, t) \<and>
       (b \<longrightarrow> (unat (mod_order t ! 0) < 36 \<longrightarrow> mod_ok t)))"
proof -
  obtain s where s: "mod_construct (\<lambda>_. 0) (\<lambda>_. zero_chan) 0 cff_raw = Some s"
    by (simp add: mod_construct_def mod_init_notetable_def sa2_notetable_def)
  then have "cff_arrays s"
    by (auto simp: mod_construct_def mod_init_notetable_def sa2_notetable_def mod_realloc_instruments_def
        mod_realloc_patterns_def mod_realloc_order_def cff_raw_def mod_raw_def mod_player.defs cff_arrays_def)
  moreover have "length cff_file < 2 ^ 63" by (simp add: cff_file_def bytes_of_def up_pack_def up_ident_def)
  ultimately show ?thesis
    using cff_load_playable [OF mem_stream_laws [of cff_file] _ s,
        of "\<lambda>_. Some (mem_file cff_file)" "''a.cff''" "\<lambda>_. 0" "\<lambda>_. zero_chan"] s
    by auto
qed

end
