(* ===== verification/Msc.thy ===== *)
theory Msc
  imports Loader
begin

text \<open>
  \<open>src/msc.cpp\<close>, \<open>src/msc.h\<close>: the player of Ceres MSCplay files. The music is a sequence of blocks, each
  compressed on its own: octets, and copies from the output behind two prefixes. The decoder delivers one octet
  at a time and keeps its place in a state machine, \<open>dec_prefix\<close>.
\<close>

section \<open>The code\<close>

text \<open>A block is its octets; \<open>mb_length\<close> is their number.\<close>

record msc_player = cplayer +
  msc_version :: u16
  msc_nr_blocks :: nat
  msc_block_len :: nat
  msc_timer_div :: u16
  msc_data :: "bytes list"
  msc_block_num :: nat
  msc_block_pos :: nat
  msc_raw_pos :: nat
  msc_raw_data :: bytes
  msc_prefix :: u8
  msc_dist :: int
  msc_len :: u32
  msc_delay :: u8
  msc_play_pos :: nat

definition msc_rewind :: "int \<Rightarrow> 'a msc_player_scheme \<Rightarrow> 'a msc_player_scheme option" where
  "msc_rewind subsong s =
     Some (opl_write 1 32 (opl_init
       (s\<lparr>msc_prefix := 0, msc_block_num := 0, msc_block_pos := 0, msc_play_pos := 0, msc_raw_pos := 0, msc_delay := 0\<rparr>)))"

text \<open>The start of a round of \<open>decode_octet\<close>: the next block, if this one is used up.\<close>

definition msc_advance :: "'a msc_player_scheme \<Rightarrow> (bool \<times> 'a msc_player_scheme) option" where
  "msc_advance s = do {
     blk \<leftarrow> rd (msc_data s) (msc_block_num s);
     if length blk \<le> msc_block_pos s \<and> msc_len s = 0 then
       (let s = s\<lparr>msc_block_num := msc_block_num s + 1\<rparr>
        in if msc_nr_blocks s \<le> msc_block_num s then Some (False, s)
           else Some (True, s\<lparr>msc_block_pos := 0, msc_raw_pos := 0\<rparr>))
     else Some (True, s)
   }"

text \<open>An octet of the block, and an octet of the output.\<close>

definition msc_read :: "'a msc_player_scheme \<Rightarrow> (u8 \<times> 'a msc_player_scheme) option" where
  "msc_read s = do {
     blk \<leftarrow> rd (msc_data s) (msc_block_num s);
     b \<leftarrow> rd blk (msc_block_pos s);
     Some (b, s\<lparr>msc_block_pos := msc_block_pos s + 1\<rparr>)
   }"

definition msc_emit :: "u8 \<Rightarrow> 'a msc_player_scheme \<Rightarrow> (u8 option \<times> 'a msc_player_scheme) option" where
  "msc_emit b s = do {
     raw \<leftarrow> wr (msc_raw_data s) (msc_raw_pos s) b;
     Some (Some b, s\<lparr>msc_raw_data := raw, msc_raw_pos := msc_raw_pos s + 1\<rparr>)
   }"

text \<open>The loop of \<open>decode_octet\<close>; \<open>corr\<close> is its local \<open>len_corr\<close>, and no octet is the result \<open>false\<close>.\<close>

partial_function (option) msc_decode_loop ::
  "u8 \<Rightarrow> 'a msc_player_scheme \<Rightarrow> (u8 option \<times> 'a msc_player_scheme) option"
where
  "msc_decode_loop corr s = do {
     (more, s) \<leftarrow> msc_advance s;
     if \<not> more then Some (None, s)
     else if msc_prefix s = 155 \<or> msc_prefix s = 175 then do {
       (b, s) \<leftarrow> msc_read s;
       if b = 0 then msc_emit (msc_prefix s) (s\<lparr>msc_prefix := 0\<rparr>)
       else msc_decode_loop 2
         (s\<lparr>msc_len := ucast (b AND 0x0F),
            msc_dist := uint (drop_bit 4 (b AND 0xF0)) + (if msc_prefix s = 155 then 1 else 0),
            msc_prefix := msc_prefix s + 1\<rparr>)
     }
     else if msc_prefix s = 156 then do {
       s \<leftarrow> (if msc_len s = 15 then do {
              (b, s) \<leftarrow> msc_read s;
              Some (s\<lparr>msc_len := msc_len s + ucast b\<rparr>)
            } else Some s);
       msc_decode_loop corr (s\<lparr>msc_len := msc_len s + ucast corr, msc_prefix := 255\<rparr>)
     }
     else if msc_prefix s = 176 then do {
       (b, s) \<leftarrow> msc_read s;
       msc_decode_loop 3 (s\<lparr>msc_dist := msc_dist s + (17 + 16 * uint b), msc_prefix := 156\<rparr>)
     }
     else if msc_prefix s = 255 then do {
       b \<leftarrow> (if msc_dist s \<le> int (msc_raw_pos s) then rd_int (msc_raw_data s) (int (msc_raw_pos s) - msc_dist s) else Some 0);
       let s = s\<lparr>msc_len := msc_len s - 1\<rparr>;
       msc_emit b (if msc_len s = 0 then s\<lparr>msc_prefix := 0\<rparr> else s)
     }
     else do {
       (b, s) \<leftarrow> msc_read s;
       if b = 155 \<or> b = 175 then msc_decode_loop corr (s\<lparr>msc_prefix := b\<rparr>)
       else msc_emit b s
     }
   }"

definition msc_decode_octet :: "'a msc_player_scheme \<Rightarrow> (u8 option \<times> 'a msc_player_scheme) option" where
  "msc_decode_octet s = (if msc_nr_blocks s \<le> msc_block_num s then Some (None, s) else msc_decode_loop 0 s)"

text \<open>The loop of \<open>update\<close>.\<close>

partial_function (option) msc_output :: "'a msc_player_scheme \<Rightarrow> (bool \<times> 'a msc_player_scheme) option" where
  "msc_output s =
     (if msc_delay s \<noteq> 0 then Some (True, s)
      else do {
        (command, s) \<leftarrow> msc_decode_octet s;
        case command of None \<Rightarrow> Some (False, s) | Some c \<Rightarrow> do {
          (param, s) \<leftarrow> msc_decode_octet s;
          case param of None \<Rightarrow> Some (False, s) | Some d \<Rightarrow>
            msc_output (if c = 0xFF then s\<lparr>msc_delay := 1 + (d - 1)\<rparr> else opl_write (uint c) (uint d) s)
        }
      })"

definition msc_update :: "'a msc_player_scheme \<Rightarrow> (bool \<times> 'a msc_player_scheme) option" where
  "msc_update s = do {
     (go, s) \<leftarrow> msc_output s;
     if \<not> go then Some (False, s)
     else do {
       let s = (if msc_delay s \<noteq> 0 then s\<lparr>msc_delay := msc_delay s - 1\<rparr> else s);
       Some (True, s\<lparr>msc_play_pos := msc_play_pos s + 1\<rparr>)
     }
   }"

section \<open>Loading\<close>

definition msc_signature :: bytes where
  "msc_signature = bytes_of ''Ceres '' @ [0x13] @ bytes_of '' MSCplay ''"

text \<open>The header: timer, number of blocks and their length, if it is valid.\<close>

definition msc_load_header ::
  "('f, 'fl) binio \<Rightarrow> (nat \<Rightarrow> u8) \<Rightarrow> 'f \<Rightarrow> (u16 \<times> u16 \<times> u16 \<times> u16) option \<times> 'f"
where
  "msc_load_header io mem f =
     (let (_, sign, f) = bio_readString io 16 (fresh mem 16) f
      in if msc_signature \<noteq> sign then (None, f)
         else let (ver, f) = read_u16 io f
              in if ver \<noteq> 0 then (None, f)
                 else let (_, desc, f) = bio_readString io 64 (fresh mem 64) f;
                          (timer, f) = read_u16 io f;
                          (blocks, f) = read_u16 io f;
                          (len, f) = read_u16 io f
                      in (Some (ver, timer, blocks, len), f))"

fun msc_read_blocks :: "('f, 'fl) binio \<Rightarrow> nat \<Rightarrow> 'f \<Rightarrow> bytes list \<times> 'f" where
  "msc_read_blocks io 0 f = ([], f)"
| "msc_read_blocks io (Suc n) f =
     (let (len, f) = read_u16 io f;
          (blk, f) = read_u8s io (unat len) f;
          (blks, f) = msc_read_blocks io n f
      in (blk # blks, f))"

definition msc_load ::
  "('f, 'fl) binio \<Rightarrow> 'f opener \<Rightarrow> (nat \<Rightarrow> u8) \<Rightarrow> string \<Rightarrow> 'a msc_player_scheme \<Rightarrow> (bool \<times> 'a msc_player_scheme) option"
where
  "msc_load io opn mem filename s =
     (case opn filename of None \<Rightarrow> Some (False, s) | Some f \<Rightarrow>
       (let (hdr, f) = msc_load_header io mem f
        in case hdr of None \<Rightarrow> Some (False, s) | Some (ver, timer, blocks, len) \<Rightarrow>
          (let s = s\<lparr>msc_version := ver, msc_timer_div := timer, msc_nr_blocks := unat blocks, msc_block_len := unat len\<rparr>
           in if blocks = 0 then Some (False, s)
              else do {
                let (blks, f) = msc_read_blocks io (unat blocks) f;
                s \<leftarrow> msc_rewind 0 (s\<lparr>msc_data := blks, msc_raw_data := fresh mem (unat len)\<rparr>);
                Some (True, s)
              })))"

section \<open>What a block stands for\<close>

text \<open>
  A block is a sequence of octets and of copies: \<open>Near\<close> with a distance of 1 to 16, \<open>Far\<close> with one of 17 to
  4112. A copy takes octets from the output of the block, zeros from before its start.
\<close>

datatype msc_token = Lit u8 | Near nat nat | Far nat nat

fun msc_expand :: "msc_token list \<Rightarrow> bytes \<Rightarrow> bytes" where
  "msc_expand [] out = out"
| "msc_expand (Lit b # ts) out = msc_expand ts (out @ [b])"
| "msc_expand (Near d n # ts) out = msc_expand ts (window_copy d n out)"
| "msc_expand (Far d n # ts) out = msc_expand ts (window_copy d n out)"

text \<open>The encoding. Lengths of 15 and more above the shortest one take another octet.\<close>

definition msc_low :: "nat \<Rightarrow> nat" where "msc_low n = min n 15"

definition msc_ext :: "nat \<Rightarrow> bytes" where
  "msc_ext n = (if n < 15 then [] else [of_nat (n - 15)])"

fun msc_encode :: "msc_token \<Rightarrow> bytes" where
  "msc_encode (Lit b) = (if b = 155 \<or> b = 175 then [b, 0] else [b])"
| "msc_encode (Near d n) = [155, of_nat (16 * (d - 1) + msc_low (n - 2))] @ msc_ext (n - 2)"
| "msc_encode (Far d n) =
     [175, of_nat (16 * ((d - 17) mod 16) + msc_low (n - 3)), of_nat ((d - 17) div 16)] @ msc_ext (n - 3)"

text \<open>
  What can be encoded: an octet of zero behind a prefix stands for the prefix itself, so the shortest copy has
  no encoding at some distances.
\<close>

fun msc_token_ok :: "msc_token \<Rightarrow> bool" where
  "msc_token_ok (Lit b) = True"
| "msc_token_ok (Near d n) = (1 \<le> d \<and> d \<le> 16 \<and> 2 \<le> n \<and> n \<le> 272 \<and> \<not> (d = 1 \<and> n = 2))"
| "msc_token_ok (Far d n) = (17 \<le> d \<and> d \<le> 4112 \<and> 3 \<le> n \<and> n \<le> 273 \<and> \<not> ((d - 17) mod 16 = 0 \<and> n = 3))"

text \<open>
  The decoder goes to the next block as soon as this one is read and \<open>dec_len\<close> is 0, which it also is in the
  middle of a shortest copy: such a copy cannot be the last thing of a block.
\<close>

fun msc_shortest :: "msc_token \<Rightarrow> bool" where
  "msc_shortest (Lit b) = False"
| "msc_shortest (Near d n) = (n = 2)"
| "msc_shortest (Far d n) = (n = 3)"

fun msc_tokens_ok :: "msc_token list \<Rightarrow> bool" where
  "msc_tokens_ok [] = True"
| "msc_tokens_ok (t # ts) = (msc_token_ok t \<and> (ts = [] \<longrightarrow> \<not> msc_shortest t) \<and> msc_tokens_ok ts)"

definition msc_block :: "msc_token list \<Rightarrow> bytes" where
  "msc_block ts = concat (map msc_encode ts)"

section \<open>Rounds of the decoder\<close>

text \<open>The rest of the block the decoder stands in.\<close>

definition msc_in :: "'a msc_player_scheme \<Rightarrow> bytes \<Rightarrow> bool" where
  "msc_in s r \<longleftrightarrow> (\<exists>blk. rd (msc_data s) (msc_block_num s) = Some blk \<and> drop (msc_block_pos s) blk = r)"

lemma msc_in_update [simp]:
  "msc_in (s\<lparr>msc_prefix := p\<rparr>) r = msc_in s r" "msc_in (s\<lparr>msc_dist := d\<rparr>) r = msc_in s r"
  "msc_in (s\<lparr>msc_len := l\<rparr>) r = msc_in s r" "msc_in (s\<lparr>msc_raw_pos := q\<rparr>) r = msc_in s r"
  "msc_in (s\<lparr>msc_raw_data := raw\<rparr>) r = msc_in s r"
  by (simp_all add: msc_in_def)

lemma msc_in_Cons:
  assumes "msc_in s (b # r)"
  shows "msc_advance s = Some (True, s)" "msc_read s = Some (b, s\<lparr>msc_block_pos := msc_block_pos s + 1\<rparr>)"
    "msc_in (s\<lparr>msc_block_pos := msc_block_pos s + 1\<rparr>) r"
proof -
  obtain blk where blk: "rd (msc_data s) (msc_block_num s) = Some blk" "drop (msc_block_pos s) blk = b # r"
    using assms by (auto simp: msc_in_def)
  have pos: "msc_block_pos s < length blk" using blk(2) by (metis drop_all linorder_not_less list.discI)
  then have "blk ! msc_block_pos s = b" "drop (msc_block_pos s + 1) blk = r"
    using blk(2) by (simp_all add: Cons_nth_drop_Suc [symmetric] del: Cons_nth_drop_Suc)
  then show "msc_advance s = Some (True, s)" "msc_read s = Some (b, s\<lparr>msc_block_pos := msc_block_pos s + 1\<rparr>)"
    "msc_in (s\<lparr>msc_block_pos := msc_block_pos s + 1\<rparr>) r"
    using pos blk(1) by (simp_all add: msc_advance_def msc_read_def msc_in_def rd_Some)
qed

lemma msc_advance_copying: "msc_in s r \<Longrightarrow> msc_len s \<noteq> 0 \<Longrightarrow> msc_advance s = Some (True, s)"
  by (auto simp: msc_in_def msc_advance_def)

lemma msc_round_literal:
  assumes "msc_in s (b # r)" "msc_prefix s = 0" "b \<noteq> 155" "b \<noteq> 175"
  shows "msc_decode_loop corr s = msc_emit b (s\<lparr>msc_block_pos := msc_block_pos s + 1\<rparr>)"
  using assms msc_in_Cons [OF assms(1)] by (subst msc_decode_loop.simps) simp

lemma msc_round_prefix:
  assumes "msc_in s (b # r)" "msc_prefix s = 0" "b = 155 \<or> b = 175"
  shows "msc_decode_loop corr s = msc_decode_loop corr (s\<lparr>msc_block_pos := msc_block_pos s + 1, msc_prefix := b\<rparr>)"
  using assms msc_in_Cons [OF assms(1)] by (subst msc_decode_loop.simps) auto

lemma msc_round_escaped:
  assumes "msc_in s (0 # r)" "msc_prefix s = 155 \<or> msc_prefix s = 175"
  shows "msc_decode_loop corr s = msc_emit (msc_prefix s) (s\<lparr>msc_block_pos := msc_block_pos s + 1, msc_prefix := 0\<rparr>)"
  using assms msc_in_Cons [OF assms(1)] by (subst msc_decode_loop.simps) simp

lemma msc_round_octet:
  assumes "msc_in s (b # r)" "msc_prefix s = 155 \<or> msc_prefix s = 175" "b \<noteq> 0"
  shows "msc_decode_loop corr s = msc_decode_loop 2 (s\<lparr>msc_block_pos := msc_block_pos s + 1, msc_len := ucast (b AND 0x0F),
     msc_dist := uint (drop_bit 4 (b AND 0xF0)) + (if msc_prefix s = 155 then 1 else 0), msc_prefix := msc_prefix s + 1\<rparr>)"
  using assms msc_in_Cons [OF assms(1)] by (subst msc_decode_loop.simps) simp

lemma msc_round_far:
  assumes "msc_in s (b # r)" "msc_prefix s = 176"
  shows "msc_decode_loop corr s = msc_decode_loop 3 (s\<lparr>msc_block_pos := msc_block_pos s + 1,
     msc_dist := msc_dist s + (17 + 16 * uint b), msc_prefix := 156\<rparr>)"
  using assms msc_in_Cons [OF assms(1)] by (subst msc_decode_loop.simps) simp

text \<open>The length: \<open>e\<close> is the octet it takes where it is 15.\<close>

lemma msc_round_length:
  assumes "msc_in s (e @ r)" "msc_prefix s = 156" "e = msc_ext n" "msc_len s = of_nat (msc_low n)" "n \<le> 270"
    "n \<noteq> 0 \<or> r \<noteq> []"
  shows "\<exists>p. msc_decode_loop corr s = msc_decode_loop corr (s\<lparr>msc_block_pos := p, msc_len := of_nat n + ucast corr, msc_prefix := 255\<rparr>) \<and>
    msc_in (s\<lparr>msc_block_pos := p\<rparr>) r"
proof (cases "n < 15")
  case True
  then have e: "e = []" and len: "msc_len s = of_nat n" using assms(3,4) by (simp_all add: msc_ext_def msc_low_def)
  have small: "unat (of_nat n :: u32) = n" using True by (simp add: unat_of_nat take_bit_eq_mod)
  then have "msc_len s \<noteq> 15" using True len by (auto simp: word_unat_eq_iff)
  moreover have "msc_advance s = Some (True, s)"
  proof (cases "n = 0")
    case True
    then obtain b r' where "r = b # r'" using assms(6) by (cases r) auto
    then show ?thesis using msc_in_Cons(1) [of s b r'] assms(1) e by simp
  next
    case False
    then have "msc_len s \<noteq> 0" using small len by (auto simp: word_unat_eq_iff)
    then show ?thesis using msc_advance_copying assms(1) by blast
  qed
  ultimately show ?thesis
    using assms(1,2) e len by (intro exI [of _ "msc_block_pos s"]) (subst msc_decode_loop.simps, simp)
next
  case False
  then have e: "e = [of_nat (n - 15)]" and len: "msc_len s = 15" using assms(3,4) by (simp_all add: msc_ext_def msc_low_def)
  have "n - 15 < 256" using assms(5) by simp
  then have "(ucast (of_nat (n - 15) :: u8) :: u32) = of_nat (n - 15)"
    by (simp add: word_unat_eq_iff unsigned_ucast_eq unat_of_nat take_bit_eq_mod)
  then have sum: "15 + ucast (of_nat (n - 15) :: u8) = (of_nat n :: u32)" using False by (simp add: of_nat_diff)
  note c = msc_in_Cons [OF assms(1) [unfolded e append_Cons append_Nil]]
  show ?thesis
    using assms(2) c len sum by (intro exI [of _ "msc_block_pos s + 1"]) (subst msc_decode_loop.simps, simp add: add.assoc [symmetric])
qed

lemma msc_nibbles:
  assumes "a < 16" "c < 16"
  defines "b \<equiv> of_nat (16 * a + c) :: u8"
  shows "(ucast (b AND 0x0F) :: u32) = of_nat c" "uint (drop_bit 4 (b AND 0xF0)) = int a" "b = 0 \<longleftrightarrow> a = 0 \<and> c = 0"
proof -
  have "16 * a + c < 256" using assms(1,2) by simp
  then have b: "unat b = 16 * a + c" unfolding b_def by (simp only: unat_of_nat) simp
  then have "unat (b AND 0x0F) = c" using assms(2) unat_low_nibble [of b] by simp
  then show "(ucast (b AND 0x0F) :: u32) = of_nat c"
    using assms(2) by (simp add: word_unat_eq_iff unsigned_ucast_eq unat_of_nat take_bit_eq_mod)
  have "drop_bit 4 (b AND 0xF0) = drop_bit 4 b"
  proof -
    have f0: "(0xF0 :: u8) = push_bit 4 (mask 4)" by (simp add: mask_eq_exp_minus_1 push_bit_eq_mult)
    show ?thesis unfolding f0 by (rule bit_word_eqI) (auto simp: bit_simps dest: bit_imp_le_length)
  qed
  then have "unat (drop_bit 4 (b AND 0xF0)) = (16 * a + c) div 16"
    by (simp only: unat_drop_bit_eq b) (simp add: drop_bit_eq_div)
  then have "unat (drop_bit 4 (b AND 0xF0)) = a" using assms(2) by simp
  then show "uint (drop_bit 4 (b AND 0xF0)) = int a" by (metis uint_nat)
  show "b = 0 \<longleftrightarrow> a = 0 \<and> c = 0" using b by (auto simp: word_unat_eq_iff)
qed

text \<open>A copy is decoded to its distance and length.\<close>

definition msc_ready :: "'a msc_player_scheme \<Rightarrow> nat \<Rightarrow> nat \<Rightarrow> nat \<Rightarrow> 'a msc_player_scheme" where
  "msc_ready s p d n = s\<lparr>msc_block_pos := p, msc_len := of_nat n, msc_dist := int d, msc_prefix := 255\<rparr>"

lemma msc_near_ok:
  assumes "msc_in s (msc_encode (Near d n) @ r)" "msc_prefix s = 0" "msc_token_ok (Near d n)" "r = [] \<longrightarrow> n \<noteq> 2"
  shows "\<exists>p corr'. msc_decode_loop corr s = msc_decode_loop corr' (msc_ready s p d n) \<and> msc_in (msc_ready s p d n) r"
proof -
  let ?c = "msc_low (n - 2)" and ?e = "msc_ext (n - 2)"
  let ?b = "of_nat (16 * (d - 1) + ?c) :: u8"
  have d: "d - 1 < 16" "?c < 16" "d - 1 = 0 \<longrightarrow> ?c \<noteq> 0" "1 \<le> d" "n - 2 \<le> 270" "2 \<le> n"
    using assms(3) by (auto simp: msc_low_def)
  note nib = msc_nibbles [OF d(1,2)]
  let ?s1 = "s\<lparr>msc_block_pos := msc_block_pos s + 1, msc_prefix := 155\<rparr>"
  have in0: "msc_in s (155 # ?b # ?e @ r)" using assms(1) by simp
  then have in1: "msc_in ?s1 (?b # ?e @ r)" using msc_in_Cons(3) [OF in0] by simp
  let ?s2 = "?s1\<lparr>msc_block_pos := msc_block_pos ?s1 + 1, msc_len := of_nat ?c, msc_dist := int d, msc_prefix := 156\<rparr>"
  have in2: "msc_in ?s2 (?e @ r)" using msc_in_Cons(3) [OF in1] by (simp add: msc_in_def)
  have b0: "?b \<noteq> 0"
  proof
    assume "?b = 0"
    from nib(3) [THEN iffD1, OF this] show False using d(3) by simp
  qed
  have "msc_decode_loop corr s = msc_decode_loop corr ?s1" using msc_round_prefix [OF in0 assms(2)] by simp
  also have "\<dots> = msc_decode_loop 2 ?s2" using msc_round_octet [OF in1 _ b0] nib(1,2) d(4) by (simp add: of_nat_diff)
  finally have run: "msc_decode_loop corr s = msc_decode_loop 2 ?s2" .
  have ne: "n - 2 \<noteq> 0 \<or> r \<noteq> []" using assms(4) d(6) by auto
  obtain p where p: "msc_decode_loop 2 ?s2 = msc_decode_loop 2 (?s2\<lparr>msc_block_pos := p, msc_len := of_nat (n - 2) + ucast (2 :: u8), msc_prefix := 255\<rparr>)"
    "msc_in (?s2\<lparr>msc_block_pos := p\<rparr>) r"
    using msc_round_length [OF in2 _ refl _ d(5) ne, of 2] msc_player.select_convs by fastforce
  have len: "of_nat (n - 2) + ucast (2 :: u8) = (of_nat n :: u32)" using d(6) by (simp add: of_nat_diff)
  have "?s2\<lparr>msc_block_pos := p, msc_len := of_nat (n - 2) + ucast (2 :: u8), msc_prefix := 255\<rparr> = msc_ready s p d n"
    unfolding len by (simp add: msc_ready_def)
  moreover have "msc_in (msc_ready s p d n) r" using p(2) by (simp add: msc_ready_def msc_in_def)
  ultimately show ?thesis using run p(1) by metis
qed

lemma msc_far_ok:
  assumes "msc_in s (msc_encode (Far d n) @ r)" "msc_prefix s = 0" "msc_token_ok (Far d n)" "r = [] \<longrightarrow> n \<noteq> 3"
  shows "\<exists>p corr'. msc_decode_loop corr s = msc_decode_loop corr' (msc_ready s p d n) \<and> msc_in (msc_ready s p d n) r"
proof -
  let ?c = "msc_low (n - 3)" and ?e = "msc_ext (n - 3)" and ?h = "(d - 17) mod 16" and ?q = "(d - 17) div 16"
  let ?b = "of_nat (16 * ?h + ?c) :: u8"
  have d: "?h < 16" "?c < 16" "?h = 0 \<longrightarrow> ?c \<noteq> 0" "17 \<le> d" "n - 3 \<le> 270" "3 \<le> n" "?q < 256"
    using assms(3) by (auto simp: msc_low_def)
  note nib = msc_nibbles [OF d(1,2)]
  let ?s1 = "s\<lparr>msc_block_pos := msc_block_pos s + 1, msc_prefix := 175\<rparr>"
  have in0: "msc_in s (175 # ?b # of_nat ?q # ?e @ r)" using assms(1) by simp
  then have in1: "msc_in ?s1 (?b # of_nat ?q # ?e @ r)" using msc_in_Cons(3) [OF in0] by simp
  let ?s2 = "?s1\<lparr>msc_block_pos := msc_block_pos ?s1 + 1, msc_len := of_nat ?c, msc_dist := int ?h, msc_prefix := 176\<rparr>"
  have in2: "msc_in ?s2 (of_nat ?q # ?e @ r)" using msc_in_Cons(3) [OF in1] by (simp add: msc_in_def)
  let ?s3 = "?s2\<lparr>msc_block_pos := msc_block_pos ?s2 + 1, msc_dist := int d, msc_prefix := 156\<rparr>"
  have in3: "msc_in ?s3 (?e @ r)" using msc_in_Cons(3) [OF in2] by (simp add: msc_in_def)
  have b0: "?b \<noteq> 0"
  proof
    assume "?b = 0"
    from nib(3) [THEN iffD1, OF this] show False using d(3) by simp
  qed
  have "uint (of_nat ?q :: u8) = int ?q" using d(7) by (simp add: uint_nat unat_of_nat take_bit_eq_mod)
  moreover have "?h + (17 + 16 * ?q) = d" using d(4) by presburger
  then have "int ?h + (17 + 16 * int ?q) = int d" by linarith
  ultimately have dist: "int ?h + (17 + 16 * uint (of_nat ?q :: u8)) = int d" by simp
  have "msc_decode_loop corr s = msc_decode_loop corr ?s1" using msc_round_prefix [OF in0 assms(2)] by simp
  also have "\<dots> = msc_decode_loop 2 ?s2" using msc_round_octet [OF in1 _ b0] nib(1,2) by simp
  also have "\<dots> = msc_decode_loop 3 ?s3" using msc_round_far [OF in2] dist by simp
  finally have run: "msc_decode_loop corr s = msc_decode_loop 3 ?s3" .
  have ne: "n - 3 \<noteq> 0 \<or> r \<noteq> []" using assms(4) d(6) by auto
  obtain p where p: "msc_decode_loop 3 ?s3 = msc_decode_loop 3 (?s3\<lparr>msc_block_pos := p, msc_len := of_nat (n - 3) + ucast (3 :: u8), msc_prefix := 255\<rparr>)"
    "msc_in (?s3\<lparr>msc_block_pos := p\<rparr>) r"
    using msc_round_length [OF in3 _ refl _ d(5) ne, of 3] msc_player.select_convs by fastforce
  have len: "of_nat (n - 3) + ucast (3 :: u8) = (of_nat n :: u32)" using d(6) by (simp add: of_nat_diff)
  have "?s3\<lparr>msc_block_pos := p, msc_len := of_nat (n - 3) + ucast (3 :: u8), msc_prefix := 255\<rparr> = msc_ready s p d n"
    unfolding len by (simp add: msc_ready_def)
  moreover have "msc_in (msc_ready s p d n) r" using p(2) by (simp add: msc_ready_def msc_in_def)
  ultimately show ?thesis using run p(1) by metis
qed

section \<open>The octets to come\<close>

text \<open>
  The decoder is \<open>at\<close> a place: the blocks behind this one, the output of this one so far, a copy of which \<open>n\<close>
  octets are left, and the tokens behind it.
\<close>

definition msc_fits :: "nat \<Rightarrow> msc_token list \<Rightarrow> bool" where
  "msc_fits k ts \<longleftrightarrow> msc_tokens_ok ts \<and> ts \<noteq> [] \<and> length (msc_expand ts []) \<le> k"

definition msc_copies :: "msc_token list \<Rightarrow> bool" where
  "msc_copies ts \<longleftrightarrow> (\<exists>t \<in> set ts. \<forall>b. t \<noteq> Lit b)"

lemma msc_copies_simps [simp]:
  "\<not> msc_copies []" "msc_copies (Lit b # ts) = msc_copies ts" "msc_copies (Near d n # ts)" "msc_copies (Far d n # ts)"
  by (simp_all add: msc_copies_def)

text \<open>\<open>dec_len\<close> may have any value as long as a copy is to come in the block, which sets it anew.\<close>

definition msc_at ::
  "'a msc_player_scheme \<Rightarrow> msc_token list list \<Rightarrow> bytes \<Rightarrow> nat \<Rightarrow> nat \<Rightarrow> msc_token list \<Rightarrow> bool"
where
  "msc_at s blks out d n ts \<longleftrightarrow>
     msc_nr_blocks s = length (msc_data s) \<and> msc_block_num s < length (msc_data s) \<and>
     drop (msc_block_num s + 1) (msc_data s) = map msc_block blks \<and> msc_in s (msc_block ts) \<and>
     msc_raw_pos s = length out \<and> take (length out) (msc_raw_data s) = out \<and>
     length (msc_expand ts (window_copy d n out)) \<le> length (msc_raw_data s) \<and>
     (\<forall>b \<in> set blks. msc_fits (length (msc_raw_data s)) b) \<and> msc_tokens_ok ts \<and>
     (if n = 0 then msc_prefix s = 0 \<and> (msc_len s = 0 \<or> msc_copies ts)
      else msc_prefix s = 255 \<and> msc_len s = of_nat n \<and> msc_dist s = int d \<and> n \<le> 273 \<and> 1 \<le> d)"

definition msc_rest :: "msc_token list list \<Rightarrow> bytes \<Rightarrow> nat \<Rightarrow> nat \<Rightarrow> msc_token list \<Rightarrow> bytes" where
  "msc_rest blks out d n ts =
     drop (length out) (msc_expand ts (window_copy d n out)) @ concat (map (\<lambda>b. msc_expand b []) blks)"

lemma msc_copy_prefix: "\<exists>x. window_copy d n out = out @ x \<and> length x = n"
proof (induction n arbitrary: out)
  case (Suc n)
  obtain x where "window_copy d n (out @ [window_octet d out]) = (out @ [window_octet d out]) @ x" "length x = n" using Suc by blast
  then show ?case by simp
qed simp

lemma msc_expand_prefix: "\<exists>x. msc_expand ts out = out @ x"
proof (induction ts arbitrary: out)
  case (Cons t ts)
  have "\<exists>x. msc_expand ts (window_copy d n out) = out @ x" for d n
    using Cons [of "window_copy d n out"] msc_copy_prefix [of d n out] by force
  moreover have "\<exists>x. msc_expand ts (out @ [b]) = out @ x" for b using Cons [of "out @ [b]"] by auto
  ultimately show ?case by (cases t) simp_all
qed simp

lemma msc_rest_first: "msc_expand ts (window_copy d n (out @ [b])) = out @ b # x \<Longrightarrow>
    drop (length out) (out @ b # x) = b # drop (length (out @ [b])) (out @ b # x)"
  by simp

definition msc_same :: "'a msc_player_scheme \<Rightarrow> 'a msc_player_scheme \<Rightarrow> bool" where
  "msc_same s t \<longleftrightarrow> opl_out t = opl_out s \<and> msc_delay t = msc_delay s"

text \<open>An octet is emitted where there is room.\<close>

lemma msc_emit_ok:
  assumes "msc_raw_pos s = length out" "take (length out) (msc_raw_data s) = out" "length out < length (msc_raw_data s)"
  shows "\<exists>raw. msc_emit b s = Some (Some b, s\<lparr>msc_raw_data := raw, msc_raw_pos := length (out @ [b])\<rparr>) \<and>
    take (length (out @ [b])) raw = out @ [b] \<and> length raw = length (msc_raw_data s)"
proof -
  let ?raw = "(msc_raw_data s)[length out := b]"
  have "take (length (out @ [b])) ?raw = out @ [b]" using assms(2,3) by (simp add: take_Suc_conv_app_nth)
  moreover have "msc_emit b s = Some (Some b, s\<lparr>msc_raw_data := ?raw, msc_raw_pos := length (out @ [b])\<rparr>)"
    using assms by (simp add: msc_emit_def wr_Some)
  ultimately show ?thesis by (intro exI [of _ ?raw]) simp
qed

lemma msc_copy_step:
  assumes s: "msc_at s blks out d (Suc m) ts"
  shows "\<exists>t. msc_decode_loop corr s = Some (Some (window_octet d out), t) \<and> msc_same s t \<and>
    msc_at t blks (out @ [window_octet d out]) d m ts"
proof -
  let ?b = "window_octet d out" and ?n = "of_nat (Suc m) :: u32"
  have a: "msc_prefix s = 255" "msc_len s = ?n" "msc_dist s = int d" "Suc m \<le> 273" "1 \<le> d" "msc_in s (msc_block ts)"
    "msc_raw_pos s = length out" "take (length out) (msc_raw_data s) = out"
    using s by (simp_all add: msc_at_def del: of_nat_Suc)
  have nz: "(of_nat k = (0 :: u32)) = (k = 0)" if "k \<le> 273" for k
    using that by (auto simp: word_unat_eq_iff unat_of_nat take_bit_eq_mod)
  have adv: "msc_advance s = Some (True, s)" using msc_advance_copying [OF a(6)] a(2,4) nz [of "Suc m"] by simp
  have dec: "?n - 1 = of_nat m" by simp
  let ?t = "s\<lparr>msc_len := of_nat m, msc_prefix := if m = 0 then 0 else 255\<rparr>"
  have keep: "s\<lparr>msc_len := l, msc_prefix := 255\<rparr> = s\<lparr>msc_len := l\<rparr>" for l using a(1) by (cases s) simp
  obtain x where "msc_expand ts (window_copy d (Suc m) out) = (out @ [?b]) @ x"
    using msc_expand_prefix [of ts "window_copy d m (out @ [?b])"] msc_copy_prefix [of d m "out @ [?b]"] by force
  moreover have "length (msc_expand ts (window_copy d (Suc m) out)) \<le> length (msc_raw_data s)" using s by (simp add: msc_at_def)
  ultimately have room: "length out < length (msc_raw_data s)" by simp
  have byte: "(if msc_dist s \<le> int (msc_raw_pos s) then rd_int (msc_raw_data s) (int (msc_raw_pos s) - msc_dist s) else Some 0) = Some ?b"
  proof (cases "d \<le> length out")
    case True
    have "nat (int (length out) - int d) = length out - d" by simp
    moreover have "msc_raw_data s ! (length out - d) = out ! (length out - d)"
      using a(5,8) True by (metis diff_less le_trans less_le_trans nth_take zero_less_one)
    ultimately show ?thesis using True a(3,7) room by (simp add: rd_int_nonneg rd_Some window_octet_def)
  next
    case False
    then show ?thesis using a(3,7) by (simp add: window_octet_def)
  qed
  obtain raw where raw: "msc_emit ?b ?t = Some (Some ?b, ?t\<lparr>msc_raw_data := raw, msc_raw_pos := length (out @ [?b])\<rparr>)"
    "take (length (out @ [?b])) raw = out @ [?b]" "length raw = length (msc_raw_data ?t)"
    using msc_emit_ok [of ?t out ?b] a(7,8) room by auto
  have "msc_decode_loop corr s = msc_emit ?b ?t"
    using adv a(1,2) byte dec nz [of m] a(4) by (subst msc_decode_loop.simps) (cases "m = 0"; simp add: keep)
  moreover have "msc_at (?t\<lparr>msc_raw_data := raw, msc_raw_pos := length (out @ [?b])\<rparr>) blks (out @ [?b]) d m ts"
    using s raw(2,3) a(3,4) by (auto simp: msc_at_def msc_in_def)
  ultimately show ?thesis using raw(1) by (auto simp: msc_same_def)
qed

lemma msc_step_token:
  assumes s: "msc_at s blks out d 0 (t # ts)"
  shows "\<exists>d' n b u. msc_decode_loop corr s = Some (Some b, u) \<and> msc_same s u \<and> msc_at u blks (out @ [b]) d' n ts \<and>
    msc_expand (t # ts) out = msc_expand ts (window_copy d' n (out @ [b]))"
proof -
  have a: "msc_prefix s = 0" "msc_in s (msc_encode t @ msc_block ts)" "msc_token_ok t"
    "ts = [] \<longrightarrow> \<not> msc_shortest t" "msc_tokens_ok ts" "msc_raw_pos s = length out" "take (length out) (msc_raw_data s) = out"
    "length (msc_expand (t # ts) out) \<le> length (msc_raw_data s)"
    using s by (simp_all add: msc_at_def msc_block_def)
  have last: "msc_block ts = [] \<longrightarrow> ts = []" 
  proof -
    have "msc_encode x \<noteq> []" for x by (cases x) simp_all
    then show ?thesis by (cases ts) (simp_all add: msc_block_def)
  qed
  have copies: "\<exists>d' n b u. msc_decode_loop corr s = Some (Some b, u) \<and> msc_same s u \<and> msc_at u blks (out @ [b]) d' n ts \<and>
      msc_expand (t # ts) out = msc_expand ts (window_copy d' n (out @ [b]))"
    if run: "msc_decode_loop corr s = msc_decode_loop corr' (msc_ready s p e n)" "msc_in (msc_ready s p e n) (msc_block ts)"
      and t: "msc_expand (t # ts) out = msc_expand ts (window_copy e n out)" "1 \<le> e" "2 \<le> n" "n \<le> 273" for corr' p e n
  proof -
    obtain m where m: "n = Suc m" using t(3) by (cases n) simp_all
    have "msc_at (msc_ready s p e n) blks out e (Suc m) ts"
      using s run(2) t m by (simp add: msc_at_def msc_ready_def del: of_nat_Suc)
    from msc_copy_step [OF this, of corr'] obtain u where
      u: "msc_decode_loop corr s = Some (Some (window_octet e out), u)" "msc_same (msc_ready s p e n) u"
      "msc_at u blks (out @ [window_octet e out]) e m ts" unfolding run(1) by blast
    then show ?thesis using t(1) m by (intro exI [of _ e] exI [of _ m] exI [of _ "window_octet e out"] exI [of _ u])
      (simp add: msc_same_def msc_ready_def)
  qed
  show ?thesis
  proof (cases t)
    case (Lit b)
    obtain x where "msc_expand (t # ts) out = (out @ [b]) @ x" using msc_expand_prefix [of ts "out @ [b]"] Lit by auto
    then have room: "length out < length (msc_raw_data s)" using a(8) by simp
    have "\<exists>p. msc_decode_loop corr s = msc_emit b (s\<lparr>msc_block_pos := p\<rparr>) \<and> msc_in (s\<lparr>msc_block_pos := p\<rparr>) (msc_block ts)"
    proof (cases "b = 155 \<or> b = 175")
      case True
      then have in0: "msc_in s (b # 0 # msc_block ts)" using a(2) Lit by simp
      let ?s = "s\<lparr>msc_block_pos := msc_block_pos s + 1, msc_prefix := b\<rparr>"
      have in1: "msc_in ?s (0 # msc_block ts)" using msc_in_Cons(3) [OF in0] by simp
      have "msc_decode_loop corr s = msc_emit b (?s\<lparr>msc_block_pos := msc_block_pos ?s + 1, msc_prefix := 0\<rparr>)"
        using msc_round_prefix [OF in0 a(1) True] msc_round_escaped [OF in1] True by simp
      moreover have "?s\<lparr>msc_block_pos := msc_block_pos ?s + 1, msc_prefix := 0\<rparr> = s\<lparr>msc_block_pos := msc_block_pos s + 2\<rparr>"
        using a(1) by simp
      ultimately show ?thesis using msc_in_Cons(3) [OF in1] by (intro exI [of _ "msc_block_pos s + 2"]) (simp add: msc_in_def)
    next
      case False
      then have in0: "msc_in s (b # msc_block ts)" using a(2) Lit by simp
      show ?thesis using msc_round_literal [OF in0 a(1)] False msc_in_Cons(3) [OF in0] by (intro exI [of _ "msc_block_pos s + 1"]) simp
    qed
    then obtain p where p: "msc_decode_loop corr s = msc_emit b (s\<lparr>msc_block_pos := p\<rparr>)" "msc_in (s\<lparr>msc_block_pos := p\<rparr>) (msc_block ts)"
      by blast
    obtain raw where raw: "msc_emit b (s\<lparr>msc_block_pos := p\<rparr>) = Some (Some b, s\<lparr>msc_block_pos := p, msc_raw_data := raw, msc_raw_pos := length (out @ [b])\<rparr>)"
      "take (length (out @ [b])) raw = out @ [b]" "length raw = length (msc_raw_data s)"
      using msc_emit_ok [of "s\<lparr>msc_block_pos := p\<rparr>" out b] a(6,7) room by auto
    have "msc_at (s\<lparr>msc_block_pos := p, msc_raw_data := raw, msc_raw_pos := length (out @ [b])\<rparr>) blks (out @ [b]) 0 0 ts"
      using s p(2) raw(2,3) Lit by (simp add: msc_at_def msc_in_def)
    moreover have "msc_same s (s\<lparr>msc_block_pos := p, msc_raw_data := raw, msc_raw_pos := length (out @ [b])\<rparr>)"
      by (simp add: msc_same_def)
    moreover have "msc_expand (t # ts) out = msc_expand ts (window_copy 0 0 (out @ [b]))" using Lit by simp
    ultimately show ?thesis using p(1) raw(1) by metis
  next
    case (Near e n)
    then have "msc_block ts = [] \<longrightarrow> n \<noteq> 2" using a(4) last by auto
    from msc_near_ok [OF _ a(1) _ this, of e corr] a(2,3) Near obtain p corr' where
      "msc_decode_loop corr s = msc_decode_loop corr' (msc_ready s p e n)" "msc_in (msc_ready s p e n) (msc_block ts)" by blast
    then show ?thesis by (rule copies) (use a(3) Near in simp_all)
  next
    case (Far e n)
    then have "msc_block ts = [] \<longrightarrow> n \<noteq> 3" using a(4) last by auto
    from msc_far_ok [OF _ a(1) _ this, of e corr] a(2,3) Far obtain p corr' where
      "msc_decode_loop corr s = msc_decode_loop corr' (msc_ready s p e n)" "msc_in (msc_ready s p e n) (msc_block ts)" by blast
    then show ?thesis by (rule copies) (use a(3) Far in simp_all)
  qed
qed

section \<open>The decoder as a stream\<close>

definition msc_stream :: "'a msc_player_scheme \<Rightarrow> bytes \<Rightarrow> bool" where
  "msc_stream s os \<longleftrightarrow>
     (\<exists>blks out d n ts. msc_at s blks out d n ts \<and> os = msc_rest blks out d n ts) \<or>
     os = [] \<and> msc_nr_blocks s \<le> msc_block_num s"

lemma msc_block_Cons: "ts \<noteq> [] \<Longrightarrow> \<exists>b r. msc_block ts = b # r"
proof -
  have "\<exists>b r. msc_encode t = b # r" for t by (cases t) simp_all
  then show "ts \<noteq> [] \<Longrightarrow> ?thesis" by (cases ts) (simp_all add: msc_block_def, metis append_Cons)
qed

lemma msc_next_block:
  assumes s: "msc_at s (b # bs) out d 0 []"
  defines "u \<equiv> s\<lparr>msc_block_num := msc_block_num s + 1, msc_block_pos := 0, msc_raw_pos := 0\<rparr>"
  shows "msc_decode_loop corr s = msc_decode_loop corr u" "msc_at u bs [] d 0 b" "msc_same s u"
proof -
  have more: "drop (msc_block_num s + 1) (msc_data s) = msc_block b # map msc_block bs" using s by (simp add: msc_at_def)
  then have num: "msc_block_num s + 1 < length (msc_data s)" by (metis drop_all linorder_not_less list.discI)
  then have at: "msc_data s ! (msc_block_num s + 1) = msc_block b" "drop (msc_block_num s + 1 + 1) (msc_data s) = map msc_block bs"
    using more by (simp_all add: Cons_nth_drop_Suc [symmetric] del: Cons_nth_drop_Suc)
  have fits: "msc_fits (length (msc_raw_data s)) b" using s by (simp add: msc_at_def)
  have "msc_in u (msc_block b)" using num at(1) by (simp add: msc_in_def u_def rd_Some)
  moreover obtain c r where "msc_block b = c # r" using msc_block_Cons [of b] fits by (auto simp: msc_fits_def)
  ultimately have "msc_advance u = Some (True, u)" by (simp add: msc_in_Cons(1))
  moreover have "msc_advance s = Some (True, u)"
    using s num by (auto simp: msc_at_def msc_in_def msc_advance_def msc_block_def u_def)
  ultimately show "msc_decode_loop corr s = msc_decode_loop corr u"
    by (simp add: msc_decode_loop.simps [of corr s] msc_decode_loop.simps [of corr u])
  show "msc_at u bs [] d 0 b"
    using s num at(2) fits \<open>msc_in u (msc_block b)\<close> by (simp add: msc_at_def msc_fits_def u_def)
  show "msc_same s u" by (simp add: msc_same_def u_def)
qed

lemma msc_stream_token:
  assumes "msc_at s blks out d 0 ts" "ts \<noteq> []"
  shows "\<exists>b os u. msc_rest blks out d 0 ts = b # os \<and> msc_decode_loop corr s = Some (Some b, u) \<and> msc_same s u \<and> msc_stream u os"
proof -
  obtain t ts' where ts: "ts = t # ts'" using assms(2) by (cases ts) simp_all
  obtain d' n b u where u: "msc_decode_loop corr s = Some (Some b, u)" "msc_same s u" "msc_at u blks (out @ [b]) d' n ts'"
    "msc_expand (t # ts') out = msc_expand ts' (window_copy d' n (out @ [b]))"
    using msc_step_token [OF assms(1) [unfolded ts]] by blast
  obtain x where "window_copy d' n (out @ [b]) = (out @ [b]) @ x" using msc_copy_prefix by blast
  then obtain y where "msc_expand ts' (window_copy d' n (out @ [b])) = (out @ [b]) @ y"
    using msc_expand_prefix [of ts' "window_copy d' n (out @ [b])"] by auto
  then have "msc_rest blks out d 0 ts = b # msc_rest blks (out @ [b]) d' n ts'" using u(4) by (simp add: msc_rest_def ts)
  then show ?thesis using u(1-3) unfolding msc_stream_def by blast
qed

lemma msc_stream_step:
  assumes "msc_stream s os"
  shows "\<exists>r u. msc_decode_octet s = Some (r, u) \<and> msc_same s u \<and>
    (case os of [] \<Rightarrow> r = None \<and> msc_stream u [] | b # os' \<Rightarrow> r = Some b \<and> msc_stream u os')"
proof (cases "msc_nr_blocks s \<le> msc_block_num s")
  case True
  then have "os = []" using assms by (auto simp: msc_stream_def msc_at_def)
  then show ?thesis using True by (simp add: msc_decode_octet_def msc_same_def msc_stream_def)
next
  case False
  then obtain blks out d n ts where s: "msc_at s blks out d n ts" and os: "os = msc_rest blks out d n ts"
    using assms by (auto simp: msc_stream_def)
  have dec: "msc_decode_octet s = msc_decode_loop 0 s" using False by (simp add: msc_decode_octet_def)
  consider m where "n = Suc m" | "n = 0" "ts \<noteq> []" | b bs where "n = 0" "ts = []" "blks = b # bs" | "n = 0" "ts = []" "blks = []"
    by (metis neq_Nil_conv not0_implies_Suc)
  then show ?thesis
  proof cases
    case 1
    let ?b = "window_octet d out"
    obtain u where u: "msc_decode_loop 0 s = Some (Some ?b, u)" "msc_same s u" "msc_at u blks (out @ [?b]) d m ts"
      using msc_copy_step [of s blks out d m ts 0] s 1 by auto
    obtain x where "window_copy d m (out @ [?b]) = (out @ [?b]) @ x" using msc_copy_prefix by blast
    then obtain y where "msc_expand ts (window_copy d m (out @ [?b])) = (out @ [?b]) @ y"
      using msc_expand_prefix [of ts "window_copy d m (out @ [?b])"] by auto
    then have "os = ?b # msc_rest blks (out @ [?b]) d m ts" by (simp add: os msc_rest_def 1)
    moreover have "msc_stream u (msc_rest blks (out @ [?b]) d m ts)" using u(3) unfolding msc_stream_def by blast
    ultimately show ?thesis using dec u(1,2) by simp
  next
    case 2
    then show ?thesis using msc_stream_token [of s blks out d ts 0] s dec os by auto
  next
    case 3
    let ?u = "s\<lparr>msc_block_num := msc_block_num s + 1, msc_block_pos := 0, msc_raw_pos := 0\<rparr>"
    have nb: "msc_decode_loop 0 s = msc_decode_loop 0 ?u" "msc_at ?u bs [] d 0 b" "msc_same s ?u"
      using msc_next_block [of s b bs out d] s 3 by blast+
    have "b \<noteq> []" using s 3 by (simp add: msc_at_def msc_fits_def)
    then obtain c os' w where "msc_rest bs [] d 0 b = c # os'" "msc_decode_loop 0 ?u = Some (Some c, w)" "msc_same ?u w" "msc_stream w os'"
      using msc_stream_token [OF nb(2)] by blast
    moreover have "os = msc_rest bs [] d 0 b" by (simp add: os msc_rest_def 3)
    ultimately show ?thesis using dec nb(1) by (simp add: msc_same_def)
  next
    case 4
    have "msc_advance s = Some (False, s\<lparr>msc_block_num := msc_block_num s + 1\<rparr>)"
      using s 4 by (auto simp: msc_at_def msc_in_def msc_advance_def msc_block_def)
    then have "msc_decode_loop 0 s = Some (None, s\<lparr>msc_block_num := msc_block_num s + 1\<rparr>)" by (simp add: msc_decode_loop.simps)
    moreover have "os = []" by (simp add: os msc_rest_def 4)
    moreover have "msc_nr_blocks s \<le> msc_block_num s + 1" using s 4 by (simp add: msc_at_def)
    ultimately show ?thesis using dec by (simp add: msc_same_def msc_stream_def)
  qed
qed

section \<open>Playing\<close>

text \<open>What the octets mean: pairs of a register and a value, or of 0xFF and a delay; a delay of 0 is none.\<close>

fun msc_events :: "bytes \<Rightarrow> bool \<times> opl_event list \<times> u8 \<times> bytes" where
  "msc_events (c # d # os) =
     (if c = 0xFF then (if d = 0 then msc_events os else (True, [], d - 1, os))
      else let (go, es, w, r) = msc_events os in (go, OplWrite (uint c) (uint d) # es, w, r))"
| "msc_events [] = (False, [], 0, [])"
| "msc_events [c] = (False, [], 0, [])"

definition msc_tick :: "u8 \<Rightarrow> bytes \<Rightarrow> bool \<times> opl_event list \<times> u8 \<times> bytes" where
  "msc_tick delay os = (if delay \<noteq> 0 then (True, [], delay - 1, os) else msc_events os)"

lemma msc_stream_update [simp]:
  "msc_stream (s\<lparr>msc_delay := w\<rparr>) os = msc_stream s os" "msc_stream (s\<lparr>opl_out := out\<rparr>) os = msc_stream s os"
  "msc_stream (s\<lparr>msc_play_pos := p\<rparr>) os = msc_stream s os"
  by (simp_all add: msc_stream_def msc_at_def msc_in_def)

lemma msc_output_ok:
  "msc_stream s os \<Longrightarrow> msc_delay s = 0 \<Longrightarrow> msc_events os = (go, es, w, r) \<Longrightarrow>
   \<exists>t. msc_output s = Some (go, t) \<and> opl_out t = opl_out s @ es \<and> msc_stream t r \<and> (if go then msc_delay t \<noteq> 0 else w = 0 \<and> msc_delay t = 0) \<and>
     (go \<longrightarrow> msc_delay t - 1 = w)"
proof (induction os arbitrary: s es rule: msc_events.induct)
  case (1 c d os)
  obtain u where u: "msc_decode_octet s = Some (Some c, u)" "msc_same s u" "msc_stream u (d # os)"
    using msc_stream_step [OF "1.prems"(1)] by auto
  obtain v where v: "msc_decode_octet u = Some (Some d, v)" "msc_same u v" "msc_stream v os"
    using msc_stream_step [OF u(3)] by auto
  have same: "opl_out v = opl_out s" "msc_delay v = 0" using u(2) v(2) "1.prems"(2) by (simp_all add: msc_same_def)
  let ?v = "if c = 0xFF then v\<lparr>msc_delay := 1 + (d - 1)\<rparr> else opl_write (uint c) (uint d) v"
  have run: "msc_output s = msc_output ?v" using u(1) v(1) "1.prems"(2) by (simp add: msc_output.simps [of s])
  consider "c = 0xFF" "d = 0" | "c = 0xFF" "d \<noteq> 0" | "c \<noteq> 0xFF" by blast
  then show ?case
  proof cases
    case 1
    then have "?v = v\<lparr>msc_delay := 0\<rparr>" by simp
    then show ?thesis using "1.IH"(1) [of "v\<lparr>msc_delay := 0\<rparr>" es] 1 "1.prems"(3) v(3) same run by simp
  next
    case 2
    then show ?thesis using "1.prems"(3) v(3) same run by (auto simp: msc_output.simps [of "v\<lparr>msc_delay := d\<rparr>"])
  next
    case 3
    obtain es' where es': "msc_events os = (go, es', w, r)" "es = OplWrite (uint c) (uint d) # es'"
      using "1.prems"(3) 3 by (auto split: prod.splits)
    have "msc_stream (opl_write (uint c) (uint d) v) os" "msc_delay (opl_write (uint c) (uint d) v) = 0"
      using v(3) same by (simp_all add: opl_calls)
    from "1.IH"(2) [OF 3 this es'(1)] show ?thesis using 3 run same es'(2) by (auto simp: opl_calls)
  qed
next
  case 2
  then show ?case using msc_stream_step [OF "2.prems"(1)] by (auto simp: msc_output.simps [of s] msc_same_def)
next
  case (3 c)
  obtain u where u: "msc_decode_octet s = Some (Some c, u)" "msc_same s u" "msc_stream u []"
    using msc_stream_step [OF "3.prems"(1)] by auto
  then show ?case using "3.prems" msc_stream_step [OF u(3)] by (auto simp: msc_output.simps [of s] msc_same_def)
qed

lemma msc_update_stream:
  assumes "msc_stream s os" "msc_tick (msc_delay s) os = (go, es, w, r)"
  shows "\<exists>t. msc_update s = Some (go, t) \<and> opl_out t = opl_out s @ es \<and> msc_delay t = w \<and> msc_stream t r"
proof (cases "msc_delay s = 0")
  case True
  then have "msc_events os = (go, es, w, r)" using assms(2) by (simp add: msc_tick_def)
  from msc_output_ok [OF assms(1) True this] obtain t where
    t: "msc_output s = Some (go, t)" "opl_out t = opl_out s @ es" "msc_stream t r"
      "if go then msc_delay t \<noteq> 0 else w = 0 \<and> msc_delay t = 0" "go \<longrightarrow> msc_delay t - 1 = w" by blast
  show ?thesis
  proof (cases go)
    case True
    then show ?thesis using t by (simp add: msc_update_def)
  next
    case False
    then show ?thesis using t by (simp add: msc_update_def)
  qed
next
  case False
  then have "msc_output s = Some (True, s)" by (simp add: msc_output.simps)
  then show ?thesis using False assms by (auto simp: msc_update_def msc_tick_def)
qed

text \<open>C9: On a song whose blocks encode octets, \<open>update\<close> does what the octets say: a decoder, its blocks, prefixes
  and copies put together, is no more than the list of the octets that are left.\<close>

theorem msc_update_refines:
  assumes "msc_stream s os" "msc_tick (msc_delay s) os = (go, es, w, r)"
  shows "\<exists>t. msc_update s = Some (go, t) \<and> opl_out t = opl_out s @ es \<and> msc_delay t = w \<and> msc_stream t r"
  using assms by (rule msc_update_stream)

text \<open>All register writes of the octets, in order.\<close>

fun msc_writes :: "bytes \<Rightarrow> opl_event list" where
  "msc_writes (c # d # os) = (if c = 0xFF then [] else [OplWrite (uint c) (uint d)]) @ msc_writes os"
| "msc_writes os = []"

lemma msc_events_rest:
  "msc_events os = (go, es, w, r) \<Longrightarrow> msc_writes os = es @ msc_writes r \<and> (go \<longrightarrow> length r < length os) \<and> (\<not> go \<longrightarrow> r = [])"
proof (induction os arbitrary: es rule: msc_events.induct)
  case (1 c d os)
  consider "c = 0xFF" "d = 0" | "c = 0xFF" "d \<noteq> 0" | "c \<noteq> 0xFF" by blast
  then show ?case
  proof cases
    case 1
    then show ?thesis using "1.IH"(1) [of es] "1.prems" by auto
  next
    case 2
    then show ?thesis using "1.prems" by auto
  next
    case 3
    obtain es' where "msc_events os = (go, es', w, r)" "es = OplWrite (uint c) (uint d) # es'"
      using "1.prems" 3 by (auto split: prod.splits)
    then show ?thesis using "1.IH"(2) [OF 3] 3 by auto
  qed
qed auto

text \<open>Such a song ends: after finitely many ticks \<open>update\<close> reports the end, and the chip has been told all its
  register writes, in order.\<close>

theorem msc_song_complete:
  assumes "msc_stream s os"
  shows "\<exists>n s1 s2. play msc_update n s = Some s1 \<and> msc_update s1 = Some (False, s2) \<and>
    opl_out s2 = opl_out s @ msc_writes os"
  using assms
proof (induction "(length os, unat (msc_delay s))" arbitrary: s os rule: wf_induct_rule [OF wf_lex_prod [OF wf_less_than wf_less_than], case_names less])
  case less
  obtain go es w r where tick: "msc_tick (msc_delay s) os = (go, es, w, r)" by (metis surj_pair)
  then obtain t where t: "msc_update s = Some (go, t)" "opl_out t = opl_out s @ es" "msc_delay t = w" "msc_stream t r"
    using msc_update_stream [OF less.prems] by blast
  have writes: "msc_writes os = es @ msc_writes r" 
    using tick msc_events_rest [of os go es w r] by (auto simp: msc_tick_def split: if_splits)
  show ?case
  proof (cases go)
    case False
    then have "r = []" using tick msc_events_rest [of os go es w r] by (auto simp: msc_tick_def split: if_splits)
    then have "play msc_update 0 s = Some s" "opl_out t = opl_out s @ msc_writes os" using t(2) writes by simp_all
    then show ?thesis using t(1) False by (intro exI [of _ 0] exI [of _ s] exI [of _ t]) simp
  next
    case True
    have "((length r, unat (msc_delay t)), (length os, unat (msc_delay s))) \<in> less_than <*lex*> less_than"
    proof (cases "msc_delay s = 0")
      case True
      then show ?thesis using tick \<open>go\<close> msc_events_rest [of os go es w r] by (simp add: msc_tick_def)
    next
      case False
      then have "r = os" "w = msc_delay s - 1" using tick by (auto simp: msc_tick_def)
      moreover have "unat (msc_delay s - 1) < unat (msc_delay s)" using False by (simp add: unat_minus_one unat_gt_0)
      ultimately show ?thesis using t(3) by simp
    qed
    from less.hyps [OF this t(4)] obtain n s1 s2 where
      "play msc_update n t = Some s1" "msc_update s1 = Some (False, s2)" "opl_out s2 = opl_out t @ msc_writes r" by blast
    moreover from this have "play msc_update (Suc n) s = Some s1" using t(1) by simp
    ultimately show ?thesis using t(2) writes by (intro exI [of _ "Suc n"] exI [of _ s1] exI [of _ s2]) simp
  qed
qed

section \<open>Loading a song\<close>

lemma length_msc_read_blocks: "msc_read_blocks io n f = (blks, g) \<Longrightarrow> length blks = n"
  by (induction n arbitrary: f blks) (auto split: prod.splits)

lemma msc_start_at:
  assumes "msc_nr_blocks s = length (b # bs)" "msc_data s = map msc_block (b # bs)" "msc_block_num s = 0" "msc_block_pos s = 0"
    "msc_raw_pos s = 0" "msc_prefix s = 0" "msc_len s = 0 \<or> msc_copies b" "\<forall>c \<in> set (b # bs). msc_fits (length (msc_raw_data s)) c"
  shows "msc_stream s (concat (map (\<lambda>c. msc_expand c []) (b # bs)))"
proof -
  have "msc_at s bs [] 0 0 b" using assms by (simp add: msc_at_def msc_in_def rd_Some msc_fits_def)
  moreover have "concat (map (\<lambda>c. msc_expand c []) (b # bs)) = msc_rest bs [] 0 0 b" by (simp add: msc_rest_def)
  ultimately show ?thesis unfolding msc_stream_def by blast
qed

section \<open>Witnesses\<close>

definition msc_sample_blocks :: "msc_token list list" where
  "msc_sample_blocks = [[Lit 0x40, Lit 3, Lit 0xFF, Lit 2], [Lit 0x9B, Near 1 5, Far 17 4]]"

definition msc_sample :: msc_player where
  "msc_sample =
     \<lparr>opl_out = [], msc_version = 0, msc_nr_blocks = 2, msc_block_len = 16, msc_timer_div = 0,
      msc_data = map msc_block msc_sample_blocks, msc_block_num = 0, msc_block_pos = 0, msc_raw_pos = 0,
      msc_raw_data = replicate 16 0, msc_prefix = 0, msc_dist = 0, msc_len = 0, msc_delay = 0, msc_play_pos = 0\<rparr>"

lemma msc_copy_numeral [simp]:
  "window_copy d (numeral k) out = window_copy d (pred_numeral k) (out @ [window_octet d out])"
  by (simp add: numeral_eq_Suc)

lemma msc_sample_fits: "\<forall>c \<in> set msc_sample_blocks. msc_fits 16 c"
  by (simp add: msc_sample_blocks_def msc_fits_def window_octet_def)

lemma msc_sample_stream: "msc_stream msc_sample (concat (map (\<lambda>c. msc_expand c []) msc_sample_blocks))"
  using msc_start_at [of msc_sample "hd msc_sample_blocks" "tl msc_sample_blocks"] msc_sample_fits
  by (simp add: msc_sample_def msc_sample_blocks_def)

lemma msc_sample_octets:
  "concat (map (\<lambda>c. msc_expand c []) msc_sample_blocks) =
     [0x40, 3, 0xFF, 2, 0x9B, 0x9B, 0x9B, 0x9B, 0x9B, 0x9B, 0, 0, 0, 0]"
  by (simp add: msc_sample_blocks_def window_octet_def)

lemma msc_update_refines_witness:
  "\<exists>t. msc_update msc_sample = Some (True, t) \<and> opl_out t = opl_out msc_sample @ [OplWrite 0x40 3] \<and> msc_delay t = 1 \<and>
    msc_stream t [0x9B, 0x9B, 0x9B, 0x9B, 0x9B, 0x9B, 0, 0, 0, 0]"
  by (rule msc_update_refines [OF msc_sample_stream]) (simp add: msc_sample_octets msc_tick_def msc_sample_def)

lemma msc_song_complete_witness:
  "\<exists>n s1 s2. play msc_update n msc_sample = Some s1 \<and> msc_update s1 = Some (False, s2) \<and>
    opl_out s2 = [OplWrite 0x40 3, OplWrite 0x9B 0x9B, OplWrite 0x9B 0x9B, OplWrite 0x9B 0x9B, OplWrite 0 0, OplWrite 0 0]"
  using msc_song_complete [OF msc_sample_stream] by (simp add: msc_sample_octets) (simp add: msc_sample_def)

section \<open>Files\<close>

definition msc_song_file :: "bytes \<Rightarrow> nat \<Rightarrow> nat \<Rightarrow> msc_token list list \<Rightarrow> bytes" where
  "msc_song_file desc timer len bs =
     msc_signature @ le16 0 @ desc @ le16 timer @ le16 (length bs) @ le16 len @
     concat (map (\<lambda>c. le16 (length (msc_block c)) @ msc_block c) bs)"

lemma msc_read_blocks_rest:
  "ms_rest g = concat (map (\<lambda>c. le16 (length (msc_block c)) @ msc_block c) bs) \<Longrightarrow> \<forall>c \<in> set bs. length (msc_block c) < 65536 \<Longrightarrow>
   \<exists>h. msc_read_blocks memio (length bs) g = (map msc_block bs, h)"
proof (induction bs arbitrary: g)
  case (Cons b bs)
  let ?r = "concat (map (\<lambda>c. le16 (length (msc_block c)) @ msc_block c) bs)"
  obtain h where h: "read_u16 memio g = (of_nat (length (msc_block b)), h)" "ms_rest h = msc_block b @ ?r"
    using read_le16_rest [of g "length (msc_block b)" "msc_block b @ ?r"] Cons.prems by auto
  obtain i where i: "read_u8s memio (length (msc_block b)) h = (msc_block b, i)" "ms_rest i = ?r"
    using read_u8s_rest [OF h(2)] by blast
  have "unat (of_nat (length (msc_block b)) :: u16) = length (msc_block b)"
    using Cons.prems(2) by (simp add: unat_of_nat take_bit_eq_mod)
  then show ?case using h(1) i Cons.IH [OF i(2)] Cons.prems(2) by auto
qed simp

lemma msc_load_header_rest:
  assumes "length desc = 64" "timer < 65536" "length bs < 65536" "len < 65536"
  shows "\<exists>g. msc_load_header memio mem (mem_file (msc_song_file desc timer len bs)) =
      (Some (0, of_nat timer, of_nat (length bs), of_nat len), g) \<and>
    ms_rest g = concat (map (\<lambda>c. le16 (length (msc_block c)) @ msc_block c) bs)"
proof -
  let ?data = "concat (map (\<lambda>c. le16 (length (msc_block c)) @ msc_block c) bs)"
  have start: "ms_rest (mem_file (msc_song_file desc timer len bs)) =
      msc_signature @ le16 0 @ desc @ le16 timer @ le16 (length bs) @ le16 len @ ?data"
    by (simp add: ms_rest_def mem_file_def msc_song_file_def)
  have sig: "length msc_signature = 16" by (simp add: msc_signature_def bytes_of_def)
  obtain g1 where g1: "bio_readString memio 16 (fresh mem 16) (mem_file (msc_song_file desc timer len bs)) = (16, msc_signature, g1)"
    "ms_rest g1 = le16 0 @ desc @ le16 timer @ le16 (length bs) @ le16 len @ ?data"
    using read_string_rest [OF start sig, of "fresh mem 16"] by (auto simp: length_fresh)
  obtain g2 where g2: "read_u16 memio g1 = (0, g2)" "ms_rest g2 = desc @ le16 timer @ le16 (length bs) @ le16 len @ ?data"
    using read_le16_rest [OF g1(2)] by auto
  obtain g3 where g3: "bio_readString memio 64 (fresh mem 64) g2 = (64, desc, g3)"
    "ms_rest g3 = le16 timer @ le16 (length bs) @ le16 len @ ?data"
    using read_string_rest [OF g2(2) assms(1), of "fresh mem 64"] by (auto simp: length_fresh)
  obtain g4 where g4: "read_u16 memio g3 = (of_nat timer, g4)" "ms_rest g4 = le16 (length bs) @ le16 len @ ?data"
    using read_le16_rest [OF g3(2) assms(2)] by blast
  obtain g5 where g5: "read_u16 memio g4 = (of_nat (length bs), g5)" "ms_rest g5 = le16 len @ ?data"
    using read_le16_rest [OF g4(2) assms(3)] by blast
  obtain g6 where g6: "read_u16 memio g5 = (of_nat len, g6)" "ms_rest g6 = ?data"
    using read_le16_rest [OF g5(2) assms(4)] by blast
  show ?thesis using g1(1) g2(1) g3(1) g4(1) g5(1) g6 by (simp add: msc_load_header_def)
qed

lemma msc_song_file_loads:
  assumes "length desc = 64" "timer < 65536" "bs \<noteq> []" "length bs < 65536" "len < 65536"
    "\<forall>c \<in> set bs. length (msc_block c) < 65536"
  shows "msc_load memio (\<lambda>_. Some (mem_file (msc_song_file desc timer len bs))) mem filename s =
    Some (True, opl_write 1 32 (opl_init (s\<lparr>msc_version := 0, msc_timer_div := of_nat timer, msc_nr_blocks := length bs,
      msc_block_len := len, msc_data := map msc_block bs, msc_raw_data := fresh mem len, msc_prefix := 0, msc_block_num := 0,
      msc_block_pos := 0, msc_play_pos := 0, msc_raw_pos := 0, msc_delay := 0\<rparr>)))"
proof -
  obtain g where g: "msc_load_header memio mem (mem_file (msc_song_file desc timer len bs)) =
      (Some (0, of_nat timer, of_nat (length bs), of_nat len), g)"
    "ms_rest g = concat (map (\<lambda>c. le16 (length (msc_block c)) @ msc_block c) bs)"
    using msc_load_header_rest [OF assms(1,2,4,5)] by blast
  from msc_read_blocks_rest [OF g(2) assms(6)] obtain h where h: "msc_read_blocks memio (length bs) g = (map msc_block bs, h)" by blast
  have n: "unat (of_nat (length bs) :: u16) = length bs" "unat (of_nat len :: u16) = len"
    using assms(4,5) by (simp_all add: unat_of_nat take_bit_eq_mod)
  then have nz: "(of_nat (length bs) :: u16) \<noteq> 0" using assms(3) by (auto simp: word_unat_eq_iff)
  show ?thesis using g(1) h n nz by (simp add: msc_load_def msc_rewind_def)
qed

text \<open>C12: Every song written as a file, of whatever valid blocks, is loaded and plays to its end, sending exactly
  the register writes its octets stand for, provided the player's \<open>dec_len\<close> is 0, which neither the constructor
  nor \<open>rewind\<close> sees to, or the first block contains a copy, which sets it. The other case is the property of
  \<open>msc_stale_length_faults\<close>.\<close>

theorem msc_file_plays:
  assumes "length desc = 64" "timer < 65536" "bs \<noteq> []" "length bs < 65536" "len < 65536"
    "\<forall>c \<in> set bs. msc_fits len c \<and> length (msc_block c) < 65536" "msc_len s = 0 \<or> msc_copies (hd bs)"
  shows "\<exists>t n s1 s2. msc_load memio (\<lambda>_. Some (mem_file (msc_song_file desc timer len bs))) mem filename s = Some (True, t) \<and>
    play msc_update n t = Some s1 \<and> msc_update s1 = Some (False, s2) \<and>
    opl_out s2 = opl_out s @ [OplInit, OplWrite 1 32] @ msc_writes (concat (map (\<lambda>c. msc_expand c []) bs))"
proof -
  let ?t = "opl_write 1 32 (opl_init (s\<lparr>msc_version := 0, msc_timer_div := of_nat timer, msc_nr_blocks := length bs,
    msc_block_len := len, msc_data := map msc_block bs, msc_raw_data := fresh mem len, msc_prefix := 0, msc_block_num := 0,
    msc_block_pos := 0, msc_play_pos := 0, msc_raw_pos := 0, msc_delay := 0\<rparr>))"
  have load: "msc_load memio (\<lambda>_. Some (mem_file (msc_song_file desc timer len bs))) mem filename s = Some (True, ?t)"
    using msc_song_file_loads [of desc timer bs len mem filename s] assms by blast
  obtain b bs' where bs: "bs = b # bs'" using assms(3) by (cases bs) simp_all
  have "msc_stream ?t (concat (map (\<lambda>c. msc_expand c []) (b # bs')))"
    by (rule msc_start_at) (use assms(6,7) bs in \<open>simp_all add: opl_calls\<close>)
  from msc_song_complete [OF this] show ?thesis using load bs by (auto simp: opl_calls)
qed

lemma msc_file_plays_witness:
  "\<exists>t n s1 s2. msc_load memio (\<lambda>_. Some (mem_file (msc_song_file (replicate 64 0) 0 16 msc_sample_blocks))) (\<lambda>_. 0) ''a.msc''
      msc_sample = Some (True, t) \<and> play msc_update n t = Some s1 \<and> msc_update s1 = Some (False, s2) \<and>
    opl_out s2 = [OplInit, OplWrite 1 32, OplWrite 0x40 3, OplWrite 0x9B 0x9B, OplWrite 0x9B 0x9B, OplWrite 0x9B 0x9B,
        OplWrite 0 0, OplWrite 0 0]"
proof -
  have "\<forall>c \<in> set msc_sample_blocks. msc_fits 16 c \<and> length (msc_block c) < 65536"
    using msc_sample_fits by (simp add: msc_sample_blocks_def msc_block_def msc_ext_def)
  moreover have "msc_sample_blocks \<noteq> []" "length msc_sample_blocks < 65536" by (simp_all add: msc_sample_blocks_def)
  ultimately show ?thesis
    using msc_file_plays [of "replicate 64 0" 0 msc_sample_blocks 16 msc_sample "\<lambda>_. 0" "''a.msc''"]
    by (simp add: msc_sample_octets) (simp add: msc_sample_def)
qed

section \<open>A length left over\<close>

text \<open>
  A player whose \<open>dec_len\<close> is not 0, in a first block of octets \<open>os\<close> and no copies, at the place before
  them. Nothing tells it where the block ends.
\<close>

definition msc_lits :: "'a msc_player_scheme \<Rightarrow> bytes \<Rightarrow> bool" where
  "msc_lits s os \<longleftrightarrow> msc_nr_blocks s \<noteq> 0 \<and> msc_block_num s = 0 \<and> msc_prefix s = 0 \<and> msc_len s \<noteq> 0 \<and>
     msc_in s (msc_block (map Lit os)) \<and> msc_raw_pos s + length os \<le> length (msc_raw_data s)"

lemma msc_lits_update [simp]:
  "msc_lits (s\<lparr>msc_delay := w\<rparr>) os = msc_lits s os" "msc_lits (s\<lparr>opl_out := out\<rparr>) os = msc_lits s os"
  "msc_lits (s\<lparr>msc_play_pos := p\<rparr>) os = msc_lits s os"
  by (simp_all add: msc_lits_def msc_in_def)

lemma msc_lits_step:
  assumes "msc_lits s (b # os)"
  shows "\<exists>u. msc_decode_octet s = Some (Some b, u) \<and> msc_same s u \<and> msc_lits u os \<and> msc_data u = msc_data s"
proof -
  have a: "msc_nr_blocks s \<noteq> 0" "msc_block_num s = 0" "msc_prefix s = 0" "msc_len s \<noteq> 0"
    "msc_in s (msc_encode (Lit b) @ msc_block (map Lit os))" "msc_raw_pos s < length (msc_raw_data s)"
    "msc_raw_pos s + 1 + length os \<le> length (msc_raw_data s)"
    using assms by (simp_all add: msc_lits_def msc_block_def)
  have "\<exists>p. msc_decode_loop 0 s = msc_emit b (s\<lparr>msc_block_pos := p\<rparr>) \<and> msc_in (s\<lparr>msc_block_pos := p\<rparr>) (msc_block (map Lit os))"
  proof (cases "b = 155 \<or> b = 175")
    case True
    then have in0: "msc_in s (b # 0 # msc_block (map Lit os))" using a(5) by simp
    let ?s = "s\<lparr>msc_block_pos := msc_block_pos s + 1, msc_prefix := b\<rparr>"
    have in1: "msc_in ?s (0 # msc_block (map Lit os))" using msc_in_Cons(3) [OF in0] by simp
    have "msc_decode_loop 0 s = msc_emit b (?s\<lparr>msc_block_pos := msc_block_pos ?s + 1, msc_prefix := 0\<rparr>)"
      using msc_round_prefix [OF in0 a(3) True] msc_round_escaped [OF in1] True by simp
    moreover have "?s\<lparr>msc_block_pos := msc_block_pos ?s + 1, msc_prefix := 0\<rparr> = s\<lparr>msc_block_pos := msc_block_pos s + 2\<rparr>"
      using a(3) by simp
    ultimately show ?thesis using msc_in_Cons(3) [OF in1] by (intro exI [of _ "msc_block_pos s + 2"]) (simp add: msc_in_def)
  next
    case False
    then have in0: "msc_in s (b # msc_block (map Lit os))" using a(5) by simp
    show ?thesis using msc_round_literal [OF in0 a(3)] False msc_in_Cons(3) [OF in0] by (intro exI [of _ "msc_block_pos s + 1"]) simp
  qed
  then obtain p where p: "msc_decode_loop 0 s = msc_emit b (s\<lparr>msc_block_pos := p\<rparr>)"
    "msc_in (s\<lparr>msc_block_pos := p\<rparr>) (msc_block (map Lit os))" by blast
  let ?u = "s\<lparr>msc_block_pos := p, msc_raw_data := (msc_raw_data s)[msc_raw_pos s := b], msc_raw_pos := msc_raw_pos s + 1\<rparr>"
  have "msc_emit b (s\<lparr>msc_block_pos := p\<rparr>) = Some (Some b, ?u)" using a(6) by (simp add: msc_emit_def wr_Some)
  moreover have "msc_lits ?u os" using a p(2) by (simp add: msc_lits_def msc_in_def)
  moreover have "msc_decode_octet s = msc_decode_loop 0 s" using a(1,2) by (simp add: msc_decode_octet_def)
  ultimately show ?thesis using p(1) by (intro exI [of _ ?u]) (simp add: msc_same_def)
qed

lemma msc_lits_behind:
  assumes "msc_lits s []"
  shows "length (msc_data s ! 0) \<le> msc_block_pos s" "msc_advance s = Some (True, s)" "msc_read s = None" "msc_decode_octet s = None"
proof -
  obtain blk where blk: "rd (msc_data s) 0 = Some blk" "length blk \<le> msc_block_pos s"
    using assms by (auto simp: msc_lits_def msc_in_def msc_block_def)
  have s: "msc_block_num s = 0" "msc_len s \<noteq> 0" "msc_prefix s = 0" "msc_nr_blocks s \<noteq> 0" using assms by (simp_all add: msc_lits_def)
  show "length (msc_data s ! 0) \<le> msc_block_pos s" using blk by (auto simp: rd_def split: if_splits)
  show adv: "msc_advance s = Some (True, s)" using blk(1) s by (simp add: msc_advance_def)
  show rd: "msc_read s = None" using blk s by (simp add: msc_read_def rd_def)
  show "msc_decode_octet s = None" using adv rd s by (simp add: msc_decode_octet_def msc_decode_loop.simps)
qed

lemma msc_lits_output:
  "msc_lits s os \<Longrightarrow> msc_delay s = 0 \<Longrightarrow>
   msc_output s = None \<or> (\<exists>t r. msc_output s = Some (True, t) \<and> msc_lits t r \<and> length r < length os \<and> msc_delay t \<noteq> 0)"
proof (induction os arbitrary: s rule: msc_events.induct)
  case (1 c d os)
  obtain u where u: "msc_decode_octet s = Some (Some c, u)" "msc_same s u" "msc_lits u (d # os)"
    using msc_lits_step [OF "1.prems"(1)] by blast
  obtain v where v: "msc_decode_octet u = Some (Some d, v)" "msc_same u v" "msc_lits v os"
    using msc_lits_step [OF u(3)] by blast
  have same: "msc_delay v = 0" using u(2) v(2) "1.prems"(2) by (simp add: msc_same_def)
  let ?v = "if c = 0xFF then v\<lparr>msc_delay := 1 + (d - 1)\<rparr> else opl_write (uint c) (uint d) v"
  have run: "msc_output s = msc_output ?v" using u(1) v(1) "1.prems"(2) by (simp add: msc_output.simps [of s])
  consider "c = 0xFF" "d = 0" | "c = 0xFF" "d \<noteq> 0" | "c \<noteq> 0xFF" by blast
  then show ?case
  proof cases
    case 1
    then have "?v = v\<lparr>msc_delay := 0\<rparr>" by simp
    then show ?thesis using "1.IH"(1) [of "v\<lparr>msc_delay := 0\<rparr>"] 1 v(3) run by fastforce
  next
    case 2
    then show ?thesis using v(3) run by (auto simp: msc_output.simps [of "v\<lparr>msc_delay := d\<rparr>"])
  next
    case 3
    have "msc_lits (opl_write (uint c) (uint d) v) os" "msc_delay (opl_write (uint c) (uint d) v) = 0"
      using v(3) same by (simp_all add: opl_calls)
    from "1.IH"(2) [OF 3 this] show ?thesis using 3 run by fastforce
  qed
next
  case 2
  then show ?case using msc_lits_behind(4) [OF "2.prems"(1)] by (simp add: msc_output.simps [of s])
next
  case (3 c)
  obtain u where u: "msc_decode_octet s = Some (Some c, u)" "msc_lits u []" using msc_lits_step [OF "3.prems"(1)] by blast
  then show ?case using "3.prems" msc_lits_behind(4) [OF u(2)] by (simp add: msc_output.simps [of s])
qed

lemma msc_lits_fault: "msc_lits s os \<Longrightarrow> comes_to_fault msc_update s"
proof (induction "(length os, unat (msc_delay s))" arbitrary: s os rule: wf_induct_rule [OF wf_lex_prod [OF wf_less_than wf_less_than], case_names less])
  case less
  show ?case
  proof (cases "msc_update s")
    case None
    then show ?thesis unfolding comes_to_fault_def by (intro exI [of _ 0] exI [of _ s]) simp
  next
    case (Some r)
    have "\<exists>t r. msc_update s = Some (True, t) \<and> msc_lits t r \<and>
      (length r < length os \<or> r = os \<and> unat (msc_delay t) < unat (msc_delay s))"
    proof (cases "msc_delay s = 0")
      case True
      obtain u v where "msc_output s = Some (True, u)" "msc_lits u v" "length v < length os" "msc_delay u \<noteq> 0"
        using msc_lits_output [OF less.prems True] Some by (auto simp: msc_update_def)
      then show ?thesis by (auto simp: msc_update_def intro!: exI [of _ v])
    next
      case False
      then have "msc_output s = Some (True, s)" by (simp add: msc_output.simps)
      moreover have "unat (msc_delay s - 1) < unat (msc_delay s)" using False by (simp add: unat_minus_one unat_gt_0)
      ultimately show ?thesis using False less.prems by (auto simp: msc_update_def)
    qed
    then obtain t r where t: "msc_update s = Some (True, t)" "msc_lits t r"
      "((length r, unat (msc_delay t)), (length os, unat (msc_delay s))) \<in> less_than <*lex*> less_than" by auto
    from less.hyps [OF t(3,2)] obtain n s1 where "play_on msc_update n t = Some s1" "msc_update s1 = None"
      by (auto simp: comes_to_fault_def)
    then show ?thesis using t(1) unfolding comes_to_fault_def by (intro exI [of _ "Suc n"] exI [of _ s1]) simp
  qed
qed

text \<open>The decoder on its own: the next \<open>n\<close> octets.\<close>

fun msc_octets :: "nat \<Rightarrow> 'a msc_player_scheme \<Rightarrow> (bytes \<times> 'a msc_player_scheme) option" where
  "msc_octets 0 s = Some ([], s)"
| "msc_octets (Suc n) s = do {
     (b, s) \<leftarrow> msc_decode_octet s;
     case b of None \<Rightarrow> None | Some b \<Rightarrow> map_option (apfst (Cons b)) (msc_octets n s)
   }"

lemma msc_lits_octets:
  "msc_lits s os \<Longrightarrow> \<exists>u. msc_octets (length os) s = Some (os, u) \<and> msc_lits u [] \<and> msc_data u = msc_data s"
proof (induction os arbitrary: s)
  case (Cons b os)
  obtain u where u: "msc_decode_octet s = Some (Some b, u)" "msc_lits u os" "msc_data u = msc_data s"
    using msc_lits_step [OF Cons.prems] by blast
  then show ?case using Cons.IH [OF u(2)] by auto
qed simp

lemma msc_expand_lits: "msc_expand (map Lit os) out = out @ os"
  by (induction os arbitrary: out) simp_all

lemma msc_no_copies: "\<not> msc_copies ts \<Longrightarrow> \<exists>os. ts = map Lit os"
proof (induction ts)
  case (Cons t ts)
  then obtain os b where "ts = map Lit os" "t = Lit b" by (auto simp: msc_copies_def)
  then show ?case by (intro exI [of _ "b # os"]) simp
qed simp

text \<open>C29: \<open>dec_len\<close>, which neither the constructor nor \<open>rewind\<close> sets, is not 0: then every song written as a file whose
  first block contains no copy is accepted; the decoder gives the octets of that block, takes its end for the middle
  of a copy, and the next octet is read behind the block. Playing the song comes to an update that makes this read.\<close>

theorem msc_stale_length_faults:
  assumes "length desc = 64" "timer < 65536" "bs \<noteq> []" "length bs < 65536" "len < 65536"
    "\<forall>c \<in> set bs. msc_fits len c \<and> length (msc_block c) < 65536" "msc_len s \<noteq> 0" "\<not> msc_copies (hd bs)"
  shows "\<exists>t u. msc_load memio (\<lambda>_. Some (mem_file (msc_song_file desc timer len bs))) mem filename s = Some (True, t) \<and>
    msc_octets (length (msc_expand (hd bs) [])) t = Some (msc_expand (hd bs) [], u) \<and>
    msc_block_num u = 0 \<and> length (msc_data u ! 0) \<le> msc_block_pos u \<and> msc_advance u = Some (True, u) \<and>
    msc_read u = None \<and> msc_decode_octet u = None \<and> comes_to_fault msc_update t"
proof -
  let ?t = "opl_write 1 32 (opl_init (s\<lparr>msc_version := 0, msc_timer_div := of_nat timer, msc_nr_blocks := length bs,
    msc_block_len := len, msc_data := map msc_block bs, msc_raw_data := fresh mem len, msc_prefix := 0, msc_block_num := 0,
    msc_block_pos := 0, msc_play_pos := 0, msc_raw_pos := 0, msc_delay := 0\<rparr>))"
  have load: "msc_load memio (\<lambda>_. Some (mem_file (msc_song_file desc timer len bs))) mem filename s = Some (True, ?t)"
    using msc_song_file_loads [of desc timer bs len mem filename s] assms(1-6) by blast
  obtain os where os: "hd bs = map Lit os" using msc_no_copies [OF assms(8)] by blast
  obtain b bs' where bs: "bs = b # bs'" using assms(3) by (cases bs) simp_all
  have "length os \<le> len" using assms(6) bs os by (simp add: msc_fits_def msc_expand_lits)
  then have lits: "msc_lits ?t os" using assms(7) bs os by (simp add: msc_lits_def msc_in_def rd_Some opl_calls length_fresh)
  then obtain u where u: "msc_octets (length os) ?t = Some (os, u)" "msc_lits u []" using msc_lits_octets by blast
  have "msc_block_num u = 0" using u(2) by (simp add: msc_lits_def)
  then show ?thesis using load u(1) msc_lits_behind [OF u(2)] msc_lits_fault [OF lits] os by (auto simp: msc_expand_lits)
qed

lemma msc_stale_length_faults_witness:
  "\<exists>t u. msc_load memio (\<lambda>_. Some (mem_file (msc_song_file (replicate 64 0) 0 16 [[Lit 0x40, Lit 3], [Lit 0xFF, Near 1 5]])))
      (\<lambda>_. 0) ''a.msc'' (msc_sample\<lparr>msc_len := 4\<rparr>) = Some (True, t) \<and>
    msc_octets 2 t = Some ([0x40, 3], u) \<and> msc_block_num u = 0 \<and> length (msc_data u ! 0) \<le> msc_block_pos u \<and>
    msc_advance u = Some (True, u) \<and> msc_read u = None \<and> msc_decode_octet u = None \<and> comes_to_fault msc_update t"
proof -
  let ?bs = "[[Lit 0x40, Lit 3], [Lit 0xFF, Near 1 5]]" and ?s = "msc_sample\<lparr>msc_len := 4\<rparr>"
  have "\<forall>c \<in> set ?bs. msc_fits 16 c \<and> length (msc_block c) < 65536"
    by (simp add: msc_fits_def window_octet_def msc_block_def msc_ext_def)
  moreover have "msc_len ?s \<noteq> 0" "\<not> msc_copies (hd ?bs)" by simp_all
  moreover have "msc_expand (hd ?bs) [] = [0x40, 3]" "length [0x40 :: u8, 3] = 2" by simp_all
  ultimately show ?thesis
    using msc_stale_length_faults [of "replicate 64 0" 0 ?bs 16 ?s "\<lambda>_. 0" "''a.msc''"] by (simp add: numeral_2_eq_2 del: msc_octets.simps)
qed

end
