(* ===== verification/Sng.thy ===== *)
theory Sng
  imports Loader
begin

text \<open>
  \<open>src/sng.cpp\<close>, \<open>src/sng.h\<close>: the player of SNG files of the Obsessive Music Player: a list of register writes, in
  which an entry of register 0 ends a tick.
\<close>

section \<open>The code\<close>

text \<open>An entry of \<open>data\<close> is the pair of its \<open>val\<close> and \<open>reg\<close>. The position is an \<open>unsigned short\<close>; it is only
  counted from entries that exist, of which there are at most 32767.\<close>

record sng_player = cplayer +
  sng_id :: bytes
  sng_length :: nat
  sng_start :: nat
  sng_loop :: nat
  sng_delay :: u8
  sng_compressed :: bool
  sng_data :: "(u8 \<times> u8) list"
  sng_del :: u8
  sng_pos :: nat
  sng_songend :: bool

definition sng_rewind :: "int \<Rightarrow> 'a sng_player_scheme \<Rightarrow> 'a sng_player_scheme option" where
  "sng_rewind subsong s =
     Some (opl_write 1 32 (opl_init (s\<lparr>sng_pos := sng_start s, sng_del := sng_delay s, sng_songend := False\<rparr>)))"

fun sng_read_data :: "('f, 'fl) binio \<Rightarrow> nat \<Rightarrow> 'f \<Rightarrow> (u8 \<times> u8) list \<times> 'f" where
  "sng_read_data io 0 f = ([], f)"
| "sng_read_data io (Suc n) f =
     (let (val, f) = read_u8 io f; (reg, f) = read_u8 io f; (ds, f) = sng_read_data io n f in ((val, reg) # ds, f))"

definition sng_load ::
  "('f, 'fl) binio \<Rightarrow> 'f opener \<Rightarrow> string \<Rightarrow> 'a sng_player_scheme \<Rightarrow> (bool \<times> 'a sng_player_scheme) option"
where
  "sng_load io opn filename s =
     (case opn filename of None \<Rightarrow> Some (False, s) | Some f \<Rightarrow>
       (let (_, ident, f) = bio_readString io 4 (sng_id s) f;
            (len, f) = read_u16 io f;
            (start, f) = read_u16 io f;
            (loop, f) = read_u16 io f;
            (delay, f) = read_u8 io f;
            (packed, f) = read_u8 io f;
            s = s\<lparr>sng_id := ident, sng_length := unat len, sng_start := unat start, sng_loop := unat loop,
              sng_delay := delay, sng_compressed := packed \<noteq> 0\<rparr>
        in if take 4 ident \<noteq> bytes_of ''ObsM'' then Some (False, s)
           else do {
             let s = s\<lparr>sng_length := sng_length s div 2, sng_start := sng_start s div 2, sng_loop := sng_loop s div 2\<rparr>;
             let (ds, f) = sng_read_data io (sng_length s) f;
             s \<leftarrow> sng_rewind 0 (s\<lparr>sng_data := ds\<rparr>);
             Some (True, s)
           }))"

text \<open>The end of the song is the way back to its loop.\<close>

definition sng_wrap :: "'a sng_player_scheme \<Rightarrow> 'a sng_player_scheme" where
  "sng_wrap s = (if sng_length s \<le> sng_pos s then s\<lparr>sng_songend := True, sng_pos := sng_loop s\<rparr> else s)"

partial_function (option) sng_writes :: "'a sng_player_scheme \<Rightarrow> 'a sng_player_scheme option" where
  "sng_writes s = do {
     (val, reg) \<leftarrow> rd (sng_data s) (sng_pos s);
     if reg \<noteq> 0 then
       (let s = opl_write (uint reg) (uint val) s; s = s\<lparr>sng_pos := sng_pos s + 1\<rparr> in sng_writes (sng_wrap s))
     else Some s
   }"

definition sng_update :: "'a sng_player_scheme \<Rightarrow> (bool \<times> 'a sng_player_scheme) option" where
  "sng_update s =
     (if sng_compressed s \<and> sng_del s \<noteq> 0 then
        (let s = s\<lparr>sng_del := sng_del s - 1\<rparr> in Some (\<not> sng_songend s, s))
      else do {
        s \<leftarrow> sng_writes s;
        (val, reg) \<leftarrow> rd (sng_data s) (sng_pos s);
        let s = (if \<not> sng_compressed s then opl_write (uint reg) (uint val) s else s);
        let s = (if val \<noteq> 0 then s\<lparr>sng_del := val - 1\<rparr> else s);
        let s = sng_wrap (s\<lparr>sng_pos := sng_pos s + 1\<rparr>);
        Some (\<not> sng_songend s, s)
      })"

section \<open>One tick\<close>

text \<open>The entries that end a tick.\<close>

definition sng_stop :: "'a sng_player_scheme \<Rightarrow> nat \<Rightarrow> bool" where
  "sng_stop s i \<longleftrightarrow> i < length (sng_data s) \<and> snd (sng_data s ! i) = 0"

definition sng_same :: "'a sng_player_scheme \<Rightarrow> 'a sng_player_scheme \<Rightarrow> bool" where
  "sng_same s t \<longleftrightarrow> sng_data t = sng_data s \<and> sng_length t = sng_length s \<and> sng_loop t = sng_loop s \<and>
     sng_start t = sng_start s \<and> sng_compressed t = sng_compressed s \<and> sng_delay t = sng_delay s \<and> sng_del t = sng_del s \<and>
     (\<exists>es. opl_out t = opl_out s @ es)"

lemma sng_same_trans: "sng_same s t \<Longrightarrow> sng_same t u \<Longrightarrow> sng_same s u"
  by (auto simp: sng_same_def)

lemma sng_writes_stop: "sng_stop s (sng_pos s) \<Longrightarrow> sng_writes s = Some s"
  by (subst sng_writes.simps) (auto simp: sng_stop_def access_simps split: prod.splits)

lemma sng_writes_go:
  assumes "sng_pos s < length (sng_data s)" "\<not> sng_stop s (sng_pos s)"
  shows "\<exists>e. sng_writes s = sng_writes (sng_wrap (s\<lparr>opl_out := opl_out s @ [e], sng_pos := sng_pos s + 1\<rparr>))"
  using assms by (subst sng_writes.simps) (auto simp: sng_stop_def access_simps opl_calls split: prod.splits)

text \<open>The loop comes to the next stop, or to the end of the song.\<close>

lemma sng_writes_next:
  assumes "sng_stop s i" "sng_pos s \<le> i" "sng_length s = length (sng_data s)"
  shows "\<exists>t. sng_writes s = Some t \<and> sng_same s t \<and> sng_songend t = sng_songend s \<and> sng_stop t (sng_pos t) \<and> sng_pos s \<le> sng_pos t"
  using assms
proof (induction "i - sng_pos s" arbitrary: s)
  case 0
  then have "sng_pos s = i" by simp
  then have "sng_stop s (sng_pos s)" using "0.prems"(1) by simp
  then show ?case using sng_writes_stop [of s] by (auto simp: sng_same_def)
next
  case (Suc n)
  show ?case
  proof (cases "sng_stop s (sng_pos s)")
    case True
    then show ?thesis using sng_writes_stop [of s] by (auto simp: sng_same_def)
  next
    case False
    have p: "sng_pos s < i" "i < length (sng_data s)" using Suc.hyps(2) Suc.prems(1) by (auto simp: sng_stop_def)
    then obtain e where e: "sng_writes s = sng_writes (sng_wrap (s\<lparr>opl_out := opl_out s @ [e], sng_pos := sng_pos s + 1\<rparr>))"
      using sng_writes_go [of s] False by auto
    let ?s = "s\<lparr>opl_out := opl_out s @ [e], sng_pos := sng_pos s + 1\<rparr>"
    have "sng_wrap ?s = ?s" using p Suc.prems(3) by (simp add: sng_wrap_def)
    moreover have "sng_same s ?s" by (simp add: sng_same_def)
    moreover have "n = i - sng_pos ?s" "sng_stop ?s i" "sng_pos ?s \<le> i" "sng_length ?s = length (sng_data ?s)"
      using Suc.hyps(2) Suc.prems p by (simp_all add: sng_stop_def)
    from Suc.hyps(1) [OF this] obtain t where "sng_writes ?s = Some t" "sng_same ?s t" "sng_songend t = sng_songend s"
      "sng_stop t (sng_pos t)" "sng_pos s \<le> sng_pos t" by auto
    ultimately show ?thesis using e sng_same_trans [of s ?s t] by auto
  qed
qed

lemma sng_writes_end:
  assumes "\<forall>i \<ge> sng_pos s. \<not> sng_stop s i" "sng_pos s < length (sng_data s)" "sng_length s = length (sng_data s)"
  shows "\<exists>t. sng_writes s = sng_writes t \<and> sng_same s t \<and> sng_songend t \<and> sng_pos t = sng_loop s"
  using assms
proof (induction "length (sng_data s) - sng_pos s" arbitrary: s)
  case (Suc n)
  obtain e where e: "sng_writes s = sng_writes (sng_wrap (s\<lparr>opl_out := opl_out s @ [e], sng_pos := sng_pos s + 1\<rparr>))"
    using sng_writes_go [of s] Suc.prems by auto
  let ?s = "s\<lparr>opl_out := opl_out s @ [e], sng_pos := sng_pos s + 1\<rparr>"
  have same: "sng_same s ?s" by (simp add: sng_same_def)
  show ?case
  proof (cases "sng_pos s + 1 < length (sng_data s)")
    case True
    then have "sng_wrap ?s = ?s" using Suc.prems(3) by (simp add: sng_wrap_def)
    moreover have "n = length (sng_data ?s) - sng_pos ?s" "\<forall>i \<ge> sng_pos ?s. \<not> sng_stop ?s i"
      "sng_pos ?s < length (sng_data ?s)" "sng_length ?s = length (sng_data ?s)"
      using Suc.hyps(2) Suc.prems True by (auto simp: sng_stop_def)
    from Suc.hyps(1) [OF this] obtain t where "sng_writes ?s = sng_writes t" "sng_same ?s t" "sng_songend t" "sng_pos t = sng_loop s"
      by auto
    ultimately show ?thesis using e same sng_same_trans [of s ?s t] by metis
  next
    case False
    then have "sng_wrap ?s = ?s\<lparr>sng_songend := True, sng_pos := sng_loop s\<rparr>" using Suc.prems(3) by (simp add: sng_wrap_def)
    then show ?thesis using e by (intro exI [of _ "?s\<lparr>sng_songend := True, sng_pos := sng_loop s\<rparr>"]) (simp add: sng_same_def)
  qed
qed simp

text \<open>A loop without a stop runs for ever.\<close>

lemma sng_writes_never:
  assumes "\<forall>i \<ge> sng_loop s. \<not> sng_stop s i" "sng_loop s < length (sng_data s)" "sng_length s = length (sng_data s)"
    "sng_loop s \<le> sng_pos s" "sng_pos s < length (sng_data s)"
  shows "sng_writes s = None"
proof (rule ccontr)
  have "sng_writes s = Some t \<Longrightarrow> \<forall>i \<ge> sng_loop s. \<not> sng_stop s i \<Longrightarrow> sng_loop s < length (sng_data s) \<Longrightarrow>
      sng_length s = length (sng_data s) \<Longrightarrow> sng_loop s \<le> sng_pos s \<Longrightarrow> sng_pos s < length (sng_data s) \<Longrightarrow> False" for s t :: "'a sng_player_scheme"
  proof (induction rule: sng_writes.raw_induct [rotated, consumes 1, case_names step])
    case (step run u v)
    let ?d = "sng_data u ! sng_pos u"
    let ?s = "sng_wrap ((opl_write (uint (snd ?d)) (uint (fst ?d)) u)\<lparr>sng_pos := sng_pos u + 1\<rparr>)"
    have "snd ?d \<noteq> 0" using step.prems by (simp add: sng_stop_def)
    then have "run ?s = Some v"
      using step.hyps step.prems by (simp add: access_simps opl_calls split: prod.splits)
    then show False
      by (rule step.IH) (use step.prems in \<open>auto simp: sng_wrap_def opl_calls sng_stop_def\<close>)
  qed
  then show "sng_writes s \<noteq> None \<Longrightarrow> False" using assms by blast
qed

text \<open>
  The songs that come to their end: the start exists, and the last entry is a stop or there is one behind the
  loop.
\<close>

definition sng_good :: "'a sng_player_scheme \<Rightarrow> bool" where
  "sng_good s \<longleftrightarrow> sng_pos s < length (sng_data s) \<and> (sng_stop s (length (sng_data s) - 1) \<or> (\<exists>i \<ge> sng_loop s. sng_stop s i))"

definition sng_left :: "'a sng_player_scheme \<Rightarrow> nat" where
  "sng_left s = 256 * (length (sng_data s) - sng_pos s) + unat (sng_del s)"

lemma sng_stop_same: "sng_same s t \<Longrightarrow> sng_stop t = sng_stop s"
  by (rule ext) (simp add: sng_stop_def sng_same_def)

lemma sng_update_waits:
  assumes "sng_compressed s" "sng_del s \<noteq> 0"
  shows "sng_update s = Some (\<not> sng_songend s, s\<lparr>sng_del := sng_del s - 1\<rparr>)" "sng_left (s\<lparr>sng_del := sng_del s - 1\<rparr>) < sng_left s"
  using assms by (simp_all add: sng_update_def sng_left_def unat_minus_one unat_gt_0)

text \<open>A tick after the loop has come to a stop.\<close>

lemma sng_update_stopped:
  assumes "\<not> (sng_compressed s \<and> sng_del s \<noteq> 0)" "sng_writes s = Some t" "sng_stop t (sng_pos t)" "sng_same s t"
    "sng_length s = length (sng_data s)"
  shows "\<exists>u. sng_update s = Some (\<not> sng_songend u, u) \<and> sng_data u = sng_data s \<and> sng_length u = sng_length s \<and>
    sng_loop u = sng_loop s \<and> sng_start u = sng_start s \<and> (\<exists>es. opl_out u = opl_out s @ es) \<and>
    (if sng_pos t + 1 < length (sng_data s) then sng_pos u = sng_pos t + 1 \<and> sng_songend u = sng_songend t
     else sng_songend u \<and> sng_pos u = sng_loop s)"
proof -
  obtain val reg where d: "sng_data t ! sng_pos t = (val, reg)" by (metis surj_pair)
  have "rd (sng_data t) (sng_pos t) = Some (val, reg)" using assms(3) d by (simp add: sng_stop_def access_simps)
  then have "sng_update s = (let u = sng_wrap ((if val \<noteq> 0 then (if \<not> sng_compressed t then opl_write (uint reg) (uint val) t else t)\<lparr>sng_del := val - 1\<rparr>
      else if \<not> sng_compressed t then opl_write (uint reg) (uint val) t else t)\<lparr>sng_pos := sng_pos t + 1\<rparr>) in Some (\<not> sng_songend u, u))"
    using assms(1,2) by (auto simp: sng_update_def Let_def opl_calls)
  then show ?thesis using assms(4,5) by (auto simp: Let_def sng_wrap_def sng_same_def opl_calls)
qed

lemma sng_tick:
  assumes len: "sng_length s = length (sng_data s)" and run: "\<not> sng_songend s"
  shows "if sng_good s then \<exists>u. sng_update s = Some (\<not> sng_songend u, u) \<and> sng_length u = length (sng_data u) \<and>
      (\<not> sng_songend u \<longrightarrow> sng_good u \<and> sng_left u < sng_left s)
    else sng_update s = None \<or> (\<exists>u. sng_update s = Some (True, u) \<and> \<not> sng_songend u \<and> sng_length u = length (sng_data u) \<and>
      \<not> sng_good u \<and> sng_left u < sng_left s)"
proof (cases "sng_compressed s \<and> sng_del s \<noteq> 0")
  case True
  then show ?thesis using sng_update_waits [of s] len run by (auto simp: sng_good_def sng_stop_def)
next
  case ticks: False
  let ?n = "length (sng_data s)"
  show ?thesis
  proof (cases "\<exists>i \<ge> sng_pos s. sng_stop s i")
    case True
    then obtain i where i: "sng_stop s i" "sng_pos s \<le> i" by blast
    obtain t where t: "sng_writes s = Some t" "sng_same s t" "sng_songend t = sng_songend s" "sng_stop t (sng_pos t)" "sng_pos s \<le> sng_pos t"
      using sng_writes_next [OF i len] by blast
    obtain u where u: "sng_update s = Some (\<not> sng_songend u, u)" "sng_data u = sng_data s" "sng_length u = sng_length s"
      "sng_loop u = sng_loop s" "if sng_pos t + 1 < ?n then sng_pos u = sng_pos t + 1 \<and> sng_songend u = sng_songend t
         else sng_songend u \<and> sng_pos u = sng_loop s"
      using sng_update_stopped [OF ticks t(1,4,2) len] by blast
    have stop: "sng_stop u = sng_stop s" using u(2) by (intro ext) (simp add: sng_stop_def)
    have n: "sng_pos t < ?n" "sng_pos s < ?n" using t(2,4) i by (auto simp: sng_stop_def sng_same_def)
    show ?thesis
    proof (cases "sng_pos t + 1 < ?n")
      case True
      have "unat (sng_del u) \<le> 255" "?n - Suc (sng_pos t) + 1 \<le> ?n - sng_pos s" using t(5) True by simp_all
      moreover have "sng_pos u = Suc (sng_pos t)" using u(5) True by simp
      ultimately have "sng_left u < sng_left s" unfolding sng_left_def u(2) by linarith
      moreover have "sng_good u = sng_good s" using u True n stop by (simp add: sng_good_def)
      moreover have "\<not> sng_songend u" using u(5) True t(3) run by simp
      ultimately show ?thesis using u(1-3) len by simp
    next
      case False
      then have "sng_pos t = ?n - 1" using n by simp
      then have "sng_stop s (?n - 1)" using t(4) sng_stop_same [OF t(2)] by simp
      then have "sng_good s" using n by (simp add: sng_good_def)
      then show ?thesis using u False len by auto
    qed
  next
    case False
    show ?thesis
    proof (cases "sng_pos s < ?n")
      case True
      obtain t where t: "sng_writes s = sng_writes t" "sng_same s t" "sng_songend t" "sng_pos t = sng_loop s"
        using sng_writes_end [of s] False True len by blast
      have "\<not> sng_stop s (?n - 1)" using False True by (metis Suc_diff_1 gr_zeroI less_Suc_eq_le not_less_zero)
      then have good: "sng_good s = (\<exists>i \<ge> sng_loop s. sng_stop s i)" using True by (simp add: sng_good_def)
      have same: "sng_data t = sng_data s" "sng_length t = sng_length s" "sng_loop t = sng_loop s" using t(2) by (simp_all add: sng_same_def)
      show ?thesis
      proof (cases "\<exists>i \<ge> sng_loop s. sng_stop s i")
        case g: True
        then obtain i where i: "sng_stop t i" "sng_pos t \<le> i" using sng_stop_same [OF t(2)] t(4) by auto
        have "sng_length t = length (sng_data t)" using same len by simp
        from sng_writes_next [OF i this] obtain v where v: "sng_writes t = Some v" "sng_same t v"
          "sng_songend v" "sng_stop v (sng_pos v)" using t(3) by blast
        have w: "sng_writes s = Some v" using v(1) t(1) by simp
        obtain u where "sng_update s = Some (\<not> sng_songend u, u)" "sng_data u = sng_data s" "sng_length u = sng_length s" "sng_songend u"
          using sng_update_stopped [OF ticks w v(4) sng_same_trans [OF t(2) v(2)] len] v(3) by (auto split: if_splits)
        then show ?thesis using g good len by auto
      next
        case False
        have "sng_writes t = None"
        proof (cases "sng_loop s < ?n")
          case True
          then show ?thesis using sng_writes_never [of t] False same t(4) len sng_stop_same [OF t(2)] by simp
        next
          case False
          then show ?thesis using same t(4) by (subst sng_writes.simps) (simp add: access_simps)
        qed
        then have "sng_update s = None" using ticks t(1) by (auto simp: sng_update_def)
        then show ?thesis using False good by simp
      qed
    next
      case False
      then have "sng_writes s = None" by (subst sng_writes.simps) (simp add: access_simps)
      then have "sng_update s = None" using ticks by (auto simp: sng_update_def)
      then show ?thesis using False by (simp add: sng_good_def)
    qed
  qed
qed

lemma sng_song_fate:
  "sng_length s = length (sng_data s) \<Longrightarrow> \<not> sng_songend s \<Longrightarrow>
   \<exists>n s1. play_on sng_update n s = Some s1 \<and> (if sng_good s then \<exists>s2. sng_update s1 = Some (False, s2) else sng_update s1 = None)"
proof (induction "sng_left s" arbitrary: s rule: less_induct)
  case less
  show ?case
  proof (cases "sng_update s = None \<or> (\<exists>u. sng_update s = Some (False, u))")
    case True
    then have "if sng_good s then \<exists>s2. sng_update s = Some (False, s2) else sng_update s = None"
      using sng_tick [OF less.prems] by (cases "sng_good s") auto
    then show ?thesis by (intro exI [of _ 0] exI [of _ s]) simp
  next
    case False
    then obtain u where u: "sng_update s = Some (True, u)" "\<not> sng_songend u" "sng_length u = length (sng_data u)"
      "sng_good u = sng_good s" "sng_left u < sng_left s"
      using sng_tick [OF less.prems] by (cases "sng_good s") auto
    obtain n s1 where "play_on sng_update n u = Some s1"
      "if sng_good s then \<exists>s2. sng_update s1 = Some (False, s2) else sng_update s1 = None"
      using less.hyps [OF u(5,3,2)] u(4) by auto
    then show ?thesis using u(1) by (intro exI [of _ "Suc n"] exI [of _ s1]) simp
  qed
qed

lemma length_sng_read_data: "sng_read_data io n f = (ds, g) \<Longrightarrow> length ds = n"
  by (induction n arbitrary: f ds) (auto split: prod.splits)

lemma sng_song_fates:
  assumes "sng_length s = length (sng_data s)" "\<not> sng_songend s"
  shows "comes_to_end sng_update s \<longleftrightarrow> sng_good s" "comes_to_fault sng_update s \<longleftrightarrow> \<not> sng_good s"
proof -
  obtain n s1 where n: "play_on sng_update n s = Some s1"
    "if sng_good s then \<exists>s2. sng_update s1 = Some (False, s2) else sng_update s1 = None"
    using sng_song_fate [OF assms] by blast
  have "(comes_to_end sng_update s \<longleftrightarrow> sng_good s) \<and> (comes_to_fault sng_update s \<longleftrightarrow> \<not> sng_good s)"
  proof (cases "sng_good s")
    case True
    then have "comes_to_end sng_update s" using n by (auto simp: comes_to_end_def)
    then show ?thesis using True end_excludes_fault [of sng_update s] by blast
  next
    case False
    then have "comes_to_fault sng_update s" using n by (auto simp: comes_to_fault_def)
    then show ?thesis using False end_excludes_fault [of sng_update s] by blast
  qed
  then show "comes_to_end sng_update s \<longleftrightarrow> sng_good s" "comes_to_fault sng_update s \<longleftrightarrow> \<not> sng_good s" by blast+
qed

text \<open>C18: \<open>CsngPlayer::load\<close> returns for every file. An accepted song stands at its start; it plays, each update
  reporting more to come, to one that reports the end, exactly if its start exists and its last entry, or one behind
  its loop, ends a tick; exactly the others come to an update that reads outside the song or writes for ever.\<close>

theorem sng_load_playable:
  "\<exists>b t. sng_load io opn filename s = Some (b, t) \<and>
    (b \<longrightarrow> sng_pos t = sng_start t \<and> (comes_to_end sng_update t \<longleftrightarrow> sng_good t) \<and> (comes_to_fault sng_update t \<longleftrightarrow> \<not> sng_good t))"
proof (cases "opn filename")
  case None
  then show ?thesis by (auto simp: sng_load_def)
next
  case (Some f)
  obtain k ident f1 where f1: "bio_readString io 4 (sng_id s) f = (k, ident, f1)" by (metis prod_cases3)
  obtain len f2 where f2: "read_u16 io f1 = (len, f2)" by (metis surj_pair)
  obtain start f3 where f3: "read_u16 io f2 = (start, f3)" by (metis surj_pair)
  obtain loop f4 where f4: "read_u16 io f3 = (loop, f4)" by (metis surj_pair)
  obtain delay f5 where f5: "read_u8 io f4 = (delay, f5)" by (metis surj_pair)
  obtain packed f6 where f6: "read_u8 io f5 = (packed, f6)" by (metis surj_pair)
  obtain ds f7 where f7: "sng_read_data io (unat len div 2) f6 = (ds, f7)" by (metis surj_pair)
  have ds: "length ds = unat len div 2" by (rule length_sng_read_data [OF f7])
  show ?thesis
  proof (cases "take 4 ident = bytes_of ''ObsM''")
    case True
    then show ?thesis using ds Some f1 f2 f3 f4 f5 f6 f7
      by (intro exI [of _ True]) (simp add: sng_load_def Let_def sng_rewind_def sng_song_fates opl_calls)
  next
    case False
    then show ?thesis using Some f1 f2 f3 f4 f5 f6
      by (intro exI [of _ False]) (simp add: sng_load_def Let_def)
  qed
qed

section \<open>Seeking\<close>

text \<open>Measured and sought, a song is played behind its end too, so its loop has to lead to a stop.\<close>

definition sng_ok :: "'a sng_player_scheme \<Rightarrow> bool" where
  "sng_ok s \<longleftrightarrow> sng_length s = length (sng_data s) \<and> sng_pos s < length (sng_data s) \<and> sng_start s < length (sng_data s) \<and>
     (\<exists>i \<ge> sng_loop s. sng_stop s i)"

lemma sng_update_ok:
  assumes "sng_ok s"
  shows "\<exists>u. sng_update s = Some (\<not> sng_songend u, u) \<and> sng_ok u \<and> (\<exists>es. opl_out u = opl_out s @ es) \<and>
    (sng_songend s \<longrightarrow> sng_songend u)"
proof (cases "sng_compressed s \<and> sng_del s \<noteq> 0")
  case True
  then show ?thesis using sng_update_waits [of s] assms by (auto simp: sng_ok_def sng_stop_def)
next
  case ticks: False
  have len: "sng_length s = length (sng_data s)" and loop: "sng_loop s < length (sng_data s)" using assms by (auto simp: sng_ok_def sng_stop_def)
  have "\<exists>t. sng_writes s = Some t \<and> sng_same s t \<and> sng_stop t (sng_pos t) \<and> (sng_songend s \<longrightarrow> sng_songend t)"
  proof (cases "\<exists>i \<ge> sng_pos s. sng_stop s i")
    case True
    then show ?thesis using sng_writes_next len by blast
  next
    case False
    then obtain t where t: "sng_writes s = sng_writes t" "sng_same s t" "sng_songend t" "sng_pos t = sng_loop s"
      using sng_writes_end [of s] assms len by (auto simp: sng_ok_def)
    then obtain i where i: "sng_stop t i" "sng_pos t \<le> i" using assms sng_stop_same [OF t(2)] by (auto simp: sng_ok_def)
    have "sng_length t = length (sng_data t)" using t(2) len by (simp add: sng_same_def)
    from sng_writes_next [OF i this] show ?thesis using t sng_same_trans by metis
  qed
  then obtain t where t: "sng_writes s = Some t" "sng_same s t" "sng_stop t (sng_pos t)" "sng_songend s \<longrightarrow> sng_songend t" by blast
  obtain u where u: "sng_update s = Some (\<not> sng_songend u, u)" "sng_data u = sng_data s" "sng_length u = sng_length s"
      "sng_loop u = sng_loop s" "sng_start u = sng_start s" "\<exists>es. opl_out u = opl_out s @ es"
      "if sng_pos t + 1 < length (sng_data s) then sng_pos u = sng_pos t + 1 \<and> sng_songend u = sng_songend t
         else sng_songend u \<and> sng_pos u = sng_loop s"
    using sng_update_stopped [OF ticks t(1,3,2) len] by blast
  then have "sng_ok u" using assms loop by (auto simp: sng_ok_def sng_stop_def split: if_splits)
  then show ?thesis using u(1,6,7) t(4) by (auto split: if_splits)
qed

interpretation sng_contract: ending_player sng_update sng_rewind "\<lambda>s. sng_ok s"
    "\<lambda>s. if sng_songend s then 0 else sng_left s"
proof unfold_locales
  fix s s' :: "'a sng_player_scheme" and n es go
  show "sng_ok s \<Longrightarrow> \<exists>go s'. sng_update s = Some (go, s') \<and> sng_ok s'" using sng_update_ok by blast
  show "sng_ok s \<Longrightarrow> \<exists>s'. sng_rewind n s = Some s' \<and> sng_ok s'"
    by (simp add: sng_rewind_def opl_calls sng_ok_def sng_stop_def)
  show "sng_ok (s\<lparr>opl_out := es\<rparr>) = sng_ok s" by (simp add: sng_ok_def sng_stop_def)
  show "sng_ok s \<Longrightarrow> sng_update s = Some (go, s') \<Longrightarrow> \<exists>es. opl_out s' = opl_out s @ es"
    using sng_update_ok [of s] by auto
  assume s: "sng_ok s" "sng_update s = Some (True, s')"
  have "sng_good s" "sng_length s = length (sng_data s)" using s(1) by (auto simp: sng_ok_def sng_good_def)
  moreover have "\<not> sng_songend s"
    using sng_update_ok [OF s(1)] s(2) by auto
  ultimately show "(if sng_songend s' then 0 else sng_left s') < (if sng_songend s then 0 else sng_left s)"
    using sng_tick [of s] s(2) by auto
qed

section \<open>Files\<close>

definition sng_file :: "nat \<Rightarrow> nat \<Rightarrow> u8 \<Rightarrow> bool \<Rightarrow> (u8 \<times> u8) list \<Rightarrow> bytes" where
  "sng_file start loop delay packed ds =
     bytes_of ''ObsM'' @ le16 (2 * length ds) @ le16 (2 * start) @ le16 (2 * loop) @ [delay, if packed then 1 else 0] @
     concat (map (\<lambda>(val, reg). [val, reg]) ds)"

lemma sng_read_data_rest:
  "ms_rest g = concat (map (\<lambda>(val, reg). [val, reg]) ds) \<Longrightarrow> \<exists>h. sng_read_data memio (length ds) g = (ds, h)"
proof (induction ds arbitrary: g)
  case (Cons d ds)
  obtain val reg where d: "d = (val, reg)" by (metis surj_pair)
  let ?r = "concat (map (\<lambda>(val, reg). [val, reg]) ds)"
  obtain h where h: "read_u8 memio g = (val, h)" "ms_rest h = reg # ?r" using read_u8_rest [of g val "reg # ?r"] Cons.prems d by auto
  obtain i where i: "read_u8 memio h = (reg, i)" "ms_rest i = ?r" using read_u8_rest [OF h(2)] by blast
  show ?case using Cons.IH [OF i(2)] h(1) i(1) d by auto
qed simp

lemma sng_load_file:
  assumes "length ds < 32768" "start < 32768" "loop < 32768" "length (sng_id s) = 4"
  shows "sng_load memio (\<lambda>_. Some (mem_file (sng_file start loop delay packed ds))) filename s =
    Some (True, s\<lparr>opl_out := opl_out s @ [OplInit, OplWrite 1 32], sng_id := bytes_of ''ObsM'', sng_length := length ds,
      sng_start := start, sng_loop := loop, sng_delay := delay, sng_compressed := packed, sng_data := ds, sng_del := delay,
      sng_pos := start, sng_songend := False\<rparr>)"
proof -
  let ?d = "concat (map (\<lambda>(val, reg). [val, reg]) ds)"
  let ?c = "if packed then 1 else 0 :: u8"
  have start: "ms_rest (mem_file (sng_file start loop delay packed ds)) =
      bytes_of ''ObsM'' @ le16 (2 * length ds) @ le16 (2 * start) @ le16 (2 * loop) @ delay # ?c # ?d"
    by (simp add: ms_rest_def mem_file_def sng_file_def)
  obtain g1 where g1: "bio_readString memio 4 (sng_id s) (mem_file (sng_file start loop delay packed ds)) = (4, bytes_of ''ObsM'', g1)"
    "ms_rest g1 = le16 (2 * length ds) @ le16 (2 * start) @ le16 (2 * loop) @ delay # ?c # ?d"
    using read_string_rest [OF start _ assms(4)] by (auto simp: bytes_of_def)
  obtain g2 where g2: "read_u16 memio g1 = (of_nat (2 * length ds), g2)" "ms_rest g2 = le16 (2 * start) @ le16 (2 * loop) @ delay # ?c # ?d"
    using read_le16_rest [OF g1(2)] assms(1) by auto
  obtain g3 where g3: "read_u16 memio g2 = (of_nat (2 * start), g3)" "ms_rest g3 = le16 (2 * loop) @ delay # ?c # ?d"
    using read_le16_rest [OF g2(2)] assms(2) by auto
  obtain g4 where g4: "read_u16 memio g3 = (of_nat (2 * loop), g4)" "ms_rest g4 = delay # ?c # ?d"
    using read_le16_rest [OF g3(2)] assms(3) by auto
  obtain g5 where g5: "read_u8 memio g4 = (delay, g5)" "ms_rest g5 = ?c # ?d" using read_u8_rest [OF g4(2)] by blast
  obtain g6 where g6: "read_u8 memio g5 = (?c, g6)" "ms_rest g6 = ?d" using read_u8_rest [OF g5(2)] by blast
  obtain g7 where g7: "sng_read_data memio (length ds) g6 = (ds, g7)" using sng_read_data_rest [OF g6(2)] by blast
  have n: "unat (of_nat (2 * k) :: u16) div 2 = k" if "k < 32768" for k :: nat
    using that by (simp add: unat_of_nat take_bit_eq_mod del: of_nat_mult)
  have four: "take 4 (bytes_of ''ObsM'') = bytes_of ''ObsM''" by (simp add: bytes_of_def)
  show ?thesis
    using g1(1) g2(1) g3(1) g4(1) g5(1) g6(1) g7 four n [OF assms(1)] n [OF assms(2)] n [OF assms(3)]
    by (simp add: sng_load_def Let_def sng_rewind_def opl_calls del: of_nat_mult)
qed

definition sng_new :: sng_player where
  "sng_new = \<lparr>opl_out = [], sng_id = [0, 0, 0, 0], sng_length = 0, sng_start = 0, sng_loop = 0, sng_delay = 0,
     sng_compressed = False, sng_data = [], sng_del = 0, sng_pos = 0, sng_songend = False\<rparr>"

text \<open>Two ticks, the second without a write; and a song no entry of which ends a tick.\<close>

lemma sng_load_playable_witness:
  "(\<exists>t. sng_load memio (\<lambda>_. Some (mem_file (sng_file 0 0 0 False [(5, 0x20), (0, 0), (0, 0)]))) ''a.sng'' sng_new =
      Some (True, t) \<and> comes_to_end sng_update t) \<and>
   (\<exists>t. sng_load memio (\<lambda>_. Some (mem_file (sng_file 0 0 0 False [(5, 0x20)]))) ''a.sng'' sng_new =
      Some (True, t) \<and> comes_to_fault sng_update t)"
proof -
  have id: "length (sng_id sng_new) = 4" by (simp add: sng_new_def)
  note load = sng_load_file [where start = 0 and loop = 0 and s = sng_new and delay = 0
      and packed = False and filename = "''a.sng''", simplified id, simplified]
  have A: "\<exists>t. sng_load memio (\<lambda>_. Some (mem_file (sng_file 0 0 0 False ds))) ''a.sng'' sng_new = Some (True, t) \<and>
      (comes_to_end sng_update t \<longleftrightarrow> ds \<noteq> [] \<and> (\<exists>i < length ds. snd (ds ! i) = 0)) \<and>
      (comes_to_fault sng_update t \<longleftrightarrow> \<not> (ds \<noteq> [] \<and> (\<exists>i < length ds. snd (ds ! i) = 0)))"
    if "length ds < 32768" for ds
  proof -
    obtain b t where b: "sng_load memio (\<lambda>_. Some (mem_file (sng_file 0 0 0 False ds))) ''a.sng'' sng_new = Some (b, t)"
      "b \<longrightarrow> sng_pos t = sng_start t \<and> (comes_to_end sng_update t \<longleftrightarrow> sng_good t) \<and> (comes_to_fault sng_update t \<longleftrightarrow> \<not> sng_good t)"
      using sng_load_playable by blast
    have t: "b" "sng_data t = ds" "sng_pos t = 0" "sng_loop t = 0" using load [OF that] b(1) by auto
    then have "sng_good t \<longleftrightarrow> ds \<noteq> [] \<and> (\<exists>i < length ds. snd (ds ! i) = 0)" by (auto simp: sng_good_def sng_stop_def)
    then show ?thesis using b t(1) by auto
  qed
  have "\<exists>i < length [(5 :: u8, 0x20 :: u8), (0, 0), (0, 0)]. snd ([(5 :: u8, 0x20 :: u8), (0, 0), (0, 0)] ! i) = 0"
    by (rule exI [of _ 1]) simp
  then show ?thesis using A [of "[(5, 0x20), (0, 0), (0, 0)]"] A [of "[(5, 0x20)]"] by auto
qed

end
