(* ===== verification/Mkj.thy ===== *)
theory Mkj
  imports Loader
begin

text \<open>
  \<open>src/mkj.cpp\<close>, \<open>src/mkj.h\<close>: the player of MKJamz files. All events are in one array of \<open>short\<close>, row after row
  of one event per channel; a channel walks down its column, and an event with a parameter takes the place of
  two rows.
\<close>

section \<open>The code\<close>

record mkj_channel =
  mkj_defined :: int
  mkj_songptr :: int
  mkj_octave :: int
  mkj_waveform :: int
  mkj_pstat :: int
  mkj_speed :: int
  mkj_delay :: int

record mkj_player = cplayer +
  mkj_maxchannel :: int
  mkj_maxnotes :: int
  mkj_songbuf :: "int list"
  mkj_songend :: bool
  mkj_chans :: "mkj_channel list"
  mkj_inst :: "int list list"

text \<open>Access to the channels, an array of 9.\<close>

definition mkj_chan :: "nat \<Rightarrow> 'a mkj_player_scheme \<Rightarrow> mkj_channel option" where
  "mkj_chan c s = rd (mkj_chans s) c"

definition mkj_set :: "nat \<Rightarrow> (mkj_channel \<Rightarrow> mkj_channel) \<Rightarrow> 'a mkj_player_scheme \<Rightarrow> 'a mkj_player_scheme option" where
  "mkj_set c g s = do {
     ch \<leftarrow> rd (mkj_chans s) c;
     chs \<leftarrow> wr (mkj_chans s) c (g ch);
     Some (s\<lparr>mkj_chans := chs\<rparr>)
   }"

definition mkj_set_inst :: "nat \<Rightarrow> 'a mkj_player_scheme \<Rightarrow> 'a mkj_player_scheme option" where
  "mkj_set_inst i s = do {
     s \<leftarrow> mkj_set i (\<lambda>ch. ch\<lparr>mkj_pstat := 0, mkj_speed := 0, mkj_waveform := 0, mkj_songptr := int i, mkj_octave := 4\<rparr>) s;
     op \<leftarrow> rd op_table i;
     let w = (\<lambda>base j t. do { v \<leftarrow> rd2 (mkj_inst t) i j; Some (opl_write (base + op) v t) });
     s \<leftarrow> w 0x20 4 s; s \<leftarrow> w 0x23 0 s; s \<leftarrow> w 0x40 5 s; s \<leftarrow> w 0x43 1 s;
     s \<leftarrow> w 0x60 6 s; s \<leftarrow> w 0x63 2 s; s \<leftarrow> w 0x80 7 s; w 0x83 3 s
   }"

definition mkj_rewind :: "int \<Rightarrow> 'a mkj_player_scheme \<Rightarrow> 'a mkj_player_scheme option" where
  "mkj_rewind subsong s = do {
     s \<leftarrow> ofold mkj_set_inst [0..<nat (mkj_maxchannel s)] (opl_write 1 32 (opl_init s));
     Some (s\<lparr>mkj_songend := False\<rparr>)
   }"

section \<open>Loading\<close>

definition read_s16 :: "('f, 'fl) binio \<Rightarrow> 'f \<Rightarrow> int \<times> 'f" where
  "read_s16 io f = (let (v, f) = bio_readInt io 2 f in (to_s16 v, f))"

fun read_s16s :: "('f, 'fl) binio \<Rightarrow> nat \<Rightarrow> 'f \<Rightarrow> int list \<times> 'f" where
  "read_s16s io 0 f = ([], f)"
| "read_s16s io (Suc n) f = (let (v, f) = read_s16 io f; (vs, f) = read_s16s io n f in (v # vs, f))"

definition mkj_read_inst :: "('f, 'fl) binio \<Rightarrow> nat \<Rightarrow> 'f \<times> 'a mkj_player_scheme \<Rightarrow> ('f \<times> 'a mkj_player_scheme) option" where
  "mkj_read_inst io i = (\<lambda>(f, s). do {
     let (vs, f) = read_s16s io 8 f;
     insts \<leftarrow> wr (mkj_inst s) i vs;
     Some (f, s\<lparr>mkj_inst := insts\<rparr>)
   })"

definition mkj_read_defined :: "('f, 'fl) binio \<Rightarrow> nat \<Rightarrow> 'f \<times> 'a mkj_player_scheme \<Rightarrow> ('f \<times> 'a mkj_player_scheme) option" where
  "mkj_read_defined io i = (\<lambda>(f, s). do {
     let (v, f) = read_s16 io f;
     s \<leftarrow> mkj_set i (\<lambda>ch. ch\<lparr>mkj_defined := v\<rparr>) s;
     Some (f, s)
   })"

definition mkj_bad_size :: "int \<Rightarrow> int \<Rightarrow> bool" where
  "mkj_bad_size maxchannel maxnotes \<longleftrightarrow>
     maxnotes < 1 \<or> maxnotes > 0x7fff div (maxchannel + 1) \<or> maxnotes - 1 + 3 * maxchannel > (maxchannel + 1) * maxnotes"

text \<open>\<open>newer\<close> is the comparison of the version, a \<open>float\<close>, with 1.12.\<close>

definition mkj_load ::
  "('f, 'fl) binio \<Rightarrow> 'f opener \<Rightarrow> (nat \<Rightarrow> u8) \<Rightarrow> ('fl \<Rightarrow> bool) \<Rightarrow> string \<Rightarrow> 'a mkj_player_scheme \<Rightarrow>
   (bool \<times> 'a mkj_player_scheme) option"
where
  "mkj_load io opn mem newer filename s =
     (case opn filename of None \<Rightarrow> Some (False, s) | Some f \<Rightarrow>
       (let (_, ident, f) = bio_readString io 6 (fresh mem 6) f
        in if ident \<noteq> bytes_of ''MKJamz'' then Some (False, s)
           else let (ver, f) = bio_readFloat io f
                in if newer ver then Some (False, s)
                   else let (n, f) = read_s16 io f; s = s\<lparr>mkj_maxchannel := n\<rparr>
                        in if mkj_maxchannel s > 9 \<or> mkj_maxchannel s < 0 then Some (False, s)
                           else do {
                             (f, s) \<leftarrow> ofold (mkj_read_inst io) [0..<nat (mkj_maxchannel s)] (f, s);
                             let (n, f) = read_s16 io f;
                             let s = s\<lparr>mkj_maxnotes := n\<rparr>;
                             if mkj_bad_size (mkj_maxchannel s) (mkj_maxnotes s) then Some (False, s)
                             else do {
                               (f, s) \<leftarrow> ofold (mkj_read_defined io) [0..<nat (mkj_maxchannel s)] (f, s);
                               let (buf, f) = read_s16s io (nat ((mkj_maxchannel s + 1) * mkj_maxnotes s)) f;
                               let s = s\<lparr>mkj_songbuf := buf\<rparr>;
                               if bio_error io f then Some (False, s)
                               else do { s \<leftarrow> mkj_rewind 0 s; Some (True, s) }
                             }
                           }))"

section \<open>Playing\<close>

text \<open>The values of the two frequency registers for a note.\<close>

definition mkj_notes :: "(int \<times> int \<times> int) list" where
  "mkj_notes =
     [(68, 0x81, 0x21), (69, 0xb0, 0x21), (70, 0xca, 0x21), (71, 0x2, 0x22), (65, 0x41, 0x22), (66, 0x87, 0x22),
      (67, 0xae, 0x22), (17, 0x6b, 0x21), (18, 0x98, 0x21), (20, 0xe5, 0x21), (21, 0x20, 0x22), (15, 0x63, 0x22)]"

definition mkj_event :: "nat \<Rightarrow> 'a mkj_player_scheme \<Rightarrow> int option" where
  "mkj_event c s = do { ch \<leftarrow> mkj_chan c s; rd_int (mkj_songbuf s) (mkj_songptr ch) }"

text \<open>The end of the song and the end of a bad one: the channels start again.\<close>

definition mkj_end :: "'a mkj_player_scheme \<Rightarrow> (bool \<times> 'a mkj_player_scheme) option" where
  "mkj_end s = do {
     s \<leftarrow> ofold (\<lambda>i. mkj_set i (\<lambda>ch. ch\<lparr>mkj_songptr := int i\<rparr>)) [0..<nat (mkj_maxchannel s)] s;
     Some (True, s\<lparr>mkj_songend := True\<rparr>)
   }"

text \<open>The step to the next event of the column.\<close>

definition mkj_skip :: "nat \<Rightarrow> 'a mkj_player_scheme \<Rightarrow> 'a mkj_player_scheme option" where
  "mkj_skip c s = mkj_set c (\<lambda>ch. ch\<lparr>mkj_songptr := to_s16 (mkj_songptr ch + mkj_maxchannel s)\<rparr>) s"

definition mkj_advance :: "nat \<Rightarrow> 'a mkj_player_scheme \<Rightarrow> (bool \<times> 'a mkj_player_scheme) option" where
  "mkj_advance c s = do {
     ch \<leftarrow> mkj_chan c s;
     s \<leftarrow> (if mkj_songptr ch - int c < mkj_maxnotes s then mkj_skip c s
          else mkj_set c (\<lambda>ch. ch\<lparr>mkj_songptr := int c\<rparr>) s);
     Some (False, s)
   }"

text \<open>A parameter: the next entry of the column, if it is valid.\<close>

definition mkj_param ::
  "nat \<Rightarrow> (int \<Rightarrow> bool) \<Rightarrow> (int \<Rightarrow> 'a mkj_player_scheme \<Rightarrow> 'a mkj_player_scheme option) \<Rightarrow> 'a mkj_player_scheme \<Rightarrow>
   (bool \<times> 'a mkj_player_scheme) option"
where
  "mkj_param c bad use s = do {
     s \<leftarrow> mkj_skip c s;
     v \<leftarrow> mkj_event c s;
     if bad v then mkj_end s else do { s \<leftarrow> use v s; mkj_advance c s }
   }"

text \<open>One round of the loop over the events of a channel; \<open>True\<close> is \<open>return false\<close>.\<close>

definition mkj_round :: "nat \<Rightarrow> 'a mkj_player_scheme \<Rightarrow> (bool \<times> 'a mkj_player_scheme) option" where
  "mkj_round c s = do {
     ch \<leftarrow> mkj_chan c s;
     _ \<leftarrow> require (mkj_songptr ch < (mkj_maxchannel s + 1) * mkj_maxnotes s);
     note \<leftarrow> mkj_event c s;
     s \<leftarrow> (if mkj_songptr ch - int c > mkj_maxchannel s \<and> note \<noteq> 0 \<and> note < 250
          then mkj_set c (\<lambda>ch. ch\<lparr>mkj_pstat := mkj_speed ch\<rparr>) s else Some s);
     case map_of mkj_notes note of Some (lo, hi) \<Rightarrow>
       mkj_advance c (opl_write (0xb0 + int c) (hi + 4 * mkj_octave ch) (opl_write (0xa0 + int c) lo s))
     | None \<Rightarrow>
       if note = 255 then mkj_param c (\<lambda>v. v < 0) (\<lambda>v. mkj_set c (\<lambda>ch. ch\<lparr>mkj_pstat := v\<rparr>)) s
       else if note = 254 then mkj_param c (\<lambda>v. v OR 7 \<noteq> 7) (\<lambda>v. mkj_set c (\<lambda>ch. ch\<lparr>mkj_octave := v\<rparr>)) s
       else if note = 253 then mkj_param c (\<lambda>v. v < 0) (\<lambda>v. mkj_set c (\<lambda>ch. ch\<lparr>mkj_speed := v\<rparr>)) s
       else if note = 252 then
         mkj_param c (\<lambda>v. (v - 300) OR 0xff \<noteq> 0xff)
           (\<lambda>v s. do {
              s \<leftarrow> mkj_set c (\<lambda>ch. ch\<lparr>mkj_waveform := v - 300\<rparr>) s;
              Some (opl_write (if c > 2 then 0xe0 + int c + (int c + 6) else 0xe0 + int c) (v - 300) s)
            }) s
       else if note = 251 then mkj_end s
       else mkj_advance c s
   }"

partial_function (option) mkj_events :: "nat \<Rightarrow> 'a mkj_player_scheme \<Rightarrow> (bool \<times> 'a mkj_player_scheme) option" where
  "mkj_events c s = do {
     (stop, s) \<leftarrow> mkj_round c s;
     if stop then Some (True, s)
     else do {
       ch \<leftarrow> mkj_chan c s;
       if mkj_pstat ch = 0 then mkj_events c s else Some (False, s)
     }
   }"

definition mkj_channel_tick :: "nat \<Rightarrow> 'a mkj_player_scheme \<Rightarrow> (bool \<times> 'a mkj_player_scheme) option" where
  "mkj_channel_tick c s = do {
     ch \<leftarrow> mkj_chan c s;
     if mkj_defined ch = 0 then Some (False, s)
     else if mkj_pstat ch \<noteq> 0 then do { s \<leftarrow> mkj_set c (\<lambda>ch. ch\<lparr>mkj_pstat := to_s16 (mkj_pstat ch - 1)\<rparr>) s; Some (False, s) }
     else mkj_events c (opl_write (0xb0 + int c) 0 s)
   }"

fun mkj_channels :: "nat list \<Rightarrow> 'a mkj_player_scheme \<Rightarrow> (bool \<times> 'a mkj_player_scheme) option" where
  "mkj_channels [] s = Some (\<not> mkj_songend s, s)"
| "mkj_channels (c # cs) s = do {
     (stop, s) \<leftarrow> mkj_channel_tick c s;
     if stop then Some (False, s) else mkj_channels cs s
   }"

definition mkj_update :: "'a mkj_player_scheme \<Rightarrow> (bool \<times> 'a mkj_player_scheme) option" where
  "mkj_update s = mkj_channels [0..<nat (mkj_maxchannel s)] s"

section \<open>Safety\<close>

definition mkj_shape :: "'a mkj_player_scheme \<Rightarrow> bool" where
  "mkj_shape s \<longleftrightarrow> 0 \<le> mkj_maxchannel s \<and> mkj_maxchannel s \<le> 9 \<and> \<not> mkj_bad_size (mkj_maxchannel s) (mkj_maxnotes s) \<and>
     length (mkj_songbuf s) = nat ((mkj_maxchannel s + 1) * mkj_maxnotes s) \<and> length (mkj_chans s) = 9 \<and> matrix 9 8 (mkj_inst s)"

text \<open>
  Where the channels stand: in or just behind their rows. Channel \<open>c\<close> may be up to \<open>e\<close> behind that, in the
  middle of an event.
\<close>

definition mkj_in :: "nat \<Rightarrow> int \<Rightarrow> 'a mkj_player_scheme \<Rightarrow> bool" where
  "mkj_in c e s \<longleftrightarrow> mkj_shape s \<and>
     (\<forall>d < nat (mkj_maxchannel s). int d \<le> mkj_songptr (mkj_chans s ! d) \<and>
        mkj_songptr (mkj_chans s ! d) < mkj_maxnotes s + int d + mkj_maxchannel s + (if d = c then e else 0))"

definition mkj_ok :: "'a mkj_player_scheme \<Rightarrow> bool" where
  "mkj_ok s \<longleftrightarrow> mkj_in 0 0 s"

lemma mkj_in_ok: "mkj_in c 0 s = mkj_ok s"
  by (simp add: mkj_ok_def mkj_in_def)

definition mkj_keep :: "'a mkj_player_scheme \<Rightarrow> 'a mkj_player_scheme \<Rightarrow> bool" where
  "mkj_keep s t \<longleftrightarrow> mkj_maxchannel t = mkj_maxchannel s \<and> mkj_maxnotes t = mkj_maxnotes s \<and> mkj_songbuf t = mkj_songbuf s \<and>
     mkj_inst t = mkj_inst s \<and> (\<exists>es. opl_out t = opl_out s @ es)"

lemma mkj_keep_refl [simp]: "mkj_keep s s"
  by (simp add: mkj_keep_def)

lemma mkj_keep_trans [trans]: "mkj_keep s t \<Longrightarrow> mkj_keep t u \<Longrightarrow> mkj_keep s u"
  by (auto simp: mkj_keep_def)

lemma mkj_keep_write: "mkj_keep s (opl_write r v s)" "mkj_keep s (opl_write r v (opl_write p w s))"
  by (simp_all add: mkj_keep_def opl_calls)

lemma mkj_in_write [simp]: "mkj_in c e (opl_write r v s) = mkj_in c e s"
  by (simp add: mkj_in_def mkj_shape_def opl_calls)

lemma mkj_bounds:
  assumes "mkj_shape s"
  shows "1 \<le> mkj_maxnotes s" "(mkj_maxchannel s + 1) * mkj_maxnotes s \<le> 32767"
    "mkj_maxnotes s - 1 + 3 * mkj_maxchannel s \<le> (mkj_maxchannel s + 1) * mkj_maxnotes s"
proof -
  let ?m = "mkj_maxchannel s + 1"
  have b: "0 < ?m" "1 \<le> mkj_maxnotes s" "mkj_maxnotes s \<le> 32767 div ?m"
    "mkj_maxnotes s - 1 + 3 * mkj_maxchannel s \<le> ?m * mkj_maxnotes s"
    using assms by (simp_all add: mkj_shape_def mkj_bad_size_def)
  have "?m * mkj_maxnotes s \<le> ?m * (32767 div ?m)" using b(1,3) by (simp add: mult_left_mono)
  also have "\<dots> \<le> 32767" using pos_mod_sign [OF b(1), of 32767] mult_div_mod_eq [of ?m 32767] by linarith
  finally show "?m * mkj_maxnotes s \<le> 32767" .
  show "1 \<le> mkj_maxnotes s" "mkj_maxnotes s - 1 + 3 * mkj_maxchannel s \<le> ?m * mkj_maxnotes s" by (rule b(2), rule b(4))
qed

lemma mkj_set_eq:
  "mkj_shape s \<Longrightarrow> c < 9 \<Longrightarrow> mkj_set c g s = Some (s\<lparr>mkj_chans := (mkj_chans s)[c := g (mkj_chans s ! c)]\<rparr>)"
  by (simp add: mkj_set_def mkj_shape_def access_simps)

text \<open>Changes of a channel that do not move it.\<close>

lemma mkj_set_ok:
  assumes "mkj_in k e s" "c < 9" "\<And>ch. mkj_songptr (g ch) = mkj_songptr ch"
  shows "\<exists>t. mkj_set c g s = Some t \<and> mkj_in k e t \<and> mkj_keep s t"
proof -
  have s: "mkj_shape s" using assms(1) by (simp add: mkj_in_def)
  then show ?thesis using mkj_set_eq [OF s assms(2)] assms
    by (auto simp: mkj_in_def mkj_shape_def mkj_keep_def nth_list_update)
qed

lemma mkj_channel_range: "mkj_in k e s \<Longrightarrow> c < nat (mkj_maxchannel s) \<Longrightarrow> c < 9 \<and> c < length (mkj_chans s)"
  by (auto simp: mkj_in_def mkj_shape_def)

lemma mkj_skip_ok:
  assumes s: "mkj_ok s" and c: "c < nat (mkj_maxchannel s)"
  shows "\<exists>t. mkj_skip c s = Some t \<and> mkj_in c (mkj_maxchannel s) t \<and> mkj_keep s t"
proof -
  have i: "mkj_in c 0 s" using s by (simp add: mkj_in_ok)
  then have shape: "mkj_shape s" by (simp add: mkj_in_def)
  note b = mkj_bounds [OF shape]
  let ?p = "mkj_songptr (mkj_chans s ! c)"
  have p: "int c \<le> ?p" "?p < mkj_maxnotes s + int c + mkj_maxchannel s" using i c by (auto simp: mkj_in_def)
  then have "to_s16 (?p + mkj_maxchannel s) = ?p + mkj_maxchannel s" using b c by (intro to_s16_small) linarith+
  then show ?thesis
    using mkj_set_eq [OF shape] mkj_channel_range [OF i c] i p c
    by (auto simp: mkj_skip_def mkj_in_def mkj_shape_def mkj_keep_def nth_list_update)
qed

lemma mkj_advance_ok:
  assumes s: "mkj_in c e s" "0 \<le> e" "e \<le> mkj_maxchannel s" and c: "c < nat (mkj_maxchannel s)"
  shows "\<exists>t. mkj_advance c s = Some (False, t) \<and> mkj_ok t \<and> mkj_keep s t"
proof -
  have shape: "mkj_shape s" using s by (simp add: mkj_in_def)
  note b = mkj_bounds [OF shape]
  let ?p = "mkj_songptr (mkj_chans s ! c)"
  have p: "int c \<le> ?p" "?p < mkj_maxnotes s + int c + mkj_maxchannel s + e" using s c by (auto simp: mkj_in_def)
  have r: "c < 9" "c < length (mkj_chans s)" using mkj_channel_range [OF s(1) c] by simp_all
  show ?thesis
  proof (cases "?p - int c < mkj_maxnotes s")
    case True
    then have "to_s16 (?p + mkj_maxchannel s) = ?p + mkj_maxchannel s" using b c p by (intro to_s16_small) linarith+
    then show ?thesis using True mkj_set_eq [OF shape r(1)] r s p c
      by (auto simp: mkj_advance_def mkj_chan_def mkj_skip_def mkj_in_def mkj_ok_def mkj_shape_def mkj_keep_def nth_list_update access_simps)
  next
    case False
    then show ?thesis using mkj_set_eq [OF shape r(1)] r s c b(1)
      by (auto simp: mkj_advance_def mkj_chan_def mkj_in_def mkj_ok_def mkj_shape_def mkj_keep_def nth_list_update access_simps)
  qed
qed

lemma mkj_end_ok:
  assumes "mkj_shape s"
  shows "\<exists>t. mkj_end s = Some (True, t) \<and> mkj_ok t \<and> mkj_keep s t"
proof -
  let ?n = "nat (mkj_maxchannel s)"
  let ?f = "\<lambda>i. mkj_set i (\<lambda>ch. ch\<lparr>mkj_songptr := int i\<rparr>)"
  have "?n \<le> 9" using assms by (simp add: mkj_shape_def nat_le_iff)
  then have "\<exists>t. ofold ?f [0..<?n] s = Some t \<and>
      (mkj_shape t \<and> mkj_keep s t \<and> (\<forall>d < ?n. mkj_songptr (mkj_chans t ! d) = int d))"
    using assms
  proof (intro ofold_upt_invariant [where P = "\<lambda>i t. mkj_shape t \<and> mkj_keep s t \<and> (\<forall>d < i. mkj_songptr (mkj_chans t ! d) = int d)"])
    fix i t
    assume "i < ?n" and t: "mkj_shape t \<and> mkj_keep s t \<and> (\<forall>d < i. mkj_songptr (mkj_chans t ! d) = int d)" and "?n \<le> 9"
    then have "i < 9" by simp
    then show "\<exists>t'. ?f i t = Some t' \<and> mkj_shape t' \<and> mkj_keep s t' \<and> (\<forall>d < Suc i. mkj_songptr (mkj_chans t' ! d) = int d)"
      using mkj_set_eq [of t i] t by (auto simp: mkj_shape_def mkj_keep_def nth_list_update less_Suc_eq)
  qed simp
  then obtain t where t: "ofold ?f [0..<?n] s = Some t" "mkj_shape t" "mkj_keep s t" "\<forall>d < ?n. mkj_songptr (mkj_chans t ! d) = int d"
    by blast
  then show ?thesis using mkj_bounds [OF t(2)]
    by (auto simp: mkj_end_def mkj_ok_def mkj_in_def mkj_keep_def mkj_shape_def)
qed

lemma mkj_event_ok:
  assumes "mkj_in c e s" "0 \<le> e" "e \<le> mkj_maxchannel s" "c < nat (mkj_maxchannel s)"
  shows "\<exists>v. mkj_event c s = Some v" "mkj_songptr (mkj_chans s ! c) < (mkj_maxchannel s + 1) * mkj_maxnotes s"
proof -
  have shape: "mkj_shape s" using assms by (simp add: mkj_in_def)
  let ?p = "mkj_songptr (mkj_chans s ! c)"
  have p: "int c \<le> ?p" "?p < mkj_maxnotes s + int c + mkj_maxchannel s + e" using assms by (auto simp: mkj_in_def)
  then show less: "?p < (mkj_maxchannel s + 1) * mkj_maxnotes s" using mkj_bounds [OF shape] assms(2-4) by linarith
  have "c < length (mkj_chans s)" using mkj_channel_range [OF assms(1,4)] by simp
  then show "\<exists>v. mkj_event c s = Some v"
    using less p(1) shape by (simp add: mkj_event_def mkj_chan_def access_simps mkj_shape_def nat_less_iff)
qed

text \<open>A round never leaves the song, the channels or the tables.\<close>

definition mkj_done :: "'a mkj_player_scheme \<Rightarrow> (bool \<times> 'a mkj_player_scheme) option \<Rightarrow> bool" where
  "mkj_done s r \<longleftrightarrow> (\<exists>stop t. r = Some (stop, t) \<and> mkj_ok t \<and> mkj_keep s t)"

lemma mkj_done_keep: "mkj_done t r \<Longrightarrow> mkj_keep s t \<Longrightarrow> mkj_done s r"
  unfolding mkj_done_def using mkj_keep_trans by blast

lemma mkj_advance_done:
  "mkj_in c e s \<Longrightarrow> 0 \<le> e \<Longrightarrow> e \<le> mkj_maxchannel s \<Longrightarrow> c < nat (mkj_maxchannel s) \<Longrightarrow> mkj_done s (mkj_advance c s)"
  using mkj_advance_ok [of c e s] by (auto simp: mkj_done_def)

lemma mkj_end_done: "mkj_shape s \<Longrightarrow> mkj_done s (mkj_end s)"
  using mkj_end_ok [of s] by (auto simp: mkj_done_def)

lemma mkj_param_done:
  assumes s: "mkj_ok s" and c: "c < nat (mkj_maxchannel s)"
    and use: "\<And>v t. mkj_in c (mkj_maxchannel s) t \<Longrightarrow> \<exists>u. use v t = Some u \<and> mkj_in c (mkj_maxchannel s) u \<and> mkj_keep t u"
  shows "mkj_done s (mkj_param c bad use s)"
proof -
  obtain t where t: "mkj_skip c s = Some t" "mkj_in c (mkj_maxchannel s) t" "mkj_keep s t" using mkj_skip_ok [OF s c] by blast
  have m: "mkj_maxchannel t = mkj_maxchannel s" "0 \<le> mkj_maxchannel s" using t(2,3) by (auto simp: mkj_keep_def mkj_in_def mkj_shape_def)
  obtain v where v: "mkj_event c t = Some v" using mkj_event_ok(1) [OF t(2)] m c by auto
  obtain u where u: "use v t = Some u" "mkj_in c (mkj_maxchannel s) u" "mkj_keep t u" using use [OF t(2)] by blast
  have "mkj_maxchannel u = mkj_maxchannel s" using u(3) m by (simp add: mkj_keep_def)
  then have "mkj_done s (mkj_advance c u)"
    using mkj_advance_done [OF u(2)] m(2) c mkj_done_keep [OF _ mkj_keep_trans [OF t(3) u(3)]] by simp
  moreover have "mkj_done s (mkj_end t)" using mkj_end_done [of t] t(2) mkj_done_keep [OF _ t(3)] by (simp add: mkj_in_def)
  ultimately show ?thesis using t(1) v u(1) by (simp add: mkj_param_def)
qed

lemma mkj_round_done:
  assumes s: "mkj_ok s" and c: "c < nat (mkj_maxchannel s)"
  shows "mkj_done s (mkj_round c s)"
proof -
  have i: "mkj_in c 0 s" using s by (simp add: mkj_in_ok)
  have m: "0 \<le> mkj_maxchannel s" using i by (simp add: mkj_in_def mkj_shape_def)
  have r: "c < 9" "c < length (mkj_chans s)" using mkj_channel_range [OF i c] by simp_all
  obtain ev where n: "mkj_event c s = Some ev" using mkj_event_ok(1) [OF i] m c by auto
  note less = mkj_event_ok(2) [OF i _ _ c, simplified, OF m]
  let ?on = "mkj_songptr (mkj_chans s ! c) - int c > mkj_maxchannel s \<and> ev \<noteq> 0 \<and> ev < 250"
  have "\<exists>t. (if ?on then mkj_set c (\<lambda>ch. ch\<lparr>mkj_pstat := mkj_speed ch\<rparr>) s else Some s) = Some t \<and> mkj_in c 0 t \<and> mkj_keep s t"
    using mkj_set_ok [OF i r(1), of "\<lambda>ch. ch\<lparr>mkj_pstat := mkj_speed ch\<rparr>"] i by auto
  then obtain t where t: "(if ?on then mkj_set c (\<lambda>ch. ch\<lparr>mkj_pstat := mkj_speed ch\<rparr>) s else Some s) = Some t" "mkj_in c 0 t" "mkj_keep s t"
    by blast
  have mt: "mkj_maxchannel t = mkj_maxchannel s" using t(3) by (simp add: mkj_keep_def)
  have ok: "mkj_ok t" "c < nat (mkj_maxchannel t)" using t(2) c mt by (simp_all add: mkj_in_ok)
  have adv: "mkj_done t (mkj_advance c u)" if "mkj_in c 0 u" "mkj_keep t u" for u
    using mkj_advance_done [OF that(1)] that(2) mt m c mkj_done_keep [OF _ that(2)] by (simp add: mkj_keep_def)
  have set: "\<exists>u. mkj_set c g v = Some u \<and> mkj_in c e u \<and> mkj_keep v u" if "mkj_in c e v" "\<And>ch. mkj_songptr (g ch) = mkj_songptr ch" for g v e
    using mkj_set_ok [OF that(1) r(1) that(2)] .
  have param: "mkj_done t (mkj_param c bad use t)"
    if "\<And>w v. mkj_in c (mkj_maxchannel s) v \<Longrightarrow> \<exists>u. use w v = Some u \<and> mkj_in c (mkj_maxchannel s) u \<and> mkj_keep v u" for bad use
    using mkj_param_done [OF ok] that mt by simp
  have wave: "\<exists>u. do { s \<leftarrow> mkj_set c (\<lambda>ch. ch\<lparr>mkj_waveform := v - 300\<rparr>) w; Some (opl_write (f c) (v - 300) s) } = Some u \<and>
      mkj_in c (mkj_maxchannel s) u \<and> mkj_keep w u" if w: "mkj_in c (mkj_maxchannel s) w" for v w f
  proof -
    obtain u where "mkj_set c (\<lambda>ch. ch\<lparr>mkj_waveform := v - 300\<rparr>) w = Some u" "mkj_in c (mkj_maxchannel s) u" "mkj_keep w u"
      using set [OF w, of "\<lambda>ch. ch\<lparr>mkj_waveform := v - 300\<rparr>"] by auto
    then show ?thesis using mkj_keep_trans [OF _ mkj_keep_write(1)] by auto
  qed
  have d1: "mkj_done t (mkj_param c (\<lambda>v. v < 0) (\<lambda>v. mkj_set c (\<lambda>ch. ch\<lparr>mkj_pstat := v\<rparr>)) t)"
    by (rule param, rule set) simp_all
  have d2: "mkj_done t (mkj_param c (\<lambda>v. v OR 7 \<noteq> 7) (\<lambda>v. mkj_set c (\<lambda>ch. ch\<lparr>mkj_octave := v\<rparr>)) t)"
    by (rule param, rule set) simp_all
  have d3: "mkj_done t (mkj_param c (\<lambda>v. v < 0) (\<lambda>v. mkj_set c (\<lambda>ch. ch\<lparr>mkj_speed := v\<rparr>)) t)"
    by (rule param, rule set) simp_all
  have d4: "mkj_done t (mkj_param c (\<lambda>v. (v - 300) OR 0xff \<noteq> 0xff)
           (\<lambda>v s. do {
              s \<leftarrow> mkj_set c (\<lambda>ch. ch\<lparr>mkj_waveform := v - 300\<rparr>) s;
              Some (opl_write (if c > 2 then 0xe0 + int c + (int c + 6) else 0xe0 + int c) (v - 300) s)
            }) t)"
    by (rule param, rule wave)
  have d5: "mkj_done t (mkj_end t)" using t(2) by (simp add: mkj_end_done mkj_in_def)
  have d6: "mkj_done t (mkj_advance c t)" by (rule adv) (simp_all add: t(2))
  have adv2: "mkj_done t (mkj_advance c (opl_write r v (opl_write p w t)))" for r v p w
    by (rule adv) (simp_all add: t(2) mkj_keep_write)
  have "mkj_done t (case map_of mkj_notes ev of Some (lo, hi) \<Rightarrow>
       mkj_advance c (opl_write (0xb0 + int c) (hi + 4 * mkj_octave (mkj_chans s ! c)) (opl_write (0xa0 + int c) lo t))
     | None \<Rightarrow>
       if ev = 255 then mkj_param c (\<lambda>v. v < 0) (\<lambda>v. mkj_set c (\<lambda>ch. ch\<lparr>mkj_pstat := v\<rparr>)) t
       else if ev = 254 then mkj_param c (\<lambda>v. v OR 7 \<noteq> 7) (\<lambda>v. mkj_set c (\<lambda>ch. ch\<lparr>mkj_octave := v\<rparr>)) t
       else if ev = 253 then mkj_param c (\<lambda>v. v < 0) (\<lambda>v. mkj_set c (\<lambda>ch. ch\<lparr>mkj_speed := v\<rparr>)) t
       else if ev = 252 then
         mkj_param c (\<lambda>v. (v - 300) OR 0xff \<noteq> 0xff)
           (\<lambda>v s. do {
              s \<leftarrow> mkj_set c (\<lambda>ch. ch\<lparr>mkj_waveform := v - 300\<rparr>) s;
              Some (opl_write (if c > 2 then 0xe0 + int c + (int c + 6) else 0xe0 + int c) (v - 300) s)
            }) t
       else if ev = 251 then mkj_end t
       else mkj_advance c t)"
    by (simp only: d1 d2 d3 d4 d5 d6 adv2 split: option.split prod.split if_split) simp
  from mkj_done_keep [OF this t(3)] show ?thesis
    using t(1) n less r(2) by (simp add: mkj_round_def mkj_chan_def access_simps)
qed

section \<open>Loops without end\<close>

text \<open>
  Rounds go on until one sets a delay. \<open>n\<close> rounds of channel \<open>c\<close> none of which does; a song for which this holds
  for every \<open>n\<close> keeps \<open>update\<close> in its loop.
\<close>

fun mkj_busy :: "nat \<Rightarrow> nat \<Rightarrow> 'a mkj_player_scheme \<Rightarrow> bool" where
  "mkj_busy 0 c s = True"
| "mkj_busy (Suc n) c s =
     (case mkj_round c s of Some (False, t) \<Rightarrow> map_option mkj_pstat (mkj_chan c t) = Some 0 \<and> mkj_busy n c t | _ \<Rightarrow> False)"

definition mkj_endless :: "nat \<Rightarrow> 'a mkj_player_scheme \<Rightarrow> bool" where
  "mkj_endless c s \<longleftrightarrow> (\<forall>n. mkj_busy n c s)"

lemma mkj_chan_Some: "mkj_ok s \<Longrightarrow> c < nat (mkj_maxchannel s) \<Longrightarrow> mkj_chan c s = Some (mkj_chans s ! c)"
  using mkj_channel_range [of 0 0 s c] by (simp add: mkj_ok_def mkj_chan_def access_simps)

lemma mkj_events_ok:
  "mkj_ok s \<Longrightarrow> c < nat (mkj_maxchannel s) \<Longrightarrow> \<not> mkj_busy n c s \<Longrightarrow> mkj_done s (mkj_events c s)"
proof (induction n arbitrary: s)
  case (Suc n)
  obtain stop t where t: "mkj_round c s = Some (stop, t)" "mkj_ok t" "mkj_keep s t"
    using mkj_round_done [OF Suc.prems(1,2)] by (auto simp: mkj_done_def)
  have c: "c < nat (mkj_maxchannel t)" using t(3) Suc.prems(2) by (simp add: mkj_keep_def)
  show ?case
  proof (cases "\<not> stop \<and> mkj_pstat (mkj_chans t ! c) = 0")
    case True
    then have "\<not> mkj_busy n c t" using Suc.prems(3) t(1) mkj_chan_Some [OF t(2) c] by simp
    then have "mkj_done t (mkj_events c t)" using Suc.IH t(2) c by blast
    then show ?thesis
      using mkj_done_keep t(1,3) True mkj_chan_Some [OF t(2) c] by (simp add: mkj_events.simps [of c s])
  next
    case False
    then show ?thesis using t mkj_chan_Some [OF t(2) c] by (auto simp: mkj_done_def mkj_events.simps [of c s])
  qed
qed simp

lemma mkj_endless_never:
  assumes "mkj_endless c s"
  shows "mkj_events c s = None"
proof (rule ccontr)
  have "mkj_events c s = Some r \<Longrightarrow> mkj_endless c s \<Longrightarrow> False" for s :: "'a mkj_player_scheme" and r
  proof (induction rule: mkj_events.raw_induct [rotated, consumes 1, case_names step])
    case (step run d u v)
    obtain t where t: "mkj_round d u = Some (False, t)" "map_option mkj_pstat (mkj_chan d t) = Some 0"
      using step.prems [unfolded mkj_endless_def, rule_format, of 1] by (auto split: option.splits prod.splits bool.splits)
    have "mkj_busy n d t" for n
      using step.prems [unfolded mkj_endless_def, rule_format, of "Suc n"] t(1) by simp
    then have "mkj_endless d t" by (simp add: mkj_endless_def)
    moreover have "run d t = Some v" using step.hyps t by auto
    ultimately show False using step.IH by blast
  qed
  then show "mkj_events c s \<noteq> None \<Longrightarrow> False" using assms by blast
qed

lemma mkj_channel_tick_ok:
  assumes s: "mkj_ok s" and c: "c < nat (mkj_maxchannel s)"
  shows "mkj_done s (mkj_channel_tick c s) \<or> mkj_channel_tick c s = None \<and> mkj_endless c (opl_write (0xb0 + int c) 0 s)"
proof -
  let ?ch = "mkj_chans s ! c"
  let ?w = "opl_write (0xb0 + int c) 0 s"
  have "mkj_maxchannel ?w = mkj_maxchannel s" by (simp add: opl_calls)
  then have w: "mkj_ok ?w" "c < nat (mkj_maxchannel ?w)" using s c by (simp_all add: mkj_ok_def)
  have tick: "mkj_channel_tick c s = (if mkj_defined ?ch = 0 then Some (False, s)
      else if mkj_pstat ?ch \<noteq> 0 then do { s \<leftarrow> mkj_set c (\<lambda>ch. ch\<lparr>mkj_pstat := to_s16 (mkj_pstat ch - 1)\<rparr>) s; Some (False, s) }
      else mkj_events c ?w)"
    by (simp add: mkj_channel_tick_def mkj_chan_Some [OF s c])
  consider "mkj_defined ?ch = 0" | "mkj_defined ?ch \<noteq> 0" "mkj_pstat ?ch \<noteq> 0" | "mkj_defined ?ch \<noteq> 0" "mkj_pstat ?ch = 0" by blast
  then show ?thesis
  proof cases
    case 1
    then show ?thesis using s by (auto simp: tick mkj_done_def)
  next
    case 2
    have "c < 9" using mkj_channel_range [of 0 0 s c] s c by (simp add: mkj_ok_def)
    then have "mkj_done s (do { s \<leftarrow> mkj_set c (\<lambda>ch. ch\<lparr>mkj_pstat := to_s16 (mkj_pstat ch - 1)\<rparr>) s; Some (False, s) })"
      using mkj_set_ok [OF s [unfolded mkj_ok_def], of c "\<lambda>ch. ch\<lparr>mkj_pstat := to_s16 (mkj_pstat ch - 1)\<rparr>"]
      by (auto simp: mkj_done_def mkj_ok_def)
    then show ?thesis using 2 by (simp add: tick)
  next
    case 3
    show ?thesis
    proof (cases "mkj_endless c ?w")
      case True
      then show ?thesis using 3 mkj_endless_never [of c ?w] by (simp add: tick)
    next
      case False
      then obtain n where "\<not> mkj_busy n c ?w" by (auto simp: mkj_endless_def)
      from mkj_events_ok [OF w this] have "mkj_done s (mkj_events c ?w)" using mkj_done_keep mkj_keep_write(1) by blast
      then show ?thesis using 3 by (simp add: tick)
    qed
  qed
qed

text \<open>
  An update that does not return: the channels before take their ticks, and then one comes to its loop whose rounds,
  from the state they left, go on for ever.
\<close>

fun mkj_stuck_in :: "nat list \<Rightarrow> 'a mkj_player_scheme \<Rightarrow> bool" where
  "mkj_stuck_in [] s = False"
| "mkj_stuck_in (c # cs) s =
     (case mkj_channel_tick c s of
        None \<Rightarrow> map_option mkj_pstat (mkj_chan c s) = Some 0 \<and> mkj_endless c (opl_write (0xb0 + int c) 0 s)
      | Some (stop, t) \<Rightarrow> \<not> stop \<and> mkj_stuck_in cs t)"

definition mkj_stuck :: "'a mkj_player_scheme \<Rightarrow> bool" where
  "mkj_stuck s \<longleftrightarrow> mkj_stuck_in [0..<nat (mkj_maxchannel s)] s"

lemma mkj_channels_ok:
  "mkj_ok s \<Longrightarrow> set cs \<subseteq> {..<nat (mkj_maxchannel s)} \<Longrightarrow>
   if mkj_stuck_in cs s then mkj_channels cs s = None else mkj_done s (mkj_channels cs s)"
proof (induction cs arbitrary: s)
  case Nil
  then show ?case by (simp add: mkj_done_def)
next
  case (Cons c cs)
  have c: "c < nat (mkj_maxchannel s)" using Cons.prems(2) by simp
  show ?case
  proof (cases "mkj_channel_tick c s = None")
    case True
    then have e: "mkj_endless c (opl_write (0xb0 + int c) 0 s)"
      using mkj_channel_tick_ok [OF Cons.prems(1) c] by (auto simp: mkj_done_def)
    have "c < 9" using mkj_channel_range [of 0 0 s c] Cons.prems(1) c by (simp add: mkj_ok_def)
    moreover have "mkj_shape s" using Cons.prems(1) by (simp add: mkj_ok_def mkj_in_def)
    ultimately have "mkj_pstat (mkj_chans s ! c) = 0"
      using True mkj_set_eq [of s c] mkj_chan_Some [OF Cons.prems(1) c] by (auto simp: mkj_channel_tick_def split: if_splits)
    then show ?thesis using True e mkj_chan_Some [OF Cons.prems(1) c] by simp
  next
    case False
    then obtain stop t where t: "mkj_channel_tick c s = Some (stop, t)" "mkj_ok t" "mkj_keep s t"
      using mkj_channel_tick_ok [OF Cons.prems(1) c] by (auto simp: mkj_done_def)
    have "set cs \<subseteq> {..<nat (mkj_maxchannel t)}" using Cons.prems(2) t(3) by (simp add: mkj_keep_def)
    from Cons.IH [OF t(2) this] show ?thesis
      using t mkj_done_keep [OF _ t(3), of "mkj_channels cs t"] by (cases stop) (auto simp: mkj_done_def)
  qed
qed

text \<open>An update fails to return exactly where a channel is stuck in its loop; there is no fault.\<close>

lemma mkj_update_cases:
  "mkj_ok s \<Longrightarrow> if mkj_stuck s then mkj_update s = None else mkj_done s (mkj_update s)"
  unfolding mkj_update_def mkj_stuck_def by (rule mkj_channels_ok) auto

lemma mkj_update_ok: "mkj_ok s \<Longrightarrow> mkj_done s (mkj_update s) \<or> mkj_update s = None \<and> mkj_stuck s"
  using mkj_update_cases [of s] by (auto split: if_splits)

lemma mkj_play_ok:
  "mkj_ok s \<Longrightarrow> (\<exists>t. play mkj_update n s = Some t \<and> mkj_ok t \<and> mkj_keep s t) \<or>
    (\<exists>k t. k < n \<and> play mkj_update k s = Some t \<and> mkj_ok t \<and> mkj_update t = None \<and> mkj_stuck t)"
proof (induction n arbitrary: s)
  case (Suc n)
  show ?case
  proof (cases "mkj_update s = None")
    case True
    then have "mkj_stuck s" using mkj_update_ok [OF Suc.prems] by (auto simp: mkj_done_def)
    then have "play mkj_update 0 s = Some s \<and> mkj_ok s \<and> mkj_update s = None \<and> mkj_stuck s" using True Suc.prems by simp
    then show ?thesis by blast
  next
    case False
    then obtain go u where u: "mkj_update s = Some (go, u)" "mkj_ok u" "mkj_keep s u"
      using mkj_update_ok [OF Suc.prems] by (auto simp: mkj_done_def)
    from Suc.IH [OF u(2)] show ?thesis
    proof
      assume "\<exists>t. play mkj_update n u = Some t \<and> mkj_ok t \<and> mkj_keep u t"
      then show ?thesis using u(1) mkj_keep_trans [OF u(3)] by auto
    next
      assume "\<exists>k t. k < n \<and> play mkj_update k u = Some t \<and> mkj_ok t \<and> mkj_update t = None \<and> mkj_stuck t"
      then obtain k t where "k < n" "play mkj_update k u = Some t" "mkj_ok t" "mkj_update t = None" "mkj_stuck t" by blast
      then have "Suc k < Suc n \<and> play mkj_update (Suc k) s = Some t \<and> mkj_ok t \<and> mkj_update t = None \<and> mkj_stuck t"
        using u(1) by simp
      then show ?thesis by blast
    qed
  qed
qed auto

section \<open>Loading and rewinding\<close>

lemma mkj_rewind_ok:
  assumes "mkj_shape s"
  shows "\<exists>t. mkj_rewind n s = Some t \<and> mkj_ok t"
proof -
  let ?s = "opl_write 1 32 (opl_init s)"
  let ?n = "nat (mkj_maxchannel s)"
  let ?P = "\<lambda>i t. mkj_shape t \<and> mkj_maxchannel t = mkj_maxchannel s \<and> (\<forall>d < i. mkj_songptr (mkj_chans t ! d) = int d)"
  have n: "?n \<le> 9" using assms by (simp add: mkj_shape_def nat_le_iff)
  have "\<exists>t. ofold mkj_set_inst [0..<?n] ?s = Some t \<and> ?P ?n t"
  proof (rule ofold_upt_invariant)
    show "?P 0 ?s" using assms by (simp add: mkj_shape_def opl_calls)
    fix i t
    assume "i < ?n" and t: "?P i t"
    then have i: "i < 9" using n by simp
    let ?u = "t\<lparr>mkj_chans := (mkj_chans t)[i := (mkj_chans t ! i)\<lparr>mkj_pstat := 0, mkj_speed := 0, mkj_waveform := 0,
        mkj_songptr := int i, mkj_octave := 4\<rparr>]\<rparr>"
    have u: "?P (Suc i) ?u" using t i by (auto simp: mkj_shape_def nth_list_update less_Suc_eq)
    have m: "matrix 9 8 (mkj_inst t)" using t by (simp add: mkj_shape_def)
    have "\<exists>es. mkj_set_inst i t = Some (?u\<lparr>opl_out := es\<rparr>)"
      using mkj_set_eq [of t i] t i m by (auto simp: mkj_set_inst_def opl_calls access_simps)
    then show "\<exists>t'. mkj_set_inst i t = Some t' \<and> ?P (Suc i) t'" using u by (auto simp: mkj_shape_def)
  qed
  then obtain t where t: "ofold mkj_set_inst [0..<?n] ?s = Some t" "?P ?n t" by blast
  then have shape: "mkj_shape t" by blast
  then have "mkj_rewind n s = Some (t\<lparr>mkj_songend := False\<rparr>)" using t(1) by (simp add: mkj_rewind_def opl_calls)
  moreover have "mkj_ok (t\<lparr>mkj_songend := False\<rparr>)"
    using t(2) mkj_bounds [OF shape] by (auto simp: mkj_ok_def mkj_in_def mkj_shape_def)
  ultimately show ?thesis by blast
qed

lemma length_read_s16s: "read_s16s io n f = (vs, g) \<Longrightarrow> length vs = n"
  by (induction n arbitrary: f vs) (auto split: prod.splits)

text \<open>The arrays of the object, which the constructor leaves as they are.\<close>

definition mkj_arrays :: "'a mkj_player_scheme \<Rightarrow> bool" where
  "mkj_arrays s \<longleftrightarrow> length (mkj_chans s) = 9 \<and> matrix 9 8 (mkj_inst s)"

definition mkj_loading :: "int \<Rightarrow> int \<Rightarrow> 'a mkj_player_scheme \<Rightarrow> bool" where
  "mkj_loading m n s \<longleftrightarrow> mkj_arrays s \<and> mkj_maxchannel s = m \<and> mkj_maxnotes s = n"

lemma mkj_read_insts_ok:
  fixes io :: "('f, 'fl) binio" and f :: 'f and s :: "'a mkj_player_scheme"
  assumes "mkj_loading m n s" "m \<le> 9"
  shows "\<exists>g t. ofold (mkj_read_inst io) [0..<nat m] (f, s) = Some (g, t) \<and> mkj_loading m n t"
proof -
  have "\<exists>r. ofold (mkj_read_inst io) [0..<nat m] (f, s) = Some r \<and> mkj_loading m n (snd r)"
  proof (rule ofold_invariant)
    fix i and r :: "'f \<times> 'a mkj_player_scheme"
    assume i: "i \<in> set [0..<nat m]" and r: "mkj_loading m n (snd r)"
    obtain g t where gt: "r = (g, t)" by (metis surj_pair)
    obtain vs h where vs: "read_s16s io 8 g = (vs, h)" by (metis surj_pair)
    have "i < 9" using i assms(2) by auto
    then show "\<exists>r'. mkj_read_inst io i r = Some r' \<and> mkj_loading m n (snd r')"
      using r gt vs length_read_s16s [OF vs] by (auto simp: mkj_read_inst_def mkj_loading_def mkj_arrays_def access_simps matrix_length)
  qed (use assms in simp)
  then show ?thesis by auto
qed

lemma mkj_read_defineds_ok:
  fixes io :: "('f, 'fl) binio" and f :: 'f and s :: "'a mkj_player_scheme"
  assumes "mkj_loading m n s" "m \<le> 9"
  shows "\<exists>g t. ofold (mkj_read_defined io) [0..<nat m] (f, s) = Some (g, t) \<and> mkj_loading m n t"
proof -
  have "\<exists>r. ofold (mkj_read_defined io) [0..<nat m] (f, s) = Some r \<and> mkj_loading m n (snd r)"
  proof (rule ofold_invariant)
    fix i and r :: "'f \<times> 'a mkj_player_scheme"
    assume i: "i \<in> set [0..<nat m]" and r: "mkj_loading m n (snd r)"
    obtain g t where gt: "r = (g, t)" by (metis surj_pair)
    obtain v h where v: "read_s16 io g = (v, h)" by (metis surj_pair)
    have "i < 9" using i assms(2) by auto
    then show "\<exists>r'. mkj_read_defined io i r = Some r' \<and> mkj_loading m n (snd r')"
      using r gt v by (auto simp: mkj_read_defined_def mkj_set_def mkj_loading_def mkj_arrays_def access_simps)
  qed (use assms in simp)
  then show ?thesis by auto
qed

lemma mkj_load_ok:
  assumes "mkj_arrays s"
  shows "\<exists>b t. mkj_load io opn mem newer filename s = Some (b, t) \<and> (b \<longrightarrow> mkj_ok t)"
proof (cases "opn filename")
  case None
  then show ?thesis by (intro exI [of _ False]) (simp add: mkj_load_def)
next
  case (Some f)
  obtain k ident f1 where f1: "bio_readString io 6 (fresh mem 6) f = (k, ident, f1)" by (metis prod_cases3)
  obtain ver f2 where f2: "bio_readFloat io f1 = (ver, f2)" by (metis surj_pair)
  obtain m f3 where f3: "read_s16 io f2 = (m, f3)" by (metis surj_pair)
  show ?thesis
  proof (cases "ident \<noteq> bytes_of ''MKJamz'' \<or> newer ver \<or> m > 9 \<or> m < 0")
    case True
    then show ?thesis using Some f1 f2 f3 by (auto simp: mkj_load_def Let_def)
  next
    case False
    obtain f4 s1 where s1: "ofold (mkj_read_inst io) [0..<nat m] (f3, s\<lparr>mkj_maxchannel := m\<rparr>) = Some (f4, s1)"
      "mkj_loading m (mkj_maxnotes s) s1"
      using mkj_read_insts_ok [of m "mkj_maxnotes s" "s\<lparr>mkj_maxchannel := m\<rparr>" io f3] assms False
      by (auto simp: mkj_loading_def mkj_arrays_def)
    obtain n f5 where f5: "read_s16 io f4 = (n, f5)" by (metis surj_pair)
    let ?s = "s1\<lparr>mkj_maxnotes := n\<rparr>"
    have l: "mkj_loading m n ?s" using s1(2) by (simp add: mkj_loading_def mkj_arrays_def)
    obtain f6 s2 where s2: "ofold (mkj_read_defined io) [0..<nat m] (f5, ?s) = Some (f6, s2)" "mkj_loading m n s2"
      using mkj_read_defineds_ok [OF l, of io f5] False by auto
    obtain buf f7 where f7: "read_s16s io (nat ((m + 1) * n)) f6 = (buf, f7)" by (metis surj_pair)
    let ?t = "s2\<lparr>mkj_songbuf := buf\<rparr>"
    have shape: "\<not> mkj_bad_size m n \<Longrightarrow> mkj_shape ?t"
      using s2(2) length_read_s16s [OF f7] False by (simp add: mkj_shape_def mkj_loading_def mkj_arrays_def)
    have m: "mkj_maxchannel s1 = m" "mkj_maxchannel s2 = m" "mkj_maxnotes s2 = n" using s1(2) s2(2) by (simp_all add: mkj_loading_def)
    have load: "mkj_load io opn mem newer filename s =
      (if mkj_bad_size m n then Some (False, ?s) else if bio_error io f7 then Some (False, ?t)
       else do { s \<leftarrow> mkj_rewind 0 ?t; Some (True, s) })"
      using False Some f1 f2 f3 s1(1) f5 s2(1) f7 m by (simp add: mkj_load_def Let_def)
    show ?thesis
    proof (cases "mkj_bad_size m n")
      case True
      then show ?thesis using load by (intro exI [of _ False]) simp
    next
      case False
      then show ?thesis using load mkj_rewind_ok [OF shape, of 0] by auto
    qed
  qed
qed

text \<open>C23: \<open>CmkjPlayer::load\<close> returns for every file. An accepted song, of whatever events, can be played for any
  number of ticks and rewound without an access outside its arrays, unless it comes to an update in which
  one of its channels goes on for ever without setting a delay.\<close>

theorem mkj_load_playable:
  assumes "mkj_arrays s"
  shows "\<exists>b t. mkj_load io opn mem newer filename s = Some (b, t) \<and>
    (b \<longrightarrow> (\<exists>u v. play mkj_update n t = Some u \<and> mkj_rewind sub u = Some v \<and> mkj_ok v) \<or>
      (\<exists>k u. k < n \<and> play mkj_update k t = Some u \<and> mkj_update u = None \<and> mkj_stuck u))"
proof -
  obtain b t where t: "mkj_load io opn mem newer filename s = Some (b, t)" "b \<longrightarrow> mkj_ok t"
    using mkj_load_ok [OF assms] by blast
  have "(\<exists>u v. play mkj_update n t = Some u \<and> mkj_rewind sub u = Some v \<and> mkj_ok v) \<or>
      (\<exists>k u. k < n \<and> play mkj_update k t = Some u \<and> mkj_update u = None \<and> mkj_stuck u)" if b
  proof -
    have "mkj_shape u" if "mkj_ok u" for u :: "'a mkj_player_scheme" using that by (simp add: mkj_ok_def mkj_in_def)
    then show ?thesis using mkj_play_ok [of t n] mkj_rewind_ok t(2) that by blast
  qed
  then show ?thesis using t(1) by blast
qed

lemma mkj_silent_busy:
  "mkj_ok s \<Longrightarrow> c < nat (mkj_maxchannel s) \<Longrightarrow> set (mkj_songbuf s) \<subseteq> {0} \<Longrightarrow> mkj_pstat (mkj_chans s ! c) = 0 \<Longrightarrow> mkj_busy n c s"
proof (induction n arbitrary: s)
  case (Suc n)
  have i: "mkj_in c 0 s" using Suc.prems(1) by (simp add: mkj_in_ok)
  have m: "0 \<le> mkj_maxchannel s" "mkj_shape s" using i by (simp_all add: mkj_in_def mkj_shape_def)
  have c9: "c < 9" "c < length (mkj_chans s)" using mkj_channel_range [OF i Suc.prems(2)] by simp_all
  obtain v where v: "mkj_event c s = Some v" using mkj_event_ok(1) [OF i] m Suc.prems(2) by auto
  then have "v \<in> set (mkj_songbuf s)" by (auto simp: mkj_event_def rd_int_def rd_def split: bind_splits if_splits)
  then have v0: "mkj_event c s = Some 0" using v Suc.prems(3) by auto
  have "map_of mkj_notes 0 = None" by (simp add: mkj_notes_def)
  then have round: "mkj_round c s = mkj_advance c s"
    using v0 mkj_event_ok(2) [OF i _ _ Suc.prems(2)] m mkj_chan_Some [OF Suc.prems(1,2)] by (simp add: mkj_round_def)
  obtain t where t: "mkj_advance c s = Some (False, t)" "mkj_ok t" "mkj_keep s t"
    using mkj_advance_ok [OF i _ m(1) Suc.prems(2)] by auto
  have "mkj_pstat (mkj_chans t ! c) = 0"
    using t(1) Suc.prems(4) mkj_set_eq [OF m(2) c9(1)] c9(2) mkj_chan_Some [OF Suc.prems(1,2)]
    by (auto simp: mkj_advance_def mkj_skip_def split: if_splits)
  moreover have "c < nat (mkj_maxchannel t)" "set (mkj_songbuf t) \<subseteq> {0}" using t(3) Suc.prems(2,3) by (simp_all add: mkj_keep_def)
  ultimately show ?case using round t(1) Suc.IH [OF t(2)] mkj_chan_Some [OF t(2)] by simp
qed simp

lemma mkj_silent_stuck_in:
  "mkj_ok s \<Longrightarrow> set cs \<subseteq> {..<nat (mkj_maxchannel s)} \<Longrightarrow> set (mkj_songbuf s) \<subseteq> {0} \<Longrightarrow>
   \<forall>c \<in> set cs. mkj_pstat (mkj_chans s ! c) = 0 \<Longrightarrow> \<exists>c \<in> set cs. mkj_defined (mkj_chans s ! c) \<noteq> 0 \<Longrightarrow> mkj_stuck_in cs s"
proof (induction cs)
  case (Cons c cs)
  have c: "c < nat (mkj_maxchannel s)" using Cons.prems(2) by simp
  note ch = mkj_chan_Some [OF Cons.prems(1) c]
  show ?case
  proof (cases "mkj_defined (mkj_chans s ! c) = 0")
    case True
    then have "mkj_channel_tick c s = Some (False, s)" using ch by (simp add: mkj_channel_tick_def)
    then show ?thesis using Cons True by simp
  next
    case False
    let ?w = "opl_write (0xb0 + int c) 0 s"
    have w: "mkj_ok ?w" using Cons.prems(1) by (simp add: mkj_ok_def)
    have "c < nat (mkj_maxchannel ?w)" "set (mkj_songbuf ?w) \<subseteq> {0}" "mkj_pstat (mkj_chans ?w ! c) = 0"
      using c Cons.prems(3,4) by (simp_all add: opl_calls)
    then have e: "mkj_endless c ?w" using mkj_silent_busy [OF w] by (simp add: mkj_endless_def)
    then have "mkj_channel_tick c s = None"
      using False ch Cons.prems(4) mkj_endless_never [of c ?w] by (simp add: mkj_channel_tick_def)
    then show ?thesis using e ch Cons.prems(4) by simp
  qed
qed simp

section \<open>Files\<close>

text \<open>A stream before the bytes \<open>r\<close> that has not met its end.\<close>

definition ms_at :: "memstream \<Rightarrow> bytes \<Rightarrow> bool" where
  "ms_at g r \<longleftrightarrow> ms_rest g = r \<and> \<not> ms_eof g"

lemma ms_at_advance:
  assumes "ms_at g (xs @ r)" "xs \<noteq> []"
  shows "ms_at (ms_advance (length xs) g) r"
proof -
  have r: "ms_rest g = xs @ r" using assms(1) by (simp add: ms_at_def)
  have "length (ms_bytes g) - ms_pos g = length xs + length r" using arg_cong [OF r, of length] by (simp add: ms_rest_def)
  moreover have "length xs \<noteq> 0" using assms(2) by simp
  ultimately have "ms_pos g + length xs \<le> length (ms_bytes g)" by linarith
  then show ?thesis using assms(1) ms_advance_rest [OF r refl] by (simp add: ms_at_def) (simp add: ms_advance_def)
qed

definition s16_range :: "int \<Rightarrow> bool" where
  "s16_range v \<longleftrightarrow> -32768 \<le> v \<and> v < 32768"

lemma le_value_word: "le_value (le_bytes 2 v) = v mod 65536"
proof -
  have "v mod (256 * 256) = 256 * (v div 256 mod 256) + v mod 256" by (rule zmod_zmult2_eq) simp
  then show ?thesis by (simp add: numeral_2_eq_2 uint_word_of_int)
qed

lemma read_s16_at:
  assumes "ms_at g (le_bytes 2 v @ r)" "s16_range v"
  shows "\<exists>h. read_s16 memio g = (v, h) \<and> ms_at h r"
proof -
  have two: "length (le_bytes 2 v) = 2" by simp
  have "to_s16 (v mod 65536) = v" using assms(2) by (simp add: to_s16_def s16_range_def mod_add_left_eq)
  moreover have "take 2 (ms_rest g) = le_bytes 2 v" using assms(1) by (simp add: ms_at_def)
  moreover have "le_bytes 2 v \<noteq> []" by (simp add: numeral_2_eq_2)
  ultimately show ?thesis
    using ms_at_advance [OF assms(1)] unfolding two by (simp add: read_s16_def memio_def le_value_word)
qed

definition s16_bytes :: "int list \<Rightarrow> bytes" where
  "s16_bytes vs = concat (map (le_bytes 2) vs)"

lemma read_s16s_at:
  "ms_at g (s16_bytes vs @ r) \<Longrightarrow> \<forall>v \<in> set vs. s16_range v \<Longrightarrow> \<exists>h. read_s16s memio (length vs) g = (vs, h) \<and> ms_at h r"
proof (induction vs arbitrary: g)
  case (Cons v vs)
  have "ms_at g (le_bytes 2 v @ s16_bytes vs @ r)" using Cons.prems(1) by (simp add: s16_bytes_def)
  then obtain h where h: "read_s16 memio g = (v, h)" "ms_at h (s16_bytes vs @ r)" using read_s16_at Cons.prems(2) by fastforce
  then show ?case using Cons.IH [OF h(2)] Cons.prems(2) by auto
qed (simp add: s16_bytes_def)

lemma ofold_list_at:
  assumes at: "ms_at g (concat (map img xs) @ r)" "P 0 s" and len: "length xs = n"
    and step: "\<And>i g t r. i < n \<Longrightarrow> ms_at g (img (xs ! i) @ r) \<Longrightarrow> P i t \<Longrightarrow> \<exists>h u. f i (g, t) = Some (h, u) \<and> ms_at h r \<and> P (Suc i) u"
  shows "\<exists>h t. ofold f [0..<n] (g, s) = Some (h, t) \<and> ms_at h r \<and> P n t"
proof -
  let ?Q = "\<lambda>i z. ms_at (fst z) (concat (map img (drop i xs)) @ r) \<and> P i (snd z)"
  have "\<exists>z. ofold f [0..<n] (g, s) = Some z \<and> ?Q n z"
  proof (rule ofold_upt_invariant)
    show "?Q 0 (g, s)" using at by simp
    fix i z
    assume i: "i < n" and z: "?Q i z"
    have "drop i xs = xs ! i # drop (Suc i) xs" using i len by (simp add: Cons_nth_drop_Suc)
    then have "ms_at (fst z) (img (xs ! i) @ concat (map img (drop (Suc i) xs)) @ r)" using z by simp
    from step [OF i this, of "snd z"] z show "\<exists>z'. f i z = Some z' \<and> ?Q (Suc i) z'" by (metis fst_conv prod.collapse snd_conv)
  qed
  then show ?thesis using len by auto
qed

definition mkj_file :: "bytes \<Rightarrow> int \<Rightarrow> int list list \<Rightarrow> int \<Rightarrow> int list \<Rightarrow> int list \<Rightarrow> bytes" where
  "mkj_file ver m insts n defs song =
     bytes_of ''MKJamz'' @ ver @ le_bytes 2 m @ concat (map s16_bytes insts) @ le_bytes 2 n @ s16_bytes defs @ s16_bytes song"

definition mkj_file_ok :: "bytes \<Rightarrow> int \<Rightarrow> int list list \<Rightarrow> int \<Rightarrow> int list \<Rightarrow> int list \<Rightarrow> bool" where
  "mkj_file_ok ver m insts n defs song \<longleftrightarrow> length ver = 4 \<and> 0 \<le> m \<and> m \<le> 9 \<and> n < 32768 \<and> \<not> mkj_bad_size m n \<and>
     length insts = nat m \<and> (\<forall>i \<in> set insts. length i = 8 \<and> (\<forall>v \<in> set i. s16_range v)) \<and>
     length defs = nat m \<and> (\<forall>v \<in> set defs. s16_range v) \<and>
     length song = nat ((m + 1) * n) \<and> (\<forall>v \<in> set song. s16_range v)"

text \<open>What \<open>rewind\<close> leaves as it is, and where the channels stand after it.\<close>

lemma mkj_rewind_chans:
  assumes "mkj_shape s" "mkj_rewind n s = Some t"
  shows "mkj_maxchannel t = mkj_maxchannel s \<and> mkj_songbuf t = mkj_songbuf s \<and> (\<forall>d < nat (mkj_maxchannel s).
    mkj_defined (mkj_chans t ! d) = mkj_defined (mkj_chans s ! d) \<and> mkj_pstat (mkj_chans t ! d) = 0)"
proof -
  let ?s = "opl_write 1 32 (opl_init s)"
  let ?n = "nat (mkj_maxchannel s)"
  let ?P = "\<lambda>i u. mkj_shape u \<and> mkj_maxchannel u = mkj_maxchannel s \<and> mkj_songbuf u = mkj_songbuf s \<and>
    (\<forall>d < ?n. mkj_defined (mkj_chans u ! d) = mkj_defined (mkj_chans s ! d) \<and> (d < i \<longrightarrow> mkj_pstat (mkj_chans u ! d) = 0))"
  have n: "?n \<le> 9" using assms(1) by (simp add: mkj_shape_def nat_le_iff)
  have "\<exists>t. ofold mkj_set_inst [0..<?n] ?s = Some t \<and> ?P ?n t"
  proof (rule ofold_upt_invariant [where P = ?P])
    show "?P 0 ?s" using assms by (simp add: mkj_shape_def opl_calls)
    fix i t
    assume "i < ?n" and t: "?P i t"
    then have i: "i < 9" using n by simp
    let ?u = "t\<lparr>mkj_chans := (mkj_chans t)[i := (mkj_chans t ! i)\<lparr>mkj_pstat := 0, mkj_speed := 0, mkj_waveform := 0,
        mkj_songptr := int i, mkj_octave := 4\<rparr>]\<rparr>"
    have u: "?P (Suc i) ?u" using t i by (auto simp: mkj_shape_def nth_list_update less_Suc_eq)
    have m: "matrix 9 8 (mkj_inst t)" using t by (simp add: mkj_shape_def)
    have "\<exists>es. mkj_set_inst i t = Some (?u\<lparr>opl_out := es\<rparr>)"
      using mkj_set_eq [of t i] t i m by (auto simp: mkj_set_inst_def opl_calls access_simps)
    then show "\<exists>t'. mkj_set_inst i t = Some t' \<and> ?P (Suc i) t'" using u by (auto simp: mkj_shape_def)
  qed
  then show ?thesis using assms(2) by (auto simp: mkj_rewind_def opl_calls)
qed

lemma mkj_read_inst_at:
  assumes "i < 9" "ms_at g (s16_bytes vs @ r)" "length vs = 8" "\<forall>v \<in> set vs. s16_range v" "mkj_loading m n s"
  shows "\<exists>h t. mkj_read_inst memio i (g, s) = Some (h, t) \<and> ms_at h r \<and> mkj_loading m n t"
proof -
  obtain h where "read_s16s memio 8 g = (vs, h)" "ms_at h r" using read_s16s_at [OF assms(2,4)] assms(3) by auto
  then show ?thesis using assms by (auto simp: mkj_read_inst_def mkj_loading_def mkj_arrays_def access_simps matrix_length)
qed

lemma mkj_read_defined_at:
  assumes "i < 9" "ms_at g (le_bytes 2 v @ r)" "s16_range v" "mkj_loading m n s"
  shows "\<exists>h. mkj_read_defined memio i (g, s) =
      Some (h, s\<lparr>mkj_chans := (mkj_chans s)[i := (mkj_chans s ! i)\<lparr>mkj_defined := v\<rparr>]\<rparr>) \<and> ms_at h r"
proof -
  obtain h where "read_s16 memio g = (v, h)" "ms_at h r" using read_s16_at [OF assms(2,3)] by blast
  then show ?thesis using assms by (auto simp: mkj_read_defined_def mkj_set_def mkj_loading_def mkj_arrays_def access_simps)
qed

text \<open>Such a file is accepted, and its song and channels are those written.\<close>

lemma mkj_file_loads:
  assumes ok: "mkj_file_ok ver m insts n defs song" and s: "mkj_arrays s" and ver: "\<not> newer (word_of_int (le_value ver))"
  shows "\<exists>t. mkj_load memio (\<lambda>_. Some (mem_file (mkj_file ver m insts n defs song))) mem newer filename s = Some (True, t) \<and>
    mkj_ok t \<and> mkj_maxchannel t = m \<and> mkj_songbuf t = song \<and>
    (\<forall>d < nat m. mkj_defined (mkj_chans t ! d) = defs ! d \<and> mkj_pstat (mkj_chans t ! d) = 0)"
proof -
  let ?f = "mem_file (mkj_file ver m insts n defs song)"
  have k: "length ver = 4" "0 \<le> m" "m \<le> 9" "n < 32768" "\<not> mkj_bad_size m n" "length insts = nat m" "length defs = nat m"
    "\<forall>i \<in> set insts. length i = 8 \<and> (\<forall>v \<in> set i. s16_range v)" "\<forall>v \<in> set defs. s16_range v"
    "length song = nat ((m + 1) * n)" "\<forall>v \<in> set song. s16_range v"
    using ok by (simp_all add: mkj_file_ok_def)
  have "1 \<le> n" using k(5) by (simp add: mkj_bad_size_def)
  then have range: "s16_range m" "s16_range n" using k(2-4) by (simp_all add: s16_range_def)
  have six: "length (bytes_of ''MKJamz'') = 6" by (simp add: bytes_of_def)
  let ?r3 = "concat (map s16_bytes insts) @ le_bytes 2 n @ s16_bytes defs @ s16_bytes song @ []"
  have at0: "ms_at ?f (bytes_of ''MKJamz'' @ ver @ le_bytes 2 m @ ?r3)"
    by (simp add: ms_at_def ms_rest_def mem_file_def mkj_file_def)
  obtain f1 where f1: "bio_readString memio 6 (fresh mem 6) ?f = (6, bytes_of ''MKJamz'', f1)" "ms_at f1 (ver @ le_bytes 2 m @ ?r3)"
  proof -
    have "take 6 (ms_rest ?f) = bytes_of ''MKJamz''" using at0 six by (simp add: ms_at_def)
    moreover have "bytes_of ''MKJamz'' \<noteq> []" by (simp add: bytes_of_def)
    moreover have "6 \<le> length (ms_rest ?f)" using at0 six by (simp add: ms_at_def)
    then have "min (length (ms_rest ?f)) 6 = 6" "6 \<le> length (ms_rest ?f)" by simp_all
    ultimately show ?thesis using that ms_at_advance [OF at0] six by (simp add: memio_def Let_def)
  qed
  obtain f2 where f2: "bio_readFloat memio f1 = (word_of_int (le_value ver), f2)" "ms_at f2 (le_bytes 2 m @ ?r3)"
  proof -
    have "take 4 (ms_rest f1) = ver" "ver \<noteq> []" using f1(2) k(1) by (auto simp: ms_at_def)
    then show ?thesis using that ms_at_advance [OF f1(2)] k(1) by (simp add: memio_def)
  qed
  obtain f3 where f3: "read_s16 memio f2 = (m, f3)" "ms_at f3 ?r3" using read_s16_at [OF f2(2) range(1)] by blast
  let ?s = "s\<lparr>mkj_maxchannel := m\<rparr>"
  have l: "mkj_loading m (mkj_maxnotes s) ?s" using s by (simp add: mkj_loading_def mkj_arrays_def)
  obtain f4 s1 where s1: "ofold (mkj_read_inst memio) [0..<nat m] (f3, ?s) = Some (f4, s1)"
    "ms_at f4 (le_bytes 2 n @ s16_bytes defs @ s16_bytes song @ [])" "mkj_loading m (mkj_maxnotes s) s1"
  proof -
    have "\<exists>h t. ofold (mkj_read_inst memio) [0..<nat m] (f3, ?s) = Some (h, t) \<and>
        ms_at h (le_bytes 2 n @ s16_bytes defs @ s16_bytes song @ []) \<and> mkj_loading m (mkj_maxnotes s) t"
    proof (rule ofold_list_at [where P = "\<lambda>_. mkj_loading m (mkj_maxnotes s)", OF f3(2) l k(6)])
      fix i g t and r :: bytes
      assume i: "i < nat m" and at: "ms_at g (s16_bytes (insts ! i) @ r)" and t: "mkj_loading m (mkj_maxnotes s) t"
      have "insts ! i \<in> set insts" "i < 9" using i k(3,6) by auto
      then show "\<exists>h u. mkj_read_inst memio i (g, t) = Some (h, u) \<and> ms_at h r \<and> mkj_loading m (mkj_maxnotes s) u"
        using mkj_read_inst_at [OF _ at _ _ t] k(8) by blast
    qed
    then show ?thesis using that by blast
  qed
  obtain f5 where f5: "read_s16 memio f4 = (n, f5)" "ms_at f5 (s16_bytes defs @ s16_bytes song @ [])"
    using read_s16_at [OF s1(2) range(2)] by blast
  let ?s1 = "s1\<lparr>mkj_maxnotes := n\<rparr>"
  let ?P = "\<lambda>i t. mkj_loading m n t \<and> (\<forall>d < i. mkj_defined (mkj_chans t ! d) = defs ! d)"
  have l1: "?P 0 ?s1" using s1(3) by (simp add: mkj_loading_def mkj_arrays_def)
  obtain f6 s2 where s2: "ofold (mkj_read_defined memio) [0..<nat m] (f5, ?s1) = Some (f6, s2)"
    "ms_at f6 (s16_bytes song @ [])" "?P (nat m) s2"
  proof -
    have "\<exists>h t. ofold (mkj_read_defined memio) [0..<nat m] (f5, ?s1) = Some (h, t) \<and> ms_at h (s16_bytes song @ []) \<and> ?P (nat m) t"
    proof (rule ofold_list_at [where P = ?P, OF f5(2) [unfolded s16_bytes_def [of defs]] l1 k(7)])
      fix i g t and r :: bytes
      assume i: "i < nat m" and at: "ms_at g (le_bytes 2 (defs ! i) @ r)" and t: "?P i t"
      have i9: "i < 9" "s16_range (defs ! i)" using i k(3,7,9) by auto
      have len: "i < length (mkj_chans t)" using t i9(1) by (simp add: mkj_loading_def mkj_arrays_def)
      have "?P (Suc i) (t\<lparr>mkj_chans := (mkj_chans t)[i := (mkj_chans t ! i)\<lparr>mkj_defined := defs ! i\<rparr>]\<rparr>)"
        using t len by (auto simp: mkj_loading_def mkj_arrays_def nth_list_update less_Suc_eq)
      then show "\<exists>h u. mkj_read_defined memio i (g, t) = Some (h, u) \<and> ms_at h r \<and> ?P (Suc i) u"
        using mkj_read_defined_at [OF i9(1) at i9(2), of m n t] t by blast
    qed
    then show ?thesis using that by blast
  qed
  obtain f7 where f7: "read_s16s memio (nat ((m + 1) * n)) f6 = (song, f7)" "ms_at f7 []"
    using read_s16s_at [OF s2(2) k(11)] k(10) by auto
  let ?t = "s2\<lparr>mkj_songbuf := song\<rparr>"
  have shape: "mkj_shape ?t" using s2(3) k by (simp add: mkj_shape_def mkj_loading_def mkj_arrays_def)
  obtain t where t: "mkj_rewind 0 ?t = Some t" "mkj_ok t" using mkj_rewind_ok [OF shape] by blast
  have mm: "mkj_maxchannel s1 = m" "mkj_maxchannel s2 = m" "mkj_maxnotes s2 = n" using s1(3) s2(3) by (simp_all add: mkj_loading_def)
  have "\<not> bio_error memio f7" using f7(2) by (simp add: ms_at_def memio_def)
  then have "mkj_load memio (\<lambda>_. Some ?f) mem newer filename s = Some (True, t)"
    using f1(1) f2(1) ver f3(1) k(2,3,5) s1(1) f5(1) s2(1) f7(1) t(1) mm by (simp add: mkj_load_def Let_def)
  then show ?thesis using t(2) mkj_rewind_chans [OF shape t(1)] mm s2(3) by auto
qed

text \<open>C30: Every file of a song without any event, in which some channel is defined, is accepted, and its first update
  never returns: it comes to the loop of the first such channel, no round of which sets a delay, ends the song
  or faults.\<close>

theorem mkj_silent_never_returns:
  assumes "mkj_file_ok ver m insts n defs song" "mkj_arrays s" "\<not> newer (word_of_int (le_value ver))"
    "set song \<subseteq> {0}" "\<exists>d \<in> set defs. d \<noteq> 0"
  shows "\<exists>t. mkj_load memio (\<lambda>_. Some (mem_file (mkj_file ver m insts n defs song))) mem newer filename s = Some (True, t) \<and>
    mkj_update t = None \<and> mkj_stuck t"
proof -
  obtain t where t: "mkj_load memio (\<lambda>_. Some (mem_file (mkj_file ver m insts n defs song))) mem newer filename s = Some (True, t)"
    "mkj_ok t" "mkj_maxchannel t = m" "mkj_songbuf t = song"
    "\<forall>d < nat m. mkj_defined (mkj_chans t ! d) = defs ! d \<and> mkj_pstat (mkj_chans t ! d) = 0"
    using mkj_file_loads [of ver m insts n defs song s newer mem filename] assms(1-3) by blast
  have "length defs = nat m" using assms(1) by (simp add: mkj_file_ok_def)
  then obtain d where "d < nat m" "defs ! d \<noteq> 0" using assms(5) by (auto simp: in_set_conv_nth)
  then have "\<exists>c \<in> set [0..<nat m]. mkj_defined (mkj_chans t ! c) \<noteq> 0" using t(5) by (intro bexI [of _ d]) simp_all
  then have "mkj_stuck t"
    unfolding mkj_stuck_def t(3) using t(2-5) assms(4) by (intro mkj_silent_stuck_in) auto
  then show ?thesis using t(1,2) mkj_update_cases [of t] by auto
qed

section \<open>Witnesses\<close>

definition mkj_sample :: mkj_player where
  "mkj_sample =
     \<lparr>opl_out = [], mkj_maxchannel = 1, mkj_maxnotes = 4, mkj_songbuf = replicate 8 0, mkj_songend = False,
      mkj_chans = replicate 9 \<lparr>mkj_defined = 1, mkj_songptr = 0, mkj_octave = 4, mkj_waveform = 0, mkj_pstat = 0, mkj_speed = 0,
        mkj_delay = 0\<rparr>, mkj_inst = replicate 9 (replicate 8 0)\<rparr>"

lemma mkj_sample_arrays: "mkj_arrays mkj_sample"
  by (simp add: mkj_sample_def mkj_arrays_def)

lemma mkj_sample_file_ok:
  "length song = 4 \<Longrightarrow> \<forall>v \<in> set song. s16_range v \<Longrightarrow> mkj_file_ok [0, 0, 0, 0] 1 [[0, 0, 0, 0, 0, 0, 0, 0]] 2 [1] song"
  by (simp add: mkj_file_ok_def mkj_bad_size_def s16_range_def)

lemma mkj_silent_never_returns_witness:
  "\<exists>t. mkj_load memio (\<lambda>_. Some (mem_file (mkj_file [0, 0, 0, 0] 1 [[0, 0, 0, 0, 0, 0, 0, 0]] 2 [1] [0, 0, 0, 0]))) (\<lambda>_. 0) (\<lambda>_. False)
      ''a.mkj'' mkj_sample = Some (True, t) \<and> mkj_update t = None \<and> mkj_stuck t"
  by (rule mkj_silent_never_returns [OF mkj_sample_file_ok mkj_sample_arrays]) (simp_all add: s16_range_def)

text \<open>A song of one delay, in a loop: an accepted file that plays for ever.\<close>

lemma mkj_load_playable_witness:
  "\<exists>t. mkj_load memio (\<lambda>_. Some (mem_file (mkj_file [0, 0, 0, 0] 1 [[0, 0, 0, 0, 0, 0, 0, 0]] 2 [1] [255, 7, 0, 0]))) (\<lambda>_. 0) (\<lambda>_. False)
      ''a.mkj'' mkj_sample = Some (True, t) \<and>
    ((\<exists>u v. play mkj_update 5 t = Some u \<and> mkj_rewind 0 u = Some v \<and> mkj_ok v) \<or>
      (\<exists>k u. k < 5 \<and> play mkj_update k t = Some u \<and> mkj_update u = None \<and> mkj_stuck u))"
proof -
  have "mkj_file_ok [0, 0, 0, 0] 1 [[0, 0, 0, 0, 0, 0, 0, 0]] 2 [1] [255, 7, 0, 0]" by (rule mkj_sample_file_ok) (simp_all add: s16_range_def)
  from mkj_file_loads [OF this mkj_sample_arrays, of "\<lambda>_. False" "\<lambda>_. 0" "''a.mkj''"]
  obtain t where t: "mkj_load memio (\<lambda>_. Some (mem_file (mkj_file [0, 0, 0, 0] 1 [[0, 0, 0, 0, 0, 0, 0, 0]] 2 [1] [255, 7, 0, 0])))
      (\<lambda>_. 0) (\<lambda>_. False) ''a.mkj'' mkj_sample = Some (True, t)" by blast
  obtain b u where "mkj_load memio (\<lambda>_. Some (mem_file (mkj_file [0, 0, 0, 0] 1 [[0, 0, 0, 0, 0, 0, 0, 0]] 2 [1] [255, 7, 0, 0])))
      (\<lambda>_. 0) (\<lambda>_. False) ''a.mkj'' mkj_sample = Some (b, u)"
    "b \<longrightarrow> (\<exists>v w. play mkj_update 5 u = Some v \<and> mkj_rewind 0 v = Some w \<and> mkj_ok w) \<or>
      (\<exists>k v. k < 5 \<and> play mkj_update k u = Some v \<and> mkj_update v = None \<and> mkj_stuck v)"
    using mkj_load_playable [OF mkj_sample_arrays] by blast
  then show ?thesis using t by simp
qed

end
