(* ===== verification/Bam.thy ===== *)
theory Bam
  imports Loader
begin

text \<open>
  \<open>src/bam.cpp\<close>, \<open>src/bam.h\<close>: the player of Bob's Adlib Music, an interpreter of commands with sixteen labels, to
  which loops and a chorus jump back.
\<close>

section \<open>The code\<close>

definition bam_freq :: "int list" where
  "bam_freq =
     [172, 182, 193, 205, 217, 230, 243, 258, 274,
      290, 307, 326, 345, 365, 387, 410, 435, 460, 489, 517, 547, 580, 614, 651, 1369, 1389, 1411,
      1434, 1459, 1484, 1513, 1541, 1571, 1604, 1638, 1675, 2393, 2413, 2435, 2458, 2483, 2508,
      2537, 2565, 2595, 2628, 2662, 2699, 3417, 3437, 3459, 3482, 3507, 3532, 3561, 3589, 3619,
      3652, 3686, 3723, 4441, 4461, 4483, 4506, 4531, 4556, 4585, 4613, 4643, 4676, 4710, 4747,
      5465, 5485, 5507, 5530, 5555, 5580, 5609, 5637, 5667, 5700, 5734, 5771, 6489, 6509, 6531,
      6554, 6579, 6604, 6633, 6661, 6691, 6724, 6758, 6795, 7513, 7533, 7555, 7578, 7603, 7628,
      7657, 7685, 7715, 7748, 7782, 7819, 7858, 7898, 7942, 7988, 8037, 8089, 8143, 8191, 8191,
      8191, 8191, 8191, 8191, 8191, 8191, 8191, 8191, 8191]"

record bam_label =
  bl_target :: nat
  bl_defined :: bool
  bl_count :: u8

record bam_player = cplayer +
  bam_song :: bytes
  bam_del :: u8
  bam_pos :: nat
  bam_size :: nat
  bam_gosub :: nat
  bam_songend :: bool
  bam_chorus :: bool
  bam_labels :: "bam_label list"

definition bam_rewind :: "int \<Rightarrow> 'a bam_player_scheme \<Rightarrow> 'a bam_player_scheme option" where
  "bam_rewind subsong s =
     (let s = s\<lparr>bam_pos := 0, bam_songend := False, bam_del := 0, bam_gosub := 0, bam_chorus := False,
            bam_labels := (replicate 16 \<lparr>bl_target = 0, bl_defined = False, bl_count = 255\<rparr>)
              [0 := \<lparr>bl_target = 0, bl_defined = True, bl_count = 255\<rparr>]\<rparr>
      in Some (opl_write 1 32 (opl_init s)))"

text \<open>
  The size is an \<open>unsigned long\<close>, the counter of the loop over the song an \<open>unsigned int\<close>: at a size of
  \<open>2 ^ 32\<close> or more the counter wraps before it gets there, and \<open>load\<close> never returns.
\<close>

definition bam_load ::
  "('f, 'fl) binio \<Rightarrow> 'f opener \<Rightarrow> (nat \<Rightarrow> u8) \<Rightarrow> string \<Rightarrow> 'a bam_player_scheme \<Rightarrow> (bool \<times> 'a bam_player_scheme) option"
where
  "bam_load io opn mem filename s =
     (case opn filename of None \<Rightarrow> Some (False, s) | Some f \<Rightarrow>
       (let (n, f) = fp_filesize io f;
            s = s\<lparr>bam_size := ulong (int n - 4)\<rparr>;
            (_, ident, f) = bio_readString io 4 (fresh mem 4) f
        in if ident \<noteq> bytes_of ''CBMF'' then Some (False, s)
           else do {
             _ \<leftarrow> require (bam_size s < 2 ^ 32);
             let (song, f) = read_u8s io (bam_size s) f;
             s \<leftarrow> bam_rewind 0 (s\<lparr>bam_song := song\<rparr>);
             Some (True, s)
           }))"

text \<open>The byte at an offset from the position, and the label of a command.\<close>

definition bam_at :: "nat \<Rightarrow> 'a bam_player_scheme \<Rightarrow> u8 option" where
  "bam_at i s = rd (bam_song s) (bam_pos s + i)"

definition bam_set_label :: "nat \<Rightarrow> (bam_label \<Rightarrow> bam_label) \<Rightarrow> 'a bam_player_scheme \<Rightarrow> 'a bam_player_scheme option" where
  "bam_set_label c g s = do {
     l \<leftarrow> rd (bam_labels s) c;
     ls \<leftarrow> wr (bam_labels s) c (g l);
     Some (s\<lparr>bam_labels := ls\<rparr>)
   }"

definition bam_start_note :: "nat \<Rightarrow> 'a bam_player_scheme \<Rightarrow> 'a bam_player_scheme option" where
  "bam_start_note c s = do {
     s \<leftarrow> (if c < 9 then do {
            n \<leftarrow> bam_at 1 s;
            f \<leftarrow> rd bam_freq (unat n);
            Some (opl_write (0xb0 + int c) (drop_bit 8 f + 32) (opl_write (0xa0 + int c) (f AND 255) s))
          } else Some s);
     Some (s\<lparr>bam_pos := bam_pos s + 2\<rparr>)
   }"

definition bam_instrument :: "nat \<Rightarrow> 'a bam_player_scheme \<Rightarrow> 'a bam_player_scheme option" where
  "bam_instrument c s = do {
     s \<leftarrow> (if c < 9 then do {
            op \<leftarrow> rd op_table c;
            let w = (\<lambda>reg i t. do { v \<leftarrow> bam_at i t; Some (opl_write reg (uint v) t) });
            s \<leftarrow> w (0x20 + op) 1 s; s \<leftarrow> w (0x23 + op) 2 s; s \<leftarrow> w (0x40 + op) 3 s; s \<leftarrow> w (0x43 + op) 4 s;
            s \<leftarrow> w (0x60 + op) 5 s; s \<leftarrow> w (0x63 + op) 6 s; s \<leftarrow> w (0x80 + op) 7 s; s \<leftarrow> w (0x83 + op) 8 s;
            s \<leftarrow> w (0xe0 + op) 9 s; s \<leftarrow> w (0xe3 + op) 10 s; w (0xc0 + int c) 11 s
          } else Some s);
     Some (s\<lparr>bam_pos := bam_pos s + 12\<rparr>)
   }"

definition bam_jump :: "nat \<Rightarrow> 'a bam_player_scheme \<Rightarrow> 'a bam_player_scheme option" where
  "bam_jump c s = do {
     l \<leftarrow> rd (bam_labels s) c;
     if \<not> bl_defined l then Some s
     else do {
       v \<leftarrow> bam_at 1 s;
       if v = 254 then Some (s\<lparr>bam_pos := bl_target l, bam_songend := True\<rparr>)
       else if v = 255 then
         Some (if \<not> bam_chorus s then s\<lparr>bam_chorus := True, bam_gosub := bam_pos s + 2, bam_pos := bl_target l\<rparr>
               else s\<lparr>bam_pos := bam_pos s + 2\<rparr>)
       else if v = 0 then Some (s\<lparr>bam_pos := bam_pos s + 2\<rparr>)
       else if bl_count l = 0 then do {
         s \<leftarrow> bam_set_label c (\<lambda>l. l\<lparr>bl_count := 255\<rparr>) s;
         Some (s\<lparr>bam_pos := bam_pos s + 2\<rparr>)
       }
       else do {
         s \<leftarrow> bam_set_label c (\<lambda>l. l\<lparr>bl_count := (if bl_count l < 255 then bl_count l - 1 else v - 1)\<rparr>) s;
         Some (s\<lparr>bam_pos := bl_target l\<rparr>)
       }
     }
   }"

text \<open>One command, a byte below 128.\<close>

definition bam_command :: "'a bam_player_scheme \<Rightarrow> 'a bam_player_scheme option" where
  "bam_command s = do {
     b \<leftarrow> bam_at 0 s;
     let cmd = b AND 240;
     let c = unat (b AND 15);
     if cmd = 0 then Some (s\<lparr>bam_pos := 0, bam_songend := True\<rparr>)
     else if cmd = 16 then bam_start_note c s
     else if cmd = 32 then Some ((if c < 9 then opl_write (0xb0 + int c) 0 s else s)\<lparr>bam_pos := bam_pos s + 1\<rparr>)
     else if cmd = 48 then bam_instrument c s
     else if cmd = 80 then
       bam_set_label c (\<lambda>l. l\<lparr>bl_target := bam_pos s + 1, bl_defined := True\<rparr>) (s\<lparr>bam_pos := bam_pos s + 1\<rparr>)
     else if cmd = 96 then bam_jump c s
     else if cmd = 112 then
       Some (if bam_chorus s then s\<lparr>bam_pos := bam_gosub s, bam_chorus := False\<rparr> else s\<lparr>bam_pos := bam_pos s + 1\<rparr>)
     else Some (s\<lparr>bam_pos := bam_pos s + 1\<rparr>)
   }"

partial_function (option) bam_commands :: "'a bam_player_scheme \<Rightarrow> 'a bam_player_scheme option" where
  "bam_commands s = do {
     b \<leftarrow> bam_at 0 s;
     if b < 128 then do { s \<leftarrow> bam_command s; bam_commands s } else Some s
   }"

definition bam_update :: "'a bam_player_scheme \<Rightarrow> (bool \<times> 'a bam_player_scheme) option" where
  "bam_update s =
     (if bam_del s \<noteq> 0 then let s = s\<lparr>bam_del := bam_del s - 1\<rparr> in Some (\<not> bam_songend s, s)
      else do {
        let s = (if bam_size s \<le> bam_pos s then s\<lparr>bam_pos := 0, bam_songend := True\<rparr> else s);
        s \<leftarrow> bam_commands s;
        b \<leftarrow> bam_at 0 s;
        let s = (if 128 \<le> b then s\<lparr>bam_del := b - 127, bam_pos := bam_pos s + 1\<rparr> else s);
        Some (\<not> bam_songend s, s)
      })"

section \<open>Songs with loops\<close>

text \<open>
  What a song is made of: notes, instruments, pauses and loops that play their body \<open>k\<close> times more. A loop is
  its label, its body and the jump back.
\<close>

datatype bam_item =
  Note nat u8 | Release nat | Instrument nat bytes | Pause nat | Repeat nat nat "bam_item list"

fun bam_code :: "bam_item \<Rightarrow> bytes" where
  "bam_code (Note c n) = [of_nat (16 + c), n]"
| "bam_code (Release c) = [of_nat (32 + c)]"
| "bam_code (Instrument c bs) = of_nat (48 + c) # bs"
| "bam_code (Pause d) = [of_nat (127 + d)]"
| "bam_code (Repeat l k body) = of_nat (80 + l) # concat (map bam_code body) @ [of_nat (96 + l), of_nat k]"

text \<open>The loops inside a loop must use other labels, as the label holds the counter.\<close>

fun bam_valid :: "nat set \<Rightarrow> bam_item \<Rightarrow> bool" where
  "bam_valid L (Note c n) = (c < 9 \<and> unat n < length bam_freq)"
| "bam_valid L (Release c) = (c < 9)"
| "bam_valid L (Instrument c bs) = (c < 9 \<and> length bs = 11)"
| "bam_valid L (Pause d) = (1 \<le> d \<and> d \<le> 128)"
| "bam_valid L (Repeat l k body) = (l < 16 \<and> l \<notin> L \<and> 1 \<le> k \<and> k \<le> 253 \<and> (\<forall>i \<in> set body. bam_valid (insert l L) i))"

text \<open>What it means: register writes, and pauses of a number of ticks.\<close>

datatype bam_act = Send opl_event | Idle nat

fun bam_acts :: "bam_item \<Rightarrow> bam_act list" where
  "bam_acts (Note c n) =
     (let f = bam_freq ! unat n
      in [Send (OplWrite (0xa0 + int c) (f AND 255)), Send (OplWrite (0xb0 + int c) (drop_bit 8 f + 32))])"
| "bam_acts (Release c) = [Send (OplWrite (0xb0 + int c) 0)]"
| "bam_acts (Instrument c bs) =
     map (\<lambda>(base, v). Send (OplWrite (base + op_table ! c) (uint v)))
       (zip [0x20, 0x23, 0x40, 0x43, 0x60, 0x63, 0x80, 0x83, 0xe0, 0xe3] bs) @ [Send (OplWrite (0xc0 + int c) (uint (bs ! 10)))]"
| "bam_acts (Pause d) = [Idle d]"
| "bam_acts (Repeat l k body) = concat (replicate (Suc k) (concat (map bam_acts body)))"

section \<open>Runs of commands\<close>

inductive bam_runs :: "'a bam_player_scheme \<Rightarrow> bam_act list \<Rightarrow> 'a bam_player_scheme \<Rightarrow> bool" where
  stay: "bam_runs s [] s"
| command: "bam_at 0 s = Some b \<Longrightarrow> b < 128 \<Longrightarrow> bam_command s = Some u \<Longrightarrow> opl_out u = opl_out s @ es \<Longrightarrow> bam_runs u as t \<Longrightarrow>
    as' = map Send es @ as \<Longrightarrow> bam_runs s as' t"
| pause: "bam_at 0 s = Some b \<Longrightarrow> 128 \<le> b \<Longrightarrow> bam_runs (s\<lparr>bam_pos := bam_pos s + 1\<rparr>) as t \<Longrightarrow>
    bam_runs s (Idle (unat b - 127) # as) t"

lemma bam_runs_append: "bam_runs s as t \<Longrightarrow> bam_runs t bs u \<Longrightarrow> bam_runs s (as @ bs) u"
proof (induction rule: bam_runs.induct)
  case (command s b u es as t as')
  then show ?case by (auto intro: bam_runs.command)
qed (auto intro: bam_runs.intros)

lemma bam_runs_command:
  "bam_at 0 s = Some b \<Longrightarrow> b < 128 \<Longrightarrow> bam_command s = Some u \<Longrightarrow> opl_out u = opl_out s @ es \<Longrightarrow> bam_runs s (map Send es) u"
  by (rule bam_runs.command [OF _ _ _ _ stay]) auto

definition bam_counts :: "nat set \<Rightarrow> 'a bam_player_scheme \<Rightarrow> bool" where
  "bam_counts L s \<longleftrightarrow> length (bam_labels s) = 16 \<and> (\<forall>l < 16. l \<notin> L \<longrightarrow> bl_count (bam_labels s ! l) = 255)"

definition bam_same :: "nat set \<Rightarrow> 'a bam_player_scheme \<Rightarrow> 'a bam_player_scheme \<Rightarrow> bool" where
  "bam_same L s t \<longleftrightarrow> bam_song t = bam_song s \<and> bam_size t = bam_size s \<and> bam_del t = bam_del s \<and>
     bam_songend t = bam_songend s \<and> (\<forall>l \<in> L. bam_labels t ! l = bam_labels s ! l)"

text \<open>From a state in which the code of some items lies ahead, they are run, up to the position behind it.\<close>

definition bam_does :: "nat set \<Rightarrow> bytes \<Rightarrow> bam_act list \<Rightarrow> bool" where
  "bam_does L code as \<longleftrightarrow>
     (\<forall>s :: bam_player. bam_counts L s \<longrightarrow> take (length code) (drop (bam_pos s) (bam_song s)) = code \<longrightarrow>
        (\<exists>t. bam_runs s as t \<and> bam_counts L t \<and> bam_same L s t \<and> bam_pos t = bam_pos s + length code))"

text \<open>The bytes ahead.\<close>

definition bam_ahead :: "bytes \<Rightarrow> 'a bam_player_scheme \<Rightarrow> bool" where
  "bam_ahead code s \<longleftrightarrow> take (length code) (drop (bam_pos s) (bam_song s)) = code"

lemma bam_ahead_at: "bam_ahead code s \<Longrightarrow> i < length code \<Longrightarrow> bam_at i s = Some (code ! i)"
proof -
  assume a: "bam_ahead code s" "i < length code"
  have l: "length code \<le> length (bam_song s) - bam_pos s"
    using arg_cong [OF a(1) [unfolded bam_ahead_def], of length] by simp
  moreover have "code ! i = drop (bam_pos s) (bam_song s) ! i" using a by (metis bam_ahead_def nth_take)
  ultimately show ?thesis using a(2) by (simp add: bam_at_def rd_def)
qed

lemma bam_ahead_append:
  "bam_ahead (xs @ ys) s \<longleftrightarrow> bam_ahead xs s \<and> bam_ahead ys (s\<lparr>bam_pos := bam_pos s + length xs\<rparr>)"
proof -
  have "take (length xs + length ys) z = xs @ ys \<longleftrightarrow> take (length xs) z = xs \<and> take (length ys) (drop (length xs) z) = ys" for z :: bytes
  proof
    assume e: "take (length xs + length ys) z = xs @ ys"
    have "take (length xs) z = take (length xs) (take (length xs + length ys) z)" by simp
    moreover have "take (length ys) (drop (length xs) z) = drop (length xs) (take (length xs + length ys) z)" by (simp add: drop_take)
    ultimately show "take (length xs) z = xs \<and> take (length ys) (drop (length xs) z) = ys" unfolding e by simp
  qed (simp add: take_add)
  then show ?thesis by (simp add: bam_ahead_def add.commute)
qed

lemma bam_ahead_pos: "bam_song t = bam_song s \<Longrightarrow> bam_pos t = bam_pos s \<Longrightarrow> bam_ahead xs t = bam_ahead xs s"
  by (simp add: bam_ahead_def)

lemma bam_same_trans: "bam_same L s t \<Longrightarrow> bam_same L t u \<Longrightarrow> bam_same L s u"
  by (simp add: bam_same_def)

lemma bam_does_Nil: "bam_does L [] []"
  unfolding bam_does_def using bam_runs.stay by (force simp: bam_same_def)

lemma bam_does_append:
  assumes "bam_does L xs as" "bam_does L ys bs"
  shows "bam_does L (xs @ ys) (as @ bs)"
  unfolding bam_does_def
proof (intro allI impI)
  fix s :: bam_player
  assume c: "bam_counts L s" and "take (length (xs @ ys)) (drop (bam_pos s) (bam_song s)) = xs @ ys"
  then have a: "bam_ahead xs s" "bam_ahead ys (s\<lparr>bam_pos := bam_pos s + length xs\<rparr>)"
    using bam_ahead_append [of xs ys s] by (simp_all add: bam_ahead_def [of "xs @ ys"])
  obtain t where t: "bam_runs s as t" "bam_counts L t" "bam_same L s t" "bam_pos t = bam_pos s + length xs"
    using assms(1) c a(1) by (force simp: bam_does_def bam_ahead_def)
  have "bam_ahead ys t" using a(2) t(3,4) bam_ahead_pos [of t "s\<lparr>bam_pos := bam_pos s + length xs\<rparr>" ys] by (simp add: bam_same_def)
  then obtain u where u: "bam_runs t bs u" "bam_counts L u" "bam_same L t u"
      "bam_pos u = bam_pos t + length ys"
    using assms(2) t(2) by (force simp: bam_does_def bam_ahead_def)
  then show "\<exists>t. bam_runs s (as @ bs) t \<and> bam_counts L t \<and> bam_same L s t \<and> bam_pos t = bam_pos s + length (xs @ ys)"
    using bam_runs_append [OF t(1) u(1)] bam_same_trans [OF t(3) u(3)] t(4) u(2,4) by (intro exI [of _ u]) simp
qed

text \<open>A command that moves on by its length and leaves the labels alone.\<close>

lemma bam_does_command:
  assumes "\<And>s :: bam_player. bam_ahead code s \<Longrightarrow>
      bam_command s = Some (s\<lparr>opl_out := opl_out s @ es, bam_pos := bam_pos s + length code\<rparr>)"
    "code \<noteq> []" "hd code < 128"
  shows "bam_does L code (map Send es)"
  unfolding bam_does_def
proof (intro allI impI)
  fix s :: bam_player
  assume c: "bam_counts L s" and "take (length code) (drop (bam_pos s) (bam_song s)) = code"
  then have a: "bam_ahead code s" by (simp add: bam_ahead_def)
  let ?t = "s\<lparr>opl_out := opl_out s @ es, bam_pos := bam_pos s + length code\<rparr>"
  have "bam_at 0 s = Some (hd code)" using bam_ahead_at [OF a] assms(2) by (simp add: hd_conv_nth)
  from bam_runs_command [OF this assms(3) assms(1) [OF a]] have "bam_runs s (map Send es) ?t" by simp
  moreover have "bam_counts L ?t" "bam_same L s ?t" using c by (simp_all add: bam_counts_def bam_same_def)
  ultimately show "\<exists>t. bam_runs s (map Send es) t \<and> bam_counts L t \<and> bam_same L s t \<and> bam_pos t = bam_pos s + length code"
    by (intro exI [of _ ?t]) simp
qed

text \<open>The parts of a command byte.\<close>

lemma bam_bytes: "list_all (\<lambda>n. (of_nat n :: u8) AND 240 = of_nat (16 * (n div 16)) \<and>
    unat ((of_nat n :: u8) AND 15) = n mod 16 \<and> (of_nat n :: u8) < 128) [0..<128]"
  by code_simp

lemma bam_parts:
  assumes "c < 16" "k < 8"
  shows "(of_nat (16 * k + c) :: u8) AND 240 = of_nat (16 * k)" "unat ((of_nat (16 * k + c) :: u8) AND 15) = c"
    "(of_nat (16 * k + c) :: u8) < 128"
proof -
  have n: "16 * k + c < 128" "(16 * k + c) div 16 = k" "(16 * k + c) mod 16 = c" using assms by auto
  then have "[0..<128] ! (16 * k + c) = 16 * k + c" by (simp del: upt_conv_Cons_Cons upt.simps)
  then show "(of_nat (16 * k + c) :: u8) AND 240 = of_nat (16 * k)" "unat ((of_nat (16 * k + c) :: u8) AND 15) = c"
    "(of_nat (16 * k + c) :: u8) < 128"
    using bam_bytes [unfolded list_all_length, rule_format, of "16 * k + c"] n by (simp_all del: of_nat_add of_nat_mult)
qed

lemma bam_does_note: "c < 9 \<Longrightarrow> unat n < length bam_freq \<Longrightarrow> bam_does L (bam_code (Note c n)) (bam_acts (Note c n))"
proof -
  assume c: "c < 9" "unat n < length bam_freq"
  let ?f = "bam_freq ! unat n"
  have "bam_does L [of_nat (16 + c), n] (map Send [OplWrite (0xa0 + int c) (?f AND 255), OplWrite (0xb0 + int c) (drop_bit 8 ?f + 32)])"
  proof (rule bam_does_command)
    fix s :: bam_player
    assume a: "bam_ahead [of_nat (16 + c), n] s"
    show "bam_command s = Some (s\<lparr>opl_out := opl_out s @ [OplWrite (0xa0 + int c) (?f AND 255), OplWrite (0xb0 + int c) (drop_bit 8 ?f + 32)],
        bam_pos := bam_pos s + length [of_nat (16 + c) :: u8, n]\<rparr>)"
      using bam_ahead_at [OF a, of 0] bam_ahead_at [OF a, of 1] c bam_parts [of c 1]
      by (simp add: bam_command_def Let_def bam_start_note_def opl_calls access_simps del: of_nat_add)
  qed (use c bam_parts [of c 1] in simp_all)
  then show ?thesis by (simp add: Let_def)
qed

lemma bam_does_release: "c < 9 \<Longrightarrow> bam_does L (bam_code (Release c)) (bam_acts (Release c))"
proof -
  assume c: "c < 9"
  have "bam_does L [of_nat (32 + c)] (map Send [OplWrite (0xb0 + int c) 0])"
  proof (rule bam_does_command)
    fix s :: bam_player
    assume a: "bam_ahead [of_nat (32 + c)] s"
    show "bam_command s = Some (s\<lparr>opl_out := opl_out s @ [OplWrite (0xb0 + int c) 0], bam_pos := bam_pos s + length [of_nat (32 + c) :: u8]\<rparr>)"
      using bam_ahead_at [OF a, of 0] c bam_parts [of c 2] by (simp add: bam_command_def Let_def opl_calls del: of_nat_add)
  qed (use c bam_parts [of c 2] in simp_all)
  then show ?thesis by simp
qed

lemma bam_does_instrument:
  assumes c: "c < 9" "length bs = 11"
  shows "bam_does L (bam_code (Instrument c bs)) (bam_acts (Instrument c bs))"
proof -
  have "\<exists>b0 b1 b2 b3 b4 b5 b6 b7 b8 b9 b10. bs = [b0, b1, b2, b3, b4, b5, b6, b7, b8, b9, b10]"
    using c(2) by (auto simp: length_Suc_conv eval_nat_numeral)
  then obtain b0 b1 b2 b3 b4 b5 b6 b7 b8 b9 b10 where bs: "bs = [b0, b1, b2, b3, b4, b5, b6, b7, b8, b9, b10]" by blast
  let ?o = "op_table ! c"
  let ?es = "[OplWrite (0x20 + ?o) (uint b0), OplWrite (0x23 + ?o) (uint b1), OplWrite (0x40 + ?o) (uint b2), OplWrite (0x43 + ?o) (uint b3),
    OplWrite (0x60 + ?o) (uint b4), OplWrite (0x63 + ?o) (uint b5), OplWrite (0x80 + ?o) (uint b6), OplWrite (0x83 + ?o) (uint b7),
    OplWrite (0xe0 + ?o) (uint b8), OplWrite (0xe3 + ?o) (uint b9), OplWrite (0xc0 + int c) (uint b10)]"
  let ?code = "of_nat (48 + c) # bs"
  have "bam_does L ?code (map Send ?es)"
  proof (rule bam_does_command)
    fix s :: bam_player
    assume a: "bam_ahead ?code s"
    have at: "bam_at i (s\<lparr>opl_out := es\<rparr>) = Some (?code ! i)" if "i < 12" for i es
      using bam_ahead_at [OF a, of i] that c(2) by (simp add: bam_at_def)
    show "bam_command s = Some (s\<lparr>opl_out := opl_out s @ ?es, bam_pos := bam_pos s + length ?code\<rparr>)"
      using bam_ahead_at [OF a] at c bam_parts [of c 3] bs
      by (simp add: bam_command_def Let_def bam_instrument_def opl_calls access_simps del: of_nat_add)
  qed (use c bam_parts [of c 3] in simp_all)
  then show ?thesis using bs by simp
qed

lemma bam_does_pause: "1 \<le> d \<Longrightarrow> d \<le> 128 \<Longrightarrow> bam_does L (bam_code (Pause d)) (bam_acts (Pause d))"
  unfolding bam_does_def
proof (intro allI impI)
  fix s :: bam_player
  assume d: "1 \<le> d" "d \<le> 128" and c: "bam_counts L s"
    and "take (length (bam_code (Pause d))) (drop (bam_pos s) (bam_song s)) = bam_code (Pause d)"
  then have a: "bam_ahead [of_nat (127 + d)] s" by (simp add: bam_ahead_def)
  have u: "unat (of_nat (127 + d) :: u8) = 127 + d" using d by (simp add: unat_of_nat del: of_nat_add)
  then have "128 \<le> (of_nat (127 + d) :: u8)" using d by (simp add: word_le_nat_alt del: of_nat_add)
  from bam_runs.pause [OF bam_ahead_at [OF a, of 0, simplified nth_Cons_0] this stay]
  have "bam_runs s [Idle d] (s\<lparr>bam_pos := bam_pos s + 1\<rparr>)" unfolding u by simp
  moreover have "bam_counts L (s\<lparr>bam_pos := bam_pos s + 1\<rparr>)" "bam_same L s (s\<lparr>bam_pos := bam_pos s + 1\<rparr>)"
    using c by (simp_all add: bam_counts_def bam_same_def)
  ultimately show "\<exists>t. bam_runs s (bam_acts (Pause d)) t \<and> bam_counts L t \<and> bam_same L s t \<and>
      bam_pos t = bam_pos s + length (bam_code (Pause d))"
    by (intro exI [of _ "s\<lparr>bam_pos := bam_pos s + 1\<rparr>"]) simp
qed

text \<open>The jump of a loop, and the passes that are left when its label holds a count.\<close>

lemma bam_jump_eq:
  assumes a: "bam_ahead [of_nat (96 + l), of_nat k] v" and l: "l < 16" "length (bam_labels v) = 16"
    and lab: "bam_labels v ! l = \<lparr>bl_target = p, bl_defined = True, bl_count = m\<rparr>" and k: "1 \<le> k" "k \<le> 253"
  shows "bam_at 0 v = Some (of_nat (96 + l))" "(of_nat (96 + l) :: u8) < 128"
    "bam_command v = Some (if m = 0
       then v\<lparr>bam_labels := (bam_labels v)[l := \<lparr>bl_target = p, bl_defined = True, bl_count = 255\<rparr>], bam_pos := bam_pos v + 2\<rparr>
       else v\<lparr>bam_labels := (bam_labels v)[l := \<lparr>bl_target = p, bl_defined = True, bl_count = (if m < 255 then m - 1 else of_nat k - 1)\<rparr>],
           bam_pos := p\<rparr>)"
proof -
  have at: "bam_at 0 v = Some (of_nat (96 + l))" "bam_at 1 v = Some (of_nat k)"
    using bam_ahead_at [OF a, of 0] bam_ahead_at [OF a, of 1] by simp_all
  then show "bam_at 0 v = Some (of_nat (96 + l))" by simp
  show "(of_nat (96 + l) :: u8) < 128" using bam_parts [of l 6] l(1) by simp
  have u: "unat (of_nat k :: u8) = k" using k by (simp add: unat_of_nat)
  have nk: "(of_nat k :: u8) \<noteq> 254" "(of_nat k :: u8) \<noteq> 255" "(of_nat k :: u8) \<noteq> 0"
    using k u by (auto simp: word_unat_eq_iff)
  show "bam_command v = Some (if m = 0
       then v\<lparr>bam_labels := (bam_labels v)[l := \<lparr>bl_target = p, bl_defined = True, bl_count = 255\<rparr>], bam_pos := bam_pos v + 2\<rparr>
       else v\<lparr>bam_labels := (bam_labels v)[l := \<lparr>bl_target = p, bl_defined = True, bl_count = (if m < 255 then m - 1 else of_nat k - 1)\<rparr>],
           bam_pos := p\<rparr>)"
    using at nk l lab bam_parts [of l 6]
    by (simp add: bam_command_def Let_def bam_jump_def bam_set_label_def access_simps del: of_nat_add)
qed

definition bam_in_loop :: "nat \<Rightarrow> nat set \<Rightarrow> bytes \<Rightarrow> nat \<Rightarrow> u8 \<Rightarrow> bam_player \<Rightarrow> bool" where
  "bam_in_loop l L code k m u \<longleftrightarrow> bam_ahead (code @ [of_nat (96 + l), of_nat k]) u \<and> bam_counts (insert l L) u \<and>
     bam_labels u ! l = \<lparr>bl_target = bam_pos u, bl_defined = True, bl_count = m\<rparr>"

lemma bam_pass:
  assumes body: "bam_does (insert l L) code as" and l: "l < 16" "l \<notin> L" and k: "1 \<le> k" "k \<le> 253"
    and u: "bam_in_loop l L code k m u"
  shows "if m = 0 then \<exists>t. bam_runs u as t \<and> bam_counts L t \<and> bam_same L u t \<and> bam_pos t = bam_pos u + length code + 2
    else \<exists>t. bam_runs u as t \<and> bam_in_loop l L code k (if m < 255 then m - 1 else of_nat k - 1) t \<and> bam_same L u t \<and>
      bam_pos t = bam_pos u"
proof -
  have a: "bam_ahead code u" "bam_ahead [of_nat (96 + l), of_nat k] (u\<lparr>bam_pos := bam_pos u + length code\<rparr>)"
    using u by (simp_all add: bam_in_loop_def bam_ahead_append)
  obtain v where v: "bam_runs u as v" "bam_counts (insert l L) v" "bam_same (insert l L) u v" "bam_pos v = bam_pos u + length code"
    using body a(1) u by (force simp: bam_does_def bam_ahead_def bam_in_loop_def)
  have a': "bam_ahead [of_nat (96 + l), of_nat k] v"
    using a(2) v(3,4) bam_ahead_pos [of v "u\<lparr>bam_pos := bam_pos u + length code\<rparr>"] by (simp add: bam_same_def)
  have lab: "bam_labels v ! l = \<lparr>bl_target = bam_pos u, bl_defined = True, bl_count = m\<rparr>"
    using v(3) u by (simp add: bam_same_def bam_in_loop_def)
  have len: "length (bam_labels v) = 16" using v(2) by (simp add: bam_counts_def)
  note j = bam_jump_eq [OF a' l(1) len lab k]
  have other: "\<forall>x \<in> L. l \<noteq> x" using l(2) by blast
  show ?thesis
  proof (cases "m = 0")
    case True
    let ?t = "v\<lparr>bam_labels := (bam_labels v)[l := \<lparr>bl_target = bam_pos u, bl_defined = True, bl_count = 255\<rparr>], bam_pos := bam_pos v + 2\<rparr>"
    have "bam_runs v (map Send []) ?t" by (rule bam_runs_command [OF j(1,2)]) (use j(3) True in simp_all)
    then have "bam_runs u as ?t" using bam_runs_append [OF v(1)] by fastforce
    moreover have "bam_counts L ?t" using v(2) len l(1) by (auto simp: bam_counts_def nth_list_update)
    moreover have "bam_same L u ?t" using v(3) other by (simp add: bam_same_def)
    ultimately show ?thesis using True v(4) by (simp, intro exI [of _ ?t]) simp
  next
    case False
    let ?m = "if m < 255 then m - 1 else of_nat k - 1"
    let ?t = "v\<lparr>bam_labels := (bam_labels v)[l := \<lparr>bl_target = bam_pos u, bl_defined = True, bl_count = ?m\<rparr>], bam_pos := bam_pos u\<rparr>"
    have "bam_runs v (map Send []) ?t" by (rule bam_runs_command [OF j(1,2)]) (use j(3) False in simp_all)
    then have "bam_runs u as ?t" using bam_runs_append [OF v(1)] by fastforce
    moreover have "bam_in_loop l L code k ?m ?t"
      using u v(2,3) len l(1) bam_ahead_pos [of ?t u] by (auto simp: bam_in_loop_def bam_counts_def bam_same_def nth_list_update)
    moreover have "bam_same L u ?t" using v(3) other by (simp add: bam_same_def)
    moreover have "bam_pos ?t = bam_pos u" by simp
    ultimately show ?thesis unfolding if_not_P [OF False] by blast
  qed
qed

lemma bam_passes:
  assumes body: "bam_does (insert l L) code as" and l: "l < 16" "l \<notin> L" and k: "1 \<le> k" "k \<le> 253"
  shows "m \<le> 252 \<Longrightarrow> bam_in_loop l L code k (of_nat m) u \<Longrightarrow>
    \<exists>t. bam_runs u (concat (replicate (Suc m) as)) t \<and> bam_counts L t \<and> bam_same L u t \<and> bam_pos t = bam_pos u + length code + 2"
proof (induction m arbitrary: u)
  case 0
  then show ?case using bam_pass [OF body l k, of 0 u] by simp
next
  case (Suc m)
  have u: "unat (of_nat (Suc m) :: u8) = Suc m" using Suc.prems(1) by (simp add: unat_of_nat del: of_nat_Suc)
  then have m: "(of_nat (Suc m) :: u8) \<noteq> 0" "(of_nat (Suc m) :: u8) < 255" "(of_nat (Suc m) :: u8) - 1 = of_nat m"
    using Suc.prems(1) by (auto simp: word_unat_eq_iff word_less_nat_alt simp del: of_nat_Suc) simp
  then obtain t where t: "bam_runs u as t" "bam_in_loop l L code k (of_nat m) t" "bam_same L u t" "bam_pos t = bam_pos u"
    using bam_pass [OF body l k Suc.prems(2)] by (auto simp del: of_nat_Suc)
  obtain v where v: "bam_runs t (concat (replicate (Suc m) as)) v" "bam_counts L v" "bam_same L t v" "bam_pos v = bam_pos t + length code + 2"
    using Suc.IH [OF _ t(2)] Suc.prems(1) by auto
  have "bam_runs u (concat (replicate (Suc (Suc m)) as)) v" using bam_runs_append [OF t(1) v(1)] by simp
  then show ?case using v(2,4) t(4) bam_same_trans [OF t(3) v(3)] by (intro exI [of _ v]) simp
qed

lemma bam_does_repeat:
  assumes body: "bam_does (insert l L) (concat (map bam_code body)) (concat (map bam_acts body))"
    and l: "l < 16" "l \<notin> L" and k: "1 \<le> k" "k \<le> 253"
  shows "bam_does L (bam_code (Repeat l k body)) (bam_acts (Repeat l k body))"
  unfolding bam_does_def
proof (intro allI impI)
  fix s :: bam_player
  let ?B = "concat (map bam_code body)" and ?as = "concat (map bam_acts body)"
  assume c: "bam_counts L s" and "take (length (bam_code (Repeat l k body))) (drop (bam_pos s) (bam_song s)) = bam_code (Repeat l k body)"
  then have "bam_ahead ([of_nat (80 + l)] @ (?B @ [of_nat (96 + l), of_nat k])) s" by (simp add: bam_ahead_def)
  then have a: "bam_ahead [of_nat (80 + l)] s" "bam_ahead (?B @ [of_nat (96 + l), of_nat k]) (s\<lparr>bam_pos := bam_pos s + 1\<rparr>)"
    using bam_ahead_append [of "[of_nat (80 + l)]" "?B @ [of_nat (96 + l), of_nat k]" s] by simp_all
  have len: "length (bam_labels s) = 16" "bl_count (bam_labels s ! l) = 255" using c l by (simp_all add: bam_counts_def)
  let ?u = "s\<lparr>bam_labels := (bam_labels s)[l := (bam_labels s ! l)\<lparr>bl_target := bam_pos s + 1, bl_defined := True\<rparr>], bam_pos := bam_pos s + 1\<rparr>"
  have "bam_command s = Some ?u"
    using bam_ahead_at [OF a(1), of 0] bam_parts [of l 5] l(1) len
    by (simp add: bam_command_def Let_def bam_set_label_def access_simps del: of_nat_add)
  then have "bam_runs s (map Send []) ?u"
    by (intro bam_runs_command [of s "of_nat (80 + l)"]) (use bam_ahead_at [OF a(1), of 0] bam_parts [of l 5] l(1) in simp_all)
  then have r: "bam_runs s [] ?u" by simp
  have "\<forall>x \<in> L. x \<noteq> l" using l(2) by blast
  then have same: "bam_same L s ?u" by (auto simp: bam_same_def)
  have loop: "bam_in_loop l L ?B k 255 ?u"
    using a(2) c l len bam_ahead_pos [of ?u "s\<lparr>bam_pos := bam_pos s + 1\<rparr>"]
    by (auto simp: bam_in_loop_def bam_counts_def nth_list_update)
  obtain t where t: "bam_runs ?u ?as t" "bam_in_loop l L ?B k (of_nat k - 1) t" "bam_same L ?u t" "bam_pos t = bam_pos ?u"
    using bam_pass [OF body l k loop] by auto
  moreover have "(of_nat k - 1 :: u8) = of_nat (k - 1)" "k - 1 \<le> 252" using k by simp_all
  ultimately obtain v where v: "bam_runs t (concat (replicate (Suc (k - 1)) ?as)) v" "bam_counts L v" "bam_same L t v" "bam_pos v = bam_pos t + length ?B + 2"
    using bam_passes [OF body l k, of "k - 1" t] by (metis (no_types, lifting))
  have "bam_runs s (bam_acts (Repeat l k body)) v"
    using bam_runs_append [OF r bam_runs_append [OF t(1) v(1)]] k(1) by simp
  then show "\<exists>t. bam_runs s (bam_acts (Repeat l k body)) t \<and> bam_counts L t \<and> bam_same L s t \<and>
      bam_pos t = bam_pos s + length (bam_code (Repeat l k body))"
    using v(2,4) t(4) bam_same_trans [OF same bam_same_trans [OF t(3) v(3)]] by (intro exI [of _ v]) simp
qed

lemma bam_does_items: "(\<And>i. i \<in> set is \<Longrightarrow> bam_does L (bam_code i) (bam_acts i)) \<Longrightarrow>
    bam_does L (concat (map bam_code is)) (concat (map bam_acts is))"
  by (induction "is") (simp_all add: bam_does_Nil bam_does_append)

lemma bam_does_item: "bam_valid L i \<Longrightarrow> bam_does L (bam_code i) (bam_acts i)"
proof (induction L i rule: bam_valid.induct)
  case (5 L l k body)
  have "bam_does (insert l L) (concat (map bam_code body)) (concat (map bam_acts body))"
    by (rule bam_does_items) (use 5 in simp)
  then show ?case by (rule bam_does_repeat) (use 5 in simp_all)
qed (simp_all add: bam_does_note bam_does_release bam_does_instrument bam_does_pause del: bam_code.simps bam_acts.simps)

section \<open>Ticks\<close>

definition bam_frame :: "'a bam_player_scheme \<Rightarrow> 'a bam_player_scheme \<Rightarrow> bool" where
  "bam_frame s t \<longleftrightarrow> bam_song t = bam_song s \<and> bam_size t = bam_size s \<and> bam_del t = bam_del s \<and> (bam_songend s \<longrightarrow> bam_songend t)"

lemma bam_frame_trans: "bam_frame s t \<Longrightarrow> bam_frame t u \<Longrightarrow> bam_frame s u"
  by (simp add: bam_frame_def)

lemma bam_command_frame: "bam_command s = Some t \<Longrightarrow> bam_frame s t"
proof -
  have set: "bam_set_label c g s = Some t \<Longrightarrow> bam_frame s t" for c g and s t :: "'a bam_player_scheme"
    by (auto simp: bam_set_label_def bam_frame_def split: bind_splits)
  have jump: "bam_jump c s = Some t \<Longrightarrow> bam_frame s t" for c
    by (auto simp: bam_jump_def split: bind_splits if_splits dest!: set) (simp_all add: bam_frame_def)
  have start: "bam_start_note c s = Some t \<Longrightarrow> bam_frame s t" for c
    by (auto simp: bam_start_note_def bam_frame_def opl_calls split: bind_splits if_splits)
  have inst: "bam_instrument c s = Some t \<Longrightarrow> bam_frame s t" for c
    by (auto simp: bam_instrument_def bam_frame_def opl_calls split: bind_splits if_splits)
  show "bam_command s = Some t \<Longrightarrow> bam_frame s t"
    using set [of _ _ "s\<lparr>bam_pos := bam_pos s + 1\<rparr>"] jump start inst
    by (auto simp: bam_command_def Let_def opl_calls split: bind_splits if_splits) (simp_all add: bam_frame_def)
qed

text \<open>The writes before the first pause, and what comes behind it; all writes; and the ticks of all pauses.\<close>

fun bam_split :: "bam_act list \<Rightarrow> opl_event list \<times> (nat \<times> bam_act list) option" where
  "bam_split [] = ([], None)"
| "bam_split (Send e # as) = (e # fst (bam_split as), snd (bam_split as))"
| "bam_split (Idle d # as) = ([], Some (d, as))"

fun bam_sends :: "bam_act list \<Rightarrow> opl_event list" where
  "bam_sends [] = []"
| "bam_sends (Send e # as) = e # bam_sends as"
| "bam_sends (Idle d # as) = bam_sends as"

fun bam_ticks :: "bam_act list \<Rightarrow> nat" where
  "bam_ticks [] = 0"
| "bam_ticks (Send e # as) = bam_ticks as"
| "bam_ticks (Idle d # as) = Suc d + bam_ticks as"

lemma bam_split_sends: "bam_split (map Send es @ as) = (es @ fst (bam_split as), snd (bam_split as))"
  by (induction es) simp_all

lemma bam_split_None: "snd (bam_split as) = None \<Longrightarrow> fst (bam_split as) = bam_sends as \<and> bam_ticks as = 0"
  by (induction as rule: bam_split.induct) simp_all

lemma bam_split_Some:
  "snd (bam_split as) = Some (d, bs) \<Longrightarrow> bam_sends as = fst (bam_split as) @ bam_sends bs \<and> bam_ticks as = Suc d + bam_ticks bs \<and>
    length bs < length as"
  by (induction as rule: bam_split.induct) auto

lemma bam_split_pause: "Idle d \<in> set as \<Longrightarrow> \<exists>e bs. snd (bam_split as) = Some (e, bs)"
  by (induction as rule: bam_split.induct) auto

lemma bam_commands_step: "bam_at 0 s = Some b \<Longrightarrow> b < 128 \<Longrightarrow> bam_command s = Some u \<Longrightarrow> bam_commands s = bam_commands u"
  by (subst bam_commands.simps) simp

text \<open>A run up to its first pause.\<close>

lemma bam_runs_quiet:
  "bam_runs s as t \<Longrightarrow> snd (bam_split as) = None \<Longrightarrow>
   bam_commands s = bam_commands t \<and> opl_out t = opl_out s @ bam_sends as \<and> bam_frame s t"
proof (induction rule: bam_runs.induct)
  case (command s b u es as t as')
  then have q: "snd (bam_split as) = None" by (simp add: bam_split_sends)
  have "bam_sends as' = es @ bam_sends as" unfolding \<open>as' = _\<close> by (induction es) simp_all
  then show ?case
    using command.IH [OF q] command.hyps(4) bam_commands_step [OF command.hyps(1-3)]
      bam_frame_trans [OF bam_command_frame [OF command.hyps(3)]] by simp
qed (simp_all add: bam_frame_def)

lemma bam_runs_pause:
  "bam_runs s as t \<Longrightarrow> snd (bam_split as) = Some (d, bs) \<Longrightarrow>
   \<exists>u b. bam_commands s = Some u \<and> bam_frame s u \<and> opl_out u = opl_out s @ fst (bam_split as) \<and> bam_at 0 u = Some b \<and> 128 \<le> b \<and>
     unat b - 127 = d \<and> bam_runs (u\<lparr>bam_pos := bam_pos u + 1\<rparr>) bs t"
proof (induction rule: bam_runs.induct)
  case (command s b u es as t as')
  then have q: "snd (bam_split as) = Some (d, bs)" "fst (bam_split as') = es @ fst (bam_split as)" by (simp_all add: bam_split_sends)
  obtain v c where v: "bam_commands u = Some v" "bam_frame u v" "opl_out v = opl_out u @ fst (bam_split as)" "bam_at 0 v = Some c" "128 \<le> c"
    "unat c - 127 = d" "bam_runs (v\<lparr>bam_pos := bam_pos v + 1\<rparr>) bs t" using command.IH [OF q(1)] by blast
  then show ?case
    using q(2) command.hyps(4) bam_commands_step [OF command.hyps(1-3)] bam_frame_trans [OF bam_command_frame [OF command.hyps(3)] v(2)]
    by (intro exI [of _ v] exI [of _ c]) simp
next
  case (pause s b as t)
  then have "bam_commands s = Some s" by (subst bam_commands.simps) (simp add: not_less [symmetric])
  then show ?case using pause by (intro exI [of _ s] exI [of _ b]) (simp add: bam_frame_def)
qed simp

lemma bam_runs_at: "bam_runs s as t \<Longrightarrow> bam_at 0 t \<noteq> None \<Longrightarrow> bam_at 0 s \<noteq> None"
  by (induction rule: bam_runs.induct) auto

lemma bam_at_size: "bam_at 0 s \<noteq> None \<Longrightarrow> bam_size s = length (bam_song s) \<Longrightarrow> bam_pos s < bam_size s"
  by (auto simp: bam_at_def rd_def split: if_splits)

lemma bam_waits: "bam_del s = of_nat d \<Longrightarrow> d < 256 \<Longrightarrow> play bam_update d s = Some (s\<lparr>bam_del := 0\<rparr>)"
proof (induction d arbitrary: s)
  case (Suc d)
  have "(of_nat (Suc d) :: u8) \<noteq> 0" using Suc.prems(2) by (simp add: word_unat_eq_iff unat_of_nat del: of_nat_Suc)
  moreover have "bam_del s - 1 = of_nat d" using Suc.prems(1) by simp
  ultimately show ?case using Suc.IH [of "s\<lparr>bam_del := bam_del s - 1\<rparr>"] Suc.prems by (simp add: bam_update_def Let_def del: of_nat_Suc)
qed simp

lemma bam_update_pause:
  assumes "bam_runs s as t" "snd (bam_split as) = Some (d, bs)" "bam_del s = 0" "bam_pos s < bam_size s"
  shows "\<exists>u. bam_update s = Some (\<not> bam_songend u, u) \<and> bam_frame s (u\<lparr>bam_del := 0\<rparr>) \<and> bam_del u = of_nat d \<and> d < 256 \<and>
    opl_out u = opl_out s @ fst (bam_split as) \<and> bam_runs (u\<lparr>bam_del := 0\<rparr>) bs t"
proof -
  obtain u b where u: "bam_commands s = Some u" "bam_frame s u" "opl_out u = opl_out s @ fst (bam_split as)" "bam_at 0 u = Some b" "128 \<le> b"
     "unat b - 127 = d" "bam_runs (u\<lparr>bam_pos := bam_pos u + 1\<rparr>) bs t" using bam_runs_pause [OF assms(1,2)] by blast
  let ?u = "u\<lparr>bam_del := b - 127, bam_pos := bam_pos u + 1\<rparr>"
  have d: "b - 127 = of_nat d"
  proof -
    have "127 \<le> unat b" using u(5) by (simp add: word_le_nat_alt)
    then have "(of_nat d :: u8) = of_nat (unat b) - of_nat 127" using u(6) by (metis of_nat_diff)
    then show ?thesis by simp
  qed
  have "unat b < 256" by simp
  then have "d < 256" using u(6) by linarith
  moreover have "bam_update s = Some (\<not> bam_songend ?u, ?u)" using u(1,4,5) assms(3,4) by (simp add: bam_update_def Let_def)
  moreover have "?u\<lparr>bam_del := 0\<rparr> = u\<lparr>bam_pos := bam_pos u + 1\<rparr>" using u(2) assms(3) by (simp add: bam_frame_def)
  ultimately show ?thesis using u d by (intro exI [of _ ?u]) (simp add: bam_frame_def)
qed

lemma play_append: "play upd (m + n) s = Option.bind (play upd m s) (play upd n)"
  by (induction m arbitrary: s) (auto split: bind_splits)

text \<open>All ticks of a run: what is left is behind its last pause.\<close>

lemma bam_plays:
  "bam_runs s as t \<Longrightarrow> bam_del s = 0 \<Longrightarrow> bam_size s = length (bam_song s) \<Longrightarrow> bam_at 0 t \<noteq> None \<Longrightarrow>
   \<exists>u es. play bam_update (bam_ticks as) s = Some u \<and> bam_runs u es t \<and> snd (bam_split es) = None \<and> bam_frame s u \<and>
     opl_out u @ bam_sends es = opl_out s @ bam_sends as"
proof (induction "length as" arbitrary: s as rule: less_induct)
  case less
  show ?case
  proof (cases "snd (bam_split as)")
    case None
    then show ?thesis using less.prems(1) bam_split_None [OF None] by (intro exI [of _ s] exI [of _ as]) (simp add: bam_frame_def)
  next
    case (Some p)
    obtain d bs where p: "p = (d, bs)" by (metis surj_pair)
    note split = bam_split_Some [OF Some [unfolded p]]
    have pos: "bam_pos s < bam_size s" using bam_at_size [OF bam_runs_at [OF less.prems(1,4)] less.prems(3)] .
    obtain u where u: "bam_update s = Some (\<not> bam_songend u, u)" "bam_frame s (u\<lparr>bam_del := 0\<rparr>)" "bam_del u = of_nat d" "d < 256"
      "opl_out u = opl_out s @ fst (bam_split as)" "bam_runs (u\<lparr>bam_del := 0\<rparr>) bs t"
      using bam_update_pause [OF less.prems(1) Some [unfolded p] less.prems(2) pos] by blast
    have "play bam_update (Suc d) s = Some (u\<lparr>bam_del := 0\<rparr>)" using u(1) bam_waits [OF u(3,4)] by simp
    moreover obtain v es where v: "play bam_update (bam_ticks bs) (u\<lparr>bam_del := 0\<rparr>) = Some v" "bam_runs v es t" "snd (bam_split es) = None"
      "bam_frame (u\<lparr>bam_del := 0\<rparr>) v" "opl_out v @ bam_sends es = opl_out u @ bam_sends bs"
      using less.hyps [OF _ u(6)] split u(2) less.prems(2-4) by (auto simp: bam_frame_def)
    ultimately have "play bam_update (bam_ticks as) s = Some v" using split play_append [of bam_update "Suc d" "bam_ticks bs" s]
      by (simp del: play.simps)
    then show ?thesis using v split u(5) bam_frame_trans [OF u(2) v(4)] by (intro exI [of _ v] exI [of _ es]) simp
  qed
qed

section \<open>Whole songs\<close>

definition bam_items_code :: "bam_item list \<Rightarrow> bytes" where
  "bam_items_code is = concat (map bam_code is)"

definition bam_items_acts :: "bam_item list \<Rightarrow> bam_act list" where
  "bam_items_acts is = concat (map bam_acts is)"

definition bam_file :: "bam_item list \<Rightarrow> bytes" where
  "bam_file is = bytes_of ''CBMF'' @ bam_items_code is @ [0]"

lemma bam_run_items:
  fixes s :: bam_player
  assumes "\<forall>i \<in> set is. bam_valid {} i" "bam_song s = bam_items_code is @ [0]" "bam_pos s = 0" "bam_counts {} s"
  shows "\<exists>t. bam_runs s (bam_items_acts is) t \<and> bam_counts {} t \<and> bam_same {} s t \<and> bam_at 0 t = Some 0"
proof -
  have "bam_does {} (bam_items_code is) (bam_items_acts is)"
    unfolding bam_items_code_def bam_items_acts_def by (rule bam_does_items) (use assms(1) bam_does_item in blast)
  then obtain t where t: "bam_runs s (bam_items_acts is) t" "bam_counts {} t" "bam_same {} s t" "bam_pos t = length (bam_items_code is)"
    using assms(2-4) by (force simp: bam_does_def)
  moreover have "bam_at 0 t = Some 0" using t(3,4) assms(2) by (simp add: bam_at_def bam_same_def rd_def)
  ultimately show ?thesis by blast
qed

lemma bam_song_complete:
  fixes s :: bam_player
  assumes valid: "\<forall>i \<in> set is. bam_valid {} i" and pause: "Idle d \<in> set (bam_items_acts is)"
    and s: "bam_song s = bam_items_code is @ [0]" "bam_size s = length (bam_song s)" "bam_pos s = 0" "bam_del s = 0" "bam_counts {} s"
  shows "\<exists>u v. play bam_update (bam_ticks (bam_items_acts is)) s = Some u \<and> bam_update u = Some (False, v) \<and>
    opl_out v = opl_out s @ bam_sends (bam_items_acts is) @ fst (bam_split (bam_items_acts is))"
proof -
  obtain t where t: "bam_runs s (bam_items_acts is) t" "bam_counts {} t" "bam_same {} s t" "bam_at 0 t = Some 0"
    using bam_run_items [OF valid s(1,3,5)] by blast
  obtain u es where u: "play bam_update (bam_ticks (bam_items_acts is)) s = Some u" "bam_runs u es t" "snd (bam_split es) = None" "bam_frame s u"
     "opl_out u @ bam_sends es = opl_out s @ bam_sends (bam_items_acts is)"
    using bam_plays [OF t(1) s(4,2)] t(4) by auto
  let ?t = "t\<lparr>bam_pos := 0, bam_songend := True\<rparr>"
  have "bam_song ?t = bam_items_code is @ [0]" "bam_pos ?t = 0" "bam_counts {} ?t"
    using t(2,3) s(1) by (simp_all add: bam_same_def bam_counts_def)
  from bam_run_items [OF valid this] obtain w where w: "bam_runs ?t (bam_items_acts is) w" by blast
  have "bam_command t = Some ?t" using t(4) by (simp add: bam_command_def)
  then have c: "bam_commands u = bam_commands ?t" using bam_runs_quiet [OF u(2,3)] bam_commands_step [OF t(4)] by simp
  obtain e bs where "snd (bam_split (bam_items_acts is)) = Some (e, bs)" using bam_split_pause [OF pause] by blast
  from bam_runs_pause [OF w this] obtain x b where x: "bam_commands ?t = Some x" "bam_frame ?t x"
     "opl_out x = opl_out t @ fst (bam_split (bam_items_acts is))" "bam_at 0 x = Some b" "128 \<le> b" by auto
  have "bam_pos u < bam_size u"
    using bam_at_size [OF bam_runs_at [OF u(2)]] t(4) u(4) s(2) by (simp add: bam_frame_def)
  then have "bam_update u = Some (False, x\<lparr>bam_del := b - 127, bam_pos := bam_pos x + 1\<rparr>)"
    using u(4) s(4) c x by (simp add: bam_update_def Let_def bam_frame_def)
  then show ?thesis using u(1,5) x(3) bam_runs_quiet [OF u(2,3)] by simp
qed

text \<open>C13: Every song of notes, instruments, pauses and nested loops with at least one pause, written as a file of less
  than 4 GiB of music, is loaded and plays what it means: each loop its body as often as it says, each pause its
  ticks. It then reports its end and starts again. Without a pause \<open>update\<close> would not leave its loop; at 4 GiB
  \<open>load\<close> would not.\<close>

theorem bam_file_plays:
  fixes s :: bam_player
  assumes "\<forall>i \<in> set is. bam_valid {} i" "Idle d \<in> set (bam_items_acts is)" "length (bam_file is) < 2 ^ 32 + 4"
  shows "\<exists>t u v. bam_load memio (\<lambda>_. Some (mem_file (bam_file is))) mem filename s = Some (True, t) \<and>
    play bam_update (bam_ticks (bam_items_acts is)) t = Some u \<and> bam_update u = Some (False, v) \<and>
    opl_out v = opl_out s @ [OplInit, OplWrite 1 32] @ bam_sends (bam_items_acts is) @ fst (bam_split (bam_items_acts is))"
proof -
  let ?song = "bam_items_code is @ [0]"
  let ?n = "length ?song"
  have n: "length (bam_file is) = ?n + 4" by (simp add: bam_file_def bytes_of_def)
  have size: "fp_filesize memio (mem_file (bam_file is)) = (?n + 4, mem_file (bam_file is))"
    using n by (simp add: fp_filesize_def memio_def mem_file_def ms_seek_def)
  have len: "ulong (int (?n + 4) - 4) = ?n" using assms(3) n by (simp add: ulong_def)
  have start: "ms_rest (mem_file (bam_file is)) = bytes_of ''CBMF'' @ ?song" by (simp add: ms_rest_def mem_file_def bam_file_def)
  obtain g where g: "bio_readString memio 4 (fresh mem 4) (mem_file (bam_file is)) = (4, bytes_of ''CBMF'', g)" "ms_rest g = ?song @ []"
    using read_string_rest [OF start, of 4 "fresh mem 4"] by (auto simp: bytes_of_def)
  obtain h where h: "read_u8s memio ?n g = (?song, h)" using read_u8s_rest [OF g(2)] by blast
  obtain t where t: "bam_rewind 0 (s\<lparr>bam_size := ?n, bam_song := ?song\<rparr>) = Some t" "bam_song t = ?song" "bam_size t = ?n" "bam_pos t = 0"
    "bam_del t = 0" "bam_counts {} t" "opl_out t = opl_out s @ [OplInit, OplWrite 1 32]"
    by (simp add: bam_rewind_def Let_def opl_calls bam_counts_def nth_list_update)
  have load: "bam_load memio (\<lambda>_. Some (mem_file (bam_file is))) mem filename s = Some (True, t)"
    using size len g(1) h t(1) assms(3) n by (simp add: bam_load_def Let_def)
  have "bam_size t = length (bam_song t)" using t(2,3) by simp
  from bam_song_complete [OF assms(1,2) t(2) this t(4-6)] show ?thesis using load t(7) by auto
qed

lemma bam_file_plays_witness:
  "\<exists>t u v. bam_load memio (\<lambda>_. Some (mem_file (bam_file [Repeat 1 2 [Note 0 60, Pause 3], Release 0]))) (\<lambda>_. 0) ''a.bam''
      \<lparr>opl_out = [], bam_song = [], bam_del = 0, bam_pos = 0, bam_size = 0, bam_gosub = 0, bam_songend = False, bam_chorus = False,
       bam_labels = []\<rparr> = Some (True, t) \<and>
    play bam_update 12 t = Some u \<and> bam_update u = Some (False, v) \<and>
    opl_out v = [OplInit, OplWrite 1 32, OplWrite 0xa0 89, OplWrite 0xb0 49, OplWrite 0xa0 89, OplWrite 0xb0 49, OplWrite 0xa0 89,
      OplWrite 0xb0 49, OplWrite 0xb0 0, OplWrite 0xa0 89, OplWrite 0xb0 49]"
proof -
  let ?is = "[Repeat 1 2 [Note 0 60, Pause 3], Release 0]"
  have f: "bam_freq ! 60 = 4441" by (simp add: bam_freq_def)
  have three: "replicate 3 x = [x, x, x]" for x :: "bam_act list" by (simp add: numeral_3_eq_3)
  have acts: "bam_items_acts ?is =
      [Send (OplWrite 0xa0 89), Send (OplWrite 0xb0 49), Idle 3, Send (OplWrite 0xa0 89), Send (OplWrite 0xb0 49), Idle 3,
       Send (OplWrite 0xa0 89), Send (OplWrite 0xb0 49), Idle 3, Send (OplWrite 0xb0 0)]"
    by (simp add: bam_items_acts_def f three Let_def)
  have "\<forall>i \<in> set ?is. bam_valid {} i" by (simp add: bam_freq_def)
  moreover have "Idle 3 \<in> set (bam_items_acts ?is)" unfolding acts by simp
  moreover have "length (bam_file ?is) < 2 ^ 32 + 4" by (simp add: bam_file_def bam_items_code_def bytes_of_def)
  ultimately show ?thesis
    using bam_file_plays [of ?is 3 "\<lambda>_. 0" "''a.bam''" "\<lparr>opl_out = [], bam_song = [], bam_del = 0, bam_pos = 0, bam_size = 0, bam_gosub = 0,
       bam_songend = False, bam_chorus = False, bam_labels = []\<rparr>"]
    unfolding acts by simp
qed

text \<open>A jump to a label that was not set stays where it is: \<open>update\<close> never returns.\<close>

theorem bam_unset_label_never_returns:
  assumes "bam_del s = 0" "bam_pos s < bam_size s" "bam_at 0 s = Some (of_nat (96 + l))" "l < length (bam_labels s)" "l < 16"
    "\<not> bl_defined (bam_labels s ! l)"
  shows "bam_update s = None"
proof -
  have stay: "bam_command s = Some s"
    using assms(3-6) bam_parts [of l 6] by (simp add: bam_command_def Let_def bam_jump_def access_simps del: of_nat_add)
  have "bam_commands s = Some t \<Longrightarrow> bam_at 0 s = Some (of_nat (96 + l)) \<Longrightarrow> bam_command s = Some s \<Longrightarrow> False" for s t :: "'a bam_player_scheme"
  proof (induction rule: bam_commands.raw_induct [rotated, consumes 1, case_names step])
    case (step run u v)
    have "run u = Some v" using step.hyps step.prems bam_parts(3) [of l 6] assms(5) by (simp del: of_nat_add)
    then show False using step.IH step.prems by blast
  qed
  then have "bam_commands s = None" using assms(3) stay by (cases "bam_commands s") auto
  then show ?thesis using assms(1,2) by (simp add: bam_update_def Let_def)
qed

lemma bam_unset_label_never_returns_witness:
  "bam_update \<lparr>opl_out = [], bam_song = [97, 1], bam_del = 0, bam_pos = 0, bam_size = 2, bam_gosub = 0, bam_songend = False,
    bam_chorus = False, bam_labels = replicate 16 \<lparr>bl_target = 0, bl_defined = False, bl_count = 255\<rparr>\<rparr> = None"
  by (rule bam_unset_label_never_returns [where l = 1]) (simp_all add: bam_at_def rd_def)

end
