(* ===== verification/Xad.thy ===== *)
theory Xad
  imports Loader Steps
begin

text \<open>
  \<open>src/xad.cpp\<close>, \<open>src/xad.h\<close>: the container of the XAD players. It reads the file, keeps the tick
  counter and a copy of the chip's registers, and leaves the song to three virtual functions:
  \<open>xadplayer_load\<close>, \<open>xadplayer_rewind\<close> and \<open>xadplayer_update\<close>. They are parameters of the container,
  and their contract is the locale \<open>xad_song\<close>, which gives the contract of a player.
\<close>

section \<open>The state\<close>

record xad_player = cplayer +
  xad_id :: int
  xad_title :: bytes
  xad_author :: bytes
  xad_fmt :: u16
  xad_speed :: u8
  xad_reserved_a :: u8
  xad_tune :: bytes
  plr_playing :: bool
  plr_looping :: bool
  plr_speed :: u8
  plr_speed_counter :: u8
  xad_adlib :: bytes

datatype xad_format = HYP | PSI | FLASH | BMF | RAT | HYBRID

fun xad_format_no :: "xad_format \<Rightarrow> u16" where
  "xad_format_no HYP = 1"
| "xad_format_no PSI = 2"
| "xad_format_no FLASH = 3"
| "xad_format_no BMF = 4"
| "xad_format_no RAT = 5"
| "xad_format_no HYBRID = 6"

abbreviation tune_size :: "'a xad_player_scheme \<Rightarrow> nat" where
  "tune_size s \<equiv> length (xad_tune s)"

section \<open>The container's operations\<close>

definition xad_write :: "nat \<Rightarrow> int \<Rightarrow> 'a xad_player_scheme \<Rightarrow> 'a xad_player_scheme option" where
  "xad_write reg val s = do {
     a \<leftarrow> wr (xad_adlib s) reg (to_u8 val);
     Some (opl_write (int reg) val (s\<lparr>xad_adlib := a\<rparr>))
   }"

text \<open>The assignment \<open>adlib[reg] = val\<close> of the formats, which does not reach the chip.\<close>

definition xad_poke :: "nat \<Rightarrow> u8 \<Rightarrow> 'a xad_player_scheme \<Rightarrow> 'a xad_player_scheme option" where
  "xad_poke reg val s = do { a \<leftarrow> wr (xad_adlib s) reg val; Some (s\<lparr>xad_adlib := a\<rparr>) }"

definition xad_start :: "'a xad_player_scheme \<Rightarrow> 'a xad_player_scheme" where
  "xad_start s = (opl_init s)\<lparr>plr_speed := xad_speed s, plr_speed_counter := 1, plr_playing := True,
     plr_looping := False\<rparr>"

definition xad_rewind ::
  "(int \<Rightarrow> 'a xad_player_scheme \<Rightarrow> 'a xad_player_scheme option) \<Rightarrow> int \<Rightarrow> 'a xad_player_scheme \<Rightarrow>
   'a xad_player_scheme option"
where
  "xad_rewind xrewind subsong s = xrewind subsong (xad_start s)"

definition xad_update ::
  "('a xad_player_scheme \<Rightarrow> 'a xad_player_scheme option) \<Rightarrow> 'a xad_player_scheme \<Rightarrow>
   (bool \<times> 'a xad_player_scheme) option"
where
  "xad_update xupdate s = do {
     let counter = plr_speed_counter s - 1;
     s \<leftarrow> (if counter \<noteq> 0 then Some (s\<lparr>plr_speed_counter := counter\<rparr>)
          else xupdate (s\<lparr>plr_speed_counter := plr_speed s\<rparr>));
     Some (plr_playing s \<and> \<not> plr_looping s, s)
   }"

text \<open>The header; a bare BMF file has none.\<close>

definition xad_set_header ::
  "int \<Rightarrow> bytes \<Rightarrow> bytes \<Rightarrow> u16 \<Rightarrow> u8 \<Rightarrow> u8 \<Rightarrow> bytes \<Rightarrow> 'a xad_player_scheme \<Rightarrow> 'a xad_player_scheme"
where
  "xad_set_header ident title author fmt speed res tune s =
     s\<lparr>xad_id := ident, xad_title := title, xad_author := author, xad_fmt := fmt, xad_speed := speed,
       xad_reserved_a := res, xad_tune := tune\<rparr>"

definition xad_load ::
  "('f, 'fl) binio \<Rightarrow> 'f opener \<Rightarrow> (nat \<Rightarrow> u8) \<Rightarrow>
   ('a xad_player_scheme \<Rightarrow> (bool \<times> 'a xad_player_scheme) option) \<Rightarrow>
   (int \<Rightarrow> 'a xad_player_scheme \<Rightarrow> 'a xad_player_scheme option) \<Rightarrow> string \<Rightarrow> 'a xad_player_scheme \<Rightarrow>
   (bool \<times> 'a xad_player_scheme) option"
where
  "xad_load io opn mem xload xrewind filename s =
     (case opn filename of None \<Rightarrow> Some (False, s) | Some f \<Rightarrow> do {
        let (ident, f) = bio_readInt io 4 f;
        let (_, title, f) = bio_readString io 36 (xad_title s) f;
        let (_, author, f) = bio_readString io 36 (xad_author s) f;
        let (fmt, f) = read_u16 io f;
        let (speed, f) = read_u8 io f;
        let (res, f) = read_u8 io f;
        let signed = (ident = 0x21444158);
        if \<not> signed \<and> ident mod 2 ^ 24 \<noteq> 4607298
        then Some (False, xad_set_header ident title author fmt speed res (xad_tune s) s)
        else do {
          (size, f, s) \<leftarrow>
            (if \<not> signed then do {
               title \<leftarrow> wr title 0 0;
               author \<leftarrow> wr author 0 0;
               let (size, f) = fp_filesize io (bio_seekSet io 0 f);
               Some (size, f, xad_set_header ident title author (xad_format_no BMF) 0 0 (xad_tune s) s)
             }
             else do {
               let (size, f) = fp_filesize io f;
               Some (size - 80, f, xad_set_header ident title author fmt speed res (xad_tune s) s)
             });
          if signed \<and> size = 0 then Some (False, s)
          else do {
            let (_, tune, f) = bio_readString io size (fresh mem size) f;
            (ret, s) \<leftarrow> xload (s\<lparr>xad_tune := tune\<rparr>);
            if ret then do { s \<leftarrow> xad_rewind xrewind 0 s; Some (True, s) } else Some (False, s)
          }
        }
      })"

text \<open>An accepted song has just been rewound.\<close>

lemma xad_load_rewound:
  assumes "xad_load io opn mem xload xrewind filename s = Some (True, t)"
  shows "\<exists>u. xrewind 0 (xad_start u) = Some t"
  using assms
  by (auto simp: xad_load_def xad_rewind_def Let_def split: option.splits prod.splits if_splits bind_splits)

section \<open>Registers\<close>

lemma xad_write_eq:
  "reg < 256 \<Longrightarrow> length (xad_adlib s) = 256 \<Longrightarrow>
   xad_write reg val s = Some (s\<lparr>opl_out := opl_out s @ [OplWrite (int reg) val],
     xad_adlib := (xad_adlib s)[reg := to_u8 val]\<rparr>)"
  by (simp add: xad_write_def wr_Some opl_write_def)

text \<open>What writing registers changes: the copy of the registers and what the chip was told.\<close>

definition xad_regs :: "'a xad_player_scheme \<Rightarrow> 'a xad_player_scheme \<Rightarrow> bool" where
  "xad_regs s t \<longleftrightarrow>
     (\<exists>a es. t = s\<lparr>xad_adlib := a, opl_out := opl_out s @ es\<rparr> \<and> length a = 256)"

definition xad_has_regs :: "'a xad_player_scheme \<Rightarrow> bool" where
  "xad_has_regs s \<longleftrightarrow> length (xad_adlib s) = 256"

lemma xad_regs_trans: "xad_regs s t \<Longrightarrow> xad_regs t u \<Longrightarrow> xad_regs s u"
proof -
  assume "xad_regs s t" "xad_regs t u"
  then obtain a es b fs where "t = s\<lparr>xad_adlib := a, opl_out := opl_out s @ es\<rparr>"
    "u = t\<lparr>xad_adlib := b, opl_out := opl_out t @ fs\<rparr>" "length b = 256" by (auto simp: xad_regs_def)
  then have "u = s\<lparr>xad_adlib := b, opl_out := opl_out s @ (es @ fs)\<rparr>" "length b = 256" by simp_all
  then show "xad_regs s u" unfolding xad_regs_def by blast
qed

lemma xad_regs_refl: "xad_has_regs s \<Longrightarrow> xad_regs s s"
  unfolding xad_regs_def by (intro exI [of _ "xad_adlib s"] exI [of _ "[]"]) (simp add: xad_has_regs_def)

lemma xad_regs_length: "xad_regs s t \<Longrightarrow> xad_has_regs t"
  by (auto simp: xad_regs_def xad_has_regs_def)

lemma xad_regs_appends: "xad_regs s t \<Longrightarrow> \<exists>es. opl_out t = opl_out s @ es"
  by (auto simp: xad_regs_def)

lemma xad_regs_write:
  "length (xad_adlib s) = 256 \<Longrightarrow>
   xad_regs s (s\<lparr>opl_out := opl_out s @ [OplWrite reg val], xad_adlib := (xad_adlib s)[i := v]\<rparr>)"
  unfolding xad_regs_def
  by (intro exI [of _ "(xad_adlib s)[i := v]"] exI [of _ "[OplWrite reg val]"]) simp

text \<open>Register writes compose, and loops of them return.\<close>

interpretation xw: step_calculus xad_has_regs xad_regs
  by unfold_locales (auto intro: xad_regs_refl xad_regs_trans dest: xad_regs_length)

abbreviation xad_op :: "('a xad_player_scheme \<Rightarrow> 'a xad_player_scheme option) \<Rightarrow> bool" where
  "xad_op \<equiv> op_ok xad_has_regs xad_regs"

lemma xad_op_write: "reg < 256 \<Longrightarrow> xad_op (xad_write reg val)"
  by (rule op_okI) (simp add: xad_write_eq xad_has_regs_def xad_regs_write)

lemma xad_op_poke: "reg < 256 \<Longrightarrow> xad_op (xad_poke reg val)"
proof (rule op_okI)
  fix s :: "'a xad_player_scheme" assume reg: "reg < 256" and "xad_has_regs s"
  moreover have "xad_regs s (s\<lparr>xad_adlib := (xad_adlib s)[reg := val]\<rparr>)" if "length (xad_adlib s) = 256"
    unfolding xad_regs_def
    by (intro exI [of _ "(xad_adlib s)[reg := val]"] exI [of _ "[]"]) (simp add: that)
  ultimately show "\<exists>t. xad_poke reg val s = Some t \<and> xad_regs s t"
    by (simp add: xad_poke_def xad_has_regs_def wr_Some)
qed

text \<open>Reading the copy of the registers.\<close>

lemma xad_op_reg:
  "reg < 256 \<Longrightarrow> (\<And>v. xad_op (k v)) \<Longrightarrow> xad_op (\<lambda>s. Option.bind (rd (xad_adlib s) reg) (\<lambda>v. k v s))"
  by (rule xw.ok_read [of _ "\<lambda>_. True"]) (simp_all add: xad_has_regs_def rd_Some)

text \<open>A write whose value depends on the registers.\<close>

lemma xad_op_write_of: "(\<And>s :: 'a xad_player_scheme. reg s < 256) \<Longrightarrow> xad_op (\<lambda>s. xad_write (reg s) (val s) s)"
  by (rule op_okI) (simp add: xad_write_eq xad_has_regs_def xad_regs_write)

section \<open>The contract of the virtual functions\<close>

text \<open>
  \<open>base\<close> is what a fresh object has, \<open>inv\<close> a song that can be played. The songs of the files in
  \<open>fits\<close> are those for which the format's loader checks enough.
\<close>

locale xad_song =
  fixes xload :: "'a xad_player_scheme \<Rightarrow> (bool \<times> 'a xad_player_scheme) option"
    and xrewind :: "int \<Rightarrow> 'a xad_player_scheme \<Rightarrow> 'a xad_player_scheme option"
    and xupdate :: "'a xad_player_scheme \<Rightarrow> 'a xad_player_scheme option"
    and base inv :: "'a xad_player_scheme \<Rightarrow> bool"
    and fits :: "bytes \<Rightarrow> bool"
  assumes base_header:
      "base s \<Longrightarrow> length title = 36 \<Longrightarrow> length author = 36 \<Longrightarrow>
       base (xad_set_header ident title author fmt speed res tune s)"
    and load_ok: "base s \<Longrightarrow> length (xad_title s) = 36 \<Longrightarrow> length (xad_author s) = 36 \<Longrightarrow>
       \<exists>b t. xload s = Some (b, t) \<and>
         (b \<longrightarrow> (\<exists>u. xrewind 0 (xad_start t) = Some u \<and> (fits (xad_tune u) \<longrightarrow> inv u)))"
    and rewind_ok: "inv s \<Longrightarrow> \<exists>t. xrewind n (xad_start s) = Some t \<and> inv t"
    and update_ok: "inv s \<Longrightarrow> \<exists>t es. xupdate s = Some t \<and> inv t \<and> opl_out t = opl_out s @ es"
    and inv_counter: "inv (s\<lparr>plr_speed_counter := c\<rparr>) = inv s"
    and inv_chip: "inv (s\<lparr>opl_out := es\<rparr>) = inv s"
begin

lemma container_update:
  assumes "inv s"
  shows "\<exists>go t es. xad_update xupdate s = Some (go, t) \<and> inv t \<and> opl_out t = opl_out s @ es"
proof (cases "plr_speed_counter s - 1 = 0")
  case True
  have "inv (s\<lparr>plr_speed_counter := plr_speed s\<rparr>)" using assms by (simp add: inv_counter)
  from update_ok [OF this] obtain t es where t: "xupdate (s\<lparr>plr_speed_counter := plr_speed s\<rparr>) = Some t" "inv t"
    "opl_out t = opl_out s @ es" by auto
  then show ?thesis using True by (auto simp: xad_update_def Let_def)
next
  case False
  then show ?thesis using assms by (auto simp: xad_update_def Let_def inv_counter)
qed

end

text \<open>Such a song is a player.\<close>

sublocale xad_song \<subseteq> player "xad_update xupdate" "xad_rewind xrewind" inv
proof
  fix s s' :: "'a xad_player_scheme" and n es go
  assume "inv s"
  from container_update [OF this] obtain g t fs where
    t: "xad_update xupdate s = Some (g, t)" "inv t" "opl_out t = opl_out s @ fs" by blast
  show "\<exists>go s'. xad_update xupdate s = Some (go, s') \<and> inv s'" using t by blast
  show "\<exists>s'. xad_rewind xrewind n s = Some s' \<and> inv s'"
    using rewind_ok [OF \<open>inv s\<close>] by (simp add: xad_rewind_def)
  show "xad_update xupdate s = Some (go, s') \<Longrightarrow> \<exists>es. opl_out s' = opl_out s @ es" using t by auto
next
  show "inv (s\<lparr>opl_out := es\<rparr>) = inv s" for s es by (rule inv_chip)
qed

context xad_song
begin

text \<open>The container reads any file, and an accepted song that fits is playable.\<close>

lemma load_playable:
  assumes "stream_laws io P" "\<And>f. opn filename = Some f \<Longrightarrow> P f" "base s"
    "length (xad_title s) = 36" "length (xad_author s) = 36"
  shows "\<exists>b t. xad_load io opn mem xload xrewind filename s = Some (b, t) \<and> (b \<and> fits (xad_tune t) \<longrightarrow> inv t)"
proof (cases "opn filename")
  case None
  then show ?thesis by (auto simp: xad_load_def)
next
  case (Some f)
  obtain ident f1 where f1: "bio_readInt io 4 f = (ident, f1)" by fastforce
  obtain k title f2 where f2: "bio_readString io 36 (xad_title s) f1 = (k, title, f2)" by (metis surj_pair)
  obtain k' author f3 where f3: "bio_readString io 36 (xad_author s) f2 = (k', author, f3)" by (metis surj_pair)
  obtain fmt f4 where f4: "read_u16 io f3 = (fmt, f4)" by fastforce
  obtain speed f5 where f5: "read_u8 io f4 = (speed, f5)" by fastforce
  obtain res f6 where f6: "read_u8 io f5 = (res, f6)" by fastforce
  have "P f1" using stream_lawsD(2) [OF assms(1) assms(2) [OF Some] f1] by simp
  then have t: "P f2" "length title = 36" using stream_lawsD(3) [OF assms(1) _ f2] assms(4) by simp_all
  then have a: "P f3" "length author = 36" using stream_lawsD(3) [OF assms(1) _ f3] assms(5) by simp_all
  have "P f6"
    by (rule read_u8_stream [OF assms(1) read_u8_stream [OF assms(1) read_u16_stream [OF assms(1) a(1) f4] f5] f6])
  obtain size0 g0 where g0: "fp_filesize io (bio_seekSet io 0 f6) = (size0, g0)" by fastforce
  obtain size1 g1 where g1: "fp_filesize io f6 = (size1, g1)" by fastforce
  let ?signed = "ident = 0x21444158"
  define size where "size = (if ?signed then size1 - 80 else size0)"
  define g where "g = (if ?signed then g1 else g0)"
  define s1 where "s1 = (if ?signed then xad_set_header ident title author fmt speed res (xad_tune s) s
      else xad_set_header ident (title[0 := 0]) (author[0 := 0]) (xad_format_no BMF) 0 0 (xad_tune s) s)"
  obtain k'' tune g' where tune: "bio_readString io size (fresh mem size) g = (k'', tune, g')" by (metis surj_pair)
  let ?s = "s1\<lparr>xad_tune := tune\<rparr>"
  have "base ?s \<and> length (xad_title ?s) = 36 \<and> length (xad_author ?s) = 36"
  proof (cases ?signed)
    case True
    then have "?s = xad_set_header ident title author fmt speed res tune s" by (simp add: s1_def xad_set_header_def)
    then show ?thesis using base_header [OF assms(3)] t(2) a(2) by (simp add: xad_set_header_def)
  next
    case False
    then have "?s = xad_set_header ident (title[0 := 0]) (author[0 := 0]) (xad_format_no BMF) 0 0 tune s"
      by (simp add: s1_def xad_set_header_def)
    then show ?thesis using base_header [OF assms(3)] t(2) a(2) by (simp add: xad_set_header_def)
  qed
  then obtain b u where u: "xload ?s = Some (b, u)"
    "b \<longrightarrow> (\<exists>v. xrewind 0 (xad_start u) = Some v \<and> (fits (xad_tune v) \<longrightarrow> inv v))"
    using load_ok [of ?s] by blast
  have "xad_load io opn mem xload xrewind filename s =
      (if \<not> ?signed \<and> ident mod 2 ^ 24 \<noteq> 4607298
       then Some (False, xad_set_header ident title author fmt speed res (xad_tune s) s)
       else if ?signed \<and> size = 0 then Some (False, s1)
       else if b then (do { s \<leftarrow> xad_rewind xrewind 0 u; Some (True, s) }) else Some (False, u))"
  proof (cases ?signed)
    case True
    then show ?thesis using Some f1 f2 f3 f4 f5 f6 g1 tune u(1) by (simp add: xad_load_def size_def g_def s1_def)
  next
    case False
    then show ?thesis using Some f1 f2 f3 f4 f5 f6 g0 tune u(1) t(2) a(2)
      by (simp add: xad_load_def size_def g_def s1_def wr_Some)
  qed
  then show ?thesis using u(2) by (auto simp: xad_rewind_def)
qed

end

context xad_song
begin

text \<open>An accepted song that fits plays on, as long as one likes.\<close>

lemma load_plays:
  assumes "stream_laws io P" "\<And>f. opn filename = Some f \<Longrightarrow> P f" "base s"
    "length (xad_title s) = 36" "length (xad_author s) = 36"
  shows "\<exists>b t. xad_load io opn mem xload xrewind filename s = Some (b, t) \<and>
    (b \<and> fits (xad_tune t) \<longrightarrow> (\<forall>n. \<exists>u es. play (xad_update xupdate) n t = Some u \<and> opl_out u = opl_out t @ es))"
proof -
  obtain b t where t: "xad_load io opn mem xload xrewind filename s = Some (b, t)"
    "b \<and> fits (xad_tune t) \<longrightarrow> inv t" using load_playable [of io P opn filename s mem] assms by blast
  have "\<forall>n. \<exists>u es. play (xad_update xupdate) n t = Some u \<and> opl_out u = opl_out t @ es" if "inv t"
    using play_ok [OF that] by blast
  then show ?thesis using t by blast
qed

end

text \<open>Songs that end: a measure drops with every update that does not report a loop.\<close>

definition xad_ticks :: "u8 \<Rightarrow> nat" where
  "xad_ticks c = (if c = 0 then 256 else unat c)"

lemma xad_ticks_step: "c - 1 \<noteq> 0 \<Longrightarrow> xad_ticks (c - 1) < xad_ticks c"
proof -
  assume "c - 1 \<noteq> 0"
  then show ?thesis
  proof (cases "c = 0")
    case True
    then show ?thesis using unat_u8_bound(1) [of "c - 1"] by (simp add: xad_ticks_def)
  next
    case False
    then have "unat (c - 1) = unat c - 1" by (simp add: unat_minus_one)
    moreover have "0 < unat c" using False by (simp add: unat_gt_0)
    ultimately show ?thesis using \<open>c - 1 \<noteq> 0\<close> False by (simp add: xad_ticks_def)
  qed
qed

lemma xad_ticks_le: "xad_ticks c \<le> 256"
proof -
  have "unat c \<le> 256" using unat_u8_bound(1) [of c] by linarith
  then show ?thesis by (simp add: xad_ticks_def)
qed

definition xad_ticks_left :: "('a xad_player_scheme \<Rightarrow> nat) \<Rightarrow> 'a xad_player_scheme \<Rightarrow> nat" where
  "xad_ticks_left left s = left s * 257 + xad_ticks (plr_speed_counter s)"

locale xad_ending_song = xad_song +
  fixes left :: "'a xad_player_scheme \<Rightarrow> nat"
  assumes left_counter: "left (s\<lparr>plr_speed_counter := c\<rparr>) = left s"
    and update_left: "inv s \<Longrightarrow> xupdate s = Some t \<Longrightarrow> \<not> plr_looping t \<Longrightarrow> left t < left s"

sublocale xad_ending_song \<subseteq> ending_player "xad_update xupdate" "xad_rewind xrewind" inv "xad_ticks_left left"
proof
  fix s s' assume inv: "inv s" and upd: "xad_update xupdate s = Some (True, s')"
  show "xad_ticks_left left s' < xad_ticks_left left s"
  proof (cases "plr_speed_counter s - 1 = 0")
    case True
    let ?s = "s\<lparr>plr_speed_counter := plr_speed s\<rparr>"
    have s': "xupdate ?s = Some s'" "\<not> plr_looping s'"
      using upd True by (auto simp: xad_update_def Let_def elim!: bind_eq_SomeE)
    have "left s' < left ?s" by (rule update_left [OF _ s']) (simp add: inv_counter inv)
    then have "left s' + 1 \<le> left s" by (simp add: left_counter)
    then have "(left s' + 1) * 257 \<le> left s * 257" by (rule mult_le_mono1)
    then show ?thesis using xad_ticks_le [of "plr_speed_counter s'"] by (simp add: xad_ticks_left_def xad_ticks_def)
  next
    case False
    then have "s' = s\<lparr>plr_speed_counter := plr_speed_counter s - 1\<rparr>"
      using upd by (simp add: xad_update_def Let_def)
    then show ?thesis using xad_ticks_step [OF False] by (simp add: xad_ticks_left_def left_counter)
  qed
qed

context xad_ending_song
begin

text \<open>An accepted song that fits plays to its end.\<close>

lemma load_ends:
  assumes "stream_laws io P" "\<And>f. opn filename = Some f \<Longrightarrow> P f" "base s"
    "length (xad_title s) = 36" "length (xad_author s) = 36"
  shows "\<exists>b t. xad_load io opn mem xload xrewind filename s = Some (b, t) \<and>
    (b \<and> fits (xad_tune t) \<longrightarrow>
      (\<exists>n u v. play (xad_update xupdate) n t = Some u \<and> xad_update xupdate u = Some (False, v)))"
proof -
  obtain b t where t: "xad_load io opn mem xload xrewind filename s = Some (b, t)"
    "b \<and> fits (xad_tune t) \<longrightarrow> inv t" using load_playable [of io P opn filename s mem] assms by blast
  then show ?thesis using reaches_end [of t] by blast
qed

end

text \<open>A fresh object, all of whose memory is zero, and a container around a tune, for the examples.\<close>

definition xad_zero :: xad_player where
  "xad_zero = \<lparr>opl_out = [], xad_id = 0, xad_title = replicate 36 0, xad_author = replicate 36 0, xad_fmt = 0,
     xad_speed = 0, xad_reserved_a = 0, xad_tune = [], plr_playing = False, plr_looping = False, plr_speed = 0,
     plr_speed_counter = 0, xad_adlib = replicate 256 0\<rparr>"

definition xad_file :: "xad_format \<Rightarrow> u8 \<Rightarrow> bytes \<Rightarrow> bytes" where
  "xad_file fmt speed tune =
     [0x58, 0x41, 0x44, 0x21] @ replicate 72 0 @ [ucast (xad_format_no fmt), 0, speed, 0] @ tune"

lemmas xad_zero_simps = xad_zero_def xad_player.defs

end
