(* ===== verification/Xhyp.thy ===== *)
theory Xhyp
  imports Xad
begin

text \<open>
  \<open>src/hyp.cpp\<close>, \<open>src/hyp.h\<close>: the Hypnosis song, a row of nine notes and three unused bytes per
  tick, at a 16-bit position that starts over, and reports the loop, after the last row.
\<close>

record hyp_player = xad_player +
  hyp_pointer :: u16

definition hyp_adlib_registers :: "nat list" where
  "hyp_adlib_registers =
    [0x20, 0x23, 0x40, 0x43, 0x60, 0x63, 0x80, 0x83, 0xA0, 0xB0, 0xC0,
     0x21, 0x24, 0x41, 0x44, 0x61, 0x64, 0x81, 0x84, 0xA1, 0xB1, 0xC1,
     0x22, 0x25, 0x42, 0x45, 0x62, 0x65, 0x82, 0x85, 0xA2, 0xB2, 0xC2,
     0x28, 0x2B, 0x48, 0x4B, 0x68, 0x6B, 0x88, 0x8B, 0xA3, 0xB3, 0xC3,
     0x29, 0x2C, 0x49, 0x4C, 0x69, 0x6C, 0x89, 0x8C, 0xA4, 0xB4, 0xC4,
     0x2A, 0x2D, 0x4A, 0x4D, 0x6A, 0x6D, 0x8A, 0x8D, 0xA5, 0xB5, 0xC5,
     0x30, 0x33, 0x50, 0x53, 0x70, 0x73, 0x90, 0x93, 0xA6, 0xB6, 0xC6,
     0x31, 0x34, 0x51, 0x54, 0x71, 0x74, 0x91, 0x94, 0xA7, 0xB7, 0xC7,
     0x32, 0x35, 0x52, 0x55, 0x72, 0x75, 0x92, 0x95, 0xA8, 0xB8, 0xC8]"

definition hyp_notes :: "int list" where
  "hyp_notes =
    [0x0000, 0x0956, 0x096B, 0x0980, 0x0998, 0x09B1, 0x09C9, 0x09E5, 0x0A03, 0x0A21, 0x0A41, 0x0A63,
     0x0A86, 0x0D56, 0x0D6B, 0x0D80, 0x0D98, 0x0DB1, 0x0DC9, 0x0DE5, 0x0E03, 0x0E21, 0x0E41, 0x0E63,
     0x0E86, 0x1156, 0x116B, 0x1180, 0x1198, 0x11B1, 0x11C9, 0x11E5, 0x1203, 0x1221, 0x1241, 0x1263,
     0x1286, 0x1556, 0x156B, 0x1580, 0x1598, 0x15B1, 0x15C9, 0x15E5, 0x1603, 0x1621, 0x1641, 0x1663,
     0x1686, 0x1956, 0x196B, 0x1980, 0x1998, 0x19B1, 0x19C9, 0x19E5, 0x1A03, 0x1A21, 0x1A41, 0x1A63,
     0x1A86, 0x1D56, 0x1D6B, 0x1D80, 0x1D98, 0x1DB1, 0x1DC9, 0x1DE5, 0x1E03, 0x1E21, 0x1E41, 0x1E63,
     0x1E86]"

definition hyp_load :: "hyp_player \<Rightarrow> (bool \<times> hyp_player) option" where
  "hyp_load s = Some (xad_fmt s = xad_format_no HYP \<and> 0x69 + 9 \<le> tune_size s, s)"

definition hyp_rewind :: "int \<Rightarrow> hyp_player \<Rightarrow> hyp_player option" where
  "hyp_rewind subsong s = do {
     speed \<leftarrow> rd (xad_tune s) 5;
     s \<leftarrow> xad_write 0xBD 0xC0 (s\<lparr>plr_speed := speed\<rparr>);
     s \<leftarrow> ofold (\<lambda>i. xad_poke (0xB0 + i) 0) [0..<9] s;
     s \<leftarrow> ofold (\<lambda>i s. do {
            reg \<leftarrow> rd hyp_adlib_registers i;
            val \<leftarrow> rd (xad_tune s) (6 + i);
            xad_write reg (uint val) s
          }) [0..<99] s;
     Some (s\<lparr>hyp_pointer := 0x69\<rparr>)
   }"

text \<open>The note \<open>event\<close> of channel \<open>i\<close>; bit 6 holds back the new frequency.\<close>

definition hyp_note :: "nat \<Rightarrow> u8 \<Rightarrow> hyp_player \<Rightarrow> hyp_player option" where
  "hyp_note i event s = do {
     freq \<leftarrow> rd hyp_notes (unat (event AND 0x3F));
     b \<leftarrow> rd (xad_adlib s) (0xB0 + i);
     s \<leftarrow> xad_write (0xB0 + i) (uint b) s;
     s \<leftarrow> (if event AND 0x40 = 0 then do {
            s \<leftarrow> xad_write (0xA0 + i) (freq AND 0xFF) s;
            xad_write (0xB0 + i) (drop_bit 8 freq OR 0x20) s
          } else Some s);
     b \<leftarrow> rd (xad_adlib s) (0xB0 + i);
     xad_poke (0xB0 + i) (b AND 0xDF) s
   }"

definition hyp_channel :: "nat \<Rightarrow> hyp_player \<Rightarrow> hyp_player option" where
  "hyp_channel i s = do {
     event \<leftarrow> rd (xad_tune s) (unat (hyp_pointer s));
     let s = s\<lparr>hyp_pointer := hyp_pointer s + 1\<rparr>;
     if event \<noteq> 0 then hyp_note i event s else Some s
   }"

definition hyp_update :: "hyp_player \<Rightarrow> hyp_player option" where
  "hyp_update s = do {
     s \<leftarrow> ofold hyp_channel [0..<9] s;
     let s = s\<lparr>hyp_pointer := hyp_pointer s + 3\<rparr>;
     Some (if ulong (int (tune_size s) - 9) < unat (hyp_pointer s)
           then s\<lparr>hyp_pointer := 0x69, plr_looping := True\<rparr> else s)
   }"

section \<open>Safety\<close>

lemma length_hyp_tables [simp]: "length hyp_adlib_registers = 99" "length hyp_notes = 73"
  by (simp_all add: hyp_adlib_registers_def hyp_notes_def)

lemma hyp_registers_bound: "i < 99 \<Longrightarrow> hyp_adlib_registers ! i < 256"
proof -
  have "list_all (\<lambda>r. r < 256) hyp_adlib_registers" by (simp add: hyp_adlib_registers_def)
  then show "i < 99 \<Longrightarrow> hyp_adlib_registers ! i < 256" by (simp add: list_all_length)
qed

lemma hyp_note_op: "i < 9 \<Longrightarrow> xad_op (hyp_note i event)"
proof -
  assume i: "i < 9"
  have "event AND 0x3F \<le> 0x3F" by (rule word_and_le1)
  then have e: "unat (event AND 0x3F) < 73" by (simp add: word_le_nat_alt)
  have freq: "rd hyp_notes (unat (event AND 0x3F)) = Some (hyp_notes ! unat (event AND 0x3F))"
    using e by (simp add: rd_Some)
  show ?thesis
    unfolding hyp_note_def freq bind.bind_lunit
    by (intro xad_op_reg xw.ok_bind xw.ok_if xw.ok_skip xad_op_write xad_op_poke) (use i in simp_all)
qed

definition hyp_ok :: "hyp_player \<Rightarrow> bool" where
  "hyp_ok s \<longleftrightarrow> xad_has_regs s \<and> 0x69 + 9 \<le> tune_size s \<and> unat (hyp_pointer s) + 9 \<le> tune_size s"

lemma hyp_regs_keeps:
  "xad_regs s t \<Longrightarrow> xad_tune t = xad_tune s \<and> hyp_pointer t = hyp_pointer s \<and> plr_looping t = plr_looping s"
  for s t :: hyp_player
  by (auto simp: xad_regs_def)

definition hyp_moves :: "nat \<Rightarrow> hyp_player \<Rightarrow> hyp_player \<Rightarrow> bool" where
  "hyp_moves n s t \<longleftrightarrow> xad_has_regs t \<and> xad_tune t = xad_tune s \<and>
     hyp_pointer t = hyp_pointer s + of_nat n \<and> plr_looping t = plr_looping s \<and>
     (\<exists>es. opl_out t = opl_out s @ es)"

lemma hyp_channel_ok:
  assumes "i < 9" "xad_has_regs s" "unat (hyp_pointer s) < tune_size s"
  shows "\<exists>t. hyp_channel i s = Some t \<and> hyp_moves 1 s t"
proof -
  let ?s = "s\<lparr>hyp_pointer := hyp_pointer s + 1\<rparr>"
  have pre: "xad_has_regs ?s" using assms(2) by (simp add: xad_has_regs_def)
  obtain t where t: "hyp_note i (xad_tune s ! unat (hyp_pointer s)) ?s = Some t" "xad_regs ?s t"
    using op_okD [OF hyp_note_op [OF assms(1)] pre] by blast
  have "hyp_moves 1 s t"
    using hyp_regs_keeps [OF t(2)] xad_regs_length [OF t(2)] xad_regs_appends [OF t(2)] by (simp add: hyp_moves_def)
  moreover have "hyp_moves 1 s ?s" using pre by (simp add: hyp_moves_def)
  ultimately show ?thesis using t(1) assms(3) by (auto simp: hyp_channel_def rd_Some Let_def)
qed

lemma hyp_pointer_add: "unat ((p :: u16) + of_nat n) \<le> unat p + n"
proof -
  have "unat (of_nat n :: u16) \<le> n" by (simp add: unat_of_nat)
  moreover have "unat (p + of_nat n) \<le> unat p + unat (of_nat n :: u16)" by (simp add: unat_word_ariths)
  ultimately show ?thesis by linarith
qed

lemma hyp_row_ok:
  assumes "xad_has_regs s" "unat (hyp_pointer s) + 9 \<le> tune_size s"
  shows "n \<le> 9 \<Longrightarrow> \<exists>t. ofold hyp_channel [0..<n] s = Some t \<and> hyp_moves n s t"
proof (induction n)
  case 0
  then show ?case using assms(1) by (simp add: hyp_moves_def)
next
  case (Suc n)
  then obtain t where t: "ofold hyp_channel [0..<n] s = Some t" "hyp_moves n s t" by auto
  have "unat (hyp_pointer t) \<le> unat (hyp_pointer s) + n" using t(2) hyp_pointer_add by (simp add: hyp_moves_def)
  then have "unat (hyp_pointer t) < tune_size t" using assms(2) Suc.prems t(2) by (simp add: hyp_moves_def)
  then obtain u where u: "hyp_channel n t = Some u" "hyp_moves 1 t u"
    using hyp_channel_ok [of n t] Suc.prems t(2) by (auto simp: hyp_moves_def)
  have "hyp_moves (Suc n) s u" using t(2) u(2) by (auto simp: hyp_moves_def)
  moreover have "ofold hyp_channel [0..<Suc n] s = Some u" using t(1) u(1) by (simp add: ofold_append)
  ultimately show ?case by blast
qed

lemma hyp_update_ok:
  assumes "hyp_ok s"
  shows "\<exists>t es. hyp_update s = Some t \<and> hyp_ok t \<and> xad_tune t = xad_tune s \<and> opl_out t = opl_out s @ es \<and>
    (plr_looping t \<or> hyp_pointer t = hyp_pointer s + 12)"
proof -
  have s: "xad_has_regs s" "unat (hyp_pointer s) + 9 \<le> tune_size s" "0x69 + 9 \<le> tune_size s"
    using assms by (simp_all add: hyp_ok_def)
  obtain t where t: "ofold hyp_channel [0..<9] s = Some t" "hyp_moves 9 s t" using hyp_row_ok [OF s(1,2), of 9] by auto
  let ?t = "t\<lparr>hyp_pointer := hyp_pointer t + 3\<rparr>"
  let ?u = "if ulong (int (tune_size t) - 9) < unat (hyp_pointer ?t)
     then ?t\<lparr>hyp_pointer := 0x69, plr_looping := True\<rparr> else ?t"
  have moved: "hyp_pointer ?t = hyp_pointer s + 12" "xad_tune t = xad_tune s" using t(2) by (simp_all add: hyp_moves_def)
  have "hyp_update s = Some ?u" using t(1) by (simp add: hyp_update_def)
  moreover have "hyp_ok ?u"
  proof (cases "ulong (int (tune_size t) - 9) < unat (hyp_pointer ?t)")
    case True
    then show ?thesis using s(3) t(2) by (simp add: hyp_ok_def hyp_moves_def xad_has_regs_def)
  next
    case False
    have "ulong (int (tune_size t) - 9) \<le> tune_size t - 9"
    proof -
      have "0 \<le> int (tune_size t) - 9" using s(3) moved(2) by simp
      then have "(int (tune_size t) - 9) mod 2 ^ 64 \<le> int (tune_size t) - 9" by (rule zmod_le_nonneg_dividend)
      then show ?thesis using s(3) moved(2) by (simp add: ulong_def nat_le_iff)
    qed
    then have "unat (hyp_pointer ?t) \<le> tune_size t - 9" using False by linarith
    then show ?thesis using False s(3) t(2) by (simp add: hyp_ok_def hyp_moves_def xad_has_regs_def)
  qed
  moreover have "xad_tune ?u = xad_tune s" "plr_looping ?u \<or> hyp_pointer ?u = hyp_pointer s + 12"
    using moved by simp_all
  moreover have "\<exists>es. opl_out ?u = opl_out s @ es" using t(2) by (auto simp: hyp_moves_def)
  ultimately show ?thesis by blast
qed

lemma hyp_rewind_ok:
  assumes "xad_has_regs s" "0x69 + 9 \<le> tune_size s"
  shows "\<exists>t. hyp_rewind n s = Some t \<and> hyp_ok t \<and> xad_tune t = xad_tune s"
proof -
  have speed: "rd (xad_tune s) 5 = Some (xad_tune s ! 5)" using assms(2) by (simp add: rd_Some)
  let ?s = "s\<lparr>plr_speed := xad_tune s ! 5\<rparr>"
  have pre: "xad_has_regs ?s" using assms(1) by (simp add: xad_has_regs_def)
  have "xad_op (\<lambda>s. Option.bind (xad_write 0xBD 0xC0 s) (ofold (\<lambda>i. xad_poke (0xB0 + i) 0) [0..<9]))"
    by (intro xw.ok_bind xw.ok_ofold xad_op_write xad_op_poke) simp_all
  from op_okD [OF this pre] obtain t where
    t: "Option.bind (xad_write 0xBD 0xC0 ?s) (ofold (\<lambda>i. xad_poke (0xB0 + i) 0) [0..<9]) = Some t" "xad_regs ?s t"
    by blast
  define tune where "tune = xad_tune s"
  have tune: "xad_tune t = tune" using hyp_regs_keeps [OF t(2)] by (simp add: tune_def)
  let ?f = "\<lambda>i s. Option.bind (rd hyp_adlib_registers i) (\<lambda>reg. Option.bind (rd (xad_tune s) (6 + i))
    (\<lambda>val. xad_write reg (uint val) s))"
  have "\<exists>u. ofold ?f [0..<99] t = Some u \<and> xad_regs t u"
  proof (rule ofold_invariant [of "\<lambda>u. xad_regs t u"])
    show "xad_regs t t" by (rule xad_regs_refl [OF xad_regs_length [OF t(2)]])
    fix i u assume "i \<in> set [0..<99]" and u: "xad_regs t u"
    then have i: "i < 99" by simp
    have "rd (xad_tune u) (6 + i) = Some (tune ! (6 + i))"
      using assms(2) i hyp_regs_keeps [OF u] tune by (simp add: rd_Some tune_def)
    then have "?f i u = xad_write (hyp_adlib_registers ! i) (uint (tune ! (6 + i))) u" using i by (simp add: rd_Some)
    then show "\<exists>v. ?f i u = Some v \<and> xad_regs t v"
      using op_okD [OF xad_op_write [OF hyp_registers_bound [OF i]] xad_regs_length [OF u]] xad_regs_trans [OF u]
      by metis
  qed
  then obtain u where u: "ofold ?f [0..<99] t = Some u" "xad_regs t u" by blast
  have "hyp_rewind n s = Some (u\<lparr>hyp_pointer := 0x69\<rparr>)"
    using t(1) u(1) speed by (auto simp: hyp_rewind_def bind_eq_Some_conv simp del: upt.simps ofold.simps)
  moreover have "xad_tune u = xad_tune s" "xad_has_regs u"
    using hyp_regs_keeps [OF u(2)] tune xad_regs_length [OF u(2)] by (simp_all add: tune_def)
  ultimately show ?thesis using assms(2) by (simp add: hyp_ok_def xad_has_regs_def)
qed

section \<open>The song as a player\<close>

text \<open>
  The position has 16 bits and the end of the song is a position near the tune's end: a song that
  does not fit plays, but is never reported to end.
\<close>

definition hyp_fits :: "bytes \<Rightarrow> bool" where
  "hyp_fits tune \<longleftrightarrow> length tune \<le> 65532"

definition hyp_left :: "hyp_player \<Rightarrow> nat" where
  "hyp_left s = tune_size s - unat (hyp_pointer s)"

interpretation hyp_any: xad_song hyp_load hyp_rewind hyp_update xad_has_regs hyp_ok "\<lambda>_. True"
proof unfold_locales
  fix s :: hyp_player and n :: int
  assume "hyp_ok s"
  then have "xad_has_regs (xad_start s)" "0x69 + 9 \<le> tune_size (xad_start s)"
    by (simp_all add: hyp_ok_def xad_has_regs_def xad_start_def opl_init_def)
  then show "\<exists>t. hyp_rewind n (xad_start s) = Some t \<and> hyp_ok t" using hyp_rewind_ok by blast
next
  fix s :: hyp_player assume "xad_has_regs s"
  then have regs: "xad_has_regs (xad_start s)" by (simp add: xad_has_regs_def xad_start_def opl_init_def)
  have size: "xad_tune (xad_start s) = xad_tune s" by (simp add: xad_start_def opl_init_def)
  show "\<exists>b t. hyp_load s = Some (b, t) \<and>
      (b \<longrightarrow> (\<exists>u. hyp_rewind 0 (xad_start t) = Some u \<and> (True \<longrightarrow> hyp_ok u)))"
    using hyp_rewind_ok [OF regs] size by (auto simp: hyp_load_def)
next
  fix s :: hyp_player assume "hyp_ok s"
  then show "\<exists>t es. hyp_update s = Some t \<and> hyp_ok t \<and> opl_out t = opl_out s @ es" using hyp_update_ok by blast
qed (simp_all add: xad_has_regs_def hyp_ok_def xad_set_header_def)

interpretation hyp: xad_ending_song hyp_load hyp_rewind hyp_update xad_has_regs
    "\<lambda>s. hyp_ok s \<and> hyp_fits (xad_tune s)" hyp_fits hyp_left
proof unfold_locales
  fix s :: hyp_player and n :: int
  assume "hyp_ok s \<and> hyp_fits (xad_tune s)"
  then have "xad_has_regs (xad_start s)" "0x69 + 9 \<le> tune_size (xad_start s)"
    "hyp_fits (xad_tune (xad_start s))"
    by (simp_all add: hyp_ok_def xad_has_regs_def xad_start_def opl_init_def)
  then show "\<exists>t. hyp_rewind n (xad_start s) = Some t \<and> hyp_ok t \<and> hyp_fits (xad_tune t)"
    using hyp_rewind_ok by metis
next
  fix s :: hyp_player assume "xad_has_regs s"
  then show "\<exists>b t. hyp_load s = Some (b, t) \<and>
      (b \<longrightarrow> (\<exists>u. hyp_rewind 0 (xad_start t) = Some u \<and> (hyp_fits (xad_tune u) \<longrightarrow> hyp_ok u \<and> hyp_fits (xad_tune u))))"
    using hyp_rewind_ok [of "xad_start s"] by (auto simp: hyp_load_def xad_has_regs_def xad_start_def opl_init_def)
next
  fix s :: hyp_player assume "hyp_ok s \<and> hyp_fits (xad_tune s)"
  then show "\<exists>t es. hyp_update s = Some t \<and> (hyp_ok t \<and> hyp_fits (xad_tune t)) \<and> opl_out t = opl_out s @ es"
    using hyp_update_ok [of s] by auto
next
  fix s t assume s: "hyp_ok s \<and> hyp_fits (xad_tune s)" and t: "hyp_update s = Some t" "\<not> plr_looping t"
  then have p: "hyp_pointer t = hyp_pointer s + 12" "xad_tune t = xad_tune s" using hyp_update_ok [of s] by auto
  have "unat (hyp_pointer s) + 12 < 65536" "unat (hyp_pointer s) < tune_size s"
    using s by (auto simp: hyp_ok_def hyp_fits_def)
  moreover from this have "unat (hyp_pointer t) = unat (hyp_pointer s) + 12"
    using p(1) by (simp add: unat_word_ariths)
  ultimately show "hyp_left t < hyp_left s" using p(2) by (simp add: hyp_left_def)
qed (simp_all add: xad_has_regs_def hyp_ok_def hyp_left_def xad_set_header_def)

text \<open>Load of a Hypnosis song returns for every file, and an accepted song of at most 65532 bytes plays to a reported end without a fault.\<close>

theorem hyp_song_ends:
  assumes "stream_laws io P" "\<And>f. opn filename = Some f \<Longrightarrow> P f" "xad_has_regs s"
    "length (xad_title s) = 36" "length (xad_author s) = 36"
  shows "\<exists>b t. xad_load io opn mem hyp_load hyp_rewind filename s = Some (b, t) \<and>
    (b \<and> hyp_fits (xad_tune t) \<longrightarrow>
      (\<exists>n u v. play (xad_update hyp_update) n t = Some u \<and> xad_update hyp_update u = Some (False, v)))"
  by (rule hyp.load_ends [OF assms])

definition hyp_new :: hyp_player where
  "hyp_new = xad_player.extend xad_zero (hyp_player.fields 0)"

lemma hyp_song_ends_witness:
  "let bs = xad_file HYP 1 (replicate 0x72 0) in
   \<exists>b t. xad_load memio (\<lambda>_. Some (mem_file bs)) (\<lambda>_. 0) hyp_load hyp_rewind ''a.xad'' hyp_new = Some (b, t) \<and>
    (b \<and> hyp_fits (xad_tune t) \<longrightarrow>
      (\<exists>n u v. play (xad_update hyp_update) n t = Some u \<and> xad_update hyp_update u = Some (False, v)))"
proof -
  let ?bs = "xad_file HYP 1 (replicate 0x72 0)"
  have "length ?bs < 2 ^ 63" by (simp add: xad_file_def)
  moreover have "xad_has_regs hyp_new" "length (xad_title hyp_new) = 36" "length (xad_author hyp_new) = 36"
    by (simp_all add: xad_has_regs_def hyp_new_def hyp_player.defs xad_zero_simps)
  ultimately show ?thesis
    unfolding Let_def
    by (intro hyp_song_ends [OF mem_stream_laws [of ?bs]]) auto
qed

end
