(* ===== verification/Xpsi.thy ===== *)
theory Xpsi
  imports Xad
begin

text \<open>
  \<open>src/psi.cpp\<close>, \<open>src/psi.h\<close>: the PSI song, eight channels each with a sequence of its own, at a
  16-bit position, that starts over at a loop position; the song is over when every channel has
  looped. The pointers \<open>instr_table\<close> and \<open>seq_table\<close> into the tune are offsets.
\<close>

record psi_player = xad_player +
  psi_instr_ptr :: u16
  psi_seq_ptr :: u16
  psi_instr_table :: nat
  psi_seq_table :: nat
  psi_note_delay :: bytes
  psi_note_curdelay :: bytes
  psi_looping :: u16
  psi_ptr :: "u16 list"

definition psi_registers :: "nat list list" where
  "psi_registers =
    [[0x20, 0x23, 0x40, 0x43, 0x60, 0x63, 0x80, 0x83, 0xE0, 0xE3, 0xC0],
     [0x21, 0x24, 0x41, 0x44, 0x61, 0x64, 0x81, 0x84, 0xE1, 0xE4, 0xC1],
     [0x22, 0x25, 0x42, 0x45, 0x62, 0x65, 0x82, 0x85, 0xE2, 0xE5, 0xC2],
     [0x28, 0x2B, 0x48, 0x4B, 0x68, 0x6B, 0x88, 0x8B, 0xE8, 0xEB, 0xC3],
     [0x29, 0x2C, 0x49, 0x4C, 0x69, 0x6C, 0x89, 0x8C, 0xE9, 0xEC, 0xC4],
     [0x2A, 0x2D, 0x4A, 0x4D, 0x6A, 0x6D, 0x8A, 0x8D, 0xEA, 0xED, 0xC5],
     [0x30, 0x33, 0x50, 0x53, 0x70, 0x73, 0x90, 0x93, 0xF0, 0xF3, 0xC6],
     [0x31, 0x34, 0x51, 0x54, 0x71, 0x74, 0x91, 0x94, 0xF1, 0xF4, 0xC7],
     [0x32, 0x35, 0x52, 0x55, 0x72, 0x75, 0x92, 0x95, 0xF2, 0xF5, 0xC8]]"

definition psi_notes :: "(int \<times> int) list" where
  "psi_notes =
    [(0x21, 0x6B), (0x21, 0x81), (0x21, 0x98), (0x21, 0xB0),
     (0x21, 0xCA), (0x21, 0xE5), (0x22, 0x02), (0x22, 0x20),
     (0x22, 0x41), (0x22, 0x63), (0x22, 0x87), (0x23, 0x64),
     (0, 0), (0, 0), (0, 0), (0, 0)]"

definition psi_le16 :: "bytes \<Rightarrow> nat \<Rightarrow> u16 option" where
  "psi_le16 tune p = do {
     a \<leftarrow> rd tune p;
     b \<leftarrow> rd tune (p + 1);
     Some (ucast a OR push_bit 8 (ucast b))
   }"

text \<open>Whether each pointer stored at \<open>ps\<close> leaves more than \<open>slack\<close> bytes of the tune.\<close>

fun psi_check :: "bytes \<Rightarrow> nat \<Rightarrow> nat list \<Rightarrow> bool option" where
  "psi_check tune slack [] = Some True"
| "psi_check tune slack (p # ps) = do {
     v \<leftarrow> psi_le16 tune p;
     if length tune \<le> unat v + slack then Some False else psi_check tune slack ps
   }"

definition psi_load :: "psi_player \<Rightarrow> (bool \<times> psi_player) option" where
  "psi_load s =
     (if xad_fmt s \<noteq> xad_format_no PSI \<or> tune_size s < 4 then Some (False, s)
      else do {
        instr \<leftarrow> psi_le16 (xad_tune s) 0;
        sq \<leftarrow> psi_le16 (xad_tune s) 2;
        let s = s\<lparr>psi_instr_ptr := instr, psi_seq_ptr := sq\<rparr>;
        if tune_size s \<le> unat instr + 8 * 2 \<or> tune_size s \<le> unat sq + 8 * 4 then Some (False, s)
        else do {
          let s = s\<lparr>psi_instr_table := unat instr, psi_seq_table := unat sq\<rparr>;
          instruments \<leftarrow> psi_check (xad_tune s) 11 (map (\<lambda>i. psi_instr_table s + i * 2) [0..<8]);
          if \<not> instruments then Some (False, s)
          else do {
            sequences \<leftarrow> psi_check (xad_tune s) 0 (map (\<lambda>i. psi_seq_table s + i * 2) [0..<16]);
            Some (sequences, s)
          }
        }
      })"

definition psi_start_channel :: "nat \<Rightarrow> psi_player \<Rightarrow> psi_player option" where
  "psi_start_channel i s = do {
     inspos \<leftarrow> psi_le16 (xad_tune s) (psi_instr_table s + i * 2);
     s \<leftarrow> ofold (\<lambda>j s. do {
            reg \<leftarrow> rd2 psi_registers i j;
            val \<leftarrow> rd (xad_tune s) (unat inspos + j);
            xad_write reg (uint val) s
          }) [0..<11] s;
     s \<leftarrow> xad_write (0xA0 + i) 0 s;
     s \<leftarrow> xad_write (0xB0 + i) 0 s;
     p \<leftarrow> psi_le16 (xad_tune s) (psi_seq_table s + i * 4);
     ptr \<leftarrow> wr (psi_ptr s) i p;
     delay \<leftarrow> wr (psi_note_delay s) i 1;
     curdelay \<leftarrow> wr (psi_note_curdelay s) i 1;
     Some (s\<lparr>psi_ptr := ptr, psi_note_delay := delay, psi_note_curdelay := curdelay\<rparr>)
   }"

definition psi_rewind :: "int \<Rightarrow> psi_player \<Rightarrow> psi_player option" where
  "psi_rewind subsong s = do {
     s \<leftarrow> xad_write 0x01 0x20 s;
     s \<leftarrow> xad_write 0x08 0x00 s;
     s \<leftarrow> xad_write 0xBD 0x00 s;
     s \<leftarrow> ofold psi_start_channel [0..<8] s;
     Some (s\<lparr>psi_looping := 0\<rparr>)
   }"

text \<open>The next event of channel \<open>i\<close>, 0 past the end of the tune.\<close>

definition psi_read :: "nat \<Rightarrow> psi_player \<Rightarrow> (u8 \<times> psi_player) option" where
  "psi_read i s = do {
     p \<leftarrow> rd (psi_ptr s) i;
     if unat p < tune_size s then do {
       event \<leftarrow> rd (xad_tune s) (unat p);
       ptr \<leftarrow> wr (psi_ptr s) i (p + 1);
       Some (event, s\<lparr>psi_ptr := ptr\<rparr>)
     } else Some (0, s)
   }"

text \<open>The end of the sequence: go to the loop position and note that the channel has looped.\<close>

definition psi_loop :: "nat \<Rightarrow> psi_player \<Rightarrow> (u8 \<times> psi_player) option" where
  "psi_loop i s = do {
     p \<leftarrow> psi_le16 (xad_tune s) (psi_seq_table s + (i * 4 + 2));
     event \<leftarrow> rd (xad_tune s) (unat p);
     ptr \<leftarrow> wr (psi_ptr s) i (p + 1);
     let looping = psi_looping s OR push_bit i 1;
     Some (event, s\<lparr>psi_ptr := ptr, psi_looping := looping, plr_looping := (looping = 0xFF)\<rparr>)
   }"

definition psi_note :: "nat \<Rightarrow> u8 \<Rightarrow> psi_player \<Rightarrow> psi_player option" where
  "psi_note i event s = do {
     delay \<leftarrow> rd (psi_note_delay s) i;
     curdelay \<leftarrow> wr (psi_note_curdelay s) i delay;
     (hi, lo) \<leftarrow> rd psi_notes (unat (event AND 0x0F));
     s \<leftarrow> xad_write (0xA0 + i) lo (s\<lparr>psi_note_curdelay := curdelay\<rparr>);
     xad_write (0xB0 + i) (hi + uint (drop_bit 2 (event AND 0xF0))) s
   }"

definition psi_event :: "nat \<Rightarrow> psi_player \<Rightarrow> psi_player option" where
  "psi_event i s = do {
     s \<leftarrow> xad_write (0xA0 + i) 0 s;
     s \<leftarrow> xad_write (0xB0 + i) 0 s;
     (event, s) \<leftarrow> psi_read i s;
     (event, s) \<leftarrow> (if event = 0 then psi_loop i s else Some (event, s));
     (event, s) \<leftarrow> (if event AND 0x80 \<noteq> 0 then do {
         delay \<leftarrow> wr (psi_note_delay s) i (event AND 0x7F);
         psi_read i (s\<lparr>psi_note_delay := delay\<rparr>)
       } else Some (event, s));
     psi_note i event s
   }"

definition psi_channel :: "nat \<Rightarrow> psi_player \<Rightarrow> psi_player option" where
  "psi_channel i s = do {
     delay \<leftarrow> rd (psi_note_curdelay s) i;
     curdelay \<leftarrow> wr (psi_note_curdelay s) i (delay - 1);
     let s = s\<lparr>psi_note_curdelay := curdelay\<rparr>;
     if delay - 1 \<noteq> 0 then Some s else psi_event i s
   }"

definition psi_update :: "psi_player \<Rightarrow> psi_player option" where
  "psi_update s = ofold psi_channel [0..<8] s"

section \<open>Safety\<close>

text \<open>What the loader has checked of the tune.\<close>

definition psi_valid :: "bytes \<Rightarrow> nat \<Rightarrow> nat \<Rightarrow> bool" where
  "psi_valid tune instr sq \<longleftrightarrow>
     (\<forall>i < 8. \<exists>v. psi_le16 tune (instr + i * 2) = Some v \<and> unat v + 11 < length tune) \<and>
     (\<forall>i < 16. \<exists>v. psi_le16 tune (sq + i * 2) = Some v \<and> unat v < length tune)"

definition psi_shape :: "psi_player \<Rightarrow> bool" where
  "psi_shape s \<longleftrightarrow> xad_has_regs s \<and> length (psi_ptr s) = 8 \<and> length (psi_note_delay s) = 8 \<and>
     length (psi_note_curdelay s) = 8"

lemma psi_le16_total: "p + 1 < length tune \<Longrightarrow> \<exists>v. psi_le16 tune p = Some v"
  by (simp add: psi_le16_def rd_Some)

lemma psi_check_total:
  "(\<And>p. p \<in> set ps \<Longrightarrow> p + 1 < length tune) \<Longrightarrow>
   \<exists>b. psi_check tune slack ps = Some b \<and>
     (b \<longrightarrow> (\<forall>p \<in> set ps. \<exists>v. psi_le16 tune p = Some v \<and> unat v + slack < length tune))"
proof (induction ps)
  case Nil
  show ?case by (intro exI [of _ True]) simp
next
  case (Cons p ps)
  obtain v where "psi_le16 tune p = Some v" using psi_le16_total [of p tune] Cons.prems by auto
  then show ?case using Cons by (auto simp: not_le)
qed

lemma psi_load_ok:
  "\<exists>b t. psi_load s = Some (b, t) \<and> (b \<longrightarrow> psi_valid (xad_tune t) (psi_instr_table t) (psi_seq_table t)) \<and>
     (psi_shape s \<longrightarrow> psi_shape t)"
proof (cases "xad_fmt s \<noteq> xad_format_no PSI \<or> tune_size s < 4")
  case True
  then have "psi_load s = Some (False, s)" by (simp add: psi_load_def)
  then show ?thesis by blast
next
  case False
  obtain instr sq where le: "psi_le16 (xad_tune s) 0 = Some instr" "psi_le16 (xad_tune s) 2 = Some sq"
    using psi_le16_total [of 0 "xad_tune s"] psi_le16_total [of 2 "xad_tune s"] False by auto
  show ?thesis
  proof (cases "tune_size s \<le> unat instr + 8 * 2 \<or> tune_size s \<le> unat sq + 8 * 4")
    case True
    have "psi_load s = Some (False, s\<lparr>psi_instr_ptr := instr, psi_seq_ptr := sq\<rparr>)"
      using False le True by (simp add: psi_load_def Let_def)
    moreover have "psi_shape s \<longrightarrow> psi_shape (s\<lparr>psi_instr_ptr := instr, psi_seq_ptr := sq\<rparr>)"
      by (simp add: psi_shape_def xad_has_regs_def)
    ultimately show ?thesis by blast
  next
    case in_range: False
    let ?ip = "map (\<lambda>i. unat instr + i * 2) [0..<8]" and ?sp = "map (\<lambda>i. unat sq + i * 2) [0..<16]"
    have "p + 1 < tune_size s" if "p \<in> set ?ip" for p using that in_range by auto
    then obtain b where b: "psi_check (xad_tune s) 11 ?ip = Some b"
      "b \<longrightarrow> (\<forall>p \<in> set ?ip. \<exists>v. psi_le16 (xad_tune s) p = Some v \<and> unat v + 11 < tune_size s)"
      using psi_check_total [of ?ip "xad_tune s" 11] by blast
    have "p + 1 < tune_size s" if "p \<in> set ?sp" for p using that in_range by auto
    then obtain c where c: "psi_check (xad_tune s) 0 ?sp = Some c"
      "c \<longrightarrow> (\<forall>p \<in> set ?sp. \<exists>v. psi_le16 (xad_tune s) p = Some v \<and> unat v + 0 < tune_size s)"
      using psi_check_total [of ?sp "xad_tune s" 0] by blast
    have "psi_load s = Some (b \<and> c, s\<lparr>psi_instr_ptr := instr, psi_seq_ptr := sq, psi_instr_table := unat instr,
        psi_seq_table := unat sq\<rparr>)"
      using False in_range le b(1) c(1) by (auto simp: psi_load_def Let_def simp del: upt.simps)
    moreover have "b \<and> c \<longrightarrow> psi_valid (xad_tune s) (unat instr) (unat sq)"
      using b(2) c(2) by (simp add: psi_valid_def)
    ultimately show ?thesis by (simp add: psi_shape_def xad_has_regs_def)
  qed
qed

definition psi_ok :: "psi_player \<Rightarrow> bool" where
  "psi_ok s \<longleftrightarrow> psi_shape s \<and> psi_valid (xad_tune s) (psi_instr_table s) (psi_seq_table s) \<and>
     plr_playing s \<and> plr_looping s = (psi_looping s = 0xFF) \<and> (\<forall>j. bit (psi_looping s) j \<longrightarrow> j < 8)"

text \<open>The next event of channel \<open>i\<close> is the end of its sequence; and its next step reads it.\<close>

definition psi_ends :: "nat \<Rightarrow> psi_player \<Rightarrow> bool" where
  "psi_ends i s \<longleftrightarrow> tune_size s \<le> unat (psi_ptr s ! i) \<or> xad_tune s ! unat (psi_ptr s ! i) = 0"

definition psi_ending :: "nat \<Rightarrow> psi_player \<Rightarrow> bool" where
  "psi_ending i s \<longleftrightarrow> psi_note_curdelay s ! i = 1 \<and> psi_ends i s"

text \<open>
  What a channel has left before it loops, when the tune is small enough for the 16-bit position
  to move past its end.
\<close>

definition psi_weight :: "psi_player \<Rightarrow> nat \<Rightarrow> nat" where
  "psi_weight s i = (if bit (psi_looping s) i then 0
     else (tune_size s - unat (psi_ptr s ! i)) * 257 + xad_ticks (psi_note_curdelay s ! i))"

definition psi_fits :: "bytes \<Rightarrow> bool" where
  "psi_fits tune \<longleftrightarrow> length tune \<le> 65535"

text \<open>What a channel's step leaves alone: the tune and the other channels.\<close>

definition psi_frame :: "nat \<Rightarrow> psi_player \<Rightarrow> psi_player \<Rightarrow> bool" where
  "psi_frame i s t \<longleftrightarrow> xad_tune t = xad_tune s \<and> psi_instr_table t = psi_instr_table s \<and>
     psi_seq_table t = psi_seq_table s \<and> plr_playing t = plr_playing s \<and> psi_shape t \<and>
     (\<forall>j. j \<noteq> i \<longrightarrow> psi_ptr t ! j = psi_ptr s ! j \<and> psi_note_curdelay t ! j = psi_note_curdelay s ! j) \<and>
     (\<exists>es. opl_out t = opl_out s @ es)"

lemma psi_frame_trans: "psi_frame i s t \<Longrightarrow> psi_frame i t u \<Longrightarrow> psi_frame i s u"
  by (auto simp: psi_frame_def)

lemma psi_frame_refl: "psi_shape s \<Longrightarrow> psi_frame i s s"
  by (simp add: psi_frame_def)

lemma psi_frame_regs: "psi_shape s \<Longrightarrow> xad_regs s t \<Longrightarrow> psi_frame i s t"
  by (auto simp: xad_regs_def psi_frame_def psi_shape_def xad_has_regs_def)

text \<open>The operations inside a step also keep the channel's position, unless they read.\<close>

definition psi_same :: "nat \<Rightarrow> psi_player \<Rightarrow> psi_player \<Rightarrow> bool" where
  "psi_same i s t \<longleftrightarrow> psi_frame i s t \<and> psi_ptr t = psi_ptr s \<and> psi_looping t = psi_looping s \<and>
     plr_looping t = plr_looping s"

lemma psi_same_regs: "psi_shape s \<Longrightarrow> xad_regs s t \<Longrightarrow> psi_same i s t"
  using psi_frame_regs [of s t i] by (auto simp: psi_same_def xad_regs_def)

interpretation psi_step: step_calculus psi_shape "psi_same i" for i
  by unfold_locales (auto simp: psi_same_def psi_frame_refl intro: psi_frame_trans simp: psi_frame_def)

lemma psi_write_same: "reg < 256 \<Longrightarrow> op_ok psi_shape (psi_same i) (xad_write reg val)"
proof (rule op_okI)
  fix s assume reg: "reg < 256" and s: "psi_shape s"
  then have "xad_has_regs s" by (simp add: psi_shape_def)
  from op_okD [OF xad_op_write [OF reg] this] show "\<exists>t. xad_write reg val s = Some t \<and> psi_same i s t"
    using psi_same_regs [OF s] by blast
qed

lemma psi_read_eq:
  "psi_shape s \<Longrightarrow> i < 8 \<Longrightarrow>
   psi_read i s =
     (let p = psi_ptr s ! i in
      if unat p < tune_size s then Some (xad_tune s ! unat p, s\<lparr>psi_ptr := (psi_ptr s)[i := p + 1]\<rparr>)
      else Some (0, s))"
  by (simp add: psi_read_def psi_shape_def rd_Some wr_Some Let_def)

text \<open>Reading moves the position forward, or finds the end of the tune.\<close>

definition psi_moved :: "nat \<Rightarrow> psi_player \<Rightarrow> psi_player \<Rightarrow> bool" where
  "psi_moved i s t \<longleftrightarrow> psi_looping t = psi_looping s \<and> plr_looping t = plr_looping s \<and>
     (psi_fits (xad_tune s) \<longrightarrow> unat (psi_ptr s ! i) \<le> unat (psi_ptr t ! i))"

lemma psi_read_ok:
  assumes "psi_shape s" "i < 8"
  shows "\<exists>e t. psi_read i s = Some (e, t) \<and> psi_frame i s t \<and> psi_moved i s t \<and>
    (psi_fits (xad_tune s) \<and> e \<noteq> 0 \<longrightarrow> unat (psi_ptr s ! i) < unat (psi_ptr t ! i) \<and>
       unat (psi_ptr s ! i) < tune_size s) \<and> (e = 0 \<longrightarrow> psi_ends i s)"
proof (cases "unat (psi_ptr s ! i) < tune_size s")
  case True
  let ?t = "s\<lparr>psi_ptr := (psi_ptr s)[i := psi_ptr s ! i + 1]\<rparr>"
  have "psi_frame i s ?t" using assms by (simp add: psi_frame_def psi_shape_def xad_has_regs_def)
  moreover have "unat (psi_ptr s ! i + 1) = unat (psi_ptr s ! i) + 1" if "psi_fits (xad_tune s)"
    using that True by (simp add: psi_fits_def unat_word_ariths)
  then have "unat (psi_ptr s ! i) < unat (psi_ptr ?t ! i)" if "psi_fits (xad_tune s)"
    using that assms by (simp add: psi_shape_def)
  moreover from this have "psi_moved i s ?t" by (auto simp: psi_moved_def)
  ultimately show ?thesis using True by (auto simp: psi_read_eq [OF assms] Let_def psi_ends_def)
next
  case False
  then show ?thesis using assms(1) by (auto simp: psi_read_eq [OF assms] Let_def psi_frame_refl psi_moved_def psi_ends_def)
qed

lemma psi_loop_ok:
  assumes "psi_shape s" "psi_valid (xad_tune s) (psi_instr_table s) (psi_seq_table s)" "i < 8"
  shows "\<exists>e t. psi_loop i s = Some (e, t) \<and> psi_frame i s t \<and>
    psi_looping t = psi_looping s OR push_bit i 1 \<and> plr_looping t = (psi_looping t = 0xFF)"
proof -
  have "2 * i + 1 < 16" using assms(3) by simp
  then have "\<exists>v. psi_le16 (xad_tune s) (psi_seq_table s + (2 * i + 1) * 2) = Some v \<and> unat v < tune_size s"
    using assms(2) unfolding psi_valid_def by blast
  moreover have "(2 * i + 1) * 2 = i * 4 + 2" by simp
  ultimately have "\<exists>v. psi_le16 (xad_tune s) (psi_seq_table s + (i * 4 + 2)) = Some v \<and> unat v < tune_size s"
    by metis
  then obtain v where "psi_le16 (xad_tune s) (psi_seq_table s + (i * 4 + 2)) = Some v" "unat v < tune_size s"
    by blast
  then show ?thesis using assms(1,3)
    by (simp add: psi_loop_def rd_Some wr_Some psi_shape_def psi_frame_def xad_has_regs_def Let_def)
qed

lemma length_psi_tables [simp]: "length psi_notes = 16" "matrix 9 11 psi_registers"
  by (simp_all add: psi_notes_def psi_registers_def matrix_def)

lemma psi_note_ok: "i < 8 \<Longrightarrow> op_ok psi_shape (psi_same i) (psi_note i event)"
proof (rule op_okI)
  fix s assume i: "i < 8" and s: "psi_shape s"
  have "event AND 0x0F \<le> 0x0F" by (rule word_and_le1)
  then have e: "unat (event AND 0x0F) < 16" by (simp add: word_le_nat_alt)
  let ?n = "psi_notes ! unat (event AND 0x0F)"
  let ?s = "s\<lparr>psi_note_curdelay := (psi_note_curdelay s)[i := psi_note_delay s ! i]\<rparr>"
  have same: "psi_same i s ?s" using s i by (simp add: psi_same_def psi_frame_def psi_shape_def xad_has_regs_def)
  have "op_ok psi_shape (psi_same i) (\<lambda>s. Option.bind (xad_write (0xA0 + i) (snd ?n) s)
      (xad_write (0xB0 + i) (fst ?n + uint (drop_bit 2 (event AND 0xF0)))))"
    by (intro psi_step.ok_bind psi_write_same) (use i in simp_all)
  from op_okD [OF this psi_step.keep_pre [OF s same]] same
  show "\<exists>t. psi_note i event s = Some t \<and> psi_same i s t"
    using s i e by (auto simp: psi_note_def rd_Some wr_Some psi_shape_def case_prod_beta intro: psi_step.keep_trans)
qed

text \<open>An event moves the channel on, or loops it.\<close>

definition psi_advanced :: "nat \<Rightarrow> psi_player \<Rightarrow> psi_player \<Rightarrow> bool" where
  "psi_advanced i s t \<longleftrightarrow>
     (psi_looping t = psi_looping s \<and> plr_looping t = plr_looping s \<and>
      (psi_fits (xad_tune s) \<longrightarrow> unat (psi_ptr s ! i) < unat (psi_ptr t ! i) \<and> unat (psi_ptr s ! i) < tune_size s)) \<or>
     (psi_looping t = psi_looping s OR push_bit i 1 \<and> plr_looping t = (psi_looping t = 0xFF) \<and> psi_ends i s)"

lemma psi_advanced_moved:
  "psi_advanced i s t \<Longrightarrow> psi_moved i t u \<Longrightarrow> psi_frame i s t \<Longrightarrow> psi_advanced i s u"
  by (fastforce simp: psi_advanced_def psi_moved_def psi_frame_def)

lemma psi_same_moved: "psi_same i s t \<Longrightarrow> psi_moved i s t"
  by (simp add: psi_same_def psi_moved_def)

lemma psi_event_ok:
  assumes s: "psi_shape s" "psi_valid (xad_tune s) (psi_instr_table s) (psi_seq_table s)" "i < 8"
  shows "\<exists>t. psi_event i s = Some t \<and> psi_frame i s t \<and> psi_advanced i s t"
proof -
  have "op_ok psi_shape (psi_same i) (\<lambda>s. Option.bind (xad_write (0xA0 + i) 0 s) (xad_write (0xB0 + i) 0))"
    by (intro psi_step.ok_bind psi_write_same) (use s(3) in simp_all)
  from op_okD [OF this s(1)] obtain s1 where
    s1: "Option.bind (xad_write (0xA0 + i) 0 s) (xad_write (0xB0 + i) 0) = Some s1" "psi_same i s s1" by blast
  then have f1: "psi_frame i s s1" "psi_shape s1" by (simp_all add: psi_same_def psi_frame_def)
  obtain e2 s2 where s2: "psi_read i s1 = Some (e2, s2)" "psi_frame i s1 s2" "psi_moved i s1 s2"
    "psi_fits (xad_tune s1) \<and> e2 \<noteq> 0 \<longrightarrow> unat (psi_ptr s1 ! i) < unat (psi_ptr s2 ! i) \<and>
       unat (psi_ptr s1 ! i) < tune_size s1" "e2 = 0 \<longrightarrow> psi_ends i s1"
    using psi_read_ok [OF f1(2) s(3)] by blast
  have "\<exists>e3 s3. (if e2 = 0 then psi_loop i s2 else Some (e2, s2)) = Some (e3, s3) \<and>
      psi_frame i s s3 \<and> psi_advanced i s s3"
  proof (cases "e2 = 0")
    case True
    have "psi_shape s2" "psi_valid (xad_tune s2) (psi_instr_table s2) (psi_seq_table s2)"
      using psi_frame_trans [OF f1(1) s2(2)] s(2) by (simp_all add: psi_frame_def)
    from psi_loop_ok [OF this s(3)] obtain e3 s3 where s3: "psi_loop i s2 = Some (e3, s3)" "psi_frame i s2 s3"
      "psi_looping s3 = psi_looping s2 OR push_bit i 1" "plr_looping s3 = (psi_looping s3 = 0xFF)" by blast
    have "psi_looping s2 = psi_looping s" using s1(2) s2(3) by (simp add: psi_same_def psi_moved_def)
    moreover have "psi_ends i s" using True s2(5) s1(2) f1(1) by (simp add: psi_ends_def psi_same_def psi_frame_def)
    ultimately have "psi_advanced i s s3" using s3(3,4) by (simp add: psi_advanced_def)
    then show ?thesis using True s3(1) psi_frame_trans [OF psi_frame_trans [OF f1(1) s2(2)] s3(2)] by simp
  next
    case False
    then have "psi_advanced i s s2" using s1(2) s2(3,4) f1(1)
      by (simp add: psi_advanced_def psi_same_def psi_moved_def psi_frame_def)
    then show ?thesis using False psi_frame_trans [OF f1(1) s2(2)] by simp
  qed
  then obtain e3 s3 where s3: "(if e2 = 0 then psi_loop i s2 else Some (e2, s2)) = Some (e3, s3)"
    "psi_frame i s s3" "psi_advanced i s s3" by blast
  let ?delay = "if e3 AND 0x80 \<noteq> 0 then do {
         delay \<leftarrow> wr (psi_note_delay s3) i (e3 AND 0x7F);
         psi_read i (s3\<lparr>psi_note_delay := delay\<rparr>)
       } else Some (e3, s3)"
  have shape3: "psi_shape s3" using s3(2) by (simp add: psi_frame_def)
  have "\<exists>e4 s4. ?delay = Some (e4, s4) \<and> psi_frame i s3 s4 \<and> psi_moved i s3 s4"
  proof (cases "e3 AND 0x80 = 0")
    case True
    then show ?thesis using shape3 by (simp add: psi_frame_refl psi_moved_def)
  next
    case False
    let ?t = "s3\<lparr>psi_note_delay := (psi_note_delay s3)[i := e3 AND 0x7F]\<rparr>"
    have t: "psi_shape ?t" "psi_frame i s3 ?t"
      using shape3 by (simp_all add: psi_shape_def psi_frame_def xad_has_regs_def)
    obtain e4 s4 where s4: "psi_read i ?t = Some (e4, s4)" "psi_frame i ?t s4" "psi_moved i ?t s4"
      using psi_read_ok [OF t(1) s(3)] by blast
    then have "psi_moved i s3 s4" by (simp add: psi_moved_def)
    then show ?thesis using False s4(1) psi_frame_trans [OF t(2) s4(2)] shape3 s(3)
      by (simp add: psi_shape_def wr_Some)
  qed
  then obtain e4 s4 where s4: "?delay = Some (e4, s4)" "psi_frame i s3 s4" "psi_moved i s3 s4" by blast
  have "psi_shape s4" using s4(2) by (simp add: psi_frame_def)
  from op_okD [OF psi_note_ok [OF s(3)] this] obtain s5 where
    s5: "psi_note i e4 s4 = Some s5" "psi_same i s4 s5" by blast
  have f4: "psi_frame i s s4" by (rule psi_frame_trans [OF s3(2) s4(2)])
  obtain w where w: "xad_write (0xA0 + i) 0 s = Some w" "xad_write (0xB0 + i) 0 w = Some s1"
    using s1(1) by (elim bind_eq_SomeE)
  have "psi_event i s = Some s5"
    by (simp only: psi_event_def w s2(1) s3(1) s4(1) s5(1) bind.bind_lunit prod.case)
  moreover have "psi_frame i s s5" using psi_frame_trans [OF f4] s5(2) by (simp add: psi_same_def)
  moreover have "psi_advanced i s s5"
    using psi_advanced_moved [OF psi_advanced_moved [OF s3(3) s4(3) s3(2)] psi_same_moved [OF s5(2)] f4] .
  ultimately show ?thesis by blast
qed

text \<open>What a channel's step does to the invariant and to the channel's weight.\<close>

definition psi_lighter :: "nat \<Rightarrow> psi_player \<Rightarrow> psi_player \<Rightarrow> bool" where
  "psi_lighter i s t \<longleftrightarrow> psi_weight t i < psi_weight s i \<or> bit (psi_looping t) i"

lemma psi_channel_ok:
  assumes s: "psi_ok s" "i < 8"
  shows "\<exists>t. psi_channel i s = Some t \<and> psi_frame i s t \<and> psi_ok t \<and>
    (\<forall>j. j \<noteq> i \<longrightarrow> bit (psi_looping t) j = bit (psi_looping s) j) \<and>
    (psi_fits (xad_tune s) \<longrightarrow> psi_lighter i s t) \<and> (bit (psi_looping t) i \<longrightarrow> bit (psi_looping s) i \<or> psi_ending i s)"
proof -
  let ?d = "psi_note_curdelay s ! i"
  let ?s = "s\<lparr>psi_note_curdelay := (psi_note_curdelay s)[i := ?d - 1]\<rparr>"
  have shape: "psi_shape s" "psi_shape ?s" using s(1) by (simp_all add: psi_ok_def psi_shape_def xad_has_regs_def)
  have frame: "psi_frame i s ?s" using shape(2) by (simp add: psi_frame_def)
  have run: "psi_channel i s = (if ?d - 1 \<noteq> 0 then Some ?s else psi_event i ?s)"
    using shape(1) s(2) by (simp add: psi_channel_def psi_shape_def rd_Some wr_Some)
  show ?thesis
  proof (cases "?d - 1 = 0")
    case False
    have "psi_lighter i s ?s"
      using xad_ticks_step [OF False] shape(1) s(2) by (simp add: psi_lighter_def psi_weight_def psi_shape_def)
    then show ?thesis using False run frame shape(2) s(1) by (simp add: psi_ok_def)
  next
    case True
    have valid: "psi_valid (xad_tune ?s) (psi_instr_table ?s) (psi_seq_table ?s)" using s(1) by (simp add: psi_ok_def)
    obtain t where t: "psi_event i ?s = Some t" "psi_frame i ?s t" "psi_advanced i ?s t"
      using psi_event_ok [OF shape(2) valid s(2)] by blast
    have f: "psi_frame i s t" by (rule psi_frame_trans [OF frame t(2)])
    have bits: "bit (psi_looping s OR push_bit i 1) j = (bit (psi_looping s) j \<or> j = i)" for j
      using s(2) by (auto simp: bit_simps)
    have flags: "psi_looping t = psi_looping s \<and> plr_looping t = plr_looping s \<or>
        psi_looping t = psi_looping s OR push_bit i 1 \<and> plr_looping t = (psi_looping t = 0xFF)"
      using t(3) by (fastforce simp: psi_advanced_def)
    have others: "bit (psi_looping t) j = bit (psi_looping s) j \<or> j = i" for j
      using flags by (elim disjE conjE) (auto simp only: bits)
    have "\<forall>j. bit (psi_looping t) j \<longrightarrow> j < 8"
      using others s by (auto simp: psi_ok_def)
    moreover have "plr_looping t = (psi_looping t = 0xFF)"
      using flags s(1) by (elim disjE conjE) (simp_all only: psi_ok_def)
    ultimately have "psi_ok t" using f s(1) by (simp add: psi_ok_def psi_frame_def)
    moreover have "\<forall>j. j \<noteq> i \<longrightarrow> bit (psi_looping t) j = bit (psi_looping s) j" using others by blast
    moreover have "psi_lighter i s t" if "psi_fits (xad_tune s)"
    proof (cases "bit (psi_looping t) i")
      case False
      then have a: "psi_looping t = psi_looping s" "unat (psi_ptr s ! i) < unat (psi_ptr t ! i)"
        "unat (psi_ptr s ! i) < tune_size s"
        using t(3) that bits by (auto simp: psi_advanced_def)
      have "tune_size t - unat (psi_ptr t ! i) + 1 \<le> tune_size s - unat (psi_ptr s ! i)"
        using a(2,3) f by (simp add: psi_frame_def)
      then have "(tune_size t - unat (psi_ptr t ! i) + 1) * 257 \<le> (tune_size s - unat (psi_ptr s ! i)) * 257"
        by (rule mult_le_mono1)
      then show ?thesis using False a(1) xad_ticks_le [of "psi_note_curdelay t ! i"]
        by (simp add: psi_lighter_def psi_weight_def)
    qed (simp add: psi_lighter_def)
    moreover have "psi_ending i s" if "bit (psi_looping t) i" "\<not> bit (psi_looping s) i"
    proof -
      have "psi_ends i ?s" using t(3) that by (auto simp: psi_advanced_def)
      then show ?thesis using True by (simp add: psi_ending_def psi_ends_def)
    qed
    ultimately show ?thesis using run True t(1) f by (simp, blast)
  qed
qed

text \<open>One tick: every channel steps.\<close>

definition psi_tick :: "nat \<Rightarrow> psi_player \<Rightarrow> psi_player \<Rightarrow> bool" where
  "psi_tick n s t \<longleftrightarrow> xad_tune t = xad_tune s \<and> (\<exists>es. opl_out t = opl_out s @ es) \<and>
     (\<forall>j. n \<le> j \<longrightarrow> bit (psi_looping t) j = bit (psi_looping s) j \<and> psi_weight t j = psi_weight s j) \<and>
     (\<forall>j. n \<le> j \<longrightarrow> psi_ptr t ! j = psi_ptr s ! j \<and> psi_note_curdelay t ! j = psi_note_curdelay s ! j) \<and>
     (\<forall>j < n. bit (psi_looping t) j \<longrightarrow> bit (psi_looping s) j \<or> psi_ending j s) \<and>
     (psi_fits (xad_tune s) \<longrightarrow> (\<forall>j < n. psi_lighter j s t))"

lemma psi_weight_frame:
  "psi_frame i s t \<Longrightarrow> j \<noteq> i \<Longrightarrow> bit (psi_looping t) j = bit (psi_looping s) j \<Longrightarrow>
   psi_weight t j = psi_weight s j"
  by (simp add: psi_weight_def psi_frame_def)

lemma psi_tick_step:
  assumes tick: "psi_tick n s t" and f: "psi_frame n t u"
    and bits: "\<forall>j. j \<noteq> n \<longrightarrow> bit (psi_looping u) j = bit (psi_looping t) j"
    and light: "psi_fits (xad_tune t) \<longrightarrow> psi_lighter n t u"
    and ending: "bit (psi_looping u) n \<longrightarrow> bit (psi_looping t) n \<or> psi_ending n t"
  shows "psi_tick (Suc n) s u"
  unfolding psi_tick_def
proof (intro conjI)
  have weight: "psi_weight u j = psi_weight t j" if "j \<noteq> n" for j
    using psi_weight_frame [OF f that] bits that by simp
  show "xad_tune u = xad_tune s" using tick f by (simp add: psi_tick_def psi_frame_def)
  show "\<exists>es. opl_out u = opl_out s @ es" using tick f by (auto simp: psi_tick_def psi_frame_def)
  show "\<forall>j. Suc n \<le> j \<longrightarrow> bit (psi_looping u) j = bit (psi_looping s) j \<and> psi_weight u j = psi_weight s j"
    using tick bits weight by (simp add: psi_tick_def)
  show "\<forall>j. Suc n \<le> j \<longrightarrow> psi_ptr u ! j = psi_ptr s ! j \<and> psi_note_curdelay u ! j = psi_note_curdelay s ! j"
    using tick f by (simp add: psi_tick_def psi_frame_def)
  have "psi_ending n t = psi_ending n s" using tick by (simp add: psi_tick_def psi_ending_def psi_ends_def)
  then show "\<forall>j < Suc n. bit (psi_looping u) j \<longrightarrow> bit (psi_looping s) j \<or> psi_ending j s"
    using tick bits ending by (auto simp: psi_tick_def less_Suc_eq)
  show "psi_fits (xad_tune s) \<longrightarrow> (\<forall>j < Suc n. psi_lighter j s u)"
  proof (intro impI allI)
    fix j assume fits: "psi_fits (xad_tune s)" and "j < Suc n"
    show "psi_lighter j s u"
    proof (cases "j = n")
      case True
      have "psi_lighter n t u" using light fits tick by (simp add: psi_tick_def)
      then show ?thesis using True tick by (simp add: psi_lighter_def psi_tick_def)
    next
      case False
      then have "psi_lighter j s t" using tick fits \<open>j < Suc n\<close> by (simp add: psi_tick_def)
      then show ?thesis using weight [OF False] bits False by (simp add: psi_lighter_def)
    qed
  qed
qed

lemma psi_channels_ok:
  assumes "psi_ok s"
  shows "n \<le> 8 \<Longrightarrow> \<exists>t. ofold psi_channel [0..<n] s = Some t \<and> psi_ok t \<and> psi_tick n s t"
proof (induction n)
  case 0
  then show ?case using assms by (simp add: psi_tick_def)
next
  case (Suc n)
  then obtain t where t: "ofold psi_channel [0..<n] s = Some t" "psi_ok t" "psi_tick n s t" by auto
  have "n < 8" using Suc.prems by simp
  from psi_channel_ok [OF t(2) this] obtain u where u: "psi_channel n t = Some u" "psi_frame n t u" "psi_ok u"
    "\<forall>j. j \<noteq> n \<longrightarrow> bit (psi_looping u) j = bit (psi_looping t) j" "psi_fits (xad_tune t) \<longrightarrow> psi_lighter n t u"
    "bit (psi_looping u) n \<longrightarrow> bit (psi_looping t) n \<or> psi_ending n t"
    by blast
  have "ofold psi_channel [0..<Suc n] s = Some u" using t(1) u(1) by (simp add: ofold_append)
  then show ?case using psi_tick_step [OF t(3) u(2,4,5,6)] u(3) by blast
qed

text \<open>The song's measure: what its channels have left, which drops as long as one has not looped.\<close>

definition psi_left :: "psi_player \<Rightarrow> nat" where
  "psi_left s = (\<Sum>i < 8. psi_weight s i)"

lemma psi_weight_counter: "psi_weight (s\<lparr>plr_speed_counter := c\<rparr>) i = psi_weight s i"
  by (cases "bit (psi_looping s) i") (simp_all add: psi_weight_def)

lemma psi_unlooped: "psi_ok s \<Longrightarrow> \<not> plr_looping s \<Longrightarrow> \<exists>i < 8. \<not> bit (psi_looping s) i"
proof (rule ccontr)
  assume ok: "psi_ok s" "\<not> plr_looping s" and "\<not> (\<exists>i < 8. \<not> bit (psi_looping s) i)"
  then have all: "bit (psi_looping s) j \<longleftrightarrow> j < 8" for j unfolding psi_ok_def by blast
  have ff: "bit (0xFF :: u16) j \<longleftrightarrow> j < 8" for j
  proof -
    have "(0xFF :: u16) = mask 8" by (simp add: mask_eq_exp_minus_1)
    show ?thesis unfolding \<open>0xFF = mask 8\<close> by (auto simp: bit_mask_iff)
  qed
  then have "psi_looping s = 0xFF" by (intro bit_word_eqI) (simp only: all ff)
  then show False using ok by (simp add: psi_ok_def)
qed

lemma psi_tick_left:
  assumes "psi_tick 8 s t" "psi_ok t" "\<not> plr_looping t" "psi_fits (xad_tune s)"
  shows "psi_left t < psi_left s"
  unfolding psi_left_def
proof (rule sum_strict_mono_ex1)
  have light: "psi_lighter j s t" if "j < 8" for j using assms(1,4) that by (simp add: psi_tick_def)
  show "\<forall>j \<in> {..<8}. psi_weight t j \<le> psi_weight s j"
  proof
    fix j :: nat assume "j \<in> {..<8}"
    then have "psi_lighter j s t" using light by simp
    then show "psi_weight t j \<le> psi_weight s j" by (auto simp: psi_lighter_def psi_weight_def)
  qed
  obtain i where i: "i < 8" "\<not> bit (psi_looping t) i" using psi_unlooped [OF assms(2,3)] by blast
  then show "\<exists>j \<in> {..<8}. psi_weight t j < psi_weight s j" using light [OF i(1)] by (auto simp: psi_lighter_def)
qed simp

section \<open>Rewinding\<close>

lemma psi_start_channel_ok:
  assumes s: "psi_shape s" "psi_valid (xad_tune s) (psi_instr_table s) (psi_seq_table s)" and i: "i < 8"
  shows "\<exists>t. psi_start_channel i s = Some t \<and> psi_frame i s t \<and> plr_looping t = plr_looping s"
proof -
  obtain inspos where inspos: "psi_le16 (xad_tune s) (psi_instr_table s + i * 2) = Some inspos"
    "unat inspos + 11 < tune_size s" using s(2) i by (auto simp: psi_valid_def)
  have "2 * i < 16" using i by simp
  then have "\<exists>v. psi_le16 (xad_tune s) (psi_seq_table s + 2 * i * 2) = Some v"
    using s(2) unfolding psi_valid_def by blast
  then obtain p where p: "psi_le16 (xad_tune s) (psi_seq_table s + i * 4) = Some p" by (auto simp: mult.commute)
  define tune where "tune = xad_tune s"
  let ?f = "\<lambda>j s. do { reg \<leftarrow> rd2 psi_registers i j; val \<leftarrow> rd (xad_tune s) (unat inspos + j);
    xad_write reg (uint val) s }"
  have regs: "psi_registers ! i ! j < 256" if "j < 11" for j
  proof -
    have "list_all (list_all (\<lambda>r. r < 256)) psi_registers" by (simp add: psi_registers_def)
    moreover have "length psi_registers = 9" "length (psi_registers ! i) = 11"
      using matrix_length [OF length_psi_tables(2)] matrix_row [OF length_psi_tables(2)] i by simp_all
    ultimately show ?thesis using that i by (simp add: list_all_length)
  qed
  have "\<exists>t. ofold ?f [0..<11] s = Some t \<and> psi_same i s t"
  proof (rule ofold_invariant [of "psi_same i s"])
    show "psi_same i s s" by (rule psi_step.keep_refl [OF s(1)])
    fix j u assume "j \<in> set [0..<11]" and u: "psi_same i s u"
    then have j: "j < 11" by simp
    have "rd (xad_tune u) (unat inspos + j) = Some (tune ! (unat inspos + j))"
      using inspos(2) j u by (simp add: psi_same_def psi_frame_def rd_Some tune_def)
    moreover have "rd2 psi_registers i j = Some (psi_registers ! i ! j)"
      using i j by (simp add: rd2_Some [OF length_psi_tables(2)])
    ultimately have run: "?f j u = xad_write (psi_registers ! i ! j) (uint (tune ! (unat inspos + j))) u" by simp
    obtain v where "xad_write (psi_registers ! i ! j) (uint (tune ! (unat inspos + j))) u = Some v" "psi_same i u v"
      using op_okD [OF psi_write_same [OF regs [OF j]] psi_step.keep_pre [OF s(1) u]] by blast
    then show "\<exists>v. ?f j u = Some v \<and> psi_same i s v" using run psi_step.keep_trans [OF u] by metis
  qed
  then obtain t where t: "ofold ?f [0..<11] s = Some t" "psi_same i s t" by blast
  have "op_ok psi_shape (psi_same i) (\<lambda>s. Option.bind (xad_write (0xA0 + i) 0 s) (xad_write (0xB0 + i) 0))"
    by (intro psi_step.ok_bind psi_write_same) (use i in simp_all)
  from op_okD [OF this psi_step.keep_pre [OF s(1) t(2)]] obtain u where
    u: "Option.bind (xad_write (0xA0 + i) 0 t) (xad_write (0xB0 + i) 0) = Some u" "psi_same i t u" by blast
  obtain w where w: "xad_write (0xA0 + i) 0 t = Some w" "xad_write (0xB0 + i) 0 w = Some u"
    using u(1) by (elim bind_eq_SomeE)
  have su: "psi_same i s u" by (rule psi_step.keep_trans [OF t(2) u(2)])
  then have pu: "psi_le16 (xad_tune u) (psi_seq_table u + i * 4) = Some p" "psi_shape u"
    using p by (simp_all add: psi_same_def psi_frame_def)
  let ?v = "u\<lparr>psi_ptr := (psi_ptr u)[i := p], psi_note_delay := (psi_note_delay u)[i := 1],
    psi_note_curdelay := (psi_note_curdelay u)[i := 1]\<rparr>"
  have "psi_start_channel i s = Some ?v"
    using inspos(1) t(1) w pu i
    by (simp add: psi_start_channel_def psi_shape_def wr_Some del: upt.simps ofold.simps)
  moreover have "psi_frame i s ?v"
    using su i by (auto simp: psi_same_def psi_frame_def psi_shape_def xad_has_regs_def)
  moreover have "plr_looping ?v = plr_looping s" using su by (simp add: psi_same_def)
  ultimately show ?thesis by blast
qed

lemma psi_rewind_ok:
  assumes s: "psi_shape s" "psi_valid (xad_tune s) (psi_instr_table s) (psi_seq_table s)" "\<not> plr_looping s" "plr_playing s"
  shows "\<exists>t. psi_rewind n s = Some t \<and> psi_ok t \<and> xad_tune t = xad_tune s"
proof -
  have "op_ok psi_shape (psi_same 0) (\<lambda>s. Option.bind (xad_write 0x01 0x20 s)
      (\<lambda>s. Option.bind (xad_write 0x08 0x00 s) (xad_write 0xBD 0x00)))"
    by (intro psi_step.ok_bind psi_write_same) simp_all
  from op_okD [OF this s(1)] obtain t0 where
    t0: "Option.bind (xad_write 0x01 0x20 s) (\<lambda>s. Option.bind (xad_write 0x08 0x00 s) (xad_write 0xBD 0x00)) = Some t0"
    "psi_same 0 s t0" by blast
  let ?I = "\<lambda>u. psi_shape u \<and> xad_tune u = xad_tune s \<and> psi_instr_table u = psi_instr_table s \<and>
    psi_seq_table u = psi_seq_table s \<and> \<not> plr_looping u \<and> plr_playing u"
  have "\<exists>u. ofold psi_start_channel [0..<8] t0 = Some u \<and> ?I u"
  proof (rule ofold_invariant [of ?I])
    show "?I t0" using t0(2) s by (simp add: psi_same_def psi_frame_def)
    fix i u assume "i \<in> set [0..<8]" and u: "?I u"
    then have "i < 8" by simp
    moreover have "psi_valid (xad_tune u) (psi_instr_table u) (psi_seq_table u)" using u s(2) by simp
    ultimately obtain v where v: "psi_start_channel i u = Some v" "psi_frame i u v" "plr_looping v = plr_looping u"
      using psi_start_channel_ok u by blast
    then have "?I v" using u by (simp add: psi_frame_def)
    then show "\<exists>v. psi_start_channel i u = Some v \<and> ?I v" using v(1) by blast
  qed
  then obtain u where u: "ofold psi_start_channel [0..<8] t0 = Some u" "?I u" by blast
  obtain a b where ab: "xad_write 0x01 0x20 s = Some a" "xad_write 0x08 0x00 a = Some b" "xad_write 0xBD 0x00 b = Some t0"
    using t0(1) by (elim bind_eq_SomeE) (rule that)
  have "psi_rewind n s = Some (u\<lparr>psi_looping := 0\<rparr>)"
    by (simp only: psi_rewind_def ab u(1) bind.bind_lunit)
  moreover have "psi_ok (u\<lparr>psi_looping := 0\<rparr>)"
    using u(2) s(2) by (simp add: psi_ok_def psi_shape_def xad_has_regs_def)
  ultimately show ?thesis using u(2) by simp
qed

section \<open>The song as a player\<close>

lemma psi_update_ok:
  assumes "psi_ok s"
  shows "\<exists>t. psi_update s = Some t \<and> psi_ok t \<and> psi_tick 8 s t"
  using psi_channels_ok [OF assms, of 8] by (simp add: psi_update_def del: upt.simps ofold.simps)

lemma psi_started:
  "psi_shape (xad_start s) = psi_shape s"
  "xad_tune (xad_start s) = xad_tune s" "psi_instr_table (xad_start s) = psi_instr_table s"
  "psi_seq_table (xad_start s) = psi_seq_table s" "\<not> plr_looping (xad_start s)" "plr_playing (xad_start s)"
  by (simp_all add: psi_shape_def xad_has_regs_def xad_start_def opl_init_def)

lemma psi_load_rewinds:
  assumes "psi_shape s"
  shows "\<exists>b t. psi_load s = Some (b, t) \<and>
    (b \<longrightarrow> (\<exists>u. psi_rewind 0 (xad_start t) = Some u \<and> psi_ok u \<and> xad_tune u = xad_tune t))"
proof -
  obtain b t where t: "psi_load s = Some (b, t)"
    "b \<longrightarrow> psi_valid (xad_tune t) (psi_instr_table t) (psi_seq_table t)" "psi_shape t"
    using psi_load_ok [of s] assms by blast
  have "\<exists>u. psi_rewind 0 (xad_start t) = Some u \<and> psi_ok u \<and> xad_tune u = xad_tune t" if b
    using psi_rewind_ok [of "xad_start t" 0] t(2,3) that by (simp add: psi_started)
  then show ?thesis using t(1) by blast
qed

interpretation psi_any: xad_song psi_load psi_rewind psi_update psi_shape psi_ok "\<lambda>_. True"
proof unfold_locales
  fix s :: psi_player and n :: int
  assume "psi_ok s"
  then have "psi_shape s" "psi_valid (xad_tune s) (psi_instr_table s) (psi_seq_table s)"
    by (simp_all add: psi_ok_def)
  then show "\<exists>t. psi_rewind n (xad_start s) = Some t \<and> psi_ok t"
    using psi_rewind_ok [of "xad_start s" n] by (auto simp: psi_started)
next
  fix s :: psi_player assume "psi_shape s"
  then show "\<exists>b t. psi_load s = Some (b, t) \<and>
      (b \<longrightarrow> (\<exists>u. psi_rewind 0 (xad_start t) = Some u \<and> (True \<longrightarrow> psi_ok u)))"
    using psi_load_rewinds by blast
next
  fix s :: psi_player assume "psi_ok s"
  then show "\<exists>t es. psi_update s = Some t \<and> psi_ok t \<and> opl_out t = opl_out s @ es"
    using psi_update_ok [of s] unfolding psi_tick_def by blast
qed (simp_all add: psi_shape_def psi_ok_def xad_has_regs_def xad_set_header_def)

interpretation psi: xad_ending_song psi_load psi_rewind psi_update psi_shape
    "\<lambda>s. psi_ok s \<and> psi_fits (xad_tune s)" psi_fits psi_left
proof unfold_locales
  fix s :: psi_player and n :: int
  assume s: "psi_ok s \<and> psi_fits (xad_tune s)"
  then have "psi_shape s" "psi_valid (xad_tune s) (psi_instr_table s) (psi_seq_table s)"
    by (simp_all add: psi_ok_def)
  then show "\<exists>t. psi_rewind n (xad_start s) = Some t \<and> psi_ok t \<and> psi_fits (xad_tune t)"
    using psi_rewind_ok [of "xad_start s" n] s by (auto simp: psi_started)
next
  fix s :: psi_player assume "psi_shape s"
  then show "\<exists>b t. psi_load s = Some (b, t) \<and> (b \<longrightarrow> (\<exists>u. psi_rewind 0 (xad_start t) = Some u \<and>
      (psi_fits (xad_tune u) \<longrightarrow> psi_ok u \<and> psi_fits (xad_tune u))))"
    using psi_load_rewinds by blast
next
  fix s :: psi_player assume s: "psi_ok s \<and> psi_fits (xad_tune s)"
  then obtain t where t: "psi_update s = Some t" "psi_ok t" "psi_tick 8 s t" using psi_update_ok by blast
  then have "psi_fits (xad_tune t)" using s by (simp add: psi_tick_def)
  then show "\<exists>t es. psi_update s = Some t \<and> (psi_ok t \<and> psi_fits (xad_tune t)) \<and> opl_out t = opl_out s @ es"
    using t unfolding psi_tick_def by blast
next
  fix s t assume s: "psi_ok s \<and> psi_fits (xad_tune s)" and t: "psi_update s = Some t" "\<not> plr_looping t"
  then obtain u where u: "psi_update s = Some u" "psi_ok u" "psi_tick 8 s u" using psi_update_ok [of s] by blast
  then have "u = t" using t(1) by simp
  then show "psi_left t < psi_left s" using psi_tick_left [of s t] u(2,3) t(2) s by simp
qed (simp_all add: psi_shape_def psi_ok_def xad_has_regs_def psi_left_def psi_weight_counter xad_set_header_def)

section \<open>Every channel loops\<close>

text \<open>
  The tick from \<open>s\<close> steps the channels, and channel \<open>i\<close> reads the end of its sequence: it goes to its loop. This
  speaks of the tune and the positions only, not of the flags the player keeps.
\<close>

definition psi_at_loop :: "nat \<Rightarrow> psi_player \<Rightarrow> bool" where
  "psi_at_loop i s \<longleftrightarrow> plr_speed_counter s = 1 \<and> psi_note_curdelay s ! i = 1 \<and>
     (tune_size s \<le> unat (psi_ptr s ! i) \<or> xad_tune s ! unat (psi_ptr s ! i) = 0)"

lemma psi_tick_loops:
  assumes s: "psi_ok s" and upd: "xad_update psi_update s = Some (go, t)"
  shows "psi_ok t \<and> (\<forall>i < 8. bit (psi_looping t) i \<longrightarrow> bit (psi_looping s) i \<or> psi_at_loop i s)"
proof (cases "plr_speed_counter s - 1 = 0")
  case True
  then have one: "plr_speed_counter s = 1" by simp
  let ?s = "s\<lparr>plr_speed_counter := plr_speed s\<rparr>"
  have "psi_ok ?s" using s by (simp add: psi_ok_def psi_shape_def xad_has_regs_def)
  then obtain u where u: "psi_update ?s = Some u" "psi_ok u" "psi_tick 8 ?s u" using psi_update_ok by blast
  then have "u = t" using upd True by (simp add: xad_update_def Let_def)
  moreover have "psi_ending i ?s = psi_at_loop i s" for i
    using one by (simp add: psi_ending_def psi_ends_def psi_at_loop_def)
  ultimately show ?thesis using u(2,3) by (simp add: psi_tick_def)
next
  case False
  then have "t = s\<lparr>plr_speed_counter := plr_speed_counter s - 1\<rparr>" using upd by (simp add: xad_update_def Let_def)
  then show ?thesis using s by (simp add: psi_ok_def psi_shape_def xad_has_regs_def)
qed

lemma psi_ticks_loops:
  "psi_ok s \<Longrightarrow> play_on (xad_update psi_update) n s = Some u \<Longrightarrow>
   psi_ok u \<and> (\<forall>i < 8. bit (psi_looping u) i \<longrightarrow>
     bit (psi_looping s) i \<or> (\<exists>k < n. \<exists>w. play_on (xad_update psi_update) k s = Some w \<and> psi_at_loop i w))"
proof (induction n arbitrary: s)
  case (Suc n)
  obtain t where t: "xad_update psi_update s = Some (True, t)" "play_on (xad_update psi_update) n t = Some u"
    using Suc.prems(2) by (auto split: bind_splits if_splits)
  note step = psi_tick_loops [OF Suc.prems(1) t(1)]
  then have ok: "psi_ok t" by blast
  show ?case
  proof (intro conjI allI impI)
    show "psi_ok u" using Suc.IH [OF ok t(2)] by blast
    fix i :: nat assume i: "i < 8" "bit (psi_looping u) i"
    then consider "bit (psi_looping t) i" | k w where "k < n" "play_on (xad_update psi_update) k t = Some w" "psi_at_loop i w"
      using Suc.IH [OF ok t(2)] by blast
    then show "bit (psi_looping s) i \<or> (\<exists>k < Suc n. \<exists>w. play_on (xad_update psi_update) k s = Some w \<and> psi_at_loop i w)"
    proof cases
      case 1
      then have "bit (psi_looping s) i \<or> psi_at_loop i s" using step i(1) by blast
      then show ?thesis by (metis play_on.simps(1) zero_less_Suc)
    next
      case 2
      then have "Suc k < Suc n" "play_on (xad_update psi_update) (Suc k) s = Some w" using t(1) by simp_all
      then show ?thesis using 2(3) by blast
    qed
  qed
qed simp

lemma psi_all_loop:
  assumes s: "psi_ok s" "psi_looping s = 0" and u: "play_on (xad_update psi_update) n s = Some u"
    and last: "xad_update psi_update u = Some (False, v)" and i: "i < 8"
  shows "\<exists>k \<le> n. \<exists>w. play_on (xad_update psi_update) k s = Some w \<and> psi_at_loop i w"
proof -
  note hist = psi_ticks_loops [OF s(1) u]
  then have uok: "psi_ok u" by blast
  note step = psi_tick_loops [OF uok last]
  then have "plr_looping v \<and> plr_looping v = (psi_looping v = 0xFF)"
    using last by (auto simp: psi_ok_def xad_update_def Let_def elim!: bind_eq_SomeE)
  then have ff: "psi_looping v = 0xFF" by blast
  have "(0xFF :: u16) = mask 8" by (simp add: mask_eq_exp_minus_1)
  then have "bit (psi_looping v) i" using i unfolding ff by (simp only: bit_mask_iff) simp
  then have "bit (psi_looping u) i \<or> psi_at_loop i u" using step i by blast
  then show ?thesis
  proof
    assume "bit (psi_looping u) i"
    then obtain k w where "k < n" "play_on (xad_update psi_update) k s = Some w" "psi_at_loop i w" using hist i s(2) by auto
    then show ?thesis using less_imp_le by blast
  next
    assume "psi_at_loop i u"
    then show ?thesis using u by blast
  qed
qed

text \<open>C26: load of a PSI song returns for every file. An accepted song of at most 65535 bytes plays, without a fault and
  without an end reported before, to an update that reports the end; and by then each of its eight channels has come
  to the end of its sequence, in some tick of its own.\<close>

theorem psi_song_ends:
  assumes "stream_laws io P" "\<And>f. opn filename = Some f \<Longrightarrow> P f" "psi_shape s"
    "length (xad_title s) = 36" "length (xad_author s) = 36"
  shows "\<exists>b t. xad_load io opn mem psi_load psi_rewind filename s = Some (b, t) \<and>
    (b \<and> psi_fits (xad_tune t) \<longrightarrow>
      (\<exists>n u v. play_on (xad_update psi_update) n t = Some u \<and> xad_update psi_update u = Some (False, v) \<and>
        (\<forall>i < 8. \<exists>k \<le> n. \<exists>w. play_on (xad_update psi_update) k t = Some w \<and> psi_at_loop i w)))"
proof -
  obtain b t where t: "xad_load io opn mem psi_load psi_rewind filename s = Some (b, t)"
    "b \<and> psi_fits (xad_tune t) \<longrightarrow> psi_ok t \<and> psi_fits (xad_tune t)"
    using psi.load_playable [OF assms] by blast
  have "\<exists>n u v. play_on (xad_update psi_update) n t = Some u \<and> xad_update psi_update u = Some (False, v) \<and>
      (\<forall>i < 8. \<exists>k \<le> n. \<exists>w. play_on (xad_update psi_update) k t = Some w \<and> psi_at_loop i w)" if b: "b \<and> psi_fits (xad_tune t)"
  proof -
    have ok: "psi_ok t" "psi_fits (xad_tune t)" using t(2) b by blast+
    obtain r where "psi_rewind 0 (xad_start r) = Some t" using xad_load_rewound [of io opn mem psi_load psi_rewind filename s t] t(1) b by auto
    then have "psi_looping t = 0" by (auto simp: psi_rewind_def elim!: bind_eq_SomeE)
    moreover obtain n u v where "play_on (xad_update psi_update) n t = Some u" "xad_update psi_update u = Some (False, v)"
      using psi.comes_to_end [of t] ok by (auto simp: comes_to_end_def)
    ultimately show ?thesis using psi_all_loop [OF ok(1)] by blast
  qed
  then show ?thesis using t(1) by blast
qed

definition psi_new :: psi_player where
  "psi_new = xad_player.extend xad_zero (psi_player.fields 0 0 0 0 (replicate 8 0) (replicate 8 0) 0 (replicate 8 0))"

text \<open>A tune of zeros: every channel loops at once.\<close>

lemma psi_song_ends_witness:
  "let bs = xad_file PSI 1 (replicate 64 0) in
   \<exists>b t. xad_load memio (\<lambda>_. Some (mem_file bs)) (\<lambda>_. 0) psi_load psi_rewind ''a.xad'' psi_new = Some (b, t) \<and>
    (b \<and> psi_fits (xad_tune t) \<longrightarrow>
      (\<exists>n u v. play_on (xad_update psi_update) n t = Some u \<and> xad_update psi_update u = Some (False, v) \<and>
        (\<forall>i < 8. \<exists>k \<le> n. \<exists>w. play_on (xad_update psi_update) k t = Some w \<and> psi_at_loop i w)))"
proof -
  let ?bs = "xad_file PSI 1 (replicate 64 0)"
  have "length ?bs < 2 ^ 63" by (simp add: xad_file_def)
  moreover have "psi_shape psi_new" "length (xad_title psi_new) = 36" "length (xad_author psi_new) = 36"
    by (simp_all add: psi_shape_def xad_has_regs_def psi_new_def psi_player.defs xad_zero_simps)
  ultimately show ?thesis
    unfolding Let_def
    by (intro psi_song_ends [OF mem_stream_laws [of ?bs]]) auto
qed

end
