(* ===== verification/Xflash.thy ===== *)
theory Xflash
  imports Xad
begin

text \<open>
  \<open>src/flash.cpp\<close>, \<open>src/flash.h\<close>: the Flash song, an order list of at most 52 patterns of 64 rows of
  nine two-byte events; the instruments lie at the start of the tune.
\<close>

record flash_player = xad_player +
  flash_order_pos :: u8
  flash_pattern_pos :: u8

definition flash_adlib_registers :: "nat list list" where
  "flash_adlib_registers =
    [[0x23, 0x20, 0x43, 0x40, 0x63, 0x60, 0x83, 0x80, 0xC0, 0xE3, 0xE0],
     [0x24, 0x21, 0x44, 0x41, 0x64, 0x61, 0x84, 0x81, 0xC1, 0xE4, 0xE1],
     [0x25, 0x22, 0x45, 0x42, 0x65, 0x62, 0x85, 0x82, 0xC2, 0xE5, 0xE2],
     [0x2B, 0x28, 0x4B, 0x48, 0x6B, 0x68, 0x8B, 0x88, 0xC3, 0xEB, 0xE8],
     [0x2C, 0x29, 0x4C, 0x49, 0x6C, 0x69, 0x8C, 0x89, 0xC4, 0xEC, 0xE9],
     [0x2D, 0x2A, 0x4D, 0x4A, 0x6D, 0x6A, 0x8D, 0x8A, 0xC5, 0xED, 0xEA],
     [0x33, 0x30, 0x53, 0x50, 0x73, 0x70, 0x93, 0x90, 0xC6, 0xF3, 0xF0],
     [0x34, 0x31, 0x54, 0x51, 0x74, 0x71, 0x94, 0x91, 0xC7, 0xF4, 0xF1],
     [0x35, 0x32, 0x55, 0x52, 0x75, 0x72, 0x95, 0x92, 0xC8, 0xF5, 0xF2]]"

definition flash_notes :: "u16 list" where
  "flash_notes = [0x157, 0x16B, 0x181, 0x198, 0x1B0, 0x1CA, 0x1E5, 0x202, 0x220, 0x241, 0x263, 0x287]"

definition flash_load :: "flash_player \<Rightarrow> (bool \<times> flash_player) option" where
  "flash_load s = Some (xad_fmt s = xad_format_no FLASH \<and> 0x633 + 18 \<le> tune_size s, s)"

definition flash_instrument :: "nat \<Rightarrow> nat \<Rightarrow> flash_player \<Rightarrow> flash_player option" where
  "flash_instrument i n = ofold (\<lambda>j s. do {
     reg \<leftarrow> rd2 flash_adlib_registers i j;
     val \<leftarrow> rd (xad_tune s) (n * 12 + j);
     xad_write reg (uint val) s
   }) [0..<11]"

definition flash_rewind :: "int \<Rightarrow> flash_player \<Rightarrow> flash_player option" where
  "flash_rewind subsong s = do {
     let s = s\<lparr>plr_speed := xad_speed s, flash_order_pos := 0, flash_pattern_pos := 0\<rparr>;
     s \<leftarrow> xad_write 0x08 0x00 s;
     s \<leftarrow> xad_write 0xBD 0x00 s;
     s \<leftarrow> ofold (\<lambda>i s. do { s \<leftarrow> xad_write (0xA0 + i) 0 s; xad_write (0xB0 + i) 0 s }) [0..<9] s;
     ofold (\<lambda>i. flash_instrument i i) [0..<9] s
   }"

text \<open>The effect of an event: the frequency slide it asks for.\<close>

definition flash_volume :: "nat \<Rightarrow> nat \<Rightarrow> u8 \<Rightarrow> flash_player \<Rightarrow> flash_player option" where
  "flash_volume i j p s = do {
     reg \<leftarrow> rd2 flash_adlib_registers i j;
     xad_write reg (uint p * 4) s
   }"

definition flash_slide :: "u8 \<Rightarrow> int" where
  "flash_slide b1 = (let fx = drop_bit 4 b1; p = b1 AND 0x0F in
     if fx = 1 then uint p * 2 else if fx = 2 then - (uint p * 2) else 0)"

definition flash_effect :: "nat \<Rightarrow> u8 \<Rightarrow> flash_player \<Rightarrow> flash_player option" where
  "flash_effect i b1 s = (let fx = drop_bit 4 b1; p = b1 AND 0x0F in
     if fx = 0 then Some (if b1 = 1 then s\<lparr>flash_pattern_pos := 0x3F\<rparr> else s)
     else if fx = 0xA then flash_volume i 2 p s
     else if fx = 0xB then flash_volume i 3 p s
     else if fx = 0xC then do { s \<leftarrow> flash_volume i 2 p s; flash_volume i 3 p s }
     else if fx = 0xF then Some (s\<lparr>plr_speed := p + 1\<rparr>)
     else Some s)"

definition flash_note :: "nat \<Rightarrow> u8 \<Rightarrow> flash_player \<Rightarrow> flash_player option" where
  "flash_note i b0 s = do {
     a \<leftarrow> rd (xad_adlib s) (0xA0 + i);
     s \<leftarrow> xad_write (0xA0 + i) (uint a) s;
     b \<leftarrow> rd (xad_adlib s) (0xB0 + i);
     s \<leftarrow> xad_write (0xB0 + i) (uint (b AND 0xDF)) s;
     if b0 \<noteq> 0x7F then do {
       note \<leftarrow> rd flash_notes ((unat b0 - 1) mod 12);
       let octave = of_nat ((unat b0 - 1) div 12);
       let freq = note OR push_bit 10 octave OR 0x2000;
       s \<leftarrow> xad_write (0xA0 + i) (uint (freq AND 0xFF)) s;
       xad_write (0xB0 + i) (uint (drop_bit 8 freq)) s
     } else Some s
   }"

definition flash_bend :: "nat \<Rightarrow> int \<Rightarrow> flash_player \<Rightarrow> flash_player option" where
  "flash_bend i slide s = do {
     b \<leftarrow> rd (xad_adlib s) (0xB0 + i);
     a \<leftarrow> rd (xad_adlib s) (0xA0 + i);
     let freq = to_u16 (uint b * 256 + uint a) + to_u16 slide;
     s \<leftarrow> xad_write (0xA0 + i) (uint (freq AND 0xFF)) s;
     xad_write (0xB0 + i) (uint (drop_bit 8 freq)) s
   }"

definition flash_event :: "nat \<Rightarrow> u8 \<Rightarrow> u8 \<Rightarrow> flash_player \<Rightarrow> flash_player option" where
  "flash_event i b0 b1 s =
     (if b0 = 0x80 then (if b1 < 0x80 then flash_instrument i (unat b1) s else Some s)
      else do {
        s \<leftarrow> flash_effect i b1 s;
        s \<leftarrow> (if b0 \<noteq> 0 then flash_note i b0 s else Some s);
        if flash_slide b1 \<noteq> 0 then flash_bend i (flash_slide b1) s else Some s
      })"

text \<open>The channels of a row; the end of the data ends the pattern.\<close>

fun flash_row :: "u16 \<Rightarrow> nat list \<Rightarrow> flash_player \<Rightarrow> flash_player option" where
  "flash_row pos [] s = Some s"
| "flash_row pos (i # is) s =
     (if ulong (int (tune_size s) - 2) < unat pos then Some (s\<lparr>flash_pattern_pos := 0x3F\<rparr>)
      else do {
        b0 \<leftarrow> rd (xad_tune s) (unat pos);
        b1 \<leftarrow> rd (xad_tune s) (unat (pos + 1));
        s \<leftarrow> flash_event i b0 b1 s;
        flash_row (pos + 2) is s
      })"

definition flash_update :: "flash_player \<Rightarrow> flash_player option" where
  "flash_update s = do {
     pattern \<leftarrow> rd (xad_tune s) (0x600 + unat (flash_order_pos s));
     let pos = to_u16 (0x633 + uint pattern * 1152 + uint (flash_pattern_pos s) * 18);
     s \<leftarrow> flash_row pos [0..<9] s;
     let s = s\<lparr>flash_pattern_pos := flash_pattern_pos s + 1\<rparr>;
     if 0x40 \<le> flash_pattern_pos s then do {
       let s = s\<lparr>flash_pattern_pos := 0, flash_order_pos := flash_order_pos s + 1\<rparr>;
       done \<leftarrow> (if 0x33 < flash_order_pos s then Some True
               else do { b \<leftarrow> rd (xad_tune s) (0x600 + unat (flash_order_pos s)); Some (b = 0xFF) });
       Some (if done then s\<lparr>flash_order_pos := 0, plr_looping := True\<rparr> else s)
     } else Some s
   }"

section \<open>Safety\<close>

definition flash_shape :: "flash_player \<Rightarrow> bool" where
  "flash_shape s \<longleftrightarrow> xad_has_regs s \<and> 0x633 + 18 \<le> tune_size s \<and> flash_pattern_pos s \<le> 0x3F"

definition flash_ok :: "flash_player \<Rightarrow> bool" where
  "flash_ok s \<longleftrightarrow> flash_shape s \<and> flash_order_pos s \<le> 0x33"

text \<open>An event keeps the song's position, but it may skip to the last row.\<close>

definition flash_keeps :: "flash_player \<Rightarrow> flash_player \<Rightarrow> bool" where
  "flash_keeps s t \<longleftrightarrow> xad_has_regs t \<and> xad_tune t = xad_tune s \<and> flash_order_pos t = flash_order_pos s \<and>
     plr_looping t = plr_looping s \<and> flash_pattern_pos s \<le> flash_pattern_pos t \<and>
     (flash_pattern_pos s \<le> 0x3F \<longrightarrow> flash_pattern_pos t \<le> 0x3F) \<and> (\<exists>es. opl_out t = opl_out s @ es)"

interpretation flash_step: step_calculus flash_shape flash_keeps
  by unfold_locales (auto simp: flash_keeps_def flash_shape_def)

abbreviation flash_op :: "(flash_player \<Rightarrow> flash_player option) \<Rightarrow> bool" where
  "flash_op \<equiv> op_ok flash_shape flash_keeps"

lemma flash_regs: "xad_regs s t \<Longrightarrow> flash_keeps s t"
  by (auto simp: flash_keeps_def xad_regs_def xad_has_regs_def)

lemma flash_op_xad: "xad_op f \<Longrightarrow> flash_op f"
  using flash_regs by (simp add: op_ok_def flash_shape_def) blast

lemma length_flash_tables [simp]: "length flash_notes = 12" "matrix 9 11 flash_adlib_registers"
  by (simp_all add: flash_notes_def flash_adlib_registers_def matrix_def)

lemma flash_registers_bound: "i < 9 \<Longrightarrow> j < 11 \<Longrightarrow> flash_adlib_registers ! i ! j < 256"
proof -
  assume "i < 9" "j < 11"
  have "list_all (list_all (\<lambda>r. r < 256)) flash_adlib_registers" by (simp add: flash_adlib_registers_def)
  moreover have "length flash_adlib_registers = 9" "length (flash_adlib_registers ! i) = 11"
    using matrix_length [OF length_flash_tables(2)] matrix_row [OF length_flash_tables(2)] \<open>i < 9\<close> by simp_all
  ultimately show ?thesis using \<open>i < 9\<close> \<open>j < 11\<close> by (simp add: list_all_length)
qed

lemma flash_write_op: "reg < 256 \<Longrightarrow> flash_op (xad_write reg val)"
  by (rule flash_op_xad [OF xad_op_write])

lemma flash_instrument_op: "i < 9 \<Longrightarrow> n < 128 \<Longrightarrow> flash_op (flash_instrument i n)"
  unfolding flash_instrument_def
proof (rule flash_step.ok_ofold)
  fix j assume i: "i < 9" "n < 128" and "j \<in> set [0..<11]"
  then have j: "j < 11" by simp
  have reg: "rd2 flash_adlib_registers i j = Some (flash_adlib_registers ! i ! j)"
    using i j by (simp add: rd2_Some [OF length_flash_tables(2)])
  have "flash_op (\<lambda>s. Option.bind (rd (xad_tune s) (n * 12 + j))
      (\<lambda>val. xad_write (flash_adlib_registers ! i ! j) (uint val) s))"
  proof (rule flash_step.ok_read [of _ "\<lambda>_. True"])
    fix s assume "flash_shape s"
    then show "\<exists>v. rd (xad_tune s) (n * 12 + j) = Some v \<and> True" using i j by (simp add: rd_Some flash_shape_def)
  qed (rule flash_write_op [OF flash_registers_bound [OF i(1) j]])
  then show "flash_op (\<lambda>s. Option.bind (rd2 flash_adlib_registers i j)
      (\<lambda>reg. Option.bind (rd (xad_tune s) (n * 12 + j)) (\<lambda>val. xad_write reg (uint val) s)))"
    by (simp add: reg)
qed

lemma flash_volume_op: "i < 9 \<Longrightarrow> j < 11 \<Longrightarrow> flash_op (flash_volume i j p)"
proof -
  assume i: "i < 9" and j: "j < 11"
  have "flash_volume i j p = xad_write (flash_adlib_registers ! i ! j) (uint p * 4)"
    using i j by (simp add: flash_volume_def rd2_Some [OF length_flash_tables(2)] fun_eq_iff)
  then show ?thesis using flash_write_op [OF flash_registers_bound [OF i j]] by simp
qed

lemma flash_reg_op:
  "reg < 256 \<Longrightarrow> (\<And>v. flash_op (k v)) \<Longrightarrow> flash_op (\<lambda>s. Option.bind (rd (xad_adlib s) reg) (\<lambda>v. k v s))"
  by (rule flash_step.ok_read [of _ "\<lambda>_. True"]) (simp_all add: flash_shape_def xad_has_regs_def rd_Some)

lemma flash_effect_op:
  assumes i: "i < 9"
  shows "flash_op (flash_effect i b1)"
proof -
  have skip: "flash_op (\<lambda>s. Some (if b1 = 1 then s\<lparr>flash_pattern_pos := 0x3F\<rparr> else s))"
    by (rule flash_step.ok_return) (auto simp: flash_keeps_def flash_shape_def xad_has_regs_def)
  have speed: "flash_op (\<lambda>s. Some (s\<lparr>plr_speed := v\<rparr>))" for v
    by (rule flash_step.ok_return) (auto simp: flash_keeps_def flash_shape_def xad_has_regs_def)
  show ?thesis unfolding flash_effect_def Let_def
    by (intro flash_step.ok_if flash_step.ok_bind flash_step.ok_skip skip speed flash_volume_op i) simp_all
qed

lemma flash_note_op:
  assumes i: "i < 9"
  shows "flash_op (flash_note i b0)"
proof -
  have "(unat b0 - 1) mod 12 < 12" by simp
  then have tone: "rd flash_notes ((unat b0 - 1) mod 12) = Some (flash_notes ! ((unat b0 - 1) mod 12))"
    by (simp add: rd_Some)
  show ?thesis unfolding flash_note_def tone bind.bind_lunit Let_def
    by (intro flash_reg_op flash_step.ok_bind flash_step.ok_if flash_step.ok_skip flash_write_op)
      (use i in simp_all)
qed

lemma flash_bend_op: "i < 9 \<Longrightarrow> flash_op (flash_bend i slide)"
  unfolding flash_bend_def Let_def
  by (intro flash_reg_op flash_step.ok_bind flash_write_op) simp_all

lemma flash_event_op: "i < 9 \<Longrightarrow> flash_op (flash_event i b0 b1)"
proof -
  assume i: "i < 9"
  have "unat b1 < 128" if "b1 < 0x80" using that by (simp add: word_less_nat_alt)
  then have set: "flash_op (\<lambda>s. if b1 < 0x80 then flash_instrument i (unat b1) s else Some s)"
    using flash_instrument_op [OF i] flash_step.ok_skip by (cases "b1 < 0x80") simp_all
  show ?thesis unfolding flash_event_def
    by (rule flash_step.ok_if [OF set])
      (intro flash_step.ok_if flash_step.ok_bind flash_step.ok_skip flash_effect_op flash_note_op flash_bend_op i)
qed

lemma ulong_minus_le: "k \<le> n \<Longrightarrow> ulong (int n - int k) \<le> n - k"
proof -
  assume "k \<le> n"
  then have "0 \<le> int n - int k" by simp
  then have "(int n - int k) mod 2 ^ 64 \<le> int n - int k" by (rule zmod_le_nonneg_dividend)
  then show ?thesis using \<open>k \<le> n\<close> by (simp add: ulong_def nat_le_iff)
qed

lemma flash_row_op: "(\<And>i. i \<in> set is \<Longrightarrow> i < 9) \<Longrightarrow> flash_op (flash_row pos is)"
proof (induction "is" arbitrary: pos)
  case Nil
  then show ?case using flash_step.ok_skip by (simp add: op_ok_def)
next
  case (Cons i "is")
  show ?case
  proof (rule op_okI)
    fix s assume s: "flash_shape s"
    show "\<exists>t. flash_row pos (i # is) s = Some t \<and> flash_keeps s t"
    proof (cases "ulong (int (tune_size s) - 2) < unat pos")
      case True
      then show ?thesis using s by (auto simp: flash_keeps_def flash_shape_def xad_has_regs_def)
    next
      case False
      have "0x633 + 18 \<le> tune_size s" using s by (simp add: flash_shape_def)
      have "unat pos \<le> tune_size s - 2" using False ulong_minus_le [of 2 "tune_size s"] s
        by (simp add: flash_shape_def)
      moreover have "unat (pos + 1) \<le> unat pos + 1" by (simp add: unat_word_ariths)
      ultimately have p: "unat pos < tune_size s" "unat (pos + 1) < tune_size s"
        using \<open>0x633 + 18 \<le> tune_size s\<close> by linarith+
      obtain t where t: "flash_event i (xad_tune s ! unat pos) (xad_tune s ! unat (pos + 1)) s = Some t" "flash_keeps s t"
        using op_okD [OF flash_event_op s] Cons.prems by (metis list.set_intros(1))
      obtain u where "flash_row (pos + 2) is t = Some u" "flash_keeps t u"
        using op_okD [OF Cons.IH flash_step.keep_pre [OF s t(2)]] Cons.prems by (metis list.set_intros(2))
      then show ?thesis using False p t flash_step.keep_trans [OF t(2)] by (simp add: rd_Some)
    qed
  qed
qed

text \<open>The rows left in the song.\<close>

definition flash_left :: "flash_player \<Rightarrow> nat" where
  "flash_left s = (0x34 - unat (flash_order_pos s)) * 65 + (0x40 - unat (flash_pattern_pos s))"

lemma flash_update_ok:
  assumes "flash_ok s"
  shows "\<exists>t es. flash_update s = Some t \<and> flash_ok t \<and> xad_tune t = xad_tune s \<and> opl_out t = opl_out s @ es \<and>
    (plr_looping t \<or> flash_left t < flash_left s)"
proof -
  let ?o = "flash_order_pos s"
  have s: "flash_shape s" "unat ?o \<le> 0x33" using assms by (simp_all add: flash_ok_def word_le_nat_alt)
  define pos where "pos = to_u16 (0x633 + uint (xad_tune s ! (0x600 + unat ?o)) * 1152 + uint (flash_pattern_pos s) * 18)"
  have order: "rd (xad_tune s) (0x600 + unat ?o) = Some (xad_tune s ! (0x600 + unat ?o))"
    using s by (simp add: rd_Some flash_shape_def)
  obtain t where t: "flash_row pos [0..<9] s = Some t" "flash_keeps s t"
    using op_okD [OF flash_row_op s(1)] by (metis atLeastLessThan_iff set_upt)
  have pp: "unat (flash_pattern_pos t) \<le> 0x3F" "unat (flash_pattern_pos s) \<le> unat (flash_pattern_pos t)"
    using t(2) s(1) by (simp_all add: flash_keeps_def flash_shape_def word_le_nat_alt)
  have pp1: "unat (flash_pattern_pos t + 1) = unat (flash_pattern_pos t) + 1"
    using pp(1) by (simp add: unat_word_ariths)
  have shape: "xad_has_regs t" "xad_tune t = xad_tune s" "flash_order_pos t = ?o" "0x633 + 18 \<le> tune_size s"
    "\<exists>es. opl_out t = opl_out s @ es" using t(2) s(1) by (simp_all add: flash_keeps_def flash_shape_def)
  have o1: "unat (?o + 1) = unat ?o + 1" using s(2) by (simp add: unat_word_ariths)
  show ?thesis
  proof (cases "0x40 \<le> flash_pattern_pos t + 1")
    case False
    let ?t = "t\<lparr>flash_pattern_pos := flash_pattern_pos t + 1\<rparr>"
    have "flash_update s = Some ?t"
      using t(1) order False by (simp add: flash_update_def pos_def Let_def del: upt.simps)
    moreover have "flash_ok ?t" using False shape s by (simp add: flash_ok_def flash_shape_def xad_has_regs_def word_le_nat_alt)
    moreover have "flash_left ?t < flash_left s" using pp pp1 shape(3) by (simp add: flash_left_def)
    ultimately show ?thesis using shape by auto
  next
    case True
    let ?last = "0x33 < ?o + 1 \<or> xad_tune s ! (0x600 + unat (?o + 1)) = 0xFF"
    let ?t = "t\<lparr>flash_pattern_pos := 0, flash_order_pos := ?o + 1\<rparr>"
    let ?u = "if ?last then ?t\<lparr>flash_order_pos := 0, plr_looping := True\<rparr> else ?t"
    have "rd (xad_tune s) (0x600 + unat (?o + 1)) = Some (xad_tune s ! (0x600 + unat (?o + 1)))" if "\<not> 0x33 < ?o + 1"
      using that o1 shape(4) by (simp add: rd_Some word_less_nat_alt)
    then have "flash_update s = Some ?u"
      using t(1) order True shape(2,3) by (auto simp: flash_update_def pos_def Let_def simp del: upt.simps)
    moreover have "flash_ok ?u"
      using shape by (simp add: flash_ok_def flash_shape_def xad_has_regs_def not_less)
    moreover have "plr_looping ?u \<or> flash_left ?u < flash_left s"
    proof -
      have "0x34 - unat ?o = Suc (0x33 - unat ?o)" using s(2) by linarith
      then show ?thesis using o1 by (simp add: flash_left_def)
    qed
    ultimately show ?thesis using shape by auto
  qed
qed

lemma flash_rewind_ok:
  assumes "xad_has_regs s" "0x633 + 18 \<le> tune_size s"
  shows "\<exists>t. flash_rewind n s = Some t \<and> flash_ok t"
proof -
  let ?s = "s\<lparr>plr_speed := xad_speed s, flash_order_pos := 0, flash_pattern_pos := 0\<rparr>"
  have pre: "flash_shape ?s" using assms by (simp add: flash_shape_def xad_has_regs_def)
  have "flash_op (\<lambda>s. Option.bind (xad_write 0x08 0x00 s) (\<lambda>s. Option.bind (xad_write 0xBD 0x00 s)
      (\<lambda>s. Option.bind (ofold (\<lambda>i s. Option.bind (xad_write (0xA0 + i) 0 s) (xad_write (0xB0 + i) 0)) [0..<9] s)
        (ofold (\<lambda>i. flash_instrument i i) [0..<9]))))"
    by (intro flash_step.ok_bind flash_step.ok_ofold flash_write_op flash_instrument_op) simp_all
  from op_okD [OF this pre] obtain t where t: "flash_rewind n s = Some t" "flash_keeps ?s t"
    by (auto simp: flash_rewind_def Let_def simp del: upt.simps ofold.simps)
  have "flash_ok t" using flash_step.keep_pre [OF pre t(2)] t(2) by (simp add: flash_ok_def flash_keeps_def)
  then show ?thesis using t(1) by blast
qed

section \<open>The song as a player\<close>

interpretation flash: xad_ending_song flash_load flash_rewind flash_update xad_has_regs flash_ok "\<lambda>_. True" flash_left
proof unfold_locales
  fix s :: flash_player and n :: int
  assume "flash_ok s"
  then show "\<exists>t. flash_rewind n (xad_start s) = Some t \<and> flash_ok t"
    by (intro flash_rewind_ok) (simp_all add: flash_ok_def flash_shape_def xad_has_regs_def xad_start_def opl_init_def)
next
  fix s :: flash_player assume "xad_has_regs s"
  then have "xad_has_regs (xad_start s)" "xad_tune (xad_start s) = xad_tune s"
    by (simp_all add: xad_has_regs_def xad_start_def opl_init_def)
  then show "\<exists>b t. flash_load s = Some (b, t) \<and>
      (b \<longrightarrow> (\<exists>u. flash_rewind 0 (xad_start t) = Some u \<and> (True \<longrightarrow> flash_ok u)))"
    using flash_rewind_ok [of "xad_start s" 0] by (auto simp: flash_load_def)
next
  fix s :: flash_player assume "flash_ok s"
  then show "\<exists>t es. flash_update s = Some t \<and> flash_ok t \<and> opl_out t = opl_out s @ es" using flash_update_ok by blast
next
  fix s t assume "flash_ok s" "flash_update s = Some t" "\<not> plr_looping t"
  then show "flash_left t < flash_left s" using flash_update_ok [of s] by auto
qed (simp_all add: flash_ok_def flash_shape_def xad_has_regs_def flash_left_def xad_set_header_def)

text \<open>Load of a Flash song returns for every file, and every accepted song plays to a reported end without a fault, patterns cut off by the end of the file included.\<close>

theorem flash_song_ends:
  assumes "stream_laws io P" "\<And>f. opn filename = Some f \<Longrightarrow> P f" "xad_has_regs s"
    "length (xad_title s) = 36" "length (xad_author s) = 36"
  shows "\<exists>b t. xad_load io opn mem flash_load flash_rewind filename s = Some (b, t) \<and>
    (b \<longrightarrow>
      (\<exists>n u v. play (xad_update flash_update) n t = Some u \<and> xad_update flash_update u = Some (False, v)))"
  using flash.load_ends [OF assms] by simp

definition flash_new :: flash_player where
  "flash_new = xad_player.extend xad_zero (flash_player.fields 0 0)"

lemma flash_song_ends_witness:
  "let bs = xad_file FLASH 1 (replicate 0x645 0) in
   \<exists>b t. xad_load memio (\<lambda>_. Some (mem_file bs)) (\<lambda>_. 0) flash_load flash_rewind ''a.xad'' flash_new = Some (b, t) \<and>
    (b \<longrightarrow>
      (\<exists>n u v. play (xad_update flash_update) n t = Some u \<and> xad_update flash_update u = Some (False, v)))"
proof -
  let ?bs = "xad_file FLASH 1 (replicate 0x645 0)"
  have "length ?bs < 2 ^ 63" by (simp add: xad_file_def)
  moreover have "xad_has_regs flash_new" "length (xad_title flash_new) = 36" "length (xad_author flash_new) = 36"
    by (simp_all add: xad_has_regs_def flash_new_def flash_player.defs xad_zero_simps)
  ultimately show ?thesis
    unfolding Let_def
    by (intro flash_song_ends [OF mem_stream_laws [of ?bs]]) auto
qed

end
