(* ===== verification/Xrat.thy ===== *)
theory Xrat
  imports Xad
begin

text \<open>
  \<open>src/rat.cpp\<close>, \<open>src/rat.h\<close>: the RAT song, a header, an order list of 256 entries, instruments of 20
  bytes, which stay in the tune, and patterns of 64 rows of at most nine events, which are copied out
  of it. The pointers \<open>order\<close> and \<open>inst\<close> are the offsets \<open>0x40\<close> and \<open>0x140\<close> of the tune.
\<close>

record rat_event =
  re_note :: u8
  re_instrument :: u8
  re_volume :: u8
  re_fx :: u8
  re_fxp :: u8

record rat_header =
  rh_id :: bytes
  rh_version :: u8
  rh_numchan :: u8
  rh_order_end :: u8
  rh_numinst :: u8
  rh_numpat :: u8
  rh_order_start :: u8
  rh_order_loop :: u8
  rh_volume :: u8
  rh_speed :: u8
  rh_patseg0 :: u8
  rh_patseg1 :: u8

record rat_channel =
  rc_instrument :: u8
  rc_volume :: u8
  rc_fx :: u8
  rc_fxp :: u8

record rat_player = xad_player +
  rat_hdr :: rat_header
  rat_volume :: u8
  rat_order_pos :: u8
  rat_pattern_pos :: u8
  rat_tracks :: "rat_event list list list"
  rat_channels :: "rat_channel list"

abbreviation rat_numchan :: "rat_player \<Rightarrow> nat" where
  "rat_numchan s \<equiv> unat (rh_numchan (rat_hdr s))"

section \<open>The loader\<close>

definition rat_read_header :: "bytes \<Rightarrow> rat_header option" where
  "rat_read_header tune = do {
     hdr \<leftarrow> (if length tune < 0x40 then None else Some (take 0x40 tune));
     Some \<lparr>rh_id = take 3 hdr, rh_version = hdr ! 3, rh_numchan = hdr ! 0x24, rh_order_end = hdr ! 0x26,
       rh_numinst = hdr ! 0x28, rh_numpat = hdr ! 0x2A, rh_order_start = hdr ! 0x2C,
       rh_order_loop = hdr ! 0x2E, rh_volume = hdr ! 0x30, rh_speed = hdr ! 0x31,
       rh_patseg0 = hdr ! 0x3E, rh_patseg1 = hdr ! 0x3F\<rparr>
   }"

fun rat_read_events :: "bytes \<Rightarrow> nat \<Rightarrow> nat \<Rightarrow> rat_event list option" where
  "rat_read_events tune p 0 = Some []"
| "rat_read_events tune p (Suc n) = do {
     a \<leftarrow> rd tune p; b \<leftarrow> rd tune (p + 1); c \<leftarrow> rd tune (p + 2); d \<leftarrow> rd tune (p + 3); e \<leftarrow> rd tune (p + 4);
     es \<leftarrow> rat_read_events tune (p + 5) n;
     Some (\<lparr>re_note = a, re_instrument = b, re_volume = c, re_fx = d, re_fxp = e\<rparr> # es)
   }"

text \<open>Row \<open>j\<close> of pattern \<open>i\<close>, copied from \<open>event_ptr\<close>.\<close>

definition rat_copy_row ::
  "bytes \<Rightarrow> nat \<Rightarrow> nat \<Rightarrow> nat \<Rightarrow> nat \<times> rat_event list list list \<Rightarrow> (nat \<times> rat_event list list list) option"
where
  "rat_copy_row tune numchan i j = (\<lambda>(event_ptr, tracks). do {
     row \<leftarrow> rd2 tracks i j;
     events \<leftarrow> rat_read_events tune event_ptr numchan;
     tracks \<leftarrow> wr2 tracks i j (events @ drop numchan row);
     Some (event_ptr + numchan * 5, tracks)
   })"

definition rat_load :: "rat_player \<Rightarrow> (bool \<times> rat_player) option" where
  "rat_load s =
     (if xad_fmt s \<noteq> xad_format_no RAT \<or> tune_size s < 0x140 then Some (False, s)
      else do {
        hdr \<leftarrow> rat_read_header (xad_tune s);
        let s = s\<lparr>rat_hdr := hdr\<rparr>;
        let patseg = unat (rh_patseg1 hdr) * 256 + unat (rh_patseg0 hdr);
        if rh_id hdr \<noteq> [0x52, 0x41, 0x54] \<or> rh_version hdr \<noteq> 0x10 \<or> rh_numchan hdr < 1 \<or> 9 < rh_numchan hdr
        then Some (False, s)
        else if tune_size s < 0x140 + unat (rh_numinst hdr) * 20 then Some (False, s)
        else if tune_size s < patseg * 16 + 5 * unat (rh_numpat hdr) * 64 * rat_numchan s then Some (False, s)
        else do {
          (_, tracks) \<leftarrow> ofold (\<lambda>i. ofold (rat_copy_row (xad_tune s) (rat_numchan s) i) [0..<64])
             [0..<unat (rh_numpat hdr)] (patseg * 16, rat_tracks s);
          Some (True, s\<lparr>rat_tracks := tracks\<rparr>)
        }
      })"

section \<open>Rewinding and playing\<close>

definition rat_rewind :: "int \<Rightarrow> rat_player \<Rightarrow> rat_player option" where
  "rat_rewind subsong s = do {
     let s = s\<lparr>rat_order_pos := rh_order_start (rat_hdr s), rat_pattern_pos := 0,
               rat_volume := rh_volume (rat_hdr s), plr_speed := rh_speed (rat_hdr s),
               rat_channels := replicate 9 \<lparr>rc_instrument = 0, rc_volume = 0, rc_fx = 0, rc_fxp = 0\<rparr>\<rparr>;
     s \<leftarrow> xad_write 0x01 0x20 s;
     s \<leftarrow> xad_write 0x08 0x00 s;
     s \<leftarrow> xad_write 0xBD 0x00 s;
     s \<leftarrow> ofold (\<lambda>i s. do {
            s \<leftarrow> xad_write (0xA0 + i) 0 s;
            s \<leftarrow> xad_write (0xA3 + i) 0 s;
            s \<leftarrow> xad_write (0xB0 + i) 0 s;
            xad_write (0xB3 + i) 0 s
          }) [0..<9] s;
     ofold (\<lambda>i. xad_write (0x40 + i) 0x3F) [0..<0x1F] s
   }"

definition calc_volume :: "u8 \<Rightarrow> u8 \<Rightarrow> u8 \<Rightarrow> u8" where
  "calc_volume ivol cvol gvol =
     (let vol = (ucast ivol AND 0x3F) XOR 0x3F :: u16;
          vol = drop_bit 6 (vol * ucast cvol);
          vol = drop_bit 6 (vol * ucast gvol);
          vol = (vol XOR 0x3F) OR (ucast ivol AND 0xC0)
      in ucast vol)"

definition rat_adlib_bases :: "nat list" where
  "rat_adlib_bases =
    [0x00, 0x01, 0x02, 0x08, 0x09, 0x0A, 0x10, 0x11, 0x12,
     0x03, 0x04, 0x05, 0x0B, 0x0C, 0x0D, 0x13, 0x14, 0x15]"

definition rat_notes :: "int list" where
  "rat_notes =
    [0x157, 0x16B, 0x181, 0x198, 0x1B0, 0x1CA, 0x1E5, 0x202,
     0x220, 0x241, 0x263, 0x287, 0x000, 0x000, 0x000, 0x000]"

text \<open>The byte \<open>field\<close> of instrument \<open>ins\<close>, and the writes of the bytes of an instrument.\<close>

definition rat_inst :: "nat \<Rightarrow> nat \<Rightarrow> rat_player \<Rightarrow> u8 option" where
  "rat_inst ins field s = rd (xad_tune s) (0x140 + ins * 20 + field)"

definition rat_put :: "nat \<Rightarrow> nat \<Rightarrow> nat \<Rightarrow> rat_player \<Rightarrow> rat_player option" where
  "rat_put ins reg field s = do { v \<leftarrow> rat_inst ins field s; xad_write reg (uint v) s }"

definition rat_put_volume :: "nat \<Rightarrow> nat \<Rightarrow> nat \<Rightarrow> u8 \<Rightarrow> rat_player \<Rightarrow> rat_player option" where
  "rat_put_volume ins reg field cvol s = do {
     v \<leftarrow> rat_inst ins field s;
     xad_write reg (uint (calc_volume v cvol (rat_volume s))) s
   }"

definition rat_play_note :: "nat \<Rightarrow> u8 \<Rightarrow> rat_player \<Rightarrow> rat_player option" where
  "rat_play_note i tone s = do {
     c \<leftarrow> rd (rat_channels s) i;
     let ins = unat (rc_instrument c);
     m \<leftarrow> rd rat_adlib_bases i;
     car \<leftarrow> rd rat_adlib_bases (i + 9);
     s \<leftarrow> rat_put ins (0xC0 + i) 14 s;
     s \<leftarrow> rat_put ins (0x20 + m) 4 s;
     s \<leftarrow> rat_put ins (0x20 + car) 5 s;
     s \<leftarrow> rat_put_volume ins (0x40 + m) 6 (rc_volume c) s;
     s \<leftarrow> rat_put_volume ins (0x40 + car) 7 (rc_volume c) s;
     s \<leftarrow> rat_put ins (0x60 + m) 8 s;
     s \<leftarrow> rat_put ins (0x60 + car) 9 s;
     s \<leftarrow> rat_put ins (0x80 + m) 10 s;
     s \<leftarrow> rat_put ins (0x80 + car) 11 s;
     s \<leftarrow> rat_put ins (0xE0 + m) 12 s;
     s \<leftarrow> rat_put ins (0xE0 + car) 13 s;
     f1 \<leftarrow> rat_inst ins 1 s;
     f0 \<leftarrow> rat_inst ins 0 s;
     base \<leftarrow> rd rat_notes (unat (tone AND 0x0F));
     let freq = to_u16 ((uint f1 * 256 + uint f0) * base div 0x20AB);
     s \<leftarrow> xad_write (0xA0 + i) (uint (freq AND 0xFF)) s;
     xad_write (0xB0 + i) (uint (drop_bit 8 freq) OR uint (drop_bit 2 (tone AND 0xF0)) OR 0x20) s
   }"

definition rat_set_channel :: "nat \<Rightarrow> (rat_channel \<Rightarrow> rat_channel) \<Rightarrow> rat_player \<Rightarrow> rat_player option" where
  "rat_set_channel i f s = do {
     c \<leftarrow> rd (rat_channels s) i;
     cs \<leftarrow> wr (rat_channels s) i (f c);
     Some (s\<lparr>rat_channels := cs\<rparr>)
   }"

definition rat_event_step :: "nat \<Rightarrow> rat_event \<Rightarrow> rat_player \<Rightarrow> rat_player option" where
  "rat_event_step i event s = do {
     let ins = re_instrument event;
     s \<leftarrow> (if ins \<noteq> 0xFF \<and> 0 < ins \<and> ins \<le> rh_numinst (rat_hdr s) then do {
            v \<leftarrow> rat_inst (unat ins - 1) 16 s;
            rat_set_channel i (\<lambda>c. c\<lparr>rc_instrument := ins - 1, rc_volume := v\<rparr>) s
          } else Some s);
     s \<leftarrow> (if re_volume event \<noteq> 0xFF then rat_set_channel i (\<lambda>c. c\<lparr>rc_volume := re_volume event\<rparr>) s else Some s);
     s \<leftarrow> (if re_note event \<noteq> 0xFF then do {
            s \<leftarrow> xad_write (0xB0 + i) 0 s;
            s \<leftarrow> xad_write (0xA0 + i) 0 s;
            if re_note event \<noteq> 0xFE then rat_play_note i (re_note event) s else Some s
          } else Some s);
     if re_fx event \<noteq> 0xFF
     then rat_set_channel i (\<lambda>c. c\<lparr>rc_fx := re_fx event, rc_fxp := re_fxp event\<rparr>) s else Some s
   }"

definition rat_row_channel :: "nat \<Rightarrow> nat \<Rightarrow> rat_player \<Rightarrow> rat_player option" where
  "rat_row_channel pattern i s = do {
     row \<leftarrow> rd2 (rat_tracks s) pattern (unat (rat_pattern_pos s));
     event \<leftarrow> rd row i;
     rat_event_step i event s
   }"

definition rat_effect :: "nat \<Rightarrow> rat_player \<Rightarrow> rat_player option" where
  "rat_effect i s = do {
     c \<leftarrow> rd (rat_channels s) i;
     let s = (if rc_fx c = 1 then s\<lparr>plr_speed := rc_fxp c\<rparr>
              else if rc_fx c = 2 then
                (if rc_fxp c < rh_order_end (rat_hdr s)
                 then s\<lparr>plr_looping := plr_looping s \<or> rc_fxp c \<le> rat_order_pos s, rat_order_pos := rc_fxp c\<rparr>
                 else s\<lparr>plr_looping := True, rat_order_pos := 0\<rparr>)\<lparr>rat_pattern_pos := 0\<rparr>
              else if rc_fx c = 3 then s\<lparr>rat_pattern_pos := 0x40\<rparr>
              else s);
     rat_set_channel i (\<lambda>c. c\<lparr>rc_fx := 0\<rparr>) s
   }"

definition rat_next_order :: "rat_player \<Rightarrow> rat_player" where
  "rat_next_order s =
     (let s = s\<lparr>rat_pattern_pos := 0, rat_order_pos := rat_order_pos s + 1\<rparr> in
      if rat_order_pos s = rh_order_end (rat_hdr s)
      then s\<lparr>rat_order_pos := rh_order_loop (rat_hdr s), plr_looping := True\<rparr> else s)"

definition rat_update :: "rat_player \<Rightarrow> rat_player option" where
  "rat_update s = do {
     pattern \<leftarrow> rd (xad_tune s) (0x40 + unat (rat_order_pos s));
     if rh_numpat (rat_hdr s) \<le> pattern then Some (rat_next_order s)
     else do {
       s \<leftarrow> ofold (rat_row_channel (unat pattern)) [0..<rat_numchan s] s;
       let s = s\<lparr>rat_pattern_pos := rat_pattern_pos s + 1\<rparr>;
       s \<leftarrow> ofold rat_effect [0..<rat_numchan s] s;
       Some (if 0x40 \<le> rat_pattern_pos s then rat_next_order s else s)
     }
   }"

section \<open>Safety of the loader\<close>

definition rat_dims :: "rat_event list list list \<Rightarrow> bool" where
  "rat_dims tracks \<longleftrightarrow> matrix 256 64 tracks \<and> (\<forall>i < 256. \<forall>j < 64. length (tracks ! i ! j) = 9)"

definition rat_fresh :: "rat_player \<Rightarrow> bool" where
  "rat_fresh s \<longleftrightarrow> xad_has_regs s \<and> rat_dims (rat_tracks s)"

text \<open>What an accepted file has: its channels, and its instruments inside the tune.\<close>

definition rat_valid :: "rat_player \<Rightarrow> bool" where
  "rat_valid s \<longleftrightarrow> rat_fresh s \<and> rat_numchan s \<le> 9 \<and> 0x140 \<le> tune_size s \<and>
     0x140 + unat (rh_numinst (rat_hdr s)) * 20 \<le> tune_size s"

lemma rat_read_events_total:
  "p + 5 * n \<le> length tune \<Longrightarrow> \<exists>es. rat_read_events tune p n = Some es \<and> length es = n"
proof (induction n arbitrary: p)
  case 0
  then show ?case by simp
next
  case (Suc n)
  then have "p + 5 + 5 * n \<le> length tune" by simp
  from Suc.IH [OF this] obtain es where "rat_read_events tune (p + 5) n = Some es" "length es = n" by blast
  then show ?case using Suc.prems by (simp add: rd_Some)
qed

lemma rat_copy_row_ok:
  assumes "rat_dims tr" "i < 256" "j < 64" "n \<le> 9" "p + 5 * n \<le> length tune"
  shows "\<exists>tr'. rat_copy_row tune n i j (p, tr) = Some (p + n * 5, tr') \<and> rat_dims tr'"
proof -
  obtain es where es: "rat_read_events tune p n = Some es" "length es = n"
    using rat_read_events_total [OF assms(5)] by blast
  have m: "matrix 256 64 tr" and row: "length (tr ! i ! j) = 9" using assms by (simp_all add: rat_dims_def)
  let ?tr = "tr[i := (tr ! i)[j := es @ drop n (tr ! i ! j)]]"
  have "rat_copy_row tune n i j (p, tr) = Some (p + n * 5, ?tr)"
    using es(1) assms(2,3) by (simp add: rat_copy_row_def rd2_Some [OF m] wr2_Some [OF m])
  moreover have "rat_dims ?tr"
  proof -
    have "length (?tr ! a ! b) = 9" if "a < 256" "b < 64" for a b
      using that assms m row es(2) by (simp add: rat_dims_def nth_list_update matrix_length)
    moreover have "matrix 256 64 ?tr" using m assms(2) by simp
    ultimately show ?thesis unfolding rat_dims_def by blast
  qed
  ultimately show ?thesis by blast
qed

lemma rat_copy_ok:
  assumes "rat_dims tr" "n \<le> 9" "m \<le> 255" "p + 5 * m * 64 * n \<le> length tune"
  shows "\<exists>q tr'. ofold (\<lambda>i. ofold (rat_copy_row tune n i) [0..<64]) [0..<m] (p, tr) = Some (q, tr') \<and> rat_dims tr'"
proof -
  let ?P = "\<lambda>k. \<lambda>(q, tr). q = p + k * (n * 5) \<and> rat_dims tr"
  have inner: "\<exists>x. ofold (rat_copy_row tune n i) [0..<64] x0 = Some x \<and> ?P (Suc i * 64) x"
    if i: "i < m" and x0: "?P (i * 64) x0" for i x0
  proof -
    have "\<exists>x. ofold (rat_copy_row tune n i) [0..<64] x0 = Some x \<and> ?P (i * 64 + 64) x"
    proof (rule ofold_upt_invariant [of "\<lambda>j. ?P (i * 64 + j)"])
      show "?P (i * 64 + 0) x0" using x0 by simp
      fix j y assume j: "j < 64" and y: "?P (i * 64 + j) y"
      obtain q tr1 where q: "y = (q, tr1)" "q = p + (i * 64 + j) * (n * 5)" "rat_dims tr1" using y by auto
      have "i * 64 + j + 1 \<le> m * 64" using i j by linarith
      then have "(i * 64 + j + 1) * (n * 5) \<le> m * 64 * (n * 5)" by (rule mult_le_mono1)
      then have "q + 5 * n \<le> length tune" using q(2) assms(4) by (simp add: algebra_simps)
      moreover have "i < 256" using i assms(3) by simp
      ultimately obtain tr2 where "rat_copy_row tune n i j (q, tr1) = Some (q + n * 5, tr2)" "rat_dims tr2"
        using rat_copy_row_ok [OF q(3) _ j assms(2)] by blast
      then show "\<exists>z. rat_copy_row tune n i j y = Some z \<and> ?P (i * 64 + Suc j) z" using q(1,2) by simp
    qed
    then show ?thesis by (simp add: add.commute)
  qed
  have "\<exists>x. ofold (\<lambda>i. ofold (rat_copy_row tune n i) [0..<64]) [0..<m] (p, tr) = Some x \<and> ?P (m * 64) x"
    by (rule ofold_upt_invariant [of "\<lambda>i. ?P (i * 64)"]) (use assms(1) inner in \<open>simp_all del: upt.simps ofold.simps\<close>)
  then show ?thesis by auto
qed

lemma rat_load_ok:
  assumes "rat_fresh s"
  shows "\<exists>b t. rat_load s = Some (b, t) \<and> xad_tune t = xad_tune s \<and> (b \<longrightarrow> rat_valid t)"
proof (cases "xad_fmt s \<noteq> xad_format_no RAT \<or> tune_size s < 0x140")
  case True
  then have "rat_load s = Some (False, s)" by (simp add: rat_load_def)
  then show ?thesis by blast
next
  case False
  then obtain hdr where hdr: "rat_read_header (xad_tune s) = Some hdr" by (simp add: rat_read_header_def)
  let ?s = "s\<lparr>rat_hdr := hdr\<rparr>"
  let ?p = "unat (rh_patseg1 hdr) * 256 + unat (rh_patseg0 hdr)"
  let ?bad = "rh_id hdr \<noteq> [0x52, 0x41, 0x54] \<or> rh_version hdr \<noteq> 0x10 \<or> rh_numchan hdr < 1 \<or> 9 < rh_numchan hdr"
  let ?long = "tune_size s < 0x140 + unat (rh_numinst hdr) * 20 \<or>
    tune_size s < ?p * 16 + 5 * unat (rh_numpat hdr) * 64 * unat (rh_numchan hdr)"
  show ?thesis
  proof (cases "?bad \<or> ?long")
    case True
    then have "rat_load s = Some (False, ?s)" using False hdr by (auto simp: rat_load_def Let_def)
    then show ?thesis by (intro exI [of _ False] exI [of _ ?s]) simp
  next
    case good: False
    have n: "unat (rh_numchan hdr) \<le> 9" using good by (simp add: word_le_nat_alt not_less)
    have tr: "rat_dims (rat_tracks s)" using assms by (simp add: rat_fresh_def)
    have m: "unat (rh_numpat hdr) \<le> 255" by simp
    have "?p * 16 + 5 * unat (rh_numpat hdr) * 64 * unat (rh_numchan hdr) \<le> tune_size s" using good by linarith
    from rat_copy_ok [OF tr n m this] obtain q tr' where q:
      "ofold (\<lambda>i. ofold (rat_copy_row (xad_tune s) (unat (rh_numchan hdr)) i) [0..<64]) [0..<unat (rh_numpat hdr)]
         (?p * 16, rat_tracks s) = Some (q, tr')" "rat_dims tr'" by blast
    have "rat_load s = Some (True, ?s\<lparr>rat_tracks := tr'\<rparr>)"
      using False hdr good q(1) by (simp add: rat_load_def Let_def del: upt.simps)
    moreover have "rat_valid (?s\<lparr>rat_tracks := tr'\<rparr>)"
      using assms q(2) n good False by (simp add: rat_valid_def rat_fresh_def xad_has_regs_def)
    ultimately show ?thesis by (intro exI [of _ True] exI [of _ "?s\<lparr>rat_tracks := tr'\<rparr>"]) simp
  qed
qed

section \<open>Safety of playing\<close>

text \<open>Every channel's instrument lies in the tune, the first one even when the song has none.\<close>

definition rat_shape :: "rat_player \<Rightarrow> bool" where
  "rat_shape s \<longleftrightarrow> rat_valid s \<and> length (rat_channels s) = 9 \<and>
     (\<forall>c \<in> set (rat_channels s). 0x154 + unat (rc_instrument c) * 20 \<le> tune_size s)"

definition rat_ok :: "rat_player \<Rightarrow> bool" where
  "rat_ok s \<longleftrightarrow> rat_shape s \<and> rat_pattern_pos s < 0x40"

definition rat_keeps :: "rat_player \<Rightarrow> rat_player \<Rightarrow> bool" where
  "rat_keeps s t \<longleftrightarrow> rat_shape t \<and> xad_tune t = xad_tune s \<and> rat_hdr t = rat_hdr s \<and>
     rat_tracks t = rat_tracks s \<and> rat_order_pos t = rat_order_pos s \<and>
     rat_pattern_pos t = rat_pattern_pos s \<and> plr_looping t = plr_looping s \<and>
     (\<exists>es. opl_out t = opl_out s @ es)"

interpretation rat_step: step_calculus rat_shape rat_keeps
  by unfold_locales (auto simp: rat_keeps_def)

abbreviation rat_op :: "(rat_player \<Rightarrow> rat_player option) \<Rightarrow> bool" where
  "rat_op \<equiv> op_ok rat_shape rat_keeps"

lemma rat_regs: "rat_shape s \<Longrightarrow> xad_regs s t \<Longrightarrow> rat_keeps s t"
  by (auto simp: rat_keeps_def rat_shape_def rat_valid_def rat_fresh_def xad_regs_def xad_has_regs_def)

lemma rat_shape_regs: "rat_shape s \<Longrightarrow> xad_has_regs s"
  by (simp add: rat_shape_def rat_valid_def rat_fresh_def)

lemma rat_op_xad: "xad_op f \<Longrightarrow> rat_op f"
  using rat_regs rat_shape_regs by (simp add: op_ok_def) blast

lemma rat_write_op: "reg < 256 \<Longrightarrow> rat_op (xad_write reg val)"
  by (rule rat_op_xad [OF xad_op_write])

text \<open>Operations on an instrument that lies in the tune.\<close>

definition rat_inst_in :: "nat \<Rightarrow> rat_player \<Rightarrow> bool" where
  "rat_inst_in ins s \<longleftrightarrow> rat_shape s \<and> 0x154 + ins * 20 \<le> tune_size s"

interpretation rat_inst_step: step_calculus "rat_inst_in ins" rat_keeps for ins
  by unfold_locales (auto simp: rat_keeps_def rat_inst_in_def)

lemma rat_inst_op: "rat_op f \<Longrightarrow> op_ok (rat_inst_in ins) rat_keeps f"
  by (simp add: op_ok_def rat_inst_in_def)

lemma rat_inst_read:
  assumes "field < 20" "\<And>v. op_ok (rat_inst_in ins) rat_keeps (k v)"
  shows "op_ok (rat_inst_in ins) rat_keeps (\<lambda>s. Option.bind (rat_inst ins field s) (\<lambda>v. k v s))"
  by (rule rat_inst_step.ok_read [of _ _ "\<lambda>_. True"])
    (use assms in \<open>simp_all add: rat_inst_def rat_inst_in_def rd_Some\<close>)

lemma rat_put_op: "reg < 256 \<Longrightarrow> field < 20 \<Longrightarrow> op_ok (rat_inst_in ins) rat_keeps (rat_put ins reg field)"
  unfolding rat_put_def by (intro rat_inst_read rat_inst_op rat_write_op)

lemma rat_put_volume_op:
  "reg < 256 \<Longrightarrow> field < 20 \<Longrightarrow> op_ok (rat_inst_in ins) rat_keeps (rat_put_volume ins reg field cvol)"
  unfolding rat_put_volume_def
proof (rule rat_inst_read)
  fix v assume reg: "reg < 256"
  show "op_ok (rat_inst_in ins) rat_keeps (\<lambda>s. xad_write reg (uint (calc_volume v cvol (rat_volume s))) s)"
    using op_okD [OF rat_inst_op [OF rat_write_op [OF reg]]] by (intro op_okI) blast
qed

lemma length_rat_tables [simp]: "length rat_adlib_bases = 18" "length rat_notes = 16"
  by (simp_all add: rat_adlib_bases_def rat_notes_def)

lemma rat_bases_bound: "i < 18 \<Longrightarrow> rat_adlib_bases ! i < 0x16"
proof -
  have "list_all (\<lambda>b. b < 0x16) rat_adlib_bases" by (simp add: rat_adlib_bases_def)
  then show "i < 18 \<Longrightarrow> rat_adlib_bases ! i < 0x16" by (simp add: list_all_length)
qed

lemma rat_shape_channel:
  "rat_shape s \<Longrightarrow> i < 9 \<Longrightarrow> rd (rat_channels s) i = Some (rat_channels s ! i)"
  "rat_shape s \<Longrightarrow> i < 9 \<Longrightarrow> 0x154 + unat (rc_instrument (rat_channels s ! i)) * 20 \<le> tune_size s"
  by (simp_all add: rat_shape_def rd_Some)

lemma rat_play_note_op: "i < 9 \<Longrightarrow> rat_op (rat_play_note i tone)"
proof (rule op_okI)
  fix s assume i: "i < 9" and s: "rat_shape s"
  let ?c = "rat_channels s ! i"
  let ?ins = "unat (rc_instrument ?c)"
  let ?m = "rat_adlib_bases ! i" and ?car = "rat_adlib_bases ! (i + 9)"
  have b: "?m < 0x16" "?car < 0x16" using rat_bases_bound i by simp_all
  have "tone AND 0x0F \<le> 0x0F" by (rule word_and_le1)
  then have tone: "unat (tone AND 0x0F) < 16" by (simp add: word_le_nat_alt)
  let ?base = "rat_notes ! unat (tone AND 0x0F)"
  have tables: "rd rat_adlib_bases i = Some ?m" "rd rat_adlib_bases (i + 9) = Some ?car"
    "rd rat_notes (unat (tone AND 0x0F)) = Some ?base" using i tone by (simp_all add: rd_Some)
  let ?freq = "\<lambda>f1 f0 :: u8. to_u16 ((uint f1 * 256 + uint f0) * ?base div 0x20AB)"
  let ?body = "\<lambda>s. do {
     s \<leftarrow> rat_put ?ins (0xC0 + i) 14 s;
     s \<leftarrow> rat_put ?ins (0x20 + ?m) 4 s;
     s \<leftarrow> rat_put ?ins (0x20 + ?car) 5 s;
     s \<leftarrow> rat_put_volume ?ins (0x40 + ?m) 6 (rc_volume ?c) s;
     s \<leftarrow> rat_put_volume ?ins (0x40 + ?car) 7 (rc_volume ?c) s;
     s \<leftarrow> rat_put ?ins (0x60 + ?m) 8 s;
     s \<leftarrow> rat_put ?ins (0x60 + ?car) 9 s;
     s \<leftarrow> rat_put ?ins (0x80 + ?m) 10 s;
     s \<leftarrow> rat_put ?ins (0x80 + ?car) 11 s;
     s \<leftarrow> rat_put ?ins (0xE0 + ?m) 12 s;
     s \<leftarrow> rat_put ?ins (0xE0 + ?car) 13 s;
     f1 \<leftarrow> rat_inst ?ins 1 s;
     f0 \<leftarrow> rat_inst ?ins 0 s;
     s \<leftarrow> xad_write (0xA0 + i) (uint (?freq f1 f0 AND 0xFF)) s;
     xad_write (0xB0 + i) (uint (drop_bit 8 (?freq f1 f0)) OR uint (drop_bit 2 (tone AND 0xF0)) OR 0x20) s }"
  have body: "op_ok (rat_inst_in ?ins) rat_keeps ?body"
    by (intro rat_inst_step.ok_bind rat_put_op rat_put_volume_op rat_inst_read rat_inst_op [OF rat_write_op])
      (use i b in simp_all)
  have "rat_inst_in ?ins s" using s rat_shape_channel(2) [OF s i] by (simp add: rat_inst_in_def)
  from op_okD [OF body this] obtain t where t: "?body s = Some t" "rat_keeps s t" by (elim exE conjE) (rule that)
  have "rat_play_note i tone s = ?body s"
    by (simp only: rat_play_note_def rat_shape_channel(1) [OF s i] tables bind.bind_lunit Let_def)
  then have "rat_play_note i tone s = Some t" by (rule trans) (rule t(1))
  then show "\<exists>t. rat_play_note i tone s = Some t \<and> rat_keeps s t" using t(2) by blast
qed

lemma rat_set_channel_ok:
  assumes "rat_shape s" "i < 9" "0x154 + unat (rc_instrument (f (rat_channels s ! i))) * 20 \<le> tune_size s"
  shows "\<exists>t. rat_set_channel i f s = Some t \<and> rat_keeps s t"
proof -
  let ?t = "s\<lparr>rat_channels := (rat_channels s)[i := f (rat_channels s ! i)]\<rparr>"
  have "rat_set_channel i f s = Some ?t"
    using assms by (simp add: rat_set_channel_def rat_shape_channel(1) wr_Some rat_shape_def)
  moreover have "\<forall>c \<in> set (rat_channels ?t). 0x154 + unat (rc_instrument c) * 20 \<le> tune_size s"
    using assms set_update_subset_insert [of "rat_channels s" i "f (rat_channels s ! i)"] by (auto simp: rat_shape_def)
  then have "rat_keeps s ?t"
    using assms(1) by (simp add: rat_keeps_def rat_shape_def rat_valid_def rat_fresh_def xad_has_regs_def)
  ultimately show ?thesis by blast
qed

lemma rat_set_channel_op:
  "i < 9 \<Longrightarrow> (\<And>c. rc_instrument (f c) = rc_instrument c) \<Longrightarrow> rat_op (rat_set_channel i f)"
  by (rule op_okI) (use rat_set_channel_ok rat_shape_channel(2) in simp)

lemma rat_event_step_op: "i < 9 \<Longrightarrow> rat_op (rat_event_step i event)"
proof -
  assume i: "i < 9"
  let ?ins = "re_instrument event"
  have sel: "rat_op (\<lambda>s. if ?ins \<noteq> 0xFF \<and> 0 < ?ins \<and> ?ins \<le> rh_numinst (rat_hdr s) then do {
            v \<leftarrow> rat_inst (unat ?ins - 1) 16 s;
            rat_set_channel i (\<lambda>c. c\<lparr>rc_instrument := ?ins - 1, rc_volume := v\<rparr>) s
          } else Some s)" (is "rat_op ?f")
  proof (rule op_okI)
    fix s assume s: "rat_shape s"
    show "\<exists>t. ?f s = Some t \<and> rat_keeps s t"
    proof (cases "?ins \<noteq> 0xFF \<and> 0 < ?ins \<and> ?ins \<le> rh_numinst (rat_hdr s)")
      case True
      then have "0 < unat ?ins" by (auto simp: unat_gt_0)
      then have n: "1 \<le> unat ?ins" "unat ?ins \<le> unat (rh_numinst (rat_hdr s))" "unat (?ins - 1) = unat ?ins - 1"
        using True by (auto simp: word_le_nat_alt unat_minus_one)
      have "unat ?ins * 20 \<le> unat (rh_numinst (rat_hdr s)) * 20" using n(2) by simp
      then have size: "0x154 + (unat ?ins - 1) * 20 \<le> tune_size s"
        using n(1) s by (simp add: rat_shape_def rat_valid_def diff_mult_distrib)
      then have "rat_inst (unat ?ins - 1) 16 s = Some (xad_tune s ! (0x140 + (unat ?ins - 1) * 20 + 16))"
        by (simp add: rat_inst_def rd_Some)
      then show ?thesis using True size n(3)
          rat_set_channel_ok [OF s i, of "\<lambda>c. c\<lparr>rc_instrument := ?ins - 1,
            rc_volume := xad_tune s ! (0x140 + (unat ?ins - 1) * 20 + 16)\<rparr>"] by simp
    next
      case False
      then show ?thesis using rat_step.keep_refl [OF s] by auto
    qed
  qed
  show ?thesis unfolding rat_event_step_def Let_def
    by (intro rat_step.ok_bind sel rat_step.ok_if rat_step.ok_skip rat_set_channel_op rat_write_op rat_play_note_op)
      (use i in simp_all)
qed

lemma rat_row_ok:
  assumes "rat_ok s" "p < 256"
  shows "\<exists>t. ofold (rat_row_channel p) [0..<rat_numchan s] s = Some t \<and> rat_keeps s t"
proof (rule ofold_invariant [of "rat_keeps s"])
  have s: "rat_shape s" "unat (rat_pattern_pos s) < 64" using assms by (simp_all add: rat_ok_def word_less_nat_alt)
  show "rat_keeps s s" by (rule rat_step.keep_refl [OF s(1)])
  fix i u assume "i \<in> set [0..<rat_numchan s]" and u: "rat_keeps s u"
  then have i: "i < 9" using s(1) by (simp add: rat_shape_def rat_valid_def)
  have dims: "matrix 256 64 (rat_tracks s)" "length (rat_tracks s ! p ! unat (rat_pattern_pos s)) = 9"
    using s assms(2) by (simp_all add: rat_shape_def rat_valid_def rat_fresh_def rat_dims_def)
  let ?row = "rat_tracks s ! p ! unat (rat_pattern_pos s)"
  have "rat_row_channel p i u = rat_event_step i (?row ! i) u"
    using u i dims s(2) assms(2) by (simp add: rat_row_channel_def rat_keeps_def rd2_Some [OF dims(1)] rd_Some)
  moreover obtain v where "rat_event_step i (?row ! i) u = Some v" "rat_keeps u v"
    using op_okD [OF rat_event_step_op [OF i] rat_step.keep_pre [OF s(1) u]] by blast
  ultimately show "\<exists>v. rat_row_channel p i u = Some v \<and> rat_keeps s v" using rat_step.keep_trans [OF u] by auto
qed

section \<open>The end of the song\<close>

text \<open>The orders before the end, which may be reached round the 8-bit position.\<close>

definition rat_dist :: "rat_player \<Rightarrow> nat" where
  "rat_dist s = unat (rh_order_end (rat_hdr s) - rat_order_pos s - 1)"

definition rat_left :: "rat_player \<Rightarrow> nat" where
  "rat_left s = rat_dist s * 65 + (0x40 - unat (rat_pattern_pos s))"

text \<open>The effects report a loop, move to a later order, or stay in the pattern.\<close>

definition rat_moved :: "rat_player \<Rightarrow> rat_player \<Rightarrow> bool" where
  "rat_moved s t \<longleftrightarrow> rat_shape t \<and> xad_tune t = xad_tune s \<and> rat_hdr t = rat_hdr s \<and>
     rat_pattern_pos t \<le> 0x40 \<and> (plr_looping s \<longrightarrow> plr_looping t) \<and> (\<exists>es. opl_out t = opl_out s @ es) \<and>
     (plr_looping t \<or> rat_dist t < rat_dist s \<or>
      rat_dist t = rat_dist s \<and> unat (rat_pattern_pos s) \<le> unat (rat_pattern_pos t))"

lemma rat_moved_trans: "rat_moved s t \<Longrightarrow> rat_moved t u \<Longrightarrow> rat_moved s u"
proof -
  assume a: "rat_moved s t" "rat_moved t u"
  then have "\<exists>es. opl_out u = opl_out s @ es" by (auto simp: rat_moved_def)
  then show ?thesis using a by (auto simp: rat_moved_def)
qed

lemma rat_moved_keeps: "rat_keeps s t \<Longrightarrow> rat_pattern_pos s \<le> 0x40 \<Longrightarrow> rat_moved s t"
  by (simp add: rat_moved_def rat_keeps_def rat_dist_def)

lemma byte_distance: "a < b \<Longrightarrow> b < e \<Longrightarrow> unat (e - b - 1) < unat (e - a - 1)" for a b e :: u8
proof -
  assume ab: "a < b" and be: "b < e"
  have "b \<le> e" "a \<le> e" using ab be by (simp_all add: word_le_nat_alt word_less_nat_alt)
  then have d: "unat (e - b) = unat e - unat b" "unat (e - a) = unat e - unat a" by (simp_all add: unat_sub)
  have "unat a < unat b" "unat b < unat e" using ab be by (simp_all add: word_less_nat_alt)
  then have "0 < unat (e - b)" "0 < unat (e - a)" using d by linarith+
  then have "e - b \<noteq> 0" "e - a \<noteq> 0" by auto
  then have "unat (e - b - 1) = unat (e - b) - 1" "unat (e - a - 1) = unat (e - a) - 1"
    by (simp_all add: unat_minus_one)
  then show ?thesis using d \<open>unat a < unat b\<close> \<open>unat b < unat e\<close> by linarith
qed

lemma rat_effect_ok:
  assumes s: "rat_shape s" "rat_pattern_pos s \<le> 0x40" and i: "i < 9"
  shows "\<exists>t. rat_effect i s = Some t \<and> rat_moved s t"
proof -
  let ?c = "rat_channels s ! i"
  let ?fx = "rc_fx ?c" and ?p = "rc_fxp ?c"
  define u where "u = (if ?fx = 1 then s\<lparr>plr_speed := ?p\<rparr>
              else if ?fx = 2 then
                (if ?p < rh_order_end (rat_hdr s)
                 then s\<lparr>plr_looping := plr_looping s \<or> ?p \<le> rat_order_pos s, rat_order_pos := ?p\<rparr>
                 else s\<lparr>plr_looping := True, rat_order_pos := 0\<rparr>)\<lparr>rat_pattern_pos := 0\<rparr>
              else if ?fx = 3 then s\<lparr>rat_pattern_pos := 0x40\<rparr>
              else s)"
  have same: "rat_shape u" "xad_tune u = xad_tune s" "rat_hdr u = rat_hdr s" "opl_out u = opl_out s"
    using s(1) by (simp_all add: u_def rat_shape_def rat_valid_def rat_fresh_def xad_has_regs_def)
  have pp: "unat (rat_pattern_pos s) \<le> 0x40" using s(2) by (simp add: word_le_nat_alt)
  have "plr_looping u \<or> rat_dist u < rat_dist s \<or>
      rat_dist u = rat_dist s \<and> unat (rat_pattern_pos s) \<le> unat (rat_pattern_pos u)"
  proof (cases "?fx = 2 \<and> ?p < rh_order_end (rat_hdr s) \<and> rat_order_pos s < ?p")
    case True
    then have "rat_dist u < rat_dist s" using byte_distance [of "rat_order_pos s" ?p "rh_order_end (rat_hdr s)"]
      by (simp add: u_def rat_dist_def)
    then show ?thesis by simp
  next
    case False
    then show ?thesis using pp by (auto simp: u_def rat_dist_def not_less)
  qed
  then have "rat_moved s u" using same s(2) by (auto simp: rat_moved_def u_def)
  moreover have "rat_effect i s = rat_set_channel i (\<lambda>c. c\<lparr>rc_fx := 0\<rparr>) u"
    by (simp add: rat_effect_def rat_shape_channel(1) [OF s(1) i] u_def Let_def)
  moreover obtain t where "rat_set_channel i (\<lambda>c. c\<lparr>rc_fx := 0\<rparr>) u = Some t" "rat_keeps u t"
    using op_okD [OF rat_set_channel_op [OF i, of "\<lambda>c. c\<lparr>rc_fx := 0\<rparr>"] same(1)] by auto
  moreover from this(2) have "rat_moved u t" by (rule rat_moved_keeps) (use \<open>rat_moved s u\<close> in \<open>simp add: rat_moved_def\<close>)
  ultimately show ?thesis using rat_moved_trans by auto
qed

lemma rat_next_order_left:
  "plr_looping (rat_next_order s) \<or> rat_dist (rat_next_order s) < rat_dist s"
proof (cases "rat_order_pos s + 1 = rh_order_end (rat_hdr s)")
  case True
  then show ?thesis by (simp add: rat_next_order_def Let_def)
next
  case False
  let ?d = "rh_order_end (rat_hdr s) - rat_order_pos s - 1"
  have d: "?d \<noteq> 0" using False by (simp add: algebra_simps eq_diff_eq)
  have "unat (?d - 1) = unat ?d - 1" using d by (rule unat_minus_one)
  moreover have "0 < unat ?d" using d by (auto simp: unat_gt_0)
  moreover have "rh_order_end (rat_hdr s) - (rat_order_pos s + 1) - 1 = ?d - 1" by (simp add: algebra_simps)
  ultimately have "unat (rh_order_end (rat_hdr s) - (rat_order_pos s + 1) - 1) < unat ?d" by (simp only:)
  then show ?thesis using False by (simp add: rat_next_order_def rat_dist_def Let_def)
qed

lemma rat_next_order_keeps:
  "rat_shape s \<Longrightarrow> rat_ok (rat_next_order s)" "xad_tune (rat_next_order s) = xad_tune s"
  "opl_out (rat_next_order s) = opl_out s" "plr_looping s \<Longrightarrow> plr_looping (rat_next_order s)"
  by (simp_all add: rat_next_order_def Let_def rat_ok_def rat_shape_def rat_valid_def rat_fresh_def xad_has_regs_def)

lemma rat_next_order_drops:
  assumes "\<not> plr_looping (rat_next_order t)" "rat_dist t \<le> rat_dist s" "rat_pattern_pos s < 0x40"
  shows "rat_left (rat_next_order t) < rat_left s"
proof -
  have "rat_dist (rat_next_order t) + 1 \<le> rat_dist s"
    using rat_next_order_left [of t] assms(1,2) by simp
  then have "(rat_dist (rat_next_order t) + 1) * 65 \<le> rat_dist s * 65" by (rule mult_le_mono1)
  then show ?thesis by (simp add: rat_left_def)
qed

lemma rat_update_ok:
  assumes "rat_ok s"
  shows "\<exists>t es. rat_update s = Some t \<and> rat_ok t \<and> xad_tune t = xad_tune s \<and> opl_out t = opl_out s @ es \<and>
    (plr_looping t \<or> rat_left t < rat_left s)"
proof -
  have s: "rat_shape s" "rat_pattern_pos s < 0x40" using assms by (simp_all add: rat_ok_def)
  let ?p = "xad_tune s ! (0x40 + unat (rat_order_pos s))"
  have "unat (rat_order_pos s) < 256" by simp
  moreover have "0x140 \<le> tune_size s" using s(1) by (simp add: rat_shape_def rat_valid_def)
  ultimately have order: "rd (xad_tune s) (0x40 + unat (rat_order_pos s)) = Some ?p"
    using \<open>0x140 \<le> tune_size s\<close> by (intro rd_Some) linarith
  show ?thesis
  proof (cases "rh_numpat (rat_hdr s) \<le> ?p")
    case True
    then have "rat_update s = Some (rat_next_order s)" using order by (simp add: rat_update_def)
    then show ?thesis using rat_next_order_keeps s rat_next_order_drops [of s s] by auto
  next
    case False
    obtain t where t: "ofold (rat_row_channel (unat ?p)) [0..<rat_numchan s] s = Some t" "rat_keeps s t"
      using rat_row_ok [OF assms, of "unat ?p"] by auto
    let ?t = "t\<lparr>rat_pattern_pos := rat_pattern_pos t + 1\<rparr>"
    have pp: "rat_pattern_pos t = rat_pattern_pos s" "unat (rat_pattern_pos s + 1) = unat (rat_pattern_pos s) + 1"
      using t(2) s(2) by (simp_all add: rat_keeps_def unat_word_ariths word_less_nat_alt)
    have shape: "rat_shape t" "rat_hdr t = rat_hdr s" using t(2) by (simp_all add: rat_keeps_def)
    have start: "rat_shape ?t" "rat_pattern_pos ?t \<le> 0x40" "rat_hdr t = rat_hdr s"
      using shape pp s(2) by (simp_all add: rat_shape_def rat_valid_def rat_fresh_def xad_has_regs_def
        word_le_nat_alt word_less_nat_alt)
    have "\<exists>u. ofold rat_effect [0..<rat_numchan s] ?t = Some u \<and> rat_moved ?t u"
    proof (rule ofold_invariant [of "rat_moved ?t"])
      show "rat_moved ?t ?t" using start by (simp add: rat_moved_def)
      fix i v assume i: "i \<in> set [0..<rat_numchan s]" and v: "rat_moved ?t v"
      then have "i < 9" using s(1) by (simp add: rat_shape_def rat_valid_def)
      then show "\<exists>w. rat_effect i v = Some w \<and> rat_moved ?t w"
        using rat_effect_ok [of v i] v rat_moved_trans [OF v] by (auto simp: rat_moved_def)
    qed
    then obtain u where u: "ofold rat_effect [0..<rat_numchan s] ?t = Some u" "rat_moved ?t u" by blast
    have run: "rat_update s = Some (if 0x40 \<le> rat_pattern_pos u then rat_next_order u else u)"
      using order False t(1) u(1) start(3) by (simp add: rat_update_def Let_def)
    have tune: "xad_tune u = xad_tune s" "\<exists>es. opl_out u = opl_out s @ es" "rat_shape u"
      using u(2) t(2) by (auto simp: rat_moved_def rat_keeps_def)
    have dist: "rat_dist ?t = rat_dist s" using t(2) by (simp add: rat_keeps_def rat_dist_def)
    show ?thesis
    proof (cases "0x40 \<le> rat_pattern_pos u")
      case True
      have "plr_looping (rat_next_order u) \<or> rat_left (rat_next_order u) < rat_left s"
        using rat_next_order_drops [of u s] rat_next_order_keeps(4) [of u] u(2) dist s(2) unfolding rat_moved_def by fastforce
      then show ?thesis using True run tune rat_next_order_keeps by auto
    next
      case False
      have "plr_looping u \<or> rat_left u < rat_left s"
      proof (cases "plr_looping u \<or> rat_dist u < rat_dist s")
        case True
        then show ?thesis
        proof (elim disjE)
          assume "rat_dist u < rat_dist s"
          then have "(rat_dist u + 1) * 65 \<le> rat_dist s * 65" by (intro mult_le_mono1) simp
          then have "rat_dist u * 65 + 65 \<le> rat_dist s * 65" by simp
          moreover have "0 < 0x40 - unat (rat_pattern_pos s)" using s(2) by (simp add: word_less_nat_alt)
          moreover have "0x40 - unat (rat_pattern_pos u) \<le> 0x40" by simp
          ultimately have "rat_left u < rat_left s" unfolding rat_left_def by simp
          then show ?thesis by simp
        qed simp
      next
        case False
        then have "rat_dist u = rat_dist s" "unat (rat_pattern_pos s + 1) \<le> unat (rat_pattern_pos u)"
          using u(2) dist pp(1) by (auto simp: rat_moved_def)
        moreover have "unat (rat_pattern_pos s) < 0x40" using s(2) by (simp add: word_less_nat_alt)
        ultimately have "0x40 - unat (rat_pattern_pos u) < 0x40 - unat (rat_pattern_pos s)" using pp(2) by linarith
        then have "rat_left u < rat_left s"
          unfolding rat_left_def \<open>rat_dist u = rat_dist s\<close> by (rule add_strict_left_mono)
        then show ?thesis by simp
      qed
      then show ?thesis using False run tune by (auto simp: rat_ok_def not_le)
    qed
  qed
qed

lemma rat_rewind_ok:
  assumes "rat_valid s" "0x154 \<le> tune_size s"
  shows "\<exists>t. rat_rewind n s = Some t \<and> rat_ok t \<and> xad_tune t = xad_tune s"
proof -
  let ?s = "s\<lparr>rat_order_pos := rh_order_start (rat_hdr s), rat_pattern_pos := 0,
               rat_volume := rh_volume (rat_hdr s), plr_speed := rh_speed (rat_hdr s),
               rat_channels := replicate 9 \<lparr>rc_instrument = 0, rc_volume = 0, rc_fx = 0, rc_fxp = 0\<rparr>\<rparr>"
  have pre: "rat_shape ?s" using assms by (simp add: rat_shape_def rat_valid_def rat_fresh_def xad_has_regs_def)
  have "rat_op (\<lambda>s. do {
     s \<leftarrow> xad_write 0x01 0x20 s;
     s \<leftarrow> xad_write 0x08 0x00 s;
     s \<leftarrow> xad_write 0xBD 0x00 s;
     s \<leftarrow> ofold (\<lambda>i s. do {
            s \<leftarrow> xad_write (0xA0 + i) 0 s;
            s \<leftarrow> xad_write (0xA3 + i) 0 s;
            s \<leftarrow> xad_write (0xB0 + i) 0 s;
            xad_write (0xB3 + i) 0 s
          }) [0..<9] s;
     ofold (\<lambda>i. xad_write (0x40 + i) 0x3F) [0..<0x1F] s })"
    by (intro rat_step.ok_bind rat_step.ok_ofold rat_write_op) simp_all
  from op_okD [OF this pre] obtain t where t: "rat_rewind n s = Some t" "rat_keeps ?s t"
    by (auto simp: rat_rewind_def Let_def simp del: upt.simps ofold.simps)
  then show ?thesis by (simp add: rat_keeps_def rat_ok_def)
qed

section \<open>The song as a player\<close>

text \<open>
  A tune that ends before its first instrument, which only a song with no instruments can have, is
  accepted all the same, and its notes read past the end of the tune.
\<close>

definition rat_fits :: "bytes \<Rightarrow> bool" where
  "rat_fits tune \<longleftrightarrow> 0x154 \<le> length tune"

lemma rat_started: "rat_valid (xad_start s) = rat_valid s" "xad_tune (xad_start s) = xad_tune s"
  by (simp_all add: rat_valid_def rat_fresh_def xad_has_regs_def xad_start_def opl_init_def)

text \<open>Rewinding touches no instrument, so it returns for every accepted tune.\<close>

lemma rat_rewind_returns:
  assumes "rat_valid s"
  shows "\<exists>t. rat_rewind n s = Some t \<and> xad_tune t = xad_tune s"
proof -
  let ?s = "s\<lparr>rat_order_pos := rh_order_start (rat_hdr s), rat_pattern_pos := 0,
               rat_volume := rh_volume (rat_hdr s), plr_speed := rh_speed (rat_hdr s),
               rat_channels := replicate 9 \<lparr>rc_instrument = 0, rc_volume = 0, rc_fx = 0, rc_fxp = 0\<rparr>\<rparr>"
  have pre: "xad_has_regs ?s" using assms by (simp add: rat_valid_def rat_fresh_def xad_has_regs_def)
  have "xad_op (\<lambda>s. do {
     s \<leftarrow> xad_write 0x01 0x20 s;
     s \<leftarrow> xad_write 0x08 0x00 s;
     s \<leftarrow> xad_write 0xBD 0x00 s;
     s \<leftarrow> ofold (\<lambda>i s. do {
            s \<leftarrow> xad_write (0xA0 + i) 0 s;
            s \<leftarrow> xad_write (0xA3 + i) 0 s;
            s \<leftarrow> xad_write (0xB0 + i) 0 s;
            xad_write (0xB3 + i) 0 s
          }) [0..<9] s;
     ofold (\<lambda>i. xad_write (0x40 + i) 0x3F) [0..<0x1F] s })"
    by (intro xw.ok_bind xw.ok_ofold xad_op_write) simp_all
  from op_okD [OF this pre] obtain t where t: "rat_rewind n s = Some t" "xad_regs ?s t"
    by (auto simp: rat_rewind_def Let_def simp del: upt.simps ofold.simps)
  then show ?thesis by (auto simp: xad_regs_def)
qed

interpretation rat: xad_ending_song rat_load rat_rewind rat_update rat_fresh
    "\<lambda>s. rat_ok s \<and> rat_fits (xad_tune s)" rat_fits rat_left
proof unfold_locales
  fix s :: rat_player and n :: int
  assume s: "rat_ok s \<and> rat_fits (xad_tune s)"
  then have "rat_valid (xad_start s)" "0x154 \<le> tune_size (xad_start s)"
    by (simp_all add: rat_started rat_ok_def rat_shape_def rat_fits_def)
  from rat_rewind_ok [OF this, of n] obtain t where "rat_rewind n (xad_start s) = Some t" "rat_ok t"
    "xad_tune t = xad_tune (xad_start s)" by blast
  then show "\<exists>t. rat_rewind n (xad_start s) = Some t \<and> rat_ok t \<and> rat_fits (xad_tune t)"
    using s by (simp add: rat_started)
next
  fix s :: rat_player assume "rat_fresh s"
  then obtain b t where t: "rat_load s = Some (b, t)" "xad_tune t = xad_tune s" "b \<longrightarrow> rat_valid t"
    using rat_load_ok by blast
  have "\<exists>u. rat_rewind 0 (xad_start t) = Some u \<and> (rat_fits (xad_tune u) \<longrightarrow> rat_ok u \<and> rat_fits (xad_tune u))" if b
  proof -
    have valid: "rat_valid (xad_start t)" using t(3) that by (simp add: rat_started)
    from rat_rewind_returns [OF this] obtain u where
      u: "rat_rewind 0 (xad_start t) = Some u" "xad_tune u = xad_tune (xad_start t)" by blast
    moreover have "rat_ok u" if "rat_fits (xad_tune u)"
    proof -
      have "0x154 \<le> tune_size (xad_start t)" using that u(2) by (simp add: rat_fits_def)
      from rat_rewind_ok [OF valid this, of 0] u(1) show ?thesis by auto
    qed
    ultimately show ?thesis by blast
  qed
  then show "\<exists>b t. rat_load s = Some (b, t) \<and> (b \<longrightarrow> (\<exists>u. rat_rewind 0 (xad_start t) = Some u \<and>
      (rat_fits (xad_tune u) \<longrightarrow> rat_ok u \<and> rat_fits (xad_tune u))))" using t(1) by blast
next
  fix s :: rat_player assume "rat_ok s \<and> rat_fits (xad_tune s)"
  then show "\<exists>t es. rat_update s = Some t \<and> (rat_ok t \<and> rat_fits (xad_tune t)) \<and> opl_out t = opl_out s @ es"
    using rat_update_ok [of s] by auto
next
  fix s t assume "rat_ok s \<and> rat_fits (xad_tune s)" "rat_update s = Some t" "\<not> plr_looping t"
  then show "rat_left t < rat_left s" using rat_update_ok [of s] by auto
qed (simp_all add: rat_fresh_def rat_ok_def rat_shape_def rat_valid_def xad_has_regs_def rat_left_def rat_dist_def
  xad_set_header_def)

text \<open>Load of a RAT song returns for every file, and an accepted song whose tune holds at least one instrument plays to a reported end without a fault, whatever jumps its effects make.\<close>

theorem rat_song_ends:
  assumes "stream_laws io P" "\<And>f. opn filename = Some f \<Longrightarrow> P f" "rat_fresh s"
    "length (xad_title s) = 36" "length (xad_author s) = 36"
  shows "\<exists>b t. xad_load io opn mem rat_load rat_rewind filename s = Some (b, t) \<and>
    (b \<and> rat_fits (xad_tune t) \<longrightarrow>
      (\<exists>n u v. play (xad_update rat_update) n t = Some u \<and> xad_update rat_update u = Some (False, v)))"
  by (rule rat.load_ends [OF assms])

definition rat_new :: rat_player where
  "rat_new = xad_player.extend xad_zero (rat_player.fields 
    \<lparr>rh_id = [], rh_version = 0, rh_numchan = 0, rh_order_end = 0, rh_numinst = 0, rh_numpat = 0, rh_order_start = 0,
      rh_order_loop = 0, rh_volume = 0, rh_speed = 0, rh_patseg0 = 0, rh_patseg1 = 0\<rparr>
    0 0 0 (replicate 256 (replicate 64 (replicate 9
      \<lparr>re_note = 0, re_instrument = 0, re_volume = 0, re_fx = 0, re_fxp = 0\<rparr>))) [])"

lemma rat_song_ends_witness:
  "let bs = xad_file RAT 1 ([0x52, 0x41, 0x54, 0x10] @ replicate 32 0 @ [1, 0, 1] @ replicate 0x12D 0) in
   \<exists>b t. xad_load memio (\<lambda>_. Some (mem_file bs)) (\<lambda>_. 0) rat_load rat_rewind ''a.xad'' rat_new = Some (b, t) \<and>
    (b \<and> rat_fits (xad_tune t) \<longrightarrow>
      (\<exists>n u v. play (xad_update rat_update) n t = Some u \<and> xad_update rat_update u = Some (False, v)))"
proof -
  let ?bs = "xad_file RAT 1 ([0x52, 0x41, 0x54, 0x10] @ replicate 32 0 @ [1, 0, 1] @ replicate 0x12D 0)"
  have "length ?bs < 2 ^ 63" by (simp add: xad_file_def)
  moreover have "rat_fresh rat_new" "length (xad_title rat_new) = 36" "length (xad_author rat_new) = 36"
    by (simp_all add: rat_fresh_def rat_dims_def xad_has_regs_def rat_new_def rat_player.defs xad_zero_simps)
  ultimately show ?thesis
    unfolding Let_def
    by (intro rat_song_ends [OF mem_stream_laws [of ?bs]]) auto
qed

end
