(* ===== verification/Xbmf.thy ===== *)
theory Xbmf
  imports Xad
begin

text \<open>
  \<open>src/bmf.cpp\<close>, \<open>src/bmf.h\<close>: the BMF song in its three versions. The loader converts the
  variable-length stream of each channel into at most 1024 events; the player runs through them,
  with loops that an event opens and another one closes. A pointer into the tune is the rest of it.
\<close>

datatype bmf_version = BMF0_9B | BMF1_1 | BMF1_2

record bmf_event =
  be_note :: u8
  be_delay :: u8
  be_volume :: u8
  be_instrument :: u8
  be_cmd :: u8
  be_cmd_data :: u8

record bmf_instrument =
  bi_name :: bytes
  bi_data :: bytes

record bmf_channel =
  bc_position :: u16
  bc_delay :: u8
  bc_loop_position :: u16
  bc_loop_counter :: u8

record bmf_player = xad_player +
  bmf_version :: bmf_version
  bmf_title :: bytes
  bmf_author :: bytes
  bmf_speed :: u8
  bmf_instruments :: "bmf_instrument list"
  bmf_streams :: "bmf_event list list"
  bmf_active :: int
  bmf_channels :: "bmf_channel list"

definition bmf_adlib_registers :: "nat list" where
  "bmf_adlib_registers =
    [0x20, 0x23, 0x40, 0x43, 0x60, 0x63, 0x80, 0x83, 0xA0, 0xB0, 0xC0, 0xE0, 0xE3,
     0x21, 0x24, 0x41, 0x44, 0x61, 0x64, 0x81, 0x84, 0xA1, 0xB1, 0xC1, 0xE1, 0xE4,
     0x22, 0x25, 0x42, 0x45, 0x62, 0x65, 0x82, 0x85, 0xA2, 0xB2, 0xC2, 0xE2, 0xE5,
     0x28, 0x2B, 0x48, 0x4B, 0x68, 0x6B, 0x88, 0x8B, 0xA3, 0xB3, 0xC3, 0xE8, 0xEB,
     0x29, 0x2C, 0x49, 0x4C, 0x69, 0x6C, 0x89, 0x8C, 0xA4, 0xB4, 0xC4, 0xE9, 0xEC,
     0x2A, 0x2D, 0x4A, 0x4D, 0x6A, 0x6D, 0x8A, 0x8D, 0xA5, 0xB5, 0xC5, 0xEA, 0xED,
     0x30, 0x33, 0x50, 0x53, 0x70, 0x73, 0x90, 0x93, 0xA6, 0xB6, 0xC6, 0xF0, 0xF3,
     0x31, 0x34, 0x51, 0x54, 0x71, 0x74, 0x91, 0x94, 0xA7, 0xB7, 0xC7, 0xF1, 0xF4,
     0x32, 0x35, 0x52, 0x55, 0x72, 0x75, 0x92, 0x95, 0xA8, 0xB8, 0xC8, 0xF2, 0xF5]"

definition bmf_notes :: "int list" where
  "bmf_notes = [0x157, 0x16B, 0x181, 0x198, 0x1B0, 0x1CA, 0x1E5, 0x202, 0x220, 0x241, 0x263, 0x287]"

definition bmf_notes_2 :: "int list" where
  "bmf_notes_2 = [0x159, 0x16D, 0x183, 0x19A, 0x1B2, 0x1CC, 0x1E8, 0x205, 0x223, 0x244, 0x267, 0x28B]"

definition bmf_default_instrument :: bytes where
  "bmf_default_instrument = [0x01, 0x01, 0x3F, 0x3F, 0x00, 0x00, 0xF0, 0xF0, 0x00, 0x00, 0x00, 0x00, 0x00]"

section \<open>Converting a stream\<close>

definition bmf_zero :: bmf_event where
  "bmf_zero = \<lparr>be_note = 0, be_delay = 0, be_volume = 0, be_instrument = 0, be_cmd = 0, be_cmd_data = 0\<rparr>"

text \<open>
  One event: what has been filled in of it, and the rest of the stream, or \<open>None\<close> where the stream is
  cut off. The commands below 0x20 first, then the command byte, then the whole event.
\<close>

fun bmf_command_12 :: "bmf_event \<Rightarrow> u8 \<Rightarrow> bytes \<Rightarrow> bmf_event \<times> bytes option" where
  "bmf_command_12 event c r =
     (if 1 \<le> c \<and> c \<le> 6 then
        (case r of
           [] \<Rightarrow> (event, None)
         | d # r' \<Rightarrow>
             (if c = 1 then event\<lparr>be_cmd := 0x01, be_cmd_data := d\<rparr>
              else if c = 4 then event\<lparr>be_cmd := 0x10, be_cmd_data := d\<rparr>
              else if c = 5 \<or> c = 6 then event\<lparr>be_volume := d + 1\<rparr>
              else event, Some r'))
      else (event, Some (c # r)))"

fun bmf_command :: "bmf_version \<Rightarrow> bmf_event \<Rightarrow> bytes \<Rightarrow> bmf_event \<times> bytes option" where
  "bmf_command v event [] = (event, None)"
| "bmf_command v event (c # r) =
     (if 0x40 \<le> c then (event\<lparr>be_volume := c - 0x40 + 1\<rparr>, Some r)
      else if 0x20 \<le> c \<and> c \<le> 0x3F then (event\<lparr>be_instrument := c - 0x20 + 1\<rparr>, Some r)
      else case v of
          BMF0_9B \<Rightarrow> (event, Some r)
        | BMF1_1 \<Rightarrow> (event, Some (c # r))
        | BMF1_2 \<Rightarrow> bmf_command_12 event c r)"

fun bmf_optional :: "bmf_version \<Rightarrow> bmf_event \<Rightarrow> bytes \<Rightarrow> bmf_event \<times> bytes option" where
  "bmf_optional v event [] = (event, None)"
| "bmf_optional v event (d # r) =
     (if d AND 0x80 \<noteq> 0 then
        (let event = event\<lparr>be_delay := d AND 0x3F\<rparr>
         in if d AND 0x40 = 0 then (event, Some r) else bmf_command v event r)
      else bmf_command v event (d # r))"

fun bmf_parse :: "bmf_version \<Rightarrow> bytes \<Rightarrow> bmf_event \<times> bytes option" where
  "bmf_parse v [] = (bmf_zero, None)"
| "bmf_parse v (b # r) =
     (if b = 0xFE then (bmf_zero\<lparr>be_cmd := 0xFF\<rparr>, Some r)
      else if b = 0xFC then
        (case r of
           [] \<Rightarrow> (bmf_zero\<lparr>be_cmd := 0xFE\<rparr>, None)
         | d # r' \<Rightarrow> (bmf_zero\<lparr>be_cmd := 0xFE,
             be_cmd_data := (d AND (if v = BMF0_9B then 0x7F else 0x3F)) - 1\<rparr>, Some r'))
      else if b = 0x7D then (bmf_zero\<lparr>be_cmd := 0xFD\<rparr>, Some r)
      else
        (let event = bmf_zero\<lparr>be_note := b AND 0x7F\<rparr>
         in if b AND 0x80 = 0 then (event, Some r) else bmf_optional v event r))"

lemma bmf_command_rest: "bmf_command v event r = (e, Some r') \<Longrightarrow> length r' \<le> length r"
  by (cases "(v, event, r)" rule: bmf_command.cases)
    (auto split: if_splits bmf_version.splits list.splits)

lemma bmf_optional_rest: "bmf_optional v event r = (e, Some r') \<Longrightarrow> length r' \<le> length r"
  by (cases r) (auto simp: Let_def simp del: bmf_command.simps split: if_splits dest!: bmf_command_rest)

lemma bmf_parse_rest: "bmf_parse v r = (e, Some r') \<Longrightarrow> length r' < length r"
  by (cases r) (auto simp: Let_def simp del: bmf_optional.simps split: if_splits list.splits dest!: bmf_optional_rest)

text \<open>
  The conversion loop. Events that no longer fit go into the last slot, which the end marker
  overwrites.
\<close>

function bmf_convert ::
  "bmf_version \<Rightarrow> nat \<Rightarrow> bytes \<Rightarrow> bmf_event list \<Rightarrow> (bytes option \<times> bmf_event list) option"
where
  "bmf_convert v pos stream events =
     (case bmf_parse v stream of (event, rest) \<Rightarrow> do {
        events \<leftarrow> wr events pos event;
        case rest of
          None \<Rightarrow> Some (None, events)
        | Some r \<Rightarrow>
            if be_cmd event = 0xFF then Some (Some r, events)
            else bmf_convert v (if pos < 1023 then pos + 1 else pos) r events
      })"
  by pat_completeness auto

termination
  by (relation "measure (\<lambda>(v, pos, stream, events). length stream)") (auto dest: bmf_parse_rest [OF sym])

declare bmf_convert.simps [simp del]

section \<open>The loader\<close>

text \<open>A zero-terminated text copied into a buffer of 36 bytes, and the rest of the tune.\<close>

definition bmf_text :: "bytes \<Rightarrow> bytes \<Rightarrow> (bytes \<times> bytes) option" where
  "bmf_text buf r =
     (let len = length (takeWhile (\<lambda>b. b \<noteq> 0) r)
      in if len = length r then None
         else Some (if 36 \<le> len then take 35 r @ [0] else take (len + 1) r @ drop (len + 1) buf, drop (len + 1) r))"

definition bmf_strncpy :: "bytes \<Rightarrow> bytes" where
  "bmf_strncpy src = (take 36 (takeWhile (\<lambda>b. b \<noteq> 0) src @ replicate 36 0))[35 := 0]"

definition bmf_flags :: "bytes \<Rightarrow> u32" where
  "bmf_flags r = push_bit 24 (ucast (r ! 0)) OR push_bit 16 (ucast (r ! 1)) OR push_bit 8 (ucast (r ! 2)) OR ucast (r ! 3)"

fun bmf_load_instruments ::
  "bmf_version \<Rightarrow> u32 \<Rightarrow> nat list \<Rightarrow> bytes \<Rightarrow> bmf_instrument list \<Rightarrow> (bytes option \<times> bmf_instrument list) option"
where
  "bmf_load_instruments v flags [] r insts = Some (Some r, insts)"
| "bmf_load_instruments v flags (i # is) r insts =
     (if bit flags (31 - i) then
        if length r < 24 then Some (None, insts)
        else do {
          insts \<leftarrow> wr insts i \<lparr>bi_name = take 10 r @ [0], bi_data = take 13 (drop 11 r)\<rparr>;
          bmf_load_instruments v flags is (drop 24 r) insts
        }
      else do {
        insts \<leftarrow> wr insts i \<lparr>bi_name = replicate 11 0,
                    bi_data = (if v = BMF1_1 then bmf_default_instrument else replicate 13 0)\<rparr>;
        bmf_load_instruments v flags is r insts
      })"

text \<open>The table of version 0.9b, whose entries name their instrument.\<close>

fun bmf_load_table :: "bytes \<Rightarrow> nat list \<Rightarrow> bmf_instrument list \<Rightarrow> bmf_instrument list option" where
  "bmf_load_table r [] insts = Some insts"
| "bmf_load_table r (i # is) insts = do {
     n \<leftarrow> rd r (15 * i);
     if n < 32 then do {
       inst \<leftarrow> rd insts (unat n);
       insts \<leftarrow> wr insts (unat n) (inst\<lparr>bi_data := take 13 (drop (15 * i + 2) r)\<rparr>);
       bmf_load_table r is insts
     } else Some insts
   }"

definition bmf_no_stream :: "nat \<Rightarrow> bmf_event list list \<Rightarrow> bmf_event list list option" where
  "bmf_no_stream i streams = do {
     events \<leftarrow> rd streams i;
     event \<leftarrow> rd events 0;
     wr2 streams i 0 (event\<lparr>be_cmd := 0xFF\<rparr>)
   }"

text \<open>The streams of the channels \<open>is\<close> that \<open>present\<close> names.\<close>

fun bmf_load_streams ::
  "bmf_version \<Rightarrow> (nat \<Rightarrow> bool) \<Rightarrow> nat list \<Rightarrow> bytes \<Rightarrow> bmf_event list list \<Rightarrow>
   (bytes option \<times> bmf_event list list) option"
where
  "bmf_load_streams v present [] r streams = Some (Some r, streams)"
| "bmf_load_streams v present (i # is) r streams =
     (if present i then do {
        events \<leftarrow> rd streams i;
        (rest, events) \<leftarrow> bmf_convert v 0 r events;
        streams \<leftarrow> wr streams i events;
        case rest of None \<Rightarrow> Some (None, streams) | Some r \<Rightarrow> bmf_load_streams v present is r streams
      }
      else do {
        streams \<leftarrow> bmf_no_stream i streams;
        bmf_load_streams v present is r streams
      })"

definition bmf_version_of :: "bytes \<Rightarrow> bmf_version" where
  "bmf_version_of tune =
     (if take 6 tune = [0x42, 0x4D, 0x46, 0x31, 0x2E, 0x32] then BMF1_2
      else if take 6 tune = [0x42, 0x4D, 0x46, 0x31, 0x2E, 0x31] then BMF1_1
      else BMF0_9B)"

definition bmf_finish :: "(bytes option \<times> bmf_event list list) option \<Rightarrow> bmf_player \<Rightarrow> (bool \<times> bmf_player) option" where
  "bmf_finish res s = do { (rest, streams) \<leftarrow> res; Some (rest \<noteq> None, s\<lparr>bmf_streams := streams\<rparr>) }"

definition bmf_load_1x :: "bytes \<Rightarrow> bmf_player \<Rightarrow> (bool \<times> bmf_player) option" where
  "bmf_load_1x r s =
     (case bmf_text (bmf_title s) r of None \<Rightarrow> Some (False, s) | Some (title, r) \<Rightarrow>
      let s = s\<lparr>bmf_title := title\<rparr> in
      case bmf_text (bmf_author s) r of None \<Rightarrow> Some (False, s) | Some (author, r) \<Rightarrow>
      let s = s\<lparr>bmf_author := author\<rparr> in
      case r of [] \<Rightarrow> Some (False, s) | speed # r \<Rightarrow>
      let s = s\<lparr>bmf_speed := speed\<rparr> in
      if length r < 4 then Some (False, s)
      else do {
        (rest, insts) \<leftarrow> bmf_load_instruments (bmf_version s) (bmf_flags r) [0..<32] (drop 4 r) (bmf_instruments s);
        let s = s\<lparr>bmf_instruments := insts\<rparr>;
        case rest of None \<Rightarrow> Some (False, s) | Some r \<Rightarrow>
          if length r < 4 then Some (False, s)
          else bmf_finish (bmf_load_streams (bmf_version s) (\<lambda>i. bit (bmf_flags r) (31 - i)) [0..<9]
                 (drop 4 r) (bmf_streams s)) s
      })"

definition bmf_load_09b :: "bmf_player \<Rightarrow> (bool \<times> bmf_player) option" where
  "bmf_load_09b s = do {
     speed \<leftarrow> rd (xad_tune s) 0;
     let s = s\<lparr>bmf_title := bmf_strncpy (xad_title s), bmf_author := bmf_strncpy (xad_author s),
               bmf_speed := speed div 3\<rparr>;
     let r = drop 6 (xad_tune s);
     if length r < 32 * 15 then Some (False, s)
     else do {
       insts \<leftarrow> bmf_load_table r [0..<32] (replicate 32 \<lparr>bi_name = replicate 11 0, bi_data = replicate 13 0\<rparr>);
       let s = s\<lparr>bmf_instruments := insts\<rparr>;
       n \<leftarrow> rd (xad_tune s) 5;
       if 9 < n then Some (False, s)
       else bmf_finish (bmf_load_streams BMF0_9B (\<lambda>i. i < unat n) [0..<9] (drop (32 * 15) r) (bmf_streams s)) s
     }
   }"

definition bmf_load :: "bmf_player \<Rightarrow> (bool \<times> bmf_player) option" where
  "bmf_load s =
     (if xad_fmt s \<noteq> xad_format_no BMF \<or> tune_size s < 6 then Some (False, s)
      else
        (let s = s\<lparr>bmf_version := bmf_version_of (xad_tune s)\<rparr>
         in if bmf_version s = BMF0_9B then bmf_load_09b s else bmf_load_1x (drop 6 (xad_tune s)) s))"

section \<open>Rewinding and playing\<close>

definition bmf_rewind :: "int \<Rightarrow> bmf_player \<Rightarrow> bmf_player option" where
  "bmf_rewind subsong s = do {
     let s = s\<lparr>bmf_channels := replicate 9 \<lparr>bc_position = 0, bc_delay = 0, bc_loop_position = 0, bc_loop_counter = 0\<rparr>,
               plr_speed := bmf_speed s, bmf_active := 9\<rparr>;
     s \<leftarrow> (if bmf_version s \<noteq> BMF0_9B then do {
            s \<leftarrow> xad_write 0x01 0x20 s;
            if bmf_version s = BMF1_1
            then ofold (\<lambda>i. ofold (\<lambda>j s. do {
                   reg \<leftarrow> rd bmf_adlib_registers (13 * i + j);
                   val \<leftarrow> rd bmf_default_instrument j;
                   xad_write reg (uint val) s
                 }) [0..<13]) [0..<9] s
            else ofold (\<lambda>i. xad_write i 0xFF) [0x20..<0x100] s
          } else Some s);
     s \<leftarrow> xad_write 0x08 0x00 s;
     xad_write 0xBD 0xC0 s
   }"

text \<open>
  Running through the cross-events to the next event of the stream, or to its end. Reading outside
  the stream is an error, and a run that never finds an event would not return.
\<close>

partial_function (option) bmf_next ::
  "bmf_event list \<Rightarrow> bmf_channel \<Rightarrow> (bmf_event option \<times> bmf_channel) option"
where
  "bmf_next stream c = do {
     event \<leftarrow> rd stream (unat (bc_position c));
     if be_cmd event = 0xFF then Some (None, c\<lparr>bc_position := 0xFFFF\<rparr>)
     else if be_cmd event = 0xFE then
       bmf_next stream (c\<lparr>bc_position := bc_position c + 1, bc_loop_position := bc_position c + 1,
                          bc_loop_counter := be_cmd_data event\<rparr>)
     else if be_cmd event = 0xFD then
       (if bc_loop_counter c \<noteq> 0
        then bmf_next stream (c\<lparr>bc_position := bc_loop_position c, bc_loop_counter := bc_loop_counter c - 1\<rparr>)
        else bmf_next stream (c\<lparr>bc_position := bc_position c + 1\<rparr>))
     else Some (Some event, c)
   }"

definition bmf_volume :: "nat \<Rightarrow> u8 \<Rightarrow> bmf_player \<Rightarrow> bmf_player option" where
  "bmf_volume k vol s = do {
     reg \<leftarrow> rd bmf_adlib_registers k;
     a \<leftarrow> rd (xad_adlib s) reg;
     xad_write reg (uint (a OR 0x3F) - uint vol) s
   }"

definition bmf_mute :: "nat \<Rightarrow> bmf_player \<Rightarrow> bmf_player option" where
  "bmf_mute i s = do { b \<leftarrow> rd (xad_adlib s) (0xB0 + i); xad_write (0xB0 + i) (uint (b AND 0xDF)) s }"

definition bmf_set_instrument :: "nat \<Rightarrow> nat \<Rightarrow> bmf_player \<Rightarrow> bmf_player option" where
  "bmf_set_instrument i ins s = do {
     s \<leftarrow> (if bmf_version s \<noteq> BMF1_1 then bmf_mute i s else Some s);
     ofold (\<lambda>j s. do {
       reg \<leftarrow> rd bmf_adlib_registers (13 * i + j);
       inst \<leftarrow> rd (bmf_instruments s) ins;
       val \<leftarrow> rd (bi_data inst) j;
       xad_write reg (uint val) s
     }) [0..<13] s
   }"

definition bmf_frequency :: "bmf_version \<Rightarrow> nat \<Rightarrow> int option" where
  "bmf_frequency v n =
     (if v = BMF1_1 then (if n < 0x60 then rd bmf_notes_2 (n mod 12) else Some 0)
      else if n \<noteq> 0x7E then rd bmf_notes (n mod 12) else Some 0)"

definition bmf_note :: "nat \<Rightarrow> nat \<Rightarrow> bmf_player \<Rightarrow> bmf_player option" where
  "bmf_note i n s = do {
     s \<leftarrow> bmf_mute i s;
     freq \<leftarrow> bmf_frequency (bmf_version s) n;
     if freq \<noteq> 0 then do {
       s \<leftarrow> xad_write (0xB0 + i) (drop_bit 8 freq OR push_bit 2 (int (n div 12)) OR 0x20) s;
       xad_write (0xA0 + i) (freq AND 0xFF) s
     } else Some s
   }"

text \<open>What an event does apart from its delay.\<close>

definition bmf_play :: "nat \<Rightarrow> bmf_event \<Rightarrow> bmf_player \<Rightarrow> bmf_player option" where
  "bmf_play i event s = do {
     s \<leftarrow> (if be_cmd event = 0x01 then bmf_volume (13 * i + 2) (be_cmd_data event) s
          else if be_cmd event = 0x10
          then Some (s\<lparr>plr_speed := be_cmd_data event, plr_speed_counter := be_cmd_data event\<rparr>)
          else Some s);
     s \<leftarrow> (if be_instrument event \<noteq> 0 then bmf_set_instrument i (unat (be_instrument event - 1)) s else Some s);
     s \<leftarrow> (if be_volume event \<noteq> 0 then bmf_volume (13 * i + 3) (be_volume event - 1) s else Some s);
     if be_note event \<noteq> 0 then bmf_note i (unat (be_note event - 1)) s else Some s
   }"

definition bmf_channel_step :: "nat \<Rightarrow> bmf_player \<Rightarrow> bmf_player option" where
  "bmf_channel_step i s = do {
     c \<leftarrow> rd (bmf_channels s) i;
     if bc_position c = 0xFFFF then Some s
     else if bc_delay c \<noteq> 0 then do {
       cs \<leftarrow> wr (bmf_channels s) i (c\<lparr>bc_delay := bc_delay c - 1\<rparr>);
       Some (s\<lparr>bmf_channels := cs\<rparr>)
     }
     else do {
       stream \<leftarrow> rd (bmf_streams s) i;
       (next_event, c) \<leftarrow> bmf_next stream c;
       case next_event of
         None \<Rightarrow> do {
           cs \<leftarrow> wr (bmf_channels s) i c;
           Some (s\<lparr>bmf_channels := cs, bmf_active := bmf_active s - 1\<rparr>)
         }
       | Some event \<Rightarrow> do {
           s \<leftarrow> bmf_play i event s;
           cs \<leftarrow> wr (bmf_channels s) i (c\<lparr>bc_delay := be_delay event, bc_position := bc_position c + 1\<rparr>);
           Some (s\<lparr>bmf_channels := cs\<rparr>)
         }
     }
   }"

definition bmf_update :: "bmf_player \<Rightarrow> bmf_player option" where
  "bmf_update s = do {
     s \<leftarrow> ofold bmf_channel_step [0..<9] s;
     Some (if bmf_active s = 0
           then s\<lparr>bmf_channels := map (\<lambda>c. c\<lparr>bc_position := 0\<rparr>) (bmf_channels s), bmf_active := 9, plr_looping := True\<rparr>
           else s)
   }"

section \<open>Converted streams\<close>

text \<open>
  A stream the player can run through: an end marker, and before it instruments that exist. The rest
  of its 1024 slots may hold anything.
\<close>

definition bmf_ends_at :: "bmf_event list \<Rightarrow> nat \<Rightarrow> bool" where
  "bmf_ends_at events e \<longleftrightarrow> length events = 1024 \<and> e < 1024 \<and> be_cmd (events ! e) = 0xFF \<and>
     (\<forall>p < e. be_instrument (events ! p) \<le> 32)"

lemma bmf_command_instrument:
  "be_instrument event = 0 \<Longrightarrow> bmf_command v event r = (e, r') \<Longrightarrow> be_instrument e \<le> 32"
proof -
  have "c - 0x20 + 1 \<le> 32" if "0x20 \<le> c" "c \<le> 0x3F" for c :: u8
  proof -
    have "unat (c - 0x20) = unat c - 0x20" using that(1) by (simp add: unat_sub)
    moreover have "unat c \<le> 0x3F" using that(2) by (simp add: word_le_nat_alt)
    ultimately have "unat (c - 0x20) \<le> 0x1F" by linarith
    moreover have "x + 1 \<le> 32" if "unat x \<le> 0x1F" for x :: u8
      using that by (simp add: word_le_nat_alt unat_word_ariths)
    ultimately show ?thesis by blast
  qed
  then show "be_instrument event = 0 \<Longrightarrow> bmf_command v event r = (e, r') \<Longrightarrow> be_instrument e \<le> 32"
    by (cases "(v, event, r)" rule: bmf_command.cases)
      (auto split: if_splits bmf_version.splits list.splits)
qed

lemma bmf_optional_instrument:
  "be_instrument event = 0 \<Longrightarrow> bmf_optional v event r = (e, r') \<Longrightarrow> be_instrument e \<le> 32"
  by (cases r) (auto simp: Let_def simp del: bmf_command.simps split: if_splits dest!: bmf_command_instrument [rotated])

lemma bmf_parse_instrument: "bmf_parse v r = (e, r') \<Longrightarrow> be_instrument e \<le> 32"
  by (cases r) (auto simp: Let_def bmf_zero_def simp del: bmf_optional.simps split: if_splits list.splits
    dest!: bmf_optional_instrument [rotated])

lemma bmf_convert_ok:
  "length events = 1024 \<Longrightarrow> pos < 1024 \<Longrightarrow> \<forall>p < pos. be_instrument (events ! p) \<le> 32 \<Longrightarrow>
   \<exists>rest evs. bmf_convert v pos stream events = Some (rest, evs) \<and> length evs = 1024 \<and>
     (rest \<noteq> None \<longrightarrow> (\<exists>e. bmf_ends_at evs e))"
proof (induction v pos stream events rule: bmf_convert.induct)
  case (1 v pos stream events)
  obtain event rest where p: "bmf_parse v stream = (event, rest)" by fastforce
  let ?evs = "events[pos := event]"
  have w: "wr events pos event = Some ?evs" using "1.prems" by (simp add: wr_Some)
  have bound: "\<forall>p < Suc pos. be_instrument (?evs ! p) \<le> 32"
    using "1.prems" bmf_parse_instrument [OF p] by (auto simp: nth_list_update less_Suc_eq)
  show ?case
  proof (cases rest)
    case None
    then show ?thesis using p w "1.prems" by (subst bmf_convert.simps) simp
  next
    case (Some r)
    show ?thesis
    proof (cases "be_cmd event = 0xFF")
      case True
      then have "bmf_ends_at ?evs pos" using "1.prems" bound by (simp add: bmf_ends_at_def)
      moreover have "bmf_convert v pos stream events = Some (Some r, ?evs)"
        using p w Some True by (subst bmf_convert.simps) simp
      ultimately show ?thesis using "1.prems" by auto
    next
      case False
      let ?pos = "if pos < 1023 then pos + 1 else pos"
      have "\<exists>rest evs. bmf_convert v ?pos r ?evs = Some (rest, evs) \<and> length evs = 1024 \<and>
          (rest \<noteq> None \<longrightarrow> (\<exists>e. bmf_ends_at evs e))"
        by (rule "1.IH" [OF p [symmetric] w Some False]) (use "1.prems" bound in auto)
      moreover have "bmf_convert v pos stream events = bmf_convert v ?pos r ?evs"
        using p w Some False by (subst bmf_convert.simps) simp
      ultimately show ?thesis by simp
    qed
  qed
qed

definition bmf_streams_ok :: "bmf_event list list \<Rightarrow> nat set \<Rightarrow> bool" where
  "bmf_streams_ok streams done \<longleftrightarrow> matrix 9 1024 streams \<and> (\<forall>i \<in> done. i < 9 \<longrightarrow> (\<exists>e. bmf_ends_at (streams ! i) e))"

lemma bmf_streams_update:
  assumes "bmf_streams_ok streams done" "i < 9" "bmf_ends_at events e"
  shows "bmf_streams_ok (streams[i := events]) (insert i done)"
proof -
  have "length events = 1024" using assms(3) by (simp add: bmf_ends_at_def)
  moreover have "length streams = 9" using assms(1) by (auto simp: bmf_streams_ok_def matrix_def)
  ultimately show ?thesis using assms by (auto simp: bmf_streams_ok_def nth_list_update)
qed

lemma bmf_no_stream_ok:
  assumes "bmf_streams_ok streams done" "i < 9"
  shows "\<exists>streams'. bmf_no_stream i streams = Some streams' \<and> bmf_streams_ok streams' (insert i done)"
proof -
  have m: "matrix 9 1024 streams" using assms(1) by (simp add: bmf_streams_ok_def)
  let ?events = "(streams ! i)[0 := (streams ! i ! 0)\<lparr>be_cmd := 0xFF\<rparr>]"
  have "bmf_ends_at ?events 0" using m assms(2) by (simp add: bmf_ends_at_def)
  moreover have "rd streams i = Some (streams ! i)" "rd (streams ! i) 0 = Some (streams ! i ! 0)"
    using m assms(2) by (simp_all add: rd_Some matrix_length)
  then have "bmf_no_stream i streams = Some (streams[i := ?events])"
    using assms(2) by (simp add: bmf_no_stream_def wr2_Some [OF m])
  ultimately show ?thesis using bmf_streams_update [OF assms] by blast
qed

lemma bmf_load_streams_ok:
  "bmf_streams_ok streams done \<Longrightarrow> \<forall>i \<in> set is. i < 9 \<Longrightarrow>
   \<exists>rest streams'. bmf_load_streams v present is r streams = Some (rest, streams') \<and> matrix 9 1024 streams' \<and>
     (rest \<noteq> None \<longrightarrow> bmf_streams_ok streams' (done \<union> set is))"
proof (induction "is" arbitrary: r streams "done")
  case Nil
  then show ?case by (simp add: bmf_streams_ok_def)
next
  case (Cons i "is")
  then have i: "i < 9" by simp
  have m: "matrix 9 1024 streams" using Cons.prems(1) by (simp add: bmf_streams_ok_def)
  show ?case
  proof (cases "present i")
    case True
    have rd: "rd streams i = Some (streams ! i)" using m i by (simp add: rd_Some matrix_length)
    have "length (streams ! i) = 1024" using m i by simp
    then obtain rest evs where c: "bmf_convert v 0 r (streams ! i) = Some (rest, evs)" "length evs = 1024"
      "rest \<noteq> None \<longrightarrow> (\<exists>e. bmf_ends_at evs e)" using bmf_convert_ok [of "streams ! i" 0 v r] by auto
    have w: "wr streams i evs = Some (streams[i := evs])" using m i by (simp add: wr_Some matrix_length)
    show ?thesis
    proof (cases rest)
      case None
      then show ?thesis using True rd c(1,2) w m i by simp
    next
      case (Some r')
      then obtain e where "bmf_ends_at evs e" using c(3) by blast
      from Cons.IH [OF bmf_streams_update [OF Cons.prems(1) i this], of r'] Cons.prems(2)
      show ?thesis using True rd c(1) w Some by simp
    qed
  next
    case False
    obtain streams' where s: "bmf_no_stream i streams = Some streams'" "bmf_streams_ok streams' (insert i done)"
      using bmf_no_stream_ok [OF Cons.prems(1) i] by blast
    from Cons.IH [OF s(2), of r] Cons.prems(2) show ?thesis using False s(1) by simp
  qed
qed

section \<open>Safety of the loader\<close>

definition bmf_insts_ok :: "bmf_instrument list \<Rightarrow> bool" where
  "bmf_insts_ok insts \<longleftrightarrow> length insts = 32 \<and> (\<forall>inst \<in> set insts. length (bi_data inst) = 13)"

definition bmf_fresh :: "bmf_player \<Rightarrow> bool" where
  "bmf_fresh s \<longleftrightarrow> xad_has_regs s \<and> bmf_insts_ok (bmf_instruments s) \<and> matrix 9 1024 (bmf_streams s)"

definition bmf_loaded :: "bmf_player \<Rightarrow> bool" where
  "bmf_loaded s \<longleftrightarrow> xad_has_regs s \<and> bmf_insts_ok (bmf_instruments s) \<and>
     (\<forall>i < 9. \<exists>e. bmf_ends_at (bmf_streams s ! i) e) \<and> length (bmf_streams s) = 9"

lemma bmf_insts_update:
  "bmf_insts_ok insts \<Longrightarrow> length (bi_data inst) = 13 \<Longrightarrow> bmf_insts_ok (insts[i := inst])"
  using set_update_subset_insert [of insts i inst] by (auto simp: bmf_insts_ok_def)

lemma bmf_load_instruments_ok:
  "bmf_insts_ok insts \<Longrightarrow> \<forall>i \<in> set is. i < 32 \<Longrightarrow>
   \<exists>rest insts'. bmf_load_instruments v flags is r insts = Some (rest, insts') \<and> bmf_insts_ok insts'"
proof (induction "is" arbitrary: r insts)
  case Nil
  then show ?case by simp
next
  case (Cons i "is")
  have i: "i < length insts" "\<forall>i \<in> set is. i < 32" using Cons.prems by (simp_all add: bmf_insts_ok_def)
  show ?case
  proof (cases "bit flags (31 - i)")
    case True
    let ?insts = "insts[i := \<lparr>bi_name = take 10 r @ [0], bi_data = take 13 (drop 11 r)\<rparr>]"
    show ?thesis
    proof (cases "length r < 24")
      case True
      then show ?thesis using \<open>bit flags (31 - i)\<close> Cons.prems(1) by simp
    next
      case False
      then have "bmf_insts_ok ?insts" using Cons.prems(1) by (intro bmf_insts_update) simp_all
      from Cons.IH [OF this i(2), of "drop 24 r"] show ?thesis using True False i(1) by (simp add: wr_Some)
    qed
  next
    case False
    let ?insts = "insts[i := \<lparr>bi_name = replicate 11 0,
      bi_data = (if v = BMF1_1 then bmf_default_instrument else replicate 13 0)\<rparr>]"
    have "bmf_insts_ok ?insts"
      using Cons.prems(1) by (intro bmf_insts_update) (simp_all add: bmf_default_instrument_def)
    from Cons.IH [OF this i(2), of r] show ?thesis using False i(1) by (simp add: wr_Some)
  qed
qed

lemma bmf_load_table_ok:
  "bmf_insts_ok insts \<Longrightarrow> \<forall>i \<in> set is. i < 32 \<Longrightarrow> 480 \<le> length r \<Longrightarrow>
   \<exists>insts'. bmf_load_table r is insts = Some insts' \<and> bmf_insts_ok insts'"
proof (induction "is" arbitrary: insts)
  case Nil
  then show ?case by simp
next
  case (Cons i "is")
  have i: "15 * i + 15 \<le> length r" using Cons.prems by simp
  then have rd: "rd r (15 * i) = Some (r ! (15 * i))" by (simp add: rd_Some)
  show ?case
  proof (cases "r ! (15 * i) < 32")
    case True
    let ?n = "unat (r ! (15 * i))"
    let ?insts = "insts[?n := (insts ! ?n)\<lparr>bi_data := take 13 (drop (15 * i + 2) r)\<rparr>]"
    have n: "?n < length insts" using True Cons.prems(1) by (simp add: bmf_insts_ok_def word_less_nat_alt)
    have "bmf_insts_ok ?insts" using Cons.prems(1) i by (intro bmf_insts_update) simp_all
    from Cons.IH [OF this] Cons.prems(2,3) show ?thesis using True rd n by (simp add: rd_Some wr_Some)
  next
    case False
    then show ?thesis using rd Cons.prems(1) by simp
  qed
qed

lemma bmf_finish_ok:
  assumes "bmf_fresh s"
  shows "\<exists>b t. bmf_finish (bmf_load_streams v present [0..<9] r (bmf_streams s)) s = Some (b, t) \<and>
    (b \<longrightarrow> bmf_loaded t)"
proof -
  have "bmf_streams_ok (bmf_streams s) {}" using assms by (simp add: bmf_fresh_def bmf_streams_ok_def)
  moreover have "\<forall>i \<in> set [0..<9]. i < (9 :: nat)" by simp
  ultimately obtain rest streams where l:
    "bmf_load_streams v present [0..<9] r (bmf_streams s) = Some (rest, streams)" "matrix 9 1024 streams"
    "rest \<noteq> None \<longrightarrow> bmf_streams_ok streams ({} \<union> set [0..<9])" using bmf_load_streams_ok by blast
  have "bmf_loaded (s\<lparr>bmf_streams := streams\<rparr>)" if "rest \<noteq> None"
    using l(2,3) that assms by (simp add: bmf_loaded_def bmf_fresh_def bmf_streams_ok_def xad_has_regs_def matrix_length)
  then show ?thesis unfolding bmf_finish_def l(1) by simp
qed

lemma bmf_load_1x_ok:
  assumes "bmf_fresh s"
  shows "\<exists>b t. bmf_load_1x r s = Some (b, t) \<and> (b \<longrightarrow> bmf_loaded t)"
proof (cases "bmf_text (bmf_title s) r")
  case None
  then show ?thesis by (auto simp: bmf_load_1x_def)
next
  case (Some tr)
  obtain title r1 where t: "bmf_text (bmf_title s) r = Some (title, r1)" using Some by (cases tr) simp
  show ?thesis
  proof (cases "bmf_text (bmf_author s) r1")
    case None
    then show ?thesis using t by (auto simp: bmf_load_1x_def Let_def)
  next
    case (Some ar)
    obtain author r2 where a: "bmf_text (bmf_author s) r1 = Some (author, r2)" using Some by (cases ar) simp
    show ?thesis
    proof (cases "r2 = [] \<or> length (tl r2) < 4")
      case True
      then show ?thesis using t a by (cases r2) (auto simp: bmf_load_1x_def Let_def)
    next
      case False
      then obtain speed r3 where r3: "r2 = speed # r3" "\<not> length r3 < 4" by (cases r2) auto
      let ?s = "s\<lparr>bmf_title := title, bmf_author := author, bmf_speed := speed\<rparr>"
      have "bmf_insts_ok (bmf_instruments s)" using assms by (simp add: bmf_fresh_def)
      moreover have "\<forall>i \<in> set [0..<32]. i < (32 :: nat)" by simp
      ultimately obtain rest insts where i: "bmf_load_instruments (bmf_version s) (bmf_flags r3) [0..<32] (drop 4 r3)
          (bmf_instruments s) = Some (rest, insts)" "bmf_insts_ok insts" using bmf_load_instruments_ok by blast
      let ?s' = "?s\<lparr>bmf_instruments := insts\<rparr>"
      have fresh: "bmf_fresh ?s'" using assms i(2) by (simp add: bmf_fresh_def xad_has_regs_def)
      show ?thesis
      proof (cases "rest = None \<or> length (the rest) < 4")
        case True
        then have "bmf_load_1x r s = Some (False, ?s')" using t a r3 i(1)
          by (cases rest) (simp_all add: bmf_load_1x_def Let_def del: upt.simps)
        then show ?thesis by blast
      next
        case False
        then obtain r4 where r4: "rest = Some r4" "\<not> length r4 < 4" by auto
        have "bmf_load_1x r s = bmf_finish (bmf_load_streams (bmf_version ?s') (\<lambda>i. bit (bmf_flags r4) (31 - i)) [0..<9]
                 (drop 4 r4) (bmf_streams ?s')) ?s'"
          using t a r3 i(1) r4 by (simp add: bmf_load_1x_def Let_def del: upt.simps)
        then show ?thesis using bmf_finish_ok [OF fresh] by metis
      qed
    qed
  qed
qed

lemma bmf_load_09b_ok:
  assumes "bmf_fresh s" "6 \<le> tune_size s"
  shows "\<exists>b t. bmf_load_09b s = Some (b, t) \<and> (b \<longrightarrow> bmf_loaded t)"
proof -
  let ?s = "s\<lparr>bmf_title := bmf_strncpy (xad_title s), bmf_author := bmf_strncpy (xad_author s),
               bmf_speed := (xad_tune s ! 0) div 3\<rparr>"
  let ?r = "drop 6 (xad_tune s)"
  have rd: "rd (xad_tune s) 0 = Some (xad_tune s ! 0)" "rd (xad_tune s) 5 = Some (xad_tune s ! 5)"
    by (rule rd_Some, use assms(2) in linarith)+
  show ?thesis
  proof (cases "length ?r < 480")
    case True
    then have "bmf_load_09b s = Some (False, ?s)" using rd by (simp add: bmf_load_09b_def Let_def)
    then show ?thesis by blast
  next
    case False
    let ?zero = "\<lparr>bi_name = replicate 11 0, bi_data = replicate 13 0\<rparr> :: bmf_instrument"
    have z: "bmf_insts_ok (replicate 32 ?zero)" by (simp add: bmf_insts_ok_def)
    have "\<forall>i \<in> set [0..<32]. i < (32 :: nat)" "480 \<le> length ?r" using False by simp_all
    from bmf_load_table_ok [OF z this] obtain insts where
      i: "bmf_load_table ?r [0..<32] (replicate 32 ?zero) = Some insts" "bmf_insts_ok insts" by blast
    let ?s' = "?s\<lparr>bmf_instruments := insts\<rparr>"
    have fresh: "bmf_fresh ?s'" using assms(1) i(2) by (simp add: bmf_fresh_def xad_has_regs_def)
    have run: "bmf_load_09b s = (if 9 < xad_tune s ! 5 then Some (False, ?s')
        else bmf_finish (bmf_load_streams BMF0_9B (\<lambda>i. i < unat (xad_tune s ! 5)) [0..<9] (drop 480 ?r) (bmf_streams ?s')) ?s')"
      using rd False i(1) by (simp add: bmf_load_09b_def Let_def del: upt.simps replicate.simps drop_drop length_drop)
    show ?thesis
    proof (cases "9 < xad_tune s ! 5")
      case True
      then show ?thesis using run by auto
    next
      case False
      then show ?thesis using run bmf_finish_ok [OF fresh] by metis
    qed
  qed
qed

lemma bmf_load_ok:
  assumes "bmf_fresh s"
  shows "\<exists>b t. bmf_load s = Some (b, t) \<and> (b \<longrightarrow> bmf_loaded t)"
proof (cases "xad_fmt s \<noteq> xad_format_no BMF \<or> tune_size s < 6")
  case True
  then have "bmf_load s = Some (False, s)" by (simp add: bmf_load_def)
  then show ?thesis by blast
next
  case False
  let ?s = "s\<lparr>bmf_version := bmf_version_of (xad_tune s)\<rparr>"
  have fresh: "bmf_fresh ?s" using assms by (simp add: bmf_fresh_def xad_has_regs_def)
  show ?thesis
  proof (cases "bmf_version_of (xad_tune s) = BMF0_9B")
    case True
    then have "bmf_load s = bmf_load_09b ?s" using False by (simp add: bmf_load_def Let_def)
    then show ?thesis using bmf_load_09b_ok [OF fresh] False by simp
  next
    case old: False
    then have "bmf_load s = bmf_load_1x (drop 6 (xad_tune s)) ?s" using False by (simp add: bmf_load_def Let_def)
    then show ?thesis using bmf_load_1x_ok [OF fresh] by simp
  qed
qed

section \<open>Cross-events\<close>

text \<open>
  The work a channel has left. A loop position lies behind the channel, except after the whole song
  has started over, when the next cross-event brings it behind the channel again; each jump costs a
  loop, and each new loop starts later in the stream.
\<close>

definition bmf_work :: "bmf_channel \<Rightarrow> nat" where
  "bmf_work c =
     (if bc_loop_position c \<le> bc_position c
      then ((1024 - unat (bc_loop_position c)) * 256 + unat (bc_loop_counter c)) * 1025 + (1024 - unat (bc_position c))
      else 1025 * 256 * 1025 + (1024 - unat (bc_position c)))"

definition bmf_chan_ok :: "bmf_event list \<Rightarrow> bmf_channel \<Rightarrow> bool" where
  "bmf_chan_ok events c \<longleftrightarrow> (\<exists>e. bmf_ends_at events e \<and> (bc_position c = 0xFFFF \<or> unat (bc_position c) \<le> e) \<and>
     unat (bc_loop_position c) \<le> e)"

lemma bmf_step_word: "unat (p :: u16) < 1024 \<Longrightarrow> unat (p + 1) = unat p + 1"
  by (simp add: unat_word_ariths)

lemma radix_less: "a < b \<Longrightarrow> k < r \<Longrightarrow> a * r + k < b * r + m" for a b k r m :: nat
proof -
  assume "a < b" "k < r"
  have "(a + 1) * r \<le> b * r" by (rule mult_le_mono1) (use \<open>a < b\<close> in simp)
  then show ?thesis using \<open>k < r\<close> by simp
qed

lemma bmf_work_forward:
  assumes "unat (bc_position c) < 1024"
  shows "bmf_work (c\<lparr>bc_position := bc_position c + 1\<rparr>) < bmf_work c"
proof -
  have n: "unat (bc_position c + 1) = unat (bc_position c) + 1" by (rule bmf_step_word [OF assms])
  let ?w = "(1024 - unat (bc_loop_position c)) * 256 + unat (bc_loop_counter c)"
  have pos: "1024 - unat (bc_position c + 1) < 1024 - unat (bc_position c)" using n assms by linarith
  show ?thesis
  proof (cases "bc_loop_position c \<le> bc_position c")
    case True
    then have "bc_loop_position c \<le> bc_position c + 1" using n by (simp add: word_le_nat_alt)
    then show ?thesis using True add_strict_left_mono [OF pos, of "?w * 1025"] by (simp add: bmf_work_def)
  next
    case False
    have "?w < 1025 * 256 + 0" by (rule radix_less) simp_all
    then have "?w * 1025 + (1024 - unat (bc_position c + 1)) < (1025 * 256 + 0) * 1025 + (1024 - unat (bc_position c))"
      by (rule radix_less) simp
    then show ?thesis using False n assms by (cases "bc_loop_position c \<le> bc_position c + 1") (simp_all add: bmf_work_def)
  qed
qed

lemma bmf_work_open:
  assumes "unat (bc_position c) < 1023"
  shows "bmf_work (c\<lparr>bc_position := bc_position c + 1, bc_loop_position := bc_position c + 1, bc_loop_counter := k\<rparr>) < bmf_work c"
proof -
  have n: "unat (bc_position c + 1) = unat (bc_position c) + 1" by (rule bmf_step_word) (use assms in simp)
  let ?l = "1024 - unat (bc_position c + 1)"
  have new: "bmf_work (c\<lparr>bc_position := bc_position c + 1, bc_loop_position := bc_position c + 1, bc_loop_counter := k\<rparr>) =
      (?l * 256 + unat k) * 1025 + ?l" by (simp add: bmf_work_def)
  have l: "?l < 1025" by simp
  show ?thesis
  proof (cases "bc_loop_position c \<le> bc_position c")
    case True
    then have "?l < 1024 - unat (bc_loop_position c)" using n assms by (simp add: word_le_nat_alt)
    then have "?l * 256 + unat k < (1024 - unat (bc_loop_position c)) * 256 + unat (bc_loop_counter c)"
      by (rule radix_less) simp
    then show ?thesis unfolding new using True by (simp only: bmf_work_def if_True) (rule radix_less [OF _ l])
  next
    case False
    have "?l * 256 + unat k < 1025 * 256 + 0" by (rule radix_less [OF l]) simp
    then have "(?l * 256 + unat k) * 1025 + ?l < (1025 * 256 + 0) * 1025 + (1024 - unat (bc_position c))"
      by (rule radix_less [OF _ l])
    then show ?thesis unfolding new using False by (simp add: bmf_work_def)
  qed
qed

lemma bmf_work_jump:
  assumes "bc_loop_counter c \<noteq> 0"
  shows "bmf_work (c\<lparr>bc_position := bc_loop_position c, bc_loop_counter := bc_loop_counter c - 1\<rparr>) < bmf_work c"
proof -
  let ?l = "1024 - unat (bc_loop_position c)" and ?k = "unat (bc_loop_counter c - 1)"
  have "?k = unat (bc_loop_counter c) - 1" using assms by (rule unat_minus_one)
  moreover have "0 < unat (bc_loop_counter c)" using assms by (auto simp: unat_gt_0)
  ultimately have k: "?k < unat (bc_loop_counter c)" by linarith
  have new: "bmf_work (c\<lparr>bc_position := bc_loop_position c, bc_loop_counter := bc_loop_counter c - 1\<rparr>) =
      (?l * 256 + ?k) * 1025 + ?l" by (simp add: bmf_work_def)
  have l: "?l < 1025" by simp
  show ?thesis
  proof (cases "bc_loop_position c \<le> bc_position c")
    case True
    have "?l * 256 + ?k < ?l * 256 + unat (bc_loop_counter c)" using k by simp
    then show ?thesis unfolding new using True by (simp only: bmf_work_def if_True) (rule radix_less [OF _ l])
  next
    case False
    have "?l * 256 + ?k < 1025 * 256 + 0" by (rule radix_less [OF l]) simp
    then have "(?l * 256 + ?k) * 1025 + ?l < (1025 * 256 + 0) * 1025 + (1024 - unat (bc_position c))"
      by (rule radix_less [OF _ l])
    then show ?thesis unfolding new using False by (simp add: bmf_work_def)
  qed
qed

text \<open>Finding the next event returns, and never adds to the work.\<close>

lemma bmf_next_ok:
  "bmf_ends_at events e \<Longrightarrow> unat (bc_position c) \<le> e \<Longrightarrow> unat (bc_loop_position c) \<le> e \<Longrightarrow>
   \<exists>r c'. bmf_next events c = Some (r, c') \<and> unat (bc_loop_position c') \<le> e \<and> bc_delay c' = bc_delay c \<and>
     (case r of None \<Rightarrow> bc_position c' = 0xFFFF
      | Some event \<Rightarrow> unat (bc_position c') < e \<and> be_instrument event \<le> 32 \<and> bmf_work c' \<le> bmf_work c)"
proof (induction "bmf_work c" arbitrary: c rule: less_induct)
  case less
  have e: "length events = 1024" "e < 1024" "be_cmd (events ! e) = 0xFF" "\<forall>p < e. be_instrument (events ! p) \<le> 32"
    using less.prems(1) by (simp_all add: bmf_ends_at_def)
  let ?p = "unat (bc_position c)"
  have rd: "rd events ?p = Some (events ! ?p)" using less.prems(2) e by (simp add: rd_Some)
  let ?event = "events ! ?p"
  have again: ?case if c': "bmf_next events c = bmf_next events c'" "bmf_work c' < bmf_work c"
    "unat (bc_position c') \<le> e" "unat (bc_loop_position c') \<le> e" "bc_delay c' = bc_delay c" for c'
  proof -
    obtain r d where d: "bmf_next events c' = Some (r, d)" "unat (bc_loop_position d) \<le> e" "bc_delay d = bc_delay c'"
      "case r of None \<Rightarrow> bc_position d = 0xFFFF
       | Some event \<Rightarrow> unat (bc_position d) < e \<and> be_instrument event \<le> 32 \<and> bmf_work d \<le> bmf_work c'"
      using less.hyps [OF c'(2) less.prems(1) c'(3,4)] by blast
    have "case r of None \<Rightarrow> bc_position d = 0xFFFF
       | Some event \<Rightarrow> unat (bc_position d) < e \<and> be_instrument event \<le> 32 \<and> bmf_work d \<le> bmf_work c"
      using d(4) c'(2) by (cases r) simp_all
    then show ?case using c'(1,5) d by auto
  qed
  consider "be_cmd ?event = 0xFF" | "be_cmd ?event = 0xFE" | "be_cmd ?event = 0xFD" "bc_loop_counter c \<noteq> 0"
    | "be_cmd ?event = 0xFD" "bc_loop_counter c = 0" | "be_cmd ?event \<noteq> 0xFF" "be_cmd ?event \<noteq> 0xFE" "be_cmd ?event \<noteq> 0xFD"
    by blast
  then show ?case
  proof cases
    case 1
    then show ?thesis using rd less.prems(3) by (subst bmf_next.simps) simp
  next
    case 2
    then have "?p \<noteq> e" using e(3) by auto
    then have p: "?p < e" using less.prems(2) by simp
    then have n: "unat (bc_position c + 1) = ?p + 1" using e(2) by (intro bmf_step_word) simp
    show ?thesis
    proof (rule again)
      show "bmf_next events c = bmf_next events (c\<lparr>bc_position := bc_position c + 1, bc_loop_position := bc_position c + 1,
          bc_loop_counter := be_cmd_data ?event\<rparr>)"
        using 2 rd by (subst bmf_next.simps) simp
    qed (use p n e(2) in \<open>simp_all add: bmf_work_open\<close>)
  next
    case 3
    show ?thesis
    proof (rule again)
      show "bmf_next events c = bmf_next events (c\<lparr>bc_position := bc_loop_position c,
          bc_loop_counter := bc_loop_counter c - 1\<rparr>)"
        using 3 rd by (subst bmf_next.simps) simp
    qed (use less.prems in \<open>simp_all add: bmf_work_jump [OF 3(2)]\<close>)
  next
    case 4
    then have "?p \<noteq> e" using e(3) by auto
    then have p: "?p < e" using less.prems(2) by simp
    then have n: "unat (bc_position c + 1) = ?p + 1" using e(2) by (intro bmf_step_word) simp
    show ?thesis
    proof (rule again)
      show "bmf_next events c = bmf_next events (c\<lparr>bc_position := bc_position c + 1\<rparr>)"
        using 4 rd by (subst bmf_next.simps) simp
    qed (use p n e(2) less.prems(3) in \<open>simp_all add: bmf_work_forward\<close>)
  next
    case 5
    then have "?p \<noteq> e" using e(3) by auto
    then have p: "?p < e" using less.prems(2) by simp
    then show ?thesis using 5 rd less.prems(3) e(4) by (subst bmf_next.simps) simp
  qed
qed

section \<open>Safety of playing\<close>

definition bmf_keeps :: "bmf_player \<Rightarrow> bmf_player \<Rightarrow> bool" where
  "bmf_keeps s t \<longleftrightarrow> xad_has_regs t \<and> bmf_instruments t = bmf_instruments s \<and> bmf_streams t = bmf_streams s \<and>
     bmf_channels t = bmf_channels s \<and> bmf_active t = bmf_active s \<and> plr_looping t = plr_looping s \<and>
     (\<exists>es. opl_out t = opl_out s @ es)"

interpretation bmf_step: step_calculus bmf_loaded bmf_keeps
  by unfold_locales (auto simp: bmf_keeps_def bmf_loaded_def)

abbreviation bmf_op :: "(bmf_player \<Rightarrow> bmf_player option) \<Rightarrow> bool" where
  "bmf_op \<equiv> op_ok bmf_loaded bmf_keeps"

lemma bmf_regs: "xad_regs s t \<Longrightarrow> bmf_keeps s t"
  by (auto simp: bmf_keeps_def xad_regs_def xad_has_regs_def)

lemma bmf_write_op: "reg < 256 \<Longrightarrow> bmf_op (xad_write reg val)"
  using op_okD [OF xad_op_write, of reg _ val] bmf_regs by (intro op_okI) (fastforce simp: bmf_loaded_def)

lemma bmf_reg_op:
  "reg < 256 \<Longrightarrow> (\<And>v. bmf_op (k v)) \<Longrightarrow> bmf_op (\<lambda>s. Option.bind (rd (xad_adlib s) reg) (\<lambda>v. k v s))"
  by (rule bmf_step.ok_read [of _ "\<lambda>_. True"]) (simp_all add: bmf_loaded_def xad_has_regs_def rd_Some)

lemma length_bmf_tables [simp]:
  "length bmf_adlib_registers = 117" "length bmf_notes = 12" "length bmf_notes_2 = 12"
  "length bmf_default_instrument = 13"
  by (simp_all add: bmf_adlib_registers_def bmf_notes_def bmf_notes_2_def bmf_default_instrument_def)

lemma bmf_registers_bound: "k < 117 \<Longrightarrow> bmf_adlib_registers ! k < 256"
proof -
  have "list_all (\<lambda>r. r < 256) bmf_adlib_registers" by (simp add: bmf_adlib_registers_def)
  then show "k < 117 \<Longrightarrow> bmf_adlib_registers ! k < 256" by (simp add: list_all_length)
qed

lemma bmf_register_op: "k < 117 \<Longrightarrow> (\<And>reg. reg < 256 \<Longrightarrow> bmf_op (f reg)) \<Longrightarrow>
   bmf_op (\<lambda>s. Option.bind (rd bmf_adlib_registers k) (\<lambda>reg. f reg s))"
  using bmf_registers_bound by (simp add: rd_Some)

lemma bmf_volume_op: "k < 117 \<Longrightarrow> bmf_op (bmf_volume k vol)"
  unfolding bmf_volume_def by (intro bmf_register_op bmf_reg_op bmf_write_op)

lemma bmf_mute_op: "i < 9 \<Longrightarrow> bmf_op (bmf_mute i)"
  unfolding bmf_mute_def by (intro bmf_reg_op bmf_write_op) simp_all

lemma bmf_set_instrument_op:
  assumes i: "i < 9" and ins: "ins < 32"
  shows "bmf_op (bmf_set_instrument i ins)"
proof -
  have inst: "bmf_op (\<lambda>s. Option.bind (rd (bmf_instruments s) ins) (\<lambda>inst. Option.bind (rd (bi_data inst) j)
      (\<lambda>val. xad_write reg (uint val) s)))" if "j < 13" "reg < 256" for j reg
  proof (rule bmf_step.ok_read [of _ "\<lambda>inst. length (bi_data inst) = 13"])
    fix s assume "bmf_loaded s"
    then show "\<exists>inst. rd (bmf_instruments s) ins = Some inst \<and> length (bi_data inst) = 13"
      using ins by (simp add: bmf_loaded_def bmf_insts_ok_def rd_Some)
  next
    fix inst :: bmf_instrument assume "length (bi_data inst) = 13"
    then show "bmf_op (\<lambda>s. Option.bind (rd (bi_data inst) j) (\<lambda>val. xad_write reg (uint val) s))"
      using bmf_write_op [OF that(2)] that(1) by (simp add: rd_Some)
  qed
  show ?thesis unfolding bmf_set_instrument_def
    by (intro bmf_step.ok_bind bmf_step.ok_if bmf_mute_op bmf_step.ok_skip bmf_step.ok_ofold bmf_register_op inst)
      (use i in auto)
qed

lemma bmf_note_op:
  assumes i: "i < 9"
  shows "bmf_op (bmf_note i n)"
proof -
  have "\<exists>freq. bmf_frequency v n = Some freq" for v by (simp add: bmf_frequency_def rd_Some)
  then have freq: "\<exists>freq. bmf_frequency (bmf_version s) n = Some freq \<and> True" for s by simp
  show ?thesis unfolding bmf_note_def
    by (intro bmf_step.ok_bind bmf_mute_op bmf_step.ok_read [of "\<lambda>s. bmf_frequency (bmf_version s) n", OF freq]
        bmf_step.ok_if bmf_step.ok_skip bmf_write_op) (use i in simp_all)
qed

lemma bmf_play_op:
  assumes i: "i < 9" and inst: "be_instrument event \<le> 32"
  shows "bmf_op (bmf_play i event)"
proof -
  have ins: "bmf_op (\<lambda>s. if be_instrument event \<noteq> 0 then bmf_set_instrument i (unat (be_instrument event - 1)) s else Some s)"
  proof (cases "be_instrument event = 0")
    case True
    then show ?thesis using bmf_step.ok_skip by simp
  next
    case False
    then have "unat (be_instrument event - 1) = unat (be_instrument event) - 1" "0 < unat (be_instrument event)"
      by (simp_all add: unat_minus_one unat_gt_0)
    moreover have "unat (be_instrument event) \<le> 32" using inst by (simp add: word_le_nat_alt)
    ultimately have "unat (be_instrument event - 1) < 32" by linarith
    then show ?thesis using bmf_set_instrument_op [OF i] False by simp
  qed
  have speed: "bmf_op (\<lambda>s. Some (s\<lparr>plr_speed := v, plr_speed_counter := v\<rparr>))" for v
    by (rule bmf_step.ok_return) (auto simp: bmf_keeps_def bmf_loaded_def xad_has_regs_def)
  show ?thesis unfolding bmf_play_def
    by (rule bmf_step.ok_bind [OF _ bmf_step.ok_bind [OF ins]])
      (intro bmf_step.ok_bind bmf_step.ok_if bmf_step.ok_skip bmf_volume_op bmf_note_op speed, use i in simp_all)+
qed

section \<open>Active channels\<close>

definition bmf_running :: "bmf_channel \<Rightarrow> bool" where
  "bmf_running c \<longleftrightarrow> bc_position c \<noteq> 0xFFFF"

definition bmf_ok :: "bmf_player \<Rightarrow> bool" where
  "bmf_ok s \<longleftrightarrow> bmf_loaded s \<and> length (bmf_channels s) = 9 \<and>
     (\<forall>i < 9. bmf_chan_ok (bmf_streams s ! i) (bmf_channels s ! i)) \<and>
     bmf_active s = int (length (filter bmf_running (bmf_channels s)))"

lemma length_filter_update:
  assumes "i < length xs"
  shows "int (length (filter P (xs[i := x]))) =
    int (length (filter P xs)) - (if P (xs ! i) then 1 else 0) + (if P x then 1 else 0)"
proof -
  have "length (filter P xs) = length (filter P (take i xs)) + (if P (xs ! i) then 1 else 0) + length (filter P (drop (Suc i) xs))"
    by (subst id_take_nth_drop [OF assms]) simp
  moreover have "length (filter P (xs[i := x])) =
      length (filter P (take i xs)) + (if P x then 1 else 0) + length (filter P (drop (Suc i) xs))"
    by (simp add: upd_conv_take_nth_drop [OF assms])
  ultimately show ?thesis by simp
qed

definition bmf_weight :: "bmf_channel \<Rightarrow> nat" where
  "bmf_weight c = (if bmf_running c then bmf_work c * 256 + unat (bc_delay c) else 0)"

text \<open>A channel's step: the others stay, and the channel has less to do, or has nothing left.\<close>

definition bmf_stepped :: "nat \<Rightarrow> bmf_player \<Rightarrow> bmf_player \<Rightarrow> bool" where
  "bmf_stepped i s t \<longleftrightarrow> bmf_ok t \<and> plr_looping t = plr_looping s \<and> (\<exists>es. opl_out t = opl_out s @ es) \<and>
     (\<forall>j. j \<noteq> i \<longrightarrow> bmf_channels t ! j = bmf_channels s ! j) \<and>
     (bmf_weight (bmf_channels t ! i) < bmf_weight (bmf_channels s ! i) \<or> \<not> bmf_running (bmf_channels t ! i))"

lemma bmf_set_channel_stepped:
  assumes s: "bmf_ok s" and i: "i < 9" and t: "bmf_loaded t" "bmf_streams t = bmf_streams s"
    "bmf_channels t = bmf_channels s" "plr_looping t = plr_looping s" "\<exists>es. opl_out t = opl_out s @ es"
    and c: "bmf_chan_ok (bmf_streams s ! i) c" "bmf_weight c < bmf_weight (bmf_channels s ! i) \<or> \<not> bmf_running c"
    and act: "act = bmf_active s - (if bmf_running (bmf_channels s ! i) then 1 else 0) + (if bmf_running c then 1 else 0)"
  shows "bmf_stepped i s (t\<lparr>bmf_channels := (bmf_channels s)[i := c], bmf_active := act\<rparr>)"
proof -
  have len: "i < length (bmf_channels s)" "length (bmf_channels s) = 9" using s i by (simp_all add: bmf_ok_def)
  let ?t = "t\<lparr>bmf_channels := (bmf_channels s)[i := c], bmf_active := act\<rparr>"
  have "act = int (length (filter bmf_running ((bmf_channels s)[i := c])))"
    using s act by (simp add: length_filter_update [OF len(1)] bmf_ok_def)
  moreover have "bmf_chan_ok (bmf_streams s ! j) ((bmf_channels s)[i := c] ! j)" if "j < 9" for j
    using s c(1) that len by (cases "j = i") (simp_all add: bmf_ok_def)
  moreover have "bmf_loaded ?t" using t(1) by (simp add: bmf_loaded_def xad_has_regs_def)
  ultimately have "bmf_ok ?t" using len t(2) by (simp add: bmf_ok_def)
  then show ?thesis using t(4,5) c(2) len by (simp add: bmf_stepped_def)
qed

lemma bmf_channel_step_ok:
  assumes s: "bmf_ok s" and i: "i < 9"
  shows "\<exists>t. bmf_channel_step i s = Some t \<and> bmf_stepped i s t"
proof -
  let ?c = "bmf_channels s ! i"
  have len: "length (bmf_channels s) = 9" and loaded: "bmf_loaded s" and chan: "bmf_chan_ok (bmf_streams s ! i) ?c"
    using s i by (simp_all add: bmf_ok_def)
  have rd: "rd (bmf_channels s) i = Some ?c" "rd (bmf_streams s) i = Some (bmf_streams s ! i)"
    using len i loaded by (simp_all add: rd_Some bmf_loaded_def)
  consider "\<not> bmf_running ?c" | "bmf_running ?c" "bc_delay ?c \<noteq> 0" | "bmf_running ?c" "bc_delay ?c = 0" by blast
  then show ?thesis
  proof cases
    case 1
    then have "bmf_channel_step i s = Some s" using rd by (simp add: bmf_channel_step_def bmf_running_def)
    then show ?thesis using 1 s by (simp add: bmf_stepped_def)
  next
    case 2
    let ?d = "?c\<lparr>bc_delay := bc_delay ?c - 1\<rparr>"
    have "unat (bc_delay ?c - 1) = unat (bc_delay ?c) - 1" "0 < unat (bc_delay ?c)"
      using 2(2) by (auto simp: unat_minus_one unat_gt_0)
    then have "bmf_weight ?d < bmf_weight ?c" using 2(1) by (simp add: bmf_weight_def bmf_running_def bmf_work_def)
    moreover have "bmf_chan_ok (bmf_streams s ! i) ?d" using chan by (simp add: bmf_chan_ok_def)
    ultimately have "bmf_stepped i s (s\<lparr>bmf_channels := (bmf_channels s)[i := ?d], bmf_active := bmf_active s\<rparr>)"
      using 2(1) by (intro bmf_set_channel_stepped [OF s i loaded]) (simp_all add: bmf_running_def)
    then show ?thesis using 2 rd len i by (simp add: bmf_channel_step_def bmf_running_def wr_Some)
  next
    case 3
    obtain e where e: "bmf_ends_at (bmf_streams s ! i) e" "unat (bc_position ?c) \<le> e" "unat (bc_loop_position ?c) \<le> e"
      using chan 3(1) by (auto simp: bmf_chan_ok_def bmf_running_def)
    obtain r c' where n: "bmf_next (bmf_streams s ! i) ?c = Some (r, c')" "unat (bc_loop_position c') \<le> e"
      "case r of None \<Rightarrow> bc_position c' = 0xFFFF
       | Some event \<Rightarrow> unat (bc_position c') < e \<and> be_instrument event \<le> 32 \<and> bmf_work c' \<le> bmf_work ?c"
      using bmf_next_ok [OF e] by blast
    show ?thesis
    proof (cases r)
      case None
      then have c': "\<not> bmf_running c'" "bmf_chan_ok (bmf_streams s ! i) c'"
        using n(2,3) e(1) by (auto simp: bmf_running_def bmf_chan_ok_def)
      have "bmf_stepped i s (s\<lparr>bmf_channels := (bmf_channels s)[i := c'], bmf_active := bmf_active s - 1\<rparr>)"
        using c' 3(1) by (intro bmf_set_channel_stepped [OF s i loaded]) simp_all
      moreover have "bmf_channel_step i s = Some (s\<lparr>bmf_channels := (bmf_channels s)[i := c'], bmf_active := bmf_active s - 1\<rparr>)"
        using 3 rd len i n(1) None by (simp add: bmf_channel_step_def bmf_running_def wr_Some)
      ultimately show ?thesis by blast
    next
      case (Some event)
      then have c': "unat (bc_position c') < e" "be_instrument event \<le> 32" "bmf_work c' \<le> bmf_work ?c"
        using n(3) by simp_all
      obtain t where t: "bmf_play i event s = Some t" "bmf_keeps s t"
        using op_okD [OF bmf_play_op [OF i c'(2)] loaded] by blast
      have e1: "e < 1024" using e(1) by (simp add: bmf_ends_at_def)
      have pos: "unat (bc_position c' + 1) = unat (bc_position c') + 1" using c'(1) e1 by (intro bmf_step_word) simp
      let ?d = "c'\<lparr>bc_delay := be_delay event, bc_position := bc_position c' + 1\<rparr>"
      have "unat (bc_position c' + 1) \<noteq> unat (0xFFFF :: u16)" using pos c'(1) e1 by simp
      then have run: "bmf_running ?d" by (auto simp: bmf_running_def)
      have "bmf_work (c'\<lparr>bc_position := bc_position c' + 1\<rparr>) < bmf_work c'"
        by (rule bmf_work_forward) (use c'(1) e1 in simp)
      moreover have "bmf_work ?d = bmf_work (c'\<lparr>bc_position := bc_position c' + 1\<rparr>)" by (simp add: bmf_work_def)
      ultimately have "bmf_work ?d < bmf_work ?c" using c'(3) by linarith
      then have "bmf_work ?d * 256 + unat (bc_delay ?d) < bmf_work ?c * 256 + unat (bc_delay ?c)"
        by (rule radix_less) simp
      then have w: "bmf_weight ?d < bmf_weight ?c" using run 3(1) by (simp add: bmf_weight_def)
      have ok: "bmf_chan_ok (bmf_streams s ! i) ?d" using e(1) n(2) pos c'(1) by (auto simp: bmf_chan_ok_def)
      have "bmf_loaded t" by (rule bmf_step.keep_pre [OF loaded t(2)])
      then have "bmf_stepped i s (t\<lparr>bmf_channels := (bmf_channels s)[i := ?d], bmf_active := bmf_active s\<rparr>)"
        using t(2) w ok 3(1) run by (intro bmf_set_channel_stepped [OF s i]) (simp_all add: bmf_keeps_def)
      moreover have "bmf_channel_step i s = Some (t\<lparr>bmf_channels := (bmf_channels s)[i := ?d], bmf_active := bmf_active s\<rparr>)"
        using 3 rd len i n(1) Some t by (simp add: bmf_channel_step_def bmf_running_def bmf_keeps_def wr_Some)
      ultimately show ?thesis by blast
    qed
  qed
qed

definition bmf_left :: "bmf_player \<Rightarrow> nat" where
  "bmf_left s = (\<Sum>i < 9. bmf_weight (bmf_channels s ! i))"

definition bmf_row :: "nat \<Rightarrow> bmf_player \<Rightarrow> bmf_player \<Rightarrow> bool" where
  "bmf_row n s t \<longleftrightarrow> bmf_ok t \<and> plr_looping t = plr_looping s \<and> (\<exists>es. opl_out t = opl_out s @ es) \<and>
     (\<forall>j. n \<le> j \<longrightarrow> bmf_channels t ! j = bmf_channels s ! j) \<and>
     (\<forall>j < n. bmf_weight (bmf_channels t ! j) < bmf_weight (bmf_channels s ! j) \<or> \<not> bmf_running (bmf_channels t ! j))"

lemma bmf_row_ok:
  assumes "bmf_ok s"
  shows "\<exists>t. ofold bmf_channel_step [0..<9] s = Some t \<and> bmf_row 9 s t"
proof (rule ofold_upt_invariant [of "\<lambda>n. bmf_row n s"])
  show "bmf_row 0 s s" using assms by (simp add: bmf_row_def)
  fix i t assume i: "i < 9" and t: "bmf_row i s t"
  then have "bmf_ok t" by (simp add: bmf_row_def)
  from bmf_channel_step_ok [OF this i] obtain u where u: "bmf_channel_step i t = Some u" "bmf_stepped i t u" by blast
  have "\<exists>es. opl_out u = opl_out s @ es" using t u(2) by (auto simp: bmf_row_def bmf_stepped_def)
  then have "bmf_row (Suc i) s u" using t u(2) by (auto simp: bmf_row_def bmf_stepped_def less_Suc_eq)
  then show "\<exists>u. bmf_channel_step i t = Some u \<and> bmf_row (Suc i) s u" using u(1) by blast
qed

lemma bmf_row_left:
  assumes "bmf_row 9 s t" "bmf_active t \<noteq> 0"
  shows "bmf_left t < bmf_left s"
  unfolding bmf_left_def
proof (rule sum_strict_mono_ex1)
  have less: "bmf_weight (bmf_channels t ! j) < bmf_weight (bmf_channels s ! j) \<or> \<not> bmf_running (bmf_channels t ! j)"
    if "j < 9" for j using assms(1) that by (simp add: bmf_row_def)
  show "\<forall>j \<in> {..<9}. bmf_weight (bmf_channels t ! j) \<le> bmf_weight (bmf_channels s ! j)"
  proof
    fix j :: nat assume "j \<in> {..<9}"
    then show "bmf_weight (bmf_channels t ! j) \<le> bmf_weight (bmf_channels s ! j)"
      using less [of j] by (cases "bmf_running (bmf_channels t ! j)") (auto simp: bmf_weight_def [of "bmf_channels t ! j"])
  qed
  have "filter bmf_running (bmf_channels t) \<noteq> []" "length (bmf_channels t) = 9"
    using assms by (auto simp: bmf_row_def bmf_ok_def)
  then obtain i where "i < 9" "bmf_running (bmf_channels t ! i)" by (auto simp: filter_empty_conv in_set_conv_nth)
  then show "\<exists>j \<in> {..<9}. bmf_weight (bmf_channels t ! j) < bmf_weight (bmf_channels s ! j)"
    using less by blast
qed simp

lemma bmf_restart_ok:
  assumes "bmf_ok s"
  shows "bmf_ok (s\<lparr>bmf_channels := map (\<lambda>c. c\<lparr>bc_position := 0\<rparr>) (bmf_channels s), bmf_active := 9, plr_looping := True\<rparr>)"
proof -
  have len: "length (bmf_channels s) = 9" using assms by (simp add: bmf_ok_def)
  have "bmf_chan_ok (bmf_streams s ! i) ((bmf_channels s ! i)\<lparr>bc_position := 0\<rparr>)" if "i < 9" for i
    using assms that by (fastforce simp: bmf_ok_def bmf_chan_ok_def)
  moreover have "filter bmf_running (map (\<lambda>c. c\<lparr>bc_position := 0\<rparr>) (bmf_channels s)) =
      map (\<lambda>c. c\<lparr>bc_position := 0\<rparr>) (bmf_channels s)"
    by (rule filter_True) (auto simp: bmf_running_def)
  ultimately show ?thesis using assms len by (simp add: bmf_ok_def bmf_loaded_def xad_has_regs_def)
qed

lemma bmf_update_ok:
  assumes "bmf_ok s"
  shows "\<exists>t es. bmf_update s = Some t \<and> bmf_ok t \<and> opl_out t = opl_out s @ es \<and>
    (plr_looping t \<or> bmf_left t < bmf_left s)"
proof -
  obtain t where t: "ofold bmf_channel_step [0..<9] s = Some t" "bmf_row 9 s t" using bmf_row_ok [OF assms] by blast
  then have ok: "bmf_ok t" "\<exists>es. opl_out t = opl_out s @ es" by (simp_all add: bmf_row_def)
  show ?thesis
  proof (cases "bmf_active t = 0")
    case True
    then show ?thesis using t(1) ok bmf_restart_ok [OF ok(1)] by (simp add: bmf_update_def del: upt.simps ofold.simps)
  next
    case False
    then show ?thesis using t(1) ok bmf_row_left [OF t(2) False] by (simp add: bmf_update_def del: upt.simps ofold.simps)
  qed
qed

lemma bmf_rewind_ok:
  assumes "bmf_loaded s"
  shows "\<exists>t. bmf_rewind n s = Some t \<and> bmf_ok t"
proof -
  let ?zero = "\<lparr>bc_position = 0, bc_delay = 0, bc_loop_position = 0, bc_loop_counter = 0\<rparr>"
  let ?s = "s\<lparr>bmf_channels := replicate 9 ?zero, plr_speed := bmf_speed s, bmf_active := 9\<rparr>"
  have pre: "bmf_loaded ?s" using assms by (simp add: bmf_loaded_def xad_has_regs_def)
  have default: "bmf_op (\<lambda>s. Option.bind (rd bmf_default_instrument j) (\<lambda>val. xad_write reg (uint val) s))"
    if "j < 13" "reg < 256" for j reg
    using that bmf_write_op by (simp add: rd_Some)
  have "bmf_op (\<lambda>s. do {
     s \<leftarrow> (if bmf_version s \<noteq> BMF0_9B then do {
            s \<leftarrow> xad_write 0x01 0x20 s;
            if bmf_version s = BMF1_1
            then ofold (\<lambda>i. ofold (\<lambda>j s. do {
                   reg \<leftarrow> rd bmf_adlib_registers (13 * i + j);
                   val \<leftarrow> rd bmf_default_instrument j;
                   xad_write reg (uint val) s
                 }) [0..<13]) [0..<9] s
            else ofold (\<lambda>i. xad_write i 0xFF) [0x20..<0x100] s
          } else Some s);
     s \<leftarrow> xad_write 0x08 0x00 s;
     xad_write 0xBD 0xC0 s })"
    by (intro bmf_step.ok_bind bmf_step.ok_if bmf_step.ok_skip bmf_step.ok_ofold bmf_write_op bmf_register_op default) auto
  from op_okD [OF this pre] obtain t where t: "bmf_rewind n s = Some t" "bmf_keeps ?s t"
    by (auto simp: bmf_rewind_def Let_def simp del: upt.simps ofold.simps)
  have chan: "bmf_chan_ok (bmf_streams s ! i) ?zero" if "i < 9" for i
    using assms that by (auto simp: bmf_loaded_def bmf_chan_ok_def)
  have "filter bmf_running (replicate 9 ?zero) = replicate 9 ?zero" by (rule filter_True) (auto simp: bmf_running_def)
  then have "bmf_ok t" using t(2) bmf_step.keep_pre [OF pre t(2)] chan by (simp add: bmf_ok_def bmf_keeps_def)
  then show ?thesis using t(1) by blast
qed

section \<open>The song as a player\<close>

interpretation bmf: xad_ending_song bmf_load bmf_rewind bmf_update bmf_fresh bmf_ok "\<lambda>_. True" bmf_left
proof unfold_locales
  fix s :: bmf_player and n :: int
  assume "bmf_ok s"
  then have "bmf_loaded (xad_start s)"
    by (simp add: bmf_ok_def bmf_loaded_def xad_has_regs_def xad_start_def opl_init_def)
  then show "\<exists>t. bmf_rewind n (xad_start s) = Some t \<and> bmf_ok t" by (rule bmf_rewind_ok)
next
  fix s :: bmf_player assume "bmf_fresh s"
  then obtain b t where t: "bmf_load s = Some (b, t)" "b \<longrightarrow> bmf_loaded t" using bmf_load_ok by blast
  have "\<exists>u. bmf_rewind 0 (xad_start t) = Some u \<and> bmf_ok u" if b
  proof (rule bmf_rewind_ok)
    show "bmf_loaded (xad_start t)" using t(2) that by (simp add: bmf_loaded_def xad_has_regs_def xad_start_def opl_init_def)
  qed
  then show "\<exists>b t. bmf_load s = Some (b, t) \<and>
      (b \<longrightarrow> (\<exists>u. bmf_rewind 0 (xad_start t) = Some u \<and> (True \<longrightarrow> bmf_ok u)))" using t(1) by blast
next
  fix s :: bmf_player assume "bmf_ok s"
  then show "\<exists>t es. bmf_update s = Some t \<and> bmf_ok t \<and> opl_out t = opl_out s @ es" using bmf_update_ok by blast
next
  fix s t assume "bmf_ok s" "bmf_update s = Some t" "\<not> plr_looping t"
  then show "bmf_left t < bmf_left s" using bmf_update_ok [of s] by auto
qed (simp_all add: bmf_fresh_def bmf_ok_def bmf_loaded_def xad_has_regs_def bmf_left_def xad_set_header_def)

text \<open>C25: load of a BMF song of any version returns for every file, and every accepted song plays to a reported end without a fault: its loops, even stale ones after the song has started over, come to an end.\<close>

theorem bmf_song_ends:
  assumes "stream_laws io P" "\<And>f. opn filename = Some f \<Longrightarrow> P f" "bmf_fresh s"
    "length (xad_title s) = 36" "length (xad_author s) = 36"
  shows "\<exists>b t. xad_load io opn mem bmf_load bmf_rewind filename s = Some (b, t) \<and>
    (b \<longrightarrow>
      (\<exists>n u v. play (xad_update bmf_update) n t = Some u \<and> xad_update bmf_update u = Some (False, v)))"
  using bmf.load_ends [OF assms] by simp

definition bmf_new :: bmf_player where
  "bmf_new = xad_player.extend xad_zero (bmf_player.fields BMF0_9B (replicate 36 0) (replicate 36 0) 0
    (replicate 32 \<lparr>bi_name = replicate 11 0, bi_data = replicate 13 0\<rparr>) (replicate 9 (replicate 1024 bmf_zero)) 0 [])"

lemma bmf_song_ends_witness:
  "let bs = xad_file BMF 1 ([0x42, 0x4D, 0x46, 0x31, 0x2E, 0x31, 0, 0, 6] @ replicate 8 0) in
   \<exists>b t. xad_load memio (\<lambda>_. Some (mem_file bs)) (\<lambda>_. 0) bmf_load bmf_rewind ''a.xad'' bmf_new = Some (b, t) \<and>
    (b \<longrightarrow>
      (\<exists>n u v. play (xad_update bmf_update) n t = Some u \<and> xad_update bmf_update u = Some (False, v)))"
proof -
  let ?bs = "xad_file BMF 1 ([0x42, 0x4D, 0x46, 0x31, 0x2E, 0x31, 0, 0, 6] @ replicate 8 0)"
  have "length ?bs < 2 ^ 63" by (simp add: xad_file_def)
  moreover have "bmf_fresh bmf_new" "length (xad_title bmf_new) = 36" "length (xad_author bmf_new) = 36"
    by (simp_all add: bmf_fresh_def bmf_insts_ok_def xad_has_regs_def bmf_new_def bmf_player.defs xad_zero_simps)
  ultimately show ?thesis
    unfolding Let_def
    by (intro bmf_song_ends [OF mem_stream_laws [of ?bs]]) auto
qed

end
