(* ===== verification/Xhybrid.thy ===== *)
theory Xhybrid
  imports Xad
begin

text \<open>
  \<open>src/hybrid.cpp\<close>, \<open>src/hybrid.h\<close>: the Domark song. Instruments, order list and patterns lie at fixed
  places of the tune, and the loader accepts a tune of any size; what it takes to play one is
  \<open>hyb_fits\<close>. The pointers \<open>inst\<close> and \<open>order\<close> are the offsets 0 and \<open>0x1D4\<close> of the tune.
\<close>

record hyb_channel =
  hc_freq :: u16
  hc_freq_slide :: u16

record hybrid_player = xad_player +
  hyb_order_pos :: u8
  hyb_pattern_pos :: u8
  hyb_channels :: "hyb_channel list"
  hyb_speed :: u8
  hyb_speed_counter :: u8

definition hyb_adlib_registers :: "nat list" where
  "hyb_adlib_registers =
    [0xE0, 0x60, 0x80, 0x20, 0x40, 0xE3, 0x63, 0x83, 0x23, 0x43, 0xC0,
     0xE1, 0x61, 0x81, 0x21, 0x41, 0xE4, 0x64, 0x84, 0x24, 0x44, 0xC1,
     0xE2, 0x62, 0x82, 0x22, 0x42, 0xE5, 0x65, 0x85, 0x25, 0x45, 0xC2,
     0xE8, 0x68, 0x88, 0x28, 0x48, 0xEB, 0x6B, 0x8B, 0x2B, 0x4B, 0xC3,
     0xE9, 0x69, 0x89, 0x29, 0x49, 0xEC, 0x6C, 0x8C, 0x2C, 0x4C, 0xC4,
     0xEA, 0x6A, 0x8A, 0x2A, 0x4A, 0xED, 0x6D, 0x8D, 0x2D, 0x4D, 0xC5,
     0xF0, 0x70, 0x90, 0x30, 0x50, 0xF3, 0x73, 0x93, 0x33, 0x53, 0xC6,
     0xF1, 0x71, 0x91, 0x31, 0x51, 0xF4, 0x74, 0x94, 0x34, 0x54, 0xC7,
     0xF2, 0x72, 0x92, 0x32, 0x52, 0xF5, 0x75, 0x95, 0x35, 0x55, 0xC8]"

definition hyb_notes :: "u16 list" where
  "hyb_notes =
    [0x0000, 0x0000, 0x016B, 0x0181, 0x0198, 0x01B0, 0x01CA, 0x01E5, 0x0202, 0x0220, 0x0241, 0x0263, 0x0287, 0x02AE,
     0x056B, 0x0581, 0x0598, 0x05B0, 0x05CA, 0x05E5, 0x0602, 0x0620, 0x0641, 0x0663, 0x0687, 0x06AE, 0x096B, 0x0981,
     0x0998, 0x09B0, 0x09CA, 0x09E5, 0x0A02, 0x0A20, 0x0A41, 0x0A63, 0x0A87, 0x0AAE, 0x0D6B, 0x0D81, 0x0D98, 0x0DB0,
     0x0DCA, 0x0DE5, 0x0E02, 0x0E20, 0x0E41, 0x0E63, 0x0E87, 0x0EAE, 0x116B, 0x1181, 0x1198, 0x11B0, 0x11CA, 0x11E5,
     0x1202, 0x1220, 0x1241, 0x1263, 0x1287, 0x12AE, 0x156B, 0x1581, 0x1598, 0x15B0, 0x15CA, 0x15E5, 0x1602, 0x1620,
     0x1641, 0x1663, 0x1687, 0x16AE, 0x196B, 0x1981, 0x1998, 0x19B0, 0x19CA, 0x19E5, 0x1A02, 0x1A20, 0x1A41, 0x1A63,
     0x1A87, 0x1AAE, 0x1D6B, 0x1D81, 0x1D98, 0x1DB0, 0x1DCA, 0x1DE5, 0x1E02, 0x1E20, 0x1E41, 0x1E63, 0x1E87, 0x1EAE]"

definition hybrid_load :: "hybrid_player \<Rightarrow> (bool \<times> hybrid_player) option" where
  "hybrid_load s = Some (xad_fmt s = xad_format_no HYBRID, s)"

definition hybrid_rewind :: "int \<Rightarrow> hybrid_player \<Rightarrow> hybrid_player option" where
  "hybrid_rewind subsong s = do {
     let s = s\<lparr>hyb_order_pos := 0, hyb_pattern_pos := 0, hyb_speed := 6, hyb_speed_counter := 1, plr_speed := 1,
               hyb_channels := replicate 9 \<lparr>hc_freq = 0x2000, hc_freq_slide = 0\<rparr>\<rparr>;
     s \<leftarrow> xad_write 0x01 0x20 s;
     s \<leftarrow> xad_write 0xBD 0x40 s;
     s \<leftarrow> xad_write 0x08 0x00 s;
     ofold (\<lambda>i s. do {
       s \<leftarrow> ofold (\<lambda>j s. do { reg \<leftarrow> rd hyb_adlib_registers (i * 11 + j); xad_write reg 0 s }) [0..<11] s;
       s \<leftarrow> xad_write (0xA0 + i) 0x00 s;
       xad_write (0xB0 + i) 0x20 s
     }) [0..<9] s
   }"

definition hyb_write_freq :: "nat \<Rightarrow> hybrid_player \<Rightarrow> hybrid_player option" where
  "hyb_write_freq i s = do {
     c \<leftarrow> rd (hyb_channels s) i;
     s \<leftarrow> xad_write (0xA0 + i) (uint (hc_freq c AND 0xFF)) s;
     xad_write (0xB0 + i) (uint (drop_bit 8 (hc_freq c))) s
   }"

definition hyb_set_channel :: "nat \<Rightarrow> (hyb_channel \<Rightarrow> hyb_channel) \<Rightarrow> hybrid_player \<Rightarrow> hybrid_player option" where
  "hyb_set_channel i f s = do {
     c \<leftarrow> rd (hyb_channels s) i;
     cs \<leftarrow> wr (hyb_channels s) i (f c);
     Some (s\<lparr>hyb_channels := cs\<rparr>)
   }"

definition hyb_instrument :: "nat \<Rightarrow> nat \<Rightarrow> hybrid_player \<Rightarrow> hybrid_player option" where
  "hyb_instrument i ins = ofold (\<lambda>j s. do {
     reg \<leftarrow> rd hyb_adlib_registers (i * 11 + j);
     val \<leftarrow> rd (xad_tune s) ((ins - 1) * 18 + 7 + j);
     xad_write reg (uint val) s
   }) [0..<11]"

text \<open>The fields of an event, and playing one that is not a command.\<close>

definition hyb_note_of :: "u16 \<Rightarrow> nat" where "hyb_note_of event = unat (drop_bit 9 event)"
definition hyb_ins_of :: "u16 \<Rightarrow> nat" where "hyb_ins_of event = unat (drop_bit 4 (event AND 0x01F0))"
definition hyb_slide_of :: "u16 \<Rightarrow> u16" where "hyb_slide_of event = event AND 0x000F"

definition hyb_play :: "nat \<Rightarrow> u16 \<Rightarrow> hybrid_player \<Rightarrow> hybrid_player option" where
  "hyb_play i event s = do {
     s \<leftarrow> (if hyb_ins_of event \<noteq> 0 then hyb_instrument i (hyb_ins_of event) s else Some s);
     s \<leftarrow> (if hyb_note_of event \<noteq> 0 then do {
            freq \<leftarrow> rd hyb_notes (hyb_note_of event);
            hyb_set_channel i (\<lambda>c. c\<lparr>hc_freq := freq, hc_freq_slide := 0\<rparr>) s
          } else Some s);
     s \<leftarrow> (if hyb_slide_of event \<noteq> 0 then
            hyb_set_channel i (\<lambda>c. c\<lparr>hc_freq_slide :=
              - (drop_bit 3 (hyb_slide_of event)) * (hyb_slide_of event AND 7) * 2\<rparr>) s
          else Some s);
     c \<leftarrow> rd (hyb_channels s) i;
     if hc_freq c AND 0x2000 = 0 then do {
       s \<leftarrow> hyb_write_freq i s;
       s \<leftarrow> hyb_set_channel i (\<lambda>c. c\<lparr>hc_freq := hc_freq c OR 0x2000\<rparr>) s;
       hyb_write_freq i s
     } else Some s
   }"

text \<open>Channel \<open>i\<close> of the row \<open>patpos\<close>; a jump to an order up to \<open>ordpos\<close> is the end of the song.\<close>

definition hyb_row_channel :: "u8 \<Rightarrow> u8 \<Rightarrow> nat \<Rightarrow> hybrid_player \<Rightarrow> hybrid_player option" where
  "hyb_row_channel patpos ordpos i s = do {
     track \<leftarrow> rd (xad_tune s) (0x1D4 + (unat (hyb_order_pos s) * 9 + i));
     let pos = 0xADE + unat track * 64 * 2 + unat patpos * 2;
     lo \<leftarrow> rd (xad_tune s) pos;
     hi \<leftarrow> rd (xad_tune s) (pos + 1);
     let event = (push_bit 8 (ucast hi) + ucast lo :: u16);
     let tone = hyb_note_of event;
     if tone = 0x7D then Some (s\<lparr>hyb_speed := ucast (event AND 0xFF)\<rparr>)
     else if tone = 0x7E then
       Some (s\<lparr>hyb_order_pos := ucast (event AND 0xFF), hyb_pattern_pos := 0x3F,
               plr_looping := plr_looping s \<or> (ucast (event AND 0xFF) :: u8) \<le> ordpos\<rparr>)
     else if tone = 0x7F then Some (s\<lparr>hyb_pattern_pos := 0x3F\<rparr>)
     else hyb_play i event s
   }"

definition hyb_row :: "hybrid_player \<Rightarrow> hybrid_player option" where
  "hyb_row s = do {
     s \<leftarrow> ofold (hyb_row_channel (hyb_pattern_pos s) (hyb_order_pos s)) [0..<9] s;
     let s = s\<lparr>hyb_pattern_pos := hyb_pattern_pos s + 1\<rparr>;
     Some (if 0x40 \<le> hyb_pattern_pos s then s\<lparr>hyb_pattern_pos := 0, hyb_order_pos := hyb_order_pos s + 1\<rparr> else s)
   }"

definition hyb_slide :: "nat \<Rightarrow> hybrid_player \<Rightarrow> hybrid_player option" where
  "hyb_slide i s = do {
     c \<leftarrow> rd (hyb_channels s) i;
     if hc_freq_slide c \<noteq> 0 then do {
       s \<leftarrow> hyb_set_channel i (\<lambda>c. c\<lparr>hc_freq := (((hc_freq c AND 0x1FFF) + hc_freq_slide c) AND 0x1FFF) OR 0x2000\<rparr>) s;
       hyb_write_freq i s
     } else Some s
   }"

definition hybrid_update :: "hybrid_player \<Rightarrow> hybrid_player option" where
  "hybrid_update s = do {
     let s = s\<lparr>hyb_speed_counter := hyb_speed_counter s - 1\<rparr>;
     s \<leftarrow> (if hyb_speed_counter s \<noteq> 0 then Some s
          else hyb_row (s\<lparr>hyb_speed_counter := hyb_speed s\<rparr>));
     ofold hyb_slide [0..<9] s
   }"

section \<open>Safety\<close>

text \<open>
  What the tune must have, and the loader does not check: an order list of 256 positions, room for every track it
  names, and in these tracks no note beyond the table.
\<close>

definition hyb_word :: "bytes \<Rightarrow> nat \<Rightarrow> u16" where
  "hyb_word tune pos = push_bit 8 (ucast (tune ! (pos + 1))) + ucast (tune ! pos)"

definition hyb_valid :: "bytes \<Rightarrow> nat \<Rightarrow> bool" where
  "hyb_valid tune pos \<longleftrightarrow> hyb_note_of (hyb_word tune pos) < 98 \<or> 0x7D \<le> hyb_note_of (hyb_word tune pos)"

definition hyb_fits :: "bytes \<Rightarrow> bool" where
  "hyb_fits tune \<longleftrightarrow> 0xADE \<le> length tune \<and>
     list_all (\<lambda>p. let track = unat (tune ! (0x1D4 + p)) in
         0xADE + (track + 1) * 128 \<le> length tune \<and> list_all (\<lambda>row. hyb_valid tune (0xADE + track * 128 + row * 2)) [0..<64])
       [0..<2304]"

text \<open>Channel \<open>i\<close> of position \<open>p\<close> of the order list names a track that is there and valid.\<close>

lemma hyb_fits_track:
  assumes "hyb_fits tune" "i < 9"
  shows "\<exists>track. rd tune (0x1D4 + (unat (p :: u8) * 9 + i)) = Some track \<and>
    0xADE + (unat track + 1) * 128 \<le> length tune \<and> (\<forall>row < 64. hyb_valid tune (0xADE + unat track * 128 + row * 2))"
proof -
  have "unat p \<le> 255" by simp
  then have k: "unat p * 9 + i < 2304" using assms(2) by linarith
  let ?track = "tune ! (0x1D4 + (unat p * 9 + i))"
  have "list_all (\<lambda>p. let track = unat (tune ! (0x1D4 + p)) in
         0xADE + (track + 1) * 128 \<le> length tune \<and> list_all (\<lambda>row. hyb_valid tune (0xADE + track * 128 + row * 2)) [0..<64])
       [0..<2304]"
    using assms(1) by (simp only: hyb_fits_def)
  moreover have "unat p * 9 + i \<in> set [0..<2304]" using k by simp
  ultimately have "let track = unat ?track in
         0xADE + (track + 1) * 128 \<le> length tune \<and> list_all (\<lambda>row. hyb_valid tune (0xADE + track * 128 + row * 2)) [0..<64]"
    unfolding list_all_iff by (rule bspec)
  then have "0xADE + (unat ?track + 1) * 128 \<le> length tune" "\<forall>row < 64. hyb_valid tune (0xADE + unat ?track * 128 + row * 2)"
    by (auto simp only: Let_def list_all_iff set_upt atLeastLessThan_iff Ball_def zero_le simp_thms)
  moreover have "0x1D4 + (unat p * 9 + i) < length tune" using k assms(1) by (simp add: hyb_fits_def)
  ultimately show ?thesis by (simp add: rd_Some)
qed

definition hybrid_ok :: "hybrid_player \<Rightarrow> bool" where
  "hybrid_ok s \<longleftrightarrow> xad_has_regs s \<and> hyb_fits (xad_tune s) \<and> length (hyb_channels s) = 9 \<and> hyb_pattern_pos s < 0x40"

definition hyb_keeps :: "hybrid_player \<Rightarrow> hybrid_player \<Rightarrow> bool" where
  "hyb_keeps s t \<longleftrightarrow> hybrid_ok t \<and> xad_tune t = xad_tune s \<and> (\<exists>es. opl_out t = opl_out s @ es)"

interpretation hyb_step: step_calculus hybrid_ok hyb_keeps
  by unfold_locales (auto simp: hyb_keeps_def)

abbreviation hyb_op :: "(hybrid_player \<Rightarrow> hybrid_player option) \<Rightarrow> bool" where
  "hyb_op \<equiv> op_ok hybrid_ok hyb_keeps"

lemma hyb_regs: "hybrid_ok s \<Longrightarrow> xad_regs s t \<Longrightarrow> hyb_keeps s t"
  by (auto simp: hyb_keeps_def hybrid_ok_def xad_regs_def xad_has_regs_def)

lemma hyb_write_op: "reg < 256 \<Longrightarrow> hyb_op (xad_write reg val)"
  using op_okD [OF xad_op_write, of reg _ val] hyb_regs by (intro op_okI) (fastforce simp: hybrid_ok_def)

lemma length_hyb_tables [simp]: "length hyb_adlib_registers = 99" "length hyb_notes = 98"
  by (simp_all add: hyb_adlib_registers_def hyb_notes_def)

lemma hyb_register_op: "k < 99 \<Longrightarrow> (\<And>reg. reg < 256 \<Longrightarrow> hyb_op (f reg)) \<Longrightarrow>
   hyb_op (\<lambda>s. Option.bind (rd hyb_adlib_registers k) (\<lambda>reg. f reg s))"
proof -
  have "list_all (\<lambda>r. r < 256) hyb_adlib_registers" by (simp add: hyb_adlib_registers_def)
  then have "k < 99 \<Longrightarrow> hyb_adlib_registers ! k < 256" by (simp add: list_all_length)
  then show "k < 99 \<Longrightarrow> (\<And>reg. reg < 256 \<Longrightarrow> hyb_op (f reg)) \<Longrightarrow> ?thesis" by (simp add: rd_Some)
qed

lemma hyb_tune_op:
  assumes "p < 0xADE" "\<And>v. hyb_op (k v)"
  shows "hyb_op (\<lambda>s. Option.bind (rd (xad_tune s) p) (\<lambda>v. k v s))"
  by (rule hyb_step.ok_read [of _ "\<lambda>_. True"]) (use assms in \<open>auto simp: hybrid_ok_def hyb_fits_def rd_Some\<close>)

lemma hyb_channel_op:
  assumes "i < 9" "\<And>c. hyb_op (k c)"
  shows "hyb_op (\<lambda>s. Option.bind (rd (hyb_channels s) i) (\<lambda>c. k c s))"
  by (rule hyb_step.ok_read [of _ "\<lambda>_. True"]) (use assms in \<open>auto simp: hybrid_ok_def rd_Some\<close>)

lemma hyb_write_freq_op: "i < 9 \<Longrightarrow> hyb_op (hyb_write_freq i)"
  unfolding hyb_write_freq_def by (intro hyb_channel_op hyb_step.ok_bind hyb_write_op) simp_all

lemma hyb_set_channel_op: "i < 9 \<Longrightarrow> hyb_op (hyb_set_channel i f)"
  by (rule op_okI) (auto simp: hyb_set_channel_def hybrid_ok_def hyb_keeps_def xad_has_regs_def rd_Some wr_Some)

lemma hyb_instrument_op: "i < 9 \<Longrightarrow> ins < 32 \<Longrightarrow> hyb_op (hyb_instrument i ins)"
  unfolding hyb_instrument_def
  by (intro hyb_step.ok_ofold hyb_register_op hyb_tune_op hyb_write_op) auto

lemma hyb_ins_bound: "hyb_ins_of event < 32"
proof -
  have "event AND 0x01F0 \<le> 0x01F0" by (rule word_and_le1)
  then have "unat (event AND 0x01F0) \<le> 0x01F0" by (simp add: word_le_nat_alt)
  moreover have "unat (drop_bit 4 (event AND 0x01F0)) = unat (event AND 0x01F0) div 16"
    by (simp only: unat_drop_bit_eq) (simp add: drop_bit_eq_div)
  ultimately show ?thesis unfolding hyb_ins_of_def by linarith
qed

lemma hyb_play_op:
  assumes i: "i < 9" and tone: "hyb_note_of event < 98"
  shows "hyb_op (hyb_play i event)"
proof -
  have freq: "rd hyb_notes (hyb_note_of event) = Some (hyb_notes ! hyb_note_of event)" using tone by (simp add: rd_Some)
  show ?thesis unfolding hyb_play_def freq bind.bind_lunit
    by (intro hyb_step.ok_bind hyb_step.ok_if hyb_step.ok_skip hyb_instrument_op hyb_set_channel_op hyb_channel_op
        hyb_write_freq_op i hyb_ins_bound)
qed

lemma hyb_row_channel_op:
  assumes i: "i < 9" and pat: "patpos < 0x40"
  shows "hyb_op (hyb_row_channel patpos ordpos i)"
proof (rule op_okI)
  fix s assume s: "hybrid_ok s"
  have fits: "hyb_fits (xad_tune s)" using s by (simp add: hybrid_ok_def)
  obtain track where track: "rd (xad_tune s) (0x1D4 + (unat (hyb_order_pos s) * 9 + i)) = Some track"
    "0xADE + (unat track + 1) * 128 \<le> tune_size s" "\<forall>row < 64. hyb_valid (xad_tune s) (0xADE + unat track * 128 + row * 2)"
    using hyb_fits_track [OF fits i] by blast
  have row: "unat patpos < 64" using pat by (simp add: word_less_nat_alt)
  let ?pos = "0xADE + unat track * 64 * 2 + unat patpos * 2"
  have pos: "?pos = 0xADE + unat track * 128 + unat patpos * 2" by simp
  have "?pos + 1 < tune_size s" using track(2) row by (simp add: distrib_right)
  then have rd: "rd (xad_tune s) ?pos = Some (xad_tune s ! ?pos)"
    "rd (xad_tune s) (?pos + 1) = Some (xad_tune s ! (?pos + 1))"
    by (simp_all add: rd_Some)
  define event where "event = hyb_word (xad_tune s) ?pos"
  have event: "push_bit 8 (ucast (xad_tune s ! (?pos + 1))) + ucast (xad_tune s ! ?pos) = event"
    by (simp add: event_def hyb_word_def)
  have run: "hyb_row_channel patpos ordpos i s =
     (if hyb_note_of event = 0x7D then Some (s\<lparr>hyb_speed := ucast (event AND 0xFF)\<rparr>)
      else if hyb_note_of event = 0x7E then
        Some (s\<lparr>hyb_order_pos := ucast (event AND 0xFF), hyb_pattern_pos := 0x3F,
                plr_looping := plr_looping s \<or> (ucast (event AND 0xFF) :: u8) \<le> ordpos\<rparr>)
      else if hyb_note_of event = 0x7F then Some (s\<lparr>hyb_pattern_pos := 0x3F\<rparr>)
      else hyb_play i event s)"
    by (simp only: hyb_row_channel_def track(1) rd event Let_def bind.bind_lunit)
  have "hyb_note_of event < 98 \<or> 0x7D \<le> hyb_note_of event"
    using track(3) row unfolding event_def pos hyb_valid_def by blast
  moreover have "hyb_note_of event \<le> 0x7F"
  proof -
    have "unat event < 65536" by simp
    moreover have "unat (drop_bit 9 event) = unat event div 512"
      by (simp only: unat_drop_bit_eq) (simp add: drop_bit_eq_div)
    ultimately show ?thesis unfolding hyb_note_of_def by linarith
  qed
  ultimately consider "hyb_note_of event < 98" | "hyb_note_of event = 0x7D" | "hyb_note_of event = 0x7E"
    | "hyb_note_of event = 0x7F" by linarith
  then show "\<exists>t. hyb_row_channel patpos ordpos i s = Some t \<and> hyb_keeps s t"
  proof cases
    case 1
    then have "hyb_row_channel patpos ordpos i s = hyb_play i event s" unfolding run by simp
    then show ?thesis using op_okD [OF hyb_play_op [OF i 1] s] by simp
  qed (use s in \<open>simp_all add: run hyb_keeps_def hybrid_ok_def xad_has_regs_def\<close>)
qed

lemma hyb_row_op: "hyb_op hyb_row"
proof (rule op_okI)
  fix s assume s: "hybrid_ok s"
  have "hyb_op (ofold (hyb_row_channel (hyb_pattern_pos s) (hyb_order_pos s)) [0..<9])"
    by (intro hyb_step.ok_ofold hyb_row_channel_op) (use s in \<open>auto simp: hybrid_ok_def\<close>)
  from op_okD [OF this s] obtain t where t:
    "ofold (hyb_row_channel (hyb_pattern_pos s) (hyb_order_pos s)) [0..<9] s = Some t" "hyb_keeps s t" by blast
  let ?t = "t\<lparr>hyb_pattern_pos := hyb_pattern_pos t + 1\<rparr>"
  let ?u = "if 0x40 \<le> hyb_pattern_pos ?t then ?t\<lparr>hyb_pattern_pos := 0, hyb_order_pos := hyb_order_pos ?t + 1\<rparr> else ?t"
  have "hyb_row s = Some ?u" using t(1) by (simp add: hyb_row_def Let_def del: upt.simps ofold.simps)
  moreover have "hyb_keeps s ?u" using t(2) by (auto simp: hyb_keeps_def hybrid_ok_def xad_has_regs_def)
  ultimately show "\<exists>u. hyb_row s = Some u \<and> hyb_keeps s u" by blast
qed

lemma hyb_slide_op: "i < 9 \<Longrightarrow> hyb_op (hyb_slide i)"
  unfolding hyb_slide_def
  by (intro hyb_channel_op hyb_step.ok_if hyb_step.ok_bind hyb_set_channel_op hyb_write_freq_op hyb_step.ok_skip)

lemma hybrid_update_op: "hyb_op hybrid_update"
proof -
  have count: "hyb_op (\<lambda>s. Some (s\<lparr>hyb_speed_counter := f s\<rparr>))" for f
    by (rule hyb_step.ok_return) (auto simp: hyb_keeps_def hybrid_ok_def xad_has_regs_def)
  have "hyb_op (\<lambda>s. Option.bind (Some (s\<lparr>hyb_speed_counter := hyb_speed s\<rparr>)) hyb_row)"
    by (rule hyb_step.ok_bind [OF count hyb_row_op])
  then have row: "hyb_op (\<lambda>s. hyb_row (s\<lparr>hyb_speed_counter := hyb_speed s\<rparr>))" by simp
  have "hyb_op (\<lambda>s. Option.bind (Some (s\<lparr>hyb_speed_counter := hyb_speed_counter s - 1\<rparr>)) (\<lambda>s.
      Option.bind (if hyb_speed_counter s \<noteq> 0 then Some s else hyb_row (s\<lparr>hyb_speed_counter := hyb_speed s\<rparr>))
        (ofold hyb_slide [0..<9])))"
    by (intro hyb_step.ok_bind count hyb_step.ok_if hyb_step.ok_skip row hyb_step.ok_ofold hyb_slide_op) simp
  then show ?thesis by (simp add: hybrid_update_def [abs_def] Let_def del: upt.simps ofold.simps)
qed

lemma hybrid_rewind_returns:
  assumes "xad_has_regs s"
  shows "\<exists>t. hybrid_rewind n s = Some t \<and> xad_tune t = xad_tune s \<and> hyb_speed_counter t = 1 \<and>
    plr_speed_counter t = plr_speed_counter s \<and> (hyb_fits (xad_tune s) \<longrightarrow> hybrid_ok t)"
proof -
  let ?s = "s\<lparr>hyb_order_pos := 0, hyb_pattern_pos := 0, hyb_speed := 6, hyb_speed_counter := 1, plr_speed := 1,
               hyb_channels := replicate 9 \<lparr>hc_freq = 0x2000, hc_freq_slide = 0\<rparr>\<rparr>"
  have pre: "xad_has_regs ?s" using assms by (simp add: xad_has_regs_def)
  have reg: "xad_op (\<lambda>s. Option.bind (rd hyb_adlib_registers k) (\<lambda>reg. xad_write reg 0 s))" if "k < 99" for k
  proof -
    have "list_all (\<lambda>r. r < 256) hyb_adlib_registers" by (simp add: hyb_adlib_registers_def)
    then have "hyb_adlib_registers ! k < 256" using that by (simp add: list_all_length)
    then show ?thesis using that xad_op_write by (simp add: rd_Some)
  qed
  have "xad_op (\<lambda>s. do {
     s \<leftarrow> xad_write 0x01 0x20 s;
     s \<leftarrow> xad_write 0xBD 0x40 s;
     s \<leftarrow> xad_write 0x08 0x00 s;
     ofold (\<lambda>i s. do {
       s \<leftarrow> ofold (\<lambda>j s. do { reg \<leftarrow> rd hyb_adlib_registers (i * 11 + j); xad_write reg 0 s }) [0..<11] s;
       s \<leftarrow> xad_write (0xA0 + i) 0x00 s;
       xad_write (0xB0 + i) 0x20 s
     }) [0..<9] s })"
    by (intro xw.ok_bind xw.ok_ofold xad_op_write reg) auto
  from op_okD [OF this pre] obtain t where t: "hybrid_rewind n s = Some t" "xad_regs ?s t"
    by (auto simp: hybrid_rewind_def Let_def simp del: upt.simps ofold.simps)
  then show ?thesis by (auto simp: xad_regs_def hybrid_ok_def xad_has_regs_def)
qed

section \<open>The song as a player\<close>

interpretation hybrid: xad_song hybrid_load hybrid_rewind hybrid_update xad_has_regs hybrid_ok hyb_fits
proof unfold_locales
  fix s :: hybrid_player and n :: int
  assume s: "hybrid_ok s"
  then have "xad_has_regs (xad_start s)" "xad_tune (xad_start s) = xad_tune s" "hyb_fits (xad_tune s)"
    by (simp_all add: hybrid_ok_def xad_has_regs_def xad_start_def opl_init_def)
  then show "\<exists>t. hybrid_rewind n (xad_start s) = Some t \<and> hybrid_ok t"
    using hybrid_rewind_returns [of "xad_start s" n] by auto
next
  fix s :: hybrid_player assume "xad_has_regs s"
  then have "xad_has_regs (xad_start s)" by (simp add: xad_has_regs_def xad_start_def opl_init_def)
  from hybrid_rewind_returns [OF this, of 0] show "\<exists>b t. hybrid_load s = Some (b, t) \<and>
      (b \<longrightarrow> (\<exists>u. hybrid_rewind 0 (xad_start t) = Some u \<and> (hyb_fits (xad_tune u) \<longrightarrow> hybrid_ok u)))"
    by (auto simp: hybrid_load_def)
next
  fix s :: hybrid_player assume "hybrid_ok s"
  from op_okD [OF hybrid_update_op this] show "\<exists>t es. hybrid_update s = Some t \<and> hybrid_ok t \<and> opl_out t = opl_out s @ es"
    by (auto simp: hyb_keeps_def)
qed (simp_all add: hybrid_ok_def xad_has_regs_def xad_set_header_def)

text \<open>C27: load of a Domark song returns for every file. An accepted song whose tune has an order list of 256 positions,
  holds every track it names, and has in these tracks only notes of the table plays for any number of ticks without
  a fault.\<close>

theorem hybrid_song_plays:
  assumes "stream_laws io P" "\<And>f. opn filename = Some f \<Longrightarrow> P f" "xad_has_regs s"
    "length (xad_title s) = 36" "length (xad_author s) = 36"
  shows "\<exists>b t. xad_load io opn mem hybrid_load hybrid_rewind filename s = Some (b, t) \<and>
    (b \<and> hyb_fits (xad_tune t) \<longrightarrow>
      (\<forall>n. \<exists>u es. play (xad_update hybrid_update) n t = Some u \<and> opl_out u = opl_out t @ es))"
  by (rule hybrid.load_plays [OF assms])

definition hybrid_new :: hybrid_player where
  "hybrid_new = xad_player.extend xad_zero (hybrid_player.fields 0 0 [] 0 0)"

lemma hybrid_song_plays_witness:
  "let bs = xad_file HYBRID 1 (replicate 2910 0) in
   \<exists>b t. xad_load memio (\<lambda>_. Some (mem_file bs)) (\<lambda>_. 0) hybrid_load hybrid_rewind ''a.xad'' hybrid_new = Some (b, t) \<and>
    (b \<and> hyb_fits (xad_tune t) \<longrightarrow>
      (\<forall>n. \<exists>u es. play (xad_update hybrid_update) n t = Some u \<and> opl_out u = opl_out t @ es))"
proof -
  let ?bs = "xad_file HYBRID 1 (replicate 2910 0)"
  have "length ?bs < 2 ^ 63" by (simp add: xad_file_def)
  moreover have "xad_has_regs hybrid_new" "length (xad_title hybrid_new) = 36" "length (xad_author hybrid_new) = 36"
    by (simp_all add: xad_has_regs_def hybrid_new_def hybrid_player.defs xad_zero_simps)
  ultimately show ?thesis
    unfolding Let_def
    by (intro hybrid_song_plays [OF mem_stream_laws [of ?bs]]) auto
qed

text \<open>C28: A Domark song whose tune is too short to hold an order list is accepted and rewound, and its first update reads outside the tune.\<close>

theorem hybrid_short_tune_faults:
  assumes "xad_fmt s = xad_format_no HYBRID" "xad_has_regs s" "tune_size s \<le> 0x1D4"
  shows "hybrid_load s = Some (True, s) \<and>
    (\<exists>t. xad_rewind hybrid_rewind n s = Some t \<and> xad_update hybrid_update t = None)"
proof
  show "hybrid_load s = Some (True, s)" using assms(1) by (simp add: hybrid_load_def)
  have regs: "xad_has_regs (xad_start s)" and start: "xad_tune (xad_start s) = xad_tune s" "plr_speed_counter (xad_start s) = 1"
    using assms(2) by (simp_all add: xad_has_regs_def xad_start_def opl_init_def)
  from hybrid_rewind_returns [OF regs, of n] obtain t where t: "hybrid_rewind n (xad_start s) = Some t"
    "xad_tune t = xad_tune s" "hyb_speed_counter t = 1" "plr_speed_counter t = 1" unfolding start by blast
  have "\<not> 0x1D4 + (k * 9 + 0) < tune_size s" for k using assms(3) by simp
  then have "hyb_row_channel p q 0 u = None" if "xad_tune u = xad_tune s" for p q u
    using that by (simp add: hyb_row_channel_def rd_None del: add_0_right)
  then have "hyb_row u = None" if "xad_tune u = xad_tune s" for u
    using that by (simp add: hyb_row_def upt_conv_Cons)
  then have "xad_update hybrid_update t = None"
    using t(2-4) by (simp add: xad_update_def hybrid_update_def Let_def)
  then show "\<exists>t. xad_rewind hybrid_rewind n s = Some t \<and> xad_update hybrid_update t = None"
    using t(1) by (auto simp: xad_rewind_def)
qed

lemma hybrid_short_tune_witness:
  "let s = hybrid_new\<lparr>xad_fmt := 6\<rparr> in hybrid_load s = Some (True, s) \<and>
    (\<exists>t. xad_rewind hybrid_rewind 0 s = Some t \<and> xad_update hybrid_update t = None)"
  unfolding Let_def
  by (rule hybrid_short_tune_faults)
    (simp_all add: xad_has_regs_def hybrid_new_def hybrid_player.defs xad_zero_simps)

end
