(* ===== verification/Spec2Isabelle.thy ===== *)
theory Spec2Isabelle
  imports Prelude Binio Database Sixdepack Opl Surround Player Raw Diskopl Capture
    Players Loader Imf Got Dro Dro2 Xsm Hsc Hsp Mtk Unlzss U6lzw U6m
    Steps Protrack Modsafe Modplay Modload Adtrack Dtm Sa2
    Amd Dfm Mad Fmc Cffpack Cff Msc Sng Mkj Bam
    Xad Xhyp Xpsi Xflash Xrat Xbmf Xhybrid
begin

text \<open>
  AdPlug, a library that plays music written for the OPL2 and OPL3 sound chips. A host opens a file with
  \<open>CAdPlug::factory\<close>, which asks the known players in turn to \<open>load\<close> it; the player that accepts it is
  then driven by \<open>update\<close>, once per tick, and tells the chip behind the interface \<open>Copl\<close> which registers to
  write. This development models the code of \<open>src/src\<close> that carries that logic and proves what makes it
  correct: that loaders return on every file and never leave their buffers, that what they accept can be
  played without a fault, that songs end, and that the formats the library writes are read back.

  \<^bold>\<open>How the program is modelled.\<close> Every object is a record with the members of its class; a class that
  extends another extends its record, so a player is a \<open>cplayer\<close>, whose one field \<open>opl_out\<close> is what the chip
  has been told. A function of the code is a function on that state. Machine integers keep their width
  (\<open>u8\<close>, \<open>u16\<close>, \<open>u32\<close>, and \<open>int\<close> where the code computes in \<open>int\<close> within its range); arrays are lists,
  read and written with \<open>rd\<close> and \<open>wr\<close>, which fail out of range. \<open>None\<close> therefore stands for behaviour the
  C++ language leaves undefined: an access outside an array, a division by zero, or, for the loops defined by
  \<open>partial_function (option)\<close>, a run that never returns. A theorem whose conclusion is \<open>\<exists>t. f s = Some t\<close> says
  that the code neither faults nor hangs. Errors the code reports itself are values: the boolean result of
  \<open>load\<close> and \<open>update\<close>, the error code of the Sixpack decoder, the empty result of a lookup.

  \<^bold>\<open>Parameters.\<close> The stream library libbinio is not part of the repository: it is the record \<open>binio\<close> of
  operations, with \<open>stream_laws\<close> for what loaders rely on and \<open>binio_laws\<close> for byte order; the list of bytes
  \<open>memio\<close> satisfies both and is used by the witnesses. How a name becomes a stream is an \<open>opener\<close>. Floating
  point appears as records of the few operations used (\<open>float_ops\<close>, \<open>rate_ops\<close>). Memory that the code
  allocates and does not clear has the contents of a function \<open>mem\<close>, over which every theorem quantifies.

  \<^bold>\<open>Theories.\<close>
  \<^item> \<open>Prelude\<close>: integers, checked accesses, loops over an index list that may fail. \<open>Steps\<close>: a calculus for
    operations that may fault, the locale \<open>step_calculus\<close>, which proves the safety of a handler along its body.
  \<^item> \<open>Binio\<close>: streams and \<open>CFileProvider\<close> (\<open>fprovide.cpp\<close>). \<open>Loader\<close>: what loaders share: stream laws, reading
    and the locale \<open>tick_loop\<close> of players that send entries until one has a delay.
  \<^item> \<open>Opl\<close>: \<open>Copl\<close>, \<open>CSilentopl\<close>, \<open>CRealopl\<close> with its volume cache and \<open>CAnalopl\<close> with its key-on bits
    (\<open>opl.h\<close>, \<open>silentopl.h\<close>, \<open>realopl.cpp\<close>, \<open>analopl.cpp\<close>). \<open>Diskopl\<close>: the recording chip (\<open>diskopl.cpp\<close>).
    \<open>Surround\<close>: two chips as one, the second slightly higher (\<open>surroundopl.cpp\<close>); its arithmetic on \<open>double\<close> is
    the record \<open>harmonics\<close>, and \<open>hm_exact\<close> what it computes at the default offset.
  \<^item> \<open>Database\<close>: the module database (\<open>database.cpp\<close>), keys, records, the hash table with its chains, and its
    file format. The locale \<open>record_store\<close> is what the players use of it; the refinement to a finite map
    interprets it.
  \<^item> \<open>Sixdepack\<close>: the Sixpack decompressor (\<open>sixdepack.cpp\<close>). \<open>Mtk\<close> and \<open>Hsp\<close> hold the decompressors of
    their formats, \<open>Unlzss\<close> the one of \<open>unlzss.c\<close>, shown to invert a packer; \<open>U6lzw\<close>
    the LZW decompressor of \<open>u6m.cpp\<close> with its dictionary.
  \<^item> \<open>Player\<close>: the base class (\<open>player.cpp\<close>), \<open>songlength\<close> and \<open>seek\<close> over any player. The locale \<open>player\<close> is
    the contract of \<open>update\<close> and \<open>rewind\<close>: from a well-formed object they return a well-formed one and only add
    to what the chip was told. \<open>ending_player\<close> extends it by a measure that drops with every tick that reports
    more to come, from which it follows that the song ends and that \<open>songlength\<close> and \<open>seek\<close> return. \<open>play_on\<close> plays
    updates that report more to come, and a song \<open>comes_to_end\<close> or \<open>comes_to_fault\<close>, never both.
  \<^item> \<open>Players\<close>: descriptors, the table of all players and the factory (\<open>players.cpp\<close>, \<open>adplug.cpp\<close>).
  \<^item> Stream players, each an interpretation of \<open>player\<close> and all but \<open>Xsm\<close> of \<open>ending_player\<close>: \<open>Raw\<close>, \<open>Imf\<close>, \<open>Got\<close>, \<open>Dro\<close>, \<open>Dro2\<close>, \<open>Xsm\<close>,
    \<open>Hsc\<close> (\<open>raw.cpp\<close>, \<open>imf.cpp\<close>, \<open>got.cpp\<close>, \<open>dro.cpp\<close>, \<open>dro2.cpp\<close>, \<open>xsm.cpp\<close>, \<open>hsc.cpp\<close>), with \<open>Hsp\<close> and \<open>Mtk\<close> the
    loaders that produce HSC songs. \<open>Capture\<close> joins \<open>Diskopl\<close> and \<open>Raw\<close>: what is recorded is played back.
    \<open>Msc\<close> is the MSCplay player (\<open>msc.cpp\<close>), whose decoder is shown to deliver the octets that the literals and
    copies of its blocks stand for, where no length is left over from before; where one is, the fault is a theorem. \<open>Sng\<close> (\<open>sng.cpp\<close>) has an exact criterion for the songs that end. \<open>Mkj\<close>
    (\<open>mkj.cpp\<close>) is safe on every song, but may not return; \<open>mkj_stuck\<close> says exactly when. \<open>Bam\<close> (\<open>bam.cpp\<close>) is an interpreter with loops,
    shown to play what a structured song means. \<open>U6m\<close> is the Ultima 6 player, a command interpreter with a stack of subsongs.
  \<^item> The Protracker engine \<open>CmodPlayer\<close> (\<open>protrack.cpp\<close>): \<open>Protrack\<close> has the code, \<open>Modsafe\<close> and \<open>Modplay\<close> its
    safety and its end, \<open>Modload\<close> what the loaders share. Its loaders: \<open>Adtrack\<close>, \<open>Dtm\<close>, \<open>Sa2\<close>, \<open>Amd\<close>, \<open>Dfm\<close>,
    \<open>Mad\<close>, \<open>Fmc\<close>, \<open>Cff\<close> (the files of the same names); \<open>Cffpack\<close> is the decompressor of \<open>cff.cpp\<close>, a dictionary of
    strings with codewords of growing width.
  \<^item> The XAD container (\<open>xad.cpp\<close>): \<open>Xad\<close> has the container and the locales \<open>xad_song\<close> and \<open>xad_ending_song\<close>,
    the contract of a format's virtual functions, which give the contract of a player by \<open>sublocale\<close>. The
    formats \<open>Xhyp\<close>, \<open>Xpsi\<close>, \<open>Xflash\<close>, \<open>Xrat\<close>, \<open>Xbmf\<close>, \<open>Xhybrid\<close> interpret them
    (\<open>hyp.cpp\<close>, \<open>psi.cpp\<close>, \<open>flash.cpp\<close>, \<open>rat.cpp\<close>, \<open>bmf.cpp\<close>, \<open>hybrid.cpp\<close>).
  \<^bold>\<open>What the lemmas show.\<close> Each theory of a player has the code first, then a well-formedness predicate
  (\<open>..._ok\<close>), lemmas that every operation returns and keeps it, the interpretation of the contract, and the
  properties: a file is loaded without a fault, and what is accepted plays to its end. Round trips say that
  a recorded session, a saved database, an encoded capture, packed blocks and whole songs are read back as they
  were. The refinement of the database, the equivalence of the sliding window copy and of the factory with their
  specifications, and the code-tree invariant of the Sixpack decoder are stated against reference
  definitions of their own. Where the code accepts a file it cannot play, a theorem shows the fault.

  \<^bold>\<open>Bounds and fuel.\<close> Loops that the code bounds by a counter are folds over the counter's range. The order
  jumps of the Protracker engine, the LZW walk, the Ultima 6 interpreter, the tick loops, the cross-events of
  BMF, the event loops of the SNG, MKJamz, BAM and MSCplay players and the measuring loops of the base class have
  no bound in the code and are partial functions; their
  termination is a theorem where it holds, from a measure on the state, and several theorems show inputs for
  which they do not end. \<open>mod_jumps_end\<close>, which decides whether the order jumps of a loaded module end,
  follows at most as many jumps as the list has entries: a longer chain repeats one. The conversion of a
  BMF stream and the parsers recurse on a rest of the input that gets shorter.

  \<^bold>\<open>Not modelled.\<close> The chip emulators (\<open>fmopl.c\<close>, \<open>nukedopl.c\<close>, \<open>woodyopl.cpp\<close>, \<open>adlibemu.c\<close>) are vendored signal
  processing, and their wrappers convert samples. Of the database, \<open>user_read\<close> and \<open>user_write\<close> talk to a
  terminal. Getters that format strings or return constants change no state and are left out, as are
  destructors. The Adlib Tracker 2 engine with its other decompressors, the MIDI-style players and the remaining
  players are not modelled yet; their interfaces to the host are the same as those of the players that are.
\<close>

end
